(* ===== verification/Prelude.thy ===== *)
theory Prelude
  imports Complex_Main "HOL-Library.Word"
begin

text \<open>
  Shared vocabulary of the development: bytes, buffers as byte lists, big-endian
  16-bit fields, and the generic facts on lists, words and arithmetic that more
  than one component uses.

  C memory is modelled by byte lists.  A read is \<^term>\<open>xs ! i\<close>, which is only
  meaningful for \<^term>\<open>i < length xs\<close>; the component theories state as theorems that
  every read and write stays in range, or guard it where the C code guards it.
\<close>

unbundle bit_operations_syntax

named_theorems inv_intros
  \<open>introduction rules for the state invariants of the components\<close>

named_theorems inv_elims
  \<open>consequences of the state invariants of the components\<close>

type_synonym byte = "8 word"
type_synonym bytes = "byte list"

text \<open>C character and string literals as bytes.\<close>

definition chr :: "char \<Rightarrow> byte" where
  "chr c = of_char c"

definition cstr :: "string \<Rightarrow> bytes" where
  "cstr s = map chr s"

text \<open>The C string held in a byte array: the bytes before the first NUL.\<close>

definition c_string :: "bytes \<Rightarrow> bytes" where
  "c_string bs = takeWhile (\<lambda>c. c \<noteq> 0) bs"

text \<open>\<open>memcpy\<close> of \<open>bs\<close> to offset \<open>off\<close> of an array.\<close>

definition write_at :: "nat \<Rightarrow> bytes \<Rightarrow> bytes \<Rightarrow> bytes" where
  "write_at off bs mem = take off mem @ bs @ drop (off + length bs) mem"

text \<open>A slice of \<open>n\<close> bytes at offset \<open>off\<close>.\<close>

definition mid :: "nat \<Rightarrow> nat \<Rightarrow> 'a list \<Rightarrow> 'a list" where
  "mid off n xs = take n (drop off xs)"

text \<open>\<open>htons\<close>/\<open>ntohs\<close> on the wire: the two bytes of a 16-bit field, most significant first.\<close>

definition be16 :: "nat \<Rightarrow> bytes" where
  "be16 n = [word_of_nat (n div 256), word_of_nat (n mod 256)]"

definition be16_val :: "bytes \<Rightarrow> nat" where
  "be16_val bs = 256 * unat (bs ! 0) + unat (bs ! 1)"

lemma length_cstr [simp]: "length (cstr s) = length s"
  by (simp add: cstr_def)

lemma length_be16 [simp]: "length (be16 n) = 2"
  by (simp add: be16_def)

lemma unat_byte_lt [simp]: "unat (b :: byte) < 256"
  using unsigned_less [of b] by simp

lemma unat_byte_le [simp]: "unat (b :: byte) \<le> 255"
  using unat_byte_lt [of b] by linarith

lemma unat_of_nat_byte [simp]: "unat (word_of_nat n :: byte) = n mod 256"
  by (simp add: unat_of_nat)

lemma be16_val_be16 [simp]: "n < 65536 \<Longrightarrow> be16_val (be16 n) = n"
  by (simp add: be16_val_def be16_def)

lemma be16_val_be16_append [simp]: "n < 65536 \<Longrightarrow> be16_val (be16 n @ xs) = n"
  by (simp add: be16_val_def be16_def)

lemma be16_val_bound: "be16_val bs < 65536"
proof -
  have "unat (bs ! 0) \<le> 255" "unat (bs ! 1) \<le> 255" by simp_all
  then show ?thesis unfolding be16_val_def by linarith
qed

lemma length_write_at [simp]:
  "off + length bs \<le> length mem \<Longrightarrow> length (write_at off bs mem) = length mem"
  by (simp add: write_at_def)

lemma length_write_at_ge: "length mem \<le> length (write_at off bs mem)"
  by (simp add: write_at_def)

lemma length_mid [simp]: "off + n \<le> length xs \<Longrightarrow> length (mid off n xs) = n"
  by (simp add: mid_def)

lemma mid_write_at [simp]:
  "off \<le> length mem \<Longrightarrow> n = length bs \<Longrightarrow> mid off n (write_at off bs mem) = bs"
  by (simp add: write_at_def mid_def)

lemma take_write_at [simp]: "off \<le> length mem \<Longrightarrow> take off (write_at off bs mem) = take off mem"
  by (simp add: write_at_def)

lemma write_at_0: "write_at 0 bs mem = bs @ drop (length bs) mem"
  by (simp add: write_at_def)

lemma take_write_at_end:
  "off \<le> length mem \<Longrightarrow> n = off + length bs \<Longrightarrow> take n (write_at off bs mem) = take off mem @ bs"
  by (simp add: write_at_def)

lemma mid_0 [simp]: "mid 0 n xs = take n xs"
  by (simp add: mid_def)

lemma mid_append_left [simp]: "off + n \<le> length xs \<Longrightarrow> mid off n (xs @ ys) = mid off n xs"
  by (simp add: mid_def)

lemma mid_append_right: "mid (length xs + k) n (xs @ ys) = mid k n ys"
  by (simp add: mid_def)

lemma nth_mid [simp]: "i < n \<Longrightarrow> off + n \<le> length xs \<Longrightarrow> mid off n xs ! i = xs ! (off + i)"
  by (simp add: mid_def)

section \<open>Bounded memories\<close>

text \<open>The contract shared by the replay filter and the block list: an element that was added is
  remembered as long as fewer than \<open>window\<close> further elements have been added.  \<open>key x\<close> is what an
  addition \<open>x\<close> is remembered by, and \<open>live s k n\<close> says that \<open>k\<close> survives the next \<open>n\<close> additions.\<close>

locale recency_window =
  fixes ok :: "'s \<Rightarrow> bool"
    and add :: "'s \<Rightarrow> 'x \<Rightarrow> 's"
    and key :: "'x \<Rightarrow> 'k"
    and seen :: "'s \<Rightarrow> 'k \<Rightarrow> bool"
    and live :: "'s \<Rightarrow> 'k \<Rightarrow> int \<Rightarrow> bool"
    and window :: "'s \<Rightarrow> int"
  assumes ok_add: "ok s \<Longrightarrow> ok (add s x)"
    and window_add: "ok s \<Longrightarrow> window (add s x) = window s"
    and live_add: "ok s \<Longrightarrow> live (add s x) (key x) (window s - 1)"
    and live_step: "ok s \<Longrightarrow> live s k (n + 1) \<Longrightarrow> 0 \<le> n \<Longrightarrow> live (add s y) k n"
    and live_seen: "ok s \<Longrightarrow> live s k n \<Longrightarrow> 0 \<le> n \<Longrightarrow> seen s k"
    and live_antimono: "live s k n \<Longrightarrow> j \<le> n \<Longrightarrow> live s k j"
begin

lemma ok_run: "ok s \<Longrightarrow> ok (foldl add s ys)"
  by (induction ys arbitrary: s) (simp_all add: ok_add)

lemma live_run:
  "ok s \<Longrightarrow> live s k (int (length ys)) \<Longrightarrow> live (foldl add s ys) k 0"
proof (induction ys arbitrary: s)
  case (Cons y ys)
  have "live (add s y) k (int (length ys))"
    using Cons.prems by (intro live_step) (simp_all add: add.commute)
  with Cons show ?case by (simp add: ok_add)
qed simp

lemma seen_within_window:
  assumes "ok s" "int (length ys) < window s"
  shows "seen (foldl add (add s x) ys) (key x)"
proof -
  have "live (add s x) (key x) (int (length ys))"
    using assms by (intro live_antimono [OF live_add]) simp_all
  with assms show ?thesis
    by (intro live_seen [OF ok_run live_run]) (simp_all add: ok_add)
qed

lemma window_run: "ok s \<Longrightarrow> window (foldl add s ys) = window s"
  by (induction ys arbitrary: s) (simp_all add: ok_add window_add)

end

end
