(* ===== verification/Base64.thy ===== *)
theory Base64
  imports Prelude
begin

text \<open>
  \<open>shadowsocks-libev/src/base64.c\<close>: the URL-safe base64 codec that reads the
  user's pre-shared key and prints a generated one.  The model keeps the 32-bit
  accumulators of the C code; the theorems relate the encoder to a block-wise
  reference encoder, and show that the decoder inverts it, never writes past the
  output buffer, and rejects exactly the strings with a foreign character.
\<close>

definition base64_map2 :: "bytes" where
  "base64_map2 = [
    0xff, 0xff, 0x3e, 0xff, 0xff, 0x34, 0x35, 0x36,
    0x37, 0x38, 0x39, 0x3a, 0x3b, 0x3c, 0x3d, 0xff,
    0xff, 0xff, 0xff, 0xff, 0xff, 0xff, 0x00, 0x01,
    0x02, 0x03, 0x04, 0x05, 0x06, 0x07, 0x08, 0x09,
    0x0a, 0x0b, 0x0c, 0x0d, 0x0e, 0x0f, 0x10, 0x11,
    0x12, 0x13, 0x14, 0x15, 0x16, 0x17, 0x18, 0x19,
    0xff, 0xff, 0xff, 0xff, 0x3f, 0xff, 0x1a, 0x1b,
    0x1c, 0x1d, 0x1e, 0x1f, 0x20, 0x21, 0x22, 0x23,
    0x24, 0x25, 0x26, 0x27, 0x28, 0x29, 0x2a, 0x2b,
    0x2c, 0x2d, 0x2e, 0x2f, 0x30, 0x31, 0x32, 0x33]"

text \<open>
  The decoding loop: \<open>i\<close> counts the characters, \<open>v\<close> is the 32-bit accumulator and
  \<open>dst\<close> the bytes already written.  The string ends at a NUL (or at the end of the
  list, which stands for the terminating NUL) or at a padding character.  The result
  is the C return value together with the bytes written to \<open>out\<close>.
\<close>

fun base64_decode_loop :: "bytes \<Rightarrow> nat \<Rightarrow> 32 word \<Rightarrow> bytes \<Rightarrow> int \<Rightarrow> int \<times> bytes" where
  "base64_decode_loop [] i v dst out_size = (int (length dst), dst)"
| "base64_decode_loop (c # cs) i v dst out_size =
    (if c = 0 \<or> c = chr CHR ''='' then (int (length dst), dst)
     else
       let index = (scast c :: 32 word) - 43
       in if length base64_map2 \<le> unat index \<or> base64_map2 ! unat index = 0xff then (-1, dst)
          else
            let v' = push_bit 6 v + ucast (base64_map2 ! unat index);
                k = i mod 4;
                dst' = (if k \<noteq> 0 \<and> int (length dst) < out_size
                        then dst @ [ucast (signed_drop_bit (6 - 2 * k) v')]
                        else dst)
            in base64_decode_loop cs (i + 1) v' dst' out_size)"

definition base64_decode :: "bytes \<Rightarrow> int \<Rightarrow> int \<times> bytes" where
  "base64_decode src out_size = base64_decode_loop src 0 0 [] out_size"

definition BASE64_SIZE :: "int \<Rightarrow> int" where
  "BASE64_SIZE x = (x + 2) div 3 * 4 + 1"

definition b64 :: bytes where
  "b64 = cstr ''ABCDEFGHIJKLMNOPQRSTUVWXYZabcdefghijklmnopqrstuvwxyz0123456789-_''"

text \<open>
  The inner \<open>do ... while\<close>: one output character per round, \<open>last_one\<close> is
  \<open>bytes_remaining == 0\<close>.  It returns the characters and the new \<open>i_shift\<close>.
\<close>

function base64_emit :: "32 word \<Rightarrow> int \<Rightarrow> bool \<Rightarrow> bytes \<times> int" where
  "base64_emit i_bits i_shift last_one =
    (let c = b64 ! unat (drop_bit (nat i_shift) (push_bit 6 i_bits) AND 0x3f);
         i_shift' = i_shift - 6
     in if i_shift' > 6 \<or> (last_one \<and> i_shift' > 0)
        then (let (cs, s) = base64_emit i_bits i_shift' last_one in (c # cs, s))
        else ([c], i_shift'))"
  by pat_completeness auto
termination
  by (relation "measure (\<lambda>(b, s, l). nat s)") auto

fun base64_encode_loop :: "32 word \<Rightarrow> int \<Rightarrow> bytes \<Rightarrow> bytes" where
  "base64_encode_loop i_bits i_shift [] = []"
| "base64_encode_loop i_bits i_shift (x # xs) =
    (let i_bits' = push_bit 8 i_bits + ucast x;
         (cs, i_shift') = base64_emit i_bits' (i_shift + 8) (xs = [])
     in cs @ base64_encode_loop i_bits' i_shift' xs)"

text \<open>\<open>while ((dst - ret) & 3) *dst++ = '=';\<close>\<close>

function base64_pad :: "bytes \<Rightarrow> bytes" where
  "base64_pad dst = (if length dst mod 4 \<noteq> 0 then base64_pad (dst @ [chr CHR ''='']) else dst)"
  by pat_completeness auto
termination
  by (relation "measure (\<lambda>dst. (4 - length dst mod 4) mod 4)") (auto simp: mod_Suc)

text \<open>The encoder; \<open>None\<close> is the \<open>NULL\<close> result, \<open>UINT_MAX / 4\<close> is \<open>2^30 - 1\<close>.\<close>

definition base64_encode :: "int \<Rightarrow> bytes \<Rightarrow> bytes option" where
  "base64_encode out_size src =
    (if int (length src) \<ge> 2 ^ 30 - 1 \<or> out_size < BASE64_SIZE (int (length src)) then None
     else Some (base64_pad (base64_encode_loop 0 0 src) @ [0]))"

declare base64_emit.simps [simp del] base64_pad.simps [simp del]

subsection \<open>The block-wise reference encoder\<close>

text \<open>Three bytes make four sextets, most significant first.\<close>

definition sext0 :: "byte \<Rightarrow> nat" where "sext0 a = unat a div 4"
definition sext1 :: "byte \<Rightarrow> byte \<Rightarrow> nat" where "sext1 a b = unat a mod 4 * 16 + unat b div 16"
definition sext2 :: "byte \<Rightarrow> byte \<Rightarrow> nat" where "sext2 b c = unat b mod 16 * 4 + unat c div 64"
definition sext3 :: "byte \<Rightarrow> nat" where "sext3 c = unat c mod 64"

lemmas sext_defs = sext0_def sext1_def sext2_def sext3_def

fun base64_blocks :: "bytes \<Rightarrow> bytes" where
  "base64_blocks [] = []"
| "base64_blocks [a] = [b64 ! sext0 a, b64 ! sext1 a 0, chr CHR ''='', chr CHR ''='']"
| "base64_blocks [a, b] = [b64 ! sext0 a, b64 ! sext1 a b, b64 ! sext2 b 0, chr CHR ''='']"
| "base64_blocks (a # b # c # xs) =
    b64 ! sext0 a # b64 ! sext1 a b # b64 ! sext2 b c # b64 ! sext3 c # base64_blocks xs"

lemma sext_lt [simp]:
  "sext0 a < 64" "sext1 a b < 64" "sext2 b c < 64" "sext3 c < 64"
proof -
  have "unat a < 256" "unat b < 256" "unat c < 256" by simp_all
  then show "sext0 a < 64" "sext1 a b < 64" "sext2 b c < 64" "sext3 c < 64"
    unfolding sext_defs by linarith+
qed

subsection \<open>The two alphabets\<close>

lemma length_b64 [simp]: "length b64 = 64"
  by (simp add: b64_def)

lemma length_base64_map2 [simp]: "length base64_map2 = 80"
  by (simp add: base64_map2_def)

text \<open>\<open>base64_map2\<close> is the inverse of \<open>b64\<close>, sextet by sextet.\<close>

definition b64_inverse_at :: "nat \<Rightarrow> bool" where
  "b64_inverse_at s \<longleftrightarrow>
    (let c = b64 ! s; ix = unat ((scast c :: 32 word) - 43)
     in c \<noteq> 0 \<and> c \<noteq> chr CHR ''='' \<and> ix < 80 \<and> base64_map2 ! ix = word_of_nat s)"

lemma b64_code: "b64 = [65,66,67,68,69,70,71,72,73,74,75,76,77,78,79,80,81,82,83,84,85,86,87,88,89,90,
    97,98,99,100,101,102,103,104,105,106,107,108,109,110,111,112,113,114,115,116,117,118,119,120,121,122,
    48,49,50,51,52,53,54,55,56,57,45,95]"
  by (simp add: b64_def cstr_def chr_def)

lemma chr_eq_sign: "chr CHR ''='' = 61"
  by (simp add: chr_def)

lemma b64_inverse_all: "list_all b64_inverse_at [0..<64]"
  by (simp add: upt_rec b64_inverse_at_def b64_code chr_eq_sign Let_def) (simp add: base64_map2_def)

lemma b64_inverse: "s < 64 \<Longrightarrow> b64_inverse_at s"
  using b64_inverse_all by (simp add: list_all_iff)

subsection \<open>Decoding the reference encoding\<close>

lemma ucast_of_nat_byte: "n < 256 \<Longrightarrow> ucast (word_of_nat n :: byte) = (word_of_nat n :: 32 word)"
  by (simp add: unsigned_of_nat take_bit_nat_eq_self)

lemma sextet_not_ff: "s < 64 \<Longrightarrow> (word_of_nat s :: byte) \<noteq> 0xff"
  using unat_of_nat_byte [of s] by (auto simp del: unat_of_nat_byte)

lemma decode_sextet:
  assumes "s < 64"
  shows "base64_decode_loop (b64 ! s # cs) i v dst n =
    (let v' = push_bit 6 v + word_of_nat s; k = i mod 4
     in base64_decode_loop cs (i + 1) v'
          (if k \<noteq> 0 \<and> int (length dst) < n
           then dst @ [ucast (signed_drop_bit (6 - 2 * k) v')] else dst) n)"
  using b64_inverse [OF assms] assms sextet_not_ff [OF assms]
  by (simp add: b64_inverse_at_def Let_def ucast_of_nat_byte)

lemma unat_acc: "unat (push_bit 6 v + word_of_nat s :: 32 word) = (unat v * 64 + s) mod 2 ^ 32"
  by (simp add: unat_word_ariths push_bit_eq_mult unat_of_nat mod_simps)

lemma ucast_signed_drop_bit:
  "k + 8 \<le> 32 \<Longrightarrow> (ucast (signed_drop_bit k (v :: 32 word)) :: byte) = word_of_nat (unat v div 2 ^ k)"
  apply (rule bit_word_eqI)
  apply (auto simp add: bit_simps drop_bit_eq_div [symmetric])
  done

lemma mod_div_mod: "k + 8 \<le> 32 \<Longrightarrow> x mod 2 ^ 32 div 2 ^ k mod 256 = x div 2 ^ k mod (256::nat)"
proof -
  assume "k + 8 \<le> 32"
  then have "take_bit 8 (drop_bit k (take_bit 32 x)) = take_bit 8 (drop_bit k x)"
    by (intro bit_eqI) (auto simp: bit_simps)
  then show ?thesis by (simp add: take_bit_eq_mod drop_bit_eq_div)
qed

lemma unat_acc2:
  "unat (push_bit 6 (push_bit 6 v + word_of_nat s) + word_of_nat t :: 32 word) =
    (unat v * 4096 + s * 64 + t) mod 2 ^ 32"
proof -
  have "push_bit 6 (push_bit 6 v + word_of_nat s) + word_of_nat t =
      (word_of_nat (unat v * 4096 + s * 64 + t) :: 32 word)"
    by (simp add: push_bit_eq_mult algebra_simps)
  then show ?thesis by (simp only: unat_of_nat) (simp add: take_bit_eq_mod)
qed

lemma decode_byte:
  assumes "k \<le> 24"
  shows "unat (ucast (signed_drop_bit k (push_bit 6 (push_bit 6 v + word_of_nat s) + word_of_nat t :: 32 word)) :: byte)
    = (unat v * 4096 + s * 64 + t) div 2 ^ k mod 256"
  using assms by (simp only: ucast_signed_drop_bit unat_of_nat_byte unat_acc2 mod_div_mod)

lemma div_mod_pick:
  fixes X b k Y A :: nat
  assumes "X = b + k * (256 * Y + A)" "b < k" "A < 256"
  shows "X div k mod 256 = A"
  using assms by simp

lemma sextets_pick:
  fixes V A B C :: nat
  assumes "A < 256" "B < 256" "C < 256"
  shows "(V * 4096 + A div 4 * 64 + (A mod 4 * 16 + B div 16)) div 16 mod 256 = A"
    and "(V * 4096 + (A mod 4 * 16 + B div 16) * 64 + (B mod 16 * 4 + C div 64)) div 4 mod 256 = B"
    and "(V * 4096 + (B mod 16 * 4 + C div 64) * 64 + C mod 64) div 1 mod 256 = C"
proof -
  have 1: "V * 4096 + q * 64 + (r * 16 + b) = b + 16 * (256 * V + A)" if "A = 4 * q + r" for q r b
    using that by simp
  have 2: "V * 4096 + (m * 16 + q) * 64 + (r * 4 + c) = c + 4 * (256 * (4 * V + m) + B)"
    if "B = 16 * q + r" for q r m c
    using that by simp
  have 3: "V * 4096 + (m * 4 + q) * 64 + r = 0 + 1 * (256 * (16 * V + m) + C)"
    if "C = 64 * q + r" for q r m
    using that by simp
  show "(V * 4096 + A div 4 * 64 + (A mod 4 * 16 + B div 16)) div 16 mod 256 = A"
    using assms by (intro div_mod_pick [OF 1]) auto
  show "(V * 4096 + (A mod 4 * 16 + B div 16) * 64 + (B mod 16 * 4 + C div 64)) div 4 mod 256 = B"
    using assms by (intro div_mod_pick [OF 2]) auto
  show "(V * 4096 + (B mod 16 * 4 + C div 64) * 64 + C mod 64) div 1 mod 256 = C"
    using assms by (intro div_mod_pick [OF 3]) auto
qed

lemma decode_bytes:
  "(ucast (signed_drop_bit 4 (push_bit 6 (push_bit 6 v + word_of_nat (sext0 a)) + word_of_nat (sext1 a b) :: 32 word)) :: byte) = a"
  "(ucast (signed_drop_bit 2 (push_bit 6 (push_bit 6 v + word_of_nat (sext1 a b)) + word_of_nat (sext2 b c) :: 32 word)) :: byte) = b"
  "(ucast (signed_drop_bit 0 (push_bit 6 (push_bit 6 v + word_of_nat (sext2 b c)) + word_of_nat (sext3 c) :: 32 word)) :: byte) = c"
proof -
  note pick = sextets_pick [OF unat_byte_lt [of a] unat_byte_lt [of b] unat_byte_lt [of c], of "unat v"]
  show "(ucast (signed_drop_bit 4 (push_bit 6 (push_bit 6 v + word_of_nat (sext0 a)) + word_of_nat (sext1 a b) :: 32 word)) :: byte) = a"
    using decode_byte [of 4 v "sext0 a" "sext1 a b"] pick(1)
    by (intro unsigned_word_eqI) (simp add: sext_defs)
  show "(ucast (signed_drop_bit 2 (push_bit 6 (push_bit 6 v + word_of_nat (sext1 a b)) + word_of_nat (sext2 b c) :: 32 word)) :: byte) = b"
    using decode_byte [of 2 v "sext1 a b" "sext2 b c"] pick(2)
    by (intro unsigned_word_eqI) (simp add: sext_defs)
  show "(ucast (signed_drop_bit 0 (push_bit 6 (push_bit 6 v + word_of_nat (sext2 b c)) + word_of_nat (sext3 c) :: 32 word)) :: byte) = c"
    using decode_byte [of 0 v "sext2 b c" "sext3 c"] pick(3)
    by (intro unsigned_word_eqI) (simp add: sext_defs)
qed

lemma decode_stop:
  "c = 0 \<or> c = chr CHR ''='' \<Longrightarrow> base64_decode_loop (c # cs) i v dst n = (int (length dst), dst)"
  by simp

declare base64_decode_loop.simps(2) [simp del]

lemma decode_blocks:
  assumes "i mod 4 = 0" "int (length dst + length xs) \<le> n"
  shows "base64_decode_loop (base64_blocks xs @ [0]) i v dst n = (int (length dst + length xs), dst @ xs)"
  using assms
proof (induction xs arbitrary: i v dst rule: base64_blocks.induct)
  case (4 a b c xs)
  have m: "Suc i mod 4 = 1" "Suc (Suc i) mod 4 = 2" "Suc (Suc (Suc i)) mod 4 = 3"
    using 4 by presburger+
  have l: "int (length dst) < n" "1 + int (length dst) < n" "2 + int (length dst) < n"
    using 4 by simp_all
  show ?case
    using 4 m l by (simp add: decode_sextet decode_bytes decode_bytes(3) [simplified] decode_stop Let_def)
next
  case (2 a)
  have m: "Suc i mod 4 = 1" using 2 by presburger
  with 2 show ?case by (simp add: decode_sextet decode_bytes decode_bytes(3) [simplified] decode_stop Let_def)
next
  case (3 a b)
  have m: "Suc i mod 4 = 1" "Suc (Suc i) mod 4 = 2" using 3 by presburger+
  with 3 show ?case by (simp add: decode_sextet decode_bytes decode_bytes(3) [simplified] decode_stop Let_def)
qed (simp add: decode_stop)

subsection \<open>The encoder computes the reference encoding\<close>

lemma div_mod_pick64:
  fixes X b k Y s :: nat
  assumes "X = b + k * (64 * Y + s)" "b < k" "s < 64"
  shows "X div k mod 64 = s"
  using assms by simp

text \<open>The accumulator as the 32-bit truncation of the number read so far, kept folded so that
  the simplifier treats the shifts symbolically.\<close>

definition acc :: "nat \<Rightarrow> 32 word" where
  "acc N = word_of_nat N"

lemma emit_index:
  assumes "k + 6 \<le> 32"
  shows "unat (drop_bit k (push_bit 6 (acc N)) AND 0x3f) = (N * 64) div 2 ^ k mod 64"
proof -
  have m: "drop_bit k (push_bit 6 (acc N)) AND 0x3f = take_bit 6 (drop_bit k (acc (N * 64)))"
    by (simp add: acc_def push_bit_eq_mult take_bit_eq_mask mask_eq_exp_minus_1 mult.commute)
  have "take_bit 6 (drop_bit k (take_bit 32 (N * 64))) = take_bit 6 (drop_bit k (N * 64))"
    using assms by (intro bit_eqI) (auto simp: bit_simps)
  moreover have "unat (acc (N * 64)) = take_bit 32 (N * 64)"
    unfolding acc_def by (subst unsigned_of_nat) simp
  ultimately show ?thesis
    unfolding m by (simp add: unsigned_take_bit_eq unsigned_drop_bit_eq) (simp add: take_bit_eq_mod drop_bit_eq_div)
qed

lemma i_bits_step: "push_bit 8 (acc N) + ucast (x :: byte) = acc (256 * N + unat x)"
  by (simp add: acc_def push_bit_eq_mult mult.commute)

definition emit_char :: "nat \<Rightarrow> nat \<Rightarrow> byte" where
  "emit_char N k = b64 ! (N * 64 div 2 ^ k mod 64)"

lemma emit_char_eqs:
  fixes a b c d :: byte
  shows "emit_char (256 * N + unat a) 8 = b64 ! sext0 a"
    and "emit_char (256 * N + unat a) 2 = b64 ! sext1 a 0"
    and "emit_char (256 * (256 * N + unat a) + unat b) 10 = b64 ! sext1 a b"
    and "emit_char (256 * N + unat b) 4 = b64 ! sext2 b 0"
    and "emit_char (256 * (256 * N + unat b) + unat c) 12 = b64 ! sext2 b c"
    and "emit_char (256 * N + unat c) 6 = b64 ! sext3 c"
    and "emit_char (256 * (256 * N + unat c) + unat d) 14 = b64 ! sext3 c"
proof -
  have p1: "(256 * N + A) * 64 div 2 ^ 8 mod 64 = q" if "A = 4 * q + r" "r < 4" "q < 64" for A q r :: nat
    by (rule div_mod_pick64 [where Y = "N" and b = "r * 64"]) (use that in simp_all)
  have p2: "(256 * N + A) * 64 div 2 ^ 2 mod 64 = r * 16" if "A = 4 * q + r" "r < 4" for A q r :: nat
    by (rule div_mod_pick64 [where Y = "64 * N + q" and b = "0"]) (use that in simp_all)
  have p3: "(256 * (256 * N + A) + B) * 64 div 2 ^ 10 mod 64 = r * 16 + u" if "A = 4 * q + r" "B = 16 * u + v" "r < 4" "u < 16" "v < 16" for A B q r u v :: nat
    by (rule div_mod_pick64 [where Y = "64 * N + q" and b = "v * 64"]) (use that in simp_all)
  have p4: "(256 * N + B) * 64 div 2 ^ 4 mod 64 = v * 4" if "B = 16 * u + v" "v < 16" for B u v :: nat
    by (rule div_mod_pick64 [where Y = "16 * N + u" and b = "0"]) (use that in simp_all)
  have p5: "(256 * (256 * N + B) + C) * 64 div 2 ^ 12 mod 64 = v * 4 + q" if "B = 16 * u + v" "C = 64 * q + r" "v < 16" "q < 4" "r < 64" for B C u v q r :: nat
    by (rule div_mod_pick64 [where Y = "16 * N + u" and b = "r * 64"]) (use that in simp_all)
  have p6: "(256 * N + C) * 64 div 2 ^ 6 mod 64 = r" if "C = 64 * q + r" "r < 64" for C q r :: nat
    by (rule div_mod_pick64 [where Y = "4 * N + q" and b = "0"]) (use that in simp_all)
  have p7: "(256 * (256 * N + C) + D) * 64 div 2 ^ 14 mod 64 = r" if "C = 64 * q + r" "r < 64" "D < 256" for C D q r :: nat
    by (rule div_mod_pick64 [where Y = "4 * N + q" and b = "D * 64"]) (use that in simp_all)
  have small: "unat x div 4 < 64" "unat x div 16 < 16" "unat x div 64 < 4" for x :: byte
    by (simp_all add: div_less_iff_less_mult)
  note dm = mult_div_mod_eq [symmetric]
  note p = p1 [OF dm] p2 [OF dm] p3 [OF dm dm] p4 [OF dm] p5 [OF dm dm] p6 [OF dm] p7 [OF dm]
  show "emit_char (256 * N + unat a) 8 = b64 ! sext0 a"
    unfolding emit_char_def sext_defs by (subst p(1)) (simp_all add: small)
  show "emit_char (256 * N + unat a) 2 = b64 ! sext1 a 0"
    unfolding emit_char_def sext_defs by (subst p(2)) (simp_all add: small)
  show "emit_char (256 * (256 * N + unat a) + unat b) 10 = b64 ! sext1 a b"
    unfolding emit_char_def sext_defs by (subst p(3)) (simp_all add: small)
  show "emit_char (256 * N + unat b) 4 = b64 ! sext2 b 0"
    unfolding emit_char_def sext_defs by (subst p(4)) (simp_all add: small)
  show "emit_char (256 * (256 * N + unat b) + unat c) 12 = b64 ! sext2 b c"
    unfolding emit_char_def sext_defs by (subst p(5)) (simp_all add: small)
  show "emit_char (256 * N + unat c) 6 = b64 ! sext3 c"
    unfolding emit_char_def sext_defs by (subst p(6)) (simp_all add: small)
  show "emit_char (256 * (256 * N + unat c) + unat d) 14 = b64 ! sext3 c"
    unfolding emit_char_def sext_defs by (subst p(7)) (simp_all add: small)
qed

lemma base64_emit_code:
  "k + 6 \<le> 32 \<Longrightarrow> base64_emit (acc N) (int k) l =
    (if k > 12 \<or> (l \<and> k > 6)
     then (let (cs, s) = base64_emit (acc N) (int (k - 6)) l in (emit_char N k # cs, s))
     else ([emit_char N k], int k - 6))"
  by (subst base64_emit.simps) (auto simp: emit_index emit_char_def Let_def of_nat_diff)

lemmas emit_at =
  base64_emit_code [of 8, simplified] base64_emit_code [of 2, simplified]
  base64_emit_code [of 10, simplified] base64_emit_code [of 4, simplified]
  base64_emit_code [of 12, simplified] base64_emit_code [of 6, simplified]
  base64_emit_code [of 14, simplified]

lemma encode_step:
  "base64_encode_loop (acc N) s (x # xs) =
    (let (cs, s') = base64_emit (acc (256 * N + unat x)) (s + 8) (xs = [])
     in cs @ base64_encode_loop (acc (256 * N + unat x)) s' xs)"
  by (simp add: i_bits_step Let_def)

declare base64_encode_loop.simps(2) [simp del]

lemma encode_pending:
  "base64_encode_loop (acc (256 * N + unat c)) 6 (d # xs) =
    b64 ! sext3 c # base64_encode_loop (acc (256 * N + unat c)) 0 (d # xs)"
  by (simp add: encode_step emit_at emit_char_eqs del: distrib_left_numeral split: prod.splits)

lemma encode_group:
  "base64_encode_loop (acc N) 0 (a # b # c # xs) =
    b64 ! sext0 a # b64 ! sext1 a b # b64 ! sext2 b c # b64 ! sext3 c #
    base64_encode_loop (acc (256 * (256 * (256 * N + unat a) + unat b) + unat c)) 0 xs"
proof (cases xs)
  case Nil
  then show ?thesis
    by (simp add: encode_step emit_at emit_char_eqs del: distrib_left_numeral)
next
  case (Cons d ys)
  then show ?thesis
    by (simp add: encode_step [of _ _ a] encode_step [of _ _ b] encode_step [of _ _ c]
        encode_pending emit_at emit_char_eqs del: distrib_left_numeral)
qed

lemma base64_pad_code:
  "base64_pad dst = dst @ replicate ((4 - length dst mod 4) mod 4) (chr CHR ''='')"
proof (induction dst rule: base64_pad.induct)
  case (1 dst)
  show ?case
  proof (cases "length dst mod 4 = 0")
    case False
    then have "(4 - length dst mod 4) mod 4 = Suc ((4 - Suc (length dst) mod 4) mod 4)"
      by (auto simp: mod_Suc Suc_diff_le)
    with 1 False show ?thesis by (subst base64_pad.simps) simp
  qed (simp add: base64_pad.simps)
qed

lemma replicate_2: "replicate 2 x = [x, x]"
  by (simp add: numeral_2_eq_2)

lemma base64_encode_loop_blocks:
  "base64_pad (base64_encode_loop (acc N) 0 xs) = base64_blocks xs"
proof (induction xs arbitrary: N rule: base64_blocks.induct)
  case (4 a b c xs)
  have "base64_pad (p # q # r # s # ys) = p # q # r # s # base64_pad ys" for p q r s ys
    by (simp add: base64_pad_code)
  with 4 show ?case by (simp add: encode_group)
qed (simp_all add: encode_step emit_at emit_char_eqs base64_pad_code replicate_2 del: distrib_left_numeral)

lemma base64_encode_eq:
  "base64_encode out_size src =
    (if int (length src) \<ge> 2 ^ 30 - 1 \<or> out_size < BASE64_SIZE (int (length src)) then None
     else Some (base64_blocks src @ [0]))"
  using base64_encode_loop_blocks [of 0 src] by (simp add: base64_encode_def acc_def)

lemma length_base64_blocks: "length (base64_blocks xs) = (length xs + 2) div 3 * 4"
proof (induction xs rule: base64_blocks.induct)
  case (4 a b c xs)
  have "(length (a # b # c # xs) + 2) div 3 = Suc ((length xs + 2) div 3)"
    using div_add_self2 [of 3 "length xs + 2"] by simp
  with 4 show ?case by simp
qed simp_all

subsection \<open>Acceptance by the decoder\<close>

text \<open>A character the decoder accepts, and the part of the input it reads.\<close>

definition b64_char :: "byte \<Rightarrow> bool" where
  "b64_char c \<longleftrightarrow> c \<in> set b64"

definition b64_prefix :: "bytes \<Rightarrow> bytes" where
  "b64_prefix src = takeWhile (\<lambda>c. c \<noteq> 0 \<and> c \<noteq> chr CHR ''='') src"

definition map2_accepts :: "byte \<Rightarrow> bool" where
  "map2_accepts c \<longleftrightarrow>
    (let index = unat ((scast c :: 32 word) - 43)
     in index < length base64_map2 \<and> base64_map2 ! index \<noteq> 0xff)"

definition b64_index_ok :: "nat \<Rightarrow> bool" where
  "b64_index_ok i \<longleftrightarrow>
    (base64_map2 ! i = 0xff \<or>
      unat (base64_map2 ! i) < 64 \<and> b64 ! unat (base64_map2 ! i) = word_of_nat (i + 43))"

lemma b64_index_ok_all: "list_all b64_index_ok [0..<80]"
  by (simp add: upt_rec b64_index_ok_def base64_map2_def) (simp add: b64_code)

lemma map2_accepts_iff: "map2_accepts c \<longleftrightarrow> b64_char c"
proof
  assume acc: "map2_accepts c"
  define i where "i = unat ((scast c :: 32 word) - 43)"
  have i: "i < 80" "base64_map2 ! i \<noteq> 0xff"
    using acc by (simp_all add: map2_accepts_def Let_def i_def)
  have "word_of_nat i = (scast c :: 32 word) - 43"
    by (simp add: i_def)
  then have "(scast c :: 32 word) = word_of_nat (i + 43)"
    by simp
  then have "(ucast (scast c :: 32 word) :: byte) = ucast (word_of_nat (i + 43) :: 32 word)"
    by (rule arg_cong)
  moreover have "(ucast (scast c :: 32 word) :: byte) = c"
    by (rule bit_word_eqI) (simp add: bit_simps)
  moreover have "(ucast (word_of_nat (i + 43) :: 32 word) :: byte) = word_of_nat (i + 43)"
    using i by (simp add: unsigned_of_nat take_bit_nat_eq_self del: of_nat_add)
  moreover have "b64_index_ok i"
    using b64_index_ok_all i(1) by (simp add: list_all_iff)
  ultimately have "c = b64 ! unat (base64_map2 ! i)" "unat (base64_map2 ! i) < 64"
    using i(2) by (simp_all add: b64_index_ok_def)
  then show "b64_char c" by (simp add: b64_char_def)
next
  assume "b64_char c"
  then obtain s where "s < 64" "c = b64 ! s"
    by (auto simp: b64_char_def in_set_conv_nth)
  then show "map2_accepts c"
    using b64_inverse [of s] sextet_not_ff [of s] by (simp add: map2_accepts_def b64_inverse_at_def Let_def)
qed

lemma decode_loop_cases:
  "base64_decode_loop (c # cs) i v dst n =
    (if c = 0 \<or> c = chr CHR ''='' then (int (length dst), dst)
     else if \<not> b64_char c then (-1, dst)
     else let v' = push_bit 6 v + ucast (base64_map2 ! unat ((scast c :: 32 word) - 43)); k = i mod 4
       in base64_decode_loop cs (i + 1) v'
            (if k \<noteq> 0 \<and> int (length dst) < n
             then dst @ [ucast (signed_drop_bit (6 - 2 * k) v')] else dst) n)"
  unfolding map2_accepts_iff [symmetric] map2_accepts_def
  by (simp add: base64_decode_loop.simps(2) Let_def not_le)

lemma decode_loop_ret:
  "fst (base64_decode_loop src i v dst n) =
    (if list_all b64_char (b64_prefix src) then int (length (snd (base64_decode_loop src i v dst n))) else -1)"
proof (induction src arbitrary: i v dst)
  case (Cons c cs)
  then show ?case
    by (cases "c = 0 \<or> c = chr CHR ''=''"; cases "b64_char c")
       (auto simp: decode_loop_cases b64_prefix_def Let_def)
qed (simp add: b64_prefix_def)

lemma decode_loop_fits:
  "int (length dst) \<le> n \<Longrightarrow> int (length (snd (base64_decode_loop src i v dst n))) \<le> n"
proof (induction src arbitrary: i v dst)
  case (Cons c cs)
  then show ?case
    by (cases "c = 0 \<or> c = chr CHR ''=''"; cases "b64_char c")
       (simp_all add: decode_loop_cases Let_def)
qed simp

text \<open>The terminating NUL may be left out, and the encoder never writes one inside its output.\<close>

lemma base64_decode_loop_nul:
  "base64_decode_loop (xs @ [0]) i v dst n = base64_decode_loop xs i v dst n"
  by (induction xs arbitrary: i v dst) (simp_all add: decode_loop_cases Let_def)

lemma base64_blocks_no_nul: "0 \<notin> set (base64_blocks xs)"
proof -
  have "b64 ! s \<noteq> 0" if "s < 64" for s
    using b64_inverse [OF that] by (simp add: b64_inverse_at_def Let_def)
  then have *: "0 \<noteq> b64 ! s" if "s < 64" for s
    using that by (metis (no_types))
  show ?thesis
    by (induction xs rule: base64_blocks.induct) (simp_all add: chr_eq_sign *)
qed

subsection \<open>Correctness of the codec\<close>

text \<open>C8 (roundtrip): decoding what \<open>base64_encode\<close> produced, including its terminating NUL,
  gives back the input, and the returned length is the input's, whenever the decoder's buffer
  is large enough and the encoder did not refuse.\<close>

theorem base64_decode_encode:
  assumes "base64_encode out_size src = Some enc" "int (length src) \<le> n"
  shows "base64_decode enc n = (int (length src), src)"
  using assms decode_blocks [of 0 "[]" src n 0]
  by (auto simp: base64_encode_eq base64_decode_def split: if_splits)

theorem base64_decode_encode_witness:
  "base64_decode (cstr ''AQIDBA=='' @ [0]) 4 = (4, [1, 2, 3, 4])"
proof -
  have "base64_encode 9 [1, 2, 3, 4] = Some (cstr ''AQIDBA=='' @ [0])"
    by (simp add: base64_encode_eq BASE64_SIZE_def sext_defs b64_code cstr_def chr_def)
  from base64_decode_encode [OF this, of 4] show ?thesis by simp
qed

text \<open>The encoder succeeds exactly for inputs below \<open>UINT_MAX / 4\<close> whose buffer
  has \<open>BASE64_SIZE\<close> bytes, and then writes exactly \<open>BASE64_SIZE\<close> bytes, so never past it.\<close>

theorem base64_encode_bounds:
  "(\<exists>enc. base64_encode out_size src = Some enc \<and> int (length enc) = BASE64_SIZE (int (length src)))
     \<longleftrightarrow> int (length src) < 2 ^ 30 - 1 \<and> BASE64_SIZE (int (length src)) \<le> out_size"
  by (auto simp: base64_encode_eq BASE64_SIZE_def length_base64_blocks zdiv_int)

text \<open>For every input the decoder returns -1 exactly when a character before the end
  of the string (NUL or padding) is outside the alphabet, otherwise the number of bytes it wrote;
  and it never writes more than \<open>out_size\<close> bytes.\<close>

theorem base64_decode_result:
  assumes "0 \<le> n"
  shows "fst (base64_decode src n) =
      (if list_all b64_char (b64_prefix src) then int (length (snd (base64_decode src n))) else -1)
    \<and> int (length (snd (base64_decode src n))) \<le> n"
  using decode_loop_ret [of src 0 0 "[]" n] decode_loop_fits [of "[]" n src 0 0] assms
  by (simp add: base64_decode_def)

theorem base64_decode_result_witness:
  "fst (base64_decode (cstr ''AQ!D'') 3) = -1 \<and> int (length (snd (base64_decode (cstr ''AQ!D'') 3))) \<le> 3"
  using base64_decode_result [of 3 "cstr ''AQ!D''"]
  by (simp add: b64_prefix_def b64_char_def b64_code cstr_def chr_def)

end
