(* ===== verification/Bloom.thy ===== *)
theory Bloom
  imports Prelude "HOL-Library.Signed_Division"
begin

text \<open>
  \<open>libbloom/murmur2/MurmurHash2.c\<close> and \<open>libbloom/bloom.c\<close>: the Bloom filter that
  remembers the salts already seen.  Words are the 32-bit words of the C code and
  are read in little-endian order, as on the targets of the program.  The sizing
  arithmetic of \<open>bloom_init\<close> uses \<open>double\<close>s; it is modelled over the reals, and the
  outcome of \<open>calloc\<close> is an argument.

  A result \<open>None\<close> is undefined behaviour: an access outside the bit array, or a remainder by
  zero.  The theorems are about the membership contract: no access leaves the bit array, an
  added element is always found again, elements are never forgotten, and a fresh
  filter contains nothing.
\<close>

section \<open>MurmurHash2\<close>

definition le32 :: "byte \<Rightarrow> byte \<Rightarrow> byte \<Rightarrow> byte \<Rightarrow> 32 word" where
  "le32 b0 b1 b2 b3 =
    ucast b0 OR push_bit 8 (ucast b1) OR push_bit 16 (ucast b2) OR push_bit 24 (ucast b3)"

definition murmur_m :: "32 word" where "murmur_m = 0x5bd1e995"

text \<open>The body of the \<open>while (len >= 4)\<close> loop and, at its end, the fall-through \<open>switch\<close>.\<close>

fun murmur_loop :: "bytes \<Rightarrow> 32 word \<Rightarrow> 32 word" where
  "murmur_loop (b0 # b1 # b2 # b3 # data) h =
    (let k = le32 b0 b1 b2 b3 * murmur_m;
         k = k XOR drop_bit 24 k;
         k = k * murmur_m
     in murmur_loop data ((h * murmur_m) XOR k))"
| "murmur_loop [d0, d1, d2] h =
    (((h XOR push_bit 16 (ucast d2)) XOR push_bit 8 (ucast d1)) XOR ucast d0) * murmur_m"
| "murmur_loop [d0, d1] h = ((h XOR push_bit 8 (ucast d1)) XOR ucast d0) * murmur_m"
| "murmur_loop [d0] h = (h XOR ucast d0) * murmur_m"
| "murmur_loop [] h = h"

definition murmurhash2 :: "bytes \<Rightarrow> 32 word \<Rightarrow> 32 word" where
  "murmurhash2 key seed =
    (let h = seed XOR word_of_nat (length key);
         h = murmur_loop key h;
         h = h XOR drop_bit 13 h;
         h = h * murmur_m
     in h XOR drop_bit 15 h)"

section \<open>The filter\<close>

record bloom =
  b_entries :: int
  b_error :: real
  b_bits :: int
  b_bytes :: int
  b_hashes :: int
  b_bpe :: real
  b_bf :: bytes
  b_ready :: bool

definition bloom_zero :: bloom where
  "bloom_zero = \<lparr>b_entries = 0, b_error = 0, b_bits = 0, b_bytes = 0, b_hashes = 0,
     b_bpe = 0, b_bf = [], b_ready = False\<rparr>"

definition test_bit_set_bit :: "bytes \<Rightarrow> 32 word \<Rightarrow> bool \<Rightarrow> (bool \<times> bytes) option" where
  "test_bit_set_bit buf x set_it =
    (let byte = unat (drop_bit 3 x)
     in if byte \<ge> length buf then None
        else
          let c = buf ! byte;
              mask = push_bit (unat (x mod 8)) 1
          in if c AND mask \<noteq> 0 then Some (True, buf)
             else Some (False, if set_it then buf[byte := c OR mask] else buf))"

text \<open>The \<open>for\<close> loop over the hash functions: \<open>i\<close> counts up while \<open>n\<close> rounds remain.\<close>

primrec bloom_loop ::
  "nat \<Rightarrow> nat \<Rightarrow> 32 word \<Rightarrow> 32 word \<Rightarrow> 32 word \<Rightarrow> bool \<Rightarrow> nat \<Rightarrow> bytes \<Rightarrow> (nat \<times> bytes) option" where
  "bloom_loop 0 i a b bits add hits bf = Some (hits, bf)"
| "bloom_loop (Suc n) i a b bits add hits bf =
    (if bits = 0 then None
     else
       let x = (a + word_of_nat i * b) mod bits
       in case test_bit_set_bit bf x add of
            None \<Rightarrow> None
          | Some (hit, bf) \<Rightarrow> bloom_loop n (Suc i) a b bits add (if hit then Suc hits else hits) bf)"

definition bloom_check_add :: "bloom \<Rightarrow> bytes \<Rightarrow> bool \<Rightarrow> (int \<times> bloom) option" where
  "bloom_check_add bl buffer add =
    (if \<not> b_ready bl then Some (-1, bl)
     else
       let a = murmurhash2 buffer 0x9747b28c;
           b = murmurhash2 buffer a
       in case bloom_loop (nat (b_hashes bl mod 2 ^ 32)) 0 a b (word_of_int (b_bits bl)) add 0 (b_bf bl) of
            None \<Rightarrow> None
          | Some (hits, bf) \<Rightarrow> Some (if int hits = b_hashes bl then 1 else 0, bl\<lparr>b_bf := bf\<rparr>))"

text \<open>A C cast of a \<open>double\<close> to \<open>int\<close> truncates towards zero.\<close>

definition c_trunc :: "real \<Rightarrow> int" where
  "c_trunc r = (if r < 0 then \<lceil>r\<rceil> else \<lfloor>r\<rfloor>)"

text \<open>\<open>calloc_ok\<close> is the outcome of \<open>calloc\<close>; a negative size becomes an impossible request.\<close>

definition bloom_init :: "bool \<Rightarrow> bloom \<Rightarrow> int \<Rightarrow> real \<Rightarrow> int \<times> bloom" where
  "bloom_init calloc_ok bl entries error =
    (let bl = bl\<lparr>b_ready := False\<rparr>
     in if entries < 1 \<or> error = 0 then (1, bl)
        else
          let num = ln error;
              denom = 0.480453013918201;
              bpe = - (num / denom);
              bits = c_trunc (real_of_int entries * bpe);
              bytes = (if bits smod 8 \<noteq> 0 then bits sdiv 8 + 1 else bits sdiv 8);
              hashes = c_trunc (real_of_int \<lceil>0.693147180559945 * bpe\<rceil>);
              bl = bl\<lparr>b_entries := entries, b_error := error, b_bpe := bpe, b_bits := bits,
                      b_bytes := bytes, b_hashes := hashes\<rparr>
          in if \<not> calloc_ok \<or> bytes < 0 then (1, bl\<lparr>b_bf := []\<rparr>)
             else (0, bl\<lparr>b_bf := replicate (nat bytes) 0, b_ready := True\<rparr>))"

definition bloom_check :: "bloom \<Rightarrow> bytes \<Rightarrow> int option" where
  "bloom_check bl buffer = map_option fst (bloom_check_add bl buffer False)"

definition bloom_add :: "bloom \<Rightarrow> bytes \<Rightarrow> (int \<times> bloom) option" where
  "bloom_add bl buffer = bloom_check_add bl buffer True"

definition bloom_free :: "bloom \<Rightarrow> bloom" where
  "bloom_free bl = (if b_ready bl then bl\<lparr>b_bf := [], b_ready := False\<rparr> else bl\<lparr>b_ready := False\<rparr>)"

section \<open>Well-formedness and bit access\<close>

text \<open>A usable filter: a positive number of bits, all inside the array, and some hash function.\<close>

definition bloom_ok :: "bloom \<Rightarrow> bool" where
  "bloom_ok bl \<longleftrightarrow> b_ready bl \<and> 0 < b_bits bl \<and> b_bits bl < 2 ^ 31 \<and> 0 < b_hashes bl \<and> b_hashes bl < 2 ^ 31
     \<and> int (length (b_bf bl)) = b_bytes bl \<and> b_bits bl \<le> 8 * b_bytes bl"

text \<open>Bit \<open>x\<close> of the array.\<close>

definition bf_bit :: "bytes \<Rightarrow> 32 word \<Rightarrow> bool" where
  "bf_bit bf x \<longleftrightarrow> bit (bf ! unat (drop_bit 3 x)) (unat (x mod 8))"

definition bf_in_range :: "bytes \<Rightarrow> 32 word \<Rightarrow> bool" where
  "bf_in_range bf x \<longleftrightarrow> unat (drop_bit 3 x) < length bf"

text \<open>The \<open>i\<close>-th probe position of the double hash.\<close>

definition probe :: "32 word \<Rightarrow> 32 word \<Rightarrow> 32 word \<Rightarrow> nat \<Rightarrow> 32 word" where
  "probe a b bits i = (a + word_of_nat i * b) mod bits"

lemma mask_test: "(c :: byte) AND 2 ^ k \<noteq> 0 \<longleftrightarrow> bit c k"
  using and_exp_eq_0_iff_not_bit [of c k] by simp

lemma unat_mod_8 [simp]: "unat (x mod 8 :: 32 word) < 8"
  by (simp add: unat_mod)

text \<open>The array after the bit has been set.\<close>

definition bf_set :: "bytes \<Rightarrow> 32 word \<Rightarrow> bool \<Rightarrow> bytes" where
  "bf_set bf x s =
    (if bf_bit bf x \<or> \<not> s then bf
     else bf[unat (drop_bit 3 x) := bf ! unat (drop_bit 3 x) OR push_bit (unat (x mod 8)) 1])"

lemma test_bit_set_bit_eq:
  "bf_in_range bf x \<Longrightarrow> test_bit_set_bit bf x s = Some (bf_bit bf x, bf_set bf x s)"
  by (simp add: test_bit_set_bit_def bf_set_def bf_bit_def bf_in_range_def mask_test [symmetric] Let_def)

lemma length_bf_set [simp]: "length (bf_set bf x s) = length bf"
  by (simp add: bf_set_def)

lemma bf_position_eq:
  "x = y \<longleftrightarrow> drop_bit 3 x = drop_bit 3 y \<and> x mod 8 = (y mod 8 :: 32 word)"
proof
  assume *: "drop_bit 3 x = drop_bit 3 y \<and> x mod 8 = y mod 8"
  have m: "z mod 8 = take_bit 3 z" for z :: "32 word" by (simp add: take_bit_eq_mod)
  have "push_bit 3 (drop_bit 3 x) + take_bit 3 x = push_bit 3 (drop_bit 3 y) + take_bit 3 y"
    using * by (simp add: m)
  then show "x = y" by (simp only: bits_ident)
qed simp

lemma bf_bit_after_set:
  assumes "bf_in_range bf x"
  shows "bf_bit (bf_set bf x True) y \<longleftrightarrow> bf_bit bf y \<or> y = x"
proof -
  have *: "unat v = unat w \<longleftrightarrow> v = w" for v w :: "32 word"
    by (simp add: word_unat_eq_iff)
  show ?thesis
    using assms unfolding bf_set_def bf_in_range_def
    by (cases "drop_bit 3 y = drop_bit 3 x"; cases "unat (drop_bit 3 y) = unat (drop_bit 3 x)")
       (auto simp: bf_bit_def bf_position_eq [of y x] nth_list_update bit_simps *)
qed

lemma bf_in_range_set [simp]:
  "bf_in_range (bf_set bf x s) y \<longleftrightarrow> bf_in_range bf y"
  by (simp add: bf_in_range_def)

lemma bf_in_range_probe:
  assumes "0 < bits" "bits < 2 ^ 31" "bits \<le> 8 * int (length bf)"
  shows "bf_in_range bf (probe a b (word_of_int bits) i)"
proof -
  have u: "unat (word_of_int bits :: 32 word) = nat bits"
    using assms by (simp add: unsigned_of_int take_bit_int_eq_self nat_take_bit_eq)
  have "unat (probe a b (word_of_int bits) i) < nat bits"
    using assms u by (simp add: probe_def unat_mod)
  moreover have "unat (drop_bit 3 x) = unat x div 8" for x :: "32 word"
    by (subst unat_drop_bit_eq) (simp add: drop_bit_eq_div)
  ultimately show ?thesis
    using assms(3) by (simp add: bf_in_range_def div_less_iff_less_mult)
qed

section \<open>The probe loop\<close>

text \<open>While every probe is in range, a check counts the set probes and changes nothing, and an add sets exactly the
  probed bits.\<close>

lemma bloom_loop_check:
  assumes "bits \<noteq> 0" "\<And>j. bf_in_range bf (probe a b bits j)"
  shows "bloom_loop n i a b bits False hits bf =
    Some (hits + length (filter (\<lambda>j. bf_bit bf (probe a b bits j)) [i..<i + n]), bf)"
proof (induction n arbitrary: i hits)
  case (Suc n)
  have "test_bit_set_bit bf ((a + word_of_nat i * b) mod bits) False = Some (bf_bit bf (probe a b bits i), bf)"
    using test_bit_set_bit_eq [OF assms(2) [of i], of False] by (simp add: bf_set_def probe_def)
  then show ?case using assms(1) Suc.IH by (simp add: upt_conv_Cons del: upt_Suc)
qed simp

lemma bloom_loop_add_bits:
  assumes "bits \<noteq> 0" "\<And>j. bf_in_range bf (probe a b bits j)"
  shows "\<exists>hits' bf'. bloom_loop n i a b bits add hits bf = Some (hits', bf') \<and> length bf' = length bf \<and>
    (\<forall>y. bf_bit bf' y \<longleftrightarrow> bf_bit bf y \<or> add \<and> (\<exists>j\<in>{i..<i + n}. y = probe a b bits j))"
  using assms(2)
proof (induction n arbitrary: i hits bf)
  case (Suc n)
  define bf1 where "bf1 = bf_set bf (probe a b bits i) add"
  have step: "test_bit_set_bit bf ((a + word_of_nat i * b) mod bits) add = Some (bf_bit bf (probe a b bits i), bf1)"
    using test_bit_set_bit_eq [OF Suc.prems [of i], of add] by (simp add: probe_def bf1_def)
  have "bf_in_range bf1 (probe a b bits j)" for j
    using Suc.prems by (simp add: bf1_def)
  from Suc.IH [OF this, of "Suc i" "if bf_bit bf (probe a b bits i) then Suc hits else hits"]
  obtain hits' bf' where l: "bloom_loop n (Suc i) a b bits add (if bf_bit bf (probe a b bits i) then Suc hits else hits) bf1 = Some (hits', bf')"
    "length bf' = length bf1" "\<forall>y. bf_bit bf' y \<longleftrightarrow> bf_bit bf1 y \<or> add \<and> (\<exists>j\<in>{Suc i..<Suc i + n}. y = probe a b bits j)"
    by auto
  have "bf_bit bf1 y \<longleftrightarrow> bf_bit bf y \<or> add \<and> y = probe a b bits i" for y
    using bf_bit_after_set [OF Suc.prems [of i]] by (cases add) (simp_all add: bf1_def bf_set_def)
  moreover have "{i..<i + Suc n} = insert i {Suc i..<Suc i + n}" by auto
  ultimately have "\<forall>y. bf_bit bf' y \<longleftrightarrow> bf_bit bf y \<or> add \<and> (\<exists>j\<in>{i..<i + Suc n}. y = probe a b bits j)"
    using l(3) by auto
  moreover have "bloom_loop (Suc n) i a b bits add hits bf = Some (hits', bf')"
    using assms(1) step l(1) by simp
  ultimately show ?case using l(2) by (auto simp: bf1_def)
qed simp

section \<open>Membership\<close>

text \<open>The elements a filter reports: all probe bits set.\<close>

definition bloom_has :: "bloom \<Rightarrow> bytes \<Rightarrow> bool" where
  "bloom_has bl buffer \<longleftrightarrow>
    (let a = murmurhash2 buffer 0x9747b28c; b = murmurhash2 buffer a
     in \<forall>j<nat (b_hashes bl). bf_bit (b_bf bl) (probe a b (word_of_int (b_bits bl)) j))"

lemma bloom_ok_in_range:
  "bloom_ok bl \<Longrightarrow> bf_in_range (b_bf bl) (probe a b (word_of_int (b_bits bl)) j)"
  by (rule bf_in_range_probe) (auto simp: bloom_ok_def)

lemma filter_upt_full: "length (filter P [0..<n]) = n \<longleftrightarrow> (\<forall>j<n. P j)"
  using filter_id_conv [of P "[0..<n]"] length_filter_less [of _ "[0..<n]" P]
  by (metis atLeastLessThan_iff length_upt diff_zero less_irrefl set_upt zero_le)

lemma bloom_ok_bits: "bloom_ok bl \<Longrightarrow> (word_of_int (b_bits bl) :: 32 word) \<noteq> 0"
proof
  assume ok: "bloom_ok bl" and z: "(word_of_int (b_bits bl) :: 32 word) = 0"
  have "uint (word_of_int (b_bits bl) :: 32 word) = b_bits bl"
    using ok by (simp add: bloom_ok_def unsigned_of_int take_bit_int_eq_self)
  then show False using z ok by (simp add: bloom_ok_def)
qed

lemma bloom_ok_hashes: "bloom_ok bl \<Longrightarrow> b_hashes bl mod 4294967296 = b_hashes bl"
  by (simp add: bloom_ok_def)

lemma bloom_check_iff:
  assumes "bloom_ok bl"
  shows "bloom_check bl x = Some (if bloom_has bl x then 1 else 0)"
proof -
  have h: "int k = b_hashes bl \<longleftrightarrow> k = nat (b_hashes bl)" for k
    using assms by (auto simp: bloom_ok_def)
  show ?thesis
    using assms bloom_loop_check [OF bloom_ok_bits bloom_ok_in_range, OF assms assms]
    by (simp add: bloom_check_def bloom_check_add_def Let_def bloom_has_def
        filter_upt_full h bloom_ok_hashes) (simp add: bloom_ok_def)
qed

text \<open>The state after \<open>bloom_check_add\<close>, and the array it leaves.\<close>

lemma bloom_check_add_state:
  assumes "bloom_ok bl"
  shows "\<exists>r bf. bloom_check_add bl x add = Some (r, bl\<lparr>b_bf := bf\<rparr>) \<and> r \<in> {0, 1} \<and> length bf = length (b_bf bl)
    \<and> (\<forall>y. bf_bit bf y \<longleftrightarrow> bf_bit (b_bf bl) y \<or> add \<and>
         (\<exists>j<nat (b_hashes bl). y = probe (murmurhash2 x 0x9747b28c) (murmurhash2 x (murmurhash2 x 0x9747b28c)) (word_of_int (b_bits bl)) j))"
proof -
  let ?a = "murmurhash2 x 0x9747b28c" let ?b = "murmurhash2 x ?a"
  obtain hits bf where l: "bloom_loop (nat (b_hashes bl)) 0 ?a ?b (word_of_int (b_bits bl)) add 0 (b_bf bl) = Some (hits, bf)"
    "length bf = length (b_bf bl)"
    "\<forall>y. bf_bit bf y \<longleftrightarrow> bf_bit (b_bf bl) y \<or> add \<and> (\<exists>j\<in>{0..<0 + nat (b_hashes bl)}. y = probe ?a ?b (word_of_int (b_bits bl)) j)"
    using bloom_loop_add_bits [OF bloom_ok_bits [OF assms] bloom_ok_in_range [OF assms], where i = 0 and hits = 0] by blast
  have "b_ready bl" using assms by (simp add: bloom_ok_def)
  then have "bloom_check_add bl x add = Some (if int hits = b_hashes bl then 1 else 0, bl\<lparr>b_bf := bf\<rparr>)"
    using l(1) by (simp add: bloom_check_add_def bloom_ok_hashes [OF assms] Let_def)
  then show ?thesis using l(2,3) by (intro exI [of _ "if int hits = b_hashes bl then 1 else 0"] exI [of _ bf]) (simp add: Bex_def)
qed

text \<open>The filter that an add leaves.\<close>

definition bloom_insert :: "bloom \<Rightarrow> bytes \<Rightarrow> bloom" where
  "bloom_insert bl x = snd (the (bloom_add bl x))"

lemma bloom_insert_state:
  assumes "bloom_ok bl"
  shows "\<exists>bf. bloom_insert bl x = bl\<lparr>b_bf := bf\<rparr> \<and> length bf = length (b_bf bl)
    \<and> (\<forall>y. bf_bit bf y \<longleftrightarrow> bf_bit (b_bf bl) y \<or>
         (\<exists>j<nat (b_hashes bl). y = probe (murmurhash2 x 0x9747b28c) (murmurhash2 x (murmurhash2 x 0x9747b28c)) (word_of_int (b_bits bl)) j))"
  using bloom_check_add_state [OF assms, of x True] by (force simp: bloom_insert_def bloom_add_def)

lemma bloom_add_eq: "bloom_ok bl \<Longrightarrow> \<exists>r. bloom_add bl x = Some (r, bloom_insert bl x) \<and> r \<in> {0, 1}"
  using bloom_check_add_state [of bl x True] by (force simp: bloom_insert_def bloom_add_def)

lemma bloom_insert_ok [inv_intros]: "bloom_ok bl \<Longrightarrow> bloom_ok (bloom_insert bl x)"
  using bloom_insert_state [of bl x] by (auto simp: bloom_ok_def)

lemma bloom_insert_has: "bloom_ok bl \<Longrightarrow> bloom_has (bloom_insert bl x) x"
  using bloom_insert_state [of bl x] by (auto simp: bloom_has_def Let_def)

lemma bloom_has_mono: "bloom_ok bl \<Longrightarrow> bloom_has bl y \<Longrightarrow> bloom_has (bloom_insert bl x) y"
  using bloom_insert_state [of bl x] by (auto simp: bloom_has_def Let_def)

section \<open>Initialisation\<close>

text \<open>The sizes \<open>bloom_init\<close> computes, and the parameters for which they are usable.\<close>

definition bloom_bpe :: "real \<Rightarrow> real" where
  "bloom_bpe error = - (ln error / 0.480453013918201)"

definition bloom_params_ok :: "int \<Rightarrow> real \<Rightarrow> bool" where
  "bloom_params_ok entries error \<longleftrightarrow> 1 \<le> entries \<and> 0 < error \<and> error < 1 \<and>
     1 \<le> real_of_int entries * bloom_bpe error \<and> real_of_int entries * bloom_bpe error < 2 ^ 31 \<and>
     bloom_bpe error < 2 ^ 31"

lemma c_trunc_nonneg: "0 \<le> r \<Longrightarrow> c_trunc r = \<lfloor>r\<rfloor>"
  by (simp add: c_trunc_def)

lemma c_trunc_of_int [simp]: "c_trunc (real_of_int k) = k"
  by (simp add: c_trunc_def)

lemma bloom_bpe_pos: "0 < error \<Longrightarrow> error < 1 \<Longrightarrow> 0 < bloom_bpe error"
  by (simp add: bloom_bpe_def divide_less_0_iff ln_less_zero)

lemma bloom_bytes_cover:
  assumes "0 < bits"
  shows "bits \<le> 8 * (if bits smod 8 \<noteq> 0 then bits sdiv 8 + 1 else bits sdiv (8 :: int))"
    and "0 < (if bits smod 8 \<noteq> 0 then bits sdiv 8 + 1 else bits sdiv (8 :: int))"
proof -
  have d: "bits sdiv 8 = bits div 8" "bits smod 8 = bits mod 8"
    using assms by (simp_all add: signed_divide_int_def signed_modulo_int_def minus_div_mult_eq_mod [symmetric])
  show "bits \<le> 8 * (if bits smod 8 \<noteq> 0 then bits sdiv 8 + 1 else bits sdiv (8 :: int))"
    "0 < (if bits smod 8 \<noteq> 0 then bits sdiv 8 + 1 else bits sdiv (8 :: int))"
    unfolding d using assms by presburger+
qed

lemma bloom_init_ok:
  assumes "bloom_params_ok entries error"
  shows "fst (bloom_init True bl entries error) = 0"
    and "bloom_ok (snd (bloom_init True bl entries error))"
    and "b_bf (snd (bloom_init True bl entries error)) =
      replicate (nat (b_bytes (snd (bloom_init True bl entries error)))) 0"
proof -
  define bits where "bits = c_trunc (real_of_int entries * bloom_bpe error)"
  define bytes where "bytes = (if bits smod 8 \<noteq> 0 then bits sdiv 8 + 1 else bits sdiv (8 :: int))"
  define hashes where "hashes = \<lceil>0.693147180559945 * bloom_bpe error\<rceil>"
  have p: "0 < bloom_bpe error" "1 \<le> entries" "error \<noteq> 0"
    using assms bloom_bpe_pos [of error] by (auto simp: bloom_params_ok_def)
  have b: "0 < bits" "bits < 2 ^ 31"
    using assms by (simp_all add: bits_def bloom_params_ok_def c_trunc_nonneg floor_less_iff)
  have h: "0 < hashes" "hashes < 2 ^ 31"
  proof -
    show "0 < hashes" using p(1) by (simp add: hashes_def)
    have "0.693147180559945 * bloom_bpe error \<le> 2 ^ 31 - 1"
      using assms by (simp add: bloom_params_ok_def)
    then have "hashes \<le> 2 ^ 31 - 1" unfolding hashes_def by (simp add: ceiling_le_iff)
    then show "hashes < 2 ^ 31" by simp
  qed
  note c = bloom_bytes_cover [OF b(1), folded bytes_def]
  have st: "bloom_init True bl entries error = (0, bl\<lparr>b_ready := True, b_entries := entries,
      b_error := error, b_bpe := bloom_bpe error, b_bits := bits, b_bytes := bytes,
      b_hashes := hashes, b_bf := replicate (nat bytes) 0\<rparr>)"
    using p c unfolding bloom_init_def bloom_bpe_def [symmetric] Let_def c_trunc_of_int
      bits_def [symmetric] bytes_def [symmetric] hashes_def [symmetric]
    by simp
  show "fst (bloom_init True bl entries error) = 0" by (simp add: st)
  show "bloom_ok (snd (bloom_init True bl entries error))"
    using b h c by (simp add: st bloom_ok_def)
  show "b_bf (snd (bloom_init True bl entries error)) =
      replicate (nat (b_bytes (snd (bloom_init True bl entries error)))) 0"
    by (simp add: st)
qed

lemma bloom_init_empty:
  assumes "bloom_params_ok entries error"
  shows "\<not> bloom_has (snd (bloom_init True bl entries error)) x"
proof -
  let ?bl = "snd (bloom_init True bl entries error)"
  note ok = bloom_init_ok(2) [OF assms, of bl]
  have "\<not> bf_bit (b_bf ?bl) (probe a b (word_of_int (b_bits ?bl)) 0)" for a b
    using bloom_ok_in_range [OF ok, of a b 0] bloom_init_ok(3) [OF assms, of bl]
    by (simp add: bf_bit_def bf_in_range_def)
  moreover have "0 < nat (b_hashes ?bl)" using ok by (simp add: bloom_ok_def)
  ultimately show ?thesis unfolding bloom_has_def Let_def by blast
qed

lemma bloom_init_fail:
  "\<not> b_ready (snd (bloom_init False bl entries error))"
  "fst (bloom_init False bl entries error) = 1"
  by (simp_all add: bloom_init_def Let_def)

text \<open>The parameters the program uses: \<open>ppbloom_init(1000000, 1e-6)\<close> on the server and
  \<open>ppbloom_init(10000, 1e-15)\<close> on the client, each halved by \<open>ppbloom_init\<close>.\<close>

lemma ln_10_bounds: "9 / 10 \<le> ln (10 :: real)" "ln (10 :: real) \<le> 9"
proof -
  show "ln (10 :: real) \<le> 9" using ln_le_minus_one [of "10 :: real"] by simp
  have "ln (1 / 10 :: real) \<le> 1 / 10 - 1" by (rule ln_le_minus_one) simp
  then show "9 / 10 \<le> ln (10 :: real)" by (simp add: ln_div)
qed

lemma bloom_params_server: "bloom_params_ok 500000 (1 / 10 ^ 6)"
proof -
  have "ln (1 / 10 ^ 6 :: real) = - 6 * ln 10" by (simp add: ln_div ln_realpow del: power_numeral)
  then show ?thesis
    unfolding bloom_params_ok_def bloom_bpe_def using ln_10_bounds by (simp add: field_simps)
qed

lemma bloom_params_client: "bloom_params_ok 5000 (1 / 10 ^ 15)"
proof -
  have "ln (1 / 10 ^ 15 :: real) = - 15 * ln 10" by (simp add: ln_div ln_realpow del: power_numeral)
  then show ?thesis
    unfolding bloom_params_ok_def bloom_bpe_def using ln_10_bounds by (simp add: field_simps)
qed

section \<open>The membership contract\<close>

text \<open>What a client of a set-like filter relies on: adding keeps the filter usable, an added
  element is found, and no element is ever forgotten.\<close>

locale membership_filter =
  fixes ok :: "'f \<Rightarrow> bool"
    and add :: "'f \<Rightarrow> bytes \<Rightarrow> 'f"
    and has :: "'f \<Rightarrow> bytes \<Rightarrow> bool"
  assumes ok_add: "ok f \<Longrightarrow> ok (add f x)"
    and has_add: "ok f \<Longrightarrow> has (add f x) x"
    and has_add_mono: "ok f \<Longrightarrow> has f y \<Longrightarrow> has (add f x) y"
begin

lemma ok_adds: "ok f \<Longrightarrow> ok (foldl add f xs)"
  by (induction xs arbitrary: f) (simp_all add: ok_add)

lemma has_adds_mono: "ok f \<Longrightarrow> has f y \<Longrightarrow> has (foldl add f xs) y"
  by (induction xs arbitrary: f) (simp_all add: ok_add has_add_mono)

lemma no_false_negative: "ok f \<Longrightarrow> x \<in> set xs \<Longrightarrow> has (foldl add f xs) x"
  by (induction xs arbitrary: f) (auto simp: ok_add has_add has_adds_mono)

end

interpretation bloom_filter:
  membership_filter bloom_ok bloom_insert bloom_has
  by unfold_locales (simp_all add: bloom_insert_ok bloom_insert_has bloom_has_mono)

text \<open>A sequence of \<open>bloom_add\<close>s.\<close>

fun bloom_adds :: "bloom \<Rightarrow> bytes list \<Rightarrow> bloom option" where
  "bloom_adds bl [] = Some bl"
| "bloom_adds bl (x # xs) = (case bloom_add bl x of None \<Rightarrow> None | Some (_, bl) \<Rightarrow> bloom_adds bl xs)"

lemma bloom_adds_eq: "bloom_ok bl \<Longrightarrow> bloom_adds bl xs = Some (foldl bloom_insert bl xs)"
proof (induction xs arbitrary: bl)
  case (Cons x xs)
  obtain r where "bloom_add bl x = Some (r, bloom_insert bl x)" using bloom_add_eq [OF Cons.prems, of x] by blast
  then show ?case using Cons.IH [OF bloom_insert_ok [OF Cons.prems, of x]] by simp
qed simp

section \<open>Properties\<close>

text \<open>C10 (functional): no false negatives.  Starting from a freshly initialised filter, every
  element of any sequence of \<open>bloom_add\<close>s is reported by \<open>bloom_check\<close>, and the empty filter
  reports nothing; none of the calls accesses memory outside the bit array.\<close>

theorem bloom_no_false_negative:
  assumes "bloom_params_ok entries error" "(0, bl) = bloom_init True bl0 entries error" "x \<in> set xs"
  shows "bloom_check bl y = Some 0 \<and>
    (\<exists>bl'. bloom_adds bl xs = Some bl' \<and> bloom_check bl' x = Some 1)"
proof
  have bl: "bl = snd (bloom_init True bl0 entries error)"
    by (simp add: assms(2) [symmetric])
  note ok = bloom_init_ok(2) [OF assms(1), of bl0, folded bl]
  show "bloom_check bl y = Some 0"
    using bloom_init_empty [OF assms(1), of bl0 y, folded bl] ok by (simp add: bloom_check_iff)
  show "\<exists>bl'. bloom_adds bl xs = Some bl' \<and> bloom_check bl' x = Some 1"
    using bloom_filter.no_false_negative [OF ok assms(3)] bloom_filter.ok_adds [OF ok, of xs]
    by (simp add: bloom_check_iff bloom_adds_eq [OF ok])
qed

theorem bloom_no_false_negative_witness:
  "bloom_check (snd (bloom_init True bloom_zero 500000 (1 / 10 ^ 6))) [7] = Some 0 \<and>
   (\<exists>bl'. bloom_adds (snd (bloom_init True bloom_zero 500000 (1 / 10 ^ 6))) [[1, 2], [3], []] = Some bl' \<and>
     bloom_check bl' [3] = Some 1)"
  using bloom_no_false_negative [of 500000 "1 / 10 ^ 6" "snd (bloom_init True bloom_zero 500000 (1 / 10 ^ 6))"
      bloom_zero "[3]" "[[1, 2], [3], []]" "[7]"]
    bloom_params_server bloom_init_ok(1) [OF bloom_params_server, of bloom_zero]
  by (simp add: prod_eq_iff del: power_numeral bloom_adds.simps)

text \<open>C12 (bounds): on a usable filter \<open>bloom_check_add\<close> never accesses a byte outside the bit array and never
  divides by zero, whatever the element: every call returns 0 or 1, keeps the filter usable and its array
  the same size, and a check leaves every bit as it is; the filters the program creates (server and client
  parameters) are usable whenever \<open>calloc\<close> succeeds.\<close>

theorem bloom_access_in_bounds:
  assumes "bloom_ok bl"
  shows "(\<exists>r bl'. bloom_check_add bl x ad = Some (r, bl') \<and> r \<in> {0, 1} \<and> bloom_ok bl'
      \<and> length (b_bf bl') = length (b_bf bl) \<and> (\<not> ad \<longrightarrow> (\<forall>y. bf_bit (b_bf bl') y = bf_bit (b_bf bl) y)))
    \<and> bloom_ok (snd (bloom_init True bl0 500000 (1 / 10 ^ 6)))
    \<and> bloom_ok (snd (bloom_init True bl0 5000 (1 / 10 ^ 15)))"
proof -
  obtain r bf where r: "bloom_check_add bl x ad = Some (r, bl\<lparr>b_bf := bf\<rparr>)" "r \<in> {0, 1}" "length bf = length (b_bf bl)"
    "\<not> ad \<Longrightarrow> bf_bit bf y = bf_bit (b_bf bl) y" for y
    using bloom_check_add_state [OF assms, of x ad] by blast
  moreover have "bloom_ok (bl\<lparr>b_bf := bf\<rparr>)" using assms r(3) by (simp add: bloom_ok_def)
  ultimately show ?thesis
    using bloom_init_ok(2) [OF bloom_params_server] bloom_init_ok(2) [OF bloom_params_client] by auto
qed

theorem bloom_access_in_bounds_witness:
  "\<exists>r bl'. bloom_check_add \<lparr>b_entries = 1, b_error = 1 / 2, b_bits = 11, b_bytes = 2, b_hashes = 3, b_bpe = 11,
      b_bf = [0, 0], b_ready = True\<rparr> [1, 2, 3] True = Some (r, bl') \<and> bloom_ok bl'"
proof -
  let ?bl = "\<lparr>b_entries = 1, b_error = 1 / 2, b_bits = 11, b_bytes = 2, b_hashes = 3, b_bpe = 11,
      b_bf = [0, 0], b_ready = True\<rparr>"
  have ok: "bloom_ok ?bl" by (simp add: bloom_ok_def)
  from bloom_access_in_bounds [OF ok, of "[1, 2, 3]" True] show ?thesis by blast
qed

end
