(* ===== verification/PPBloom.thy ===== *)
theory PPBloom
  imports Bloom
begin

text \<open>
  \<open>shadowsocks-libev/src/ppbloom.c\<close>: the ping-pong pair of Bloom filters behind replay
  protection.  Elements go to the current filter; when it has taken \<open>entries\<close> of them the
  roles are swapped and the filter that becomes current is emptied.  The static variables
  of the C file are the record \<open>ppbloom\<close>; the outcomes of \<open>calloc\<close> are arguments.  As in \<open>Bloom\<close>,
  \<open>None\<close> is undefined behaviour.

  The central theorem is the replay window: an element stays detected for at least
  \<open>entries - 1\<close> further additions, whatever they are.
\<close>

record ppbloom =
  pp_bloom :: "bloom list"
  pp_count :: "int list"
  pp_current :: nat
  pp_entries :: int
  pp_error :: real

definition ppbloom_zero :: ppbloom where
  "ppbloom_zero = \<lparr>pp_bloom = [bloom_zero, bloom_zero], pp_count = [0, 0], pp_current = 0,
     pp_entries = 0, pp_error = 0\<rparr>"

definition PING :: nat where "PING = 0"
definition PONG :: nat where "PONG = 1"

definition ppbloom_init :: "bool \<Rightarrow> bool \<Rightarrow> ppbloom \<Rightarrow> int \<Rightarrow> real \<Rightarrow> int \<times> ppbloom" where
  "ppbloom_init calloc_ok1 calloc_ok2 s n e =
    (let s = s\<lparr>pp_entries := n sdiv 2, pp_error := e\<rparr>;
         (err, b) = bloom_init calloc_ok1 (pp_bloom s ! PING) (pp_entries s) (pp_error s);
         s = s\<lparr>pp_bloom := (pp_bloom s)[PING := b]\<rparr>
     in if err \<noteq> 0 then (err, s)
        else
          let (err, b) = bloom_init calloc_ok2 (pp_bloom s ! PONG) (pp_entries s) (pp_error s);
              s = s\<lparr>pp_bloom := (pp_bloom s)[PONG := b]\<rparr>
          in if err \<noteq> 0 then (err, s)
             else (0, s\<lparr>pp_count := (pp_count s)[PING := 0, PONG := 0], pp_current := PING\<rparr>))"

definition ppbloom_check :: "ppbloom \<Rightarrow> bytes \<Rightarrow> int option" where
  "ppbloom_check s buffer =
    (case bloom_check (pp_bloom s ! PING) buffer of
       None \<Rightarrow> None
     | Some ret \<Rightarrow>
         if ret \<noteq> 0 then Some ret
         else
           (case bloom_check (pp_bloom s ! PONG) buffer of
              None \<Rightarrow> None
            | Some ret \<Rightarrow> if ret \<noteq> 0 then Some ret else Some 0))"

text \<open>The second half of \<open>ppbloom_add\<close>: the filter \<open>cur\<close> has taken one more element.\<close>

definition ppbloom_count :: "bool \<Rightarrow> ppbloom \<Rightarrow> nat \<Rightarrow> ppbloom" where
  "ppbloom_count calloc_ok s cur =
    (let s = s\<lparr>pp_count := (pp_count s)[cur := pp_count s ! cur + 1]\<rparr>
     in if pp_count s ! cur \<ge> pp_entries s
        then
          let s = s\<lparr>pp_count := (pp_count s)[cur := 0]\<rparr>;
              cur' = (if cur = PING then PONG else PING);
              s = s\<lparr>pp_current := cur'\<rparr>;
              b = bloom_free (pp_bloom s ! cur');
              b = snd (bloom_init calloc_ok b (pp_entries s) (pp_error s))
          in s\<lparr>pp_bloom := (pp_bloom s)[cur' := b]\<rparr>
        else s)"

definition ppbloom_add :: "bool \<Rightarrow> ppbloom \<Rightarrow> bytes \<Rightarrow> (int \<times> ppbloom) option" where
  "ppbloom_add calloc_ok s buffer =
    (let cur = pp_current s
     in case bloom_add (pp_bloom s ! cur) buffer of
          None \<Rightarrow> None
        | Some (err, b) \<Rightarrow>
            let s = s\<lparr>pp_bloom := (pp_bloom s)[cur := b]\<rparr>
            in if err = -1 then Some (err, s) else Some (0, ppbloom_count calloc_ok s cur))"

definition ppbloom_free :: "ppbloom \<Rightarrow> ppbloom" where
  "ppbloom_free s =
    (let s = s\<lparr>pp_bloom := (pp_bloom s)[PING := bloom_free (pp_bloom s ! PING)]\<rparr>
     in s\<lparr>pp_bloom := (pp_bloom s)[PONG := bloom_free (pp_bloom s ! PONG)]\<rparr>)"

section \<open>Invariant\<close>

definition pp_other :: "ppbloom \<Rightarrow> nat" where
  "pp_other s = (if pp_current s = PING then PONG else PING)"

definition pp_inv :: "ppbloom \<Rightarrow> bool" where
  "pp_inv s \<longleftrightarrow> length (pp_bloom s) = 2 \<and> length (pp_count s) = 2 \<and> pp_current s < 2
     \<and> bloom_ok (pp_bloom s ! PING) \<and> bloom_ok (pp_bloom s ! PONG)
     \<and> 0 \<le> pp_count s ! pp_current s \<and> pp_count s ! pp_current s < pp_entries s
     \<and> pp_count s ! pp_other s = 0
     \<and> bloom_params_ok (pp_entries s) (pp_error s)"

lemma pp_inv_cases [consumes 1, case_names ping pong]:
  assumes "pp_inv s"
  obtains b0 b1 c where "pp_bloom s = [b0, b1]" "pp_count s = [c, 0]" "pp_current s = 0"
      "bloom_ok b0" "bloom_ok b1" "0 \<le> c" "c < pp_entries s"
      "bloom_params_ok (pp_entries s) (pp_error s)"
  | b0 b1 c where "pp_bloom s = [b0, b1]" "pp_count s = [0, c]" "pp_current s = 1"
      "bloom_ok b0" "bloom_ok b1" "0 \<le> c" "c < pp_entries s"
      "bloom_params_ok (pp_entries s) (pp_error s)"
proof -
  obtain b0 b1 where b: "pp_bloom s = [b0, b1]"
    using assms by (auto simp: pp_inv_def length_Suc_conv numeral_2_eq_2)
  obtain c0 c1 where c: "pp_count s = [c0, c1]"
    using assms by (auto simp: pp_inv_def length_Suc_conv numeral_2_eq_2)
  have "pp_current s = 0 \<or> pp_current s = 1"
    using assms by (auto simp: pp_inv_def)
  then show thesis
    using assms b c that by (elim disjE) (auto simp: pp_inv_def pp_other_def PING_def PONG_def)
qed

text \<open>How many further additions an element survives: \<open>2 * entries - count\<close> when it is in the
  current filter, \<open>entries - count\<close> when it is in the other one.\<close>

definition pp_live :: "ppbloom \<Rightarrow> bytes \<Rightarrow> int \<Rightarrow> bool" where
  "pp_live s x k \<longleftrightarrow>
     bloom_has (pp_bloom s ! pp_current s) x \<and> k < 2 * pp_entries s - pp_count s ! pp_current s
   \<or> bloom_has (pp_bloom s ! pp_other s) x \<and> k < pp_entries s - pp_count s ! pp_current s"

lemmas pp_defs = PING_def PONG_def pp_other_def

lemma ppbloom_add_ping:
  assumes "pp_bloom s = [b0, b1]" "pp_count s = [c, 0]" "pp_current s = 0" "bloom_ok b0"
  shows "ppbloom_add ok s x =
    Some (0, if c + 1 < pp_entries s
        then s\<lparr>pp_bloom := [bloom_insert b0 x, b1], pp_count := [c + 1, 0]\<rparr>
        else s\<lparr>pp_bloom := [bloom_insert b0 x,
                 snd (bloom_init ok (bloom_free b1) (pp_entries s) (pp_error s))],
               pp_count := [0, 0], pp_current := 1\<rparr>)"
  using assms bloom_add_eq [OF assms(4), of x]
  by (auto simp: ppbloom_add_def ppbloom_count_def pp_defs Let_def)

lemma ppbloom_add_pong:
  assumes "pp_bloom s = [b0, b1]" "pp_count s = [0, c]" "pp_current s = 1" "bloom_ok b1"
  shows "ppbloom_add ok s x =
    Some (0, if c + 1 < pp_entries s
        then s\<lparr>pp_bloom := [b0, bloom_insert b1 x], pp_count := [0, c + 1]\<rparr>
        else s\<lparr>pp_bloom := [snd (bloom_init ok (bloom_free b0) (pp_entries s) (pp_error s)),
                 bloom_insert b1 x],
               pp_count := [0, 0], pp_current := 0\<rparr>)"
  using assms bloom_add_eq [OF assms(4), of x]
  by (auto simp: ppbloom_add_def ppbloom_count_def pp_defs Let_def)

text \<open>The pair that an addition leaves, when \<open>calloc\<close> succeeds.\<close>

definition pp_record :: "bool \<Rightarrow> ppbloom \<Rightarrow> bytes \<Rightarrow> ppbloom" where
  "pp_record ok s x = snd (the (ppbloom_add ok s x))"

lemma ppbloom_add_eq: "pp_inv s \<Longrightarrow> ppbloom_add ok s x = Some (0, pp_record ok s x)"
  by (erule pp_inv_cases) (simp_all add: pp_record_def ppbloom_add_ping ppbloom_add_pong)

lemma pp_record_params [simp]:
  "pp_inv s \<Longrightarrow> pp_entries (pp_record ok s x) = pp_entries s"
  "pp_inv s \<Longrightarrow> pp_error (pp_record ok s x) = pp_error s"
  by (erule pp_inv_cases; simp add: pp_record_def ppbloom_add_ping ppbloom_add_pong)+

lemma pp_record_inv [inv_intros]: "pp_inv s \<Longrightarrow> pp_inv (pp_record True s x)"
  by (erule pp_inv_cases)
     (auto simp: pp_record_def ppbloom_add_ping ppbloom_add_pong pp_inv_def pp_defs bloom_insert_ok bloom_init_ok
        bloom_params_ok_def [of "pp_entries s"])

lemma pp_live_step:
  "pp_inv s \<Longrightarrow> pp_live s x (k + 1) \<Longrightarrow> 0 \<le> k \<Longrightarrow> pp_live (pp_record True s y) x k"
  by (erule pp_inv_cases)
     (auto simp: pp_record_def ppbloom_add_ping ppbloom_add_pong pp_live_def pp_defs bloom_has_mono)

lemma pp_live_add:
  "pp_inv s \<Longrightarrow> pp_live (pp_record True s x) x (pp_entries s - 1)"
  by (erule pp_inv_cases)
     (auto simp: pp_record_def ppbloom_add_ping ppbloom_add_pong pp_live_def pp_defs bloom_insert_has)

lemma ppbloom_check_iff:
  assumes "pp_inv s"
  shows "ppbloom_check s x =
    Some (if bloom_has (pp_bloom s ! PING) x \<or> bloom_has (pp_bloom s ! PONG) x then 1 else 0)"
  using assms by (auto simp: ppbloom_check_def pp_inv_def bloom_check_iff)

lemma ppbloom_check_cases:
  assumes "pp_inv s" obtains "ppbloom_check s x = Some 0" | "ppbloom_check s x = Some 1"
  using ppbloom_check_iff [OF assms, of x] by (metis (full_types))

lemma ppbloom_unseen: "pp_inv s \<Longrightarrow> ppbloom_check s x \<noteq> Some 1 \<Longrightarrow> ppbloom_check s x = Some 0"
  by (auto elim: ppbloom_check_cases [of s x])

lemma pp_live_check: "pp_inv s \<Longrightarrow> pp_live s x k \<Longrightarrow> ppbloom_check s x = Some 1"
  by (erule pp_inv_cases; auto simp: ppbloom_check_iff pp_live_def pp_defs pp_inv_def split: if_splits)

text \<open>A weaker invariant, which the static filter pair has before its initialisation and which failures of \<open>calloc\<close> keep:
  a filter that is in use is well formed.  With it no access leaves an array.\<close>

definition pp_safe :: "ppbloom \<Rightarrow> bool" where
  "pp_safe s \<longleftrightarrow> length (pp_bloom s) = 2 \<and> length (pp_count s) = 2 \<and> pp_current s < 2
     \<and> (\<forall>b\<in>set (pp_bloom s). b_ready b \<longrightarrow> bloom_ok b)
     \<and> (1 \<le> pp_entries s \<and> pp_error s \<noteq> 0 \<longrightarrow> bloom_params_ok (pp_entries s) (pp_error s))"

lemma pp_zero_safe: "pp_safe ppbloom_zero"
  by (simp add: pp_safe_def ppbloom_zero_def bloom_zero_def)

lemma pp_inv_safe: "pp_inv s \<Longrightarrow> pp_safe s"
  by (erule pp_inv_cases) (auto simp: pp_safe_def)

lemma bloom_init_safe:
  assumes "1 \<le> n \<and> e \<noteq> 0 \<longrightarrow> bloom_params_ok n e" "b_ready (snd (bloom_init ok b n e))"
  shows "bloom_ok (snd (bloom_init ok b n e))"
proof -
  have "ok" using assms(2) by (auto simp: bloom_init_def Let_def split: if_splits)
  moreover have "1 \<le> n" "e \<noteq> 0" using assms(2) by (auto simp: bloom_init_def Let_def split: if_splits)
  ultimately show ?thesis using bloom_init_ok(2) assms(1) by simp
qed

lemma safe_update:
  "\<forall>b\<in>set bs. b_ready b \<longrightarrow> bloom_ok b \<Longrightarrow> (b_ready b \<Longrightarrow> bloom_ok b) \<Longrightarrow> \<forall>b\<in>set (bs[i := b]). b_ready b \<longrightarrow> bloom_ok b"
  using set_update_subset_insert [of bs i b] by blast

lemma bloom_check_safe: "(b_ready b \<Longrightarrow> bloom_ok b) \<Longrightarrow> bloom_check b x \<noteq> None"
  using bloom_check_iff [of b x] by (cases "b_ready b") (auto simp: bloom_check_def bloom_check_add_def)

lemma bloom_add_safe:
  assumes "b_ready b \<Longrightarrow> bloom_ok b"
  shows "\<exists>r b'. bloom_add b x = Some (r, b') \<and> (b_ready b' \<longrightarrow> bloom_ok b')"
proof (cases "b_ready b")
  case True
  then show ?thesis using bloom_add_eq [of b x] bloom_insert_ok [of b x] assms by blast
qed (simp add: bloom_add_def bloom_check_add_def)

lemma ppbloom_check_safe: "pp_safe s \<Longrightarrow> ppbloom_check s x \<noteq> None"
  using bloom_check_safe [of "pp_bloom s ! PING" x] bloom_check_safe [of "pp_bloom s ! PONG" x]
  by (auto simp: ppbloom_check_def pp_safe_def PING_def PONG_def split: option.split)

lemma ppbloom_count_safe:
  assumes "pp_safe s"
  shows "pp_safe (ppbloom_count ok s cur)"
proof -
  let ?cur = "if cur = PING then PONG else PING"
  have "?cur < 2" by (simp add: pp_defs)
  moreover have "\<forall>b\<in>set ((pp_bloom s)[?cur := snd (bloom_init ok (bloom_free (pp_bloom s ! ?cur)) (pp_entries s) (pp_error s))]).
      b_ready b \<longrightarrow> bloom_ok b"
    using assms by (intro safe_update bloom_init_safe) (auto simp: pp_safe_def)
  ultimately show ?thesis using assms by (simp add: ppbloom_count_def Let_def pp_safe_def)
qed

lemma ppbloom_add_safe:
  assumes "pp_safe s"
  shows "\<exists>r s'. ppbloom_add ok s x = Some (r, s') \<and> pp_safe s'"
proof -
  have "pp_bloom s ! pp_current s \<in> set (pp_bloom s)" using assms by (simp add: pp_safe_def)
  then obtain r b where b: "bloom_add (pp_bloom s ! pp_current s) x = Some (r, b)" "b_ready b \<longrightarrow> bloom_ok b"
    using bloom_add_safe [of "pp_bloom s ! pp_current s" x] assms by (auto simp: pp_safe_def)
  have "pp_safe (s\<lparr>pp_bloom := (pp_bloom s)[pp_current s := b]\<rparr>)"
    using assms b(2) safe_update [of "pp_bloom s" b "pp_current s"] by (simp add: pp_safe_def)
  then show ?thesis using b(1) ppbloom_count_safe by (auto simp: ppbloom_add_def Let_def)
qed

lemma ppbloom_add_defined: "pp_safe s \<Longrightarrow> ppbloom_add ok s x \<noteq> None"
  using ppbloom_add_safe [of s ok x] by auto

lemma ppbloom_add_keeps: "ppbloom_add ok s x = Some (r, s') \<Longrightarrow> pp_safe s \<Longrightarrow> pp_safe s'"
  using ppbloom_add_safe [of s ok x] by auto

lemma ppbloom_init_safe:
  assumes "pp_safe s" "bloom_params_ok (n sdiv 2) e"
  shows "pp_safe (snd (ppbloom_init ok1 ok2 s n e))"
proof -
  define b1 where "b1 = snd (bloom_init ok1 (pp_bloom s ! PING) (n sdiv 2) e)"
  define b2 where "b2 = snd (bloom_init ok2 ((pp_bloom s)[PING := b1] ! PONG) (n sdiv 2) e)"
  have "\<forall>b\<in>set ((pp_bloom s)[PING := b1]). b_ready b \<longrightarrow> bloom_ok b"
    unfolding b1_def using assms by (intro safe_update bloom_init_safe) (auto simp: pp_safe_def)
  moreover from this have "\<forall>b\<in>set ((pp_bloom s)[PING := b1, PONG := b2]). b_ready b \<longrightarrow> bloom_ok b"
    unfolding b2_def using assms by (intro safe_update [where bs = "(pp_bloom s)[PING := b1]"] bloom_init_safe) auto
  ultimately show ?thesis
    using assms by (auto simp: ppbloom_init_def Let_def case_prod_beta pp_safe_def PING_def b1_def b2_def)
qed

text \<open>A sequence of additions.\<close>

fun ppbloom_adds :: "ppbloom \<Rightarrow> bytes list \<Rightarrow> ppbloom option" where
  "ppbloom_adds s [] = Some s"
| "ppbloom_adds s (x # xs) = (case ppbloom_add True s x of None \<Rightarrow> None | Some (_, s) \<Rightarrow> ppbloom_adds s xs)"

lemma ppbloom_adds_eq: "pp_inv s \<Longrightarrow> ppbloom_adds s xs = Some (foldl (pp_record True) s xs)"
  by (induction xs arbitrary: s) (simp_all add: ppbloom_add_eq pp_record_inv)

section \<open>The recency window of the filter\<close>

interpretation pp_window:
  recency_window pp_inv "pp_record True" "\<lambda>x. x" "\<lambda>s x. ppbloom_check s x = Some 1"
    pp_live pp_entries
  by unfold_locales
     (auto simp: pp_record_inv pp_live_add pp_live_step intro: pp_live_check, auto simp: pp_live_def)

lemma ppbloom_adds_window:
  assumes "pp_inv s" "int (length ys) < pp_entries s" "ppbloom_adds s (x # ys) = Some s'"
  shows "ppbloom_check s' x = Some 1" "pp_inv s'"
proof -
  have s': "s' = foldl (pp_record True) (pp_record True s x) ys"
    using assms(3) by (simp add: ppbloom_adds_eq [OF assms(1)] del: ppbloom_adds.simps)
  have "pp_inv (foldl (pp_record True) s zs)" if "pp_inv s" for s zs
    using that by (induction zs arbitrary: s) (simp_all add: pp_record_inv)
  then show "pp_inv s'" using s' pp_record_inv [OF assms(1)] by simp
  show "ppbloom_check s' x = Some 1" unfolding s' by (rule pp_window.seen_within_window [OF assms(1,2)])
qed

section \<open>Initialisation\<close>

lemma ppbloom_init_inv:
  assumes "bloom_params_ok (n sdiv 2) e" "length (pp_bloom s) = 2" "length (pp_count s) = 2"
  shows "fst (ppbloom_init True True s n e) = 0"
    and "pp_inv (snd (ppbloom_init True True s n e))"
    and "pp_entries (snd (ppbloom_init True True s n e)) = n sdiv 2"
proof -
  have 1: "1 \<le> n sdiv 2" using assms(1) by (simp add: bloom_params_ok_def)
  show "fst (ppbloom_init True True s n e) = 0"
    by (simp add: ppbloom_init_def Let_def case_prod_beta bloom_init_ok [OF assms(1)])
  show "pp_inv (snd (ppbloom_init True True s n e))"
    using assms 1
    by (simp add: ppbloom_init_def Let_def case_prod_beta bloom_init_ok pp_inv_def pp_defs)
  show "pp_entries (snd (ppbloom_init True True s n e)) = n sdiv 2"
    by (simp add: ppbloom_init_def Let_def case_prod_beta)
qed

lemma ppbloom_init_fresh:
  assumes "bloom_params_ok (n sdiv 2) e" "length (pp_bloom s) = 2" "length (pp_count s) = 2"
  shows "ppbloom_check (snd (ppbloom_init True True s n e)) x = Some 0"
  using assms ppbloom_init_inv(2) [OF assms]
  by (simp add: ppbloom_check_iff)
     (simp add: ppbloom_init_def Let_def case_prod_beta bloom_init_ok bloom_init_empty pp_defs)

section \<open>Properties\<close>

text \<open>C4 (safety): the replay window.  Once a salt has been added to an initialised pair, every
  later check reports it, as long as fewer than \<open>entries\<close> (half the configured capacity) other
  salts have been added since, across any number of role swaps.\<close>

theorem ppbloom_replay_window:
  assumes "pp_inv s" "int (length ys) < pp_entries s"
  shows "\<exists>s'. ppbloom_adds s (x # ys) = Some s' \<and> ppbloom_check s' x = Some 1"
  using ppbloom_adds_window [OF assms] ppbloom_adds_eq [OF assms(1), of "x # ys"] by blast

definition pp_demo :: ppbloom where
  "pp_demo = snd (ppbloom_init True True ppbloom_zero 1000000 (1 / 10 ^ 6))"

lemma pp_demo_inv: "pp_inv pp_demo" "pp_entries pp_demo = 500000"
  using ppbloom_init_inv(2,3) [of 1000000 "1 / 10 ^ 6" ppbloom_zero] bloom_params_server
  by (simp_all add: pp_demo_def ppbloom_zero_def signed_divide_int_def)

theorem ppbloom_replay_window_witness:
  "\<exists>s'. ppbloom_adds pp_demo [[9, 9], [1], [2], [3]] = Some s' \<and> ppbloom_check s' [9, 9] = Some 1"
  using ppbloom_replay_window [of pp_demo "[[1], [2], [3]]" "[9, 9]"] pp_demo_inv by simp

text \<open>C9 (invariant): \<open>ppbloom_init\<close> with the server's or the client's parameters succeeds and
  establishes the invariant with nothing seen, \<open>ppbloom_add\<close> returns 0 and preserves it, and
  under it \<open>ppbloom_check\<close> returns only 0 or 1.\<close>

theorem ppbloom_invariant:
  assumes "pp_inv s" "length (pp_bloom z) = 2" "length (pp_count z) = 2"
    "(n, e) \<in> {(1000000, 1 / 10 ^ 6), (10000, 1 / 10 ^ 15)}"
  shows "fst (ppbloom_init True True z n e) = 0 \<and> pp_inv (snd (ppbloom_init True True z n e))
    \<and> ppbloom_check (snd (ppbloom_init True True z n e)) x = Some 0
    \<and> (\<exists>s'. ppbloom_add True s x = Some (0, s') \<and> pp_inv s')
    \<and> ppbloom_check s x \<in> {Some 0, Some 1}"
proof -
  have "bloom_params_ok (n sdiv 2) e"
  proof -
    consider "n = 1000000" "e = 1 / 10 ^ 6" | "n = 10000" "e = 1 / 10 ^ 15"
      using assms(4) by blast
    moreover have "1000000 sdiv 2 = (500000 :: int)" "10000 sdiv 2 = (5000 :: int)"
      by (simp_all add: signed_divide_int_def)
    ultimately show ?thesis
      using bloom_params_server bloom_params_client by cases (simp_all only:)
  qed
  then show ?thesis
    using ppbloom_init_inv [OF _ assms(2,3)] ppbloom_init_fresh [OF _ assms(2,3)]
      ppbloom_add_eq [OF assms(1)] pp_record_inv [OF assms(1)]
    by (simp add: ppbloom_check_iff [OF assms(1)])
qed

theorem ppbloom_invariant_witness:
  "fst (ppbloom_init True True ppbloom_zero 10000 (1 / 10 ^ 15)) = 0
   \<and> (\<exists>s'. ppbloom_add True pp_demo [1] = Some (0, s') \<and> pp_inv s')"
  using ppbloom_invariant [of pp_demo ppbloom_zero 10000 "1 / 10 ^ 15" "[1]"] pp_demo_inv
  by (simp add: ppbloom_zero_def)

text \<open>When \<open>calloc\<close> fails while the roles are swapped towards the first filter, the
  protection is silently gone: the addition that caused the swap still returns 0, every later
  check returns -1 (which the ciphers, testing for 1, take as \<open>not seen\<close>), and every later
  addition returns -1 and records nothing.\<close>

theorem ppbloom_rotation_failure:
  assumes "pp_inv s" "pp_current s = PONG" "pp_count s ! PONG + 1 \<ge> pp_entries s"
  shows "\<exists>s'. ppbloom_add False s x = Some (0, s')
    \<and> ppbloom_check s' y = Some (-1)
    \<and> ppbloom_add ok s' z = Some (-1, s')"
  using assms(1)
proof (cases rule: pp_inv_cases)
  case (pong b0 b1 c)
  let ?b = "snd (bloom_init False (bloom_free b0) (pp_entries s) (pp_error s))"
  have nr: "\<not> b_ready ?b" by (rule bloom_init_fail(1))
  have c: "\<not> c + 1 < pp_entries s" using assms(3) pong by (simp add: PONG_def)
  show ?thesis
    using nr c pong
    by (simp add: ppbloom_add_pong [OF pong(1-3,5)])
       (simp add: ppbloom_check_def ppbloom_add_def bloom_check_def bloom_add_def
         bloom_check_add_def pp_defs Let_def)
qed (use assms(2) in \<open>simp add: PONG_def\<close>)

definition pp_tiny :: ppbloom where
  "pp_tiny =
    (let b = \<lparr>b_entries = 1, b_error = exp (- 0.480453013918201), b_bits = 1, b_bytes = 1,
               b_hashes = 1, b_bpe = 1, b_bf = [0], b_ready = True\<rparr>
     in \<lparr>pp_bloom = [b, b], pp_count = [0, 0], pp_current = 1, pp_entries = 1,
         pp_error = exp (- 0.480453013918201)\<rparr>)"

lemma pp_tiny_facts:
  "pp_inv pp_tiny" "pp_current pp_tiny = PONG" "pp_count pp_tiny ! PONG + 1 \<ge> pp_entries pp_tiny"
  by (simp_all add: pp_tiny_def pp_inv_def pp_defs bloom_ok_def bloom_params_ok_def bloom_bpe_def Let_def)

theorem ppbloom_rotation_failure_witness:
  "\<exists>s'. ppbloom_add False pp_tiny [1] = Some (0, s') \<and> ppbloom_check s' [1] = Some (-1)"
  using ppbloom_rotation_failure [OF pp_tiny_facts, of "[1]" "[1]"] by blast

end
