(* ===== verification/Crypto.thy ===== *)
theory Crypto
  imports Base64 PPBloom
begin

text \<open>
  \<open>shadowsocks-libev/src/crypto.c\<close> and \<open>crypto.h\<close>: the buffers every component passes
  around, the key schedule (\<open>crypto_derive_key\<close>, HKDF, \<open>crypto_parse_key\<close>) and the data
  shared by the two cipher families.

  A buffer is a record of its four fields; \<open>data\<close> is a list of exactly \<open>capacity\<close> bytes
  in every well-formed buffer, so a write past the end shows up as a broken invariant.
  Bytes that \<open>malloc\<close>/\<open>realloc\<close> leave uninitialised are 0 here; no theorem reads them.

  The functions of mbed TLS and libsodium are the fields of the record \<open>crypto_lib\<close>, over
  an opaque type \<open>'e\<close> of mbed TLS cipher contexts.  \<open>FATAL\<close> only logs in this program
  (its \<open>exit\<close> is commented out in \<open>utils.c\<close>), so the code after a \<open>FATAL\<close> is modelled.
\<close>

section \<open>Buffers\<close>

record buffer =
  bidx :: nat
  blen :: nat
  bcap :: nat
  bdata :: bytes

definition buffer_zero :: buffer where
  "buffer_zero = \<lparr>bidx = 0, blen = 0, bcap = 0, bdata = []\<rparr>"

definition balloc :: "nat \<Rightarrow> buffer" where
  "balloc capacity = \<lparr>bidx = 0, blen = 0, bcap = capacity, bdata = replicate capacity 0\<rparr>"

definition brealloc :: "buffer \<Rightarrow> nat \<Rightarrow> nat \<Rightarrow> buffer" where
  "brealloc b len capacity =
    (let real_capacity = max len capacity
     in if bcap b < real_capacity
        then b\<lparr>bdata := bdata b @ replicate (real_capacity - length (bdata b)) 0, bcap := real_capacity\<rparr>
        else b)"

definition bfree :: "buffer \<Rightarrow> buffer" where
  "bfree b = b\<lparr>bidx := 0, blen := 0, bcap := 0, bdata := []\<rparr>"

definition bprepend :: "buffer \<Rightarrow> buffer \<Rightarrow> nat \<Rightarrow> buffer" where
  "bprepend dst src capacity =
    (let dst = brealloc dst (blen dst + blen src) capacity;
         dst = dst\<lparr>bdata := write_at (blen src) (take (blen dst) (bdata dst)) (bdata dst)\<rparr>;
         dst = dst\<lparr>bdata := write_at 0 (take (blen src) (bdata src)) (bdata dst)\<rparr>
     in dst\<lparr>blen := blen dst + blen src\<rparr>)"

text \<open>The bytes a buffer holds, and well-formedness.\<close>

definition bcontent :: "buffer \<Rightarrow> bytes" where
  "bcontent b = take (blen b) (bdata b)"

definition buffer_ok :: "buffer \<Rightarrow> bool" where
  "buffer_ok b \<longleftrightarrow> length (bdata b) = bcap b \<and> blen b \<le> bcap b"

definition buffer_of :: "bytes \<Rightarrow> buffer" where
  "buffer_of bs = \<lparr>bidx = 0, blen = length bs, bcap = length bs, bdata = bs\<rparr>"

lemma buffer_of_simps [simp]:
  "bcontent (buffer_of bs) = bs" "buffer_ok (buffer_of bs)" "blen (buffer_of bs) = length bs"
  by (simp_all add: buffer_of_def bcontent_def buffer_ok_def)

lemma length_bcontent [simp]: "buffer_ok b \<Longrightarrow> length (bcontent b) = blen b"
  by (simp add: bcontent_def buffer_ok_def)

lemma buffer_zero_ok [simp, inv_intros]: "buffer_ok buffer_zero"
  by (simp add: buffer_zero_def buffer_ok_def)

lemma balloc_ok [simp, inv_intros]: "buffer_ok (balloc n)" "blen (balloc n) = 0" "bcontent (balloc n) = []"
  by (simp_all add: balloc_def buffer_ok_def bcontent_def)

lemma brealloc_ok [simp, inv_intros]: "buffer_ok b \<Longrightarrow> buffer_ok (brealloc b n c)"
  by (auto simp: brealloc_def buffer_ok_def Let_def)

lemma brealloc_len [simp]: "blen (brealloc b n c) = blen b" "bidx (brealloc b n c) = bidx b"
  by (simp_all add: brealloc_def Let_def)

lemma brealloc_content [simp]: "buffer_ok b \<Longrightarrow> bcontent (brealloc b n c) = bcontent b"
  by (simp add: brealloc_def Let_def bcontent_def buffer_ok_def)

lemma brealloc_cap: "bcap (brealloc b n c) = max (bcap b) (max n c)"
  by (simp add: brealloc_def Let_def max_def)

lemma brealloc_data_length: "buffer_ok b \<Longrightarrow> length (bdata (brealloc b n c)) = max (bcap b) (max n c)"
  using brealloc_ok [of b n c] brealloc_cap [of b n c] by (simp add: buffer_ok_def)

lemma brealloc_fits [simp]: "buffer_ok b \<Longrightarrow> n \<le> length (bdata (brealloc b n c))"
  by (simp add: brealloc_data_length)

lemma brealloc_take [simp]:
  "buffer_ok b \<Longrightarrow> k \<le> blen b \<Longrightarrow> take k (bdata (brealloc b n c)) = take k (bdata b)"
  by (simp add: brealloc_def Let_def buffer_ok_def)

text \<open>The common end of the cipher functions: grow the buffer and replace its content.\<close>

definition bset :: "buffer \<Rightarrow> bytes \<Rightarrow> nat \<Rightarrow> buffer" where
  "bset b bs capacity =
    (let b = brealloc b (length bs) capacity
     in b\<lparr>bdata := write_at 0 bs (bdata b), blen := length bs\<rparr>)"

lemma bset_ok [simp, inv_intros]: "buffer_ok b \<Longrightarrow> buffer_ok (bset b bs c)"
  using brealloc_ok [of b "length bs" c] brealloc_fits [of b "length bs" c]
  by (auto simp: bset_def buffer_ok_def Let_def)

lemma bset_content [simp]: "bcontent (bset b bs c) = bs"
  by (simp add: bset_def bcontent_def Let_def write_at_0)

lemma bset_len [simp]: "blen (bset b bs c) = length bs"
  by (simp add: bset_def Let_def)

lemma bprepend_ok:
  assumes "buffer_ok dst" "buffer_ok src"
  shows "buffer_ok (bprepend dst src c)" "bcontent (bprepend dst src c) = bcontent src @ bcontent dst"
proof -
  define d where "d = brealloc dst (blen dst + blen src) c"
  have d: "buffer_ok d" "blen d = blen dst" "blen dst + blen src \<le> length (bdata d)"
    "take (blen dst) (bdata d) = bcontent dst"
    using assms brealloc_fits [of dst "blen dst + blen src" c] unfolding d_def
    by (simp_all add: bcontent_def)
  have s: "length (take (blen src) (bdata src)) = blen src"
    using assms by (simp add: buffer_ok_def)
  have e: "bprepend dst src c = d\<lparr>bdata := write_at 0 (take (blen src) (bdata src))
        (write_at (blen src) (bcontent dst) (bdata d)), blen := blen dst + blen src\<rparr>"
    using d by (simp add: bprepend_def Let_def d_def [symmetric])
  have l: "length (bcontent dst) = blen dst" using assms by simp
  show "buffer_ok (bprepend dst src c)"
    using d s l by (simp add: e buffer_ok_def)
  show "bcontent (bprepend dst src c) = bcontent src @ bcontent dst"
    using d s l by (simp add: e bcontent_def write_at_def)
qed

section \<open>Ciphers and contexts\<close>

definition MAX_KEY_LENGTH :: nat where "MAX_KEY_LENGTH = 64"
definition MAX_NONCE_LENGTH :: nat where "MAX_NONCE_LENGTH = 32"

text \<open>The result codes; \<open>ABORTED\<close> is a call that does not return: an \<open>assert\<close> failed and ended the process, or
  the replay filter's behaviour was undefined.\<close>

datatype crypto_ret = CRYPTO_OK | CRYPTO_NEED_MORE | CRYPTO_ERROR | ABORTED

record cipher =
  c_method :: int
  c_skey :: bool
  c_info :: bool
  c_nonce_len :: nat
  c_key_len :: nat
  c_tag_len :: nat
  c_key :: bytes

record 'e cipher_ctx =
  x_init :: nat
  x_counter :: "64 word"
  x_evp :: "'e option"
  x_cipher :: cipher
  x_chunk :: "buffer option"
  x_salt :: bytes
  x_skey :: bytes
  x_nonce :: bytes

text \<open>A message digest: its output size, its HMAC (\<open>None\<close> is a non-zero return) and whether \<open>mbedtls_md_setup\<close>, which
  allocates, returns 0.\<close>

record md_alg =
  md_size :: nat
  md_hash :: "bytes \<Rightarrow> bytes"
  md_hmac :: "bytes \<Rightarrow> bytes \<Rightarrow> bytes option"
  md_setup :: bool

text \<open>The calls into mbed TLS and libsodium.  An \<open>int\<close> result is the C return code;
  \<open>lib_cipher_sizes\<close> is the \<open>key_bitlen\<close> and \<open>iv_size\<close> of a cipher's info record.\<close>

record 'e crypto_lib =
  lib_md5 :: md_alg
  lib_sha1 :: md_alg
  lib_cipher_info :: "string \<Rightarrow> bool"
  lib_cipher_sizes :: "string \<Rightarrow> nat \<times> nat"
  lib_cipher_free :: "'e \<Rightarrow> 'e"
  lib_cipher_setup :: "string option \<Rightarrow> int \<times> 'e"
  lib_cipher_setkey :: "'e \<Rightarrow> bytes \<Rightarrow> nat \<Rightarrow> bool \<Rightarrow> int \<times> 'e"
  lib_cipher_reset :: "'e \<Rightarrow> int \<times> 'e"
  lib_cipher_set_iv :: "'e \<Rightarrow> bytes \<Rightarrow> int \<times> 'e"
  lib_cipher_update :: "'e \<Rightarrow> bytes \<Rightarrow> int \<times> bytes \<times> 'e"
  lib_auth_encrypt :: "'e \<Rightarrow> bytes \<Rightarrow> bytes \<Rightarrow> nat \<Rightarrow> int \<times> bytes \<times> bytes \<times> 'e"
  lib_auth_decrypt :: "'e \<Rightarrow> bytes \<Rightarrow> bytes \<Rightarrow> bytes \<Rightarrow> int \<times> bytes \<times> 'e"
  lib_chacha_encrypt :: "bytes \<Rightarrow> bytes \<Rightarrow> bytes \<Rightarrow> int \<times> bytes"
  lib_chacha_decrypt :: "bytes \<Rightarrow> bytes \<Rightarrow> bytes \<Rightarrow> int \<times> bytes"
  lib_xchacha_encrypt :: "bytes \<Rightarrow> bytes \<Rightarrow> bytes \<Rightarrow> int \<times> bytes"
  lib_xchacha_decrypt :: "bytes \<Rightarrow> bytes \<Rightarrow> bytes \<Rightarrow> int \<times> bytes"
  lib_stream_xor_ic :: "int \<Rightarrow> bytes \<Rightarrow> bytes \<Rightarrow> 64 word \<Rightarrow> bytes \<Rightarrow> bytes"

text \<open>The process-wide state of the crypto layer: the static scratch buffer of each cipher
  function and the ping-pong filter.\<close>

record crypto_globals =
  g_aead_enc_all :: buffer
  g_aead_dec_all :: buffer
  g_aead_enc :: buffer
  g_aead_dec :: buffer
  g_stream_enc_all :: buffer
  g_stream_dec_all :: buffer
  g_stream_enc :: buffer
  g_stream_dec :: buffer
  g_pp :: ppbloom

definition globals_ok :: "crypto_globals \<Rightarrow> bool" where
  "globals_ok g \<longleftrightarrow> buffer_ok (g_aead_enc_all g) \<and> buffer_ok (g_aead_dec_all g)
     \<and> buffer_ok (g_aead_enc g) \<and> buffer_ok (g_aead_dec g)
     \<and> buffer_ok (g_stream_enc_all g) \<and> buffer_ok (g_stream_dec_all g)
     \<and> buffer_ok (g_stream_enc g) \<and> buffer_ok (g_stream_dec g) \<and> pp_inv (g_pp g)"

section \<open>Key derivation from a password\<close>

text \<open>The outer loop of \<open>crypto_derive_key\<close>: \<open>prev\<close> is \<open>md_buf\<close>, empty before the first
  round; \<open>key\<close> is what has been written, \<open>rounds\<close> bounds the iterations.\<close>

primrec derive_loop :: "nat \<Rightarrow> md_alg \<Rightarrow> bytes \<Rightarrow> bytes \<Rightarrow> bytes \<Rightarrow> nat \<Rightarrow> bytes" where
  "derive_loop 0 md pass prev key key_len = key"
| "derive_loop (Suc n) md pass prev key key_len =
    (if length key < key_len
     then
       let md_buf = md_hash md (prev @ pass)
       in derive_loop n md pass md_buf (key @ take (key_len - length key) (take (md_size md) md_buf)) key_len
     else key)"

text \<open>The C loop ends because every round adds at least one byte, so \<open>key_len\<close> rounds
  suffice.  The result is the return value and the first \<open>key_len\<close> bytes of \<open>key\<close>.\<close>

definition crypto_derive_key :: "'e crypto_lib \<Rightarrow> bytes \<Rightarrow> nat \<Rightarrow> nat \<times> bytes" where
  "crypto_derive_key lib pass key_len =
    (if \<not> md_setup (lib_md5 lib) then (0, [])
     else (key_len, derive_loop key_len (lib_md5 lib) (c_string pass) [] [] key_len))"

section \<open>HKDF\<close>

definition crypto_hkdf_extract :: "md_alg \<Rightarrow> bytes option \<Rightarrow> bytes \<Rightarrow> bytes option" where
  "crypto_hkdf_extract md salt ikm =
    (case salt of
       None \<Rightarrow> md_hmac md (replicate (md_size md) 0) ikm
     | Some s \<Rightarrow> md_hmac md s ikm)"

text \<open>The expansion loop from round \<open>i\<close> on, \<open>n\<close> rounds to go; \<open>T\<close> is the previous block and
  \<open>okm\<close> what has been written so far.  The result is whether a call failed, and the output.\<close>

primrec hkdf_expand_loop ::
  "nat \<Rightarrow> nat \<Rightarrow> md_alg \<Rightarrow> bytes \<Rightarrow> bytes \<Rightarrow> bytes \<Rightarrow> bytes \<Rightarrow> nat \<Rightarrow> bool \<times> bytes" where
  "hkdf_expand_loop 0 i md prk info T okm okm_len = (False, okm)"
| "hkdf_expand_loop (Suc n) i md prk info T okm okm_len =
    (case md_hmac md prk (T @ info @ [word_of_nat i]) of
       None \<Rightarrow> (True, okm)
     | Some T' \<Rightarrow>
         hkdf_expand_loop n (Suc i) md prk info T'
           (okm @ take (if n \<noteq> 0 then md_size md else okm_len - length okm) T') okm_len)"

definition crypto_hkdf_expand :: "md_alg \<Rightarrow> bytes \<Rightarrow> bytes \<Rightarrow> nat \<Rightarrow> bool \<times> bytes" where
  "crypto_hkdf_expand md prk info okm_len =
    (let hash_len = md_size md
     in if length prk < hash_len then (True, [])
        else
          let N = okm_len div hash_len;
              N = (if okm_len mod hash_len \<noteq> 0 then N + 1 else N)
          in if N > 255 then (True, [])
             else hkdf_expand_loop N 1 md prk info [] [] okm_len)"

definition crypto_hkdf :: "md_alg \<Rightarrow> bytes option \<Rightarrow> bytes \<Rightarrow> bytes \<Rightarrow> nat \<Rightarrow> bool \<times> bytes" where
  "crypto_hkdf md salt ikm info okm_len =
    (case crypto_hkdf_extract md salt ikm of
       None \<Rightarrow> (True, [])
     | Some prk \<Rightarrow> crypto_hkdf_expand md prk info okm_len)"

section \<open>Pre-shared keys\<close>

text \<open>\<open>crypto_parse_key\<close>: \<open>random\<close> is what \<open>rand_bytes\<close> yields when the key is not usable.
  The \<open>FATAL\<close> at the end does not stop the program, so the random key is returned.\<close>

definition crypto_parse_key :: "bytes \<Rightarrow> bytes \<Rightarrow> nat \<Rightarrow> nat \<times> bytes" where
  "crypto_parse_key random base64 key_len =
    (let base64 = c_string base64;
         out_len = BASE64_SIZE (int (length base64));
         (out_len, out) = base64_decode base64 out_len
     in if out_len > 0 \<and> out_len \<ge> int key_len then (key_len, take key_len out)
        else (key_len, take key_len random))"

lemma c_string_nul: "0 \<notin> set xs \<Longrightarrow> c_string (xs @ 0 # ys) = xs"
  unfolding c_string_def by (induction xs) auto

section \<open>The derived keys\<close>

text \<open>A digest as documented: outputs of the announced, positive size, and an HMAC and a set-up that do
  not fail.\<close>

definition md_ok :: "md_alg \<Rightarrow> bool" where
  "md_ok md \<longleftrightarrow> md_setup md \<and> 0 < md_size md \<and> (\<forall>m. length (md_hash md m) = md_size md)
     \<and> (\<forall>k m. \<exists>h. md_hmac md k m = Some h \<and> length h = md_size md)"

text \<open>Reference: the chain of OpenSSL's \<open>EVP_BytesToKey\<close>, \<open>D_i = H(D_(i-1) || pass)\<close>.\<close>

primrec bytes_to_key_chain :: "nat \<Rightarrow> md_alg \<Rightarrow> bytes \<Rightarrow> bytes \<Rightarrow> bytes" where
  "bytes_to_key_chain 0 md pass prev = []"
| "bytes_to_key_chain (Suc n) md pass prev =
    md_hash md (prev @ pass) @ bytes_to_key_chain n md pass (md_hash md (prev @ pass))"

lemma length_bytes_to_key_chain:
  "md_ok md \<Longrightarrow> length (bytes_to_key_chain n md pass prev) = n * md_size md"
  by (induction n arbitrary: prev) (simp_all add: md_ok_def)

lemma bytes_to_key_chain_prefix:
  "n \<le> m \<Longrightarrow> \<exists>rest. bytes_to_key_chain m md pass prev = bytes_to_key_chain n md pass prev @ rest"
proof (induction n arbitrary: m prev)
  case (Suc n)
  then obtain k where "m = Suc k" "n \<le> k" by (cases m) simp_all
  with Suc.IH [of k] show ?case by auto
qed simp

lemma derive_loop_chain:
  assumes "md_ok md" "length key \<le> L"
  shows "derive_loop n md pass prev key L = take L (key @ bytes_to_key_chain n md pass prev)"
  using assms(2)
proof (induction n arbitrary: prev key)
  case (Suc n)
  have "length (md_hash md (prev @ pass)) = md_size md"
    using assms(1) by (simp add: md_ok_def)
  then show ?case
    using Suc by (auto simp: Let_def min_def)
qed simp

text \<open>Reference: the blocks \<open>T(1), T(2), ...\<close> of RFC 5869, section 2.3.\<close>

primrec hkdf_blocks :: "nat \<Rightarrow> nat \<Rightarrow> md_alg \<Rightarrow> bytes \<Rightarrow> bytes \<Rightarrow> bytes \<Rightarrow> bytes" where
  "hkdf_blocks 0 i md prk info T = []"
| "hkdf_blocks (Suc n) i md prk info T =
    (let T' = the (md_hmac md prk (T @ info @ [word_of_nat i]))
     in T' @ hkdf_blocks n (Suc i) md prk info T')"

lemma length_hkdf_blocks:
  assumes "md_ok md"
  shows "length (hkdf_blocks n i md prk info T) = n * md_size md"
proof (induction n arbitrary: i T)
  case (Suc n)
  obtain h where "md_hmac md prk (T @ info @ [word_of_nat i]) = Some h" "length h = md_size md"
    using assms unfolding md_ok_def by blast
  with Suc show ?case by simp
qed simp

lemma hkdf_expand_loop_blocks:
  assumes "md_ok md"
    and "if n = 0 then length okm = L
         else length okm + (n - 1) * md_size md < L \<and> L \<le> length okm + n * md_size md"
  shows "hkdf_expand_loop n i md prk info T okm L = (False, take L (okm @ hkdf_blocks n i md prk info T))"
  using assms(2)
proof (induction n arbitrary: i T okm)
  case (Suc n)
  obtain h where h: "md_hmac md prk (T @ info @ [word_of_nat i]) = Some h" "length h = md_size md"
    using assms(1) unfolding md_ok_def by blast
  show ?case
  proof (cases "n = 0")
    case True
    then show ?thesis using Suc.prems h by simp
  next
    case False
    then obtain m where "n = Suc m" by (cases n) simp_all
    with Suc.IH [of "okm @ h" "Suc i" h] Suc.prems h show ?thesis
      by (simp add: algebra_simps)
  qed
qed simp

lemma hkdf_rounds:
  fixes L h :: nat
  assumes "0 < h"
  defines "N \<equiv> (if L mod h \<noteq> 0 then L div h + 1 else L div h)"
  shows "if N = 0 then L = 0 else (N - 1) * h < L \<and> L \<le> N * h"
    and "N > 255 \<longleftrightarrow> L > 255 * h"
proof -
  have L: "L = L div h * h + L mod h" by simp
  have m: "L mod h < h" using assms(1) by simp
  show 1: "if N = 0 then L = 0 else (N - 1) * h < L \<and> L \<le> N * h"
  proof (cases "L mod h = 0")
    case True
    then have e: "L = N * h" using L by (simp add: N_def)
    then show ?thesis using assms(1) by (cases N) auto
  next
    case False
    have "L div h * h < L" using L False by linarith
    moreover have "L \<le> L div h * h + h" using L m by linarith
    ultimately have "L div h * h < L" "L \<le> (L div h + 1) * h" by simp_all
    with False show ?thesis by (simp add: N_def)
  qed
  show "N > 255 \<longleftrightarrow> L > 255 * h"
  proof
    assume "N > 255"
    then have "255 \<le> N - 1" by simp
    then have "255 * h \<le> (N - 1) * h" by (rule mult_le_mono1)
    also have "(N - 1) * h < L" using 1 \<open>N > 255\<close> by (simp split: if_splits)
    finally show "L > 255 * h" .
  next
    assume g: "L > 255 * h"
    then have "L \<le> N * h" using 1 by (auto split: if_splits)
    with g have "255 * h < N * h" by (rule less_le_trans)
    then show "N > 255" by simp
  qed
qed

lemma hkdf_blocks_prefix:
  "n \<le> m \<Longrightarrow> \<exists>rest. hkdf_blocks m i md prk info T = hkdf_blocks n i md prk info T @ rest"
proof (induction n arbitrary: m i T)
  case (Suc n)
  then obtain k where "m = Suc k" "n \<le> k" by (cases m) simp_all
  with Suc.IH [of k "Suc i"] show ?case by (auto simp: Let_def)
qed simp

lemma crypto_hkdf_expand_eq:
  assumes "md_ok md" "length prk = md_size md"
  shows "crypto_hkdf_expand md prk info L =
    (if L > 255 * md_size md then (True, [])
     else (False, take L (hkdf_blocks 255 1 md prk info [])))"
proof -
  define N where "N = (if L mod md_size md \<noteq> 0 then L div md_size md + 1 else L div md_size md)"
  have h: "0 < md_size md" using assms(1) by (simp add: md_ok_def)
  note N = hkdf_rounds [OF h, of L, folded N_def]
  have e: "crypto_hkdf_expand md prk info L =
      (if N > 255 then (True, []) else hkdf_expand_loop N 1 md prk info [] [] L)"
    using assms(2) by (simp add: crypto_hkdf_expand_def Let_def N_def)
  show ?thesis
  proof (cases "N > 255")
    case True
    then show ?thesis using N(2) by (simp add: e)
  next
    case False
    have "hkdf_expand_loop N 1 md prk info [] [] L = (False, take L (hkdf_blocks N 1 md prk info []))"
      using hkdf_expand_loop_blocks [OF assms(1), of N "[]" L] N(1) by (auto split: if_splits)
    moreover obtain rest where "hkdf_blocks 255 1 md prk info [] = hkdf_blocks N 1 md prk info [] @ rest"
      using hkdf_blocks_prefix [of N 255 1 md prk info "[]"] False by auto
    moreover have "L \<le> length (hkdf_blocks N 1 md prk info [])"
      using N(1) by (auto simp: length_hkdf_blocks [OF assms(1)] split: if_splits)
    ultimately show ?thesis using N(2) False by (simp add: e)
  qed
qed

lemma crypto_hkdf_length:
  assumes "md_ok md" "L \<le> 255 * md_size md"
  shows "\<exists>okm. crypto_hkdf md (Some salt) ikm info L = (False, okm) \<and> length okm = L"
proof -
  obtain prk where "md_hmac md salt ikm = Some prk" "length prk = md_size md"
    using assms(1) unfolding md_ok_def by blast
  then show ?thesis
    using assms by (simp add: crypto_hkdf_def crypto_hkdf_extract_def crypto_hkdf_expand_eq length_hkdf_blocks)
qed

section \<open>A concrete library\<close>

text \<open>Small executable stand-ins for the library calls, for concrete instances of the theorems:
  a two-byte digest, a keystream that depends on key, IV and position, and tags that depend on
  the key.\<close>

definition md_demo :: md_alg where
  "md_demo = \<lparr>md_size = 2, md_hash = (\<lambda>m. [word_of_nat (length m), sum_list m]),
     md_hmac = (\<lambda>k m. Some [sum_list k + word_of_nat (length m), sum_list m]), md_setup = True\<rparr>"

definition demo_xor :: "bytes \<Rightarrow> bytes \<Rightarrow> nat \<Rightarrow> bytes \<Rightarrow> bytes" where
  "demo_xor k iv pos m = map2 (\<lambda>x i. x XOR (sum_list k + sum_list iv + word_of_nat i)) m [pos..<pos + length m]"

definition demo_seal :: "bytes \<Rightarrow> bytes \<Rightarrow> bytes \<Rightarrow> int \<times> bytes" where
  "demo_seal n k m = (0, m @ replicate 16 (sum_list k))"

definition demo_open :: "bytes \<Rightarrow> bytes \<Rightarrow> bytes \<Rightarrow> int \<times> bytes" where
  "demo_open n k c =
    (if 16 \<le> length c \<and> drop (length c - 16) c = replicate 16 (sum_list k)
     then (0, take (length c - 16) c) else (-1, []))"

definition lib_demo :: "(bytes \<times> bytes \<times> nat) crypto_lib" where
  "lib_demo = \<lparr>lib_md5 = md_demo, lib_sha1 = md_demo,
     lib_cipher_info = (\<lambda>_. True),
     lib_cipher_sizes = (\<lambda>name. if name = ''ARC4-128'' then (128, 0) else (128, 16)),
     lib_cipher_free = (\<lambda>_. ([], [], 0)), lib_cipher_setup = (\<lambda>_. (0, [], [], 0)),
     lib_cipher_setkey = (\<lambda>e k bits enc. (0, k, [], 0)),
     lib_cipher_reset = (\<lambda>e. (0, e)),
     lib_cipher_set_iv = (\<lambda>(k, _, _) iv. (0, k, iv, 0)),
     lib_cipher_update = (\<lambda>(k, iv, pos) m. (0, demo_xor k iv pos m, k, iv, pos + length m)),
     lib_auth_encrypt = (\<lambda>(k, r) n m tl. (0, m, replicate tl (sum_list k), k, r)),
     lib_auth_decrypt = (\<lambda>(k, r) n c t. if t = replicate (length t) (sum_list k) then (0, c, k, r) else (-1, [], k, r)),
     lib_chacha_encrypt = demo_seal, lib_chacha_decrypt = demo_open,
     lib_xchacha_encrypt = demo_seal, lib_xchacha_decrypt = demo_open,
     lib_stream_xor_ic = (\<lambda>method k n ic m. demo_xor k n (64 * unat ic) m)\<rparr>"

lemma md_demo_ok: "md_ok md_demo"
  by (simp add: md_demo_def md_ok_def)

lemma lib_demo_md [simp]: "lib_md5 lib_demo = md_demo" "lib_sha1 lib_demo = md_demo"
  by (simp_all add: lib_demo_def)

definition globals_demo :: crypto_globals where
  "globals_demo = \<lparr>g_aead_enc_all = buffer_zero, g_aead_dec_all = buffer_zero, g_aead_enc = buffer_zero,
     g_aead_dec = buffer_zero, g_stream_enc_all = buffer_zero, g_stream_dec_all = buffer_zero,
     g_stream_enc = buffer_zero, g_stream_dec = buffer_zero, g_pp = pp_demo\<rparr>"

lemma globals_demo_ok: "globals_ok globals_demo"
  by (simp add: globals_demo_def globals_ok_def pp_demo_inv)

lemma globals_demo_fresh: "ppbloom_check (g_pp globals_demo) x = Some 0"
  using ppbloom_init_fresh [of 1000000 "1 / 10 ^ 6" ppbloom_zero x] bloom_params_server
  by (simp add: globals_demo_def pp_demo_def ppbloom_zero_def signed_divide_int_def)

section \<open>Properties\<close>

text \<open>C7 (equivalence): \<open>crypto_hkdf\<close> is HKDF of RFC 5869: HMAC-extract of the key under the
  salt, then the first \<open>okm_len\<close> bytes of the expansion blocks; more than 255 blocks are
  refused.\<close>

theorem crypto_hkdf_rfc5869:
  assumes "md_ok md"
  shows "crypto_hkdf md (Some salt) ikm info L =
    (if L > 255 * md_size md then (True, [])
     else (False, take L (hkdf_blocks 255 1 md (the (md_hmac md salt ikm)) info [])))"
proof -
  obtain prk where "md_hmac md salt ikm = Some prk" "length prk = md_size md"
    using assms unfolding md_ok_def by blast
  then show ?thesis
    using assms by (simp add: crypto_hkdf_def crypto_hkdf_extract_def crypto_hkdf_expand_eq)
qed

theorem crypto_hkdf_rfc5869_witness:
  "crypto_hkdf md_demo (Some [1, 2]) [3] [4] 3 =
    (False, take 3 (hkdf_blocks 255 1 md_demo [4, 3] [4] [])) \<and>
   crypto_hkdf md_demo (Some [1, 2]) [3] [4] 511 = (True, [])"
  using crypto_hkdf_rfc5869 [OF md_demo_ok, of "[1, 2]" "[3]" "[4]" 3]
    crypto_hkdf_rfc5869 [OF md_demo_ok, of "[1, 2]" "[3]" "[4]" 511]
  by (simp add: md_demo_def)

text \<open>C11 (equivalence): \<open>crypto_derive_key\<close> fills exactly \<open>key_len\<close> bytes with the prefix of the
  \<open>EVP_BytesToKey\<close> chain over MD5 and the password up to its NUL, whatever the key length; so a
  shorter key is a prefix of a longer one.  When the digest context cannot be set up, it returns 0 and writes
  nothing.\<close>

theorem crypto_derive_key_chain:
  assumes "md_ok (lib_md5 lib)" "L \<le> L'"
  shows "crypto_derive_key lib pass L = (L, take L (bytes_to_key_chain L (lib_md5 lib) (c_string pass) []))
    \<and> length (snd (crypto_derive_key lib pass L)) = L
    \<and> snd (crypto_derive_key lib pass L) = take L (snd (crypto_derive_key lib pass L'))
    \<and> crypto_derive_key (lib\<lparr>lib_md5 := (lib_md5 lib)\<lparr>md_setup := False\<rparr>\<rparr>) pass L = (0, [])"
proof -
  have su: "md_setup (lib_md5 lib)" using assms(1) by (simp add: md_ok_def)
  have eq: "crypto_derive_key lib pass n = (n, take n (bytes_to_key_chain n (lib_md5 lib) (c_string pass) []))" for n
    by (simp add: crypto_derive_key_def su derive_loop_chain [OF assms(1)])
  have "n \<le> n * md_size (lib_md5 lib)" for n
    using assms(1) by (simp add: md_ok_def)
  then have len: "n \<le> length (bytes_to_key_chain n (lib_md5 lib) (c_string pass) [])" for n
    by (simp add: length_bytes_to_key_chain [OF assms(1)])
  obtain rest where "bytes_to_key_chain L' (lib_md5 lib) (c_string pass) [] =
      bytes_to_key_chain L (lib_md5 lib) (c_string pass) [] @ rest"
    using bytes_to_key_chain_prefix [OF assms(2)] by blast
  moreover have "crypto_derive_key (lib\<lparr>lib_md5 := (lib_md5 lib)\<lparr>md_setup := False\<rparr>\<rparr>) pass L = (0, [])"
    by (simp add: crypto_derive_key_def)
  ultimately show ?thesis using len [of L] assms(2) by (simp add: eq min_def)
qed

theorem crypto_derive_key_chain_witness:
  "snd (crypto_derive_key lib_demo (cstr ''pw'') 3) = take 3 (snd (crypto_derive_key lib_demo (cstr ''pw'') 5))"
proof -
  have "md_ok (lib_md5 lib_demo)" "3 \<le> (5 :: nat)" by (simp_all add: md_demo_ok)
  from crypto_derive_key_chain [OF this, THEN conjunct2, THEN conjunct2, THEN conjunct1] show ?thesis .
qed

text \<open>A base64 key that decodes to at least \<open>key_len\<close> bytes yields its first
  \<open>key_len\<close> bytes; any other string is replaced by random bytes, and the call still returns
  \<open>key_len\<close> as if the key had been accepted.\<close>

theorem crypto_parse_key_result:
  assumes "base64_encode out_size k = Some enc" "0 < key_len" "key_len \<le> length k" "length random = key_len"
    and "fst (base64_decode (c_string bad) (BASE64_SIZE (int (length (c_string bad))))) < int key_len"
  shows "crypto_parse_key random enc key_len = (key_len, take key_len k)
    \<and> crypto_parse_key random bad key_len = (key_len, random)"
proof
  have enc: "enc = base64_blocks k @ [0]"
    using assms(1) by (auto simp: base64_encode_eq split: if_splits)
  have cs: "c_string enc = base64_blocks k"
    using base64_blocks_no_nul [of k] unfolding enc by (rule c_string_nul)
  have "int (length k) \<le> BASE64_SIZE (int (length (base64_blocks k)))"
    unfolding BASE64_SIZE_def length_base64_blocks by linarith
  then have "base64_decode (base64_blocks k) (BASE64_SIZE (int (length (base64_blocks k)))) = (int (length k), k)"
    using decode_blocks [of 0 "[]" k _ 0] by (simp add: base64_decode_def base64_decode_loop_nul)
  then show "crypto_parse_key random enc key_len = (key_len, take key_len k)"
    using assms(2,3) by (auto simp: crypto_parse_key_def cs)
  show "crypto_parse_key random bad key_len = (key_len, random)"
    using assms(2,4,5) by (simp add: crypto_parse_key_def Let_def case_prod_beta)
qed

theorem crypto_parse_key_result_witness:
  "crypto_parse_key [7, 7] (cstr ''AQIDBA=='' @ [0]) 2 = (2, [1, 2]) \<and>
   crypto_parse_key [7, 7] (cstr ''!'') 2 = (2, [7, 7])"
proof -
  have 1: "base64_encode 9 [1, 2, 3, 4] = Some (cstr ''AQIDBA=='' @ [0])"
    by (simp add: base64_encode_eq BASE64_SIZE_def sext_defs b64_code cstr_def chr_def)
  have 2: "fst (base64_decode (c_string (cstr ''!'')) (BASE64_SIZE (int (length (c_string (cstr ''!'')))))) < int 2"
    by (simp add: base64_decode_def decode_loop_cases b64_char_def b64_code cstr_def chr_def c_string_def)
  show ?thesis
    using crypto_parse_key_result [OF 1 _ _ _ 2, of "[7, 7]"] by simp
qed

end
