(* ===== verification/Aead.thy ===== *)
theory Aead
  imports Crypto
begin

text \<open>
  \<open>shadowsocks-libev/src/aead.c\<close>: the AEAD ciphers of the TCP and the UDP relay, and
  \<open>sodium_increment\<close> of libsodium, which steps the nonce.

  Every function returns its result code together with the state it changes: the static
  scratch buffers and the replay filter (\<open>crypto_globals\<close>), the caller's buffer, and the
  cipher context.  Associated data is always empty in this program and is left out.
\<close>

section \<open>Tables\<close>

definition AES128GCM :: int where "AES128GCM = 0"
definition AES192GCM :: int where "AES192GCM = 1"
definition AES256GCM :: int where "AES256GCM = 2"
definition CHACHA20POLY1305IETF :: int where "CHACHA20POLY1305IETF = 3"
definition XCHACHA20POLY1305IETF :: int where "XCHACHA20POLY1305IETF = 4"
definition AEAD_CIPHER_NUM :: int where "AEAD_CIPHER_NUM = 5"
definition CHUNK_SIZE_LEN :: nat where "CHUNK_SIZE_LEN = 2"
definition CHUNK_SIZE_MASK :: nat where "CHUNK_SIZE_MASK = 0x3FFF"
definition CIPHER_UNSUPPORTED :: string where "CIPHER_UNSUPPORTED = ''unsupported''"
definition SUBKEY_INFO :: bytes where "SUBKEY_INFO = cstr ''ss-subkey''"

lemmas method_defs = AES128GCM_def AES192GCM_def AES256GCM_def CHACHA20POLY1305IETF_def
  XCHACHA20POLY1305IETF_def AEAD_CIPHER_NUM_def

definition supported_aead_ciphers :: "string list" where
  "supported_aead_ciphers = [''aes-128-gcm'', ''aes-192-gcm'', ''aes-256-gcm'',
     ''chacha20-ietf-poly1305'', ''xchacha20-ietf-poly1305'']"

definition supported_aead_ciphers_mbedtls :: "string list" where
  "supported_aead_ciphers_mbedtls = [''AES-128-GCM'', ''AES-192-GCM'', ''AES-256-GCM'',
     CIPHER_UNSUPPORTED, CIPHER_UNSUPPORTED]"

definition supported_aead_ciphers_nonce_size :: "nat list" where
  "supported_aead_ciphers_nonce_size = [12, 12, 12, 12, 24]"

definition supported_aead_ciphers_key_size :: "nat list" where
  "supported_aead_ciphers_key_size = [16, 24, 32, 32, 32]"

definition supported_aead_ciphers_tag_size :: "nat list" where
  "supported_aead_ciphers_tag_size = [16, 16, 16, 16, 16]"

section \<open>The nonce counter\<close>

text \<open>\<open>sodium_increment\<close> (the portable loop): \<open>c\<close> is the 16-bit carry.\<close>

fun sodium_increment_loop :: "16 word \<Rightarrow> bytes \<Rightarrow> bytes" where
  "sodium_increment_loop c [] = []"
| "sodium_increment_loop c (x # xs) =
    (let c = c + ucast x
     in ucast c # sodium_increment_loop (drop_bit 8 c) xs)"

definition sodium_increment :: "bytes \<Rightarrow> bytes" where
  "sodium_increment n = sodium_increment_loop 1 n"

text \<open>\<open>sodium_increment(n, nlen)\<close> on the \<open>nonce\<close> array of a context.\<close>

definition increment_nonce :: "'e cipher_ctx \<Rightarrow> 'e cipher_ctx" where
  "increment_nonce ctx =
    (let nlen = c_nonce_len (x_cipher ctx)
     in ctx\<lparr>x_nonce := write_at 0 (sodium_increment (take nlen (x_nonce ctx))) (x_nonce ctx)\<rparr>)"

section \<open>Single AEAD operations\<close>

text \<open>The nonce and key arguments are always the context's own \<open>nonce\<close> and \<open>skey\<close>; the library
  reads \<open>nonce_len\<close> and \<open>key_len\<close> bytes of them.  The result is the return code, the bytes
  written to the output, the output length and the context.  A GCM method with no mbed TLS
  context cannot occur after \<open>aead_ctx_init\<close>.\<close>

definition aead_cipher_encrypt ::
  "'e crypto_lib \<Rightarrow> 'e cipher_ctx \<Rightarrow> bytes \<Rightarrow> int \<times> bytes \<times> nat \<times> 'e cipher_ctx" where
  "aead_cipher_encrypt lib ctx m =
    (let n = take (c_nonce_len (x_cipher ctx)) (x_nonce ctx);
         k = take (c_key_len (x_cipher ctx)) (x_skey ctx);
         tlen = c_tag_len (x_cipher ctx);
         method = c_method (x_cipher ctx)
     in if method \<in> {AES128GCM, AES192GCM, AES256GCM}
        then (case x_evp ctx of
                None \<Rightarrow> (-2, [], 0, ctx)
              | Some e \<Rightarrow>
                  let (err, c, tag, e) = lib_auth_encrypt lib e n m tlen
                  in (err, c @ tag, length c + tlen, ctx\<lparr>x_evp := Some e\<rparr>))
        else if method = CHACHA20POLY1305IETF
        then let (err, c) = lib_chacha_encrypt lib n k m in (err, c, length c, ctx)
        else if method = XCHACHA20POLY1305IETF
        then let (err, c) = lib_xchacha_encrypt lib n k m in (err, c, length c, ctx)
        else (-2, [], 0, ctx))"

definition aead_cipher_decrypt ::
  "'e crypto_lib \<Rightarrow> 'e cipher_ctx \<Rightarrow> bytes \<Rightarrow> int \<times> bytes \<times> nat \<times> 'e cipher_ctx" where
  "aead_cipher_decrypt lib ctx m =
    (let n = take (c_nonce_len (x_cipher ctx)) (x_nonce ctx);
         k = take (c_key_len (x_cipher ctx)) (x_skey ctx);
         tlen = c_tag_len (x_cipher ctx);
         mlen = length m;
         method = c_method (x_cipher ctx)
     in if method \<in> {AES128GCM, AES192GCM, AES256GCM}
        then (case x_evp ctx of
                None \<Rightarrow> (-2, [], 0, ctx)
              | Some e \<Rightarrow>
                  let (err, p, e) = lib_auth_decrypt lib e n (take (mlen - tlen) m) (drop (mlen - tlen) m)
                  in (err, p, length p, ctx\<lparr>x_evp := Some e\<rparr>))
        else if method = CHACHA20POLY1305IETF
        then let (err, p) = lib_chacha_decrypt lib n k m in (err, p, length p, ctx)
        else if method = XCHACHA20POLY1305IETF
        then let (err, p) = lib_xchacha_decrypt lib n k m in (err, p, length p, ctx)
        else (-2, [], 0, ctx))"

section \<open>Contexts\<close>

text \<open>The mbed TLS cipher of a method, by name; \<open>None\<close> is \<open>NULL\<close>.\<close>

definition aead_get_cipher_type :: "'e crypto_lib \<Rightarrow> int \<Rightarrow> string option" where
  "aead_get_cipher_type lib method =
    (if method < AES128GCM \<or> method \<ge> AEAD_CIPHER_NUM then None
     else if method \<ge> CHACHA20POLY1305IETF then None
     else
       let mbedtlsname = supported_aead_ciphers_mbedtls ! nat method
       in if mbedtlsname = CIPHER_UNSUPPORTED then None
          else if lib_cipher_info lib mbedtlsname then Some mbedtlsname else None)"

definition aead_cipher_ctx_set_key :: "'e crypto_lib \<Rightarrow> 'e cipher_ctx \<Rightarrow> bool \<Rightarrow> 'e cipher_ctx" where
  "aead_cipher_ctx_set_key lib ctx enc =
    (let key_len = c_key_len (x_cipher ctx);
         (err, okm) = crypto_hkdf (lib_sha1 lib) (Some (take key_len (x_salt ctx)))
                        (take key_len (c_key (x_cipher ctx))) SUBKEY_INFO key_len;
         ctx = ctx\<lparr>x_skey := write_at 0 okm (x_skey ctx)\<rparr>;
         ctx = ctx\<lparr>x_nonce := write_at 0 (replicate (c_nonce_len (x_cipher ctx)) 0) (x_nonce ctx)\<rparr>
     in if c_method (x_cipher ctx) \<ge> CHACHA20POLY1305IETF then ctx
        else (case x_evp ctx of
                None \<Rightarrow> ctx
              | Some e \<Rightarrow>
                  let (_, e) = lib_cipher_setkey lib e (take key_len (x_skey ctx)) (key_len * 8) enc;
                      (_, e) = lib_cipher_reset lib e
                  in ctx\<lparr>x_evp := Some e\<rparr>))"

definition aead_cipher_ctx_init :: "'e crypto_lib \<Rightarrow> 'e cipher_ctx \<Rightarrow> int \<Rightarrow> 'e cipher_ctx" where
  "aead_cipher_ctx_init lib ctx method =
    (if method < AES128GCM \<or> method \<ge> AEAD_CIPHER_NUM then ctx
     else if method \<ge> CHACHA20POLY1305IETF then ctx
     else ctx\<lparr>x_evp := Some (snd (lib_cipher_setup lib (aead_get_cipher_type lib method)))\<rparr>)"

definition ctx_zero :: "cipher \<Rightarrow> 'e cipher_ctx" where
  "ctx_zero cipher = \<lparr>x_init = 0, x_counter = 0, x_evp = None, x_cipher = cipher, x_chunk = None,
     x_salt = replicate MAX_KEY_LENGTH 0, x_skey = replicate MAX_KEY_LENGTH 0,
     x_nonce = replicate MAX_NONCE_LENGTH 0\<rparr>"

text \<open>\<open>random\<close> is what \<open>rand_bytes\<close> delivers for the salt of an encrypting context.\<close>

definition aead_ctx_init :: "'e crypto_lib \<Rightarrow> bytes \<Rightarrow> cipher \<Rightarrow> bool \<Rightarrow> 'e cipher_ctx" where
  "aead_ctx_init lib random cipher enc =
    (let ctx = aead_cipher_ctx_init lib (ctx_zero cipher) (c_method cipher)
     in if enc then ctx\<lparr>x_salt := write_at 0 (take (c_key_len cipher) random) (x_salt ctx)\<rparr> else ctx)"

definition aead_ctx_release :: "'e cipher_ctx \<Rightarrow> 'e cipher_ctx" where
  "aead_ctx_release ctx =
    (let ctx = ctx\<lparr>x_chunk := None\<rparr>
     in if c_method (x_cipher ctx) \<ge> CHACHA20POLY1305IETF then ctx
        else ctx\<lparr>x_evp := None\<rparr>)"

section \<open>UDP: whole packets\<close>

definition aead_encrypt_all ::
  "'e crypto_lib \<Rightarrow> bytes \<Rightarrow> crypto_globals \<Rightarrow> buffer \<Rightarrow> cipher \<Rightarrow> nat
    \<Rightarrow> crypto_ret \<times> crypto_globals \<times> buffer" where
  "aead_encrypt_all lib random g plaintext cipher capacity =
    (let ctx = aead_ctx_init lib random cipher True;
         salt_len = c_key_len cipher;
         tag_len = c_tag_len cipher;
         tmp = brealloc (g_aead_enc_all g) (salt_len + tag_len + blen plaintext) capacity;
         tmp = tmp\<lparr>blen := tag_len + blen plaintext\<rparr>;
         tmp = tmp\<lparr>bdata := write_at 0 (take salt_len (x_salt ctx)) (bdata tmp)\<rparr>;
         ctx = aead_cipher_ctx_set_key lib ctx True;
         (err, out, clen, ctx) = aead_cipher_encrypt lib ctx (bcontent plaintext);
         tmp = tmp\<lparr>bdata := write_at salt_len out (bdata tmp)\<rparr>;
         g = g\<lparr>g_aead_enc_all := tmp\<rparr>
     in if err \<noteq> 0 then (CRYPTO_ERROR, g, plaintext)
        else if blen tmp \<noteq> clen then (ABORTED, g, plaintext)
        else (CRYPTO_OK, g, bset plaintext (take (salt_len + blen tmp) (bdata tmp)) capacity))"

definition aead_decrypt_all ::
  "'e crypto_lib \<Rightarrow> bool \<Rightarrow> crypto_globals \<Rightarrow> buffer \<Rightarrow> cipher \<Rightarrow> nat
    \<Rightarrow> crypto_ret \<times> crypto_globals \<times> buffer" where
  "aead_decrypt_all lib calloc_ok g ciphertext cipher capacity =
    (let salt_len = c_key_len cipher;
         tag_len = c_tag_len cipher
     in if blen ciphertext \<le> salt_len + tag_len then (CRYPTO_ERROR, g, ciphertext)
        else
          let ctx = aead_ctx_init lib [] cipher False;
              tmp = brealloc (g_aead_dec_all g) (blen ciphertext) capacity;
              tmp = tmp\<lparr>blen := blen ciphertext - salt_len - tag_len\<rparr>;
              g = g\<lparr>g_aead_dec_all := tmp\<rparr>;
              ctx = ctx\<lparr>x_salt := write_at 0 (take salt_len (bdata ciphertext)) (x_salt ctx)\<rparr>;
              salt = take salt_len (x_salt ctx)
          in (case ppbloom_check (g_pp g) salt of
                None \<Rightarrow> (ABORTED, g, ciphertext)
              | Some seen \<Rightarrow>
                  if seen = 1 then (CRYPTO_ERROR, g, ciphertext)
                  else
                    let ctx = aead_cipher_ctx_set_key lib ctx False;
                        (err, p, plen, ctx) = aead_cipher_decrypt lib ctx (drop salt_len (bcontent ciphertext));
                        tmp = tmp\<lparr>bdata := write_at 0 p (bdata tmp)\<rparr>;
                        g = g\<lparr>g_aead_dec_all := tmp\<rparr>
                    in if err \<noteq> 0 then (CRYPTO_ERROR, g, ciphertext)
                       else
                         (case ppbloom_add calloc_ok (g_pp g) salt of
                            None \<Rightarrow> (ABORTED, g, ciphertext)
                          | Some (_, pp) \<Rightarrow>
                              (CRYPTO_OK, g\<lparr>g_pp := pp\<rparr>, bset ciphertext (take (blen tmp) (bdata tmp)) capacity))))"

section \<open>TCP: chunks\<close>

text \<open>\<open>mem\<close> is the output array, \<open>off\<close> the offset of \<open>c\<close> in it; \<open>plen\<close> has already been
  converted to 16 bits by the call.\<close>

definition aead_chunk_encrypt ::
  "'e crypto_lib \<Rightarrow> 'e cipher_ctx \<Rightarrow> bytes \<Rightarrow> bytes \<Rightarrow> nat \<Rightarrow> nat
    \<Rightarrow> crypto_ret \<times> bytes \<times> 'e cipher_ctx" where
  "aead_chunk_encrypt lib ctx p mem off plen =
    (let tlen = c_tag_len (x_cipher ctx)
     in if \<not> plen \<le> CHUNK_SIZE_MASK then (ABORTED, mem, ctx)
        else
          let len_buf = be16 (plen AND CHUNK_SIZE_MASK);
              (err, c, clen, ctx) = aead_cipher_encrypt lib ctx len_buf;
              mem = write_at off c mem
          in if err \<noteq> 0 then (CRYPTO_ERROR, mem, ctx)
             else if clen \<noteq> CHUNK_SIZE_LEN + tlen then (ABORTED, mem, ctx)
             else
               let ctx = increment_nonce ctx;
                   (err, c, clen, ctx) = aead_cipher_encrypt lib ctx (take plen p);
                   mem = write_at (off + CHUNK_SIZE_LEN + tlen) c mem
               in if err \<noteq> 0 then (CRYPTO_ERROR, mem, ctx)
                  else if clen \<noteq> plen + tlen then (ABORTED, mem, ctx)
                  else (CRYPTO_OK, mem, increment_nonce ctx))"

definition aead_encrypt ::
  "'e crypto_lib \<Rightarrow> crypto_globals \<Rightarrow> buffer \<Rightarrow> 'e cipher_ctx \<Rightarrow> nat
    \<Rightarrow> crypto_ret \<times> crypto_globals \<times> buffer \<times> 'e cipher_ctx" where
  "aead_encrypt lib g plaintext ctx capacity =
    (if blen plaintext = 0 then (CRYPTO_OK, g, plaintext, ctx)
     else
       let cipher = x_cipher ctx;
           salt_len = c_key_len cipher;
           tag_len = c_tag_len cipher;
           salt_ofst = (if x_init ctx = 0 then salt_len else 0);
           out_len = salt_ofst + 2 * tag_len + blen plaintext + CHUNK_SIZE_LEN;
           tmp = brealloc (g_aead_enc g) out_len capacity;
           tmp = tmp\<lparr>blen := out_len\<rparr>;
           (tmp, ctx) = (if x_init ctx = 0
             then (tmp\<lparr>bdata := write_at 0 (take salt_len (x_salt ctx)) (bdata tmp)\<rparr>,
                   (aead_cipher_ctx_set_key lib ctx True)\<lparr>x_init := 1\<rparr>)
             else (tmp, ctx));
           (err, mem, ctx) = aead_chunk_encrypt lib ctx (bcontent plaintext) (bdata tmp) salt_ofst
                               (blen plaintext mod 65536);
           tmp = tmp\<lparr>bdata := mem\<rparr>;
           g = g\<lparr>g_aead_enc := tmp\<rparr>
       in if err \<noteq> CRYPTO_OK then (err, g, plaintext, ctx)
          else (CRYPTO_OK, g, bset plaintext (take (blen tmp) (bdata tmp)) capacity, ctx))"

text \<open>\<open>c\<close> is the data of the chunk buffer and \<open>clen\<close> its length; the result is the code, the
  bytes written to \<open>p\<close>, the buffer after the \<open>memmove\<close>, the new \<open>*plen\<close> and \<open>*clen\<close>.\<close>

definition aead_chunk_decrypt ::
  "'e crypto_lib \<Rightarrow> 'e cipher_ctx \<Rightarrow> bytes \<Rightarrow> nat
    \<Rightarrow> crypto_ret \<times> bytes \<times> bytes \<times> nat \<times> nat \<times> 'e cipher_ctx" where
  "aead_chunk_decrypt lib ctx c clen =
    (let tlen = c_tag_len (x_cipher ctx)
     in if clen \<le> 2 * tlen + CHUNK_SIZE_LEN then (CRYPTO_NEED_MORE, [], c, 0, clen, ctx)
        else
          let (err, len_buf, plen, ctx) = aead_cipher_decrypt lib ctx (take (CHUNK_SIZE_LEN + tlen) c)
          in if err \<noteq> 0 then (CRYPTO_ERROR, [], c, plen, clen, ctx)
             else if plen \<noteq> CHUNK_SIZE_LEN then (ABORTED, [], c, plen, clen, ctx)
             else
               let mlen = be16_val len_buf AND CHUNK_SIZE_MASK
               in if mlen = 0 then (CRYPTO_ERROR, [], c, plen, clen, ctx)
                  else
                    let chunk_len = 2 * tlen + CHUNK_SIZE_LEN + mlen
                    in if clen < chunk_len then (CRYPTO_NEED_MORE, [], c, plen, clen, ctx)
                       else
                         let ctx = increment_nonce ctx;
                             (err, p, plen, ctx) =
                               aead_cipher_decrypt lib ctx (take (mlen + tlen) (drop (CHUNK_SIZE_LEN + tlen) c))
                         in if err \<noteq> 0 then (CRYPTO_ERROR, p, c, plen, clen, ctx)
                            else if plen \<noteq> mlen then (ABORTED, p, c, plen, clen, ctx)
                            else
                              let ctx = increment_nonce ctx;
                                  c = (if clen > chunk_len
                                       then write_at 0 (take (clen - chunk_len) (drop chunk_len c)) c else c)
                              in (CRYPTO_OK, p, c, plen, clen - chunk_len, ctx))"

lemma aead_chunk_decrypt_shrinks:
  "aead_chunk_decrypt lib ctx c clen = (CRYPTO_OK, p, c', plen, clen', ctx') \<Longrightarrow> clen' < clen"
  by (auto simp: aead_chunk_decrypt_def Let_def CHUNK_SIZE_LEN_def split: if_splits prod.splits)

text \<open>The \<open>while\<close> loop of \<open>aead_decrypt\<close>: \<open>tmp\<close> is the data of the static plaintext buffer.\<close>

definition chunk_len_of :: "'e cipher_ctx \<Rightarrow> nat" where
  "chunk_len_of ctx = (case x_chunk ctx of None \<Rightarrow> 0 | Some ch \<Rightarrow> blen ch)"

function aead_decrypt_loop ::
  "'e crypto_lib \<Rightarrow> 'e cipher_ctx \<Rightarrow> bytes \<Rightarrow> nat \<Rightarrow> crypto_ret \<times> 'e cipher_ctx \<times> bytes \<times> nat" where
  "aead_decrypt_loop lib ctx tmp plen =
    (case x_chunk ctx of
       None \<Rightarrow> (CRYPTO_OK, ctx, tmp, plen)
     | Some ch \<Rightarrow>
         if blen ch > 0 then
           let (err, p, c, chunk_plen, chunk_clen, ctx') = aead_chunk_decrypt lib ctx (bdata ch) (blen ch);
               tmp = write_at plen p tmp
           in (case err of
                 CRYPTO_ERROR \<Rightarrow> (CRYPTO_ERROR, ctx', tmp, plen)
               | ABORTED \<Rightarrow> (ABORTED, ctx', tmp, plen)
               | CRYPTO_NEED_MORE \<Rightarrow>
                   if plen = 0 then (CRYPTO_NEED_MORE, ctx', tmp, plen) else (CRYPTO_OK, ctx', tmp, plen)
               | CRYPTO_OK \<Rightarrow>
                   aead_decrypt_loop lib (ctx'\<lparr>x_chunk := Some (ch\<lparr>bdata := c, blen := chunk_clen\<rparr>)\<rparr>)
                     tmp (plen + chunk_plen))
         else (CRYPTO_OK, ctx, tmp, plen))"
  by pat_completeness auto
termination
  by (relation "measure (\<lambda>(lib, ctx, tmp, plen). chunk_len_of ctx)")
     (auto simp: chunk_len_of_def dest!: aead_chunk_decrypt_shrinks [OF sym])

declare aead_decrypt_loop.simps [simp del]

text \<open>The second half of \<open>aead_decrypt\<close>, from the loop on.\<close>

definition aead_decrypt_tail ::
  "'e crypto_lib \<Rightarrow> bool \<Rightarrow> crypto_globals \<Rightarrow> buffer \<Rightarrow> 'e cipher_ctx \<Rightarrow> nat
    \<Rightarrow> crypto_ret \<times> crypto_globals \<times> buffer \<times> 'e cipher_ctx" where
  "aead_decrypt_tail lib calloc_ok g ciphertext ctx capacity =
    (let salt_len = c_key_len (x_cipher ctx);
         tmp = g_aead_dec g;
         (err, ctx, tmpdata, plen) = aead_decrypt_loop lib ctx (bdata tmp) 0
     in if err \<noteq> CRYPTO_OK then (err, g\<lparr>g_aead_dec := tmp\<lparr>bdata := tmpdata\<rparr>\<rparr>, ciphertext, ctx)
        else
          let g = g\<lparr>g_aead_dec := tmp\<lparr>bdata := tmpdata, blen := plen\<rparr>\<rparr>;
              ciphertext = bset ciphertext (take plen tmpdata) capacity
          in if x_init ctx = 1
             then (case ppbloom_add calloc_ok (g_pp g) (take salt_len (x_salt ctx)) of
                     None \<Rightarrow> (ABORTED, g, ciphertext, ctx)
                   | Some (_, pp) \<Rightarrow> (CRYPTO_OK, g\<lparr>g_pp := pp\<rparr>, ciphertext, ctx\<lparr>x_init := 2\<rparr>))
             else (CRYPTO_OK, g, ciphertext, ctx))"

definition aead_decrypt ::
  "'e crypto_lib \<Rightarrow> bool \<Rightarrow> crypto_globals \<Rightarrow> buffer \<Rightarrow> 'e cipher_ctx \<Rightarrow> nat
    \<Rightarrow> crypto_ret \<times> crypto_globals \<times> buffer \<times> 'e cipher_ctx" where
  "aead_decrypt lib calloc_ok g ciphertext ctx capacity =
    (let salt_len = c_key_len (x_cipher ctx);
         chunk = (case x_chunk ctx of None \<Rightarrow> balloc capacity | Some ch \<Rightarrow> ch);
         chunk = brealloc chunk (blen chunk + blen ciphertext) capacity;
         chunk = chunk\<lparr>bdata := write_at (blen chunk) (bcontent ciphertext) (bdata chunk)\<rparr>;
         chunk = chunk\<lparr>blen := blen chunk + blen ciphertext\<rparr>;
         ctx = ctx\<lparr>x_chunk := Some chunk\<rparr>;
         g = g\<lparr>g_aead_dec := brealloc (g_aead_dec g) (blen chunk) capacity\<rparr>
     in if x_init ctx = 0
        then
          if blen chunk \<le> salt_len then (CRYPTO_NEED_MORE, g, ciphertext, ctx)
          else
            let ctx = ctx\<lparr>x_salt := write_at 0 (take salt_len (bdata chunk)) (x_salt ctx)\<rparr>;
                ctx = aead_cipher_ctx_set_key lib ctx False
            in (case ppbloom_check (g_pp g) (take salt_len (x_salt ctx)) of
                  None \<Rightarrow> (ABORTED, g, ciphertext, ctx)
                | Some seen \<Rightarrow>
                    if seen = 1 then (CRYPTO_ERROR, g, ciphertext, ctx)
                    else
                      let chunk = chunk\<lparr>bdata := write_at 0 (take (blen chunk - salt_len) (drop salt_len (bdata chunk)))
                                     (bdata chunk)\<rparr>;
                          chunk = chunk\<lparr>blen := blen chunk - salt_len\<rparr>;
                          ctx = ctx\<lparr>x_chunk := Some chunk, x_init := 1\<rparr>
                      in aead_decrypt_tail lib calloc_ok g ciphertext ctx capacity)
        else aead_decrypt_tail lib calloc_ok g ciphertext ctx capacity)"

section \<open>Keys\<close>

definition aead_key_init :: "'e crypto_lib \<Rightarrow> bytes \<Rightarrow> int \<Rightarrow> bytes \<Rightarrow> bytes option \<Rightarrow> cipher option" where
  "aead_key_init lib random method pass key =
    (if method < AES128GCM \<or> method \<ge> AEAD_CIPHER_NUM then None
     else
       let info = (if method \<ge> CHACHA20POLY1305IETF then True
                   else aead_get_cipher_type lib method \<noteq> None);
           size = supported_aead_ciphers_key_size ! nat method;
           (key_len, k) = (case key of
               Some key \<Rightarrow> crypto_parse_key random key size
             | None \<Rightarrow> crypto_derive_key lib pass size)
       in Some \<lparr>c_method = method, c_skey = False, c_info = info,
            c_nonce_len = supported_aead_ciphers_nonce_size ! nat method,
            c_key_len = key_len,
            c_tag_len = supported_aead_ciphers_tag_size ! nat method,
            c_key = write_at 0 k (replicate MAX_KEY_LENGTH 0)\<rparr>)"

text \<open>The method loop of \<open>aead_init\<close>: the first matching name, or the number of ciphers.\<close>

fun find_method :: "string \<Rightarrow> string list \<Rightarrow> nat \<Rightarrow> nat" where
  "find_method method [] m = m"
| "find_method method (name # names) m = (if method = name then m else find_method method names (m + 1))"

definition aead_init :: "'e crypto_lib \<Rightarrow> bytes \<Rightarrow> bytes \<Rightarrow> bytes option \<Rightarrow> string option \<Rightarrow> cipher option" where
  "aead_init lib random pass key method =
    (let m = (case method of
        None \<Rightarrow> AES128GCM
      | Some name \<Rightarrow>
          let m = int (find_method name supported_aead_ciphers 0)
          in if m \<ge> AEAD_CIPHER_NUM then AES256GCM else m)
     in aead_key_init lib random m pass key)"

section \<open>Nonce arithmetic\<close>

primrec le_val :: "bytes \<Rightarrow> nat" where
  "le_val [] = 0"
| "le_val (x # xs) = unat x + 256 * le_val xs"

primrec le_bytes :: "nat \<Rightarrow> nat \<Rightarrow> bytes" where
  "le_bytes 0 N = []"
| "le_bytes (Suc n) N = word_of_nat N # le_bytes n (N div 256)"

lemma length_le_bytes [simp]: "length (le_bytes n N) = n"
  by (induction n arbitrary: N) simp_all

lemma le_bytes_0: "le_bytes n 0 = replicate n 0"
  by (induction n) simp_all

lemma le_val_le_bytes: "le_val (le_bytes n N) = N mod 256 ^ n"
  by (induction n arbitrary: N) (simp_all add: mod_mult2_eq)

lemma le_val_inject:
  "length xs = length ys \<Longrightarrow> le_val xs = le_val ys \<Longrightarrow> xs = ys"
proof (induction xs ys rule: list_induct2)
  case (Cons x xs y ys)
  have "unat x = (unat x + 256 * le_val xs) mod 256" "unat y = (unat y + 256 * le_val ys) mod 256"
    by simp_all
  with Cons.prems have u: "unat x = unat y" by simp
  with Cons.prems have "le_val xs = le_val ys" by simp
  with Cons u show ?case by (simp add: word_unat_eq_iff)
qed simp

lemma length_increment_loop [simp]: "length (sodium_increment_loop c n) = length n"
  by (induction n arbitrary: c) (simp_all add: Let_def)

lemma length_sodium_increment [simp]: "length (sodium_increment n) = length n"
  by (simp add: sodium_increment_def)

lemma unat_ucast_byte: "unat (ucast (x :: byte) :: 16 word) = unat x"
proof -
  have "unat x < 256" by simp
  then have "unat x < 2 ^ 16" by (rule less_trans) simp
  then show ?thesis by (simp add: unsigned_ucast_eq take_bit_nat_eq_self)
qed

lemma le_val_increment_loop:
  "unat c \<le> 1 \<Longrightarrow> le_val (sodium_increment_loop c n) = (le_val n + unat c) mod 256 ^ length n"
proof (induction n arbitrary: c)
  case (Cons x xs)
  define s where "s = unat c + unat x"
  have "unat x \<le> 255" by simp
  with Cons.prems have s: "s \<le> 256" unfolding s_def by linarith
  have u: "unat (c + ucast x) = s"
  proof -
    have "unat (ucast x :: 16 word) = unat x"
      by (rule unat_ucast_byte)
    then show ?thesis using s by (simp add: unat_word_ariths s_def)
  qed
  have b: "unat (ucast (c + ucast x) :: byte) = s mod 256"
    by (simp add: unsigned_ucast_eq u take_bit_eq_mod)
  have d: "unat (drop_bit 8 (c + ucast x)) = s div 256"
    by (subst unat_drop_bit_eq) (simp add: u drop_bit_eq_div)
  have "unat (drop_bit 8 (c + ucast x)) \<le> 1"
    using s d by (simp add: div_le_mono [of s 256 256, simplified])
  from Cons.IH [OF this] have IH: "le_val (sodium_increment_loop (drop_bit 8 (c + ucast x)) xs)
      = (le_val xs + s div 256) mod 256 ^ length xs"
    by (simp only: d)
  have "(s + 256 * le_val xs) mod (256 * 256 ^ length xs)
      = 256 * ((s + 256 * le_val xs) div 256 mod 256 ^ length xs) + (s + 256 * le_val xs) mod 256"
    by (rule mod_mult2_eq)
  also have "(s + 256 * le_val xs) div 256 = le_val xs + s div 256" by simp
  also have "(s + 256 * le_val xs) mod 256 = s mod 256" by simp
  finally have "le_val (sodium_increment_loop c (x # xs)) = (s + 256 * le_val xs) mod (256 * 256 ^ length xs)"
    by (simp add: Let_def IH b)
  then show ?case by (simp add: s_def ac_simps)
qed simp

lemma le_val_increment: "le_val (sodium_increment n) = (le_val n + 1) mod 256 ^ length n"
  unfolding sodium_increment_def by (subst le_val_increment_loop) simp_all

lemma sodium_increment_le_bytes: "sodium_increment (le_bytes n N) = le_bytes n (N + 1)"
  by (rule le_val_inject) (simp_all add: le_val_increment le_val_le_bytes mod_simps)

section \<open>The library contract\<close>

text \<open>Documented behaviour of an AEAD pair: sealing succeeds, adds a 16-byte tag and is undone
  by opening; opening never writes more than the length without the tag, and exactly that much
  when it succeeds.\<close>

definition aead_pair_ok :: "nat \<Rightarrow> (bytes \<Rightarrow> bytes \<Rightarrow> bytes \<Rightarrow> int \<times> bytes) \<Rightarrow> (bytes \<Rightarrow> bytes \<Rightarrow> bytes \<Rightarrow> int \<times> bytes) \<Rightarrow> bool" where
  "aead_pair_ok nlen enc dec \<longleftrightarrow>
    (\<forall>n k m. length n = nlen \<longrightarrow> length k = 32 \<longrightarrow>
       (\<exists>c. enc n k m = (0, c) \<and> length c = length m + 16 \<and> dec n k c = (0, m)))
    \<and> (\<forall>n k c err p. dec n k c = (err, p) \<longrightarrow>
       length p \<le> length c - 16 \<and> (err = 0 \<longrightarrow> length c = length p + 16))"

text \<open>The mbed TLS GCM context: \<open>keyed e k\<close> says that \<open>e\<close> has been set up for GCM with key \<open>k\<close>.\<close>

definition gcm_ok :: "'e crypto_lib \<Rightarrow> ('e \<Rightarrow> bytes \<Rightarrow> bool) \<Rightarrow> bool" where
  "gcm_ok lib keyed \<longleftrightarrow>
    (\<forall>name k enc. (name, length k) \<in> {(''AES-128-GCM'', 16), (''AES-192-GCM'', 24), (''AES-256-GCM'', 32)} \<longrightarrow>
       lib_cipher_info lib name \<and>
       (\<exists>e e' e''. lib_cipher_setup lib (Some name) = (0, e) \<and>
          lib_cipher_setkey lib e k (length k * 8) enc = (0, e') \<and>
          lib_cipher_reset lib e' = (0, e'') \<and> keyed e'' k))
    \<and> (\<forall>e k n m. keyed e k \<longrightarrow> length n = 12 \<longrightarrow>
       (\<exists>c t e'. lib_auth_encrypt lib e n m 16 = (0, c, t, e') \<and> length c = length m \<and> length t = 16 \<and>
          keyed e' k \<and>
          (\<forall>d. keyed d k \<longrightarrow> (\<exists>d'. lib_auth_decrypt lib d n c t = (0, m, d') \<and> keyed d' k))))
    \<and> (\<forall>d n c t err p d'. lib_auth_decrypt lib d n c t = (err, p, d') \<longrightarrow>
       length p \<le> length c \<and> (err = 0 \<longrightarrow> length p = length c))"

definition aead_lib_ok :: "'e crypto_lib \<Rightarrow> ('e \<Rightarrow> bytes \<Rightarrow> bool) \<Rightarrow> bool" where
  "aead_lib_ok lib keyed \<longleftrightarrow> md_ok (lib_sha1 lib) \<and> gcm_ok lib keyed
     \<and> aead_pair_ok 12 (lib_chacha_encrypt lib) (lib_chacha_decrypt lib)
     \<and> aead_pair_ok 24 (lib_xchacha_encrypt lib) (lib_xchacha_decrypt lib)"

section \<open>Sessions\<close>

text \<open>A cipher as \<open>aead_key_init\<close> builds it.\<close>

definition aead_cipher_ok :: "cipher \<Rightarrow> bool" where
  "aead_cipher_ok ci \<longleftrightarrow> 0 \<le> c_method ci \<and> c_method ci < AEAD_CIPHER_NUM
     \<and> c_nonce_len ci = supported_aead_ciphers_nonce_size ! nat (c_method ci)
     \<and> c_key_len ci = supported_aead_ciphers_key_size ! nat (c_method ci)
     \<and> c_tag_len ci = 16 \<and> length (c_key ci) = MAX_KEY_LENGTH"

lemma aead_cipher_cases [consumes 1]:
  assumes "aead_cipher_ok ci"
  obtains (gcm) name where "c_method ci \<in> {AES128GCM, AES192GCM, AES256GCM}" "c_nonce_len ci = 12" "c_tag_len ci = 16"
      "(name, c_key_len ci) \<in> {(''AES-128-GCM'', 16), (''AES-192-GCM'', 24), (''AES-256-GCM'', 32)}"
      "supported_aead_ciphers_mbedtls ! nat (c_method ci) = name" "name \<noteq> CIPHER_UNSUPPORTED"
  | (chacha) "c_method ci = CHACHA20POLY1305IETF" "c_nonce_len ci = 12" "c_key_len ci = 32" "c_tag_len ci = 16"
  | (xchacha) "c_method ci = XCHACHA20POLY1305IETF" "c_nonce_len ci = 24" "c_key_len ci = 32" "c_tag_len ci = 16"
proof -
  have "c_method ci \<in> {0, 1, 2, 3, 4}"
    using assms by (auto simp: aead_cipher_ok_def AEAD_CIPHER_NUM_def)
  then consider "c_method ci = 0" | "c_method ci = 1" | "c_method ci = 2" | "c_method ci = 3" | "c_method ci = 4"
    by blast
  then show thesis
    using assms that
    by cases (simp_all add: aead_cipher_ok_def supported_aead_ciphers_nonce_size_def
        supported_aead_ciphers_key_size_def supported_aead_ciphers_mbedtls_def CIPHER_UNSUPPORTED_def method_defs)
qed

lemma aead_cipher_sizes:
  assumes "aead_cipher_ok ci"
  shows "c_tag_len ci = 16" "c_nonce_len ci \<le> MAX_NONCE_LENGTH" "0 < c_key_len ci" "c_key_len ci \<le> 32"
    "c_key_len ci \<le> MAX_KEY_LENGTH" "length (c_key ci) = MAX_KEY_LENGTH"
proof -
  show "length (c_key ci) = MAX_KEY_LENGTH" using assms by (simp add: aead_cipher_ok_def)
  show "c_tag_len ci = 16" "c_nonce_len ci \<le> MAX_NONCE_LENGTH" "0 < c_key_len ci" "c_key_len ci \<le> 32"
    "c_key_len ci \<le> MAX_KEY_LENGTH"
    using assms by (cases rule: aead_cipher_cases; auto simp: MAX_NONCE_LENGTH_def MAX_KEY_LENGTH_def)+
qed

text \<open>A context keyed with session key \<open>k\<close> whose next nonce is \<open>N\<close>.\<close>

definition session :: "('e \<Rightarrow> bytes \<Rightarrow> bool) \<Rightarrow> bytes \<Rightarrow> nat \<Rightarrow> 'e cipher_ctx \<Rightarrow> bool" where
  "session keyed k N ctx \<longleftrightarrow> aead_cipher_ok (x_cipher ctx)
     \<and> length (x_nonce ctx) = MAX_NONCE_LENGTH \<and> length (x_skey ctx) = MAX_KEY_LENGTH
     \<and> take (c_key_len (x_cipher ctx)) (x_skey ctx) = k
     \<and> take (c_nonce_len (x_cipher ctx)) (x_nonce ctx) = le_bytes (c_nonce_len (x_cipher ctx)) N
     \<and> (c_method (x_cipher ctx) < CHACHA20POLY1305IETF \<longrightarrow> (\<exists>e. x_evp ctx = Some e \<and> keyed e k))"

lemma session_fields [simp]:
  "session keyed k N (ctx\<lparr>x_chunk := ch\<rparr>) = session keyed k N ctx"
  "session keyed k N (ctx\<lparr>x_init := i\<rparr>) = session keyed k N ctx"
  "session keyed k N (ctx\<lparr>x_salt := s\<rparr>) = session keyed k N ctx"
  by (simp_all add: session_def)

text \<open>\<open>c\<close> is a sealed form of \<open>m\<close>: every session context at nonce \<open>N\<close> opens it.\<close>

definition sealed ::
  "'e crypto_lib \<Rightarrow> ('e \<Rightarrow> bytes \<Rightarrow> bool) \<Rightarrow> cipher \<Rightarrow> bytes \<Rightarrow> nat \<Rightarrow> bytes \<Rightarrow> bytes \<Rightarrow> bool" where
  "sealed lib keyed ci k N m c \<longleftrightarrow> length c = length m + 16 \<and>
    (\<forall>ctx. session keyed k N ctx \<and> x_cipher ctx = ci \<longrightarrow>
      (\<exists>e. aead_cipher_decrypt lib ctx c = (0, m, length m, ctx\<lparr>x_evp := e\<rparr>) \<and>
           session keyed k N (ctx\<lparr>x_evp := e\<rparr>)))"

lemma sealed_plainI:
  assumes "length c = length m + 16"
    and "\<And>ctx. session keyed k N ctx \<Longrightarrow> x_cipher ctx = ci \<Longrightarrow> aead_cipher_decrypt lib ctx c = (0, m, length m, ctx)"
  shows "sealed lib keyed ci k N m c"
  unfolding sealed_def
proof (intro conjI allI impI)
  fix ctx :: "'a cipher_ctx"
  assume "session keyed k N ctx \<and> x_cipher ctx = ci"
  with assms(2) show "\<exists>e. aead_cipher_decrypt lib ctx c = (0, m, length m, ctx\<lparr>x_evp := e\<rparr>) \<and>
      session keyed k N (ctx\<lparr>x_evp := e\<rparr>)"
    by (intro exI [where x = "x_evp ctx"]) simp
qed (rule assms(1))

lemma ctx_evp_nonce [simp]: "ctx\<lparr>x_nonce := n, x_evp := e\<rparr> = ctx\<lparr>x_evp := e, x_nonce := n\<rparr>"
  by (cases ctx) simp

lemma session_lengths:
  assumes "session keyed k N ctx"
  shows "length (take (c_nonce_len (x_cipher ctx)) (x_nonce ctx)) = c_nonce_len (x_cipher ctx)"
    "length k = c_key_len (x_cipher ctx)"
  using assms aead_cipher_sizes [of "x_cipher ctx"] by (auto simp: session_def)

lemma session_encrypt:
  assumes lib: "aead_lib_ok lib keyed" and s: "session keyed k N ctx"
  shows "\<exists>c e. aead_cipher_encrypt lib ctx m = (0, c, length m + 16, ctx\<lparr>x_evp := e\<rparr>) \<and>
    session keyed k N (ctx\<lparr>x_evp := e\<rparr>) \<and> sealed lib keyed (x_cipher ctx) k N m c"
proof -
  let ?ci = "x_cipher ctx"
  let ?n = "le_bytes (c_nonce_len ?ci) N"
  have ci: "aead_cipher_ok ?ci" and k: "take (c_key_len ?ci) (x_skey ctx) = k"
    and n: "take (c_nonce_len ?ci) (x_nonce ctx) = ?n"
    using s by (auto simp: session_def)
  note len = session_lengths [OF s]
  show ?thesis
    using ci
  proof (cases rule: aead_cipher_cases)
    case (gcm name)
    then obtain e where e: "x_evp ctx = Some e" "keyed e k"
      using s by (auto simp: session_def method_defs)
    obtain c t e' where c: "lib_auth_encrypt lib e ?n m 16 = (0, c, t, e')" "length c = length m" "length t = 16"
      "keyed e' k" "\<And>d. keyed d k \<Longrightarrow> \<exists>d'. lib_auth_decrypt lib d ?n c t = (0, m, d') \<and> keyed d' k"
      using lib e(2) gcm(2) unfolding aead_lib_ok_def gcm_ok_def by (metis length_le_bytes)
    have "aead_cipher_encrypt lib ctx m = (0, c @ t, length m + 16, ctx\<lparr>x_evp := Some e'\<rparr>)"
      using gcm(1,3) e c by (auto simp: aead_cipher_encrypt_def Let_def n k)
    moreover have "session keyed k N (ctx\<lparr>x_evp := Some e'\<rparr>)"
      using s c(4) by (simp add: session_def)
    moreover have "sealed lib keyed ?ci k N m (c @ t)"
      unfolding sealed_def
    proof (intro conjI allI impI)
      show "length (c @ t) = length m + 16" using c by simp
    next
      fix x :: "'a cipher_ctx"
      assume x: "session keyed k N x \<and> x_cipher x = ?ci"
      then obtain d where d: "x_evp x = Some d" "keyed d k"
        using gcm(1) by (auto simp: session_def method_defs)
      then obtain d' where d': "lib_auth_decrypt lib d ?n c t = (0, m, d')" "keyed d' k"
        using c(5) by blast
      have "aead_cipher_decrypt lib x (c @ t) = (0, m, length m, x\<lparr>x_evp := Some d'\<rparr>)"
        using x gcm(1,3) d d' c(2,3) by (auto simp: aead_cipher_decrypt_def Let_def session_def)
      moreover have "session keyed k N (x\<lparr>x_evp := Some d'\<rparr>)"
        using x d' by (auto simp: session_def)
      ultimately show "\<exists>e. aead_cipher_decrypt lib x (c @ t) = (0, m, length m, x\<lparr>x_evp := e\<rparr>) \<and>
          session keyed k N (x\<lparr>x_evp := e\<rparr>)" by blast
    qed
    ultimately show ?thesis by blast
  next
    case chacha
    then obtain c where c: "lib_chacha_encrypt lib ?n k m = (0, c)" "length c = length m + 16"
        "lib_chacha_decrypt lib ?n k c = (0, m)"
      using lib len unfolding aead_lib_ok_def aead_pair_ok_def by (metis n)
    have "aead_cipher_encrypt lib ctx m = (0, c, length m + 16, ctx\<lparr>x_evp := x_evp ctx\<rparr>)"
      using chacha c n k by (simp add: aead_cipher_encrypt_def Let_def method_defs)
    moreover have "sealed lib keyed ?ci k N m c"
      using chacha c
      by (intro sealed_plainI) (auto simp: aead_cipher_decrypt_def Let_def session_def method_defs)
    ultimately show ?thesis using s by (intro exI [where x = c] exI [where x = "x_evp ctx"]) simp
  next
    case xchacha
    then obtain c where c: "lib_xchacha_encrypt lib ?n k m = (0, c)" "length c = length m + 16"
        "lib_xchacha_decrypt lib ?n k c = (0, m)"
      using lib len unfolding aead_lib_ok_def aead_pair_ok_def by (metis n)
    have "aead_cipher_encrypt lib ctx m = (0, c, length m + 16, ctx\<lparr>x_evp := x_evp ctx\<rparr>)"
      using xchacha c n k by (simp add: aead_cipher_encrypt_def Let_def method_defs)
    moreover have "sealed lib keyed ?ci k N m c"
      using xchacha c
      by (intro sealed_plainI) (auto simp: aead_cipher_decrypt_def Let_def session_def method_defs)
    ultimately show ?thesis using s by (intro exI [where x = c] exI [where x = "x_evp ctx"]) simp
  qed
qed


lemma session_increment:
  assumes "session keyed k N ctx"
  shows "session keyed k (N + 1) (increment_nonce ctx)"
    and "\<exists>n. increment_nonce ctx = ctx\<lparr>x_nonce := n\<rparr>"
proof -
  have "c_nonce_len (x_cipher ctx) \<le> MAX_NONCE_LENGTH"
    using assms aead_cipher_sizes by (auto simp: session_def)
  then show "session keyed k (N + 1) (increment_nonce ctx)"
    using assms
    by (simp add: session_def increment_nonce_def Let_def sodium_increment_le_bytes write_at_0)
  show "\<exists>n. increment_nonce ctx = ctx\<lparr>x_nonce := n\<rparr>"
    by (auto simp: increment_nonce_def Let_def)
qed

section \<open>Chunks on the wire\<close>

text \<open>\<open>w\<close> is the encrypted chunk of payload \<open>p\<close>: the sealed length, then the sealed payload, at
  consecutive nonces.\<close>

definition frame ::
  "'e crypto_lib \<Rightarrow> ('e \<Rightarrow> bytes \<Rightarrow> bool) \<Rightarrow> cipher \<Rightarrow> bytes \<Rightarrow> nat \<Rightarrow> bytes \<Rightarrow> bytes \<Rightarrow> bool" where
  "frame lib keyed ci k N p w \<longleftrightarrow> 0 < length p \<and> length p \<le> CHUNK_SIZE_MASK \<and>
    (\<exists>c1 c2. w = c1 @ c2 \<and> sealed lib keyed ci k N (be16 (length p)) c1 \<and> sealed lib keyed ci k (N + 1) p c2)"

lemma frame_length: "frame lib keyed ci k N p w \<Longrightarrow> length w = length p + 34"
  by (auto simp: frame_def sealed_def)

lemma chunk_mask: "n \<le> CHUNK_SIZE_MASK \<Longrightarrow> n AND CHUNK_SIZE_MASK = n"
proof -
  assume "n \<le> CHUNK_SIZE_MASK"
  then have "n < 2 ^ 14" by (simp add: CHUNK_SIZE_MASK_def)
  moreover have "n AND CHUNK_SIZE_MASK = take_bit 14 n"
    by (simp add: CHUNK_SIZE_MASK_def take_bit_eq_mask mask_eq_exp_minus_1)
  ultimately show ?thesis by (simp add: take_bit_nat_eq_self)
qed

lemma len_field:
  assumes "n \<le> CHUNK_SIZE_MASK"
  shows "be16_val (be16 n) AND CHUNK_SIZE_MASK = n"
proof -
  have "n < 65536" using assms by (simp add: CHUNK_SIZE_MASK_def)
  then show ?thesis using chunk_mask [OF assms] by simp
qed

lemma write_at_append:
  "off + length xs + length ys \<le> length mem \<Longrightarrow> off2 = off + length xs \<Longrightarrow>
    write_at off2 ys (write_at off xs mem) = write_at off (xs @ ys) mem"
  by (simp add: write_at_def ac_simps)

lemma aead_chunk_encrypt_frame:
  assumes lib: "aead_lib_ok lib keyed" and s: "session keyed k N ctx"
    and p: "0 < length p" "length p \<le> CHUNK_SIZE_MASK" and mem: "off + length p + 34 \<le> length mem"
  shows "\<exists>w e n. aead_chunk_encrypt lib ctx p mem off (length p) =
      (CRYPTO_OK, write_at off w mem, ctx\<lparr>x_evp := e, x_nonce := n\<rparr>) \<and>
    frame lib keyed (x_cipher ctx) k N p w \<and> session keyed k (N + 2) (ctx\<lparr>x_evp := e, x_nonce := n\<rparr>)"
proof -
  let ?ci = "x_cipher ctx"
  have t: "c_tag_len ?ci = 16" using s aead_cipher_sizes by (auto simp: session_def)
  obtain c1 e1 where 1: "aead_cipher_encrypt lib ctx (be16 (length p)) = (0, c1, 18, ctx\<lparr>x_evp := e1\<rparr>)"
    "session keyed k N (ctx\<lparr>x_evp := e1\<rparr>)" "sealed lib keyed ?ci k N (be16 (length p)) c1"
    using session_encrypt [OF lib s, of "be16 (length p)"] by auto
  obtain n1 where n1: "increment_nonce (ctx\<lparr>x_evp := e1\<rparr>) = ctx\<lparr>x_evp := e1, x_nonce := n1\<rparr>"
    "session keyed k (N + 1) (ctx\<lparr>x_evp := e1, x_nonce := n1\<rparr>)"
    using session_increment [OF 1(2)] by auto
  obtain c2 e2 where 2: "aead_cipher_encrypt lib (ctx\<lparr>x_evp := e1, x_nonce := n1\<rparr>) p =
      (0, c2, length p + 16, ctx\<lparr>x_evp := e2, x_nonce := n1\<rparr>)"
    "session keyed k (N + 1) (ctx\<lparr>x_evp := e2, x_nonce := n1\<rparr>)" "sealed lib keyed ?ci k (N + 1) p c2"
    using session_encrypt [OF lib n1(2), of p] by auto
  obtain n2 where n2: "increment_nonce (ctx\<lparr>x_evp := e2, x_nonce := n1\<rparr>) = ctx\<lparr>x_evp := e2, x_nonce := n2\<rparr>"
    "session keyed k (N + 2) (ctx\<lparr>x_evp := e2, x_nonce := n2\<rparr>)"
    using session_increment [OF 2(2)] by auto
  have l: "length c1 = 18" "length c2 = length p + 16"
    using 1(3) 2(3) by (simp_all add: sealed_def)
  have "aead_chunk_encrypt lib ctx p mem off (length p) =
      (CRYPTO_OK, write_at off (c1 @ c2) mem, ctx\<lparr>x_evp := e2, x_nonce := n2\<rparr>)"
    using p mem l
    by (simp add: aead_chunk_encrypt_def Let_def t chunk_mask 1(1) n1(1) 2(1) n2(1) CHUNK_SIZE_LEN_def
        write_at_append)
  moreover have "frame lib keyed ?ci k N p (c1 @ c2)"
    using p 1(3) 2(3) by (auto simp: frame_def)
  ultimately show ?thesis using n2(2) by blast
qed

text \<open>A receiver that holds a whole frame opens it, and keeps what follows.\<close>

lemma aead_chunk_decrypt_full:
  assumes s: "session keyed k N ctx" and f: "frame lib keyed (x_cipher ctx) k N p w"
    and c: "take clen c = w @ r" "clen \<le> length c"
  shows "\<exists>c' e n. aead_chunk_decrypt lib ctx c clen =
      (CRYPTO_OK, p, c', length p, length r, ctx\<lparr>x_evp := e, x_nonce := n\<rparr>) \<and>
    take (length r) c' = r \<and> length c' = length c \<and>
    session keyed k (N + 2) (ctx\<lparr>x_evp := e, x_nonce := n\<rparr>)"
proof -
  let ?ci = "x_cipher ctx"
  have t: "c_tag_len ?ci = 16" using s aead_cipher_sizes by (auto simp: session_def)
  obtain c1 c2 where w: "w = c1 @ c2" "sealed lib keyed ?ci k N (be16 (length p)) c1"
      "sealed lib keyed ?ci k (N + 1) p c2" and p: "0 < length p" "length p \<le> CHUNK_SIZE_MASK"
    using f by (auto simp: frame_def)
  have l: "length c1 = 18" "length c2 = length p + 16"
    using w by (simp_all add: sealed_def)
  have clen: "clen = length p + 34 + length r"
    using arg_cong [OF c(1), of length] c(2) l w(1) by simp
  have c_eq: "c = c1 @ c2 @ r @ drop clen c"
    using c(1) w(1) append_take_drop_id [of clen c] by simp
  have tk1: "take 18 c = c1" by (subst c_eq) (simp add: l)
  have tk2: "take (length p + 16) (drop 18 c) = c2" by (subst c_eq) (simp add: l)
  have tk3: "take (length r) (drop (length p + 34) c) = r" by (subst c_eq) (simp add: l)
  obtain e1 where 1: "aead_cipher_decrypt lib ctx c1 = (0, be16 (length p), 2, ctx\<lparr>x_evp := e1\<rparr>)"
    "session keyed k N (ctx\<lparr>x_evp := e1\<rparr>)"
    using w(2) s by (auto simp: sealed_def)
  obtain n1 where n1: "increment_nonce (ctx\<lparr>x_evp := e1\<rparr>) = ctx\<lparr>x_evp := e1, x_nonce := n1\<rparr>"
    "session keyed k (N + 1) (ctx\<lparr>x_evp := e1, x_nonce := n1\<rparr>)"
    using session_increment [OF 1(2)] by auto
  obtain e2 where 2: "aead_cipher_decrypt lib (ctx\<lparr>x_evp := e1, x_nonce := n1\<rparr>) c2 =
      (0, p, length p, ctx\<lparr>x_evp := e2, x_nonce := n1\<rparr>)"
    "session keyed k (N + 1) (ctx\<lparr>x_evp := e2, x_nonce := n1\<rparr>)"
    using w(3) [unfolded sealed_def, THEN conjunct2, rule_format, of "ctx\<lparr>x_evp := e1, x_nonce := n1\<rparr>"] n1(2)
    by auto
  obtain n2 where n2: "increment_nonce (ctx\<lparr>x_evp := e2, x_nonce := n1\<rparr>) = ctx\<lparr>x_evp := e2, x_nonce := n2\<rparr>"
    "session keyed k (N + 2) (ctx\<lparr>x_evp := e2, x_nonce := n2\<rparr>)"
    using session_increment [OF 2(2)] by auto
  have m: "be16_val (be16 (length p)) AND CHUNK_SIZE_MASK = length p"
    using p(2) by (rule len_field)
  define c' where "c' = (if length r > 0 then write_at 0 r c else c)"
  have "aead_chunk_decrypt lib ctx c clen =
      (CRYPTO_OK, p, c', length p, length r, ctx\<lparr>x_evp := e2, x_nonce := n2\<rparr>)"
    using p m tk1 tk2 tk3
    by (simp add: aead_chunk_decrypt_def Let_def t 1(1) n1(1) 2(1) n2(1) CHUNK_SIZE_LEN_def clen c'_def
        add.commute [of 16] add.commute [of 34] del: be16_val_be16)
  moreover have "take (length r) c' = r" by (simp add: c'_def write_at_0)
  moreover have "length c' = length c" using c(2) clen by (simp add: c'_def)
  ultimately show ?thesis using n2(2) by blast
qed

text \<open>A receiver that holds a proper part of a frame asks for more and loses nothing.\<close>

lemma aead_chunk_decrypt_partial:
  assumes s: "session keyed k N ctx" and f: "frame lib keyed (x_cipher ctx) k N p w"
    and c: "take clen c @ y = w" "y \<noteq> []" "clen \<le> length c"
  shows "\<exists>e pl. aead_chunk_decrypt lib ctx c clen = (CRYPTO_NEED_MORE, [], c, pl, clen, ctx\<lparr>x_evp := e\<rparr>) \<and>
    session keyed k N (ctx\<lparr>x_evp := e\<rparr>)"
proof -
  let ?ci = "x_cipher ctx"
  have t: "c_tag_len ?ci = 16" using s aead_cipher_sizes by (auto simp: session_def)
  obtain c1 c2 where w: "w = c1 @ c2" "sealed lib keyed ?ci k N (be16 (length p)) c1"
      and p: "0 < length p" "length p \<le> CHUNK_SIZE_MASK"
    using f by (auto simp: frame_def)
  have l: "length c1 = 18" using w by (simp add: sealed_def)
  have "length w = length p + 34" using f by (rule frame_length)
  then have clen: "clen < length p + 34"
    using arg_cong [OF c(1), of length] c(2,3) by (cases y) simp_all
  show ?thesis
  proof (cases "clen \<le> 34")
    case True
    then have "aead_chunk_decrypt lib ctx c clen = (CRYPTO_NEED_MORE, [], c, 0, clen, ctx\<lparr>x_evp := x_evp ctx\<rparr>)"
      by (simp add: aead_chunk_decrypt_def Let_def t CHUNK_SIZE_LEN_def)
    with s show ?thesis by (intro exI [where x = "x_evp ctx"] exI [where x = 0]) simp
  next
    case False
    have "take 18 c = take 18 (take clen c @ y)" using False c(3) by (simp add: min_def)
    then have tk1: "take 18 c = c1" using c(1) w(1) l by simp
    obtain e1 where 1: "aead_cipher_decrypt lib ctx c1 = (0, be16 (length p), 2, ctx\<lparr>x_evp := e1\<rparr>)"
      "session keyed k N (ctx\<lparr>x_evp := e1\<rparr>)"
      using w(2) s by (auto simp: sealed_def)
    have m: "be16_val (be16 (length p)) AND CHUNK_SIZE_MASK = length p"
      using p(2) by (rule len_field)
    have "aead_chunk_decrypt lib ctx c clen = (CRYPTO_NEED_MORE, [], c, 2, clen, ctx\<lparr>x_evp := e1\<rparr>)"
      using False clen p m tk1
      by (simp add: aead_chunk_decrypt_def Let_def t 1(1) CHUNK_SIZE_LEN_def del: be16_val_be16)
    with 1(2) show ?thesis by blast
  qed
qed

end
