(* ===== verification/AeadStream.thy ===== *)
theory AeadStream
  imports Aead
begin

text \<open>
  The TCP byte stream over \<open>aead_encrypt\<close> and \<open>aead_decrypt\<close>: whatever the way the network
  cuts the sender's bytes into segments, the receiver delivers exactly the sender's payloads,
  in order, and every payload as soon as its chunk is complete.  The theory also holds the UDP
  round trip, replay rejection and the behaviour on damaged input.
\<close>

section \<open>Sequences of chunks\<close>

fun frames ::
  "'e crypto_lib \<Rightarrow> ('e \<Rightarrow> bytes \<Rightarrow> bool) \<Rightarrow> cipher \<Rightarrow> bytes \<Rightarrow> nat \<Rightarrow> bytes list \<Rightarrow> bytes list \<Rightarrow> bool" where
  "frames lib keyed ci k N [] [] = True"
| "frames lib keyed ci k N (p # ps) (w # ws) =
    (frame lib keyed ci k N p w \<and> frames lib keyed ci k (N + 2) ps ws)"
| "frames lib keyed ci k N _ _ = False"

lemma frames_length: "frames lib keyed ci k N ps ws \<Longrightarrow> length ps = length ws"
  by (induction lib keyed ci k N ps ws rule: frames.induct) simp_all

lemma frames_drop:
  "frames lib keyed ci k N ps ws \<Longrightarrow> frames lib keyed ci k (N + 2 * n) (drop n ps) (drop n ws)"
proof (induction n arbitrary: N ps ws)
  case (Suc n)
  show ?case
  proof (cases ps)
    case Nil
    with Suc.prems have "ws = []" using frames_length by fastforce
    with Nil show ?thesis by simp
  next
    case (Cons p ps')
    with Suc.prems obtain w ws' where "ws = w # ws'" "frames lib keyed ci k (N + 2) ps' ws'"
      by (cases ws) auto
    with Suc.IH [of "N + 2" ps' ws'] Cons show ?thesis by simp
  qed
qed simp

lemma ctx_chunk_same [simp]: "x_chunk ctx = Some ch \<Longrightarrow> ctx\<lparr>x_chunk := Some ch\<rparr> = ctx"
  by (cases ctx) simp

lemma ctx_chunk_update [simp]:
  "ctx\<lparr>x_chunk := ch, x_evp := e\<rparr> = ctx\<lparr>x_evp := e, x_chunk := ch\<rparr>"
  "ctx\<lparr>x_chunk := ch, x_nonce := n\<rparr> = ctx\<lparr>x_nonce := n, x_chunk := ch\<rparr>"
  by (cases ctx; simp)+

lemma split_prefix:
  assumes "xs @ ys = w @ zs"
  obtains (full) r where "xs = w @ r" "r @ ys = zs"
  | (part) y where "xs @ y = w" "y \<noteq> []" "ys = y @ zs"
  using assms by (cases "length w \<le> length xs") (auto simp: append_eq_append_conv2)

text \<open>The loop opens every frame that is complete in the chunk buffer, appends the payloads to
  the plaintext, and stops at the first incomplete one.\<close>

lemma aead_decrypt_loop_frames:
  assumes "session keyed k N ctx" "x_chunk ctx = Some ch" "buffer_ok ch"
    "bcontent ch @ rest = concat ws" "frames lib keyed (x_cipher ctx) k N ps ws"
    "plen + blen ch \<le> length tmp"
  shows "\<exists>n e nn ch' tmp'. n \<le> length ps \<and>
    aead_decrypt_loop lib ctx tmp plen =
      (if n = 0 \<and> plen = 0 \<and> blen ch > 0 then CRYPTO_NEED_MORE else CRYPTO_OK,
       ctx\<lparr>x_evp := e, x_nonce := nn, x_chunk := Some ch'\<rparr>, tmp', plen + length (concat (take n ps))) \<and>
    buffer_ok ch' \<and> bcontent ch' @ rest = concat (drop n ws) \<and>
    session keyed k (N + 2 * n) (ctx\<lparr>x_evp := e, x_nonce := nn\<rparr>) \<and>
    take (plen + length (concat (take n ps))) tmp' = take plen tmp @ concat (take n ps) \<and>
    length tmp' = length tmp \<and> plen + length (concat (take n ps)) \<le> length tmp \<and>
    (n < length ps \<longrightarrow> blen ch' < length (ws ! n))"
  using assms
proof (induction ps arbitrary: N ws ctx ch tmp plen)
  case Nil
  then have "ws = []" using frames_length by fastforce
  with Nil have "blen ch = 0" by (auto simp: bcontent_def buffer_ok_def)
  with Nil \<open>ws = []\<close> show ?case
    by (intro exI [where x = 0] exI [where x = "x_evp ctx"] exI [where x = "x_nonce ctx"]
        exI [where x = ch] exI [where x = tmp]) (simp add: aead_decrypt_loop.simps)
next
  case (Cons p ps)
  then obtain w ws' where ws: "ws = w # ws'" "frame lib keyed (x_cipher ctx) k N p w"
    "frames lib keyed (x_cipher ctx) k (N + 2) ps ws'"
    by (cases ws) auto
  have wl: "length w = length p + 34" using ws(2) by (rule frame_length)
  show ?case
  proof (cases "blen ch = 0")
    case True
    with Cons.prems ws(1) wl show ?thesis
      by (intro exI [where x = 0] exI [where x = "x_evp ctx"] exI [where x = "x_nonce ctx"]
          exI [where x = ch] exI [where x = tmp]) (simp add: aead_decrypt_loop.simps)
  next
    case False
    have bl: "blen ch \<le> length (bdata ch)" using Cons.prems(3) by (simp add: buffer_ok_def)
    from Cons.prems(4) ws(1) have "bcontent ch @ rest = w @ concat ws'" by simp
    then show ?thesis
    proof (cases rule: split_prefix)
      case (part y)
      obtain e pl where d: "aead_chunk_decrypt lib ctx (bdata ch) (blen ch) =
          (CRYPTO_NEED_MORE, [], bdata ch, pl, blen ch, ctx\<lparr>x_evp := e\<rparr>)"
        "session keyed k N (ctx\<lparr>x_evp := e\<rparr>)"
        using aead_chunk_decrypt_partial [OF Cons.prems(1) ws(2) part(1) [unfolded bcontent_def] part(2) bl] by blast
      have "blen ch < length w"
        using part Cons.prems(3) by (metis length_append length_bcontent length_greater_0_conv less_add_same_cancel1)
      moreover have "ctx\<lparr>x_evp := e\<rparr> = ctx\<lparr>x_evp := e, x_nonce := x_nonce ctx, x_chunk := Some ch\<rparr>"
        using Cons.prems(2) by simp
      ultimately show ?thesis
        using d Cons.prems False ws(1)
        by (intro exI [where x = 0] exI [where x = e] exI [where x = "x_nonce ctx"]
            exI [where x = ch] exI [where x = tmp])
           (simp add: aead_decrypt_loop.simps [of lib ctx] write_at_def)
    next
      case (full r)
      obtain c' e nn where d: "aead_chunk_decrypt lib ctx (bdata ch) (blen ch) =
          (CRYPTO_OK, p, c', length p, length r, ctx\<lparr>x_evp := e, x_nonce := nn\<rparr>)"
        "take (length r) c' = r" "length c' = length (bdata ch)"
        "session keyed k (N + 2) (ctx\<lparr>x_evp := e, x_nonce := nn\<rparr>)"
        using aead_chunk_decrypt_full [OF Cons.prems(1) ws(2) full(1) [unfolded bcontent_def] bl] by blast
      define ch1 where "ch1 = ch\<lparr>bdata := c', blen := length r\<rparr>"
      define ctx1 where "ctx1 = ctx\<lparr>x_evp := e, x_nonce := nn, x_chunk := Some ch1\<rparr>"
      define tmp1 where "tmp1 = write_at plen p tmp"
      have bl2: "blen ch = length p + 34 + length r"
        using full(1) wl length_bcontent [OF Cons.prems(3)] by simp
      have st: "aead_decrypt_loop lib ctx tmp plen = aead_decrypt_loop lib ctx1 tmp1 (plen + length p)"
        using Cons.prems(2) False d(1)
        by (simp add: aead_decrypt_loop.simps [of lib ctx] ctx1_def ch1_def tmp1_def)
      have p0: "0 < length p" using ws(2) by (simp add: frame_def)
      have l1: "length tmp1 = length tmp" "take (plen + length p) tmp1 = take plen tmp @ p"
        using Cons.prems(6) bl2 by (simp_all add: tmp1_def take_write_at_end)
      have "\<exists>n e nn ch' tmp'. n \<le> length ps \<and>
          aead_decrypt_loop lib ctx1 tmp1 (plen + length p) =
            (if n = 0 \<and> plen + length p = 0 \<and> blen ch1 > 0 then CRYPTO_NEED_MORE else CRYPTO_OK,
             ctx1\<lparr>x_evp := e, x_nonce := nn, x_chunk := Some ch'\<rparr>, tmp', plen + length p + length (concat (take n ps))) \<and>
          buffer_ok ch' \<and> bcontent ch' @ rest = concat (drop n ws') \<and>
          session keyed k (N + 2 + 2 * n) (ctx1\<lparr>x_evp := e, x_nonce := nn\<rparr>) \<and>
          take (plen + length p + length (concat (take n ps))) tmp' = take (plen + length p) tmp1 @ concat (take n ps) \<and>
          length tmp' = length tmp1 \<and> plen + length p + length (concat (take n ps)) \<le> length tmp1 \<and>
          (n < length ps \<longrightarrow> blen ch' < length (ws' ! n))"
      proof (rule Cons.IH)
        show "session keyed k (N + 2) ctx1" using d(4) by (simp add: ctx1_def)
        show "x_chunk ctx1 = Some ch1" by (simp add: ctx1_def)
        show "buffer_ok ch1" using Cons.prems(3) d(3) bl2 by (simp add: ch1_def buffer_ok_def)
        show "bcontent ch1 @ rest = concat ws'" using full(2) d(2) by (simp add: ch1_def bcontent_def)
        show "frames lib keyed (x_cipher ctx1) k (N + 2) ps ws'" using ws(3) by (simp add: ctx1_def)
        show "plen + length p + blen ch1 \<le> length tmp1" using Cons.prems(6) bl2 l1 by (simp add: ch1_def)
      qed
      moreover have "(plen + length p = 0) = False" using p0 by simp
      ultimately obtain n e' nn' ch' tmp' where IH: "n \<le> length ps"
          "aead_decrypt_loop lib ctx1 tmp1 (plen + length p) = (CRYPTO_OK,
             ctx1\<lparr>x_evp := e', x_nonce := nn', x_chunk := Some ch'\<rparr>, tmp', plen + length p + length (concat (take n ps)))"
          "buffer_ok ch'" "bcontent ch' @ rest = concat (drop n ws')"
          "session keyed k (N + 2 + 2 * n) (ctx1\<lparr>x_evp := e', x_nonce := nn'\<rparr>)"
          "take (plen + length p + length (concat (take n ps))) tmp' = take (plen + length p) tmp1 @ concat (take n ps)"
          "length tmp' = length tmp1" "plen + length p + length (concat (take n ps)) \<le> length tmp1"
          "n < length ps \<longrightarrow> blen ch' < length (ws' ! n)"
        by (simp only: simp_thms if_False) (elim exE conjE, rule that)
      have c1: "ctx1\<lparr>x_evp := e', x_nonce := nn', x_chunk := Some ch'\<rparr> =
          ctx\<lparr>x_evp := e', x_nonce := nn', x_chunk := Some ch'\<rparr>" "x_cipher ctx1 = x_cipher ctx"
        by (cases ctx; simp add: ctx1_def)+
      have "session keyed k (N + 2 * Suc n) (ctx\<lparr>x_evp := e', x_nonce := nn'\<rparr>)"
        using IH(5) by (simp add: session_def ctx1_def)
      then show ?thesis
        using IH c1 l1 ws(1) st
        by (intro exI [where x = "Suc n"] exI [where x = e'] exI [where x = nn']
            exI [where x = ch'] exI [where x = tmp']) (simp add: add.assoc)
    qed
  qed
qed

lemma gcm_ok_setup:
  assumes "gcm_ok lib keyed"
    "(name, length k) \<in> {(''AES-128-GCM'', 16), (''AES-192-GCM'', 24), (''AES-256-GCM'', 32)}"
  shows "lib_cipher_info lib name \<and> (\<exists>e e' e''. lib_cipher_setup lib (Some name) = (0, e) \<and>
    lib_cipher_setkey lib e k (length k * 8) enc = (0, e') \<and> lib_cipher_reset lib e' = (0, e'') \<and> keyed e'' k)"
  using assms(1) unfolding gcm_ok_def by (elim conjE allE [where x = name] allE [where x = k] allE [where x = enc] impE [OF _ assms(2)], intro conjI)

section \<open>Starting a session\<close>

definition session_key :: "'e crypto_lib \<Rightarrow> cipher \<Rightarrow> bytes \<Rightarrow> bytes" where
  "session_key lib ci salt =
    snd (crypto_hkdf (lib_sha1 lib) (Some salt) (take (c_key_len ci) (c_key ci)) SUBKEY_INFO (c_key_len ci))"

text \<open>A context as \<open>aead_ctx_init\<close> leaves it, up to salt and chunk buffer.\<close>

definition ctx_fresh :: "'e crypto_lib \<Rightarrow> cipher \<Rightarrow> 'e cipher_ctx \<Rightarrow> bool" where
  "ctx_fresh lib ci ctx \<longleftrightarrow> x_cipher ctx = ci \<and> x_init ctx = 0
     \<and> length (x_salt ctx) = MAX_KEY_LENGTH \<and> length (x_skey ctx) = MAX_KEY_LENGTH
     \<and> length (x_nonce ctx) = MAX_NONCE_LENGTH
     \<and> (c_method ci < CHACHA20POLY1305IETF \<longrightarrow>
          x_evp ctx = Some (snd (lib_cipher_setup lib (aead_get_cipher_type lib (c_method ci)))))"

lemma aead_ctx_init_fresh:
  assumes "aead_cipher_ok ci"
  shows "ctx_fresh lib ci (aead_ctx_init lib random ci enc)"
    and "x_chunk (aead_ctx_init lib random ci enc) = None"
    and "enc \<Longrightarrow> c_key_len ci = length random \<Longrightarrow> take (c_key_len ci) (x_salt (aead_ctx_init lib random ci enc)) = random"
proof -
  have m: "0 \<le> c_method ci" "c_method ci < AEAD_CIPHER_NUM" and k: "c_key_len ci \<le> MAX_KEY_LENGTH"
    using assms aead_cipher_sizes(5) [OF assms] by (simp_all add: aead_cipher_ok_def)
  have l: "length (write_at 0 (take (c_key_len ci) random) (replicate MAX_KEY_LENGTH 0)) = MAX_KEY_LENGTH"
    using k by (subst length_write_at) simp_all
  show "ctx_fresh lib ci (aead_ctx_init lib random ci enc)"
    using m l by (auto simp: ctx_fresh_def aead_ctx_init_def aead_cipher_ctx_init_def ctx_zero_def Let_def method_defs)
  show "x_chunk (aead_ctx_init lib random ci enc) = None"
    by (simp add: aead_ctx_init_def aead_cipher_ctx_init_def ctx_zero_def Let_def)
  show "enc \<Longrightarrow> c_key_len ci = length random \<Longrightarrow> take (c_key_len ci) (x_salt (aead_ctx_init lib random ci enc)) = random"
    by (simp add: aead_ctx_init_def aead_cipher_ctx_init_def ctx_zero_def Let_def write_at_0)
qed

lemma set_key_session:
  assumes lib: "aead_lib_ok lib keyed" and ci: "aead_cipher_ok ci"
    and f: "ctx_fresh lib ci ctx" and salt: "take (c_key_len ci) (x_salt ctx) = salt"
  shows "\<exists>sk n e. aead_cipher_ctx_set_key lib ctx enc = ctx\<lparr>x_skey := sk, x_nonce := n, x_evp := e\<rparr> \<and>
    session keyed (session_key lib ci salt) 0 (ctx\<lparr>x_skey := sk, x_nonce := n, x_evp := e\<rparr>)"
proof -
  let ?kl = "c_key_len ci"
  note sz = aead_cipher_sizes [OF ci]
  have md: "md_ok (lib_sha1 lib)" using lib by (simp add: aead_lib_ok_def)
  have "?kl \<le> 255 * md_size (lib_sha1 lib)"
    using sz(4) md by (cases "md_size (lib_sha1 lib)") (auto simp: md_ok_def)
  then obtain okm where okm: "crypto_hkdf (lib_sha1 lib) (Some salt) (take ?kl (c_key ci)) SUBKEY_INFO ?kl = (False, okm)"
    "length okm = ?kl"
    using crypto_hkdf_length [OF md] by blast
  have sk: "session_key lib ci salt = okm" by (simp add: session_key_def okm)
  define s where "s = write_at 0 okm (x_skey ctx)"
  define n where "n = write_at 0 (replicate (c_nonce_len ci) 0) (x_nonce ctx)"
  have s: "length s = MAX_KEY_LENGTH" "take ?kl s = okm"
    using f sz okm(2) by (simp_all add: s_def ctx_fresh_def write_at_0)
  have n: "length n = MAX_NONCE_LENGTH" "take (c_nonce_len ci) n = le_bytes (c_nonce_len ci) 0"
    using f sz by (simp_all add: n_def ctx_fresh_def write_at_0 le_bytes_0)
  have x: "x_cipher ctx = ci" using f by (simp add: ctx_fresh_def)
  show ?thesis
  proof (cases "c_method ci \<ge> CHACHA20POLY1305IETF")
    case True
    then have "aead_cipher_ctx_set_key lib ctx enc = ctx\<lparr>x_skey := s, x_nonce := n, x_evp := x_evp ctx\<rparr>"
      by (simp add: aead_cipher_ctx_set_key_def Let_def x salt okm s_def n_def)
    moreover have "session keyed okm 0 (ctx\<lparr>x_skey := s, x_nonce := n, x_evp := x_evp ctx\<rparr>)"
      using True s n ci by (simp add: session_def x)
    ultimately show ?thesis unfolding sk by blast
  next
    case False
    from ci show ?thesis
    proof (cases rule: aead_cipher_cases)
      case (gcm name)
      have "(name, length okm) \<in> {(''AES-128-GCM'', 16), (''AES-192-GCM'', 24), (''AES-256-GCM'', 32)}"
        using gcm(4) okm(2) by simp
      then have info: "lib_cipher_info lib name" and "\<exists>e e' e''. lib_cipher_setup lib (Some name) = (0, e) \<and>
          lib_cipher_setkey lib e okm (length okm * 8) enc = (0, e') \<and>
          lib_cipher_reset lib e' = (0, e'') \<and> keyed e'' okm"
        using gcm_ok_setup [of lib keyed name okm enc] lib by (simp_all only: aead_lib_ok_def simp_thms)
      then obtain e e' e'' where e: "lib_cipher_setup lib (Some name) = (0, e)"
          "lib_cipher_setkey lib e okm (?kl * 8) enc = (0, e')" "lib_cipher_reset lib e' = (0, e'')" "keyed e'' okm"
        using okm(2) by auto
      have ty: "aead_get_cipher_type lib (c_method ci) = Some name"
        using gcm info by (auto simp: aead_get_cipher_type_def Let_def method_defs)
      have "x_evp ctx = Some e"
        using f False e(1) by (simp add: ctx_fresh_def ty)
      then have "aead_cipher_ctx_set_key lib ctx enc = ctx\<lparr>x_skey := s, x_nonce := n, x_evp := Some e''\<rparr>"
        using False e s(2) by (simp add: aead_cipher_ctx_set_key_def Let_def x salt okm s_def n_def)
      moreover have "session keyed okm 0 (ctx\<lparr>x_skey := s, x_nonce := n, x_evp := Some e''\<rparr>)"
        using False s n ci e(4) by (simp add: session_def x)
      ultimately show ?thesis unfolding sk by blast
    qed (use False in \<open>simp_all add: method_defs\<close>)
  qed
qed

section \<open>Decrypting a stream\<close>

lemma globals_ok_dec [simp]:
  "globals_ok g \<Longrightarrow> buffer_ok b \<Longrightarrow> globals_ok (g\<lparr>g_aead_dec := b\<rparr>)"
  "globals_ok g \<Longrightarrow> buffer_ok b \<Longrightarrow> globals_ok (g\<lparr>g_aead_enc := b\<rparr>)"
  "globals_ok g \<Longrightarrow> pp_inv pp \<Longrightarrow> globals_ok (g\<lparr>g_pp := pp\<rparr>)"
  by (simp_all add: globals_ok_def)

text \<open>A running receiver: its context is a session at nonce \<open>N\<close> and its chunk buffer holds
  \<open>pend\<close>.\<close>

definition rx_running :: "('e \<Rightarrow> bytes \<Rightarrow> bool) \<Rightarrow> cipher \<Rightarrow> bytes \<Rightarrow> nat \<Rightarrow> bytes \<Rightarrow> 'e cipher_ctx \<Rightarrow> bool" where
  "rx_running keyed ci k N pend ctx \<longleftrightarrow> session keyed k N ctx \<and> x_cipher ctx = ci \<and> x_init ctx \<in> {1, 2} \<and>
     (\<exists>ch. x_chunk ctx = Some ch \<and> buffer_ok ch \<and> bcontent ch = pend)"

text \<open>One call on a running receiver, stated for the content \<open>pend\<close> of the chunk buffer after the
  new bytes have been appended: \<open>n\<close> is the number of frames opened.\<close>

lemma aead_decrypt_tail_running:
  assumes rx: "rx_running keyed ci k N pend ctx" and g: "globals_ok g" and b: "buffer_ok b"
    and w: "pend @ rest = concat ws" "frames lib keyed ci k N ps ws"
    and t: "length pend \<le> length (bdata (g_aead_dec g))"
  shows "\<exists>n ret g' b' ctx' pend'. aead_decrypt_tail lib True g b ctx capacity = (ret, g', b', ctx') \<and>
    n \<le> length ps \<and> ret = (if n = 0 \<and> pend \<noteq> [] then CRYPTO_NEED_MORE else CRYPTO_OK) \<and>
    globals_ok g' \<and> (ret = CRYPTO_OK \<longrightarrow> bcontent b' = concat (take n ps)) \<and>
    rx_running keyed ci k (N + 2 * n) pend' ctx' \<and> pend' @ rest = concat (drop n ws) \<and>
    (n < length ps \<longrightarrow> length pend' < length (ws ! n))"
proof -
  obtain ch where ch: "x_chunk ctx = Some ch" "buffer_ok ch" "bcontent ch = pend"
    using rx by (auto simp: rx_running_def)
  have s: "session keyed k N ctx" and ci: "x_cipher ctx = ci" and i: "x_init ctx \<in> {1, 2}"
    using rx by (auto simp: rx_running_def)
  have bl: "blen ch = length pend" using ch(2,3) by auto
  have gb: "buffer_ok (g_aead_dec g)" "pp_inv (g_pp g)" using g by (auto simp: globals_ok_def)
  have "\<exists>n e nn ch' tmp'. n \<le> length ps \<and>
    aead_decrypt_loop lib ctx (bdata (g_aead_dec g)) 0 =
      (if n = 0 \<and> (0 :: nat) = 0 \<and> blen ch > 0 then CRYPTO_NEED_MORE else CRYPTO_OK,
       ctx\<lparr>x_evp := e, x_nonce := nn, x_chunk := Some ch'\<rparr>, tmp', 0 + length (concat (take n ps))) \<and>
    buffer_ok ch' \<and> bcontent ch' @ rest = concat (drop n ws) \<and>
    session keyed k (N + 2 * n) (ctx\<lparr>x_evp := e, x_nonce := nn\<rparr>) \<and>
    take (0 + length (concat (take n ps))) tmp' = take 0 (bdata (g_aead_dec g)) @ concat (take n ps) \<and>
    length tmp' = length (bdata (g_aead_dec g)) \<and> 0 + length (concat (take n ps)) \<le> length (bdata (g_aead_dec g)) \<and>
    (n < length ps \<longrightarrow> blen ch' < length (ws ! n))"
    by (rule aead_decrypt_loop_frames [OF s ch(1,2)]) (use ch w t ci bl in simp_all)
  then obtain n e nn ch' tmp' where L: "n \<le> length ps"
    "aead_decrypt_loop lib ctx (bdata (g_aead_dec g)) 0 =
      (if n = 0 \<and> blen ch > 0 then CRYPTO_NEED_MORE else CRYPTO_OK,
       ctx\<lparr>x_evp := e, x_nonce := nn, x_chunk := Some ch'\<rparr>, tmp', length (concat (take n ps)))"
    "buffer_ok ch'" "bcontent ch' @ rest = concat (drop n ws)"
    "session keyed k (N + 2 * n) (ctx\<lparr>x_evp := e, x_nonce := nn\<rparr>)"
    "take (length (concat (take n ps))) tmp' = concat (take n ps)"
    "length tmp' = length (bdata (g_aead_dec g))" "length (concat (take n ps)) \<le> length (bdata (g_aead_dec g))"
    "n < length ps \<longrightarrow> blen ch' < length (ws ! n)"
    by (simp only: simp_thms add_0 append_Nil take_0) (elim exE conjE, rule that)
  let ?ctx = "ctx\<lparr>x_evp := e, x_nonce := nn, x_chunk := Some ch'\<rparr>"
  have pl: "length (bcontent ch') = blen ch'" using L(3) by simp
  have tb: "buffer_ok (g_aead_dec g\<lparr>bdata := tmp'\<rparr>)"
    "buffer_ok (g_aead_dec g\<lparr>bdata := tmp', blen := length (concat (take n ps))\<rparr>)"
    using gb(1) L(7,8) by (simp_all add: buffer_ok_def)
  have run: "rx_running keyed ci k (N + 2 * n) (bcontent ch') (?ctx\<lparr>x_init := j\<rparr>)" if "j \<in> {1, 2}" for j
    using that L(3,5) ci by (simp add: rx_running_def)
  show ?thesis
  proof (cases "n = 0 \<and> blen ch > 0")
    case True
    have "?ctx = ?ctx\<lparr>x_init := x_init ctx\<rparr>" by (cases ctx) simp
    then have "rx_running keyed ci k (N + 2 * n) (bcontent ch') ?ctx" using run [OF i] by simp
    then show ?thesis
      using True L pl bl g tb
      by (intro exI [where x = n] exI [where x = CRYPTO_NEED_MORE]
          exI [where x = "g\<lparr>g_aead_dec := g_aead_dec g\<lparr>bdata := tmp'\<rparr>\<rparr>"] exI [where x = b] exI [where x = ?ctx]
          exI [where x = "bcontent ch'"]) (simp add: aead_decrypt_tail_def Let_def)
  next
    case False
    let ?b' = "bset b (concat (take n ps)) capacity"
    let ?g1 = "g\<lparr>g_aead_dec := g_aead_dec g\<lparr>bdata := tmp', blen := length (concat (take n ps))\<rparr>\<rparr>"
    let ?g2 = "?g1\<lparr>g_pp := (pp_record True (g_pp g) (take (c_key_len ci) (x_salt ctx)))\<rparr>"
    have gok: "globals_ok ?g1" "globals_ok ?g2"
      using g tb gb(2) pp_record_inv by simp_all
    note pa = ppbloom_add_eq [OF gb(2)]
    have e: "aead_decrypt_tail lib True g b ctx capacity =
        (if x_init ctx = 1 then (CRYPTO_OK, ?g2, ?b', ?ctx\<lparr>x_init := 2\<rparr>) else (CRYPTO_OK, ?g1, ?b', ?ctx))"
      using False L(2,6) ci by (auto simp: aead_decrypt_tail_def Let_def pa)
    have i2: "x_init ctx \<noteq> 1 \<Longrightarrow> ?ctx = ?ctx\<lparr>x_init := 2\<rparr>"
      using i by (cases ctx) simp
    have nn: "\<not> (n = 0 \<and> pend \<noteq> [])" using False bl by auto
    show ?thesis
      by (intro exI [where x = n] exI [where x = CRYPTO_OK]
          exI [where x = "if x_init ctx = 1 then ?g2 else ?g1"] exI [where x = ?b']
          exI [where x = "?ctx\<lparr>x_init := 2\<rparr>"] exI [where x = "bcontent ch'"] conjI)
         (use nn L pl gok run [of 2] i2 in \<open>simp_all add: e\<close>)
  qed
qed

definition append_to :: "buffer \<Rightarrow> buffer \<Rightarrow> nat \<Rightarrow> buffer" where
  "append_to chunk b capacity =
    (let chunk = brealloc chunk (blen chunk + blen b) capacity;
         chunk = chunk\<lparr>bdata := write_at (blen chunk) (bcontent b) (bdata chunk)\<rparr>
     in chunk\<lparr>blen := blen chunk + blen b\<rparr>)"

lemma append_to_ok:
  assumes "buffer_ok ch" "buffer_ok b"
  shows "buffer_ok (append_to ch b c)" "bcontent (append_to ch b c) = bcontent ch @ bcontent b"
    "blen (append_to ch b c) = blen ch + blen b"
proof -
  define d where "d = brealloc ch (blen ch + blen b) c"
  have d: "buffer_ok d" "blen d = blen ch" "blen ch + blen b \<le> length (bdata d)" "bcontent d = bcontent ch"
    using assms brealloc_fits [of ch "blen ch + blen b" c] by (simp_all add: d_def)
  have e: "append_to ch b c = d\<lparr>bdata := write_at (blen d) (bcontent b) (bdata d), blen := blen ch + blen b\<rparr>"
    using d(2) by (simp add: append_to_def Let_def d_def [symmetric])
  show "buffer_ok (append_to ch b c)" "blen (append_to ch b c) = blen ch + blen b"
    using d assms by (simp_all add: e buffer_ok_def)
  have "take (blen ch + blen b) (write_at (blen ch) (bcontent b) (bdata d)) = take (blen ch) (bdata d) @ bcontent b"
    using d assms by (intro take_write_at_end) simp_all
  then show "bcontent (append_to ch b c) = bcontent ch @ bcontent b"
    using d by (simp add: e bcontent_def)
qed

definition chunk_of :: "'e cipher_ctx \<Rightarrow> nat \<Rightarrow> buffer" where
  "chunk_of ctx capacity = (case x_chunk ctx of None \<Rightarrow> balloc capacity | Some ch \<Rightarrow> ch)"

text \<open>\<open>aead_decrypt\<close> in terms of the chunk buffer with the new bytes appended.\<close>

lemma aead_decrypt_unfold:
  "aead_decrypt lib calloc_ok g b ctx capacity =
    (let salt_len = c_key_len (x_cipher ctx);
         chunk = append_to (chunk_of ctx capacity) b capacity;
         g = g\<lparr>g_aead_dec := brealloc (g_aead_dec g) (blen chunk) capacity\<rparr>
     in if x_init ctx \<noteq> 0 then aead_decrypt_tail lib calloc_ok g b (ctx\<lparr>x_chunk := Some chunk\<rparr>) capacity
        else if blen chunk \<le> salt_len then (CRYPTO_NEED_MORE, g, b, ctx\<lparr>x_chunk := Some chunk\<rparr>)
        else
          let ctx = aead_cipher_ctx_set_key lib (ctx\<lparr>x_chunk := Some chunk,
                      x_salt := write_at 0 (take salt_len (bdata chunk)) (x_salt ctx)\<rparr>) False
          in (case ppbloom_check (g_pp g) (take salt_len (x_salt ctx)) of
                None \<Rightarrow> (ABORTED, g, b, ctx)
              | Some seen \<Rightarrow>
                  if seen = 1 then (CRYPTO_ERROR, g, b, ctx)
                  else aead_decrypt_tail lib calloc_ok g b (ctx\<lparr>x_chunk := Some (chunk\<lparr>
                         bdata := write_at 0 (take (blen chunk - salt_len) (drop salt_len (bdata chunk))) (bdata chunk),
                         blen := blen chunk - salt_len\<rparr>), x_init := 1\<rparr>) capacity))"
  unfolding aead_decrypt_def append_to_def chunk_of_def Let_def
  by (simp cong: option.case_cong if_cong split: option.splits)

text \<open>A receiver that still waits for its salt.\<close>

definition rx_waiting :: "'e crypto_lib \<Rightarrow> cipher \<Rightarrow> bytes \<Rightarrow> 'e cipher_ctx \<Rightarrow> bool" where
  "rx_waiting lib ci pend ctx \<longleftrightarrow> ctx_fresh lib ci ctx \<and>
     buffer_ok (chunk_of ctx 0) \<and> bcontent (chunk_of ctx 0) = pend"

lemma rx_waiting_chunk:
  "rx_waiting lib ci pend ctx \<Longrightarrow> buffer_ok (chunk_of ctx c) \<and> bcontent (chunk_of ctx c) = pend"
  by (auto simp: rx_waiting_def chunk_of_def split: option.splits)

lemma rx_running_chunk:
  "rx_running keyed ci k N pend ctx \<Longrightarrow> buffer_ok (chunk_of ctx c) \<and> bcontent (chunk_of ctx c) = pend"
  by (auto simp: rx_running_def chunk_of_def)

lemma aead_decrypt_running:
  assumes rx: "rx_running keyed ci k N pend ctx" and g: "globals_ok g" and b: "buffer_ok b"
    and w: "pend @ bcontent b @ rest = concat ws" "frames lib keyed ci k N ps ws"
  shows "\<exists>n ret g' b' ctx' pend'. aead_decrypt lib True g b ctx capacity = (ret, g', b', ctx') \<and>
    n \<le> length ps \<and> ret = (if n = 0 \<and> pend @ bcontent b \<noteq> [] then CRYPTO_NEED_MORE else CRYPTO_OK) \<and>
    globals_ok g' \<and> (ret = CRYPTO_OK \<longrightarrow> bcontent b' = concat (take n ps)) \<and>
    rx_running keyed ci k (N + 2 * n) pend' ctx' \<and> pend' @ rest = concat (drop n ws) \<and>
    (n < length ps \<longrightarrow> length pend' < length (ws ! n))"
proof -
  let ?ch = "append_to (chunk_of ctx capacity) b capacity"
  let ?g = "g\<lparr>g_aead_dec := brealloc (g_aead_dec g) (blen ?ch) capacity\<rparr>"
  have c: "buffer_ok (chunk_of ctx capacity)" "bcontent (chunk_of ctx capacity) = pend"
    using rx_running_chunk [OF rx] by auto
  note ch = append_to_ok [OF c(1) b, of capacity, unfolded c(2)]
  have i: "x_init ctx \<noteq> 0" using rx by (auto simp: rx_running_def)
  have gd: "buffer_ok (g_aead_dec g)" using g by (simp add: globals_ok_def)
  have bl: "blen ?ch = length (pend @ bcontent b)"
    using ch(1,2) by (metis length_bcontent)
  have rx': "rx_running keyed ci k N (pend @ bcontent b) (ctx\<lparr>x_chunk := Some ?ch\<rparr>)"
    using rx ch by (simp add: rx_running_def)
  have g': "globals_ok ?g" "length (pend @ bcontent b) \<le> length (bdata (g_aead_dec ?g))"
    using g gd brealloc_fits [OF gd, of "blen ?ch" capacity] bl by simp_all
  have e: "aead_decrypt lib True g b ctx capacity = aead_decrypt_tail lib True ?g b (ctx\<lparr>x_chunk := Some ?ch\<rparr>) capacity"
    using i by (simp add: aead_decrypt_unfold Let_def)
  show ?thesis
    unfolding e by (rule aead_decrypt_tail_running [OF rx' g'(1) b _ w(2) g'(2)]) (simp add: w(1))
qed

lemma aead_decrypt_waiting:
  assumes rx: "rx_waiting lib ci pend ctx" and g: "globals_ok g" and b: "buffer_ok b"
    and l: "length (pend @ bcontent b) \<le> c_key_len ci"
  shows "\<exists>g' ctx'. aead_decrypt lib calloc_ok g b ctx capacity = (CRYPTO_NEED_MORE, g', b, ctx') \<and>
    globals_ok g' \<and> g_pp g' = g_pp g \<and> rx_waiting lib ci (pend @ bcontent b) ctx'"
proof -
  let ?ch = "append_to (chunk_of ctx capacity) b capacity"
  have c: "buffer_ok (chunk_of ctx capacity)" "bcontent (chunk_of ctx capacity) = pend"
    using rx_waiting_chunk [OF rx] by auto
  note ch = append_to_ok [OF c(1) b, of capacity, unfolded c(2)]
  have gd: "buffer_ok (g_aead_dec g)" using g by (simp add: globals_ok_def)
  have bl: "blen ?ch \<le> c_key_len ci" using ch(1,2) l by (metis length_bcontent)
  have f: "x_init ctx = 0" "x_cipher ctx = ci" using rx by (auto simp: rx_waiting_def ctx_fresh_def)
  have "rx_waiting lib ci (pend @ bcontent b) (ctx\<lparr>x_chunk := Some ?ch\<rparr>)"
    using rx ch by (simp add: rx_waiting_def ctx_fresh_def chunk_of_def)
  then show ?thesis
    using f bl g gd by (simp add: aead_decrypt_unfold Let_def)
qed

lemma aead_decrypt_start:
  assumes lib: "aead_lib_ok lib keyed" and ci: "aead_cipher_ok ci"
    and rx: "rx_waiting lib ci pend ctx" and g: "globals_ok g" and b: "buffer_ok b"
    and salt: "length salt = c_key_len ci" "ppbloom_check (g_pp g) salt \<noteq> Some 1"
    and l: "length (pend @ bcontent b) > c_key_len ci"
    and w: "pend @ bcontent b @ rest = salt @ concat ws" "frames lib keyed ci (session_key lib ci salt) 0 ps ws"
  shows "\<exists>n ret g' b' ctx' pend'. aead_decrypt lib True g b ctx capacity = (ret, g', b', ctx') \<and>
    n \<le> length ps \<and> ret = (if n = 0 then CRYPTO_NEED_MORE else CRYPTO_OK) \<and>
    globals_ok g' \<and> (ret = CRYPTO_OK \<longrightarrow> bcontent b' = concat (take n ps)) \<and>
    rx_running keyed ci (session_key lib ci salt) (0 + 2 * n) pend' ctx' \<and> pend' @ rest = concat (drop n ws) \<and>
    (n < length ps \<longrightarrow> length pend' < length (ws ! n))"
proof -
  let ?k = "session_key lib ci salt"
  let ?ch = "append_to (chunk_of ctx capacity) b capacity"
  let ?g = "g\<lparr>g_aead_dec := brealloc (g_aead_dec g) (blen ?ch) capacity\<rparr>"
  have c: "buffer_ok (chunk_of ctx capacity)" "bcontent (chunk_of ctx capacity) = pend"
    using rx_waiting_chunk [OF rx] by auto
  note ch = append_to_ok [OF c(1) b, of capacity, unfolded c(2)]
  have gd: "buffer_ok (g_aead_dec g)" using g by (simp add: globals_ok_def)
  have bl: "blen ?ch = length (pend @ bcontent b)" using ch(1,2) by (metis length_bcontent)
  have f: "x_init ctx = 0" "x_cipher ctx = ci" "length (x_salt ctx) = MAX_KEY_LENGTH"
    using rx by (auto simp: rx_waiting_def ctx_fresh_def)
  have "(pend @ bcontent b) @ rest = salt @ concat ws" using w(1) by simp
  then obtain r where r: "pend @ bcontent b = salt @ r" "r \<noteq> []" "r @ rest = concat ws"
  proof (cases rule: split_prefix)
    case (full r)
    then have "r \<noteq> []" using l salt(1) by auto
    with full show thesis by (intro that)
  next
    case (part y)
    then show thesis using l salt(1) by (metis length_append not_add_less1)
  qed
  have tk: "take (c_key_len ci) (bdata ?ch) = salt" "take (blen ?ch - c_key_len ci) (drop (c_key_len ci) (bdata ?ch)) = r"
  proof -
    obtain t where d: "bdata ?ch = salt @ r @ t"
      using ch(2) r(1) append_take_drop_id [of "blen ?ch" "bdata ?ch"] by (metis append.assoc bcontent_def)
    show "take (c_key_len ci) (bdata ?ch) = salt" by (simp add: d salt(1))
    show "take (blen ?ch - c_key_len ci) (drop (c_key_len ci) (bdata ?ch)) = r"
      by (simp add: d salt(1) [symmetric] bl r(1))
  qed
  define ctx1 where "ctx1 = ctx\<lparr>x_chunk := Some ?ch, x_salt := write_at 0 salt (x_salt ctx)\<rparr>"
  note sz = aead_cipher_sizes [OF ci]
  have f1: "ctx_fresh lib ci ctx1" "take (c_key_len ci) (x_salt ctx1) = salt"
    using rx sz salt(1) by (auto simp: rx_waiting_def ctx_fresh_def ctx1_def write_at_0)
  obtain sk n e where k: "aead_cipher_ctx_set_key lib ctx1 False = ctx1\<lparr>x_skey := sk, x_nonce := n, x_evp := e\<rparr>"
    "session keyed ?k 0 (ctx1\<lparr>x_skey := sk, x_nonce := n, x_evp := e\<rparr>)"
    using set_key_session [OF lib ci f1] by blast
  define ch2 where "ch2 = ?ch\<lparr>bdata := write_at 0 r (bdata ?ch), blen := blen ?ch - c_key_len ci\<rparr>"
  define ctx2 where "ctx2 = ctx1\<lparr>x_skey := sk, x_nonce := n, x_evp := e, x_chunk := Some ch2, x_init := 1\<rparr>"
  have lr: "length r = blen ?ch - c_key_len ci" using bl r(1) salt(1) by simp
  have ch2: "buffer_ok ch2" "bcontent ch2 = r"
    using ch(1) lr by (auto simp: ch2_def buffer_ok_def bcontent_def write_at_0)
  have rx2: "rx_running keyed ci ?k 0 r ctx2"
    using k(2) ch2 f(2) by (simp add: rx_running_def ctx2_def ctx1_def session_def)
  have g': "globals_ok ?g" "length r \<le> length (bdata (g_aead_dec ?g))"
    using g gd le_trans [OF _ brealloc_fits [OF gd, of "blen ?ch" capacity], of "length r"] lr by simp_all
  have "ppbloom_check (g_pp g) salt = Some 0" using ppbloom_unseen [OF _ salt(2)] g by (simp add: globals_ok_def)
  then have e: "aead_decrypt lib True g b ctx capacity = aead_decrypt_tail lib True ?g b ctx2 capacity"
    using f salt l bl f1(2) k(1) tk
    by (simp add: aead_decrypt_unfold Let_def ctx1_def [symmetric] ch2_def ctx2_def)
  show ?thesis
    unfolding e using aead_decrypt_tail_running [OF rx2 g'(1) b r(3) w(2) g'(2), of capacity] r(2) by simp
qed

section \<open>Whole streams\<close>

text \<open>Feeding a receiver segment by segment, each as one \<open>recv\<close>: \<open>None\<close> is an error.\<close>

primrec aead_feed ::
  "'e crypto_lib \<Rightarrow> nat \<Rightarrow> crypto_globals \<Rightarrow> 'e cipher_ctx \<Rightarrow> bytes list \<Rightarrow> bytes option" where
  "aead_feed lib capacity g ctx [] = Some []"
| "aead_feed lib capacity g ctx (seg # segs) =
    (case aead_decrypt lib True g (buffer_of seg) ctx capacity of
       (CRYPTO_OK, g', b', ctx') \<Rightarrow> map_option ((@) (bcontent b')) (aead_feed lib capacity g' ctx' segs)
     | (CRYPTO_NEED_MORE, g', b', ctx') \<Rightarrow> aead_feed lib capacity g' ctx' segs
     | (CRYPTO_ERROR, _) \<Rightarrow> None
     | (ABORTED, _) \<Rightarrow> None)"

text \<open>Sending payload by payload.\<close>

primrec aead_send ::
  "'e crypto_lib \<Rightarrow> nat \<Rightarrow> crypto_globals \<Rightarrow> 'e cipher_ctx \<Rightarrow> bytes list \<Rightarrow> bytes option" where
  "aead_send lib capacity g ctx [] = Some []"
| "aead_send lib capacity g ctx (p # ps) =
    (case aead_encrypt lib g (buffer_of p) ctx capacity of
       (CRYPTO_OK, g', b', ctx') \<Rightarrow> map_option ((@) (bcontent b')) (aead_send lib capacity g' ctx' ps)
     | _ \<Rightarrow> None)"

lemma concat_take_append:
  "n \<le> length ps \<Longrightarrow> concat (take n ps) @ concat (take m (drop n ps)) = concat (take (n + m) ps)"
  by (simp add: take_add)

lemma feed_running:
  assumes "rx_running keyed ci k N pend ctx" "globals_ok g"
    "pend @ concat segs @ rest = concat ws" "frames lib keyed ci k N ps ws"
    "ps \<noteq> [] \<longrightarrow> length pend < length (hd ws)"
  shows "\<exists>n. n \<le> length ps \<and> aead_feed lib capacity g ctx segs = Some (concat (take n ps)) \<and>
    (n < length ps \<longrightarrow> length pend + length (concat segs) < length (concat (take (Suc n) ws)))"
  using assms
proof (induction segs arbitrary: N pend ctx g ps ws)
  case Nil
  then show ?case by (intro exI [where x = 0]) (cases ws; auto dest: frames_length)
next
  case (Cons seg segs)
  have w: "pend @ bcontent (buffer_of seg) @ (concat segs @ rest) = concat ws"
    using Cons.prems(3) by simp
  obtain n ret g' b' ctx' pend' where d:
      "aead_decrypt lib True g (buffer_of seg) ctx capacity = (ret, g', b', ctx')"
      "n \<le> length ps" "ret = (if n = 0 \<and> pend @ seg \<noteq> [] then CRYPTO_NEED_MORE else CRYPTO_OK)"
      "globals_ok g'" "ret = CRYPTO_OK \<longrightarrow> bcontent b' = concat (take n ps)"
      "rx_running keyed ci k (N + 2 * n) pend' ctx'" "pend' @ concat segs @ rest = concat (drop n ws)"
      "n < length ps \<longrightarrow> length pend' < length (ws ! n)"
    using aead_decrypt_running [OF Cons.prems(1,2) buffer_of_simps(2) w Cons.prems(4), of capacity]
    unfolding buffer_of_simps by (elim exE conjE) (rule that)
  have lw: "length ps = length ws" using Cons.prems(4) by (rule frames_length)
  have nx: "drop n ps \<noteq> [] \<longrightarrow> length pend' < length (hd (drop n ws))"
    using d(8) lw by (simp add: hd_drop_conv_nth)
  obtain m where m: "m \<le> length (drop n ps)"
      "aead_feed lib capacity g' ctx' segs = Some (concat (take m (drop n ps)))"
      "m < length (drop n ps) \<longrightarrow> length pend' + length (concat segs) < length (concat (take (Suc m) (drop n ws)))"
    using Cons.IH [OF d(6,4,7) frames_drop [OF Cons.prems(4)] nx] by auto
  have pp: "length pend + length seg = length (concat (take n ws)) + length pend'"
  proof -
    have "pend @ seg @ concat segs @ rest = concat (take n ws) @ pend' @ concat segs @ rest"
      using Cons.prems(3) d(7) concat_append [of "take n ws" "drop n ws"] by simp
    then show ?thesis by (metis append.assoc append_same_eq length_append)
  qed
  have feed: "aead_feed lib capacity g ctx (seg # segs) = Some (concat (take (n + m) ps))"
    using d(1,3,5) m(2) concat_take_append [OF d(2), of m] by (cases "n = 0 \<and> pend @ seg \<noteq> []") auto
  have "n + m < length ps \<longrightarrow> length pend + length (concat (seg # segs)) < length (concat (take (Suc (n + m)) ws))"
  proof
    assume "n + m < length ps"
    with m(3) have "length pend' + length (concat segs) < length (concat (take (Suc m) (drop n ws)))" by simp
    moreover have "concat (take (Suc (n + m)) ws) = concat (take n ws) @ concat (take (Suc m) (drop n ws))"
      by (metis add_Suc_right concat_append take_add)
    ultimately show "length pend + length (concat (seg # segs)) < length (concat (take (Suc (n + m)) ws))"
      using pp by simp
  qed
  with feed m(1) d(2) show ?case by (intro exI [where x = "n + m"]) auto
qed

lemma feed_waiting:
  assumes lib: "aead_lib_ok lib keyed" and ci: "aead_cipher_ok ci"
    and salt: "length salt = c_key_len ci" and w: "frames lib keyed ci (session_key lib ci salt) 0 ps ws"
    and "rx_waiting lib ci pend ctx" "globals_ok g" "ppbloom_check (g_pp g) salt \<noteq> Some 1"
    "pend @ concat segs @ rest = salt @ concat ws" "length pend \<le> length salt"
  shows "\<exists>n. n \<le> length ps \<and> aead_feed lib capacity g ctx segs = Some (concat (take n ps)) \<and>
    (n < length ps \<longrightarrow> length pend + length (concat segs) < length salt + length (concat (take (Suc n) ws)))"
  using assms(5-)
proof (induction segs arbitrary: pend ctx g)
  case Nil
  then show ?case
    using w by (intro exI [where x = 0]) (cases ws; cases ps; auto dest!: frame_length)
next
  case (Cons seg segs)
  show ?case
  proof (cases "length (pend @ seg) \<le> c_key_len ci")
    case True
    obtain g' ctx' where d: "aead_decrypt lib True g (buffer_of seg) ctx capacity = (CRYPTO_NEED_MORE, g', buffer_of seg, ctx')"
        "globals_ok g'" "g_pp g' = g_pp g" "rx_waiting lib ci (pend @ seg) ctx'"
      using aead_decrypt_waiting [OF Cons.prems(1,2), of "buffer_of seg" True capacity] True by auto
    show ?thesis
      using Cons.IH [OF d(4,2)] d(1,3) Cons.prems(3,4) True salt by (simp add: add.assoc)
  next
    case False
    have wp: "pend @ bcontent (buffer_of seg) @ (concat segs @ rest) = salt @ concat ws"
      using Cons.prems(4) by simp
    obtain n ret g' b' ctx' pend' where d:
        "aead_decrypt lib True g (buffer_of seg) ctx capacity = (ret, g', b', ctx')"
        "n \<le> length ps" "ret = (if n = 0 then CRYPTO_NEED_MORE else CRYPTO_OK)"
        "globals_ok g'" "ret = CRYPTO_OK \<longrightarrow> bcontent b' = concat (take n ps)"
        "rx_running keyed ci (session_key lib ci salt) (2 * n) pend' ctx'"
        "pend' @ concat segs @ rest = concat (drop n ws)"
        "n < length ps \<longrightarrow> length pend' < length (ws ! n)"
      using aead_decrypt_start [OF lib ci Cons.prems(1,2) buffer_of_simps(2) salt Cons.prems(3) _ wp w, of capacity] False
      unfolding buffer_of_simps not_le add_0 by (elim meta_impE exE conjE) (assumption, rule that)
    have lw: "length ps = length ws" using w by (rule frames_length)
    have nx: "drop n ps \<noteq> [] \<longrightarrow> length pend' < length (hd (drop n ws))"
      using d(8) lw by (simp add: hd_drop_conv_nth)
    have fr: "frames lib keyed ci (session_key lib ci salt) (2 * n) (drop n ps) (drop n ws)"
      using frames_drop [OF w, of n] by simp
    obtain m where m: "m \<le> length (drop n ps)"
        "aead_feed lib capacity g' ctx' segs = Some (concat (take m (drop n ps)))"
        "m < length (drop n ps) \<longrightarrow> length pend' + length (concat segs) < length (concat (take (Suc m) (drop n ws)))"
      using feed_running [OF d(6,4,7) fr nx] by auto
    have pp: "length pend + length seg = length salt + length (concat (take n ws)) + length pend'"
    proof -
      have "pend @ seg @ concat segs @ rest = salt @ concat (take n ws) @ pend' @ concat segs @ rest"
        using Cons.prems(4) d(7) concat_append [of "take n ws" "drop n ws"] by simp
      then show ?thesis by (metis add.assoc append.assoc append_same_eq length_append)
    qed
    have feed: "aead_feed lib capacity g ctx (seg # segs) = Some (concat (take (n + m) ps))"
      using d(1,3,5) m(2) concat_take_append [OF d(2), of m] by (cases "n = 0") auto
    have "n + m < length ps \<longrightarrow>
        length pend + length (concat (seg # segs)) < length salt + length (concat (take (Suc (n + m)) ws))"
    proof
      assume "n + m < length ps"
      with m(3) have "length pend' + length (concat segs) < length (concat (take (Suc m) (drop n ws)))" by simp
      moreover have "concat (take (Suc (n + m)) ws) = concat (take n ws) @ concat (take (Suc m) (drop n ws))"
        by (metis add_Suc_right concat_append take_add)
      ultimately show "length pend + length (concat (seg # segs)) < length salt + length (concat (take (Suc (n + m)) ws))"
        using pp by simp
    qed
    with feed m(1) d(2) show ?thesis by (intro exI [where x = "n + m"]) auto
  qed
qed

section \<open>The sender\<close>

lemma aead_encrypt_first:
  assumes lib: "aead_lib_ok lib keyed" and ci: "aead_cipher_ok ci" and f: "ctx_fresh lib ci ctx"
    and salt: "take (c_key_len ci) (x_salt ctx) = salt" and g: "globals_ok g" and b: "buffer_ok b"
    and p: "0 < blen b" "blen b \<le> CHUNK_SIZE_MASK"
  shows "\<exists>w g' b' ctx'. aead_encrypt lib g b ctx capacity = (CRYPTO_OK, g', b', ctx') \<and>
    bcontent b' = salt @ w \<and> buffer_ok b' \<and> globals_ok g' \<and> g_pp g' = g_pp g \<and>
    frame lib keyed ci (session_key lib ci salt) 0 (bcontent b) w \<and>
    session keyed (session_key lib ci salt) 2 ctx' \<and> x_cipher ctx' = ci \<and> x_init ctx' = 1"
proof -
  note sz = aead_cipher_sizes [OF ci]
  have x: "x_init ctx = 0" "x_cipher ctx = ci" "length (x_salt ctx) = MAX_KEY_LENGTH"
    using f by (simp_all add: ctx_fresh_def)
  have sl: "length salt = c_key_len ci" using salt x sz by auto
  obtain sk n e where k: "aead_cipher_ctx_set_key lib ctx True = ctx\<lparr>x_skey := sk, x_nonce := n, x_evp := e\<rparr>"
    "session keyed (session_key lib ci salt) 0 (ctx\<lparr>x_skey := sk, x_nonce := n, x_evp := e\<rparr>)"
    using set_key_session [OF lib ci f salt] by blast
  define ctx1 where "ctx1 = (aead_cipher_ctx_set_key lib ctx True)\<lparr>x_init := 1\<rparr>"
  have s1: "session keyed (session_key lib ci salt) 0 ctx1" "x_cipher ctx1 = ci" "x_init ctx1 = 1"
    using k x by (simp_all add: ctx1_def)
  define len where "len = c_key_len ci + 2 * 16 + blen b + 2"
  define tmp where "tmp = brealloc (g_aead_enc g) len capacity"
  have gb: "buffer_ok (g_aead_enc g)" using g by (simp add: globals_ok_def)
  have t: "buffer_ok tmp" "len \<le> length (bdata tmp)" using gb by (simp_all add: tmp_def)
  define mem where "mem = write_at 0 salt (bdata tmp)"
  have m: "length mem = length (bdata tmp)" "take (c_key_len ci) mem = salt"
    using t(2) sl by (simp_all add: mem_def len_def write_at_0)
  have pl: "length (bcontent b) = blen b" using b by simp
  obtain w e2 n2 where w: "aead_chunk_encrypt lib ctx1 (bcontent b) mem (c_key_len ci) (blen b) =
        (CRYPTO_OK, write_at (c_key_len ci) w mem, ctx1\<lparr>x_evp := e2, x_nonce := n2\<rparr>)"
      "frame lib keyed ci (session_key lib ci salt) 0 (bcontent b) w"
      "session keyed (session_key lib ci salt) 2 (ctx1\<lparr>x_evp := e2, x_nonce := n2\<rparr>)"
    using aead_chunk_encrypt_frame [OF lib s1(1), of "bcontent b" "c_key_len ci" mem] p pl m(1) t(2)
    by (auto simp: len_def s1(2) numeral_2_eq_2)
  have wl: "length w = blen b + 34" using frame_length [OF w(2)] pl by simp
  define mem2 where "mem2 = write_at (c_key_len ci) w mem"
  have m2: "take len mem2 = salt @ w" "length mem2 = length (bdata tmp)"
    using m wl t(2) by (simp_all add: mem2_def len_def take_write_at_end)
  have "blen b mod 65536 = blen b" using p by (simp add: CHUNK_SIZE_MASK_def)
  then have "aead_encrypt lib g b ctx capacity =
      (CRYPTO_OK, g\<lparr>g_aead_enc := tmp\<lparr>blen := len, bdata := mem2\<rparr>\<rparr>, bset b (salt @ w) capacity,
       ctx1\<lparr>x_evp := e2, x_nonce := n2\<rparr>)"
    using p(1) w(1) m2(1)
    by (simp only: aead_encrypt_def Let_def x sz(1) salt CHUNK_SIZE_LEN_def refl if_True
          len_def [symmetric] tmp_def [symmetric] ctx1_def [symmetric])
       (simp add: mem_def [symmetric] mem2_def)
  moreover have "buffer_ok (tmp\<lparr>blen := len, bdata := mem2\<rparr>)"
    using t m2(2) by (simp add: buffer_ok_def)
  ultimately show ?thesis
    using w(2,3) g b s1(2,3) by simp
qed

lemma aead_encrypt_next:
  assumes lib: "aead_lib_ok lib keyed" and s: "session keyed k N ctx" and i: "x_init ctx \<noteq> 0"
    and g: "globals_ok g" and b: "buffer_ok b" and p: "0 < blen b" "blen b \<le> CHUNK_SIZE_MASK"
  shows "\<exists>g' b' ctx'. aead_encrypt lib g b ctx capacity = (CRYPTO_OK, g', b', ctx') \<and>
    buffer_ok b' \<and> globals_ok g' \<and> g_pp g' = g_pp g \<and> frame lib keyed (x_cipher ctx) k N (bcontent b) (bcontent b') \<and>
    session keyed k (N + 2) ctx' \<and> x_cipher ctx' = x_cipher ctx \<and> x_init ctx' \<noteq> 0"
proof -
  have sz: "c_tag_len (x_cipher ctx) = 16" using s aead_cipher_sizes by (auto simp: session_def)
  define len where "len = 2 * 16 + blen b + 2"
  define tmp where "tmp = brealloc (g_aead_enc g) len capacity"
  have gb: "buffer_ok (g_aead_enc g)" using g by (simp add: globals_ok_def)
  have t: "buffer_ok tmp" "len \<le> length (bdata tmp)" using gb by (simp_all add: tmp_def)
  have pl: "length (bcontent b) = blen b" using b by simp
  obtain w e2 n2 where w: "aead_chunk_encrypt lib ctx (bcontent b) (bdata tmp) 0 (blen b) =
        (CRYPTO_OK, write_at 0 w (bdata tmp), ctx\<lparr>x_evp := e2, x_nonce := n2\<rparr>)"
      "frame lib keyed (x_cipher ctx) k N (bcontent b) w"
      "session keyed k (N + 2) (ctx\<lparr>x_evp := e2, x_nonce := n2\<rparr>)"
    using aead_chunk_encrypt_frame [OF lib s, of "bcontent b" 0 "bdata tmp"] p pl t(2)
    by (auto simp: len_def)
  have wl: "length w = len" using frame_length [OF w(2)] pl by (simp add: len_def)
  have m2: "take len (write_at 0 w (bdata tmp)) = w" "length (write_at 0 w (bdata tmp)) = length (bdata tmp)"
    using wl t(2) by (simp_all add: write_at_0)
  have "blen b mod 65536 = blen b" using p by (simp add: CHUNK_SIZE_MASK_def)
  then have "aead_encrypt lib g b ctx capacity =
      (CRYPTO_OK, g\<lparr>g_aead_enc := tmp\<lparr>blen := len, bdata := write_at 0 w (bdata tmp)\<rparr>\<rparr>, bset b w capacity,
       ctx\<lparr>x_evp := e2, x_nonce := n2\<rparr>)"
    using p i w(1) m2(1)
    by (simp add: aead_encrypt_def Let_def sz CHUNK_SIZE_LEN_def tmp_def len_def)
  moreover have "buffer_ok (tmp\<lparr>blen := len, bdata := write_at 0 w (bdata tmp)\<rparr>)"
    using t m2(2) by (simp add: buffer_ok_def)
  ultimately show ?thesis
    using w(2,3) g b i by simp
qed

definition payload_ok :: "bytes \<Rightarrow> bool" where
  "payload_ok p \<longleftrightarrow> 0 < length p \<and> length p \<le> CHUNK_SIZE_MASK"

lemma aead_send_next:
  assumes "aead_lib_ok lib keyed" "session keyed k N ctx" "x_init ctx \<noteq> 0" "globals_ok g"
    "list_all payload_ok ps"
  shows "\<exists>ws. aead_send lib capacity g ctx ps = Some (concat ws) \<and> frames lib keyed (x_cipher ctx) k N ps ws"
  using assms
proof (induction ps arbitrary: N ctx g)
  case Nil
  then show ?case by (intro exI [where x = "[]"]) simp
next
  case (Cons p ps)
  then have p: "0 < blen (buffer_of p)" "blen (buffer_of p) \<le> CHUNK_SIZE_MASK" by (simp_all add: payload_ok_def)
  obtain g' b' ctx' where d: "aead_encrypt lib g (buffer_of p) ctx capacity = (CRYPTO_OK, g', b', ctx')"
      "globals_ok g'" "frame lib keyed (x_cipher ctx) k N p (bcontent b')" "session keyed k (N + 2) ctx'"
      "x_cipher ctx' = x_cipher ctx" "x_init ctx' \<noteq> 0"
    using aead_encrypt_next [OF Cons.prems(1-4) buffer_of_simps(2) p, of capacity] by auto
  obtain ws where "aead_send lib capacity g' ctx' ps = Some (concat ws)" "frames lib keyed (x_cipher ctx) k (N + 2) ps ws"
    using Cons.IH [OF Cons.prems(1) d(4,6,2)] Cons.prems(5) d(5) by auto
  with d show ?case by (intro exI [where x = "bcontent b' # ws"]) simp
qed

lemma aead_send_frames:
  assumes lib: "aead_lib_ok lib keyed" and ci: "aead_cipher_ok ci" and g: "globals_ok g"
    and salt: "length salt = c_key_len ci" and ps: "list_all payload_ok ps" "ps \<noteq> []"
  shows "\<exists>ws. aead_send lib capacity g (aead_ctx_init lib salt ci True) ps = Some (salt @ concat ws) \<and>
    frames lib keyed ci (session_key lib ci salt) 0 ps ws"
proof -
  obtain p ps' where c: "ps = p # ps'" using ps(2) by (cases ps) auto
  then have p: "0 < blen (buffer_of p)" "blen (buffer_of p) \<le> CHUNK_SIZE_MASK"
    using ps(1) by (simp_all add: payload_ok_def)
  note f = aead_ctx_init_fresh [OF ci]
  have sp: "take (c_key_len ci) (x_salt (aead_ctx_init lib salt ci True)) = salt"
    by (rule f(3)) (simp_all add: salt)
  obtain w g' b' ctx' where d: "aead_encrypt lib g (buffer_of p) (aead_ctx_init lib salt ci True) capacity = (CRYPTO_OK, g', b', ctx')"
      "bcontent b' = salt @ w" "globals_ok g'" "frame lib keyed ci (session_key lib ci salt) 0 p w"
      "session keyed (session_key lib ci salt) 2 ctx'" "x_cipher ctx' = ci" "x_init ctx' = 1"
    using aead_encrypt_first [OF lib ci f(1) sp g buffer_of_simps(2) p, of capacity] by auto
  obtain ws where "aead_send lib capacity g' ctx' ps' = Some (concat ws)"
      "frames lib keyed ci (session_key lib ci salt) 2 ps' ws"
    using aead_send_next [OF lib d(5) _ d(3)] ps(1) c d(6,7) by auto
  with d c show ?thesis by (intro exI [where x = "w # ws"]) (simp add: numeral_2_eq_2)
qed

section \<open>Properties of the TCP stream\<close>

lemma lib_demo_aead_ok: "aead_lib_ok lib_demo (\<lambda>e k. fst e = k)"
proof -
  have "gcm_ok lib_demo (\<lambda>e k. fst e = k)"
    by (auto simp: gcm_ok_def lib_demo_def split: if_splits)
  moreover have "aead_pair_ok n demo_seal demo_open" for n
    by (auto simp: aead_pair_ok_def demo_seal_def demo_open_def split: if_splits)
  moreover have "lib_chacha_encrypt lib_demo = demo_seal" "lib_chacha_decrypt lib_demo = demo_open"
    "lib_xchacha_encrypt lib_demo = demo_seal" "lib_xchacha_decrypt lib_demo = demo_open"
    by (simp_all add: lib_demo_def)
  ultimately show ?thesis by (simp add: aead_lib_ok_def md_demo_ok)
qed

definition chacha_demo :: cipher where
  "chacha_demo = \<lparr>c_method = CHACHA20POLY1305IETF, c_skey = False, c_info = True, c_nonce_len = 12,
     c_key_len = 32, c_tag_len = 16, c_key = replicate 64 5\<rparr>"

lemma chacha_demo_ok: "aead_cipher_ok chacha_demo"
  by (simp add: chacha_demo_def aead_cipher_ok_def method_defs supported_aead_ciphers_nonce_size_def
      supported_aead_ciphers_key_size_def MAX_KEY_LENGTH_def)

lemma feed_fresh:
  assumes lib: "aead_lib_ok lib keyed" and ci: "aead_cipher_ok ci" and g: "globals_ok g"
    and salt: "length salt = c_key_len ci" "ppbloom_check (g_pp g) salt \<noteq> Some 1"
    and w: "frames lib keyed ci (session_key lib ci salt) 0 ps ws" "concat segs @ rest = salt @ concat ws"
  shows "\<exists>n. n \<le> length ps \<and>
    aead_feed lib capacity g (aead_ctx_init lib r ci False) segs = Some (concat (take n ps)) \<and>
    (n < length ps \<longrightarrow> length (concat segs) < length salt + length (concat (take (Suc n) ws)))"
proof -
  note f = aead_ctx_init_fresh [OF ci]
  have rx: "rx_waiting lib ci [] (aead_ctx_init lib r ci False)"
    by (simp add: rx_waiting_def f chunk_of_def)
  show ?thesis
    using feed_waiting [OF lib ci salt(1) w(1) rx g salt(2), of segs rest] w(2) by simp
qed

text \<open>C1 (roundtrip): the TCP stream is delivered intact.  Any non-empty payloads of at most
  0x3FFF bytes are accepted by \<open>aead_encrypt\<close>, and however the resulting bytes are cut into
  segments, the receiver's \<open>aead_decrypt\<close> calls never fail and their outputs concatenate to a
  prefix of whole payloads, which is all of them once the last byte has arrived.\<close>

theorem aead_stream_delivery:
  assumes "aead_lib_ok lib keyed" "aead_cipher_ok ci" "globals_ok gs" "globals_ok gr"
    and "length salt = c_key_len ci" "ppbloom_check (g_pp gr) salt \<noteq> Some 1" "list_all payload_ok ps"
  shows "\<exists>wire. aead_send lib cs gs (aead_ctx_init lib salt ci True) ps = Some wire \<and>
    (\<forall>segs rest. concat segs @ rest = wire \<longrightarrow>
      (\<exists>n\<le>length ps. aead_feed lib cr gr (aead_ctx_init lib r ci False) segs = Some (concat (take n ps)) \<and>
        (rest = [] \<longrightarrow> n = length ps)))"
proof (cases "ps = []")
  case True
  have "\<exists>n\<le>length ps. aead_feed lib cr gr (aead_ctx_init lib r ci False) segs = Some (concat (take n ps)) \<and>
      (rest = [] \<longrightarrow> n = length ps)" if "concat segs @ rest = []" for segs rest
    using feed_fresh [OF assms(1,2,4-6), of "[]" "[]" segs salt cr r] that True by auto
  then show ?thesis using True by simp
next
  case False
  obtain ws where w: "aead_send lib cs gs (aead_ctx_init lib salt ci True) ps = Some (salt @ concat ws)"
      "frames lib keyed ci (session_key lib ci salt) 0 ps ws"
    using aead_send_frames [OF assms(1-3,5,7) False] by blast
  have "\<exists>n\<le>length ps. aead_feed lib cr gr (aead_ctx_init lib r ci False) segs = Some (concat (take n ps)) \<and>
      (rest = [] \<longrightarrow> n = length ps)" if s: "concat segs @ rest = salt @ concat ws" for segs rest
  proof -
    obtain n where n: "n \<le> length ps"
        "aead_feed lib cr gr (aead_ctx_init lib r ci False) segs = Some (concat (take n ps))"
        "n < length ps \<longrightarrow> length (concat segs) < length salt + length (concat (take (Suc n) ws))"
      using feed_fresh [OF assms(1,2,4-6) w(2) s, of cr r] by blast
    have "n = length ps" if "rest = []"
    proof (rule ccontr)
      assume "n \<noteq> length ps"
      with n have "length (concat segs) < length salt + length (concat (take (Suc n) ws))" by simp
      also have "\<dots> \<le> length salt + length (concat ws)"
      proof -
        have "concat ws = concat (take (Suc n) ws) @ concat (drop (Suc n) ws)"
          by (metis append_take_drop_id concat_append)
        then have "length (concat ws) = length (concat (take (Suc n) ws)) + length (concat (drop (Suc n) ws))"
          by (metis length_append)
        then show ?thesis by simp
      qed
      finally show False using arg_cong [OF s, of length] that by simp
    qed
    with n show ?thesis by blast
  qed
  with w(1) show ?thesis by blast
qed

theorem aead_stream_delivery_witness:
  "\<exists>wire. aead_send lib_demo 64 globals_demo (aead_ctx_init lib_demo (replicate 32 7) chacha_demo True) [[1, 2, 3], [4]] = Some wire \<and>
    aead_feed lib_demo 64 globals_demo (aead_ctx_init lib_demo [] chacha_demo False)
      [take 40 wire, drop 40 wire] = Some [1, 2, 3, 4]"
proof -
  have "\<exists>wire. aead_send lib_demo 64 globals_demo (aead_ctx_init lib_demo (replicate 32 7) chacha_demo True) [[1, 2, 3], [4]] = Some wire \<and>
    (\<forall>segs rest. concat segs @ rest = wire \<longrightarrow>
      (\<exists>n\<le>length [[1, 2, 3], [4 :: byte]]. aead_feed lib_demo 64 globals_demo (aead_ctx_init lib_demo [] chacha_demo False) segs =
          Some (concat (take n [[1, 2, 3], [4]])) \<and> (rest = [] \<longrightarrow> n = length [[1, 2, 3], [4 :: byte]])))"
    by (rule aead_stream_delivery [OF lib_demo_aead_ok chacha_demo_ok globals_demo_ok globals_demo_ok])
       (simp_all add: chacha_demo_def globals_demo_fresh payload_ok_def CHUNK_SIZE_MASK_def)
  then obtain wire where w: "aead_send lib_demo 64 globals_demo (aead_ctx_init lib_demo (replicate 32 7) chacha_demo True) [[1, 2, 3], [4]] = Some wire"
    and d: "\<And>segs rest. concat segs @ rest = wire \<Longrightarrow>
      \<exists>n\<le>length [[1, 2, 3], [4 :: byte]]. aead_feed lib_demo 64 globals_demo (aead_ctx_init lib_demo [] chacha_demo False) segs =
          Some (concat (take n [[1, 2, 3], [4]])) \<and> (rest = [] \<longrightarrow> n = length [[1, 2, 3], [4 :: byte]])"
    by blast
  from d [of "[take 40 wire, drop 40 wire]" "[]"]
  have "aead_feed lib_demo 64 globals_demo (aead_ctx_init lib_demo [] chacha_demo False)
      [take 40 wire, drop 40 wire] = Some [1, 2, 3, 4]" by auto
  with w show ?thesis by blast
qed


section \<open>UDP packets\<close>

lemma globals_ok_all [simp]:
  "globals_ok g \<Longrightarrow> buffer_ok b \<Longrightarrow> globals_ok (g\<lparr>g_aead_enc_all := b\<rparr>)"
  "globals_ok g \<Longrightarrow> buffer_ok b \<Longrightarrow> globals_ok (g\<lparr>g_aead_dec_all := b\<rparr>)"
  by (simp_all add: globals_ok_def)

lemma aead_encrypt_all_sealed:
  assumes lib: "aead_lib_ok lib keyed" and ci: "aead_cipher_ok ci" and g: "globals_ok g" and b: "buffer_ok b"
    and salt: "length salt = c_key_len ci"
  shows "\<exists>c g' b'. aead_encrypt_all lib salt g b ci capacity = (CRYPTO_OK, g', b') \<and>
    globals_ok g' \<and> buffer_ok b' \<and> bcontent b' = salt @ c \<and>
    sealed lib keyed ci (session_key lib ci salt) 0 (bcontent b) c"
proof -
  let ?ctx = "aead_ctx_init lib salt ci True"
  note sz = aead_cipher_sizes [OF ci]
  note f = aead_ctx_init_fresh [OF ci, where lib = lib and random = salt]
  have sp: "take (c_key_len ci) (x_salt ?ctx) = salt" by (rule f(3)) (simp_all add: salt)
  obtain sk n e where k: "aead_cipher_ctx_set_key lib ?ctx True = ?ctx\<lparr>x_skey := sk, x_nonce := n, x_evp := e\<rparr>"
    "session keyed (session_key lib ci salt) 0 (?ctx\<lparr>x_skey := sk, x_nonce := n, x_evp := e\<rparr>)"
    using set_key_session [OF lib ci f(1) sp] by blast
  define ctx1 where "ctx1 = aead_cipher_ctx_set_key lib ?ctx True"
  have s1: "session keyed (session_key lib ci salt) 0 ctx1" "x_cipher ctx1 = ci"
    using k f(1) [of True] by (simp_all add: ctx1_def ctx_fresh_def)
  obtain c e' where c: "aead_cipher_encrypt lib ctx1 (bcontent b) = (0, c, length (bcontent b) + 16, ctx1\<lparr>x_evp := e'\<rparr>)"
      "sealed lib keyed ci (session_key lib ci salt) 0 (bcontent b) c"
    using session_encrypt [OF lib s1(1), of "bcontent b"] s1(2) by auto
  have cl: "length c = blen b + 16" using c(2) b by (simp add: sealed_def)
  define len where "len = c_key_len ci + 16 + blen b"
  define tmp where "tmp = brealloc (g_aead_enc_all g) len capacity"
  have gb: "buffer_ok (g_aead_enc_all g)" using g by (simp add: globals_ok_def)
  have t: "buffer_ok tmp" "len \<le> length (bdata tmp)" using gb by (simp_all add: tmp_def)
  define mem where "mem = write_at (c_key_len ci) c (write_at 0 salt (bdata tmp))"
  have m: "take (c_key_len ci + (16 + blen b)) mem = salt @ c" "length mem = length (bdata tmp)"
    using t(2) salt cl by (simp_all add: mem_def len_def take_write_at_end write_at_0 add.commute)
  have "aead_encrypt_all lib salt g b ci capacity =
      (CRYPTO_OK, g\<lparr>g_aead_enc_all := tmp\<lparr>blen := 16 + blen b, bdata := mem\<rparr>\<rparr>, bset b (salt @ c) capacity)"
    using c(1) m(1) b
    by (simp only: aead_encrypt_all_def Let_def sz(1) sp len_def [symmetric] tmp_def [symmetric] ctx1_def [symmetric])
       (simp add: mem_def add.commute [of 16])
  moreover have "buffer_ok (tmp\<lparr>blen := 16 + blen b, bdata := mem\<rparr>)"
    using t m(2) by (simp add: buffer_ok_def len_def)
  ultimately show ?thesis using g b c(2) by simp
qed

lemma aead_decrypt_all_sealed:
  assumes lib: "aead_lib_ok lib keyed" and ci: "aead_cipher_ok ci" and g: "globals_ok g" and b: "buffer_ok b"
    and salt: "length salt = c_key_len ci" "ppbloom_check (g_pp g) salt \<noteq> Some 1"
    and c: "bcontent b = salt @ c" "sealed lib keyed ci (session_key lib ci salt) 0 p c" "p \<noteq> []"
  shows "\<exists>g' b'. aead_decrypt_all lib True g b ci capacity = (CRYPTO_OK, g', b') \<and>
    globals_ok g' \<and> buffer_ok b' \<and> bcontent b' = p \<and> ppbloom_add True (g_pp g) salt = Some (0, g_pp g')"
proof -
  let ?ctx = "aead_ctx_init lib [] ci False"
  note sz = aead_cipher_sizes [OF ci]
  note f = aead_ctx_init_fresh [OF ci, where lib = lib and random = "[]"]
  have cl: "length c = length p + 16" using c(2) by (simp add: sealed_def)
  have bl: "blen b = c_key_len ci + length p + 16"
    using arg_cong [OF c(1), of length] b salt(1) cl by simp
  have tk: "take (c_key_len ci) (bdata b) = salt"
  proof -
    have "take (c_key_len ci) (bcontent b) = salt" by (simp add: c(1) salt(1) [symmetric])
    then show ?thesis using bl by (simp add: bcontent_def)
  qed
  define ctx0 where "ctx0 = ?ctx\<lparr>x_salt := write_at 0 salt (x_salt ?ctx)\<rparr>"
  have f0: "ctx_fresh lib ci ctx0" "take (c_key_len ci) (x_salt ctx0) = salt"
    using f(1) [of False] salt(1) sz by (auto simp: ctx0_def ctx_fresh_def write_at_0)
  obtain sk n e where k: "aead_cipher_ctx_set_key lib ctx0 False = ctx0\<lparr>x_skey := sk, x_nonce := n, x_evp := e\<rparr>"
    "session keyed (session_key lib ci salt) 0 (ctx0\<lparr>x_skey := sk, x_nonce := n, x_evp := e\<rparr>)"
    using set_key_session [OF lib ci f0] by blast
  define ctx1 where "ctx1 = aead_cipher_ctx_set_key lib ctx0 False"
  have s1: "session keyed (session_key lib ci salt) 0 ctx1" "x_cipher ctx1 = ci"
    using k f0(1) by (simp_all add: ctx1_def ctx_fresh_def)
  obtain e' where d: "aead_cipher_decrypt lib ctx1 c = (0, p, length p, ctx1\<lparr>x_evp := e'\<rparr>)"
    using c(2) s1 by (auto simp: sealed_def)
  define tmp where "tmp = brealloc (g_aead_dec_all g) (blen b) capacity"
  have gb: "buffer_ok (g_aead_dec_all g)" "pp_inv (g_pp g)" using g by (auto simp: globals_ok_def)
  have t: "buffer_ok tmp" "blen b \<le> length (bdata tmp)" using gb by (simp_all add: tmp_def)
  have m: "take (length p) (write_at 0 p (bdata tmp)) = p" "length (write_at 0 p (bdata tmp)) = length (bdata tmp)"
    using t(2) bl by (simp_all add: write_at_0)
  have dr: "drop (c_key_len ci) (bcontent b) = c" by (simp add: c(1) salt(1) [symmetric])
  have "aead_decrypt_all lib True g b ci capacity =
      (CRYPTO_OK, g\<lparr>g_aead_dec_all := tmp\<lparr>blen := length p, bdata := write_at 0 p (bdata tmp)\<rparr>,
         g_pp := (pp_record True (g_pp g) salt)\<rparr>, bset b p capacity)"
    using d m(1) c(3) ppbloom_unseen [OF gb(2) salt(2)] ppbloom_add_eq [OF gb(2)]
    by (simp only: aead_decrypt_all_def Let_def sz(1) tk ctx0_def [symmetric] f0(2) ctx1_def [symmetric] dr
        tmp_def [symmetric])
       (simp add: bl)
  moreover have "buffer_ok (tmp\<lparr>blen := length p, bdata := write_at 0 p (bdata tmp)\<rparr>)"
    using t m(2) bl by (simp add: buffer_ok_def)
  moreover have "pp_inv (pp_record True (g_pp g) salt)" using gb(2) by (rule pp_record_inv)
  moreover note ppbloom_add_eq [OF gb(2), of True salt]
  ultimately show ?thesis using g b by simp
qed

text \<open>C5 (roundtrip): a UDP packet survives the trip.  Any payload is accepted by
  \<open>aead_encrypt_all\<close>, grows by salt and tag, and a non-empty one comes out of the peer's
  \<open>aead_decrypt_all\<close> unchanged, provided the peer has not seen the salt; the peer then has.\<close>

theorem aead_packet_roundtrip:
  assumes "aead_lib_ok lib keyed" "aead_cipher_ok ci" "globals_ok gs" "globals_ok gr"
    and "length salt = c_key_len ci" "ppbloom_check (g_pp gr) salt \<noteq> Some 1" "p \<noteq> []"
  shows "\<exists>gs' b gr' b'. aead_encrypt_all lib salt gs (buffer_of p) ci cs = (CRYPTO_OK, gs', b) \<and>
    blen b = c_key_len ci + length p + 16 \<and>
    aead_decrypt_all lib True gr b ci cr = (CRYPTO_OK, gr', b') \<and> bcontent b' = p \<and>
    ppbloom_add True (g_pp gr) salt = Some (0, g_pp gr')"
proof -
  obtain c gs' b where e: "aead_encrypt_all lib salt gs (buffer_of p) ci cs = (CRYPTO_OK, gs', b)"
      "buffer_ok b" "bcontent b = salt @ c" "sealed lib keyed ci (session_key lib ci salt) 0 p c"
    using aead_encrypt_all_sealed [OF assms(1-3) buffer_of_simps(2) assms(5), of p cs] by auto
  have "blen b = c_key_len ci + length p + 16"
    using arg_cong [OF e(3), of length] e(2,4) assms(5) by (simp add: sealed_def)
  then show ?thesis
    using e aead_decrypt_all_sealed [OF assms(1,2,4) e(2) assms(5,6) e(3,4) assms(7), of cr] by blast
qed

theorem aead_packet_roundtrip_witness:
  "\<exists>gs' b gr' b'. aead_encrypt_all lib_demo (replicate 32 7) globals_demo (buffer_of [1, 2]) chacha_demo 64 = (CRYPTO_OK, gs', b) \<and>
    blen b = 50 \<and> aead_decrypt_all lib_demo True globals_demo b chacha_demo 64 = (CRYPTO_OK, gr', b') \<and> bcontent b' = [1, 2]"
  using aead_packet_roundtrip [OF lib_demo_aead_ok chacha_demo_ok globals_demo_ok globals_demo_ok,
      of "replicate 32 7" "[1, 2]" 64 64]
  by (auto simp: globals_demo_fresh chacha_demo_def)

section \<open>Arbitrary input\<close>

text \<open>The memory invariant of a context: the fixed-size arrays keep their size and the chunk
  buffer is well-formed.\<close>

definition ctx_wf :: "'e cipher_ctx \<Rightarrow> bool" where
  "ctx_wf ctx \<longleftrightarrow> aead_cipher_ok (x_cipher ctx) \<and> length (x_salt ctx) = MAX_KEY_LENGTH
     \<and> length (x_skey ctx) = MAX_KEY_LENGTH \<and> length (x_nonce ctx) = MAX_NONCE_LENGTH
     \<and> (\<forall>ch. x_chunk ctx = Some ch \<longrightarrow> buffer_ok ch)"

lemma ctx_wf_evp [simp]: "ctx_wf (ctx\<lparr>x_evp := e\<rparr>) = ctx_wf ctx"
  by (simp add: ctx_wf_def)

lemma ctx_wf_nonce: "ctx_wf ctx \<Longrightarrow> length n = MAX_NONCE_LENGTH \<Longrightarrow> ctx_wf (ctx\<lparr>x_nonce := n\<rparr>)"
  by (simp add: ctx_wf_def)

lemma increment_nonce_wf:
  assumes "ctx_wf ctx"
  shows "\<exists>n. increment_nonce ctx = ctx\<lparr>x_nonce := n\<rparr> \<and> length n = MAX_NONCE_LENGTH"
proof -
  have "c_nonce_len (x_cipher ctx) \<le> MAX_NONCE_LENGTH" "length (x_nonce ctx) = MAX_NONCE_LENGTH"
    using assms aead_cipher_sizes(2) by (auto simp: ctx_wf_def)
  then show ?thesis
    by (intro exI [where x = "x_nonce (increment_nonce ctx)"]) (simp add: increment_nonce_def Let_def)
qed

lemma aead_cipher_decrypt_any:
  assumes lib: "aead_lib_ok lib keyed" and ci: "aead_cipher_ok (x_cipher ctx)" and m: "16 \<le> length m"
  shows "\<exists>err p e. aead_cipher_decrypt lib ctx m = (err, p, length p, ctx\<lparr>x_evp := e\<rparr>) \<and>
    length p \<le> length m - 16 \<and> (err = 0 \<longrightarrow> length m = length p + 16)"
  using ci
proof (cases rule: aead_cipher_cases)
  case (gcm name)
  show ?thesis
  proof (cases "x_evp ctx")
    case None
    have "ctx = ctx\<lparr>x_evp := x_evp ctx\<rparr>" by simp
    with None gcm show ?thesis
      by (intro exI [where x = "-2"] exI [where x = "[]"] exI [where x = "x_evp ctx"])
         (auto simp: aead_cipher_decrypt_def Let_def)
  next
    case (Some e)
    obtain err p e' where d: "lib_auth_decrypt lib e (take 12 (x_nonce ctx)) (take (length m - 16) m) (drop (length m - 16) m) = (err, p, e')"
      by (metis prod_cases3)
    have "length p \<le> length m - 16 \<and> (err = 0 \<longrightarrow> length p = length m - 16)"
    proof -
      have "gcm_ok lib keyed" using lib by (simp add: aead_lib_ok_def)
      then have "length p \<le> length (take (length m - 16) m) \<and> (err = 0 \<longrightarrow> length p = length (take (length m - 16) m))"
        using d unfolding gcm_ok_def by blast
      then show ?thesis by simp
    qed
    with Some gcm d m show ?thesis
      by (intro exI [where x = err] exI [where x = p] exI [where x = "Some e'"])
         (auto simp: aead_cipher_decrypt_def Let_def)
  qed
next
  case chacha
  obtain err p where d: "lib_chacha_decrypt lib (take 12 (x_nonce ctx)) (take 32 (x_skey ctx)) m = (err, p)"
    by (metis surj_pair)
  have "length p \<le> length m - 16 \<and> (err = 0 \<longrightarrow> length m = length p + 16)"
    using lib d unfolding aead_lib_ok_def aead_pair_ok_def by blast
  with chacha d show ?thesis
    by (intro exI [where x = err] exI [where x = p] exI [where x = "x_evp ctx"])
       (simp add: aead_cipher_decrypt_def Let_def method_defs)
next
  case xchacha
  obtain err p where d: "lib_xchacha_decrypt lib (take 24 (x_nonce ctx)) (take 32 (x_skey ctx)) m = (err, p)"
    by (metis surj_pair)
  have "length p \<le> length m - 16 \<and> (err = 0 \<longrightarrow> length m = length p + 16)"
    using lib d unfolding aead_lib_ok_def aead_pair_ok_def by blast
  with xchacha d show ?thesis
    by (intro exI [where x = err] exI [where x = p] exI [where x = "x_evp ctx"])
       (simp add: aead_cipher_decrypt_def Let_def method_defs)
qed

lemma aead_chunk_decrypt_any:
  assumes lib: "aead_lib_ok lib keyed" and wf: "ctx_wf ctx" and c: "clen \<le> length c"
  shows "\<exists>err p c' pl clen' e n. aead_chunk_decrypt lib ctx c clen =
      (err, p, c', pl, clen', ctx\<lparr>x_evp := e, x_nonce := n\<rparr>) \<and> length n = MAX_NONCE_LENGTH \<and>
    err \<noteq> ABORTED \<and> length c' = length c \<and> length p \<le> clen \<and> clen' \<le> clen \<and>
    (err = CRYPTO_OK \<longrightarrow> pl = length p \<and> clen' + length p \<le> clen)"
proof -
  let ?ci = "x_cipher ctx"
  have ci: "aead_cipher_ok ?ci" and nl: "length (x_nonce ctx) = MAX_NONCE_LENGTH"
    using wf by (simp_all add: ctx_wf_def)
  have t: "c_tag_len ?ci = 16" using aead_cipher_sizes(1) [OF ci] .
  have same: "ctx\<lparr>x_evp := e\<rparr> = ctx\<lparr>x_evp := e, x_nonce := x_nonce ctx\<rparr>" for e by simp
  show ?thesis
  proof (cases "clen \<le> 34")
    case True
    then show ?thesis
      using nl by (intro exI [where x = CRYPTO_NEED_MORE] exI [where x = "[]"] exI [where x = c] exI [where x = 0]
          exI [where x = clen] exI [where x = "x_evp ctx"] exI [where x = "x_nonce ctx"])
        (simp add: aead_chunk_decrypt_def Let_def t CHUNK_SIZE_LEN_def)
  next
    case False
    then have "16 \<le> length (take 18 c)" using c by simp
    from aead_cipher_decrypt_any [OF lib ci this] False c
    obtain err1 lb e1 where 1: "aead_cipher_decrypt lib ctx (take 18 c) = (err1, lb, length lb, ctx\<lparr>x_evp := e1\<rparr>)"
      "length lb \<le> 2" "err1 = 0 \<longrightarrow> length lb = 2" by auto
    define mlen where "mlen = be16_val lb AND CHUNK_SIZE_MASK"
    show ?thesis
    proof (cases "err1 \<noteq> 0 \<or> mlen = 0 \<or> clen < 34 + mlen")
      case True
      then have "aead_chunk_decrypt lib ctx c clen =
          (if err1 \<noteq> 0 \<or> mlen = 0 then CRYPTO_ERROR else CRYPTO_NEED_MORE, [], c, length lb, clen, ctx\<lparr>x_evp := e1\<rparr>)"
        using 1 False by (auto simp: aead_chunk_decrypt_def Let_def t CHUNK_SIZE_LEN_def mlen_def [symmetric])
      then show ?thesis
        using nl
        by (intro exI [where x = "if err1 \<noteq> 0 \<or> mlen = 0 then CRYPTO_ERROR else CRYPTO_NEED_MORE"] exI [where x = "[]"]
            exI [where x = c] exI [where x = "length lb"] exI [where x = clen] exI [where x = e1]
            exI [where x = "x_nonce ctx"]) simp
    next
      case ok: False
      obtain n1 where n1: "increment_nonce (ctx\<lparr>x_evp := e1\<rparr>) = ctx\<lparr>x_evp := e1, x_nonce := n1\<rparr>" "length n1 = MAX_NONCE_LENGTH"
        using increment_nonce_wf [of "ctx\<lparr>x_evp := e1\<rparr>"] wf by auto
      have ml: "length (take (mlen + 16) (drop 18 c)) = mlen + 16" using ok c by auto
      have "16 \<le> length (take (mlen + 16) (drop 18 c))" unfolding ml by simp
      note any2 = aead_cipher_decrypt_any [OF lib _ this, of "ctx\<lparr>x_evp := e1, x_nonce := n1\<rparr>", unfolded ml]
      obtain err2 p e2 where 2: "aead_cipher_decrypt lib (ctx\<lparr>x_evp := e1, x_nonce := n1\<rparr>) (take (mlen + 16) (drop 18 c)) =
          (err2, p, length p, ctx\<lparr>x_evp := e2, x_nonce := n1\<rparr>)" "length p \<le> mlen" "err2 = 0 \<longrightarrow> length p = mlen"
        using any2 ci by auto
      have wf2: "ctx_wf (ctx\<lparr>x_evp := e2, x_nonce := n1\<rparr>)" using wf n1(2) by (simp add: ctx_wf_def)
      obtain n2 where n2: "increment_nonce (ctx\<lparr>x_evp := e2, x_nonce := n1\<rparr>) = ctx\<lparr>x_evp := e2, x_nonce := n2\<rparr>" "length n2 = MAX_NONCE_LENGTH"
        using increment_nonce_wf [OF wf2] by auto
      show ?thesis
      proof (cases "err2 = 0")
        case True
        let ?c = "if clen > 34 + mlen then write_at 0 (take (clen - (34 + mlen)) (drop (34 + mlen) c)) c else c"
        have "aead_chunk_decrypt lib ctx c clen =
            (CRYPTO_OK, p, ?c, length p, clen - (34 + mlen), ctx\<lparr>x_evp := e2, x_nonce := n2\<rparr>)"
          using 1 2 n1 n2 ok True False
          by (simp add: aead_chunk_decrypt_def Let_def t CHUNK_SIZE_LEN_def mlen_def [symmetric])
        then show ?thesis using 2 n2(2) True ok c by (auto simp: True)
      next
        case er: False
        have "aead_chunk_decrypt lib ctx c clen =
            (CRYPTO_ERROR, p, c, length p, clen, ctx\<lparr>x_evp := e2, x_nonce := n1\<rparr>)"
          using 1 2 n1 ok er False
          by (simp add: aead_chunk_decrypt_def Let_def t CHUNK_SIZE_LEN_def mlen_def [symmetric])
        then show ?thesis using 2 n1(2) ok by auto
      qed
    qed
  qed
qed


lemma aead_decrypt_loop_any:
  assumes lib: "aead_lib_ok lib keyed"
  shows "ctx_wf ctx \<Longrightarrow> x_chunk ctx = Some ch \<Longrightarrow> plen + blen ch \<le> length tmp \<Longrightarrow>
    \<exists>err e n ch' tmp' plen'. aead_decrypt_loop lib ctx tmp plen =
        (err, ctx\<lparr>x_evp := e, x_nonce := n, x_chunk := Some ch'\<rparr>, tmp', plen') \<and>
      err \<noteq> ABORTED \<and> buffer_ok ch' \<and> length n = MAX_NONCE_LENGTH \<and>
      length tmp' = length tmp \<and> plen' \<le> length tmp"
proof (induction "blen ch" arbitrary: ctx ch tmp plen rule: less_induct)
  case less
  have bok: "buffer_ok ch" and nl: "length (x_nonce ctx) = MAX_NONCE_LENGTH"
    using less.prems by (auto simp: ctx_wf_def)
  show ?case
  proof (cases "blen ch = 0")
    case True
    then show ?thesis
      using less.prems bok nl
      by (intro exI [where x = CRYPTO_OK] exI [where x = "x_evp ctx"] exI [where x = "x_nonce ctx"]
          exI [where x = ch] exI [where x = tmp] exI [where x = plen]) (simp add: aead_decrypt_loop.simps)
  next
    case False
    have bl: "blen ch \<le> length (bdata ch)" using bok by (simp add: buffer_ok_def)
    obtain err p c' pl clen' e n where d: "aead_chunk_decrypt lib ctx (bdata ch) (blen ch) =
        (err, p, c', pl, clen', ctx\<lparr>x_evp := e, x_nonce := n\<rparr>)" "length n = MAX_NONCE_LENGTH"
        "err \<noteq> ABORTED" "length c' = length (bdata ch)" "length p \<le> blen ch" "clen' \<le> blen ch"
        "err = CRYPTO_OK \<longrightarrow> pl = length p \<and> clen' + length p \<le> blen ch"
      using aead_chunk_decrypt_any [OF lib less.prems(1) bl] by blast
    let ?tmp = "write_at plen p tmp"
    have tl: "length ?tmp = length tmp" using d(5) less.prems(3) by simp
    show ?thesis
    proof (cases "err = CRYPTO_OK")
      case True
      define ch1 where "ch1 = ch\<lparr>bdata := c', blen := clen'\<rparr>"
      define ctx1 where "ctx1 = ctx\<lparr>x_evp := e, x_nonce := n, x_chunk := Some ch1\<rparr>"
      have st: "aead_decrypt_loop lib ctx tmp plen = aead_decrypt_loop lib ctx1 ?tmp (plen + pl)"
        using less.prems(2) False d(1) True
        by (simp add: aead_decrypt_loop.simps [of lib ctx] ctx1_def ch1_def)
      have b1: "buffer_ok ch1" using bok d(4,6) by (simp add: ch1_def buffer_ok_def)
      have w1: "ctx_wf ctx1" using less.prems(1) d(2) b1 by (simp add: ctx1_def ctx_wf_def)
      have lt: "blen ch1 < blen ch"
        using aead_chunk_decrypt_shrinks d(1) True by (simp add: ch1_def) blast
      have le: "plen + pl + blen ch1 \<le> length ?tmp"
        using d(7) True less.prems(3) tl by (simp add: ch1_def)
      have x1: "x_chunk ctx1 = Some ch1" by (simp add: ctx1_def)
      obtain err2 e2 n2 ch2 tmp2 plen2 where r: "aead_decrypt_loop lib ctx1 ?tmp (plen + pl) =
          (err2, ctx1\<lparr>x_evp := e2, x_nonce := n2, x_chunk := Some ch2\<rparr>, tmp2, plen2)"
          "err2 \<noteq> ABORTED" "buffer_ok ch2" "length n2 = MAX_NONCE_LENGTH" "length tmp2 = length ?tmp" "plen2 \<le> length ?tmp"
        using less.hyps [OF lt w1 x1 le] by blast
      have "ctx1\<lparr>x_evp := e2, x_nonce := n2, x_chunk := Some ch2\<rparr> = ctx\<lparr>x_evp := e2, x_nonce := n2, x_chunk := Some ch2\<rparr>"
        by (cases ctx) (simp add: ctx1_def)
      with r st tl show ?thesis by auto
    next
      case er: False
      define ret where "ret = (if err = CRYPTO_NEED_MORE \<and> plen \<noteq> 0 then CRYPTO_OK else err)"
      have "aead_decrypt_loop lib ctx tmp plen = (ret, ctx\<lparr>x_evp := e, x_nonce := n\<rparr>, ?tmp, plen)"
        using less.prems(2) False d(1,3) er
        by (cases err) (simp_all add: aead_decrypt_loop.simps [of lib ctx] ret_def)
      then show ?thesis
        using bok d(2,3) tl less.prems(3) less.prems(2)
        by (intro exI [where x = ret] exI [where x = e] exI [where x = n] exI [where x = ch]
            exI [where x = ?tmp] exI [where x = plen]) (auto simp: ret_def)
    qed
  qed
qed

lemma aead_decrypt_tail_any:
  assumes lib: "aead_lib_ok lib keyed" and wf: "ctx_wf ctx" and ch: "x_chunk ctx = Some ch"
    and g: "globals_ok g" and b: "buffer_ok b" and t: "blen ch \<le> length (bdata (g_aead_dec g))"
    and r: "aead_decrypt_tail lib True g b ctx capacity = (ret, g', b', ctx')"
  shows "ret \<noteq> ABORTED \<and> globals_ok g' \<and> buffer_ok b' \<and> ctx_wf ctx'"
proof -
  obtain err e n ch' tmp' plen' where L: "aead_decrypt_loop lib ctx (bdata (g_aead_dec g)) 0 =
        (err, ctx\<lparr>x_evp := e, x_nonce := n, x_chunk := Some ch'\<rparr>, tmp', plen')"
      "err \<noteq> ABORTED" "buffer_ok ch'" "length n = MAX_NONCE_LENGTH"
      "length tmp' = length (bdata (g_aead_dec g))" "plen' \<le> length (bdata (g_aead_dec g))"
    using aead_decrypt_loop_any [OF lib wf ch, of 0 "bdata (g_aead_dec g)"] t by auto
  have gb: "buffer_ok (g_aead_dec g)" "pp_inv (g_pp g)" using g by (auto simp: globals_ok_def)
  have tb: "buffer_ok (g_aead_dec g\<lparr>bdata := tmp'\<rparr>)" "buffer_ok (g_aead_dec g\<lparr>bdata := tmp', blen := plen'\<rparr>)"
    using gb(1) L(5,6) by (simp_all add: buffer_ok_def)
  have cw: "ctx_wf (ctx\<lparr>x_evp := e, x_nonce := n, x_chunk := Some ch'\<rparr>)"
    using wf L(3,4) by (simp add: ctx_wf_def)
  then have cw2: "ctx_wf (ctx\<lparr>x_evp := e, x_nonce := n, x_chunk := Some ch', x_init := 2\<rparr>)"
    by (simp add: ctx_wf_def)
  show ?thesis
    using r L(1,2) g b gb tb cw cw2 pp_record_inv [OF gb(2)] ppbloom_add_eq [OF gb(2)]
    by (auto simp: aead_decrypt_tail_def Let_def split: if_splits)
qed

lemma set_key_wf:
  assumes lib: "aead_lib_ok lib keyed" and wf: "ctx_wf ctx"
  shows "\<exists>sk n e. aead_cipher_ctx_set_key lib ctx enc = ctx\<lparr>x_skey := sk, x_nonce := n, x_evp := e\<rparr> \<and>
    length sk = MAX_KEY_LENGTH \<and> length n = MAX_NONCE_LENGTH"
proof -
  let ?ci = "x_cipher ctx"
  have ci: "aead_cipher_ok ?ci" using wf by (simp add: ctx_wf_def)
  note sz = aead_cipher_sizes [OF ci]
  have md: "md_ok (lib_sha1 lib)" using lib by (simp add: aead_lib_ok_def)
  have "c_key_len ?ci \<le> 255 * md_size (lib_sha1 lib)"
    using sz(4) md by (cases "md_size (lib_sha1 lib)") (auto simp: md_ok_def)
  then obtain okm where okm: "crypto_hkdf (lib_sha1 lib) (Some (take (c_key_len ?ci) (x_salt ctx)))
      (take (c_key_len ?ci) (c_key ?ci)) SUBKEY_INFO (c_key_len ?ci) = (False, okm)" "length okm = c_key_len ?ci"
    using crypto_hkdf_length [OF md] by blast
  define sk where "sk = write_at 0 okm (x_skey ctx)"
  define n where "n = write_at 0 (replicate (c_nonce_len ?ci) 0) (x_nonce ctx)"
  have l: "length sk = MAX_KEY_LENGTH" "length n = MAX_NONCE_LENGTH"
    using wf sz okm(2) by (simp_all add: sk_def n_def ctx_wf_def)
  have "\<exists>e. aead_cipher_ctx_set_key lib ctx enc = ctx\<lparr>x_skey := sk, x_nonce := n, x_evp := e\<rparr>"
  proof (cases "c_method ?ci \<ge> CHACHA20POLY1305IETF \<or> x_evp ctx = None")
    case True
    then show ?thesis
      by (intro exI [where x = "x_evp ctx"])
         (auto simp: aead_cipher_ctx_set_key_def Let_def okm sk_def n_def)
  next
    case False
    then show ?thesis
      by (auto simp: aead_cipher_ctx_set_key_def Let_def okm sk_def n_def case_prod_beta)
  qed
  with l show ?thesis by blast
qed

lemma aead_decrypt_memory_ok:
  assumes "aead_lib_ok lib keyed" "ctx_wf ctx" "globals_ok g" "buffer_ok b"
    and "aead_decrypt lib True g b ctx capacity = (ret, g', b', ctx')"
  shows "ret \<noteq> ABORTED \<and> globals_ok g' \<and> buffer_ok b' \<and> ctx_wf ctx'"
proof -
  let ?ch = "append_to (chunk_of ctx capacity) b capacity"
  let ?g = "g\<lparr>g_aead_dec := brealloc (g_aead_dec g) (blen ?ch) capacity\<rparr>"
  let ?kl = "c_key_len (x_cipher ctx)"
  have c: "buffer_ok (chunk_of ctx capacity)"
    using assms(2) by (auto simp: ctx_wf_def chunk_of_def split: option.splits)
  note ch = append_to_ok [OF c assms(4), of capacity]
  have gd: "buffer_ok (g_aead_dec g)" using assms(3) by (simp add: globals_ok_def)
  have g1: "globals_ok ?g" "blen ?ch \<le> length (bdata (g_aead_dec ?g))"
    using assms(3) gd by simp_all
  have w1: "ctx_wf (ctx\<lparr>x_chunk := Some ?ch\<rparr>)" using assms(2) ch(1) by (simp add: ctx_wf_def)
  show ?thesis
  proof (cases "x_init ctx \<noteq> 0 \<or> blen ?ch \<le> ?kl")
    case True
    then show ?thesis
      using assms(4,5) g1 w1 aead_decrypt_tail_any [OF assms(1) w1 _ g1(1) assms(4)]
      by (auto simp: aead_decrypt_unfold Let_def split: if_splits)
  next
    case False
    define ctx0 where "ctx0 = ctx\<lparr>x_chunk := Some ?ch, x_salt := write_at 0 (take ?kl (bdata ?ch)) (x_salt ctx)\<rparr>"
    have kl: "?kl \<le> MAX_KEY_LENGTH" using aead_cipher_sizes(5) assms(2) by (auto simp: ctx_wf_def)
    have "length (write_at 0 (take ?kl (bdata ?ch)) (x_salt ctx)) = MAX_KEY_LENGTH"
      using kl assms(2) by (simp add: ctx_wf_def)
    then have w0: "ctx_wf ctx0" using w1 by (simp add: ctx0_def ctx_wf_def)
    obtain sk n e where k: "aead_cipher_ctx_set_key lib ctx0 False = ctx0\<lparr>x_skey := sk, x_nonce := n, x_evp := e\<rparr>"
        "length sk = MAX_KEY_LENGTH" "length n = MAX_NONCE_LENGTH"
      using set_key_wf [OF assms(1) w0] by blast
    define ctx1 where "ctx1 = aead_cipher_ctx_set_key lib ctx0 False"
    have w2: "ctx_wf ctx1" using w0 k by (simp add: ctx1_def ctx_wf_def)
    define ch2 where "ch2 = ?ch\<lparr>bdata := write_at 0 (take (blen ?ch - ?kl) (drop ?kl (bdata ?ch))) (bdata ?ch),
        blen := blen ?ch - ?kl\<rparr>"
    have b2: "buffer_ok ch2" using ch(1) by (auto simp: ch2_def buffer_ok_def)
    have w3: "ctx_wf (ctx1\<lparr>x_chunk := Some ch2, x_init := 1\<rparr>)" using w2 b2 by (simp add: ctx_wf_def)
    have t2: "blen ch2 \<le> length (bdata (g_aead_dec ?g))" using g1(2) by (simp add: ch2_def)
    have e: "aead_decrypt lib True g b ctx capacity =
        (if ppbloom_check (g_pp g) (take ?kl (x_salt ctx1)) = Some 1 then (CRYPTO_ERROR, ?g, b, ctx1)
         else aead_decrypt_tail lib True ?g b (ctx1\<lparr>x_chunk := Some ch2, x_init := 1\<rparr>) capacity)"
    proof -
      have "pp_inv (g_pp g)" using assms(3) by (simp add: globals_ok_def)
      then show ?thesis
        using False
        by (cases rule: ppbloom_check_cases [of "g_pp g" "take ?kl (x_salt ctx1)"])
           (simp_all add: aead_decrypt_unfold Let_def ctx0_def [symmetric] ctx1_def [symmetric] ch2_def)
    qed
    show ?thesis
      using assms(4,5) g1(1) w2 aead_decrypt_tail_any [OF assms(1) w3 _ g1(1) assms(4) t2]
      unfolding e by (auto split: if_splits)
  qed
qed

text \<open>C2 (safety): memory safety of \<open>aead_decrypt\<close> on arbitrary bytes.  From well-formed buffers and
  context, every call leaves the scratch buffers, the chunk buffer, the caller's buffer and the
  context arrays within their sizes, keeps the replay filter's invariant, and no assertion fails,
  whatever the peer sends.\<close>

theorem aead_decrypt_memory_safe:
  assumes "aead_lib_ok lib keyed" "ctx_wf ctx" "globals_ok g" "buffer_ok b"
    and "aead_decrypt lib True g b ctx capacity = (ret, g', b', ctx')"
  shows "ret \<noteq> ABORTED \<and> globals_ok g' \<and> buffer_ok b' \<and> ctx_wf ctx'"
  by (rule aead_decrypt_memory_ok [OF assms])

lemma ctx_init_wf:
  "aead_cipher_ok ci \<Longrightarrow> ctx_wf (aead_ctx_init lib r ci enc)"
  using aead_ctx_init_fresh(1,2) [of ci lib r enc] by (simp add: ctx_wf_def ctx_fresh_def)

theorem aead_decrypt_memory_safe_witness:
  "\<exists>ret g' b' ctx'. aead_decrypt lib_demo True globals_demo (buffer_of (replicate 70 9))
      (aead_ctx_init lib_demo [] chacha_demo False) 64 = (ret, g', b', ctx') \<and>
    ret \<noteq> ABORTED \<and> globals_ok g' \<and> buffer_ok b' \<and> ctx_wf ctx'"
proof -
  obtain ret g' b' ctx' where r: "aead_decrypt lib_demo True globals_demo (buffer_of (replicate 70 9))
      (aead_ctx_init lib_demo [] chacha_demo False) 64 = (ret, g', b', ctx')"
    by (metis prod_cases4)
  from aead_decrypt_memory_safe [OF lib_demo_aead_ok ctx_init_wf [OF chacha_demo_ok] globals_demo_ok buffer_of_simps(2) r] r
  show ?thesis by blast
qed

lemma chacha_demo_key_len: "c_key_len chacha_demo = 32"
  by (simp add: chacha_demo_def)

section \<open>Replay protection\<close>

lemma aead_cipher_decrypt_fields:
  assumes "aead_cipher_decrypt lib ctx m = (err, p, pl, ctx')"
  shows "x_init ctx' = x_init ctx \<and> x_salt ctx' = x_salt ctx \<and> x_cipher ctx' = x_cipher ctx"
  using assms by (auto simp: aead_cipher_decrypt_def Let_def split: if_splits option.splits prod.splits)

lemma increment_nonce_fields [simp]:
  "x_init (increment_nonce ctx) = x_init ctx" "x_salt (increment_nonce ctx) = x_salt ctx"
  "x_cipher (increment_nonce ctx) = x_cipher ctx"
  by (simp_all add: increment_nonce_def Let_def)

lemma aead_chunk_decrypt_fields:
  assumes "aead_chunk_decrypt lib ctx c clen = (err, p, c', pl, clen', ctx')"
  shows "x_init ctx' = x_init ctx \<and> x_salt ctx' = x_salt ctx \<and> x_cipher ctx' = x_cipher ctx"
  using assms
  by (auto simp: aead_chunk_decrypt_def Let_def split: if_splits prod.splits
      dest!: aead_cipher_decrypt_fields)

lemma aead_decrypt_loop_fields:
  "aead_decrypt_loop lib ctx tmp plen = (err, ctx', tmp', plen') \<Longrightarrow>
    x_init ctx' = x_init ctx \<and> x_salt ctx' = x_salt ctx \<and> x_cipher ctx' = x_cipher ctx"
proof (induction lib ctx tmp plen rule: aead_decrypt_loop.induct)
  case (1 lib ctx tmp plen)
  show ?case
  proof (cases "x_chunk ctx")
    case None
    then show ?thesis using 1(2) by (auto simp: aead_decrypt_loop.simps [of lib ctx])
  next
    case (Some ch)
    obtain err1 p c pl cl ctx1 where d: "aead_chunk_decrypt lib ctx (bdata ch) (blen ch) = (err1, p, c, pl, cl, ctx1)"
      by (metis prod_cases6)
    note f = aead_chunk_decrypt_fields [OF d]
    show ?thesis
    proof (cases "blen ch > 0 \<and> err1 = CRYPTO_OK")
      case True
      then have "aead_decrypt_loop lib (ctx1\<lparr>x_chunk := Some (ch\<lparr>bdata := c, blen := cl\<rparr>)\<rparr>) (write_at plen p tmp) (plen + pl)
          = (err, ctx', tmp', plen')"
        using 1(2) Some d by (simp add: aead_decrypt_loop.simps [of lib ctx])
      from 1(1) [OF Some _ d [symmetric] refl refl refl refl refl refl _ this] True f show ?thesis by simp
    next
      case False
      then show ?thesis
        using 1(2) Some d f by (cases err1) (auto simp: aead_decrypt_loop.simps [of lib ctx] Let_def split: if_splits)
    qed
  qed
qed


lemma aead_decrypt_tail_records:
  assumes "aead_decrypt_tail lib ok g b ctx capacity = (ret, g', b', ctx')"
  shows "x_cipher ctx' = x_cipher ctx \<and> x_salt ctx' = x_salt ctx \<and>
    (if ret = CRYPTO_OK \<and> x_init ctx = 1
     then x_init ctx' = 2 \<and>
       (\<exists>r. ppbloom_add ok (g_pp g) (take (c_key_len (x_cipher ctx)) (x_salt ctx)) = Some (r, g_pp g'))
     else x_init ctx' = x_init ctx \<and> g_pp g' = g_pp g)"
  using assms
  by (auto simp: aead_decrypt_tail_def Let_def split: if_splits prod.splits option.splits dest!: aead_decrypt_loop_fields)

lemma set_key_fields [simp]:
  "x_cipher (aead_cipher_ctx_set_key lib ctx enc) = x_cipher ctx"
  "x_salt (aead_cipher_ctx_set_key lib ctx enc) = x_salt ctx"
  "x_init (aead_cipher_ctx_set_key lib ctx enc) = x_init ctx"
  by (simp_all add: aead_cipher_ctx_set_key_def Let_def case_prod_beta split: option.splits)


lemma demo_first_ok:
  "\<exists>b g1 b1 ctx1. aead_decrypt lib_demo True globals_demo b (aead_ctx_init lib_demo [] chacha_demo False) 64 =
    (CRYPTO_OK, g1, b1, ctx1)"
proof -
  have salt: "length (replicate 32 7 :: bytes) = c_key_len chacha_demo" by (simp add: chacha_demo_def)
  have seen: "ppbloom_check (g_pp globals_demo) (replicate 32 7) \<noteq> Some 1" by (simp add: globals_demo_fresh)
  obtain ws where w: "frames lib_demo (\<lambda>e k. fst e = k) chacha_demo (session_key lib_demo chacha_demo (replicate 32 7)) 0 [[1]] ws"
    using aead_send_frames [OF lib_demo_aead_ok chacha_demo_ok globals_demo_ok salt, of "[[1]]" 64]
    by (auto simp: payload_ok_def CHUNK_SIZE_MASK_def)
  then obtain f where f: "ws = [f]" "length f = 35"
    by (cases ws; cases "tl ws") (auto dest: frame_length)
  have rx: "rx_waiting lib_demo chacha_demo [] (aead_ctx_init lib_demo [] chacha_demo False)"
    by (simp add: rx_waiting_def aead_ctx_init_fresh [OF chacha_demo_ok] chunk_of_def)
  let ?b = "buffer_of (replicate 32 7 @ f)"
  have l: "length ([] @ bcontent ?b) > c_key_len chacha_demo" by (simp add: f chacha_demo_def)
  have wp: "[] @ bcontent ?b @ [] = replicate 32 7 @ concat ws" by (simp add: f)
  obtain n ret g' b' ctx' pend' where d:
      "aead_decrypt lib_demo True globals_demo ?b (aead_ctx_init lib_demo [] chacha_demo False) 64 = (ret, g', b', ctx')"
      "ret = (if n = 0 then CRYPTO_NEED_MORE else CRYPTO_OK)" "pend' @ [] = concat (drop n ws)"
      "n < length [[1 :: byte]] \<longrightarrow> length pend' < length (ws ! n)"
    using aead_decrypt_start [OF lib_demo_aead_ok chacha_demo_ok rx globals_demo_ok buffer_of_simps(2) salt seen l wp w, of 64]
    by (elim exE conjE) (rule that)
  have "n \<noteq> 0" using d(3,4) f by auto
  with d(1,2) show ?thesis by auto
qed


text \<open>The calls of \<open>aead_decrypt\<close> on a connection, one for each segment received, up to the first that fails: their return
  codes, and the filter they leave.\<close>

primrec aead_calls ::
  "'e crypto_lib \<Rightarrow> bool \<Rightarrow> nat \<Rightarrow> crypto_globals \<Rightarrow> 'e cipher_ctx \<Rightarrow> bytes list \<Rightarrow> crypto_ret list \<times> ppbloom" where
  "aead_calls lib ok capacity g ctx [] = ([], g_pp g)"
| "aead_calls lib ok capacity g ctx (seg # segs) =
    (let (ret, g, _, ctx) = aead_decrypt lib ok g (buffer_of seg) ctx capacity
     in if ret = CRYPTO_ERROR \<or> ret = ABORTED then ([ret], g_pp g)
        else let (rets, s) = aead_calls lib ok capacity g ctx segs in (ret # rets, s))"

text \<open>A salt that the filter remembers ends the connection, in the call in which the first byte after it arrives.\<close>

lemma aead_decrypt_seen:
  assumes ci: "aead_cipher_ok ci" and rx: "rx_waiting lib ci pend ctx" and b: "buffer_ok b"
    and salt: "pend @ bcontent b = salt @ r" "length salt = c_key_len ci" "r \<noteq> []" "ppbloom_check (g_pp g) salt = Some 1"
  shows "\<exists>g' ctx'. aead_decrypt lib ok g b ctx c = (CRYPTO_ERROR, g', b, ctx') \<and> g_pp g' = g_pp g"
proof -
  let ?ch = "append_to (chunk_of ctx c) b c"
  have ch0: "buffer_ok (chunk_of ctx c)" "bcontent (chunk_of ctx c) = pend" using rx_waiting_chunk [OF rx] by auto
  note ch = append_to_ok [OF ch0(1) b, of c, unfolded ch0(2)]
  have bl: "c_key_len ci < blen ?ch" using arg_cong [OF ch(2), of length] ch(1) salt by simp
  have "take (c_key_len ci) (bcontent ?ch) = salt" using ch(2) salt(1,2) by simp
  then have tk: "take (c_key_len ci) (bdata ?ch) = salt" using bl by (simp add: bcontent_def)
  have f: "x_init ctx = 0" "x_cipher ctx = ci" using rx by (auto simp: rx_waiting_def ctx_fresh_def)
  have ws: "take (c_key_len ci) (write_at 0 salt y) = salt" for y by (simp add: salt(2) [symmetric] write_at_0)
  show ?thesis using f bl salt(4) by (simp add: aead_decrypt_unfold Let_def tk ws)
qed

lemma aead_calls_seen:
  assumes ci: "aead_cipher_ok ci" and salt: "length salt = c_key_len ci"
    and "rx_waiting lib ci pend ctx" "globals_ok g" "ppbloom_check (g_pp g) salt = Some 1" "length pend \<le> c_key_len ci"
    "pend @ concat segs @ rest = salt @ x"
  shows "\<exists>n\<le>length segs. aead_calls lib ok capacity g ctx segs =
    (replicate n CRYPTO_NEED_MORE @ (if c_key_len ci < length pend + length (concat segs) then [CRYPTO_ERROR] else []), g_pp g)
    \<and> length pend + length (concat (take n segs)) \<le> c_key_len ci
    \<and> (n < length segs \<longrightarrow> c_key_len ci < length pend + length (concat (take (n + 1) segs)))"
  using assms(3-)
proof (induction segs arbitrary: pend ctx g)
  case (Cons seg segs)
  show ?case
  proof (cases "length (pend @ seg) \<le> c_key_len ci")
    case True
    obtain g' ctx' where d: "aead_decrypt lib ok g (buffer_of seg) ctx capacity = (CRYPTO_NEED_MORE, g', buffer_of seg, ctx')"
        "globals_ok g'" "g_pp g' = g_pp g" "rx_waiting lib ci (pend @ seg) ctx'"
      using aead_decrypt_waiting [OF Cons.prems(1,2), of "buffer_of seg" ok capacity] True by auto
    obtain n where n: "n \<le> length segs" "aead_calls lib ok capacity g' ctx' segs =
        (replicate n CRYPTO_NEED_MORE @ (if c_key_len ci < length (pend @ seg) + length (concat segs) then [CRYPTO_ERROR] else []), g_pp g')"
        "length (pend @ seg) + length (concat (take n segs)) \<le> c_key_len ci"
        "n < length segs \<longrightarrow> c_key_len ci < length (pend @ seg) + length (concat (take (n + 1) segs))"
      using Cons.IH [OF d(4,2)] d(3) Cons.prems(3,5) True by (auto simp: add.assoc)
    then show ?thesis using d(1,3) by (intro exI [of _ "Suc n"]) (simp add: add.assoc)
  next
    case False
    have w: "pend @ seg @ concat segs @ rest = salt @ x" using Cons.prems(5) by simp
    have p: "take (length salt) (pend @ seg) = salt"
      using arg_cong [OF w, of "take (length salt)"] False salt by simp
    then have r: "pend @ bcontent (buffer_of seg) = salt @ drop (length salt) (pend @ seg)" "drop (length salt) (pend @ seg) \<noteq> []"
      using append_take_drop_id [of "length salt" "pend @ seg", unfolded p] False salt by auto
    obtain g' ctx' where "aead_decrypt lib ok g (buffer_of seg) ctx capacity = (CRYPTO_ERROR, g', buffer_of seg, ctx')" "g_pp g' = g_pp g"
      using aead_decrypt_seen [OF ci Cons.prems(1) buffer_of_simps(2) r(1) salt r(2) Cons.prems(3), of ok capacity] by blast
    then show ?thesis using False Cons.prems(4) by (intro exI [of _ 0]) simp
  qed
qed simp

text \<open>C3 (safety): replays are refused.  Once a salt has been recorded and fewer than \<open>entries\<close> other salts have been added
  since, a TCP connection that starts with that salt, however its bytes are cut into segments, gets no further than
  waiting for the salt: every call returns \<open>CRYPTO_NEED_MORE\<close> until a byte after the salt has arrived, and that call
  returns \<open>CRYPTO_ERROR\<close>.  A UDP packet that starts with the salt is refused.  No payload is released, and the replay
  filter is left unchanged.\<close>

theorem aead_replay_rejected:
  assumes "aead_cipher_ok ci" "pp_inv s" "length salt = c_key_len ci"
    and "int (length ys) < pp_entries s" "globals_ok g"
    and "ppbloom_adds s (salt # ys) = Some (g_pp g)"
    and "concat segs @ rest = salt @ x" "buffer_ok b" "bcontent b = salt @ y"
  shows "(\<exists>n\<le>length segs. aead_calls lib ok capacity g (aead_ctx_init lib r ci False) segs =
      (replicate n CRYPTO_NEED_MORE @ (if c_key_len ci < length (concat segs) then [CRYPTO_ERROR] else []), g_pp g)
      \<and> length (concat (take n segs)) \<le> c_key_len ci
      \<and> (n < length segs \<longrightarrow> c_key_len ci < length (concat (take (n + 1) segs))))
    \<and> (\<exists>g'. aead_decrypt_all lib ok g b ci capacity = (CRYPTO_ERROR, g', b) \<and> g_pp g' = g_pp g)"
proof
  have seen: "ppbloom_check (g_pp g) salt = Some 1"
    by (rule ppbloom_adds_window [OF assms(2,4,6)])
  note f = aead_ctx_init_fresh [OF assms(1), where lib = lib]
  have rx: "rx_waiting lib ci [] (aead_ctx_init lib r ci False)" by (simp add: rx_waiting_def f chunk_of_def)
  show "\<exists>n\<le>length segs. aead_calls lib ok capacity g (aead_ctx_init lib r ci False) segs =
      (replicate n CRYPTO_NEED_MORE @ (if c_key_len ci < length (concat segs) then [CRYPTO_ERROR] else []), g_pp g)
      \<and> length (concat (take n segs)) \<le> c_key_len ci
      \<and> (n < length segs \<longrightarrow> c_key_len ci < length (concat (take (n + 1) segs)))"
    using aead_calls_seen [OF assms(1,3) rx assms(5) seen, of segs rest x ok capacity] assms(7) by simp
  have bl: "blen b = length salt + length y"
    using arg_cong [OF assms(9), of length] assms(8) by simp
  have tk: "take (c_key_len ci) (bdata b) = salt"
    using arg_cong [OF assms(9), of "take (c_key_len ci)"] bl assms(3) by (simp add: bcontent_def)
  have ws: "take (c_key_len ci) (write_at 0 salt y) = salt" for y
    by (simp add: assms(3) [symmetric] write_at_0)
  show "\<exists>g'. aead_decrypt_all lib ok g b ci capacity = (CRYPTO_ERROR, g', b) \<and> g_pp g' = g_pp g"
    using seen by (simp add: aead_decrypt_all_def Let_def tk ws)
qed

theorem aead_replay_rejected_witness:
  "\<exists>s. ppbloom_adds pp_demo [replicate 32 7, [1]] = Some s \<and>
    fst (aead_calls lib_demo True 64 (globals_demo\<lparr>g_pp := s\<rparr>) (aead_ctx_init lib_demo [] chacha_demo False)
      [replicate 20 7, replicate 12 7, [0, 0]]) = [CRYPTO_NEED_MORE, CRYPTO_NEED_MORE, CRYPTO_ERROR]"
proof -
  obtain s where s: "ppbloom_adds pp_demo [replicate 32 7, [1]] = Some s"
    using ppbloom_adds_eq [OF pp_demo_inv(1)] by blast
  let ?g = "globals_demo\<lparr>g_pp := s\<rparr>"
  have "pp_inv s" using ppbloom_adds_window(2) [OF pp_demo_inv(1) _ s] pp_demo_inv(2) by simp
  then have g: "globals_ok ?g" using globals_demo_ok by (simp add: globals_ok_def)
  have e: "int (length [[1 :: byte]]) < pp_entries pp_demo" using pp_demo_inv(2) by simp
  have k: "length (replicate 32 (7 :: byte)) = c_key_len chacha_demo" by (simp add: chacha_demo_key_len)
  have w: "concat [replicate 20 7, replicate 12 7, [0, 0]] @ [] = replicate 32 7 @ [0, 0 :: byte]"
    by (simp add: replicate_add [symmetric])
  obtain n where n: "n \<le> 3" "aead_calls lib_demo True 64 ?g (aead_ctx_init lib_demo [] chacha_demo False)
      [replicate 20 7, replicate 12 7, [0, 0]] = (replicate n CRYPTO_NEED_MORE @ [CRYPTO_ERROR], s)"
      "length (concat (take n [replicate 20 7, replicate 12 7, [0, 0 :: byte]])) \<le> 32"
      "n < 3 \<longrightarrow> 32 < length (concat (take (n + 1) [replicate 20 7, replicate 12 7, [0, 0 :: byte]]))"
    using aead_replay_rejected [OF chacha_demo_ok pp_demo_inv(1) k e g _ w buffer_of_simps(2), where y = "[]" and
        lib = lib_demo and ok = True and capacity = 64 and r = "[]"] s
    by (auto simp: chacha_demo_key_len)
  from n(1) have "n \<in> {0, 1, 2, 3}" by auto
  then have "n = 2" using n(3,4) by (auto simp: numeral_2_eq_2 numeral_3_eq_3)
  then show ?thesis using s n(2) by (auto simp: numeral_2_eq_2)
qed

section \<open>Nonces and keys\<close>

lemma le_val_lt: "le_val xs < 256 ^ length xs"
proof (induction xs)
  case (Cons x xs)
  have "unat x < 256" by simp
  moreover from Cons have "256 * le_val xs + 256 \<le> 256 * 256 ^ length xs" by simp
  ultimately have "unat x + 256 * le_val xs < 256 * 256 ^ length xs" by linarith
  then show ?case by simp
qed simp

lemma length_increment_iter: "length ((sodium_increment ^^ i) n) = length n"
  by (induction i) simp_all

lemma le_val_increment_iter: "le_val ((sodium_increment ^^ i) n) = (le_val n + i) mod 256 ^ length n"
  by (induction i) (simp_all add: le_val_lt le_val_increment length_increment_iter mod_simps)

text \<open>The nonce counts.  \<open>sodium_increment\<close> keeps the length and adds one to the
  little-endian value modulo \<open>256 ^ length\<close>; hence the nonces of a session repeat only after
  \<open>256 ^ nonce_len\<close> operations.\<close>

theorem sodium_increment_counts:
  "length (sodium_increment n) = length n \<and> le_val (sodium_increment n) = (le_val n + 1) mod 256 ^ length n \<and>
   ((sodium_increment ^^ i) n = (sodium_increment ^^ j) n \<longleftrightarrow> i mod 256 ^ length n = j mod 256 ^ length n)"
proof -
  have "(sodium_increment ^^ i) n = (sodium_increment ^^ j) n \<longleftrightarrow>
      le_val ((sodium_increment ^^ i) n) = le_val ((sodium_increment ^^ j) n)"
    by (metis le_val_inject length_increment_iter)
  also have "\<dots> \<longleftrightarrow> i mod 256 ^ length n = j mod 256 ^ length n"
    by (simp add: le_val_increment_iter nat_mod_eq_iff)
  finally show ?thesis by (simp add: le_val_increment)
qed

lemma aead_key_init_ok:
  assumes "md_ok (lib_md5 lib)" "0 \<le> m" "m < AEAD_CIPHER_NUM" "64 \<le> length random"
  shows "\<exists>ci. aead_key_init lib random m pass key = Some ci \<and> aead_cipher_ok ci \<and> c_method ci = m"
proof -
  let ?size = "supported_aead_ciphers_key_size ! nat m"
  have m: "m \<in> {0, 1, 2, 3, 4}" using assms(2,3) by (auto simp: AEAD_CIPHER_NUM_def)
  then have size: "?size \<le> 32" and tag: "supported_aead_ciphers_tag_size ! nat m = 16"
    by (auto simp: supported_aead_ciphers_key_size_def supported_aead_ciphers_tag_size_def)
  define kk where "kk = (case key of Some key \<Rightarrow> crypto_parse_key random key ?size
     | None \<Rightarrow> crypto_derive_key lib pass ?size)"
  have "n \<le> n * md_size (lib_md5 lib)" for n using assms(1) by (simp add: md_ok_def)
  then have derive: "length (snd (crypto_derive_key lib pass n)) = n" for n
    using assms(1) by (simp add: crypto_derive_key_def md_ok_def derive_loop_chain [OF assms(1)] length_bytes_to_key_chain [OF assms(1)])
  have parse: "length (snd (crypto_parse_key random k ?size)) = ?size" for k
  proof -
    let ?d = "base64_decode (c_string k) (BASE64_SIZE (int (length (c_string k))))"
    have "fst ?d > 0 \<Longrightarrow> fst ?d = int (length (snd ?d))"
      using decode_loop_ret [of "c_string k" 0 0 "[]"] by (simp add: base64_decode_def split: if_splits)
    then show ?thesis using assms(4) size by (simp add: crypto_parse_key_def Let_def case_prod_beta min_def) linarith
  qed
  have kk: "fst kk = ?size" "length (snd kk) = ?size"
    using derive parse
    using assms(1) by (auto simp: kk_def crypto_derive_key_def md_ok_def crypto_parse_key_def Let_def case_prod_beta split: option.splits)
  have "length (write_at 0 (snd kk) (replicate MAX_KEY_LENGTH 0)) = MAX_KEY_LENGTH"
    using kk size by (simp add: MAX_KEY_LENGTH_def)
  then show ?thesis
    using assms(2,3) tag kk(1)
    by (simp add: aead_key_init_def Let_def kk_def [symmetric] case_prod_beta aead_cipher_ok_def AES128GCM_def)
qed

text \<open>\<open>aead_init\<close> always yields a well-formed cipher.  Every name of the table selects its
  own method with the matching key, nonce and tag sizes, no name selects the first method and an
  unknown name falls back to \<open>aes-256-gcm\<close>; the key array is filled within its 64 bytes whether
  the key comes from the password, from base64 or from the random generator.\<close>

theorem aead_init_well_formed:
  assumes "md_ok (lib_md5 lib)" "64 \<le> length random"
  shows "\<exists>ci. aead_init lib random pass key meth = Some ci \<and> aead_cipher_ok ci \<and>
    c_method ci = (case meth of None \<Rightarrow> AES128GCM
      | Some name \<Rightarrow> if name \<in> set supported_aead_ciphers
                     then int (find_method name supported_aead_ciphers 0) else AES256GCM)"
proof -
  have f: "find_method name names m < m + length names \<longleftrightarrow> name \<in> set names" for name names m
  proof (induction names arbitrary: m)
    case (Cons a names)
    then show ?case using Cons.IH [of "Suc m"] by auto
  qed simp
  define m where "m = (case meth of None \<Rightarrow> AES128GCM
      | Some name \<Rightarrow> if name \<in> set supported_aead_ciphers
                     then int (find_method name supported_aead_ciphers 0) else AES256GCM)"
  have l: "int (length supported_aead_ciphers) = AEAD_CIPHER_NUM"
    by (simp add: supported_aead_ciphers_def AEAD_CIPHER_NUM_def)
  have b: "(int (find_method name supported_aead_ciphers 0) \<ge> AEAD_CIPHER_NUM) \<longleftrightarrow> name \<notin> set supported_aead_ciphers" for name
    using f [of name supported_aead_ciphers 0] l by auto
  have "0 \<le> m \<and> m < AEAD_CIPHER_NUM"
  proof (cases meth)
    case (Some name)
    then show ?thesis using b [of name] by (auto simp: m_def AES256GCM_def AEAD_CIPHER_NUM_def)
  qed (simp add: m_def method_defs)
  moreover have "aead_init lib random pass key meth = aead_key_init lib random m pass key"
    by (auto simp: aead_init_def m_def b Let_def split: option.splits)
  ultimately show ?thesis
    using aead_key_init_ok [OF assms(1) _ _ assms(2), of m] by (simp add: m_def)
qed

theorem aead_init_well_formed_witness:
  "\<exists>ci. aead_init lib_demo (replicate 64 3) (cstr ''secret'') None (Some ''chacha20-ietf-poly1305'') = Some ci \<and>
    aead_cipher_ok ci \<and> c_method ci = CHACHA20POLY1305IETF"
  using aead_init_well_formed [of lib_demo "replicate 64 3" "cstr ''secret''" None "Some ''chacha20-ietf-poly1305''"] md_demo_ok
  by (simp add: supported_aead_ciphers_def CHACHA20POLY1305IETF_def)

end
