(* ===== verification/StreamCipher.thy ===== *)
theory StreamCipher
  imports Crypto
begin

text \<open>
  \<open>shadowsocks-libev/src/stream.c\<close>: the legacy stream ciphers.  mbed TLS ciphers are driven
  through an opaque context; the salsa20/chacha20 family is driven through libsodium's
  \<open>xor_ic\<close>, which starts at a 64-byte block, so the code pads the input up to the block
  boundary and drops the padding again.
\<close>

section \<open>Tables\<close>

definition TABLE :: int where "TABLE = 0"
definition RC4 :: int where "RC4 = 1"
definition RC4_MD5 :: int where "RC4_MD5 = 2"
definition SALSA20 :: int where "SALSA20 = 18"
definition CHACHA20 :: int where "CHACHA20 = 19"
definition CHACHA20IETF :: int where "CHACHA20IETF = 20"
definition STREAM_CIPHER_NUM :: int where "STREAM_CIPHER_NUM = 21"
definition SODIUM_BLOCK_SIZE :: nat where "SODIUM_BLOCK_SIZE = 64"
definition STREAM_UNSUPPORTED :: string where "STREAM_UNSUPPORTED = ''unsupported''"

lemmas stream_method_defs = TABLE_def RC4_def RC4_MD5_def SALSA20_def CHACHA20_def CHACHA20IETF_def STREAM_CIPHER_NUM_def

definition supported_stream_ciphers :: "string list" where
  "supported_stream_ciphers = [''table'', ''rc4'', ''rc4-md5'', ''aes-128-cfb'', ''aes-192-cfb'',
     ''aes-256-cfb'', ''aes-128-ctr'', ''aes-192-ctr'', ''aes-256-ctr'', ''bf-cfb'',
     ''camellia-128-cfb'', ''camellia-192-cfb'', ''camellia-256-cfb'', ''cast5-cfb'', ''des-cfb'',
     ''idea-cfb'', ''rc2-cfb'', ''seed-cfb'', ''salsa20'', ''chacha20'', ''chacha20-ietf'']"

definition supported_stream_ciphers_mbedtls :: "string list" where
  "supported_stream_ciphers_mbedtls = [''table'', ''ARC4-128'', ''ARC4-128'', ''AES-128-CFB128'',
     ''AES-192-CFB128'', ''AES-256-CFB128'', ''AES-128-CTR'', ''AES-192-CTR'', ''AES-256-CTR'',
     ''BLOWFISH-CFB64'', ''CAMELLIA-128-CFB128'', ''CAMELLIA-192-CFB128'', ''CAMELLIA-256-CFB128'',
     STREAM_UNSUPPORTED, STREAM_UNSUPPORTED, STREAM_UNSUPPORTED, STREAM_UNSUPPORTED,
     STREAM_UNSUPPORTED, ''salsa20'', ''chacha20'', ''chacha20-ietf'']"

definition supported_stream_ciphers_nonce_size :: "nat list" where
  "supported_stream_ciphers_nonce_size =
     [0, 0, 16, 16, 16, 16, 16, 16, 16, 8, 16, 16, 16, 8, 8, 8, 8, 16, 8, 8, 12]"

definition supported_stream_ciphers_key_size :: "nat list" where
  "supported_stream_ciphers_key_size =
     [0, 16, 16, 16, 24, 32, 16, 24, 32, 16, 16, 24, 32, 16, 8, 16, 16, 16, 32, 32, 32]"

section \<open>Contexts\<close>

text \<open>\<open>crypto_stream_xor_ic\<close>: what is written to the output; the IETF variant has a 32-bit counter.\<close>

definition crypto_stream_xor_ic :: "'e crypto_lib \<Rightarrow> bytes \<Rightarrow> bytes \<Rightarrow> 64 word \<Rightarrow> bytes \<Rightarrow> int \<Rightarrow> bytes" where
  "crypto_stream_xor_ic lib m n ic k method =
    (if method = SALSA20 then lib_stream_xor_ic lib method k n ic m
     else if method = CHACHA20 then lib_stream_xor_ic lib method k n ic m
     else if method = CHACHA20IETF then lib_stream_xor_ic lib method k n (ucast (ucast ic :: 32 word)) m
     else [])"

definition stream_get_cipher_type :: "'e crypto_lib \<Rightarrow> int \<Rightarrow> string option" where
  "stream_get_cipher_type lib method =
    (if method \<le> TABLE \<or> method \<ge> STREAM_CIPHER_NUM then None
     else
       let method = (if method = RC4_MD5 then RC4 else method)
       in if method \<ge> SALSA20 then None
          else
            let mbedtlsname = supported_stream_ciphers_mbedtls ! nat method
            in if mbedtlsname = STREAM_UNSUPPORTED then None
               else if lib_cipher_info lib mbedtlsname then Some mbedtlsname else None)"

definition stream_cipher_ctx_init :: "'e crypto_lib \<Rightarrow> 'e cipher_ctx \<Rightarrow> int \<Rightarrow> 'e cipher_ctx" where
  "stream_cipher_ctx_init lib ctx method =
    (if method \<le> TABLE \<or> method \<ge> STREAM_CIPHER_NUM then ctx
     else if method \<ge> SALSA20 then ctx
     else ctx\<lparr>x_evp := Some (snd (lib_cipher_setup lib (stream_get_cipher_type lib method)))\<rparr>)"

definition stream_ctx_release :: "'e cipher_ctx \<Rightarrow> 'e cipher_ctx" where
  "stream_ctx_release ctx =
    (let ctx = ctx\<lparr>x_chunk := None\<rparr>
     in if c_method (x_cipher ctx) \<ge> SALSA20 then ctx else ctx\<lparr>x_evp := None\<rparr>)"

text \<open>A failing call frees the mbed TLS context and, since \<open>FATAL\<close> returns, goes on with it.\<close>

definition evp_step :: "'e crypto_lib \<Rightarrow> int \<times> 'e \<Rightarrow> 'e" where
  "evp_step lib r = (if fst r \<noteq> 0 then lib_cipher_free lib (snd r) else snd r)"

definition cipher_ctx_set_nonce :: "'e crypto_lib \<Rightarrow> 'e cipher_ctx \<Rightarrow> nat \<Rightarrow> bool \<Rightarrow> 'e cipher_ctx" where
  "cipher_ctx_set_nonce lib ctx nonce_len enc =
    (let cipher = x_cipher ctx;
         nonce = x_nonce ctx
     in if c_method cipher \<ge> SALSA20 then ctx
        else
          let (true_key, nonce_len) =
                (if c_method cipher = RC4_MD5
                 then (md_hash (lib_md5 lib) (take 16 (c_key cipher) @ take 16 nonce), 0)
                 else (c_key cipher, nonce_len))
          in (case x_evp ctx of
                None \<Rightarrow> ctx
              | Some e \<Rightarrow>
                  let e = evp_step lib (lib_cipher_setkey lib e (take (c_key_len cipher) true_key) (c_key_len cipher * 8) enc);
                      e = evp_step lib (lib_cipher_set_iv lib e (take nonce_len nonce));
                      e = evp_step lib (lib_cipher_reset lib e)
                  in ctx\<lparr>x_evp := Some e\<rparr>))"

definition cipher_ctx_update :: "'e crypto_lib \<Rightarrow> 'e cipher_ctx \<Rightarrow> bytes \<Rightarrow> int \<times> bytes \<times> 'e cipher_ctx" where
  "cipher_ctx_update lib ctx input =
    (case x_evp ctx of
       None \<Rightarrow> (-1, [], ctx)
     | Some e \<Rightarrow>
         let (err, out, e) = lib_cipher_update lib e input
         in (err, out, ctx\<lparr>x_evp := Some e\<rparr>))"

definition stream_ctx_zero :: "cipher \<Rightarrow> 'e cipher_ctx" where
  "stream_ctx_zero cipher = \<lparr>x_init = 0, x_counter = 0, x_evp = None, x_cipher = cipher, x_chunk = None,
     x_salt = replicate MAX_KEY_LENGTH 0, x_skey = replicate MAX_KEY_LENGTH 0,
     x_nonce = replicate MAX_NONCE_LENGTH 0\<rparr>"

definition stream_ctx_init :: "'e crypto_lib \<Rightarrow> bytes \<Rightarrow> cipher \<Rightarrow> bool \<Rightarrow> 'e cipher_ctx" where
  "stream_ctx_init lib random cipher enc =
    (let ctx = stream_cipher_ctx_init lib (stream_ctx_zero cipher) (c_method cipher)
     in if enc then ctx\<lparr>x_nonce := write_at 0 (take (c_nonce_len cipher) random) (x_nonce ctx)\<rparr> else ctx)"

section \<open>UDP: whole packets\<close>

definition stream_encrypt_all ::
  "'e crypto_lib \<Rightarrow> bytes \<Rightarrow> crypto_globals \<Rightarrow> buffer \<Rightarrow> cipher \<Rightarrow> nat
    \<Rightarrow> crypto_ret \<times> crypto_globals \<times> buffer" where
  "stream_encrypt_all lib random g plaintext cipher capacity =
    (let ctx = stream_ctx_init lib random cipher True;
         nonce_len = c_nonce_len cipher;
         tmp = brealloc (g_stream_enc_all g) (nonce_len + blen plaintext) capacity;
         tmp = tmp\<lparr>blen := blen plaintext\<rparr>;
         ctx = cipher_ctx_set_nonce lib ctx nonce_len True;
         nonce = take nonce_len (x_nonce ctx);
         tmp = tmp\<lparr>bdata := write_at 0 nonce (bdata tmp)\<rparr>;
         (err, tmp) =
           (if c_method cipher \<ge> SALSA20
            then (0, tmp\<lparr>bdata := write_at nonce_len
                        (crypto_stream_xor_ic lib (bcontent plaintext) nonce 0 (take (c_key_len cipher) (c_key cipher))
                           (c_method cipher)) (bdata tmp)\<rparr>)
            else
              let (err, out, ctx) = cipher_ctx_update lib ctx (bcontent plaintext)
              in (err, tmp\<lparr>bdata := write_at nonce_len out (bdata tmp), blen := length out\<rparr>));
         g = g\<lparr>g_stream_enc_all := tmp\<rparr>
     in if err \<noteq> 0 then (CRYPTO_ERROR, g, plaintext)
        else (CRYPTO_OK, g, bset plaintext (take (nonce_len + blen tmp) (bdata tmp)) capacity))"

definition stream_decrypt_all ::
  "'e crypto_lib \<Rightarrow> bool \<Rightarrow> crypto_globals \<Rightarrow> buffer \<Rightarrow> cipher \<Rightarrow> nat
    \<Rightarrow> crypto_ret \<times> crypto_globals \<times> buffer" where
  "stream_decrypt_all lib calloc_ok g ciphertext cipher capacity =
    (let nonce_len = c_nonce_len cipher
     in if blen ciphertext \<le> nonce_len then (CRYPTO_ERROR, g, ciphertext)
        else
          let ctx = stream_ctx_init lib [] cipher False;
              tmp = brealloc (g_stream_dec_all g) (blen ciphertext) capacity;
              tmp = tmp\<lparr>blen := blen ciphertext - nonce_len\<rparr>;
              g = g\<lparr>g_stream_dec_all := tmp\<rparr>;
              ctx = ctx\<lparr>x_nonce := write_at 0 (take nonce_len (bdata ciphertext)) (x_nonce ctx)\<rparr>;
              nonce = take nonce_len (x_nonce ctx)
          in (case ppbloom_check (g_pp g) nonce of
                None \<Rightarrow> (ABORTED, g, ciphertext)
              | Some seen \<Rightarrow>
             if seen = 1 then (CRYPTO_ERROR, g, ciphertext)
             else
               let ctx = cipher_ctx_set_nonce lib ctx nonce_len False;
                   body = drop nonce_len (bcontent ciphertext);
                   (err, tmp) =
                     (if c_method cipher \<ge> SALSA20
                      then (0, tmp\<lparr>bdata := write_at 0
                                  (crypto_stream_xor_ic lib body nonce 0 (take (c_key_len cipher) (c_key cipher))
                                     (c_method cipher)) (bdata tmp)\<rparr>)
                      else
                        let (err, out, ctx) = cipher_ctx_update lib ctx body
                        in (err, tmp\<lparr>bdata := write_at 0 out (bdata tmp), blen := length out\<rparr>));
                   g = g\<lparr>g_stream_dec_all := tmp\<rparr>
               in if err \<noteq> 0 then (CRYPTO_ERROR, g, ciphertext)
                  else
                    (case ppbloom_add calloc_ok (g_pp g) nonce of
                       None \<Rightarrow> (ABORTED, g, ciphertext)
                     | Some (_, pp) \<Rightarrow>
                         (CRYPTO_OK, g\<lparr>g_pp := pp\<rparr>, bset ciphertext (take (blen tmp) (bdata tmp)) capacity))))"

section \<open>TCP: streams\<close>

text \<open>\<open>brealloc\<close>, \<open>memmove\<close> and \<open>sodium_memzero\<close> that put \<open>padding\<close> zero bytes before a buffer's
  content; \<open>len\<close> is not changed.\<close>

definition pad_front :: "buffer \<Rightarrow> nat \<Rightarrow> nat \<Rightarrow> buffer" where
  "pad_front b padding capacity =
    (if padding \<noteq> 0
     then
       let b' = brealloc b (blen b + padding) capacity;
           b' = b'\<lparr>bdata := write_at padding (take (blen b) (bdata b')) (bdata b')\<rparr>
       in b'\<lparr>bdata := write_at 0 (replicate padding 0) (bdata b')\<rparr>
     else b)"

definition stream_encrypt ::
  "'e crypto_lib \<Rightarrow> crypto_globals \<Rightarrow> buffer \<Rightarrow> 'e cipher_ctx \<Rightarrow> nat
    \<Rightarrow> crypto_ret \<times> crypto_globals \<times> buffer \<times> 'e cipher_ctx" where
  "stream_encrypt lib g plaintext ctx capacity =
    (let cipher = x_cipher ctx;
         nonce_len = (if x_init ctx = 0 then c_nonce_len cipher else 0);
         tmp = brealloc (g_stream_enc g) (nonce_len + blen plaintext) capacity;
         tmp = tmp\<lparr>blen := blen plaintext\<rparr>;
         (tmp, ctx) = (if x_init ctx = 0
           then (tmp\<lparr>bdata := write_at 0 (take nonce_len (x_nonce ctx)) (bdata tmp)\<rparr>,
                 (cipher_ctx_set_nonce lib ctx nonce_len True)\<lparr>x_counter := 0, x_init := 1\<rparr>)
           else (tmp, ctx))
     in if c_method cipher \<ge> SALSA20
        then
          let padding = unat (x_counter ctx) mod SODIUM_BLOCK_SIZE;
              tmp = brealloc tmp (nonce_len + (padding + blen tmp) * 2) capacity;
              plaintext = pad_front plaintext padding capacity;
              out = crypto_stream_xor_ic lib (take (blen plaintext + padding) (bdata plaintext))
                      (take (c_nonce_len cipher) (x_nonce ctx)) (x_counter ctx div word_of_nat SODIUM_BLOCK_SIZE)
                      (take (c_key_len cipher) (c_key cipher)) (c_method cipher);
              tmp = tmp\<lparr>bdata := write_at nonce_len out (bdata tmp)\<rparr>;
              ctx = ctx\<lparr>x_counter := x_counter ctx + word_of_nat (blen plaintext)\<rparr>;
              tmp = (if padding \<noteq> 0
                     then tmp\<lparr>bdata := write_at nonce_len (take (blen tmp) (drop (nonce_len + padding) (bdata tmp)))
                                 (bdata tmp)\<rparr>
                     else tmp);
              g = g\<lparr>g_stream_enc := tmp\<rparr>
          in (CRYPTO_OK, g, bset plaintext (take (nonce_len + blen tmp) (bdata tmp)) capacity, ctx)
        else
          let (err, out, ctx) = cipher_ctx_update lib ctx (bcontent plaintext);
              tmp = tmp\<lparr>bdata := write_at nonce_len out (bdata tmp), blen := length out\<rparr>;
              g = g\<lparr>g_stream_enc := tmp\<rparr>
          in if err \<noteq> 0 then (CRYPTO_ERROR, g, plaintext, ctx)
             else (CRYPTO_OK, g, bset plaintext (take (nonce_len + blen tmp) (bdata tmp)) capacity, ctx))"

text \<open>The second half of \<open>stream_decrypt\<close>, once the context is initialised; \<open>plen\<close> is
  \<open>plaintext->len\<close>.\<close>

definition stream_decrypt_body ::
  "'e crypto_lib \<Rightarrow> bool \<Rightarrow> crypto_globals \<Rightarrow> buffer \<Rightarrow> 'e cipher_ctx \<Rightarrow> nat \<Rightarrow> nat
    \<Rightarrow> crypto_ret \<times> crypto_globals \<times> buffer \<times> 'e cipher_ctx" where
  "stream_decrypt_body lib calloc_ok g ciphertext ctx plen capacity =
    (let cipher = x_cipher ctx;
         tmp = (g_stream_dec g)\<lparr>blen := plen\<rparr>
     in if blen ciphertext = 0 then (CRYPTO_NEED_MORE, g\<lparr>g_stream_dec := tmp\<rparr>, ciphertext, ctx)
        else
          let (err, tmp, ciphertext, ctx) =
                (if c_method cipher \<ge> SALSA20
                 then
                   let padding = unat (x_counter ctx) mod SODIUM_BLOCK_SIZE;
                       tmp = brealloc tmp ((blen tmp + padding) * 2) capacity;
                       ciphertext = pad_front ciphertext padding capacity;
                       out = crypto_stream_xor_ic lib (take (blen ciphertext + padding) (bdata ciphertext))
                               (take (c_nonce_len cipher) (x_nonce ctx)) (x_counter ctx div word_of_nat SODIUM_BLOCK_SIZE)
                               (take (c_key_len cipher) (c_key cipher)) (c_method cipher);
                       tmp = tmp\<lparr>bdata := write_at 0 out (bdata tmp)\<rparr>;
                       ctx = ctx\<lparr>x_counter := x_counter ctx + word_of_nat (blen ciphertext)\<rparr>;
                       tmp = (if padding \<noteq> 0
                              then tmp\<lparr>bdata := write_at 0 (take (blen tmp) (drop padding (bdata tmp))) (bdata tmp)\<rparr>
                              else tmp)
                   in (0, tmp, ciphertext, ctx)
                 else
                   let (err, out, ctx) = cipher_ctx_update lib ctx (bcontent ciphertext)
                   in (err, tmp\<lparr>bdata := write_at 0 out (bdata tmp), blen := length out\<rparr>, ciphertext, ctx));
              g = g\<lparr>g_stream_dec := tmp\<rparr>
          in if err \<noteq> 0 then (CRYPTO_ERROR, g, ciphertext, ctx)
             else
               let ciphertext = bset ciphertext (take (blen tmp) (bdata tmp)) capacity
               in if x_init ctx = 1 \<and> c_method cipher \<ge> RC4_MD5
                  then (case ppbloom_add calloc_ok (g_pp g) (take (c_nonce_len cipher) (x_nonce ctx)) of
                          None \<Rightarrow> (ABORTED, g, ciphertext, ctx)
                        | Some (_, pp) \<Rightarrow> (CRYPTO_OK, g\<lparr>g_pp := pp\<rparr>, ciphertext, ctx\<lparr>x_init := 2\<rparr>))
                  else (CRYPTO_OK, g, ciphertext, ctx))"

definition stream_decrypt ::
  "'e crypto_lib \<Rightarrow> bool \<Rightarrow> crypto_globals \<Rightarrow> buffer \<Rightarrow> 'e cipher_ctx \<Rightarrow> nat
    \<Rightarrow> crypto_ret \<times> crypto_globals \<times> buffer \<times> 'e cipher_ctx" where
  "stream_decrypt lib calloc_ok g ciphertext ctx capacity =
    (let cipher = x_cipher ctx;
         nonce_len = c_nonce_len cipher;
         tmp = brealloc (g_stream_dec g) (blen ciphertext) capacity;
         plen = blen ciphertext;
         g = g\<lparr>g_stream_dec := tmp\<lparr>blen := plen\<rparr>\<rparr>
     in if x_init ctx = 0
        then
          let chunk = (case x_chunk ctx of None \<Rightarrow> balloc nonce_len | Some ch \<Rightarrow> ch);
              left_len = min (nonce_len - blen chunk) (blen ciphertext);
              (chunk, ciphertext) =
                (if left_len > 0
                 then (chunk\<lparr>bdata := write_at (blen chunk) (take left_len (bdata ciphertext)) (bdata chunk),
                             blen := blen chunk + left_len\<rparr>,
                       ciphertext\<lparr>bdata := write_at 0 (take (blen ciphertext - left_len) (drop left_len (bdata ciphertext)))
                                    (bdata ciphertext),
                                  blen := blen ciphertext - left_len\<rparr>)
                 else (chunk, ciphertext));
              ctx = ctx\<lparr>x_chunk := Some chunk\<rparr>
          in if blen chunk < nonce_len then (CRYPTO_NEED_MORE, g, ciphertext, ctx)
             else
               let plen = plen - left_len;
                   ctx = ctx\<lparr>x_nonce := write_at 0 (take nonce_len (bdata chunk)) (x_nonce ctx)\<rparr>;
                   ctx = (cipher_ctx_set_nonce lib ctx nonce_len False)\<lparr>x_counter := 0, x_init := 1\<rparr>
               in (case (if c_method cipher \<ge> RC4_MD5 then ppbloom_check (g_pp g) (take nonce_len (x_nonce ctx)) else Some 0) of
                     None \<Rightarrow> (ABORTED, g, ciphertext, ctx)
                   | Some seen \<Rightarrow>
                       if seen = 1 then (CRYPTO_ERROR, g\<lparr>g_stream_dec := tmp\<lparr>blen := plen\<rparr>\<rparr>, ciphertext, ctx)
                       else stream_decrypt_body lib calloc_ok g ciphertext ctx plen capacity)
        else stream_decrypt_body lib calloc_ok g ciphertext ctx plen capacity)"

section \<open>Keys\<close>

text \<open>\<open>KeyCrash\<close>: the cipher is unknown to mbed TLS, \<open>FATAL\<close> returns, and \<open>cipher_key_size\<close>
  dereferences the null \<open>info\<close> pointer.\<close>

datatype key_init_result = KeyNull | KeyCrash | KeyOk cipher

text \<open>\<open>cipher->info\<close>: the key and IV sizes, in bytes, of \<open>cipher_key_size\<close> and
  \<open>cipher_nonce_size\<close>.\<close>

definition stream_cipher_info :: "'e crypto_lib \<Rightarrow> int \<Rightarrow> (nat \<times> nat) option" where
  "stream_cipher_info lib method =
    (if method = SALSA20 \<or> method = CHACHA20 \<or> method = CHACHA20IETF
     then Some (supported_stream_ciphers_key_size ! nat method * 8 div 8, supported_stream_ciphers_nonce_size ! nat method)
     else (case stream_get_cipher_type lib method of
             None \<Rightarrow> None
           | Some name \<Rightarrow> Some (fst (lib_cipher_sizes lib name) div 8, snd (lib_cipher_sizes lib name))))"

definition stream_key_init :: "'e crypto_lib \<Rightarrow> bytes \<Rightarrow> int \<Rightarrow> bytes \<Rightarrow> bytes option \<Rightarrow> key_init_result" where
  "stream_key_init lib random method pass key =
    (if method \<le> TABLE \<or> method \<ge> STREAM_CIPHER_NUM then KeyNull
     else (case stream_cipher_info lib method of
             None \<Rightarrow> KeyCrash
           | Some (key_size, iv_size) \<Rightarrow>
               let (key_len, k) = (case key of
                     Some key \<Rightarrow> crypto_parse_key random key key_size
                   | None \<Rightarrow> crypto_derive_key lib pass key_size)
               in KeyOk \<lparr>c_method = method, c_skey = False, c_info = True,
                    c_nonce_len = (if method = RC4_MD5 then 16 else iv_size),
                    c_key_len = key_len, c_tag_len = 0,
                    c_key = write_at 0 k (replicate MAX_KEY_LENGTH 0)\<rparr>))"

fun find_stream_method :: "string \<Rightarrow> string list \<Rightarrow> nat \<Rightarrow> nat" where
  "find_stream_method method [] m = m"
| "find_stream_method method (name # names) m =
    (if method = name then m else find_stream_method method names (m + 1))"

definition stream_init :: "'e crypto_lib \<Rightarrow> bytes \<Rightarrow> bytes \<Rightarrow> bytes option \<Rightarrow> string option \<Rightarrow> key_init_result" where
  "stream_init lib random pass key method =
    (let m = (case method of
        None \<Rightarrow> TABLE
      | Some name \<Rightarrow>
          let m = int (find_stream_method name supported_stream_ciphers 0)
          in if m \<ge> STREAM_CIPHER_NUM then RC4_MD5 else m)
     in if m = TABLE then KeyNull else stream_key_init lib random m pass key)"

section \<open>The salsa20/chacha20 family\<close>

text \<open>XOR with a keystream from position \<open>pos\<close> on.\<close>

definition xor_at :: "(nat \<Rightarrow> byte) \<Rightarrow> nat \<Rightarrow> bytes \<Rightarrow> bytes" where
  "xor_at ks pos m = map2 (\<lambda>x i. x XOR ks i) m [pos..<pos + length m]"

lemma length_xor_at [simp]: "length (xor_at ks pos m) = length m"
  by (simp add: xor_at_def)

lemma nth_xor_at: "i < length m \<Longrightarrow> xor_at ks pos m ! i = m ! i XOR ks (pos + i)"
  by (simp add: xor_at_def)

lemma xor_at_xor_at [simp]: "xor_at ks pos (xor_at ks pos m) = m"
  by (rule nth_equalityI) (simp_all add: nth_xor_at ac_simps)

lemma xor_at_append: "xor_at ks pos (m @ m') = xor_at ks pos m @ xor_at ks (pos + length m) m'"
  by (rule nth_equalityI) (auto simp: nth_xor_at nth_append)

text \<open>Documented behaviour of libsodium's \<open>crypto_stream_*_xor_ic\<close>: it XORs with the keystream of
  key and nonce from byte \<open>64 * ic\<close> on, up to the 2^38 bytes of a 32-bit block counter.\<close>

definition xor_ic_ok :: "'e crypto_lib \<Rightarrow> int \<Rightarrow> bytes \<Rightarrow> bytes \<Rightarrow> (nat \<Rightarrow> byte) \<Rightarrow> bool" where
  "xor_ic_ok lib method k n ks \<longleftrightarrow>
    (\<forall>ic m. 64 * unat ic + length m \<le> 2 ^ 38 \<longrightarrow> lib_stream_xor_ic lib method k n ic m = xor_at ks (64 * unat ic) m)"

definition salsa_cipher_ok :: "cipher \<Rightarrow> bool" where
  "salsa_cipher_ok ci \<longleftrightarrow> c_method ci \<in> {SALSA20, CHACHA20, CHACHA20IETF} \<and> 0 < c_nonce_len ci
     \<and> c_nonce_len ci \<le> MAX_NONCE_LENGTH"

lemma salsa_method: "salsa_cipher_ok ci \<Longrightarrow> c_method ci \<ge> SALSA20" "salsa_cipher_ok ci \<Longrightarrow> c_method ci \<ge> RC4_MD5"
  by (auto simp: salsa_cipher_ok_def stream_method_defs)

lemma salsa_set_nonce [simp]: "salsa_cipher_ok (x_cipher ctx) \<Longrightarrow> cipher_ctx_set_nonce lib ctx n enc = ctx"
  by (simp add: cipher_ctx_set_nonce_def Let_def salsa_method)

lemma crypto_stream_xor_ic_eq:
  assumes ok: "xor_ic_ok lib (c_method ci) k n ks" and ci: "salsa_cipher_ok ci" and l: "64 * b + length m \<le> 2 ^ 38" "0 < length m"
  shows "crypto_stream_xor_ic lib m n (word_of_nat b) k (c_method ci) = xor_at ks (64 * b) m"
proof -
  have "64 * b < 2 ^ 38" using l by linarith
  then have b: "b < 2 ^ 32" by simp
  have u: "unat (word_of_nat b :: 64 word) = b"
    using b by (simp add: unsigned_of_nat take_bit_nat_eq_self)
  have c: "(ucast (ucast (word_of_nat b :: 64 word) :: 32 word) :: 64 word) = word_of_nat b"
    using b by (simp add: unsigned_of_nat take_bit_nat_eq_self)
  have e: "lib_stream_xor_ic lib (c_method ci) k n (word_of_nat b) m = xor_at ks (64 * b) m"
    using ok l by (auto simp: xor_ic_ok_def u)
  have "c_method ci = SALSA20 \<or> c_method ci = CHACHA20 \<or> c_method ci = CHACHA20IETF"
    using ci by (simp add: salsa_cipher_ok_def)
  then show ?thesis using e c by (auto simp: crypto_stream_xor_ic_def)
qed

lemma pad_front_ok:
  assumes "buffer_ok b"
  shows "buffer_ok (pad_front b pad c)" "blen (pad_front b pad c) = blen b"
    "take (blen b + pad) (bdata (pad_front b pad c)) = replicate pad 0 @ bcontent b"
proof -
  define d where "d = brealloc b (blen b + pad) c"
  have d: "buffer_ok d" "blen d = blen b" "blen b + pad \<le> length (bdata d)" "take (blen b) (bdata d) = bcontent b"
    using assms brealloc_fits [of b "blen b + pad" c] by (simp_all add: d_def bcontent_def)
  have e: "pad \<noteq> 0 \<Longrightarrow> pad_front b pad c =
      d\<lparr>bdata := write_at 0 (replicate pad 0) (write_at pad (bcontent b) (bdata d))\<rparr>"
    using d by (simp add: pad_front_def Let_def d_def [symmetric])
  have l: "length (bcontent b) = blen b" using assms by simp
  show "buffer_ok (pad_front b pad c)" "blen (pad_front b pad c) = blen b"
    using d assms l e by (cases "pad = 0"; simp add: pad_front_def [of b 0] buffer_ok_def)+
  show "take (blen b + pad) (bdata (pad_front b pad c)) = replicate pad 0 @ bcontent b"
    using d l e by (cases "pad = 0"; simp add: pad_front_def [of b 0] bcontent_def write_at_def)
qed

text \<open>The padding trick computes the keystream XOR at the running position.\<close>

lemma padded_xor:
  assumes ok: "xor_ic_ok lib (c_method ci) k n ks" and ci: "salsa_cipher_ok ci"
    and l: "pos + length p \<le> 2 ^ 38" "0 < length p"
  shows "\<exists>z. crypto_stream_xor_ic lib (replicate (pos mod 64) 0 @ p) n (word_of_nat (pos div 64)) k (c_method ci) =
    z @ xor_at ks pos p \<and> length z = pos mod 64"
proof -
  have pos: "64 * (pos div 64) + pos mod 64 = pos" by simp
  have "crypto_stream_xor_ic lib (replicate (pos mod 64) 0 @ p) n (word_of_nat (pos div 64)) k (c_method ci) =
      xor_at ks (64 * (pos div 64)) (replicate (pos mod 64) 0 @ p)"
    using l pos by (intro crypto_stream_xor_ic_eq [OF ok ci]) simp_all
  also have "\<dots> = xor_at ks (64 * (pos div 64)) (replicate (pos mod 64) 0) @ xor_at ks pos p"
    by (simp add: xor_at_append)
  finally show ?thesis by auto
qed

lemma counter_facts:
  assumes "pos \<le> 2 ^ 38"
  shows "unat (word_of_nat pos :: 64 word) mod SODIUM_BLOCK_SIZE = pos mod 64"
    "(word_of_nat pos :: 64 word) div word_of_nat SODIUM_BLOCK_SIZE = word_of_nat (pos div 64)"
proof -
  have u: "unat (word_of_nat pos :: 64 word) = pos"
    using assms by (simp add: unsigned_of_nat take_bit_nat_eq_self)
  then show "unat (word_of_nat pos :: 64 word) mod SODIUM_BLOCK_SIZE = pos mod 64"
    by (simp add: SODIUM_BLOCK_SIZE_def)
  have "unat ((word_of_nat pos :: 64 word) div 64) = pos div 64"
    using u by (simp add: unat_div)
  moreover have "unat (word_of_nat (pos div 64) :: 64 word) = pos div 64"
    using assms by (simp add: unsigned_of_nat take_bit_nat_eq_self)
  ultimately show "(word_of_nat pos :: 64 word) div word_of_nat SODIUM_BLOCK_SIZE = word_of_nat (pos div 64)"
    by (simp add: SODIUM_BLOCK_SIZE_def word_unat_eq_iff)
qed


lemma globals_ok_stream [simp]:
  "globals_ok g \<Longrightarrow> buffer_ok b \<Longrightarrow> globals_ok (g\<lparr>g_stream_enc := b\<rparr>)"
  "globals_ok g \<Longrightarrow> buffer_ok b \<Longrightarrow> globals_ok (g\<lparr>g_stream_dec := b\<rparr>)"
  "globals_ok g \<Longrightarrow> buffer_ok b \<Longrightarrow> globals_ok (g\<lparr>g_stream_enc_all := b\<rparr>)"
  "globals_ok g \<Longrightarrow> buffer_ok b \<Longrightarrow> globals_ok (g\<lparr>g_stream_dec_all := b\<rparr>)"
  "globals_ok g \<Longrightarrow> pp_inv pp \<Longrightarrow> globals_ok (g\<lparr>g_pp := pp\<rparr>)"
  by (simp_all add: globals_ok_def)

text \<open>Writing \<open>z @ x\<close> at \<open>off\<close> and moving the tail down by \<open>length z\<close> leaves \<open>x\<close> at \<open>off\<close>.\<close>

lemma write_drop_pad:
  assumes "off + length z + length x \<le> length mem" "n = length x" "k = length z"
  shows "take (off + n) (if k \<noteq> 0 then write_at off (take n (drop (off + k) (write_at off (z @ x) mem))) (write_at off (z @ x) mem)
            else write_at off (z @ x) mem) = take off mem @ x"
    and "length (if k \<noteq> 0 then write_at off (take n (drop (off + k) (write_at off (z @ x) mem))) (write_at off (z @ x) mem)
            else write_at off (z @ x) mem) = length mem"
proof -
  let ?w = "write_at off (z @ x) mem"
  have l: "length ?w = length mem" using assms(1) by simp
  have d: "take n (drop (off + k) ?w) = x"
    using assms by (simp add: write_at_def)
  show "take (off + n) (if k \<noteq> 0 then write_at off (take n (drop (off + k) ?w)) ?w else ?w) = take off mem @ x"
    using assms d l by (auto simp: take_write_at_end)
  show "length (if k \<noteq> 0 then write_at off (take n (drop (off + k) ?w)) ?w else ?w) = length mem"
    using assms d l by simp
qed

text \<open>One call of \<open>stream_encrypt\<close>: the nonce on the first call, then the payload XORed with the
  keystream at the running position.\<close>

lemma stream_encrypt_salsa:
  assumes ok: "xor_ic_ok lib (c_method ci) (take (c_key_len ci) (c_key ci)) nonce ks" and ci: "salsa_cipher_ok ci"
    and x: "x_cipher ctx = ci" "take (c_nonce_len ci) (x_nonce ctx) = nonce" "length nonce = c_nonce_len ci"
    and pos: "if x_init ctx = 0 then pos = 0 else x_counter ctx = word_of_nat pos"
    and g: "globals_ok g" and b: "buffer_ok b" and l: "pos + blen b \<le> 2 ^ 38" "0 < blen b"
  shows "\<exists>g' b' ctx'. stream_encrypt lib g b ctx capacity = (CRYPTO_OK, g', b', ctx') \<and>
    bcontent b' = (if x_init ctx = 0 then nonce else []) @ xor_at ks pos (bcontent b) \<and>
    globals_ok g' \<and> buffer_ok b' \<and> x_cipher ctx' = ci \<and> take (c_nonce_len ci) (x_nonce ctx') = nonce \<and>
    x_init ctx' \<noteq> 0 \<and> x_counter ctx' = word_of_nat (pos + blen b)"
proof -
  define nl where "nl = (if x_init ctx = 0 then c_nonce_len ci else 0)"
  define ctx1 where "ctx1 = (if x_init ctx = 0 then ctx\<lparr>x_counter := 0, x_init := 1\<rparr> else ctx)"
  have c1: "x_counter ctx1 = word_of_nat pos" "x_cipher ctx1 = ci" "x_nonce ctx1 = x_nonce ctx" "x_init ctx1 \<noteq> 0"
    using pos x(1) by (auto simp: ctx1_def split: if_splits)
  define pad where "pad = pos mod 64"
  have gb: "buffer_ok (g_stream_enc g)" using g by (simp add: globals_ok_def)
  define t0 where "t0 = (brealloc (g_stream_enc g) (nl + blen b) capacity)\<lparr>blen := blen b\<rparr>"
  define t1 where "t1 = (if x_init ctx = 0 then t0\<lparr>bdata := write_at 0 nonce (bdata t0)\<rparr> else t0)"
  have t0: "buffer_ok t0" "blen t0 = blen b" "nl + blen b \<le> length (bdata t0)"
    using gb brealloc_ok [OF gb, of "nl + blen b" capacity] brealloc_cap [of "g_stream_enc g" "nl + blen b" capacity]
    by (auto simp: t0_def buffer_ok_def)
  have t1: "buffer_ok t1" "blen t1 = blen b" "take nl (bdata t1) = (if x_init ctx = 0 then nonce else [])"
      "nl + blen b \<le> length (bdata t1)"
    using t0 x(3) by (auto simp: t1_def nl_def buffer_ok_def write_at_0)
  define t2 where "t2 = brealloc t1 (nl + (pad + blen t1) * 2) capacity"
  have t2: "buffer_ok t2" "blen t2 = blen b" "nl + pad + blen b \<le> length (bdata t2)"
      "take nl (bdata t2) = (if x_init ctx = 0 then nonce else [])"
  proof -
    have "nl + (pad + blen t1) * 2 \<le> length (bdata t2)" using t1(1) by (simp add: t2_def)
    then show "nl + pad + blen b \<le> length (bdata t2)" using t1(2) by simp
    show "buffer_ok t2" "blen t2 = blen b" using t1 by (simp_all add: t2_def)
    show "take nl (bdata t2) = (if x_init ctx = 0 then nonce else [])"
    proof -
      have "take nl (bdata t2) = take nl (bdata t1)"
        using t1(1,4) by (simp add: t2_def brealloc_def Let_def buffer_ok_def)
      then show ?thesis using t1(3) by simp
    qed
  qed
  note pf = pad_front_ok [OF b, of pad capacity]
  have bl: "length (bcontent b) = blen b" using b by simp
  obtain z where z: "crypto_stream_xor_ic lib (replicate pad 0 @ bcontent b) nonce (word_of_nat (pos div 64))
      (take (c_key_len ci) (c_key ci)) (c_method ci) = z @ xor_at ks pos (bcontent b)" "length z = pad"
    using padded_xor [OF ok ci, of pos "bcontent b"] l bl unfolding pad_def by auto
  define mem where "mem = (if pad \<noteq> 0 then write_at nl (take (blen b) (drop (nl + pad) (write_at nl (z @ xor_at ks pos (bcontent b)) (bdata t2))))
      (write_at nl (z @ xor_at ks pos (bcontent b)) (bdata t2)) else write_at nl (z @ xor_at ks pos (bcontent b)) (bdata t2))"
  have m: "take (nl + blen b) mem = (if x_init ctx = 0 then nonce else []) @ xor_at ks pos (bcontent b)"
      "length mem = length (bdata t2)"
  proof -
    have f: "nl + length z + length (xor_at ks pos (bcontent b)) \<le> length (bdata t2)"
      using t2(3) z(2) bl by simp
    have n: "blen b = length (xor_at ks pos (bcontent b))" using bl by simp
    show "take (nl + blen b) mem = (if x_init ctx = 0 then nonce else []) @ xor_at ks pos (bcontent b)"
      unfolding mem_def write_drop_pad(1) [OF f n z(2) [symmetric]] t2(4) ..
    show "length mem = length (bdata t2)"
      unfolding mem_def by (rule write_drop_pad(2) [OF f n z(2) [symmetric]])
  qed
  have cf: "unat (x_counter ctx1) mod SODIUM_BLOCK_SIZE = pad"
      "x_counter ctx1 div word_of_nat SODIUM_BLOCK_SIZE = word_of_nat (pos div 64)"
    using counter_facts [of pos] l c1(1) by (simp_all add: pad_def)
  have ms: "c_method ci \<ge> SALSA20" using ci by (rule salsa_method)
  have e: "stream_encrypt lib g b ctx capacity =
      (CRYPTO_OK, g\<lparr>g_stream_enc := t2\<lparr>bdata := mem\<rparr>\<rparr>,
       bset (pad_front b pad capacity) (take (nl + blen b) mem) capacity,
       ctx1\<lparr>x_counter := x_counter ctx1 + word_of_nat (blen b)\<rparr>)"
  proof -
    have pr: "(if x_init ctx = 0
           then (t0\<lparr>bdata := write_at 0 (take nl (x_nonce ctx)) (bdata t0)\<rparr>,
                 (cipher_ctx_set_nonce lib ctx nl True)\<lparr>x_counter := 0, x_init := 1\<rparr>)
           else (t0, ctx)) = (t1, ctx1)"
      using ci x by (simp add: t1_def ctx1_def nl_def)
    show ?thesis
      by (simp only: stream_encrypt_def Let_def x(1) nl_def [symmetric] t0_def [symmetric] pr prod.case cf ms if_True
            t2_def [symmetric] c1(2,3) x(2) pf(2,3) z(1))
         (simp add: mem_def t2(2) cong: if_cong)
  qed
  have "buffer_ok (t2\<lparr>bdata := mem\<rparr>)" using m(2) t2(1) by (simp add: buffer_ok_def)
  then have "globals_ok (g\<lparr>g_stream_enc := t2\<lparr>bdata := mem\<rparr>\<rparr>)" using g by simp
  then show ?thesis
    unfolding e using c1(4) by (simp add: m(1) c1(1-3) x(2) pf(1))
qed


text \<open>A decrypting call once the nonce is known.\<close>

lemma stream_decrypt_body_salsa:
  assumes ok: "xor_ic_ok lib (c_method ci) (take (c_key_len ci) (c_key ci)) nonce ks" and ci: "salsa_cipher_ok ci"
    and x: "x_cipher ctx = ci" "take (c_nonce_len ci) (x_nonce ctx) = nonce" "x_counter ctx = word_of_nat pos" "x_init ctx \<in> {1, 2}"
    and g: "globals_ok g" and b: "buffer_ok b" and l: "pos + blen b \<le> 2 ^ 38" and t: "blen b \<le> length (bdata (g_stream_dec g))"
  shows "\<exists>ret g' b' ctx'. stream_decrypt_body lib True g b ctx (blen b) capacity = (ret, g', b', ctx') \<and>
    ret = (if blen b = 0 then CRYPTO_NEED_MORE else CRYPTO_OK) \<and>
    (ret = CRYPTO_OK \<longrightarrow> bcontent b' = xor_at ks pos (bcontent b)) \<and>
    globals_ok g' \<and> x_cipher ctx' = ci \<and> take (c_nonce_len ci) (x_nonce ctx') = nonce \<and>
    x_init ctx' \<in> {1, 2} \<and> x_counter ctx' = word_of_nat (pos + blen b)"
proof (cases "blen b = 0")
  case True
  have "buffer_ok ((g_stream_dec g)\<lparr>blen := 0\<rparr>)" using g by (simp add: globals_ok_def buffer_ok_def)
  then show ?thesis
    using True x g by (simp add: stream_decrypt_body_def Let_def)
next
  case False
  define pad where "pad = pos mod 64"
  have gb: "buffer_ok (g_stream_dec g)" "pp_inv (g_pp g)" using g by (simp_all add: globals_ok_def)
  define t1 where "t1 = (g_stream_dec g)\<lparr>blen := blen b\<rparr>"
  have t1: "buffer_ok t1" "blen t1 = blen b" using gb t by (simp_all add: t1_def buffer_ok_def)
  define t2 where "t2 = brealloc t1 ((blen t1 + pad) * 2) capacity"
  have t2: "buffer_ok t2" "blen t2 = blen b" "0 + pad + blen b \<le> length (bdata t2)"
  proof -
    have "(blen t1 + pad) * 2 \<le> length (bdata t2)" using t1(1) by (simp add: t2_def)
    then show "0 + pad + blen b \<le> length (bdata t2)" using t1(2) by simp
    show "buffer_ok t2" "blen t2 = blen b" using t1 by (simp_all add: t2_def)
  qed
  note pf = pad_front_ok [OF b, of pad capacity]
  have bl: "length (bcontent b) = blen b" using b by simp
  obtain z where z: "crypto_stream_xor_ic lib (replicate pad 0 @ bcontent b) nonce (word_of_nat (pos div 64))
      (take (c_key_len ci) (c_key ci)) (c_method ci) = z @ xor_at ks pos (bcontent b)" "length z = pad"
    using padded_xor [OF ok ci, of pos "bcontent b"] l bl False unfolding pad_def by auto
  define mem where "mem = (if pad \<noteq> 0 then write_at 0 (take (blen b) (drop (0 + pad) (write_at 0 (z @ xor_at ks pos (bcontent b)) (bdata t2))))
      (write_at 0 (z @ xor_at ks pos (bcontent b)) (bdata t2)) else write_at 0 (z @ xor_at ks pos (bcontent b)) (bdata t2))"
  have f: "0 + length z + length (xor_at ks pos (bcontent b)) \<le> length (bdata t2)"
    using t2(3) z(2) bl by simp
  have n: "blen b = length (xor_at ks pos (bcontent b))" using bl by simp
  have m: "take (blen b) mem = xor_at ks pos (bcontent b)" "length mem = length (bdata t2)"
    using write_drop_pad [OF f n z(2) [symmetric]] unfolding mem_def [symmetric] by simp_all
  have cf: "unat (x_counter ctx) mod SODIUM_BLOCK_SIZE = pad"
      "x_counter ctx div word_of_nat SODIUM_BLOCK_SIZE = word_of_nat (pos div 64)"
    using counter_facts [of pos] l x(3) by (simp_all add: pad_def)
  have ms: "c_method ci \<ge> SALSA20" "c_method ci \<ge> RC4_MD5" using ci by (simp_all add: salsa_method)
  let ?ctx = "ctx\<lparr>x_counter := x_counter ctx + word_of_nat (blen b)\<rparr>"
  let ?g = "g\<lparr>g_stream_dec := t2\<lparr>bdata := mem\<rparr>\<rparr>"
  let ?b = "bset (pad_front b pad capacity) (take (blen b) mem) capacity"
  have e: "stream_decrypt_body lib True g b ctx (blen b) capacity =
      (if x_init ctx = 1 then (CRYPTO_OK, ?g\<lparr>g_pp := (pp_record True (g_pp g) nonce)\<rparr>, ?b, ?ctx\<lparr>x_init := 2\<rparr>)
       else (CRYPTO_OK, ?g, ?b, ?ctx))"
    using False x(2)
    by (simp only: stream_decrypt_body_def Let_def x(1) t1_def [symmetric] if_False ms if_True cf
          t2_def [symmetric] x(2) pf(2,3) z(1) prod.case simp_thms)
       (simp add: mem_def t2(2) x(1,2) ppbloom_add_eq [OF gb(2)] cong: if_cong)
  have "buffer_ok (t2\<lparr>bdata := mem\<rparr>)" using m(2) t2(1) by (simp add: buffer_ok_def)
  then have "globals_ok ?g" "globals_ok (?g\<lparr>g_pp := (pp_record True (g_pp g) nonce)\<rparr>)"
    using g gb(2) by (simp_all add: pp_record_inv)
  then show ?thesis
    unfolding e using x False by (auto simp: m(1) simp del: length_xor_at)
qed


section \<open>Whole streams\<close>

primrec stream_feed ::
  "'e crypto_lib \<Rightarrow> nat \<Rightarrow> crypto_globals \<Rightarrow> 'e cipher_ctx \<Rightarrow> bytes list \<Rightarrow> bytes option" where
  "stream_feed lib capacity g ctx [] = Some []"
| "stream_feed lib capacity g ctx (seg # segs) =
    (case stream_decrypt lib True g (buffer_of seg) ctx capacity of
       (CRYPTO_OK, g', b', ctx') \<Rightarrow> map_option ((@) (bcontent b')) (stream_feed lib capacity g' ctx' segs)
     | (CRYPTO_NEED_MORE, g', b', ctx') \<Rightarrow> stream_feed lib capacity g' ctx' segs
     | (CRYPTO_ERROR, _) \<Rightarrow> None
     | (ABORTED, _) \<Rightarrow> None)"

primrec stream_send ::
  "'e crypto_lib \<Rightarrow> nat \<Rightarrow> crypto_globals \<Rightarrow> 'e cipher_ctx \<Rightarrow> bytes list \<Rightarrow> bytes option" where
  "stream_send lib capacity g ctx [] = Some []"
| "stream_send lib capacity g ctx (p # ps) =
    (case stream_encrypt lib g (buffer_of p) ctx capacity of
       (CRYPTO_OK, g', b', ctx') \<Rightarrow> map_option ((@) (bcontent b')) (stream_send lib capacity g' ctx' ps)
     | _ \<Rightarrow> None)"

lemma stream_send_salsa:
  assumes ok: "xor_ic_ok lib (c_method ci) (take (c_key_len ci) (c_key ci)) nonce ks" and ci: "salsa_cipher_ok ci"
    and "x_cipher ctx = ci" "take (c_nonce_len ci) (x_nonce ctx) = nonce" "length nonce = c_nonce_len ci"
    "if x_init ctx = 0 then pos = 0 else x_counter ctx = word_of_nat pos"
    "globals_ok g" "pos + length (concat ps) \<le> 2 ^ 38" "[] \<notin> set ps"
  shows "stream_send lib capacity g ctx ps =
    Some ((if x_init ctx = 0 \<and> ps \<noteq> [] then nonce else []) @ xor_at ks pos (concat ps))"
  using assms(3-)
proof (induction ps arbitrary: pos g ctx)
  case Nil
  then show ?case by (simp add: xor_at_def)
next
  case (Cons p ps)
  have p: "0 < blen (buffer_of p)" "pos + blen (buffer_of p) \<le> 2 ^ 38"
    using Cons.prems(6,7) by (cases p; simp)+
  obtain g' b' ctx' where d: "stream_encrypt lib g (buffer_of p) ctx capacity = (CRYPTO_OK, g', b', ctx')"
      "bcontent b' = (if x_init ctx = 0 then nonce else []) @ xor_at ks pos p"
      "globals_ok g'" "x_cipher ctx' = ci" "take (c_nonce_len ci) (x_nonce ctx') = nonce"
      "x_init ctx' \<noteq> 0" "x_counter ctx' = word_of_nat (pos + length p)"
    using stream_encrypt_salsa [OF ok ci Cons.prems(1-5) buffer_of_simps(2) p(2,1), of capacity] by auto
  have "stream_send lib capacity g' ctx' ps =
      Some ((if x_init ctx' = 0 \<and> ps \<noteq> [] then nonce else []) @ xor_at ks (pos + length p) (concat ps))"
    by (rule Cons.IH) (use d Cons.prems in \<open>simp_all add: add.assoc\<close>)
  with d show ?case by (simp add: xor_at_append)
qed

text \<open>A receiver: running at position \<open>pos\<close>, or waiting with \<open>pend\<close> bytes of the nonce.\<close>

definition srx_running :: "cipher \<Rightarrow> bytes \<Rightarrow> nat \<Rightarrow> 'e cipher_ctx \<Rightarrow> bool" where
  "srx_running ci nonce pos ctx \<longleftrightarrow> x_cipher ctx = ci \<and> take (c_nonce_len ci) (x_nonce ctx) = nonce \<and>
     x_init ctx \<in> {1, 2} \<and> x_counter ctx = word_of_nat pos"

definition srx_waiting :: "cipher \<Rightarrow> bytes \<Rightarrow> 'e cipher_ctx \<Rightarrow> bool" where
  "srx_waiting ci pend ctx \<longleftrightarrow> x_cipher ctx = ci \<and> x_init ctx = 0 \<and> length (x_nonce ctx) = MAX_NONCE_LENGTH \<and>
     (case x_chunk ctx of None \<Rightarrow> pend = []
      | Some ch \<Rightarrow> buffer_ok ch \<and> bcontent ch = pend \<and> bcap ch = c_nonce_len ci)"

lemma stream_decrypt_running:
  assumes ok: "xor_ic_ok lib (c_method ci) (take (c_key_len ci) (c_key ci)) nonce ks" and ci: "salsa_cipher_ok ci"
    and rx: "srx_running ci nonce pos ctx" and g: "globals_ok g" and l: "pos + length seg \<le> 2 ^ 38"
  shows "\<exists>ret g' b' ctx'. stream_decrypt lib True g (buffer_of seg) ctx capacity = (ret, g', b', ctx') \<and>
    ret = (if seg = [] then CRYPTO_NEED_MORE else CRYPTO_OK) \<and>
    (ret = CRYPTO_OK \<longrightarrow> bcontent b' = xor_at ks pos seg) \<and>
    globals_ok g' \<and> srx_running ci nonce (pos + length seg) ctx'"
proof -
  let ?g = "g\<lparr>g_stream_dec := (brealloc (g_stream_dec g) (length seg) capacity)\<lparr>blen := length seg\<rparr>\<rparr>"
  have gb: "buffer_ok (g_stream_dec g)" using g by (simp add: globals_ok_def)
  have tb: "buffer_ok ((brealloc (g_stream_dec g) (length seg) capacity)\<lparr>blen := length seg\<rparr>)"
    using brealloc_ok [OF gb, of "length seg" capacity] brealloc_cap [of "g_stream_dec g" "length seg" capacity]
    by (simp add: buffer_ok_def)
  have g': "globals_ok ?g" "blen (buffer_of seg) \<le> length (bdata (g_stream_dec ?g))"
    using g tb gb by simp_all
  have x: "x_cipher ctx = ci" "take (c_nonce_len ci) (x_nonce ctx) = nonce" "x_counter ctx = word_of_nat pos" "x_init ctx \<in> {1, 2}"
    using rx by (simp_all add: srx_running_def)
  have e: "stream_decrypt lib True g (buffer_of seg) ctx capacity =
      stream_decrypt_body lib True ?g (buffer_of seg) ctx (blen (buffer_of seg)) capacity"
    using x(4) by (auto simp: stream_decrypt_def Let_def)
  show ?thesis
    unfolding e srx_running_def
    using stream_decrypt_body_salsa [OF ok ci x g'(1) buffer_of_simps(2) _ g'(2), of capacity] l by auto
qed


text \<open>Collecting the nonce: either it stays incomplete, or the rest of the segment is decrypted from
  position 0.\<close>

lemma stream_decrypt_waiting:
  assumes ok: "xor_ic_ok lib (c_method ci) (take (c_key_len ci) (c_key ci)) nonce ks" and ci: "salsa_cipher_ok ci"
    and rx: "srx_waiting ci pend ctx" and g: "globals_ok g"
    and n: "length nonce = c_nonce_len ci" "ppbloom_check (g_pp g) nonce \<noteq> Some 1"
    and p: "length pend < c_nonce_len ci" and w: "pend @ seg @ rest = nonce @ body" and l: "length body \<le> 2 ^ 38"
  shows "\<exists>ret g' b' ctx'. stream_decrypt lib True g (buffer_of seg) ctx capacity = (ret, g', b', ctx') \<and> globals_ok g' \<and>
    (if length (pend @ seg) < c_nonce_len ci
     then ret = CRYPTO_NEED_MORE \<and> g_pp g' = g_pp g \<and> srx_waiting ci (pend @ seg) ctx'
     else (\<exists>r. pend @ seg = nonce @ r \<and> r @ rest = body \<and> ret = (if r = [] then CRYPTO_NEED_MORE else CRYPTO_OK) \<and>
       (ret = CRYPTO_OK \<longrightarrow> bcontent b' = xor_at ks 0 r) \<and> srx_running ci nonce (length r) ctx'))"
proof -
  define ch where "ch = (case x_chunk ctx of None \<Rightarrow> balloc (c_nonce_len ci) | Some ch \<Rightarrow> ch)"
  have ch: "buffer_ok ch" "bcontent ch = pend" "bcap ch = c_nonce_len ci"
    using rx by (auto simp: srx_waiting_def ch_def balloc_def buffer_ok_def bcontent_def split: option.splits)
  have x: "x_cipher ctx = ci" "x_init ctx = 0" "length (x_nonce ctx) = MAX_NONCE_LENGTH"
    using rx by (simp_all add: srx_waiting_def)
  have cl: "blen ch = length pend" "length (bdata ch) = c_nonce_len ci"
    using ch by (auto simp: buffer_ok_def bcontent_def)
  define k where "k = min (c_nonce_len ci - length pend) (length seg)"
  define tmp where "tmp = brealloc (g_stream_dec g) (length seg) capacity"
  define g1 where "g1 = g\<lparr>g_stream_dec := tmp\<lparr>blen := length seg\<rparr>\<rparr>"
  have gb: "buffer_ok (g_stream_dec g)" using g by (simp add: globals_ok_def)
  have tb: "buffer_ok tmp" "length seg \<le> length (bdata tmp)" "bcap tmp = length (bdata tmp)"
    using brealloc_ok [OF gb, of "length seg" capacity] brealloc_cap [of "g_stream_dec g" "length seg" capacity]
    by (simp_all add: tmp_def buffer_ok_def)
  have g1: "globals_ok g1" "g_pp g1 = g_pp g" using g tb by (simp_all add: g1_def buffer_ok_def)
  define ch1 where "ch1 = (if k > 0 then ch\<lparr>bdata := write_at (blen ch) (take k seg) (bdata ch), blen := blen ch + k\<rparr> else ch)"
  define b1 where "b1 = (if k > 0 then (buffer_of seg)\<lparr>bdata := write_at 0 (take (length seg - k) (drop k seg)) seg,
      blen := length seg - k\<rparr> else buffer_of seg)"
  have k: "k \<le> length seg" "length pend + k \<le> c_nonce_len ci" using p by (auto simp: k_def)
  have ch1: "buffer_ok ch1" "bcontent ch1 = pend @ take k seg" "bcap ch1 = c_nonce_len ci" "blen ch1 = length pend + k"
  proof -
    have "take (blen ch + k) (write_at (blen ch) (take k seg) (bdata ch)) = take (blen ch) (bdata ch) @ take k seg"
      using k cl by (intro take_write_at_end) simp_all
    moreover have "take (blen ch) (bdata ch) = pend" using ch(2) by (simp add: bcontent_def)
    ultimately show "bcontent ch1 = pend @ take k seg"
      using ch(2) by (simp add: ch1_def bcontent_def)
    show "buffer_ok ch1" "bcap ch1 = c_nonce_len ci" "blen ch1 = length pend + k"
      using ch cl k by (auto simp: ch1_def buffer_ok_def)
  qed
  have b1: "buffer_ok b1" "bcontent b1 = drop k seg" "blen b1 = length seg - k"
    using k by (auto simp: b1_def buffer_ok_def bcontent_def buffer_of_def write_at_0)
  have pr: "(if k > 0 then (ch\<lparr>bdata := write_at (blen ch) (take k (bdata (buffer_of seg))) (bdata ch), blen := blen ch + k\<rparr>,
        (buffer_of seg)\<lparr>bdata := write_at 0 (take (blen (buffer_of seg) - k) (drop k (bdata (buffer_of seg)))) (bdata (buffer_of seg)),
          blen := blen (buffer_of seg) - k\<rparr>) else (ch, buffer_of seg)) = (ch1, b1)"
    by (simp add: ch1_def b1_def buffer_of_def)
  define ctx1 where "ctx1 = ctx\<lparr>x_chunk := Some ch1\<rparr>"
  define ctx2 where "ctx2 = ctx1\<lparr>x_nonce := write_at 0 (take (c_nonce_len ci) (bdata ch1)) (x_nonce ctx1), x_counter := 0, x_init := 1\<rparr>"
  have ms: "c_method ci \<ge> RC4_MD5" using ci by (rule salsa_method)
  have pc: "ppbloom_check (g_pp g) y = Some 0 \<or> ppbloom_check (g_pp g) y = Some 1" for y
    using g ppbloom_unseen by (auto simp: globals_ok_def)
  have e: "stream_decrypt lib True g (buffer_of seg) ctx capacity =
      (if blen ch1 < c_nonce_len ci then (CRYPTO_NEED_MORE, g1, b1, ctx1)
       else if ppbloom_check (g_pp g) (take (c_nonce_len ci) (x_nonce ctx2)) = Some 1
            then (CRYPTO_ERROR, g1\<lparr>g_stream_dec := tmp\<lparr>blen := length seg - k\<rparr>\<rparr>, b1, ctx2)
            else stream_decrypt_body lib True g1 b1 ctx2 (blen b1) capacity)"
    unfolding stream_decrypt_def Let_def x(1,2) ch_def [symmetric] buffer_of_simps(3) cl(1) k_def [symmetric]
    unfolding pr [unfolded buffer_of_simps(3) cl(1)] prod.case
    using ci x ms pc [of "take (c_nonce_len ci) (x_nonce ctx2)"]
    by (auto simp: ctx1_def ctx2_def g1_def tmp_def b1(3) pr)
  show ?thesis
  proof (cases "length (pend @ seg) < c_nonce_len ci")
    case True
    then have ks: "k = length seg" by (simp add: k_def)
    have "srx_waiting ci (pend @ seg) ctx1" using ch1 x ks by (simp add: srx_waiting_def ctx1_def)
    then show ?thesis using True ch1(4) ks g1 by (simp add: e)
  next
    case False
    then have kn: "length pend + k = c_nonce_len ci" using p by (simp add: k_def)
    have wsplit: "(pend @ take k seg) @ drop k seg @ rest = nonce @ body"
      using w append_take_drop_id [of k seg] by (metis append.assoc)
    then have nn: "pend @ take k seg = nonce" "drop k seg @ rest = body"
      using n(1) kn k(1) append_eq_append_conv [of "pend @ take k seg" nonce "drop k seg @ rest" body] by simp_all
    have bd: "take (c_nonce_len ci) (bdata ch1) = nonce"
      using ch1(2,4) kn nn(1) by (simp add: bcontent_def)
    have nz: "take (c_nonce_len ci) (x_nonce ctx2) = nonce"
    proof -
      have "take (c_nonce_len ci) (write_at 0 nonce y) = nonce" for y
        by (simp add: n(1) [symmetric] write_at_0)
      then show ?thesis by (simp add: ctx2_def bd)
    qed
    have x2: "x_cipher ctx2 = ci" "x_counter ctx2 = word_of_nat 0" "x_init ctx2 \<in> {1, 2}"
      using x by (simp_all add: ctx2_def ctx1_def)
    have l2: "0 + blen b1 \<le> 2 ^ 38"
      using arg_cong [OF nn(2), of length] l b1(3) by simp
    have t2: "blen b1 \<le> length (bdata (g_stream_dec g1))" using b1(3) tb(2) by (simp add: g1_def)
    obtain ret g' b' ctx' where d: "stream_decrypt_body lib True g1 b1 ctx2 (blen b1) capacity = (ret, g', b', ctx')"
        "ret = (if blen b1 = 0 then CRYPTO_NEED_MORE else CRYPTO_OK)"
        "ret = CRYPTO_OK \<longrightarrow> bcontent b' = xor_at ks 0 (bcontent b1)" "globals_ok g'"
        "x_cipher ctx' = ci" "take (c_nonce_len ci) (x_nonce ctx') = nonce" "x_init ctx' \<in> {1, 2}"
        "x_counter ctx' = word_of_nat (0 + blen b1)"
      using stream_decrypt_body_salsa [OF ok ci x2(1) nz x2(2,3) g1(1) b1(1) l2 t2, of capacity]
      by (elim exE conjE) (rule that)
    have e2: "stream_decrypt lib True g (buffer_of seg) ctx capacity = (ret, g', b', ctx')"
      using e d(1) kn ch1(4) nz n(2) by simp
    have r: "pend @ seg = nonce @ drop k seg" using nn(1) append_take_drop_id [of k seg] by (metis append.assoc)
    have "srx_running ci nonce (length (drop k seg)) ctx'"
      using d(5-8) b1(3) by (simp add: srx_running_def)
    with False e2 d(2-4) r nn(2) b1(2,3) show ?thesis
      by (intro exI [where x = ret] exI [where x = g'] exI [where x = b'] exI [where x = ctx'] conjI)
         (auto intro!: exI [where x = "drop k seg"])
  qed
qed


text \<open>The whole reception: after the segments \<open>segs\<close> the bytes delivered are the plaintext bytes
  whose ciphertext has arrived.\<close>

lemma stream_feed_running:
  assumes ok: "xor_ic_ok lib (c_method ci) (take (c_key_len ci) (c_key ci)) nonce ks" and ci: "salsa_cipher_ok ci"
    and "srx_running ci nonce pos ctx" "globals_ok g" "pos + length (concat segs) \<le> 2 ^ 38"
  shows "stream_feed lib capacity g ctx segs = Some (xor_at ks pos (concat segs))"
  using assms(3-)
proof (induction segs arbitrary: pos g ctx)
  case Nil
  then show ?case by (simp add: xor_at_def)
next
  case (Cons seg segs)
  obtain ret g' b' ctx' where d: "stream_decrypt lib True g (buffer_of seg) ctx capacity = (ret, g', b', ctx')"
      "ret = (if seg = [] then CRYPTO_NEED_MORE else CRYPTO_OK)" "ret = CRYPTO_OK \<longrightarrow> bcontent b' = xor_at ks pos seg"
      "globals_ok g'" "srx_running ci nonce (pos + length seg) ctx'"
    using stream_decrypt_running [OF ok ci Cons.prems(1,2), of seg capacity] Cons.prems(3)
    by (auto)
  have "stream_feed lib capacity g' ctx' segs = Some (xor_at ks (pos + length seg) (concat segs))"
    by (rule Cons.IH) (use d(4,5) Cons.prems(3) in \<open>simp_all add: add.assoc\<close>)
  with d show ?case by (cases "seg = []") (simp_all add: xor_at_append)
qed


lemma stream_feed_waiting:
  assumes ok: "xor_ic_ok lib (c_method ci) (take (c_key_len ci) (c_key ci)) nonce ks" and ci: "salsa_cipher_ok ci"
    and n: "length nonce = c_nonce_len ci" and l: "length body \<le> 2 ^ 38"
    and "srx_waiting ci pend ctx" "globals_ok g" "ppbloom_check (g_pp g) nonce \<noteq> Some 1"
    "length pend < c_nonce_len ci" "pend @ concat segs @ rest = nonce @ body"
  shows "stream_feed lib capacity g ctx segs =
    Some (xor_at ks 0 (take (length (pend @ concat segs) - c_nonce_len ci) body))"
  using assms(5-)
proof (induction segs arbitrary: pend g ctx)
  case Nil
  then show ?case by (simp add: xor_at_def)
next
  case (Cons seg segs)
  have w: "pend @ seg @ (concat segs @ rest) = nonce @ body" using Cons.prems(5) by simp
  obtain ret g' b' ctx' where d: "stream_decrypt lib True g (buffer_of seg) ctx capacity = (ret, g', b', ctx')" "globals_ok g'"
      and c: "if length (pend @ seg) < c_nonce_len ci
     then ret = CRYPTO_NEED_MORE \<and> g_pp g' = g_pp g \<and> srx_waiting ci (pend @ seg) ctx'
     else (\<exists>r. pend @ seg = nonce @ r \<and> r @ concat segs @ rest = body \<and> ret = (if r = [] then CRYPTO_NEED_MORE else CRYPTO_OK) \<and>
       (ret = CRYPTO_OK \<longrightarrow> bcontent b' = xor_at ks 0 r) \<and> srx_running ci nonce (length r) ctx')"
    using stream_decrypt_waiting [OF ok ci Cons.prems(1,2) n Cons.prems(3,4) w l, of capacity]
    by (elim exE conjE) (rule that)
  show ?case
  proof (cases "length (pend @ seg) < c_nonce_len ci")
    case True
    then have "stream_feed lib capacity g' ctx' segs =
        Some (xor_at ks 0 (take (length ((pend @ seg) @ concat segs) - c_nonce_len ci) body))"
      using c d(2) Cons.prems(3,5) by (intro Cons.IH) simp_all
    then show ?thesis using d c True by simp
  next
    case False
    with c obtain r where r: "pend @ seg = nonce @ r" "r @ concat segs @ rest = body"
        "ret = (if r = [] then CRYPTO_NEED_MORE else CRYPTO_OK)"
        "ret = CRYPTO_OK \<longrightarrow> bcontent b' = xor_at ks 0 r" "srx_running ci nonce (length r) ctx'"
      by auto
    have f: "stream_feed lib capacity g' ctx' segs = Some (xor_at ks (length r) (concat segs))"
      using l r(2) by (intro stream_feed_running [OF ok ci r(5) d(2)]) auto
    have t: "take (length (pend @ concat (seg # segs)) - c_nonce_len ci) body = r @ concat segs"
      using arg_cong [OF r(1), of length] n by (simp add: r(2) [symmetric])
    have e: "xor_at ks 0 (r @ concat segs) = xor_at ks 0 r @ xor_at ks (length r) (concat segs)"
      by (simp add: xor_at_append)
    show ?thesis unfolding t e using d(1) r(3,4) f by (cases "r = []") (simp_all add: xor_at_def)
  qed
qed

lemma stream_ctx_init_salsa:
  assumes "salsa_cipher_ok ci"
  shows "x_cipher (stream_ctx_init lib r ci enc) = ci" "x_init (stream_ctx_init lib r ci enc) = 0"
    "x_chunk (stream_ctx_init lib r ci enc) = None" "length (x_nonce (stream_ctx_init lib r ci False)) = MAX_NONCE_LENGTH"
    "length r = c_nonce_len ci \<Longrightarrow> take (c_nonce_len ci) (x_nonce (stream_ctx_init lib r ci True)) = r"
  using salsa_method [OF assms]
  by (simp_all add: stream_ctx_init_def Let_def stream_cipher_ctx_init_def stream_ctx_zero_def write_at_0 MAX_NONCE_LENGTH_def)

section \<open>Properties\<close>

text \<open>C13 (roundtrip): the salsa20/chacha20 stream is delivered intact.  For any non-empty
  payloads of at most 2^38 bytes in total, \<open>stream_encrypt\<close> accepts all of them, and however the
  wire bytes are cut into segments, \<open>stream_decrypt\<close> never fails and has delivered exactly the
  plaintext bytes whose ciphertext has arrived after the nonce.\<close>

theorem stream_delivery:
  assumes "xor_ic_ok lib (c_method ci) (take (c_key_len ci) (c_key ci)) nonce ks" "salsa_cipher_ok ci"
    and "globals_ok gs" "globals_ok gr" "length nonce = c_nonce_len ci" "ppbloom_check (g_pp gr) nonce \<noteq> Some 1"
    and "ps \<noteq> []" "[] \<notin> set ps" "length (concat ps) \<le> 2 ^ 38"
  shows "\<exists>wire. stream_send lib cs gs (stream_ctx_init lib nonce ci True) ps = Some wire \<and>
    length wire = c_nonce_len ci + length (concat ps) \<and>
    (\<forall>segs rest. concat segs @ rest = wire \<longrightarrow>
      stream_feed lib cr gr (stream_ctx_init lib r ci False) segs =
        Some (take (length (concat segs) - c_nonce_len ci) (concat ps)))"
proof -
  note i = stream_ctx_init_salsa [OF assms(2), where lib = lib]
  have "stream_send lib cs gs (stream_ctx_init lib nonce ci True) ps = Some (nonce @ xor_at ks 0 (concat ps))"
    using stream_send_salsa [OF assms(1,2) i(1) i(5) [OF assms(5)] assms(5) _ assms(3) _ assms(8), of 0 cs] i(2) assms(7,9)
    by simp
  moreover have "stream_feed lib cr gr (stream_ctx_init lib r ci False) segs =
        Some (take (length (concat segs) - c_nonce_len ci) (concat ps))"
    if w: "concat segs @ rest = nonce @ xor_at ks 0 (concat ps)" for segs rest
  proof -
    have rx: "srx_waiting ci [] (stream_ctx_init lib r ci False)"
      by (simp add: srx_waiting_def i)
    have "stream_feed lib cr gr (stream_ctx_init lib r ci False) segs =
        Some (xor_at ks 0 (take (length (concat segs) - c_nonce_len ci) (xor_at ks 0 (concat ps))))"
      using stream_feed_waiting [OF assms(1,2,5) _ rx assms(4,6), of "xor_at ks 0 (concat ps)" segs rest cr] w assms(2,9)
      by (simp add: salsa_cipher_ok_def)
    also have "xor_at ks 0 (take (length (concat segs) - c_nonce_len ci) (xor_at ks 0 (concat ps))) =
        take (length (concat segs) - c_nonce_len ci) (concat ps)"
      by (rule nth_equalityI) (simp_all add: nth_xor_at ac_simps)
    finally show ?thesis .
  qed
  ultimately show ?thesis using assms(5)
    by (intro exI [where x = "nonce @ xor_at ks 0 (concat ps)"]) auto
qed

definition salsa_demo :: cipher where
  "salsa_demo = \<lparr>c_method = CHACHA20, c_skey = False, c_info = True, c_nonce_len = 8,
     c_key_len = 32, c_tag_len = 0, c_key = replicate 64 5\<rparr>"

lemma salsa_demo_ok: "salsa_cipher_ok salsa_demo"
  "xor_ic_ok lib_demo (c_method salsa_demo) (take (c_key_len salsa_demo) (c_key salsa_demo)) n
     (\<lambda>i. sum_list (replicate 32 5) + sum_list n + word_of_nat i)"
  by (simp_all add: salsa_cipher_ok_def salsa_demo_def stream_method_defs MAX_NONCE_LENGTH_def xor_ic_ok_def lib_demo_def
      xor_at_def demo_xor_def)

theorem stream_delivery_witness:
  "\<exists>wire. stream_send lib_demo 64 globals_demo (stream_ctx_init lib_demo (replicate 8 3) salsa_demo True) [[1, 2, 3], [4]] = Some wire \<and>
    stream_feed lib_demo 64 globals_demo (stream_ctx_init lib_demo [] salsa_demo False)
      [take 5 wire, take 5 (drop 5 wire)] = Some [1, 2]"
proof -
  have "\<exists>wire. stream_send lib_demo 64 globals_demo (stream_ctx_init lib_demo (replicate 8 3) salsa_demo True) [[1, 2, 3], [4]] = Some wire \<and>
    length wire = c_nonce_len salsa_demo + length (concat [[1, 2, 3], [4 :: byte]]) \<and>
    (\<forall>segs rest. concat segs @ rest = wire \<longrightarrow>
      stream_feed lib_demo 64 globals_demo (stream_ctx_init lib_demo [] salsa_demo False) segs =
        Some (take (length (concat segs) - c_nonce_len salsa_demo) (concat [[1, 2, 3], [4]])))"
    by (rule stream_delivery [OF salsa_demo_ok(2,1) globals_demo_ok globals_demo_ok])
       (simp_all add: salsa_demo_def globals_demo_fresh)
  then obtain wire where w: "stream_send lib_demo 64 globals_demo (stream_ctx_init lib_demo (replicate 8 3) salsa_demo True) [[1, 2, 3], [4]] = Some wire"
    "length wire = 12"
    and d: "\<And>segs rest. concat segs @ rest = wire \<Longrightarrow>
      stream_feed lib_demo 64 globals_demo (stream_ctx_init lib_demo [] salsa_demo False) segs =
        Some (take (length (concat segs) - 8) [1, 2, 3, 4])"
    by (auto simp: salsa_demo_def)
  have "take 5 wire @ take 5 (drop 5 wire) @ drop 10 wire = wire"
    using append_take_drop_id [of 5 "drop 5 wire"] by simp
  then show ?thesis using w d [of "[take 5 wire, take 5 (drop 5 wire)]" "drop 10 wire"] by auto
qed


lemma stream_all_recorded_refused:
  assumes "ppbloom_check (g_pp g) (take (c_nonce_len ci) (bdata b)) = Some 1" "c_nonce_len ci \<le> MAX_NONCE_LENGTH"
    and "buffer_ok b"
  shows "\<exists>g'. stream_decrypt_all lib ok g b ci capacity = (CRYPTO_ERROR, g', b) \<and> g_pp g' = g_pp g"
proof (cases "blen b \<le> c_nonce_len ci")
  case True
  then show ?thesis by (simp add: stream_decrypt_all_def Let_def)
next
  case False
  then have "length (take (c_nonce_len ci) (bdata b)) = c_nonce_len ci"
    using assms(3) by (simp add: buffer_ok_def)
  then have "take (c_nonce_len ci) (write_at 0 (take (c_nonce_len ci) (bdata b)) x) = take (c_nonce_len ci) (bdata b)" for x
    by (metis append_take_drop_id append_eq_conv_conj write_at_0)
  then show ?thesis using assms(1) False by (simp add: stream_decrypt_all_def Let_def)
qed

lemma stream_all_ok_records:
  assumes "stream_decrypt_all lib True g b ci capacity = (CRYPTO_OK, g', b')" "buffer_ok b" "pp_inv (g_pp g)"
  shows "g_pp g' = pp_record True (g_pp g) (take (c_nonce_len ci) (bdata b))"
proof -
  have nb: "\<not> blen b \<le> c_nonce_len ci" using assms(1) by (auto simp: stream_decrypt_all_def Let_def)
  then have "length (take (c_nonce_len ci) (bdata b)) = c_nonce_len ci"
    using assms(2) by (simp add: buffer_ok_def)
  then have w: "take (c_nonce_len ci) (write_at 0 (take (c_nonce_len ci) (bdata b)) x) = take (c_nonce_len ci) (bdata b)" for x
    by (metis append_take_drop_id append_eq_conv_conj write_at_0)
  show ?thesis using assms(1) nb
    by (cases rule: ppbloom_check_cases [OF assms(3), of "take (c_nonce_len ci) (bdata b)"])
       (auto simp: stream_decrypt_all_def Let_def w ppbloom_add_eq [OF assms(3)] split: if_splits prod.splits)
qed

text \<open>C14 (error): replays and the empty nonce.  A packet whose nonce was recorded fewer than
  \<open>entries\<close> additions ago is refused by \<open>stream_decrypt_all\<close>.  For rc4, whose nonce is empty, this
  means that after one accepted packet every later packet of the window is refused, whatever it
  contains, while \<open>stream_decrypt\<close>, which exempts rc4, accepts it.\<close>

theorem stream_rc4_udp_refused:
  assumes "c_nonce_len ci = 0" "globals_ok g" "buffer_ok b" "buffer_ok b2"
    and "stream_decrypt_all lib True g b ci capacity = (CRYPTO_OK, g', b')"
    and "int (length ys) < pp_entries (g_pp g)"
    and "ppbloom_adds (g_pp g') ys = Some (g_pp g2)"
  shows "\<exists>g3. stream_decrypt_all lib ok g2 b2 ci capacity = (CRYPTO_ERROR, g3, b2) \<and> g_pp g3 = g_pp g2"
proof (rule stream_all_recorded_refused)
  have pp: "pp_inv (g_pp g)" using assms(2) by (simp add: globals_ok_def)
  have "g_pp g' = pp_record True (g_pp g) []"
    using stream_all_ok_records [OF assms(5,3) pp] assms(1) by simp
  then have "ppbloom_adds (g_pp g) ([] # ys) = Some (g_pp g2)"
    using assms(7) by (simp add: ppbloom_add_eq [OF pp])
  from ppbloom_adds_window(1) [OF pp assms(6) this]
  show "ppbloom_check (g_pp g2) (take (c_nonce_len ci) (bdata b2)) = Some 1" using assms(1) by simp
qed (use assms in simp_all)

definition rc4_demo :: cipher where
  "rc4_demo = \<lparr>c_method = RC4, c_skey = False, c_info = True, c_nonce_len = 0,
     c_key_len = 16, c_tag_len = 0, c_key = replicate 64 5\<rparr>"

lemma rc4_demo_accepts:
  "\<exists>g' b'. stream_decrypt_all lib_demo True globals_demo (buffer_of [1]) rc4_demo 64 = (CRYPTO_OK, g', b')"
proof -
  have "pp_inv (g_pp globals_demo)" using globals_demo_ok by (simp add: globals_ok_def)
  from ppbloom_add_eq [OF this] show ?thesis
    by (auto simp: stream_decrypt_all_def Let_def rc4_demo_def globals_demo_fresh cipher_ctx_update_def cipher_ctx_set_nonce_def
        stream_ctx_init_def stream_cipher_ctx_init_def stream_method_defs lib_demo_def stream_ctx_zero_def evp_step_def buffer_of_def)
qed

theorem stream_rc4_udp_refused_witness:
  "\<exists>g' b' g3. stream_decrypt_all lib_demo True globals_demo (buffer_of [1]) rc4_demo 64 = (CRYPTO_OK, g', b') \<and>
    stream_decrypt_all lib_demo True g' (buffer_of [2]) rc4_demo 64 = (CRYPTO_ERROR, g3, buffer_of [2])"
proof -
  obtain g' b' where a: "stream_decrypt_all lib_demo True globals_demo (buffer_of [1]) rc4_demo 64 = (CRYPTO_OK, g', b')"
    using rc4_demo_accepts by blast
  have "int (length []) < pp_entries (g_pp globals_demo)"
    by (simp add: globals_demo_def pp_demo_inv)
  then show ?thesis
    using stream_rc4_udp_refused [OF _ globals_demo_ok buffer_of_simps(2) buffer_of_simps(2) a, where ys = "[]" and ?g2.0 = g' and ok = True] a
    by (auto simp: rc4_demo_def)
qed


lemma find_stream_method_none: "name \<notin> set names \<Longrightarrow> find_stream_method name names m = m + length names"
  by (induction names arbitrary: m) auto

lemma stream_init_null: "stream_init lib rnd pass key None = KeyNull" "stream_init lib rnd pass key (Some ''table'') = KeyNull"
  by (simp_all add: stream_init_def supported_stream_ciphers_def TABLE_def STREAM_CIPHER_NUM_def)

lemma stream_init_unknown:
  assumes "name \<notin> set supported_stream_ciphers"
  shows "stream_init lib rnd pass key (Some name) = stream_init lib rnd pass key (Some ''rc4-md5'')"
proof -
  have "find_stream_method name supported_stream_ciphers 0 = length supported_stream_ciphers"
    using assms by (simp add: find_stream_method_none)
  then have "int (find_stream_method name supported_stream_ciphers 0) \<ge> STREAM_CIPHER_NUM"
    by (simp add: supported_stream_ciphers_def STREAM_CIPHER_NUM_def)
  moreover have "find_stream_method ''rc4-md5'' supported_stream_ciphers 0 = 2"
    by (simp add: supported_stream_ciphers_def)
  ultimately show ?thesis by (simp add: stream_init_def Let_def stream_method_defs)
qed

lemma stream_init_crash:
  assumes "name \<in> {''cast5-cfb'', ''des-cfb'', ''idea-cfb'', ''rc2-cfb'', ''seed-cfb''}"
  shows "stream_init lib rnd pass key (Some name) = KeyCrash"
proof -
  have m: "find_stream_method name supported_stream_ciphers 0 \<in> {13, 14, 15, 16, 17}"
    using assms by (auto simp: supported_stream_ciphers_def)
  have "stream_key_init lib rnd (int m) pass key = KeyCrash" if "m \<in> {13, 14, 15, 16, 17}" for m
    using that by (auto simp: stream_key_init_def stream_cipher_info_def stream_get_cipher_type_def stream_method_defs
        supported_stream_ciphers_mbedtls_def)
  note k = this [OF m]
  have r: "\<not> 21 \<le> find_stream_method name supported_stream_ciphers 0" "find_stream_method name supported_stream_ciphers 0 \<noteq> 0"
    using m by auto
  show ?thesis using r by (simp add: stream_init_def k STREAM_CIPHER_NUM_def TABLE_def)
qed

lemma stream_init_salsa:
  assumes "name \<in> {''salsa20'', ''chacha20'', ''chacha20-ietf''}"
  shows "\<exists>c. stream_init lib rnd pass None (Some name) = KeyOk c \<and> salsa_cipher_ok c \<and>
    c_nonce_len c = (if name = ''chacha20-ietf'' then 12 else 8) \<and>
    c_key_len c = fst (crypto_derive_key lib pass 32) \<and>
    c_key c = write_at 0 (snd (crypto_derive_key lib pass 32)) (replicate MAX_KEY_LENGTH 0)"
proof -
  have f: "find_stream_method ''salsa20'' supported_stream_ciphers 0 = 18"
    "find_stream_method ''chacha20'' supported_stream_ciphers 0 = 19"
    "find_stream_method ''chacha20-ietf'' supported_stream_ciphers 0 = 20"
    by (simp_all add: supported_stream_ciphers_def)
  have "stream_cipher_info lib 18 = Some (32, 8)" "stream_cipher_info lib 19 = Some (32, 8)"
    "stream_cipher_info lib 20 = Some (32, 12)"
    by (simp_all add: stream_cipher_info_def stream_method_defs supported_stream_ciphers_key_size_def
        supported_stream_ciphers_nonce_size_def)
  with assms f show ?thesis
    by (auto simp: stream_init_def stream_method_defs stream_key_init_def salsa_cipher_ok_def
        MAX_NONCE_LENGTH_def case_prod_beta)
qed

text \<open>What \<open>stream_init\<close> returns.  No method, or \<open>table\<close>: NULL.  An unknown name: the
  result for rc4-md5.  A name mbed TLS does not provide (cast5, des, idea, rc2, seed): the null
  cipher description is dereferenced.  The libsodium names: a cipher with the table's nonce size
  and a derived 32-byte key.\<close>

theorem stream_init_result:
  "stream_init lib rnd pass key None = KeyNull \<and>
   stream_init lib rnd pass key (Some ''table'') = KeyNull \<and>
   (name \<notin> set supported_stream_ciphers \<longrightarrow>
      stream_init lib rnd pass key (Some name) = stream_init lib rnd pass key (Some ''rc4-md5'')) \<and>
   (name \<in> {''cast5-cfb'', ''des-cfb'', ''idea-cfb'', ''rc2-cfb'', ''seed-cfb''} \<longrightarrow>
      stream_init lib rnd pass key (Some name) = KeyCrash) \<and>
   (name \<in> {''salsa20'', ''chacha20'', ''chacha20-ietf''} \<longrightarrow>
      (\<exists>c. stream_init lib rnd pass None (Some name) = KeyOk c \<and> salsa_cipher_ok c \<and>
        c_nonce_len c = (if name = ''chacha20-ietf'' then 12 else 8) \<and>
        c_key_len c = fst (crypto_derive_key lib pass 32) \<and>
        c_key c = write_at 0 (snd (crypto_derive_key lib pass 32)) (replicate MAX_KEY_LENGTH 0)))"
  by (intro conjI impI stream_init_null stream_init_unknown stream_init_crash stream_init_salsa)

theorem stream_init_result_witness:
  "stream_init lib_demo [] [112] None (Some ''rc4'') \<noteq> KeyCrash \<and>
   stream_init lib_demo [] [112] None (Some ''des-cfb'') = KeyCrash \<and>
   stream_init lib_demo [] [112] None (Some ''nope'') = stream_init lib_demo [] [112] None (Some ''rc4-md5'')"
  using stream_init_result [of lib_demo "[]" "[112]" None "''des-cfb''"] stream_init_result [of lib_demo "[]" "[112]" None "''nope''"]
  by (simp add: supported_stream_ciphers_def stream_init_def stream_key_init_def stream_cipher_info_def stream_method_defs
      stream_get_cipher_type_def lib_demo_def STREAM_UNSUPPORTED_def supported_stream_ciphers_mbedtls_def split: prod.splits)

end
