(* ===== verification/CryptoInit.thy ===== *)
theory CryptoInit
  imports AeadStream StreamCipher
begin

text \<open>
  \<open>crypto_init\<close> of \<open>shadowsocks-libev/src/crypto.c\<close>: the method name selects the AEAD or the stream
  functions, collected in a \<open>crypto_t\<close>; and the contract of a packet cipher that the UDP relay relies on,
  with its two interpretations.
\<close>

record 'e crypto =
  cr_cipher :: cipher
  cr_encrypt_all :: "bytes \<Rightarrow> crypto_globals \<Rightarrow> buffer \<Rightarrow> cipher \<Rightarrow> nat \<Rightarrow> crypto_ret \<times> crypto_globals \<times> buffer"
  cr_decrypt_all :: "bool \<Rightarrow> crypto_globals \<Rightarrow> buffer \<Rightarrow> cipher \<Rightarrow> nat \<Rightarrow> crypto_ret \<times> crypto_globals \<times> buffer"
  cr_encrypt :: "crypto_globals \<Rightarrow> buffer \<Rightarrow> 'e cipher_ctx \<Rightarrow> nat \<Rightarrow> crypto_ret \<times> crypto_globals \<times> buffer \<times> 'e cipher_ctx"
  cr_decrypt :: "bool \<Rightarrow> crypto_globals \<Rightarrow> buffer \<Rightarrow> 'e cipher_ctx \<Rightarrow> nat \<Rightarrow> crypto_ret \<times> crypto_globals \<times> buffer \<times> 'e cipher_ctx"
  cr_ctx_init :: "bytes \<Rightarrow> cipher \<Rightarrow> bool \<Rightarrow> 'e cipher_ctx"
  cr_ctx_release :: "'e cipher_ctx \<Rightarrow> 'e cipher_ctx"

definition stream_crypto :: "'e crypto_lib \<Rightarrow> cipher \<Rightarrow> 'e crypto" where
  "stream_crypto lib cipher = \<lparr>cr_cipher = cipher,
     cr_encrypt_all = stream_encrypt_all lib, cr_decrypt_all = stream_decrypt_all lib,
     cr_encrypt = stream_encrypt lib, cr_decrypt = stream_decrypt lib,
     cr_ctx_init = stream_ctx_init lib, cr_ctx_release = stream_ctx_release\<rparr>"

definition aead_crypto :: "'e crypto_lib \<Rightarrow> cipher \<Rightarrow> 'e crypto" where
  "aead_crypto lib cipher = \<lparr>cr_cipher = cipher,
     cr_encrypt_all = aead_encrypt_all lib, cr_decrypt_all = aead_decrypt_all lib,
     cr_encrypt = aead_encrypt lib, cr_decrypt = aead_decrypt lib,
     cr_ctx_init = aead_ctx_init lib, cr_ctx_release = aead_ctx_release\<rparr>"

text \<open>\<open>CryptoCrash\<close>: \<open>stream_init\<close> dereferences the null description of a cipher mbed TLS does not have.\<close>

datatype 'e crypto_init_result = CryptoNull | CryptoCrash | CryptoOk "'e crypto"

definition BF_NUM_ENTRIES_FOR_SERVER :: int where "BF_NUM_ENTRIES_FOR_SERVER = 1000000"
definition BF_ERROR_RATE_FOR_SERVER :: real where "BF_ERROR_RATE_FOR_SERVER = 1 / 10 ^ 6"

definition crypto_init ::
  "'e crypto_lib \<Rightarrow> bytes \<Rightarrow> bool \<Rightarrow> bool \<Rightarrow> crypto_globals \<Rightarrow> bytes \<Rightarrow> bytes option \<Rightarrow> string option
    \<Rightarrow> 'e crypto_init_result \<times> crypto_globals" where
  "crypto_init lib random calloc_ok1 calloc_ok2 g password key method =
    (let g = g\<lparr>g_pp := snd (ppbloom_init calloc_ok1 calloc_ok2 (g_pp g) BF_NUM_ENTRIES_FOR_SERVER BF_ERROR_RATE_FOR_SERVER)\<rparr>
     in (case method of
           None \<Rightarrow> (CryptoNull, g)
         | Some name \<Rightarrow>
             if name \<in> set supported_stream_ciphers
             then (case stream_init lib random password key (Some name) of
                     KeyNull \<Rightarrow> (CryptoNull, g)
                   | KeyCrash \<Rightarrow> (CryptoCrash, g)
                   | KeyOk cipher \<Rightarrow> (CryptoOk (stream_crypto lib cipher), g))
             else if name \<in> set supported_aead_ciphers
             then (case aead_init lib random password key (Some name) of
                     None \<Rightarrow> (CryptoNull, g)
                   | Some cipher \<Rightarrow> (CryptoOk (aead_crypto lib cipher), g))
             else (CryptoNull, g)))"

text \<open>Whatever \<open>calloc\<close> does, the replay filter that \<open>crypto_init\<close> leaves is safe to access.\<close>

lemma crypto_init_safe:
  assumes "pp_safe (g_pp g)"
  shows "pp_safe (g_pp (snd (crypto_init lib random calloc_ok1 calloc_ok2 g password key meth)))"
proof -
  have "bloom_params_ok (BF_NUM_ENTRIES_FOR_SERVER sdiv 2) BF_ERROR_RATE_FOR_SERVER"
    using bloom_params_server by (simp add: BF_NUM_ENTRIES_FOR_SERVER_def BF_ERROR_RATE_FOR_SERVER_def signed_divide_int_def)
  from ppbloom_init_safe [OF assms this] show ?thesis
    by (simp add: crypto_init_def Let_def split: option.split key_init_result.split)
qed

section \<open>Packet ciphers\<close>

text \<open>What the UDP relay relies on: what a sender seals, a receiver that has not seen the salt opens.\<close>

locale packet_cipher =
  fixes valid :: "'p \<Rightarrow> bool"
    and crypto_of :: "'p \<Rightarrow> 'e crypto"
    and salt_len :: "'p \<Rightarrow> nat"
  assumes seal_open: "valid p \<Longrightarrow> globals_ok gs \<Longrightarrow> globals_ok gr \<Longrightarrow> length salt = salt_len p \<Longrightarrow>
      ppbloom_check (g_pp gr) salt \<noteq> Some 1 \<Longrightarrow> m \<noteq> [] \<Longrightarrow> length m \<le> 2 ^ 38 \<Longrightarrow> buffer_ok b \<Longrightarrow> bcontent b = m \<Longrightarrow>
    \<exists>gs' c. cr_encrypt_all (crypto_of p) salt gs b (cr_cipher (crypto_of p)) cs = (CRYPTO_OK, gs', c) \<and>
      globals_ok gs' \<and> buffer_ok c \<and>
      (\<forall>d cr. buffer_ok d \<longrightarrow> bcontent d = bcontent c \<longrightarrow>
        (\<exists>gr' d'. cr_decrypt_all (crypto_of p) True gr d (cr_cipher (crypto_of p)) cr = (CRYPTO_OK, gr', d') \<and>
          globals_ok gr' \<and> buffer_ok d' \<and> bcontent d' = m))"

fun aead_valid :: "'e crypto_lib \<times> ('e \<Rightarrow> bytes \<Rightarrow> bool) \<times> cipher \<Rightarrow> bool" where
  "aead_valid (lib, keyed, ci) \<longleftrightarrow> aead_lib_ok lib keyed \<and> aead_cipher_ok ci"

fun salsa_valid :: "'e crypto_lib \<times> (bytes \<Rightarrow> nat \<Rightarrow> byte) \<times> cipher \<Rightarrow> bool" where
  "salsa_valid (lib, ks, ci) \<longleftrightarrow> salsa_cipher_ok ci \<and>
     (\<forall>n. length n = c_nonce_len ci \<longrightarrow> xor_ic_ok lib (c_method ci) (take (c_key_len ci) (c_key ci)) n (ks n))"

interpretation aead_packets: packet_cipher aead_valid "\<lambda>(lib, _, ci). aead_crypto lib ci" "\<lambda>(_, _, ci). c_key_len ci"
proof (unfold_locales, goal_cases)
  case (1 p gs gr salt m b cs)
  obtain lib keyed ci where p: "p = (lib, keyed, ci)" by (cases p) auto
  have v: "aead_lib_ok lib keyed" "aead_cipher_ok ci" using 1(1) p by simp_all
  have s: "length salt = c_key_len ci" using 1(4) p by simp
  obtain c gs' b' where e: "aead_encrypt_all lib salt gs b ci cs = (CRYPTO_OK, gs', b')" "globals_ok gs'"
      "buffer_ok b'" "bcontent b' = salt @ c" "sealed lib keyed ci (session_key lib ci salt) 0 m c"
    using aead_encrypt_all_sealed [OF v 1(2,8) s, of cs] 1(9) by auto
  have "\<exists>gr' d'. aead_decrypt_all lib True gr d ci cr = (CRYPTO_OK, gr', d') \<and> globals_ok gr' \<and> buffer_ok d' \<and> bcontent d' = m"
    if "buffer_ok d" "bcontent d = bcontent b'" for d cr
    using aead_decrypt_all_sealed [OF v 1(3) that(1) s 1(5) _ e(5) 1(6), of cr] that(2) e(4) by auto
  then show ?case using e by (auto simp: p aead_crypto_def)
qed

lemma crypto_stream_xor_ic_0:
  assumes "xor_ic_ok lib (c_method ci) k n ks" "salsa_cipher_ok ci" "length m \<le> 2 ^ 38"
  shows "crypto_stream_xor_ic lib m n 0 k (c_method ci) = xor_at ks 0 m"
proof (cases "m = []")
  case True
  have "lib_stream_xor_ic lib (c_method ci) k n 0 [] = xor_at ks 0 []"
    using assms(1) unfolding xor_ic_ok_def by (metis (no_types) add_0 list.size(3) mult_0_right unsigned_0 zero_le)
  then show ?thesis using assms(2) True by (auto simp: crypto_stream_xor_ic_def salsa_cipher_ok_def)
next
  case False
  then show ?thesis using crypto_stream_xor_ic_eq [OF assms(1,2), of 0 m] assms(3) by simp
qed

lemma stream_encrypt_all_salsa:
  assumes ok: "xor_ic_ok lib (c_method ci) (take (c_key_len ci) (c_key ci)) nonce ks" and ci: "salsa_cipher_ok ci"
    and g: "globals_ok g" and b: "buffer_ok b" "blen b \<le> 2 ^ 38" and n: "length nonce = c_nonce_len ci"
  shows "\<exists>g' b'. stream_encrypt_all lib nonce g b ci capacity = (CRYPTO_OK, g', b') \<and> globals_ok g' \<and> buffer_ok b' \<and>
    bcontent b' = nonce @ xor_at ks 0 (bcontent b)"
proof -
  let ?ctx = "stream_ctx_init lib nonce ci True"
  note i = stream_ctx_init_salsa [OF ci, where lib = lib]
  have s: "cipher_ctx_set_nonce lib ?ctx (c_nonce_len ci) True = ?ctx" using ci i(1) by simp
  have m: "SALSA20 \<le> c_method ci" by (rule salsa_method(1) [OF ci])
  have x: "crypto_stream_xor_ic lib (bcontent b) nonce 0 (take (c_key_len ci) (c_key ci)) (c_method ci) = xor_at ks 0 (bcontent b)"
    using b by (intro crypto_stream_xor_ic_0 [OF ok ci]) simp
  define tmp where "tmp = brealloc (g_stream_enc_all g) (c_nonce_len ci + blen b) capacity"
  have gb: "buffer_ok (g_stream_enc_all g)" using g by (simp add: globals_ok_def)
  have t: "buffer_ok tmp" "c_nonce_len ci + blen b \<le> length (bdata tmp)" using gb by (simp_all add: tmp_def)
  define mem where "mem = write_at (c_nonce_len ci) (xor_at ks 0 (bcontent b)) (write_at 0 nonce (bdata tmp))"
  have mm: "take (c_nonce_len ci + blen b) mem = nonce @ xor_at ks 0 (bcontent b)" "length mem = length (bdata tmp)"
    using t n b(1) by (simp_all add: mem_def take_write_at_end write_at_0)
  have "stream_encrypt_all lib nonce g b ci capacity =
      (CRYPTO_OK, g\<lparr>g_stream_enc_all := tmp\<lparr>blen := blen b, bdata := mem\<rparr>\<rparr>, bset b (nonce @ xor_at ks 0 (bcontent b)) capacity)"
    using m mm(1) by (simp only: stream_encrypt_all_def Let_def s i(5) [OF n] x tmp_def [symmetric]) (simp add: mem_def)
  moreover have "buffer_ok (tmp\<lparr>blen := blen b, bdata := mem\<rparr>)" using t mm(2) by (simp add: buffer_ok_def)
  ultimately show ?thesis using g b by simp
qed

lemma stream_decrypt_all_salsa:
  assumes ok: "xor_ic_ok lib (c_method ci) (take (c_key_len ci) (c_key ci)) nonce ks" and ci: "salsa_cipher_ok ci"
    and g: "globals_ok g" and b: "buffer_ok b" "bcontent b = nonce @ c" "c \<noteq> []" "length c \<le> 2 ^ 38"
    and n: "length nonce = c_nonce_len ci" "ppbloom_check (g_pp g) nonce \<noteq> Some 1"
  shows "\<exists>g' b'. stream_decrypt_all lib True g b ci capacity = (CRYPTO_OK, g', b') \<and> globals_ok g' \<and> buffer_ok b' \<and>
    bcontent b' = xor_at ks 0 c"
proof -
  let ?ctx = "stream_ctx_init lib [] ci False"
  note i = stream_ctx_init_salsa [OF ci, where lib = lib]
  have m: "SALSA20 \<le> c_method ci" by (rule salsa_method(1) [OF ci])
  have bl: "blen b = c_nonce_len ci + length c" using arg_cong [OF b(2), of length] b(1) n(1) by simp
  have tk: "take (c_nonce_len ci) (bdata b) = nonce"
    using arg_cong [OF b(2), of "take (c_nonce_len ci)"] bl n(1) by (simp add: bcontent_def)
  define ctx where "ctx = ?ctx\<lparr>x_nonce := write_at 0 nonce (x_nonce ?ctx)\<rparr>"
  have c: "take (c_nonce_len ci) (x_nonce ctx) = nonce" "cipher_ctx_set_nonce lib ctx (c_nonce_len ci) False = ctx"
    using n(1) [symmetric] ci i(1) by (simp_all add: ctx_def write_at_0)
  have dr: "drop (c_nonce_len ci) (bcontent b) = c" by (simp add: b(2) n(1) [symmetric])
  have x: "crypto_stream_xor_ic lib c nonce 0 (take (c_key_len ci) (c_key ci)) (c_method ci) = xor_at ks 0 c"
    by (rule crypto_stream_xor_ic_0 [OF ok ci b(4)])
  define tmp where "tmp = brealloc (g_stream_dec_all g) (blen b) capacity"
  have gb: "buffer_ok (g_stream_dec_all g)" "pp_inv (g_pp g)" using g by (simp_all add: globals_ok_def)
  have t: "buffer_ok tmp" "blen b \<le> length (bdata tmp)" using gb by (simp_all add: tmp_def)
  have mm: "take (length c) (write_at 0 (xor_at ks 0 c) (bdata tmp)) = xor_at ks 0 c"
      "length (write_at 0 (xor_at ks 0 c) (bdata tmp)) = length (bdata tmp)"
    using t(2) bl by (simp_all add: write_at_0)
  have "stream_decrypt_all lib True g b ci capacity =
      (CRYPTO_OK, g\<lparr>g_stream_dec_all := tmp\<lparr>blen := length c, bdata := write_at 0 (xor_at ks 0 c) (bdata tmp)\<rparr>,
        g_pp := pp_record True (g_pp g) nonce\<rparr>, bset b (xor_at ks 0 c) capacity)"
    using m mm(1) b(3) ppbloom_unseen [OF gb(2) n(2)] ppbloom_add_eq [OF gb(2)]
    by (simp only: stream_decrypt_all_def Let_def tk ctx_def [symmetric] c dr x tmp_def [symmetric]) (simp add: bl)
  moreover have "buffer_ok (tmp\<lparr>blen := length c, bdata := write_at 0 (xor_at ks 0 c) (bdata tmp)\<rparr>)"
    using t mm(2) bl by (simp add: buffer_ok_def)
  moreover have "pp_inv (pp_record True (g_pp g) nonce)" using gb(2) by (rule pp_record_inv)
  ultimately show ?thesis using g b(1) by simp
qed


interpretation salsa_packets: packet_cipher salsa_valid "\<lambda>(lib, _, ci). stream_crypto lib ci" "\<lambda>(_, _, ci). c_nonce_len ci"
proof (unfold_locales, goal_cases)
  case (1 p gs gr salt m b cs)
  obtain lib ks ci where p: "p = (lib, ks, ci)" by (cases p) auto
  have s: "length salt = c_nonce_len ci" using 1(4) p by simp
  have v: "xor_ic_ok lib (c_method ci) (take (c_key_len ci) (c_key ci)) salt (ks salt)" "salsa_cipher_ok ci"
    using 1(1) p s by simp_all
  have bl: "blen b \<le> 2 ^ 38" using 1(7,9) length_bcontent [OF 1(8)] by simp
  obtain gs' b' where e: "stream_encrypt_all lib salt gs b ci cs = (CRYPTO_OK, gs', b')" "globals_ok gs'"
      "buffer_ok b'" "bcontent b' = salt @ xor_at (ks salt) 0 m"
    using stream_encrypt_all_salsa [OF v 1(2,8) bl s, of cs] 1(9) by auto
  have "xor_at (ks salt) 0 m \<noteq> []" using 1(6) by (metis length_0_conv length_xor_at)
  then have "\<exists>gr' d'. stream_decrypt_all lib True gr d ci cr = (CRYPTO_OK, gr', d') \<and> globals_ok gr' \<and> buffer_ok d' \<and> bcontent d' = m"
    if "buffer_ok d" "bcontent d = bcontent b'" for d cr
    using stream_decrypt_all_salsa [OF v 1(3) that(1) _ _ _ s 1(5), of "xor_at (ks salt) 0 m" cr] that(2) e(4) 1(7) by auto
  then show ?case using e by (auto simp: p stream_crypto_def)
qed


section \<open>Properties\<close>

lemma aead_init_ok:
  assumes "md_ok (lib_md5 lib)" "64 \<le> length random" "name \<in> set supported_aead_ciphers"
  shows "\<exists>ci. aead_init lib random pass key (Some name) = Some ci \<and> aead_cipher_ok ci"
proof -
  have "find_method name supported_aead_ciphers 0 < 5"
    using assms(3) by (auto simp: supported_aead_ciphers_def)
  then show ?thesis
    using aead_key_init_ok [OF assms(1) _ _ assms(2), of "int (find_method name supported_aead_ciphers 0)" pass key]
    by (auto simp: aead_init_def Let_def AEAD_CIPHER_NUM_def)
qed

lemma aead_not_stream: "name \<in> set supported_aead_ciphers \<Longrightarrow> name \<notin> set supported_stream_ciphers"
  by (auto simp: supported_aead_ciphers_def supported_stream_ciphers_def)

lemma crash_names: "{''cast5-cfb'', ''des-cfb'', ''idea-cfb'', ''rc2-cfb'', ''seed-cfb''} \<subseteq> set supported_stream_ciphers"
  by (simp add: supported_stream_ciphers_def)

lemma salsa_names: "{''salsa20'', ''chacha20'', ''chacha20-ietf''} \<subseteq> set supported_stream_ciphers"
  by (simp add: supported_stream_ciphers_def)

lemma table_name: "''table'' \<in> set supported_stream_ciphers"
  by (simp add: supported_stream_ciphers_def)

text \<open>\<open>crypto_init\<close> selects the functions by the method name.  Every AEAD name gives the AEAD
  functions with a well-formed cipher; the names cast5, des, idea, rc2 and seed crash, \<open>table\<close> and unknown names
  and a missing name give NULL, and the libsodium stream names give the stream functions with a cipher of
  that family; in every case the replay filter is reset to an empty one of 500000 entries per half.\<close>

theorem crypto_init_dispatch:
  assumes "md_ok (lib_md5 lib)" "64 \<le> length random" "length (pp_bloom (g_pp g)) = 2" "length (pp_count (g_pp g)) = 2"
    and "crypto_init lib random True True g password key meth = (r, g')"
  shows "(\<forall>x. ppbloom_check (g_pp g') x = Some 0) \<and> pp_inv (g_pp g') \<and>
    (case meth of
       None \<Rightarrow> r = CryptoNull
     | Some name \<Rightarrow>
         if name \<in> set supported_aead_ciphers then \<exists>ci. r = CryptoOk (aead_crypto lib ci) \<and> aead_cipher_ok ci
         else if name \<in> {''cast5-cfb'', ''des-cfb'', ''idea-cfb'', ''rc2-cfb'', ''seed-cfb''} then r = CryptoCrash
         else if name \<in> {''salsa20'', ''chacha20'', ''chacha20-ietf''} \<and> key = None
           then \<exists>ci. r = CryptoOk (stream_crypto lib ci) \<and> salsa_cipher_ok ci
         else name = ''table'' \<or> name \<notin> set supported_stream_ciphers \<longrightarrow> r = CryptoNull)"
proof (intro conjI allI)
  let ?s = "ppbloom_init True True (g_pp g) BF_NUM_ENTRIES_FOR_SERVER BF_ERROR_RATE_FOR_SERVER"
  have pp: "g_pp g' = snd ?s"
    using assms(5) by (auto simp: crypto_init_def Let_def split: option.splits if_splits key_init_result.splits)
  have b: "bloom_params_ok (BF_NUM_ENTRIES_FOR_SERVER sdiv 2) BF_ERROR_RATE_FOR_SERVER"
    using bloom_params_server by (simp add: BF_NUM_ENTRIES_FOR_SERVER_def BF_ERROR_RATE_FOR_SERVER_def signed_divide_int_def)
  show "ppbloom_check (g_pp g') x = Some 0" for x
    unfolding pp using assms(3,4) by (intro ppbloom_init_fresh [OF b])
  show "pp_inv (g_pp g')"
    unfolding pp using assms(3,4) by (intro ppbloom_init_inv(2) [OF b])
  show "case meth of
       None \<Rightarrow> r = CryptoNull
     | Some name \<Rightarrow>
         if name \<in> set supported_aead_ciphers then \<exists>ci. r = CryptoOk (aead_crypto lib ci) \<and> aead_cipher_ok ci
         else if name \<in> {''cast5-cfb'', ''des-cfb'', ''idea-cfb'', ''rc2-cfb'', ''seed-cfb''} then r = CryptoCrash
         else if name \<in> {''salsa20'', ''chacha20'', ''chacha20-ietf''} \<and> key = None
           then \<exists>ci. r = CryptoOk (stream_crypto lib ci) \<and> salsa_cipher_ok ci
         else name = ''table'' \<or> name \<notin> set supported_stream_ciphers \<longrightarrow> r = CryptoNull"
  proof (cases meth)
    case None
    then show ?thesis using assms(5) by (simp add: crypto_init_def Let_def)
  next
    case (Some name)
    define C where "C = {''cast5-cfb'', ''des-cfb'', ''idea-cfb'', ''rc2-cfb'', ''seed-cfb''}"
    define S where "S = {''salsa20'', ''chacha20'', ''chacha20-ietf''}"
    have sub: "C \<subseteq> set supported_stream_ciphers" "S \<subseteq> set supported_stream_ciphers"
      using crash_names salsa_names by (simp_all only: C_def S_def)
    have r: "r = fst (crypto_init lib random True True g password key (Some name))" using assms(5) Some by simp
    consider "name \<in> set supported_aead_ciphers" | "name \<notin> set supported_aead_ciphers" "name \<in> C"
      | "name \<notin> set supported_aead_ciphers" "name \<notin> C" "name \<in> S" "key = None"
      | "name \<notin> set supported_aead_ciphers" "name \<notin> C" "\<not> (name \<in> S \<and> key = None)"
      by blast
    then show ?thesis
    proof cases
      case 1
      then have "\<exists>ci. r = CryptoOk (aead_crypto lib ci) \<and> aead_cipher_ok ci"
        using aead_init_ok [OF assms(1,2) 1, of password key] aead_not_stream [OF 1] by (auto simp: r crypto_init_def)
      then show ?thesis unfolding Some option.case C_def [symmetric] S_def [symmetric] using 1 by simp
    next
      case 2
      have "name \<in> set supported_stream_ciphers" using 2(2) sub(1) by blast
      then have "r = CryptoCrash" by (simp add: r crypto_init_def stream_init_crash [OF 2(2) [unfolded C_def]])
      then show ?thesis unfolding Some option.case C_def [symmetric] S_def [symmetric] using 2 by simp
    next
      case 3
      have "name \<in> set supported_stream_ciphers" using 3(3) sub(2) by blast
      then have "\<exists>ci. r = CryptoOk (stream_crypto lib ci) \<and> salsa_cipher_ok ci"
        using stream_init_salsa [OF 3(3) [unfolded S_def], of lib random password] 3(4) by (auto simp: r crypto_init_def)
      then show ?thesis unfolding Some option.case C_def [symmetric] S_def [symmetric] using 3 by simp
    next
      case 4
      have "r = CryptoNull" if "name = ''table'' \<or> name \<notin> set supported_stream_ciphers"
        using that 4(1) table_name by (auto simp: r crypto_init_def stream_init_null(2))
      then show ?thesis unfolding Some option.case C_def [symmetric] S_def [symmetric] using 4 by auto
    qed
  qed
qed

definition globals_zero :: crypto_globals where
  "globals_zero = globals_demo\<lparr>g_pp := ppbloom_zero\<rparr>"

theorem crypto_init_dispatch_witness:
  "\<exists>ci. fst (crypto_init lib_demo (replicate 64 3) True True globals_zero (cstr ''secret'') None (Some ''aes-256-gcm'')) =
     CryptoOk (aead_crypto lib_demo ci) \<and> aead_cipher_ok ci"
proof -
  obtain r g' where e: "crypto_init lib_demo (replicate 64 3) True True globals_zero (cstr ''secret'') None (Some ''aes-256-gcm'') = (r, g')"
    by fastforce
  have "md_ok (lib_md5 lib_demo)" "64 \<le> length (replicate 64 (3 :: byte))" "length (pp_bloom (g_pp globals_zero)) = 2"
      "length (pp_count (g_pp globals_zero)) = 2"
    by (simp_all add: md_demo_ok globals_zero_def ppbloom_zero_def)
  from crypto_init_dispatch [OF this e] e show ?thesis by (simp add: supported_aead_ciphers_def)
qed

end
