(* ===== verification/Cache.thy ===== *)
theory Cache
  imports Prelude "HOL-Library.Multiset"
begin

text \<open>
  \<open>shadowsocks-libev/src/cache.c\<close>: the LRU cache behind the block list and the UDP association
  table.  The entries are the uthash application order, oldest first: \<open>HASH_ADD_KEYPTR\<close> appends,
  \<open>HASH_ITER\<close> walks from the front, and \<open>HASH_FIND\<close> finds the most recently added entry of a
  key.  A null pointer argument is \<open>None\<close>; the clock \<open>ev_time()\<close> is an argument; what an operation
  gives to \<open>free_cb\<close> or \<open>ss_free\<close> is returned as a list.
\<close>

section \<open>Data\<close>

record 'v cache_entry =
  ce_key :: bytes
  ce_data :: "'v option"
  ce_ts :: real

record 'v cache =
  max_entries :: nat
  entries :: "'v cache_entry list"
  free_cb :: bool

datatype 'v released = FreeCb bytes 'v | SsFree 'v

definition EINVAL :: int where "EINVAL = 22"
definition ENOMEM :: int where "ENOMEM = 12"

text \<open>Releasing the data of an entry.\<close>

definition release :: "bool \<Rightarrow> 'v cache_entry \<Rightarrow> 'v released list" where
  "release cb e = (case ce_data e of None \<Rightarrow> [] | Some d \<Rightarrow> [if cb then FreeCb (ce_key e) d else SsFree d])"

text \<open>\<open>HASH_FIND\<close> followed by \<open>HASH_DEL\<close>: the entry and the remaining entries.\<close>

fun hash_take :: "bytes \<Rightarrow> 'v cache_entry list \<Rightarrow> ('v cache_entry \<times> 'v cache_entry list) option" where
  "hash_take k [] = None"
| "hash_take k (e # es) =
    (case hash_take k es of
       Some (x, r) \<Rightarrow> Some (x, e # r)
     | None \<Rightarrow> if ce_key e = k then Some (e, es) else None)"

section \<open>Operations\<close>

definition cache_create :: "bool \<Rightarrow> bool \<Rightarrow> nat \<Rightarrow> bool \<Rightarrow> int \<times> 'v cache option" where
  "cache_create dst malloc_ok capacity cb =
    (if \<not> dst then (EINVAL, None)
     else if \<not> malloc_ok then (ENOMEM, None)
     else (0, Some \<lparr>max_entries = capacity, entries = [], free_cb = cb\<rparr>))"

definition cache_delete :: "'v cache option \<Rightarrow> bool \<Rightarrow> int \<times> 'v released list" where
  "cache_delete c keep_data =
    (case c of
       None \<Rightarrow> (EINVAL, [])
     | Some c \<Rightarrow> (0, if keep_data then [] else concat (map (release (free_cb c)) (entries c))))"

definition cache_clear :: "real \<Rightarrow> 'v cache option \<Rightarrow> real \<Rightarrow> int \<times> 'v cache option \<times> 'v released list" where
  "cache_clear now c age =
    (case c of
       None \<Rightarrow> (EINVAL, None, [])
     | Some c \<Rightarrow>
         (0, Some (c\<lparr>entries := filter (\<lambda>e. \<not> now - ce_ts e > age) (entries c)\<rparr>),
          concat (map (release (free_cb c)) (filter (\<lambda>e. now - ce_ts e > age) (entries c)))))"

definition cache_remove :: "'v cache option \<Rightarrow> bytes option \<Rightarrow> int \<times> 'v cache option \<times> 'v released list" where
  "cache_remove c key =
    (case (c, key) of
       (Some c, Some key) \<Rightarrow>
         (case hash_take key (entries c) of
            Some (tmp, rest) \<Rightarrow> (0, Some (c\<lparr>entries := rest\<rparr>), release (free_cb c) tmp)
          | None \<Rightarrow> (0, Some c, []))
     | _ \<Rightarrow> (EINVAL, c, []))"

text \<open>\<open>result\<close> says whether the caller passed a place for the result; the last component is what is
  stored there.\<close>

definition cache_lookup ::
  "real \<Rightarrow> 'v cache option \<Rightarrow> bytes option \<Rightarrow> bool \<Rightarrow> int \<times> 'v cache option \<times> 'v option" where
  "cache_lookup now c key result =
    (case (c, key) of
       (Some c, Some key) \<Rightarrow>
         if \<not> result then (EINVAL, Some c, None)
         else (case hash_take key (entries c) of
            Some (tmp, rest) \<Rightarrow> (0, Some (c\<lparr>entries := rest @ [tmp\<lparr>ce_ts := now\<rparr>]\<rparr>), ce_data tmp)
          | None \<Rightarrow> (0, Some c, None))
     | _ \<Rightarrow> (EINVAL, c, None))"

definition cache_key_exist :: "real \<Rightarrow> 'v cache option \<Rightarrow> bytes option \<Rightarrow> bool \<times> 'v cache option" where
  "cache_key_exist now c key =
    (case (c, key) of
       (Some c, Some key) \<Rightarrow>
         (case hash_take key (entries c) of
            Some (tmp, rest) \<Rightarrow> (True, Some (c\<lparr>entries := rest @ [tmp\<lparr>ce_ts := now\<rparr>]\<rparr>))
          | None \<Rightarrow> (False, Some c))
     | _ \<Rightarrow> (False, c))"

definition cache_insert ::
  "bool \<Rightarrow> real \<Rightarrow> 'v cache option \<Rightarrow> bytes \<Rightarrow> 'v option \<Rightarrow> int \<times> 'v cache option \<times> 'v released list" where
  "cache_insert malloc_ok now c key data =
    (case c of
       None \<Rightarrow> (EINVAL, None, [])
     | Some c \<Rightarrow>
         if \<not> malloc_ok then (ENOMEM, Some c, [])
         else
           let es = entries c @ [\<lparr>ce_key = key, ce_data = data, ce_ts = now\<rparr>]
           in if length es \<ge> max_entries c
              then (0, Some (c\<lparr>entries := tl es\<rparr>), release (free_cb c) (hd es))
              else (0, Some (c\<lparr>entries := es\<rparr>), []))"

section \<open>Lemmas\<close>

lemma hash_take_None_iff [simp]: "hash_take k es = None \<longleftrightarrow> k \<notin> ce_key ` set es"
  by (induction es) (auto split: option.splits)

lemma hash_take_SomeD:
  assumes "hash_take k es = Some (e, r)"
  shows "\<exists>xs ys. es = xs @ e # ys \<and> r = xs @ ys \<and> ce_key e = k \<and> k \<notin> ce_key ` set ys"
  using assms
proof (induction es arbitrary: e r)
  case (Cons a es)
  show ?case
  proof (cases "hash_take k es")
    case None
    then have "k \<notin> ce_key ` set es" by simp
    then show ?thesis using Cons.prems None by (intro exI [where x = "[]"] exI [where x = es]) (auto split: if_splits)
  next
    case (Some p)
    then obtain r' where p: "hash_take k es = Some (e, r')" "r = a # r'"
      using Cons.prems by (cases p) auto
    from Cons.IH [OF p(1)] obtain xs ys where "es = xs @ e # ys" "r' = xs @ ys" "ce_key e = k" "k \<notin> ce_key ` set ys"
      by blast
    then show ?thesis using p(2) by (intro exI [where x = "a # xs"] exI [where x = ys]) simp
  qed
qed simp

lemma hash_take_append:
  "k \<notin> ce_key ` set ys \<Longrightarrow> ce_key e = k \<Longrightarrow> hash_take k (xs @ e # ys) = Some (e, xs @ ys)"
proof (induction xs)
  case Nil
  then have "hash_take k ys = None" by simp
  then show ?case using Nil by (simp del: hash_take_None_iff)
qed simp

text \<open>The invariant of a cache whose clients look a key up before they insert it.\<close>

definition keys :: "'v cache \<Rightarrow> bytes list" where
  "keys c = map ce_key (entries c)"

definition cache_ok :: "'v cache \<Rightarrow> bool" where
  "cache_ok c \<longleftrightarrow> distinct (keys c) \<and> length (entries c) < max_entries c"

lemma cache_lookup_ok:
  assumes "cache_ok c" "cache_lookup now (Some c) (Some k) True = (ret, Some c', d)"
  shows "cache_ok c' \<and> max_entries c' = max_entries c \<and> set (keys c') = set (keys c)"
  using assms by (auto simp: cache_lookup_def cache_ok_def keys_def split: option.splits dest!: hash_take_SomeD)

lemma cache_insert_ok:
  assumes "cache_ok c" "k \<notin> set (keys c)" "cache_insert True now (Some c) k d = (ret, Some c', rel)"
  shows "cache_ok c' \<and> max_entries c' = max_entries c"
  using assms by (cases "entries c") (auto simp: cache_insert_def cache_ok_def keys_def Let_def split: if_splits)

section \<open>Ownership\<close>

text \<open>The operations of a client, as commands.\<close>

datatype 'v cache_op =
    Lookup real bytes
  | KeyExist real bytes
  | Insert bool real bytes "'v option"
  | Remove bytes
  | Clear real real

fun cache_step :: "'v cache option \<Rightarrow> 'v cache_op \<Rightarrow> 'v cache option \<times> 'v released list" where
  "cache_step c (Lookup now k) = (case cache_lookup now c (Some k) True of (_, c', _) \<Rightarrow> (c', []))"
| "cache_step c (KeyExist now k) = (snd (cache_key_exist now c (Some k)), [])"
| "cache_step c (Insert m now k d) = snd (cache_insert m now c k d)"
| "cache_step c (Remove k) = snd (cache_remove c (Some k))"
| "cache_step c (Clear now age) = snd (cache_clear now c age)"

fun cache_run :: "'v cache option \<Rightarrow> 'v cache_op list \<Rightarrow> 'v cache option \<times> 'v released list" where
  "cache_run c [] = (c, [])"
| "cache_run c (x # xs) =
    (let (c', r) = cache_step c x; (c'', r') = cache_run c' xs in (c'', r @ r'))"

fun released_data :: "'v released \<Rightarrow> 'v" where
  "released_data (FreeCb k d) = d"
| "released_data (SsFree d) = d"

definition opt_mset :: "'v option \<Rightarrow> 'v multiset" where
  "opt_mset d = (case d of None \<Rightarrow> {#} | Some x \<Rightarrow> {#x#})"

definition entries_mset :: "'v cache_entry list \<Rightarrow> 'v multiset" where
  "entries_mset es = sum_list (map (\<lambda>e. opt_mset (ce_data e)) es)"

definition held :: "'v cache option \<Rightarrow> 'v multiset" where
  "held c = (case c of None \<Rightarrow> {#} | Some c \<Rightarrow> entries_mset (entries c))"

definition released_mset :: "'v released list \<Rightarrow> 'v multiset" where
  "released_mset r = mset (map released_data r)"

text \<open>What an operation hands over to the cache: the data of an insertion that succeeds.\<close>

fun given :: "'v cache_op \<Rightarrow> 'v multiset" where
  "given (Insert m now k d) = (if m then opt_mset d else {#})"
| "given _ = {#}"

lemma entries_mset_simps [simp]:
  "entries_mset [] = {#}" "entries_mset (e # es) = opt_mset (ce_data e) + entries_mset es"
  "entries_mset (es @ fs) = entries_mset es + entries_mset fs"
  by (simp_all add: entries_mset_def)

lemma released_mset_simps [simp]:
  "released_mset [] = {#}" "released_mset (r @ r') = released_mset r + released_mset r'"
  "released_mset (release cb e) = opt_mset (ce_data e)"
  by (simp_all add: released_mset_def release_def opt_mset_def split: option.splits)

lemma released_mset_concat [simp]: "released_mset (concat (map (release cb) es)) = entries_mset es"
  by (induction es) simp_all

lemma entries_mset_filter:
  "entries_mset (filter P es) + entries_mset (filter (\<lambda>e. \<not> P e) es) = entries_mset es"
  by (induction es) (auto simp: ac_simps)

lemma hash_take_facts:
  assumes "hash_take k es = Some (e, r)"
  shows "entries_mset es = opt_mset (ce_data e) + entries_mset r" "length es = Suc (length r)"
  using hash_take_SomeD [OF assms] by (auto simp: ac_simps)

lemma cache_step_ownership:
  assumes "cache_step (Some c) x = (c', r)"
  shows "\<exists>d. c' = Some d \<and> held c' + released_mset r = held (Some c) + given x \<and> max_entries d = max_entries c
    \<and> (length (entries c) < max_entries c \<longrightarrow> length (entries d) < max_entries d)"
proof (cases x)
  case (Lookup now k)
  then show ?thesis using assms
    by (auto simp: cache_lookup_def held_def hash_take_facts split: option.splits)
next
  case (KeyExist now k)
  then show ?thesis using assms
    by (auto simp: cache_key_exist_def held_def hash_take_facts split: option.splits)
next
  case (Insert m now k d)
  let ?e = "\<lparr>ce_key = k, ce_data = d, ce_ts = now\<rparr>"
  have hd_tl: "opt_mset (ce_data (hd (es @ [?e]))) + entries_mset (tl (es @ [?e])) = entries_mset es + opt_mset d" for es
    by (cases es) (simp_all add: add.assoc)
  show ?thesis
  proof (cases m)
    case True
    note r = assms [symmetric, unfolded Insert, simplified, unfolded cache_insert_def Let_def]
    show ?thesis
      by (cases "length (entries c @ [?e]) \<ge> max_entries c"; use r True hd_tl [of "entries c"] in \<open>simp add: held_def Insert add.commute\<close>)
  qed (use assms Insert in \<open>auto simp: cache_insert_def held_def\<close>)
next
  case (Remove k)
  then show ?thesis using assms
    by (auto simp: cache_remove_def held_def ac_simps hash_take_facts split: option.splits)
next
  case (Clear now age)
  have "held (fst (snd (cache_clear now (Some c) age))) + released_mset (snd (snd (cache_clear now (Some c) age))) = held (Some c)"
    using entries_mset_filter [of "\<lambda>e. now - ce_ts e > age" "entries c"]
    by (simp add: cache_clear_def held_def add.commute)
  then show ?thesis using assms Clear
    by (auto simp: cache_clear_def intro: le_less_trans [OF length_filter_le])
qed

lemma cache_run_ownership:
  "cache_run (Some c) xs = (c', r) \<Longrightarrow> length (entries c) < max_entries c \<Longrightarrow>
    \<exists>d. c' = Some d \<and> held c' + released_mset r = held (Some c) + sum_list (map given xs) \<and>
      max_entries d = max_entries c \<and> length (entries d) < max_entries d"
proof (induction xs arbitrary: c r)
  case (Cons x xs)
  obtain c1 r1 where s: "cache_step (Some c) x = (c1, r1)" by (cases "cache_step (Some c) x")
  from cache_step_ownership [OF s] Cons.prems(2) obtain d1 where d1: "c1 = Some d1"
      "held c1 + released_mset r1 = held (Some c) + given x" "max_entries d1 = max_entries c"
      "length (entries d1) < max_entries d1"
    by auto
  obtain r2 where r2: "cache_run (Some d1) xs = (c', r2)" "r = r1 @ r2"
    using Cons.prems(1) s d1(1) by (auto split: prod.splits)
  from Cons.IH [OF r2(1) d1(4)] obtain d where d: "c' = Some d"
      "held c' + released_mset r2 = held (Some d1) + sum_list (map given xs)" "max_entries d = max_entries d1"
      "length (entries d) < max_entries d"
    by blast
  have "held c' + released_mset r = released_mset r1 + (held c' + released_mset r2)"
    using r2(2) by (simp add: ac_simps)
  also have "\<dots> = held (Some c) + sum_list (map given (x # xs))"
  proof -
    have "released_mset r1 + held (Some d1) = held (Some c) + given x"
      using d1(1,2) by (simp add: add.commute)
    then show ?thesis unfolding d(2) by (simp add: add.assoc [symmetric])
  qed
  finally show ?case using d d1(3) by auto
qed auto

text \<open>C20 (safety): ownership.  From an empty cache of positive capacity, after any sequence of
  operations every data pointer handed over by a successful insertion is either still held or has been
  released, exactly as many times as it was handed over (no leak, no double free), and fewer than
  \<open>max_entries\<close> entries are held.\<close>

theorem cache_ownership:
  assumes "cache_create True True cap cb = (0, c0)" "cap > 0" "cache_run c0 ops = (c, r)"
  shows "\<exists>d. c = Some d \<and> held c + released_mset r = sum_list (map given ops) \<and> length (entries d) < cap"
proof -
  have c0: "c0 = Some \<lparr>max_entries = cap, entries = [], free_cb = cb\<rparr>"
    using assms(1) by (simp add: cache_create_def)
  show ?thesis
    using cache_run_ownership [OF assms(3) [unfolded c0]] assms(2) by (auto simp: held_def)
qed

theorem cache_ownership_witness:
  "\<exists>c r. cache_run (Some \<lparr>max_entries = 2, entries = [], free_cb = True\<rparr>)
      [Insert True 0 [1] (Some (7 :: nat)), Insert True 1 [2] (Some 8)] = (c, r) \<and> r = [FreeCb [1] 7] \<and>
    held c + released_mset r = {#7, 8#}"
proof -
  obtain c r where cr: "cache_run (Some \<lparr>max_entries = 2, entries = [], free_cb = True\<rparr>)
      [Insert True 0 [1] (Some (7 :: nat)), Insert True 1 [2] (Some 8)] = (c, r)" by fastforce
  have r: "r = [FreeCb [1] 7]"
    using cr by (simp add: cache_insert_def Let_def release_def)
  have cc: "cache_create True True 2 True = (0, Some \<lparr>max_entries = 2, entries = [] :: nat cache_entry list, free_cb = True\<rparr>)"
    by (simp add: cache_create_def)
  have "held c + released_mset r = {#7, 8#}"
    using cache_ownership [OF cc _ cr] by (auto simp: opt_mset_def add_mset_commute)
  with cr r show ?thesis by blast
qed

end
