(* ===== verification/IpAddress.thy ===== *)
theory IpAddress
  imports Prelude
begin

text \<open>
  \<open>libcork/src/libcork/core/ip-address.c\<close>: parsing, printing and network checks of IP addresses.
  Addresses are their bytes in network order; a C string is the byte list before its NUL; a parse
  error is \<open>None\<close>.  The hextet arrays of the IPv6 parser are the bytes written so far.
\<close>

section \<open>IPv4\<close>

definition is_dec_digit :: "byte \<Rightarrow> bool" where
  "is_dec_digit ch \<longleftrightarrow> 48 \<le> ch \<and> ch \<le> 57"

text \<open>The scanning loop of \<open>cork_ipv4_parse\<close>: the octets stored, whether the current octet has a digit,
  and its value.\<close>

fun ipv4_loop :: "bytes \<Rightarrow> bool \<Rightarrow> bytes \<Rightarrow> nat \<Rightarrow> bytes option" where
  "ipv4_loop [] seen_digit_in_octet result digit =
    (if seen_digit_in_octet \<and> length result = 3 then Some (result @ [word_of_nat digit]) else None)"
| "ipv4_loop (ch # str) seen_digit_in_octet result digit =
    (if is_dec_digit ch
     then
       let digit = digit * 10 + unat (ch - 48)
       in if digit > 255 then None else ipv4_loop str True result digit
     else if ch = chr (CHR ''.'')
     then if length result = 3 then None else ipv4_loop str False (result @ [word_of_nat digit]) 0
     else None)"

definition cork_ipv4_parse :: "bytes \<Rightarrow> bytes option" where
  "cork_ipv4_parse str = ipv4_loop str False [] 0"

definition cork_ipv4_init :: "bytes \<Rightarrow> int \<times> bytes option" where
  "cork_ipv4_init str = (case cork_ipv4_parse str of None \<Rightarrow> (-1, None) | Some addr \<Rightarrow> (0, Some addr))"

text \<open>\<open>printf("%u")\<close> and \<open>printf("%x")\<close>.\<close>

definition digit_char :: "nat \<Rightarrow> byte" where
  "digit_char d = (if d < 10 then word_of_nat (48 + d) else word_of_nat (87 + d))"

fun print_base :: "nat \<Rightarrow> nat \<Rightarrow> bytes" where
  "print_base b n = (if b < 2 \<or> n < b then [digit_char n] else print_base b (n div b) @ [digit_char (n mod b)])"

declare print_base.simps [simp del]

definition cork_ipv4_to_raw_string :: "bytes \<Rightarrow> bytes" where
  "cork_ipv4_to_raw_string addr =
    print_base 10 (unat (addr ! 0)) @ [chr (CHR ''.'')] @ print_base 10 (unat (addr ! 1)) @ [chr (CHR ''.'')] @
    print_base 10 (unat (addr ! 2)) @ [chr (CHR ''.'')] @ print_base 10 (unat (addr ! 3))"

text \<open>\<open>CORK_UINT32_BIG_TO_HOST\<close> of the address bytes.\<close>

definition be_val :: "bytes \<Rightarrow> nat" where
  "be_val bs = foldl (\<lambda>n b. n * 256 + unat b) 0 bs"

definition le_nat :: "bytes \<Rightarrow> nat" where
  "le_nat bs = be_val (rev bs)"

definition cork_ipv4_is_valid_network :: "bytes \<Rightarrow> nat \<Rightarrow> bool" where
  "cork_ipv4_is_valid_network addr cidr_prefix =
    (if cidr_prefix > 32 then False
     else
       let cidr_mask = (if cidr_prefix = 32 then 0 else drop_bit cidr_prefix (0xffffffff :: 32 word))
       in (word_of_nat (be_val addr) :: 32 word) AND cidr_mask = 0)"

section \<open>IPv6\<close>

record ipv6_state =
  v6_digit :: "16 word"
  v6_before_count :: nat
  v6_before :: bytes
  v6_after :: bytes
  v6_in_after :: bool
  v6_digits_seen :: nat
  v6_hextets_seen :: nat
  v6_another_required :: bool
  v6_digit_allowed :: bool
  v6_colon_allowed :: bool
  v6_double_colon_allowed :: bool
  v6_just_saw_colon :: bool

definition ipv6_start :: ipv6_state where
  "ipv6_start = \<lparr>v6_digit = 0, v6_before_count = 0, v6_before = [], v6_after = [], v6_in_after = False,
     v6_digits_seen = 0, v6_hextets_seen = 0, v6_another_required = True, v6_digit_allowed = True,
     v6_colon_allowed = True, v6_double_colon_allowed = True, v6_just_saw_colon = False\<rparr>"

text \<open>\<open>*(dest++) = ...\<close>\<close>

definition put_dest :: "bytes \<Rightarrow> ipv6_state \<Rightarrow> ipv6_state" where
  "put_dest bs st =
    (if v6_in_after st then st\<lparr>v6_after := v6_after st @ bs\<rparr> else st\<lparr>v6_before := v6_before st @ bs\<rparr>)"

definition hextet_bytes :: "16 word \<Rightarrow> bytes" where
  "hextet_bytes d = be16 (unat d)"

definition process_digit :: "nat \<Rightarrow> ipv6_state \<Rightarrow> ipv6_state option" where
  "process_digit v st =
    (if \<not> v6_digit_allowed st then None
     else if v6_digits_seen st = 4 then None
     else Some (st\<lparr>v6_digits_seen := v6_digits_seen st + 1, v6_colon_allowed := True, v6_just_saw_colon := False,
                  v6_digit := push_bit 4 (v6_digit st) OR word_of_nat v\<rparr>))"

definition process_colon :: "ipv6_state \<Rightarrow> ipv6_state option" where
  "process_colon st =
    (if \<not> v6_colon_allowed st then None
     else if v6_just_saw_colon st
     then Some (st\<lparr>v6_colon_allowed := False, v6_digit_allowed := True, v6_another_required := False,
                  v6_double_colon_allowed := False, v6_before_count := v6_hextets_seen st, v6_in_after := True\<rparr>)
     else if v6_hextets_seen st = 8 then None
     else if v6_digits_seen st = 0 \<and> v6_hextets_seen st = 0
     then Some (st\<lparr>v6_colon_allowed := True, v6_digit_allowed := False, v6_just_saw_colon := True,
                  v6_another_required := True\<rparr>)
     else Some ((put_dest (hextet_bytes (v6_digit st)) st)\<lparr>v6_digit := 0, v6_hextets_seen := v6_hextets_seen st + 1,
                  v6_digits_seen := 0, v6_colon_allowed := v6_double_colon_allowed st, v6_just_saw_colon := True,
                  v6_another_required := True\<rparr>))"

text \<open>\<open>rest\<close> is the string from the period on, \<open>str\<close> the whole string and \<open>i\<close> the position of the
  period.\<close>

definition process_period :: "bytes \<Rightarrow> nat \<Rightarrow> ipv6_state \<Rightarrow> ipv6_state option" where
  "process_period str i st =
    (if v6_hextets_seen st \<ge> 7 then None
     else (case cork_ipv4_parse (drop (i - v6_digits_seen st) str) of
             None \<Rightarrow> None
           | Some ipv4 \<Rightarrow> Some ((put_dest ipv4 st)\<lparr>v6_hextets_seen := v6_hextets_seen st + 2, v6_digits_seen := 0,
                                 v6_another_required := False\<rparr>)))"

definition hex_value :: "byte \<Rightarrow> nat option" where
  "hex_value ch =
    (if 48 \<le> ch \<and> ch \<le> 57 then Some (unat (ch - 48))
     else if 97 \<le> ch \<and> ch \<le> 102 then Some (unat (ch - 87))
     else if 65 \<le> ch \<and> ch \<le> 70 then Some (unat (ch - 55))
     else None)"

text \<open>After a period the IPv4 parser has consumed the string, and the loop ends.\<close>

fun ipv6_loop :: "bytes \<Rightarrow> nat \<Rightarrow> bytes \<Rightarrow> ipv6_state \<Rightarrow> ipv6_state option" where
  "ipv6_loop str i [] st = Some st"
| "ipv6_loop str i (ch # rest) st =
    (case hex_value ch of
       Some v \<Rightarrow> (case process_digit v st of None \<Rightarrow> None | Some st' \<Rightarrow> ipv6_loop str (i + 1) rest st')
     | None \<Rightarrow>
         if ch = chr (CHR '':'')
         then (case process_colon st of None \<Rightarrow> None | Some st' \<Rightarrow> ipv6_loop str (i + 1) rest st')
         else if ch = chr (CHR ''.'') then process_period str i st
         else None)"

definition ipv6_finish :: "ipv6_state \<Rightarrow> bytes option" where
  "ipv6_finish st =
    (let st' = (if v6_digits_seen st > 0
                then if v6_hextets_seen st = 8 then None
                     else Some ((put_dest (hextet_bytes (v6_digit st)) st)\<lparr>v6_hextets_seen := v6_hextets_seen st + 1\<rparr>)
                else if v6_another_required st then None else Some st)
     in (case st' of
           None \<Rightarrow> None
         | Some st \<Rightarrow>
             if \<not> v6_double_colon_allowed st
             then
               let after_count = v6_hextets_seen st - v6_before_count st;
                   addr = replicate 16 0;
                   addr = write_at 0 (take (2 * v6_before_count st) (v6_before st)) addr
               in Some (write_at (2 * (8 - after_count)) (take (2 * after_count) (v6_after st)) addr)
             else if v6_hextets_seen st = 8 then Some (take 16 (v6_before st))
             else None))"

definition cork_ipv6_init :: "bytes \<Rightarrow> int \<times> bytes option" where
  "cork_ipv6_init str =
    (case ipv6_loop str 0 str ipv6_start of
       None \<Rightarrow> (-1, None)
     | Some st \<Rightarrow> (case ipv6_finish st of None \<Rightarrow> (-1, None) | Some addr \<Rightarrow> (0, Some addr)))"

subsection \<open>Printing\<close>

definition v6_words :: "bytes \<Rightarrow> nat list" where
  "v6_words src = map (\<lambda>i. be16_val (drop (2 * i) src)) [0..<8]"

text \<open>The longest run of zero words; \<open>None\<close> is a base of -1.\<close>

definition better_run :: "(nat \<times> nat) option \<Rightarrow> (nat \<times> nat) option \<Rightarrow> (nat \<times> nat) option" where
  "better_run best cur =
    (case cur of
       None \<Rightarrow> best
     | Some (base, len) \<Rightarrow>
         (case best of None \<Rightarrow> cur | Some (_, best_len) \<Rightarrow> if len > best_len then cur else best))"

fun run_loop :: "nat \<Rightarrow> nat list \<Rightarrow> (nat \<times> nat) option \<Rightarrow> (nat \<times> nat) option \<Rightarrow> (nat \<times> nat) option" where
  "run_loop i [] best cur = better_run best cur"
| "run_loop i (w # ws) best cur =
    (if w = 0
     then run_loop (i + 1) ws best (case cur of None \<Rightarrow> Some (i, 1) | Some (base, len) \<Rightarrow> Some (base, len + 1))
     else run_loop (i + 1) ws (better_run best cur) None)"

definition best_run :: "nat list \<Rightarrow> (nat \<times> nat) option" where
  "best_run ws =
    (case run_loop 0 ws None None of
       None \<Rightarrow> None
     | Some (base, len) \<Rightarrow> if len < 2 then None else Some (base, len))"

fun in_run :: "(nat \<times> nat) option \<Rightarrow> nat \<Rightarrow> bool" where
  "in_run None i = False"
| "in_run (Some (base, len)) i = (i \<ge> base \<and> i < base + len)"

fun is_base :: "(nat \<times> nat) option \<Rightarrow> nat \<Rightarrow> bool" where
  "is_base None i = False"
| "is_base (Some (base, len)) i = (i = base)"

fun v4_tail :: "(nat \<times> nat) option \<Rightarrow> nat list \<Rightarrow> bool" where
  "v4_tail None words = False"
| "v4_tail (Some (base, len)) words = (base = 0 \<and> (len = 6 \<or> (len = 5 \<and> words ! 5 = 0xffff)))"

function ipv6_format :: "(nat \<times> nat) option \<Rightarrow> nat list \<Rightarrow> bytes \<Rightarrow> nat \<Rightarrow> bytes" where
  "ipv6_format best words src i =
    (if i \<ge> 8 then []
     else if in_run best i
     then (if is_base best i then [chr (CHR '':'')] else []) @ ipv6_format best words src (i + 1)
     else
       (if i \<noteq> 0 then [chr (CHR '':'')] else []) @
       (if i = 6 \<and> v4_tail best words
        then cork_ipv4_to_raw_string (drop 12 src)
        else print_base 16 (words ! i) @ ipv6_format best words src (i + 1)))"
  by auto
termination by (relation "measure (\<lambda>(_, _, _, i). 8 - i)") auto

declare ipv6_format.simps [simp del]

definition cork_ipv6_to_raw_string :: "bytes \<Rightarrow> bytes" where
  "cork_ipv6_to_raw_string addr =
    (let words = v6_words addr;
         best = best_run words
     in ipv6_format best words addr 0 @
        (case best of None \<Rightarrow> [] | Some (base, len) \<Rightarrow> if base + len = 8 then [chr (CHR '':'')] else []))"

text \<open>\<open>addr->_.u64[i]\<close> on a little-endian machine; the mask is applied before the conversion.\<close>

definition cork_ipv6_is_valid_network :: "bytes \<Rightarrow> nat \<Rightarrow> bool" where
  "cork_ipv6_is_valid_network addr cidr_prefix =
    (if cidr_prefix > 128 then False
     else
       let ones = 0xffffffffffffffff :: 64 word;
           (mask0, mask1) =
             (if cidr_prefix = 128 then (0, 0)
              else if cidr_prefix = 64 then (0, ones)
              else if cidr_prefix > 64 then (0, drop_bit (cidr_prefix - 64) ones)
              else (drop_bit cidr_prefix ones, ones))
       in (word_of_nat (le_nat (take 8 addr)) :: 64 word) AND mask0 = 0 \<and>
          (word_of_nat (le_nat (take 8 (drop 8 addr))) :: 64 word) AND mask1 = 0)"

section \<open>Either version\<close>

datatype cork_ip = V4 bytes | V6 bytes

definition cork_ip_init :: "bytes \<Rightarrow> int \<times> cork_ip option" where
  "cork_ip_init str =
    (case cork_ipv4_init str of
       (rc, Some a) \<Rightarrow> if rc = 0 then (0, Some (V4 a)) else (-1, None)
     | (rc, None) \<Rightarrow>
         (case cork_ipv6_init str of
            (rc, Some a) \<Rightarrow> if rc = 0 then (0, Some (V6 a)) else (-1, None)
          | (rc, None) \<Rightarrow> (-1, None)))"

fun cork_ip_to_raw_string :: "cork_ip \<Rightarrow> bytes" where
  "cork_ip_to_raw_string (V4 a) = cork_ipv4_to_raw_string a"
| "cork_ip_to_raw_string (V6 a) = cork_ipv6_to_raw_string a"

fun cork_ip_is_valid_network :: "cork_ip \<Rightarrow> nat \<Rightarrow> bool" where
  "cork_ip_is_valid_network (V4 a) p = cork_ipv4_is_valid_network a p"
| "cork_ip_is_valid_network (V6 a) p = cork_ipv6_is_valid_network a p"

fun cork_ip_equal :: "cork_ip \<Rightarrow> cork_ip \<Rightarrow> bool" where
  "cork_ip_equal (V4 a) (V4 b) = (a = b)"
| "cork_ip_equal (V6 a) (V6 b) = (a = b)"
| "cork_ip_equal _ _ = False"

fun ip_ok :: "cork_ip \<Rightarrow> bool" where
  "ip_ok (V4 a) = (length a = 4)"
| "ip_ok (V6 a) = (length a = 16)"

section \<open>Digits\<close>

lemma hex_value_digit [simp]: "d < 16 \<Longrightarrow> hex_value (digit_char d) = Some d"
proof -
  have "\<forall>d<16. hex_value (digit_char d) = Some d" by code_simp
  then show "d < 16 \<Longrightarrow> hex_value (digit_char d) = Some d" by blast
qed

lemma dec_digit_char [simp]:
  "d < 10 \<Longrightarrow> is_dec_digit (digit_char d)" "d < 10 \<Longrightarrow> unat (digit_char d - 48) = d"
proof -
  have "\<forall>d<10. is_dec_digit (digit_char d) \<and> unat (digit_char d - 48) = d" by code_simp
  then show "d < 10 \<Longrightarrow> is_dec_digit (digit_char d)" "d < 10 \<Longrightarrow> unat (digit_char d - 48) = d" by blast+
qed

lemma sep_chars [simp]: "hex_value (chr CHR '':'') = None" "hex_value (chr CHR ''.'') = None"
  "\<not> is_dec_digit (chr CHR ''.'')" "\<not> is_dec_digit (chr CHR '':'')" "chr CHR '':'' \<noteq> chr CHR ''.''" "chr CHR ''.'' \<noteq> chr CHR '':''"
  by (simp_all add: chr_def hex_value_def is_dec_digit_def)

lemma print_base_nonempty [simp]: "print_base b n \<noteq> []"
  by (simp add: print_base.simps [of b n])

lemma length_print_base: "2 \<le> b \<Longrightarrow> n < b ^ k \<Longrightarrow> 0 < k \<Longrightarrow> length (print_base b n) \<le> k"
proof (induction k arbitrary: n)
  case (Suc k)
  show ?case
  proof (cases "n < b")
    case False
    then have "0 < k" using Suc.prems by (cases k) auto
    moreover have "n div b < b ^ k" using Suc.prems by (simp add: less_mult_imp_div_less mult.commute)
    ultimately show ?thesis using Suc False by (simp add: print_base.simps [of b n])
  qed (simp add: print_base.simps [of b n])
qed simp

section \<open>IPv4 round trip\<close>

lemma ipv4_loop_dec:
  "n \<le> 255 \<Longrightarrow> ipv4_loop (print_base 10 n @ str) s r 0 = ipv4_loop str True r n"
proof (induction n arbitrary: str rule: less_induct)
  case (less n)
  show ?case
  proof (cases "n < 10")
    case True
    then show ?thesis using less.prems by (simp add: print_base.simps [of 10 n])
  next
    case False
    have "ipv4_loop (print_base 10 (n div 10) @ digit_char (n mod 10) # str) s r 0 =
        ipv4_loop (digit_char (n mod 10) # str) True r (n div 10)"
      using less.IH [of "n div 10" "digit_char (n mod 10) # str"] False less.prems by simp
    moreover have "n div 10 * 10 + n mod 10 = n" by simp
    ultimately show ?thesis using False less.prems by (simp add: print_base.simps [of 10 n])
  qed
qed

lemma cork_ipv4_parse_print:
  assumes "length a = 4"
  shows "cork_ipv4_parse (cork_ipv4_to_raw_string a) = Some a"
proof -
  have "length a = Suc (Suc (Suc (Suc 0)))" using assms by simp
  then obtain w x y z where a: "a = [w, x, y, z]" by (auto simp only: length_Suc_conv length_0_conv)
  have l: "ipv4_loop (print_base 10 (unat z)) s r 0 = ipv4_loop [] True r (unat z)" for s r
    using ipv4_loop_dec [of "unat z" "[]" s r] by simp
  show ?thesis by (simp add: cork_ipv4_parse_def cork_ipv4_to_raw_string_def a ipv4_loop_dec l)
qed

section \<open>IPv6 round trip\<close>

lemma word_shift_or:
  assumes "n < 4096" "v < 16"
  shows "push_bit 4 (word_of_nat n) OR word_of_nat v = (word_of_nat (16 * n + v) :: 16 word)"
proof -
  have "push_bit 4 (word_of_nat n) OR word_of_nat v = (push_bit 4 (word_of_nat n) + word_of_nat v :: 16 word)"
  proof (rule disjunctive_add_eq_or [symmetric])
    have v: "v = take_bit 4 v" using assms by (simp add: take_bit_nat_eq_self)
    show "push_bit 4 (word_of_nat n) AND word_of_nat v = (0 :: 16 word)"
      by (subst v) (auto simp: bit_eq_iff bit_and_iff bit_push_bit_iff bit_of_nat_iff bit_take_bit_iff)
  qed
  also have "\<dots> = word_of_nat (16 * n + v)" by (simp add: push_bit_eq_mult)
  finally show ?thesis .
qed

lemma ipv6_loop_hex:
  assumes "v6_digit st = 0" "v6_digits_seen st = 0" "v6_digit_allowed st" "n < 65536"
  shows "ipv6_loop str i (print_base 16 n @ rest) st = ipv6_loop str (i + length (print_base 16 n)) rest
    (st\<lparr>v6_digits_seen := length (print_base 16 n), v6_colon_allowed := True, v6_just_saw_colon := False,
        v6_digit := word_of_nat n\<rparr>)"
  using assms(4)
proof (induction n arbitrary: rest rule: less_induct)
  case (less n)
  show ?case
  proof (cases "n < 16")
    case True
    then show ?thesis using assms(1-3) by (simp add: print_base.simps [of 16 n] process_digit_def)
  next
    case False
    have m: "n div 16 < 16 ^ 3" using less.prems by (simp add: less_mult_imp_div_less)
    then have l: "length (print_base 16 (n div 16)) \<noteq> 4" using length_print_base [of 16 "n div 16" 3] by simp
    have "ipv6_loop str i (print_base 16 (n div 16) @ digit_char (n mod 16) # rest) st =
        ipv6_loop str (i + length (print_base 16 (n div 16))) (digit_char (n mod 16) # rest)
          (st\<lparr>v6_digits_seen := length (print_base 16 (n div 16)), v6_colon_allowed := True, v6_just_saw_colon := False,
            v6_digit := word_of_nat (n div 16)\<rparr>)"
      using less.IH [of "n div 16" "digit_char (n mod 16) # rest"] False less.prems by simp
    moreover have "push_bit 4 (word_of_nat (n div 16)) OR word_of_nat (n mod 16) = (word_of_nat n :: 16 word)"
      using word_shift_or [of "n div 16" "n mod 16"] m by simp
    ultimately show ?thesis using False l assms(3) by (simp add: print_base.simps [of 16 n] process_digit_def)
  qed
qed


text \<open>A parser state after the digits of a hextet.\<close>

definition mid_st :: "bool \<Rightarrow> nat \<Rightarrow> bytes \<Rightarrow> bytes \<Rightarrow> nat \<Rightarrow> nat \<Rightarrow> nat \<Rightarrow> bool \<Rightarrow> ipv6_state" where
  "mid_st ia bc bef aft hs d n ar = \<lparr>v6_digit = word_of_nat d, v6_before_count = bc, v6_before = bef, v6_after = aft,
     v6_in_after = ia, v6_digits_seen = n, v6_hextets_seen = hs, v6_another_required = ar, v6_digit_allowed = True,
     v6_colon_allowed = True, v6_double_colon_allowed = (\<not> ia), v6_just_saw_colon = False\<rparr>"

abbreviation hextets :: "nat list \<Rightarrow> bytes" where
  "hextets ws \<equiv> concat (map be16 ws)"

definition more_words :: "nat list \<Rightarrow> bytes" where
  "more_words ws = concat (map (\<lambda>w. chr (CHR '':'') # print_base 16 w) ws)"

lemma more_words_simps [simp]:
  "more_words [] = []" "more_words (w # ws) = chr (CHR '':'') # print_base 16 w @ more_words ws"
  by (simp_all add: more_words_def)

lemma hextet_bytes_nat [simp]: "d < 65536 \<Longrightarrow> hextet_bytes (word_of_nat d) = be16 d"
  by (simp add: hextet_bytes_def unat_of_nat)

lemma length_hextets [simp]: "length (hextets ws) = 2 * length ws"
  by (induction ws) simp_all

lemma ipv6_loop_more:
  assumes "0 < n" "hs + length ws \<le> 8" "\<forall>w\<in>set (d # ws). w < 65536"
  shows "\<exists>n' ar'. 0 < n' \<and> (\<forall>rest. ipv6_loop str i (more_words ws @ rest) (mid_st ia bc bef aft hs d n ar) =
    ipv6_loop str (i + length (more_words ws)) rest
      (mid_st ia bc (if ia then bef else bef @ hextets (butlast (d # ws))) (if ia then aft @ hextets (butlast (d # ws)) else aft)
         (hs + length ws) ((d # ws) ! length ws) n' ar'))"
  using assms
proof (induction ws arbitrary: i d n bef aft hs ar)
  case Nil
  then show ?case by auto
next
  case (Cons w ws)
  let ?bef = "if ia then bef else bef @ be16 d" and ?aft = "if ia then aft @ be16 d else aft"
  let ?n = "length (print_base 16 w)"
  have c: "process_colon (mid_st ia bc bef aft hs d n ar) =
      Some ((mid_st ia bc ?bef ?aft (hs + 1) 0 0 True)\<lparr>v6_colon_allowed := \<not> ia, v6_just_saw_colon := True\<rparr>)"
    using Cons.prems by (simp add: process_colon_def mid_st_def put_dest_def)
  have s: "ipv6_loop str i (more_words (w # ws) @ rest) (mid_st ia bc bef aft hs d n ar) =
      ipv6_loop str (i + 1 + ?n) (more_words ws @ rest) (mid_st ia bc ?bef ?aft (hs + 1) w ?n True)" for rest
    using c Cons.prems by (auto simp: ipv6_loop_hex mid_st_def)
  have "\<exists>n' ar'. 0 < n' \<and> (\<forall>rest. ipv6_loop str (i + 1 + ?n) (more_words ws @ rest) (mid_st ia bc ?bef ?aft (hs + 1) w ?n True) =
    ipv6_loop str (i + 1 + ?n + length (more_words ws)) rest
      (mid_st ia bc (if ia then ?bef else ?bef @ hextets (butlast (w # ws))) (if ia then ?aft @ hextets (butlast (w # ws)) else ?aft)
         (hs + 1 + length ws) ((w # ws) ! length ws) n' ar'))"
    using Cons.prems by (intro Cons.IH) auto
  then show ?case unfolding s by (elim ex_forward) (auto simp: add.assoc)
qed

text \<open>The state after a double colon.\<close>

definition dc_st :: "nat \<Rightarrow> bytes \<Rightarrow> ipv6_state" where
  "dc_st bc bef = (mid_st True bc bef [] bc 0 0 False)\<lparr>v6_colon_allowed := False, v6_just_saw_colon := True\<rparr>"

text \<open>Parsing what follows the double colon.\<close>

fun join_words :: "nat list \<Rightarrow> bytes" where
  "join_words [] = []"
| "join_words (w # ws) = print_base 16 w @ more_words ws"

lemma butlast_nth: "hextets (butlast (w # ws)) @ be16 ((w # ws) ! length ws) = hextets (w # ws)"
  by (induction ws arbitrary: w) auto

lemma finish_dc:
  assumes "length bef = 2 * bc" "bc + length ws \<le> 8" "\<forall>w\<in>set ws. w < 65536"
  shows "\<exists>st. ipv6_loop str i (join_words ws) (dc_st bc bef) = Some st \<and>
    ipv6_finish st = Some (bef @ replicate (16 - 2 * bc - 2 * length ws) 0 @ hextets ws)"
proof (cases ws)
  case Nil
  then show ?thesis using assms
    by (simp add: dc_st_def ipv6_finish_def mid_st_def write_at_def)
next
  case (Cons w vs)
  let ?n = "length (print_base 16 w)"
  obtain n' ar' where p: "0 < n'" "ipv6_loop str (i + ?n) (more_words vs) (mid_st True bc bef [] bc w ?n False) =
      Some (mid_st True bc bef (hextets (butlast ws)) (bc + length vs) (ws ! length vs) n' ar')"
    using ipv6_loop_more [of ?n bc vs w str "i + ?n" True bc bef "[]" False] assms Cons
    by (auto dest!: spec [of _ "[]"])
  have s: "ipv6_loop str i (join_words ws) (dc_st bc bef) = Some (mid_st True bc bef (hextets (butlast ws)) (bc + length vs) (ws ! length vs) n' ar')"
    using p(2) assms(3) Cons by (simp add: ipv6_loop_hex dc_st_def mid_st_def)
  have l: "ws ! length vs < 65536" using assms(3) Cons by (metis length_Cons lessI nth_mem)
  have h: "hextets (butlast ws) @ be16 (ws ! length vs) = hextets ws" using butlast_nth [of w vs] Cons by simp
  have "ipv6_finish (mid_st True bc bef (hextets (butlast ws)) (bc + length vs) (ws ! length vs) n' ar') =
      Some (bef @ replicate (16 - 2 * bc - 2 * length ws) 0 @ hextets ws)"
    using p(1) assms Cons l h
    by (simp add: ipv6_finish_def mid_st_def put_dest_def write_at_def)
  with s show ?thesis by blast
qed


subsection \<open>The zero run\<close>

definition zero_run :: "nat list \<Rightarrow> (nat \<times> nat) option \<Rightarrow> bool" where
  "zero_run W r = (case r of None \<Rightarrow> True | Some (b, l) \<Rightarrow> b + l \<le> length W \<and> (\<forall>j. b \<le> j \<and> j < b + l \<longrightarrow> W ! j = 0))"

lemma zero_run_better: "zero_run W best \<Longrightarrow> zero_run W cur \<Longrightarrow> zero_run W (better_run best cur)"
  by (auto simp: better_run_def split: option.splits)

lemma run_loop_zero:
  "drop i W = ws \<Longrightarrow> zero_run W best \<Longrightarrow> zero_run W cur \<Longrightarrow> (\<forall>b l. cur = Some (b, l) \<longrightarrow> b + l = i) \<Longrightarrow>
    zero_run W (run_loop i ws best cur)"
proof (induction ws arbitrary: i best cur)
  case Nil
  then show ?case by (simp add: zero_run_better)
next
  case (Cons w ws)
  have i: "i < length W" "W ! i = w" "drop (i + 1) W = ws"
  proof -
    show i: "i < length W" using Cons.prems(1) by (metis drop_eq_Nil2 list.distinct(1) not_le)
    then have "W ! i # drop (Suc i) W = w # ws" using Cons.prems(1) by (simp add: Cons_nth_drop_Suc)
    then show "W ! i = w" "drop (i + 1) W = ws" by simp_all
  qed
  show ?case
  proof (cases "w = 0")
    case True
    have z: "zero_run W (case cur of None \<Rightarrow> Some (i, 1) | Some (base, len) \<Rightarrow> Some (base, len + 1))"
      using Cons.prems(3,4) i True by (auto simp: zero_run_def less_Suc_eq split: option.splits)
    have "zero_run W (run_loop (i + 1) ws best (case cur of None \<Rightarrow> Some (i, 1) | Some (base, len) \<Rightarrow> Some (base, len + 1)))"
      using Cons.prems(4) by (intro Cons.IH [OF i(3) Cons.prems(2) z]) (auto split: option.splits)
    then show ?thesis using True by simp
  next
    case False
    have "zero_run W (run_loop (i + 1) ws (better_run best cur) None)"
      by (rule Cons.IH [OF i(3) zero_run_better [OF Cons.prems(2,3)]]) (simp_all add: zero_run_def)
    then show ?thesis using False by simp
  qed
qed

lemma best_run_zero:
  assumes "best_run W = Some (b, l)"
  shows "b + l \<le> length W" "2 \<le> l" "W = take b W @ replicate l 0 @ drop (b + l) W"
proof -
  have "zero_run W (run_loop 0 W None None)"
    by (rule run_loop_zero) (simp_all add: zero_run_def)
  then have z: "b + l \<le> length W" "2 \<le> l" "\<forall>j. b \<le> j \<and> j < b + l \<longrightarrow> W ! j = 0"
    using assms by (auto simp: best_run_def zero_run_def split: option.splits if_splits)
  then show "b + l \<le> length W" "2 \<le> l" by simp_all
  have "take l (drop b W) = replicate l 0"
    by (rule nth_equalityI) (use z in auto)
  then show "W = take b W @ replicate l 0 @ drop (b + l) W"
    by (metis add.commute append_take_drop_id drop_drop)
qed

subsection \<open>The printed form\<close>

lemma drop_Cons_nth: "i < length ws \<Longrightarrow> drop i ws = ws ! i # drop (Suc i) ws"
  by (rule Cons_nth_drop_Suc [symmetric])

lemma format_after:
  assumes "length ws = 8" "best = Some (b, l)" "b + l \<le> i" "\<not> v4_tail best ws" "0 < i"
  shows "ipv6_format best ws src i = more_words (drop i ws)"
  using assms(3,5)
proof (induction "8 - i" arbitrary: i)
  case 0
  then show ?case using assms(1) by (simp add: ipv6_format.simps [of _ ws src i])
next
  case (Suc k)
  then have "i < 8" by simp
  have "ipv6_format best ws src i = chr (CHR '':'') # print_base 16 (ws ! i) @ ipv6_format best ws src (i + 1)"
    using assms(2,4) Suc.prems \<open>i < 8\<close> by (subst ipv6_format.simps) auto
  then show ?case using Suc \<open>i < 8\<close> assms(1) by (simp add: drop_Cons_nth)
qed

lemma format_run:
  assumes "best = Some (b, l)" "b < i" "i \<le> b + l" "b + l \<le> 8"
  shows "ipv6_format best ws src i = ipv6_format best ws src (b + l)"
  using assms(2,3)
proof (induction "b + l - i" arbitrary: i)
  case (Suc k)
  then have i: "b < i" "i < b + l" by simp_all
  then have "ipv6_format best ws src i = ipv6_format best ws src (i + 1)"
    using assms(1,4) by (simp add: ipv6_format.simps [of _ ws src i])
  also have "\<dots> = ipv6_format best ws src (b + l)" using Suc.hyps i by (intro Suc.hyps(1)) simp_all
  finally show ?case .
qed simp

lemma format_base:
  assumes "best = Some (b, l)" "2 \<le> l" "b + l \<le> 8"
  shows "ipv6_format best ws src b = chr (CHR '':'') # ipv6_format best ws src (b + l)"
  using assms format_run [of best b l "b + 1" ws src] by (simp add: ipv6_format.simps [of _ ws src b])

lemma format_before:
  assumes "length ws = 8" "ub \<le> 8" "best = None \<and> ub = 8 \<or> (\<exists>l. best = Some (ub, l))" "0 < i" "i \<le> ub"
  shows "ipv6_format best ws src i = more_words (drop i (take ub ws)) @ ipv6_format best ws src ub"
  using assms(4,5)
proof (induction "ub - i" arbitrary: i)
  case (Suc k)
  then have i: "i < ub" by simp
  have "ipv6_format best ws src i = chr (CHR '':'') # print_base 16 (ws ! i) @ ipv6_format best ws src (i + 1)"
    using assms(2,3) i Suc.prems by (auto simp: ipv6_format.simps [of _ ws src i])
  moreover have "drop i (take ub ws) = ws ! i # drop (i + 1) (take ub ws)"
    using i assms(1,2) by (simp add: drop_Cons_nth)
  ultimately show ?case using Suc i by simp
qed (use assms(1) in simp)

lemma format_start:
  assumes "length ws = 8" "ub \<le> 8" "best = None \<and> ub = 8 \<or> (\<exists>l. best = Some (ub, l))" "0 < ub"
  shows "ipv6_format best ws src 0 = join_words (take ub ws) @ ipv6_format best ws src ub"
proof -
  have "ipv6_format best ws src 0 = print_base 16 (ws ! 0) @ ipv6_format best ws src 1"
    using assms by (auto simp: ipv6_format.simps [of _ ws src 0])
  moreover have "take ub ws = ws ! 0 # drop 1 (take ub ws)"
    using assms by (cases ws; cases ub) simp_all
  ultimately show ?thesis using format_before [OF assms(1-3), of 1 src] assms(4)
    by (metis (no_types) One_nat_def Suc_leI append.assoc join_words.simps(2) zero_less_one)
qed

lemma print_no_run:
  assumes "length a = 16" "best_run (v6_words a) = None"
  shows "cork_ipv6_to_raw_string a = join_words (v6_words a)"
  using assms format_start [of "v6_words a" 8 None a]
  by (simp add: cork_ipv6_to_raw_string_def v6_words_def ipv6_format.simps [of _ _ _ 8])

lemma print_run:
  assumes "best_run (v6_words a) = Some (b, l)" "\<not> v4_tail (Some (b, l)) (v6_words a)"
  shows "cork_ipv6_to_raw_string a =
    join_words (take b (v6_words a)) @ [chr (CHR '':''), chr (CHR '':'')] @ join_words (drop (b + l) (v6_words a))"
proof -
  let ?W = "v6_words a"
  have W: "length ?W = 8" by (simp add: v6_words_def)
  note z = best_run_zero [OF assms(1), unfolded W]
  let ?F = "ipv6_format (Some (b, l)) ?W a"
  have start: "?F 0 = join_words (take b ?W) @ chr (CHR '':'') # ?F (b + l)"
    using format_start [of ?W b "Some (b, l)" a] format_base [of "Some (b, l)" b l ?W a] W z by (cases "b = 0") auto
  have "?F (b + l) = more_words (drop (b + l) ?W)"
    using z W assms(2) by (intro format_after [OF W refl]) auto
  moreover have "more_words (drop (b + l) ?W) @ (if b + l = 8 then [chr (CHR '':'')] else []) =
      chr (CHR '':'') # join_words (drop (b + l) ?W)"
    using W z(1) by (cases "drop (b + l) ?W") auto
  ultimately show ?thesis using start assms(1) by (simp add: cork_ipv6_to_raw_string_def Let_def)
qed

lemma print_v4_tail:
  assumes "best_run (v6_words a) = Some (b, l)" "v4_tail (Some (b, l)) (v6_words a)"
  shows "cork_ipv6_to_raw_string a = [chr (CHR '':''), chr (CHR '':'')] @
    (if l = 6 then [] else print_base 16 0xffff @ [chr (CHR '':'')]) @ cork_ipv4_to_raw_string (drop 12 a)"
proof -
  let ?W = "v6_words a" and ?F = "ipv6_format (Some (b, l)) (v6_words a) a"
  have W: "length ?W = 8" by (simp add: v6_words_def)
  note z = best_run_zero [OF assms(1), unfolded W]
  have b: "b = 0" "l = 6 \<or> l = 5 \<and> ?W ! 5 = 0xffff" using assms(2) by auto
  have "?F 0 = chr (CHR '':'') # ?F l" using format_base [of "Some (b, l)" b l ?W a] z b(1) by simp
  moreover have "?F 6 = chr (CHR '':'') # cork_ipv4_to_raw_string (drop 12 a)" if "l \<le> 6"
    using that assms(2) b(1) by (simp add: ipv6_format.simps [of _ _ _ 6])
  moreover have "?F 5 = chr (CHR '':'') # print_base 16 0xffff @ ?F 6" if "l = 5"
    using that b by (simp add: ipv6_format.simps [of _ _ _ 5])
  ultimately show ?thesis using assms(1) b by (auto simp: cork_ipv6_to_raw_string_def Let_def)
qed


subsection \<open>Parsing the printed form\<close>

lemma word_bytes: "be16 (256 * unat x + unat y) = [x, y]" for x y :: byte
  by (simp add: be16_def)

lemma addr_hextets:
  assumes "length a = 16"
  shows "hextets (v6_words a) = a"
proof -
  have "hextets (map (\<lambda>i. be16_val (drop (2 * i) xs)) [0..<n]) = xs" if "length xs = 2 * n" for xs n
    using that
  proof (induction n arbitrary: xs)
    case (Suc n)
    then obtain x y zs where xs: "xs = x # y # zs" "length zs = 2 * n"
      by (cases xs; cases "tl xs") auto
    have "map (\<lambda>i. be16_val (drop (2 * i) xs)) [0..<Suc n] = be16_val xs # map (\<lambda>i. be16_val (drop (2 * i) zs)) [0..<n]"
      by (simp add: upt_conv_Cons map_Suc_upt [symmetric] xs(1) del: upt_Suc)
    then show ?case using Suc.IH [OF xs(2)] by (simp add: xs(1) be16_val_def word_bytes del: upt_Suc)
  qed simp
  from this [of a 8] show ?thesis using assms by (simp add: v6_words_def)
qed

lemma v6_words_bound: "\<forall>w\<in>set (v6_words a). w < 65536"
  by (auto simp: v6_words_def be16_val_bound)

lemma length_v6_words [simp]: "length (v6_words a) = 8"
  by (simp add: v6_words_def)

text \<open>A non-empty list of words from the start of the string.\<close>

lemma ipv6_loop_join:
  assumes "ws \<noteq> []" "length ws \<le> 8" "\<forall>w\<in>set ws. w < 65536"
  shows "\<exists>n' ar'. 0 < n' \<and> (\<forall>rest. ipv6_loop str 0 (join_words ws @ rest) ipv6_start =
    ipv6_loop str (length (join_words ws)) rest
      (mid_st False 0 (hextets (butlast ws)) [] (length ws - 1) (ws ! (length ws - 1)) n' ar'))"
proof -
  obtain w vs where ws: "ws = w # vs" using assms(1) by (cases ws) auto
  let ?n = "length (print_base 16 w)"
  have "ipv6_loop str 0 (join_words ws @ rest) ipv6_start =
      ipv6_loop str ?n (more_words vs @ rest) (mid_st False 0 [] [] 0 w ?n True)" for rest
    using assms(3) by (simp add: ws ipv6_loop_hex ipv6_start_def mid_st_def)
  then show ?thesis
    using ipv6_loop_more [of ?n 0 vs w str ?n False 0 "[]" "[]" True] assms ws by simp
qed

lemma ipv6_double_colon:
  assumes "length ws \<le> 6" "\<forall>w\<in>set ws. w < 65536"
  shows "ipv6_loop str 0 (join_words ws @ chr (CHR '':'') # chr (CHR '':'') # rest) ipv6_start =
    ipv6_loop str (length (join_words ws) + 2) rest (dc_st (length ws) (hextets ws))"
proof (cases "ws = []")
  case True
  then show ?thesis by (simp add: process_colon_def ipv6_start_def dc_st_def mid_st_def)
next
  case False
  obtain n' ar' where p: "0 < n'" "ipv6_loop str 0 (join_words ws @ chr (CHR '':'') # chr (CHR '':'') # rest) ipv6_start =
    ipv6_loop str (length (join_words ws)) (chr (CHR '':'') # chr (CHR '':'') # rest)
      (mid_st False 0 (hextets (butlast ws)) [] (length ws - 1) (ws ! (length ws - 1)) n' ar')"
    using ipv6_loop_join [OF False, of str] assms by auto
  have h: "hextets (butlast ws) @ be16 (ws ! (length ws - 1)) = hextets ws"
    using butlast_nth [of "hd ws" "tl ws"] False by (cases ws) simp_all
  have h2: "ws ! (length ws - 1) < 65536" "Suc (length ws - 1) = length ws"
    using False assms(2) nth_mem [of "length ws - 1" ws] by simp_all
  show ?thesis unfolding p(2) using p(1) assms(1) h h2
    by (simp add: process_colon_def mid_st_def put_dest_def dc_st_def)
qed

lemma parse_no_run:
  assumes "length ws = 8" "\<forall>w\<in>set ws. w < 65536"
  shows "cork_ipv6_init (join_words ws) = (0, Some (hextets ws))"
proof -
  have ne: "ws \<noteq> []" using assms(1) by auto
  obtain n' ar' where p: "0 < n'" "ipv6_loop (join_words ws) 0 (join_words ws) ipv6_start =
      Some (mid_st False 0 (hextets (butlast ws)) [] 7 (ws ! 7) n' ar')"
    using ipv6_loop_join [OF ne, of "join_words ws"] assms by (auto dest!: spec [of _ "[]"])
  have h: "hextets (butlast ws) @ be16 (ws ! 7) = hextets ws" "ws ! 7 < 65536"
    using butlast_nth [of "hd ws" "tl ws"] ne assms by (cases ws; force)+
  have "length (hextets ws) = 16" using assms(1) by simp
  then show ?thesis using p h
    by (simp add: cork_ipv6_init_def ipv6_finish_def mid_st_def put_dest_def del: length_hextets)
qed

lemma parse_run:
  assumes "length pre + length post \<le> 6" "\<forall>w\<in>set (pre @ post). w < 65536"
  shows "cork_ipv6_init (join_words pre @ [chr (CHR '':''), chr (CHR '':'')] @ join_words post) =
    (0, Some (hextets pre @ replicate (16 - 2 * length pre - 2 * length post) 0 @ hextets post))"
proof -
  let ?str = "join_words pre @ chr (CHR '':'') # chr (CHR '':'') # join_words post"
  obtain st where "ipv6_loop ?str (length (join_words pre) + 2) (join_words post) (dc_st (length pre) (hextets pre)) = Some st"
      "ipv6_finish st = Some (hextets pre @ replicate (16 - 2 * length pre - 2 * length post) 0 @ hextets post)"
    using finish_dc [of "hextets pre" "length pre" post ?str] assms by auto
  then show ?thesis using ipv6_double_colon [of pre ?str "join_words post"] assms
    by (simp add: cork_ipv6_init_def)
qed

text \<open>An IPv4 tail.\<close>

lemma ipv6_loop_dec:
  assumes "v6_digits_seen st = 0" "v6_digit_allowed st" "n < 256"
  shows "\<exists>d. \<forall>rest. ipv6_loop str i (print_base 10 n @ rest) st = ipv6_loop str (i + length (print_base 10 n)) rest
    (st\<lparr>v6_digits_seen := length (print_base 10 n), v6_colon_allowed := True, v6_just_saw_colon := False, v6_digit := d\<rparr>)"
  using assms(3)
proof (induction n rule: less_induct)
  case (less n)
  show ?case
  proof (cases "n < 10")
    case True
    then show ?thesis using assms(1,2) by (auto simp: print_base.simps [of 10 n] process_digit_def)
  next
    case False
    have "length (print_base 10 (n div 10)) \<le> 2"
      using length_print_base [of 10 "n div 10" 2] less.prems by simp
    then have l: "length (print_base 10 (n div 10)) \<noteq> 4" by simp
    obtain d where "\<forall>rest. ipv6_loop str i (print_base 10 (n div 10) @ rest) st =
        ipv6_loop str (i + length (print_base 10 (n div 10))) rest
          (st\<lparr>v6_digits_seen := length (print_base 10 (n div 10)), v6_colon_allowed := True, v6_just_saw_colon := False,
            v6_digit := d\<rparr>)"
      using less.IH [of "n div 10"] False less.prems by (fastforce intro: order.strict_trans1 [OF div_le_dividend])
    then show ?thesis using False l assms(2) by (auto simp: print_base.simps [of 10 n] process_digit_def)
  qed
qed

lemma ipv6_loop_v4:
  assumes "v6_digits_seen st = 0" "v6_digit_allowed st" "v6_hextets_seen st < 7" "length a = 4"
    and "drop i str = cork_ipv4_to_raw_string a" "v6_in_after st"
  shows "\<exists>d. ipv6_loop str i (cork_ipv4_to_raw_string a) st =
    Some (st\<lparr>v6_colon_allowed := True, v6_just_saw_colon := False, v6_digit := d, v6_after := v6_after st @ a,
       v6_hextets_seen := v6_hextets_seen st + 2, v6_digits_seen := 0, v6_another_required := False\<rparr>)"
proof -
  have a: "cork_ipv4_to_raw_string a = print_base 10 (unat (a ! 0)) @ chr (CHR ''.'') # drop (length (print_base 10 (unat (a ! 0))) + 1) (cork_ipv4_to_raw_string a)"
    by (simp add: cork_ipv4_to_raw_string_def)
  obtain d where d: "\<forall>rest. ipv6_loop str i (print_base 10 (unat (a ! 0)) @ rest) st =
      ipv6_loop str (i + length (print_base 10 (unat (a ! 0)))) rest
       (st\<lparr>v6_digits_seen := length (print_base 10 (unat (a ! 0))), v6_colon_allowed := True, v6_just_saw_colon := False, v6_digit := d\<rparr>)"
    using ipv6_loop_dec [OF assms(1,2) unat_byte_lt, of str i "a ! 0"] by blast
  have "ipv6_loop str i (cork_ipv4_to_raw_string a) st =
      process_period str (i + length (print_base 10 (unat (a ! 0))))
       (st\<lparr>v6_digits_seen := length (print_base 10 (unat (a ! 0))), v6_colon_allowed := True, v6_just_saw_colon := False, v6_digit := d\<rparr>)"
    by (subst a, subst d [rule_format]) simp
  then show ?thesis using assms cork_ipv4_parse_print [OF assms(4)]
    by (auto simp: process_period_def put_dest_def)
qed

lemma parse_v4_tail:
  assumes "length a = 4"
  shows "cork_ipv6_init ([chr (CHR '':''), chr (CHR '':'')] @ cork_ipv4_to_raw_string a) = (0, Some (replicate 12 0 @ a))" (is ?A)
    "cork_ipv6_init ([chr (CHR '':''), chr (CHR '':'')] @ (print_base 16 0xffff @ [chr (CHR '':'')]) @ cork_ipv4_to_raw_string a) =
      (0, Some (replicate 10 0 @ [0xff, 0xff] @ a))" (is ?B)
proof -
  let ?s = "[chr (CHR '':''), chr (CHR '':'')] @ cork_ipv4_to_raw_string a"
  have "\<exists>d. ipv6_loop ?s 2 (cork_ipv4_to_raw_string a) (dc_st 0 []) = Some ((dc_st 0 [])
       \<lparr>v6_colon_allowed := True, v6_just_saw_colon := False, v6_digit := d, v6_after := v6_after (dc_st 0 []) @ a,
       v6_hextets_seen := v6_hextets_seen (dc_st 0 []) + 2, v6_digits_seen := 0, v6_another_required := False\<rparr>)"
    by (rule ipv6_loop_v4) (simp_all add: dc_st_def mid_st_def assms)
  then obtain d where d: "ipv6_loop ?s 2 (cork_ipv4_to_raw_string a) (dc_st 0 []) = Some ((dc_st 0 [])
       \<lparr>v6_colon_allowed := True, v6_just_saw_colon := False, v6_digit := d, v6_after := v6_after (dc_st 0 []) @ a,
       v6_hextets_seen := v6_hextets_seen (dc_st 0 []) + 2, v6_digits_seen := 0, v6_another_required := False\<rparr>)" ..
  have "ipv6_loop ?s 0 ?s ipv6_start = ipv6_loop ?s 2 (cork_ipv4_to_raw_string a) (dc_st 0 [])"
    using ipv6_double_colon [of "[]" ?s "cork_ipv4_to_raw_string a"] by (simp only: append.simps join_words.simps) (simp add: numeral_2_eq_2)
  then show ?A unfolding cork_ipv6_init_def d using assms
    by (simp add: ipv6_finish_def dc_st_def mid_st_def write_at_def)
next
  let ?t = "chr (CHR '':'') # chr (CHR '':'') # print_base 16 0xffff @ chr (CHR '':'') # cork_ipv4_to_raw_string a"
  let ?n = "length (print_base 16 0xffff)"
  define st where "st = (mid_st True 0 [] [0xff, 0xff] 1 0 0 True)\<lparr>v6_colon_allowed := False, v6_just_saw_colon := True\<rparr>"
  have "process_colon (mid_st True 0 [] [] 0 0xffff ?n False) = Some st"
    by (simp add: process_colon_def mid_st_def put_dest_def st_def hextet_bytes_def be16_def)
  then have l: "ipv6_loop ?t 2 (print_base 16 0xffff @ chr (CHR '':'') # cork_ipv4_to_raw_string a) (dc_st 0 []) =
      ipv6_loop ?t (2 + ?n + 1) (cork_ipv4_to_raw_string a) st"
    by (simp add: ipv6_loop_hex dc_st_def mid_st_def)
  have "\<exists>d. ipv6_loop ?t (2 + ?n + 1) (cork_ipv4_to_raw_string a) st = Some (st
       \<lparr>v6_colon_allowed := True, v6_just_saw_colon := False, v6_digit := d, v6_after := v6_after st @ a,
       v6_hextets_seen := v6_hextets_seen st + 2, v6_digits_seen := 0, v6_another_required := False\<rparr>)"
    by (rule ipv6_loop_v4) (simp_all add: st_def mid_st_def assms)
  then obtain d where d: "ipv6_loop ?t (2 + ?n + 1) (cork_ipv4_to_raw_string a) st = Some (st
       \<lparr>v6_colon_allowed := True, v6_just_saw_colon := False, v6_digit := d, v6_after := v6_after st @ a,
       v6_hextets_seen := v6_hextets_seen st + 2, v6_digits_seen := 0, v6_another_required := False\<rparr>)" ..
  have "ipv6_loop ?t 0 ?t ipv6_start =
      ipv6_loop ?t 2 (print_base 16 0xffff @ chr (CHR '':'') # cork_ipv4_to_raw_string a) (dc_st 0 [])"
    using ipv6_double_colon [of "[]" ?t "print_base 16 0xffff @ chr (CHR '':'') # cork_ipv4_to_raw_string a"]
    by (simp only: append.simps join_words.simps) (simp add: numeral_2_eq_2)
  then have "cork_ipv6_init ?t = (0, Some (replicate 10 0 @ [0xff, 0xff] @ a))"
    unfolding cork_ipv6_init_def l d using assms by (simp add: ipv6_finish_def st_def mid_st_def write_at_def)
  then show ?B by simp
qed

lemma hextets_zero: "concat (replicate l (be16 0)) = replicate (2 * l) 0"
  by (induction l) (simp_all add: be16_def)

lemma ipv6_roundtrip:
  assumes "length a = 16"
  shows "cork_ipv6_init (cork_ipv6_to_raw_string a) = (0, Some a)"
proof (cases "best_run (v6_words a)")
  case None
  then show ?thesis using assms print_no_run parse_no_run [OF length_v6_words v6_words_bound] addr_hextets by simp
next
  case (Some p)
  then obtain b l where r: "best_run (v6_words a) = Some (b, l)" by (cases p) auto
  let ?W = "v6_words a"
  note z = best_run_zero [OF r]
  show ?thesis
  proof (cases "v4_tail (Some (b, l)) ?W")
    case True
    have d: "length (drop 12 a) = 4" using assms by simp
    have b: "b = 0" "l = 6 \<or> l = 5 \<and> ?W ! 5 = 0xffff" using True by auto
    have "a = hextets ?W" using addr_hextets [OF assms] by simp
    also have "?W = replicate l 0 @ drop l ?W" using z(3) b(1) by simp
    finally have a: "a = replicate (2 * l) 0 @ hextets (drop l ?W)"
      by (simp add: hextets_zero)
    have dl: "drop l ?W = ?W ! l # drop (Suc l) ?W" using z(1) b by (intro drop_Cons_nth) auto
    have "a = (if l = 6 then replicate 12 0 @ drop 12 a else replicate 10 0 @ [0xff, 0xff] @ drop 12 a)"
    proof (cases "l = 6")
      case True
      then show ?thesis using arg_cong [OF a, of "drop 12"] a by simp
    next
      case False
      with b have l: "l = 5" "?W ! 5 = 0xffff" by auto
      have a5: "a = replicate 10 0 @ [0xff, 0xff] @ hextets (drop 6 ?W)"
        using a dl l by (simp add: be16_def)
      have "drop 12 a = hextets (drop 6 ?W)" by (subst a5) simp
      with a5 l show ?thesis by simp
    qed
    then show ?thesis using print_v4_tail [OF r True] parse_v4_tail [OF d] by (cases "l = 6") simp_all
  next
    case False
    have "hextets (take b ?W) @ replicate (16 - 2 * length (take b ?W) - 2 * length (drop (b + l) ?W)) 0 @ hextets (drop (b + l) ?W) = a"
    proof -
      have "16 - 2 * length (take b ?W) - 2 * length (drop (b + l) ?W) = 2 * l" using z(1) by simp
      then show ?thesis
        using addr_hextets [OF assms] arg_cong [OF z(3), of hextets] by (simp add: hextets_zero)
    qed
    moreover have "\<forall>w\<in>set (take b ?W @ drop (b + l) ?W). w < 65536"
      using v6_words_bound [of a] by (auto dest: in_set_takeD in_set_dropD)
    ultimately show ?thesis
      using print_run [OF r False] parse_run [of "take b ?W" "drop (b + l) ?W"] z(1,2) by simp
  qed
qed


section \<open>Properties\<close>

lemma ipv4_loop_colon: "chr (CHR '':'') \<in> set str \<Longrightarrow> ipv4_loop str s r d = None"
  by (induction str arbitrary: s r d) (auto simp: Let_def)

lemma ipv6_string_colon:
  assumes "length a = 16"
  shows "chr (CHR '':'') \<in> set (cork_ipv6_to_raw_string a)"
proof (cases "best_run (v6_words a)")
  case None
  have "chr (CHR '':'') \<in> set (more_words ws)" if "ws \<noteq> []" for ws using that by (cases ws) simp_all
  moreover obtain w v ws where "v6_words a = w # v # ws"
    using length_v6_words [of a] by (cases "v6_words a"; cases "tl (v6_words a)") auto
  ultimately show ?thesis using None assms by (simp add: print_no_run)
next
  case (Some p)
  then obtain b l where "best_run (v6_words a) = Some (b, l)" by (cases p) auto
  then show ?thesis using print_run [of a b l] print_v4_tail [of a b l] by (cases "v4_tail (Some (b, l)) (v6_words a)") simp_all
qed

text \<open>C22 (roundtrip): printing an IP address and parsing the string gives the address back, version
  included, for both IPv4 and IPv6 (with \<open>::\<close> shorthand and embedded IPv4 tails).\<close>

theorem cork_ip_roundtrip:
  assumes "ip_ok ip"
  shows "cork_ip_init (cork_ip_to_raw_string ip) = (0, Some ip)"
proof (cases ip)
  case (V4 a)
  then show ?thesis using assms cork_ipv4_parse_print [of a] by (simp add: cork_ip_init_def cork_ipv4_init_def)
next
  case (V6 a)
  then have "cork_ipv4_parse (cork_ipv6_to_raw_string a) = None"
    using assms ipv6_string_colon [of a] by (simp add: cork_ipv4_parse_def ipv4_loop_colon)
  then show ?thesis using V6 assms ipv6_roundtrip [of a] by (simp add: cork_ip_init_def cork_ipv4_init_def)
qed

theorem cork_ip_roundtrip_witness:
  "cork_ip_init (cork_ip_to_raw_string (V6 (replicate 10 0 @ [0xff, 0xff, 10, 0, 0, 1]))) =
    (0, Some (V6 (replicate 10 0 @ [0xff, 0xff, 10, 0, 0, 1])))"
  by (rule cork_ip_roundtrip) simp

text \<open>The parser's hextet arrays hold what \<open>hextets_seen\<close> says, at most eight hextets in both together.\<close>

definition v6_inv :: "ipv6_state \<Rightarrow> bool" where
  "v6_inv st \<longleftrightarrow> length (v6_before st) + length (v6_after st) = 2 * v6_hextets_seen st \<and> v6_hextets_seen st \<le> 8 \<and>
     (v6_in_after st \<longrightarrow> length (v6_before st) = 2 * v6_before_count st) \<and>
     (\<not> v6_in_after st \<longrightarrow> v6_after st = []) \<and> (v6_double_colon_allowed st \<longleftrightarrow> \<not> v6_in_after st) \<and>
     (v6_in_after st \<and> v6_just_saw_colon st \<longrightarrow> \<not> v6_colon_allowed st)"

lemma ipv4_loop_length: "ipv4_loop str s r d = Some a \<Longrightarrow> length r \<le> 3 \<Longrightarrow> length a = 4"
  by (induction str arbitrary: s r d) (auto simp: Let_def split: if_splits)

lemma ipv4_parse_length: "cork_ipv4_parse str = Some a \<Longrightarrow> length a = 4"
  unfolding cork_ipv4_parse_def by (erule ipv4_loop_length) simp

lemma length_hextet_bytes [simp]: "length (hextet_bytes d) = 2"
  by (simp add: hextet_bytes_def)

text \<open>While the loop runs, digits follow the double colon before another colon.\<close>

definition v6_running :: "ipv6_state \<Rightarrow> bool" where
  "v6_running st \<longleftrightarrow> v6_inv st \<and> (v6_in_after st \<and> \<not> v6_just_saw_colon st \<longrightarrow> 0 < v6_digits_seen st)"

lemma process_inv:
  "v6_running st \<Longrightarrow> process_digit v st = Some st' \<Longrightarrow> v6_running st'"
  "v6_running st \<Longrightarrow> process_colon st = Some st' \<Longrightarrow> v6_running st'"
  "v6_running st \<Longrightarrow> process_period str i st = Some st' \<Longrightarrow> v6_inv st'"
  by (auto simp: v6_running_def v6_inv_def process_digit_def process_colon_def process_period_def put_dest_def
      dest!: ipv4_parse_length split: if_splits option.splits)

lemma ipv6_loop_inv: "v6_running st \<Longrightarrow> ipv6_loop str i rest st = Some st' \<Longrightarrow> v6_inv st'"
proof (induction str i rest st rule: ipv6_loop.induct)
  case (1 str i st)
  then show ?case by (simp add: v6_running_def)
qed (auto split: option.splits if_splits dest: process_inv)

lemma v6_running_start: "v6_running ipv6_start"
  by (simp add: v6_running_def v6_inv_def ipv6_start_def)

lemma cork_ip_init_ok:
  assumes "cork_ip_init str = (0, Some ip)"
  shows "ip_ok ip"
proof -
  have fin: "length a = 16" if "v6_inv st" "ipv6_finish st = Some a" for st a
    using that by (auto simp: ipv6_finish_def Let_def v6_inv_def put_dest_def split: if_splits)
  show ?thesis
    using assms by (auto simp: cork_ip_init_def cork_ipv4_init_def cork_ipv6_init_def
        intro: ipv4_parse_length fin [OF ipv6_loop_inv [OF v6_running_start]] split: option.splits)
qed



text \<open>On a little-endian machine \<open>cork_ipv6_is_valid_network\<close> masks the wrong bytes: it refuses
  \<open>ff00::/8\<close>, whose host part is zero, and accepts \<open>0000:0000:0000:0001::/8\<close>, whose host part is not.\<close>

lemma ipv6_valid_network_endian:
  "\<not> cork_ipv6_is_valid_network [0xff, 0, 0, 0, 0, 0, 0, 0, 0, 0, 0, 0, 0, 0, 0, 0] 8"
  "cork_ipv6_is_valid_network [0, 0, 0, 0, 0, 0, 0, 1, 0, 0, 0, 0, 0, 0, 0, 0] 8"
  by (simp_all add: cork_ipv6_is_valid_network_def le_nat_def be_val_def drop_bit_eq_div)

end
