(* ===== verification/NetUtils.thy ===== *)
theory NetUtils
  imports IpAddress "HOL-Library.List_Lexorder"
begin

text \<open>
  \<open>shadowsocks-libev/src/netutils.c\<close>: socket addresses, their comparison, host name validation and the
  resolution of configured addresses.  A \<open>struct sockaddr_storage\<close> is a record with the fields the code
  uses, in network order; \<open>sa_rest\<close> holds flow info and scope of an IPv6 address, and the raw bytes after the
  family for any other family.
\<close>

text \<open>The number of addresses that a server is configured with, from \<open>jconf.h\<close>.\<close>

definition MAX_REMOTE_NUM :: nat where "MAX_REMOTE_NUM = 10"

section \<open>Socket addresses\<close>

definition AF_UNSPEC :: nat where "AF_UNSPEC = 0"
definition AF_INET :: nat where "AF_INET = 2"
definition AF_INET6 :: nat where "AF_INET6 = 10"

lemmas af_defs = AF_UNSPEC_def AF_INET_def AF_INET6_def

record sockaddr =
  sa_family :: nat
  sa_port :: bytes
  sa_addr :: bytes
  sa_rest :: bytes

definition sa_zero :: sockaddr where
  "sa_zero = \<lparr>sa_family = AF_UNSPEC, sa_port = [], sa_addr = [], sa_rest = replicate 126 0\<rparr>"

definition sa_in :: "bytes \<Rightarrow> bytes \<Rightarrow> sockaddr" where
  "sa_in a p = \<lparr>sa_family = AF_INET, sa_port = p, sa_addr = a, sa_rest = []\<rparr>"

definition sa_in6 :: "bytes \<Rightarrow> bytes \<Rightarrow> sockaddr" where
  "sa_in6 a p = \<lparr>sa_family = AF_INET6, sa_port = p, sa_addr = a, sa_rest = replicate 8 0\<rparr>"

definition sa_ok :: "sockaddr \<Rightarrow> bool" where
  "sa_ok s \<longleftrightarrow> sa_family s < 65536 \<and>
     (if sa_family s = AF_INET then length (sa_port s) = 2 \<and> length (sa_addr s) = 4 \<and> sa_rest s = []
      else if sa_family s = AF_INET6 then length (sa_port s) = 2 \<and> length (sa_addr s) = 16 \<and> length (sa_rest s) = 8
      else sa_port s = [] \<and> sa_addr s = [] \<and> length (sa_rest s) = 126)"

text \<open>The 128 bytes of the storage on a little-endian machine.\<close>

definition sa_bytes :: "sockaddr \<Rightarrow> bytes" where
  "sa_bytes s =
    [word_of_nat (sa_family s), word_of_nat (sa_family s div 256)] @
    (if sa_family s = AF_INET then sa_port s @ sa_addr s @ replicate 120 0
     else if sa_family s = AF_INET6
     then sa_port s @ take 4 (sa_rest s) @ sa_addr s @ drop 4 (sa_rest s) @ replicate 100 0
     else sa_rest s)"

definition get_sockaddr_len :: "sockaddr \<Rightarrow> nat" where
  "get_sockaddr_len addr =
    (if sa_family addr = AF_INET then 16 else if sa_family addr = AF_INET6 then 28 else 0)"

section \<open>Comparison\<close>

definition INET_SIZE :: nat where "INET_SIZE = 4"
definition INET6_SIZE :: nat where "INET6_SIZE = 16"

text \<open>\<open>memcmp\<close>: the sign of the first difference.\<close>

fun memcmp :: "bytes \<Rightarrow> bytes \<Rightarrow> int" where
  "memcmp (x # xs) (y # ys) = (if x < y then -1 else if y < x then 1 else memcmp xs ys)"
| "memcmp _ _ = 0"

text \<open>The port as the integer the machine reads, without \<open>ntohs\<close>.\<close>

definition raw_port :: "bytes \<Rightarrow> nat" where
  "raw_port p = unat (p ! 0) + 256 * unat (p ! 1)"

definition sockaddr_cmp :: "sockaddr \<Rightarrow> sockaddr \<Rightarrow> nat \<Rightarrow> int" where
  "sockaddr_cmp a b len =
    (if sa_family a < sa_family b then -1
     else if sa_family a > sa_family b then 1
     else if sa_family a = AF_INET
     then
       if raw_port (sa_port a) < raw_port (sa_port b) then -1
       else if raw_port (sa_port a) > raw_port (sa_port b) then 1
       else memcmp (take INET_SIZE (sa_addr a)) (take INET_SIZE (sa_addr b))
     else if sa_family a = AF_INET6
     then
       if raw_port (sa_port a) < raw_port (sa_port b) then -1
       else if raw_port (sa_port a) > raw_port (sa_port b) then 1
       else memcmp (take INET6_SIZE (sa_addr a)) (take INET6_SIZE (sa_addr b))
     else memcmp (take len (sa_bytes a)) (take len (sa_bytes b)))"

definition sockaddr_cmp_addr :: "sockaddr \<Rightarrow> sockaddr \<Rightarrow> nat \<Rightarrow> int" where
  "sockaddr_cmp_addr a b len =
    (if sa_family a < sa_family b then -1
     else if sa_family a > sa_family b then 1
     else if sa_family a = AF_INET
     then memcmp (take INET_SIZE (sa_addr a)) (take INET_SIZE (sa_addr b))
     else if sa_family a = AF_INET6
     then memcmp (take INET6_SIZE (sa_addr a)) (take INET6_SIZE (sa_addr b))
     else memcmp (take len (sa_bytes a)) (take len (sa_bytes b)))"

section \<open>Host names\<close>

definition valid_label_bytes :: bytes where
  "valid_label_bytes = cstr ''-0123456789ABCDEFGHIJKLMNOPQRSTUVWXYZ_abcdefghijklmnopqrstuvwxyz''"

text \<open>\<open>strchr\<close> and \<open>strspn\<close> on the C string at a position.\<close>

definition strchr :: "bytes \<Rightarrow> byte \<Rightarrow> nat option" where
  "strchr s c = (let t = c_string s in if c \<in> set t then Some (length (takeWhile (\<lambda>x. x \<noteq> c) t)) else None)"

definition strspn :: "bytes \<Rightarrow> bytes \<Rightarrow> nat" where
  "strspn s ok = length (takeWhile (\<lambda>x. x \<in> set ok) (c_string s))"

function hostname_loop :: "bytes \<Rightarrow> nat \<Rightarrow> nat \<Rightarrow> bool" where
  "hostname_loop hostname hostname_len pos =
    (if pos < hostname_len
     then
       let label = drop pos hostname;
           label_len = (case strchr label (chr (CHR ''.'')) of Some d \<Rightarrow> d | None \<Rightarrow> hostname_len - pos)
       in if pos + label_len > hostname_len then False
          else if label_len > 63 \<or> label_len < 1 then False
          else if label ! 0 = chr (CHR ''-'') \<or> label ! (label_len - 1) = chr (CHR ''-'') then False
          else if strspn label valid_label_bytes < label_len then False
          else hostname_loop hostname hostname_len (pos + label_len + 1)
     else True)"
  by auto
termination by (relation "measure (\<lambda>(_, len, pos). len - pos)") auto

declare hostname_loop.simps [simp del]

definition validate_hostname :: "bytes option \<Rightarrow> int \<Rightarrow> int" where
  "validate_hostname hostname hostname_len =
    (case hostname of
       None \<Rightarrow> 0
     | Some hostname \<Rightarrow>
         if hostname_len < 1 \<or> hostname_len > 255 then 0
         else if hostname ! 0 = chr (CHR ''.'') then 0
         else if hostname_loop hostname (nat hostname_len) 0 then 1 else 0)"

section \<open>Configured addresses\<close>

text \<open>\<open>atoi\<close> on a string of digits (an optional sign and white space before them included).\<close>

fun dec_digits :: "bytes \<Rightarrow> nat \<Rightarrow> nat" where
  "dec_digits [] n = n"
| "dec_digits (c # cs) n = (if is_dec_digit c then dec_digits cs (n * 10 + unat (c - 48)) else n)"

definition isspace :: "byte \<Rightarrow> bool" where
  "isspace c \<longleftrightarrow> c = 32 \<or> (9 \<le> c \<and> c \<le> 13)"

definition atoi :: "bytes \<Rightarrow> int" where
  "atoi s =
    (let s = dropWhile isspace (c_string s)
     in (case s of
           [] \<Rightarrow> 0
         | c # cs \<Rightarrow>
             if c = chr (CHR ''-'') then - int (dec_digits cs 0)
             else if c = chr (CHR ''+'') then int (dec_digits cs 0)
             else int (dec_digits s 0)))"

text \<open>\<open>htons(atoi(port))\<close> as the two bytes in memory.\<close>

definition port_bytes :: "bytes \<Rightarrow> bytes" where
  "port_bytes port = be16 (nat (atoi port mod 65536))"

text \<open>The calls into the C library: \<open>inet_pton\<close> and \<open>inet_ntop\<close> for both families, and \<open>getaddrinfo\<close>, whose
  result for the i-th attempt is an error or a list of addresses.\<close>

record net_lib =
  inet_pton4 :: "bytes \<Rightarrow> bytes option"
  inet_pton6 :: "bytes \<Rightarrow> bytes option"
  inet_ntop4 :: "bytes \<Rightarrow> bytes"
  inet_ntop6 :: "bytes \<Rightarrow> bytes"
  getaddrinfo :: "nat \<Rightarrow> bytes \<Rightarrow> bytes option \<Rightarrow> sockaddr list option"

text \<open>The retry loop: attempts \<open>i .. 7\<close>, stopping at the first success, or at the first attempt when not
  blocking.\<close>

function resolve_loop :: "net_lib \<Rightarrow> bytes \<Rightarrow> bytes option \<Rightarrow> bool \<Rightarrow> nat \<Rightarrow> sockaddr list option" where
  "resolve_loop net host port block i =
    (let r = getaddrinfo net i host port
     in if \<not> block \<or> r \<noteq> None then r
        else if i + 1 < 8 then resolve_loop net host port block (i + 1)
        else r)"
  by auto
termination by (relation "measure (\<lambda>(_, _, _, _, i). 8 - i)") auto

declare resolve_loop.simps [simp del]

definition pick_address :: "bool \<Rightarrow> sockaddr list \<Rightarrow> sockaddr option" where
  "pick_address ipv6first rps =
    (let prefer_af = (if ipv6first then AF_INET6 else AF_INET)
     in (case find (\<lambda>rp. sa_family rp = prefer_af) rps of
           Some rp \<Rightarrow> Some rp
         | None \<Rightarrow> (case rps of [] \<Rightarrow> None | rp # _ \<Rightarrow> Some rp)))"

definition store_address :: "sockaddr \<Rightarrow> sockaddr \<Rightarrow> sockaddr" where
  "store_address rp storage =
    (if sa_family rp = AF_INET \<or> sa_family rp = AF_INET6 then rp else storage)"

text \<open>\<open>inet_pton\<close> leaves the address unchanged when it fails.  The callers clear \<open>storage\<close> before the call, so it
  is \<^term>\<open>sa_zero\<close> on entry; the result is the return value and the storage.\<close>

definition get_sockaddr :: "net_lib \<Rightarrow> bytes \<Rightarrow> bytes option \<Rightarrow> bool \<Rightarrow> bool \<Rightarrow> int \<times> sockaddr" where
  "get_sockaddr net host port block ipv6first =
    (let p = (case port of Some p \<Rightarrow> port_bytes p | None \<Rightarrow> [0, 0])
     in (case snd (cork_ip_init host) of
           Some (V4 _) \<Rightarrow> (0, sa_in (case inet_pton4 net host of Some a \<Rightarrow> a | None \<Rightarrow> replicate 4 0) p)
         | Some (V6 _) \<Rightarrow> (0, sa_in6 (case inet_pton6 net host of Some a \<Rightarrow> a | None \<Rightarrow> replicate 16 0) p)
         | None \<Rightarrow>
             (case resolve_loop net host port block 1 of
                None \<Rightarrow> (-1, sa_zero)
              | Some rps \<Rightarrow>
                  (case pick_address ipv6first rps of
                     None \<Rightarrow> (-1, sa_zero)
                   | Some rp \<Rightarrow> (0, store_address rp sa_zero)))))"

text \<open>The address \<open>bind_to_address\<close> binds the socket to; \<open>bind\<close>'s result is its own.\<close>

definition bind_to_address :: "net_lib \<Rightarrow> (sockaddr \<Rightarrow> int) \<Rightarrow> bytes option \<Rightarrow> int" where
  "bind_to_address net bind host =
    (case host of
       None \<Rightarrow> -1
     | Some host \<Rightarrow>
         (case snd (cork_ip_init host) of
            Some (V4 _) \<Rightarrow> bind (sa_in (case inet_pton4 net host of Some a \<Rightarrow> a | None \<Rightarrow> replicate 4 0) [0, 0])
          | Some (V6 _) \<Rightarrow> bind (sa_in6 (case inet_pton6 net host of Some a \<Rightarrow> a | None \<Rightarrow> replicate 16 0) [0, 0])
          | None \<Rightarrow> -1))"


section \<open>Host names: the grammar accepted\<close>

abbreviation dot :: byte where "dot \<equiv> chr (CHR ''.'')"
abbreviation dash :: byte where "dash \<equiv> chr (CHR ''-'')"

definition valid_label :: "bytes \<Rightarrow> bool" where
  "valid_label l \<longleftrightarrow> l \<noteq> [] \<and> length l \<le> 63 \<and> hd l \<noteq> dash \<and> List.last l \<noteq> dash \<and> set l \<subseteq> set valid_label_bytes"

fun dotted :: "bytes list \<Rightarrow> bytes" where
  "dotted [] = []"
| "dotted [l] = l"
| "dotted (l # ls) = l @ dot # dotted ls"

lemma valid_label_bytes_facts: "dot \<notin> set valid_label_bytes" "0 \<notin> set valid_label_bytes"
  by code_simp+

lemma dot_nonzero [simp]: "dot \<noteq> 0"
  by code_simp

lemma valid_label_no_dot: "valid_label l \<Longrightarrow> dot \<notin> set l"
  using valid_label_bytes_facts by (auto simp: valid_label_def)

text \<open>One round of the loop on the suffix \<open>s\<close> of the name.\<close>

lemma c_string_terminated: "0 \<notin> set s \<Longrightarrow> c_string (s @ 0 # rest) = s"
  by (induction s) (auto simp: c_string_def)

lemma takeWhile_length_ge:
  assumes "k \<le> length xs"
  shows "k \<le> length (takeWhile P xs) \<longleftrightarrow> (\<forall>x\<in>set (take k xs). P x)"
  using assms
proof (induction xs arbitrary: k)
  case (Cons x xs)
  then show ?case by (cases k) auto
qed simp

lemma hostname_round:
  assumes s: "s = l @ t" and t: "t = [] \<or> (\<exists>u. t = dot # u)" and l: "dot \<notin> set l" and z: "0 \<notin> set s" and ne: "s \<noteq> []"
  shows "hostname_loop (pre @ s @ 0 # rest) (length pre + length s) (length pre) \<longleftrightarrow>
    valid_label l \<and> hostname_loop (pre @ s @ 0 # rest) (length pre + length s) (length pre + length l + 1)"
proof -
  have c: "c_string (s @ 0 # rest) = s" using z by (rule c_string_terminated)
  have tw: "t \<noteq> [] \<Longrightarrow> takeWhile (\<lambda>x. x \<noteq> dot) s = l"
    using t l s by (auto simp: takeWhile_append)
  have sc: "(case strchr (s @ 0 # rest) dot of Some d \<Rightarrow> d | None \<Rightarrow> length pre + length s - length pre) = length l"
  proof (cases "t = []")
    case True
    then show ?thesis using l s c by (simp add: strchr_def)
  next
    case False
    then have "dot \<in> set s" using t s by auto
    then show ?thesis using tw [OF False] by (simp add: strchr_def c)
  qed
  have sp: "strspn (s @ 0 # rest) valid_label_bytes < length l \<longleftrightarrow> \<not> set l \<subseteq> set valid_label_bytes"
    using takeWhile_length_ge [of "length l" s "\<lambda>x. x \<in> set valid_label_bytes"] s
    unfolding strspn_def c by (simp add: subset_iff not_le [symmetric]) blast
  have ends: "l \<noteq> [] \<Longrightarrow> (s @ 0 # rest) ! 0 = hd l" "l \<noteq> [] \<Longrightarrow> (s @ 0 # rest) ! (length l - 1) = List.last l"
    using s by (auto simp: nth_append hd_conv_nth last_conv_nth)
  have le: "length l \<le> length s" using s by simp
  let ?h = "pre @ s @ 0 # rest" and ?n = "length pre + length s"
  have "hostname_loop ?h ?n (length pre) =
     (if length l > 63 \<or> length l < 1 then False
      else if (s @ 0 # rest) ! 0 = dash \<or> (s @ 0 # rest) ! (length l - 1) = dash then False
      else if strspn (s @ 0 # rest) valid_label_bytes < length l then False
      else hostname_loop ?h ?n (length pre + length l + 1))"
    using ne le by (subst (1) hostname_loop.simps) (simp add: Let_def sc)
  then show ?thesis using ends by (cases "l = []") (simp_all add: valid_label_def sp not_less less_Suc_eq_le)
qed

lemma split_at_dot:
  assumes "dot \<notin> set l" "dot \<notin> set m"
  shows "l @ dot # u = m @ dot # v \<longleftrightarrow> l = m \<and> u = v"
  using assms
proof (induction l arbitrary: m)
  case Nil
  then show ?case by (cases m) auto
next
  case (Cons x l)
  then show ?case by (cases m) auto
qed

text \<open>The grammar of names, unrolled by one label.\<close>

definition host_grammar :: "bytes \<Rightarrow> bool" where
  "host_grammar s \<longleftrightarrow> (\<exists>ls. ls \<noteq> [] \<and> (\<forall>l\<in>set ls. valid_label l) \<and> (s = dotted ls \<or> s = dotted ls @ [dot]))"

lemma host_grammar_single: "dot \<notin> set s \<Longrightarrow> host_grammar s \<longleftrightarrow> valid_label s"
proof -
  assume s: "dot \<notin> set s"
  have "ls \<noteq> [] \<Longrightarrow> s = dotted ls \<or> s = dotted ls @ [dot] \<Longrightarrow> ls = [s]" for ls
    using s by (cases ls rule: dotted.cases) auto
  then show ?thesis
    unfolding host_grammar_def by (metis dotted.simps(2) list.distinct(1) list.set_intros(1) empty_iff insert_iff list.set)
qed

lemma host_grammar_Cons:
  assumes "dot \<notin> set l"
  shows "host_grammar (l @ dot # u) \<longleftrightarrow> valid_label l \<and> (u = [] \<or> host_grammar u)"
proof
  assume "host_grammar (l @ dot # u)"
  then obtain ls where ls: "ls \<noteq> []" "\<forall>l\<in>set ls. valid_label l" "l @ dot # u = dotted ls \<or> l @ dot # u = dotted ls @ [dot]"
    unfolding host_grammar_def by blast
  then obtain m ms where m: "ls = m # ms" "valid_label m" "dot \<notin> set m" using valid_label_no_dot by (cases ls) auto
  show "valid_label l \<and> (u = [] \<or> host_grammar u)"
  proof (cases ms)
    case Nil
    then have "l @ dot # u = m @ [dot]" using ls m by (auto dest: arg_cong [of _ _ set])
    then show ?thesis using split_at_dot [OF assms m(3), of u "[]"] m by simp
  next
    case (Cons n ns)
    then have "l @ dot # u = m @ dot # dotted ms \<or> l @ dot # u = m @ dot # dotted ms @ [dot]" using ls m by simp
    then have "l = m" "u = dotted ms \<or> u = dotted ms @ [dot]" using split_at_dot [OF assms m(3)] by auto
    moreover have "ms \<noteq> []" "\<forall>l\<in>set ms. valid_label l" using ls(2) m(1) Cons by auto
    ultimately have "host_grammar u" unfolding host_grammar_def by blast
    then show ?thesis using m(2) \<open>l = m\<close> by simp
  qed
next
  assume r: "valid_label l \<and> (u = [] \<or> host_grammar u)"
  show "host_grammar (l @ dot # u)"
  proof (cases "u = []")
    case True
    then show ?thesis using r unfolding host_grammar_def by (intro exI [of _ "[l]"]) simp
  next
    case False
    then obtain ls where ls: "ls \<noteq> []" "\<forall>l\<in>set ls. valid_label l" "u = dotted ls \<or> u = dotted ls @ [dot]"
      using r unfolding host_grammar_def by blast
    then show ?thesis using r unfolding host_grammar_def by (intro exI [of _ "l # ls"]) (cases ls; auto)
  qed
qed

lemma hostname_loop_grammar:
  assumes "0 \<notin> set s"
  shows "hostname_loop (pre @ s @ 0 # rest) (length pre + length s) (length pre) \<longleftrightarrow>
    s = [] \<or> host_grammar s"
  using assms
proof (induction "length s" arbitrary: s pre rule: less_induct)
  case less
  show ?case
  proof (cases "s = []")
    case True
    then show ?thesis by (simp add: hostname_loop.simps)
  next
    case ne: False
    define l where "l = takeWhile (\<lambda>x. x \<noteq> dot) s"
    define t where "t = dropWhile (\<lambda>x. x \<noteq> dot) s"
    have s: "s = l @ t" by (simp add: l_def t_def)
    have l: "dot \<notin> set l" by (auto simp: l_def dest: set_takeWhileD)
    have t: "t = [] \<or> (\<exists>u. t = dot # u)"
      using hd_dropWhile [of "\<lambda>x. x \<noteq> dot" s] unfolding t_def [symmetric] by (cases t) simp_all
    note round = hostname_round [OF s t l less.prems ne]
    show ?thesis
    proof (cases t)
      case Nil
      have "hostname_loop (pre @ s @ 0 # rest) (length pre + length s) (length pre + length l + 1)"
        using s Nil by (simp add: hostname_loop.simps)
      then show ?thesis using round ne s Nil l host_grammar_single [of s] by simp
    next
      case (Cons d u)
      then have u: "t = dot # u" using t by auto
      have "hostname_loop (pre @ s @ 0 # rest) (length pre + length s) (length pre + length l + 1)
         \<longleftrightarrow> u = [] \<or> host_grammar u"
        using less.hyps [of u "pre @ l @ [dot]"] s u less.prems by (simp add: add.assoc)
      then show ?thesis using round ne host_grammar_Cons [OF l, of u] s u by simp
    qed
  qed
qed


lemma host_grammar_hd: "host_grammar (dot # s) \<Longrightarrow> False"
  using host_grammar_Cons [of "[]" s] by (simp add: valid_label_def)

text \<open>C27 (equivalence): on a NUL-terminated name, \<open>validate_hostname\<close> accepts exactly the names of 1 to 255 bytes
  that are a dot-separated sequence of labels, with one dot allowed at the end, each label 1 to 63 letters, digits,
  hyphens and underscores that neither starts nor ends with a hyphen.\<close>

theorem validate_hostname_grammar:
  assumes "0 \<notin> set name"
  shows "validate_hostname (Some (name @ 0 # rest)) (int (length name)) = 1 \<longleftrightarrow>
    1 \<le> length name \<and> length name \<le> 255 \<and>
    (\<exists>ls. ls \<noteq> [] \<and> (\<forall>l\<in>set ls. valid_label l) \<and> (name = dotted ls \<or> name = dotted ls @ [dot]))"
proof -
  have "name = [] \<or> (name \<noteq> [] \<and> (name @ 0 # rest) ! 0 = hd name)" by (cases name) auto
  moreover have "name \<noteq> [] \<Longrightarrow> hd name = dot \<Longrightarrow> \<not> host_grammar name"
    using host_grammar_hd by (cases name) auto
  ultimately show ?thesis
    using hostname_loop_grammar [OF assms, of "[]" rest]
    unfolding host_grammar_def [symmetric] by (auto simp: validate_hostname_def Suc_le_eq)
qed

theorem validate_hostname_grammar_witness:
  "validate_hostname (Some (cstr ''a-b.example.'' @ 0 # [7])) 12 = 1 \<and>
   validate_hostname (Some (cstr ''a-b..example'' @ 0 # [7])) 12 \<noteq> 1"
proof -
  have 1: "0 \<notin> set (cstr ''a-b.example.'')" "0 \<notin> set (cstr ''a-b..example'')" by code_simp+
  have 2: "length (cstr ''a-b.example.'') = 12" "length (cstr ''a-b..example'') = 12" by simp_all
  have 3: "cstr ''a-b.example.'' = dotted [cstr ''a-b'', cstr ''example''] @ [dot]" by (simp add: cstr_def)
  have 4: "valid_label (cstr ''a-b'')" "valid_label (cstr ''example'')" by code_simp+
  have "validate_hostname (Some (cstr ''a-b.example.'' @ 0 # [7])) (int (length (cstr ''a-b.example.''))) = 1"
    unfolding validate_hostname_grammar [OF 1(1)] using 3 4 by (auto intro!: exI [of _ "[cstr ''a-b'', cstr ''example'']"])
  moreover have "validate_hostname (Some (cstr ''a-b..example'' @ 0 # [7])) 12 \<noteq> 1" by code_simp
  ultimately show ?thesis unfolding 2 by simp
qed

section \<open>The order on socket addresses\<close>

definition sa_key :: "sockaddr \<Rightarrow> nat list" where
  "sa_key s =
    (if sa_family s = AF_INET \<or> sa_family s = AF_INET6
     then sa_family s # raw_port (sa_port s) # map unat (sa_addr s)
     else sa_family s # map unat (sa_bytes s))"

definition three_way :: "'a::linorder \<Rightarrow> 'a \<Rightarrow> int" where
  "three_way x y = (if x < y then -1 else if y < x then 1 else 0)"

lemma three_way_Cons:
  "three_way (x # xs) (y # ys) = (if x < y then -1 else if y < x then 1 else three_way xs (ys :: 'a::linorder list))"
  by (auto simp: three_way_def)

lemma memcmp_three_way: "length xs = length ys \<Longrightarrow> memcmp xs ys = three_way (map unat xs) (map unat ys)"
  by (induction xs ys rule: list_induct2)
     (auto simp: three_way_Cons word_less_nat_alt, simp add: three_way_def)

lemma three_way_laws:
  "three_way x y = - three_way y x"
  "three_way x y = 0 \<longleftrightarrow> x = y"
  "three_way x y \<le> 0 \<Longrightarrow> three_way y z \<le> 0 \<Longrightarrow> three_way x z \<le> 0"
  by (auto simp: three_way_def split: if_splits)

lemma length_sa_bytes: "sa_ok s \<Longrightarrow> length (sa_bytes s) = 128"
  by (auto simp: sa_ok_def sa_bytes_def split: if_splits)

lemma sockaddr_cmp_key:
  assumes "sa_ok a" "sa_ok b" "128 \<le> len"
  shows "sockaddr_cmp a b len = three_way (sa_key a) (sa_key b)"
proof (cases "sa_family a = sa_family b")
  case True
  then show ?thesis
    using assms length_sa_bytes [OF assms(1)] length_sa_bytes [OF assms(2)]
    by (auto simp: sockaddr_cmp_def sa_key_def three_way_Cons sa_ok_def INET_SIZE_def INET6_SIZE_def memcmp_three_way)
next
  case False
  then show ?thesis by (auto simp: sockaddr_cmp_def sa_key_def three_way_Cons)
qed

lemma unat_map_eq: "map unat xs = map unat ys \<longleftrightarrow> xs = (ys :: bytes)"
  by (simp add: inj_map_eq_map injI)

lemma raw_port_eq:
  assumes "length p = 2" "length q = 2" "raw_port p = raw_port q"
  shows "p = q"
proof -
  have "unat (p ! 0) < 256" "unat (q ! 0) < 256" by simp_all
  moreover have "(a + 256 * b) mod 256 = a \<and> (a + 256 * b) div 256 = b" if "a < 256" for a b :: nat
    using that by simp
  ultimately have "unat (p ! 0) = unat (q ! 0) \<and> unat (p ! 1) = unat (q ! 1)"
    using assms(3) unfolding raw_port_def by metis
  with assms show ?thesis
    by (auto simp: list_eq_iff_nth_eq numeral_2_eq_2 less_Suc_eq word_unat_eq_iff)
qed

lemma sa_key_eq:
  assumes "sa_ok a" "sa_ok b"
  shows "sa_key a = sa_key b \<longleftrightarrow> sa_family a = sa_family b \<and> sa_port a = sa_port b \<and> sa_addr a = sa_addr b \<and>
    (sa_family a \<noteq> AF_INET6 \<longrightarrow> sa_rest a = sa_rest b)"
  using assms raw_port_eq [of "sa_port a" "sa_port b"]
  by (auto simp: sa_key_def unat_map_eq sa_ok_def sa_bytes_def af_defs split: if_splits)

lemma sockaddr_cmp_total_order:
  assumes "sa_ok a" "sa_ok b" "sa_ok c" "128 \<le> len"
  shows "sockaddr_cmp a b len = - sockaddr_cmp b a len"
    and "sockaddr_cmp a b len \<le> 0 \<Longrightarrow> sockaddr_cmp b c len \<le> 0 \<Longrightarrow> sockaddr_cmp a c len \<le> 0"
    and "sockaddr_cmp a b len = 0 \<longleftrightarrow> sa_family a = sa_family b \<and> sa_port a = sa_port b \<and> sa_addr a = sa_addr b \<and>
      (sa_family a \<noteq> AF_INET6 \<longrightarrow> sa_rest a = sa_rest b)"
  using three_way_laws(1) [of "sa_key a" "sa_key b"] three_way_laws(2) [of "sa_key a" "sa_key b"]
    three_way_laws(3) [of "sa_key a" "sa_key b" "sa_key c"] sa_key_eq [of a b] assms
  by (simp_all add: sockaddr_cmp_key)

end
