(* ===== verification/Resolv.thy ===== *)
theory Resolv
  imports NetUtils
begin

text \<open>
  \<open>shadowsocks-libev/src/resolv.c\<close>: a host name is looked up by an A and an AAAA request to c-ares; the client's
  callback runs once both are answered.  A call of c-ares into the program is an answer: a status and the addresses
  of the \<open>hostent\<close>; what the client's callback receives is the outcome \<open>Called\<close>.
\<close>

datatype resolv_mode = MODE_IPV4_FIRST | MODE_IPV6_FIRST

datatype ares_status = ARES_SUCCESS | ARES_EDESTRUCTION | ARES_FAILED

record 'd resolv_query =
  rq_request4 :: nat
  rq_request6 :: nat
  rq_responses :: "sockaddr list"
  rq_port :: bytes
  rq_data :: 'd

datatype 'd resolv_outcome = Waiting "'d resolv_query" | Called "sockaddr option" 'd | Abandoned "'d resolv_query"

definition resolv_start :: "bytes \<Rightarrow> 'd \<Rightarrow> 'd resolv_query" where
  "resolv_start port data =
    \<lparr>rq_request4 = AF_INET, rq_request6 = AF_INET6, rq_responses = [], rq_port = port, rq_data = data\<rparr>"

definition all_requests_are_null :: "'d resolv_query \<Rightarrow> bool" where
  "all_requests_are_null query \<longleftrightarrow> rq_request4 query = 0 \<and> rq_request6 query = 0"

definition choose_any :: "sockaddr list \<Rightarrow> sockaddr option" where
  "choose_any responses = (if length responses \<ge> 1 then Some (responses ! 0) else None)"

fun choose_family :: "nat \<Rightarrow> sockaddr list \<Rightarrow> sockaddr option" where
  "choose_family af [] = None"
| "choose_family af (r # rs) = (if sa_family r = af then Some r else choose_family af rs)"

definition choose_ipv4_first :: "sockaddr list \<Rightarrow> sockaddr option" where
  "choose_ipv4_first responses =
    (case choose_family AF_INET responses of Some r \<Rightarrow> Some r | None \<Rightarrow> choose_any responses)"

definition choose_ipv6_first :: "sockaddr list \<Rightarrow> sockaddr option" where
  "choose_ipv6_first responses =
    (case choose_family AF_INET6 responses of Some r \<Rightarrow> Some r | None \<Rightarrow> choose_any responses)"

definition process_client_callback :: "resolv_mode \<Rightarrow> 'd resolv_query \<Rightarrow> 'd resolv_outcome" where
  "process_client_callback mode query =
    Called (case mode of
              MODE_IPV4_FIRST \<Rightarrow> choose_ipv4_first (rq_responses query)
            | MODE_IPV6_FIRST \<Rightarrow> choose_ipv6_first (rq_responses query)) (rq_data query)"

text \<open>\<open>he\<close> is the null-terminated \<open>h_addr_list\<close>, \<open>None\<close> for a null \<open>hostent\<close>; \<open>realloc_ok\<close> is the outcome of
  \<open>ss_realloc\<close>.\<close>

definition dns_query_v4_cb ::
  "resolv_mode \<Rightarrow> bool \<Rightarrow> 'd resolv_query \<Rightarrow> ares_status \<Rightarrow> bytes list option \<Rightarrow> 'd resolv_outcome" where
  "dns_query_v4_cb mode realloc_ok query status he =
    (if status = ARES_EDESTRUCTION then Abandoned query
     else
       let query =
             (case he of
                Some addrs \<Rightarrow>
                  if status = ARES_SUCCESS \<and> length addrs > 0 \<and> realloc_ok
                  then query\<lparr>rq_responses := rq_responses query @ map (\<lambda>a. sa_in a (rq_port query)) addrs\<rparr>
                  else query
              | None \<Rightarrow> query);
           query = query\<lparr>rq_request4 := 0\<rparr>
       in if all_requests_are_null query then process_client_callback mode query else Waiting query)"

definition dns_query_v6_cb ::
  "resolv_mode \<Rightarrow> bool \<Rightarrow> 'd resolv_query \<Rightarrow> ares_status \<Rightarrow> bytes list option \<Rightarrow> 'd resolv_outcome" where
  "dns_query_v6_cb mode realloc_ok query status he =
    (if status = ARES_EDESTRUCTION then Abandoned query
     else
       let query =
             (case he of
                Some addrs \<Rightarrow>
                  if status = ARES_SUCCESS \<and> length addrs > 0 \<and> realloc_ok
                  then query\<lparr>rq_responses := rq_responses query @ map (\<lambda>a. sa_in6 a (rq_port query)) addrs\<rparr>
                  else query
              | None \<Rightarrow> query);
           query = query\<lparr>rq_request6 := 0\<rparr>
       in if all_requests_are_null query then process_client_callback mode query else Waiting query)"

text \<open>The single watcher through which c-ares' sockets are polled: whether it is active, its descriptor and the
  events (\<open>EV_READ\<close>, \<open>EV_WRITE\<close>).\<close>

record resolv_io =
  ri_active :: bool
  ri_fd :: int
  ri_read :: bool
  ri_write :: bool

definition resolv_sock_state_cb :: "resolv_io \<Rightarrow> int \<Rightarrow> bool \<Rightarrow> bool \<Rightarrow> resolv_io" where
  "resolv_sock_state_cb io s read write =
    (if read \<or> write
     then
       let io = (if ri_active io \<and> ri_fd io \<noteq> s then io\<lparr>ri_active := False\<rparr> else io)
       in io\<lparr>ri_fd := s, ri_read := read, ri_write := write, ri_active := True\<rparr>
     else io\<lparr>ri_active := False, ri_fd := -1, ri_read := False, ri_write := False\<rparr>)"

text \<open>A second open socket displaces the first, and closing either leaves the other unwatched.\<close>

lemma resolv_io_one_socket:
  assumes "s1 \<noteq> s2"
  shows "ri_fd (resolv_sock_state_cb (resolv_sock_state_cb io s1 True False) s2 True False) = s2"
    and "\<not> ri_active (resolv_sock_state_cb (resolv_sock_state_cb (resolv_sock_state_cb io s1 True False) s2 True False) s1 False False)"
  using assms by (simp_all add: resolv_sock_state_cb_def Let_def)

section \<open>Order of the answers\<close>

datatype dns_answer = AnswerV4 bool ares_status "bytes list option" | AnswerV6 bool ares_status "bytes list option"

fun resolv_step :: "resolv_mode \<Rightarrow> 'd resolv_outcome \<Rightarrow> dns_answer \<Rightarrow> 'd resolv_outcome" where
  "resolv_step mode (Waiting q) (AnswerV4 ok st he) = dns_query_v4_cb mode ok q st he"
| "resolv_step mode (Waiting q) (AnswerV6 ok st he) = dns_query_v6_cb mode ok q st he"
| "resolv_step mode outcome _ = outcome"

definition usable :: "bool \<Rightarrow> ares_status \<Rightarrow> bytes list option \<Rightarrow> bytes list" where
  "usable ok st he = (case he of Some addrs \<Rightarrow> if st = ARES_SUCCESS \<and> ok then addrs else [] | None \<Rightarrow> [])"

text \<open>The reference: the first address of the preferred family, else the first of the other.\<close>

definition resolv_spec :: "resolv_mode \<Rightarrow> bytes \<Rightarrow> bytes list \<Rightarrow> bytes list \<Rightarrow> sockaddr option" where
  "resolv_spec mode port v4 v6 =
    (let c4 = map (\<lambda>a. sa_in a port) v4; c6 = map (\<lambda>a. sa_in6 a port) v6;
         cs = (case mode of MODE_IPV4_FIRST \<Rightarrow> c4 @ c6 | MODE_IPV6_FIRST \<Rightarrow> c6 @ c4)
     in (case cs of [] \<Rightarrow> None | c # _ \<Rightarrow> Some c))"

lemma sa_family_simps [simp]: "sa_family (sa_in a p) = AF_INET" "sa_family (sa_in6 a p) = AF_INET6"
  by (simp_all add: sa_in_def sa_in6_def)

lemma choose_family_append:
  "choose_family af (xs @ ys) = (case choose_family af xs of Some r \<Rightarrow> Some r | None \<Rightarrow> choose_family af ys)"
  by (induction xs) auto

lemma choose_family_map:
  "(\<And>a. sa_family (f a) = fam) \<Longrightarrow>
   choose_family af (map f xs) = (if fam = af then (case xs of [] \<Rightarrow> None | x # _ \<Rightarrow> Some (f x)) else None)"
  by (induction xs) auto

lemma choose_spec:
  assumes "set [rs, rs'] = {map (\<lambda>a. sa_in a port) v4, map (\<lambda>a. sa_in6 a port) v6}"
  shows "choose_ipv4_first (rs @ rs') = resolv_spec MODE_IPV4_FIRST port v4 v6"
    and "choose_ipv6_first (rs @ rs') = resolv_spec MODE_IPV6_FIRST port v4 v6"
  using assms
  by (cases v4; cases v6; auto simp: doubleton_eq_iff choose_ipv4_first_def choose_ipv6_first_def choose_any_def
        choose_family_append choose_family_map resolv_spec_def af_defs)+

lemma v4_cb_waiting:
  "st \<noteq> ARES_EDESTRUCTION \<Longrightarrow> rq_request6 q \<noteq> 0 \<Longrightarrow>
   dns_query_v4_cb mode ok q st he =
     Waiting (q\<lparr>rq_request4 := 0, rq_responses := rq_responses q @ map (\<lambda>a. sa_in a (rq_port q)) (usable ok st he)\<rparr>)"
  by (auto simp: dns_query_v4_cb_def usable_def all_requests_are_null_def Let_def split: option.splits)

lemma v6_cb_waiting:
  "st \<noteq> ARES_EDESTRUCTION \<Longrightarrow> rq_request4 q \<noteq> 0 \<Longrightarrow>
   dns_query_v6_cb mode ok q st he =
     Waiting (q\<lparr>rq_request6 := 0, rq_responses := rq_responses q @ map (\<lambda>a. sa_in6 a (rq_port q)) (usable ok st he)\<rparr>)"
  by (auto simp: dns_query_v6_cb_def usable_def all_requests_are_null_def Let_def split: option.splits)

lemma v4_cb_last:
  "st \<noteq> ARES_EDESTRUCTION \<Longrightarrow> rq_request6 q = 0 \<Longrightarrow>
   dns_query_v4_cb mode ok q st he = process_client_callback mode
     (q\<lparr>rq_responses := rq_responses q @ map (\<lambda>a. sa_in a (rq_port q)) (usable ok st he)\<rparr>)"
  by (auto simp: dns_query_v4_cb_def usable_def all_requests_are_null_def process_client_callback_def Let_def
      split: option.splits resolv_mode.splits)

lemma v6_cb_last:
  "st \<noteq> ARES_EDESTRUCTION \<Longrightarrow> rq_request4 q = 0 \<Longrightarrow>
   dns_query_v6_cb mode ok q st he = process_client_callback mode
     (q\<lparr>rq_responses := rq_responses q @ map (\<lambda>a. sa_in6 a (rq_port q)) (usable ok st he)\<rparr>)"
  by (auto simp: dns_query_v6_cb_def usable_def all_requests_are_null_def process_client_callback_def Let_def
      split: option.splits resolv_mode.splits)

lemma both_answered:
  assumes "st4 \<noteq> ARES_EDESTRUCTION" "st6 \<noteq> ARES_EDESTRUCTION"
    and "answers = [AnswerV4 ok4 st4 he4, AnswerV6 ok6 st6 he6] \<or> answers = [AnswerV6 ok6 st6 he6, AnswerV4 ok4 st4 he4]"
  shows "(\<exists>q. resolv_step mode (Waiting (resolv_start port data)) (hd answers) = Waiting q) \<and>
    foldl (resolv_step mode) (Waiting (resolv_start port data)) answers =
      Called (resolv_spec mode port (usable ok4 st4 he4) (usable ok6 st6 he6)) data"
proof -
  have nz: "AF_INET \<noteq> 0" "AF_INET6 \<noteq> 0" by (simp_all add: af_defs)
  let ?c4 = "map (\<lambda>a. sa_in a port) (usable ok4 st4 he4)" and ?c6 = "map (\<lambda>a. sa_in6 a port) (usable ok6 st6 he6)"
  have s: "set [?c4, ?c6] = {?c4, ?c6}" "set [?c6, ?c4] = {?c4, ?c6}" by auto
  from assms(3) show ?thesis
  proof
    assume "answers = [AnswerV4 ok4 st4 he4, AnswerV6 ok6 st6 he6]"
    then show ?thesis
      using choose_spec [OF s(1)]
      by (simp add: v4_cb_waiting v6_cb_last assms nz resolv_start_def process_client_callback_def split: resolv_mode.splits)
  next
    assume "answers = [AnswerV6 ok6 st6 he6, AnswerV4 ok4 st4 he4]"
    then show ?thesis
      using choose_spec [OF s(2)]
      by (simp add: v6_cb_waiting v4_cb_last assms nz resolv_start_def process_client_callback_def split: resolv_mode.splits)
  qed
qed

text \<open>C32 (liveness): when c-ares has answered both requests, in either order and successfully or not, the client's
  callback has run, and not before the second answer; it received the first address of the preferred family, else
  the first address of the other family, else none, with the port of the request.\<close>

theorem resolv_answered:
  assumes "st4 \<noteq> ARES_EDESTRUCTION" "st6 \<noteq> ARES_EDESTRUCTION"
    and "answers = [AnswerV4 ok4 st4 he4, AnswerV6 ok6 st6 he6] \<or> answers = [AnswerV6 ok6 st6 he6, AnswerV4 ok4 st4 he4]"
  shows "(\<exists>q. resolv_step mode (Waiting (resolv_start port data)) (hd answers) = Waiting q) \<and>
    foldl (resolv_step mode) (Waiting (resolv_start port data)) answers =
      Called (resolv_spec mode port (usable ok4 st4 he4) (usable ok6 st6 he6)) data"
  by (rule both_answered [OF assms])

theorem resolv_answered_witness:
  "foldl (resolv_step MODE_IPV4_FIRST) (Waiting (resolv_start [0, 53] ()))
     [AnswerV6 True ARES_SUCCESS (Some [replicate 16 1]), AnswerV4 True ARES_SUCCESS (Some [[10, 0, 0, 1]])] =
   Called (Some (sa_in [10, 0, 0, 1] [0, 53])) ()"
  using resolv_answered [of ARES_SUCCESS ARES_SUCCESS
      "[AnswerV6 True ARES_SUCCESS (Some [replicate 16 1]), AnswerV4 True ARES_SUCCESS (Some [[10, 0, 0, 1]])]"
      True "Some [[10, 0, 0, 1]]" True "Some [replicate 16 1]" MODE_IPV4_FIRST "[0, 53]" "()"]
  by (simp add: resolv_spec_def usable_def)

end
