(* ===== verification/Sniffers.thy ===== *)
theory Sniffers
  imports Prelude
begin

text \<open>
  \<open>shadowsocks-libev/src/http.c\<close> and \<open>tls.c\<close>: extracting the host name from the first bytes of a
  connection.  Every read of the packet goes through \<^term>\<open>rd\<close>, whose result \<open>None\<close> is a read outside the
  packet, so that a function returning \<open>None\<close> has accessed memory it should not.  Otherwise the
  result is the return value and the host name that was allocated.
\<close>

definition rd :: "bytes \<Rightarrow> nat \<Rightarrow> byte option" where
  "rd data i = (if i < length data then Some (data ! i) else None)"

text \<open>Reading \<open>n\<close> bytes from the start.\<close>

definition rd_n :: "bytes \<Rightarrow> nat \<Rightarrow> bytes option" where
  "rd_n data n = (if n \<le> length data then Some (take n data) else None)"

lemma rd_simps [simp]: "i < length data \<Longrightarrow> rd data i = Some (data ! i)" "length data \<le> i \<Longrightarrow> rd data i = None"
  by (simp_all add: rd_def)

definition CR :: byte where "CR = 13"
definition LF :: byte where "LF = 10"

type_synonym sniff_result = "int \<times> bytes option"

text \<open>The \<open>n\<close> bytes from \<open>pos\<close> on, handed on as a pointer and a length.\<close>

definition rd_mid :: "bytes \<Rightarrow> nat \<Rightarrow> nat \<Rightarrow> bytes option" where
  "rd_mid data pos n = (if pos + n \<le> length data then Some (mid pos n data) else None)"

text \<open>\<open>strncpy\<close> of \<open>n\<close> bytes, followed by a NUL: bytes after a NUL in the source become NUL.  It reads up to \<open>n\<close> bytes,
  and none after a NUL.\<close>

definition strncpy_nul :: "bytes \<Rightarrow> nat \<Rightarrow> bytes" where
  "strncpy_nul src n =
    (let s = c_string (take n src) in s @ replicate (n - length s) 0 @ [0])"

definition rd_strncpy :: "bytes \<Rightarrow> nat \<Rightarrow> nat \<Rightarrow> bytes option" where
  "rd_strncpy data pos n =
    (if pos \<le> length data \<and> (pos + n \<le> length data \<or> 0 \<in> set (drop pos data)) then Some (strncpy_nul (drop pos data) n)
     else None)"

section \<open>HTTP\<close>

text \<open>The first loop of \<open>next_header\<close>; \<open>len\<close> is the C \<open>int\<close>.\<close>

function skip_line :: "bytes \<Rightarrow> int \<Rightarrow> (bytes \<times> int) option" where
  "skip_line data len =
    (if len > 2
     then (case (rd data 0, rd data 1) of
             (Some a, Some b) \<Rightarrow> if a \<noteq> CR \<and> b \<noteq> LF then skip_line (drop 1 data) (len - 1) else Some (data, len)
           | _ \<Rightarrow> None)
     else Some (data, len))"
  by auto
termination by (relation "measure (\<lambda>(_, len). nat len)") auto

text \<open>The second loop: the length of the next header.\<close>

function header_length :: "bytes \<Rightarrow> int \<Rightarrow> nat \<Rightarrow> nat option" where
  "header_length data len header_len =
    (if len > int header_len + 1
     then (case (rd data header_len, rd data (header_len + 1)) of
             (Some a, Some b) \<Rightarrow> if a \<noteq> CR \<and> b \<noteq> LF then header_length data len (header_len + 1) else Some header_len
           | _ \<Rightarrow> None)
     else Some header_len)"
  by auto
termination by (relation "measure (\<lambda>(_, len, h). nat len - h)") auto

declare skip_line.simps [simp del] header_length.simps [simp del]

definition next_header :: "bytes \<Rightarrow> int \<Rightarrow> (nat \<times> bytes \<times> int) option" where
  "next_header data len =
    (case skip_line data len of
       None \<Rightarrow> None
     | Some (data, len) \<Rightarrow>
         let data = drop 2 data; len = len - 2
         in map_option (\<lambda>h. (h, data, len)) (header_length data len 0))"

definition to_lower :: "byte \<Rightarrow> byte" where
  "to_lower c = (if 65 \<le> c \<and> c \<le> 90 then c + 32 else c)"

text \<open>\<open>strncasecmp\<close> of a packet with a header name of the same length.\<close>

definition case_eq :: "bytes \<Rightarrow> bytes \<Rightarrow> bool" where
  "case_eq a b \<longleftrightarrow> map to_lower a = map to_lower b"

definition isblank :: "byte \<Rightarrow> bool" where
  "isblank c \<longleftrightarrow> c = 32 \<or> c = 9"

text \<open>The value of a matching header line: leading whitespace is eaten.\<close>

definition header_value :: "nat \<Rightarrow> bytes \<Rightarrow> bytes" where
  "header_value header_len line = dropWhile isblank (drop header_len line)"

text \<open>The loop condition's \<open>len > header_len && strncasecmp(...) == 0\<close>.\<close>

definition header_matches :: "bytes \<Rightarrow> bytes \<Rightarrow> nat \<Rightarrow> bool option" where
  "header_matches header data len =
    (if len > length header then map_option (\<lambda>start. case_eq start header) (rd_n data (length header)) else Some False)"

lemma skip_line_len: "skip_line data len = Some (data', len') \<Longrightarrow> len' \<le> len"
proof (induction data len rule: skip_line.induct)
  case (1 data len)
  show ?case
  proof (cases "len > 2")
    case True
    then show ?thesis using "1.prems" "1.IH" [OF True]
      by (subst (asm) skip_line.simps) (force split: option.splits if_splits)
  next
    case False
    then show ?thesis using "1.prems" by (subst (asm) skip_line.simps) simp
  qed
qed

lemma next_header_len: "next_header data len = Some (h, data', len') \<Longrightarrow> len' \<le> len - 2"
  by (auto simp: next_header_def Let_def split: option.splits dest: skip_line_len)

lemma next_header_step: "next_header data len = Some (h, data', len') \<Longrightarrow> 0 < h \<Longrightarrow> 0 < len \<and> len' < len"
  using next_header_len [of data len h data' len']
  by (auto simp: next_header_def Let_def header_length.simps [of _ _ 0] split: option.splits if_splits)

function get_header :: "bool \<Rightarrow> bytes \<Rightarrow> bytes \<Rightarrow> int \<Rightarrow> sniff_result option" where
  "get_header malloc_ok header data data_len =
    (case next_header data data_len of
       None \<Rightarrow> None
     | Some (len, data', data_len') \<Rightarrow>
         if len \<noteq> 0
         then (case header_matches header data' len of
                 None \<Rightarrow> None
               | Some match \<Rightarrow>
                   if match
                   then (case rd_n data' len of
                           None \<Rightarrow> None
                         | Some line \<Rightarrow>
                             if \<not> malloc_ok then Some (-4, None)
                             else
                               let value = header_value (length header) line
                               in map_option (\<lambda>v. (int (length value), Some v)) (rd_strncpy value 0 (length value)))
                   else get_header malloc_ok header data' data_len')
         else if data_len' = 0 then Some (-1, None)
         else Some (-2, None))"
  by auto
termination
  by (relation "measure (\<lambda>(_, _, _, len). nat len)") (auto dest: next_header_step)

declare get_header.simps [simp del]

text \<open>Cutting the port: the first colon from the end, if any, becomes a NUL.\<close>

fun trim_port :: "nat \<Rightarrow> bytes \<Rightarrow> sniff_result option" where
  "trim_port 0 h = Some (-1, Some h)"
| "trim_port (Suc i) h =
    (case rd h i of
       None \<Rightarrow> None
     | Some c \<Rightarrow> if c = chr (CHR '':'') then Some (int i, Some (h[i := 0])) else trim_port i h)"

text \<open>\<open>trim_port\<close> returns -1 when there is no colon, and the result is then unchanged.\<close>

definition parse_http_header :: "bool \<Rightarrow> bytes \<Rightarrow> bool \<Rightarrow> sniff_result option" where
  "parse_http_header malloc_ok data hostname =
    (if \<not> hostname then Some (-3, None)
     else if length data = 0 then Some (-1, None)
     else (case get_header malloc_ok (cstr ''Host:'') data (int (length data)) of
             None \<Rightarrow> None
           | Some (result, h) \<Rightarrow>
               if result < 0 then Some (result, h)
               else (case h of
                       None \<Rightarrow> Some (result, None)
                     | Some h \<Rightarrow> map_option (\<lambda>(i, h'). (if i < 0 then result else i, h')) (trim_port (nat result) h))))"

section \<open>TLS\<close>

definition TLS_HEADER_LEN :: nat where "TLS_HEADER_LEN = 5"
definition TLS_HANDSHAKE_CONTENT_TYPE :: byte where "TLS_HANDSHAKE_CONTENT_TYPE = 0x16"
definition TLS_HANDSHAKE_TYPE_CLIENT_HELLO :: byte where "TLS_HANDSHAKE_TYPE_CLIENT_HELLO = 0x01"

text \<open>A big-endian 16-bit length.\<close>

definition rd16 :: "bytes \<Rightarrow> nat \<Rightarrow> nat option" where
  "rd16 data i = (case (rd data i, rd data (i + 1)) of
     (Some a, Some b) \<Rightarrow> Some (256 * unat a + unat b) | _ \<Rightarrow> None)"

function server_name_loop :: "bool \<Rightarrow> bytes \<Rightarrow> nat \<Rightarrow> sniff_result option" where
  "server_name_loop malloc_ok data pos =
    (if pos + 3 < length data
     then (case (rd data pos, rd16 data (pos + 1)) of
             (Some name_type, Some len) \<Rightarrow>
               if pos + 3 + len > length data then Some (-5, None)
               else if name_type = 0
               then
                 if \<not> malloc_ok then Some (-4, None)
                 else map_option (\<lambda>h. (int len, Some h)) (rd_strncpy data (pos + 3) len)
               else server_name_loop malloc_ok data (pos + 3 + len)
           | _ \<Rightarrow> None)
     else if pos \<noteq> length data then Some (-5, None)
     else Some (-2, None))"
  by auto
termination by (relation "measure (\<lambda>(_, data, pos). length data - pos)") auto

definition parse_server_name_extension :: "bool \<Rightarrow> bytes \<Rightarrow> sniff_result option" where
  "parse_server_name_extension malloc_ok data = server_name_loop malloc_ok data 2"

function extensions_loop :: "bool \<Rightarrow> bytes \<Rightarrow> nat \<Rightarrow> sniff_result option" where
  "extensions_loop malloc_ok data pos =
    (if pos + 4 \<le> length data
     then (case (rd data pos, rd data (pos + 1), rd16 data (pos + 2)) of
             (Some t0, Some t1, Some len) \<Rightarrow>
               if t0 = 0 \<and> t1 = 0
               then
                 if pos + 4 + len > length data then Some (-5, None)
                 else (case rd_mid data (pos + 4) len of
                         None \<Rightarrow> None
                       | Some d \<Rightarrow> parse_server_name_extension malloc_ok d)
               else extensions_loop malloc_ok data (pos + 4 + len)
           | _ \<Rightarrow> None)
     else if pos \<noteq> length data then Some (-5, None)
     else Some (-2, None))"
  by auto
termination by (relation "measure (\<lambda>(_, data, pos). length data - pos)") auto

declare server_name_loop.simps [simp del] extensions_loop.simps [simp del]

definition parse_extensions :: "bool \<Rightarrow> bytes \<Rightarrow> sniff_result option" where
  "parse_extensions malloc_ok data = extensions_loop malloc_ok data 0"

text \<open>The variable-length fields of the client hello: skipping a field with an 8-bit length and one with a
  16-bit length; \<open>Inl\<close> is the early return of -5.\<close>

definition skip8 :: "bytes \<Rightarrow> nat \<Rightarrow> (int + nat) option" where
  "skip8 data pos =
    (if pos + 1 > length data then Some (Inl (-5))
     else map_option (\<lambda>len. Inr (pos + 1 + unat len)) (rd data pos))"

definition skip16 :: "bytes \<Rightarrow> nat \<Rightarrow> (int + nat) option" where
  "skip16 data pos =
    (if pos + 2 > length data then Some (Inl (-5))
     else map_option (\<lambda>len. Inr (pos + 2 + len)) (rd16 data pos))"

text \<open>From the extensions length on; \<open>pos\<close> is behind the compression methods.\<close>

definition tls_extensions_part :: "bool \<Rightarrow> bytes \<Rightarrow> byte \<Rightarrow> byte \<Rightarrow> nat \<Rightarrow> sniff_result option" where
  "tls_extensions_part malloc_ok data major minor pos =
    (if pos = length data \<and> major = 3 \<and> minor = 0 then Some (-2, None)
     else if pos + 2 > length data then Some (-5, None)
     else (case rd16 data pos of
             None \<Rightarrow> None
           | Some len \<Rightarrow>
               if pos + 2 + len > length data then Some (-5, None)
               else (case rd_mid data (pos + 2) len of
                       None \<Rightarrow> None
                     | Some d \<Rightarrow> parse_extensions malloc_ok d)))"

definition tls_hello :: "bool \<Rightarrow> bytes \<Rightarrow> byte \<Rightarrow> byte \<Rightarrow> sniff_result option" where
  "tls_hello malloc_ok data major minor =
    (let pos = TLS_HEADER_LEN
     in if pos + 1 > length data then Some (-5, None)
        else (case rd data pos of
                None \<Rightarrow> None
              | Some t \<Rightarrow>
                  if t \<noteq> TLS_HANDSHAKE_TYPE_CLIENT_HELLO then Some (-5, None)
                  else (case skip8 data (pos + 38) of
                          None \<Rightarrow> None
                        | Some (Inl e) \<Rightarrow> Some (e, None)
                        | Some (Inr pos) \<Rightarrow> (case skip16 data pos of
                            None \<Rightarrow> None
                          | Some (Inl e) \<Rightarrow> Some (e, None)
                          | Some (Inr pos) \<Rightarrow> (case skip8 data pos of
                              None \<Rightarrow> None
                            | Some (Inl e) \<Rightarrow> Some (e, None)
                            | Some (Inr pos) \<Rightarrow> tls_extensions_part malloc_ok data major minor pos)))))"

text \<open>\<open>char_signed\<close> says whether \<open>char\<close> is signed on the target, which matters for the version check.\<close>

definition parse_tls_header :: "bool \<Rightarrow> bool \<Rightarrow> bytes \<Rightarrow> bool \<Rightarrow> sniff_result option" where
  "parse_tls_header char_signed malloc_ok data hostname =
    (if \<not> hostname then Some (-3, None)
     else if length data < TLS_HEADER_LEN then Some (-1, None)
     else (case (rd data 0, rd data 1, rd data 2, rd16 data 3) of
             (Some content_type, Some major, Some minor, Some rec_len) \<Rightarrow>
               if content_type AND 0x80 \<noteq> 0 \<and> minor = 1 then Some (-2, None)
               else if content_type \<noteq> TLS_HANDSHAKE_CONTENT_TYPE then Some (-5, None)
               else if (if char_signed then sint major < 3 else unat major < 3) then Some (-2, None)
               else
                 let len = rec_len + TLS_HEADER_LEN;
                     data_len = min (length data) len
                 in if data_len < len then Some (-1, None)
                    else tls_hello malloc_ok (take data_len data) major minor
           | _ \<Rightarrow> None))"

section \<open>Memory safety\<close>

text \<open>A host name result: a code of at least -5, and for a code \<open>n\<close> of at least 0 a buffer with a NUL at
  position \<open>n\<close>.\<close>

definition sniff_ok :: "sniff_result option \<Rightarrow> bool" where
  "sniff_ok r \<longleftrightarrow> (\<exists>n h. r = Some (n, h) \<and> -5 \<le> n \<and> (0 \<le> n \<longrightarrow> (\<exists>s. h = Some s \<and> nat n < length s \<and> s ! nat n = 0)))"

lemma sniff_ok_error [simp]: "sniff_ok (Some (n, None)) \<longleftrightarrow> -5 \<le> n \<and> n < 0"
  by (auto simp: sniff_ok_def)

lemma length_strncpy_nul [simp]: "length (strncpy_nul src n) = n + 1"
proof -
  have "length (c_string (take n src)) \<le> n"
    unfolding c_string_def using length_takeWhile_le [of "\<lambda>c. c \<noteq> 0" "take n src"] by simp
  then show ?thesis by (simp add: strncpy_nul_def Let_def)
qed

lemma strncpy_nul_terminated [simp]: "strncpy_nul src n ! n = 0"
proof -
  let ?s = "c_string (take n src)"
  have l: "length ?s \<le> n"
    unfolding c_string_def using length_takeWhile_le [of "\<lambda>c. c \<noteq> 0" "take n src"] by simp
  have "strncpy_nul src n = (?s @ replicate (n - length ?s) 0) @ [0]" by (simp add: strncpy_nul_def Let_def)
  moreover have "n = length (?s @ replicate (n - length ?s) 0)" using l by simp
  ultimately show ?thesis by (metis nth_append_length)
qed

lemma sniff_ok_name [simp]: "sniff_ok (Some (int n, Some (strncpy_nul src n)))"
  by (simp add: sniff_ok_def)

lemma rd_mid_in [simp]: "pos + n \<le> length data \<Longrightarrow> rd_mid data pos n = Some (mid pos n data)"
  by (simp add: rd_mid_def)

lemma rd_strncpy_in [simp]: "pos + n \<le> length data \<Longrightarrow> rd_strncpy data pos n = Some (strncpy_nul (drop pos data) n)"
  by (simp add: rd_strncpy_def)

lemma skip_line_safe:
  "len \<le> int (length data) \<Longrightarrow> \<exists>data' len'. skip_line data len = Some (data', len') \<and> len' \<le> int (length data')"
proof (induction data len rule: skip_line.induct)
  case (1 data len)
  show ?case
  proof (cases "len > 2")
    case True
    then have "2 < length data" using "1.prems" by simp
    then have r: "rd data 0 = Some (data ! 0)" "rd data 1 = Some (data ! 1)" by (auto simp: rd_def)
    show ?thesis
    proof (cases "data ! 0 \<noteq> CR \<and> data ! 1 \<noteq> LF")
      case c: True
      have "\<exists>data' len'. skip_line (drop 1 data) (len - 1) = Some (data', len') \<and> len' \<le> int (length data')"
        by (rule "1.IH" [OF True refl r c]) (use "1.prems" \<open>2 < length data\<close> in simp)
      then show ?thesis using True r c by (subst skip_line.simps) simp
    next
      case c: False
      then show ?thesis using True r "1.prems" by (subst skip_line.simps) auto
    qed
  next
    case False
    then show ?thesis using "1.prems" by (subst skip_line.simps) simp
  qed
qed

lemma header_length_safe:
  "len \<le> int (length data) \<Longrightarrow> \<exists>h. header_length data len k = Some h \<and> (k \<le> h \<and> (h = k \<or> int h < len))"
proof (induction data len k rule: header_length.induct)
  case (1 data len k)
  show ?case
  proof (cases "len > int k + 1")
    case True
    then have "k + 1 < length data" using "1.prems" by simp
    then have r: "rd data k = Some (data ! k)" "rd data (k + 1) = Some (data ! (k + 1))" by simp_all
    show ?thesis
    proof (cases "data ! k \<noteq> CR \<and> data ! (k + 1) \<noteq> LF")
      case c: True
      obtain h where "header_length data len (k + 1) = Some h" "k + 1 \<le> h" "h = k + 1 \<or> int h < len"
        using "1.IH" [OF True refl r c "1.prems"] by auto
      then show ?thesis using True r c by (subst header_length.simps) auto
    next
      case c: False
      then show ?thesis using True r by (subst header_length.simps) auto
    qed
  next
    case False
    then show ?thesis by (subst header_length.simps) simp
  qed
qed

lemma next_header_safe:
  assumes "len \<le> int (length data)"
  shows "\<exists>h data' len'. next_header data len = Some (h, data', len') \<and> len' \<le> int (length data') \<and> (h = 0 \<or> h \<le> length data')"
proof -
  obtain d l where s: "skip_line data len = Some (d, l)" "l \<le> int (length d)"
    using skip_line_safe [OF assms] by blast
  have l: "l - 2 \<le> int (length (drop 2 d))" using s(2) by simp
  obtain h where h: "header_length (drop 2 d) (l - 2) 0 = Some h" "h = 0 \<or> int h < l - 2"
    using header_length_safe [OF l, of 0] by auto
  then show ?thesis using s l by (auto simp: next_header_def Let_def)
qed

lemma get_header_safe: "len \<le> int (length data) \<Longrightarrow> sniff_ok (get_header m header data len)"
proof (induction m header data len rule: get_header.induct)
  case (1 m header data len)
  obtain h d l where n: "next_header data len = Some (h, d, l)" "l \<le> int (length d)" "h = 0 \<or> h \<le> length d"
    using next_header_safe [OF "1.prems"] by blast
  show ?case
  proof (cases "h = 0")
    case True
    then show ?thesis using n by (subst get_header.simps) simp
  next
    case False
    then have r: "rd_n d h = Some (take h d)" using n(3) by (simp add: rd_n_def)
    obtain c where m: "header_matches header d h = Some c" using n(3) False
      by (cases "length header < h") (auto simp: header_matches_def rd_n_def)
    show ?thesis
    proof (cases c)
      case True
      then show ?thesis using False n r m by (subst get_header.simps) (auto simp: Let_def)
    next
      case c: False
      have "sniff_ok (get_header m header d l)"
        by (rule "1.IH" [OF n(1) refl refl False m c n(2)])
      then show ?thesis using False n r m c by (subst get_header.simps) (auto simp: Let_def)
    qed
  qed
qed

lemma trim_port_ok:
  assumes "n < length h" "h ! n = 0"
  shows "k \<le> n \<Longrightarrow> \<exists>i s. trim_port k h = Some (i, Some s) \<and> (i = -1 \<and> s = h \<or> 0 \<le> i \<and> nat i < length s \<and> s ! nat i = 0)"
  using assms by (induction k) auto

lemma rd16_Some: "i + 1 < length data \<Longrightarrow> \<exists>n. rd16 data i = Some n"
  by (simp add: rd16_def)

lemma server_name_safe: "sniff_ok (server_name_loop m data pos)"
proof (induction m data pos rule: server_name_loop.induct)
  case (1 m data pos)
  show ?case
  proof (cases "pos + 3 < length data")
    case True
    obtain n where r: "rd data pos = Some (data ! pos)" "rd16 data (pos + 1) = Some n"
      using True rd16_Some [of "pos + 1" data] by auto
    show ?thesis using True r "1.IH" [OF True refl r] by (subst server_name_loop.simps) auto
  next
    case False
    then show ?thesis by (subst server_name_loop.simps) simp
  qed
qed

lemma extensions_safe: "sniff_ok (extensions_loop m data pos)"
proof (induction m data pos rule: extensions_loop.induct)
  case (1 m data pos)
  show ?case
  proof (cases "pos + 4 \<le> length data")
    case True
    obtain n where r: "rd data pos = Some (data ! pos)" "rd data (pos + 1) = Some (data ! (pos + 1))" "rd16 data (pos + 2) = Some n"
      using True rd16_Some [of "pos + 2" data] by auto
    show ?thesis using True r "1.IH" [OF True refl r(1) refl r(2,3)]
      by (subst extensions_loop.simps) (auto simp: parse_server_name_extension_def server_name_safe)
  next
    case False
    then show ?thesis by (subst extensions_loop.simps) simp
  qed
qed

lemma skip_safe:
  "skip8 data pos = None \<longleftrightarrow> False" "skip16 data pos = None \<longleftrightarrow> False"
  "skip8 data pos = Some (Inl e) \<Longrightarrow> e = -5" "skip16 data pos = Some (Inl e) \<Longrightarrow> e = -5"
  by (auto simp: skip8_def skip16_def rd16_def split: if_splits)

lemma tls_extensions_part_safe: "sniff_ok (tls_extensions_part m data a b pos)"
  by (auto simp: tls_extensions_part_def parse_extensions_def extensions_safe rd16_def rd_mid_def split: option.splits)

lemma tls_hello_safe: "sniff_ok (tls_hello m data a b)"
  by (auto simp: tls_hello_def Let_def tls_extensions_part_safe skip_safe(1,2) split: option.splits sum.splits
      dest!: skip_safe(3,4))

text \<open>C24 (bounds): the sniffers are memory safe.  On every packet, HTTP or TLS or neither, neither parser reads
  outside the packet, the result is at least -5, and a non-negative result is the position of a NUL
  inside the returned host name buffer.\<close>

theorem sniffers_memory_safe:
  "sniff_ok (parse_http_header m data hostname) \<and> sniff_ok (parse_tls_header cs m data hostname)"
proof
  let ?r = "get_header m (cstr ''Host:'') data (int (length data))"
  have "sniff_ok ?r" by (rule get_header_safe) simp
  then obtain n h where r: "?r = Some (n, h)" "-5 \<le> n" "0 \<le> n \<longrightarrow> (\<exists>s. h = Some s \<and> nat n < length s \<and> s ! nat n = 0)"
    by (auto simp: sniff_ok_def)
  show "sniff_ok (parse_http_header m data hostname)"
  proof (cases "n < 0")
    case True
    then show ?thesis using r by (auto simp: parse_http_header_def sniff_ok_def)
  next
    case False
    then obtain s where s: "h = Some s" "nat n < length s" "s ! nat n = 0" using r(3) by auto
    show ?thesis using trim_port_ok [OF s(2,3) order_refl] r(1,2) s False
      by (auto simp: parse_http_header_def) (auto simp: sniff_ok_def)
  qed
  show "sniff_ok (parse_tls_header cs m data hostname)"
    by (auto simp: parse_tls_header_def TLS_HEADER_LEN_def rd16_def rd_def Let_def tls_hello_safe split: option.splits)
qed


section \<open>HTTP requests\<close>

text \<open>A request with the lines \<open>ls\<close>, a blank line and a body.\<close>

definition text_line :: "bytes \<Rightarrow> bool" where
  "text_line l \<longleftrightarrow> CR \<notin> set l \<and> LF \<notin> set l"

definition http_request :: "bytes list \<Rightarrow> bytes \<Rightarrow> bytes" where
  "http_request ls body = concat (map (\<lambda>l. l @ [CR, LF]) ls) @ [CR, LF] @ body"

definition is_header :: "bytes \<Rightarrow> bytes \<Rightarrow> bool" where
  "is_header header l \<longleftrightarrow> length header < length l \<and> case_eq (take (length header) l) header"

lemma skip_line_line:
  "text_line l \<Longrightarrow> skip_line (l @ CR # LF # rest) (int (length (l @ CR # LF # rest))) =
    Some (CR # LF # rest, int (length (CR # LF # rest)))"
proof (induction l)
  case Nil
  then show ?case by (subst skip_line.simps) (simp add: rd_def)
next
  case (Cons a l)
  have ne: "a \<noteq> CR" "hd (l @ CR # LF # rest) \<noteq> LF" "text_line l"
    using Cons.prems by (cases l; auto simp: text_line_def CR_def LF_def)+
  have "rd ((a # l) @ CR # LF # rest) 0 = Some a" "rd ((a # l) @ CR # LF # rest) 1 = Some (hd (l @ CR # LF # rest))"
    by (simp_all add: rd_def nth_Cons' hd_conv_nth)
  then show ?case using ne Cons.IH by (subst skip_line.simps) (simp add: algebra_simps)
qed

lemma header_length_line:
  assumes "text_line l" "k \<le> length l"
  shows "header_length (l @ CR # LF # rest) (int (length (l @ CR # LF # rest))) k = Some (length l)"
  using assms(2)
proof (induction "length l - k" arbitrary: k)
  case 0
  then show ?case by (subst header_length.simps) (simp add: rd_def nth_append)
next
  case (Suc n)
  then have k: "k < length l" by simp
  have "l ! k \<noteq> CR" using assms(1) k by (metis nth_mem text_line_def)
  moreover have "(l @ CR # LF # rest) ! (k + 1) \<noteq> LF"
  proof (cases "k + 1 < length l")
    case True
    then show ?thesis using assms(1) by (metis nth_append nth_mem text_line_def)
  next
    case False
    then have "k + 1 = length l" using k by simp
    then show ?thesis by (simp add: nth_append CR_def LF_def)
  qed
  ultimately show ?case using Suc k
    by (subst header_length.simps) (simp add: rd_def nth_append)
qed

lemma next_header_line:
  assumes "text_line l" "text_line l2"
  shows "next_header (l @ CR # LF # l2 @ CR # LF # rest) (int (length (l @ CR # LF # l2 @ CR # LF # rest))) =
    Some (length l2, l2 @ CR # LF # rest, int (length (l2 @ CR # LF # rest)))"
  using skip_line_line [OF assms(1), of "l2 @ CR # LF # rest"] header_length_line [OF assms(2), of 0 rest]
  by (simp add: next_header_def Let_def)

lemma get_header_lines:
  assumes "text_line r" "\<forall>h\<in>set hs. text_line h \<and> h \<noteq> []"
  shows "get_header True header (http_request (r # hs) body) (int (length (http_request (r # hs) body))) =
    Some (case find (is_header header) hs of
       None \<Rightarrow> (-2, None)
     | Some h \<Rightarrow> (let v = header_value (length header) h in (int (length v), Some (strncpy_nul v (length v)))))"
  using assms
proof (induction hs arbitrary: r)
  case Nil
  have "next_header (http_request [r] body) (int (length (http_request [r] body))) =
      Some (0, CR # LF # body, int (length (CR # LF # body)))"
    using next_header_line [OF Nil.prems(1), of "[]" body] by (simp add: http_request_def text_line_def)
  then show ?case by (subst get_header.simps) simp
next
  case (Cons h hs)
  have h: "text_line h" "h \<noteq> []" using Cons.prems(2) by simp_all
  obtain rest where rest: "http_request (h # hs) body = h @ CR # LF # rest"
    by (simp add: http_request_def)
  then have "http_request (r # h # hs) body = r @ CR # LF # h @ CR # LF # rest" by (simp add: http_request_def)
  then have n: "next_header (http_request (r # h # hs) body) (int (length (http_request (r # h # hs) body))) =
      Some (length h, http_request (h # hs) body, int (length (http_request (h # hs) body)))"
    using next_header_line [OF Cons.prems(1) h(1), of rest] rest by simp
  have l: "rd_n (http_request (h # hs) body) (length h) = Some h"
    "header_matches header (http_request (h # hs) body) (length h) = Some (is_header header h)"
    by (simp_all add: rest rd_n_def header_matches_def is_header_def)
  have IH: "get_header True header (http_request (h # hs) body) (int (length (http_request (h # hs) body))) =
    Some (case find (is_header header) hs of
       None \<Rightarrow> (-2, None)
     | Some h \<Rightarrow> (let v = header_value (length header) h in (int (length v), Some (strncpy_nul v (length v)))))"
    using Cons.IH [OF h(1)] Cons.prems(2) by simp
  show ?case
    using h(2) IH by (subst get_header.simps) (simp add: n l is_header_def Let_def)
qed

lemma trim_port_none: "chr (CHR '':'') \<notin> set (take k h) \<Longrightarrow> k \<le> length h \<Longrightarrow> trim_port k h = Some (-1, Some h)"
  by (induction k) (auto simp: take_Suc_conv_app_nth)

lemma trim_port_found:
  assumes "h = name @ chr (CHR '':'') # port @ rest" "chr (CHR '':'') \<notin> set port" "k = length name + 1 + length port"
  shows "trim_port k h = Some (int (length name), Some (h[length name := 0]))"
proof -
  have "trim_port (length name + 1 + n) h = Some (int (length name), Some (h[length name := 0]))" if "n \<le> length port" for n
    using that
  proof (induction n)
    case 0
    then show ?case using assms(1) by simp
  next
    case (Suc n)
    have "port ! n \<noteq> chr (CHR '':'')" using Suc.prems assms(2) by (metis Suc_le_lessD nth_mem)
    then have "h ! (length name + 1 + n) \<noteq> chr (CHR '':'')"
      using Suc.prems assms(1) by (simp add: nth_append)
    with Suc show ?case using assms(1) by simp
  qed
  from this [of "length port"] show ?thesis using assms(3) by simp
qed

lemma c_string_append_nul: "0 \<notin> set s \<Longrightarrow> c_string (s @ 0 # t) = s"
  unfolding c_string_def by (induction s) auto

lemma strncpy_nul_string: "0 \<notin> set v \<Longrightarrow> strncpy_nul v (length v) = v @ [0]"
proof -
  assume "0 \<notin> set v"
  then have "c_string v = v" unfolding c_string_def by (auto simp: takeWhile_eq_all_conv)
  then show ?thesis by (simp add: strncpy_nul_def)
qed

definition port_suffix :: "bytes option \<Rightarrow> bytes" where
  "port_suffix p = (case p of None \<Rightarrow> [] | Some p \<Rightarrow> chr (CHR '':'') # p)"

text \<open>C25 (functional): the HTTP sniffer finds the host.  For a request whose first \<open>Host:\<close> header (in any
  capitalisation, after any other headers) holds a host name and an optional port, the result is the length
  of the host name and a buffer holding it as a C string, with the port cut off.\<close>

theorem http_sniff_host:
  assumes "text_line r" "\<forall>h\<in>set hs. text_line h \<and> h \<noteq> [] \<and> \<not> is_header (cstr ''Host:'') h" "\<forall>h\<in>set hs'. text_line h \<and> h \<noteq> []"
    and "case_eq hdr (cstr ''Host:'')" "list_all isblank blanks" "name \<noteq> []" "\<not> isblank (hd name)"
    and "0 \<notin> set (name @ port_suffix port)" "chr (CHR '':'') \<notin> set name" "\<forall>p. port = Some p \<longrightarrow> chr (CHR '':'') \<notin> set p"
    and "text_line (hdr @ blanks @ name @ port_suffix port)"
  shows "\<exists>s. parse_http_header True (http_request (r # hs @ (hdr @ blanks @ name @ port_suffix port) # hs') body) True =
    Some (int (length name), Some s) \<and> c_string s = name"
proof -
  let ?h = "hdr @ blanks @ name @ port_suffix port" and ?v = "name @ port_suffix port"
  let ?req = "http_request (r # hs @ ?h # hs') body"
  have lh: "length hdr = 5" using arg_cong [OF assms(4) [unfolded case_eq_def], of length] by simp
  have ih: "is_header (cstr ''Host:'') ?h" using lh assms(4,6) by (simp add: is_header_def)
  have "find (is_header (cstr ''Host:'')) (hs @ ?h # hs') = Some ?h"
    using assms(2) ih by (induction hs) auto
  have "header_value (length (cstr ''Host:'')) ?h = ?v"
  proof -
    have "dropWhile isblank (blanks @ ?v) = dropWhile isblank ?v"
      using assms(5) by (intro dropWhile_append2) (simp add: list_all_iff)
    also have "\<dots> = ?v" using assms(6,7) by (cases name) simp_all
    finally show ?thesis using lh by (simp add: header_value_def)
  qed
  then have g: "get_header True (cstr ''Host:'') ?req (int (length ?req)) = Some (int (length ?v), Some (?v @ [0]))"
  proof -
    have "\<forall>h\<in>set (hs @ ?h # hs'). text_line h \<and> h \<noteq> []" using assms(2,3,6,11) by auto
    from get_header_lines [OF assms(1) this, of "cstr ''Host:''" body] strncpy_nul_string [OF assms(8)]
    show ?thesis using \<open>find (is_header (cstr ''Host:'')) (hs @ ?h # hs') = Some ?h\<close> \<open>header_value (length (cstr ''Host:'')) ?h = ?v\<close>
      by (simp add: Let_def)
  qed
  have ne: "?req \<noteq> []" by (simp add: http_request_def)
  show ?thesis
  proof (cases port)
    case None
    then have "trim_port (length name) (name @ [0]) = Some (-1, Some (name @ [0]))"
      using assms(9) by (intro trim_port_none) simp_all
    then show ?thesis using g ne None assms(8)
      by (simp add: parse_http_header_def port_suffix_def c_string_append_nul)
  next
    case (Some p)
    have n: "nat (1 + (int (length name) + int (length p))) = length name + 1 + length p" by simp
    have "trim_port (nat (1 + (int (length name) + int (length p)))) (name @ chr (CHR '':'') # p @ [0]) =
        Some (int (length name), Some ((name @ chr (CHR '':'') # p @ [0])[length name := 0]))"
      unfolding n using assms(10) Some by (intro trim_port_found) simp_all
    then show ?thesis using g ne Some assms(8)
      by (simp add: parse_http_header_def port_suffix_def c_string_append_nul)
  qed
qed


text \<open>A request cut off one byte after the end of a line is reported as having no host (-2) instead of as
  incomplete (-1).\<close>

lemma http_one_byte_left:
  assumes "text_line r"
  shows "parse_http_header m (r @ [CR, LF, c]) True = Some (-2, None)"
proof -
  have "skip_line (r @ CR # LF # [c]) (int (length (r @ CR # LF # [c]))) = Some (CR # LF # [c], int (length (CR # LF # [c])))"
    by (rule skip_line_line [OF assms])
  then have "next_header (r @ [CR, LF, c]) (int (length (r @ [CR, LF, c]))) = Some (0, [c], 1)"
    by (simp add: next_header_def Let_def header_length.simps)
  then have "get_header m h (r @ [CR, LF, c]) (int (length (r @ [CR, LF, c]))) = Some (-2, None)" for h
    by (subst get_header.simps) simp
  then show ?thesis by (simp add: parse_http_header_def)
qed

theorem http_sniff_host_witness:
  "\<exists>s. parse_http_header True
      (http_request [cstr ''GET / HTTP/1.1'', cstr ''Accept: text'', cstr ''HOST: '' @ cstr ''a.org'' @ cstr '':80''] (cstr ''body'')) True =
    Some (5, Some s) \<and> c_string s = cstr ''a.org''"
proof -
  have "\<exists>s. parse_http_header True
      (http_request (cstr ''GET / HTTP/1.1'' # [cstr ''Accept: text''] @
        (cstr ''HOST:'' @ [32] @ cstr ''a.org'' @ port_suffix (Some (cstr ''80''))) # []) (cstr ''body'')) True =
    Some (int (length (cstr ''a.org'')), Some s) \<and> c_string s = cstr ''a.org''"
    by (rule http_sniff_host)
       (simp_all add: text_line_def is_header_def case_eq_def to_lower_def isblank_def port_suffix_def cstr_def chr_def CR_def LF_def)
  then show ?thesis by (simp add: cstr_def port_suffix_def chr_def)
qed

section \<open>TLS client hellos\<close>

definition vec8 :: "bytes \<Rightarrow> bytes" where
  "vec8 b = word_of_nat (length b) # b"

definition vec16 :: "bytes \<Rightarrow> bytes" where
  "vec16 b = be16 (length b) @ b"

fun extension :: "byte \<times> byte \<times> bytes \<Rightarrow> bytes" where
  "extension (t0, t1, d) = [t0, t1] @ vec16 d"

definition sni_extension :: "bytes \<Rightarrow> bytes" where
  "sni_extension host = extension (0, 0, vec16 (0 # vec16 host))"

text \<open>A TLS record with a client hello: \<open>hdr\<close> is the three-byte handshake length, the version and the 32
  random bytes.\<close>

definition client_hello :: "byte \<Rightarrow> bytes \<Rightarrow> bytes \<Rightarrow> bytes \<Rightarrow> bytes \<Rightarrow> bytes \<Rightarrow> bytes" where
  "client_hello minor hdr sid suites cmeth exts =
    [0x16, 3, minor] @ vec16 ([1] @ hdr @ vec8 sid @ vec16 suites @ vec8 cmeth @ vec16 exts)"

lemma rd_at [simp]: "rd (xs @ y # ys) (length xs) = Some y"
  by (simp add: rd_def)

lemma rd16_at: "n < 65536 \<Longrightarrow> i = length xs \<Longrightarrow> rd16 (xs @ be16 n @ ys) i = Some n"
  by (simp add: rd16_def rd_def be16_def nth_append)

lemma skip8_at: "length v < 256 \<Longrightarrow> pos = length xs \<Longrightarrow> skip8 (xs @ vec8 v @ ys) pos = Some (Inr (pos + 1 + length v))"
  by (simp add: skip8_def vec8_def)

lemma skip16_at: "length v < 65536 \<Longrightarrow> pos = length xs \<Longrightarrow> skip16 (xs @ vec16 v @ ys) pos = Some (Inr (pos + 2 + length v))"
  by (simp add: skip16_def vec16_def rd16_at)

lemma server_name_at:
  assumes "host \<noteq> []" "length host < 65530" "0 \<notin> set host"
  shows "parse_server_name_extension True (vec16 (0 # vec16 host)) = Some (int (length host), Some (host @ [0]))"
proof -
  let ?d = "vec16 (0 # vec16 host)"
  have d: "?d = be16 (Suc (Suc (Suc (length host)))) @ 0 # be16 (length host) @ host @ []" by (simp add: vec16_def)
  have r: "rd ?d 2 = Some 0" "rd16 ?d 3 = Some (length host)" "drop 5 ?d = host"
    unfolding d using assms(2) rd16_at [of "length host" 3 "be16 (Suc (Suc (Suc (length host)))) @ [0]" host]
    by (simp_all add: rd_def nth_append)
  have "strncpy_nul host (length host) = host @ [0]" using assms(3) by (rule strncpy_nul_string)
  then show ?thesis using r assms(1)
    by (simp add: parse_server_name_extension_def server_name_loop.simps [of _ _ 2] d [THEN arg_cong, of length])
qed

lemma extensions_at:
  assumes "\<forall>e\<in>set es. \<not> (fst e = 0 \<and> fst (snd e) = 0) \<and> length (snd (snd e)) < 65536"
    and "host \<noteq> []" "length host < 65530" "0 \<notin> set host" "pos = length xs"
  shows "extensions_loop True (xs @ concat (map extension es) @ sni_extension host @ ys) pos =
    Some (int (length host), Some (host @ [0]))"
  using assms(1,5)
proof (induction es arbitrary: xs pos)
  case Nil
  let ?d = "vec16 (0 # vec16 host)"
  let ?all = "xs @ [0, 0] @ be16 (length ?d) @ ?d @ ys"
  have l: "length ?d < 65536" using assms(3) by (simp add: vec16_def)
  have r: "rd ?all pos = Some 0" "rd ?all (pos + 1) = Some 0" "rd16 ?all (pos + 2) = Some (length ?d)"
    using Nil.prems l rd16_at [of "length ?d" "pos + 2" "xs @ [0, 0]" "?d @ ys"] by (simp_all add: rd_def nth_append)
  have m: "mid (pos + 4) (length ?d) ?all = ?d"
    using Nil.prems by (simp add: mid_def be16_def)
  have "extensions_loop True ?all pos = Some (int (length host), Some (host @ [0]))"
    using r m Nil.prems server_name_at [OF assms(2-4)] by (subst extensions_loop.simps) simp
  then show ?case by (simp add: sni_extension_def vec16_def)
next
  case (Cons e es)
  obtain t0 t1 d where e: "e = (t0, t1, d)" by (cases e) auto
  let ?rest = "concat (map extension es) @ sni_extension host @ ys"
  let ?all = "xs @ [t0, t1] @ be16 (length d) @ d @ ?rest"
  have r: "rd ?all pos = Some t0" "rd ?all (pos + 1) = Some t1" "rd16 ?all (pos + 2) = Some (length d)"
    using Cons.prems e rd16_at [of "length d" "pos + 2" "xs @ [t0, t1]" "d @ ?rest"] by (simp_all add: rd_def nth_append)
  have "extensions_loop True ?all pos = extensions_loop True ?all (pos + 4 + length d)"
    using r Cons.prems e by (subst extensions_loop.simps) auto
  also have "\<dots> = Some (int (length host), Some (host @ [0]))"
    using Cons.IH [of "pos + 4 + length d" "xs @ [t0, t1] @ be16 (length d) @ d"] Cons.prems by simp
  finally show ?case by (simp add: e vec16_def)
qed

text \<open>C26 (functional): the TLS sniffer finds the server name.  In any well-formed TLS 1.x client hello record,
  followed by anything, whose server name extension (after any other extensions) holds a host name, the
  result is that name and its length.\<close>

theorem tls_sniff_host:
  assumes "\<forall>e\<in>set es. \<not> (fst e = 0 \<and> fst (snd e) = 0) \<and> length (snd (snd e)) < 65536"
    and "host \<noteq> []" "length host < 65530" "0 \<notin> set host"
    and "exts = concat (map extension es) @ sni_extension host @ more"
    and "length hdr = 37" "length sid < 256" "length cmeth < 256"
    and "length (client_hello minor hdr sid suites cmeth exts) < 65536"
  shows "parse_tls_header cs True (client_hello minor hdr sid suites cmeth exts @ rest) True =
    Some (int (length host), Some (host @ [0]))"
proof -
  let ?body = "[1] @ hdr @ vec8 sid @ vec16 suites @ vec8 cmeth @ vec16 exts"
  let ?ch = "client_hello minor hdr sid suites cmeth exts"
  have ch: "?ch = [0x16, 3, minor] @ be16 (length ?body) @ ?body" by (simp add: client_hello_def vec16_def)
  have len: "length ?body < 65536" "length suites < 65536" "length exts < 65536" "length ?ch = 5 + length ?body"
    using assms(9) by (simp_all add: ch vec16_def vec8_def)
  have r: "rd (?ch @ rest) 0 = Some 0x16" "rd (?ch @ rest) 1 = Some 3" "rd (?ch @ rest) 2 = Some minor"
    "rd16 (?ch @ rest) 3 = Some (length ?body)"
    using len(1) rd16_at [of "length ?body" 3 "[0x16, 3, minor]" "?body @ rest"] unfolding ch by (simp_all add: rd_def)
  have "parse_tls_header cs True (?ch @ rest) True = tls_hello True ?ch 3 minor"
    using r len(4) by (simp add: parse_tls_header_def TLS_HEADER_LEN_def TLS_HANDSHAKE_CONTENT_TYPE_def Let_def)
  also have "\<dots> = tls_extensions_part True ?ch 3 minor (length ?ch - length (vec16 exts))"
  proof -
    let ?p1 = "[0x16, 3, minor] @ be16 (length ?body) @ [1] @ hdr"
    let ?p2 = "?p1 @ vec8 sid" let ?p3 = "?p2 @ vec16 suites"
    have c: "?ch = ?p1 @ vec8 sid @ vec16 suites @ vec8 cmeth @ vec16 exts" "?ch = ?p2 @ vec16 suites @ vec8 cmeth @ vec16 exts"
      "?ch = ?p3 @ vec8 cmeth @ vec16 exts" by (simp_all add: ch)
    have s: "skip8 ?ch 43 = Some (Inr (43 + 1 + length sid))"
      "skip16 ?ch (43 + 1 + length sid) = Some (Inr (43 + 1 + length sid + 2 + length suites))"
      "skip8 ?ch (43 + 1 + length sid + 2 + length suites) =
        Some (Inr (43 + 1 + length sid + 2 + length suites + 1 + length cmeth))"
      using assms(6-8) len(2) skip8_at [of sid 43 ?p1 "vec16 suites @ vec8 cmeth @ vec16 exts"]
        skip16_at [of suites "43 + 1 + length sid" ?p2 "vec8 cmeth @ vec16 exts"]
        skip8_at [of cmeth "43 + 1 + length sid + 2 + length suites" ?p3 "vec16 exts"]
      unfolding c(1) [symmetric] c(2) [symmetric] c(3) [symmetric] by (simp_all add: vec8_def vec16_def)
    have "rd ?ch 5 = Some 1" by (simp add: ch rd_def be16_def)
    moreover have "length ?ch - length (vec16 exts) = 43 + 1 + length sid + 2 + length suites + 1 + length cmeth"
      using assms(6) by (simp add: ch vec8_def vec16_def)
    ultimately show ?thesis using s len(4)
      by (simp add: tls_hello_def TLS_HEADER_LEN_def TLS_HANDSHAKE_TYPE_CLIENT_HELLO_def add.assoc)
  qed
  also have "\<dots> = parse_extensions True exts"
  proof -
    define pre where "pre = [0x16, 3, minor] @ be16 (length ?body) @ [1] @ hdr @ vec8 sid @ vec16 suites @ vec8 cmeth"
    have c: "?ch = pre @ be16 (length exts) @ exts" by (simp add: ch pre_def vec16_def)
    have "rd16 ?ch (length pre) = Some (length exts)"
      unfolding c using rd16_at [of "length exts" "length pre" pre exts] len(3) by simp
    moreover have "length ?ch - length (vec16 exts) = length pre" "mid (length pre + 2) (length exts) ?ch = exts"
      by (simp_all add: c vec16_def mid_def)
    moreover have "length ?ch = length pre + 2 + length exts" by (simp add: c)
    ultimately show ?thesis by (simp add: tls_extensions_part_def)
  qed
  also have "\<dots> = Some (int (length host), Some (host @ [0]))"
    using extensions_at [OF assms(1-4), of 0 "[]" more] assms(5) by (simp add: parse_extensions_def)
  finally show ?thesis .
qed


theorem tls_sniff_host_witness:
  "parse_tls_header True True
      (client_hello 1 (replicate 37 9) [] [0, 47] [0] (extension (0, 23, []) @ sni_extension (cstr ''a.org'')) @ [22, 3, 1]) True =
    Some (5, Some (cstr ''a.org'' @ [0]))"
proof -
  have "parse_tls_header True True
      (client_hello 1 (replicate 37 9) [] [0, 47] [0] (concat (map extension [(0, 23, [])]) @ sni_extension (cstr ''a.org'') @ []) @ [22, 3, 1]) True =
    Some (int (length (cstr ''a.org'')), Some (cstr ''a.org'' @ [0]))"
    by (rule tls_sniff_host [OF _ _ _ _ refl])
       (simp_all add: cstr_def chr_def client_hello_def sni_extension_def vec16_def vec8_def)
  then show ?thesis by simp
qed

end
