(* ===== verification/UdpRelay.thy ===== *)
theory UdpRelay
  imports CryptoInit Cache Resolv Sniffers
begin

text \<open>
  \<open>shadowsocks-libev/src/udprelay.c\<close> in the server build (\<open>MODULE_REMOTE\<close>): the address header of a packet, the
  association table and the four callbacks of the event loop.  The heap of association contexts (\<open>remote_ctx_t\<close>) is
  explicit: a context is named by a number, and what is not in the heap has been freed.  A callback ends in \<open>Done\<close>
  with what it sent and the new state, in \<open>Exit\<close> when an assertion ends the process, and in \<open>Undefined\<close> when it
  uses a freed context or reads outside an array.
\<close>

section \<open>The address header\<close>

definition ADDRTYPE_MASK :: byte where "ADDRTYPE_MASK = 0xF"

text \<open>The bytes of \<open>int\<close> and \<open>struct sockaddr_storage\<close> that identify an association.\<close>

definition hash_key :: "nat \<Rightarrow> sockaddr \<Rightarrow> bytes" where
  "hash_key af addr = [word_of_nat af, word_of_nat (af div 256), word_of_nat (af div 65536), word_of_nat (af div 16777216)] @ sa_bytes addr"

definition construct_udprelay_header :: "sockaddr \<Rightarrow> bytes" where
  "construct_udprelay_header in_addr =
    (if sa_family in_addr = AF_INET then 1 # sa_addr in_addr @ sa_port in_addr
     else if sa_family in_addr = AF_INET6 then 4 # sa_addr in_addr @ sa_port in_addr
     else [])"

record parsed_header =
  ph_len :: nat
  ph_host :: bytes
  ph_port :: bytes
  ph_addr :: sockaddr

definition no_header :: parsed_header where
  "no_header = \<lparr>ph_len = 0, ph_host = [], ph_port = [], ph_addr = sa_zero\<rparr>"

text \<open>The end of the parser: the port at \<open>offset\<close>, printed in decimal.\<close>

definition finish_header :: "bytes \<Rightarrow> nat \<Rightarrow> bytes \<Rightarrow> sockaddr \<Rightarrow> parsed_header option" where
  "finish_header buf offset host addr =
    (case rd_n (drop offset buf) 2 of
       None \<Rightarrow> None
     | Some p \<Rightarrow> Some \<lparr>ph_len = offset + 2, ph_host = host, ph_port = print_base 10 (be16_val p), ph_addr = addr\<rparr>)"

text \<open>The address stored for a name that is an address literal; the IPv6 case calls \<open>inet_pton(AF_INET, ...)\<close> on the
  16-byte field.\<close>

definition literal_address :: "net_lib \<Rightarrow> bytes \<Rightarrow> bytes \<Rightarrow> sockaddr" where
  "literal_address net tmp port =
    (case snd (cork_ip_init tmp) of
       Some (V4 _) \<Rightarrow> sa_in (case inet_pton4 net tmp of Some a \<Rightarrow> a | None \<Rightarrow> replicate 4 0) port
     | Some (V6 _) \<Rightarrow> sa_in6 (case inet_pton4 net tmp of Some a \<Rightarrow> a @ replicate 12 0 | None \<Rightarrow> replicate 16 0) port
     | None \<Rightarrow> sa_zero)"

text \<open>\<open>buf\<close> is the whole array, \<open>buf_len\<close> the length of the packet in it; \<open>host\<close>, \<open>port\<close> and \<open>storage\<close> are zeroed by
  the caller.\<close>

definition parse_udprelay_header :: "net_lib \<Rightarrow> bytes \<Rightarrow> nat \<Rightarrow> parsed_header option" where
  "parse_udprelay_header net buf buf_len =
    (case rd buf 0 of
       None \<Rightarrow> None
     | Some atyp \<Rightarrow>
         if atyp AND ADDRTYPE_MASK = 1
         then
           if buf_len \<ge> 4 + 3
           then (case rd_n (drop 1 buf) 6 of
                   None \<Rightarrow> None
                 | Some f \<Rightarrow> finish_header buf 5 (inet_ntop4 net (take 4 f)) (sa_in (take 4 f) (drop 4 f)))
           else Some no_header
         else if atyp AND ADDRTYPE_MASK = 3
         then
           (case rd buf 1 of
              None \<Rightarrow> None
            | Some name_len \<Rightarrow>
                if unat name_len + 4 \<le> buf_len
                then (case rd_n (drop 2 buf) (unat name_len + 2) of
                        None \<Rightarrow> None
                      | Some f \<Rightarrow>
                          finish_header buf (2 + unat name_len) (take (unat name_len) f)
                            (literal_address net (c_string (take (unat name_len) f)) (drop (unat name_len) f)))
                else Some no_header)
         else if atyp AND ADDRTYPE_MASK = 4
         then
           if buf_len \<ge> 16 + 3
           then (case rd_n (drop 1 buf) 18 of
                   None \<Rightarrow> None
                 | Some f \<Rightarrow> finish_header buf 17 (inet_ntop6 net (take 16 f)) (sa_in6 (take 16 f) (drop 16 f)))
           else Some no_header
         else Some no_header)"

text \<open>\<open>get_addr_str\<close>: address and port with a colon between them, or \<open>Unknown AF\<close> with its first character
  overwritten.\<close>

definition get_addr_str :: "net_lib \<Rightarrow> sockaddr \<Rightarrow> bytes" where
  "get_addr_str net sa =
    (if sa_family sa = AF_INET then inet_ntop4 net (sa_addr sa) @ [chr (CHR '':'')] @ print_base 10 (be16_val (sa_port sa))
     else if sa_family sa = AF_INET6 then inet_ntop6 net (sa_addr sa) @ [chr (CHR '':'')] @ print_base 10 (be16_val (sa_port sa))
     else cstr '':nknown AF'')"

section \<open>State\<close>

datatype 'a outcome = Done 'a | Exit | Undefined

fun obind :: "'a outcome \<Rightarrow> ('a \<Rightarrow> 'b outcome) \<Rightarrow> 'b outcome" where
  "obind (Done x) f = f x"
| "obind Exit f = Exit"
| "obind Undefined f = Undefined"

record remote_ctx =
  rc_io :: bool
  rc_watcher :: bool
  rc_af :: nat
  rc_fd :: int
  rc_addr_header :: bytes
  rc_src_addr :: sockaddr
  rc_dst_addr :: sockaddr

record query_ctx =
  qc_src_addr :: sockaddr
  qc_buf :: bytes
  qc_addr_header :: bytes
  qc_remote_ctx :: "nat option"

text \<open>A listening context with the heap it owns: its association contexts and its DNS queries in flight, and the
  statics of the file.\<close>

record 'e server_ctx =
  sc_fd :: int
  sc_crypto :: "'e crypto"
  sc_timeout :: int
  sc_conn_cache :: "nat cache option"
  sc_remotes :: "nat \<rightharpoonup> remote_ctx"
  sc_queries :: "nat \<rightharpoonup> query_ctx resolv_query"
  sc_next :: nat
  sc_packet_size :: int
  sc_buf_size :: int
  sc_tx :: "64 word"
  sc_rx :: "64 word"
  sc_globals :: crypto_globals

text \<open>What the outside world answers during one callback: \<open>socket\<close> per family, \<open>bind\<close>, \<open>sendto\<close>, the clock at the
  lookup and at the insertion, the allocation in the cache and in the replay filter, and fresh random bytes.\<close>

record udp_env =
  en_socket :: "nat \<Rightarrow> int"
  en_bind :: "sockaddr \<Rightarrow> int"
  en_sendto :: int
  en_now :: real
  en_later :: real
  en_malloc :: bool
  en_calloc :: bool
  en_random :: bytes

text \<open>What a callback asks the outside world to do: an attempted \<open>sendto\<close>, and a name given to c-ares.\<close>

datatype udp_out = SendTo int bytes sockaddr | AskDns bytes

definition create_remote_socket :: "udp_env \<Rightarrow> bool \<Rightarrow> int" where
  "create_remote_socket env ipv6 =
    (let addr = (if ipv6 then sa_in6 (replicate 16 0) [0, 0] else sa_in (replicate 4 0) [0, 0]);
         remote_sock = en_socket env (if ipv6 then AF_INET6 else AF_INET)
     in if remote_sock = -1 then -1 else if en_bind env addr \<noteq> 0 then -1 else remote_sock)"

section \<open>Contexts\<close>

definition new_remote :: "int \<Rightarrow> 'e server_ctx \<Rightarrow> nat \<times> 'e server_ctx" where
  "new_remote fd s =
    (let ctx = \<lparr>rc_io = False, rc_watcher = False, rc_af = AF_UNSPEC, rc_fd = fd, rc_addr_header = [],
                rc_src_addr = sa_zero, rc_dst_addr = sa_zero\<rparr>
     in (sc_next s, s\<lparr>sc_remotes := (sc_remotes s)(sc_next s \<mapsto> ctx), sc_next := sc_next s + 1\<rparr>))"

definition new_query_ctx :: "bytes \<Rightarrow> query_ctx" where
  "new_query_ctx buf = \<lparr>qc_src_addr = sa_zero, qc_buf = buf, qc_addr_header = [], qc_remote_ctx = None\<rparr>"

definition deref :: "'e server_ctx \<Rightarrow> nat \<Rightarrow> remote_ctx outcome" where
  "deref s r = (case sc_remotes s r of Some rc \<Rightarrow> Done rc | None \<Rightarrow> Undefined)"

definition update_remote :: "nat \<Rightarrow> (remote_ctx \<Rightarrow> remote_ctx) \<Rightarrow> 'e server_ctx \<Rightarrow> 'e server_ctx outcome" where
  "update_remote r f s = obind (deref s r) (\<lambda>rc. Done (s\<lparr>sc_remotes := (sc_remotes s)(r \<mapsto> f rc)\<rparr>))"

definition close_and_free_remote :: "nat \<Rightarrow> 'e server_ctx \<Rightarrow> 'e server_ctx outcome" where
  "close_and_free_remote r s = obind (deref s r) (\<lambda>_. Done (s\<lparr>sc_remotes := (sc_remotes s)(r := None)\<rparr>))"

text \<open>The cache was created with \<open>free_cb\<close>, so what it releases goes through it.\<close>

fun udp_free_cb :: "nat released \<Rightarrow> 'e server_ctx \<Rightarrow> 'e server_ctx outcome" where
  "udp_free_cb (FreeCb key element) s = close_and_free_remote element s"
| "udp_free_cb (SsFree element) s = Undefined"

fun free_all :: "nat released list \<Rightarrow> 'e server_ctx \<Rightarrow> 'e server_ctx outcome" where
  "free_all [] s = Done s"
| "free_all (x # xs) s = obind (udp_free_cb x s) (free_all xs)"

section \<open>Callbacks\<close>

definition remote_timeout_cb :: "nat \<Rightarrow> 'e server_ctx \<Rightarrow> (udp_out list \<times> 'e server_ctx) outcome" where
  "remote_timeout_cb r s =
    obind (deref s r) (\<lambda>rc.
      let (_, cache, freed) = cache_remove (sc_conn_cache s) (Some (hash_key (rc_af rc) (rc_src_addr rc)))
      in obind (free_all freed (s\<lparr>sc_conn_cache := cache\<rparr>)) (\<lambda>s. Done ([], s)))"

text \<open>Adding a fresh context to the connection cache and starting its watchers.\<close>

definition register_remote :: "udp_env \<Rightarrow> nat \<Rightarrow> bytes \<Rightarrow> 'e server_ctx \<Rightarrow> 'e server_ctx outcome" where
  "register_remote env r key s =
    (let (_, cache, freed) = cache_insert (en_malloc env) (en_later env) (sc_conn_cache s) key (Some r)
     in obind (free_all freed (s\<lparr>sc_conn_cache := cache\<rparr>))
          (update_remote r (\<lambda>rc. rc\<lparr>rc_io := True, rc_watcher := True\<rparr>)))"

definition resolv_cb :: "udp_env \<Rightarrow> sockaddr option \<Rightarrow> query_ctx \<Rightarrow> 'e server_ctx \<Rightarrow> (udp_out list \<times> 'e server_ctx) outcome" where
  "resolv_cb env addr query_ctx s =
    (case addr of
       None \<Rightarrow> Done ([], s)
     | Some addr \<Rightarrow>
         let (remote_ctx, s) =
               (case qc_remote_ctx query_ctx of
                  Some r \<Rightarrow> (Some r, s)
                | None \<Rightarrow>
                    let (_, cache, res) = cache_lookup (en_now env) (sc_conn_cache s) (Some (hash_key AF_UNSPEC (qc_src_addr query_ctx))) True
                    in (res, s\<lparr>sc_conn_cache := cache\<rparr>))
         in (case remote_ctx of
               Some r \<Rightarrow>
                 obind (update_remote r (\<lambda>rc. rc\<lparr>rc_dst_addr := addr\<rparr>) s) (\<lambda>s.
                 obind (deref s r) (\<lambda>rc. Done ([SendTo (rc_fd rc) (qc_buf query_ctx) addr], s)))
             | None \<Rightarrow>
                 let remotefd = create_remote_socket env (sa_family addr = AF_INET6)
                 in if remotefd = -1 then Done ([], s)
                    else
                      let (r, s) = new_remote remotefd s
                      in obind (update_remote r (\<lambda>rc. rc\<lparr>rc_src_addr := qc_src_addr query_ctx,
                                  rc_addr_header := qc_addr_header query_ctx, rc_dst_addr := addr\<rparr>) s) (\<lambda>s.
                         if en_sendto env = -1
                         then obind (close_and_free_remote r s) (\<lambda>s. Done ([SendTo remotefd (qc_buf query_ctx) addr], s))
                         else obind (register_remote env r (hash_key AF_UNSPEC (qc_src_addr query_ctx)) s)
                                (\<lambda>s. Done ([SendTo remotefd (qc_buf query_ctx) addr], s)))))"

text \<open>An answer of c-ares to query \<open>q\<close>: once both requests are answered the client's callback runs and
  \<open>resolv_free_cb\<close> releases the query.\<close>

definition resolv_free_cb :: "nat \<Rightarrow> 'e server_ctx \<Rightarrow> 'e server_ctx" where
  "resolv_free_cb q s = s\<lparr>sc_queries := (sc_queries s)(q := None)\<rparr>"

definition dns_answered ::
  "resolv_mode \<Rightarrow> udp_env \<Rightarrow> nat \<Rightarrow> query_ctx resolv_query \<Rightarrow> dns_answer \<Rightarrow> 'e server_ctx \<Rightarrow> (udp_out list \<times> 'e server_ctx) outcome" where
  "dns_answered mode env q query answer s =
    (case resolv_step mode (Waiting query) answer of
       Waiting query \<Rightarrow> Done ([], s\<lparr>sc_queries := (sc_queries s)(q \<mapsto> query)\<rparr>)
     | Called addr ctx \<Rightarrow> obind (resolv_cb env addr ctx s) (\<lambda>(out, s). Done (out, resolv_free_cb q s))
     | Abandoned query \<Rightarrow> Done ([], s))"

text \<open>\<open>recvfrom\<close> into a fresh buffer of \<open>buf_size\<close> bytes; a longer packet is cut.\<close>

definition received :: "int \<Rightarrow> bytes \<Rightarrow> buffer" where
  "received buf_size packet =
    (let data = take (nat buf_size) packet; b = balloc (nat buf_size)
     in b\<lparr>bdata := write_at 0 data (bdata b), blen := length data\<rparr>)"

definition remote_recv_cb :: "udp_env \<Rightarrow> (bytes \<times> sockaddr) option \<Rightarrow> nat \<Rightarrow> 'e server_ctx \<Rightarrow> (udp_out list \<times> 'e server_ctx) outcome" where
  "remote_recv_cb env recv r s =
    obind (deref s r) (\<lambda>remote_ctx.
      case recv of
        None \<Rightarrow> Done ([], s)
      | Some (packet, src_addr) \<Rightarrow>
          let buf = received (sc_buf_size s) packet;
              s = s\<lparr>sc_rx := sc_rx s + of_nat (blen buf)\<rparr>;
              addr_header = construct_udprelay_header src_addr;
              addr_header_len = length addr_header;
              buf = brealloc buf (blen buf + addr_header_len) (nat (sc_buf_size s));
              buf = buf\<lparr>bdata := write_at addr_header_len (take (blen buf) (bdata buf)) (bdata buf)\<rparr>;
              buf = buf\<lparr>bdata := write_at 0 addr_header (bdata buf)\<rparr>;
              buf = buf\<lparr>blen := blen buf + addr_header_len\<rparr>;
              (err, g, buf) = cr_encrypt_all (sc_crypto s) (en_random env) (sc_globals s) buf (cr_cipher (sc_crypto s)) (nat (sc_buf_size s));
              s = s\<lparr>sc_globals := g\<rparr>
          in if err = ABORTED then Exit
             else if err \<noteq> CRYPTO_OK then Done ([], s)
             else
               let out = [SendTo (sc_fd s) (bcontent buf) (rc_src_addr remote_ctx)]
               in if en_sendto env = -1 then Done (out, s)
                  else obind (update_remote r (\<lambda>rc. rc\<lparr>rc_watcher := True\<rparr>) s) (\<lambda>s. Done (out, s)))"

text \<open>Opening a new association for a known destination and sending the payload through it.\<close>

definition open_association ::
  "udp_env \<Rightarrow> sockaddr \<Rightarrow> sockaddr \<Rightarrow> bytes \<Rightarrow> bytes \<Rightarrow> 'e server_ctx \<Rightarrow> (udp_out list \<times> 'e server_ctx) outcome" where
  "open_association env src_addr dst_addr addr_header payload s =
    (let remotefd = create_remote_socket env (sa_family dst_addr = AF_INET6)
     in if remotefd = -1 then Done ([], s)
        else
          let (r, s) = new_remote remotefd s
          in obind (update_remote r (\<lambda>rc. rc\<lparr>rc_src_addr := src_addr, rc_addr_header := addr_header,
                                            rc_dst_addr := dst_addr\<rparr>) s) (\<lambda>s.
             if en_sendto env = -1
             then obind (close_and_free_remote r s) (\<lambda>s. Done ([SendTo remotefd payload dst_addr], s))
             else obind (update_remote r (\<lambda>rc. rc\<lparr>rc_af := sa_family dst_addr\<rparr>) s) (\<lambda>s.
                  obind (register_remote env r (hash_key (sa_family dst_addr) src_addr) s)
                    (\<lambda>s. Done ([SendTo remotefd payload dst_addr], s)))))"

definition start_query ::
  "sockaddr \<Rightarrow> bytes \<Rightarrow> bytes \<Rightarrow> bytes \<Rightarrow> bytes \<Rightarrow> nat option \<Rightarrow> 'e server_ctx \<Rightarrow> (udp_out list \<times> 'e server_ctx) outcome" where
  "start_query src_addr host port addr_header payload remote_ctx s =
    (let query_ctx = (new_query_ctx payload)\<lparr>qc_addr_header := addr_header, qc_src_addr := src_addr, qc_remote_ctx := remote_ctx\<rparr>
     in Done ([AskDns (c_string host)], s\<lparr>sc_queries := (sc_queries s)(sc_next s \<mapsto> resolv_start (port_bytes port) query_ctx), sc_next := sc_next s + 1\<rparr>))"

text \<open>\<open>server_recv_cb\<close> from the lookup of the association on.\<close>

definition forward_packet ::
  "udp_env \<Rightarrow> sockaddr \<Rightarrow> parsed_header \<Rightarrow> buffer \<Rightarrow> 'e server_ctx \<Rightarrow> (udp_out list \<times> 'e server_ctx) outcome" where
  "forward_packet env src_addr h buf s =
    (let dst_addr = ph_addr h;
         addr_header = take (ph_len h) (bdata buf);
         payload = drop (ph_len h) (bcontent buf);
         (_, cache, found) = cache_lookup (en_now env) (sc_conn_cache s) (Some (hash_key (sa_family dst_addr) src_addr)) True;
         s = s\<lparr>sc_conn_cache := cache\<rparr>
     in obind (case found of
                 None \<Rightarrow> Done None
               | Some r \<Rightarrow> obind (deref s r) (\<lambda>rc.
                   Done (if sockaddr_cmp src_addr (rc_src_addr rc) 128 \<noteq> 0 then None else Some r))) (\<lambda>found.
        let known = (sa_family dst_addr = AF_INET \<or> sa_family dst_addr = AF_INET6)
        in (case found of
              Some r \<Rightarrow>
                obind (update_remote r (\<lambda>rc. rc\<lparr>rc_watcher := True\<rparr>) s) (\<lambda>s.
                  if known then obind (deref s r) (\<lambda>rc. Done ([SendTo (rc_fd rc) payload dst_addr], s))
                  else start_query src_addr (ph_host h) (ph_port h) addr_header payload (Some r) s)
            | None \<Rightarrow>
                if known then open_association env src_addr dst_addr addr_header payload s
                else start_query src_addr (ph_host h) (ph_port h) addr_header payload None s)))"

definition server_recv_cb ::
  "net_lib \<Rightarrow> udp_env \<Rightarrow> (bytes \<times> sockaddr) option \<Rightarrow> 'e server_ctx \<Rightarrow> (udp_out list \<times> 'e server_ctx) outcome" where
  "server_recv_cb net env recv s =
    (case recv of
       None \<Rightarrow> Done ([], s)
     | Some (packet, src_addr) \<Rightarrow>
         let buf = received (sc_buf_size s) packet;
             s = s\<lparr>sc_tx := sc_tx s + of_nat (blen buf)\<rparr>;
             (err, g, buf) = cr_decrypt_all (sc_crypto s) (en_calloc env) (sc_globals s) buf (cr_cipher (sc_crypto s)) (nat (sc_buf_size s));
             s = s\<lparr>sc_globals := g\<rparr>
         in if err = ABORTED then Exit
            else if err \<noteq> CRYPTO_OK then Done ([], s)
            else (case parse_udprelay_header net (bdata buf) (blen buf) of
                    None \<Rightarrow> Undefined
                  | Some h \<Rightarrow> if ph_len h = 0 then Done ([], s) else forward_packet env src_addr h buf s))"


section \<open>Set-up and shutdown\<close>

definition MAX_UDP_CONN_NUM :: nat where "MAX_UDP_CONN_NUM = 512"
definition DEFAULT_PACKET_SIZE :: int where "DEFAULT_PACKET_SIZE = 1397"
definition MIN_UDP_TIMEOUT :: int where "MIN_UDP_TIMEOUT = 10"

text \<open>The loop over the addresses to listen on: \<open>sock i\<close> is the result of the \<open>i\<close>-th \<open>socket\<close> call.\<close>

fun server_socket_loop :: "(nat \<Rightarrow> nat \<Rightarrow> int) \<Rightarrow> (sockaddr \<Rightarrow> int) \<Rightarrow> nat \<Rightarrow> sockaddr list \<Rightarrow> int \<Rightarrow> int" where
  "server_socket_loop sock bnd i [] server_sock = server_sock"
| "server_socket_loop sock bnd i (rp # rps) server_sock =
    (let server_sock = sock i (sa_family rp)
     in if server_sock = -1 then server_socket_loop sock bnd (i + 1) rps server_sock
        else if bnd rp = 0 then server_sock
        else server_socket_loop sock bnd (i + 1) rps (-1))"

text \<open>\<open>result\<close> is the answer of \<open>getaddrinfo\<close>; without a host the loop starts at the first IPv6 address if there
  is one.\<close>

definition create_server_socket ::
  "(nat \<Rightarrow> nat \<Rightarrow> int) \<Rightarrow> (sockaddr \<Rightarrow> int) \<Rightarrow> sockaddr list option \<Rightarrow> bytes option \<Rightarrow> int" where
  "create_server_socket sock bnd result host =
    (case result of
       None \<Rightarrow> -1
     | Some [] \<Rightarrow> -1
     | Some rps \<Rightarrow>
         let v6 = dropWhile (\<lambda>rp. sa_family rp \<noteq> AF_INET6) rps;
             rp = (if host = None \<and> v6 \<noteq> [] then v6 else rps)
         in server_socket_loop sock bnd 0 rp (-1))"

definition new_server_ctx :: "int \<Rightarrow> 'e crypto \<Rightarrow> crypto_globals \<Rightarrow> 'e server_ctx" where
  "new_server_ctx fd crypto g =
    \<lparr>sc_fd = fd, sc_crypto = crypto, sc_timeout = 0, sc_conn_cache = None, sc_remotes = Map.empty, sc_queries = Map.empty,
     sc_next = 0, sc_packet_size = 0, sc_buf_size = 0, sc_tx = 0, sc_rx = 0, sc_globals = g\<rparr>"

text \<open>The context of a new relay.  \<open>serverfd\<close> is the result of \<open>create_server_socket\<close>; a failure is only logged.\<close>

definition new_relay :: "int \<Rightarrow> bool \<Rightarrow> int \<Rightarrow> 'e crypto \<Rightarrow> crypto_globals \<Rightarrow> int \<Rightarrow> 'e server_ctx" where
  "new_relay serverfd malloc_ok mtu crypto g timeout =
    (let packet_size = (if mtu > 0 then mtu - 1 - 28 - 2 - 64 else DEFAULT_PACKET_SIZE);
         buf_size = (if mtu > 0 then packet_size * 2 else DEFAULT_PACKET_SIZE * 2);
         conn_cache = snd (cache_create True malloc_ok MAX_UDP_CONN_NUM True)
     in (new_server_ctx serverfd crypto g)\<lparr>sc_timeout := max timeout MIN_UDP_TIMEOUT, sc_conn_cache := conn_cache,
          sc_packet_size := packet_size, sc_buf_size := buf_size\<rparr>)"

text \<open>The relay is stored behind the others in the array \<open>server_ctx_list\<close>, whose used part is the list.  The C code does
  not test \<open>server_num\<close>: with \<open>MAX_REMOTE_NUM\<close> relays the store is out of bounds.\<close>

definition init_udprelay ::
  "int \<Rightarrow> bool \<Rightarrow> int \<Rightarrow> 'e crypto \<Rightarrow> crypto_globals \<Rightarrow> int \<Rightarrow> 'e server_ctx list \<Rightarrow> 'e server_ctx list outcome" where
  "init_udprelay serverfd malloc_ok mtu crypto g timeout server_ctx_list =
    (let server_ctx = new_relay serverfd malloc_ok mtu crypto g timeout
     in if length server_ctx_list < MAX_REMOTE_NUM then Done (server_ctx_list @ [server_ctx]) else Undefined)"

text \<open>Shutdown releases the contexts in the cache of every relay, last relay first.\<close>

fun free_udprelay :: "'e server_ctx list \<Rightarrow> unit outcome" where
  "free_udprelay [] = Done ()"
| "free_udprelay (s # ss) =
    obind (free_udprelay ss) (\<lambda>_.
      let (_, freed) = cache_delete (sc_conn_cache s) False
      in obind (free_all freed (s\<lparr>sc_conn_cache := None\<rparr>)) (\<lambda>_. Done ()))"

end
