(* ===== verification/BlockList.thy ===== *)
theory BlockList
  imports Cache
begin

text \<open>
  \<open>shadowsocks-libev/src/acl.c\<close>, the block list: a cache of 256 entries from peer addresses to a
  count of their offences.  The count is a heap cell that only its entry refers to; it is modelled as
  the entry's data and changed in place.  The file's \<open>static struct cache *block_list\<close> is the state
  argument.
\<close>

definition MAX_TRIES :: int where "MAX_TRIES = 256"
definition MALICIOUS :: int where "MALICIOUS = 8"
definition SUSPICIOUS :: int where "SUSPICIOUS = 4"
definition BAD :: int where "BAD = 2"
definition MALFORMED :: int where "MALFORMED = 1"

type_synonym block_list = "int cache option"

section \<open>Operations\<close>

definition init_block_list :: "bool \<Rightarrow> block_list" where
  "init_block_list malloc_ok = snd (cache_create True malloc_ok 256 False)"

definition free_block_list :: "real \<Rightarrow> block_list \<Rightarrow> block_list" where
  "free_block_list now bl = fst (snd (cache_clear now bl 0))"

definition remove_from_block_list :: "block_list \<Rightarrow> bytes \<Rightarrow> int \<times> block_list" where
  "remove_from_block_list bl addr =
    (let (r, bl', freed) = cache_remove bl (Some (c_string addr)) in (r, bl'))"

definition clear_block_list :: "real \<Rightarrow> block_list \<Rightarrow> block_list" where
  "clear_block_list now bl = fst (snd (cache_clear now bl 3600))"

text \<open>\<open>t1\<close> and \<open>t2\<close> are what the two clock readings return.\<close>

definition check_block_list :: "real \<Rightarrow> real \<Rightarrow> block_list \<Rightarrow> bytes \<Rightarrow> int \<times> block_list" where
  "check_block_list t1 t2 bl addr =
    (let (exist, bl) = cache_key_exist t1 bl (Some (c_string addr))
     in if exist
        then
          let (_, bl, count) = cache_lookup t2 bl (Some (c_string addr)) True
          in (case count of
                Some n \<Rightarrow> if n > MAX_TRIES then (1, bl) else (0, bl)
              | None \<Rightarrow> (0, bl))
        else (0, bl))"

text \<open>\<open>*count += err_level\<close> on the entry that the lookup has just moved to the end.\<close>

definition add_count :: "int \<Rightarrow> block_list \<Rightarrow> block_list" where
  "add_count n bl =
    map_option (\<lambda>c. c\<lparr>entries := (entries c)[length (entries c) - 1 :=
      (entries c ! (length (entries c) - 1))\<lparr>ce_data := map_option (\<lambda>x. x + n) (ce_data (entries c ! (length (entries c) - 1)))\<rparr>]\<rparr>) bl"

definition update_block_list :: "bool \<Rightarrow> real \<Rightarrow> real \<Rightarrow> block_list \<Rightarrow> bytes \<Rightarrow> int \<Rightarrow> int \<times> block_list" where
  "update_block_list malloc_ok t1 t2 bl addr err_level =
    (let (exist, bl) = cache_key_exist t1 bl (Some (c_string addr))
     in if exist
        then
          let (_, bl, count) = cache_lookup t2 bl (Some (c_string addr)) True
          in (case count of
                Some n \<Rightarrow> if n > MAX_TRIES then (1, bl) else (0, add_count err_level bl)
              | None \<Rightarrow> (0, bl))
        else if err_level > 0
        then
          let (_, bl, freed) = cache_insert malloc_ok t2 bl (c_string addr) (Some 1)
          in (0, bl)
        else (0, bl))"

section \<open>Invariant\<close>

text \<open>The levels the server reports.\<close>

datatype severity = Malicious | Suspicious | Bad | Malformed

fun err_level :: "severity \<Rightarrow> int" where
  "err_level Malicious = MALICIOUS"
| "err_level Suspicious = SUSPICIOUS"
| "err_level Bad = BAD"
| "err_level Malformed = MALFORMED"

lemma err_level_range: "0 < err_level s" "err_level s \<le> 8"
  by (cases s; simp add: MALICIOUS_def SUSPICIOUS_def BAD_def MALFORMED_def)+

record offence =
  of_addr :: bytes
  of_level :: severity
  of_t1 :: real
  of_t2 :: real

definition report :: "block_list \<Rightarrow> offence \<Rightarrow> block_list" where
  "report bl x = snd (update_block_list True (of_t1 x) (of_t2 x) bl (of_addr x) (err_level (of_level x)))"

definition count_of :: "block_list \<Rightarrow> bytes \<Rightarrow> int option" where
  "count_of bl k = (case bl of None \<Rightarrow> None | Some c \<Rightarrow>
     (case hash_take k (entries c) of None \<Rightarrow> None | Some (e, _) \<Rightarrow> ce_data e))"

text \<open>Distinct keys, room for one more entry, and counts between 1 and \<open>MAX_TRIES + 8\<close>.\<close>

definition bl_ok :: "block_list \<Rightarrow> bool" where
  "bl_ok bl \<longleftrightarrow> (\<exists>c. bl = Some c \<and> cache_ok c \<and> 2 \<le> max_entries c \<and>
     (\<forall>e\<in>set (entries c). \<exists>n. ce_data e = Some n \<and> 1 \<le> n \<and> n \<le> MAX_TRIES + 8))"

definition bl_window :: "block_list \<Rightarrow> int" where
  "bl_window bl = (case bl of None \<Rightarrow> 0 | Some c \<Rightarrow> int (max_entries c) - 1)"

definition bl_seen :: "block_list \<Rightarrow> bytes \<Rightarrow> bool" where
  "bl_seen bl k \<longleftrightarrow> (case bl of None \<Rightarrow> False | Some c \<Rightarrow> k \<in> set (keys c))"

definition bl_live :: "block_list \<Rightarrow> bytes \<Rightarrow> int \<Rightarrow> bool" where
  "bl_live bl k n \<longleftrightarrow> (\<exists>c xs e ys. bl = Some c \<and> entries c = xs @ e # ys \<and> ce_key e = k \<and>
     int (length ys) + n \<le> int (max_entries c) - 2)"

text \<open>An update of a listed address moves its entry to the end and raises its count.\<close>

lemma take_touch:
  assumes "entries c = xs @ e # ys" "ce_key e = k" "k \<notin> ce_key ` set ys"
  shows "cache_key_exist t (Some c) (Some k) = (True, Some (c\<lparr>entries := xs @ ys @ [e\<lparr>ce_ts := t\<rparr>]\<rparr>))"
    "cache_lookup t (Some c) (Some k) True = (0, Some (c\<lparr>entries := xs @ ys @ [e\<lparr>ce_ts := t\<rparr>]\<rparr>), ce_data e)"
  using assms hash_take_append [of k ys e xs] by (simp_all add: cache_key_exist_def cache_lookup_def)

lemma update_listed:
  assumes "entries c = xs @ e # ys" "ce_key e = c_string addr" "c_string addr \<notin> ce_key ` set ys" "ce_data e = Some n"
  shows "update_block_list m t1 t2 (Some c) addr lvl =
    (if n > MAX_TRIES then (1, Some (c\<lparr>entries := xs @ ys @ [e\<lparr>ce_ts := t2\<rparr>]\<rparr>))
     else (0, Some (c\<lparr>entries := xs @ ys @ [e\<lparr>ce_ts := t2, ce_data := Some (n + lvl)\<rparr>]\<rparr>)))"
proof -
  let ?c = "c\<lparr>entries := xs @ ys @ [e\<lparr>ce_ts := t1\<rparr>]\<rparr>"
  have "cache_lookup t2 (Some ?c) (Some (c_string addr)) True =
      (0, Some (c\<lparr>entries := xs @ ys @ [e\<lparr>ce_ts := t2\<rparr>]\<rparr>), Some n)"
    using take_touch(2) [of ?c "xs @ ys" "e\<lparr>ce_ts := t1\<rparr>" "[]"] assms by simp
  then show ?thesis
    using take_touch(1) [OF assms(1-3), of t1] assms(4)
    by (simp add: update_block_list_def add_count_def nth_append list_update_append)
qed

lemma update_new:
  assumes "c_string addr \<notin> ce_key ` set (entries c)"
  shows "update_block_list m t1 t2 (Some c) addr lvl =
    (if lvl > 0 then (0, fst (snd (cache_insert m t2 (Some c) (c_string addr) (Some 1)))) else (0, Some c))"
proof -
  have "cache_key_exist t1 (Some c) (Some (c_string addr)) = (False, Some c)"
    using hash_take_None_iff [of "c_string addr" "entries c"] assms
    by (simp add: cache_key_exist_def del: hash_take_None_iff)
  then show ?thesis by (simp add: update_block_list_def case_prod_beta)
qed

lemma entry_split:
  assumes "distinct (map ce_key es)" "k \<in> ce_key ` set es"
  obtains xs e ys where "es = xs @ e # ys" "ce_key e = k" "k \<notin> ce_key ` set ys" "k \<notin> ce_key ` set xs"
proof -
  from assms(2) obtain e where "e \<in> set es" "ce_key e = k" by auto
  then obtain xs ys where "es = xs @ e # ys" by (auto dest: split_list)
  with assms(1) \<open>ce_key e = k\<close> show thesis by (intro that) auto
qed

text \<open>The two cases of a report on a well-formed block list.\<close>

lemma report_cases [consumes 1, case_names listed new]:
  assumes "bl_ok bl"
  obtains (listed) c xs e ys n n' where "bl = Some c" "entries c = xs @ e # ys" "ce_key e = c_string (of_addr x)"
      "c_string (of_addr x) \<notin> ce_key ` set (xs @ ys)" "ce_data e = Some n"
      "n' = (if n > MAX_TRIES then n else n + err_level (of_level x))"
      "report bl x = Some (c\<lparr>entries := xs @ ys @ [e\<lparr>ce_ts := of_t2 x, ce_data := Some n'\<rparr>]\<rparr>)"
  | (new) c es e where "bl = Some c" "c_string (of_addr x) \<notin> ce_key ` set (entries c)"
      "e = \<lparr>ce_key = c_string (of_addr x), ce_data = Some 1, ce_ts = of_t2 x\<rparr>"
      "es = entries c @ [e]" "report bl x = Some (c\<lparr>entries := if length es \<ge> max_entries c then tl es else es\<rparr>)"
proof -
  from assms obtain c where c: "bl = Some c" "cache_ok c"
      "\<forall>e\<in>set (entries c). \<exists>n. ce_data e = Some n"
    by (auto simp: bl_ok_def) fast
  show thesis
  proof (cases "c_string (of_addr x) \<in> ce_key ` set (entries c)")
    case True
    with c(2) obtain xs e ys where s: "entries c = xs @ e # ys" "ce_key e = c_string (of_addr x)"
        "c_string (of_addr x) \<notin> ce_key ` set ys" "c_string (of_addr x) \<notin> ce_key ` set xs"
      by (auto simp: cache_ok_def keys_def elim: entry_split)
    from c(3) s(1) obtain n where n: "ce_data e = Some n" by auto
    have e: "e\<lparr>ce_ts := t, ce_data := Some n\<rparr> = e\<lparr>ce_ts := t\<rparr>" for t using n by simp
    show thesis
      by (rule listed [OF c(1) s(1,2) _ n refl])
         (use s update_listed [OF s(1-3) n] in \<open>auto simp: report_def c(1) e\<close>)
  next
    case False
    show thesis
      by (rule new [OF c(1) False refl refl])
         (use False err_level_range(1) [of "of_level x"] in \<open>simp add: report_def c(1) update_new cache_insert_def Let_def\<close>)
  qed
qed

lemma report_ok:
  assumes ok: "bl_ok bl"
  shows "bl_ok (report bl x)"
  using ok
proof (cases rule: report_cases [where x = x])
  case (listed c xs e ys n n')
  have "1 \<le> n'" "n' \<le> MAX_TRIES + 8"
    using ok listed err_level_range [of "of_level x"] by (auto simp: bl_ok_def)
  then show ?thesis using ok listed by (auto simp: bl_ok_def cache_ok_def keys_def)
next
  case (new c es e)
  then show ?thesis using ok
    by (cases "entries c") (auto simp: bl_ok_def cache_ok_def keys_def MAX_TRIES_def)
qed

lemma report_window: "bl_ok bl \<Longrightarrow> bl_window (report bl x) = bl_window bl"
  by (cases rule: report_cases [where x = x]) (auto simp: bl_window_def)

lemma bl_liveI:
  "entries c = xs @ e # ys \<Longrightarrow> ce_key e = k \<Longrightarrow> int (length ys) + n \<le> int (max_entries c) - 2 \<Longrightarrow> bl_live (Some c) k n"
  by (auto simp: bl_live_def)

lemma report_live:
  assumes ok: "bl_ok bl"
  shows "bl_live (report bl x) (c_string (of_addr x)) (bl_window bl - 1)"
  using ok
proof (cases rule: report_cases [where x = x])
  case (listed c xs e ys n n')
  show ?thesis unfolding listed(7)
    by (rule bl_liveI [of _ "xs @ ys" "e\<lparr>ce_ts := of_t2 x, ce_data := Some n'\<rparr>" "[]"]) (use listed(1,3) in \<open>simp_all add: bl_window_def\<close>)
next
  case (new c es e)
  with ok have "2 \<le> max_entries c" by (auto simp: bl_ok_def)
  with new show ?thesis
    by (cases "entries c") (auto simp: bl_live_def bl_window_def)
qed

lemma split_unique:
  assumes "xs @ e # ys = xs' @ e' # ys'"
  shows "(xs = xs' \<and> e = e' \<and> ys = ys') \<or> (\<exists>zs. xs' = xs @ e # zs \<and> ys = zs @ e' # ys') \<or>
    (\<exists>zs. xs = xs' @ e' # zs \<and> ys' = zs @ e # ys)"
  using assms by (auto simp: append_eq_append_conv2 append_eq_Cons_conv Cons_eq_append_conv)

lemma report_live_step:
  assumes ok: "bl_ok bl" and live: "bl_live bl k (n + 1)" and n: "0 \<le> n"
  shows "bl_live (report bl x) k n"
  using ok
proof (cases rule: report_cases [where x = x])
  case (listed c xs' e' ys' m m')
  let ?e = "e'\<lparr>ce_ts := of_t2 x, ce_data := Some m'\<rparr>"
  let ?c = "c\<lparr>entries := xs' @ ys' @ [?e]\<rparr>"
  from live listed(1) obtain xs e ys where e: "entries c = xs @ e # ys" "ce_key e = k"
      "int (length ys) + n + 1 \<le> int (max_entries c) - 2"
    by (auto simp: bl_live_def)
  from e(1) listed(2) consider "e = e'" | zs where "xs' = xs @ e # zs" "ys = zs @ e' # ys'"
    | zs where "xs = xs' @ e' # zs" "ys' = zs @ e # ys"
    using split_unique [of xs e ys xs' e' ys'] by auto
  then have "bl_live (Some ?c) k n"
  proof cases
    case 1
    then show ?thesis using e by (intro bl_liveI [of _ "xs' @ ys'" ?e "[]"]) simp_all
  next
    case (2 zs)
    then show ?thesis using e by (intro bl_liveI [of _ xs e "zs @ ys' @ [?e]"]) simp_all
  next
    case (3 zs)
    then show ?thesis using e by (intro bl_liveI [of _ "xs' @ zs" e "ys @ [?e]"]) simp_all
  qed
  with listed show ?thesis by simp
next
  case (new c es f)
  from live new(1) obtain xs e ys where e: "entries c = xs @ e # ys" "ce_key e = k"
      "int (length ys) + n + 1 \<le> int (max_entries c) - 2"
    by (auto simp: bl_live_def)
  show ?thesis
  proof (cases "length es \<ge> max_entries c")
    case True
    then have "xs \<noteq> []" using e n new(4) by auto
    then have "tl es = tl xs @ e # (ys @ [f])" using e(1) new(4) by simp
    then show ?thesis unfolding new(5) using e True
      by (intro bl_liveI [of _ "tl xs" e "ys @ [f]"]) simp_all
  next
    case False
    then show ?thesis unfolding new(5) using e new(4)
      by (intro bl_liveI [of _ xs e "ys @ [f]"]) simp_all
  qed
qed

lemma bl_live_seen: "bl_live bl k n \<Longrightarrow> bl_seen bl k"
  by (auto simp: bl_live_def bl_seen_def keys_def)

lemma bl_live_antimono: "bl_live bl k n \<Longrightarrow> j \<le> n \<Longrightarrow> bl_live bl k j"
  unfolding bl_live_def by (elim exE conjE) (intro exI conjI, assumption+, linarith)

interpretation bl_memory: recency_window bl_ok report "\<lambda>x. c_string (of_addr x)" bl_seen bl_live bl_window
  by unfold_locales
     (simp_all add: report_ok report_window report_live report_live_step bl_live_seen, rule bl_live_antimono)


section \<open>Counting offences\<close>

lemma check_block_list_count:
  assumes "bl_ok bl"
  shows "fst (check_block_list t1 t2 bl addr) =
    (case count_of bl (c_string addr) of Some n \<Rightarrow> if n > MAX_TRIES then 1 else 0 | None \<Rightarrow> 0)"
proof -
  obtain c where c: "bl = Some c" "cache_ok c" using assms by (auto simp: bl_ok_def)
  show ?thesis
  proof (cases "hash_take (c_string addr) (entries c)")
    case None
    then show ?thesis using c by (simp add: check_block_list_def cache_key_exist_def count_of_def del: hash_take_None_iff)
  next
    case (Some p)
    then obtain e r where t: "hash_take (c_string addr) (entries c) = Some (e, r)" by (cases p) simp
    obtain xs ys where s: "entries c = xs @ e # ys" "ce_key e = c_string addr" "c_string addr \<notin> ce_key ` set ys"
      using hash_take_SomeD [OF t] by blast
    let ?c = "c\<lparr>entries := xs @ ys @ [e\<lparr>ce_ts := t1\<rparr>]\<rparr>"
    have "cache_lookup t2 (Some ?c) (Some (c_string addr)) True =
        (0, Some (c\<lparr>entries := xs @ ys @ [e\<lparr>ce_ts := t2\<rparr>]\<rparr>), ce_data e)"
      using take_touch(2) [of ?c "xs @ ys" "e\<lparr>ce_ts := t1\<rparr>" "[]"] s by simp
    then show ?thesis
      using take_touch(1) [OF s, of t1] c(1) t by (simp add: check_block_list_def count_of_def split: option.splits)
  qed
qed

lemma count_of_split:
  "entries c = xs @ e # ys \<Longrightarrow> ce_key e = k \<Longrightarrow> k \<notin> ce_key ` set ys \<Longrightarrow> count_of (Some c) k = ce_data e"
  by (simp add: count_of_def hash_take_append)

lemma count_of_unlisted: "bl_ok bl \<Longrightarrow> \<not> bl_seen bl k \<Longrightarrow> count_of bl k = None"
  by (auto simp: bl_ok_def bl_seen_def count_of_def keys_def split: option.splits dest!: hash_take_SomeD)

lemma init_block_list_ok: "bl_ok (init_block_list True)" "bl_window (init_block_list True) = 255"
  by (simp_all add: init_block_list_def cache_create_def bl_ok_def cache_ok_def keys_def bl_window_def)

lemma bl_seen_count: "bl_ok bl \<Longrightarrow> bl_seen bl k \<Longrightarrow> \<exists>n. count_of bl k = Some n \<and> 1 \<le> n \<and> n \<le> MAX_TRIES + 8"
proof -
  assume ok: "bl_ok bl" and s: "bl_seen bl k"
  then obtain c where c: "bl = Some c" "distinct (map ce_key (entries c))" "k \<in> ce_key ` set (entries c)"
      "\<forall>e\<in>set (entries c). \<exists>n. ce_data e = Some n \<and> 1 \<le> n \<and> n \<le> MAX_TRIES + 8"
    by (auto simp: bl_ok_def bl_seen_def cache_ok_def keys_def)
  from c(2,3) obtain xs e ys where "entries c = xs @ e # ys" "ce_key e = k" "k \<notin> ce_key ` set ys"
    by (rule entry_split)
  with c(1,4) show ?thesis using count_of_split [of c xs e ys k] by auto
qed

text \<open>Counts by cases on where the key occurs.\<close>

lemma count_Cons:
  "entries c = e # es \<Longrightarrow> count_of (Some c) k =
    (if k \<in> ce_key ` set es then count_of (Some (c\<lparr>entries := es\<rparr>)) k else if ce_key e = k then ce_data e else None)"
  using hash_take_None_iff [of k es]
  by (auto simp: count_of_def simp del: hash_take_None_iff split: option.splits)

lemma count_append:
  "count_of (Some (c\<lparr>entries := xs @ ys\<rparr>)) k =
    (if k \<in> ce_key ` set ys then count_of (Some (c\<lparr>entries := ys\<rparr>)) k else count_of (Some (c\<lparr>entries := xs\<rparr>)) k)"
proof (induction xs)
  case Nil
  then show ?case using hash_take_None_iff [of k ys]
    by (cases "hash_take k ys") (simp_all add: count_of_def del: hash_take_None_iff)
next
  case (Cons x xs)
  show ?case
    using Cons count_Cons [of "c\<lparr>entries := x # xs @ ys\<rparr>" x "xs @ ys" k] count_Cons [of "c\<lparr>entries := x # xs\<rparr>" x xs k]
    by auto
qed

lemma count_single: "count_of (Some (c\<lparr>entries := [e]\<rparr>)) k = (if ce_key e = k then ce_data e else None)"
  by (simp add: count_of_def)

text \<open>One report: the count of its own address.\<close>

definition bump :: "int \<Rightarrow> int option \<Rightarrow> int option" where
  "bump l n = (case n of None \<Rightarrow> Some 1 | Some n \<Rightarrow> Some (if n > MAX_TRIES then n else n + l))"

text \<open>While the list is not full, a report bumps its address and leaves the other counts alone.\<close>

lemma report_counts:
  assumes ok: "bl_ok bl" and room: "bl = Some c" "c_string (of_addr x) \<in> set (keys c) \<or> Suc (length (entries c)) < max_entries c"
  shows "count_of (report bl x) k =
      (if k = c_string (of_addr x) then bump (err_level (of_level x)) (count_of bl k) else count_of bl k)"
    and "\<exists>d. report bl x = Some d \<and> max_entries d = max_entries c \<and> set (keys d) = insert (c_string (of_addr x)) (set (keys c))"
proof -
  let ?k = "c_string (of_addr x)"
  have "count_of (report bl x) k = (if k = ?k then bump (err_level (of_level x)) (count_of bl k) else count_of bl k) \<and>
    (\<exists>d. report bl x = Some d \<and> max_entries d = max_entries c \<and> set (keys d) = insert ?k (set (keys c)))"
    using ok
  proof (cases rule: report_cases [where x = x])
    case (listed c' xs e ys n n')
    have c: "c' = c" "c = c\<lparr>entries := xs @ [e] @ ys\<rparr>" using listed room by simp_all
    have "count_of (Some c) k = count_of (Some (c\<lparr>entries := (xs @ [e]) @ ys\<rparr>)) k" using c(2) by simp
    also have "\<dots> = (if k \<in> ce_key ` set ys then count_of (Some (c\<lparr>entries := ys\<rparr>)) k
        else if ce_key e = k then ce_data e else count_of (Some (c\<lparr>entries := xs\<rparr>)) k)"
      unfolding count_append by (auto simp: count_single)
    finally have cnt: "count_of (Some c) k = \<dots>" .
    have "count_of (report bl x) k = (if k = ?k then bump (err_level (of_level x)) (count_of bl k) else count_of bl k)"
      unfolding room(1) listed(7) [unfolded room(1) c(1)] cnt append.assoc [symmetric] count_append
      using listed(3-6) by (auto simp: count_single bump_def)
    moreover have "set (keys (c\<lparr>entries := xs @ ys @ [f]\<rparr>)) = insert (ce_key f) (ce_key ` set (xs @ ys))" for f :: "int cache_entry"
      by (auto simp: keys_def)
    ultimately show ?thesis using listed(2,3,7) c(1) by (auto simp: keys_def)
  next
    case (new c' es e)
    have c: "c' = c" using new(1) room(1) by simp
    have r: "report bl x = Some (c\<lparr>entries := entries c @ [e]\<rparr>)"
      using new room(2) c by (auto simp: keys_def)
    have "\<not> bl_seen bl ?k" using new(1,2) by (simp add: bl_seen_def keys_def)
    then have "count_of bl ?k = None" by (rule count_of_unlisted [OF ok])
    then show ?thesis
      unfolding r using new(3) room(1) by (auto simp: count_append count_single bump_def keys_def)
  qed
  then show "count_of (report bl x) k =
      (if k = ?k then bump (err_level (of_level x)) (count_of bl k) else count_of bl k)"
    "\<exists>d. report bl x = Some d \<and> max_entries d = max_entries c \<and> set (keys d) = insert ?k (set (keys c))"
    by blast+
qed


text \<open>The counts after a run of reports on at most 255 addresses.\<close>

definition tally :: "offence list \<Rightarrow> bytes \<Rightarrow> int option" where
  "tally xs k = foldl (\<lambda>n x. bump (err_level (of_level x)) n) None (filter (\<lambda>x. c_string (of_addr x) = k) xs)"

lemma tally_snoc:
  "tally (xs @ [x]) k = (if c_string (of_addr x) = k then bump (err_level (of_level x)) (tally xs k) else tally xs k)"
  by (simp add: tally_def)

lemma report_run_counts:
  assumes "card (set (map (\<lambda>x. c_string (of_addr x)) xs)) \<le> 255"
  shows "\<exists>c. foldl report (init_block_list True) xs = Some c \<and> max_entries c = 256 \<and>
    set (keys c) = set (map (\<lambda>x. c_string (of_addr x)) xs) \<and> (\<forall>k. count_of (Some c) k = tally xs k)"
  using assms
proof (induction xs rule: rev_induct)
  case Nil
  show ?case by (simp add: init_block_list_def cache_create_def keys_def tally_def count_of_def)
next
  case (snoc x xs)
  let ?K = "set (map (\<lambda>x. c_string (of_addr x)) xs)" and ?k = "c_string (of_addr x)"
  have fin: "finite ?K" by simp
  have card: "card (insert ?k ?K) \<le> 255" using snoc.prems by simp
  then have "card ?K \<le> 255" using card_insert_le [of ?K ?k] by linarith
  from snoc.IH [OF this] obtain c where c: "foldl report (init_block_list True) xs = Some c" "max_entries c = 256"
      "set (keys c) = ?K" "\<And>k. count_of (Some c) k = tally xs k" by auto
  have ok: "bl_ok (Some c)"
    using bl_memory.ok_run [OF init_block_list_ok(1), of xs] c(1) by simp
  then have "distinct (keys c)" by (simp add: bl_ok_def cache_ok_def)
  then have len: "length (entries c) = card ?K"
    using distinct_card [of "keys c"] c(3) by (simp add: keys_def)
  have room: "?k \<in> set (keys c) \<or> Suc (length (entries c)) < max_entries c"
    using card fin len c(2,3) by (cases "?k \<in> ?K") (simp_all add: c(3))
  obtain d where d: "report (Some c) x = Some d" "max_entries d = max_entries c" "set (keys d) = insert ?k (set (keys c))"
    using report_counts(2) [OF ok refl room] by blast
  have "count_of (Some d) k = tally (xs @ [x]) k" for k
    using report_counts(1) [OF ok refl room, of k] d(1) c(4) by (simp add: tally_snoc)
  then show ?case using c d by simp
qed

lemma bump_fold:
  "\<forall>x\<in>set xs. 0 < f x \<Longrightarrow> \<exists>m. foldl (\<lambda>n x. bump (f x) n) (Some n) xs = Some m \<and> (m > MAX_TRIES \<longleftrightarrow> n + sum_list (map f xs) > MAX_TRIES)"
proof (induction xs arbitrary: n)
  case (Cons a xs)
  have p: "0 \<le> sum_list (map f xs)" using Cons.prems by (intro sum_list_nonneg) auto
  have "0 < f a" using Cons.prems by simp
  moreover obtain m where "foldl (\<lambda>n x. bump (f x) n) (Some (if n > MAX_TRIES then n else n + f a)) xs = Some m"
      "m > MAX_TRIES \<longleftrightarrow> (if n > MAX_TRIES then n else n + f a) + sum_list (map f xs) > MAX_TRIES"
    using Cons.IH [of "if n > MAX_TRIES then n else n + f a"] Cons.prems by auto
  ultimately show ?case using p by (auto simp: bump_def [of "f a"] split: if_splits)
qed simp

section \<open>Properties\<close>

text \<open>C21 (functional): the block list counts offences.  After any reports on at most 255 distinct
  addresses, \<open>check_block_list\<close> refuses an address exactly if it has been reported and 1 plus the sum of
  the levels of its reports after the first exceeds \<open>MAX_TRIES\<close>.\<close>

theorem block_list_threshold:
  assumes "card (set (map (\<lambda>x. c_string (of_addr x)) xs)) \<le> 255"
    and "ls = map (\<lambda>x. err_level (of_level x)) (filter (\<lambda>x. c_string (of_addr x) = c_string addr) xs)"
  shows "fst (check_block_list t1 t2 (foldl report (init_block_list True) xs) addr) =
    (if ls \<noteq> [] \<and> 1 + sum_list (tl ls) > MAX_TRIES then 1 else 0)"
proof -
  obtain c where c: "foldl report (init_block_list True) xs = Some c" "count_of (Some c) (c_string addr) = tally xs (c_string addr)"
    using report_run_counts [OF assms(1)] by auto
  have ok: "bl_ok (Some c)" using bl_memory.ok_run [OF init_block_list_ok(1), of xs] c(1) by simp
  show ?thesis
  proof (cases "filter (\<lambda>x. c_string (of_addr x) = c_string addr) xs")
    case Nil
    then show ?thesis using assms(2) c by (simp add: check_block_list_count [OF ok] tally_def)
  next
    case (Cons a as)
    obtain m where "foldl (\<lambda>n x. bump (err_level (of_level x)) n) (Some 1) as = Some m"
        "m > MAX_TRIES \<longleftrightarrow> 1 + sum_list (map (\<lambda>x. err_level (of_level x)) as) > MAX_TRIES"
      using bump_fold [of as "\<lambda>x. err_level (of_level x)" 1] err_level_range(1) by auto
    then show ?thesis using assms(2) c Cons
      by (simp add: check_block_list_count [OF ok] tally_def) (simp add: bump_def)
  qed
qed

definition offence_demo :: "byte \<Rightarrow> offence" where
  "offence_demo b = \<lparr>of_addr = [b], of_level = Malicious, of_t1 = 0, of_t2 = 0\<rparr>"

theorem block_list_threshold_witness:
  "fst (check_block_list 1 2 (foldl report (init_block_list True) (replicate 33 (offence_demo 49))) [49]) = 1 \<and>
   fst (check_block_list 1 2 (foldl report (init_block_list True) (replicate 32 (offence_demo 49))) [49]) = 0"
proof -
  have "c_string [49] \<noteq> []" by (simp add: c_string_def)
  then show ?thesis
    using block_list_threshold [of "replicate 33 (offence_demo 49)" _ "[49]" 1 2]
      block_list_threshold [of "replicate 32 (offence_demo 49)" _ "[49]" 1 2]
    by (simp add: offence_demo_def MALICIOUS_def MAX_TRIES_def sum_list_replicate flip: replicate_Suc)
qed

text \<open>Offenders are remembered.  After \<open>init_block_list\<close> and any reports, a reported address
  is still listed, with a count between 1 and \<open>MAX_TRIES + 8\<close> (so the 32-bit count cannot overflow), as
  long as fewer than 255 reports have followed its own.\<close>

theorem block_list_remembers:
  assumes "length ys < 255"
  shows "\<exists>n. count_of (foldl report (init_block_list True) (xs @ x # ys)) (c_string (of_addr x)) = Some n \<and>
    1 \<le> n \<and> n \<le> MAX_TRIES + 8"
proof -
  let ?s = "foldl report (init_block_list True) xs"
  have ok: "bl_ok ?s" by (rule bl_memory.ok_run [OF init_block_list_ok(1)])
  have w: "bl_window ?s = 255" by (simp add: bl_memory.window_run [OF init_block_list_ok(1)] init_block_list_ok(2))
  have "bl_seen (foldl report (report ?s x) ys) (c_string (of_addr x))"
    using bl_memory.seen_within_window [OF ok, of ys x] assms w by simp
  moreover have "bl_ok (foldl report (report ?s x) ys)"
    by (intro bl_memory.ok_run report_ok ok)
  ultimately show ?thesis using bl_seen_count by simp
qed

theorem block_list_remembers_witness:
  "\<exists>n. count_of (foldl report (init_block_list True) ([] @ offence_demo 49 # replicate 254 (offence_demo 50))) [49] = Some n \<and>
    1 \<le> n \<and> n \<le> MAX_TRIES + 8"
  using block_list_remembers [of "replicate 254 (offence_demo 50)" "[]" "offence_demo 49"]
  by (simp add: offence_demo_def c_string_def)

end
