(* ===== verification/IpSet.thy ===== *)
theory IpSet
  imports IpAddress "HOL-Library.Monad_Syntax"
begin

text \<open>
  \<open>libipset\<close>: sets of IP addresses as reference-counted binary decision diagrams with shared nodes
  (\<open>bdd/basics.c\<close>, \<open>set/inspection-template.c.in\<close>, \<open>set/allocation.c\<close>).  A node id is the C integer: odd ids are
  terminals, even ids index the node store.  The store is the list of the nodes handed out so far (the chunks of the
  C code, \<open>largest_index\<close> is its length), the free list is the list of its indices, and the table that finds a node
  by its content is a map.  The C code threads the free list through the count field of freed nodes, which nothing else
  reads; the model keeps the list apart and leaves the count of a freed node at the zero that freed it.  Node ids and
  counts are unbounded here: 32 bits suffice for fewer than 2 ^ 31 nodes and references.  \<open>None\<close> is an access outside the store or a recursion that does not return.
\<close>

type_synonym ipset_node_id = nat

record ipset_node =
  nd_refcount :: nat
  nd_variable :: nat
  nd_low :: ipset_node_id
  nd_high :: ipset_node_id

record ipset_node_cache =
  nc_nodes :: "ipset_node list"
  nc_free_list :: "nat list"
  nc_table :: "nat \<times> ipset_node_id \<times> ipset_node_id \<rightharpoonup> ipset_node_id"

definition ipset_node_get_type :: "ipset_node_id \<Rightarrow> nat" where
  "ipset_node_get_type node_id = node_id mod 2"

definition IPSET_NONTERMINAL_NODE :: nat where "IPSET_NONTERMINAL_NODE = 0"
definition IPSET_TERMINAL_NODE :: nat where "IPSET_TERMINAL_NODE = 1"

definition ipset_terminal_node_id :: "nat \<Rightarrow> ipset_node_id" where
  "ipset_terminal_node_id v = 2 * v + IPSET_TERMINAL_NODE"

definition ipset_terminal_value :: "ipset_node_id \<Rightarrow> nat" where
  "ipset_terminal_value node_id = node_id div 2"

definition ipset_nonterminal_node_id :: "nat \<Rightarrow> ipset_node_id" where
  "ipset_nonterminal_node_id v = 2 * v + IPSET_NONTERMINAL_NODE"

definition ipset_nonterminal_value :: "ipset_node_id \<Rightarrow> nat" where
  "ipset_nonterminal_value node_id = node_id div 2"

definition ipset_node_cache_new :: ipset_node_cache where
  "ipset_node_cache_new = \<lparr>nc_nodes = [], nc_free_list = [], nc_table = Map.empty\<rparr>"

definition get_nonterminal :: "ipset_node_cache \<Rightarrow> ipset_node_id \<Rightarrow> ipset_node option" where
  "get_nonterminal cache node_id =
    (let i = ipset_nonterminal_value node_id in if i < length (nc_nodes cache) then Some (nc_nodes cache ! i) else None)"

definition set_node :: "ipset_node_cache \<Rightarrow> ipset_node_id \<Rightarrow> ipset_node \<Rightarrow> ipset_node_cache" where
  "set_node cache node_id node = cache\<lparr>nc_nodes := (nc_nodes cache)[ipset_nonterminal_value node_id := node]\<rparr>"

definition ipset_node_cache_alloc_node :: "ipset_node_cache \<Rightarrow> nat \<times> ipset_node_cache" where
  "ipset_node_cache_alloc_node cache =
    (case nc_free_list cache of
       [] \<Rightarrow> (length (nc_nodes cache),
              cache\<lparr>nc_nodes := nc_nodes cache @ [\<lparr>nd_refcount = 0, nd_variable = 0, nd_low = 0, nd_high = 0\<rparr>]\<rparr>)
     | next_index # rest \<Rightarrow> (next_index, cache\<lparr>nc_free_list := rest\<rparr>))"

definition ipset_node_incref :: "ipset_node_cache \<Rightarrow> ipset_node_id \<Rightarrow> ipset_node_cache option" where
  "ipset_node_incref cache node_id =
    (if ipset_node_get_type node_id = IPSET_NONTERMINAL_NODE
     then do { node \<leftarrow> get_nonterminal cache node_id;
               Some (set_node cache node_id (node\<lparr>nd_refcount := nd_refcount node + 1\<rparr>)) }
     else Some cache)"

definition node_key :: "ipset_node \<Rightarrow> nat \<times> ipset_node_id \<times> ipset_node_id" where
  "node_key node = (nd_variable node, nd_low node, nd_high node)"

text \<open>\<open>--node->refcount\<close> on an unsigned counter.\<close>

definition dec_count :: "nat \<Rightarrow> nat" where
  "dec_count n = (if n = 0 then 2 ^ 32 - 1 else n - 1)"

partial_function (option) ipset_node_decref :: "ipset_node_cache \<Rightarrow> ipset_node_id \<Rightarrow> ipset_node_cache option" where
  "ipset_node_decref cache node_id =
    (if ipset_node_get_type node_id = IPSET_NONTERMINAL_NODE
     then do {
       node \<leftarrow> get_nonterminal cache node_id;
       let count = dec_count (nd_refcount node);
       let cache = set_node cache node_id (node\<lparr>nd_refcount := count\<rparr>);
       if count = 0
       then do {
         cache \<leftarrow> ipset_node_decref cache (nd_low node);
         cache \<leftarrow> ipset_node_decref cache (nd_high node);
         Some (cache\<lparr>nc_table := (nc_table cache)(node_key node := None),
                     nc_free_list := ipset_nonterminal_value node_id # nc_free_list cache\<rparr>) }
       else Some cache }
     else Some cache)"

definition ipset_node_cache_nonterminal ::
  "ipset_node_cache \<Rightarrow> nat \<Rightarrow> ipset_node_id \<Rightarrow> ipset_node_id \<Rightarrow> (ipset_node_id \<times> ipset_node_cache) option" where
  "ipset_node_cache_nonterminal cache variable low high =
    (if low = high
     then do { cache \<leftarrow> ipset_node_decref cache high; Some (low, cache) }
     else
       (case nc_table cache (variable, low, high) of
          Some node_id \<Rightarrow> do {
            cache \<leftarrow> ipset_node_incref cache node_id;
            cache \<leftarrow> ipset_node_decref cache low;
            cache \<leftarrow> ipset_node_decref cache high;
            Some (node_id, cache) }
        | None \<Rightarrow>
            let (new_index, cache) = ipset_node_cache_alloc_node cache;
                new_node_id = ipset_nonterminal_node_id new_index;
                real_node = \<lparr>nd_refcount = 1, nd_variable = variable, nd_low = low, nd_high = high\<rparr>;
                cache = set_node cache new_node_id real_node
            in Some (new_node_id, cache\<lparr>nc_table := (nc_table cache)((variable, low, high) \<mapsto> new_node_id)\<rparr>)))"

text \<open>Nodes of two stores are compared by their structure.\<close>

partial_function (option) ipset_node_cache_nodes_equal ::
  "ipset_node_cache \<Rightarrow> ipset_node_id \<Rightarrow> ipset_node_cache \<Rightarrow> ipset_node_id \<Rightarrow> bool option" where
  "ipset_node_cache_nodes_equal cache1 node_id1 cache2 node_id2 =
    (if ipset_node_get_type node_id1 \<noteq> ipset_node_get_type node_id2 then Some False
     else if ipset_node_get_type node_id1 = IPSET_TERMINAL_NODE then Some (node_id1 = node_id2)
     else do {
       node1 \<leftarrow> get_nonterminal cache1 node_id1;
       node2 \<leftarrow> get_nonterminal cache2 node_id2;
       if nd_variable node1 \<noteq> nd_variable node2 then Some False
       else do {
         low_equal \<leftarrow> ipset_node_cache_nodes_equal cache1 (nd_low node1) cache2 (nd_low node2);
         if low_equal then ipset_node_cache_nodes_equal cache1 (nd_high node1) cache2 (nd_high node2)
         else Some False } })"

partial_function (option) ipset_node_evaluate :: "ipset_node_cache \<Rightarrow> ipset_node_id \<Rightarrow> (nat \<Rightarrow> bool) \<Rightarrow> nat option" where
  "ipset_node_evaluate cache curr_node_id assignment =
    (if ipset_node_get_type curr_node_id = IPSET_NONTERMINAL_NODE
     then do {
       node \<leftarrow> get_nonterminal cache curr_node_id;
       ipset_node_evaluate cache (if assignment (nd_variable node) then nd_high node else nd_low node) assignment }
     else Some (ipset_terminal_value curr_node_id))"

record ipset_fake_node =
  fk_current_var :: nat
  fk_var_count :: nat
  fk_assignment :: "nat \<Rightarrow> bool"
  fk_value :: nat

definition fake_terminal_0 :: "nat \<Rightarrow> ipset_fake_node" where
  "fake_terminal_0 var_count = \<lparr>fk_current_var = var_count, fk_var_count = var_count, fk_assignment = (\<lambda>_. False), fk_value = 0\<rparr>"

partial_function (option) ipset_apply_ite ::
  "ipset_node_cache \<Rightarrow> ipset_fake_node \<Rightarrow> nat \<Rightarrow> ipset_node_id \<Rightarrow> (ipset_node_id \<times> ipset_node_cache) option" where
  "ipset_apply_ite cache f g h =
    (if fk_current_var f = fk_var_count f
     then
       if fk_value f = 0 then do { cache \<leftarrow> ipset_node_incref cache h; Some (h, cache) }
       else Some (ipset_terminal_node_id g, cache)
     else if h = ipset_terminal_node_id g then Some (h, cache)
     else do {
       h_node \<leftarrow> (if ipset_node_get_type h = IPSET_NONTERMINAL_NODE
                  then map_option Some (get_nonterminal cache h) else Some None);
       if (case h_node of Some node \<Rightarrow> nd_variable node < fk_current_var f | None \<Rightarrow> False)
       then do {
         (result_high, cache) \<leftarrow> ipset_apply_ite cache f g (nd_high (the h_node));
         node \<leftarrow> get_nonterminal cache h;
         (result_low, cache) \<leftarrow> ipset_apply_ite cache f g (nd_low node);
         node \<leftarrow> get_nonterminal cache h;
         ipset_node_cache_nonterminal cache (nd_variable node) result_low result_high }
       else do {
         let (h_low, h_high) =
           (case h_node of
              Some node \<Rightarrow> if nd_variable node = fk_current_var f then (nd_low node, nd_high node) else (h, h)
            | None \<Rightarrow> (h, h));
         if fk_assignment f (fk_current_var f)
         then do {
           (result_high, cache) \<leftarrow> ipset_apply_ite cache (f\<lparr>fk_current_var := fk_current_var f + 1\<rparr>) g h_high;
           (result_low, cache) \<leftarrow> ipset_apply_ite cache (fake_terminal_0 (fk_var_count f)) g h_low;
           ipset_node_cache_nonterminal cache (fk_current_var f) result_low result_high }
         else do {
           (result_high, cache) \<leftarrow> ipset_apply_ite cache (fake_terminal_0 (fk_var_count f)) g h_high;
           (result_low, cache) \<leftarrow> ipset_apply_ite cache (f\<lparr>fk_current_var := fk_current_var f + 1\<rparr>) g h_low;
           ipset_node_cache_nonterminal cache (fk_current_var f) result_low result_high } } })"

definition ipset_node_insert ::
  "ipset_node_cache \<Rightarrow> ipset_node_id \<Rightarrow> (nat \<Rightarrow> bool) \<Rightarrow> nat \<Rightarrow> nat \<Rightarrow> (ipset_node_id \<times> ipset_node_cache) option" where
  "ipset_node_insert cache node assignment var_count v =
    ipset_apply_ite cache \<lparr>fk_current_var = 0, fk_var_count = var_count, fk_assignment = assignment, fk_value = 1\<rparr> v node"

section \<open>Sets of addresses\<close>

record ip_set =
  is_cache :: ipset_node_cache
  is_bdd :: ipset_node_id

definition ipset_init :: ip_set where
  "ipset_init = \<lparr>is_cache = ipset_node_cache_new, is_bdd = ipset_terminal_node_id 0\<rparr>"

text \<open>\<open>ipset_node_cache_free\<close>: nothing of the store is left, and an access to one of its nodes is undefined.\<close>

definition ipset_node_cache_free :: "ipset_node_cache \<Rightarrow> ipset_node_cache" where
  "ipset_node_cache_free cache = cache\<lparr>nc_nodes := [], nc_free_list := [], nc_table := Map.empty\<rparr>"

definition ipset_done :: "ip_set \<Rightarrow> ipset_node_cache option" where
  "ipset_done s = do { cache \<leftarrow> ipset_node_decref (is_cache s) (is_bdd s); Some (ipset_node_cache_free cache) }"

text \<open>\<open>IPSET_BIT_GET\<close>: bits are numbered from the most significant bit of the first byte.\<close>

definition IPSET_BIT_GET :: "bytes \<Rightarrow> nat \<Rightarrow> bool" where
  "IPSET_BIT_GET a i \<longleftrightarrow> (a ! (i div 8)) AND drop_bit (i mod 8) 0x80 \<noteq> 0"

text \<open>The template is instantiated with 32 bits and discriminator true for IPv4, 128 bits and false for IPv6.\<close>

definition ip_assignment :: "bool \<Rightarrow> bytes \<Rightarrow> nat \<Rightarrow> bool" where
  "ip_assignment discriminator addr var = (if var = 0 then discriminator else IPSET_BIT_GET addr (var - 1))"

definition ip_contains :: "bool \<Rightarrow> ip_set \<Rightarrow> bytes \<Rightarrow> bool option" where
  "ip_contains discriminator s elem =
    do { v \<leftarrow> ipset_node_evaluate (is_cache s) (is_bdd s) (ip_assignment discriminator elem); Some (v \<noteq> 0) }"

text \<open>The common body of the four template functions that change a set.\<close>

definition ip_update :: "bool \<Rightarrow> ip_set \<Rightarrow> bytes \<Rightarrow> nat \<Rightarrow> nat \<Rightarrow> (bool \<times> ip_set) option" where
  "ip_update discriminator s elem var_count v =
    do { (new_bdd, cache) \<leftarrow> ipset_node_insert (is_cache s) (is_bdd s) (ip_assignment discriminator elem) var_count v;
         let result = (new_bdd = is_bdd s);
         cache \<leftarrow> ipset_node_decref cache (is_bdd s);
         Some (result, s\<lparr>is_cache := cache, is_bdd := new_bdd\<rparr>) }"

definition ip_add_network :: "nat \<Rightarrow> bool \<Rightarrow> ip_set \<Rightarrow> bytes \<Rightarrow> nat \<Rightarrow> (bool \<times> ip_set) option" where
  "ip_add_network bit_size discriminator s elem cidr_prefix =
    (if cidr_prefix > bit_size then Some (False, s) else ip_update discriminator s elem (cidr_prefix + 1) 1)"

definition ip_add :: "nat \<Rightarrow> bool \<Rightarrow> ip_set \<Rightarrow> bytes \<Rightarrow> (bool \<times> ip_set) option" where
  "ip_add bit_size discriminator s elem = ip_update discriminator s elem (bit_size + 1) 1"

definition ip_remove :: "nat \<Rightarrow> bool \<Rightarrow> ip_set \<Rightarrow> bytes \<Rightarrow> (bool \<times> ip_set) option" where
  "ip_remove bit_size discriminator s elem = ip_update discriminator s elem (bit_size + 1) 0"

definition ip_remove_network :: "nat \<Rightarrow> bool \<Rightarrow> ip_set \<Rightarrow> bytes \<Rightarrow> nat \<Rightarrow> (bool \<times> ip_set) option" where
  "ip_remove_network bit_size discriminator s elem cidr_prefix =
    (if cidr_prefix > bit_size then Some (False, s) else ip_update discriminator s elem (cidr_prefix + 1) 0)"

definition ipset_contains_ipv4 :: "ip_set \<Rightarrow> bytes \<Rightarrow> bool option" where "ipset_contains_ipv4 = ip_contains True"
definition ipset_ipv4_add :: "ip_set \<Rightarrow> bytes \<Rightarrow> (bool \<times> ip_set) option" where "ipset_ipv4_add = ip_add 32 True"
definition ipset_ipv4_remove :: "ip_set \<Rightarrow> bytes \<Rightarrow> (bool \<times> ip_set) option" where "ipset_ipv4_remove = ip_remove 32 True"
definition ipset_ipv4_add_network :: "ip_set \<Rightarrow> bytes \<Rightarrow> nat \<Rightarrow> (bool \<times> ip_set) option" where
  "ipset_ipv4_add_network = ip_add_network 32 True"
definition ipset_contains_ipv6 :: "ip_set \<Rightarrow> bytes \<Rightarrow> bool option" where "ipset_contains_ipv6 = ip_contains False"
definition ipset_ipv6_add :: "ip_set \<Rightarrow> bytes \<Rightarrow> (bool \<times> ip_set) option" where "ipset_ipv6_add = ip_add 128 False"
definition ipset_ipv6_remove :: "ip_set \<Rightarrow> bytes \<Rightarrow> (bool \<times> ip_set) option" where "ipset_ipv6_remove = ip_remove 128 False"
definition ipset_ipv6_add_network :: "ip_set \<Rightarrow> bytes \<Rightarrow> nat \<Rightarrow> (bool \<times> ip_set) option" where
  "ipset_ipv6_add_network = ip_add_network 128 False"

definition ipset_ipv4_remove_network :: "ip_set \<Rightarrow> bytes \<Rightarrow> nat \<Rightarrow> (bool \<times> ip_set) option" where
  "ipset_ipv4_remove_network = ip_remove_network 32 True"
definition ipset_ipv6_remove_network :: "ip_set \<Rightarrow> bytes \<Rightarrow> nat \<Rightarrow> (bool \<times> ip_set) option" where
  "ipset_ipv6_remove_network = ip_remove_network 128 False"

text \<open>The operations on addresses of either version.\<close>

definition ipset_is_empty :: "ip_set \<Rightarrow> bool" where
  "ipset_is_empty s \<longleftrightarrow> is_bdd s = ipset_terminal_node_id 0"

definition ipset_is_equal :: "ip_set \<Rightarrow> ip_set \<Rightarrow> bool option" where
  "ipset_is_equal set1 set2 = ipset_node_cache_nodes_equal (is_cache set1) (is_bdd set1) (is_cache set2) (is_bdd set2)"

definition ipset_ip_add :: "ip_set \<Rightarrow> cork_ip \<Rightarrow> (bool \<times> ip_set) option" where
  "ipset_ip_add s addr = (case addr of V4 a \<Rightarrow> ipset_ipv4_add s a | V6 a \<Rightarrow> ipset_ipv6_add s a)"

definition ipset_ip_add_network :: "ip_set \<Rightarrow> cork_ip \<Rightarrow> nat \<Rightarrow> (bool \<times> ip_set) option" where
  "ipset_ip_add_network s addr cidr_prefix =
    (case addr of V4 a \<Rightarrow> ipset_ipv4_add_network s a cidr_prefix | V6 a \<Rightarrow> ipset_ipv6_add_network s a cidr_prefix)"

definition ipset_ip_remove :: "ip_set \<Rightarrow> cork_ip \<Rightarrow> (bool \<times> ip_set) option" where
  "ipset_ip_remove s addr = (case addr of V4 a \<Rightarrow> ipset_ipv4_remove s a | V6 a \<Rightarrow> ipset_ipv6_remove s a)"

definition ipset_ip_remove_network :: "ip_set \<Rightarrow> cork_ip \<Rightarrow> nat \<Rightarrow> (bool \<times> ip_set) option" where
  "ipset_ip_remove_network s addr cidr_prefix =
    (case addr of V4 a \<Rightarrow> ipset_ipv4_remove_network s a cidr_prefix | V6 a \<Rightarrow> ipset_ipv6_remove_network s a cidr_prefix)"

definition ipset_contains_ip :: "ip_set \<Rightarrow> cork_ip \<Rightarrow> bool option" where
  "ipset_contains_ip s addr = (case addr of V4 a \<Rightarrow> ipset_contains_ipv4 s a | V6 a \<Rightarrow> ipset_contains_ipv6 s a)"

end
