(* ===== verification/IpSetCorrect.thy ===== *)
theory IpSetCorrect
  imports IpSet
begin

text \<open>
  Correctness of the address sets.  The invariant \<open>bdd_inv\<close> says that the store of shared nodes is reduced, ordered,
  indexed by its table and that every reference count is the number of references from live nodes and from outside;
  \<open>reps\<close> relates a node id to the decision tree it stands for.  Reference counting, node sharing, the if-then-else
  merge and canonicity are proved over these two notions; the locale \<open>address_set\<close> is the contract that the access
  control relies on, and the properties lift it to sequences of operations on sets of addresses.
\<close>

section \<open>Trees\<close>

datatype bdd = Leaf nat | Branch nat bdd bdd

primrec eval :: "(nat \<Rightarrow> bool) \<Rightarrow> bdd \<Rightarrow> nat" where
  "eval \<sigma> (Leaf v) = v"
| "eval \<sigma> (Branch x l h) = (if \<sigma> x then eval \<sigma> h else eval \<sigma> l)"

primrec ordered :: "nat \<Rightarrow> bdd \<Rightarrow> bool" where
  "ordered k (Leaf v) \<longleftrightarrow> True"
| "ordered k (Branch x l h) \<longleftrightarrow> k \<le> x \<and> ordered (Suc x) l \<and> ordered (Suc x) h"

lemma ordered_mono: "ordered k t \<Longrightarrow> j \<le> k \<Longrightarrow> ordered j t"
  by (cases t) auto

section \<open>The store\<close>

lemmas id_defs = ipset_node_get_type_def IPSET_NONTERMINAL_NODE_def IPSET_TERMINAL_NODE_def ipset_terminal_node_id_def
  ipset_terminal_value_def ipset_nonterminal_node_id_def ipset_nonterminal_value_def

abbreviation nd :: "ipset_node_cache \<Rightarrow> nat \<Rightarrow> ipset_node" where "nd c i \<equiv> nc_nodes c ! i"
abbreviation rc :: "ipset_node_cache \<Rightarrow> nat \<Rightarrow> nat" where "rc c i \<equiv> nd_refcount (nc_nodes c ! i)"

definition live :: "ipset_node_cache \<Rightarrow> nat \<Rightarrow> bool" where
  "live c i \<longleftrightarrow> i < length (nc_nodes c) \<and> 0 < rc c i"

text \<open>How often a live node refers to an id, and how often an id is referred to from inside the store.\<close>

definition edges :: "ipset_node \<Rightarrow> ipset_node_id \<Rightarrow> nat" where
  "edges node node_id = (if nd_low node = node_id then 1 else 0) + (if nd_high node = node_id then 1 else 0)"

definition contrib :: "ipset_node_id \<Rightarrow> ipset_node \<Rightarrow> nat" where
  "contrib node_id node = (if 0 < nd_refcount node then edges node node_id else 0)"

definition indeg :: "ipset_node_cache \<Rightarrow> ipset_node_id \<Rightarrow> nat" where
  "indeg c node_id = sum_list (map (contrib node_id) (nc_nodes c))"

definition child_ok :: "ipset_node_cache \<Rightarrow> nat \<Rightarrow> ipset_node_id \<Rightarrow> bool" where
  "child_ok c x node_id \<longleftrightarrow> odd node_id \<or> (live c (node_id div 2) \<and> x < nd_variable (nd c (node_id div 2)))"

text \<open>The invariant: \<open>R\<close> counts the references held outside the store and \<open>P\<close> are the nodes that are being freed.\<close>

definition bdd_inv :: "ipset_node_cache \<Rightarrow> (ipset_node_id \<Rightarrow> nat) \<Rightarrow> nat set \<Rightarrow> bool" where
  "bdd_inv c R P \<longleftrightarrow>
     distinct (nc_free_list c) \<and> set (nc_free_list c) \<union> P \<subseteq> {..<length (nc_nodes c)} \<and> set (nc_free_list c) \<inter> P = {} \<and>
     (\<forall>i<length (nc_nodes c). rc c i = 0 \<longleftrightarrow> i \<in> set (nc_free_list c) \<union> P) \<and>
     (\<forall>i. live c i \<longrightarrow> nd_low (nd c i) \<noteq> nd_high (nd c i) \<and>
        child_ok c (nd_variable (nd c i)) (nd_low (nd c i)) \<and> child_ok c (nd_variable (nd c i)) (nd_high (nd c i))) \<and>
     (\<forall>i<length (nc_nodes c). rc c i = R (2 * i) + indeg c (2 * i)) \<and>
     (\<forall>i\<ge>length (nc_nodes c). R (2 * i) = 0) \<and>
     (\<forall>k node_id. nc_table c k = Some node_id \<longleftrightarrow>
        (\<exists>i<length (nc_nodes c). i \<notin> set (nc_free_list c) \<and> node_id = 2 * i \<and> node_key (nd c i) = k))"

lemma bdd_invD:
  assumes "bdd_inv c R P"
  shows "distinct (nc_free_list c)" "set (nc_free_list c) \<union> P \<subseteq> {..<length (nc_nodes c)}" "set (nc_free_list c) \<inter> P = {}"
    "\<And>i. i < length (nc_nodes c) \<Longrightarrow> rc c i = 0 \<longleftrightarrow> i \<in> set (nc_free_list c) \<union> P"
    "\<And>i. live c i \<Longrightarrow> nd_low (nd c i) \<noteq> nd_high (nd c i)"
    "\<And>i. live c i \<Longrightarrow> child_ok c (nd_variable (nd c i)) (nd_low (nd c i))"
    "\<And>i. live c i \<Longrightarrow> child_ok c (nd_variable (nd c i)) (nd_high (nd c i))"
    "\<And>i. i < length (nc_nodes c) \<Longrightarrow> rc c i = R (2 * i) + indeg c (2 * i)"
    "\<And>i. length (nc_nodes c) \<le> i \<Longrightarrow> R (2 * i) = 0"
    "\<And>k node_id. nc_table c k = Some node_id \<longleftrightarrow>
        (\<exists>i<length (nc_nodes c). i \<notin> set (nc_free_list c) \<and> node_id = 2 * i \<and> node_key (nd c i) = k)"
  using assms unfolding bdd_inv_def by blast+

lemma bdd_invI:
  assumes "distinct (nc_free_list c)" "set (nc_free_list c) \<union> P \<subseteq> {..<length (nc_nodes c)}" "set (nc_free_list c) \<inter> P = {}"
    "\<And>i. i < length (nc_nodes c) \<Longrightarrow> rc c i = 0 \<longleftrightarrow> i \<in> set (nc_free_list c) \<union> P"
    "\<And>i. live c i \<Longrightarrow> nd_low (nd c i) \<noteq> nd_high (nd c i)"
    "\<And>i. live c i \<Longrightarrow> child_ok c (nd_variable (nd c i)) (nd_low (nd c i))"
    "\<And>i. live c i \<Longrightarrow> child_ok c (nd_variable (nd c i)) (nd_high (nd c i))"
    "\<And>i. i < length (nc_nodes c) \<Longrightarrow> rc c i = R (2 * i) + indeg c (2 * i)"
    "\<And>i. length (nc_nodes c) \<le> i \<Longrightarrow> R (2 * i) = 0"
    "\<And>k node_id. nc_table c k = Some node_id \<longleftrightarrow>
        (\<exists>i<length (nc_nodes c). i \<notin> set (nc_free_list c) \<and> node_id = 2 * i \<and> node_key (nd c i) = k)"
  shows "bdd_inv c R P"
  using assms unfolding bdd_inv_def by auto

lemma indeg_update:
  assumes "i < length (nc_nodes c)"
  shows "indeg (c\<lparr>nc_nodes := (nc_nodes c)[i := x]\<rparr>) k + contrib k (nd c i) = indeg c k + contrib k x"
proof -
  have "contrib k (nd c i) \<le> sum_list (map (contrib k) (nc_nodes c))"
    using assms by (intro member_le_sum_list) auto
  then show ?thesis using assms sum_list_update [of i "map (contrib k) (nc_nodes c)" "contrib k x"]
    by (simp add: indeg_def map_update)
qed

lemma indeg_cong: "nc_nodes c = nc_nodes d \<Longrightarrow> indeg c k = indeg d k"
  by (simp add: indeg_def)

text \<open>References held outside the store.\<close>

definition hold :: "(nat \<Rightarrow> nat) \<Rightarrow> nat \<Rightarrow> nat \<Rightarrow> nat" where
  "hold R k = R(k := R k + 1)"

definition drop_ref :: "(nat \<Rightarrow> nat) \<Rightarrow> nat \<Rightarrow> nat \<Rightarrow> nat" where
  "drop_ref R k = R(k := R k - 1)"

lemma drop_hold [simp]: "drop_ref (hold R k) k = R"
  by (simp add: drop_ref_def hold_def)

lemma hold_commute: "hold (hold R a) b = hold (hold R b) a"
  by (auto simp: hold_def)

lemma hold_apply: "hold R k j = R j + (if j = k then 1 else 0)"
  by (simp add: hold_def)

section \<open>Trees in the store\<close>

primrec reps :: "ipset_node_cache \<Rightarrow> ipset_node_id \<Rightarrow> bdd \<Rightarrow> bool" where
  "reps c node_id (Leaf v) \<longleftrightarrow> node_id = 2 * v + 1"
| "reps c node_id (Branch x l h) \<longleftrightarrow> even node_id \<and> live c (node_id div 2) \<and> nd_variable (nd c (node_id div 2)) = x \<and>
     reps c (nd_low (nd c (node_id div 2))) l \<and> reps c (nd_high (nd c (node_id div 2))) h"

lemma reps_cases:
  assumes "reps c node_id t"
  obtains v where "odd node_id" "t = Leaf v" "node_id = 2 * v + 1"
  | l h where "even node_id" "live c (node_id div 2)" "t = Branch (nd_variable (nd c (node_id div 2))) l h"
    "reps c (nd_low (nd c (node_id div 2))) l" "reps c (nd_high (nd c (node_id div 2))) h"
  using assms by (cases t) auto

lemma child_ok_reps:
  "reps c node_id t \<Longrightarrow> child_ok c x node_id \<longleftrightarrow> (case t of Leaf v \<Rightarrow> True | Branch y l h \<Rightarrow> x < y)"
  by (cases t) (auto simp: child_ok_def)

lemma reps_ordered:
  assumes "bdd_inv c R P" "reps c node_id t" "child_ok c x node_id"
  shows "ordered (Suc x) t"
  using assms(2,3)
proof (induction t arbitrary: node_id x)
  case (Branch y l h)
  note i = bdd_invD(6,7) [OF assms(1), of "node_id div 2"]
  have "x < y" using child_ok_reps [OF Branch.prems(1)] Branch.prems(2) by simp
  moreover have "ordered (Suc y) l" "ordered (Suc y) h" using Branch i by auto
  ultimately show ?case by simp
qed simp

lemma reps_child_ok: "reps c node_id t \<Longrightarrow> ordered (Suc x) t \<Longrightarrow> child_ok c x node_id"
  by (cases t) (auto simp: child_ok_def)

text \<open>What is reachable from the references in \<open>R\<close>.\<close>

inductive kept :: "ipset_node_cache \<Rightarrow> (nat \<Rightarrow> nat) \<Rightarrow> ipset_node_id \<Rightarrow> bool" for c R where
  kept_root: "1 \<le> R node_id \<Longrightarrow> even node_id \<Longrightarrow> kept c R node_id"
| kept_low: "kept c R node_id \<Longrightarrow> even (nd_low (nd c (node_id div 2))) \<Longrightarrow> kept c R (nd_low (nd c (node_id div 2)))"
| kept_high: "kept c R node_id \<Longrightarrow> even (nd_high (nd c (node_id div 2))) \<Longrightarrow> kept c R (nd_high (nd c (node_id div 2)))"

lemma held_live: "bdd_inv c R P \<Longrightarrow> 1 \<le> R k \<Longrightarrow> even k \<Longrightarrow> live c (k div 2)"
  using bdd_invD(8,9) [of c R P "k div 2"] by (cases "k div 2 < length (nc_nodes c)") (auto simp: live_def)

lemma kept_even: "kept c R k \<Longrightarrow> even k"
  by (erule kept.cases) auto

lemma kept_mono: "kept c R k \<Longrightarrow> (\<And>j. R j \<le> R' j) \<Longrightarrow> kept c R' k"
proof (induction rule: kept.induct)
  case (kept_root k)
  then show ?case by (meson kept.kept_root le_trans)
qed (auto intro: kept.intros)

definition stable :: "ipset_node_cache \<Rightarrow> ipset_node_cache \<Rightarrow> bool" where
  "stable c d \<longleftrightarrow> (\<forall>i. live c i \<longrightarrow> live d i \<longrightarrow> node_key (nd c i) = node_key (nd d i))"

definition preserves :: "(nat \<Rightarrow> nat) \<Rightarrow> ipset_node_cache \<Rightarrow> ipset_node_cache \<Rightarrow> bool" where
  "preserves R c d \<longleftrightarrow> (\<forall>k. kept c R k \<longrightarrow> kept d R k \<and> live c (k div 2) \<and> live d (k div 2) \<and>
     node_key (nd c (k div 2)) = node_key (nd d (k div 2)))"

lemma stable_preserves:
  assumes "bdd_inv c R1 P" "bdd_inv d R2 Q" "\<And>k. R k \<le> R1 k" "\<And>k. R k \<le> R2 k" "stable c d"
  shows "preserves R c d"
proof -
  have "kept d R k \<and> live c (k div 2) \<and> live d (k div 2) \<and> node_key (nd c (k div 2)) = node_key (nd d (k div 2))"
    if "kept c R k" for k
    using that
  proof (induction rule: kept.induct)
    case (kept_root k)
    then have "live c (k div 2)" "live d (k div 2)"
      using held_live [OF assms(1)] held_live [OF assms(2)] assms(3,4) by (meson le_trans)+
    then show ?case using kept_root assms(5) by (auto simp: stable_def intro: kept.kept_root)
  next
    case (kept_low k)
    let ?j = "nd_low (nd c (k div 2))"
    have e: "nd_low (nd d (k div 2)) = ?j" using kept_low.IH by (simp add: node_key_def)
    have "live c (?j div 2)" "live d (?j div 2)"
      using bdd_invD(6) [OF assms(1), of "k div 2"] bdd_invD(6) [OF assms(2), of "k div 2"] kept_low e
      by (auto simp: child_ok_def)
    moreover have "kept d R ?j" using kept.kept_low [of d R k] kept_low e by simp
    ultimately show ?case using assms(5) by (simp add: stable_def)
  next
    case (kept_high k)
    let ?j = "nd_high (nd c (k div 2))"
    have e: "nd_high (nd d (k div 2)) = ?j" using kept_high.IH by (simp add: node_key_def)
    have "live c (?j div 2)" "live d (?j div 2)"
      using bdd_invD(7) [OF assms(1), of "k div 2"] bdd_invD(7) [OF assms(2), of "k div 2"] kept_high e
      by (auto simp: child_ok_def)
    moreover have "kept d R ?j" using kept.kept_high [of d R k] kept_high e by simp
    ultimately show ?case using assms(5) by (simp add: stable_def)
  qed
  then show ?thesis by (simp add: preserves_def)
qed

lemma preserves_trans: "preserves R c d \<Longrightarrow> preserves R d e \<Longrightarrow> preserves R c e"
  by (simp add: preserves_def)

lemma preserves_reps:
  assumes "preserves R c d" "reps c k t" "odd k \<or> kept c R k"
  shows "reps d k t"
  using assms(2,3)
proof (induction t arbitrary: k)
  case (Branch x l h)
  let ?i = "k div 2"
  have k: "kept c R k" "even k" using Branch.prems by auto
  have p: "live d ?i" "node_key (nd c ?i) = node_key (nd d ?i)" using assms(1) k(1) by (auto simp: preserves_def)
  have "reps d (nd_low (nd c ?i)) l" "reps d (nd_high (nd c ?i)) h"
    using Branch kept_low [OF k(1)] kept_high [OF k(1)] by auto
  then show ?case using Branch.prems(1) p by (simp add: node_key_def)
qed simp

section \<open>Reference counting\<close>

lemma get_nonterminal_live [simp]: "live c (k div 2) \<Longrightarrow> get_nonterminal c k = Some (nd c (k div 2))"
  by (simp add: get_nonterminal_def live_def id_defs)

lemma set_node_eq: "set_node c k x = c\<lparr>nc_nodes := (nc_nodes c)[k div 2 := x]\<rparr>"
  by (simp add: set_node_def id_defs)

lemma bdd_inv_cong: "(\<And>i. R (2 * i) = R' (2 * i)) \<Longrightarrow> bdd_inv c R P = bdd_inv c R' P"
  unfolding bdd_inv_def by (simp only:)

text \<open>Changing the count of a live node to another positive count.\<close>

lemma recount:
  assumes inv: "bdd_inv c R P" and i: "live c i" and m: "0 < m" "m + R (2 * i) = rc c i + R' (2 * i)"
    and R': "\<And>j. j \<noteq> i \<Longrightarrow> R' (2 * j) = R (2 * j)"
  defines "d \<equiv> c\<lparr>nc_nodes := (nc_nodes c)[i := (nd c i)\<lparr>nd_refcount := m\<rparr>]\<rparr>"
  shows "bdd_inv d R' P" "stable c d" "live d j \<longleftrightarrow> live c j"
proof -
  let ?x = "(nd c i)\<lparr>nd_refcount := m\<rparr>"
  have n: "i < length (nc_nodes c)" "length (nc_nodes d) = length (nc_nodes c)" using i by (auto simp: live_def d_def)
  have g: "node_key (nd d j) = node_key (nd c j)" "nd_variable (nd d j) = nd_variable (nd c j)" "nd_low (nd d j) = nd_low (nd c j)"
     "nd_high (nd d j) = nd_high (nd c j)" "rc d j = (if j = i then m else rc c j)" if "j < length (nc_nodes c)" for j
    using that n(1) by (cases "j = i"; simp add: d_def node_key_def)+
  have l: "live d j \<longleftrightarrow> live c j" for j using n i m(1) g(5) [of j] by (auto simp: live_def split: if_splits)
  then show "live d j \<longleftrightarrow> live c j" .
  have lc: "live c j" "j < length (nc_nodes c)" if "live d j" for j using that l by (auto simp: live_def)
  have ch: "child_ok d x k" if "child_ok c x k" for x k
    using that l [of "k div 2"] g(2) [of "k div 2"] by (auto simp: child_ok_def live_def)
  have deg: "indeg d j = indeg c j" for j
    using indeg_update [OF n(1), of ?x j] i m(1) by (simp add: d_def contrib_def edges_def live_def)
  show "bdd_inv d R' P"
  proof (rule bdd_invI)
    show "rc d j = 0 \<longleftrightarrow> j \<in> set (nc_free_list d) \<union> P" if "j < length (nc_nodes d)" for j
      using bdd_invD(4) [OF inv, of j] bdd_invD(4) [OF inv n(1)] that n(2) g(5) [of j] i m(1) by (auto simp: d_def live_def)
    show "nd_low (nd d j) \<noteq> nd_high (nd d j)" if "live d j" for j
      using bdd_invD(5) [OF inv lc(1) [OF that]] g(3,4) [OF lc(2) [OF that]] by simp
    show "child_ok d (nd_variable (nd d j)) (nd_low (nd d j))" if "live d j" for j
      using ch [OF bdd_invD(6) [OF inv lc(1) [OF that]]] g(2,3) [OF lc(2) [OF that]] by simp
    show "child_ok d (nd_variable (nd d j)) (nd_high (nd d j))" if "live d j" for j
      using ch [OF bdd_invD(7) [OF inv lc(1) [OF that]]] g(2,4) [OF lc(2) [OF that]] by simp
    show "rc d j = R' (2 * j) + indeg d (2 * j)" if "j < length (nc_nodes d)" for j
      using bdd_invD(8) [OF inv, of j] that n(2) g(5) [of j] deg [of "2 * j"] m(2) R' [of j] by (cases "j = i") auto
    show "R' (2 * j) = 0" if "length (nc_nodes d) \<le> j" for j
      using bdd_invD(9) [OF inv, of j] that n R' [of j] by auto
    show "nc_table d q = Some node_id \<longleftrightarrow>
        (\<exists>i<length (nc_nodes d). i \<notin> set (nc_free_list d) \<and> node_id = 2 * i \<and> node_key (nd d i) = q)" for q node_id
    proof -
      have "nc_table d q = nc_table c q" "nc_free_list d = nc_free_list c" by (simp_all add: d_def)
      then show ?thesis using bdd_invD(10) [OF inv, of q node_id] n(2) g(1) by auto
    qed
  qed (use bdd_invD(1-3) [OF inv] n(2) in \<open>simp_all add: d_def\<close>)
  show "stable c d" using g(1) by (auto simp: stable_def live_def)
qed

lemma incref_spec:
  assumes inv: "bdd_inv c R P" and k: "odd k \<or> live c (k div 2)"
  shows "\<exists>d. ipset_node_incref c k = Some d \<and> bdd_inv d (hold R k) P \<and> stable c d \<and> (\<forall>i. live c i \<longleftrightarrow> live d i)"
proof (cases "even k")
  case False
  then have "hold R k (2 * i) = R (2 * i)" for i by (auto simp: hold_apply)
  then have "bdd_inv c (hold R k) P" using inv bdd_inv_cong [of "hold R k" R c P] by blast
  moreover have "ipset_node_incref c k = Some c" using False by (simp add: ipset_node_incref_def id_defs odd_iff_mod_2_eq_one)
  ultimately show ?thesis by (auto simp: stable_def)
next
  case True
  then have i: "live c (k div 2)" "2 * (k div 2) = k" using k by auto
  have "2 * j \<noteq> k" if "j \<noteq> k div 2" for j using that by auto
  then have h: "hold R k (2 * j) = R (2 * j)" if "j \<noteq> k div 2" for j using that by (simp add: hold_apply)
  have p: "rc c (k div 2) + 1 + R (2 * (k div 2)) = rc c (k div 2) + hold R k (2 * (k div 2))" using i(2) by (simp add: hold_apply)
  note r = recount [OF inv i(1) _ p h]
  show ?thesis using r True i(1)
    by (intro exI) (auto simp: ipset_node_incref_def id_defs set_node_eq even_iff_mod_2_eq_zero)
qed


text \<open>The last reference to node \<open>i\<close> is dropped: its own two references are now held outside the store.\<close>

lemma begin_free:
  assumes inv: "bdd_inv c R P" and i: "live c i" "rc c i = 1" "1 \<le> R (2 * i)"
  defines "d \<equiv> c\<lparr>nc_nodes := (nc_nodes c)[i := (nd c i)\<lparr>nd_refcount := 0\<rparr>]\<rparr>"
  defines "R' \<equiv> hold (hold (drop_ref R (2 * i)) (nd_low (nd c i))) (nd_high (nd c i))"
  shows "bdd_inv d R' (insert i P)"
    and "\<And>j. live d j \<longleftrightarrow> live c j \<and> j \<noteq> i" and "\<And>j. j < length (nc_nodes c) \<Longrightarrow> node_key (nd d j) = node_key (nd c j)"
proof -
  let ?x = "(nd c i)\<lparr>nd_refcount := 0\<rparr>"
  have n: "i < length (nc_nodes c)" "length (nc_nodes d) = length (nc_nodes c)" using i by (auto simp: live_def d_def)
  have R1: "R (2 * i) = 1" "indeg c (2 * i) = 0" using bdd_invD(8) [OF inv n(1)] i by auto
  have g: "node_key (nd d j) = node_key (nd c j)" "nd_variable (nd d j) = nd_variable (nd c j)" "nd_low (nd d j) = nd_low (nd c j)"
     "nd_high (nd d j) = nd_high (nd c j)" "rc d j = (if j = i then 0 else rc c j)" if "j < length (nc_nodes c)" for j
    using that n(1) by (cases "j = i"; simp add: d_def node_key_def)+
  then show "\<And>j. j < length (nc_nodes c) \<Longrightarrow> node_key (nd d j) = node_key (nd c j)" by blast
  have l: "live d j \<longleftrightarrow> live c j \<and> j \<noteq> i" for j using n g(5) [of j] by (auto simp: live_def split: if_splits)
  then show "\<And>j. live d j \<longleftrightarrow> live c j \<and> j \<noteq> i" .
  have lc: "live c j" "j < length (nc_nodes c)" if "live d j" for j using that l by (auto simp: live_def)
  have deg: "indeg d j + edges (nd c i) j = indeg c j" for j
    using indeg_update [OF n(1), of ?x j] i by (simp add: d_def contrib_def live_def)
  have e0: "edges (nd c i) (2 * i) = 0" using deg [of "2 * i"] R1(2) by simp
  have Re: "R' (2 * j) = (if j = i then 0 else R (2 * j)) + edges (nd c i) (2 * j)" for j
    using R1(1) by (auto simp: R'_def hold_apply drop_ref_def edges_def)
  have notchild: "nd_low (nd c j) \<noteq> 2 * i \<and> nd_high (nd c j) \<noteq> 2 * i" if "live c j" for j
  proof -
    have "contrib (2 * i) (nd c j) \<le> indeg c (2 * i)"
      unfolding indeg_def using that by (intro member_le_sum_list) (auto simp: live_def)
    then show ?thesis using R1(2) that by (auto simp: contrib_def edges_def live_def split: if_splits)
  qed
  have ch: "child_ok d x k" if "child_ok c x k" "k \<noteq> 2 * i" for x k
  proof (cases "odd k")
    case False
    then have "k div 2 \<noteq> i" using that(2) by auto
    then show ?thesis using that(1) False l [of "k div 2"] g(2) [of "k div 2"] by (auto simp: child_ok_def live_def)
  qed (simp add: child_ok_def)
  show "bdd_inv d R' (insert i P)"
  proof (rule bdd_invI)
    show "rc d j = 0 \<longleftrightarrow> j \<in> set (nc_free_list d) \<union> insert i P" if "j < length (nc_nodes d)" for j
      using bdd_invD(4) [OF inv, of j] that n(2) g(5) [of j] by (auto simp: d_def)
    show "nd_low (nd d j) \<noteq> nd_high (nd d j)" if "live d j" for j
      using bdd_invD(5) [OF inv lc(1) [OF that]] g(3,4) [OF lc(2) [OF that]] by simp
    show "child_ok d (nd_variable (nd d j)) (nd_low (nd d j))" if "live d j" for j
      using ch [OF bdd_invD(6) [OF inv lc(1) [OF that]]] notchild [OF lc(1) [OF that]] g(2,3) [OF lc(2) [OF that]] by simp
    show "child_ok d (nd_variable (nd d j)) (nd_high (nd d j))" if "live d j" for j
      using ch [OF bdd_invD(7) [OF inv lc(1) [OF that]]] notchild [OF lc(1) [OF that]] g(2,4) [OF lc(2) [OF that]] by simp
    show "rc d j = R' (2 * j) + indeg d (2 * j)" if "j < length (nc_nodes d)" for j
      using bdd_invD(8) [OF inv, of j] that n(2) g(5) [of j] deg [of "2 * j"] Re [of j] R1 e0 by (cases "j = i") auto
    show "R' (2 * j) = 0" if "length (nc_nodes d) \<le> j" for j
    proof -
      have "nd_low (nd c i) \<noteq> 2 * j" "nd_high (nd c i) \<noteq> 2 * j"
        using bdd_invD(6,7) [OF inv i(1)] that n by (auto simp: child_ok_def live_def)
      then show ?thesis using bdd_invD(9) [OF inv, of j] that n Re [of j] by (auto simp: edges_def)
    qed
    show "nc_table d q = Some node_id \<longleftrightarrow>
        (\<exists>i<length (nc_nodes d). i \<notin> set (nc_free_list d) \<and> node_id = 2 * i \<and> node_key (nd d i) = q)" for q node_id
    proof -
      have "nc_table d q = nc_table c q" "nc_free_list d = nc_free_list c" by (simp_all add: d_def)
      then show ?thesis using bdd_invD(10) [OF inv, of q node_id] n(2) g(1) by auto
    qed
    have "i \<notin> set (nc_free_list c)" using bdd_invD(4) [OF inv n(1)] i(2) by auto
    then show "set (nc_free_list d) \<inter> insert i P = {}" using bdd_invD(3) [OF inv] by (auto simp: d_def)
    show "set (nc_free_list d) \<union> insert i P \<subseteq> {..<length (nc_nodes d)}" using bdd_invD(2) [OF inv] n by (auto simp: d_def)
    show "distinct (nc_free_list d)" using bdd_invD(1) [OF inv] by (simp add: d_def)
  qed
qed

text \<open>A node whose references are gone leaves the table and goes to the free list.\<close>

lemma end_free:
  assumes inv: "bdd_inv c R (insert i P)" and i: "i \<notin> P"
  defines "d \<equiv> c\<lparr>nc_table := (nc_table c)(node_key (nd c i) := None), nc_free_list := i # nc_free_list c\<rparr>"
  shows "bdd_inv d R P"
proof (rule bdd_invI)
  have n: "i < length (nc_nodes c)" using bdd_invD(2) [OF inv] by auto
  have nf: "i \<notin> set (nc_free_list c)" using bdd_invD(3) [OF inv] by auto
  have s: "nc_nodes d = nc_nodes c" by (simp add: d_def)
  have l: "live d j \<longleftrightarrow> live c j" for j by (simp add: live_def s)
  have ch: "child_ok d x k \<longleftrightarrow> child_ok c x k" for x k by (simp add: child_ok_def l s)
  show "distinct (nc_free_list d)" using bdd_invD(1) [OF inv] nf by (simp add: d_def)
  show "set (nc_free_list d) \<union> P \<subseteq> {..<length (nc_nodes d)}" using bdd_invD(2) [OF inv] by (auto simp: d_def)
  show "set (nc_free_list d) \<inter> P = {}" using bdd_invD(3) [OF inv] i by (auto simp: d_def)
  show "rc d j = 0 \<longleftrightarrow> j \<in> set (nc_free_list d) \<union> P" if "j < length (nc_nodes d)" for j
    using bdd_invD(4) [OF inv, of j] that by (auto simp: d_def)
  show "nd_low (nd d j) \<noteq> nd_high (nd d j)" if "live d j" for j using bdd_invD(5) [OF inv, of j] that l s by simp
  show "child_ok d (nd_variable (nd d j)) (nd_low (nd d j))" if "live d j" for j using bdd_invD(6) [OF inv, of j] that l s ch by simp
  show "child_ok d (nd_variable (nd d j)) (nd_high (nd d j))" if "live d j" for j using bdd_invD(7) [OF inv, of j] that l s ch by simp
  show "rc d j = R (2 * j) + indeg d (2 * j)" if "j < length (nc_nodes d)" for j
    using bdd_invD(8) [OF inv, of j] that indeg_cong [OF s] s by simp
  show "R (2 * j) = 0" if "length (nc_nodes d) \<le> j" for j using bdd_invD(9) [OF inv, of j] that s by simp
  show "nc_table d q = Some node_id \<longleftrightarrow>
      (\<exists>j<length (nc_nodes d). j \<notin> set (nc_free_list d) \<and> node_id = 2 * j \<and> node_key (nd d j) = q)" for q node_id
  proof -
    have u: "j = i" if "j < length (nc_nodes c)" "j \<notin> set (nc_free_list c)" "node_key (nd c j) = node_key (nd c i)" for j
      using bdd_invD(10) [OF inv, of "node_key (nd c i)" "2 * i"] bdd_invD(10) [OF inv, of "node_key (nd c i)" "2 * j"] that n nf by auto
    have "nc_table d q = (if q = node_key (nd c i) then None else nc_table c q)" "set (nc_free_list d) = insert i (set (nc_free_list c))"
      by (simp_all add: d_def)
    then show ?thesis using bdd_invD(10) [OF inv, of q node_id] u s by auto
  qed
qed


definition same_keys :: "ipset_node_cache \<Rightarrow> ipset_node_cache \<Rightarrow> bool" where
  "same_keys c d \<longleftrightarrow> length (nc_nodes d) = length (nc_nodes c) \<and>
     (\<forall>i<length (nc_nodes c). node_key (nd d i) = node_key (nd c i))"

lemma same_keys_stable: "same_keys c d \<Longrightarrow> stable c d"
  by (simp add: same_keys_def stable_def live_def)

lemma same_keys_trans: "same_keys c d \<Longrightarrow> same_keys d e \<Longrightarrow> same_keys c e"
  by (simp add: same_keys_def)

lemma reps_avoid:
  assumes "bdd_inv c R P" "reps c k t" "ordered (Suc x) t" "nd_variable (nd c i) = x"
    and "\<And>j. live c j \<Longrightarrow> j \<noteq> i \<Longrightarrow> live d j \<and> node_key (nd d j) = node_key (nd c j)"
  shows "reps d k t"
  using assms(2,3)
proof (induction t arbitrary: k)
  case (Branch y l h)
  have "k div 2 \<noteq> i" using Branch.prems assms(4) by auto
  then have d: "live d (k div 2)" "node_key (nd d (k div 2)) = node_key (nd c (k div 2))" using assms(5) Branch.prems by auto
  have "ordered (Suc x) l" "ordered (Suc x) h" using Branch.prems(2) by (auto intro: ordered_mono)
  then show ?case using Branch d by (simp add: node_key_def)
qed simp

lemma decref_spec:
  assumes "bdd_inv c R P" "reps c k t" "even k \<Longrightarrow> 1 \<le> R k"
  shows "\<exists>d. ipset_node_decref c k = Some d \<and> bdd_inv d (drop_ref R k) P \<and> same_keys c d"
  using assms
proof (induction t arbitrary: c k R P)
  case (Leaf v)
  then have k: "k mod 2 = 1" "odd k" by auto
  have "drop_ref R k (2 * i) = R (2 * i)" for i using k(2) by (auto simp: drop_ref_def)
  then have "bdd_inv c (drop_ref R k) P" using Leaf.prems(1) bdd_inv_cong [of "drop_ref R k" R c P] by blast
  then show ?case using k by (simp add: ipset_node_decref.simps [of c k] id_defs same_keys_def)
next
  case (Branch x l h)
  define i where "i = k div 2"
  have k: "even k" "k mod 2 = 0" "k = 2 * i" "live c i" "nd_variable (nd c i) = x" using Branch.prems(2) by (auto simp: i_def)
  have sub: "reps c (nd_low (nd c i)) l" "reps c (nd_high (nd c i)) h" using Branch.prems(2) by (auto simp: i_def)
  note inv = Branch.prems(1)
  have Rk: "1 \<le> R (2 * i)" using Branch.prems(3) k by simp
  have rc0: "0 < rc c i" using k(4) by (simp add: live_def)
  have gn: "get_nonterminal c k = Some (nd c i)" using k(4) by (simp add: i_def)
  have step: "ipset_node_decref c k =
     (if rc c i - 1 = 0
      then do {
         d \<leftarrow> ipset_node_decref (c\<lparr>nc_nodes := (nc_nodes c)[i := (nd c i)\<lparr>nd_refcount := 0\<rparr>]\<rparr>) (nd_low (nd c i));
         d \<leftarrow> ipset_node_decref d (nd_high (nd c i));
         Some (d\<lparr>nc_table := (nc_table d)(node_key (nd c i) := None), nc_free_list := i # nc_free_list d\<rparr>) }
      else Some (c\<lparr>nc_nodes := (nc_nodes c)[i := (nd c i)\<lparr>nd_refcount := rc c i - 1\<rparr>]\<rparr>))"
    using k(2) gn rc0 by (subst ipset_node_decref.simps) (simp add: id_defs set_node_eq dec_count_def i_def [symmetric] Let_def)
  show ?case
  proof (cases "rc c i = 1")
    case False
    have p: "rc c i - 1 + R (2 * i) = rc c i + drop_ref R k (2 * i)" using rc0 Rk k(3) by (simp add: drop_ref_def)
    have o: "drop_ref R k (2 * j) = R (2 * j)" if "j \<noteq> i" for j using that k(3) by (simp add: drop_ref_def)
    have m: "0 < rc c i - 1" using False rc0 by simp
    have "same_keys c (c\<lparr>nc_nodes := (nc_nodes c)[i := (nd c i)\<lparr>nd_refcount := rc c i - 1\<rparr>]\<rparr>)"
      using k(4) by (auto simp: same_keys_def nth_list_update node_key_def live_def)
    then show ?thesis using recount(1) [OF inv k(4) m p o] m step by simp
  next
    case True
    let ?lo = "nd_low (nd c i)" and ?hi = "nd_high (nd c i)"
    define c1 where "c1 = c\<lparr>nc_nodes := (nc_nodes c)[i := (nd c i)\<lparr>nd_refcount := 0\<rparr>]\<rparr>"
    define B where "B = drop_ref R (2 * i)"
    note bf = begin_free [OF inv k(4) True Rk]
    have inv1: "bdd_inv c1 (hold (hold B ?lo) ?hi) (insert i P)" using bf(1) by (simp add: c1_def B_def)
    have live1: "live c1 j \<and> node_key (nd c1 j) = node_key (nd c j)" if "live c j" "j \<noteq> i" for j
      using bf(2) [of j] bf(3) [of j] that by (simp add: c1_def live_def)
    have sk1: "same_keys c c1" using bf(3) by (simp add: same_keys_def c1_def)
    have ord: "ordered (Suc x) l" "ordered (Suc x) h"
      using reps_ordered [OF inv sub(1) bdd_invD(6) [OF inv k(4)]] reps_ordered [OF inv sub(2) bdd_invD(7) [OF inv k(4)]] k(5) by auto
    have sub1: "reps c1 ?lo l" "reps c1 ?hi h"
      using reps_avoid [OF inv _ _ k(5) live1] sub ord by blast+
    obtain c2 where c2: "ipset_node_decref c1 ?lo = Some c2" "bdd_inv c2 (hold B ?hi) (insert i P)" "same_keys c1 c2"
    proof -
      have "bdd_inv c1 (hold (hold B ?hi) ?lo) (insert i P)" using inv1 by (simp add: hold_commute)
      moreover have "1 \<le> hold (hold B ?hi) ?lo ?lo" by (simp add: hold_apply)
      ultimately show thesis using Branch.IH(1) [OF _ sub1(1)] that by fastforce
    qed
    have "reps c2 ?hi h"
    proof (rule preserves_reps)
      show "preserves (hold (\<lambda>_. 0) ?hi) c1 c2"
        by (rule stable_preserves [OF inv1 c2(2)]) (auto simp: hold_apply same_keys_stable [OF c2(3)])
      show "odd ?hi \<or> kept c1 (hold (\<lambda>_. 0) ?hi) ?hi" by (auto intro: kept.kept_root simp: hold_apply)
    qed (rule sub1(2))
    then obtain c3 where c3: "ipset_node_decref c2 ?hi = Some c3" "bdd_inv c3 B (insert i P)" "same_keys c2 c3"
    proof -
      assume a: "reps c2 ?hi h" and t: "\<And>c3. ipset_node_decref c2 ?hi = Some c3 \<Longrightarrow> bdd_inv c3 B (insert i P) \<Longrightarrow> same_keys c2 c3 \<Longrightarrow> thesis"
      have "1 \<le> hold B ?hi ?hi" by (simp add: hold_apply)
      then show thesis using Branch.IH(2) [OF c2(2) a] t by fastforce
    qed
    have sk: "same_keys c c3" using same_keys_trans [OF same_keys_trans [OF sk1 c2(3)] c3(3)] .
    have "node_key (nd c3 i) = node_key (nd c i)" using sk k(4) by (simp add: same_keys_def live_def)
    moreover have "i \<notin> P" using bdd_invD(4) [OF inv, of i] True k(4) by (auto simp: live_def)
    ultimately have "bdd_inv (c3\<lparr>nc_table := (nc_table c3)(node_key (nd c i) := None), nc_free_list := i # nc_free_list c3\<rparr>) B P"
      using end_free [OF c3(2)] by simp
    moreover have "same_keys c (c3\<lparr>nc_table := (nc_table c3)(node_key (nd c i) := None), nc_free_list := i # nc_free_list c3\<rparr>)"
      using sk by (simp add: same_keys_def)
    ultimately show ?thesis using step True c2(1) c3(1) k(3) by (simp add: c1_def [symmetric] B_def)
  qed
qed

section \<open>Building nodes\<close>

lemma decref_held:
  assumes "bdd_inv c (hold B k) P" "reps c k t"
  obtains d where "ipset_node_decref c k = Some d" "bdd_inv d B P" "same_keys c d"
proof -
  have "1 \<le> hold B k k" by (simp add: hold_apply)
  then show thesis using decref_spec [OF assms] that by fastforce
qed

text \<open>A tree held by a reference survives a step.\<close>

lemma held_reps:
  assumes "bdd_inv c R1 P" "bdd_inv d R2 Q" "stable c d" "reps c k t" "1 \<le> R1 k" "1 \<le> R2 k"
  shows "reps d k t"
proof (rule preserves_reps)
  show "preserves (hold (\<lambda>_. 0) k) c d"
    using assms(5,6) by (intro stable_preserves [OF assms(1,2) _ _ assms(3)]) (auto simp: hold_apply)
  show "odd k \<or> kept c (hold (\<lambda>_. 0) k) k" by (auto intro: kept.kept_root simp: hold_apply)
qed (rule assms(4))

lemma new_node_inv:
  assumes inv: "bdd_inv c (hold (hold B low) high) {}" and lh: "low \<noteq> high" "child_ok c x low" "child_ok c x high"
    and nt: "nc_table c (x, low, high) = None"
    and a: "ipset_node_cache_alloc_node c = (i, c1)"
  defines "d \<equiv> c1\<lparr>nc_nodes := (nc_nodes c1)[i := \<lparr>nd_refcount = 1, nd_variable = x, nd_low = low, nd_high = high\<rparr>],
       nc_table := (nc_table c1)((x, low, high) \<mapsto> 2 * i)\<rparr>"
  shows "bdd_inv d (hold B (2 * i)) {}" "stable c d" "\<And>j. live d j \<longleftrightarrow> live c j \<or> j = i" "\<not> live c i"
    "nd d i = \<lparr>nd_refcount = 1, nd_variable = x, nd_low = low, nd_high = high\<rparr>"
proof -
  let ?x = "\<lparr>nd_refcount = 1, nd_variable = x, nd_low = low, nd_high = high\<rparr>"
  let ?n = "length (nc_nodes c)"
  have c1: "nc_table c1 = nc_table c" "i < length (nc_nodes c1)" "?n \<le> length (nc_nodes c1)" "length (nc_nodes c1) \<le> max ?n (Suc i)"
    "\<And>j. j < ?n \<Longrightarrow> nd c1 j = nd c j" "i < ?n \<Longrightarrow> rc c i = 0" "distinct (nc_free_list c1)"
    "set (nc_free_list c1) = set (nc_free_list c) - {i}" "i \<ge> ?n \<Longrightarrow> i = ?n" "length (nc_nodes c1) = (if i < ?n then ?n else Suc ?n)"
    "rc c1 i = 0"
    using a bdd_invD(1,2) [OF inv] bdd_invD(4) [OF inv, of i]
    by (auto simp: ipset_node_cache_alloc_node_def nth_append split: list.splits)
  have d: "length (nc_nodes d) = length (nc_nodes c1)" "nc_free_list d = nc_free_list c1"
    "nc_table d = (nc_table c)((x, low, high) \<mapsto> 2 * i)" "nd d i = ?x" "\<And>j. j \<noteq> i \<Longrightarrow> nd d j = nd c1 j"
    using c1(1,2) by (simp_all add: d_def)
  show "nd d i = ?x" by (rule d(4))
  show ni: "\<not> live c i" using c1(6) by (auto simp: live_def)
  have dl: "j < length (nc_nodes d) \<longleftrightarrow> j < ?n \<or> j = i" for j using d(1) c1(2,3,9,10) by auto
  have dn: "nd d j = nd c j" if "j < ?n" "j \<noteq> i" for j using that d(5) c1(5) by simp
  show l: "live d j \<longleftrightarrow> live c j \<or> j = i" for j
    using dl [of j] dn [of j] d(4) by (cases "j = i") (auto simp: live_def)
  have "nd d j = nd c j" if "live c j" for j using that ni dn [of j] by (cases "j = i") (auto simp: live_def)
  then show "stable c d" by (auto simp: stable_def)
  have ch: "child_ok d y k" if "child_ok c y k" for y k
    using that ni l [of "k div 2"] dn [of "k div 2"] by (cases "k div 2 = i") (auto simp: child_ok_def live_def)
  have deg: "indeg d k = indeg c k + edges ?x k" for k
  proof -
    have "indeg c1 k = indeg c k"
      using a by (auto simp: ipset_node_cache_alloc_node_def indeg_def contrib_def split: list.splits)
    moreover have "indeg (c1\<lparr>nc_nodes := (nc_nodes c1)[i := ?x]\<rparr>) k = indeg d k" by (rule indeg_cong) (simp add: d_def)
    moreover have "contrib k (nd c1 i) = 0" "contrib k ?x = edges ?x k" using c1(11) by (simp_all add: contrib_def)
    ultimately show ?thesis using indeg_update [OF c1(2), of ?x k] by simp
  qed
  have e: "hold (hold B low) high k = B k + edges ?x k" for k by (simp add: hold_apply edges_def)
  have chlt: "k \<noteq> 2 * i" if "child_ok c y k" for y k using that ni by (auto simp: child_ok_def)
  have zero: "B (2 * i) = 0" "indeg c (2 * i) = 0"
  proof -
    show "B (2 * i) = 0"
    proof (cases "i < ?n")
      case True
      then show ?thesis using bdd_invD(8) [OF inv, of i] c1(6) e [of "2 * i"] by simp
    next
      case False
      then show ?thesis using bdd_invD(9) [OF inv, of i] e [of "2 * i"] by simp
    qed
    have "contrib (2 * i) (nd c j) = 0" if "j < ?n" for j
      using bdd_invD(6,7) [OF inv, of j] chlt that by (auto simp: contrib_def edges_def live_def)
    then show "indeg c (2 * i) = 0" unfolding indeg_def by (auto simp: sum_list_eq_0_iff in_set_conv_nth)
  qed
  have ex: "edges ?x (2 * i) = 0" using lh(2,3) chlt by (auto simp: edges_def)
  show "bdd_inv d (hold B (2 * i)) {}"
  proof (rule bdd_invI)
    show "distinct (nc_free_list d)" using c1(7) d(2) by simp
    show "set (nc_free_list d) \<union> {} \<subseteq> {..<length (nc_nodes d)}" using bdd_invD(2) [OF inv] c1(8) d(2) dl by auto
    show "rc d j = 0 \<longleftrightarrow> j \<in> set (nc_free_list d) \<union> {}" if "j < length (nc_nodes d)" for j
      using bdd_invD(4) [OF inv, of j] that dl [of j] dn [of j] d(2,4) c1(8) by (cases "j = i") auto
    show "nd_low (nd d j) \<noteq> nd_high (nd d j)" if "live d j" for j
      using bdd_invD(5) [OF inv, of j] that l [of j] dn [of j] d(4) lh(1) by (cases "j = i") (auto simp: live_def)
    show "child_ok d (nd_variable (nd d j)) (nd_low (nd d j))" if "live d j" for j
      using ch [OF bdd_invD(6) [OF inv, of j]] ch [OF lh(2)] that l [of j] dn [of j] d(4) by (cases "j = i") (auto simp: live_def)
    show "child_ok d (nd_variable (nd d j)) (nd_high (nd d j))" if "live d j" for j
      using ch [OF bdd_invD(7) [OF inv, of j]] ch [OF lh(3)] that l [of j] dn [of j] d(4) by (cases "j = i") (auto simp: live_def)
    show "rc d j = hold B (2 * i) (2 * j) + indeg d (2 * j)" if "j < length (nc_nodes d)" for j
      using bdd_invD(8) [OF inv, of j] e [of "2 * j"] that dl [of j] dn [of j] d(4) deg [of "2 * j"] zero ex
      by (cases "j = i") (auto simp: hold_apply)
    show "hold B (2 * i) (2 * j) = 0" if "length (nc_nodes d) \<le> j" for j
      using bdd_invD(9) [OF inv, of j] e [of "2 * j"] that dl [of j] by (auto simp: hold_apply not_less [symmetric])
    show "nc_table d q = Some node_id \<longleftrightarrow>
        (\<exists>j<length (nc_nodes d). j \<notin> set (nc_free_list d) \<and> node_id = 2 * j \<and> node_key (nd d j) = q)" for q node_id
    proof (cases "q = (x, low, high)")
      case True
      have "\<not> (j < ?n \<and> j \<notin> set (nc_free_list c) \<and> node_key (nd c j) = q)" for j
        using bdd_invD(10) [OF inv, of q "2 * j"] nt True by auto
      then have "j = i" if "j < length (nc_nodes d)" "j \<notin> set (nc_free_list d)" "node_key (nd d j) = q" for j
        using that dl [of j] dn [of j] d(2) c1(8) by (cases "j = i") auto
      moreover have "i \<notin> set (nc_free_list d)" "i < length (nc_nodes d)" "node_key (nd d i) = q"
        using c1(8) d(2,4) dl True by (auto simp: node_key_def)
      ultimately have "(\<exists>j<length (nc_nodes d). j \<notin> set (nc_free_list d) \<and> node_id = 2 * j \<and> node_key (nd d j) = q) \<longleftrightarrow> node_id = 2 * i"
        by blast
      then show ?thesis using True d(3) by auto
    next
      case False
      have "j < length (nc_nodes d) \<and> j \<notin> set (nc_free_list d) \<and> node_key (nd d j) = q \<longleftrightarrow>
          j < ?n \<and> j \<notin> set (nc_free_list c) \<and> node_key (nd c j) = q" for j
      proof (cases "j = i")
        case True
        have "i < ?n \<Longrightarrow> i \<in> set (nc_free_list c)" using bdd_invD(4) [OF inv, of i] c1(6) by auto
        then show ?thesis using True False d(4) by (auto simp: node_key_def)
      next
        case False
        then have "j < length (nc_nodes d) \<longleftrightarrow> j < ?n" "j \<in> set (nc_free_list d) \<longleftrightarrow> j \<in> set (nc_free_list c)"
          using dl [of j] d(2) c1(8) by simp_all
        then show ?thesis using dn [of j] False by auto
      qed
      then have "(\<exists>j<length (nc_nodes d). j \<notin> set (nc_free_list d) \<and> node_id = 2 * j \<and> node_key (nd d j) = q) \<longleftrightarrow>
          (\<exists>j<?n. j \<notin> set (nc_free_list c) \<and> node_id = 2 * j \<and> node_key (nd c j) = q)" by blast
      moreover have "nc_table d q = nc_table c q" using False d(3) by simp
      ultimately show ?thesis using bdd_invD(10) [OF inv, of q node_id] by simp
    qed
  qed simp_all
qed


lemma same_live_reps:
  assumes "stable c d" "\<And>i. live c i \<Longrightarrow> live d i" "reps c k t"
  shows "reps d k t"
  using assms(3)
proof (induction t arbitrary: k)
  case (Branch x l h)
  then have "live c (k div 2)" by simp
  then have "live d (k div 2)" "node_key (nd c (k div 2)) = node_key (nd d (k div 2))"
    using assms(1,2) by (auto simp: stable_def)
  with Branch show ?case by (simp add: node_key_def)
qed simp

lemma nonterminal_spec:
  assumes inv: "bdd_inv c (hold (hold B low) high) {}" and r: "reps c low l" "reps c high h"
    and o: "ordered (Suc x) l" "ordered (Suc x) h"
  shows "\<exists>k d t. ipset_node_cache_nonterminal c x low high = Some (k, d) \<and> bdd_inv d (hold B k) {} \<and> preserves B c d \<and>
    reps d k t \<and> ordered x t \<and> (\<forall>\<sigma>. eval \<sigma> t = (if \<sigma> x then eval \<sigma> h else eval \<sigma> l))"
proof (cases "low = high")
  case True
  obtain d where d: "ipset_node_decref c high = Some d" "bdd_inv d (hold B low) {}" "same_keys c d"
    using decref_held [OF inv r(2)] by blast
  have rd: "reps d low l" using held_reps [OF inv d(2) same_keys_stable [OF d(3)] r(1)] by (simp add: hold_apply)
  have "preserves B c d" by (rule stable_preserves [OF inv d(2)]) (auto simp: hold_apply same_keys_stable [OF d(3)])
  moreover have "eval \<sigma> l = eval \<sigma> h" for \<sigma>
  proof -
    have "l = h" using r True
    proof (induction l arbitrary: low high h)
      case (Leaf v)
      then show ?case by (cases h) auto
    next
      case (Branch x l1 l2)
      then show ?case by (cases h) auto
    qed
    then show ?thesis by simp
  qed
  ultimately show ?thesis using True d rd o(1) ordered_mono [OF o(1), of x]
    by (intro exI [of _ low] exI [of _ d] exI [of _ l]) (simp add: ipset_node_cache_nonterminal_def)
next
  case ne: False
  note ch = reps_child_ok [OF r(1) o(1)] reps_child_ok [OF r(2) o(2)]
  show ?thesis
  proof (cases "nc_table c (x, low, high)")
    case (Some k)
    obtain i where i: "i < length (nc_nodes c)" "i \<notin> set (nc_free_list c)" "k = 2 * i" "node_key (nd c i) = (x, low, high)"
      using bdd_invD(10) [OF inv, of "(x, low, high)" k] Some by auto
    have li: "live c i" using bdd_invD(4) [OF inv i(1)] i by (auto simp: live_def)
    have rk: "reps c k (Branch x l h)" using li i(3,4) r by (simp add: node_key_def)
    obtain c1 where c1: "ipset_node_incref c k = Some c1" "bdd_inv c1 (hold (hold (hold B low) high) k) {}" "stable c c1" "\<And>i. live c i \<longleftrightarrow> live c1 i"
      using incref_spec [OF inv, of k] li i(3) by auto
    have r1: "reps c1 k (Branch x l h)" "reps c1 low l" "reps c1 high h"
      using same_live_reps [OF c1(3)] c1(4) rk r by blast+
    have i1: "bdd_inv c1 (hold (hold (hold B k) high) low) {}" using c1(2) by (simp add: hold_commute)
    obtain c2 where c2: "ipset_node_decref c1 low = Some c2" "bdd_inv c2 (hold (hold B k) high) {}" "same_keys c1 c2"
      using decref_held [OF i1 r1(2)] by blast
    have r2: "reps c2 k (Branch x l h)" "reps c2 high h"
      using held_reps [OF i1 c2(2) same_keys_stable [OF c2(3)] r1(1)] held_reps [OF i1 c2(2) same_keys_stable [OF c2(3)] r1(3)]
      by (simp_all add: hold_apply del: reps.simps)
    obtain c3 where c3: "ipset_node_decref c2 high = Some c3" "bdd_inv c3 (hold B k) {}" "same_keys c2 c3"
      using decref_held [OF c2(2) r2(2)] by blast
    have r3: "reps c3 k (Branch x l h)"
      using held_reps [OF c2(2) c3(2) same_keys_stable [OF c3(3)] r2(1)] by (simp add: hold_apply del: reps.simps)
    have "preserves B c c1" by (rule stable_preserves [OF inv c1(2) _ _ c1(3)]) (auto simp: hold_apply)
    moreover have "preserves B c1 c2" by (rule stable_preserves [OF i1 c2(2)]) (auto simp: hold_apply same_keys_stable [OF c2(3)])
    moreover have "preserves B c2 c3" by (rule stable_preserves [OF c2(2) c3(2)]) (auto simp: hold_apply same_keys_stable [OF c3(3)])
    ultimately have "preserves B c c3" by (blast intro: preserves_trans)
    then show ?thesis using ne Some c1(1) c2(1) c3(1,2) r3 o
      by (intro exI [of _ k] exI [of _ c3] exI [of _ "Branch x l h"]) (simp add: ipset_node_cache_nonterminal_def del: reps.simps)
  next
    case None
    obtain i c1 where a: "ipset_node_cache_alloc_node c = (i, c1)" by (cases "ipset_node_cache_alloc_node c")
    define d where "d = c1\<lparr>nc_nodes := (nc_nodes c1)[i := \<lparr>nd_refcount = 1, nd_variable = x, nd_low = low, nd_high = high\<rparr>],
       nc_table := (nc_table c1)((x, low, high) \<mapsto> 2 * i)\<rparr>"
    note nn = new_node_inv [OF inv ne ch None a, folded d_def]
    have "reps d low l" "reps d high h" using same_live_reps [OF nn(2)] nn(3) r by blast+
    then have rd: "reps d (2 * i) (Branch x l h)" using nn(3,5) by simp
    have "ipset_node_cache_nonterminal c x low high = Some (2 * i, d)"
      using ne None a by (simp add: ipset_node_cache_nonterminal_def d_def set_node_def id_defs Let_def)
    moreover have "preserves B c d" by (rule stable_preserves [OF inv nn(1) _ _ nn(2)]) (auto simp: hold_apply)
    ultimately show ?thesis using nn(1) rd o
      by (intro exI [of _ "2 * i"] exI [of _ d] exI [of _ "Branch x l h"]) (simp del: reps.simps)
  qed
qed


section \<open>Insertion\<close>

lemma kept_hold: "kept c B k \<Longrightarrow> kept c (hold B j) k"
  by (erule kept_mono) (simp add: hold_apply)

lemma preserves_kept: "preserves B c d \<Longrightarrow> kept c B k \<Longrightarrow> kept d B k"
  by (simp add: preserves_def)

lemma kept_step:
  assumes "preserves B c d" "reps c k t" "odd k \<or> kept c B k"
  shows "reps d k t \<and> (odd k \<or> kept d (hold B j) k)"
  using assms preserves_reps preserves_kept kept_hold by blast

lemma preserves_mono:
  assumes "preserves B c d" "\<And>k. A k \<le> B k"
  shows "preserves A c d"
proof (unfold preserves_def, intro allI impI)
  fix k assume k: "kept c A k"
  have "kept c B k" using kept_mono [OF k assms(2)] .
  then have b: "live c (k div 2) \<and> live d (k div 2) \<and> node_key (nd c (k div 2)) = node_key (nd d (k div 2))"
    using assms(1) by (auto simp: preserves_def)
  have "kept d A k"
    using k
  proof (induction rule: kept.induct)
    case (kept_low k)
    have "node_key (nd c (k div 2)) = node_key (nd d (k div 2))"
      using kept_mono [OF kept_low.hyps(1) assms(2)] assms(1) by (auto simp: preserves_def)
    then show ?case using kept.kept_low [OF kept_low.IH] kept_low.hyps(2) by (simp add: node_key_def)
  next
    case (kept_high k)
    have "node_key (nd c (k div 2)) = node_key (nd d (k div 2))"
      using kept_mono [OF kept_high.hyps(1) assms(2)] assms(1) by (auto simp: preserves_def)
    then show ?case using kept.kept_high [OF kept_high.IH] kept_high.hyps(2) by (simp add: node_key_def)
  qed (auto intro: kept.kept_root)
  with b show "kept d A k \<and> live c (k div 2) \<and> live d (k div 2) \<and> node_key (nd c (k div 2)) = node_key (nd d (k div 2))" by blast
qed

text \<open>The result of a call on \<open>h\<close> with tree \<open>t\<close>.\<close>

definition ite_result ::
  "ipset_node_cache \<Rightarrow> (nat \<Rightarrow> nat) \<Rightarrow> nat \<Rightarrow> bdd \<Rightarrow> ((nat \<Rightarrow> bool) \<Rightarrow> nat) \<Rightarrow> (ipset_node_id \<times> ipset_node_cache) option \<Rightarrow> bool" where
  "ite_result c B cur t val r \<longleftrightarrow> (\<exists>k d t'. r = Some (k, d) \<and> bdd_inv d (hold B k) {} \<and> preserves B c d \<and> reps d k t' \<and>
     (\<forall>j\<le>cur. ordered j t \<longrightarrow> ordered j t') \<and> (\<forall>\<sigma>. eval \<sigma> t' = val \<sigma>))"

lemma ite_resultI:
  "r = Some (k, d) \<Longrightarrow> bdd_inv d (hold B k) {} \<Longrightarrow> preserves B c d \<Longrightarrow> reps d k t' \<Longrightarrow>
   (\<And>j. j \<le> cur \<Longrightarrow> ordered j t \<Longrightarrow> ordered j t') \<Longrightarrow> (\<And>\<sigma>. eval \<sigma> t' = val \<sigma>) \<Longrightarrow> ite_result c B cur t val r"
  by (auto simp: ite_result_def)

lemma ite_resultE:
  assumes "ite_result c B cur t val r"
  obtains k d t' where "r = Some (k, d)" "bdd_inv d (hold B k) {}" "preserves B c d" "reps d k t'"
    "\<And>j. j \<le> cur \<Longrightarrow> ordered j t \<Longrightarrow> ordered j t'" "\<And>\<sigma>. eval \<sigma> t' = val \<sigma>"
  using assms by (auto simp: ite_result_def)

text \<open>Two results combined by a node.\<close>

lemma combine:
  assumes inv: "bdd_inv c B {}" and hi: "ite_result c B (Suc x) t1 vh rh" and khi: "rh = Some (kh, c1)"
    and lo: "ite_result c1 (hold B kh) (Suc x) t0 vl rl" and klo: "rl = Some (kl, c2)"
    and o: "ordered (Suc x) t0" "ordered (Suc x) t1"
    and res: "\<And>j. j \<le> cur \<Longrightarrow> ordered j t \<Longrightarrow> j \<le> x"
  shows "ite_result c B cur t (\<lambda>\<sigma>. if \<sigma> x then vh \<sigma> else vl \<sigma>) (ipset_node_cache_nonterminal c2 x kl kh)"
proof -
  obtain t1' where h: "bdd_inv c1 (hold B kh) {}" "preserves B c c1" "reps c1 kh t1'" "ordered (Suc x) t1'" "\<And>\<sigma>. eval \<sigma> t1' = vh \<sigma>"
    using hi khi o(2) by (auto simp: ite_result_def)
  obtain t0' where l: "bdd_inv c2 (hold (hold B kh) kl) {}" "preserves (hold B kh) c1 c2" "reps c2 kl t0'" "ordered (Suc x) t0'" "\<And>\<sigma>. eval \<sigma> t0' = vl \<sigma>"
    using lo klo o(1) by (auto simp: ite_result_def)
  have h2: "reps c2 kh t1'"
    using preserves_reps [OF l(2) h(3)] kept.kept_root [of "hold B kh" kh c1] by (auto simp: hold_apply)
  have l': "bdd_inv c2 (hold (hold B kl) kh) {}" using l(1) by (simp add: hold_commute)
  obtain k d t' where n: "ipset_node_cache_nonterminal c2 x kl kh = Some (k, d)" "bdd_inv d (hold B k) {}" "preserves B c2 d"
      "reps d k t'" "ordered x t'" "\<And>\<sigma>. eval \<sigma> t' = (if \<sigma> x then eval \<sigma> t1' else eval \<sigma> t0')"
    using nonterminal_spec [OF l' l(3) h2 l(4) h(4)] by blast
  have "preserves B c1 c2"
    by (rule preserves_mono [OF l(2)]) (simp add: hold_apply)
  then have "preserves B c d" using h(2) n(3) by (blast intro: preserves_trans)
  then show ?thesis
    using n(6) h(5) l(5) res ordered_mono [OF n(5)] by (intro ite_resultI [OF n(1,2) _ n(4)]) auto
qed


lemma apply_fake:
  assumes "bdd_inv c B {}" "reps c h t" "odd h \<or> kept c B h"
  shows "ite_result c B cur t (\<lambda>\<sigma>. eval \<sigma> t) (ipset_apply_ite c (fake_terminal_0 n) g h)"
proof -
  have "odd h \<or> live c (h div 2)" using assms(2) by (cases t) auto
  then obtain d where d: "ipset_node_incref c h = Some d" "bdd_inv d (hold B h) {}" "stable c d" "\<And>i. live c i \<longleftrightarrow> live d i"
    using incref_spec [OF assms(1)] by blast
  have "preserves B c d" by (rule stable_preserves [OF assms(1) d(2) _ _ d(3)]) (simp_all add: hold_apply)
  moreover have "reps d h t" using same_live_reps [OF d(3) _ assms(2)] d(4) by blast
  moreover have "ipset_apply_ite c (fake_terminal_0 n) g h = Some (h, d)"
    using d(1) by (subst ipset_apply_ite.simps) (simp add: fake_terminal_0_def)
  ultimately show ?thesis using d(2) by (intro ite_resultI) auto
qed

lemma ite_result_mono: "ite_result c B cur t v r \<Longrightarrow> cur' \<le> cur \<Longrightarrow> ite_result c B cur' t v r"
proof -
  assume r: "ite_result c B cur t v r" and le: "cur' \<le> cur"
  from r obtain k d t' where k: "r = Some (k, d)" "bdd_inv d (hold B k) {}" "preserves B c d" "reps d k t'"
    "\<And>j. j \<le> cur \<Longrightarrow> ordered j t \<Longrightarrow> ordered j t'" "\<And>\<sigma>. eval \<sigma> t' = v \<sigma>" by (rule ite_resultE) blast
  then show ?thesis using le by (intro ite_resultI [OF k(1-4)]) auto
qed

lemma match_split: "cur < n \<Longrightarrow> (\<forall>y. cur \<le> y \<and> y < n \<longrightarrow> P y) \<longleftrightarrow> P cur \<and> (\<forall>y. Suc cur \<le> y \<and> y < n \<longrightarrow> P y)"
proof -
  assume n: "cur < n"
  have "cur \<le> y \<longleftrightarrow> y = cur \<or> Suc cur \<le> y" for y by linarith
  then show ?thesis using n by auto
qed

lemma terminal_hold: "bdd_inv c B P \<Longrightarrow> odd k \<Longrightarrow> bdd_inv c (hold B k) P"
  using bdd_inv_cong [of "hold B k" B c P] by (fastforce simp: hold_apply)

lemma preserves_refl: "bdd_inv c B P \<Longrightarrow> preserves B c c"
  by (rule stable_preserves) (auto simp: stable_def)

lemma apply_ite_spec:
  assumes "bdd_inv c B {}" "reps c h t" "odd h \<or> kept c B h" "fk_current_var f \<le> fk_var_count f" "fk_value f = 1"
  shows "ite_result c B (fk_current_var f) t
     (\<lambda>\<sigma>. if \<forall>y. fk_current_var f \<le> y \<and> y < fk_var_count f \<longrightarrow> \<sigma> y = fk_assignment f y then g else eval \<sigma> t) (ipset_apply_ite c f g h)"
  using assms
proof (induction "fk_var_count f - fk_current_var f + size t" arbitrary: c B h t f rule: less_induct)
  case less
  note inv = less.prems(1) and reps = less.prems(2) and keep = less.prems(3)
  let ?cur = "fk_current_var f" and ?n = "fk_var_count f" and ?a = "fk_assignment f"
  let ?M = "\<lambda>\<sigma>. \<forall>y. ?cur \<le> y \<and> y < ?n \<longrightarrow> \<sigma> y = ?a y"
  show ?case
  proof (cases "?cur = ?n \<or> h = 2 * g + 1")
    case True
    then have "ipset_apply_ite c f g h = Some (2 * g + 1, c)"
      using less.prems(5) by (subst ipset_apply_ite.simps) (auto simp: id_defs)
    moreover have "eval \<sigma> t = g" if "?cur \<noteq> ?n" for \<sigma> using True that reps by (cases t) auto
    ultimately show ?thesis using terminal_hold [OF inv, of "2 * g + 1"] preserves_refl [OF inv] True
      by (intro ite_resultI [of _ "2 * g + 1" c _ _ "Leaf g"]) auto
  next
    case F: False
    then have lt: "?cur < ?n" using less.prems(4) by simp
    show ?thesis
    proof (cases "even h \<and> nd_variable (nd c (h div 2)) < ?cur")
      case True
      define x where "x = nd_variable (nd c (h div 2))"
      let ?lo = "nd_low (nd c (h div 2))" and ?hi = "nd_high (nd c (h div 2))"
      obtain l hh where t: "t = Branch x l hh" "live c (h div 2)" "reps c ?lo l" "reps c ?hi hh"
        using reps True unfolding x_def by (cases rule: reps_cases) auto
      have kh: "kept c B h" using keep True by blast
      have ord: "ordered (Suc x) l" "ordered (Suc x) hh"
        using reps_ordered [OF inv t(3) bdd_invD(6) [OF inv t(2)]] reps_ordered [OF inv t(4) bdd_invD(7) [OF inv t(2)]] by (simp_all add: x_def)
      have sub: "odd ?lo \<or> kept c B ?lo" "odd ?hi \<or> kept c B ?hi" using kept_low [OF kh] kept_high [OF kh] by auto
      have r1: "ite_result c B ?cur hh (\<lambda>\<sigma>. if ?M \<sigma> then g else eval \<sigma> hh) (ipset_apply_ite c f g ?hi)"
        using t(1) by (intro less.hyps [OF _ inv t(4) sub(2) less.prems(4,5)]) simp
      then obtain k1 c1 where c1: "ipset_apply_ite c f g ?hi = Some (k1, c1)" "bdd_inv c1 (hold B k1) {}" "preserves B c c1"
        by (auto elim: ite_resultE)
      have n1: "live c1 (h div 2)" "nd_variable (nd c1 (h div 2)) = x" "nd_low (nd c1 (h div 2)) = ?lo"
        using c1(3) kh by (auto simp: preserves_def node_key_def x_def)
      note s1 = kept_step [OF c1(3) t(3) sub(1), of k1, THEN conjunct1] kept_step [OF c1(3) t(3) sub(1), of k1, THEN conjunct2]
      have r2: "ite_result c1 (hold B k1) ?cur l (\<lambda>\<sigma>. if ?M \<sigma> then g else eval \<sigma> l) (ipset_apply_ite c1 f g ?lo)"
        using t(1) by (intro less.hyps [OF _ c1(2) s1 less.prems(4,5)]) simp
      then obtain k2 c2 where c2: "ipset_apply_ite c1 f g ?lo = Some (k2, c2)" "preserves (hold B k1) c1 c2"
        by (auto elim: ite_resultE)
      have "kept c1 (hold B k1) h" using preserves_kept [OF c1(3) kh] kept_hold by blast
      then have n2: "live c2 (h div 2)" "nd_variable (nd c2 (h div 2)) = x"
        using c2(2) n1(2) by (auto simp: preserves_def node_key_def)
      have "ipset_apply_ite c f g h = ipset_node_cache_nonterminal c2 x k2 k1"
        using F True t(2) n1 n2 c1(1) c2(1)
        by (subst ipset_apply_ite.simps) (simp add: id_defs even_iff_mod_2_eq_zero x_def [symmetric])
      moreover have "ite_result c B ?cur t (\<lambda>\<sigma>. if \<sigma> x then if ?M \<sigma> then g else eval \<sigma> hh else if ?M \<sigma> then g else eval \<sigma> l)
          (ipset_node_cache_nonterminal c2 x k2 k1)"
        using True t(1) ord
        by (intro combine [OF inv ite_result_mono [OF r1] c1(1) ite_result_mono [OF r2] c2(1)]) (auto simp: x_def)
      moreover have "(\<lambda>\<sigma>. if \<sigma> x then if ?M \<sigma> then g else eval \<sigma> hh else if ?M \<sigma> then g else eval \<sigma> l) =
          (\<lambda>\<sigma>. if ?M \<sigma> then g else eval \<sigma> t)" using t(1) by (auto simp: fun_eq_iff)
      ultimately show ?thesis by simp
    next
      case False
      obtain lo hi l hh where sub: "reps c lo l" "reps c hi hh" "odd lo \<or> kept c B lo" "odd hi \<or> kept c B hi"
          "ordered (Suc ?cur) l" "ordered (Suc ?cur) hh" "size l \<le> size t" "size hh \<le> size t"
          "\<And>\<sigma>. eval \<sigma> t = (if \<sigma> ?cur then eval \<sigma> hh else eval \<sigma> l)"
        and lohi: "(lo, hi) = (if even h \<and> nd_variable (nd c (h div 2)) = ?cur
            then (nd_low (nd c (h div 2)), nd_high (nd c (h div 2))) else (h, h))"
      proof (cases "even h \<and> nd_variable (nd c (h div 2)) = ?cur")
        case True
        then obtain l hh where t: "t = Branch ?cur l hh" "live c (h div 2)" "reps c (nd_low (nd c (h div 2))) l" "reps c (nd_high (nd c (h div 2))) hh"
          using reps by (cases t) auto
        have kh: "kept c B h" using keep True by blast
        show thesis
          using True t kept_low [OF kh] kept_high [OF kh] reps_ordered [OF inv t(3) bdd_invD(6) [OF inv t(2)]]
            reps_ordered [OF inv t(4) bdd_invD(7) [OF inv t(2)]]
          by (intro that [of "nd_low (nd c (h div 2))" l "nd_high (nd c (h div 2))" hh]) auto
      next
        case nv: False
        have "ordered (Suc ?cur) t"
        proof (cases "odd h")
          case True
          then show ?thesis using reps by (cases t) auto
        next
          case ev: False
          then have "?cur < nd_variable (nd c (h div 2))" using nv False by auto
          then have "child_ok c ?cur h" using reps ev by (cases t) (auto simp: child_ok_def)
          then show ?thesis using reps_ordered [OF inv reps] by blast
        qed
        then show thesis using reps keep nv by (intro that [of h t h t]) auto
      qed
      have unf: "ipset_apply_ite c f g h =
         (if ?a ?cur
          then do {
            (k1, c1) \<leftarrow> ipset_apply_ite c (f\<lparr>fk_current_var := ?cur + 1\<rparr>) g hi;
            (k2, c2) \<leftarrow> ipset_apply_ite c1 (fake_terminal_0 ?n) g lo;
            ipset_node_cache_nonterminal c2 ?cur k2 k1 }
          else do {
            (k1, c1) \<leftarrow> ipset_apply_ite c (fake_terminal_0 ?n) g hi;
            (k2, c2) \<leftarrow> ipset_apply_ite c1 (f\<lparr>fk_current_var := ?cur + 1\<rparr>) g lo;
            ipset_node_cache_nonterminal c2 ?cur k2 k1 })"
      proof -
        have "?cur \<noteq> ?n" "h \<noteq> ipset_terminal_node_id g" using F by (auto simp: id_defs)
        show ?thesis
        proof (cases "even h")
          case True
          then have "live c (h div 2)" "\<not> nd_variable (nd c (h div 2)) < ?cur" using reps False by (cases t; auto)+
          then show ?thesis using True lohi \<open>?cur \<noteq> ?n\<close> \<open>h \<noteq> ipset_terminal_node_id g\<close>
            by (subst ipset_apply_ite.simps) (auto simp: id_defs even_iff_mod_2_eq_zero split: if_splits)
        next
          case od: False
          then have "lo = h" "hi = h" using lohi by simp_all
          then show ?thesis using od \<open>?cur \<noteq> ?n\<close> \<open>h \<noteq> ipset_terminal_node_id g\<close>
            by (subst ipset_apply_ite.simps) (simp add: id_defs odd_iff_mod_2_eq_one)
        qed
      qed
      let ?M' = "\<lambda>\<sigma>. \<forall>y. Suc ?cur \<le> y \<and> y < ?n \<longrightarrow> \<sigma> y = ?a y"
      let ?f = "f\<lparr>fk_current_var := ?cur + 1\<rparr>"
      have M: "?M \<sigma> \<longleftrightarrow> \<sigma> ?cur = ?a ?cur \<and> ?M' \<sigma>" for \<sigma> by (rule match_split [OF lt])
      show ?thesis
      proof (cases "?a ?cur")
        case True
        have r1: "ite_result c B (Suc ?cur) hh (\<lambda>\<sigma>. if ?M' \<sigma> then g else eval \<sigma> hh) (ipset_apply_ite c ?f g hi)"
          using less.hyps [of ?f hh c B hi] inv sub lt less.prems(5) by simp
        then obtain k1 c1 where c1: "ipset_apply_ite c ?f g hi = Some (k1, c1)" "bdd_inv c1 (hold B k1) {}" "preserves B c c1"
          by (auto elim: ite_resultE)
        have r2: "ite_result c1 (hold B k1) (Suc ?cur) l (\<lambda>\<sigma>. eval \<sigma> l) (ipset_apply_ite c1 (fake_terminal_0 ?n) g lo)"
          using kept_step [OF c1(3) sub(1,3), of k1] by (intro apply_fake [OF c1(2)]) auto
        then obtain k2 c2 where c2: "ipset_apply_ite c1 (fake_terminal_0 ?n) g lo = Some (k2, c2)" by (auto elim: ite_resultE)
        have "ite_result c B ?cur t (\<lambda>\<sigma>. if \<sigma> ?cur then if ?M' \<sigma> then g else eval \<sigma> hh else eval \<sigma> l)
            (ipset_node_cache_nonterminal c2 ?cur k2 k1)"
          by (rule combine [OF inv r1 c1(1) r2 c2 sub(5,6)])
        moreover have "(\<lambda>\<sigma>. if \<sigma> ?cur then if ?M' \<sigma> then g else eval \<sigma> hh else eval \<sigma> l) = (\<lambda>\<sigma>. if ?M \<sigma> then g else eval \<sigma> t)"
          unfolding fun_eq_iff M sub(9) using True by auto
        ultimately show ?thesis using unf True c1(1) c2 by simp
      next
        case False
        have r1: "ite_result c B (Suc ?cur) hh (\<lambda>\<sigma>. eval \<sigma> hh) (ipset_apply_ite c (fake_terminal_0 ?n) g hi)"
          by (rule apply_fake [OF inv sub(2,4)])
        then obtain k1 c1 where c1: "ipset_apply_ite c (fake_terminal_0 ?n) g hi = Some (k1, c1)" "bdd_inv c1 (hold B k1) {}" "preserves B c c1"
          by (auto elim: ite_resultE)
        have r2: "ite_result c1 (hold B k1) (Suc ?cur) l (\<lambda>\<sigma>. if ?M' \<sigma> then g else eval \<sigma> l) (ipset_apply_ite c1 ?f g lo)"
          using less.hyps [of ?f l c1 "hold B k1" lo] c1(2) kept_step [OF c1(3) sub(1,3), of k1] sub(7) lt less.prems(5) by simp
        then obtain k2 c2 where c2: "ipset_apply_ite c1 ?f g lo = Some (k2, c2)" by (auto elim: ite_resultE)
        have "ite_result c B ?cur t (\<lambda>\<sigma>. if \<sigma> ?cur then eval \<sigma> hh else if ?M' \<sigma> then g else eval \<sigma> l)
            (ipset_node_cache_nonterminal c2 ?cur k2 k1)"
          by (rule combine [OF inv r1 c1(1) r2 c2 sub(5,6)])
        moreover have "(\<lambda>\<sigma>. if \<sigma> ?cur then eval \<sigma> hh else if ?M' \<sigma> then g else eval \<sigma> l) = (\<lambda>\<sigma>. if ?M \<sigma> then g else eval \<sigma> t)"
          unfolding fun_eq_iff M sub(9) using False by auto
        ultimately show ?thesis using unf False c1(1) c2 by simp
      qed
    qed
  qed
qed


section \<open>Canonicity\<close>

lemma eval_independent: "ordered (Suc x) t \<Longrightarrow> eval (\<sigma>(x := b)) t = eval \<sigma> t"
proof (induction t)
  case (Branch y l h)
  then have "ordered (Suc x) l" "ordered (Suc x) h" "x \<noteq> y" by (auto intro: ordered_mono)
  with Branch show ?case by simp
qed simp

text \<open>A reduced, ordered tree is determined by the function it computes.\<close>

primrec reduced :: "bdd \<Rightarrow> bool" where
  "reduced (Leaf v) \<longleftrightarrow> True"
| "reduced (Branch x l h) \<longleftrightarrow> l \<noteq> h \<and> reduced l \<and> reduced h"

lemma branch_cofactors:
  assumes "ordered x (Branch x l h)"
  shows "eval \<sigma> l = eval (\<sigma>(x := False)) (Branch x l h)" "eval \<sigma> h = eval (\<sigma>(x := True)) (Branch x l h)"
  using assms by (simp_all add: eval_independent)

lemma eval_inject:
  assumes "reduced t" "reduced t'" "ordered m t" "ordered m' t'" "\<And>\<sigma>. eval \<sigma> t = eval \<sigma> t'"
  shows "t = t'"
  using assms
proof (induction "size t + size t'" arbitrary: t t' m m' rule: less_induct)
  case less
  have redundant: False if u: "u = Branch x l h" "reduced u" "ordered k u" "size u \<le> size t + size t'"
    and ind: "\<And>\<sigma> b. eval (\<sigma>(x := b)) u = eval \<sigma> u" for u x l h k
  proof -
    have "ordered x (Branch x l h)" using u by simp
    then have "eval \<sigma> l = eval \<sigma> h" for \<sigma> using branch_cofactors [of x l h \<sigma>] by (simp only: ind [unfolded u(1)])
    then have "l = h" using u by (intro less.hyps [of l h "Suc x" "Suc x"]) simp_all
    then show False using u(1,2) by simp
  qed
  have free: "eval (\<sigma>(x := b)) u = eval \<sigma> u" if "\<And>\<sigma>. eval \<sigma> u = eval \<sigma> w" "ordered (Suc x) w" for u w x \<sigma> b
    by (simp only: that(1) eval_independent [OF that(2)])
  show ?case
  proof (cases t)
    case t: (Leaf v)
    then show ?thesis
    proof (cases t')
      case (Branch y l h)
      then show ?thesis using redundant [OF Branch less.prems(2,4)] free [of t' t y] less.prems(5) t by simp
    qed (use less.prems(5) t in simp)
  next
    case t: (Branch x l h)
    show ?thesis
    proof (cases t')
      case (Leaf w)
      then show ?thesis using redundant [OF t less.prems(1,3)] free [of t t' x] less.prems(5) by simp
    next
      case t': (Branch y l' h')
      have o: "ordered x t" "ordered y t'" using less.prems(3,4) t t' by simp_all
      consider "x < y" | "y < x" | "x = y" by linarith
      then show ?thesis
      proof cases
        case 1
        then show ?thesis using redundant [OF t less.prems(1,3)] free [of t t' x] less.prems(5) ordered_mono [OF o(2), of "Suc x"] by simp
      next
        case 2
        then show ?thesis using redundant [OF t' less.prems(2,4)] free [of t' t y] less.prems(5) ordered_mono [OF o(1), of "Suc y"] by simp
      next
        case 3
        have e: "eval \<sigma> l = eval \<sigma> l'" "eval \<sigma> h = eval \<sigma> h'" for \<sigma>
          using branch_cofactors [OF o(1) [unfolded t], of \<sigma>] branch_cofactors [OF o(2) [unfolded t'], of \<sigma>]
          by (simp_all only: less.prems(5) [unfolded t t' 3] 3)
        have "l = l'" using less.prems(1-4) t t' e(1) by (intro less.hyps [of l l' "Suc x" "Suc y"]) simp_all
        moreover have "h = h'" using less.prems(1-4) t t' e(2) by (intro less.hyps [of h h' "Suc x" "Suc y"]) simp_all
        ultimately show ?thesis using t t' 3 by simp
      qed
    qed
  qed
qed

text \<open>The table shares equal nodes, so the ids of one store that stand for the same tree are equal.\<close>

lemma live_in_table: "bdd_inv c R {} \<Longrightarrow> live c m \<Longrightarrow> nc_table c (node_key (nd c m)) = Some (2 * m)"
  by (frule bdd_invD(4) [of c R "{}" m], simp add: live_def, subst bdd_invD(10), assumption) (auto simp: live_def)

lemma reps_inject:
  assumes "bdd_inv c R {}"
  shows "reps c k t \<Longrightarrow> reps c j t \<Longrightarrow> k = j"
proof (induction t arbitrary: k j)
  case (Branch x l h)
  then have "nd_low (nd c (k div 2)) = nd_low (nd c (j div 2))" "nd_high (nd c (k div 2)) = nd_high (nd c (j div 2))"
    by auto
  then have key: "node_key (nd c (k div 2)) = node_key (nd c (j div 2))" using Branch.prems by (simp add: node_key_def)
  have "live c (k div 2)" "live c (j div 2)" "even k" "even j" using Branch.prems by simp_all
  then have "Some (2 * (k div 2)) = Some (2 * (j div 2))" using live_in_table [OF assms] key by metis
  then show ?case using \<open>even k\<close> \<open>even j\<close> by simp
qed simp

lemma reps_reduced:
  assumes "bdd_inv c R {}"
  shows "reps c k t \<Longrightarrow> reduced t"
proof (induction t arbitrary: k)
  case (Branch x l h)
  then have "nd_low (nd c (k div 2)) \<noteq> nd_high (nd c (k div 2))" using bdd_invD(5) [OF assms, of "k div 2"] by simp
  then have "l \<noteq> h" using reps_inject [OF assms, of "nd_low (nd c (k div 2))" l] Branch.prems by auto
  then show ?case using Branch by auto
qed simp

lemma reps_some_ordered:
  assumes "bdd_inv c R P"
  shows "reps c k t \<Longrightarrow> ordered 0 t"
proof (cases t)
  case (Branch x l h)
  moreover assume "reps c k t"
  ultimately have "ordered (Suc x) l" "ordered (Suc x) h"
    using bdd_invD(6,7) [OF assms, of "k div 2"] reps_ordered [OF assms, of _ l x] reps_ordered [OF assms, of _ h x] by auto
  then show ?thesis using Branch by simp
qed simp

lemma canonical_tree:
  assumes "bdd_inv c R {}" "reps c k t" "bdd_inv d S {}" "reps d j t'"
  shows "(\<forall>\<sigma>. eval \<sigma> t = eval \<sigma> t') \<longleftrightarrow> t = t'"
  using eval_inject [OF reps_reduced [OF assms(1,2)] reps_reduced [OF assms(3,4)] reps_some_ordered [OF assms(1,2)] reps_some_ordered [OF assms(3,4)]]
  by blast

text \<open>Two ids of one store that stand for the same function are equal.\<close>

lemma canonical:
  assumes "bdd_inv c R {}" "reps c k t" "reps c j t'" "\<And>\<sigma>. eval \<sigma> t = eval \<sigma> t'"
  shows "k = j"
  using canonical_tree [OF assms(1,2,1,3)] assms(4) reps_inject [OF assms(1)] assms(2,3) by blast

section \<open>Sets\<close>

lemma evaluate_spec: "reps c k t \<Longrightarrow> ipset_node_evaluate c k \<sigma> = Some (eval \<sigma> t)"
proof (induction t arbitrary: k)
  case (Leaf v)
  then show ?case by (subst ipset_node_evaluate.simps) (simp add: id_defs)
next
  case (Branch x l h)
  then show ?case by (subst ipset_node_evaluate.simps) (simp add: id_defs even_iff_mod_2_eq_zero)
qed

definition set_ok :: "ip_set \<Rightarrow> bool" where
  "set_ok s \<longleftrightarrow> bdd_inv (is_cache s) (hold (\<lambda>_. 0) (is_bdd s)) {} \<and> (\<exists>t. reps (is_cache s) (is_bdd s) t)"

lemma set_ok_evaluate: "set_ok s \<Longrightarrow> \<exists>v. ipset_node_evaluate (is_cache s) (is_bdd s) \<sigma> = Some v"
  by (auto simp: set_ok_def evaluate_spec)

lemma init_ok: "set_ok ipset_init" "ipset_node_evaluate (is_cache ipset_init) (is_bdd ipset_init) \<sigma> = Some 0"
proof -
  have r: "reps (is_cache ipset_init) (is_bdd ipset_init) (Leaf 0)" by (simp add: ipset_init_def id_defs)
  then show "ipset_node_evaluate (is_cache ipset_init) (is_bdd ipset_init) \<sigma> = Some 0"
    using evaluate_spec [OF r] by (simp only: eval.simps)
  have "bdd_inv ipset_node_cache_new (hold (\<lambda>_. 0) (ipset_terminal_node_id 0)) {}"
    by (rule bdd_invI) (auto simp: ipset_node_cache_new_def live_def hold_apply id_defs)
  then show "set_ok ipset_init" unfolding set_ok_def using r
    by (intro conjI exI [of _ "Leaf 0"]) (simp_all add: ipset_init_def del: reps.simps)
qed

lemma update_ok:
  assumes "set_ok s"
  shows "\<exists>r s'. ip_update disc s elem n v = Some (r, s') \<and> set_ok s' \<and>
    (r \<longleftrightarrow> (\<forall>\<sigma>. ipset_node_evaluate (is_cache s') (is_bdd s') \<sigma> = ipset_node_evaluate (is_cache s) (is_bdd s) \<sigma>)) \<and>
    (\<forall>\<sigma>. ipset_node_evaluate (is_cache s') (is_bdd s') \<sigma> =
      (if \<forall>y<n. \<sigma> y = ip_assignment disc elem y then Some v else ipset_node_evaluate (is_cache s) (is_bdd s) \<sigma>))"
proof -
  let ?c = "is_cache s" and ?k = "is_bdd s"
  let ?f = "\<lparr>fk_current_var = 0, fk_var_count = n, fk_assignment = ip_assignment disc elem, fk_value = 1\<rparr>"
  obtain t where t: "bdd_inv ?c (hold (\<lambda>_. 0) ?k) {}" "reps ?c ?k t" using assms by (auto simp: set_ok_def)
  have kk: "odd ?k \<or> kept ?c (hold (\<lambda>_. 0) ?k) ?k" by (auto intro: kept.kept_root simp: hold_apply)
  have "ite_result ?c (hold (\<lambda>_. 0) ?k) 0 t
     (\<lambda>\<sigma>. if \<forall>y. 0 \<le> y \<and> y < n \<longrightarrow> \<sigma> y = ip_assignment disc elem y then v else eval \<sigma> t) (ipset_apply_ite ?c ?f v ?k)"
    using apply_ite_spec [OF t kk, of ?f v] by simp
  then obtain k d t' where r: "ipset_apply_ite ?c ?f v ?k = Some (k, d)" "bdd_inv d (hold (hold (\<lambda>_. 0) ?k) k) {}"
      "preserves (hold (\<lambda>_. 0) ?k) ?c d" "reps d k t'"
      "\<And>\<sigma>. eval \<sigma> t' = (if \<forall>y<n. \<sigma> y = ip_assignment disc elem y then v else eval \<sigma> t)"
    by (elim ite_resultE) simp
  have i: "bdd_inv d (hold (hold (\<lambda>_. 0) k) ?k) {}" using r(2) by (simp add: hold_commute)
  have rd: "reps d ?k t" by (rule preserves_reps [OF r(3) t(2) kk])
  then obtain e where e: "ipset_node_decref d ?k = Some e" "bdd_inv e (hold (\<lambda>_. 0) k) {}" "same_keys d e"
    using decref_held [OF i] by blast
  have re: "reps e k t'" using held_reps [OF r(2) e(2) same_keys_stable [OF e(3)] r(4)] by (simp add: hold_apply)
  let ?s = "s\<lparr>is_cache := e, is_bdd := k\<rparr>"
  have "ip_update disc s elem n v = Some (k = ?k, ?s)"
    using r(1) e(1) by (simp add: ip_update_def ipset_node_insert_def Let_def)
  moreover have "set_ok ?s" using e(2) re by (auto simp: set_ok_def)
  moreover have "ipset_node_evaluate (is_cache ?s) (is_bdd ?s) \<sigma> =
      (if \<forall>y<n. \<sigma> y = ip_assignment disc elem y then Some v else ipset_node_evaluate ?c ?k \<sigma>)" for \<sigma>
    using evaluate_spec [OF re, of \<sigma>] evaluate_spec [OF t(2), of \<sigma>] r(5) by auto
  moreover have "k = ?k \<longleftrightarrow> (\<forall>\<sigma>. ipset_node_evaluate (is_cache ?s) (is_bdd ?s) \<sigma> = ipset_node_evaluate ?c ?k \<sigma>)"
  proof
    assume "k = ?k"
    then have "Some (eval \<sigma> t') = Some (eval \<sigma> t)" for \<sigma> using evaluate_spec [OF r(4)] evaluate_spec [OF rd] by metis
    then show "\<forall>\<sigma>. ipset_node_evaluate (is_cache ?s) (is_bdd ?s) \<sigma> = ipset_node_evaluate ?c ?k \<sigma>"
      using evaluate_spec [OF re] evaluate_spec [OF t(2)] by simp
  next
    assume a: "\<forall>\<sigma>. ipset_node_evaluate (is_cache ?s) (is_bdd ?s) \<sigma> = ipset_node_evaluate ?c ?k \<sigma>"
    have "eval \<sigma> t' = eval \<sigma> t" for \<sigma> using a [rule_format, of \<sigma>] evaluate_spec [OF re, of \<sigma>] evaluate_spec [OF t(2), of \<sigma>] by simp
    then show "k = ?k" using canonical [OF r(2,4) rd] by blast
  qed
  ultimately show ?thesis by blast
qed

text \<open>When \<open>ipset_done\<close> releases the store, it has no live node left.\<close>

lemma done_frees_all:
  assumes "set_ok s"
  shows "\<exists>d. ipset_node_decref (is_cache s) (is_bdd s) = Some d \<and> ipset_done s = Some (ipset_node_cache_free d) \<and>
    (\<forall>i<length (nc_nodes d). i \<in> set (nc_free_list d) \<and> rc d i = 0)"
proof -
  obtain t where t: "bdd_inv (is_cache s) (hold (\<lambda>_. 0) (is_bdd s)) {}" "reps (is_cache s) (is_bdd s) t" using assms by (auto simp: set_ok_def)
  obtain d where d: "ipset_node_decref (is_cache s) (is_bdd s) = Some d" "bdd_inv d (\<lambda>_. 0) {}" using decref_held [OF t] by blast
  have "\<not> live d i" for i
  proof
    assume i: "live d i"
    let ?L = "{j. live d j}"
    have fin: "finite ?L" by (rule finite_subset [of _ "{..<length (nc_nodes d)}"]) (auto simp: live_def)
    obtain j where j: "j \<in> ?L" "\<forall>m\<in>?L. nd_variable (nd d j) \<le> nd_variable (nd d m)"
      using arg_min_if_finite [OF fin, of "\<lambda>j. nd_variable (nd d j)"] i by (metis empty_iff mem_Collect_eq not_less)
    have "contrib (2 * j) (nd d m) = 0" if "m < length (nc_nodes d)" for m
    proof (rule ccontr)
      assume "contrib (2 * j) (nd d m) \<noteq> 0"
      then have m: "live d m" "nd_low (nd d m) = 2 * j \<or> nd_high (nd d m) = 2 * j"
        using that by (auto simp: contrib_def edges_def live_def split: if_splits)
      then have "nd_variable (nd d m) < nd_variable (nd d j)"
        using bdd_invD(6,7) [OF d(2) m(1)] by (auto simp: child_ok_def)
      then show False using j m(1) by auto
    qed
    then have "indeg d (2 * j) = 0" unfolding indeg_def by (auto simp: sum_list_eq_0_iff in_set_conv_nth)
    then show False using bdd_invD(8) [OF d(2), of j] j(1) by (simp add: live_def)
  qed
  then have "rc d i = 0" if "i < length (nc_nodes d)" for i using that by (auto simp: live_def)
  then show ?thesis using d(1) bdd_invD(4) [OF d(2)] by (auto simp: ipset_done_def)
qed

section \<open>Addresses and networks\<close>

lemma IPSET_BIT_GET_bit: "IPSET_BIT_GET a i \<longleftrightarrow> bit (a ! (i div 8)) (7 - i mod 8)"
proof -
  have m: "(drop_bit n 0x80 :: byte) = push_bit (7 - n) 1" if "n < 8" for n
  proof -
    from that have "n \<in> {0,1,2,3,4,5,6,7}" by auto
    then show ?thesis by (elim insertE emptyE) (simp_all add: drop_bit_eq_div push_bit_eq_mult)
  qed
  show ?thesis unfolding IPSET_BIT_GET_def
    by (subst m) (simp_all add: push_bit_of_1 and_exp_eq_0_iff_not_bit)
qed

text \<open>The bits of an address determine it.\<close>

lemma addr_eqI:
  assumes "length a = length b" "\<And>i. i < 8 * length a \<Longrightarrow> IPSET_BIT_GET a i = IPSET_BIT_GET b i"
  shows "a = b"
proof (rule nth_equalityI [OF assms(1)], rule bit_word_eqI)
  fix j n assume j: "j < length a" and "n < LENGTH(8)"
  then have n: "n < 8" by simp
  define i where "i = 8 * j + (7 - n)"
  have "i div 8 = j" "i mod 8 = 7 - n" "i < 8 * length a"
    unfolding i_def using n j by (simp_all del: add_diff_assoc add_diff_assoc2)
  moreover from this n have "7 - i mod 8 = n" by simp
  ultimately show "bit (a ! j) n = bit (b ! j) n" using assms(2) [of i] by (simp add: IPSET_BIT_GET_bit)
qed

text \<open>The addresses that share the first \<open>n\<close> bits of \<open>e\<close>.\<close>

definition network :: "bytes \<Rightarrow> nat \<Rightarrow> bytes set" where
  "network e n = {a. length a = length e \<and> (\<forall>i<n. IPSET_BIT_GET a i = IPSET_BIT_GET e i)}"

lemma network_host: "network e (8 * length e) = {e}"
  by (auto simp: network_def intro: addr_eqI)

lemma network_full: "n = 8 * length e \<Longrightarrow> network e n = {e}"
  by (simp add: network_host)

lemma network_all: "network e 0 = {a. length a = length e}"
  by (simp add: network_def)

lemma assignment_match: "length a = length e \<Longrightarrow>
  (\<forall>y<n + 1. ip_assignment d a y = ip_assignment d e y) \<longleftrightarrow> a \<in> network e n"
  by (auto simp: network_def ip_assignment_def All_less_Suc2)

lemma assignment_other: "d \<noteq> d' \<Longrightarrow> \<not> (\<forall>y<n + 1. ip_assignment d a y = ip_assignment d' e y)"
  by (auto simp: ip_assignment_def intro!: exI [of _ 0])

section \<open>The contract of an address set\<close>

text \<open>What the access control relies on: adding a network or an address and removing an address return, keep
  the set well-formed and change membership of exactly the addresses meant; the result tells whether anything changed.\<close>

locale address_set =
  fixes width :: nat
    and ok :: "'s \<Rightarrow> bool"
    and empty :: 's
    and member :: "'s \<Rightarrow> bytes \<Rightarrow> bool option"
    and add_network :: "'s \<Rightarrow> bytes \<Rightarrow> nat \<Rightarrow> (bool \<times> 's) option"
    and add :: "'s \<Rightarrow> bytes \<Rightarrow> (bool \<times> 's) option"
    and remove :: "'s \<Rightarrow> bytes \<Rightarrow> (bool \<times> 's) option"
  assumes ok_empty: "ok empty"
    and member_empty: "member empty a = Some False"
    and member_total: "ok s \<Longrightarrow> \<exists>v. member s a = Some v"
    and add_network_law: "ok s \<Longrightarrow> length e = width \<Longrightarrow> n \<le> 8 * width \<Longrightarrow>
      \<exists>r s'. add_network s e n = Some (r, s') \<and> ok s' \<and>
        (\<forall>a. length a = width \<longrightarrow> member s' a = (if a \<in> network e n then Some True else member s a))"
    and add_network_long: "8 * width < n \<Longrightarrow> add_network s e n = Some (False, s)"
    and add_law: "length e = width \<Longrightarrow> add s e = add_network s e (8 * width)"
    and remove_law: "ok s \<Longrightarrow> length e = width \<Longrightarrow>
      \<exists>r s'. remove s e = Some (r, s') \<and> ok s' \<and>
        (\<forall>a. length a = width \<longrightarrow> member s' a = (if a = e then Some False else member s a))"
begin

definition holds :: "'s \<Rightarrow> bytes set \<Rightarrow> bool" where
  "holds s S \<longleftrightarrow> ok s \<and> S \<subseteq> {a. length a = width} \<and> (\<forall>a. length a = width \<longrightarrow> member s a = Some (a \<in> S))"

lemma holds_empty: "holds empty {}"
  by (simp add: holds_def ok_empty member_empty)

lemma holds_member: "holds s S \<Longrightarrow> length a = width \<Longrightarrow> member s a = Some (a \<in> S)"
  by (simp add: holds_def)

lemma holds_unique: "holds s S \<Longrightarrow> holds s T \<Longrightarrow> S = T"
  unfolding holds_def by (metis (mono_tags, lifting) option.inject subset_antisym subsetI subsetD mem_Collect_eq)

lemma holds_add_network:
  assumes "holds s S" "length e = width"
  shows "\<exists>r s'. add_network s e n = Some (r, s') \<and> holds s' (if n \<le> 8 * width then S \<union> network e n else S)"
proof (cases "n \<le> 8 * width")
  case True
  with add_network_law [of s e n] assms obtain r s' where "add_network s e n = Some (r, s')" "ok s'"
    "\<forall>a. length a = width \<longrightarrow> member s' a = (if a \<in> network e n then Some True else member s a)"
    by (auto simp: holds_def)
  moreover have "network e n \<subseteq> {a. length a = width}" using assms(2) by (auto simp: network_def)
  ultimately show ?thesis using True assms by (auto simp: holds_def)
next
  case False
  then show ?thesis using add_network_long [of n s e] assms(1) by (intro exI [of _ False] exI [of _ s]) simp
qed

lemma holds_add:
  assumes "holds s S" "length e = width"
  shows "\<exists>r s'. add s e = Some (r, s') \<and> holds s' (insert e S)"
  using holds_add_network [OF assms, of "8 * width"] add_law [OF assms(2)] network_host [of e] assms(2) by simp

lemma holds_remove:
  assumes "holds s S" "length e = width"
  shows "\<exists>r s'. remove s e = Some (r, s') \<and> holds s' (S - {e})"
proof -
  obtain r s' where "remove s e = Some (r, s')" "ok s'"
    "\<forall>a. length a = width \<longrightarrow> member s' a = (if a = e then Some False else member s a)"
    using remove_law [of s e] assms by (auto simp: holds_def)
  then show ?thesis using assms by (auto simp: holds_def)
qed

end

text \<open>Membership is read off the diagram.\<close>

lemma contains_eq: "ip_contains d s a = map_option (\<lambda>v. v \<noteq> 0) (ipset_node_evaluate (is_cache s) (is_bdd s) (ip_assignment d a))"
  by (cases "ipset_node_evaluate (is_cache s) (is_bdd s) (ip_assignment d a)") (simp_all add: ip_contains_def)

lemma contains_total: "set_ok s \<Longrightarrow> \<exists>v. ip_contains d s a = Some v"
  using set_ok_evaluate [of s "ip_assignment d a"] by (auto simp: contains_eq)

lemma contains_init: "ip_contains d ipset_init a = Some False"
  by (simp add: contains_eq init_ok(2))

lemma update_contains:
  assumes "set_ok s"
  obtains r s' where "ip_update d s e (n + 1) v = Some (r, s')" "set_ok s'"
    "\<And>a. length a = length e \<Longrightarrow> ip_contains d s' a = (if a \<in> network e n then Some (v \<noteq> 0) else ip_contains d s a)"
    "\<And>d' a. d' \<noteq> d \<Longrightarrow> ip_contains d' s' a = ip_contains d' s a"
    "\<And>d' a. r \<Longrightarrow> ip_contains d' s' a = ip_contains d' s a"
proof -
  from update_ok [OF assms, of d e "n + 1" v] obtain r s' where u: "ip_update d s e (n + 1) v = Some (r, s')" "set_ok s'"
    "r \<longleftrightarrow> (\<forall>\<sigma>. ipset_node_evaluate (is_cache s') (is_bdd s') \<sigma> = ipset_node_evaluate (is_cache s) (is_bdd s) \<sigma>)"
    "\<And>\<sigma>. ipset_node_evaluate (is_cache s') (is_bdd s') \<sigma> =
      (if \<forall>y<n + 1. \<sigma> y = ip_assignment d e y then Some v else ipset_node_evaluate (is_cache s) (is_bdd s) \<sigma>)" by blast
  show thesis
  proof (rule that [OF u(1,2)])
    show "ip_contains d s' a = (if a \<in> network e n then Some (v \<noteq> 0) else ip_contains d s a)" if "length a = length e" for a
      unfolding contains_eq u(4) assignment_match [OF that] by simp
    show "ip_contains d' s' a = ip_contains d' s a" if "d' \<noteq> d" for d' a
      unfolding contains_eq u(4) if_not_P [OF assignment_other [OF that]] ..
    show "r \<Longrightarrow> ip_contains d' s' a = ip_contains d' s a" for d' a
      using u(3) unfolding contains_eq by simp
  qed
qed

text \<open>The two instances of the template keep the contract.\<close>

lemma add_network_contains:
  assumes "set_ok s" "length e = w" "n \<le> 8 * w"
  shows "\<exists>r s'. ip_add_network (8 * w) d s e n = Some (r, s') \<and> set_ok s' \<and>
    (\<forall>a. length a = w \<longrightarrow> ip_contains d s' a = (if a \<in> network e n then Some True else ip_contains d s a))"
  by (rule update_contains [OF assms(1), of d e n 1]) (use assms(2,3) in \<open>simp add: ip_add_network_def\<close>)

lemma remove_contains:
  assumes "set_ok s" "length e = w"
  shows "\<exists>r s'. ip_remove (8 * w) d s e = Some (r, s') \<and> set_ok s' \<and>
    (\<forall>a. length a = w \<longrightarrow> ip_contains d s' a = (if a = e then Some False else ip_contains d s a))"
  by (rule update_contains [OF assms(1), of d e "8 * w" 0]) (use assms(2) network_host [of e] in \<open>simp add: ip_remove_def\<close>)

lemmas ip_instance_defs = ipset_contains_ipv4_def ipset_ipv4_add_def ipset_ipv4_remove_def ipset_ipv4_add_network_def
  ipset_contains_ipv6_def ipset_ipv6_add_def ipset_ipv6_remove_def ipset_ipv6_add_network_def

lemma template_contract:
  "address_set w set_ok ipset_init (ip_contains d) (ip_add_network (8 * w) d) (ip_add (8 * w) d) (ip_remove (8 * w) d)"
proof
  show "set_ok s \<Longrightarrow> length e = w \<Longrightarrow> n \<le> 8 * w \<Longrightarrow>
      \<exists>r s'. ip_add_network (8 * w) d s e n = Some (r, s') \<and> set_ok s' \<and>
        (\<forall>a. length a = w \<longrightarrow> ip_contains d s' a = (if a \<in> network e n then Some True else ip_contains d s a))" for s e n
    by (rule add_network_contains)
  show "set_ok s \<Longrightarrow> length e = w \<Longrightarrow>
      \<exists>r s'. ip_remove (8 * w) d s e = Some (r, s') \<and> set_ok s' \<and>
        (\<forall>a. length a = w \<longrightarrow> ip_contains d s' a = (if a = e then Some False else ip_contains d s a))" for s e
    by (rule remove_contains)
qed (simp_all add: contains_total contains_init init_ok ip_add_def ip_add_network_def)

interpretation v4: address_set 4 set_ok ipset_init ipset_contains_ipv4 ipset_ipv4_add_network ipset_ipv4_add ipset_ipv4_remove
  using template_contract [of 4 True] by (simp add: ip_instance_defs)

interpretation v6: address_set 16 set_ok ipset_init ipset_contains_ipv6 ipset_ipv6_add_network ipset_ipv6_add ipset_ipv6_remove
  using template_contract [of 16 False] by (simp add: ip_instance_defs)

section \<open>Sequences of operations\<close>

datatype set_op = Add cork_ip | Add_network cork_ip nat | Remove cork_ip | Remove_network cork_ip nat

fun apply_op :: "ip_set \<Rightarrow> set_op \<Rightarrow> (bool \<times> ip_set) option" where
  "apply_op s (Add ip) = ipset_ip_add s ip"
| "apply_op s (Add_network ip n) = ipset_ip_add_network s ip n"
| "apply_op s (Remove ip) = ipset_ip_remove s ip"
| "apply_op s (Remove_network ip n) = ipset_ip_remove_network s ip n"

fun run_ops :: "ip_set \<Rightarrow> set_op list \<Rightarrow> ip_set option" where
  "run_ops s [] = Some s"
| "run_ops s (x # xs) = do { (r, s) \<leftarrow> apply_op s x; run_ops s xs }"

text \<open>The specification: what an operation does to a set of addresses.\<close>

fun ip_bits :: "cork_ip \<Rightarrow> nat" where
  "ip_bits (V4 a) = 32"
| "ip_bits (V6 a) = 128"

fun ip_network :: "cork_ip \<Rightarrow> nat \<Rightarrow> cork_ip set" where
  "ip_network (V4 a) n = (if n \<le> 32 then V4 ` network a n else {})"
| "ip_network (V6 a) n = (if n \<le> 128 then V6 ` network a n else {})"

fun spec_op :: "cork_ip set \<Rightarrow> set_op \<Rightarrow> cork_ip set" where
  "spec_op S (Add ip) = S \<union> {ip}"
| "spec_op S (Add_network ip n) = S \<union> ip_network ip n"
| "spec_op S (Remove ip) = S - {ip}"
| "spec_op S (Remove_network ip n) = S - ip_network ip n"

fun op_addr :: "set_op \<Rightarrow> cork_ip" where
  "op_addr (Add ip) = ip" | "op_addr (Add_network ip n) = ip" | "op_addr (Remove ip) = ip" | "op_addr (Remove_network ip n) = ip"

definition set_holds :: "ip_set \<Rightarrow> cork_ip set \<Rightarrow> bool" where
  "set_holds s S \<longleftrightarrow> set_ok s \<and> (\<forall>ip. ip_ok ip \<longrightarrow> ipset_contains_ip s ip = Some (ip \<in> S))"

lemma ip_bits_network: "ip_ok ip \<Longrightarrow> ip_network ip (ip_bits ip) = {ip}"
  by (cases ip) (simp_all add: network_full)

text \<open>Every operation is one update of the diagram, for the version of its address.\<close>

fun ip_version :: "cork_ip \<Rightarrow> bool" where "ip_version (V4 a) \<longleftrightarrow> True" | "ip_version (V6 a) \<longleftrightarrow> False"
fun ip_bytes :: "cork_ip \<Rightarrow> bytes" where "ip_bytes (V4 a) = a" | "ip_bytes (V6 a) = a"

fun ip_mk :: "bool \<Rightarrow> bytes \<Rightarrow> cork_ip" where "ip_mk d a = (if d then V4 a else V6 a)"

lemma contains_ip: "ipset_contains_ip s ip = ip_contains (ip_version ip) s (ip_bytes ip)"
  by (cases ip) (simp_all add: ipset_contains_ip_def ip_instance_defs)

lemma in_ip_network: "n \<le> ip_bits ip \<Longrightarrow>
  x \<in> ip_network ip n \<longleftrightarrow> ip_version x = ip_version ip \<and> ip_bytes x \<in> network (ip_bytes ip) n"
  by (cases ip; cases x) auto

lemma update_holds:
  assumes "set_holds s S" "ip_ok ip" "n \<le> ip_bits ip"
  obtains r s' where "ip_update (ip_version ip) s (ip_bytes ip) (n + 1) v = Some (r, s')"
    "set_holds s' (if v \<noteq> 0 then S \<union> ip_network ip n else S - ip_network ip n)"
    "r \<Longrightarrow> set_holds s' S"
proof -
  have ok: "set_ok s" using assms(1) by (simp add: set_holds_def)
  obtain r s' where u: "ip_update (ip_version ip) s (ip_bytes ip) (n + 1) v = Some (r, s')" "set_ok s'"
    "\<And>a. length a = length (ip_bytes ip) \<Longrightarrow> ip_contains (ip_version ip) s' a =
       (if a \<in> network (ip_bytes ip) n then Some (v \<noteq> 0) else ip_contains (ip_version ip) s a)"
    "\<And>d' a. d' \<noteq> ip_version ip \<Longrightarrow> ip_contains d' s' a = ip_contains d' s a"
    "\<And>d' a. r \<Longrightarrow> ip_contains d' s' a = ip_contains d' s a"
    using update_contains [OF ok, of "ip_version ip" "ip_bytes ip" n v] by blast
  have l: "length (ip_bytes x) = length (ip_bytes ip)" if "ip_ok x" "ip_version x = ip_version ip" for x
    using that assms(2) by (cases x; cases ip) auto
  have "ipset_contains_ip s' x = Some (x \<in> (if v \<noteq> 0 then S \<union> ip_network ip n else S - ip_network ip n))" if x: "ip_ok x" for x
  proof -
    have m: "ip_contains (ip_version x) s (ip_bytes x) = Some (x \<in> S)" using assms(1) x by (simp add: set_holds_def contains_ip)
    show ?thesis
    proof (cases "ip_version x = ip_version ip")
      case True
      then show ?thesis using m u(3) [OF l [OF x True]] in_ip_network [OF assms(3), of x] by (simp add: contains_ip)
    next
      case False
      then show ?thesis unfolding contains_ip u(4) [OF False] m using in_ip_network [OF assms(3), of x] by simp
    qed
  qed
  moreover have "r \<Longrightarrow> set_holds s' S" using u(2,5) assms(1) by (simp add: set_holds_def contains_ip)
  ultimately show thesis using that u(1,2) by (simp add: set_holds_def)
qed

lemma ip_network_empty: "ip_bits ip < n \<Longrightarrow> ip_network ip n = {}"
  by (cases ip) auto

lemmas op_unfold = ipset_ip_add_def ipset_ip_add_network_def ipset_ip_remove_def ipset_ip_remove_network_def ip_instance_defs
  ipset_ipv4_remove_network_def ipset_ipv6_remove_network_def ip_add_def ip_add_network_def ip_remove_def ip_remove_network_def

text \<open>Each operation as an update with a prefix length, or as the rejected prefix length.\<close>

fun op_prefix :: "set_op \<Rightarrow> nat" where
  "op_prefix (Add ip) = ip_bits ip" | "op_prefix (Add_network ip n) = n"
| "op_prefix (Remove ip) = ip_bits ip" | "op_prefix (Remove_network ip n) = n"

fun op_value :: "set_op \<Rightarrow> nat" where
  "op_value (Add ip) = 1" | "op_value (Add_network ip n) = 1" | "op_value (Remove ip) = 0" | "op_value (Remove_network ip n) = 0"

lemma apply_op_update:
  "apply_op s x = (if op_prefix x \<le> ip_bits (op_addr x)
     then ip_update (ip_version (op_addr x)) s (ip_bytes (op_addr x)) (op_prefix x + 1) (op_value x) else Some (False, s))"
  by (cases x; cases "op_addr x") (simp_all add: op_unfold)

lemma spec_op_eq: "ip_ok (op_addr x) \<Longrightarrow>
  spec_op S x = (if op_value x \<noteq> 0 then S \<union> ip_network (op_addr x) (op_prefix x) else S - ip_network (op_addr x) (op_prefix x))"
  by (cases x) (simp_all add: ip_bits_network)

lemma apply_op_holds:
  assumes "set_holds s S" "ip_ok (op_addr x)"
  obtains r s' where "apply_op s x = Some (r, s')" "set_holds s' (spec_op S x)" "r \<Longrightarrow> set_holds s' S"
proof (cases "op_prefix x \<le> ip_bits (op_addr x)")
  case True
  then show thesis using update_holds [OF assms True, of "op_value x"] that unfolding apply_op_update spec_op_eq [OF assms(2)] by auto
next
  case False
  then show thesis using that [of False s] assms unfolding apply_op_update spec_op_eq [OF assms(2)] by (simp add: ip_network_empty)
qed

lemma run_ops_holds:
  "set_holds s S \<Longrightarrow> \<forall>x\<in>set xs. ip_ok (op_addr x) \<Longrightarrow> \<exists>s'. run_ops s xs = Some s' \<and> set_holds s' (foldl spec_op S xs)"
proof (induction xs arbitrary: s S)
  case (Cons x xs)
  obtain r s' where s': "apply_op s x = Some (r, s')" "set_holds s' (spec_op S x)"
    using Cons.prems(2) by (auto intro: apply_op_holds [OF Cons.prems(1), of x])
  then show ?case using Cons.IH [OF s'(2)] Cons.prems(2) by simp
qed simp

lemma init_holds: "set_holds ipset_init {}"
  by (simp add: set_holds_def init_ok contains_ip contains_init)

lemma nodes_equal_spec:
  "reps c k t \<Longrightarrow> reps d j t' \<Longrightarrow> ipset_node_cache_nodes_equal c k d j = Some (t = t')"
proof (induction t arbitrary: k j t')
  case (Leaf v)
  then show ?case by (subst ipset_node_cache_nodes_equal.simps) (cases t', auto simp: id_defs even_iff_mod_2_eq_zero odd_iff_mod_2_eq_one)
next
  case (Branch x l h)
  show ?case
  proof (cases t')
    case (Leaf w)
    then show ?thesis using Branch.prems
      by (subst ipset_node_cache_nodes_equal.simps) (auto simp: id_defs even_iff_mod_2_eq_zero odd_iff_mod_2_eq_one)
  next
    case (Branch y l' h')
    then show ?thesis using Branch.prems Branch.IH(1) [of _ _ l'] Branch.IH(2) [of _ _ h']
      by (subst ipset_node_cache_nodes_equal.simps) (auto simp: id_defs even_iff_mod_2_eq_zero)
  qed
qed

section \<open>Properties\<close>

text \<open>C35 (refinement): the address sets implement sets of addresses.  Any sequence of additions and
  removals of addresses and networks of both versions, started on a fresh set, returns (no recursion diverges and
  no access leaves the node store), keeps the store well-formed and reference counts exact, and the lookups afterwards
  answer exactly as the sequence does on mathematical sets of addresses; a prefix length that is too long for the
  version changes nothing.\<close>

theorem ipset_refinement:
  assumes "\<forall>x\<in>set xs. ip_ok (op_addr x)"
  shows "\<exists>s. run_ops ipset_init xs = Some s \<and> set_ok s \<and>
    (\<forall>ip. ip_ok ip \<longrightarrow> ipset_contains_ip s ip = Some (ip \<in> foldl spec_op {} xs))"
  using run_ops_holds [OF init_holds assms] by (auto simp: set_holds_def)

theorem ipset_refinement_witness:
  "\<exists>s. run_ops ipset_init [Add_network (V4 [10, 0, 0, 0]) 8, Remove (V4 [10, 1, 2, 3])] = Some s \<and>
    ipset_contains_ip s (V4 [10, 9, 8, 7]) = Some True \<and> ipset_contains_ip s (V4 [10, 1, 2, 3]) = Some False \<and>
    ipset_contains_ip s (V4 [11, 0, 0, 0]) = Some False"
proof -
  let ?xs = "[Add_network (V4 [10, 0, 0, 0]) 8, Remove (V4 [10, 1, 2, 3])]"
  have n: "V4 [10, a, b, c] \<in> ip_network (V4 [10, 0, 0, 0]) 8" for a b c
    by (auto simp: network_def IPSET_BIT_GET_bit)
  have "IPSET_BIT_GET [11, 0, 0, 0] 7 \<noteq> IPSET_BIT_GET [10, 0, 0, 0] 7" by (simp add: IPSET_BIT_GET_def)
  then have m: "V4 [11, 0, 0, 0] \<notin> ip_network (V4 [10, 0, 0, 0]) 8" by (force simp: network_def)
  have "\<forall>x\<in>set ?xs. ip_ok (op_addr x)" by simp
  from ipset_refinement [OF this] obtain s where s: "run_ops ipset_init ?xs = Some s"
    "\<And>ip. ip_ok ip \<Longrightarrow> ipset_contains_ip s ip = Some (ip \<in> foldl spec_op {} ?xs)" by blast
  then show ?thesis using n m by (simp del: run_ops.simps ip_network.simps)
qed

text \<open>C36 (termination): no node leaks.  When a set that went through any sequence of operations is finished, the reference counts
  of all its nodes have dropped to zero: every node is on the free list when the store is released, and the release follows.\<close>

theorem ipset_done_frees:
  assumes "\<forall>x\<in>set xs. ip_ok (op_addr x)" "run_ops ipset_init xs = Some s"
  shows "\<exists>c. ipset_node_decref (is_cache s) (is_bdd s) = Some c \<and> ipset_done s = Some (ipset_node_cache_free c) \<and>
    (\<forall>i<length (nc_nodes c). i \<in> set (nc_free_list c) \<and> nd_refcount (nc_nodes c ! i) = 0)"
  using run_ops_holds [OF init_holds assms(1)] assms(2) done_frees_all [of s] by (auto simp: set_holds_def)

theorem ipset_done_frees_witness:
  "\<exists>s c. run_ops ipset_init [Add (V4 [1, 2, 3, 4])] = Some s \<and> ipset_node_decref (is_cache s) (is_bdd s) = Some c \<and>
    ipset_done s = Some (ipset_node_cache_free c) \<and>
    (\<forall>i<length (nc_nodes c). i \<in> set (nc_free_list c) \<and> nd_refcount (nc_nodes c ! i) = 0)"
proof -
  have ok: "\<forall>x\<in>set [Add (V4 [1, 2, 3, 4])]. ip_ok (op_addr x)" by simp
  obtain s where s: "run_ops ipset_init [Add (V4 [1, 2, 3, 4])] = Some s" using run_ops_holds [OF init_holds ok] by blast
  from ipset_done_frees [OF ok s] s show ?thesis by blast
qed

text \<open>A diagram looks at nothing but the bits of an address: its value under any assignment is its value at the address
  with those bits.\<close>

definition addr_bits :: "(nat \<Rightarrow> bool) \<Rightarrow> bool \<Rightarrow> bytes \<Rightarrow> bool" where
  "addr_bits \<sigma> d a \<longleftrightarrow> \<sigma> 0 = d \<and> length a = (if d then 4 else 16) \<and> (\<forall>i<8 * length a. IPSET_BIT_GET a i = \<sigma> (i + 1))"

definition set_values :: "ip_set \<Rightarrow> bool" where
  "set_values s \<longleftrightarrow> (\<forall>\<sigma>. ipset_node_evaluate (is_cache s) (is_bdd s) \<sigma> \<in> {Some 0, Some 1}) \<and>
     (\<forall>\<sigma> d a. addr_bits \<sigma> d a \<longrightarrow> ipset_node_evaluate (is_cache s) (is_bdd s) \<sigma> =
        ipset_node_evaluate (is_cache s) (is_bdd s) (ip_assignment d a))"

lemma addr_bits_ex: "\<exists>a. addr_bits \<sigma> (\<sigma> 0) a"
proof -
  define a :: bytes where "a = map (\<lambda>j. horner_sum of_bool 2 (map (\<lambda>m. \<sigma> (8 * j + (7 - m) + 1)) [0..<8])) [0..<if \<sigma> 0 then 4 else 16]"
  have "IPSET_BIT_GET a i = \<sigma> (i + 1)" if "i < 8 * length a" for i
  proof -
    have "8 * (i div 8) + (7 - (7 - i mod 8)) = i" by simp
    moreover have "7 - i mod 8 < 8" by (rule le_less_trans [of _ 7]) simp_all
    ultimately show ?thesis
      using that by (simp add: IPSET_BIT_GET_bit a_def bit_horner_sum_bit_iff less_mult_imp_div_less mult.commute split: if_splits)
  qed
  moreover have "length a = (if \<sigma> 0 then 4 else 16)" by (simp add: a_def)
  ultimately show ?thesis unfolding addr_bits_def by blast
qed

lemma update_values:
  assumes "set_ok s" "set_values s" "ip_update d s e (n + 1) v = Some (r, s')" "v \<in> {0, 1}" "length e = (if d then 4 else 16)" "n \<le> 8 * length e"
  shows "set_values s'"
proof -
  have ev: "ipset_node_evaluate (is_cache s') (is_bdd s') \<sigma> =
      (if \<forall>y<n + 1. \<sigma> y = ip_assignment d e y then Some v else ipset_node_evaluate (is_cache s) (is_bdd s) \<sigma>)" for \<sigma>
    using update_ok [OF assms(1), of d e "n + 1" v] assms(3) by auto
  have "(\<forall>y<n + 1. \<sigma> y = ip_assignment d e y) \<longleftrightarrow> (\<forall>y<n + 1. ip_assignment d' a y = ip_assignment d e y)"
    if b: "addr_bits \<sigma> d' a" for \<sigma> d' a
  proof (cases "d' = d")
    case True
    then have "\<sigma> y = ip_assignment d' a y" if "y < n + 1" for y
      using b that assms(5,6) by (cases y) (auto simp: addr_bits_def ip_assignment_def)
    then show ?thesis by simp
  next
    case False
    then show ?thesis using b by (auto simp: addr_bits_def ip_assignment_def intro!: exI [of _ 0])
  qed
  then show ?thesis using assms(2,4) unfolding set_values_def ev by auto
qed

lemma run_ops_values:
  "set_holds s S \<Longrightarrow> set_values s \<Longrightarrow> \<forall>x\<in>set xs. ip_ok (op_addr x) \<Longrightarrow> run_ops s xs = Some s' \<Longrightarrow> set_ok s' \<and> set_values s'"
proof (induction xs arbitrary: s S)
  case (Cons x xs)
  have x: "ip_ok (op_addr x)" using Cons.prems(3) by simp
  obtain r s1 where s1: "apply_op s x = Some (r, s1)" "set_holds s1 (spec_op S x)"
    using apply_op_holds [OF Cons.prems(1) x] by metis
  have "set_values s1"
  proof (cases "op_prefix x \<le> ip_bits (op_addr x)")
    case True
    have "op_value x \<in> {0, 1}" by (cases x) simp_all
    moreover have "length (ip_bytes (op_addr x)) = (if ip_version (op_addr x) then 4 else 16)" "ip_bits (op_addr x) = 8 * length (ip_bytes (op_addr x))"
      using x by (cases "op_addr x"; simp)+
    ultimately show ?thesis
      using update_values [of s "ip_version (op_addr x)" "ip_bytes (op_addr x)" "op_prefix x" "op_value x" r s1] True s1(1) Cons.prems(1,2)
      by (simp add: apply_op_update set_holds_def)
  next
    case False
    then show ?thesis using s1(1) Cons.prems(2) by (simp add: apply_op_update)
  qed
  then show ?case using Cons.IH [OF s1(2)] Cons.prems(3,4) s1(1) by simp
qed (simp add: set_holds_def)

lemma init_values: "set_values ipset_init"
  by (simp add: set_values_def init_ok(2))

lemma values_contains:
  assumes "set_values s" "set_values s'"
  shows "(\<forall>\<sigma>. ipset_node_evaluate (is_cache s) (is_bdd s) \<sigma> = ipset_node_evaluate (is_cache s') (is_bdd s') \<sigma>) \<longleftrightarrow>
    (\<forall>ip. ip_ok ip \<longrightarrow> ipset_contains_ip s ip = ipset_contains_ip s' ip)"
proof (intro iffI allI impI)
  fix ip assume "\<forall>\<sigma>. ipset_node_evaluate (is_cache s) (is_bdd s) \<sigma> = ipset_node_evaluate (is_cache s') (is_bdd s') \<sigma>"
  then show "ipset_contains_ip s ip = ipset_contains_ip s' ip" by (simp add: contains_ip contains_eq)
next
  fix \<sigma> assume eq: "\<forall>ip. ip_ok ip \<longrightarrow> ipset_contains_ip s ip = ipset_contains_ip s' ip"
  obtain a where a: "addr_bits \<sigma> (\<sigma> 0) a" using addr_bits_ex by blast
  have "ip_ok (ip_mk (\<sigma> 0) a)" "ip_version (ip_mk (\<sigma> 0) a) = \<sigma> 0" "ip_bytes (ip_mk (\<sigma> 0) a) = a"
    using a by (auto simp: addr_bits_def)
  then have c: "ip_contains (\<sigma> 0) s a = ip_contains (\<sigma> 0) s' a" using eq [rule_format, of "ip_mk (\<sigma> 0) a"] by (simp only: contains_ip)
  have v: "ipset_node_evaluate (is_cache s) (is_bdd s) (ip_assignment (\<sigma> 0) a) \<in> {Some 0, Some 1}"
    "ipset_node_evaluate (is_cache s') (is_bdd s') (ip_assignment (\<sigma> 0) a) \<in> {Some 0, Some 1}"
    using assms by (simp_all only: set_values_def)
  have "ipset_node_evaluate (is_cache s) (is_bdd s) (ip_assignment (\<sigma> 0) a) = ipset_node_evaluate (is_cache s') (is_bdd s') (ip_assignment (\<sigma> 0) a)"
    using c v by (auto simp: contains_eq)
  moreover have "ipset_node_evaluate (is_cache s) (is_bdd s) \<sigma> = ipset_node_evaluate (is_cache s) (is_bdd s) (ip_assignment (\<sigma> 0) a)"
    "ipset_node_evaluate (is_cache s') (is_bdd s') \<sigma> = ipset_node_evaluate (is_cache s') (is_bdd s') (ip_assignment (\<sigma> 0) a)"
    using assms a unfolding set_values_def by blast+
  ultimately show "ipset_node_evaluate (is_cache s) (is_bdd s) \<sigma> = ipset_node_evaluate (is_cache s') (is_bdd s') \<sigma>" by simp
qed

lemma equal_functions:
  assumes "set_ok s" "set_ok s'"
  shows "ipset_is_equal s s' = Some (\<forall>\<sigma>. ipset_node_evaluate (is_cache s) (is_bdd s) \<sigma> = ipset_node_evaluate (is_cache s') (is_bdd s') \<sigma>)"
    "ipset_is_empty s \<longleftrightarrow> (\<forall>\<sigma>. ipset_node_evaluate (is_cache s) (is_bdd s) \<sigma> = Some 0)"
proof -
  obtain t t' where t: "bdd_inv (is_cache s) (hold (\<lambda>_. 0) (is_bdd s)) {}" "reps (is_cache s) (is_bdd s) t"
      "bdd_inv (is_cache s') (hold (\<lambda>_. 0) (is_bdd s')) {}" "reps (is_cache s') (is_bdd s') t'"
    using assms unfolding set_ok_def by blast
  have "ipset_is_empty s \<longleftrightarrow> t = Leaf 0"
    using t(2) by (cases t) (auto simp: ipset_is_empty_def id_defs)
  moreover have "(\<forall>\<sigma>. eval \<sigma> t = 0) \<longleftrightarrow> t = Leaf 0"
    using eval_inject [of t "Leaf 0" 0 0] reps_reduced [OF t(1,2)] reps_some_ordered [OF t(1,2)] by auto
  ultimately show "ipset_is_empty s \<longleftrightarrow> (\<forall>\<sigma>. ipset_node_evaluate (is_cache s) (is_bdd s) \<sigma> = Some 0)"
    unfolding evaluate_spec [OF t(2)] by simp
  show "ipset_is_equal s s' = Some (\<forall>\<sigma>. ipset_node_evaluate (is_cache s) (is_bdd s) \<sigma> = ipset_node_evaluate (is_cache s') (is_bdd s') \<sigma>)"
    unfolding ipset_is_equal_def nodes_equal_spec [OF t(2,4)] evaluate_spec [OF t(2)] evaluate_spec [OF t(4)]
    using canonical_tree [OF t] by simp
qed

text \<open>C37 (equivalence): the diagrams are canonical, so the cheap tests are exact.  Two sets, each built by any sequence of
  operations in its own store, compare equal if and only if they contain the same addresses, and a set is reported empty if
  and only if it contains no address.\<close>

theorem ipset_equality_exact:
  assumes "\<forall>x\<in>set xs. ip_ok (op_addr x)" "run_ops ipset_init xs = Some s"
    and "\<forall>x\<in>set ys. ip_ok (op_addr x)" "run_ops ipset_init ys = Some s'"
  shows "ipset_is_equal s s' = Some (\<forall>ip. ip_ok ip \<longrightarrow> ipset_contains_ip s ip = ipset_contains_ip s' ip) \<and>
    (ipset_is_empty s \<longleftrightarrow> (\<forall>ip. ip_ok ip \<longrightarrow> ipset_contains_ip s ip = Some False))"
proof -
  have s: "set_ok s" "set_values s" and s': "set_ok s'" "set_values s'"
    using run_ops_values [OF init_holds init_values] assms by blast+
  have "ipset_contains_ip ipset_init ip = Some False" if "ip_ok ip" for ip
    using init_holds that by (simp add: set_holds_def)
  then show ?thesis
    using values_contains [OF s(2) s'(2)] values_contains [OF s(2) init_values] by (simp add: equal_functions [OF s(1) s'(1)] init_ok(2))
qed

theorem ipset_equality_exact_witness:
  "\<exists>s. run_ops ipset_init [Add (V4 [1, 2, 3, 4])] = Some s \<and> ipset_is_equal s ipset_init = Some False \<and> \<not> ipset_is_empty s"
proof -
  have ok: "\<forall>x\<in>set [Add (V4 [1, 2, 3, 4])]. ip_ok (op_addr x)" by simp
  obtain s where s: "run_ops ipset_init [Add (V4 [1, 2, 3, 4])] = Some s" "ipset_contains_ip s (V4 [1, 2, 3, 4]) = Some True"
    using run_ops_holds [OF init_holds ok] by (auto simp: set_holds_def)
  have i: "ip_ok (V4 [1, 2, 3, 4])" "ipset_contains_ip ipset_init (V4 [1, 2, 3, 4]) = Some False"
    using init_holds by (simp_all add: set_holds_def)
  then have d: "\<exists>ip. ip_ok ip \<and> ipset_contains_ip s ip \<noteq> ipset_contains_ip ipset_init ip" using s(2)
    by (intro exI [of _ "V4 [1, 2, 3, 4]"] conjI) simp_all
  have e: "\<not> (\<forall>ip. ip_ok ip \<longrightarrow> ipset_contains_ip s ip = Some False)" using i(1) s(2) by (metis option.inject)
  have "run_ops ipset_init [] = Some ipset_init" by simp
  from ipset_equality_exact [OF ok s(1) _ this] have "ipset_is_equal s ipset_init = Some False" "\<not> ipset_is_empty s" using d e by simp_all
  then show ?thesis using s(1) by blast
qed

end
