(* ===== verification/Acl.thy ===== *)
theory Acl
  imports BlockList IpSetCorrect
begin

text \<open>
  \<open>shadowsocks-libev/src/acl.c\<close> and \<open>rule.c\<close>: the access control lists.  The file's static variables are the
  record \<open>acl\<close>; \<open>libpcre\<close> is the parameter \<open>regex_lib\<close>.  The list file is its contents, read with \<open>fgets\<close>.
  \<open>None\<close> is an operation on an address set that does not return, which the properties exclude.
\<close>

definition BLACK_LIST :: int where "BLACK_LIST = 0"
definition WHITE_LIST :: int where "WHITE_LIST = 1"

section \<open>Rules (\<open>rule.c\<close>)\<close>

text \<open>\<open>pcre_exec\<close> returns a negative number when there is no match, and \<open>PCRE_ERROR_NULL\<close> for a null pattern.\<close>

record 're regex_lib =
  pcre_compile :: "bytes \<Rightarrow> 're option"
  pcre_exec :: "'re \<Rightarrow> bytes \<Rightarrow> int"

definition PCRE_ERROR_NULL :: int where "PCRE_ERROR_NULL = -2"

record 're rule =
  ru_pattern :: "bytes option"
  ru_pattern_re :: "'re option"

definition new_rule :: "'re rule" where
  "new_rule = \<lparr>ru_pattern = None, ru_pattern_re = None\<rparr>"

definition accept_rule_arg :: "'re rule \<Rightarrow> bytes \<Rightarrow> int \<times> 're rule" where
  "accept_rule_arg rule arg =
    (if ru_pattern rule = None then (1, rule\<lparr>ru_pattern := Some arg\<rparr>) else (-1, rule))"

definition init_rule :: "'re regex_lib \<Rightarrow> 're rule \<Rightarrow> int \<times> 're rule" where
  "init_rule lib rule =
    (if ru_pattern_re rule = None
     then let rule = rule\<lparr>ru_pattern_re := Option.bind (ru_pattern rule) (pcre_compile lib)\<rparr>
          in if ru_pattern_re rule = None then (0, rule) else (1, rule)
     else (1, rule))"

definition add_rule :: "'re rule list \<Rightarrow> 're rule \<Rightarrow> 're rule list" where
  "add_rule rules rule = rules @ [rule]"

definition exec_re :: "'re regex_lib \<Rightarrow> 're option \<Rightarrow> bytes \<Rightarrow> int" where
  "exec_re lib re name = (case re of None \<Rightarrow> PCRE_ERROR_NULL | Some r \<Rightarrow> pcre_exec lib r name)"

definition lookup_rule :: "'re regex_lib \<Rightarrow> 're rule list \<Rightarrow> bytes option \<Rightarrow> 're rule option" where
  "lookup_rule lib rules name =
    (let name = (case name of None \<Rightarrow> [] | Some n \<Rightarrow> n)
     in find (\<lambda>rule. exec_re lib (ru_pattern_re rule) name \<ge> 0) rules)"

text \<open>\<open>free_rules\<close> removes the head until the list is empty; a rule's memory is released with it.\<close>

fun free_rules :: "'re rule list \<Rightarrow> 're rule list" where
  "free_rules [] = []"
| "free_rules (rule # rules) = free_rules rules"

section \<open>Lines\<close>

definition isspace :: "byte \<Rightarrow> bool" where
  "isspace c \<longleftrightarrow> c = 32 \<or> (9 \<le> c \<and> c \<le> 13)"

text \<open>\<open>atoi\<close> as the C library has it on a 64-bit machine: \<open>strtol\<close> saturates, the result is cut to an \<open>int\<close>.\<close>

fun digits_value :: "bytes \<Rightarrow> nat \<Rightarrow> nat" where
  "digits_value [] n = n"
| "digits_value (c # cs) n = (if 48 \<le> c \<and> c \<le> 57 then digits_value cs (10 * n + unat (c - 48)) else n)"

definition atoi :: "bytes \<Rightarrow> int" where
  "atoi str =
    (let str = dropWhile isspace str;
         (neg, ds) = (case str of [] \<Rightarrow> (False, [])
                      | c # cs \<Rightarrow> if c = chr (CHR ''-'') then (True, cs) else if c = chr (CHR ''+'') then (False, cs) else (False, str));
         n = int (digits_value ds 0);
         v = (if neg then max (- (2 ^ 63)) (- n) else min (2 ^ 63 - 1) n)
     in sint (word_of_int v :: 32 word))"

text \<open>The \<open>strchr\<close> loop: the offset of the last slash, or -1.\<close>

fun slash_loop :: "bytes \<Rightarrow> int \<Rightarrow> int \<Rightarrow> int" where
  "slash_loop [] i ret = ret"
| "slash_loop (c # cs) i ret = slash_loop cs (i + 1) (if c = chr (CHR ''/'') then i else ret)"

definition parse_addr_cidr :: "bytes \<Rightarrow> bytes \<times> int" where
  "parse_addr_cidr str =
    (let ret = slash_loop str 0 (-1)
     in if ret = -1 then (str, -1) else (take (nat ret) str, atoi (drop (nat ret + 1) str)))"

definition trimwhitespace :: "bytes \<Rightarrow> bytes" where
  "trimwhitespace str =
    (let str = dropWhile isspace str
     in if str = [] then str else rev (dropWhile isspace (rev str)))"

section \<open>The lists\<close>

text \<open>The three lists; \<open>init_acl\<close> moves its pointers to the IPv4 set, the IPv6 set and the rules of a list together.\<close>

datatype acl_section = Black | White | Outbound

record 're acl_list =
  list_ipv4 :: ip_set
  list_ipv6 :: ip_set
  list_rules :: "'re rule list"

record 're acl =
  black_list :: "'re acl_list"
  white_list :: "'re acl_list"
  outbound_block_list :: "'re acl_list"
  acl_mode :: int

fun get_list :: "'re acl \<Rightarrow> acl_section \<Rightarrow> 're acl_list" where
  "get_list acl Black = black_list acl"
| "get_list acl White = white_list acl"
| "get_list acl Outbound = outbound_block_list acl"

fun set_list :: "'re acl \<Rightarrow> acl_section \<Rightarrow> 're acl_list \<Rightarrow> 're acl" where
  "set_list acl Black l = acl\<lparr>black_list := l\<rparr>"
| "set_list acl White l = acl\<lparr>white_list := l\<rparr>"
| "set_list acl Outbound l = acl\<lparr>outbound_block_list := l\<rparr>"

definition init_list :: "'re acl_list" where
  "init_list = \<lparr>list_ipv4 = ipset_init, list_ipv6 = ipset_init, list_rules = []\<rparr>"

definition add_entry :: "'re regex_lib \<Rightarrow> 're acl_list \<Rightarrow> bytes \<Rightarrow> 're acl_list option" where
  "add_entry lib l line =
    (let (host, cidr) = parse_addr_cidr line
     in case cork_ip_init host of
          (err, Some (V4 a)) \<Rightarrow>
            do { (_, s) \<leftarrow> (if cidr \<ge> 0 then ipset_ipv4_add_network (list_ipv4 l) a (nat cidr) else ipset_ipv4_add (list_ipv4 l) a);
                 Some (l\<lparr>list_ipv4 := s\<rparr>) }
        | (err, Some (V6 a)) \<Rightarrow>
            do { (_, s) \<leftarrow> (if cidr \<ge> 0 then ipset_ipv6_add_network (list_ipv6 l) a (nat cidr) else ipset_ipv6_add (list_ipv6 l) a);
                 Some (l\<lparr>list_ipv6 := s\<rparr>) }
        | (err, None) \<Rightarrow>
            let rule = snd (accept_rule_arg new_rule line);
                rule = snd (init_rule lib rule)
            in Some (l\<lparr>list_rules := add_rule (list_rules l) rule\<rparr>))"

text \<open>Trim the newline.\<close>

definition chomp :: "bytes \<Rightarrow> bytes" where
  "chomp buf = (if buf \<noteq> [] \<and> last buf = 10 then butlast buf else buf)"

text \<open>The body of the loop for one line that was read completely.\<close>

definition acl_line :: "'re regex_lib \<Rightarrow> acl_section \<times> 're acl \<Rightarrow> bytes \<Rightarrow> (acl_section \<times> 're acl) option" where
  "acl_line lib st buf =
    (let (cur, acl) = st;
         buf = takeWhile (\<lambda>c. c \<noteq> chr (CHR ''#'')) (chomp buf);
         line = trimwhitespace buf
     in if line = [] then Some (cur, acl)
        else if line = cstr ''[outbound_block_list]'' then Some (Outbound, acl)
        else if line = cstr ''[black_list]'' \<or> line = cstr ''[bypass_list]'' then Some (Black, acl)
        else if line = cstr ''[white_list]'' \<or> line = cstr ''[proxy_list]'' then Some (White, acl)
        else if line = cstr ''[reject_all]'' \<or> line = cstr ''[bypass_all]'' then Some (cur, acl\<lparr>acl_mode := WHITE_LIST\<rparr>)
        else if line = cstr ''[accept_all]'' \<or> line = cstr ''[proxy_all]'' then Some (cur, acl\<lparr>acl_mode := BLACK_LIST\<rparr>)
        else do { l \<leftarrow> add_entry lib (get_list acl cur) line; Some (cur, set_list acl cur l) })"

section \<open>Reading the file\<close>

text \<open>\<open>fgets\<close> on the rest of a file: at most \<open>n\<close> bytes, up to and including a newline; the flag is \<open>feof\<close>.\<close>

fun fgets_chars :: "nat \<Rightarrow> bytes \<Rightarrow> bytes \<times> bytes \<times> bool" where
  "fgets_chars 0 f = ([], f, False)"
| "fgets_chars (Suc n) [] = ([], [], True)"
| "fgets_chars (Suc n) (c # f) =
    (if c = 10 then ([c], f, False) else let (l, rest, eof) = fgets_chars n f in (c # l, rest, eof))"

definition fgets :: "nat \<Rightarrow> bytes \<Rightarrow> bytes option \<times> bytes \<times> bool" where
  "fgets bufsize f =
    (let (l, rest, eof) = fgets_chars (bufsize - 1) f in (if l = [] then None else Some (c_string l), rest, eof))"

lemma fgets_chars_rest: "fgets_chars n f = (l, rest, eof) \<Longrightarrow> f = l @ rest"
  by (induction n f arbitrary: l rest eof rule: fgets_chars.induct) (auto split: prod.splits if_splits)

lemma fgets_chars_eof: "fgets_chars n f = ([], rest, eof) \<Longrightarrow> 0 < n \<Longrightarrow> rest = [] \<and> eof"
  by (cases n; cases f) (auto split: prod.splits if_splits)

lemma fgets_Some: "fgets 256 f = (Some buf, rest, eof) \<Longrightarrow> length rest < length f"
  by (auto simp: fgets_def Let_def dest!: fgets_chars_rest split: prod.splits if_splits)

lemma fgets_None: "fgets 256 f = (None, rest, eof) \<Longrightarrow> rest = [] \<and> eof"
  using fgets_chars_eof [of 255 f rest eof] by (auto simp: fgets_def Let_def split: prod.splits if_splits)

text \<open>The inner loop that reads on while the buffer is full and does not end in a newline.  \<open>long_line\<close> is 0, 1 or 2.\<close>

function long_loop :: "bytes \<Rightarrow> nat \<Rightarrow> bytes \<Rightarrow> bool \<Rightarrow> nat \<times> bytes \<times> bytes \<times> bool" where
  "long_loop buf long_line f eof =
    (if length buf = 255 \<and> buf ! 254 \<noteq> 10
     then (case fgets 256 f of
             (None, f, eof) \<Rightarrow> (2, buf, f, eof)
           | (Some buf, f, eof) \<Rightarrow> long_loop buf 1 f eof)
     else (long_line, buf, f, eof))"
  by pat_completeness auto
termination
  by (relation "measure (\<lambda>(buf, ll, f, eof). length f)") (auto dest: fgets_Some [OF sym])

declare long_loop.simps [simp del]

abbreviation full :: "bytes \<Rightarrow> bool" where "full buf \<equiv> length buf = 255 \<and> buf ! 254 \<noteq> 10"

lemma long_loop_eqs:
  "\<not> full buf \<Longrightarrow> long_loop buf ll f eof = (ll, buf, f, eof)"
  "full buf \<Longrightarrow> fgets 256 f = (None, f', e') \<Longrightarrow> long_loop buf ll f eof = (2, buf, f', e')"
  "full buf \<Longrightarrow> fgets 256 f = (Some b, f', e') \<Longrightarrow> long_loop buf ll f eof = long_loop b 1 f' e'"
  by (subst long_loop.simps, auto)+

lemma long_loop_rest: "long_loop buf ll f eof = (ll', buf', f', eof') \<Longrightarrow> length f' \<le> length f"
proof (induction buf ll f eof rule: long_loop.induct)
  case (1 buf ll f eof)
  obtain r rest e where g: "fgets 256 f = (r, rest, e)" by (cases "fgets 256 f") auto
  consider "\<not> full buf" | "full buf" "r = None" | b where "full buf" "r = Some b" by fastforce
  then show ?case
  proof cases
    case 3
    then have "length f' \<le> length rest" using 1(1) [OF 3(1) g [symmetric] _ refl] 1(2) long_loop_eqs(3) [OF 3(1)] g by simp
    then show ?thesis using fgets_Some [of f b rest e] g 3 by simp
  qed (use 1(2) g fgets_None [of f rest e] in \<open>simp_all add: long_loop_eqs\<close>)
qed

function acl_loop :: "'re regex_lib \<Rightarrow> bytes \<Rightarrow> bool \<Rightarrow> acl_section \<times> 're acl \<Rightarrow> (acl_section \<times> 're acl) option" where
  "acl_loop lib f eof st =
    (if eof then Some st
     else (case fgets 256 f of
             (None, f, eof) \<Rightarrow> acl_loop lib f eof st
           | (Some buf, f, eof) \<Rightarrow>
               let (long_line, buf, f, eof) = long_loop buf 0 f eof
               in if long_line \<noteq> 0 then acl_loop lib f eof st
                  else (case acl_line lib st buf of None \<Rightarrow> None | Some st \<Rightarrow> acl_loop lib f eof st)))"
  by pat_completeness auto
termination
  by (relation "measure (\<lambda>(lib, f, eof, st). 2 * length f + (if eof then 0 else 1))")
    (auto dest!: fgets_Some [OF sym] fgets_None [OF sym] long_loop_rest [OF sym])

declare acl_loop.simps [simp del]

text \<open>The state before the call matters only for the mode, which \<open>init_acl\<close> does not reset; \<open>None\<close> is a path that
  \<open>fopen\<close> refuses.\<close>

definition init_acl :: "'re regex_lib \<Rightarrow> 're acl \<Rightarrow> bytes option \<Rightarrow> (int \<times> 're acl) option" where
  "init_acl lib acl path =
    (let acl = \<lparr>black_list = init_list, white_list = init_list, outbound_block_list = init_list, acl_mode = acl_mode acl\<rparr>
     in case path of
          None \<Rightarrow> Some (-1, acl)
        | Some f \<Rightarrow> do { (_, acl) \<leftarrow> acl_loop lib f False (Black, acl); Some (0, acl) })"

section \<open>Use\<close>

text \<open>What \<open>free_acl\<close> releases: the node stores of the black and the white list and their rules.\<close>

definition free_list :: "'re acl_list \<Rightarrow> (ipset_node_cache \<times> ipset_node_cache \<times> 're rule list) option" where
  "free_list l = do { c4 \<leftarrow> ipset_done (list_ipv4 l); c6 \<leftarrow> ipset_done (list_ipv6 l); Some (c4, c6, free_rules (list_rules l)) }"

definition free_acl :: "'re acl \<Rightarrow> 
  ((ipset_node_cache \<times> ipset_node_cache \<times> 're rule list) \<times> (ipset_node_cache \<times> ipset_node_cache \<times> 're rule list)) option" where
  "free_acl acl = do { b \<leftarrow> free_list (black_list acl); w \<leftarrow> free_list (white_list acl); Some (b, w) }"

definition get_acl_mode :: "'re acl \<Rightarrow> int" where
  "get_acl_mode acl = acl_mode acl"

definition acl_match_host :: "'re regex_lib \<Rightarrow> 're acl \<Rightarrow> bytes \<Rightarrow> int option" where
  "acl_match_host lib acl host =
    (case cork_ip_init host of
       (err, None) \<Rightarrow>
         Some (if lookup_rule lib (list_rules (black_list acl)) (Some host) \<noteq> None then 1
               else if lookup_rule lib (list_rules (white_list acl)) (Some host) \<noteq> None then -1 else 0)
     | (err, Some (V4 a)) \<Rightarrow>
         do { b \<leftarrow> ipset_contains_ipv4 (list_ipv4 (black_list acl)) a;
              if b then Some 1
              else do { w \<leftarrow> ipset_contains_ipv4 (list_ipv4 (white_list acl)) a; Some (if w then -1 else 0) } }
     | (err, Some (V6 a)) \<Rightarrow>
         do { b \<leftarrow> ipset_contains_ipv6 (list_ipv6 (black_list acl)) a;
              if b then Some 1
              else do { w \<leftarrow> ipset_contains_ipv6 (list_ipv6 (white_list acl)) a; Some (if w then -1 else 0) } })"

definition acl_add_ip :: "'re acl \<Rightarrow> bytes \<Rightarrow> (int \<times> 're acl) option" where
  "acl_add_ip acl ip =
    (case cork_ip_init ip of
       (err, None) \<Rightarrow> Some (-1, acl)
     | (err, Some (V4 a)) \<Rightarrow>
         do { (_, s) \<leftarrow> ipset_ipv4_add (list_ipv4 (black_list acl)) a;
              Some (0, acl\<lparr>black_list := (black_list acl)\<lparr>list_ipv4 := s\<rparr>\<rparr>) }
     | (err, Some (V6 a)) \<Rightarrow>
         do { (_, s) \<leftarrow> ipset_ipv6_add (list_ipv6 (black_list acl)) a;
              Some (0, acl\<lparr>black_list := (black_list acl)\<lparr>list_ipv6 := s\<rparr>\<rparr>) })"

definition acl_remove_ip :: "'re acl \<Rightarrow> bytes \<Rightarrow> (int \<times> 're acl) option" where
  "acl_remove_ip acl ip =
    (case cork_ip_init ip of
       (err, None) \<Rightarrow> Some (-1, acl)
     | (err, Some (V4 a)) \<Rightarrow>
         do { (_, s) \<leftarrow> ipset_ipv4_remove (list_ipv4 (black_list acl)) a;
              Some (0, acl\<lparr>black_list := (black_list acl)\<lparr>list_ipv4 := s\<rparr>\<rparr>) }
     | (err, Some (V6 a)) \<Rightarrow>
         do { (_, s) \<leftarrow> ipset_ipv6_remove (list_ipv6 (black_list acl)) a;
              Some (0, acl\<lparr>black_list := (black_list acl)\<lparr>list_ipv6 := s\<rparr>\<rparr>) })"

definition outbound_block_match_host :: "'re regex_lib \<Rightarrow> 're acl \<Rightarrow> bytes \<Rightarrow> int option" where
  "outbound_block_match_host lib acl host =
    (case cork_ip_init host of
       (err, None) \<Rightarrow>
         Some (if lookup_rule lib (list_rules (outbound_block_list acl)) (Some host) \<noteq> None then 1 else 0)
     | (err, Some (V4 a)) \<Rightarrow>
         do { b \<leftarrow> ipset_contains_ipv4 (list_ipv4 (outbound_block_list acl)) a; Some (if b then 1 else 0) }
     | (err, Some (V6 a)) \<Rightarrow>
         do { b \<leftarrow> ipset_contains_ipv6 (list_ipv6 (outbound_block_list acl)) a; Some (if b then 1 else 0) })"

section \<open>The meaning of a list file\<close>

text \<open>What a line says.\<close>

datatype item = Blank | Select acl_section | Mode int | Net cork_ip int | Pattern bytes

definition line_item :: "bytes \<Rightarrow> item" where
  "line_item text =
    (let line = trimwhitespace (takeWhile (\<lambda>c. c \<noteq> chr (CHR ''#'')) text)
     in if line = [] then Blank
        else if line = cstr ''[outbound_block_list]'' then Select Outbound
        else if line = cstr ''[black_list]'' \<or> line = cstr ''[bypass_list]'' then Select Black
        else if line = cstr ''[white_list]'' \<or> line = cstr ''[proxy_list]'' then Select White
        else if line = cstr ''[reject_all]'' \<or> line = cstr ''[bypass_all]'' then Mode WHITE_LIST
        else if line = cstr ''[accept_all]'' \<or> line = cstr ''[proxy_all]'' then Mode BLACK_LIST
        else case snd (cork_ip_init (fst (parse_addr_cidr line))) of
               Some ip \<Rightarrow> Net ip (snd (parse_addr_cidr line))
             | None \<Rightarrow> Pattern line)"

text \<open>The addresses an entry stands for: without a prefix length, the one address.\<close>

fun item_addrs :: "item \<Rightarrow> cork_ip set" where
  "item_addrs (Net ip cidr) = (if cidr \<ge> 0 then ip_network ip (nat cidr) else {ip})"
| "item_addrs _ = {}"

fun item_matches :: "'re regex_lib \<Rightarrow> item \<Rightarrow> bytes \<Rightarrow> bool" where
  "item_matches lib (Pattern p) name \<longleftrightarrow> exec_re lib (pcre_compile lib p) name \<ge> 0"
| "item_matches lib _ name \<longleftrightarrow> False"

text \<open>The items of a list are those after its heading and before the next; the file starts in the black list.\<close>

fun items_of :: "acl_section \<Rightarrow> acl_section \<Rightarrow> item list \<Rightarrow> item list" where
  "items_of which cur [] = []"
| "items_of which cur (Select s # is) = items_of which s is"
| "items_of which cur (i # is) = (if which = cur then i # items_of which cur is else items_of which cur is)"

fun last_mode :: "int \<Rightarrow> item list \<Rightarrow> int" where
  "last_mode m [] = m"
| "last_mode m (Mode n # is) = last_mode n is"
| "last_mode m (i # is) = last_mode m is"

text \<open>A list covers a host given as an address or as a name.\<close>

definition covered :: "'re regex_lib \<Rightarrow> item list \<Rightarrow> bytes \<Rightarrow> bool" where
  "covered lib is host \<longleftrightarrow>
    (case snd (cork_ip_init host) of Some ip \<Rightarrow> (\<exists>i\<in>set is. ip \<in> item_addrs i) | None \<Rightarrow> (\<exists>i\<in>set is. item_matches lib i host))"

text \<open>The lines of a text: the pieces between newlines, without an empty piece at the end.\<close>

fun text_lines :: "bytes \<Rightarrow> bytes list" where
  "text_lines [] = []"
| "text_lines (c # cs) =
    (if c = 10 then [] # text_lines cs else case text_lines cs of [] \<Rightarrow> [[c]] | l # ls \<Rightarrow> (c # l) # ls)"

definition read_items :: "bytes \<Rightarrow> item list" where
  "read_items f = map line_item (filter (\<lambda>l. length l < 255) (text_lines f))"

section \<open>Reading lines\<close>

fun after_line :: "bytes \<Rightarrow> bytes" where
  "after_line [] = []"
| "after_line (c # cs) = (if c = 10 then cs else after_line cs)"

abbreviation first_line :: "bytes \<Rightarrow> bytes" where
  "first_line f \<equiv> takeWhile (\<lambda>c. c \<noteq> 10) f"

lemma text_lines_step: "f \<noteq> [] \<Longrightarrow> text_lines f = first_line f # text_lines (after_line f)"
proof (induction f)
  case (Cons c f)
  then show ?case by (cases "f = []") auto
qed simp

lemma after_line_less: "f \<noteq> [] \<Longrightarrow> length (after_line f) < length f"
proof (induction f)
  case (Cons c f)
  then show ?case by (cases "f = []") auto
qed simp

lemma after_line_end: "10 \<notin> set f \<Longrightarrow> after_line f = []"
  by (induction f) auto

lemma after_line_set: "set (after_line f) \<subseteq> set f"
  by (induction f) auto

lemma after_line_drop: "n \<le> length (first_line f) \<Longrightarrow> after_line (drop n f) = after_line f"
  by (induction f arbitrary: n) (auto simp: drop_Cons split: nat.splits if_splits)

lemma newline_in_drop: "n \<le> length (first_line f) \<Longrightarrow> 10 \<in> set (drop n f) \<longleftrightarrow> 10 \<in> set f"
  by (induction f arbitrary: n) (auto simp: drop_Cons split: nat.splits if_splits)

lemma fgets_chars_line:
  "fgets_chars n f =
    (if length (first_line f) < n
     then if 10 \<in> set f then (first_line f @ [10], after_line f, False) else (f, [], True)
     else (take n f, drop n f, False))"
  by (induction n f rule: fgets_chars.induct) (auto simp: takeWhile_eq_all_conv [THEN iffD2] split: if_splits)

lemma c_string_id: "0 \<notin> set l \<Longrightarrow> c_string l = l"
  by (metis (mono_tags, lifting) c_string_def takeWhile_eq_all_conv)

lemma fgets_line:
  assumes "0 \<notin> set f"
  shows "fgets 256 f =
    (if f = [] then (None, [], True)
     else if length (first_line f) < 255
     then if 10 \<in> set f then (Some (first_line f @ [10]), after_line f, False) else (Some f, [], True)
     else (Some (take 255 f), drop 255 f, False))"
proof -
  have "0 \<notin> set (first_line f)" "0 \<notin> set (take 255 f)" using assms by (auto dest: set_takeWhileD in_set_takeD)
  then show ?thesis using assms by (simp add: fgets_def fgets_chars_line c_string_id)
qed

lemma full_prefix:
  assumes "255 \<le> length (first_line f)"
  shows "full (take 255 f)"
proof -
  have "255 \<le> length f" using assms length_takeWhile_le [of "\<lambda>c. c \<noteq> 10" f] by simp
  moreover have "first_line f ! 254 \<noteq> 10" using assms nth_mem [of 254 "first_line f"] set_takeWhileD by fastforce
  moreover have "first_line f ! 254 = f ! 254" using assms by (intro takeWhile_nth) simp
  ultimately show ?thesis by simp
qed

lemma short_not_full: "length (first_line f) < 255 \<Longrightarrow> \<not> full (first_line f @ [10])" "length (first_line f) < 255 \<Longrightarrow> 10 \<notin> set f \<Longrightarrow> \<not> full f"
proof -
  assume l: "length (first_line f) < 255"
  show "\<not> full (first_line f @ [10])" by (auto simp: nth_append)
  assume "10 \<notin> set f"
  then have "first_line f = f" by (metis (mono_tags, lifting) takeWhile_eq_all_conv)
  then have "length f < 255" using l by (simp only:)
  then show "\<not> full f" by simp
qed

text \<open>A long line is skipped up to the next newline or the end of the file.\<close>

lemma long_loop_skips:
  "full buf \<Longrightarrow> 0 \<notin> set f \<Longrightarrow> \<exists>ll b. long_loop buf n f eof = (ll, b, after_line f, 10 \<notin> set f) \<and> ll \<noteq> 0"
proof (induction "length f" arbitrary: buf n f eof rule: less_induct)
  case less
  have step: "long_loop b 1 f' e = (1, b, f', e)" if "\<not> full b" for b f' e by (rule long_loop_eqs(1) [OF that])
  consider "f = []" | "f \<noteq> []" "length (first_line f) < 255" | "f \<noteq> []" "255 \<le> length (first_line f)" by linarith
  then show ?case
  proof cases
    case 1
    then show ?thesis using long_loop_eqs(2) [OF less.prems(1), of f "[]" True] by (simp add: fgets_line)
  next
    case 2
    show ?thesis
    proof (cases "10 \<in> set f")
      case True
      then show ?thesis using long_loop_eqs(3) [OF less.prems(1), of f] less.prems(2) 2 step [OF short_not_full(1) [OF 2(2)]]
        by (simp add: fgets_line)
    next
      case False
      then show ?thesis using long_loop_eqs(3) [OF less.prems(1), of f] less.prems(2) 2 step [OF short_not_full(2) [OF 2(2) False]] after_line_end [OF False]
        by (simp add: fgets_line)
    qed
  next
    case 3
    have "length (drop 255 f) < length f" "0 \<notin> set (drop 255 f)" using 3(1) less.prems(2) by (auto dest: in_set_dropD)
    from less.hyps [OF this(1) full_prefix [OF 3(2)] this(2)]
    obtain ll b where "long_loop (take 255 f) 1 (drop 255 f) False = (ll, b, after_line (drop 255 f), 10 \<notin> set (drop 255 f))" "ll \<noteq> 0"
      by blast
    moreover have "10 \<in> set (drop 255 f) \<longleftrightarrow> 10 \<in> set f" by (rule newline_in_drop [OF 3(2)])
    ultimately show ?thesis using long_loop_eqs(3) [OF less.prems(1), of f "take 255 f" "drop 255 f" False] 3 less.prems(2) after_line_drop [OF 3(2)]
      by (simp add: fgets_line)
  qed
qed

text \<open>The reading loop hands on exactly the lines of fewer than 255 characters, in order.\<close>

fun fold_lines :: "'re regex_lib \<Rightarrow> acl_section \<times> 're acl \<Rightarrow> bytes list \<Rightarrow> (acl_section \<times> 're acl) option" where
  "fold_lines lib st [] = Some st"
| "fold_lines lib st (l # ls) = (case acl_line lib st l of None \<Rightarrow> None | Some st \<Rightarrow> fold_lines lib st ls)"

lemma chomp_line: "10 \<notin> set l \<Longrightarrow> chomp (l @ [10]) = l" "10 \<notin> set l \<Longrightarrow> chomp l = l"
  by (simp_all add: chomp_def) (metis last_in_set)

lemma acl_line_newline: "10 \<notin> set l \<Longrightarrow> acl_line lib st (l @ [10]) = acl_line lib st l"
  by (simp add: acl_line_def chomp_line)

lemma acl_loop_eof: "acl_loop lib f True st = Some st"
  by (simp add: acl_loop.simps)

lemma acl_loop_lines:
  "0 \<notin> set f \<Longrightarrow> acl_loop lib f False st = fold_lines lib st (filter (\<lambda>l. length l < 255) (text_lines f))"
proof (induction "length f" arbitrary: f st rule: less_induct)
  case less
  show ?case
  proof (cases "f = []")
    case True
    then show ?thesis by (subst acl_loop.simps) (simp add: fgets_line acl_loop_eof)
  next
    case False
    let ?r = "after_line f"
    have z: "0 \<notin> set ?r" using less.prems after_line_set [of f] by blast
    have rest: "acl_loop lib ?r (10 \<notin> set f) st = fold_lines lib st (filter (\<lambda>l. length l < 255) (text_lines ?r))" for st
      using less.hyps [OF after_line_less [OF False] z, of st] after_line_end [of f] by (cases "10 \<in> set f") (simp_all add: acl_loop_eof)
    note lines = text_lines_step [OF False]
    show ?thesis
    proof (cases "length (first_line f) < 255")
      case True
      have "10 \<notin> set (first_line f)" using set_takeWhileD by fastforce
      then have l: "acl_line lib st (first_line f @ [10]) = acl_line lib st (first_line f)" by (rule acl_line_newline)
      show ?thesis
      proof (cases "10 \<in> set f")
        case nl: True
        then show ?thesis
          using rest True False less.prems l long_loop_eqs(1) [OF short_not_full(1) [OF True]]
          by (subst acl_loop.simps) (simp add: fgets_line lines split: option.splits)
      next
        case nl: False
        have whole: "first_line f = f" using nl by (metis (mono_tags, lifting) takeWhile_eq_all_conv)
        have "text_lines f = [f]" unfolding lines whole by (simp add: after_line_end [OF nl])
        moreover have "length f < 255" using True by (simp only: whole)
        ultimately show ?thesis
          using True False less.prems nl long_loop_eqs(1) [OF short_not_full(2) [OF True nl]]
          by (subst acl_loop.simps) (simp add: fgets_line acl_loop_eof split: option.splits)
      qed
    next
      case long: False
      then have fl: "255 \<le> length (first_line f)" by simp
      have "0 \<notin> set (drop 255 f)" using less.prems by (auto dest: in_set_dropD)
      from long_loop_skips [OF full_prefix [OF fl] this, of 0 False]
      obtain ll b where "long_loop (take 255 f) 0 (drop 255 f) False = (ll, b, ?r, 10 \<notin> set f)" "ll \<noteq> 0"
        using after_line_drop [OF fl] newline_in_drop [OF fl] by auto
      then show ?thesis using rest long False less.prems by (subst acl_loop.simps) (simp add: fgets_line lines)
    qed
  qed
qed

section \<open>The lists hold the items\<close>

definition addrs :: "item list \<Rightarrow> cork_ip set" where
  "addrs is = \<Union> (item_addrs ` set is)"

fun item_rule :: "'re regex_lib \<Rightarrow> item \<Rightarrow> 're rule list" where
  "item_rule lib (Pattern p) = [\<lparr>ru_pattern = Some p, ru_pattern_re = pcre_compile lib p\<rparr>]"
| "item_rule lib _ = []"

definition list_holds :: "'re regex_lib \<Rightarrow> 're acl_list \<Rightarrow> cork_ip set \<Rightarrow> 're rule list \<Rightarrow> bool" where
  "list_holds lib l S rs \<longleftrightarrow> v4.holds (list_ipv4 l) (V4 -` S) \<and> v6.holds (list_ipv6 l) (V6 -` S) \<and> list_rules l = rs"

lemma list_holds_init: "list_holds lib init_list {} []"
  by (simp add: list_holds_def init_list_def v4.holds_empty v6.holds_empty)

lemma vimage_network [simp]:
  "V4 -` ip_network (V4 b) n = (if n \<le> 32 then network b n else {})" "V6 -` ip_network (V4 b) n = {}"
  "V6 -` ip_network (V6 b) n = (if n \<le> 128 then network b n else {})" "V4 -` ip_network (V6 b) n = {}"
  by auto

lemma vimage_insert [simp]:
  "V4 -` insert (V4 b) S = insert b (V4 -` S)" "V6 -` insert (V4 b) S = V6 -` S"
  "V6 -` insert (V6 b) S = insert b (V6 -` S)" "V4 -` insert (V6 b) S = V4 -` S"
  by auto

lemma cork_ip_init_cases:
  obtains (addr) ip where "cork_ip_init str = (0, Some ip)" "ip_ok ip" | (name) "cork_ip_init str = (-1, None)"
proof -
  have "\<exists>ip. cork_ip_init str = (0, Some ip) \<or> cork_ip_init str = (-1, None)"
    by (auto simp: cork_ip_init_def cork_ipv4_init_def cork_ipv6_init_def split: option.splits)
  then show thesis using that cork_ip_init_ok by blast
qed

text \<open>An entry line adds what it says to the current list.\<close>

definition entry_item :: "bytes \<Rightarrow> item" where
  "entry_item line = (case snd (cork_ip_init (fst (parse_addr_cidr line))) of
     Some ip \<Rightarrow> Net ip (snd (parse_addr_cidr line)) | None \<Rightarrow> Pattern line)"

lemma add_entry_holds:
  assumes "list_holds lib l S rs"
  shows "\<exists>l'. add_entry lib l line = Some l' \<and> list_holds lib l' (S \<union> item_addrs (entry_item line)) (rs @ item_rule lib (entry_item line))"
proof -
  obtain host cidr where p: "parse_addr_cidr line = (host, cidr)" by fastforce
  have h: "v4.holds (list_ipv4 l) (V4 -` S)" "v6.holds (list_ipv6 l) (V6 -` S)" "list_rules l = rs"
    using assms by (simp_all add: list_holds_def)
  show ?thesis
  proof (cases host rule: cork_ip_init_cases)
    case (addr ip)
    show ?thesis
    proof (cases ip)
      case (V4 a)
      have len: "length a = 4" using addr V4 by simp
      have "\<exists>r s. (if cidr \<ge> 0 then ipset_ipv4_add_network (list_ipv4 l) a (nat cidr) else ipset_ipv4_add (list_ipv4 l) a) = Some (r, s) \<and>
          v4.holds s (V4 -` (S \<union> item_addrs (Net ip cidr)))"
        using v4.holds_add_network [OF h(1) len, of "nat cidr"] v4.holds_add [OF h(1) len] V4
        by (cases "cidr \<ge> 0") (auto simp del: ip_network.simps split: if_splits)
      then obtain r s where s: "(if cidr \<ge> 0 then ipset_ipv4_add_network (list_ipv4 l) a (nat cidr) else ipset_ipv4_add (list_ipv4 l) a) = Some (r, s)"
          "v4.holds s (V4 -` (S \<union> item_addrs (Net ip cidr)))" by blast
      moreover have "(V6 -` (S \<union> item_addrs (Net ip cidr))) = (V6 -` S)" using V4 by (simp del: ip_network.simps)
      ultimately show ?thesis using h p addr V4 by (simp add: add_entry_def entry_item_def list_holds_def del: item_addrs.simps)
    next
      case (V6 a)
      have len: "length a = 16" using addr V6 by simp
      have "\<exists>r s. (if cidr \<ge> 0 then ipset_ipv6_add_network (list_ipv6 l) a (nat cidr) else ipset_ipv6_add (list_ipv6 l) a) = Some (r, s) \<and>
          v6.holds s (V6 -` (S \<union> item_addrs (Net ip cidr)))"
        using v6.holds_add_network [OF h(2) len, of "nat cidr"] v6.holds_add [OF h(2) len] V6
        by (cases "cidr \<ge> 0") (auto simp del: ip_network.simps split: if_splits)
      then obtain r s where s: "(if cidr \<ge> 0 then ipset_ipv6_add_network (list_ipv6 l) a (nat cidr) else ipset_ipv6_add (list_ipv6 l) a) = Some (r, s)"
          "v6.holds s (V6 -` (S \<union> item_addrs (Net ip cidr)))" by blast
      moreover have "(V4 -` (S \<union> item_addrs (Net ip cidr))) = (V4 -` S)" using V6 by (simp del: ip_network.simps)
      ultimately show ?thesis using h p addr V6 by (simp add: add_entry_def entry_item_def list_holds_def del: item_addrs.simps)
    qed
  next
    case name
    then show ?thesis using h p
      by (simp add: add_entry_def entry_item_def list_holds_def accept_rule_arg_def new_rule_def init_rule_def add_rule_def Let_def)
  qed
qed

lemma list_holds_nothing:
  "item_addrs i = {} \<Longrightarrow> item_rule lib i = [] \<Longrightarrow> list_holds lib l (S \<union> item_addrs i) (rs @ item_rule lib i) \<longleftrightarrow> list_holds lib l S rs"
  by simp

lemma get_set_list [simp]: "get_list (set_list acl s l) t = (if s = t then l else get_list acl t)" "acl_mode (set_list acl s l) = acl_mode acl"
  by (cases s; cases t; simp)+

lemma get_list_mode [simp]: "get_list (acl\<lparr>acl_mode := m\<rparr>) s = get_list acl s"
  by (cases s) simp_all

text \<open>One line: the heading moves on, the mode changes or the entry goes to the current list.\<close>

lemma line_item_entry: "line_item text = (let line = trimwhitespace (takeWhile (\<lambda>c. c \<noteq> chr (CHR ''#'')) text) in
    if line = [] then Blank
    else if line = cstr ''[outbound_block_list]'' then Select Outbound
    else if line = cstr ''[black_list]'' \<or> line = cstr ''[bypass_list]'' then Select Black
    else if line = cstr ''[white_list]'' \<or> line = cstr ''[proxy_list]'' then Select White
    else if line = cstr ''[reject_all]'' \<or> line = cstr ''[bypass_all]'' then Mode WHITE_LIST
    else if line = cstr ''[accept_all]'' \<or> line = cstr ''[proxy_all]'' then Mode BLACK_LIST
    else entry_item line)"
  by (simp only: line_item_def entry_item_def)

lemma entry_item_other: "entry_item line \<noteq> Select s" "entry_item line \<noteq> Mode m" "entry_item line \<noteq> Blank"
  by (simp_all add: entry_item_def split: option.splits)

definition line_effect :: "'re regex_lib \<Rightarrow> item \<Rightarrow> acl_section \<times> 're acl \<Rightarrow> acl_section \<times> 're acl \<Rightarrow> bool" where
  "line_effect lib i st st' \<longleftrightarrow>
    (case i of
       Select s \<Rightarrow> st' = (s, snd st)
     | Mode m \<Rightarrow> st' = (fst st, (snd st)\<lparr>acl_mode := m\<rparr>)
     | Blank \<Rightarrow> st' = st
     | _ \<Rightarrow> fst st' = fst st \<and> acl_mode (snd st') = acl_mode (snd st) \<and>
         (\<forall>s. s \<noteq> fst st \<longrightarrow> get_list (snd st') s = get_list (snd st) s) \<and>
         (\<forall>S rs. list_holds lib (get_list (snd st) (fst st)) S rs \<longrightarrow>
            list_holds lib (get_list (snd st') (fst st)) (S \<union> item_addrs i) (rs @ item_rule lib i)))"

lemma if_both: "(b \<Longrightarrow> P x y) \<Longrightarrow> (\<not> b \<Longrightarrow> P x' y') \<Longrightarrow> P (if b then x else x') (if b then y else y')"
  by simp

lemma acl_line_effect:
  assumes "10 \<notin> set text" "list_holds lib (get_list acl cur) S rs"
  shows "\<exists>st'. acl_line lib (cur, acl) text = Some st' \<and> line_effect lib (line_item text) (cur, acl) st'"
proof -
  define Q where "Q r i \<longleftrightarrow> (\<exists>st'. r = Some st' \<and> line_effect lib i (cur, acl) st')" for r i
  define line where "line = trimwhitespace (takeWhile (\<lambda>c. c \<noteq> chr (CHR ''#'')) text)"
  have heads: "Q (Some (cur, acl)) Blank" "Q (Some (s, acl)) (Select s)" "Q (Some (cur, acl\<lparr>acl_mode := m\<rparr>)) (Mode m)" for s m
    by (simp_all add: Q_def line_effect_def)
  obtain l' where l': "add_entry lib (get_list acl cur) line = Some l'" using add_entry_holds [OF assms(2)] by blast
  have "list_holds lib l' (S \<union> item_addrs (entry_item line)) (rs @ item_rule lib (entry_item line))"
    if "list_holds lib (get_list acl cur) S rs" for S rs
    using add_entry_holds [OF that, of line] l' by simp
  then have entry: "Q (do { l \<leftarrow> add_entry lib (get_list acl cur) line; Some (cur, set_list acl cur l) }) (entry_item line)"
    using l' entry_item_other [of line] by (cases "entry_item line") (auto simp: line_effect_def Q_def)
  have "Q (acl_line lib (cur, acl) text) (line_item text)"
    unfolding acl_line_def line_item_entry Let_def chomp_line(2) [OF assms(1)] line_def [symmetric] prod.case
    by (intro if_both [where P = Q] heads entry)
  then show ?thesis by (simp add: Q_def)
qed

definition item_rules :: "'re regex_lib \<Rightarrow> item list \<Rightarrow> 're rule list" where
  "item_rules lib is = concat (map (item_rule lib) is)"

lemma items_simps [simp]:
  "addrs [] = {}" "addrs (i # is) = item_addrs i \<union> addrs is" "addrs (is @ js) = addrs is \<union> addrs js"
  "item_rules lib [] = []" "item_rules lib (i # is) = item_rule lib i @ item_rules lib is" "item_rules lib (is @ js) = item_rules lib is @ item_rules lib js"
  by (simp_all add: addrs_def item_rules_def Un_assoc)

lemma fold_lines_holds:
  assumes "\<And>s. list_holds lib (get_list acl s) (addrs (pre s)) (item_rules lib (pre s))" "\<forall>l\<in>set ls. 10 \<notin> set l"
  shows "\<exists>cur' acl'. fold_lines lib (cur, acl) ls = Some (cur', acl') \<and>
    (\<forall>s. list_holds lib (get_list acl' s) (addrs (pre s @ items_of s cur (map line_item ls))) (item_rules lib (pre s @ items_of s cur (map line_item ls)))) \<and>
    acl_mode acl' = last_mode (acl_mode acl) (map line_item ls)"
  using assms
proof (induction ls arbitrary: cur acl pre)
  case (Cons l ls)
  let ?i = "line_item l" and ?is = "map line_item ls"
  obtain c a where st: "acl_line lib (cur, acl) l = Some (c, a)" "line_effect lib ?i (cur, acl) (c, a)"
    using acl_line_effect [OF _ Cons.prems(1) [of cur], of l] Cons.prems(2) by fastforce
  define pre' where "pre' s = (case ?i of Select _ \<Rightarrow> pre s | _ \<Rightarrow> if s = cur then pre s @ [?i] else pre s)" for s
  have items: "pre' s @ items_of s c ?is = pre s @ items_of s cur (?i # ?is)" for s
    using st(2) by (cases ?i) (auto simp: pre'_def line_effect_def)
  have "list_holds lib (get_list a s) (addrs (pre' s)) (item_rules lib (pre' s))" for s
    using st(2) Cons.prems(1) [of s] by (cases ?i) (auto simp: pre'_def line_effect_def)
  from Cons.IH [OF this, of c] Cons.prems(2) obtain cur' acl' where
    r: "fold_lines lib (c, a) ls = Some (cur', acl')" "acl_mode acl' = last_mode (acl_mode a) ?is"
      "\<And>s. list_holds lib (get_list acl' s) (addrs (pre' s @ items_of s c ?is)) (item_rules lib (pre' s @ items_of s c ?is))"
    by auto
  moreover have "last_mode (acl_mode a) ?is = last_mode (acl_mode acl) (?i # ?is)"
    using st(2) by (cases ?i) (auto simp: line_effect_def)
  ultimately show ?case using st(1) unfolding items by simp
qed simp

section \<open>Lookups\<close>

lemma find_rule: "find P xs \<noteq> None \<longleftrightarrow> (\<exists>x\<in>set xs. P x)"
  by (induction xs) auto

lemma lookup_items: "(\<exists>r. lookup_rule lib (item_rules lib is) (Some host) = Some r) \<longleftrightarrow> (\<exists>i\<in>set is. item_matches lib i host)"
proof -
  have "(\<exists>r\<in>set (item_rule lib i). exec_re lib (ru_pattern_re r) host \<ge> 0) \<longleftrightarrow> item_matches lib i host" for i
    by (cases i) simp_all
  moreover have "(\<exists>r. lookup_rule lib (item_rules lib is) (Some host) = Some r) \<longleftrightarrow> (\<exists>r\<in>set (item_rules lib is). exec_re lib (ru_pattern_re r) host \<ge> 0)"
    unfolding lookup_rule_def Let_def option.case find_rule [symmetric] by simp
  ultimately show ?thesis by (simp add: item_rules_def)
qed

text \<open>The lists hold the address sets and the rules of the items.\<close>

definition acl_holds :: "'re regex_lib \<Rightarrow> 're acl \<Rightarrow> (acl_section \<Rightarrow> cork_ip set) \<Rightarrow> (acl_section \<Rightarrow> item list) \<Rightarrow> bool" where
  "acl_holds lib acl A I \<longleftrightarrow> (\<forall>s. list_holds lib (get_list acl s) (A s) (item_rules lib (I s)))"

lemma acl_holdsD:
  assumes "acl_holds lib acl A I"
  shows "length a = 4 \<Longrightarrow> ipset_contains_ipv4 (list_ipv4 (get_list acl s)) a = Some (V4 a \<in> A s)"
    "length a = 16 \<Longrightarrow> ipset_contains_ipv6 (list_ipv6 (get_list acl s)) a = Some (V6 a \<in> A s)"
    "list_rules (get_list acl s) = item_rules lib (I s)"
  using assms v4.holds_member [of "list_ipv4 (get_list acl s)" "V4 -` A s" a] v6.holds_member [of "list_ipv6 (get_list acl s)" "V6 -` A s" a]
  by (auto simp: acl_holds_def list_holds_def)

lemmas acl_list_facts = acl_holdsD [where s = Black, simplified] acl_holdsD [where s = White, simplified]
  acl_holdsD [where s = Outbound, simplified]

definition in_list :: "'re regex_lib \<Rightarrow> (acl_section \<Rightarrow> cork_ip set) \<Rightarrow> (acl_section \<Rightarrow> item list) \<Rightarrow> acl_section \<Rightarrow> bytes \<Rightarrow> bool" where
  "in_list lib A I s host \<longleftrightarrow>
    (case snd (cork_ip_init host) of Some ip \<Rightarrow> ip \<in> A s | None \<Rightarrow> (\<exists>i\<in>set (I s). item_matches lib i host))"

lemma acl_lookups:
  assumes "acl_holds lib acl A I"
  shows "acl_match_host lib acl host =
      Some (if in_list lib A I Black host then 1 else if in_list lib A I White host then -1 else 0)"
    "outbound_block_match_host lib acl host = Some (if in_list lib A I Outbound host then 1 else 0)"
proof -
  note facts = acl_list_facts [OF assms]
  have "acl_match_host lib acl host =
      Some (if in_list lib A I Black host then 1 else if in_list lib A I White host then -1 else 0) \<and>
    outbound_block_match_host lib acl host = Some (if in_list lib A I Outbound host then 1 else 0)"
  proof (cases host rule: cork_ip_init_cases)
    case (addr ip)
    then show ?thesis using facts by (cases ip) (simp_all add: acl_match_host_def outbound_block_match_host_def in_list_def)
  next
    case name
    then show ?thesis using facts by (simp add: acl_match_host_def outbound_block_match_host_def in_list_def lookup_items)
  qed
  then show "acl_match_host lib acl host =
      Some (if in_list lib A I Black host then 1 else if in_list lib A I White host then -1 else 0)"
    "outbound_block_match_host lib acl host = Some (if in_list lib A I Outbound host then 1 else 0)" by simp_all
qed

lemma text_lines_no_newline: "l \<in> set (text_lines f) \<Longrightarrow> 10 \<notin> set l"
  by (induction f arbitrary: l) (auto split: if_splits list.splits)

lemma init_acl_holds:
  assumes "0 \<notin> set f"
  obtains acl' where "init_acl lib acl (Some f) = Some (0, acl')" "acl_mode acl' = last_mode (acl_mode acl) (read_items f)"
    "acl_holds lib acl' (\<lambda>s. addrs (items_of s Black (read_items f))) (\<lambda>s. items_of s Black (read_items f))"
proof -
  let ?acl = "\<lparr>black_list = init_list, white_list = init_list, outbound_block_list = init_list, acl_mode = acl_mode acl\<rparr>"
  let ?ls = "filter (\<lambda>l. length l < 255) (text_lines f)"
  have "list_holds lib (get_list ?acl s) (addrs []) (item_rules lib [])" for s
    using list_holds_init by (cases s) simp_all
  from fold_lines_holds [OF this, of ?ls Black] obtain cur' acl' where r: "fold_lines lib (Black, ?acl) ?ls = Some (cur', acl')"
      "acl_mode acl' = last_mode (acl_mode acl) (read_items f)"
      "\<forall>s. list_holds lib (get_list acl' s) (addrs (items_of s Black (read_items f))) (item_rules lib (items_of s Black (read_items f)))"
    using text_lines_no_newline [of _ f] by (auto simp: read_items_def)
  then show thesis using that [of acl'] by (simp add: init_acl_def acl_loop_lines [OF assms] acl_holds_def)
qed

section \<open>Changes at run time\<close>

datatype edit = Add_ip bytes | Remove_ip bytes

fun apply_edit :: "'re acl \<Rightarrow> edit \<Rightarrow> (int \<times> 're acl) option" where
  "apply_edit acl (Add_ip ip) = acl_add_ip acl ip"
| "apply_edit acl (Remove_ip ip) = acl_remove_ip acl ip"

fun run_edits :: "'re acl \<Rightarrow> edit list \<Rightarrow> 're acl option" where
  "run_edits acl [] = Some acl"
| "run_edits acl (e # es) = (case apply_edit acl e of None \<Rightarrow> None | Some (r, acl) \<Rightarrow> run_edits acl es)"

fun edit_set :: "cork_ip set \<Rightarrow> edit \<Rightarrow> cork_ip set" where
  "edit_set S (Add_ip str) = (case snd (cork_ip_init str) of Some ip \<Rightarrow> S \<union> {ip} | None \<Rightarrow> S)"
| "edit_set S (Remove_ip str) = (case snd (cork_ip_init str) of Some ip \<Rightarrow> S - {ip} | None \<Rightarrow> S)"

lemma vimage_minus [simp]:
  "V4 -` (S - {V4 b}) = V4 -` S - {b}" "V6 -` (S - {V4 b}) = V6 -` S"
  "V6 -` (S - {V6 b}) = V6 -` S - {b}" "V4 -` (S - {V6 b}) = V4 -` S"
  by auto

lemma get_list_black: "get_list (acl\<lparr>black_list := l\<rparr>) s = (if s = Black then l else get_list acl s)"
  by (cases s) simp_all

lemma edit_holds:
  assumes "acl_holds lib acl A I"
  obtains r acl' where "apply_edit acl e = Some (r, acl')" "acl_holds lib acl' (A(Black := edit_set (A Black) e)) I" "acl_mode acl' = acl_mode acl"
    "r = (case e of Add_ip str \<Rightarrow> fst (cork_ip_init str) | Remove_ip str \<Rightarrow> fst (cork_ip_init str))"
proof -
  define str where "str = (case e of Add_ip str \<Rightarrow> str | Remove_ip str \<Rightarrow> str)"
  have h: "v4.holds (list_ipv4 (black_list acl)) (V4 -` A Black)" "v6.holds (list_ipv6 (black_list acl)) (V6 -` A Black)"
      "list_rules (black_list acl) = item_rules lib (I Black)"
    using assms [unfolded acl_holds_def, rule_format, of Black] by (simp_all add: list_holds_def)
  have upd: "acl_holds lib (acl\<lparr>black_list := l\<rparr>) (A(Black := S)) I"
    if "list_holds lib l S (item_rules lib (I Black))" for l S
    using assms that by (simp add: acl_holds_def get_list_black)
  show thesis
  proof (cases str rule: cork_ip_init_cases)
    case name
    then have "edit_set (A Black) e = A Black \<and> apply_edit acl e = Some (-1, acl) \<and>
      (case e of Add_ip str \<Rightarrow> fst (cork_ip_init str) | Remove_ip str \<Rightarrow> fst (cork_ip_init str)) = -1"
      unfolding str_def by (cases e) (simp_all add: acl_add_ip_def acl_remove_ip_def)
    then show thesis using that [of "-1" acl] assms by (metis fun_upd_triv)
  next
    case (addr ip)
    have add4: "\<exists>r s. ipset_ipv4_add (list_ipv4 (black_list acl)) a = Some (r, s) \<and> v4.holds s (insert a (V4 -` A Black))"
      "\<exists>r s. ipset_ipv4_remove (list_ipv4 (black_list acl)) a = Some (r, s) \<and> v4.holds s (V4 -` A Black - {a})" if "length a = 4" for a
      using v4.holds_add [OF h(1) that] v4.holds_remove [OF h(1) that] by blast+
    have add6: "\<exists>r s. ipset_ipv6_add (list_ipv6 (black_list acl)) a = Some (r, s) \<and> v6.holds s (insert a (V6 -` A Black))"
      "\<exists>r s. ipset_ipv6_remove (list_ipv6 (black_list acl)) a = Some (r, s) \<and> v6.holds s (V6 -` A Black - {a})" if "length a = 16" for a
      using v6.holds_add [OF h(2) that] v6.holds_remove [OF h(2) that] by blast+
    have "\<exists>l. apply_edit acl e = Some (0, acl\<lparr>black_list := l\<rparr>) \<and> list_holds lib l (edit_set (A Black) e) (item_rules lib (I Black))"
    proof (cases ip)
      case (V4 a)
      then have "length a = 4" using addr by simp
      from add4 [OF this] show ?thesis using addr V4 h
        by (cases e) (auto simp: str_def acl_add_ip_def acl_remove_ip_def list_holds_def)
    next
      case (V6 a)
      then have "length a = 16" using addr by simp
      from add6 [OF this] show ?thesis using addr V6 h
        by (cases e) (auto simp: str_def acl_add_ip_def acl_remove_ip_def list_holds_def)
    qed
    then obtain l where l: "apply_edit acl e = Some (0, acl\<lparr>black_list := l\<rparr>)"
      "list_holds lib l (edit_set (A Black) e) (item_rules lib (I Black))" by blast
    show thesis using that [OF l(1) upd [OF l(2)]] addr by (simp add: str_def split: edit.splits)
  qed
qed

lemma run_edits_holds:
  "acl_holds lib acl A I \<Longrightarrow> \<exists>acl'. run_edits acl es = Some acl' \<and> acl_mode acl' = acl_mode acl \<and>
     acl_holds lib acl' (A(Black := foldl edit_set (A Black) es)) I"
proof (induction es arbitrary: acl A)
  case (Cons e es)
  obtain r acl1 where e: "apply_edit acl e = Some (r, acl1)" "acl_holds lib acl1 (A(Black := edit_set (A Black) e)) I" "acl_mode acl1 = acl_mode acl"
    using edit_holds [OF Cons.prems] by metis
  from Cons.IH [OF e(2)] show ?case unfolding fun_upd_same fun_upd_upd using e by simp
qed (simp add: fun_upd_idem)

lemma addrs_covered: "in_list lib (\<lambda>s. addrs (I s)) I s host \<longleftrightarrow> covered lib (I s) host"
  by (simp add: in_list_def covered_def addrs_def split: option.splits)

section \<open>Properties\<close>

text \<open>C33 (refinement): a list file means what its lines say.  For a file without NUL bytes \<open>init_acl\<close> returns 0, and
  afterwards every lookup answers as the declarative reading of the file: the lines of fewer than 255 characters, each
  stripped of comment and surrounding space, assigned to the list named by the last heading (the black list before the
  first); a host is matched if one entry of the list covers its address, or, when it is no address, matches its name; the
  black list goes before the white list, and the mode is that of the last mode line, else the one before the call.\<close>

theorem acl_file_refinement:
  assumes "0 \<notin> set f"
  shows "\<exists>acl'. init_acl lib acl (Some f) = Some (0, acl') \<and>
    get_acl_mode acl' = last_mode (acl_mode acl) (read_items f) \<and>
    (\<forall>host. acl_match_host lib acl' host =
       Some (if covered lib (items_of Black Black (read_items f)) host then 1
             else if covered lib (items_of White Black (read_items f)) host then -1 else 0) \<and>
      outbound_block_match_host lib acl' host = Some (if covered lib (items_of Outbound Black (read_items f)) host then 1 else 0))"
  by (rule init_acl_holds [OF assms, of lib acl]) (simp add: get_acl_mode_def acl_lookups addrs_covered)

definition literal_lib :: "bytes regex_lib" where
  "literal_lib = \<lparr>pcre_compile = Some, pcre_exec = (\<lambda>re name. if re = name then 0 else -1)\<rparr>"

definition acl_zero :: "bytes acl" where
  "acl_zero = \<lparr>black_list = init_list, white_list = init_list, outbound_block_list = init_list, acl_mode = BLACK_LIST\<rparr>"

definition demo_file :: bytes where
  "demo_file = cstr ''10.0.0.0/8 # lan'' @ [10] @ cstr ''[reject_all]'' @ [10] @ cstr ''[white_list]'' @ [10] @ cstr ''example'' @ [10]"

lemma demo_facts:
  "0 \<notin> set demo_file"
  "read_items demo_file = [Net (V4 [10, 0, 0, 0]) 8, Mode WHITE_LIST, Select White, Pattern (cstr ''example'')]"
  "cork_ip_init (cstr ''10.1.2.3'') = (0, Some (V4 [10, 1, 2, 3]))"
  "cork_ip_init (cstr ''example'') = (-1, None)"
  "[10, 1, 2, 3] \<in> network [10, 0, 0, 0] 8"
proof -
  show "[10, 1, 2, 3] \<in> network [10, 0, 0, 0] 8" by (auto simp: network_def IPSET_BIT_GET_bit)
qed code_simp+

theorem acl_file_refinement_witness:
  "\<exists>acl'. init_acl literal_lib acl_zero (Some demo_file) = Some (0, acl') \<and> get_acl_mode acl' = WHITE_LIST \<and>
    acl_match_host literal_lib acl' (cstr ''10.1.2.3'') = Some 1 \<and> acl_match_host literal_lib acl' (cstr ''example'') = Some (-1)"
proof -
  have "covered literal_lib [Net (V4 [10, 0, 0, 0]) 8, Mode WHITE_LIST] (cstr ''10.1.2.3'')"
    "covered literal_lib [Pattern (cstr ''example'')] (cstr ''example'')"
    "\<not> covered literal_lib [Net (V4 [10, 0, 0, 0]) 8, Mode WHITE_LIST] (cstr ''example'')"
    using demo_facts(5) by (simp_all add: covered_def demo_facts literal_lib_def exec_re_def)
  with acl_file_refinement [OF demo_facts(1), of literal_lib acl_zero] show ?thesis by (auto simp: demo_facts)
qed

text \<open>C34 (functional): \<open>acl_add_ip\<close> and \<open>acl_remove_ip\<close> after \<open>init_acl\<close>, in any number and order, change the answer
  for exactly the addresses named: the black list holds the addresses of its entries with the edits applied in turn (an
  argument that is no address is refused with -1 and changes nothing), also where the removed address is covered by a
  network entry; names, the white list and the outbound list keep their answers.\<close>

theorem acl_edits:
  assumes "0 \<notin> set f" "init_acl lib acl (Some f) = Some (0, acl1)"
  shows "\<exists>acl2. run_edits acl1 es = Some acl2 \<and> get_acl_mode acl2 = get_acl_mode acl1 \<and>
    (\<forall>host. outbound_block_match_host lib acl2 host = outbound_block_match_host lib acl1 host) \<and>
    (\<forall>host. acl_match_host lib acl2 host =
       (case snd (cork_ip_init host) of
          None \<Rightarrow> acl_match_host lib acl1 host
        | Some ip \<Rightarrow>
            Some (if ip \<in> foldl edit_set (addrs (items_of Black Black (read_items f))) es then 1
                  else if ip \<in> addrs (items_of White Black (read_items f)) then -1 else 0)))"
proof -
  let ?I = "\<lambda>s. items_of s Black (read_items f)"
  have h: "acl_holds lib acl1 (\<lambda>s. addrs (?I s)) ?I"
    by (rule init_acl_holds [OF assms(1), of lib acl]) (use assms(2) in simp)
  from run_edits_holds [OF h, of es] obtain acl2 where r: "run_edits acl1 es = Some acl2" "acl_mode acl2 = acl_mode acl1"
    and h2: "acl_holds lib acl2 ((\<lambda>s. addrs (?I s))(Black := foldl edit_set (addrs (?I Black)) es)) ?I" by blast
  show ?thesis
    using r acl_lookups [OF h] acl_lookups [OF h2] by (auto simp: get_acl_mode_def in_list_def split: option.splits)
qed

theorem acl_edits_witness:
  "\<exists>acl1 acl2. init_acl literal_lib acl_zero (Some demo_file) = Some (0, acl1) \<and>
    run_edits acl1 [Remove_ip (cstr ''10.1.2.3'')] = Some acl2 \<and>
    acl_match_host literal_lib acl1 (cstr ''10.1.2.3'') = Some 1 \<and> acl_match_host literal_lib acl2 (cstr ''10.1.2.3'') = Some 0"
proof -
  obtain acl1 where i: "init_acl literal_lib acl_zero (Some demo_file) = Some (0, acl1)"
    using init_acl_holds [OF demo_facts(1)] by metis
  have b: "V4 [10, 1, 2, 3] \<in> addrs [Net (V4 [10, 0, 0, 0]) 8, Mode WHITE_LIST]" using demo_facts(5) by (simp add: addrs_def)
  let ?h = "cstr ''10.1.2.3''" and ?S = "addrs (items_of Black Black (read_items demo_file))"
  have edited: "\<exists>acl2. run_edits acl1 es = Some acl2 \<and>
      acl_match_host literal_lib acl2 ?h = Some (if V4 [10, 1, 2, 3] \<in> foldl edit_set ?S es then 1 else 0)" for es
  proof -
    obtain acl2 where "run_edits acl1 es = Some acl2" "acl_match_host literal_lib acl2 ?h =
       (case snd (cork_ip_init ?h) of None \<Rightarrow> acl_match_host literal_lib acl1 ?h
        | Some ip \<Rightarrow> Some (if ip \<in> foldl edit_set ?S es then 1 else if ip \<in> addrs (items_of White Black (read_items demo_file)) then -1 else 0))"
      using acl_edits [OF demo_facts(1) i, of es] by blast
    then show ?thesis by (simp add: demo_facts addrs_def)
  qed
  from edited [of "[]"] edited [of "[Remove_ip ?h]"] i b show ?thesis by (simp add: demo_facts)
qed

text \<open>A slash makes everything before the last slash the address and \<open>atoi\<close> of the rest the prefix length: a prefix
  that is no number is 0, which is every address of the version; a negative one is ignored.\<close>

lemma empty_prefix_is_everything:
  "line_item (cstr ''1.2.3.4/'') = Net (V4 [1, 2, 3, 4]) 0" "line_item (cstr ''1.2.3.4/x'') = Net (V4 [1, 2, 3, 4]) 0"
  "item_addrs (Net (V4 [1, 2, 3, 4]) 0) = {V4 a | a. length a = 4}"
proof -
  show "item_addrs (Net (V4 [1, 2, 3, 4]) 0) = {V4 a | a. length a = 4}" by (auto simp: network_all)
qed code_simp+

lemma negative_prefix_is_single: "line_item (cstr ''1.2.3.4/-8'') = Net (V4 [1, 2, 3, 4]) (-8)"
  "item_addrs (Net (V4 [1, 2, 3, 4]) (-8)) = {V4 [1, 2, 3, 4]}"
proof -
  show "item_addrs (Net (V4 [1, 2, 3, 4]) (-8)) = {V4 [1, 2, 3, 4]}" by simp
qed code_simp

end
