(* ===== verification/Server.thy ===== *)
theory Server
  imports UdpRelay Acl
begin

text \<open>
  \<open>shadowsocks-libev/src/server.c\<close>: the TCP relay.  Every connection from a client is a \<open>server_t\<close>, the connection
  to its destination a \<open>remote_t\<close>, a name being resolved a \<open>query_t\<close>; they point at each other, so the heap is
  explicit: an object is named by a number and what is not in the heap has been freed.  A callback ends in \<open>Done\<close>
  with the new state, in \<open>Exit\<close> when an assertion of the cipher code ends the process, and in \<open>Undefined\<close> when it
  uses a freed object or leaves an array.  Watchers are the flags of their objects.  What the callbacks do to the
  outside world is appended to \<open>ts_trace\<close>.
\<close>

section \<open>Data\<close>

definition BUF_SIZE :: nat where "BUF_SIZE = 2048"
definition MAX_FRAG :: int where "MAX_FRAG = 1"

datatype stage = STAGE_ERROR | STAGE_INIT | STAGE_HANDSHAKE | STAGE_PARSE | STAGE_SNI | STAGE_RESOLVE | STAGE_STREAM

record 'e tcp_server =
  sv_fd :: int
  sv_stage :: stage
  sv_frag :: int
  sv_buf :: buffer
  sv_e_ctx :: "'e cipher_ctx"
  sv_d_ctx :: "'e cipher_ctx"
  sv_recv_io :: bool
  sv_send_io :: bool
  sv_watcher :: bool
  sv_remote :: "nat option"
  sv_query :: "nat option"

record tcp_remote =
  rm_fd :: int
  rm_buf :: buffer
  rm_recv_io :: bool
  rm_send_io :: bool
  rm_recv_connected :: bool
  rm_send_connected :: bool
  rm_server :: "nat option"

record tcp_query =
  qy_server :: "nat option"
  qy_hostname :: bytes

text \<open>What the trace records, by connection: bytes received from the client and from the destination, plaintext and
  ciphertext that the cipher functions put out, bytes the kernel accepted for the destination or the client, names
  given to c-ares, connections accepted, refused and closed.\<close>

datatype tcp_event =
  Accepted nat | Refused int | FromClient nat bytes | FromRemote nat bytes | Plain nat bytes | Cipher nat bytes
| ToRemote nat bytes | ToClient nat bytes | AskName bytes | CloseRemote nat | CloseServer nat

text \<open>The statics of the file, the event loop's watchers included in their objects.  \<open>ts_acl\<close> is \<open>None\<close> when access
  control is off.\<close>

record ('e, 're) tcp_state =
  ts_crypto :: "'e crypto"
  ts_globals :: crypto_globals
  ts_servers :: "nat \<rightharpoonup> 'e tcp_server"
  ts_remotes :: "nat \<rightharpoonup> tcp_remote"
  ts_queries :: "nat \<rightharpoonup> tcp_query resolv_query"
  ts_next :: nat
  ts_connections :: "nat list"
  ts_block_list :: block_list
  ts_acl :: "'re acl option"
  ts_plugin :: bool
  ts_bind_address :: "bytes option"
  ts_fast_open :: bool
  ts_tx :: "64 word"
  ts_rx :: "64 word"
  ts_trace :: "tcp_event list"

text \<open>What the system calls of one callback answer.  \<open>Received []\<close> is the end of the stream.\<close>

datatype recv_result = Received bytes | RecvAgain | RecvError
datatype send_result = SendOk nat | SendAgain | SendError
datatype fast_result = FastSent nat | FastInProgress | FastUnsupported | FastError

record tcp_env =
  te_recv :: recv_result
  te_send :: send_result
  te_fast :: fast_result
  te_socket :: int
  te_bind :: "sockaddr \<Rightarrow> int"
  te_connect :: bool
  te_peer :: "int \<Rightarrow> sockaddr option"
  te_now :: real
  te_later :: real
  te_malloc :: bool
  te_calloc :: bool
  te_random :: bytes

section \<open>The heap\<close>

definition get_server :: "('e, 're) tcp_state \<Rightarrow> nat \<Rightarrow> 'e tcp_server outcome" where
  "get_server s sv = (case ts_servers s sv of Some server \<Rightarrow> Done server | None \<Rightarrow> Undefined)"

definition get_remote :: "('e, 're) tcp_state \<Rightarrow> nat \<Rightarrow> tcp_remote outcome" where
  "get_remote s r = (case ts_remotes s r of Some remote \<Rightarrow> Done remote | None \<Rightarrow> Undefined)"

definition get_query :: "('e, 're) tcp_state \<Rightarrow> nat \<Rightarrow> tcp_query resolv_query outcome" where
  "get_query s q = (case ts_queries s q of Some query \<Rightarrow> Done query | None \<Rightarrow> Undefined)"

definition upd_server :: "nat \<Rightarrow> ('e tcp_server \<Rightarrow> 'e tcp_server) \<Rightarrow> ('e, 're) tcp_state \<Rightarrow> ('e, 're) tcp_state outcome" where
  "upd_server sv f s = obind (get_server s sv) (\<lambda>server. Done (s\<lparr>ts_servers := (ts_servers s)(sv \<mapsto> f server)\<rparr>))"

definition upd_remote :: "nat \<Rightarrow> (tcp_remote \<Rightarrow> tcp_remote) \<Rightarrow> ('e, 're) tcp_state \<Rightarrow> ('e, 're) tcp_state outcome" where
  "upd_remote r f s = obind (get_remote s r) (\<lambda>remote. Done (s\<lparr>ts_remotes := (ts_remotes s)(r \<mapsto> f remote)\<rparr>))"

definition upd_query :: "nat \<Rightarrow> (tcp_query \<Rightarrow> tcp_query) \<Rightarrow> ('e, 're) tcp_state \<Rightarrow> ('e, 're) tcp_state outcome" where
  "upd_query q f s = obind (get_query s q) (\<lambda>query.
     Done (s\<lparr>ts_queries := (ts_queries s)(q \<mapsto> query\<lparr>rq_data := f (rq_data query)\<rparr>)\<rparr>))"

definition emit :: "tcp_event \<Rightarrow> ('e, 're) tcp_state \<Rightarrow> ('e, 're) tcp_state" where
  "emit e s = s\<lparr>ts_trace := ts_trace s @ [e]\<rparr>"

section \<open>Creating and freeing\<close>

definition tcp_new_remote :: "int \<Rightarrow> ('e, 're) tcp_state \<Rightarrow> nat \<times> ('e, 're) tcp_state" where
  "tcp_new_remote fd s =
    (let remote = \<lparr>rm_fd = fd, rm_buf = balloc BUF_SIZE, rm_recv_io = False, rm_send_io = False,
                   rm_recv_connected = False, rm_send_connected = False, rm_server = None\<rparr>
     in (ts_next s, s\<lparr>ts_remotes := (ts_remotes s)(ts_next s \<mapsto> remote), ts_next := ts_next s + 1\<rparr>))"

definition tcp_free_remote :: "nat \<Rightarrow> ('e, 're) tcp_state \<Rightarrow> ('e, 're) tcp_state outcome" where
  "tcp_free_remote r s =
    obind (get_remote s r) (\<lambda>remote.
    obind (case rm_server remote of
             Some sv \<Rightarrow> upd_server sv (\<lambda>server. server\<lparr>sv_remote := None\<rparr>) s
           | None \<Rightarrow> Done s) (\<lambda>s.
    Done (s\<lparr>ts_remotes := (ts_remotes s)(r := None)\<rparr>)))"

definition tcp_close_and_free_remote :: "nat option \<Rightarrow> ('e, 're) tcp_state \<Rightarrow> ('e, 're) tcp_state outcome" where
  "tcp_close_and_free_remote remote s =
    (case remote of
       Some r \<Rightarrow>
         obind (upd_remote r (\<lambda>remote. remote\<lparr>rm_send_io := False, rm_recv_io := False\<rparr>) s) (\<lambda>s.
         tcp_free_remote r (emit (CloseRemote r) s))
     | None \<Rightarrow> Done s)"

definition tcp_new_server :: "tcp_env \<Rightarrow> int \<Rightarrow> ('e, 're) tcp_state \<Rightarrow> nat \<times> ('e, 're) tcp_state" where
  "tcp_new_server env fd s =
    (let cr = ts_crypto s;
         server = \<lparr>sv_fd = fd, sv_stage = STAGE_INIT, sv_frag = 0, sv_buf = balloc BUF_SIZE,
                   sv_e_ctx = cr_ctx_init cr (te_random env) (cr_cipher cr) True,
                   sv_d_ctx = cr_ctx_init cr (te_random env) (cr_cipher cr) False,
                   sv_recv_io = False, sv_send_io = False, sv_watcher = False, sv_remote = None, sv_query = None\<rparr>
     in (ts_next s, s\<lparr>ts_servers := (ts_servers s)(ts_next s \<mapsto> server), ts_next := ts_next s + 1,
                      ts_connections := ts_connections s @ [ts_next s]\<rparr>))"

definition tcp_free_server :: "nat \<Rightarrow> ('e, 're) tcp_state \<Rightarrow> ('e, 're) tcp_state outcome" where
  "tcp_free_server sv s =
    (let s = s\<lparr>ts_connections := removeAll sv (ts_connections s)\<rparr>
     in obind (get_server s sv) (\<lambda>server.
        obind (case sv_remote server of
                 Some r \<Rightarrow> upd_remote r (\<lambda>remote. remote\<lparr>rm_server := None\<rparr>) s
               | None \<Rightarrow> Done s) (\<lambda>s.
        Done (s\<lparr>ts_servers := (ts_servers s)(sv := None)\<rparr>))))"

definition tcp_close_and_free_server :: "nat \<Rightarrow> ('e, 're) tcp_state \<Rightarrow> ('e, 're) tcp_state outcome" where
  "tcp_close_and_free_server sv s =
    obind (get_server s sv) (\<lambda>server.
    obind (case sv_query server of
             Some q \<Rightarrow> obind (upd_query q (\<lambda>query. query\<lparr>qy_server := None\<rparr>) s)
                         (upd_server sv (\<lambda>server. server\<lparr>sv_query := None\<rparr>))
           | None \<Rightarrow> Done s) (\<lambda>s.
    obind (upd_server sv (\<lambda>server. server\<lparr>sv_send_io := False, sv_recv_io := False, sv_watcher := False\<rparr>) s) (\<lambda>s.
    tcp_free_server sv (emit (CloseServer sv) s))))"

text \<open>The end of most error branches.\<close>

definition close_both :: "nat option \<Rightarrow> nat \<Rightarrow> ('e, 're) tcp_state \<Rightarrow> ('e, 're) tcp_state outcome" where
  "close_both remote sv s = obind (tcp_close_and_free_remote remote s) (tcp_close_and_free_server sv)"

fun tcp_free_connections :: "nat list \<Rightarrow> ('e, 're) tcp_state \<Rightarrow> ('e, 're) tcp_state outcome" where
  "tcp_free_connections [] s = Done s"
| "tcp_free_connections (sv # svs) s =
    obind (get_server s sv) (\<lambda>server.
    obind (tcp_close_and_free_server sv s) (\<lambda>s.
    obind (tcp_close_and_free_remote (sv_remote server) s) (tcp_free_connections svs)))"

section \<open>Peers\<close>

definition get_peer_name :: "net_lib \<Rightarrow> tcp_env \<Rightarrow> int \<Rightarrow> bytes option" where
  "get_peer_name net env fd =
    (case te_peer env fd of
       None \<Rightarrow> None
     | Some addr \<Rightarrow>
         Some (if sa_family addr = AF_INET then inet_ntop4 net (sa_addr addr)
               else if sa_family addr = AF_INET6 then inet_ntop6 net (sa_addr addr) else []))"

definition reset_addr :: "net_lib \<Rightarrow> tcp_env \<Rightarrow> int \<Rightarrow> ('e, 're) tcp_state \<Rightarrow> ('e, 're) tcp_state" where
  "reset_addr net env fd s =
    (case get_peer_name net env fd of
       Some peer_name \<Rightarrow> s\<lparr>ts_block_list := snd (remove_from_block_list (ts_block_list s) peer_name)\<rparr>
     | None \<Rightarrow> s)"

definition report_addr :: "net_lib \<Rightarrow> tcp_env \<Rightarrow> int \<Rightarrow> int \<Rightarrow> ('e, 're) tcp_state \<Rightarrow> ('e, 're) tcp_state" where
  "report_addr net env fd level s =
    (case get_peer_name net env fd of
       Some peer_name \<Rightarrow>
         if peer_name \<noteq> cstr ''127.0.0.1''
         then s\<lparr>ts_block_list := snd (update_block_list (te_malloc env) (te_now env) (te_later env) (ts_block_list s) peer_name level)\<rparr>
         else s
     | None \<Rightarrow> s)"

section \<open>Connecting\<close>

definition fast_open_connect :: "tcp_env \<Rightarrow> nat \<Rightarrow> nat \<Rightarrow> ('e, 're) tcp_state \<Rightarrow> ('e, 're) tcp_state outcome" where
  "fast_open_connect env sv r s =
    (case te_fast env of
       FastSent n \<Rightarrow>
         obind (get_server s sv) (\<lambda>server.
         let k = min n (blen (sv_buf server)) in
         upd_server sv (\<lambda>server. server\<lparr>sv_buf := (sv_buf server)\<lparr>bidx := bidx (sv_buf server) + k, blen := blen (sv_buf server) - k\<rparr>\<rparr>)
           (emit (ToRemote r (take k (bdata (sv_buf server)))) s))
     | FastInProgress \<Rightarrow> Done s
     | FastUnsupported \<Rightarrow> Done (s\<lparr>ts_fast_open := False\<rparr>)
     | FastError \<Rightarrow> Done s)"

text \<open>The result is the new remote, or none.\<close>

definition connect_to_remote ::
  "net_lib \<Rightarrow> 're regex_lib \<Rightarrow> tcp_env \<Rightarrow> sockaddr \<Rightarrow> nat \<Rightarrow> ('e, 're) tcp_state \<Rightarrow> (nat option \<times> ('e, 're) tcp_state) outcome" where
  "connect_to_remote net re env addr sv s =
    (let ipstr = (if sa_family addr = AF_INET then inet_ntop4 net (sa_addr addr)
                  else if sa_family addr = AF_INET6 then inet_ntop6 net (sa_addr addr) else [])
     in if (case ts_acl s of Some acl \<Rightarrow> outbound_block_match_host re acl ipstr = Some 1 | None \<Rightarrow> False) then Done (None, s)
        else if te_socket env = -1 then Done (None, s)
        else if ts_bind_address s \<noteq> None \<and> bind_to_address net (te_bind env) (ts_bind_address s) = -1 then Done (None, s)
        else
          let (r, s) = tcp_new_remote (te_socket env) s
          in obind (if ts_fast_open s then fast_open_connect env sv r s else Done s) (\<lambda>s.
             if \<not> ts_fast_open s \<and> \<not> te_connect env
             then obind (tcp_close_and_free_remote (Some r) s) (\<lambda>s. Done (None, s))
             else Done (Some r, s)))"

text \<open>Linking a new remote to its server and handing over what the client has sent so far.\<close>

definition attach_remote :: "nat \<Rightarrow> nat \<Rightarrow> ('e, 're) tcp_state \<Rightarrow> ('e, 're) tcp_state outcome" where
  "attach_remote sv r s =
    obind (upd_server sv (\<lambda>server. server\<lparr>sv_remote := Some r\<rparr>) s) (\<lambda>s.
    obind (upd_remote r (\<lambda>remote. remote\<lparr>rm_server := Some sv\<rparr>) s) (\<lambda>s.
    obind (get_server s sv) (\<lambda>server.
    obind (if blen (sv_buf server) > 0
           then
             let buf = sv_buf server; data = take (blen buf) (drop (bidx buf) (bdata buf)) in
             obind (get_remote s r) (\<lambda>remote.
             let b = brealloc (rm_buf remote) (blen buf) BUF_SIZE in
             if bidx buf + blen buf > length (bdata buf) \<or> blen buf > length (bdata b) then Undefined
             else
               obind (upd_remote r (\<lambda>remote.
                 remote\<lparr>rm_buf := b\<lparr>bdata := write_at 0 data (bdata b), blen := blen buf, bidx := 0\<rparr>\<rparr>) s)
               (upd_server sv (\<lambda>server. server\<lparr>sv_buf := (sv_buf server)\<lparr>blen := 0, bidx := 0\<rparr>\<rparr>)))
           else Done s)
    (upd_remote r (\<lambda>remote. remote\<lparr>rm_send_io := True\<rparr>)))))"

section \<open>The request\<close>

text \<open>The address header at the front of the plaintext: refused, blocked, an address, or a name to resolve with its
  port; and the offset of the payload.\<close>

datatype tcp_request = Malformed_request | Blocked_request | Target sockaddr nat | Resolve bytes bytes nat

definition literal_target :: "net_lib \<Rightarrow> cork_ip \<Rightarrow> bytes \<Rightarrow> bytes \<Rightarrow> sockaddr" where
  "literal_target net ip host port =
    (case ip of
       V4 _ \<Rightarrow> sa_in (case inet_pton4 net host of Some a \<Rightarrow> a | None \<Rightarrow> replicate 4 0) port
     | V6 _ \<Rightarrow> sa_in6 (case inet_pton6 net host of Some a \<Rightarrow> a | None \<Rightarrow> replicate 16 0) port)"

definition parse_tcp_request ::
  "net_lib \<Rightarrow> 're regex_lib \<Rightarrow> 're acl option \<Rightarrow> bytes \<Rightarrow> nat \<Rightarrow> tcp_request option" where
  "parse_tcp_request net re acl data len =
    (case rd data 0 of
       None \<Rightarrow> None
     | Some atyp \<Rightarrow>
         if atyp AND ADDRTYPE_MASK = 1
         then
           if len \<ge> 4 + 3
           then (case rd_n (drop 1 data) 6 of
                   None \<Rightarrow> None
                 | Some f \<Rightarrow> Some (Target (sa_in (take 4 f) (drop 4 f)) 7))
           else Some Malformed_request
         else if atyp AND ADDRTYPE_MASK = 3
         then
           (case rd data 1 of
              None \<Rightarrow> None
            | Some name_len \<Rightarrow>
                if unat name_len + 4 \<le> len
                then (case rd_n (drop 2 data) (unat name_len + 2) of
                        None \<Rightarrow> None
                      | Some f \<Rightarrow>
                          let host = c_string (take (unat name_len) f @ [0]); port = drop (unat name_len) f; offset = unat name_len + 4
                          in Some (if (case acl of Some acl \<Rightarrow> outbound_block_match_host re acl host = Some 1 | None \<Rightarrow> False)
                                   then Blocked_request
                                   else (case snd (cork_ip_init host) of
                                           Some ip \<Rightarrow> Target (literal_target net ip host port) offset
                                         | None \<Rightarrow>
                                             if validate_hostname (Some (take (unat name_len) f @ [0])) (int (unat name_len)) = 0 then Malformed_request
                                             else Resolve host port offset)))
                else Some Malformed_request)
         else if atyp AND ADDRTYPE_MASK = 4
         then
           if len \<ge> 16 + 3
           then (case rd_n (drop 1 data) 18 of
                   None \<Rightarrow> None
                 | Some f \<Rightarrow> Some (Target (sa_in6 (take 16 f) (drop 16 f)) 19))
           else Some Malformed_request
         else Some Malformed_request)"

text \<open>\<open>STAGE_INIT\<close>: the first plaintext of the connection.\<close>

definition drop_header :: "nat \<Rightarrow> buffer \<Rightarrow> buffer option" where
  "drop_header offset b =
    (let len = blen b - offset
     in if offset + len > length (bdata b) then None
        else Some (b\<lparr>blen := len, bdata := write_at 0 (take len (drop offset (bdata b))) (bdata b)\<rparr>))"

text \<open>The \<open>memmove\<close> that removes the header from the server's buffer.\<close>

definition remove_header :: "nat \<Rightarrow> nat \<Rightarrow> ('e, 're) tcp_state \<Rightarrow> ('e, 're) tcp_state outcome" where
  "remove_header sv offset s =
    obind (get_server s sv) (\<lambda>server.
      case drop_header offset (sv_buf server) of
        None \<Rightarrow> Undefined
      | Some b \<Rightarrow> upd_server sv (\<lambda>server. server\<lparr>sv_buf := b\<rparr>) s)"

definition start_tcp_query :: "bytes \<Rightarrow> bytes \<Rightarrow> nat \<Rightarrow> ('e, 're) tcp_state \<Rightarrow> ('e, 're) tcp_state outcome" where
  "start_tcp_query host port sv s =
    (let q = ts_next s; query = \<lparr>qy_server = Some sv, qy_hostname = take 255 host\<rparr>;
         s = s\<lparr>ts_queries := (ts_queries s)(q \<mapsto> resolv_start port query), ts_next := q + 1\<rparr>
     in upd_server sv (\<lambda>server. server\<lparr>sv_recv_io := False, sv_query := Some q, sv_stage := STAGE_RESOLVE\<rparr>) (emit (AskName host) s))"

definition handle_request ::
  "net_lib \<Rightarrow> 're regex_lib \<Rightarrow> tcp_env \<Rightarrow> nat \<Rightarrow> ('e, 're) tcp_state \<Rightarrow> ('e, 're) tcp_state outcome" where
  "handle_request net re env sv s =
    obind (get_server s sv) (\<lambda>server.
    let malformed = tcp_close_and_free_server sv (report_addr net env (sv_fd server) MALFORMED s) in
    case parse_tcp_request net re (ts_acl s) (bdata (sv_buf server)) (blen (sv_buf server)) of
      None \<Rightarrow> Undefined
    | Some Malformed_request \<Rightarrow> malformed
    | Some Blocked_request \<Rightarrow> tcp_close_and_free_server sv s
    | Some (Target addr offset) \<Rightarrow>
        if blen (sv_buf server) < offset then malformed else
        obind (remove_header sv offset s) (\<lambda>s.
        obind (connect_to_remote net re env addr sv s) (\<lambda>(remote, s).
        case remote of
          None \<Rightarrow> tcp_close_and_free_server sv s
        | Some r \<Rightarrow> obind (attach_remote sv r s) (upd_server sv (\<lambda>server. server\<lparr>sv_recv_io := False\<rparr>))))
    | Some (Resolve host port offset) \<Rightarrow>
        if blen (sv_buf server) < offset then malformed else
        obind (remove_header sv offset s) (start_tcp_query host port sv))"

section \<open>Callbacks\<close>

text \<open>\<open>recv\<close> of at most \<open>BUF_SIZE\<close> bytes into the front of a buffer.\<close>

definition recv_into :: "bytes \<Rightarrow> buffer \<Rightarrow> buffer outcome" where
  "recv_into bs b =
    (let bs = take BUF_SIZE bs
     in if length bs > length (bdata b) then Undefined else Done (b\<lparr>bdata := write_at 0 bs (bdata b), blen := length bs\<rparr>))"

text \<open>\<open>send\<close> of the \<open>len\<close> bytes at offset \<open>off\<close>: what the kernel accepts.\<close>

definition sendable :: "nat \<Rightarrow> buffer \<Rightarrow> bytes" where
  "sendable off b = take (blen b) (drop off (bdata b))"

text \<open>Relaying plaintext in \<open>STAGE_STREAM\<close>.\<close>

definition stream_send :: "tcp_env \<Rightarrow> nat \<Rightarrow> nat \<Rightarrow> ('e, 're) tcp_state \<Rightarrow> ('e, 're) tcp_state outcome" where
  "stream_send env sv r s =
    obind (get_remote s r) (\<lambda>remote.
    let b = rm_buf remote;
        wait = (\<lambda>b s. obind (upd_remote r (\<lambda>remote. remote\<lparr>rm_buf := b\<rparr>) s) (\<lambda>s.
                  obind (upd_server sv (\<lambda>server. server\<lparr>sv_recv_io := False\<rparr>) s)
                    (upd_remote r (\<lambda>remote. remote\<lparr>rm_send_io := True\<rparr>))))
    in case te_send env of
         SendAgain \<Rightarrow> wait (b\<lparr>bidx := 0\<rparr>) s
       | SendError \<Rightarrow> close_both (Some r) sv s
       | SendOk n \<Rightarrow>
           if n < blen b then wait (b\<lparr>blen := blen b - n, bidx := n\<rparr>) (emit (ToRemote r (take n (sendable 0 b))) s)
           else Done (emit (ToRemote r (sendable 0 b)) s))"

definition tcp_server_recv_cb ::
  "net_lib \<Rightarrow> 're regex_lib \<Rightarrow> tcp_env \<Rightarrow> nat \<Rightarrow> ('e, 're) tcp_state \<Rightarrow> ('e, 're) tcp_state outcome" where
  "tcp_server_recv_cb net re env sv s =
    obind (get_server s sv) (\<lambda>server.
    let streaming = (sv_stage server = STAGE_STREAM) in
    obind (if streaming
           then (case sv_remote server of
                   None \<Rightarrow> Undefined
                 | Some r \<Rightarrow>
                     obind (get_remote s r) (\<lambda>remote.
                     obind (upd_server sv (\<lambda>server. server\<lparr>sv_watcher := True\<rparr>) s) (\<lambda>s.
                     Done (Some r, rm_buf remote, s))))
           else Done (None, sv_buf server, s)) (\<lambda>(remote, buf, s).
    let put = (\<lambda>b. case remote of
                 Some r \<Rightarrow> upd_remote r (\<lambda>remote. remote\<lparr>rm_buf := b\<rparr>)
               | None \<Rightarrow> upd_server sv (\<lambda>server. server\<lparr>sv_buf := b\<rparr>))
    in case te_recv env of
         RecvAgain \<Rightarrow> Done s
       | RecvError \<Rightarrow> close_both remote sv s
       | Received bs \<Rightarrow>
           if bs = [] then close_both remote sv s
           else
             obind (recv_into bs buf) (\<lambda>buf.
             let s = emit (FromClient sv (bcontent buf)) (s\<lparr>ts_tx := ts_tx s + of_nat (blen buf)\<rparr>);
                 (err, g, buf, d_ctx) = cr_decrypt (ts_crypto s) (te_calloc env) (ts_globals s) buf (sv_d_ctx server) BUF_SIZE
             in if err = ABORTED then Exit
                else
                  obind (put buf (s\<lparr>ts_globals := g\<rparr>)) (\<lambda>s.
                  obind (upd_server sv (\<lambda>server. server\<lparr>sv_d_ctx := d_ctx\<rparr>) s) (\<lambda>s.
                  if err = CRYPTO_ERROR
                  then close_both remote sv (report_addr net env (sv_fd server) MALICIOUS s)
                  else if err = CRYPTO_NEED_MORE
                  then
                    if \<not> streaming \<and> sv_frag server > MAX_FRAG
                    then close_both remote sv (report_addr net env (sv_fd server) MALICIOUS s)
                    else upd_server sv (\<lambda>server. server\<lparr>sv_frag := sv_frag server + 1\<rparr>) s
                  else
                    let s = emit (Plain sv (bcontent buf)) s
                    in (case remote of
                          Some r \<Rightarrow> stream_send env sv r s
                        | None \<Rightarrow>
                            if sv_stage server = STAGE_INIT then handle_request net re env sv s else Done s))))))"

definition tcp_server_send_cb :: "tcp_env \<Rightarrow> nat \<Rightarrow> ('e, 're) tcp_state \<Rightarrow> ('e, 're) tcp_state outcome" where
  "tcp_server_send_cb env sv s =
    obind (get_server s sv) (\<lambda>server.
    case sv_remote server of
      None \<Rightarrow> tcp_close_and_free_server sv s
    | Some r \<Rightarrow>
        let b = sv_buf server
        in if blen b = 0 then close_both (Some r) sv s
           else if bidx b + blen b > length (bdata b) then Undefined
           else (case te_send env of
                   SendAgain \<Rightarrow> Done s
                 | SendError \<Rightarrow> close_both (Some r) sv s
                 | SendOk n \<Rightarrow>
                     if n < blen b
                     then upd_server sv (\<lambda>server. server\<lparr>sv_buf := b\<lparr>blen := blen b - n, bidx := bidx b + n\<rparr>\<rparr>)
                            (emit (ToClient sv (take n (sendable (bidx b) b))) s)
                     else
                       obind (upd_server sv (\<lambda>server. server\<lparr>sv_buf := b\<lparr>blen := 0, bidx := 0\<rparr>, sv_send_io := False\<rparr>)
                                (emit (ToClient sv (sendable (bidx b) b)) s))
                         (upd_remote r (\<lambda>remote. remote\<lparr>rm_recv_io := True\<rparr>))))"

definition server_timeout_cb :: "nat \<Rightarrow> ('e, 're) tcp_state \<Rightarrow> ('e, 're) tcp_state outcome" where
  "server_timeout_cb sv s = obind (get_server s sv) (\<lambda>server. close_both (sv_remote server) sv s)"

definition block_list_clear_cb :: "tcp_env \<Rightarrow> ('e, 're) tcp_state \<Rightarrow> ('e, 're) tcp_state" where
  "block_list_clear_cb env s = s\<lparr>ts_block_list := clear_block_list (te_now env) (ts_block_list s)\<rparr>"

definition tcp_resolv_free_cb :: "nat \<Rightarrow> ('e, 're) tcp_state \<Rightarrow> ('e, 're) tcp_state outcome" where
  "tcp_resolv_free_cb q s =
    obind (get_query s q) (\<lambda>query.
    obind (case qy_server (rq_data query) of
             Some sv \<Rightarrow> upd_server sv (\<lambda>server. server\<lparr>sv_query := None\<rparr>) s
           | None \<Rightarrow> Done s) (\<lambda>s.
    Done (s\<lparr>ts_queries := (ts_queries s)(q := None)\<rparr>)))"

definition tcp_resolv_cb ::
  "net_lib \<Rightarrow> 're regex_lib \<Rightarrow> tcp_env \<Rightarrow> sockaddr option \<Rightarrow> nat \<Rightarrow> ('e, 're) tcp_state \<Rightarrow> ('e, 're) tcp_state outcome" where
  "tcp_resolv_cb net re env addr q s =
    obind (get_query s q) (\<lambda>query.
    case qy_server (rq_data query) of
      None \<Rightarrow> Done s
    | Some sv \<Rightarrow>
        (case addr of
           None \<Rightarrow> tcp_close_and_free_server sv s
         | Some addr \<Rightarrow>
             obind (connect_to_remote net re env addr sv s) (\<lambda>(remote, s).
             case remote of
               None \<Rightarrow> tcp_close_and_free_server sv s
             | Some r \<Rightarrow> attach_remote sv r s)))"

text \<open>An answer of c-ares to query \<open>q\<close>.\<close>

definition tcp_dns_answered ::
  "net_lib \<Rightarrow> 're regex_lib \<Rightarrow> resolv_mode \<Rightarrow> tcp_env \<Rightarrow> nat \<Rightarrow> dns_answer \<Rightarrow> ('e, 're) tcp_state \<Rightarrow> ('e, 're) tcp_state outcome" where
  "tcp_dns_answered net re mode env q answer s =
    obind (get_query s q) (\<lambda>query.
    case resolv_step mode (Waiting query) answer of
      Waiting query \<Rightarrow> Done (s\<lparr>ts_queries := (ts_queries s)(q \<mapsto> query)\<rparr>)
    | Called addr data \<Rightarrow> obind (tcp_resolv_cb net re env addr q s) (tcp_resolv_free_cb q)
    | Abandoned query \<Rightarrow> Done s)"

definition tcp_remote_recv_cb :: "tcp_env \<Rightarrow> nat \<Rightarrow> ('e, 're) tcp_state \<Rightarrow> ('e, 're) tcp_state outcome" where
  "tcp_remote_recv_cb env r s =
    obind (get_remote s r) (\<lambda>remote.
    case rm_server remote of
      None \<Rightarrow> tcp_close_and_free_remote (Some r) s
    | Some sv \<Rightarrow>
        obind (upd_server sv (\<lambda>server. server\<lparr>sv_watcher := True\<rparr>) s) (\<lambda>s.
        obind (get_server s sv) (\<lambda>server.
        case te_recv env of
          RecvAgain \<Rightarrow> Done s
        | RecvError \<Rightarrow> close_both (Some r) sv s
        | Received bs \<Rightarrow>
            if bs = [] then close_both (Some r) sv s
            else
              obind (recv_into bs (sv_buf server)) (\<lambda>buf.
              let s = emit (FromRemote sv (bcontent buf)) (s\<lparr>ts_rx := ts_rx s + of_nat (blen buf)\<rparr>);
                  (err, g, buf, e_ctx) = cr_encrypt (ts_crypto s) (ts_globals s) buf (sv_e_ctx server) BUF_SIZE;
                  s = s\<lparr>ts_globals := g\<rparr>;
                  connected = upd_remote r (\<lambda>remote. remote\<lparr>rm_recv_connected := True\<rparr>);
                  wait = (\<lambda>b s. obind (upd_server sv (\<lambda>server. server\<lparr>sv_buf := b, sv_send_io := True\<rparr>) s) (\<lambda>s.
                            obind (upd_remote r (\<lambda>remote. remote\<lparr>rm_recv_io := False\<rparr>) s) connected))
              in if err = ABORTED then Exit
                 else
                   obind (upd_server sv (\<lambda>server. server\<lparr>sv_buf := buf, sv_e_ctx := e_ctx\<rparr>) s) (\<lambda>s.
                   if err \<noteq> CRYPTO_OK then close_both (Some r) sv s
                   else
                     let s = emit (Cipher sv (bcontent buf)) s
                     in (case te_send env of
                           SendAgain \<Rightarrow> wait (buf\<lparr>bidx := 0\<rparr>) s
                         | SendError \<Rightarrow> close_both (Some r) sv s
                         | SendOk n \<Rightarrow>
                             if n < blen buf then wait (buf\<lparr>blen := blen buf - n, bidx := n\<rparr>) (emit (ToClient sv (take n (sendable 0 buf))) s)
                             else connected (emit (ToClient sv (sendable 0 buf)) s)))))))"

definition tcp_remote_send_cb :: "net_lib \<Rightarrow> tcp_env \<Rightarrow> nat \<Rightarrow> ('e, 're) tcp_state \<Rightarrow> ('e, 're) tcp_state outcome" where
  "tcp_remote_send_cb net env r s =
    obind (get_remote s r) (\<lambda>remote.
    case rm_server remote of
      None \<Rightarrow> tcp_close_and_free_remote (Some r) s
    | Some sv \<Rightarrow>
        obind (get_server s sv) (\<lambda>server.
        if \<not> rm_send_connected remote \<and> te_peer env (rm_fd remote) = None then close_both (Some r) sv s
        else
          let first = \<not> rm_send_connected remote; b = rm_buf remote
          in obind (if first
                    then upd_remote r (\<lambda>remote. remote\<lparr>rm_send_connected := True\<rparr>) (reset_addr net env (sv_fd server) s)
                    else Done s) (\<lambda>s.
             if first \<and> blen b = 0
             then
               obind (upd_server sv (\<lambda>server. server\<lparr>sv_stage := STAGE_STREAM, sv_recv_io := True\<rparr>) s)
                 (upd_remote r (\<lambda>remote. remote\<lparr>rm_send_io := False, rm_recv_io := True\<rparr>))
             else if blen b = 0 then close_both (Some r) sv s
             else if bidx b + blen b > length (bdata b) then Undefined
             else (case te_send env of
                     SendAgain \<Rightarrow> Done s
                   | SendError \<Rightarrow> close_both (Some r) sv s
                   | SendOk n \<Rightarrow>
                       if n < blen b
                       then upd_remote r (\<lambda>remote. remote\<lparr>rm_buf := b\<lparr>blen := blen b - n, bidx := bidx b + n\<rparr>\<rparr>)
                              (emit (ToRemote r (take n (sendable (bidx b) b))) s)
                       else
                         obind (upd_remote r (\<lambda>remote. remote\<lparr>rm_buf := b\<lparr>blen := 0, bidx := 0\<rparr>, rm_send_io := False\<rparr>)
                                  (emit (ToRemote r (sendable (bidx b) b)) s)) (\<lambda>s.
                         obind (upd_server sv (\<lambda>server. server\<lparr>sv_recv_io := True\<rparr>) s) (\<lambda>s.
                         if sv_stage server \<noteq> STAGE_STREAM
                         then obind (upd_server sv (\<lambda>server. server\<lparr>sv_stage := STAGE_STREAM\<rparr>) s)
                                (upd_remote r (\<lambda>remote. remote\<lparr>rm_recv_io := True\<rparr>))
                         else Done s))))))"

text \<open>Whether a peer is let in.\<close>

definition admit :: "net_lib \<Rightarrow> 're regex_lib \<Rightarrow> tcp_env \<Rightarrow> int \<Rightarrow> ('e, 're) tcp_state \<Rightarrow> bool \<times> ('e, 're) tcp_state" where
  "admit net re env fd s =
    (case get_peer_name net env fd of
       None \<Rightarrow> (True, s)
     | Some peer_name \<Rightarrow>
         let verdict = (\<lambda>acl. acl_match_host re acl peer_name)
         in if (case ts_acl s of
                  Some acl \<Rightarrow> (get_acl_mode acl = BLACK_LIST \<and> verdict acl = Some 1) \<or>
                              (get_acl_mode acl = WHITE_LIST \<and> (case verdict acl of Some v \<Rightarrow> v \<ge> 0 | None \<Rightarrow> False))
                | None \<Rightarrow> False)
            then (False, s)
            else
              let in_white_list = (case ts_acl s of Some acl \<Rightarrow> verdict acl = Some (-1) | None \<Rightarrow> False)
              in if \<not> in_white_list \<and> \<not> ts_plugin s
                 then let (blocked, bl) = check_block_list (te_now env) (te_later env) (ts_block_list s) peer_name
                      in (blocked = 0, s\<lparr>ts_block_list := bl\<rparr>)
                 else (True, s))"

definition accept_cb :: "net_lib \<Rightarrow> 're regex_lib \<Rightarrow> tcp_env \<Rightarrow> int \<Rightarrow> ('e, 're) tcp_state \<Rightarrow> ('e, 're) tcp_state outcome" where
  "accept_cb net re env serverfd s =
    (if serverfd = -1 then Done s
     else
       let (ok, s) = admit net re env serverfd s
       in if \<not> ok then Done (emit (Refused serverfd) s)
          else
            let (sv, s) = tcp_new_server env serverfd s
            in upd_server sv (\<lambda>server. server\<lparr>sv_recv_io := True, sv_watcher := True\<rparr>) (emit (Accepted sv) s))"

section \<open>Listening\<close>

text \<open>\<open>create_and_bind\<close>: names are retried, the loop over the addresses is that of the UDP relay, and without a host
  it starts at the first IPv6 address if there is one.  Socket options are not modelled.\<close>

definition create_and_bind ::
  "net_lib \<Rightarrow> (nat \<Rightarrow> nat \<Rightarrow> int) \<Rightarrow> (sockaddr \<Rightarrow> int) \<Rightarrow> bytes option \<Rightarrow> bytes option \<Rightarrow> int" where
  "create_and_bind net sock bnd host port =
    (case resolve_loop net (case host of Some h \<Rightarrow> h | None \<Rightarrow> []) port True 1 of
       None \<Rightarrow> -1
     | Some [] \<Rightarrow> -1
     | Some rps \<Rightarrow>
         let v6 = dropWhile (\<lambda>rp. sa_family rp \<noteq> AF_INET6) rps;
             rp = (if host = None \<and> v6 \<noteq> [] then v6 else rps)
         in server_socket_loop sock bnd 0 rp (-1))"

section \<open>Shutdown\<close>

definition free_connections :: "('e, 're) tcp_state \<Rightarrow> ('e, 're) tcp_state outcome" where
  "free_connections s = tcp_free_connections (ts_connections s) s"

end
