(* ===== verification/ServerInv.thy ===== *)
theory ServerInv
  imports Server
begin

text \<open>
  The invariant of the TCP relay's heap of connections (\<open>Server\<close>): objects that point at each other exist and point
  back, buffers keep their sizes, the watchers of a connection follow its stage, and what was relayed so far plus what
  is still buffered is what was received.  The rules of the last section say how the invariant is kept when one
  connection is changed, opened or dropped.
\<close>

section \<open>Flows\<close>

fun plain_event :: "nat \<Rightarrow> tcp_event \<Rightarrow> bytes" where
  "plain_event sv (Plain i bs) = (if i = sv then bs else [])"
| "plain_event sv _ = []"

fun cipher_event :: "nat \<Rightarrow> tcp_event \<Rightarrow> bytes" where
  "cipher_event sv (Cipher i bs) = (if i = sv then bs else [])"
| "cipher_event sv _ = []"

fun client_event :: "nat \<Rightarrow> tcp_event \<Rightarrow> bytes" where
  "client_event sv (ToClient i bs) = (if i = sv then bs else [])"
| "client_event sv _ = []"

fun remote_event :: "nat \<Rightarrow> tcp_event \<Rightarrow> bytes" where
  "remote_event r (ToRemote i bs) = (if i = r then bs else [])"
| "remote_event r _ = []"

fun from_client_event :: "nat \<Rightarrow> tcp_event \<Rightarrow> bytes" where
  "from_client_event sv (FromClient i bs) = (if i = sv then bs else [])"
| "from_client_event sv _ = []"

fun from_remote_event :: "nat \<Rightarrow> tcp_event \<Rightarrow> bytes" where
  "from_remote_event sv (FromRemote i bs) = (if i = sv then bs else [])"
| "from_remote_event sv _ = []"

text \<open>All bytes received from the client and from the destination of a connection, all plaintext decrypted for a connection, all ciphertext made for its client, and all bytes sent to a client and
  to a destination.\<close>

definition from_client :: "nat \<Rightarrow> tcp_event list \<Rightarrow> bytes" where "from_client sv tr = concat (map (from_client_event sv) tr)"
definition from_remote :: "nat \<Rightarrow> tcp_event list \<Rightarrow> bytes" where "from_remote sv tr = concat (map (from_remote_event sv) tr)"
definition plain_of :: "nat \<Rightarrow> tcp_event list \<Rightarrow> bytes" where "plain_of sv tr = concat (map (plain_event sv) tr)"
definition cipher_of :: "nat \<Rightarrow> tcp_event list \<Rightarrow> bytes" where "cipher_of sv tr = concat (map (cipher_event sv) tr)"
definition to_client :: "nat \<Rightarrow> tcp_event list \<Rightarrow> bytes" where "to_client sv tr = concat (map (client_event sv) tr)"
definition to_remote :: "nat \<Rightarrow> tcp_event list \<Rightarrow> bytes" where "to_remote r tr = concat (map (remote_event r) tr)"

lemma flow_append [simp]:
  "plain_of sv (tr @ es) = plain_of sv tr @ plain_of sv es" "cipher_of sv (tr @ es) = cipher_of sv tr @ cipher_of sv es"
  "to_client sv (tr @ es) = to_client sv tr @ to_client sv es" "to_remote r (tr @ es) = to_remote r tr @ to_remote r es"
  "from_client sv (tr @ es) = from_client sv tr @ from_client sv es" "from_remote sv (tr @ es) = from_remote sv tr @ from_remote sv es"
  by (simp_all add: plain_of_def cipher_of_def to_client_def to_remote_def from_client_def from_remote_def)

lemma flow_list [simp]:
  "plain_of sv [] = []" "cipher_of sv [] = []" "to_client sv [] = []" "to_remote sv [] = []" "from_client sv [] = []" "from_remote sv [] = []"
  "plain_of sv (e # es) = plain_event sv e @ plain_of sv es" "cipher_of sv (e # es) = cipher_event sv e @ cipher_of sv es"
  "to_client sv (e # es) = client_event sv e @ to_client sv es" "to_remote sv (e # es) = remote_event sv e @ to_remote sv es"
  "from_client sv (e # es) = from_client_event sv e @ from_client sv es" "from_remote sv (e # es) = from_remote_event sv e @ from_remote sv es"
  by (simp_all add: plain_of_def cipher_of_def to_client_def to_remote_def from_client_def from_remote_def)

text \<open>\<open>tr'\<close> extends \<open>tr\<close> by events of connection \<open>sv\<close> with remote \<open>ro\<close> only.\<close>

definition concerns :: "nat \<Rightarrow> nat option \<Rightarrow> tcp_event list \<Rightarrow> tcp_event list \<Rightarrow> bool" where
  "concerns sv ro tr tr' \<longleftrightarrow>
    (\<forall>i. i \<noteq> sv \<longrightarrow> plain_of i tr' = plain_of i tr \<and> cipher_of i tr' = cipher_of i tr \<and> to_client i tr' = to_client i tr \<and>
      from_client i tr' = from_client i tr \<and> from_remote i tr' = from_remote i tr) \<and>
    (\<forall>i. Some i \<noteq> ro \<longrightarrow> to_remote i tr' = to_remote i tr)"

lemma concerns_refl [simp]: "concerns sv ro tr tr" by (simp add: concerns_def)

lemma concerns_step [simp]:
  "concerns sv ro tr (tr' @ [e]) \<longleftrightarrow> concerns sv ro tr tr'"
  if "\<forall>i. i \<noteq> sv \<longrightarrow> plain_event i e = [] \<and> cipher_event i e = [] \<and> client_event i e = [] \<and> from_client_event i e = [] \<and> from_remote_event i e = []" "\<forall>i. Some i \<noteq> ro \<longrightarrow> remote_event i e = []"
  using that by (simp add: concerns_def)

text \<open>What waits to be sent.\<close>

definition pending :: "bool \<Rightarrow> buffer \<Rightarrow> bytes" where "pending io b = (if io then sendable (bidx b) b else [])"

lemma pending_simps [simp]: "pending False b = []" "pending True b = sendable (bidx b) b"
  by (simp_all add: pending_def)

lemma sendable_split:
  "n \<le> blen b \<Longrightarrow> take n (sendable off b) @ sendable (off + n) (b\<lparr>blen := blen b - n, bidx := m\<rparr>) = sendable off b"
proof -
  assume "n \<le> blen b"
  then have "take n (sendable off b) = take n (drop off (bdata b))"
    "sendable (off + n) (b\<lparr>blen := blen b - n, bidx := m\<rparr>) = drop n (sendable off b)"
    by (simp_all add: sendable_def drop_take add.commute)
  then show ?thesis by (simp add: sendable_def min_absorb1) (metis append_take_drop_id min.absorb1 take_take \<open>n \<le> blen b\<close>)
qed

text \<open>The address header in front of the first plaintext.\<close>

definition tcp_header :: "bytes \<Rightarrow> bool" where
  "tcp_header h \<longleftrightarrow> 2 \<le> length h \<and>
    (h ! 0 AND ADDRTYPE_MASK = 1 \<and> length h = 7 \<or>
     h ! 0 AND ADDRTYPE_MASK = 3 \<and> length h = unat (h ! 1) + 4 \<or>
     h ! 0 AND ADDRTYPE_MASK = 4 \<and> length h = 19)"

lemma tcp_header_unique:
  assumes "tcp_header h" "tcp_header h'" "h @ x = h' @ y"
  shows "h = h'"
proof -
  have "0 < length h" "0 < length h'" "1 < length h" "1 < length h'" using assms(1,2) by (auto simp: tcp_header_def)
  then have "h ! 0 = (h @ x) ! 0" "h' ! 0 = (h' @ y) ! 0" "h ! 1 = (h @ x) ! 1" "h' ! 1 = (h' @ y) ! 1"
    by (simp_all only: nth_append if_True)
  then have "h ! 0 = h' ! 0" "h ! 1 = h' ! 1" using assms(3) by simp_all
  then have "length h = length h'" using assms(1,2) by (auto simp: tcp_header_def)
  then show ?thesis using assms(3) by simp
qed

section \<open>The invariant\<close>

text \<open>\<open>rx received plain ctx\<close> relates a decrypting context to what was received and decrypted with it, and
  \<open>tx received cipher ctx\<close> an encrypting one to what was given to it and encrypted.\<close>

type_synonym 'e ctx_rel = "bytes \<Rightarrow> bytes \<Rightarrow> 'e cipher_ctx \<Rightarrow> bool"

definition sv_ok :: "'e ctx_rel \<Rightarrow> 'e ctx_rel \<Rightarrow> tcp_event list \<Rightarrow> nat \<Rightarrow> 'e tcp_server \<Rightarrow> bool" where
  "sv_ok rx tx tr sv server \<longleftrightarrow> buffer_ok (sv_buf server) \<and> BUF_SIZE \<le> bcap (sv_buf server) \<and>
    (sv_send_io server \<longrightarrow> bidx (sv_buf server) + blen (sv_buf server) \<le> bcap (sv_buf server)) \<and>
    rx (from_client sv tr) (plain_of sv tr) (sv_d_ctx server) \<and> tx (from_remote sv tr) (cipher_of sv tr) (sv_e_ctx server)"

definition rm_ok :: "tcp_remote \<Rightarrow> bool" where
  "rm_ok rm \<longleftrightarrow> buffer_ok (rm_buf rm) \<and> BUF_SIZE \<le> bcap (rm_buf rm) \<and>
    (rm_send_io rm \<longrightarrow> bidx (rm_buf rm) + blen (rm_buf rm) \<le> bcap (rm_buf rm))"

text \<open>A connection with its remote: until the remote has accepted what the client sent so far only the remote's write
  watcher is active; then each direction either reads or has data to write.\<close>

definition joined :: "nat \<Rightarrow> 'e tcp_server \<Rightarrow> nat \<Rightarrow> tcp_remote \<Rightarrow> tcp_event list \<Rightarrow> bool" where
  "joined sv server r rm tr \<longleftrightarrow> rm_ok rm \<and>
    (if sv_stage server = STAGE_STREAM
     then rm_send_connected rm \<and> sv_recv_io server = (\<not> rm_send_io rm) \<and> rm_recv_io rm = (\<not> sv_send_io server)
     else \<not> sv_recv_io server \<and> \<not> sv_send_io server \<and> rm_send_io rm \<and> \<not> rm_recv_io rm) \<and>
    (\<exists>h. tcp_header h \<and> plain_of sv tr = h @ to_remote r tr @ pending (rm_send_io rm) (rm_buf rm))"

text \<open>A connection without a remote: waiting for the request, or for the name to be resolved.\<close>

definition alone :: "(nat \<rightharpoonup> tcp_query resolv_query) \<Rightarrow> nat \<Rightarrow> 'e tcp_server \<Rightarrow> tcp_event list \<Rightarrow> bool" where
  "alone Q sv server tr \<longleftrightarrow> \<not> sv_send_io server \<and> bidx (sv_buf server) = 0 \<and>
    (case sv_query server of
       None \<Rightarrow> sv_stage server = STAGE_INIT \<and> sv_recv_io server \<and> plain_of sv tr = []
     | Some q \<Rightarrow> sv_stage server = STAGE_RESOLVE \<and> \<not> sv_recv_io server \<and>
         (\<exists>qy. Q q = Some qy \<and> qy_server (rq_data qy) = Some sv) \<and>
         (\<exists>h. tcp_header h \<and> plain_of sv tr = h @ bcontent (sv_buf server)))"

definition conn_ok ::
  "'e ctx_rel \<Rightarrow> 'e ctx_rel \<Rightarrow> (nat \<rightharpoonup> tcp_remote) \<Rightarrow> (nat \<rightharpoonup> tcp_query resolv_query)
    \<Rightarrow> tcp_event list \<Rightarrow> nat \<Rightarrow> 'e tcp_server \<Rightarrow> bool" where
  "conn_ok rx tx R Q tr sv server \<longleftrightarrow> sv_ok rx tx tr sv server \<and>
    cipher_of sv tr = to_client sv tr @ pending (sv_send_io server) (sv_buf server) \<and>
    (case sv_remote server of
       None \<Rightarrow> alone Q sv server tr
     | Some r \<Rightarrow> sv_query server = None \<and> (\<exists>rm. R r = Some rm \<and> rm_server rm = Some sv \<and> joined sv server r rm tr))"

definition silent :: "nat \<Rightarrow> tcp_event list \<Rightarrow> bool" where
  "silent i tr \<longleftrightarrow> plain_of i tr = [] \<and> cipher_of i tr = [] \<and> to_client i tr = [] \<and> to_remote i tr = [] \<and>
    from_client i tr = [] \<and> from_remote i tr = []"

definition heap_inv ::
  "'e ctx_rel \<Rightarrow> 'e ctx_rel \<Rightarrow> (nat \<rightharpoonup> 'e tcp_server) \<Rightarrow> (nat \<rightharpoonup> tcp_remote)
    \<Rightarrow> (nat \<rightharpoonup> tcp_query resolv_query) \<Rightarrow> nat \<Rightarrow> nat list \<Rightarrow> tcp_event list \<Rightarrow> bool" where
  "heap_inv rx tx S R Q n cs tr \<longleftrightarrow>
    (\<forall>sv server. S sv = Some server \<longrightarrow> conn_ok rx tx R Q tr sv server) \<and>
    (\<forall>r rm. R r = Some rm \<longrightarrow> (\<exists>sv server. rm_server rm = Some sv \<and> S sv = Some server \<and> sv_remote server = Some r)) \<and>
    (\<forall>q qy sv. Q q = Some qy \<longrightarrow> qy_server (rq_data qy) = Some sv \<longrightarrow> (\<exists>server. S sv = Some server \<and> sv_query server = Some q)) \<and>
    distinct cs \<and> set cs = dom S \<and>
    (\<forall>i\<ge>n. S i = None \<and> R i = None \<and> Q i = None \<and> silent i tr)"

definition tcp_inv ::
  "'e crypto \<Rightarrow> 'e ctx_rel \<Rightarrow> 'e ctx_rel \<Rightarrow> ('e, 're) tcp_state \<Rightarrow> bool" where
  "tcp_inv cr rx tx s \<longleftrightarrow> ts_crypto s = cr \<and> globals_ok (ts_globals s) \<and>
    heap_inv rx tx (ts_servers s) (ts_remotes s) (ts_queries s) (ts_next s) (ts_connections s) (ts_trace s)"

section \<open>Frame rules\<close>

lemma conn_ok_frame:
  assumes "conn_ok rx tx R Q tr i server" "i \<noteq> sv" "concerns sv ro tr tr'"
    "\<And>r. sv_remote server = Some r \<Longrightarrow> Some r \<noteq> ro \<and> R' r = R r" "\<And>q. sv_query server = Some q \<Longrightarrow> Q' q = Q q"
  shows "conn_ok rx tx R' Q' tr' i server"
  using assms by (auto simp: conn_ok_def sv_ok_def concerns_def joined_def alone_def split: option.splits)

lemma heap_conn: "heap_inv rx tx S R Q n cs tr \<Longrightarrow> S sv = Some server \<Longrightarrow> conn_ok rx tx R Q tr sv server"
  by (simp add: heap_inv_def)

lemma heap_links:
  assumes "heap_inv rx tx S R Q n cs tr"
  shows "R r = Some rm \<Longrightarrow> \<exists>sv server. rm_server rm = Some sv \<and> S sv = Some server \<and> sv_remote server = Some r"
    and "Q q = Some qy \<Longrightarrow> qy_server (rq_data qy) = Some sv \<Longrightarrow> \<exists>server. S sv = Some server \<and> sv_query server = Some q"
  using assms by (simp_all add: heap_inv_def)

lemma heap_lists:
  assumes "heap_inv rx tx S R Q n cs tr"
  shows "distinct cs" "set cs = dom S" "n \<le> i \<Longrightarrow> silent i tr" "n \<le> i \<Longrightarrow> S i = None" "n \<le> i \<Longrightarrow> R i = None" "n \<le> i \<Longrightarrow> Q i = None"
  using assms by (simp_all add: heap_inv_def)

lemma heap_invI:
  assumes "\<And>sv server. S sv = Some server \<Longrightarrow> conn_ok rx tx R Q tr sv server"
    "\<And>r rm. R r = Some rm \<Longrightarrow> \<exists>sv server. rm_server rm = Some sv \<and> S sv = Some server \<and> sv_remote server = Some r"
    "\<And>q qy sv. Q q = Some qy \<Longrightarrow> qy_server (rq_data qy) = Some sv \<Longrightarrow> \<exists>server. S sv = Some server \<and> sv_query server = Some q"
    "distinct cs" "set cs = dom S" "\<And>i. n \<le> i \<Longrightarrow> S i = None \<and> R i = None \<and> Q i = None \<and> silent i tr"
  shows "heap_inv rx tx S R Q n cs tr"
  unfolding heap_inv_def using assms by blast

text \<open>Remotes and queries belong to one connection only.\<close>

lemma remote_owner:
  assumes "heap_inv rx tx S R Q n cs tr" "S i = Some x" "sv_remote x = Some r" "S j = Some y" "sv_remote y = Some r"
  shows "i = j"
  using heap_conn [OF assms(1,2)] heap_conn [OF assms(1,4)] assms(3,5) by (auto simp: conn_ok_def)

lemma query_owner:
  assumes "heap_inv rx tx S R Q n cs tr" "S i = Some x" "sv_query x = Some q" "S j = Some y" "sv_query y = Some q"
  shows "i = j"
  using heap_conn [OF assms(1,2)] heap_conn [OF assms(1,4)] assms(3,5)
  by (auto simp: conn_ok_def alone_def split: option.splits)

lemma silent_concerns: "silent i tr \<Longrightarrow> concerns sv ro tr tr' \<Longrightarrow> i \<noteq> sv \<Longrightarrow> Some i \<noteq> ro \<Longrightarrow> silent i tr'"
  by (auto simp: silent_def concerns_def)

lemma below_next:
  assumes "heap_inv rx tx S R Q n cs tr"
  shows "S i = Some x \<Longrightarrow> i < n" "R i = Some y \<Longrightarrow> i < n" "Q i = Some z \<Longrightarrow> i < n"
  using heap_lists(4-6) [OF assms, of i] by (cases "n \<le> i"; simp)+

text \<open>A connection and its remote change.\<close>

lemma change_joined:
  assumes inv: "heap_inv rx tx S R Q n cs tr" and sv: "S sv = Some server" "sv_remote server = Some r"
    and new: "sv_remote server' = Some r" "sv_query server' = None" "rm_server rm' = Some sv"
      "sv_ok rx tx tr' sv server'" "cipher_of sv tr' = to_client sv tr' @ pending (sv_send_io server') (sv_buf server')"
      "joined sv server' r rm' tr'"
    and tr: "concerns sv (Some r) tr tr'"
  shows "heap_inv rx tx (S(sv \<mapsto> server')) (R(r \<mapsto> rm')) Q n cs tr'"
proof -
  have c: "sv_query server = None" "\<exists>rm. R r = Some rm" using heap_conn [OF inv sv(1)] sv(2) by (auto simp: conn_ok_def)
  have lt: "sv < n" "r < n" using below_next [OF inv] sv(1) c(2) by blast+
  have "conn_ok rx tx (R(r \<mapsto> rm')) Q tr' i x" if "(S(sv \<mapsto> server')) i = Some x" for i x
  proof (cases "i = sv")
    case True
    then show ?thesis using that new by (simp add: conn_ok_def)
  next
    case False
    then have x: "S i = Some x" using that by simp
    show ?thesis
      by (rule conn_ok_frame [OF heap_conn [OF inv x] False tr]) (use remote_owner [OF inv x _ sv] False in auto)
  qed
  moreover have "\<exists>j y. rm_server x = Some j \<and> (S(sv \<mapsto> server')) j = Some y \<and> sv_remote y = Some i" if "(R(r \<mapsto> rm')) i = Some x" for i x
  proof (cases "i = r")
    case True
    then show ?thesis using that new(1,3) by auto
  next
    case False
    then show ?thesis using heap_links(1) [OF inv, of i x] that sv by (auto simp: fun_upd_apply)
  qed
  moreover have "\<exists>y. (S(sv \<mapsto> server')) j = Some y \<and> sv_query y = Some q" if "Q q = Some qy" "qy_server (rq_data qy) = Some j" for q qy j
    using heap_links(2) [OF inv that] sv(1) c(1) by (auto simp: fun_upd_apply)
  ultimately show ?thesis
    using heap_lists [OF inv] silent_concerns [OF heap_lists(3) [OF inv] tr] lt sv(1) by (intro heap_invI) auto
qed

text \<open>A connection that has no remote and no query changes.\<close>

lemma change_waiting:
  assumes inv: "heap_inv rx tx S R Q n cs tr" and sv: "S sv = Some server" "sv_remote server = None" "sv_query server = None"
    and new: "sv_remote server' = None" "sv_query server' = None" "sv_ok rx tx tr' sv server'"
      "cipher_of sv tr' = to_client sv tr'" "alone Q sv server' tr'"
    and tr: "concerns sv None tr tr'"
  shows "heap_inv rx tx (S(sv \<mapsto> server')) R Q n cs tr'"
proof -
  have lt: "sv < n" using below_next [OF inv] sv(1) by blast
  have "conn_ok rx tx R Q tr' i x" if "(S(sv \<mapsto> server')) i = Some x" for i x
  proof (cases "i = sv")
    case True
    then show ?thesis using that new by (simp add: conn_ok_def alone_def)
  next
    case False
    then show ?thesis using conn_ok_frame [OF heap_conn [OF inv] False tr] that by auto
  qed
  moreover have "\<exists>j y. rm_server x = Some j \<and> (S(sv \<mapsto> server')) j = Some y \<and> sv_remote y = Some i" if "R i = Some x" for i x
    using heap_links(1) [OF inv that] sv(1,2) by (auto simp: fun_upd_apply)
  moreover have "\<exists>y. (S(sv \<mapsto> server')) j = Some y \<and> sv_query y = Some q" if "Q q = Some qy" "qy_server (rq_data qy) = Some j" for q qy j
    using heap_links(2) [OF inv that] sv(1,3) by (auto simp: fun_upd_apply)
  ultimately show ?thesis
    using heap_lists [OF inv] silent_concerns [OF heap_lists(3) [OF inv] tr] lt sv(1) by (intro heap_invI) auto
qed

text \<open>A connection asks for a name.\<close>

lemma start_resolving:
  assumes inv: "heap_inv rx tx S R Q n cs tr" and sv: "S sv = Some server" "sv_remote server = None" "sv_query server = None"
    and new: "sv_remote server' = None" "sv_query server' = Some n" "qy_server (rq_data qy) = Some sv" "sv_ok rx tx tr' sv server'"
      "cipher_of sv tr' = to_client sv tr'" "alone (Q(n \<mapsto> qy)) sv server' tr'"
    and tr: "concerns sv None tr tr'"
  shows "heap_inv rx tx (S(sv \<mapsto> server')) R (Q(n \<mapsto> qy)) (Suc n) cs tr'"
proof -
  have lt: "sv < n" using below_next [OF inv] sv(1) by blast
  have "conn_ok rx tx R (Q(n \<mapsto> qy)) tr' i x" if "(S(sv \<mapsto> server')) i = Some x" for i x
  proof (cases "i = sv")
    case True
    then show ?thesis using that new by (simp add: conn_ok_def alone_def)
  next
    case False
    then have x: "S i = Some x" using that by simp
    have "q \<noteq> n" if "sv_query x = Some q" for q
      using heap_conn [OF inv x] that below_next(3) [OF inv] by (fastforce simp: conn_ok_def alone_def split: option.splits)
    then show ?thesis by (intro conn_ok_frame [OF heap_conn [OF inv x] False tr]) auto
  qed
  moreover have "\<exists>j y. rm_server x = Some j \<and> (S(sv \<mapsto> server')) j = Some y \<and> sv_remote y = Some i" if "R i = Some x" for i x
    using heap_links(1) [OF inv that] sv(1,2) by (auto simp: fun_upd_apply)
  moreover have "\<exists>y. (S(sv \<mapsto> server')) j = Some y \<and> sv_query y = Some q" if "(Q(n \<mapsto> qy)) q = Some z" "qy_server (rq_data z) = Some j" for q z j
  proof (cases "q = n")
    case True
    then show ?thesis using that new(2,3) by auto
  next
    case False
    then show ?thesis using heap_links(2) [OF inv, of q z j] that sv(1,3) by (auto simp: fun_upd_apply)
  qed
  ultimately show ?thesis
    using heap_lists [OF inv] silent_concerns [OF heap_lists(3) [OF inv] tr] lt sv(1) by (intro heap_invI) auto
qed

text \<open>A connection gets its remote; an answered query goes away.\<close>

lemma join:
  assumes inv: "heap_inv rx tx S R Q n cs tr" and sv: "S sv = Some server" "sv_remote server = None"
    and Q': "Q' = (case sv_query server of None \<Rightarrow> Q | Some q \<Rightarrow> Q(q := None))"
    and new: "sv_remote server' = Some n" "sv_query server' = None" "rm_server rm = Some sv"
      "sv_ok rx tx tr' sv server'" "cipher_of sv tr' = to_client sv tr' @ pending (sv_send_io server') (sv_buf server')"
      "joined sv server' n rm tr'"
    and tr: "concerns sv (Some n) tr tr'"
  shows "heap_inv rx tx (S(sv \<mapsto> server')) (R(n \<mapsto> rm)) Q' (Suc n) cs tr'"
proof -
  have lt: "sv < n" using below_next [OF inv] sv(1) by blast
  have "conn_ok rx tx (R(n \<mapsto> rm)) Q' tr' i x" if "(S(sv \<mapsto> server')) i = Some x" for i x
  proof (cases "i = sv")
    case True
    then show ?thesis using that new by (simp add: conn_ok_def)
  next
    case False
    then have x: "S i = Some x" using that by simp
    have "r \<noteq> n" if "sv_remote x = Some r" for r
      using heap_conn [OF inv x] that below_next(2) [OF inv] by (fastforce simp: conn_ok_def)
    moreover have "Q' q = Q q" if "sv_query x = Some q" for q
      using query_owner [OF inv x that sv(1)] False Q' by (auto split: option.splits)
    ultimately show ?thesis by (intro conn_ok_frame [OF heap_conn [OF inv x] False tr]) auto
  qed
  moreover have "\<exists>j y. rm_server x = Some j \<and> (S(sv \<mapsto> server')) j = Some y \<and> sv_remote y = Some i" if "(R(n \<mapsto> rm)) i = Some x" for i x
  proof (cases "i = n")
    case True
    then show ?thesis using that new(1,3) by auto
  next
    case False
    then show ?thesis using heap_links(1) [OF inv, of i x] that sv by (auto simp: fun_upd_apply)
  qed
  moreover have "\<exists>y. (S(sv \<mapsto> server')) j = Some y \<and> sv_query y = Some q" if z: "Q' q = Some qy" "qy_server (rq_data qy) = Some j" for q qy j
  proof -
    have q: "Q q = Some qy" "sv_query server \<noteq> Some q" using z(1) Q' by (auto split: option.splits if_splits)
    then obtain y where "S j = Some y" "sv_query y = Some q" using heap_links(2) [OF inv q(1) z(2)] by blast
    then show ?thesis using q(2) sv(1) by auto
  qed
  moreover have "Q' i = None" if "Q i = None" for i using that Q' by (auto split: option.splits)
  ultimately show ?thesis
    using heap_lists [OF inv] silent_concerns [OF heap_lists(3) [OF inv] tr] lt sv(1) by (intro heap_invI) auto
qed

text \<open>A connection is dropped: with its remote, or with its query told that it is gone.\<close>

lemma drop_conn:
  assumes inv: "heap_inv rx tx S R Q n cs tr" and sv: "S sv = Some server"
    and R': "R' = (case sv_remote server of None \<Rightarrow> R | Some r \<Rightarrow> R(r := None))"
    and Q': "\<And>q. sv_query server \<noteq> Some q \<Longrightarrow> Q' q = Q q"
      "\<And>q qy. sv_query server = Some q \<Longrightarrow> Q' q = Some qy \<Longrightarrow> qy_server (rq_data qy) = None"
    and tr: "concerns sv (sv_remote server) tr tr'"
  shows "heap_inv rx tx (S(sv := None)) R' Q' n (removeAll sv cs) tr'"
proof -
  note c = heap_conn [OF inv sv]
  have lt: "sv < n" "sv_remote server = Some r \<Longrightarrow> r < n" "sv_query server = Some q \<Longrightarrow> q < n" for r q
    using below_next [OF inv] sv(1) c by (auto simp: conn_ok_def alone_def split: option.splits)
  have "conn_ok rx tx R' Q' tr' i x" if "(S(sv := None)) i = Some x" for i x
  proof -
    have i: "i \<noteq> sv" and x: "S i = Some x" using that by (auto split: if_splits)
    have "Some r \<noteq> sv_remote server \<and> R' r = R r" if "sv_remote x = Some r" for r
      using remote_owner [OF inv x that sv] i R' by (auto split: option.splits)
    moreover have "Q' q = Q q" if "sv_query x = Some q" for q
      using query_owner [OF inv x that sv] i Q'(1) by auto
    ultimately show ?thesis by (intro conn_ok_frame [OF heap_conn [OF inv x] i tr]) auto
  qed
  moreover have "silent i tr'" if "n \<le> i" for i
    using silent_concerns [OF heap_lists(3) [OF inv that] tr] that lt(1) lt(2) [of i] by (cases "sv_remote server") auto
  moreover have "\<exists>j y. rm_server rm = Some j \<and> (S(sv := None)) j = Some y \<and> sv_remote y = Some r" if "R' r = Some rm" for r rm
  proof -
    have r: "R r = Some rm" "sv_remote server \<noteq> Some r" using that R' by (auto split: option.splits if_splits)
    then obtain j y where "rm_server rm = Some j" "S j = Some y" "sv_remote y = Some r" using heap_links(1) [OF inv] by blast
    then show ?thesis using r(2) sv by auto
  qed
  moreover have "\<exists>y. (S(sv := None)) j = Some y \<and> sv_query y = Some q" if q: "Q' q = Some qy" "qy_server (rq_data qy) = Some j" for q qy j
  proof -
    have n: "sv_query server \<noteq> Some q" using Q'(2) q by auto
    then obtain y where "S j = Some y" "sv_query y = Some q" using heap_links(2) [OF inv _ q(2)] q(1) Q'(1) [OF n] by metis
    then show ?thesis using n sv by auto
  qed
  moreover have "R' i = None" if "R i = None" for i using that R' by (auto split: option.splits)
  moreover have "Q' i = None" if "n \<le> i" for i using that lt(3) [of i] Q'(1) [of i] heap_lists(6) [OF inv that] by auto
  ultimately show ?thesis using heap_lists [OF inv] by (intro heap_invI) (auto simp: distinct_removeAll)
qed

text \<open>A connection is accepted.\<close>

lemma new_conn:
  assumes inv: "heap_inv rx tx S R Q n cs tr"
    and new: "sv_remote server = None" "sv_query server = None" "sv_ok rx tx tr' n server" "alone Q n server tr'" "cipher_of n tr' = to_client n tr'"
    and tr: "concerns n None tr tr'" "silent n tr'"
  shows "heap_inv rx tx (S(n \<mapsto> server)) R Q (Suc n) (cs @ [n]) tr'"
proof -
  have "conn_ok rx tx R Q tr' i x" if "(S(n \<mapsto> server)) i = Some x" for i x
  proof (cases "i = n")
    case True
    then show ?thesis using that new by (simp add: conn_ok_def alone_def)
  next
    case False
    then show ?thesis using conn_ok_frame [OF heap_conn [OF inv] False tr(1)] that by auto
  qed
  moreover have n: "S n = None" "n \<notin> set cs" using heap_lists [OF inv] by auto
  moreover have "\<exists>j y. rm_server x = Some j \<and> (S(n \<mapsto> server)) j = Some y \<and> sv_remote y = Some i" if "R i = Some x" for i x
    using heap_links(1) [OF inv that] n(1) by (auto simp: fun_upd_apply)
  moreover have "\<exists>y. (S(n \<mapsto> server)) j = Some y \<and> sv_query y = Some q" if "Q q = Some qy" "qy_server (rq_data qy) = Some j" for q qy j
    using heap_links(2) [OF inv that] n(1) by (auto simp: fun_upd_apply)
  ultimately show ?thesis
    using heap_lists [OF inv] silent_concerns [OF heap_lists(3) [OF inv] tr(1)] by (intro heap_invI) auto
qed

text \<open>A query is answered in part, or its connection is already gone when it ends.\<close>

lemma update_query:
  assumes inv: "heap_inv rx tx S R Q n cs tr" and q: "Q q = Some qy" "rq_data qy' = rq_data qy"
  shows "heap_inv rx tx S R (Q(q \<mapsto> qy')) n cs tr"
proof -
  have "conn_ok rx tx R (Q(q \<mapsto> qy')) tr i x" if "S i = Some x" for i x
    using heap_conn [OF inv that] q by (auto simp: conn_ok_def alone_def split: option.splits)
  moreover have "\<exists>y. S j = Some y \<and> sv_query y = Some i" if "(Q(q \<mapsto> qy')) i = Some z" "qy_server (rq_data z) = Some j" for i z j
    using heap_links(2) [OF inv, of i _ j] that q by (cases "i = q") auto
  ultimately show ?thesis
    using heap_lists [OF inv] heap_links(1) [OF inv] below_next(3) [OF inv q(1)] by (intro heap_invI) auto
qed

lemma end_query:
  assumes inv: "heap_inv rx tx S R Q n cs tr" and q: "Q q = Some qy" "qy_server (rq_data qy) = None"
  shows "heap_inv rx tx S R (Q(q := None)) n cs tr"
proof -
  have "conn_ok rx tx R (Q(q := None)) tr i x" if "S i = Some x" for i x
    using heap_conn [OF inv that] q by (auto simp: conn_ok_def alone_def split: option.splits)
  moreover have "\<exists>y. S j = Some y \<and> sv_query y = Some i" if "(Q(q := None)) i = Some z" "qy_server (rq_data z) = Some j" for i z j
    using heap_links(2) [OF inv, of i _ j] that by (cases "i = q") auto
  ultimately show ?thesis
    using heap_lists [OF inv] heap_links(1) [OF inv] by (intro heap_invI) auto
qed

end
