(* ===== verification/ServerSteps.thy ===== *)
theory ServerSteps
  imports ServerInv
begin

text \<open>
  Every callback of the TCP relay (\<open>Server\<close>) keeps the invariant of \<open>ServerInv\<close>: none uses a freed object or leaves a
  buffer, and none is ended by an assertion.  What is needed of the cipher is the locale \<open>connection_cipher\<close>.
\<close>

section \<open>Outcomes\<close>

definition keeps ::
  "'e crypto \<Rightarrow> 'e ctx_rel \<Rightarrow> 'e ctx_rel \<Rightarrow> ('e, 're) tcp_state outcome \<Rightarrow> bool" where
  "keeps cr rx tx out \<longleftrightarrow> (\<exists>s. out = Done s \<and> tcp_inv cr rx tx s)"

lemma keeps_Done [simp]: "keeps cr rx tx (Done s) = tcp_inv cr rx tx s"
  by (simp add: keeps_def)

lemma keeps_if: "(b \<Longrightarrow> keeps cr rx tx x) \<Longrightarrow> (\<not> b \<Longrightarrow> keeps cr rx tx y) \<Longrightarrow> keeps cr rx tx (if b then x else y)"
  by simp

lemmas heap_ops = get_server_def get_remote_def get_query_def upd_server_def upd_remote_def upd_query_def emit_def

lemma inv_conn:
  "tcp_inv cr rx tx s \<Longrightarrow> ts_servers s sv = Some server \<Longrightarrow> conn_ok rx tx (ts_remotes s) (ts_queries s) (ts_trace s) sv server"
  unfolding tcp_inv_def using heap_conn by blast

text \<open>What a callback may have done to connection \<open>sv\<close> before it ends.\<close>

definition touched :: "nat \<Rightarrow> nat option \<Rightarrow> ('e, 're) tcp_state \<Rightarrow> ('e, 're) tcp_state \<Rightarrow> bool" where
  "touched sv ro s t \<longleftrightarrow> ts_crypto t = ts_crypto s \<and> globals_ok (ts_globals t) \<and> ts_queries t = ts_queries s \<and> ts_next t = ts_next s \<and>
    ts_connections t = ts_connections s \<and> concerns sv ro (ts_trace s) (ts_trace t) \<and>
    (\<forall>i. i \<noteq> sv \<longrightarrow> ts_servers t i = ts_servers s i) \<and> (\<forall>i. Some i \<noteq> ro \<longrightarrow> ts_remotes t i = ts_remotes s i)"

lemma joined_keeps:
  assumes inv: "tcp_inv cr rx tx s" and sv: "ts_servers s sv = Some server" "sv_remote server = Some r"
    and t: "touched sv (Some r) s t" "ts_servers t sv = Some server'" "ts_remotes t r = Some rm'"
    and new: "sv_remote server' = Some r" "sv_query server' = None" "rm_server rm' = Some sv" "sv_ok rx tx (ts_trace t) sv server'"
      "cipher_of sv (ts_trace t) = to_client sv (ts_trace t) @ pending (sv_send_io server') (sv_buf server')"
      "joined sv server' r rm' (ts_trace t)"
  shows "tcp_inv cr rx tx t"
proof -
  have S: "ts_servers t = (ts_servers s)(sv \<mapsto> server')" using t by (auto simp: touched_def)
  have R: "ts_remotes t = (ts_remotes s)(r \<mapsto> rm')" using t by (auto simp: touched_def)
  have "heap_inv rx tx (ts_servers t) (ts_remotes t) (ts_queries s) (ts_next s) (ts_connections s) (ts_trace t)"
    unfolding S R using inv t(1) sv new by (intro change_joined [where server = server]) (auto simp: tcp_inv_def touched_def)
  then show ?thesis using inv t(1) by (simp add: tcp_inv_def touched_def)
qed

lemmas joined_rule = joined_keeps [where server' = "the (ts_servers t sv)" and rm' = "the (ts_remotes t r)" and t = t and sv = sv and r = r for t sv r]

lemma waiting_keeps:
  assumes inv: "tcp_inv cr rx tx s" and sv: "ts_servers s sv = Some server" "sv_remote server = None" "sv_query server = None"
    and t: "touched sv None s t" "ts_servers t sv = Some server'"
    and new: "sv_remote server' = None" "sv_query server' = None" "sv_ok rx tx (ts_trace t) sv server'"
      "cipher_of sv (ts_trace t) = to_client sv (ts_trace t)" "alone (ts_queries s) sv server' (ts_trace t)"
  shows "tcp_inv cr rx tx t"
proof -
  have S: "ts_servers t = (ts_servers s)(sv \<mapsto> server')" using t by (auto simp: touched_def)
  have R: "ts_remotes t = ts_remotes s" using t by (auto simp: touched_def)
  have "heap_inv rx tx (ts_servers t) (ts_remotes t) (ts_queries s) (ts_next s) (ts_connections s) (ts_trace t)"
    unfolding S R using inv t(1) sv new by (intro change_waiting [where server = server]) (auto simp: tcp_inv_def touched_def)
  then show ?thesis using inv t(1) by (simp add: tcp_inv_def touched_def)
qed

lemmas waiting_rule = waiting_keeps [where server' = "the (ts_servers t sv)" and t = t and sv = sv for t sv]

section \<open>Closing\<close>

lemma close_both_keeps:
  assumes inv: "tcp_inv cr rx tx s" and sv: "ts_servers s sv = Some server"
    and t: "touched sv (sv_remote server) s t" "ts_servers t sv = Some server'" "sv_remote server' = sv_remote server" "sv_query server' = sv_query server"
    and rm: "\<And>r. sv_remote server = Some r \<Longrightarrow> \<exists>rm. ts_remotes t r = Some rm \<and> rm_server rm = Some sv"
  shows "keeps cr rx tx (close_both (sv_remote server) sv t)"
proof -
  have h: "heap_inv rx tx (ts_servers s) (ts_remotes s) (ts_queries s) (ts_next s) (ts_connections s) (ts_trace s)"
    using inv by (simp add: tcp_inv_def)
  note c = heap_conn [OF h sv]
  note u = t(1) [unfolded touched_def]
  have S: "(ts_servers t)(sv := None) = (ts_servers s)(sv := None)" using u by (auto simp: fun_eq_iff)
  show ?thesis
  proof (cases "sv_remote server")
    case (Some r)
    obtain x where x: "ts_remotes t r = Some x" "rm_server x = Some sv" using rm [OF Some] by blast
    have q: "sv_query server = None" using c Some by (simp add: conn_ok_def)
    have R: "(ts_remotes t)(r := None) = (ts_remotes s)(r := None)" using u Some by (auto simp: fun_eq_iff)
    let ?t = "t\<lparr>ts_servers := (ts_servers s)(sv := None), ts_remotes := (ts_remotes s)(r := None),
      ts_connections := removeAll sv (ts_connections s), ts_trace := ts_trace t @ [CloseRemote r, CloseServer sv]\<rparr>"
    have e: "close_both (sv_remote server) sv t = Done ?t"
      using x t(2-4) q Some u R S
      by (simp add: close_both_def tcp_close_and_free_remote_def tcp_free_remote_def tcp_close_and_free_server_def tcp_free_server_def heap_ops)
    have "heap_inv rx tx ((ts_servers s)(sv := None)) ((ts_remotes s)(r := None)) (ts_queries s) (ts_next s)
        (removeAll sv (ts_connections s)) (ts_trace t @ [CloseRemote r, CloseServer sv])"
      using u Some q by (intro drop_conn [OF h sv]) (auto simp: concerns_def)
    then show ?thesis unfolding e using u inv by (simp add: tcp_inv_def)
  next
    case None
    have R: "ts_remotes t = ts_remotes s" using u None by (auto simp: fun_eq_iff)
    show ?thesis
    proof (cases "sv_query server")
      case q: None
      let ?t = "t\<lparr>ts_servers := (ts_servers s)(sv := None), ts_connections := removeAll sv (ts_connections s), ts_trace := ts_trace t @ [CloseServer sv]\<rparr>"
      have e: "close_both (sv_remote server) sv t = Done ?t"
        using t(2-4) q None u S
        by (simp add: close_both_def tcp_close_and_free_remote_def tcp_close_and_free_server_def tcp_free_server_def heap_ops)
      have "heap_inv rx tx ((ts_servers s)(sv := None)) (ts_remotes s) (ts_queries s) (ts_next s)
          (removeAll sv (ts_connections s)) (ts_trace t @ [CloseServer sv])"
        using u None q by (intro drop_conn [OF h sv]) (auto simp: concerns_def)
      then show ?thesis unfolding e using u inv R by (simp add: tcp_inv_def)
    next
      case q: (Some q)
      obtain qy where qy: "ts_queries s q = Some qy" using c None q by (auto simp: conn_ok_def alone_def)
      let ?Q = "(ts_queries s)(q \<mapsto> qy\<lparr>rq_data := (rq_data qy)\<lparr>qy_server := None\<rparr>\<rparr>)"
      let ?t = "t\<lparr>ts_servers := (ts_servers s)(sv := None), ts_queries := ?Q, ts_connections := removeAll sv (ts_connections s), ts_trace := ts_trace t @ [CloseServer sv]\<rparr>"
      have e: "close_both (sv_remote server) sv t = Done ?t"
        using t(2-4) q None u S qy
        by (simp add: close_both_def tcp_close_and_free_remote_def tcp_close_and_free_server_def tcp_free_server_def heap_ops)
      have "heap_inv rx tx ((ts_servers s)(sv := None)) (ts_remotes s) ?Q (ts_next s)
          (removeAll sv (ts_connections s)) (ts_trace t @ [CloseServer sv])"
        using u None q by (intro drop_conn [OF h sv]) (auto simp: concerns_def)
      then show ?thesis unfolding e using u inv R by (simp add: tcp_inv_def)
    qed
  qed
qed

lemma close_server_keeps:
  assumes "tcp_inv cr rx tx s" "ts_servers s sv = Some server" "sv_remote server = None"
    "touched sv None s t" "ts_servers t sv = Some server'" "sv_remote server' = None" "sv_query server' = sv_query server"
  shows "keeps cr rx tx (tcp_close_and_free_server sv t)"
  using close_both_keeps [OF assms(1,2), of t server'] assms by (simp add: close_both_def tcp_close_and_free_remote_def)

text \<open>The destination of a connection.\<close>

lemma conn_remote:
  assumes "tcp_inv cr rx tx s" "ts_servers s sv = Some server" "sv_remote server = Some r"
  obtains rm where "ts_remotes s r = Some rm" "rm_server rm = Some sv" "sv_query server = None" "joined sv server r rm (ts_trace s)" "sv_ok rx tx (ts_trace s) sv server"
    "cipher_of sv (ts_trace s) = to_client sv (ts_trace s) @ pending (sv_send_io server) (sv_buf server)"
  using inv_conn [OF assms(1,2)] assms(3) that by (auto simp: conn_ok_def)

lemma conn_server:
  assumes "tcp_inv cr rx tx s" "ts_remotes s r = Some rm"
  obtains sv server where "rm_server rm = Some sv" "ts_servers s sv = Some server" "sv_remote server = Some r"
  using assms heap_links(1) unfolding tcp_inv_def by blast

lemma inv_globals: "tcp_inv cr rx tx s \<Longrightarrow> globals_ok (ts_globals s)" by (simp add: tcp_inv_def)

section \<open>Sending what is pending\<close>

lemma tcp_server_send_keeps:
  assumes inv: "tcp_inv cr rx tx s" and sv: "ts_servers s sv = Some server" "sv_send_io server"
  shows "keeps cr rx tx (tcp_server_send_cb env sv s)"
proof -
  note c = inv_conn [OF inv sv(1)]
  obtain r where r: "sv_remote server = Some r" using c sv(2) by (cases "sv_remote server") (auto simp: conn_ok_def alone_def)
  obtain rm where rm: "ts_remotes s r = Some rm" "rm_server rm = Some sv" "sv_query server = None"
      "joined sv server r rm (ts_trace s)" "sv_ok rx tx (ts_trace s) sv server"
      "cipher_of sv (ts_trace s) = to_client sv (ts_trace s) @ pending (sv_send_io server) (sv_buf server)"
    using conn_remote [OF inv sv(1) r] by blast
  let ?b = "sv_buf server"
  have b: "\<not> bidx ?b + blen ?b > length (bdata ?b)" using rm(5) sv(2) by (simp add: sv_ok_def buffer_ok_def)
  have close: "keeps cr rx tx (close_both (Some r) sv s)"
    using close_both_keeps [OF inv sv(1), of s server] rm sv r inv_globals [OF inv] by (simp add: touched_def)
  show ?thesis
  proof (cases "blen ?b = 0")
    case True
    then show ?thesis using close sv r by (simp add: tcp_server_send_cb_def heap_ops Let_def)
  next
    case False
    show ?thesis
    proof (cases "te_send env")
      case (SendOk n)
      show ?thesis
      proof (cases "n < blen ?b")
        case True
        have "tcp_inv cr rx tx (s\<lparr>ts_trace := ts_trace s @ [ToClient sv (take n (sendable (bidx ?b) ?b))],
            ts_servers := (ts_servers s)(sv \<mapsto> server\<lparr>sv_buf := ?b\<lparr>blen := blen ?b - n, bidx := bidx ?b + n\<rparr>\<rparr>)\<rparr>)"
          by (rule joined_rule [OF inv sv(1) r])
             (use rm r sv True inv_globals [OF inv] sendable_split [of n ?b "bidx ?b"] in
              \<open>auto simp: touched_def sv_ok_def joined_def buffer_ok_def split: if_splits\<close>)
        then show ?thesis using SendOk True False sv r b by (simp add: tcp_server_send_cb_def heap_ops Let_def)
      next
        case n: False
        have "tcp_inv cr rx tx (s\<lparr>ts_trace := ts_trace s @ [ToClient sv (sendable (bidx ?b) ?b)],
            ts_servers := (ts_servers s)(sv \<mapsto> server\<lparr>sv_buf := ?b\<lparr>blen := 0, bidx := 0\<rparr>, sv_send_io := False\<rparr>),
            ts_remotes := (ts_remotes s)(r \<mapsto> rm\<lparr>rm_recv_io := True\<rparr>)\<rparr>)"
          by (rule joined_rule [OF inv sv(1) r])
             (use rm r sv inv_globals [OF inv] in \<open>auto simp: touched_def sv_ok_def joined_def buffer_ok_def rm_ok_def split: if_splits\<close>)
        then show ?thesis using SendOk n False sv r b rm by (simp add: tcp_server_send_cb_def heap_ops Let_def)
      qed
    qed (use inv close sv r b False in \<open>simp_all add: tcp_server_send_cb_def heap_ops Let_def\<close>)
  qed
qed

lemma block_list_frame [simp]:
  "ts_crypto (reset_addr net env fd s) = ts_crypto s" "ts_globals (reset_addr net env fd s) = ts_globals s"
  "ts_servers (reset_addr net env fd s) = ts_servers s" "ts_remotes (reset_addr net env fd s) = ts_remotes s"
  "ts_queries (reset_addr net env fd s) = ts_queries s" "ts_next (reset_addr net env fd s) = ts_next s"
  "ts_connections (reset_addr net env fd s) = ts_connections s" "ts_trace (reset_addr net env fd s) = ts_trace s"
  "ts_crypto (report_addr net env fd l s) = ts_crypto s" "ts_globals (report_addr net env fd l s) = ts_globals s"
  "ts_servers (report_addr net env fd l s) = ts_servers s" "ts_remotes (report_addr net env fd l s) = ts_remotes s"
  "ts_queries (report_addr net env fd l s) = ts_queries s" "ts_next (report_addr net env fd l s) = ts_next s"
  "ts_connections (report_addr net env fd l s) = ts_connections s" "ts_trace (report_addr net env fd l s) = ts_trace s"
  by (auto simp: reset_addr_def report_addr_def split: option.splits)

lemma tcp_remote_send_keeps:
  assumes inv: "tcp_inv cr rx tx s" and r: "ts_remotes s r = Some rm" "rm_send_io rm"
  shows "keeps cr rx tx (tcp_remote_send_cb net env r s)"
proof -
  obtain sv server where sv: "rm_server rm = Some sv" "ts_servers s sv = Some server" "sv_remote server = Some r"
    by (rule conn_server [OF inv r(1)])
  have c: "sv_query server = None" "joined sv server r rm (ts_trace s)" "sv_ok rx tx (ts_trace s) sv server"
      "cipher_of sv (ts_trace s) = to_client sv (ts_trace s) @ pending (sv_send_io server) (sv_buf server)"
    by (rule conn_remote [OF inv sv(2,3)]; use r in simp)+
  let ?b = "rm_buf rm" and ?first = "\<not> rm_send_connected rm"
  define t where "t = (if ?first then (reset_addr net env (sv_fd server) s)\<lparr>ts_remotes := (ts_remotes s)(r \<mapsto> rm\<lparr>rm_send_connected := True\<rparr>)\<rparr> else s)"
  define rm1 where "rm1 = (if ?first then rm\<lparr>rm_send_connected := True\<rparr> else rm)"
  have t: "touched sv (Some r) s t" "ts_servers t = ts_servers s" "ts_remotes t r = Some rm1" "ts_trace t = ts_trace s"
    using inv_globals [OF inv] r(1) by (auto simp: t_def rm1_def touched_def)
  have rm1: "rm_server rm1 = Some sv" "rm_buf rm1 = ?b" "rm_send_io rm1" "rm_recv_io rm1 = rm_recv_io rm" "rm_send_connected rm1"
    using sv r by (auto simp: rm1_def)
  have j: "rm_ok rm1" "joined sv server r rm1 (ts_trace t)" using c(2) rm1 t(4) r(2) by (auto simp: joined_def rm_ok_def)
  have b: "\<not> bidx ?b + blen ?b > length (bdata ?b)" using j(1) rm1 by (simp add: rm_ok_def buffer_ok_def)
  have tk: "tcp_inv cr rx tx t" by (rule joined_keeps [OF inv sv(2,3) t(1) _ t(3)]) (use t sv c j rm1 in auto)
  have close: "keeps cr rx tx (close_both (Some r) sv t)" "keeps cr rx tx (close_both (Some r) sv s)"
    using close_both_keeps [OF tk, of sv server t server] close_both_keeps [OF inv sv(2), of s server] t sv c inv_globals [OF tk] rm1 r inv_globals [OF inv]
    by (simp_all add: touched_def)
  have e: "tcp_remote_send_cb net env r s =
      (if ?first \<and> te_peer env (rm_fd rm) = None then close_both (Some r) sv s
       else if ?first \<and> blen ?b = 0 then Done (t\<lparr>ts_servers := (ts_servers s)(sv \<mapsto> server\<lparr>sv_stage := STAGE_STREAM, sv_recv_io := True\<rparr>),
           ts_remotes := (ts_remotes t)(r \<mapsto> rm1\<lparr>rm_send_io := False, rm_recv_io := True\<rparr>)\<rparr>)
       else if blen ?b = 0 then close_both (Some r) sv t
       else (case te_send env of
           SendAgain \<Rightarrow> Done t
         | SendError \<Rightarrow> close_both (Some r) sv t
         | SendOk n \<Rightarrow>
             if n < blen ?b
             then Done (t\<lparr>ts_trace := ts_trace t @ [ToRemote r (take n (sendable (bidx ?b) ?b))],
                 ts_remotes := (ts_remotes t)(r \<mapsto> rm1\<lparr>rm_buf := ?b\<lparr>blen := blen ?b - n, bidx := bidx ?b + n\<rparr>\<rparr>)\<rparr>)
             else Done (t\<lparr>ts_trace := ts_trace t @ [ToRemote r (sendable (bidx ?b) ?b)],
                 ts_remotes := (ts_remotes t)(r \<mapsto> rm1\<lparr>rm_buf := ?b\<lparr>blen := 0, bidx := 0\<rparr>, rm_send_io := False,
                   rm_recv_io := (sv_stage server \<noteq> STAGE_STREAM \<or> rm_recv_io rm)\<rparr>),
                 ts_servers := (ts_servers s)(sv \<mapsto> server\<lparr>sv_recv_io := True, sv_stage := STAGE_STREAM\<rparr>)\<rparr>)))"
    using sv r b
    by (cases server; cases rm; auto simp: tcp_remote_send_cb_def heap_ops t_def rm1_def Let_def split: send_result.splits)
  note new = joined_rule [OF inv sv(2,3)] and side = t sv c rm1 r inv_globals [OF inv] t(1) [unfolded touched_def] j(1)
  show ?thesis
  proof (cases "?first \<and> blen ?b = 0 \<or> blen ?b = 0")
    case True
    have "tcp_inv cr rx tx (t\<lparr>ts_servers := (ts_servers s)(sv \<mapsto> server\<lparr>sv_stage := STAGE_STREAM, sv_recv_io := True\<rparr>),
        ts_remotes := (ts_remotes t)(r \<mapsto> rm1\<lparr>rm_send_io := False, rm_recv_io := True\<rparr>)\<rparr>)" if "?first"
    proof -
      have ns: "sv_stage server \<noteq> STAGE_STREAM" using c(2) that by (auto simp: joined_def)
      then obtain h where h: "\<not> sv_send_io server" "tcp_header h" "plain_of sv (ts_trace s) = h @ to_remote r (ts_trace s)"
        using c(2) True r(2) by (auto simp: joined_def sendable_def)
      have u: "touched sv (Some r) s (t\<lparr>ts_servers := (ts_servers s)(sv \<mapsto> server\<lparr>sv_stage := STAGE_STREAM, sv_recv_io := True\<rparr>),
        ts_remotes := (ts_remotes t)(r \<mapsto> rm1\<lparr>rm_send_io := False, rm_recv_io := True\<rparr>)\<rparr>)"
        using t(1) by (auto simp: touched_def)
      show ?thesis
        by (rule new [OF u]) (use sv c rm1 h t(4) j(1) in \<open>simp_all add: sv_ok_def joined_def rm_ok_def, blast?\<close>)
    qed
    then show ?thesis using True close by (auto simp: e)
  next
    case False
    show ?thesis
    proof (cases "te_send env")
      case (SendOk n)
      have "tcp_inv cr rx tx (t\<lparr>ts_trace := ts_trace t @ [ToRemote r (take n (sendable (bidx ?b) ?b))],
          ts_remotes := (ts_remotes t)(r \<mapsto> rm1\<lparr>rm_buf := ?b\<lparr>blen := blen ?b - n, bidx := bidx ?b + n\<rparr>\<rparr>)\<rparr>)" if "n < blen ?b"
        by (rule new) (use side that sendable_split [of n ?b "bidx ?b"] in
            \<open>auto simp: touched_def sv_ok_def joined_def rm_ok_def buffer_ok_def split: if_splits\<close>)
      moreover have "tcp_inv cr rx tx (t\<lparr>ts_trace := ts_trace t @ [ToRemote r (sendable (bidx ?b) ?b)],
          ts_remotes := (ts_remotes t)(r \<mapsto> rm1\<lparr>rm_buf := ?b\<lparr>blen := 0, bidx := 0\<rparr>, rm_send_io := False,
            rm_recv_io := (sv_stage server \<noteq> STAGE_STREAM \<or> rm_recv_io rm)\<rparr>),
          ts_servers := (ts_servers s)(sv \<mapsto> server\<lparr>sv_recv_io := True, sv_stage := STAGE_STREAM\<rparr>)\<rparr>)"
        by (rule new) (use side in \<open>auto simp: touched_def sv_ok_def joined_def rm_ok_def buffer_ok_def split: if_splits\<close>)
      ultimately show ?thesis using SendOk False close by (simp add: e)
    qed (use False close tk in \<open>simp_all add: e\<close>)
  qed
qed

lemma server_timeout_keeps:
  assumes inv: "tcp_inv cr rx tx s" and sv: "ts_servers s sv = Some server"
  shows "keeps cr rx tx (server_timeout_cb sv s)"
proof -
  have "\<And>r. sv_remote server = Some r \<Longrightarrow> \<exists>rm. ts_remotes s r = Some rm \<and> rm_server rm = Some sv"
    using inv_conn [OF inv sv] by (auto simp: conn_ok_def)
  then show ?thesis
    using close_both_keeps [OF inv sv, of s server] sv inv_globals [OF inv] by (simp add: server_timeout_cb_def heap_ops touched_def)
qed

section \<open>What the cipher must do\<close>

locale connection_cipher =
  fixes valid :: "'p \<Rightarrow> bool"
    and crypto_of :: "'p \<Rightarrow> 'e crypto"
    and rx_ok :: "'p \<Rightarrow> bytes \<Rightarrow> bytes \<Rightarrow> 'e cipher_ctx \<Rightarrow> bool"
    and tx_ok :: "'p \<Rightarrow> bytes \<Rightarrow> bytes \<Rightarrow> 'e cipher_ctx \<Rightarrow> bool"
  assumes fresh: "valid p \<Longrightarrow> rx_ok p [] [] (cr_ctx_init (crypto_of p) rnd (cr_cipher (crypto_of p)) False)"
      "valid p \<Longrightarrow> tx_ok p [] [] (cr_ctx_init (crypto_of p) rnd (cr_cipher (crypto_of p)) True)"
    and decrypts: "valid p \<Longrightarrow> rx_ok p R P x \<Longrightarrow> globals_ok g \<Longrightarrow> buffer_ok b \<Longrightarrow> 0 < blen b \<Longrightarrow>
      cr_decrypt (crypto_of p) True g b x c = (ret, g', b', x') \<Longrightarrow>
      ret \<noteq> ABORTED \<and> globals_ok g' \<and> buffer_ok b' \<and> bcap b \<le> bcap b' \<and> bidx b' = bidx b \<and>
      (ret = CRYPTO_OK \<longrightarrow> rx_ok p (R @ bcontent b) (P @ bcontent b') x') \<and> (ret = CRYPTO_NEED_MORE \<longrightarrow> rx_ok p (R @ bcontent b) P x')"
    and encrypts: "valid p \<Longrightarrow> tx_ok p D C x \<Longrightarrow> globals_ok g \<Longrightarrow> buffer_ok b \<Longrightarrow> 0 < blen b \<Longrightarrow> blen b \<le> BUF_SIZE \<Longrightarrow>
      cr_encrypt (crypto_of p) g b x c = (ret, g', b', x') \<Longrightarrow>
      ret = CRYPTO_OK \<and> globals_ok g' \<and> buffer_ok b' \<and> bcap b \<le> bcap b' \<and> bidx b' = bidx b \<and> tx_ok p (D @ bcontent b) (C @ bcontent b') x'"


section \<open>Receiving from the destination\<close>

lemma recv_into_ok:
  assumes "buffer_ok b" "BUF_SIZE \<le> bcap b" "bs \<noteq> []"
  obtains b' where "recv_into bs b = Done b'" "buffer_ok b'" "bcap b' = bcap b" "bidx b' = bidx b" "0 < blen b'" "blen b' \<le> BUF_SIZE"
    "bcontent b' = take BUF_SIZE bs"
proof
  let ?b = "b\<lparr>bdata := write_at 0 (take BUF_SIZE bs) (bdata b), blen := length (take BUF_SIZE bs)\<rparr>"
  show "recv_into bs b = Done ?b" using assms by (simp add: recv_into_def Let_def buffer_ok_def)
  show "buffer_ok ?b" "bcap ?b = bcap b" "bidx ?b = bidx b" "0 < blen ?b" "blen ?b \<le> BUF_SIZE" "bcontent ?b = take BUF_SIZE bs"
    using assms by (simp_all add: buffer_ok_def bcontent_def write_at_0 BUF_SIZE_def min_def)
qed

lemma sendable_0 [simp]: "sendable 0 b = bcontent b" "sendable 0 (b\<lparr>bidx := i\<rparr>) = bcontent b"
  by (simp_all add: sendable_def bcontent_def)

lemma split_content:
  "n \<le> blen b \<Longrightarrow> take n (bcontent b) @ sendable n (b\<lparr>blen := blen b - n, bidx := m\<rparr>) = bcontent b"
  using sendable_split [of n b 0 m] by simp

context connection_cipher
begin

lemma tcp_remote_recv_keeps:
  assumes p: "valid p" and inv: "tcp_inv (crypto_of p) (rx_ok p) (tx_ok p) s" and r: "ts_remotes s r = Some rm" "rm_recv_io rm"
  shows "keeps (crypto_of p) (rx_ok p) (tx_ok p) (tcp_remote_recv_cb env r s)"
proof -
  obtain sv server where sv: "rm_server rm = Some sv" "ts_servers s sv = Some server" "sv_remote server = Some r"
    by (rule conn_server [OF inv r(1)])
  have c: "sv_query server = None" "joined sv server r rm (ts_trace s)" "sv_ok (rx_ok p) (tx_ok p) (ts_trace s) sv server"
      "cipher_of sv (ts_trace s) = to_client sv (ts_trace s) @ pending (sv_send_io server) (sv_buf server)"
    by (rule conn_remote [OF inv sv(2,3)]; use r in simp)+
  have st: "sv_stage server = STAGE_STREAM" "\<not> sv_send_io server" using c(2) r(2) by (auto simp: joined_def split: if_splits)
  note cl = close_both_keeps [OF inv sv(2), unfolded sv(3)]
  let ?w = "server\<lparr>sv_watcher := True\<rparr>"
  have close: "keeps (crypto_of p) (rx_ok p) (tx_ok p) (close_both (Some r) sv (s\<lparr>ts_servers := (ts_servers s)(sv \<mapsto> ?w)\<rparr>))"
    by (rule cl [of _ ?w]) (use sv r c inv_globals [OF inv] in \<open>simp_all add: touched_def\<close>)
  show ?thesis
  proof (cases "te_recv env")
    case RecvAgain
    have "tcp_inv (crypto_of p) (rx_ok p) (tx_ok p) (s\<lparr>ts_servers := (ts_servers s)(sv \<mapsto> ?w)\<rparr>)"
      by (rule joined_rule [OF inv sv(2,3)])
         (use sv r c st inv_globals [OF inv] in \<open>simp_all add: touched_def sv_ok_def joined_def\<close>)
    then show ?thesis using RecvAgain sv r by (simp add: tcp_remote_recv_cb_def heap_ops)
  next
    case RecvError
    then show ?thesis using close sv r by (simp add: tcp_remote_recv_cb_def heap_ops)
  next
    case (Received bs)
    show ?thesis
    proof (cases "bs = []")
      case True
      then show ?thesis using Received close sv r by (simp add: tcp_remote_recv_cb_def heap_ops)
    next
      case False
      have bo: "buffer_ok (sv_buf server)" "BUF_SIZE \<le> bcap (sv_buf server)" using c(3) by (simp_all add: sv_ok_def)
      obtain b where b: "recv_into bs (sv_buf server) = Done b" "buffer_ok b" "bcap b = bcap (sv_buf server)"
          "bidx b = bidx (sv_buf server)" "0 < blen b" "blen b \<le> BUF_SIZE" "bcontent b = take BUF_SIZE bs"
        by (rule recv_into_ok [OF bo False])
      obtain ret g' b' x' where d: "cr_encrypt (crypto_of p) (ts_globals s) b (sv_e_ctx server) BUF_SIZE = (ret, g', b', x')"
        by (metis prod_cases4)
      have tx: "tx_ok p (from_remote sv (ts_trace s)) (cipher_of sv (ts_trace s)) (sv_e_ctx server)"
          "rx_ok p (from_client sv (ts_trace s)) (plain_of sv (ts_trace s)) (sv_d_ctx server)" using c(3) by (simp_all add: sv_ok_def)
      note k = encrypts [OF p tx(1) inv_globals [OF inv] b(2,5,6) d]
      have cr: "ts_crypto s = crypto_of p" using inv by (simp add: tcp_inv_def)
      let ?sv = "server\<lparr>sv_watcher := True, sv_buf := b', sv_e_ctx := x'\<rparr>"
      let ?s = "s\<lparr>ts_rx := ts_rx s + word_of_nat (blen b), ts_globals := g', ts_servers := (ts_servers s)(sv \<mapsto> ?sv), ts_trace := ts_trace s @ [FromRemote sv (bcontent b), Cipher sv (bcontent b')]\<rparr>"
      let ?rm = "rm\<lparr>rm_recv_connected := True\<rparr>"
      have cap: "BUF_SIZE \<le> bcap b'" using k b(3) bo(2) by simp
      have tr: "touched sv (Some r) s ?s" using k by (simp add: touched_def concerns_def)
      have close2: "keeps (crypto_of p) (rx_ok p) (tx_ok p) (close_both (Some r) sv ?s)"
        by (rule cl [OF tr, of ?sv]) (use sv r c in simp_all)
      have full: "tcp_inv (crypto_of p) (rx_ok p) (tx_ok p)
          (?s\<lparr>ts_trace := ts_trace s @ [FromRemote sv (bcontent b), Cipher sv (bcontent b'), ToClient sv (bcontent b')], ts_remotes := (ts_remotes s)(r \<mapsto> ?rm)\<rparr>)"
        by (rule joined_rule [OF inv sv(2,3)])
           (use k tr sv r c st cap tx in \<open>simp_all add: touched_def concerns_def sv_ok_def joined_def rm_ok_def\<close>)
      let ?wait = "\<lambda>es n. ?s\<lparr>ts_trace := ts_trace s @ FromRemote sv (bcontent b) # Cipher sv (bcontent b') # es,
          ts_servers := (ts_servers s)(sv \<mapsto> ?sv\<lparr>sv_buf := b'\<lparr>blen := blen b' - n, bidx := n\<rparr>, sv_send_io := True\<rparr>),
          ts_remotes := (ts_remotes s)(r \<mapsto> rm\<lparr>rm_recv_io := False, rm_recv_connected := True\<rparr>)\<rparr>"
      have wait: "tcp_inv (crypto_of p) (rx_ok p) (tx_ok p) (?wait es n)"
        if n: "n \<le> blen b'" and es: "es = [] \<and> n = 0 \<or> es = [ToClient sv (take n (bcontent b'))]" for es n
      proof -
        have es0: "from_client sv es = []" "from_remote sv es = []" "plain_of sv es = []" "cipher_of sv es = []" "to_remote r es = []" using es by auto
        have f: "to_client sv es @ sendable n (b'\<lparr>blen := blen b' - n, bidx := n\<rparr>) = bcontent b'"
          using es split_content [OF n] by (auto simp: sendable_def bcontent_def)
        have "touched sv (Some r) s (?wait es n)" using tr es by (auto simp: touched_def concerns_def)
        then show ?thesis
          by (rule joined_rule [OF inv sv(2,3)])
             (use k sv r c st cap tx n es0 f in \<open>auto simp: sv_ok_def joined_def rm_ok_def buffer_ok_def\<close>)
      qed
      have e: "tcp_remote_recv_cb env r s =
          (case te_send env of
             SendAgain \<Rightarrow> Done (?wait [] 0)
           | SendError \<Rightarrow> close_both (Some r) sv ?s
           | SendOk n \<Rightarrow> if n < blen b' then Done (?wait [ToClient sv (take n (bcontent b'))] n)
               else Done (?s\<lparr>ts_trace := ts_trace s @ [FromRemote sv (bcontent b), Cipher sv (bcontent b'), ToClient sv (bcontent b')], ts_remotes := (ts_remotes s)(r \<mapsto> ?rm)\<rparr>))"
        using Received False b(1) d cr k sv r
        by (simp add: tcp_remote_recv_cb_def heap_ops Let_def split: send_result.split)
      show ?thesis unfolding e using wait [of _ "[ToClient sv (take n (bcontent b'))]" for n] wait [of 0 "[]"] close2 full by (auto split: send_result.split)
    qed
  qed
qed

end

end
