(* ===== verification/ServerCallbacks.thy ===== *)
theory ServerCallbacks
  imports ServerSteps
begin

text \<open>
  The callbacks of the TCP relay that parse a request, connect, receive from the client, accept and take the answers
  of c-ares keep the invariant of \<open>ServerInv\<close>.
\<close>

section \<open>The request\<close>

lemma parse_reads:
  assumes "BUF_SIZE \<le> length data"
  shows "parse_tcp_request net re acl data len \<noteq> None"
proof -
  have l: "2048 \<le> length data" using assms by (simp add: BUF_SIZE_def)
  have "unat (data ! 1) \<le> 255" by (rule unat_byte_le)
  then have "unat (data ! 1) + 2 \<le> length (drop 2 data)" using l by (simp only: length_drop)
  moreover have "6 \<le> length (drop 1 data)" "18 \<le> length (drop 1 data)" using l by simp_all
  moreover have "0 < length data" "1 < length data" using l by linarith+
  ultimately show ?thesis
    by (simp only: parse_tcp_request_def Let_def rd_def rd_n_def if_True option.case option.distinct simp_thms split: if_split)
qed

lemma tcp_header_takeI:
  assumes "off \<le> length data" "2 \<le> off"
    "data ! 0 AND ADDRTYPE_MASK = 1 \<and> off = 7 \<or> data ! 0 AND ADDRTYPE_MASK = 3 \<and> off = unat (data ! 1) + 4 \<or> data ! 0 AND ADDRTYPE_MASK = 4 \<and> off = 19"
  shows "tcp_header (take off data)"
proof -
  have "take off data ! 0 = data ! 0" "take off data ! 1 = data ! 1" "length (take off data) = off" using assms(1,2) by simp_all
  then show ?thesis using assms(2,3) by (simp only: tcp_header_def)
qed

lemma parse_offset:
  assumes p: "parse_tcp_request net re acl data len = Some req" "req = Target addr off \<or> req = Resolve host port off" and l: "len \<le> length data"
  shows "off \<le> len" "tcp_header (take off data)"
proof -
  let ?a = "data ! 0 AND ADDRTYPE_MASK"
  have "off \<le> len \<and> 2 \<le> off \<and> (?a = 1 \<and> off = 7 \<or> ?a = 3 \<and> off = unat (data ! 1) + 4 \<or> ?a = 4 \<and> off = 19)"
    using p unfolding parse_tcp_request_def Let_def rd_def rd_n_def by (elim disjE; simp split: if_splits option.splits; fastforce)
  then show "off \<le> len" "tcp_header (take off data)" using tcp_header_takeI [of off data] l by auto
qed

definition without_header :: "nat \<Rightarrow> buffer \<Rightarrow> buffer" where
  "without_header off b = the (drop_header off b)"

lemma drop_header_ok:
  assumes "buffer_ok b" "off \<le> blen b"
  shows "drop_header off b = Some (without_header off b)" "buffer_ok (without_header off b)" "bcap (without_header off b) = bcap b" "bidx (without_header off b) = bidx b"
    "bcontent (without_header off b) = drop off (bcontent b)" "blen (without_header off b) = blen b - off"
proof -
  have l: "length (take (blen b - off) (drop off (bdata b))) = blen b - off" "blen b - off \<le> length (bdata b)"
    using assms by (auto simp: buffer_ok_def)
  have le: "off + (blen b - off) \<le> length (bdata b)" using assms by (auto simp: buffer_ok_def)
  show "drop_header off b = Some (without_header off b)" "bcap (without_header off b) = bcap b"
    "bidx (without_header off b) = bidx b" "blen (without_header off b) = blen b - off"
    using le by (simp_all add: without_header_def drop_header_def Let_def)
  have "length (write_at 0 (take (blen b - off) (drop off (bdata b))) (bdata b)) = length (bdata b)" using l by simp
  then show "buffer_ok (without_header off b)" using assms l le by (simp add: without_header_def drop_header_def Let_def buffer_ok_def)
  show "bcontent (without_header off b) = drop off (bcontent b)"
    using l le by (simp add: without_header_def drop_header_def Let_def bcontent_def write_at_0 drop_take)
qed


section \<open>Connecting\<close>

text \<open>A connection attempt that fails leaves no remote behind.\<close>

definition same_conns :: "('e, 're) tcp_state \<Rightarrow> ('e, 're) tcp_state \<Rightarrow> bool" where
  "same_conns s t \<longleftrightarrow> ts_crypto t = ts_crypto s \<and> ts_globals t = ts_globals s \<and> ts_servers t = ts_servers s \<and> ts_remotes t = ts_remotes s \<and>
    ts_queries t = ts_queries s \<and> ts_connections t = ts_connections s \<and> ts_next s \<le> ts_next t \<and>
    (\<forall>i. plain_of i (ts_trace t) = plain_of i (ts_trace s) \<and> cipher_of i (ts_trace t) = cipher_of i (ts_trace s) \<and>
      to_client i (ts_trace t) = to_client i (ts_trace s) \<and> to_remote i (ts_trace t) = to_remote i (ts_trace s) \<and>
      from_client i (ts_trace t) = from_client i (ts_trace s) \<and> from_remote i (ts_trace t) = from_remote i (ts_trace s))"

text \<open>A remote \<open>r\<close> that has been connected and attached: it has been sent, or holds, what the client had sent.\<close>

definition attached :: "nat \<Rightarrow> 'e tcp_server \<Rightarrow> ('e, 're) tcp_state \<Rightarrow> ('e, 're) tcp_state \<Rightarrow> bool" where
  "attached sv server s t \<longleftrightarrow>
    (\<exists>b rm. ts_servers t = (ts_servers s)(sv \<mapsto> server\<lparr>sv_remote := Some (ts_next s), sv_buf := b\<rparr>) \<and>
      ts_remotes t = (ts_remotes s)(ts_next s \<mapsto> rm) \<and> buffer_ok b \<and> bcap b = bcap (sv_buf server) \<and>
      rm_ok rm \<and> rm_server rm = Some sv \<and> rm_send_io rm \<and> \<not> rm_recv_io rm \<and> 
      to_remote (ts_next s) (ts_trace t) @ sendable (bidx (rm_buf rm)) (rm_buf rm) = to_remote (ts_next s) (ts_trace s) @ bcontent (sv_buf server)) \<and>
    ts_crypto t = ts_crypto s \<and> ts_globals t = ts_globals s \<and>
    ts_queries t = ts_queries s \<and> ts_connections t = ts_connections s \<and> ts_next t = Suc (ts_next s) \<and>
    (\<forall>i. plain_of i (ts_trace t) = plain_of i (ts_trace s) \<and> cipher_of i (ts_trace t) = cipher_of i (ts_trace s) \<and>
      to_client i (ts_trace t) = to_client i (ts_trace s) \<and> from_client i (ts_trace t) = from_client i (ts_trace s) \<and>
      from_remote i (ts_trace t) = from_remote i (ts_trace s)) \<and> (\<forall>i. i \<noteq> ts_next s \<longrightarrow> to_remote i (ts_trace t) = to_remote i (ts_trace s))"

lemma brealloc_cap_data: "buffer_ok b \<Longrightarrow> length (bdata (brealloc b n c)) = bcap (brealloc b n c)"
  using brealloc_ok by (auto simp: buffer_ok_def)

lemma attach_remote_attached:
  assumes sv: "ts_servers s sv = Some server" "buffer_ok (sv_buf server)" "bidx (sv_buf server) = 0" and k: "k \<le> blen (sv_buf server)"
    and s1: "ts_servers s1 = (ts_servers s)(sv \<mapsto> server\<lparr>sv_buf := (sv_buf server)\<lparr>bidx := k, blen := blen (sv_buf server) - k\<rparr>\<rparr>)"
      "ts_remotes s1 = (ts_remotes s)(ts_next s \<mapsto> \<lparr>rm_fd = fd, rm_buf = balloc BUF_SIZE, rm_recv_io = False, rm_send_io = False,
         rm_recv_connected = False, rm_send_connected = False, rm_server = None\<rparr>)"
      "ts_crypto s1 = ts_crypto s" "ts_globals s1 = ts_globals s" "ts_queries s1 = ts_queries s" "ts_connections s1 = ts_connections s" "ts_next s1 = Suc (ts_next s)"
      "ts_trace s1 = ts_trace s @ es" "es = [] \<and> k = 0 \<or> es = [ToRemote (ts_next s) (take k (bdata (sv_buf server)))]"
  obtains t where "attach_remote sv (ts_next s) s1 = Done t" "attached sv server s t"
proof -
  let ?b = "sv_buf server"
  have bl: "blen ?b \<le> length (bdata ?b)" using sv(2) by (simp add: buffer_ok_def)
  have c: "take k (bdata ?b) @ take (blen ?b - k) (drop k (bdata ?b)) = bcontent ?b"
    using k by (simp add: bcontent_def) (metis le_add_diff_inverse take_add)
  have es: "to_remote (ts_next s) es = take k (bdata ?b)" "\<And>i. i \<noteq> ts_next s \<Longrightarrow> to_remote i es = []" "\<And>i. plain_of i es = []" "\<And>i. cipher_of i es = []" "\<And>i. to_client i es = []"
      "\<And>i. from_client i es = []" "\<And>i. from_remote i es = []"
    using s1(9) by auto
  show thesis
  proof (cases "blen ?b - k = 0")
    case True
    let ?t = "s1\<lparr>ts_servers := (ts_servers s)(sv \<mapsto> server\<lparr>sv_remote := Some (ts_next s), sv_buf := ?b\<lparr>bidx := k, blen := blen ?b - k\<rparr>\<rparr>),
      ts_remotes := (ts_remotes s)(ts_next s \<mapsto> \<lparr>rm_fd = fd, rm_buf = balloc BUF_SIZE, rm_recv_io = False, rm_send_io = True,
         rm_recv_connected = False, rm_send_connected = False, rm_server = Some sv\<rparr>)\<rparr>"
    show thesis
    proof (rule that [of ?t])
      show "attach_remote sv (ts_next s) s1 = Done ?t"
        using True s1(1,2) by (cases server) (simp add: attach_remote_def heap_ops)
      show "attached sv server s ?t"
        unfolding attached_def
        using True s1(3-8) es sv c bl k
        by (intro conjI exI [of _ "?b\<lparr>bidx := k, blen := blen ?b - k\<rparr>"] exI) (auto simp: buffer_ok_def rm_ok_def sendable_def balloc_def)
    qed
  next
    case False
    let ?d = "take (blen ?b - k) (drop k (bdata ?b))"
    let ?m = "brealloc (balloc BUF_SIZE) (blen ?b - k) BUF_SIZE"
    have m: "blen ?b - k \<le> bcap ?m" "BUF_SIZE \<le> bcap ?m" "length (bdata ?m) = bcap ?m" by (simp_all add: brealloc_cap brealloc_cap_data)
    have dl: "length ?d = blen ?b - k" using bl by simp
    let ?rb = "?m\<lparr>bdata := write_at 0 ?d (bdata ?m), blen := blen ?b - k, bidx := 0\<rparr>"
    have rb: "buffer_ok ?rb" "bcontent ?rb = ?d" using m dl by (simp_all add: buffer_ok_def bcontent_def write_at_0)
    let ?t = "s1\<lparr>ts_servers := (ts_servers s)(sv \<mapsto> server\<lparr>sv_remote := Some (ts_next s), sv_buf := ?b\<lparr>blen := 0, bidx := 0\<rparr>\<rparr>),
      ts_remotes := (ts_remotes s)(ts_next s \<mapsto> \<lparr>rm_fd = fd, rm_buf = ?rb, rm_recv_io = False, rm_send_io = True,
         rm_recv_connected = False, rm_send_connected = False, rm_server = Some sv\<rparr>)\<rparr>"
    show thesis
    proof (rule that [of ?t])
      show "attach_remote sv (ts_next s) s1 = Done ?t"
        using False s1(1,2) bl k m by (cases server) (simp add: attach_remote_def heap_ops Let_def)
      show "attached sv server s ?t"
        unfolding attached_def
        using s1(3-8) es sv c rb m
        by (intro conjI exI [of _ "?b\<lparr>blen := 0, bidx := 0\<rparr>"] exI) (auto simp: buffer_ok_def rm_ok_def)
    qed
  qed
qed

lemma connect_attach:
  assumes sv: "ts_servers s sv = Some server" "buffer_ok (sv_buf server)" "bidx (sv_buf server) = 0" and n: "ts_remotes s (ts_next s) = None"
  obtains (failed) t where "connect_to_remote net re env addr sv s = Done (None, t)" "same_conns s t"
  | (connected) s1 t where "connect_to_remote net re env addr sv s = Done (Some (ts_next s), s1)"
      "attach_remote sv (ts_next s) s1 = Done t" "attached sv server s t"
proof -
  let ?b = "sv_buf server" and ?R = "(ts_remotes s)(ts_next s \<mapsto> \<lparr>rm_fd = te_socket env, rm_buf = balloc BUF_SIZE, rm_recv_io = False, rm_send_io = False,
         rm_recv_connected = False, rm_send_connected = False, rm_server = None\<rparr>)"
  let ?k = "\<lambda>k. server\<lparr>sv_buf := ?b\<lparr>bidx := k, blen := blen ?b - k\<rparr>\<rparr>"
  have S0: "(ts_servers s)(sv \<mapsto> ?k 0) = ts_servers s" using sv by (simp add: fun_upd_idem)
  have R0: "(ts_remotes s)(ts_next s := None) = ts_remotes s" using n by (simp add: fun_upd_idem)
  consider (fail) t where "connect_to_remote net re env addr sv s = Done (None, t)" "same_conns s t"
    | (yes) s1 k es where "connect_to_remote net re env addr sv s = Done (Some (ts_next s), s1)"
        "ts_servers s1 = (ts_servers s)(sv \<mapsto> ?k k)" "ts_remotes s1 = ?R" "ts_crypto s1 = ts_crypto s" "ts_globals s1 = ts_globals s"
        "ts_queries s1 = ts_queries s" "ts_connections s1 = ts_connections s" "ts_next s1 = Suc (ts_next s)" "ts_trace s1 = ts_trace s @ es"
        "k \<le> blen ?b" "es = [] \<and> k = 0 \<or> es = [ToRemote (ts_next s) (take k (bdata ?b))]"
  proof -
    define ip where "ip = (if sa_family addr = AF_INET then inet_ntop4 net (sa_addr addr)
                  else if sa_family addr = AF_INET6 then inet_ntop6 net (sa_addr addr) else [])"
    note c = connect_to_remote_def [of net re env addr sv s, unfolded Let_def, folded ip_def]
    show thesis
    proof (cases "(case ts_acl s of Some acl \<Rightarrow> outbound_block_match_host re acl ip = Some 1 | None \<Rightarrow> False) \<or> te_socket env = -1 \<or>
        ts_bind_address s \<noteq> None \<and> bind_to_address net (te_bind env) (ts_bind_address s) = -1")
      case True
      then have "connect_to_remote net re env addr sv s = Done (None, s)" by (simp only: c, elim disjE; simp)
      then show ?thesis by (rule fail) (simp add: same_conns_def)
    next
      case False
      let ?s = "s\<lparr>ts_remotes := ?R, ts_next := Suc (ts_next s)\<rparr>"
      have e: "connect_to_remote net re env addr sv s =
          obind (if ts_fast_open ?s then fast_open_connect env sv (ts_next s) ?s else Done ?s) (\<lambda>s'.
             if \<not> ts_fast_open s' \<and> \<not> te_connect env
             then obind (tcp_close_and_free_remote (Some (ts_next s)) s') (\<lambda>s. Done (None, s))
             else Done (Some (ts_next s), s'))"
        unfolding c using False by (simp only: de_Morgan_disj if_False tcp_new_remote_def Let_def prod.case) simp
      have r: "\<exists>t. tcp_close_and_free_remote (Some (ts_next s)) s' = Done t \<and> same_conns s t" if "s' = ?s \<or> s' = ?s\<lparr>ts_fast_open := False\<rparr>" for s'
        using R0 that by (auto simp: tcp_close_and_free_remote_def tcp_free_remote_def heap_ops same_conns_def)
      have stay: thesis if "s' = ?s \<or> s' = ?s\<lparr>ts_fast_open := False\<rparr>" "connect_to_remote net re env addr sv s = Done (Some (ts_next s), s')" for s'
        using that(1) S0 by (intro yes [OF that(2), of 0 "[]"]) auto
      have plain: thesis if "s' = ?s \<or> s' = ?s\<lparr>ts_fast_open := False\<rparr>"
        "(if ts_fast_open ?s then fast_open_connect env sv (ts_next s) ?s else Done ?s) = Done s'" for s'
        using r [OF that(1)] fail stay [OF that(1)] that(2) by (cases "\<not> ts_fast_open s' \<and> \<not> te_connect env") (auto simp: e)
      show ?thesis
      proof (cases "ts_fast_open s")
        case False
        then show ?thesis by (intro plain [of ?s]) simp_all
      next
        case True
        show ?thesis
        proof (cases "te_fast env")
          case (FastSent n)
          let ?n = "min n (blen ?b)"
          let ?t = "?s\<lparr>ts_trace := ts_trace s @ [ToRemote (ts_next s) (take ?n (bdata ?b))], ts_servers := (ts_servers s)(sv \<mapsto> server\<lparr>sv_buf := ?b\<lparr>bidx := bidx ?b + ?n, blen := blen ?b - ?n\<rparr>\<rparr>)\<rparr>"
          have "connect_to_remote net re env addr sv s = Done (Some (ts_next s), ?t)"
            using FastSent True sv(1) by (simp add: e fast_open_connect_def heap_ops Let_def)
          then show ?thesis by (rule yes [of _ ?n "[ToRemote (ts_next s) (take ?n (bdata ?b))]"]) (simp_all add: sv(3))
        next
          case FastUnsupported
          then show ?thesis using True by (intro plain [of "?s\<lparr>ts_fast_open := False\<rparr>"]) (simp_all add: fast_open_connect_def)
        qed (use True in \<open>auto intro!: plain [of ?s] simp: fast_open_connect_def\<close>)
      qed
    qed
  qed
  then show thesis
  proof cases
    case fail
    then show ?thesis by (rule failed)
  next
    case yes
    obtain t where "attach_remote sv (ts_next s) s1 = Done t" "attached sv server s t"
      by (rule attach_remote_attached [OF sv yes(10) yes(2-9) yes(11)])
    then show ?thesis by (rule connected [OF yes(1)])
  qed
qed

lemma heap_next: "heap_inv rx tx S R Q n cs tr \<Longrightarrow> n \<le> m \<Longrightarrow> heap_inv rx tx S R Q m cs tr"
  by (simp add: heap_inv_def)

lemma heap_quiet:
  assumes "heap_inv rx tx S R Q n cs tr" "\<And>i. plain_of i tr' = plain_of i tr" "\<And>i. cipher_of i tr' = cipher_of i tr"
    "\<And>i. to_client i tr' = to_client i tr" "\<And>i. to_remote i tr' = to_remote i tr"
    "\<And>i. from_client i tr' = from_client i tr" "\<And>i. from_remote i tr' = from_remote i tr"
  shows "heap_inv rx tx S R Q n cs tr'"
  using assms(1) unfolding heap_inv_def conn_ok_def sv_ok_def joined_def alone_def silent_def assms(2-) .

lemma heap_fresh:
  assumes "tcp_inv cr rx tx s"
  shows "ts_remotes s (ts_next s) = None" "to_remote (ts_next s) (ts_trace s) = []"
  using assms by (auto simp: tcp_inv_def heap_inv_def silent_def)

text \<open>A failed attempt closes the connection, a successful one joins it.\<close>

lemma failed_keeps:
  assumes inv: "tcp_inv cr rx tx s0" and sv: "ts_servers s0 sv = Some server0" "sv_remote server0 = None"
    and s: "touched sv None s0 s" "ts_servers s sv = Some server" "sv_remote server = None" "sv_query server = sv_query server0"
    and t: "same_conns s t"
  shows "keeps cr rx tx (tcp_close_and_free_server sv t)"
proof -
  have i: "tcp_inv cr rx tx (s0\<lparr>ts_next := ts_next t\<rparr>)"
    using inv s(1) t heap_next by (auto simp: tcp_inv_def touched_def same_conns_def)
  show ?thesis
    by (rule close_server_keeps [OF i, of sv server0 t server])
       (use sv s t in \<open>auto simp: touched_def same_conns_def concerns_def\<close>)
qed

lemma joined_result:
  assumes inv: "tcp_inv cr rx tx s0" and sv: "ts_servers s0 sv = Some server0" "sv_remote server0 = None"
    and s: "touched sv None s0 s" "ts_servers s sv = Some server" "sv_remote server = None" "sv_ok rx tx (ts_trace s) sv server"
      "\<not> sv_send_io server" "sv_stage server \<noteq> STAGE_STREAM"
    and flow: "plain_of sv (ts_trace s) = h @ bcontent (sv_buf server)" "tcp_header h" "cipher_of sv (ts_trace s) = to_client sv (ts_trace s)"
    and t: "attached sv server s t" "ts_servers t sv = Some server1"
    and u: "ts_servers u = (ts_servers t)(sv \<mapsto> server1\<lparr>sv_recv_io := False, sv_query := None\<rparr>)" "ts_remotes u = ts_remotes t"
      "ts_queries u = (case sv_query server0 of None \<Rightarrow> ts_queries t | Some q \<Rightarrow> (ts_queries t)(q := None))" "ts_next u = ts_next t"
      "ts_connections u = ts_connections t" "ts_trace u = ts_trace t" "ts_crypto u = ts_crypto t" "ts_globals u = ts_globals t"
  shows "tcp_inv cr rx tx u"
proof -
  obtain b rm where b: "ts_servers t = (ts_servers s)(sv \<mapsto> server\<lparr>sv_remote := Some (ts_next s), sv_buf := b\<rparr>)"
      "ts_remotes t = (ts_remotes s)(ts_next s \<mapsto> rm)" "buffer_ok b" "bcap b = bcap (sv_buf server)"
      "rm_ok rm" "rm_server rm = Some sv" "rm_send_io rm" "\<not> rm_recv_io rm"
      "to_remote (ts_next s) (ts_trace t) @ sendable (bidx (rm_buf rm)) (rm_buf rm) = to_remote (ts_next s) (ts_trace s) @ bcontent (sv_buf server)"
    using t(1) by (auto simp: attached_def)
  note a = t(1) [unfolded attached_def] and w = s(1) [unfolded touched_def]
  let ?sv = "server\<lparr>sv_remote := Some (ts_next s), sv_buf := b, sv_recv_io := False, sv_query := None\<rparr>"
  have S: "ts_servers u = (ts_servers s0)(sv \<mapsto> ?sv)" using u(1) t(2) b(1) w by (auto simp: fun_eq_iff)
  have R: "ts_remotes u = (ts_remotes s0)(ts_next s0 \<mapsto> rm)" using u(2) b(2) w by (auto simp: fun_eq_iff)
  have n: "ts_next s = ts_next s0" using w by simp
  have f: "to_remote (ts_next s0) (ts_trace s) = []" using heap_fresh(2) [OF inv] w by (simp add: concerns_def)
  have h: "heap_inv rx tx (ts_servers s0) (ts_remotes s0) (ts_queries s0) (ts_next s0) (ts_connections s0) (ts_trace s0)"
    using inv by (simp add: tcp_inv_def)
  have "heap_inv rx tx ((ts_servers s0)(sv \<mapsto> ?sv)) ((ts_remotes s0)(ts_next s0 \<mapsto> rm)) (ts_queries u) (Suc (ts_next s0)) (ts_connections s0) (ts_trace t)"
  proof (rule join [OF h sv])
    show "ts_queries u = (case sv_query server0 of None \<Rightarrow> ts_queries s0 | Some q \<Rightarrow> (ts_queries s0)(q := None))"
      using u(3) a w by (simp split: option.split)
    show "sv_ok rx tx (ts_trace t) sv ?sv" using s(4,5) b(3,4) a by (simp add: sv_ok_def)
    show "cipher_of sv (ts_trace t) = to_client sv (ts_trace t) @ pending (sv_send_io ?sv) (sv_buf ?sv)" using flow(3) a s(5) by simp
    show "joined sv ?sv (ts_next s0) rm (ts_trace t)"
      using b s(5,6) flow(1,2) a f n by (auto simp: joined_def)
    show "concerns sv (Some (ts_next s0)) (ts_trace s0) (ts_trace t)" using a w n by (auto simp: concerns_def)
  qed (use b n in simp_all)
  then show ?thesis using u a w inv S R by (simp add: tcp_inv_def)
qed

lemma handle_request_keeps:
  assumes inv: "tcp_inv cr rx tx s0" and sv: "ts_servers s0 sv = Some server0" "sv_remote server0 = None" "sv_query server0 = None"
    and s: "touched sv None s0 s" "ts_servers s sv = Some server" "sv_remote server = None" "sv_query server = None" "sv_ok rx tx (ts_trace s) sv server"
      "\<not> sv_send_io server" "sv_stage server = STAGE_INIT" "bidx (sv_buf server) = 0"
    and flow: "plain_of sv (ts_trace s) = bcontent (sv_buf server)" "cipher_of sv (ts_trace s) = to_client sv (ts_trace s)"
  shows "keeps cr rx tx (handle_request net re env sv s)"
proof -
  let ?b = "sv_buf server" and ?len = "blen (sv_buf server)"
  have b: "buffer_ok ?b" "BUF_SIZE \<le> length (bdata ?b)" "?len \<le> length (bdata ?b)" using s(5) by (auto simp: sv_ok_def buffer_ok_def)
  have close: "keeps cr rx tx (tcp_close_and_free_server sv (report_addr net env fd l s))" "keeps cr rx tx (tcp_close_and_free_server sv s)" for fd l
    by (rule close_server_keeps [OF inv sv(1,2), of _ server]; use s sv in \<open>simp add: touched_def\<close>)+
  obtain req where req: "parse_tcp_request net re (ts_acl s) (bdata ?b) ?len = Some req" using parse_reads [OF b(2)] by blast
  show ?thesis
  proof (cases req)
    case (Target addr off)
    note o = parse_offset [OF req disjI1 [OF Target] b(3)]
    note d = drop_header_ok [OF b(1) o(1)]
    let ?server = "server\<lparr>sv_buf := without_header off ?b\<rparr>"
    define s1 where "s1 = s\<lparr>ts_servers := (ts_servers s)(sv \<mapsto> ?server)\<rparr>"
    have s1: "touched sv None s0 s1" "ts_servers s1 sv = Some ?server" "ts_remotes s1 (ts_next s1) = None" "ts_trace s1 = ts_trace s"
      using s(1) heap_fresh(1) [OF inv] by (auto simp: touched_def s1_def)
    have e: "handle_request net re env sv s = obind (connect_to_remote net re env addr sv s1) (\<lambda>(remote, s).
        case remote of None \<Rightarrow> tcp_close_and_free_server sv s
        | Some r \<Rightarrow> obind (attach_remote sv r s) (upd_server sv (\<lambda>server. server\<lparr>sv_recv_io := False\<rparr>)))"
      using req Target o(1) s(2) d(1) by (simp add: handle_request_def remove_header_def heap_ops s1_def)
    have h: "plain_of sv (ts_trace s1) = take off (bdata ?b) @ bcontent (sv_buf ?server)"
      using flow(1) d(5) o(1) s1(4) by (simp add: bcontent_def) (metis min.absorb1 take_take append_take_drop_id)
    have ok: "sv_ok rx tx (ts_trace s1) sv ?server" using s(5,6) d s1(4) by (simp add: sv_ok_def)
    show ?thesis
    proof (cases rule: connect_attach [OF s1(2) _ _ s1(3), where net = net and re = re and env = env and addr = addr])
      case (3 t)
      show ?thesis unfolding e 3 using failed_keeps [OF inv sv(1,2) s1(1,2) _ _ 3(2)] s sv(3) by simp
    next
      case (4 s2 t)
      obtain server1 where server1: "ts_servers t sv = Some server1" "sv_query server1 = None"
        using 4(3) s(4) by (auto simp: attached_def)
      let ?u = "t\<lparr>ts_servers := (ts_servers t)(sv \<mapsto> server1\<lparr>sv_recv_io := False, sv_query := None\<rparr>)\<rparr>"
      have u: "tcp_inv cr rx tx ?u"
        by (rule joined_result [OF inv sv(1,2) s1(1,2) _ ok _ _ h o(2) _ 4(3) server1(1)])
           (use s sv flow(2) s1(4) in simp_all)
      have "server1\<lparr>sv_recv_io := False, sv_query := None\<rparr> = server1\<lparr>sv_recv_io := False\<rparr>" using server1(2) by (cases server1) simp
      then show ?thesis unfolding e using 4(1,2) u server1(1) by (simp add: heap_ops)
    qed (use d s in simp_all)
  next
    case (Resolve host port off)
    note o = parse_offset [OF req disjI2 [OF Resolve] b(3)]
    note d = drop_header_ok [OF b(1) o(1)]
    let ?q = "resolv_start port \<lparr>qy_server = Some sv, qy_hostname = take 255 host\<rparr>"
    let ?server = "server\<lparr>sv_buf := without_header off ?b, sv_recv_io := False, sv_query := Some (ts_next s), sv_stage := STAGE_RESOLVE\<rparr>"
    let ?t = "s\<lparr>ts_servers := (ts_servers s)(sv \<mapsto> ?server), ts_queries := (ts_queries s)(ts_next s \<mapsto> ?q), ts_next := Suc (ts_next s),
      ts_trace := ts_trace s @ [AskName host]\<rparr>"
    have e: "handle_request net re env sv s = Done ?t"
      using req Resolve o(1) s(2) d(1) by (cases server) (simp add: handle_request_def remove_header_def start_tcp_query_def Let_def heap_ops)
    have h: "plain_of sv (ts_trace s) = take off (bdata ?b) @ bcontent (without_header off ?b)"
      using flow(1) d(5) o(1) by (simp add: bcontent_def) (metis min.absorb1 take_take append_take_drop_id)
    note u = s(1) [unfolded touched_def]
    have S: "(ts_servers s)(sv \<mapsto> ?server) = (ts_servers s0)(sv \<mapsto> ?server)" using u by (auto simp: fun_eq_iff)
    have R: "ts_remotes s = ts_remotes s0" using u by (auto simp: fun_eq_iff)
    have "heap_inv rx tx ((ts_servers s0)(sv \<mapsto> ?server)) (ts_remotes s0) ((ts_queries s0)(ts_next s0 \<mapsto> ?q)) (Suc (ts_next s0)) (ts_connections s0)
        (ts_trace s @ [AskName host])"
    proof (rule start_resolving [OF conjunct2 [OF conjunct2 [OF inv [unfolded tcp_inv_def]]] sv])
      show "sv_ok rx tx (ts_trace s @ [AskName host]) sv ?server" using s(5,6) d by (simp add: sv_ok_def)
      show "alone ((ts_queries s0)(ts_next s0 \<mapsto> ?q)) sv ?server (ts_trace s @ [AskName host])"
        using s(6,8) d(4) u h o(2) by (auto simp: alone_def resolv_start_def)
      show "concerns sv None (ts_trace s0) (ts_trace s @ [AskName host])" using u by (auto simp: concerns_def)
    qed (use s u flow(2) in \<open>simp_all add: resolv_start_def\<close>)
    then show ?thesis unfolding e using u inv S R by (simp add: tcp_inv_def)
  qed (use close req s in \<open>simp_all add: handle_request_def heap_ops\<close>)
qed


section \<open>Receiving from the client\<close>

context connection_cipher
begin

lemma recv_plain:
  assumes p: "valid p" and inv: "tcp_inv (crypto_of p) (rx_ok p) (tx_ok p) s" and b: "buffer_ok b" "BUF_SIZE \<le> bcap b" "bs \<noteq> []" and rx: "rx_ok p R P x"
  obtains b1 ret g' b' x' where "recv_into bs b = Done b1" "cr_decrypt (ts_crypto s) True (ts_globals s) b1 x BUF_SIZE = (ret, g', b', x')"
    "ret \<noteq> ABORTED" "globals_ok g'" "buffer_ok b'" "BUF_SIZE \<le> bcap b'" "bidx b' = bidx b"
    "ret = CRYPTO_OK \<longrightarrow> rx_ok p (R @ bcontent b1) (P @ bcontent b') x'" "ret = CRYPTO_NEED_MORE \<longrightarrow> rx_ok p (R @ bcontent b1) P x'"
proof -
  obtain b1 where b1: "recv_into bs b = Done b1" "buffer_ok b1" "bcap b1 = bcap b" "bidx b1 = bidx b" "0 < blen b1"
    by (rule recv_into_ok [OF b])
  obtain ret g' b' x' where d: "cr_decrypt (crypto_of p) True (ts_globals s) b1 x BUF_SIZE = (ret, g', b', x')"
    by (metis prod_cases4)
  have cr: "ts_crypto s = crypto_of p" using inv by (simp add: tcp_inv_def)
  show thesis
    using that [OF b1(1), of ret g' b' x'] decrypts [OF p rx inv_globals [OF inv] b1(2,5) d] d cr b1(3,4) b(2) by simp
qed

text \<open>In \<open>STAGE_STREAM\<close>.\<close>

lemma recv_stream_keeps:
  assumes p: "valid p" and inv: "tcp_inv (crypto_of p) (rx_ok p) (tx_ok p) s" and sv: "ts_servers s sv = Some server" "sv_recv_io server"
    and r: "sv_remote server = Some r" and env: "te_calloc env"
  shows "keeps (crypto_of p) (rx_ok p) (tx_ok p) (tcp_server_recv_cb net re env sv s)"
proof -
  obtain rm where rm: "ts_remotes s r = Some rm" "rm_server rm = Some sv" "sv_query server = None"
      "joined sv server r rm (ts_trace s)" "sv_ok (rx_ok p) (tx_ok p) (ts_trace s) sv server"
      "cipher_of sv (ts_trace s) = to_client sv (ts_trace s) @ pending (sv_send_io server) (sv_buf server)"
    using conn_remote [OF inv sv(1) r] by blast
  have st: "sv_stage server = STAGE_STREAM" "\<not> rm_send_io rm" "rm_send_connected rm" "rm_recv_io rm = (\<not> sv_send_io server)" "buffer_ok (rm_buf rm)" "BUF_SIZE \<le> bcap (rm_buf rm)"
    using rm(4) sv(2) by (auto simp: joined_def rm_ok_def split: if_splits)
  have sx: "rx_ok p (from_client sv (ts_trace s)) (plain_of sv (ts_trace s)) (sv_d_ctx server)" using rm(5) by (simp add: sv_ok_def)
  obtain h where h: "tcp_header h" "plain_of sv (ts_trace s) = h @ to_remote r (ts_trace s)"
    using rm(4) st(2) by (auto simp: joined_def)
  let ?w = "server\<lparr>sv_watcher := True\<rparr>" and ?s = "s\<lparr>ts_servers := (ts_servers s)(sv \<mapsto> server\<lparr>sv_watcher := True\<rparr>)\<rparr>"
  note cl = close_both_keeps [OF inv sv(1), unfolded r]
  have close: "keeps (crypto_of p) (rx_ok p) (tx_ok p) (close_both (Some r) sv ?s)"
    by (rule cl [of _ ?w]) (use sv r rm inv_globals [OF inv] in \<open>simp_all add: touched_def\<close>)
  have still: "tcp_inv (crypto_of p) (rx_ok p) (tx_ok p) ?s"
    by (rule joined_rule [OF inv sv(1) r])
       (use sv r rm st h inv_globals [OF inv] in \<open>simp_all add: touched_def sv_ok_def joined_def\<close>)
  show ?thesis
  proof (cases "te_recv env")
    case (Received bs)
    show ?thesis
    proof (cases "bs = []")
      case True
      then show ?thesis using Received close sv r rm st by (simp add: tcp_server_recv_cb_def heap_ops)
    next
      case False
      obtain b1 ret g' b' x' where d: "recv_into bs (rm_buf rm) = Done b1"
          "cr_decrypt (ts_crypto s) True (ts_globals s) b1 (sv_d_ctx server) BUF_SIZE = (ret, g', b', x')"
          "ret \<noteq> ABORTED" "globals_ok g'" "buffer_ok b'" "BUF_SIZE \<le> bcap b'" "bidx b' = bidx (rm_buf rm)"
          "ret = CRYPTO_OK \<longrightarrow> rx_ok p (from_client sv (ts_trace s) @ bcontent b1) (plain_of sv (ts_trace s) @ bcontent b') x'"
          "ret = CRYPTO_NEED_MORE \<longrightarrow> rx_ok p (from_client sv (ts_trace s) @ bcontent b1) (plain_of sv (ts_trace s)) x'"
        by (rule recv_plain [OF p inv st(5,6) False sx])
      let ?sv = "server\<lparr>sv_watcher := True, sv_d_ctx := x'\<rparr>" and ?rm = "rm\<lparr>rm_buf := b'\<rparr>"
      define t where "t = s\<lparr>ts_tx := ts_tx s + word_of_nat (blen b1), ts_trace := ts_trace s @ [FromClient sv (bcontent b1)], ts_globals := g', ts_remotes := (ts_remotes s)(r \<mapsto> ?rm),
        ts_servers := (ts_servers s)(sv \<mapsto> ?sv)\<rparr>"
      have t: "touched sv (Some r) s t" "ts_servers t sv = Some ?sv" "ts_remotes t r = Some ?rm" using d(4) by (simp_all add: t_def touched_def)
      have tp: "touched sv (Some r) s (emit (Plain sv (bcontent b')) t)" using t(1) by (simp add: touched_def emit_def)
      have close2: "keeps (crypto_of p) (rx_ok p) (tx_ok p) (close_both (Some r) sv (report_addr net env fd l t))"
        "keeps (crypto_of p) (rx_ok p) (tx_ok p) (close_both (Some r) sv (emit (Plain sv (bcontent b')) t))" for fd l
        using cl [of "report_addr net env fd l t" ?sv] cl [OF tp, of ?sv] t rm r by (simp_all add: touched_def emit_def)
      have more: "tcp_inv (crypto_of p) (rx_ok p) (tx_ok p) (t\<lparr>ts_servers := (ts_servers s)(sv \<mapsto> ?sv\<lparr>sv_frag := sv_frag server + 1\<rparr>)\<rparr>)"
        if more: "ret = CRYPTO_NEED_MORE"
        by (rule joined_rule [OF inv sv(1) r])
           (use t sv r rm st h d that in \<open>simp_all add: t_def touched_def sv_ok_def joined_def rm_ok_def\<close>)
      let ?wait = "\<lambda>es n. t\<lparr>ts_trace := ts_trace t @ Plain sv (bcontent b') # es,
          ts_servers := (ts_servers s)(sv \<mapsto> ?sv\<lparr>sv_recv_io := False\<rparr>),
          ts_remotes := (ts_remotes s)(r \<mapsto> rm\<lparr>rm_buf := b'\<lparr>blen := blen b' - n, bidx := n\<rparr>, rm_send_io := True\<rparr>)\<rparr>"
      have wait: "tcp_inv (crypto_of p) (rx_ok p) (tx_ok p) (?wait es n)"
        if ok: "ret = CRYPTO_OK" and n: "n \<le> blen b'" and es: "es = [] \<and> n = 0 \<or> es = [ToRemote r (take n (bcontent b'))]" for es n
      proof -
        have es0: "from_client sv es = []" "from_remote sv es = []" "plain_of sv es = []" "cipher_of sv es = []" "to_client sv es = []" using es by auto
        have f: "to_remote r es @ sendable n (b'\<lparr>blen := blen b' - n, bidx := n\<rparr>) = bcontent b'"
          using es split_content [OF n] by (auto simp: sendable_def bcontent_def)
        have "touched sv (Some r) s (?wait es n)" using t(1) es by (auto simp: touched_def concerns_def t_def)
        then show ?thesis
          by (rule joined_rule [OF inv sv(1) r])
             (use d sv r rm st n es0 f h ok in \<open>auto simp: sv_ok_def joined_def rm_ok_def buffer_ok_def t_def\<close>)
      qed
      have all: "tcp_inv (crypto_of p) (rx_ok p) (tx_ok p) (t\<lparr>ts_trace := ts_trace t @ [Plain sv (bcontent b'), ToRemote r (bcontent b')]\<rparr>)"
        if ok: "ret = CRYPTO_OK"
        by (rule joined_rule [OF inv sv(1) r])
           (use t sv r rm st h d that in \<open>simp_all add: t_def touched_def concerns_def sv_ok_def joined_def rm_ok_def\<close>)
      have st2: "stream_send env sv r (emit (Plain sv (bcontent b')) t) =
          (case te_send env of
             SendAgain \<Rightarrow> Done (?wait [] 0)
           | SendError \<Rightarrow> close_both (Some r) sv (emit (Plain sv (bcontent b')) t)
           | SendOk n \<Rightarrow> if n < blen b' then Done (?wait [ToRemote r (take n (bcontent b'))] n)
               else Done (t\<lparr>ts_trace := ts_trace t @ [Plain sv (bcontent b'), ToRemote r (bcontent b')]\<rparr>))"
        using t sv r by (cases server; cases rm)
          (simp add: stream_send_def heap_ops Let_def t_def split: send_result.split)
      have e: "tcp_server_recv_cb net re env sv s =
          (if ret = CRYPTO_ERROR then close_both (Some r) sv (report_addr net env (sv_fd server) MALICIOUS t)
           else if ret = CRYPTO_NEED_MORE then Done (t\<lparr>ts_servers := (ts_servers s)(sv \<mapsto> ?sv\<lparr>sv_frag := sv_frag server + 1\<rparr>)\<rparr>)
           else stream_send env sv r (emit (Plain sv (bcontent b')) t))"
        using Received False st(1) sv r rm(1,2) env d(1-3)
        by (cases server; cases ret) (simp_all add: tcp_server_recv_cb_def heap_ops Let_def t_def)
      show ?thesis unfolding e st2
        using wait [of _ "[ToRemote r (take n (bcontent b'))]" for n] wait [of 0 "[]"] close2 all more d(3)
        by (cases ret) (auto split: send_result.split)
    qed
  qed (use close still sv r rm st in \<open>simp_all add: tcp_server_recv_cb_def heap_ops\<close>)
qed


text \<open>In \<open>STAGE_INIT\<close>.\<close>

lemma recv_init_keeps:
  assumes p: "valid p" and inv: "tcp_inv (crypto_of p) (rx_ok p) (tx_ok p) s" and sv: "ts_servers s sv = Some server" "sv_recv_io server"
    and r: "sv_remote server = None" and env: "te_calloc env"
  shows "keeps (crypto_of p) (rx_ok p) (tx_ok p) (tcp_server_recv_cb net re env sv s)"
proof -
  have c: "sv_query server = None" "sv_stage server = STAGE_INIT" "plain_of sv (ts_trace s) = []" "bidx (sv_buf server) = 0" "\<not> sv_send_io server"
      "sv_ok (rx_ok p) (tx_ok p) (ts_trace s) sv server" "cipher_of sv (ts_trace s) = to_client sv (ts_trace s)"
    using inv_conn [OF inv sv(1)] sv(2) r by (auto simp: conn_ok_def alone_def split: option.splits)
  note so = c(6) [unfolded sv_ok_def]
  note cl = close_both_keeps [OF inv sv(1), unfolded r]
  have close: "keeps (crypto_of p) (rx_ok p) (tx_ok p) (close_both None sv s)"
    by (rule cl [of _ server]) (use sv r inv_globals [OF inv] in \<open>simp_all add: touched_def\<close>)
  show ?thesis
  proof (cases "te_recv env")
    case (Received bs)
    show ?thesis
    proof (cases "bs = []")
      case True
      then show ?thesis using Received close sv r c by (simp add: tcp_server_recv_cb_def heap_ops)
    next
      case False
      obtain b1 ret g' b' x' where d: "recv_into bs (sv_buf server) = Done b1"
          "cr_decrypt (ts_crypto s) True (ts_globals s) b1 (sv_d_ctx server) BUF_SIZE = (ret, g', b', x')"
          "ret \<noteq> ABORTED" "globals_ok g'" "buffer_ok b'" "BUF_SIZE \<le> bcap b'" "bidx b' = bidx (sv_buf server)"
          "ret = CRYPTO_OK \<longrightarrow> rx_ok p (from_client sv (ts_trace s) @ bcontent b1) (plain_of sv (ts_trace s) @ bcontent b') x'"
          "ret = CRYPTO_NEED_MORE \<longrightarrow> rx_ok p (from_client sv (ts_trace s) @ bcontent b1) (plain_of sv (ts_trace s)) x'"
        by (rule recv_plain [OF p inv _ _ False, of "sv_buf server" "from_client sv (ts_trace s)" "plain_of sv (ts_trace s)" "sv_d_ctx server"]) (use so in simp_all)
      let ?sv = "server\<lparr>sv_buf := b', sv_d_ctx := x'\<rparr>"
      define t where "t = s\<lparr>ts_tx := ts_tx s + word_of_nat (blen b1), ts_trace := ts_trace s @ [FromClient sv (bcontent b1)], ts_globals := g', ts_servers := (ts_servers s)(sv \<mapsto> ?sv)\<rparr>"
      have t: "touched sv None s t" "ts_servers t sv = Some ?sv" using d(4) by (simp_all add: t_def touched_def)
      have close2: "keeps (crypto_of p) (rx_ok p) (tx_ok p) (close_both None sv (report_addr net env fd l t))" for fd l
        using cl [of "report_addr net env fd l t" ?sv] t r by (simp_all add: touched_def)
      have more: "tcp_inv (crypto_of p) (rx_ok p) (tx_ok p) (t\<lparr>ts_servers := (ts_servers s)(sv \<mapsto> ?sv\<lparr>sv_frag := sv_frag server + 1\<rparr>)\<rparr>)"
        if more: "ret = CRYPTO_NEED_MORE"
        by (rule waiting_rule [OF inv sv(1) r c(1)])
           (use t sv r c d so more in \<open>simp_all add: t_def touched_def sv_ok_def alone_def\<close>)
      have req: "keeps (crypto_of p) (rx_ok p) (tx_ok p) (handle_request net re env sv (emit (Plain sv (bcontent b')) t))"
        if ok: "ret = CRYPTO_OK"
        by (rule handle_request_keeps [OF inv sv(1) r c(1), of _ ?sv])
           (use t r c d so ok in \<open>simp_all add: emit_def touched_def concerns_def sv_ok_def t_def\<close>)
      have e: "tcp_server_recv_cb net re env sv s =
          (if ret = CRYPTO_ERROR then close_both None sv (report_addr net env (sv_fd server) MALICIOUS t)
           else if ret = CRYPTO_NEED_MORE
           then if sv_frag server > MAX_FRAG then close_both None sv (report_addr net env (sv_fd server) MALICIOUS t)
             else Done (t\<lparr>ts_servers := (ts_servers s)(sv \<mapsto> ?sv\<lparr>sv_frag := sv_frag server + 1\<rparr>)\<rparr>)
           else handle_request net re env sv (emit (Plain sv (bcontent b')) t))"
        using Received False c(2) sv r env d(1-3)
        by (cases server; cases ret) (simp_all add: tcp_server_recv_cb_def heap_ops Let_def t_def)
      show ?thesis unfolding e using close2 more req d(3) by (cases ret) simp_all
    qed
  qed (use close inv sv r c in \<open>simp_all add: tcp_server_recv_cb_def heap_ops\<close>)
qed

lemma tcp_server_recv_keeps:
  assumes "valid p" "tcp_inv (crypto_of p) (rx_ok p) (tx_ok p) s" "ts_servers s sv = Some server" "sv_recv_io server" "te_calloc env"
  shows "keeps (crypto_of p) (rx_ok p) (tx_ok p) (tcp_server_recv_cb net re env sv s)"
  using assms recv_stream_keeps recv_init_keeps by (cases "sv_remote server") blast+

section \<open>Accepting\<close>

lemma admit_frame:
  assumes "admit net re env fd s = (ok, t)"
  shows "ts_crypto t = ts_crypto s" "ts_globals t = ts_globals s" "ts_servers t = ts_servers s" "ts_remotes t = ts_remotes s"
    "ts_queries t = ts_queries s" "ts_next t = ts_next s" "ts_connections t = ts_connections s" "ts_trace t = ts_trace s"
  using assms by (auto simp: admit_def Let_def split: option.splits if_splits prod.splits)

lemma accept_keeps:
  assumes p: "valid p" and inv: "tcp_inv (crypto_of p) (rx_ok p) (tx_ok p) s"
  shows "keeps (crypto_of p) (rx_ok p) (tx_ok p) (accept_cb net re env fd s)"
proof -
  obtain ok t where a: "admit net re env fd s = (ok, t)" by (metis surj_pair)
  note f = admit_frame [OF a]
  have cr: "ts_crypto s = crypto_of p" and h: "heap_inv (rx_ok p) (tx_ok p) (ts_servers s) (ts_remotes s) (ts_queries s) (ts_next s) (ts_connections s) (ts_trace s)"
    using inv by (simp_all add: tcp_inv_def)
  let ?sv = "\<lparr>sv_fd = fd, sv_stage = STAGE_INIT, sv_frag = 0, sv_buf = balloc BUF_SIZE,
      sv_e_ctx = cr_ctx_init (crypto_of p) (te_random env) (cr_cipher (crypto_of p)) True,
      sv_d_ctx = cr_ctx_init (crypto_of p) (te_random env) (cr_cipher (crypto_of p)) False,
      sv_recv_io = True, sv_send_io = False, sv_watcher = True, sv_remote = None, sv_query = None\<rparr>"
  have refused: "heap_inv (rx_ok p) (tx_ok p) (ts_servers s) (ts_remotes s) (ts_queries s) (ts_next s) (ts_connections s) (ts_trace s @ [Refused fd])"
    by (rule heap_quiet [OF h]) simp_all
  have sil: "silent (ts_next s) (ts_trace s)" using h by (simp add: heap_inv_def)
  have new: "heap_inv (rx_ok p) (tx_ok p) ((ts_servers s)(ts_next s \<mapsto> ?sv)) (ts_remotes s) (ts_queries s) (Suc (ts_next s)) (ts_connections s @ [ts_next s])
      (ts_trace s @ [Accepted (ts_next s)])"
    by (rule new_conn [OF h]) (use sil fresh [OF p] in \<open>simp_all add: sv_ok_def alone_def silent_def balloc_def buffer_ok_def\<close>)
  show ?thesis
    using a f cr refused new inv by (simp add: accept_cb_def tcp_new_server_def heap_ops tcp_inv_def Let_def)
qed

section \<open>Answers to name queries\<close>

lemma dns_answered_keeps:
  assumes inv: "tcp_inv cr rx tx s" and q: "ts_queries s q = Some query"
  shows "keeps cr rx tx (tcp_dns_answered net re mode env q answer s)"
proof -
  have h: "heap_inv rx tx (ts_servers s) (ts_remotes s) (ts_queries s) (ts_next s) (ts_connections s) (ts_trace s)"
    using inv by (simp add: tcp_inv_def)
  show ?thesis
  proof (cases "resolv_step mode (Waiting query) answer")
    case (Waiting query')
    have d: "rq_data query' = rq_data query" using Waiting
      by (cases answer) (auto simp: dns_query_v4_cb_def dns_query_v6_cb_def process_client_callback_def Let_def split: if_splits option.splits)
    show ?thesis using update_query [OF h q d] inv Waiting q by (simp add: tcp_dns_answered_def heap_ops tcp_inv_def)
  next
    case (Abandoned query')
    then show ?thesis using inv q by (simp add: tcp_dns_answered_def heap_ops)
  next
    case (Called addr data)
    have e: "tcp_dns_answered net re mode env q answer s = obind (tcp_resolv_cb net re env addr q s) (tcp_resolv_free_cb q)"
      using Called q by (simp add: tcp_dns_answered_def heap_ops)
    show ?thesis
    proof (cases "qy_server (rq_data query)")
      case None
      have "heap_inv rx tx (ts_servers s) (ts_remotes s) ((ts_queries s)(q := None)) (ts_next s) (ts_connections s) (ts_trace s)"
        by (rule end_query [OF h q None])
      then show ?thesis unfolding e using q None inv by (simp add: tcp_resolv_cb_def tcp_resolv_free_cb_def heap_ops tcp_inv_def)
    next
      case (Some sv)
      obtain server where sv: "ts_servers s sv = Some server" "sv_query server = Some q" using heap_links(2) [OF h q Some] by blast
      have c: "sv_remote server = None" "sv_stage server = STAGE_RESOLVE" "\<not> sv_recv_io server" "\<not> sv_send_io server" "bidx (sv_buf server) = 0"
          "sv_ok rx tx (ts_trace s) sv server" "cipher_of sv (ts_trace s) = to_client sv (ts_trace s)"
        using inv_conn [OF inv sv(1)] sv(2) by (auto simp: conn_ok_def alone_def split: option.splits)
      obtain hd where hd: "tcp_header hd" "plain_of sv (ts_trace s) = hd @ bcontent (sv_buf server)"
        using inv_conn [OF inv sv(1)] sv(2) c(1) by (auto simp: conn_ok_def alone_def)
      have t0: "touched sv None s s" using inv_globals [OF inv] by (simp add: touched_def)
      have closed: "keeps cr rx tx (obind (tcp_close_and_free_server sv t) (tcp_resolv_free_cb q))"
        if "keeps cr rx tx (tcp_close_and_free_server sv t)" "ts_queries t q = Some query" "ts_servers t sv = Some server" for t
      proof -
        let ?t = "t\<lparr>ts_servers := (ts_servers t)(sv := None), ts_queries := (ts_queries t)(q \<mapsto> query\<lparr>rq_data := (rq_data query)\<lparr>qy_server := None\<rparr>\<rparr>),
          ts_connections := removeAll sv (ts_connections t), ts_trace := ts_trace t @ [CloseServer sv]\<rparr>"
        have ct: "tcp_close_and_free_server sv t = Done ?t"
          using that sv c by (simp add: tcp_close_and_free_server_def tcp_free_server_def heap_ops)
        then have i: "heap_inv rx tx (ts_servers ?t) (ts_remotes ?t) (ts_queries ?t) (ts_next ?t) (ts_connections ?t) (ts_trace ?t)" "tcp_inv cr rx tx ?t"
          using that(1) by (simp_all add: tcp_inv_def)
        have "heap_inv rx tx (ts_servers ?t) (ts_remotes ?t) ((ts_queries ?t)(q := None)) (ts_next ?t) (ts_connections ?t) (ts_trace ?t)"
          by (rule end_query [OF i(1), where qy = "query\<lparr>rq_data := (rq_data query)\<lparr>qy_server := None\<rparr>\<rparr>"]) simp_all
        then show ?thesis unfolding ct using i(2) by (simp add: tcp_resolv_free_cb_def heap_ops tcp_inv_def)
      qed
      show ?thesis
      proof (cases addr)
        case None
        have "keeps cr rx tx (tcp_close_and_free_server sv s)"
          by (rule close_server_keeps [OF inv sv(1) c(1) t0 sv(1) c(1)]) simp
        then show ?thesis unfolding e using closed [of s] q Some None sv by (simp add: tcp_resolv_cb_def heap_ops)
      next
        case addr: (Some a)
        have e2: "tcp_dns_answered net re mode env q answer s =
            obind (obind (connect_to_remote net re env a sv s) (\<lambda>(remote, s). case remote of
               None \<Rightarrow> tcp_close_and_free_server sv s | Some r \<Rightarrow> attach_remote sv r s)) (tcp_resolv_free_cb q)"
          unfolding e using q Some addr by (simp add: tcp_resolv_cb_def heap_ops)
        show ?thesis
        proof (cases rule: connect_attach [OF sv(1) _ c(5) heap_fresh(1) [OF inv], where net = net and re = re and env = env and addr = a])
          case (2 t)
          have "keeps cr rx tx (tcp_close_and_free_server sv t)"
            by (rule failed_keeps [OF inv sv(1) c(1) t0 sv(1) c(1) refl 2(2)])
          then show ?thesis unfolding e2 2 using closed [of t] 2(2) q sv by (simp add: same_conns_def)
        next
          case (3 s1 t)
          obtain server1 where server1: "ts_servers t sv = Some server1" using 3(3) by (auto simp: attached_def)
          have tq: "ts_queries t q = Some query" using 3(3) q by (simp add: attached_def)
          let ?u = "t\<lparr>ts_servers := (ts_servers t)(sv \<mapsto> server1\<lparr>sv_recv_io := False, sv_query := None\<rparr>), ts_queries := (ts_queries t)(q := None)\<rparr>"
          have u: "tcp_inv cr rx tx ?u"
            by (rule joined_result [OF inv sv(1) c(1) t0 sv(1) c(1) c(6,4) _ hd(2,1) c(7) 3(3) server1])
               (use sv c in simp_all)
          have "\<not> sv_recv_io server1" using server1 3(3) c(3) by (auto simp: attached_def)
          then have "server1\<lparr>sv_recv_io := False, sv_query := None\<rparr> = server1\<lparr>sv_query := None\<rparr>" by (cases server1) simp
          then show ?thesis unfolding e2 using 3(1,2) u server1 tq Some by (simp add: tcp_resolv_free_cb_def heap_ops)
        qed (use c(6) in \<open>simp add: sv_ok_def\<close>)
      qed
    qed
  qed
qed

end

end
