(* ===== verification/UdpRelayCorrect.thy ===== *)
theory UdpRelayCorrect
  imports UdpRelay
begin

text \<open>
  Correctness of the UDP relay: the header codec, the invariant of the association table over the event loop, the one
  use after free, and the delivery of requests and replies through a packet cipher.
\<close>

section \<open>The header codec\<close>

lemma rd_n_simps: "n \<le> length xs \<Longrightarrow> rd_n xs n = Some (take n xs)" "length xs < n \<Longrightarrow> rd_n xs n = None"
  by (simp_all add: rd_n_def)

lemma finish_header_ok:
  "offset + 2 \<le> length buf \<Longrightarrow> finish_header buf offset host addr =
    Some \<lparr>ph_len = offset + 2, ph_host = host, ph_port = print_base 10 (be16_val (take 2 (drop offset buf))), ph_addr = addr\<rparr>"
  by (simp add: finish_header_def rd_n_simps)

text \<open>On any array of at least two bytes the parser stays inside it, and a header it accepts lies inside the packet and
  fits the 384-byte header fields of the contexts.\<close>

lemma parse_udprelay_header_bounds:
  assumes "2 \<le> length buf" "buf_len \<le> length buf"
  shows "\<exists>h. parse_udprelay_header net buf buf_len = Some h \<and> ph_len h \<le> buf_len \<and>
    (ph_len h = 0 \<or> 4 \<le> ph_len h \<and> ph_len h \<le> 259)"
proof -
  have 0: "rd buf 0 = Some (buf ! 0)" "rd buf 1 = Some (buf ! 1)" using assms by (auto simp: rd_def)
  have u: "unat (buf ! 1) \<le> 255" by simp
  show ?thesis
    using assms 0 u
    by (auto simp: parse_udprelay_header_def rd_n_simps finish_header_ok no_header_def)
qed

definition header_addr :: "sockaddr \<Rightarrow> bool" where
  "header_addr a \<longleftrightarrow> (\<exists>ip p. length p = 2 \<and> (length ip = 4 \<and> a = sa_in ip p \<or> length ip = 16 \<and> a = sa_in6 ip p))"

lemma header_roundtrip:
  assumes "header_addr a" "buf = construct_udprelay_header a @ rest" "length (construct_udprelay_header a) \<le> n"
  shows "\<exists>h. parse_udprelay_header net buf n = Some h \<and> ph_addr h = a \<and> ph_len h = length (construct_udprelay_header a)"
proof -
  obtain ip p where ip: "length p = 2" "length ip = 4 \<and> a = sa_in ip p \<or> length ip = 16 \<and> a = sa_in6 ip p"
    using assms(1) by (auto simp: header_addr_def)
  have m: "(1 :: byte) AND ADDRTYPE_MASK = 1" "(4 :: byte) AND ADDRTYPE_MASK = 4" by (simp_all add: ADDRTYPE_MASK_def)
  from ip(2) show ?thesis
  proof
    assume a: "length ip = 4 \<and> a = sa_in ip p"
    then show ?thesis using assms ip(1) m
      by (simp add: parse_udprelay_header_def construct_udprelay_header_def rd_def rd_n_simps finish_header_ok sa_in_def)
  next
    assume a: "length ip = 16 \<and> a = sa_in6 ip p"
    then show ?thesis using assms ip(1) m
      by (simp add: parse_udprelay_header_def construct_udprelay_header_def rd_def rd_n_simps finish_header_ok sa_in6_def af_defs)
  qed
qed

lemma sa_bytes_inj:
  assumes "sa_ok a" "sa_ok b" "sa_bytes a = sa_bytes b"
  shows "a = b"
proof -
  have "word_of_nat (sa_family a) = (word_of_nat (sa_family b) :: byte)"
     "word_of_nat (sa_family a div 256) = (word_of_nat (sa_family b div 256) :: byte)"
    using assms(3) by (auto simp: sa_bytes_def)
  then have "unat (word_of_nat (sa_family a) :: byte) = unat (word_of_nat (sa_family b) :: byte)"
    "unat (word_of_nat (sa_family a div 256) :: byte) = unat (word_of_nat (sa_family b div 256) :: byte)" by simp_all
  moreover have "sa_family a div 256 < 256" "sa_family b div 256 < 256"
    using assms(1,2) by (auto simp: sa_ok_def)
  ultimately have "sa_family a mod 256 = sa_family b mod 256" "sa_family a div 256 = sa_family b div 256"
    by simp_all
  then have f: "sa_family a = sa_family b" by (metis div_mult_mod_eq)
  have td: "take 4 (sa_rest a) = take 4 (sa_rest b) \<Longrightarrow> drop 4 (sa_rest a) = drop 4 (sa_rest b) \<Longrightarrow> sa_rest a = sa_rest b"
    by (metis append_take_drop_id)
  have s: "sa_port a = sa_port b" "sa_addr a = sa_addr b" "sa_rest a = sa_rest b"
    using assms f td by (auto simp: sa_ok_def sa_bytes_def af_defs append_eq_append_conv_if split: if_splits)
  show ?thesis using f s by (cases a; cases b) simp
qed

lemma hash_key_inj: "hash_key af a = hash_key af' b \<Longrightarrow> sa_bytes a = sa_bytes b"
  by (simp add: hash_key_def)


section \<open>The association table\<close>

text \<open>What the relay needs of the packet functions: with a replay filter that is safe to access, decryption does not abort,
  does not shrink the buffer and leaves a filter that is safe to access; encryption does not touch the filter.\<close>

definition opens_safely :: "'e crypto \<Rightarrow> bool" where
  "opens_safely cr \<longleftrightarrow>
     (\<forall>ok g b ret g' b'. \<forall>cap. buffer_ok b \<longrightarrow> pp_safe (g_pp g) \<longrightarrow> cr_decrypt_all cr ok g b (cr_cipher cr) cap = (ret, g', b') \<longrightarrow>
       ret \<noteq> ABORTED \<and> buffer_ok b' \<and> bcap b \<le> bcap b' \<and> pp_safe (g_pp g')) \<and>
     (\<forall>random g b ret g' b'. \<forall>cap. cr_encrypt_all cr random g b (cr_cipher cr) cap = (ret, g', b') \<longrightarrow> g_pp g' = g_pp g)"

lemma opens_safelyD:
  "opens_safely cr \<Longrightarrow> buffer_ok b \<Longrightarrow> pp_safe (g_pp g) \<Longrightarrow> cr_decrypt_all cr ok g b (cr_cipher cr) cap = (ret, g', b') \<Longrightarrow>
    ret \<noteq> ABORTED \<and> buffer_ok b' \<and> bcap b \<le> bcap b' \<and> pp_safe (g_pp g')"
  "opens_safely cr \<Longrightarrow> cr_encrypt_all cr random g b0 (cr_cipher cr) cap = (ret, g', b') \<Longrightarrow> g_pp g' = g_pp g"
  unfolding opens_safely_def by blast+

lemma bset_cap: "bcap b \<le> bcap (bset b bs c)"
  by (simp add: bset_def Let_def brealloc_cap)

lemma aead_opens_safely: "opens_safely (aead_crypto lib ci)"
  unfolding opens_safely_def aead_crypto_def
proof (intro conjI allI impI; (elim conjE)?; (simp only: crypto.simps)?)
  fix ok g b ret g' b' cap
  assume a: "buffer_ok b" "pp_safe (g_pp g)" "aead_decrypt_all lib ok g b ci cap = (ret, g', b')"
  from a have "ret \<noteq> ABORTED \<and> buffer_ok b' \<and> bcap b \<le> bcap b' \<and> pp_safe (g_pp g')"
    by (auto simp: aead_decrypt_all_def Let_def bset_cap ppbloom_check_safe ppbloom_add_defined dest: ppbloom_add_keeps
        split: if_split_asm prod.split_asm option.split_asm)
  then show "ret \<noteq> ABORTED" "buffer_ok b'" "bcap b \<le> bcap b'" "pp_safe (g_pp g')" by simp_all
next
  fix random g b ret g' b' cap
  assume "aead_encrypt_all lib random g b ci cap = (ret, g', b')"
  then show "g_pp g' = g_pp g"
    by (auto simp: aead_encrypt_all_def Let_def split: if_split_asm prod.split_asm)
qed

lemma stream_opens_safely: "opens_safely (stream_crypto lib ci)"
  unfolding opens_safely_def stream_crypto_def
proof (intro conjI allI impI; (elim conjE)?; (simp only: crypto.simps)?)
  fix ok g b ret g' b' cap
  assume a: "buffer_ok b" "pp_safe (g_pp g)" "stream_decrypt_all lib ok g b ci cap = (ret, g', b')"
  from a have "ret \<noteq> ABORTED \<and> buffer_ok b' \<and> bcap b \<le> bcap b' \<and> pp_safe (g_pp g')"
    by (auto simp: stream_decrypt_all_def Let_def bset_cap ppbloom_check_safe ppbloom_add_defined dest: ppbloom_add_keeps
        split: if_split_asm prod.split_asm option.split_asm)
  then show "ret \<noteq> ABORTED" "buffer_ok b'" "bcap b \<le> bcap b'" "pp_safe (g_pp g')" by simp_all
next
  fix random g b ret g' b' cap
  assume "stream_encrypt_all lib random g b ci cap = (ret, g', b')"
  then show "g_pp g' = g_pp g"
    by (auto simp: stream_encrypt_all_def Let_def split: if_split_asm prod.split_asm)
qed

lemma globals_ok_safe: "globals_ok g \<Longrightarrow> pp_safe (g_pp g)"
  by (simp add: globals_ok_def pp_inv_safe)

definition cached :: "nat cache \<Rightarrow> (bytes \<times> nat option) set" where
  "cached c = (\<lambda>e. (ce_key e, ce_data e)) ` set (entries c)"

definition assoc_ok :: "bytes \<Rightarrow> remote_ctx \<Rightarrow> bool" where
  "assoc_ok k rc \<longleftrightarrow> k = hash_key (rc_af rc) (rc_src_addr rc) \<and> sa_ok (rc_src_addr rc) \<and> rc_io rc \<and> rc_watcher rc"

text \<open>The invariant: every cached context is live, filed under its key, with its watchers running; the live
  contexts are the cached ones and, inside a callback, those in \<open>X\<close>.\<close>

definition assocs_ok :: "(bytes \<times> nat option) set \<Rightarrow> (nat \<rightharpoonup> remote_ctx) \<Rightarrow> nat set \<Rightarrow> bool" where
  "assocs_ok A rs X \<longleftrightarrow>
     (\<forall>(k, d)\<in>A. \<exists>r rc. d = Some r \<and> rs r = Some rc \<and> assoc_ok k rc) \<and>
     dom rs = {r. \<exists>k. (k, Some r) \<in> A} \<union> X \<and> X \<inter> {r. \<exists>k. (k, Some r) \<in> A} = {}"

definition table_ok :: "nat cache \<Rightarrow> (nat \<rightharpoonup> remote_ctx) \<Rightarrow> nat set \<Rightarrow> bool" where
  "table_ok c rs X \<longleftrightarrow> cache_ok c \<and> free_cb c \<and> 1 < max_entries c \<and> assocs_ok (cached c) rs X"

definition relay_inv :: "'e server_ctx \<Rightarrow> nat set \<Rightarrow> bool" where
  "relay_inv s X \<longleftrightarrow> (\<exists>c. sc_conn_cache s = Some c \<and> max_entries c = MAX_UDP_CONN_NUM \<and> table_ok c (sc_remotes s) X) \<and>
     (\<forall>r\<in>dom (sc_remotes s). r < sc_next s) \<and> 2 \<le> sc_buf_size s \<and> opens_safely (sc_crypto s) \<and> pp_safe (g_pp (sc_globals s)) \<and>
     (\<forall>query\<in>ran (sc_queries s). sa_ok (qc_src_addr (rq_data query)))"

lemma relay_invE [elim]:
  assumes "relay_inv s X"
  obtains c where "sc_conn_cache s = Some c" "max_entries c = MAX_UDP_CONN_NUM" "table_ok c (sc_remotes s) X" "\<forall>r\<in>dom (sc_remotes s). r < sc_next s"
    "2 \<le> sc_buf_size s" "opens_safely (sc_crypto s)" "pp_safe (g_pp (sc_globals s))"
  using assms by (auto simp: relay_inv_def)

lemma cached_keys: "k \<in> set (keys c) \<longleftrightarrow> (\<exists>d. (k, d) \<in> cached c)"
  by (auto simp: keys_def cached_def)

lemma assocs_live: "assocs_ok A rs X \<Longrightarrow> (k, d) \<in> A \<Longrightarrow> \<exists>r rc. d = Some r \<and> rs r = Some rc \<and> assoc_ok k rc"
  by (auto simp: assocs_ok_def)

lemma assocs_dom: "assocs_ok A rs X \<Longrightarrow> rs r = Some rc \<Longrightarrow> r \<notin> X \<Longrightarrow> \<exists>k. (k, Some r) \<in> A \<and> assoc_ok k rc"
proof -
  assume A: "assocs_ok A rs X" and r: "rs r = Some rc" "r \<notin> X"
  have "r \<in> dom rs" using r by blast
  then obtain k where k: "(k, Some r) \<in> A" using A r(2) unfolding assocs_ok_def by auto
  from assocs_live [OF A k] k r show ?thesis by auto
qed

lemma assocs_okI:
  assumes "\<And>k d. (k, d) \<in> A \<Longrightarrow> \<exists>r rc. d = Some r \<and> rs r = Some rc \<and> assoc_ok k rc"
    and "dom rs = {r. \<exists>k. (k, Some r) \<in> A} \<union> X" and "X \<inter> {r. \<exists>k. (k, Some r) \<in> A} = {}"
  shows "assocs_ok A rs X"
  using assms by (simp add: assocs_ok_def split_beta)

lemma assocs_domD: "assocs_ok A rs X \<Longrightarrow> dom rs = {r. \<exists>k. (k, Some r) \<in> A} \<union> X"
  and assocs_disjoint: "assocs_ok A rs X \<Longrightarrow> X \<inter> {r. \<exists>k. (k, Some r) \<in> A} = {}"
  by (simp_all add: assocs_ok_def)

lemma assocs_unique:
  assumes "assocs_ok A rs X" "(k, Some r) \<in> A" "(k', Some r) \<in> A"
  shows "k = k'"
  using assocs_live [OF assms(1,2)] assocs_live [OF assms(1,3)] by (auto simp: assoc_ok_def)

lemma assocs_remove:
  assumes "assocs_ok A rs X" "(k, Some r) \<in> A"
  shows "assocs_ok (A - {(k, Some r)}) (rs(r := None)) X"
proof -
  have o: "r' \<noteq> r" if "(k', Some r') \<in> A - {(k, Some r)}" for k' r'
    using assocs_unique [OF assms] that by auto
  have "\<exists>r' rc. d = Some r' \<and> (rs(r := None)) r' = Some rc \<and> assoc_ok k' rc" if kd: "(k', d) \<in> A - {(k, Some r)}" for k' d
  proof -
    obtain r' rc where r': "d = Some r'" "rs r' = Some rc" "assoc_ok k' rc" using assocs_live [OF assms(1), of k' d] kd by auto
    then show ?thesis using o [of k' r'] kd by auto
  qed
  moreover have "dom (rs(r := None)) = {r'. \<exists>k'. (k', Some r') \<in> A - {(k, Some r)}} \<union> X"
  proof -
    have "r \<notin> X" using assocs_disjoint [OF assms(1)] assms(2) by blast
    moreover have "{r'. \<exists>k'. (k', Some r') \<in> A - {(k, Some r)}} = {r'. \<exists>k'. (k', Some r') \<in> A} - {r}"
      using o by auto
    ultimately show ?thesis using assocs_domD [OF assms(1)] by auto
  qed
  moreover have "X \<inter> {r'. \<exists>k'. (k', Some r') \<in> A - {(k, Some r)}} = {}" using assocs_disjoint [OF assms(1)] by blast
  ultimately show ?thesis by (rule assocs_okI)
qed

lemma assocs_insert:
  assumes "assocs_ok A rs X" "r \<in> X" "assoc_ok k rc"
  shows "assocs_ok (insert (k, Some r) A) (rs(r \<mapsto> rc)) (X - {r})"
proof -
  have o: "r' \<noteq> r" if "(k', Some r') \<in> A" for k' r' using assms(1,2) that by (auto simp: assocs_ok_def)
  have "\<exists>r' rc'. d = Some r' \<and> (rs(r \<mapsto> rc)) r' = Some rc' \<and> assoc_ok k' rc'" if kd: "(k', d) \<in> A" for k' d
  proof -
    obtain r' rc' where r': "d = Some r'" "rs r' = Some rc'" "assoc_ok k' rc'" using assocs_live [OF assms(1) kd] by auto
    then show ?thesis using o [of k' r'] kd by auto
  qed
  moreover have "dom (rs(r \<mapsto> rc)) = {r'. \<exists>k'. (k', Some r') \<in> insert (k, Some r) A} \<union> (X - {r})"
    using assms(2) assocs_domD [OF assms(1)] by auto
  moreover have "(X - {r}) \<inter> {r'. \<exists>k'. (k', Some r') \<in> insert (k, Some r) A} = {}" using assocs_disjoint [OF assms(1)] by blast
  moreover have "(rs(r \<mapsto> rc)) r = Some rc" by simp
  ultimately show ?thesis using assms(3) by (intro assocs_okI) (auto simp del: fun_upd_apply)
qed

lemma assocs_update:
  assumes "assocs_ok A rs X" "rs r = Some rc" "r \<notin> X \<longrightarrow> (\<forall>k. assoc_ok k rc \<longrightarrow> assoc_ok k rc')"
  shows "assocs_ok A (rs(r \<mapsto> rc')) X"
proof -
  have "\<exists>r' rc''. d = Some r' \<and> (rs(r \<mapsto> rc')) r' = Some rc'' \<and> assoc_ok k' rc''" if kd: "(k', d) \<in> A" for k' d
  proof -
    obtain r' rc1 where r': "d = Some r'" "rs r' = Some rc1" "assoc_ok k' rc1" using assocs_live [OF assms(1) kd] by auto
    have "r' \<notin> X" using assms(1) kd r'(1) by (auto simp: assocs_ok_def)
    then show ?thesis using r' assms(2,3) by auto
  qed
  moreover have "dom (rs(r \<mapsto> rc')) = dom rs" using assms(2) by auto
  ultimately show ?thesis using assocs_domD [OF assms(1)] assocs_disjoint [OF assms(1)]
    by (intro assocs_okI) (simp_all del: fun_upd_apply dom_fun_upd)
qed

lemma assocs_new: "assocs_ok A rs X \<Longrightarrow> rs r = None \<Longrightarrow> assocs_ok A (rs(r \<mapsto> rc)) (insert r X)"
proof -
  assume A: "assocs_ok A rs X" and r: "rs r = None"
  have "\<exists>r' rc''. d = Some r' \<and> (rs(r \<mapsto> rc)) r' = Some rc'' \<and> assoc_ok k' rc''" if kd: "(k', d) \<in> A" for k' d
    using assocs_live [OF A kd] r by auto
  moreover have "(k', Some r) \<notin> A" for k' using assocs_live [OF A] r by fastforce
  ultimately show ?thesis using assocs_domD [OF A] assocs_disjoint [OF A]
    by (intro assocs_okI) (auto simp del: fun_upd_apply)
qed

lemma cached_functional: "cache_ok c \<Longrightarrow> (k, d) \<in> cached c \<Longrightarrow> (k, d') \<in> cached c \<Longrightarrow> d = d'"
proof -
  assume c: "cache_ok c" and k: "(k, d) \<in> cached c" "(k, d') \<in> cached c"
  obtain e e' where e: "e \<in> set (entries c)" "e' \<in> set (entries c)" "ce_key e = ce_key e'" "d = ce_data e" "d' = ce_data e'"
    using k by (auto simp: cached_def)
  have "inj_on ce_key (set (entries c))" using c by (simp add: cache_ok_def keys_def distinct_map)
  from inj_onD [OF this e(3,1,2)] show ?thesis using e by simp
qed

text \<open>Lookup, insertion and removal in terms of the cached pairs.\<close>

lemma lookup_cached:
  assumes "cache_lookup now (Some c) (Some k) True = (ret, c', found)" "cache_ok c" "\<forall>(k, d)\<in>cached c. d \<noteq> None"
  shows "\<exists>d. c' = Some d \<and> cache_ok d \<and> free_cb d = free_cb c \<and> max_entries d = max_entries c \<and> cached d = cached c"
    and "found = Some r \<longleftrightarrow> (k, Some r) \<in> cached c" and "found = None \<longleftrightarrow> k \<notin> set (keys c)"
proof -
  have "cached d = cached c" "free_cb d = free_cb c" if "c' = Some d" for d
    using assms(1) that by (auto simp: cache_lookup_def cached_def split: option.splits dest!: hash_take_SomeD)
  moreover obtain d where d: "c' = Some d" using assms(1) by (auto simp: cache_lookup_def split: option.splits)
  ultimately show "\<exists>d. c' = Some d \<and> cache_ok d \<and> free_cb d = free_cb c \<and> max_entries d = max_entries c \<and> cached d = cached c"
    using cache_lookup_ok [OF assms(2) assms(1) [unfolded d]] by auto
  show n: "found = None \<longleftrightarrow> k \<notin> set (keys c)"
    using assms(1,3) by (auto simp: cache_lookup_def keys_def cached_def split: option.splits dest!: hash_take_SomeD)
  have "found = Some x \<Longrightarrow> (k, Some x) \<in> cached c" for x
    using assms(1) by (auto simp: cache_lookup_def cached_def image_iff split: option.splits dest!: hash_take_SomeD)
  then show "found = Some r \<longleftrightarrow> (k, Some r) \<in> cached c"
    using n cached_functional [OF assms(2)] cached_keys [of k c] by (cases found) auto
qed

lemma remove_cached:
  assumes "cache_remove (Some c) (Some k) = (ret, c', freed)" "cache_ok c" "free_cb c" "\<forall>(k, d)\<in>cached c. d \<noteq> None"
  shows "\<exists>d. c' = Some d \<and> cache_ok d \<and> free_cb d \<and> max_entries d = max_entries c \<and>
    (if k \<in> set (keys c) then \<exists>r. (k, Some r) \<in> cached c \<and> freed = [FreeCb k r] \<and> cached d = cached c - {(k, Some r)}
     else freed = [] \<and> d = c)"
proof (cases "hash_take k (entries c)")
  case None
  then have "c' = Some c" "freed = []" using assms(1) by (simp_all add: cache_remove_def del: hash_take_None_iff)
  moreover have "k \<notin> set (keys c)" using None by (simp add: keys_def)
  ultimately show ?thesis using assms by simp
next
  case (Some p)
  obtain e r where p: "p = (e, r)" by (cases p)
  from hash_take_SomeD [OF Some [unfolded p]] obtain xs ys where
    e: "entries c = xs @ e # ys" "r = xs @ ys" "ce_key e = k" "k \<notin> ce_key ` set ys" by blast
  have c': "c' = Some (c\<lparr>entries := r\<rparr>)" "freed = release True e"
    using assms(1,3) Some p by (simp_all add: cache_remove_def)
  obtain x where x: "ce_data e = Some x" using assms(4) e(1) by (force simp: cached_def)
  have nx: "k \<notin> ce_key ` set xs" using assms(2) e by (auto simp: cache_ok_def keys_def)
  have "cached (c\<lparr>entries := r\<rparr>) = cached c - {(k, Some x)}"
    using e x nx by (auto simp: cached_def image_iff)
  moreover have "cache_ok (c\<lparr>entries := r\<rparr>)" using assms(2) e by (simp add: cache_ok_def keys_def)
  moreover have "k \<in> set (keys c)" "(k, Some x) \<in> cached c" using e x by (auto simp: keys_def cached_def intro!: image_eqI [of _ _ e])
  ultimately show ?thesis using c' x e(3) assms(3) by (auto simp: release_def)
qed

lemma insert_cached:
  assumes "cache_insert True now (Some c) k (Some r) = (ret, c', freed)" "cache_ok c" "free_cb c" "\<forall>(k, d)\<in>cached c. d \<noteq> None"
    "k \<notin> set (keys c)" "1 < max_entries c"
  shows "\<exists>d. c' = Some d \<and> cache_ok d \<and> free_cb d \<and> max_entries d = max_entries c \<and>
    (freed = [] \<and> cached d = insert (k, Some r) (cached c) \<or>
     (\<exists>k0 r0. (k0, Some r0) \<in> cached c \<and> freed = [FreeCb k0 r0] \<and> cached d = insert (k, Some r) (cached c - {(k0, Some r0)})))"
proof -
  let ?e = "\<lparr>ce_key = k, ce_data = Some r, ce_ts = now\<rparr>"
  obtain d where d: "c' = Some d" using assms(1) by (auto simp: cache_insert_def Let_def split: if_splits)
  have ok: "cache_ok d" "max_entries d = max_entries c" using cache_insert_ok [OF assms(2,5) assms(1) [unfolded d]] by simp_all
  show ?thesis
  proof (cases "Suc (length (entries c)) \<ge> max_entries c")
    case False
    then show ?thesis using assms(1,3) d ok by (auto simp: cache_insert_def Let_def cached_def)
  next
    case True
    then obtain e es where e: "entries c = e # es" using assms(6) by (cases "entries c") auto
    obtain x where x: "ce_data e = Some x" using assms(4) e by (force simp: cached_def)
    have "ce_key e \<notin> ce_key ` set es" "ce_key e \<noteq> k" using assms(2,5) e by (auto simp: cache_ok_def keys_def)
    then have "cached d = insert (k, Some r) (cached c - {(ce_key e, Some x)})"
      using assms(1) d True e x by (auto simp: cache_insert_def Let_def cached_def image_iff)
    moreover have "freed = [FreeCb (ce_key e) x]" "free_cb d"
      using assms(1,3) d True e x by (auto simp: cache_insert_def Let_def release_def)
    ultimately show ?thesis using d ok e x by (auto simp: cached_def)
  qed
qed


section \<open>The callbacks preserve the invariant\<close>

lemma deref_simps [simp]: "sc_remotes s r = Some rc \<Longrightarrow> deref s r = Done rc" "sc_remotes s r = None \<Longrightarrow> deref s r = Undefined"
  by (simp_all add: deref_def)

lemma update_remote_simps [simp]:
  "sc_remotes s r = Some rc \<Longrightarrow> update_remote r f s = Done (s\<lparr>sc_remotes := (sc_remotes s)(r \<mapsto> f rc)\<rparr>)"
  "sc_remotes s r = None \<Longrightarrow> update_remote r f s = Undefined"
  by (simp_all add: update_remote_def)

lemma close_simps [simp]:
  "sc_remotes s r = Some rc \<Longrightarrow> close_and_free_remote r s = Done (s\<lparr>sc_remotes := (sc_remotes s)(r := None)\<rparr>)"
  by (simp add: close_and_free_remote_def)

lemma table_data: "table_ok c rs X \<Longrightarrow> \<forall>(k, d)\<in>cached c. d \<noteq> None"
  using assocs_live by (fastforce simp: table_ok_def)

lemma lookup_inv:
  assumes "relay_inv s X" "cache_lookup now (sc_conn_cache s) (Some k) True = (ret, c', found)"
  shows "relay_inv (s\<lparr>sc_conn_cache := c'\<rparr>) X"
    and "found = Some r \<Longrightarrow> \<exists>rc. sc_remotes s r = Some rc \<and> assoc_ok k rc \<and> r \<notin> X"
    and "found = None \<Longrightarrow> \<exists>c. c' = Some c \<and> k \<notin> set (keys c)"
proof -
  from assms(1) obtain c where c: "sc_conn_cache s = Some c" "table_ok c (sc_remotes s) X" by auto
  note ok = c(2) [unfolded table_ok_def]
  note l = lookup_cached [OF assms(2) [unfolded c(1)] _ table_data [OF c(2)]]
  obtain d where d: "c' = Some d" "cache_ok d" "free_cb d = free_cb c" "max_entries d = max_entries c" "cached d = cached c"
    using l(1) ok by blast
  show "relay_inv (s\<lparr>sc_conn_cache := c'\<rparr>) X"
    using assms(1) c(1) d by (auto simp: relay_inv_def table_ok_def)
  show "\<exists>rc. sc_remotes s r = Some rc \<and> assoc_ok k rc \<and> r \<notin> X" if "found = Some r"
  proof -
    have k: "(k, Some r) \<in> cached c" using l(2) [of r] ok that by simp
    then have "r \<notin> X" using ok by (auto simp: assocs_ok_def)
    then show ?thesis using assocs_live [OF _ k] ok by auto
  qed
  show "\<exists>c. c' = Some c \<and> k \<notin> set (keys c)" if "found = None"
    using l(3) ok that d cached_keys [of k c] cached_keys [of k d] by auto
qed

lemma timeout_inv:
  assumes "relay_inv s {}" "sc_remotes s r = Some rc"
  shows "\<exists>d. remote_timeout_cb r s = Done ([], s\<lparr>sc_conn_cache := d, sc_remotes := (sc_remotes s)(r := None)\<rparr>) \<and>
    relay_inv (s\<lparr>sc_conn_cache := d, sc_remotes := (sc_remotes s)(r := None)\<rparr>) {}"
proof -
  from assms(1) obtain c where c: "sc_conn_cache s = Some c" "table_ok c (sc_remotes s) {}" by auto
  note ok = c(2) [unfolded table_ok_def]
  obtain k where k: "(k, Some r) \<in> cached c" "assoc_ok k rc" using assocs_dom [of "cached c" "sc_remotes s" "{}" r rc] ok assms(2) by auto
  obtain ret c' freed where rm: "cache_remove (Some c) (Some k) = (ret, c', freed)" by (metis prod_cases3)
  have "k \<in> set (keys c)" using k(1) cached_keys by blast
  with remove_cached [OF rm _ _ table_data [OF c(2)]] ok obtain d r' where
    d: "c' = Some d" "cache_ok d" "free_cb d" "max_entries d = max_entries c" "(k, Some r') \<in> cached c"
      "freed = [FreeCb k r']" "cached d = cached c - {(k, Some r')}"
    by auto
  have "r' = r" using cached_functional [of c k "Some r'" "Some r"] ok d(5) k(1) by simp
  note d = d [unfolded this]
  have kk: "hash_key (rc_af rc) (rc_src_addr rc) = k" using k(2) by (simp add: assoc_ok_def)
  have "assocs_ok (cached d) ((sc_remotes s)(r := None)) {}"
    unfolding d(7) using ok k(1) by (intro assocs_remove) simp_all
  then show ?thesis
    using assms c d rm kk ok by (auto simp: remote_timeout_cb_def relay_inv_def table_ok_def)
qed

lemma register_inv:
  assumes "relay_inv s {r}" "sc_remotes s r = Some rc" "sc_conn_cache s = Some c" "k \<notin> set (keys c)"
    "k = hash_key (rc_af rc) (rc_src_addr rc)" "sa_ok (rc_src_addr rc)" "en_malloc env"
  shows "\<exists>d rs. register_remote env r k s = Done (s\<lparr>sc_conn_cache := d, sc_remotes := rs\<rparr>) \<and>
    relay_inv (s\<lparr>sc_conn_cache := d, sc_remotes := rs\<rparr>) {} \<and> rs r = Some (rc\<lparr>rc_io := True, rc_watcher := True\<rparr>)"
proof -
  have t: "table_ok c (sc_remotes s) {r}" using assms(1,3) by auto
  note ok = t [unfolded table_ok_def]
  let ?rc = "rc\<lparr>rc_io := True, rc_watcher := True\<rparr>"
  obtain ret c' freed where i: "cache_insert True (en_later env) (Some c) k (Some r) = (ret, c', freed)" by (metis prod_cases3)
  have "assoc_ok k ?rc" using assms(5,6) by (simp add: assoc_ok_def)
  note ins = assocs_insert [OF _ _ this]
  from insert_cached [OF i _ _ table_data [OF t] assms(4)] ok obtain d where
    d: "c' = Some d" "cache_ok d" "free_cb d" "max_entries d = max_entries c" and
    f: "freed = [] \<and> cached d = insert (k, Some r) (cached c) \<or>
     (\<exists>k0 r0. (k0, Some r0) \<in> cached c \<and> freed = [FreeCb k0 r0] \<and> cached d = insert (k, Some r) (cached c - {(k0, Some r0)}))"
    by blast
  from f show ?thesis
  proof
    assume f: "freed = [] \<and> cached d = insert (k, Some r) (cached c)"
    have "assocs_ok (cached d) ((sc_remotes s)(r \<mapsto> ?rc)) {}" using ins [of "cached c" "sc_remotes s" "{r}" r] f ok by simp
    then have "relay_inv (s\<lparr>sc_conn_cache := Some d, sc_remotes := (sc_remotes s)(r \<mapsto> ?rc)\<rparr>) {}"
      using assms(1-3) d ok by (auto simp: relay_inv_def table_ok_def)
    moreover have "register_remote env r k s = Done (s\<lparr>sc_conn_cache := Some d, sc_remotes := (sc_remotes s)(r \<mapsto> ?rc)\<rparr>)"
      using assms(2,3,7) d(1) f i by (simp add: register_remote_def)
    ultimately show ?thesis by (intro exI conjI) (assumption | simp)+
  next
    assume "\<exists>k0 r0. (k0, Some r0) \<in> cached c \<and> freed = [FreeCb k0 r0] \<and> cached d = insert (k, Some r) (cached c - {(k0, Some r0)})"
    then obtain k0 r0 where f: "(k0, Some r0) \<in> cached c" "freed = [FreeCb k0 r0]" "cached d = insert (k, Some r) (cached c - {(k0, Some r0)})"
      by blast
    have "r0 \<noteq> r" using ok f(1) by (auto simp: assocs_ok_def)
    moreover obtain rc0 where "sc_remotes s r0 = Some rc0" using assocs_live [of "cached c" "sc_remotes s" "{r}", OF _ f(1)] ok by auto
    moreover have "assocs_ok (cached d) ((sc_remotes s)(r0 := None, r \<mapsto> ?rc)) {}"
      using ins [OF assocs_remove [OF _ f(1)], of "sc_remotes s" "{r}" r] f(3) ok by simp
    ultimately have "relay_inv (s\<lparr>sc_conn_cache := Some d, sc_remotes := (sc_remotes s)(r0 := None, r \<mapsto> ?rc)\<rparr>) {}"
      using assms(1-3) d ok by (auto simp: relay_inv_def table_ok_def)
    moreover have "register_remote env r k s = Done (s\<lparr>sc_conn_cache := Some d, sc_remotes := (sc_remotes s)(r0 := None, r \<mapsto> ?rc)\<rparr>)"
      using assms(2,3,7) d(1) f i \<open>r0 \<noteq> r\<close> \<open>sc_remotes s r0 = Some rc0\<close> by (simp add: register_remote_def)
    ultimately show ?thesis by (intro exI conjI) (assumption | simp)+
  qed
qed


lemma relay_inv_frame [simp]:
  "relay_inv (s\<lparr>sc_tx := tx\<rparr>) X = relay_inv s X" "relay_inv (s\<lparr>sc_rx := rx\<rparr>) X = relay_inv s X"
  by (simp_all add: relay_inv_def)

lemma relay_inv_globals [simp]: "pp_safe (g_pp g) \<Longrightarrow> relay_inv s X \<Longrightarrow> relay_inv (s\<lparr>sc_globals := g\<rparr>) X"
  by (simp add: relay_inv_def)

lemma relay_inv_next: "relay_inv s X \<Longrightarrow> relay_inv (s\<lparr>sc_next := sc_next s + 1\<rparr>) X"
  by (auto simp: relay_inv_def intro: less_SucI)

lemma next_free: "relay_inv s X \<Longrightarrow> sc_remotes s (sc_next s) = None"
  by (metis domI less_irrefl option.exhaust relay_inv_def)

lemma new_remote_inv:
  assumes "relay_inv s X"
  shows "relay_inv (s\<lparr>sc_next := sc_next s + 1, sc_remotes := (sc_remotes s)(sc_next s \<mapsto> rc)\<rparr>) (insert (sc_next s) X)"
proof -
  have "sc_remotes s (sc_next s) = None" using assms by (rule next_free)
  with assms assocs_new [of _ "sc_remotes s" X "sc_next s" rc] show ?thesis
    by (auto simp: relay_inv_def table_ok_def less_Suc_eq)
qed

lemma update_inv:
  assumes "relay_inv s X" "sc_remotes s r = Some rc" "r \<notin> X \<longrightarrow> (\<forall>k. assoc_ok k rc \<longrightarrow> assoc_ok k rc')"
  shows "relay_inv (s\<lparr>sc_remotes := (sc_remotes s)(r \<mapsto> rc')\<rparr>) X"
  using assms assocs_update [of _ "sc_remotes s" X r rc rc'] by (auto simp: relay_inv_def table_ok_def)

lemma close_inv:
  assumes "relay_inv s {r}"
  shows "relay_inv (s\<lparr>sc_remotes := (sc_remotes s)(r := None)\<rparr>) {}"
proof -
  have "assocs_ok A (rs(r := None)) {}" if A: "assocs_ok A rs {r}" for A rs
  proof (rule assocs_okI)
    have n: "(k, Some r) \<notin> A" for k using assocs_disjoint [OF A] by blast
    show "\<exists>r' rc. d = Some r' \<and> (rs(r := None)) r' = Some rc \<and> assoc_ok k rc" if "(k, d) \<in> A" for k d
      using assocs_live [OF A that] n [of k] that by auto
    show "dom (rs(r := None)) = {r. \<exists>k. (k, Some r) \<in> A} \<union> {}" using assocs_domD [OF A] n by auto
  qed simp
  with assms show ?thesis by (auto simp: relay_inv_def table_ok_def)
qed

definition outcome_inv :: "(udp_out list \<times> 'e server_ctx) outcome \<Rightarrow> bool" where
  "outcome_inv oc \<longleftrightarrow> (\<exists>out s'. oc = Done (out, s') \<and> relay_inv s' {})"

lemma outcome_invI [intro]: "relay_inv s' {} \<Longrightarrow> outcome_inv (Done (out, s'))"
  by (simp add: outcome_inv_def)

lemma register_new:
  assumes "relay_inv s {}" "sc_conn_cache s = Some c" "hash_key (rc_af rc) (rc_src_addr rc) \<notin> set (keys c)"
    "sa_ok (rc_src_addr rc)" "en_malloc env"
  shows "\<exists>d rs. register_remote env (sc_next s) (hash_key (rc_af rc) (rc_src_addr rc))
        (s\<lparr>sc_next := Suc (sc_next s), sc_remotes := (sc_remotes s)(sc_next s \<mapsto> rc)\<rparr>) =
      Done (s\<lparr>sc_next := Suc (sc_next s), sc_conn_cache := d, sc_remotes := rs\<rparr>) \<and>
    relay_inv (s\<lparr>sc_next := Suc (sc_next s), sc_conn_cache := d, sc_remotes := rs\<rparr>) {} \<and>
    rs (sc_next s) = Some (rc\<lparr>rc_io := True, rc_watcher := True\<rparr>)"
  using register_inv [OF _ _ _ assms(3) refl assms(4,5), of "s\<lparr>sc_next := Suc (sc_next s), sc_remotes := (sc_remotes s)(sc_next s \<mapsto> rc)\<rparr>" "sc_next s"]
    new_remote_inv [OF assms(1), of rc] assms(2) by simp

lemma open_association_sends:
  assumes "relay_inv s {}" "sc_conn_cache s = Some c" "hash_key (sa_family dst) src \<notin> set (keys c)" "sa_ok src" "en_malloc env"
    and fd: "create_remote_socket env (sa_family dst = AF_INET6) = fd" "fd \<noteq> -1" "en_sendto env \<noteq> -1"
  shows "\<exists>d rs. open_association env src dst hdr payload s =
      Done ([SendTo fd payload dst], s\<lparr>sc_next := Suc (sc_next s), sc_conn_cache := d, sc_remotes := rs\<rparr>) \<and>
    relay_inv (s\<lparr>sc_next := Suc (sc_next s), sc_conn_cache := d, sc_remotes := rs\<rparr>) {} \<and>
    (\<exists>rc. rs (sc_next s) = Some rc \<and> rc_src_addr rc = src \<and> rc_fd rc = fd \<and> rc_io rc)"
proof -
  define rc where "rc = \<lparr>rc_io = False, rc_watcher = False, rc_af = sa_family dst, rc_fd = fd, rc_addr_header = hdr,
      rc_src_addr = src, rc_dst_addr = dst\<rparr>"
  obtain d rs where r: "register_remote env (sc_next s) (hash_key (sa_family dst) src)
        (s\<lparr>sc_next := Suc (sc_next s), sc_remotes := (sc_remotes s)(sc_next s \<mapsto> rc)\<rparr>) =
      Done (s\<lparr>sc_next := Suc (sc_next s), sc_conn_cache := d, sc_remotes := rs\<rparr>)"
      "relay_inv (s\<lparr>sc_next := Suc (sc_next s), sc_conn_cache := d, sc_remotes := rs\<rparr>) {}"
      "rs (sc_next s) = Some (rc\<lparr>rc_io := True, rc_watcher := True\<rparr>)"
    using register_new [OF assms(1,2), of rc env] assms(3-5) by (auto simp: rc_def)
  have "open_association env src dst hdr payload s =
      Done ([SendTo fd payload dst], s\<lparr>sc_next := Suc (sc_next s), sc_conn_cache := d, sc_remotes := rs\<rparr>)"
    using fd r(1) by (simp add: open_association_def Let_def new_remote_def rc_def)
  then show ?thesis using r by (intro exI [of _ d] exI [of _ rs]) (simp add: rc_def)
qed

lemma close_new:
  assumes "relay_inv s {}"
  shows "relay_inv (s\<lparr>sc_next := Suc (sc_next s), sc_remotes := (sc_remotes s)(sc_next s := None)\<rparr>) {}"
proof -
  have "(sc_remotes s)(sc_next s := None) = sc_remotes s" using next_free [OF assms] by (auto simp: fun_eq_iff)
  then show ?thesis using relay_inv_next [OF assms] by simp
qed

lemma open_association_inv:
  assumes "relay_inv s {}" "sc_conn_cache s = Some c" "hash_key (sa_family dst) src \<notin> set (keys c)" "sa_ok src" "en_malloc env"
  shows "outcome_inv (open_association env src dst hdr payload s)"
proof (cases "create_remote_socket env (sa_family dst = AF_INET6) \<noteq> -1 \<and> en_sendto env \<noteq> -1")
  case True
  then show ?thesis using open_association_sends [OF assms refl, of hdr payload] by auto
next
  case False
  then show ?thesis using assms(1) close_new [OF assms(1)]
    by (auto simp: open_association_def Let_def new_remote_def)
qed



lemma relay_inv_query:
  "relay_inv s X \<Longrightarrow> sa_ok (qc_src_addr (rq_data query)) \<Longrightarrow> relay_inv (s\<lparr>sc_queries := (sc_queries s)(q \<mapsto> query)\<rparr>) X"
  "relay_inv s X \<Longrightarrow> relay_inv (s\<lparr>sc_queries := (sc_queries s)(q := None)\<rparr>) X"
  by (auto simp: relay_inv_def ran_def)

lemma start_query_inv:
  assumes "relay_inv s {}" "sa_ok src"
  shows "outcome_inv (start_query src host port hdr payload r s)"
  using relay_inv_next [OF relay_inv_query(1) [OF assms(1), of "resolv_start (port_bytes port)
      ((new_query_ctx payload)\<lparr>qc_addr_header := hdr, qc_src_addr := src, qc_remote_ctx := r\<rparr>)" "sc_next s"]] assms(2)
  by (auto simp: start_query_def resolv_start_def)

lemma watcher_keeps: "assoc_ok k rc \<Longrightarrow> assoc_ok k (rc\<lparr>rc_watcher := True\<rparr>)" "assoc_ok k rc \<Longrightarrow> assoc_ok k (rc\<lparr>rc_dst_addr := a\<rparr>)"
  by (simp_all add: assoc_ok_def)

lemma same_source:
  assumes "assoc_ok (hash_key af src) rc" "sa_ok src"
  shows "rc_src_addr rc = src" "sockaddr_cmp src (rc_src_addr rc) 128 = 0"
proof -
  show e: "rc_src_addr rc = src"
    using assms sa_bytes_inj [of src "rc_src_addr rc"] hash_key_inj [of af src] by (auto simp: assoc_ok_def)
  show "sockaddr_cmp src (rc_src_addr rc) 128 = 0"
    unfolding e using sockaddr_cmp_total_order(3) [OF assms(2,2,2)] by simp
qed

lemma forward_packet_inv:
  assumes "relay_inv s {}" "sa_ok src" "en_malloc env"
  shows "outcome_inv (forward_packet env src h buf s)"
proof -
  let ?k = "hash_key (sa_family (ph_addr h)) src"
  obtain ret c' found where l: "cache_lookup (en_now env) (sc_conn_cache s) (Some ?k) True = (ret, c', found)" by (metis prod_cases3)
  note lk = lookup_inv [OF assms(1) l]
  show ?thesis
  proof (cases found)
    case None
    obtain c where c: "c' = Some c" "?k \<notin> set (keys c)" using lk(3) [OF None] by blast
    show ?thesis
      using None c open_association_inv [OF lk(1) _ c(2) assms(2,3)] start_query_inv [OF lk(1) assms(2)]
      by (simp add: forward_packet_def l Let_def)
  next
    case (Some r)
    obtain rc where rc: "sc_remotes s r = Some rc" "assoc_ok ?k rc" using lk(2) [OF Some] by blast
    have "relay_inv (s\<lparr>sc_conn_cache := c', sc_remotes := (sc_remotes s)(r \<mapsto> rc\<lparr>rc_watcher := True\<rparr>)\<rparr>) {}"
      using update_inv [OF lk(1), of r rc "rc\<lparr>rc_watcher := True\<rparr>"] rc(1) watcher_keeps by simp
    then show ?thesis
      using Some rc(1) same_source(2) [OF rc(2) assms(2)] start_query_inv [OF _ assms(2)] by (auto simp: forward_packet_def l Let_def)
  qed
qed

lemma received_ok:
  assumes "0 \<le> n"
  shows "buffer_ok (received n p)" "bcap (received n p) = nat n" "bcontent (received n p) = take (nat n) p"
    "blen (received n p) = min (nat n) (length p)"
  by (simp_all add: received_def Let_def balloc_def buffer_ok_def bcontent_def write_at_0 min_def)

lemma server_recv_inv:
  assumes "relay_inv s {}" "\<forall>p a. recv = Some (p, a) \<longrightarrow> sa_ok a" "en_malloc env"
  shows "outcome_inv (server_recv_cb net env recv s)"
proof (cases recv)
  case None
  then show ?thesis using assms(1) by (auto simp: server_recv_cb_def)
next
  case (Some pa)
  obtain p a where pa: "pa = (p, a)" by (cases pa)
  let ?b = "received (sc_buf_size s) p"
  obtain err g b where d: "cr_decrypt_all (sc_crypto s) (en_calloc env) (sc_globals s) ?b (cr_cipher (sc_crypto s)) (nat (sc_buf_size s)) = (err, g, b)"
    by (metis prod_cases3)
  have z: "2 \<le> sc_buf_size s" "opens_safely (sc_crypto s)" "pp_safe (g_pp (sc_globals s))" using assms(1) by auto
  then have b: "err \<noteq> ABORTED" "buffer_ok b" "nat (sc_buf_size s) \<le> bcap b" "pp_safe (g_pp g)"
    using opens_safelyD(1) [OF _ _ _ d] received_ok(1,2) [of "sc_buf_size s" p] by auto
  have "2 \<le> length (bdata b)" "blen b \<le> length (bdata b)" using b(2,3) z(1) by (auto simp: buffer_ok_def)
  then obtain h where h: "parse_udprelay_header net (bdata b) (blen b) = Some h" using parse_udprelay_header_bounds by blast
  show ?thesis
    using assms b(1,4) h forward_packet_inv [of "s\<lparr>sc_tx := sc_tx s + of_nat (blen ?b), sc_globals := g\<rparr>" a env h b]
    by (auto simp: server_recv_cb_def Some pa d Let_def)
qed

lemma remote_recv_inv:
  assumes "relay_inv s {}" "sc_remotes s r = Some rc"
  shows "outcome_inv (remote_recv_cb env recv r s) \<or> remote_recv_cb env recv r s = Exit"
proof (cases recv)
  case None
  then show ?thesis using assms by (auto simp: remote_recv_cb_def)
next
  case (Some pa)
  obtain p a where pa: "pa = (p, a)" by (cases pa)
  have safe: "opens_safely (sc_crypto s)" "pp_safe (g_pp (sc_globals s))" using assms(1) by auto
  have "relay_inv (s\<lparr>sc_remotes := (sc_remotes s)(r \<mapsto> rc\<lparr>rc_watcher := True\<rparr>)\<rparr>) {}"
    using assms watcher_keeps by (intro update_inv) auto
  then have "relay_inv (s\<lparr>sc_rx := x, sc_globals := g, sc_remotes := (sc_remotes s)(r \<mapsto> rc\<lparr>rc_watcher := True\<rparr>)\<rparr>) {}"
    if "g_pp g = g_pp (sc_globals s)" for x g
    using that by (simp add: relay_inv_def)
  moreover have "relay_inv (s\<lparr>sc_rx := x, sc_globals := g\<rparr>) {}" if "g_pp g = g_pp (sc_globals s)" for x g
    using assms(1) safe that by simp
  ultimately show ?thesis using assms(2)
    by (auto simp: remote_recv_cb_def Some pa Let_def split: prod.split dest!: opens_safelyD(2) [OF safe(1)])
qed

lemma resolv_cb_inv:
  assumes "relay_inv s {}" "sa_ok (qc_src_addr q)" "en_malloc env"
    and "addr = None \<or> (\<forall>r. qc_remote_ctx q = Some r \<longrightarrow> sc_remotes s r \<noteq> None)"
  shows "outcome_inv (resolv_cb env addr q s)"
proof (cases addr)
  case None
  then show ?thesis using assms(1) by (auto simp: resolv_cb_def)
next
  case (Some a)
  have hit: "outcome_inv (obind (update_remote r (\<lambda>rc. rc\<lparr>rc_dst_addr := a\<rparr>) s') (\<lambda>s.
                 obind (deref s r) (\<lambda>rc. Done ([SendTo (rc_fd rc) (qc_buf q) a], s))))"
    if "relay_inv s' {}" "sc_remotes s' r = Some rc" for s' :: "'a server_ctx" and r rc
    using that update_inv [OF that, of "rc\<lparr>rc_dst_addr := a\<rparr>"] watcher_keeps by auto
  show ?thesis
  proof (cases "qc_remote_ctx q")
    case (Some r)
    then show ?thesis using assms(1,4) hit [of s r] \<open>addr = Some a\<close> by (auto simp: resolv_cb_def)
  next
    case None
    let ?k = "hash_key AF_UNSPEC (qc_src_addr q)"
    obtain ret c' found where l: "cache_lookup (en_now env) (sc_conn_cache s) (Some ?k) True = (ret, c', found)" by (metis prod_cases3)
    note lk = lookup_inv [OF assms(1) l]
    show ?thesis
    proof (cases found)
      case (Some r)
      obtain rc where "sc_remotes s r = Some rc" using lk(2) [OF Some] by blast
      then show ?thesis using hit [OF lk(1), of r rc] \<open>addr = Some a\<close> None Some by (simp add: resolv_cb_def l)
    next
      case nf: None
      obtain c where c: "c' = Some c" "?k \<notin> set (keys c)" using lk(3) [OF nf] by blast
      define fd where "fd = create_remote_socket env (sa_family a = AF_INET6)"
      define rc where "rc = \<lparr>rc_io = False, rc_watcher = False, rc_af = AF_UNSPEC, rc_fd = fd,
         rc_addr_header = qc_addr_header q, rc_src_addr = qc_src_addr q, rc_dst_addr = a\<rparr>"
      obtain d rs where r: "register_remote env (sc_next s) ?k
            (s\<lparr>sc_conn_cache := c', sc_next := Suc (sc_next s), sc_remotes := (sc_remotes s)(sc_next s \<mapsto> rc)\<rparr>) =
          Done (s\<lparr>sc_conn_cache := c', sc_next := Suc (sc_next s), sc_conn_cache := d, sc_remotes := rs\<rparr>)"
          "relay_inv (s\<lparr>sc_conn_cache := c', sc_next := Suc (sc_next s), sc_conn_cache := d, sc_remotes := rs\<rparr>) {}"
        using register_new [OF lk(1), of c rc env] c assms(2,3) by (auto simp: rc_def)
      have "fd \<noteq> -1 \<Longrightarrow> en_sendto env \<noteq> -1 \<Longrightarrow> outcome_inv (resolv_cb env addr q s)"
        using r \<open>addr = Some a\<close> None nf by (auto simp: resolv_cb_def l fd_def [symmetric] new_remote_def rc_def)
      moreover have "fd = -1 \<Longrightarrow> outcome_inv (resolv_cb env addr q s)"
        using lk(1) \<open>addr = Some a\<close> None nf by (auto simp: resolv_cb_def l fd_def [symmetric])
      moreover have "fd \<noteq> -1 \<Longrightarrow> en_sendto env = -1 \<Longrightarrow> outcome_inv (resolv_cb env addr q s)"
        using close_new [OF lk(1)] \<open>addr = Some a\<close> None nf by (auto simp: resolv_cb_def l fd_def [symmetric] new_remote_def)
      ultimately show ?thesis by blast
    qed
  qed
qed


text \<open>A query is stale when it holds a context that has been freed.\<close>

definition stale :: "query_ctx \<Rightarrow> 'e server_ctx \<Rightarrow> bool" where
  "stale ctx s \<longleftrightarrow> (case qc_remote_ctx ctx of Some r \<Rightarrow> sc_remotes s r = None | None \<Rightarrow> False)"

lemma dns_answered_inv:
  assumes "relay_inv s {}" "sc_queries s q = Some query" "en_malloc env"
    and ns: "\<And>addr ctx. resolv_step mode (Waiting query) answer = Called (Some addr) ctx \<Longrightarrow> \<not> stale ctx s"
  shows "outcome_inv (dns_answered mode env q query answer s)"
proof (cases "resolv_step mode (Waiting query) answer")
  case (Waiting query')
  have "rq_data query' = rq_data query"
    using Waiting by (cases answer)
      (auto simp: dns_query_v4_cb_def dns_query_v6_cb_def Let_def process_client_callback_def split: if_split_asm option.split_asm)
  moreover have "sa_ok (qc_src_addr (rq_data query))" using assms(1,2) by (auto simp: relay_inv_def ran_def)
  ultimately show ?thesis using relay_inv_query(1) [OF assms(1), of query' q] Waiting by (auto simp: dns_answered_def)
next
  case (Called addr ctx)
  have "ctx = rq_data query"
    using Called by (cases answer)
      (auto simp: dns_query_v4_cb_def dns_query_v6_cb_def Let_def process_client_callback_def split: if_split_asm option.split_asm)
  then have "sa_ok (qc_src_addr ctx)" using assms(1,2) by (auto simp: relay_inv_def ran_def)
  moreover have "addr = None \<or> (\<forall>r. qc_remote_ctx ctx = Some r \<longrightarrow> sc_remotes s r \<noteq> None)"
    using ns [of _ ctx] Called by (cases addr) (auto simp: stale_def)
  ultimately have "outcome_inv (resolv_cb env addr ctx s)" using resolv_cb_inv [OF assms(1) _ assms(3)] by blast
  then show ?thesis using Called relay_inv_query(2) by (auto simp: dns_answered_def outcome_inv_def resolv_free_cb_def)
next
  case (Abandoned query')
  then show ?thesis using assms(1) by (auto simp: dns_answered_def)
qed

section \<open>The event loop\<close>

text \<open>One callback of the event loop, in a state where its watcher is active or its query is open.  \<open>stale_answer\<close> says
  that it is a DNS answer delivered to a stale query.\<close>

inductive udp_step :: "net_lib \<Rightarrow> resolv_mode \<Rightarrow> 'e server_ctx \<Rightarrow> bool \<Rightarrow> (udp_out list \<times> 'e server_ctx) outcome \<Rightarrow> bool"
  for net :: net_lib and mode :: resolv_mode where
  step_server: "en_malloc env \<Longrightarrow> (\<And>p a. recv = Some (p, a) \<Longrightarrow> sa_ok a) \<Longrightarrow>
    udp_step net mode s False (server_recv_cb net env recv s)"
| step_remote: "sc_remotes s r = Some rc \<Longrightarrow> rc_io rc \<Longrightarrow> udp_step net mode s False (remote_recv_cb env recv r s)"
| step_timeout: "sc_remotes s r = Some rc \<Longrightarrow> rc_watcher rc \<Longrightarrow> udp_step net mode s False (remote_timeout_cb r s)"
| step_dns: "sc_queries s q = Some query \<Longrightarrow> en_malloc env \<Longrightarrow>
    stale_answer = (\<exists>addr ctx. resolv_step mode (Waiting query) answer = Called (Some addr) ctx \<and> stale ctx s) \<Longrightarrow>
    udp_step net mode s stale_answer (dns_answered mode env q query answer s)"

inductive udp_reach :: "net_lib \<Rightarrow> resolv_mode \<Rightarrow> 'e server_ctx \<Rightarrow> 'e server_ctx \<Rightarrow> bool"
  for net :: net_lib and mode :: resolv_mode and s0 :: "'e server_ctx" where
  reach_start: "udp_reach net mode s0 s0"
| reach_step: "udp_reach net mode s0 s \<Longrightarrow> udp_step net mode s b (Done (out, s')) \<Longrightarrow> udp_reach net mode s0 s'"

lemma stale_answer_undefined:
  assumes "resolv_step mode (Waiting query) answer = Called (Some addr) ctx" "stale ctx s"
  shows "dns_answered mode env q query answer s = Undefined"
  using assms by (auto simp: dns_answered_def resolv_cb_def stale_def split: option.split_asm)

lemma udp_step_cases:
  assumes "udp_step net mode s b oc" "relay_inv s {}"
  shows "(if b then oc = Undefined else outcome_inv oc \<or> oc = Exit)"
  using assms
proof (cases rule: udp_step.cases)
  case (step_server env recv)
  then show ?thesis using server_recv_inv [OF assms(2), of recv env net] by auto
next
  case (step_remote r rc env recv)
  then show ?thesis using remote_recv_inv [OF assms(2)] by auto
next
  case (step_timeout r rc)
  then show ?thesis using timeout_inv [OF assms(2) step_timeout(3)] by (auto simp: outcome_inv_def)
next
  case (step_dns q query env answer)
  show ?thesis
  proof (cases b)
    case True
    then show ?thesis using step_dns stale_answer_undefined by auto
  next
    case False
    then show ?thesis using step_dns dns_answered_inv [OF assms(2) step_dns(2,3), of mode answer] by auto
  qed
qed

lemma init_relay_inv:
  assumes "mtu \<le> 0 \<or> 95 < mtu" "opens_safely crypto" "init_udprelay fd True mtu crypto g timeout ss = Done rs"
    and "pp_safe (g_pp g)"
  shows "relay_inv (List.last rs) {}"
proof -
  have "List.last rs = new_relay fd True mtu crypto g timeout"
    using assms(3) by (auto simp: init_udprelay_def Let_def split: if_splits)
  then show ?thesis
  using assms(1,2,4)
  by (auto simp: new_relay_def Let_def new_server_ctx_def cache_create_def relay_inv_def table_ok_def assocs_ok_def
      cached_def cache_ok_def keys_def MAX_UDP_CONN_NUM_def DEFAULT_PACKET_SIZE_def)
qed


lemma reach_inv: "udp_reach net mode s0 s \<Longrightarrow> relay_inv s0 {} \<Longrightarrow> relay_inv s {}"
proof (induction rule: udp_reach.induct)
  case (reach_step s b out s')
  then show ?case using udp_step_cases [OF reach_step(2)] by (auto simp: outcome_inv_def split: if_splits)
qed

text \<open>C29 (invariant): in every state the event loop reaches, fewer than 512 associations are cached, under distinct keys;
  each cached context is live, filed under the hash key of its address family and client, with its socket and timer
  watched; and every live context is cached, so none is leaked.  The replay filter
  is in a state that \<open>crypto_init\<close> leaves, whatever \<open>calloc\<close> does (\<open>crypto_init_safe\<close>).\<close>

theorem udp_relay_invariant:
  assumes "mtu \<le> 0 \<or> 95 < mtu" "crypto = aead_crypto lib ci \<or> crypto = stream_crypto lib ci"
    and "pp_safe (g_pp g)" "init_udprelay fd True mtu crypto g timeout ss = Done rs" "udp_reach net mode (List.last rs) s"
  shows "\<exists>c. sc_conn_cache s = Some c \<and> length (entries c) < 512 \<and> distinct (map ce_key (entries c)) \<and>
    (\<forall>e\<in>set (entries c). \<exists>r rc. ce_data e = Some r \<and> sc_remotes s r = Some rc \<and>
       ce_key e = hash_key (rc_af rc) (rc_src_addr rc) \<and> rc_io rc \<and> rc_watcher rc) \<and>
    (\<forall>r. sc_remotes s r \<noteq> None \<longleftrightarrow> Some r \<in> ce_data ` set (entries c))"
proof -
  have "opens_safely crypto" using assms(2) aead_opens_safely stream_opens_safely by auto
  then have "relay_inv s {}" using reach_inv [OF assms(5) init_relay_inv [OF assms(1) _ assms(4,3)]] by blast
  then obtain c where c: "sc_conn_cache s = Some c" "max_entries c = MAX_UDP_CONN_NUM" "table_ok c (sc_remotes s) {}" by auto
  have "\<exists>r rc. ce_data e = Some r \<and> sc_remotes s r = Some rc \<and> assoc_ok (ce_key e) rc" if "e \<in> set (entries c)" for e
    using assocs_live [of "cached c" "sc_remotes s" "{}" "ce_key e" "ce_data e"] c(3) that by (auto simp: table_ok_def cached_def)
  moreover have "sc_remotes s r \<noteq> None \<longleftrightarrow> Some r \<in> ce_data ` set (entries c)" for r
  proof -
    have "dom (sc_remotes s) = {r. \<exists>k. (k, Some r) \<in> cached c}"
      using assocs_domD [of "cached c" "sc_remotes s" "{}"] c(3) by (simp add: table_ok_def)
    moreover have "(\<exists>k. (k, Some r) \<in> cached c) \<longleftrightarrow> Some r \<in> ce_data ` set (entries c)"
      unfolding cached_def image_iff by auto
    ultimately show ?thesis unfolding dom_def by blast
  qed
  moreover have "length (entries c) < 512" "distinct (map ce_key (entries c))"
    using c(2,3) by (simp_all add: table_ok_def cache_ok_def keys_def MAX_UDP_CONN_NUM_def)
  ultimately show ?thesis using c(1) unfolding assoc_ok_def by blast
qed


section \<open>The stale query\<close>

lemma forward_domain_hit:
  assumes "relay_inv s {}" "sa_ok src" "sc_conn_cache s = Some c" "(hash_key AF_UNSPEC src, Some r) \<in> cached c"
    "sa_family (ph_addr h) = AF_UNSPEC"
  shows "\<exists>s1 ctx. forward_packet env src h buf s = Done ([AskDns (c_string (ph_host h))], s1) \<and> relay_inv s1 {} \<and>
    sc_remotes s1 r \<noteq> None \<and> sc_queries s1 (sc_next s) = Some (resolv_start (port_bytes (ph_port h)) ctx) \<and> qc_remote_ctx ctx = Some r"
proof -
  let ?k = "hash_key AF_UNSPEC src"
  have "table_ok c (sc_remotes s) {}" using assms(1,3) by auto
  then have t: "cache_ok c" "\<forall>(k, d)\<in>cached c. d \<noteq> None" by (simp add: table_ok_def, rule table_data)
  obtain ret c' found where l: "cache_lookup (en_now env) (Some c) (Some ?k) True = (ret, c', found)" by (metis prod_cases3)
  have f: "found = Some r" using lookup_cached(2) [OF l t] assms(4) by simp
  note lk = lookup_inv [OF assms(1), of "en_now env" ?k ret c' found] l assms(3)
  obtain rc where rc: "sc_remotes s r = Some rc" "assoc_ok ?k rc" using lookup_inv(2) [OF assms(1), of "en_now env" ?k ret c' found r] l assms(3) f by auto
  define ctx where "ctx = (new_query_ctx (drop (ph_len h) (bcontent buf)))\<lparr>qc_addr_header := take (ph_len h) (bdata buf), qc_src_addr := src, qc_remote_ctx := Some r\<rparr>"
  have i: "relay_inv (s\<lparr>sc_conn_cache := c', sc_remotes := (sc_remotes s)(r \<mapsto> rc\<lparr>rc_watcher := True\<rparr>)\<rparr>) {}"
    using update_inv [OF lookup_inv(1) [OF assms(1)], of "en_now env" ?k ret c' found r rc "rc\<lparr>rc_watcher := True\<rparr>"]
      l assms(3) rc(1) watcher_keeps by simp
  have e: "forward_packet env src h buf s = start_query src (ph_host h) (ph_port h) (take (ph_len h) (bdata buf))
      (drop (ph_len h) (bcontent buf)) (Some r) (s\<lparr>sc_conn_cache := c', sc_remotes := (sc_remotes s)(r \<mapsto> rc\<lparr>rc_watcher := True\<rparr>)\<rparr>)"
    using l f rc(1) assms(3,5) same_source(2) [OF rc(2) assms(2)] by (simp add: forward_packet_def Let_def af_defs)
  from start_query_inv [OF i assms(2), of "ph_host h" "ph_port h" "take (ph_len h) (bdata buf)" "drop (ph_len h) (bcontent buf)" "Some r"]
  show ?thesis unfolding e by (auto simp: start_query_def outcome_inv_def)
qed

text \<open>C31 (error): a use after free.  A client whose association was opened for a host name sends another packet for a
  host name; if the association times out before the name is resolved, the answer is processed with the freed
  context.\<close>

theorem udp_use_after_free:
  assumes "relay_inv s {}" "sa_ok src" "sc_conn_cache s = Some c" "(hash_key AF_UNSPEC src, Some r) \<in> cached c"
    "sa_family (ph_addr h) = AF_UNSPEC" "addrs \<noteq> []"
  shows "\<exists>s1 s2 s3 q1 q2. forward_packet env src h buf s = Done ([AskDns (c_string (ph_host h))], s1) \<and>
    remote_timeout_cb r s1 = Done ([], s2) \<and> sc_queries s2 (sc_next s) = Some q1 \<and>
    dns_answered mode env2 (sc_next s) q1 (AnswerV4 True ARES_SUCCESS (Some addrs)) s2 = Done ([], s3) \<and>
    sc_queries s3 (sc_next s) = Some q2 \<and>
    dns_answered mode env3 (sc_next s) q2 (AnswerV6 True ARES_FAILED None) s3 = Undefined"
proof -
  obtain s1 ctx where s1: "forward_packet env src h buf s = Done ([AskDns (c_string (ph_host h))], s1)" "relay_inv s1 {}"
      "sc_remotes s1 r \<noteq> None" "sc_queries s1 (sc_next s) = Some (resolv_start (port_bytes (ph_port h)) ctx)" "qc_remote_ctx ctx = Some r"
    using forward_domain_hit [OF assms(1-5)] by blast
  obtain s2 where s2: "remote_timeout_cb r s1 = Done ([], s2)" "sc_remotes s2 r = None" "sc_queries s2 = sc_queries s1"
    using timeout_inv [OF s1(2)] s1(3) by fastforce
  let ?q = "resolv_start (port_bytes (ph_port h)) ctx"
  let ?a = "[AnswerV4 True ARES_SUCCESS (Some addrs), AnswerV6 True ARES_FAILED None]"
  have r: "(\<exists>q. resolv_step mode (Waiting ?q) (hd ?a) = Waiting q) \<and>
      foldl (resolv_step mode) (Waiting ?q) ?a = Called (resolv_spec mode (port_bytes (ph_port h)) addrs []) ctx"
    using both_answered [of ARES_SUCCESS ARES_FAILED ?a True "Some addrs" True None mode "port_bytes (ph_port h)" ctx]
    by (simp add: usable_def)
  then obtain q2 where q2: "resolv_step mode (Waiting ?q) (AnswerV4 True ARES_SUCCESS (Some addrs)) = Waiting q2" by auto
  obtain a where a: "resolv_spec mode (port_bytes (ph_port h)) addrs [] = Some a"
    using assms(6) by (cases addrs; cases mode) (auto simp: resolv_spec_def)
  have c: "resolv_step mode (Waiting q2) (AnswerV6 True ARES_FAILED None) = Called (Some a) ctx" using r q2 a by simp
  have "dns_answered mode env3 (sc_next s) q2 (AnswerV6 True ARES_FAILED None) (s2\<lparr>sc_queries := (sc_queries s2)(sc_next s \<mapsto> q2)\<rparr>) = Undefined"
    by (rule stale_answer_undefined [OF c]) (simp add: stale_def s1(5) s2(2))
  moreover have "dns_answered mode env2 (sc_next s) ?q (AnswerV4 True ARES_SUCCESS (Some addrs)) s2 =
      Done ([], s2\<lparr>sc_queries := (sc_queries s2)(sc_next s \<mapsto> q2)\<rparr>)"
    using q2 by (simp add: dns_answered_def)
  ultimately show ?thesis using s1 s2 by (intro exI conjI) (assumption | simp)+
qed


section \<open>Shutdown\<close>

lemma free_all_live:
  "distinct rs \<Longrightarrow> \<forall>r\<in>set rs. sc_remotes s r \<noteq> None \<Longrightarrow> length ks = length rs \<Longrightarrow>
   free_all (map2 FreeCb ks rs) s = Done (s\<lparr>sc_remotes := sc_remotes s |` (- set rs)\<rparr>)"
proof (induction rs arbitrary: s ks)
  case (Cons r rs)
  then obtain k ks' where k: "ks = k # ks'" "length ks' = length rs" by (cases ks) auto
  obtain rc where rc: "sc_remotes s r = Some rc" using Cons.prems(2) by auto
  have "(sc_remotes s)(r := None) |` (- set rs) = sc_remotes s |` (- set (r # rs))"
    by (auto simp: restrict_map_def fun_eq_iff)
  moreover have "\<forall>r'\<in>set rs. ((sc_remotes s)(r := None)) r' \<noteq> None" using Cons.prems(1,2) by auto
  ultimately have "free_all (map2 FreeCb ks' rs) (s\<lparr>sc_remotes := (sc_remotes s)(r := None)\<rparr>) =
      Done (s\<lparr>sc_remotes := sc_remotes s |` (- set (r # rs))\<rparr>)"
    using Cons.IH [of "s\<lparr>sc_remotes := (sc_remotes s)(r := None)\<rparr>" ks'] Cons.prems(1) k(2)
    by (simp del: fun_upd_apply restrict_fun_upd)
  then show ?case using k(1) rc by simp
qed (simp add: restrict_map_def)

lemma delete_releases:
  "\<forall>e\<in>set es. ce_data e \<noteq> None \<Longrightarrow> concat (map (release True) es) = map2 FreeCb (map ce_key es) (map (the \<circ> ce_data) es)"
  by (induction es) (auto simp: release_def)

text \<open>Shutting down relays that satisfy the invariant frees each association context once, and all of them.\<close>

lemma free_udprelay_done:
  "\<forall>s\<in>set ss. relay_inv s {} \<Longrightarrow> free_udprelay ss = Done ()"
proof (induction ss)
  case (Cons s ss)
  from Cons.prems obtain c where c: "sc_conn_cache s = Some c" "table_ok c (sc_remotes s) {}" by auto
  have a: "assocs_ok (cached c) (sc_remotes s) {}" "cache_ok c" "free_cb c" using c(2) by (simp_all add: table_ok_def)
  have d: "\<exists>r rc. ce_data e = Some r \<and> sc_remotes s r = Some rc \<and> assoc_ok (ce_key e) rc" if "e \<in> set (entries c)" for e
    using assocs_live [OF a(1), of "ce_key e" "ce_data e"] that by (auto simp: cached_def)
  have "inj_on (the \<circ> ce_data) (set (entries c))"
  proof (rule inj_onI)
    fix e f assume ef: "e \<in> set (entries c)" "f \<in> set (entries c)" "(the \<circ> ce_data) e = (the \<circ> ce_data) f"
    then have "ce_key e = ce_key f" using d [OF ef(1)] d [OF ef(2)] by (auto simp: assoc_ok_def)
    moreover have "inj_on ce_key (set (entries c))" using a(2) by (simp add: cache_ok_def keys_def distinct_map)
    ultimately show "e = f" using ef by (auto dest: inj_onD)
  qed
  moreover have "distinct (entries c)" using a(2) by (auto simp: cache_ok_def keys_def distinct_map)
  ultimately have "distinct (map (the \<circ> ce_data) (entries c))" by (simp add: distinct_map)
  moreover have "\<forall>r\<in>set (map (the \<circ> ce_data) (entries c)). sc_remotes s r \<noteq> None" using d by force
  moreover have "\<forall>e\<in>set (entries c). ce_data e \<noteq> None" using d by blast
  ultimately have "\<exists>s'. free_all (concat (map (release True) (entries c))) (s\<lparr>sc_conn_cache := None\<rparr>) = Done s'"
    using free_all_live [of "map (the \<circ> ce_data) (entries c)" "s\<lparr>sc_conn_cache := None\<rparr>" "map ce_key (entries c)"]
    by (simp add: delete_releases)
  then show ?case using Cons a(3) c(1) by (auto simp: cache_delete_def)
qed simp

text \<open>An IPv6 literal sent as a name is relayed to the unspecified address: \<open>inet_pton\<close> is called with the IPv4 family,
  which refuses the text.\<close>

lemma ipv6_literal_lost:
  "snd (cork_ip_init tmp) = Some (V6 a) \<Longrightarrow> inet_pton4 net tmp = None \<Longrightarrow>
   literal_address net tmp port = sa_in6 (replicate 16 0) port"
  by (simp add: literal_address_def)

section \<open>Delivery\<close>

text \<open>The reply is put together as \<open>bprepend\<close> does it.\<close>

lemma prepend_header:
  "(let b = brealloc b (blen b + length hdr) n;
        b = b\<lparr>bdata := write_at (length hdr) (take (blen b) (bdata b)) (bdata b)\<rparr>;
        b = b\<lparr>bdata := write_at 0 hdr (bdata b)\<rparr>
    in b\<lparr>blen := blen b + length hdr\<rparr>) = bprepend b (buffer_of hdr) n"
  by (simp add: bprepend_def buffer_of_def Let_def)

lemma construct_nonempty: "header_addr a \<Longrightarrow> construct_udprelay_header a \<noteq> []"
  by (auto simp: header_addr_def construct_udprelay_header_def)

lemma header_family: "header_addr a \<Longrightarrow> sa_family a = AF_INET \<or> sa_family a = AF_INET6"
  by (auto simp: header_addr_def)

lemma forward_known:
  assumes "relay_inv s {}" "sa_ok src" "sa_family (ph_addr h) = AF_INET \<or> sa_family (ph_addr h) = AF_INET6"
    "en_malloc env" "create_remote_socket env (sa_family (ph_addr h) = AF_INET6) \<noteq> -1" "en_sendto env \<noteq> -1"
  shows "\<exists>s' r rc. forward_packet env src h buf s = Done ([SendTo (rc_fd rc) (drop (ph_len h) (bcontent buf)) (ph_addr h)], s') \<and>
    relay_inv s' {} \<and> sc_remotes s' r = Some rc \<and> rc_src_addr rc = src \<and> rc_io rc \<and>
    sc_crypto s' = sc_crypto s \<and> sc_globals s' = sc_globals s \<and> sc_fd s' = sc_fd s \<and> sc_buf_size s' = sc_buf_size s"
proof -
  let ?dst = "ph_addr h" and ?pl = "drop (ph_len h) (bcontent buf)"
  let ?k = "hash_key (sa_family ?dst) src" and ?fd = "create_remote_socket env (sa_family ?dst = AF_INET6)"
  obtain ret c' found where l: "cache_lookup (en_now env) (sc_conn_cache s) (Some ?k) True = (ret, c', found)" by (metis prod_cases3)
  note lk = lookup_inv [OF assms(1) l]
  show ?thesis
  proof (cases found)
    case None
    obtain c where c: "c' = Some c" "?k \<notin> set (keys c)" using lk(3) [OF None] by blast
    obtain d rs rc where o: "open_association env src ?dst (take (ph_len h) (bdata buf)) ?pl (s\<lparr>sc_conn_cache := c'\<rparr>) =
        Done ([SendTo ?fd ?pl ?dst], s\<lparr>sc_conn_cache := c', sc_next := Suc (sc_next s), sc_conn_cache := d, sc_remotes := rs\<rparr>)"
      "relay_inv (s\<lparr>sc_conn_cache := c', sc_next := Suc (sc_next s), sc_conn_cache := d, sc_remotes := rs\<rparr>) {}"
      "rs (sc_next s) = Some rc" "rc_src_addr rc = src" "rc_io rc" and fd: "rc_fd rc = ?fd"
      using open_association_sends [OF lk(1) _ c(2) assms(2,4) refl assms(5,6), of "take (ph_len h) (bdata buf)" ?pl] c(1)
      by simp blast
    have e: "forward_packet env src h buf s = open_association env src ?dst (take (ph_len h) (bdata buf)) ?pl (s\<lparr>sc_conn_cache := c'\<rparr>)"
      using None assms(3) by (simp add: forward_packet_def l Let_def)
    show ?thesis unfolding e o(1) fd [symmetric] using o(2-5)
      by (intro exI [of _ "sc_next s"] exI [of _ rc] exI conjI) (assumption | simp | rule refl)+
  next
    case (Some r)
    obtain rc where rc: "sc_remotes s r = Some rc" "assoc_ok ?k rc" using lk(2) [OF Some] by blast
    let ?s = "s\<lparr>sc_conn_cache := c', sc_remotes := (sc_remotes s)(r \<mapsto> rc\<lparr>rc_watcher := True\<rparr>)\<rparr>"
    have i: "relay_inv ?s {}"
      using update_inv [OF lk(1), of r rc "rc\<lparr>rc_watcher := True\<rparr>"] rc(1) watcher_keeps by simp
    have e: "forward_packet env src h buf s = Done ([SendTo (rc_fd rc) ?pl ?dst], ?s)"
      using Some rc(1) same_source(2) [OF rc(2) assms(2)] assms(3) by (simp add: forward_packet_def l Let_def)
    show ?thesis
      using i e same_source(1) [OF rc(2) assms(2)] rc(2)
      by (intro exI [of _ ?s] exI [of _ r] exI [of _ "rc\<lparr>rc_watcher := True\<rparr>"]) (simp add: assoc_ok_def)
  qed
qed

context packet_cipher
begin

lemma forward_delivery:
  assumes p: "valid p" "globals_ok gs" "length salt = salt_len p"
    and e: "cr_encrypt_all (crypto_of p) salt gs (buffer_of (construct_udprelay_header dst @ payload)) (cr_cipher (crypto_of p)) cap = (ret, gs', c)"
    and s: "relay_inv s {}" "sc_crypto s = crypto_of p" "globals_ok (sc_globals s)" "ppbloom_check (g_pp (sc_globals s)) salt \<noteq> Some 1"
    and a: "header_addr dst" "sa_ok src" "length payload \<le> 2 ^ 37" "int (length (bcontent c)) \<le> sc_buf_size s"
    and env: "en_malloc env" "en_calloc env" "create_remote_socket env (sa_family dst = AF_INET6) \<noteq> -1" "en_sendto env \<noteq> -1"
  shows "ret = CRYPTO_OK \<and> (\<exists>s' r rc. server_recv_cb net env (Some (bcontent c, src)) s = Done ([SendTo (rc_fd rc) payload dst], s') \<and>
    relay_inv s' {} \<and> sc_remotes s' r = Some rc \<and> rc_src_addr rc = src \<and> rc_io rc \<and>
    sc_crypto s' = crypto_of p \<and> globals_ok (sc_globals s') \<and> sc_fd s' = sc_fd s \<and> sc_buf_size s' = sc_buf_size s)"
proof -
  let ?m = "construct_udprelay_header dst @ payload" and ?cr = "crypto_of p"
  let ?d = "received (sc_buf_size s) (bcontent c)"
  have hl: "length (construct_udprelay_header dst) \<le> 19" using a(1) by (auto simp: header_addr_def construct_udprelay_header_def sa_in_def sa_in6_def)
  have m: "?m \<noteq> []" "length ?m \<le> 2 ^ 38" using construct_nonempty [OF a(1)] a(3) hl by simp_all
  have n: "0 \<le> sc_buf_size s" using s(1) by auto
  obtain gs'' c' where so: "cr_encrypt_all ?cr salt gs (buffer_of ?m) (cr_cipher ?cr) cap = (CRYPTO_OK, gs'', c')"
      "\<And>d cr. buffer_ok d \<Longrightarrow> bcontent d = bcontent c' \<Longrightarrow> \<exists>gr' d'. cr_decrypt_all ?cr True (sc_globals s) d (cr_cipher ?cr) cr = (CRYPTO_OK, gr', d') \<and>
          globals_ok gr' \<and> buffer_ok d' \<and> bcontent d' = ?m"
    using seal_open [OF p(1,2) s(3) p(3) s(4) m, of "buffer_of ?m" cap] by auto
  have c: "ret = CRYPTO_OK" "c' = c" using so(1) e by simp_all
  obtain g d where d: "cr_decrypt_all ?cr True (sc_globals s) ?d (cr_cipher ?cr) (nat (sc_buf_size s)) = (CRYPTO_OK, g, d)"
      "globals_ok g" "buffer_ok d" "bcontent d = ?m"
    using so(2) [of ?d "nat (sc_buf_size s)"] received_ok [OF n, of "bcontent c"] a(4) c(2) by auto
  obtain rest where dd: "bdata d = construct_udprelay_header dst @ rest" and bl: "length (construct_udprelay_header dst) \<le> blen d"
  proof
    have "bdata d = bcontent d @ drop (blen d) (bdata d)" by (simp add: bcontent_def)
    then show "bdata d = construct_udprelay_header dst @ payload @ drop (blen d) (bdata d)" using d(4) by simp
    show "length (construct_udprelay_header dst) \<le> blen d" using arg_cong [OF d(4), of length] d(3) by simp
  qed
  obtain h where h: "parse_udprelay_header net (bdata d) (blen d) = Some h" "ph_addr h = dst" "ph_len h = length (construct_udprelay_header dst)"
    using header_roundtrip [OF a(1) dd bl] by blast
  have h0: "ph_len h \<noteq> 0" using h(3) construct_nonempty [OF a(1)] by simp
  define s1 where "s1 = s\<lparr>sc_tx := sc_tx s + of_nat (blen ?d), sc_globals := g\<rparr>"
  have "relay_inv s1 {}" using s(1) globals_ok_safe [OF d(2)] by (simp add: s1_def)
  then obtain s' r rc where f: "forward_packet env src h d s1 = Done ([SendTo (rc_fd rc) (drop (ph_len h) (bcontent d)) (ph_addr h)], s')"
    "relay_inv s' {}" "sc_remotes s' r = Some rc" "rc_src_addr rc = src" "rc_io rc"
    "sc_crypto s' = sc_crypto s1" "sc_globals s' = sc_globals s1" "sc_fd s' = sc_fd s1" "sc_buf_size s' = sc_buf_size s1"
    using forward_known [of s1 src h env d] a(2) header_family [OF a(1)] env h(2) by auto
  have "server_recv_cb net env (Some (bcontent c, src)) s = Done ([SendTo (rc_fd rc) payload dst], s')"
    using d(1) env(2) s(2) h f(1) h0 d(4) by (simp add: server_recv_cb_def Let_def s1_def)
  then show ?thesis using c(1) f d(2) s(2) by (auto simp: s1_def)
qed

lemma reply_delivery:
  assumes p: "valid p" "length (en_random env) = salt_len p"
    and s: "relay_inv s {}" "sc_crypto s = crypto_of p" "globals_ok (sc_globals s)" "sc_remotes s r = Some rc"
    and a: "header_addr from" "int (length reply) \<le> sc_buf_size s" "length reply \<le> 2 ^ 37"
    and g: "globals_ok gr" "ppbloom_check (g_pp gr) (en_random env) \<noteq> Some 1" and env: "en_sendto env \<noteq> -1"
  shows "\<exists>packet s'. remote_recv_cb env (Some (reply, from)) r s = Done ([SendTo (sc_fd s) packet (rc_src_addr rc)], s') \<and> relay_inv s' {} \<and>
    (\<forall>d cr. buffer_ok d \<longrightarrow> bcontent d = packet \<longrightarrow>
      (\<exists>gr' d'. cr_decrypt_all (crypto_of p) True gr d (cr_cipher (crypto_of p)) cr = (CRYPTO_OK, gr', d') \<and>
        bcontent d' = construct_udprelay_header from @ reply))"
proof -
  let ?hdr = "construct_udprelay_header from" and ?cr = "crypto_of p"
  let ?b = "bprepend (received (sc_buf_size s) reply) (buffer_of ?hdr) (nat (sc_buf_size s))"
  have n: "0 \<le> sc_buf_size s" using s(1) by auto
  have b: "buffer_ok ?b" "bcontent ?b = ?hdr @ reply"
    using bprepend_ok [OF received_ok(1) [OF n] buffer_of_simps(2)] received_ok(3) [OF n, of reply] a(2) by simp_all
  have hl: "length ?hdr \<le> 19" using a(1) by (auto simp: header_addr_def construct_udprelay_header_def sa_in_def sa_in6_def)
  have m: "?hdr @ reply \<noteq> []" "length (?hdr @ reply) \<le> 2 ^ 38" using construct_nonempty [OF a(1)] a(3) hl by simp_all
  obtain gs' c where so: "cr_encrypt_all ?cr (en_random env) (sc_globals s) ?b (cr_cipher ?cr) (nat (sc_buf_size s)) = (CRYPTO_OK, gs', c)"
      "\<forall>d cr. buffer_ok d \<longrightarrow> bcontent d = bcontent c \<longrightarrow> (\<exists>gr' d'. cr_decrypt_all ?cr True gr d (cr_cipher ?cr) cr = (CRYPTO_OK, gr', d') \<and>
          globals_ok gr' \<and> buffer_ok d' \<and> bcontent d' = ?hdr @ reply)"
    and gs: "globals_ok gs'"
    using seal_open [OF p(1) s(3) g(1) p(2) g(2) m b, of "nat (sc_buf_size s)"] by auto
  let ?s = "s\<lparr>sc_rx := sc_rx s + of_nat (blen (received (sc_buf_size s) reply)), sc_globals := gs'\<rparr>"
  have i: "relay_inv (?s\<lparr>sc_remotes := (sc_remotes s)(r \<mapsto> rc\<lparr>rc_watcher := True\<rparr>)\<rparr>) {}"
    using update_inv [of ?s "{}" r rc "rc\<lparr>rc_watcher := True\<rparr>"] s(1,4) watcher_keeps globals_ok_safe [OF gs] by simp
  have "remote_recv_cb env (Some (reply, from)) r s = Done ([SendTo (sc_fd s) (bcontent c) (rc_src_addr rc)],
      ?s\<lparr>sc_remotes := (sc_remotes s)(r \<mapsto> rc\<lparr>rc_watcher := True\<rparr>)\<rparr>)"
    using s(2,4) so(1) env prepend_header [of "received (sc_buf_size s) reply" ?hdr "nat (sc_buf_size s)"]
    by (simp add: remote_recv_cb_def Let_def)
  then show ?thesis using i so(2) by blast
qed

end


text \<open>C28 (roundtrip): an exchange through the relay with an AEAD cipher.  A client seals the header of \<open>dst\<close> and a
  payload; the relay, in any state that satisfies its invariant, sends exactly the payload to \<open>dst\<close> through the socket
  of the client's association.  What then arrives on that socket from \<open>from\<close> is sent back to the client, sealed,
  and the client opens it to the header of \<open>from\<close> followed by the reply.\<close>

theorem udp_exchange:
  assumes lib: "aead_lib_ok lib keyed" "aead_cipher_ok ci" "globals_ok gc" "length salt = c_key_len ci"
    and request: "aead_encrypt_all lib salt gc (buffer_of (construct_udprelay_header dst @ payload)) ci cap = (ret, gc', c)"
      "int (length (bcontent c)) \<le> sc_buf_size s" "length payload \<le> 2 ^ 37" "header_addr dst" "sa_ok src"
    and relay: "relay_inv s {}" "sc_crypto s = aead_crypto lib ci" "globals_ok (sc_globals s)" "ppbloom_check (g_pp (sc_globals s)) salt \<noteq> Some 1"
    and env1: "en_malloc env1" "en_calloc env1" "create_remote_socket env1 (sa_family dst = AF_INET6) \<noteq> -1" "en_sendto env1 \<noteq> -1"
    and reply: "header_addr from" "int (length reply) \<le> sc_buf_size s" "length reply \<le> 2 ^ 37"
    and env2: "length (en_random env2) = c_key_len ci" "globals_ok gr" "ppbloom_check (g_pp gr) (en_random env2) \<noteq> Some 1" "en_sendto env2 \<noteq> -1"
  shows "\<exists>s1 r rc s2 packet.
    server_recv_cb net env1 (Some (bcontent c, src)) s = Done ([SendTo (rc_fd rc) payload dst], s1) \<and>
    sc_remotes s1 r = Some rc \<and> rc_io rc \<and>
    remote_recv_cb env2 (Some (reply, from)) r s1 = Done ([SendTo (sc_fd s) packet src], s2) \<and>
    (\<forall>d cr. buffer_ok d \<longrightarrow> bcontent d = packet \<longrightarrow>
      (\<exists>gr' d'. aead_decrypt_all lib True gr d ci cr = (CRYPTO_OK, gr', d') \<and> bcontent d' = construct_udprelay_header from @ reply))"
proof -
  let ?p = "(lib, keyed, ci)"
  have v: "aead_valid ?p" "(case ?p of (lib, _, ci) \<Rightarrow> aead_crypto lib ci) = aead_crypto lib ci" using lib(1,2) by simp_all
  have c: "cr_encrypt_all (aead_crypto lib ci) = aead_encrypt_all lib" "cr_decrypt_all (aead_crypto lib ci) = aead_decrypt_all lib"
      "cr_cipher (aead_crypto lib ci) = ci"
    by (simp_all add: aead_crypto_def)
  obtain s1 r rc where 1: "server_recv_cb net env1 (Some (bcontent c, src)) s = Done ([SendTo (rc_fd rc) payload dst], s1)"
      "relay_inv s1 {}" "sc_remotes s1 r = Some rc" "rc_src_addr rc = src" "rc_io rc"
      "sc_crypto s1 = aead_crypto lib ci" "globals_ok (sc_globals s1)" "sc_fd s1 = sc_fd s" "sc_buf_size s1 = sc_buf_size s"
    using aead_packets.forward_delivery [OF v(1) lib(3), of salt dst payload cap ret gc' c s src env1 net] lib(4) request relay env1
    by (auto simp: c)
  obtain packet s2 where 2: "remote_recv_cb env2 (Some (reply, from)) r s1 = Done ([SendTo (sc_fd s1) packet (rc_src_addr rc)], s2)"
      "\<forall>d cr. buffer_ok d \<longrightarrow> bcontent d = packet \<longrightarrow>
      (\<exists>gr' d'. aead_decrypt_all lib True gr d ci cr = (CRYPTO_OK, gr', d') \<and> bcontent d' = construct_udprelay_header from @ reply)"
    using aead_packets.reply_delivery [OF v(1), of env2 s1 r rc "from" reply gr] env2 1 reply by (auto simp: c)
  show ?thesis using 1 2 by (intro exI conjI) (assumption | simp)+
qed

section \<open>Witnesses\<close>

definition relay_demo :: "(bytes \<times> bytes \<times> nat) server_ctx" where
  "relay_demo = new_relay 3 True 0 (aead_crypto lib_demo chacha_demo) globals_demo 60"

lemma init_demo: "init_udprelay 3 True 0 (aead_crypto lib_demo chacha_demo) globals_demo 60 [] = Done [relay_demo]"
  by (simp add: init_udprelay_def relay_demo_def MAX_REMOTE_NUM_def)

definition env_demo :: udp_env where
  "env_demo = \<lparr>en_socket = (\<lambda>_. 9), en_bind = (\<lambda>_. 0), en_sendto = 4, en_now = 0, en_later = 0, en_malloc = True, en_calloc = True,
     en_random = replicate 32 8\<rparr>"

definition net_demo :: net_lib where
  "net_demo = \<lparr>inet_pton4 = (\<lambda>_. None), inet_pton6 = (\<lambda>_. None), inet_ntop4 = (\<lambda>_. []), inet_ntop6 = (\<lambda>_. []), getaddrinfo = (\<lambda>_ _ _. None)\<rparr>"

definition client_demo :: sockaddr where
  "client_demo = sa_in [192, 0, 2, 1] [31, 144]"

lemma header_addr_in: "length ip = 4 \<Longrightarrow> length p = 2 \<Longrightarrow> header_addr (sa_in ip p)"
  unfolding header_addr_def by blast

lemma client_demo_ok: "sa_ok client_demo" "header_addr client_demo"
  by (auto simp: client_demo_def sa_ok_def sa_in_def af_defs intro!: header_addr_in [unfolded sa_in_def af_defs])

lemma relay_demo_inv: "relay_inv relay_demo {}"
  using init_relay_inv [OF _ aead_opens_safely init_demo] globals_ok_safe [OF globals_demo_ok] by simp

lemma relay_demo_fields: "sc_crypto relay_demo = aead_crypto lib_demo chacha_demo" "sc_globals relay_demo = globals_demo"
    "sc_buf_size relay_demo = 2794" "sc_fd relay_demo = 3"
  by (simp_all add: relay_demo_def new_relay_def new_server_ctx_def Let_def DEFAULT_PACKET_SIZE_def)

theorem udp_relay_invariant_witness:
  "\<exists>c. sc_conn_cache relay_demo = Some c \<and> length (entries c) < 512 \<and> distinct (map ce_key (entries c))"
  using udp_relay_invariant [OF _ disjI1 [OF refl] globals_ok_safe [OF globals_demo_ok] init_demo udp_reach.reach_start] by auto


definition stale_demo :: "(bytes \<times> bytes \<times> nat) server_ctx" where
  "stale_demo = relay_demo\<lparr>sc_next := 1,
     sc_conn_cache := Some \<lparr>max_entries = 512, entries = [\<lparr>ce_key = hash_key AF_UNSPEC client_demo, ce_data = Some 0, ce_ts = 0\<rparr>], free_cb = True\<rparr>,
     sc_remotes := [0 \<mapsto> \<lparr>rc_io = True, rc_watcher = True, rc_af = AF_UNSPEC, rc_fd = 9, rc_addr_header = [], rc_src_addr = client_demo,
        rc_dst_addr = client_demo\<rparr>]\<rparr>"

lemma stale_demo_inv: "relay_inv stale_demo {}"
proof -
  have "sc_queries relay_demo = Map.empty"
    by (simp add: relay_demo_def new_relay_def new_server_ctx_def Let_def)
  then show ?thesis
    using relay_demo_inv client_demo_ok
    by (auto simp: stale_demo_def relay_inv_def table_ok_def assocs_ok_def cached_def cache_ok_def keys_def assoc_ok_def MAX_UDP_CONN_NUM_def)
qed

theorem udp_use_after_free_witness:
  "\<exists>s1 s2 s3 q1 q2. forward_packet env_demo client_demo (no_header\<lparr>ph_len := 8, ph_host := cstr ''a.io''\<rparr>) (balloc 8) stale_demo =
      Done ([AskDns (cstr ''a.io'')], s1) \<and>
    remote_timeout_cb 0 s1 = Done ([], s2) \<and> sc_queries s2 1 = Some q1 \<and>
    dns_answered MODE_IPV4_FIRST env_demo 1 q1 (AnswerV4 True ARES_SUCCESS (Some [[10, 0, 0, 1]])) s2 = Done ([], s3) \<and>
    sc_queries s3 1 = Some q2 \<and>
    dns_answered MODE_IPV4_FIRST env_demo 1 q2 (AnswerV6 True ARES_FAILED None) s3 = Undefined"
proof -
  have "c_string (cstr ''a.io'') = cstr ''a.io''" by code_simp
  then show ?thesis
    using udp_use_after_free [OF stale_demo_inv client_demo_ok(1), of _ 0 "no_header\<lparr>ph_len := 8, ph_host := cstr ''a.io''\<rparr>" "[[10, 0, 0, 1]]"
        env_demo "balloc 8" MODE_IPV4_FIRST env_demo env_demo]
    by (simp add: stale_demo_def cached_def no_header_def sa_zero_def)
qed

theorem udp_exchange_witness:
  "\<exists>c s1 r rc s2 packet.
    server_recv_cb net_demo env_demo (Some (bcontent c, client_demo)) relay_demo = Done ([SendTo (rc_fd rc) [1, 2] (sa_in [9, 9, 9, 9] [0, 53])], s1) \<and>
    sc_remotes s1 r = Some rc \<and>
    remote_recv_cb env_demo (Some ([3], sa_in [9, 9, 9, 9] [0, 53])) r s1 = Done ([SendTo 3 packet client_demo], s2)"
proof -
  let ?dst = "sa_in [9, 9, 9, 9] [0, 53]"
  let ?m = "construct_udprelay_header ?dst @ [1, 2]"
  have h: "header_addr ?dst" by (simp add: header_addr_in)
  have k: "c_key_len chacha_demo = 32" by (simp add: chacha_demo_def)
  obtain x gc' c where e: "aead_encrypt_all lib_demo (replicate 32 7) globals_demo (buffer_of ?m) chacha_demo 64 = (CRYPTO_OK, gc', c)"
      "bcontent c = replicate 32 7 @ x" "sealed lib_demo (\<lambda>e k. fst e = k) chacha_demo (session_key lib_demo chacha_demo (replicate 32 7)) 0 ?m x"
    using aead_encrypt_all_sealed [OF lib_demo_aead_ok chacha_demo_ok globals_demo_ok buffer_of_simps(2), of "replicate 32 7" ?m 64] k by auto
  have "length x \<le> 100" using e(3) by (simp add: sealed_def construct_udprelay_header_def sa_in_def)
  then have l: "int (length (bcontent c)) \<le> sc_buf_size relay_demo" using e(2) by (simp add: relay_demo_fields)
  have f: "create_remote_socket env_demo (sa_family ?dst = AF_INET6) \<noteq> -1"
    by (simp add: create_remote_socket_def env_demo_def)
  from udp_exchange [OF lib_demo_aead_ok chacha_demo_ok globals_demo_ok _ e(1) l _ h client_demo_ok(1) relay_demo_inv _ _ _ _ _ f _ h,
      of "[3]" env_demo globals_demo net_demo]
  show ?thesis by (fastforce simp: relay_demo_fields k env_demo_def globals_demo_ok globals_demo_fresh)
qed

end
