(* ===== verification/ServerCorrect.thy ===== *)
theory ServerCorrect
  imports ServerCallbacks UdpRelayCorrect
begin

text \<open>
  The TCP relay as a whole: the AEAD ciphers satisfy the contract of \<open>ServerSteps\<close>, every state the event loop reaches
  satisfies the invariant, and what follows for a connection: memory safety, delivery in both directions, shutdown.
\<close>

section \<open>AEAD ciphers on a connection\<close>

text \<open>A decrypting context that has consumed \<open>R\<close> and put out \<open>P\<close>: if \<open>R\<close> is the beginning of what an AEAD sender
  produced, \<open>P\<close> is the payloads of the frames that are complete.\<close>

fun aead_rx :: "'e crypto_lib \<times> ('e \<Rightarrow> bytes \<Rightarrow> bool) \<times> cipher \<Rightarrow> bytes \<Rightarrow> bytes \<Rightarrow> 'e cipher_ctx \<Rightarrow> bool" where
  "aead_rx (lib, keyed, ci) R P x \<longleftrightarrow> ctx_wf x \<and>
    (\<forall>salt ps ws rest. length salt = c_key_len ci \<longrightarrow> frames lib keyed ci (session_key lib ci salt) 0 ps ws \<longrightarrow> R @ rest = salt @ concat ws \<longrightarrow>
      length R \<le> c_key_len ci \<and> P = [] \<and> rx_waiting lib ci R x \<or>
      (\<exists>n pend. n \<le> length ps \<and> P = concat (take n ps) \<and> R = salt @ concat (take n ws) @ pend \<and>
        rx_running keyed ci (session_key lib ci salt) (2 * n) pend x \<and> (n < length ps \<longrightarrow> length pend < length (ws ! n))))"

lemma aead_rxD:
  assumes "aead_rx (lib, keyed, ci) R P x" "length salt = c_key_len ci" "frames lib keyed ci (session_key lib ci salt) 0 ps ws"
    "R @ rest = salt @ concat ws"
  shows "length R \<le> c_key_len ci \<and> P = [] \<and> rx_waiting lib ci R x \<or>
      (\<exists>n pend. n \<le> length ps \<and> P = concat (take n ps) \<and> R = salt @ concat (take n ws) @ pend \<and>
        rx_running keyed ci (session_key lib ci salt) (2 * n) pend x \<and> (n < length ps \<longrightarrow> length pend < length (ws ! n)))"
  using assms unfolding aead_rx.simps by blast

text \<open>An encrypting context that was given \<open>D\<close> and has put out \<open>C\<close>.\<close>

fun aead_tx :: "'e crypto_lib \<times> ('e \<Rightarrow> bytes \<Rightarrow> bool) \<times> cipher \<Rightarrow> bytes \<Rightarrow> bytes \<Rightarrow> 'e cipher_ctx \<Rightarrow> bool" where
  "aead_tx (lib, keyed, ci) D C x \<longleftrightarrow>
    ctx_fresh lib ci x \<and> D = [] \<and> C = [] \<or>
    (\<exists>salt ps ws. ps \<noteq> [] \<and> length salt = c_key_len ci \<and> x_init x \<noteq> 0 \<and> x_cipher x = ci \<and>
      session keyed (session_key lib ci salt) (2 * length ps) x \<and> D = concat ps \<and> C = salt @ concat ws \<and>
      frames lib keyed ci (session_key lib ci salt) 0 ps ws)"

lemma frames_snoc:
  "frames lib keyed ci k N ps ws \<Longrightarrow> frame lib keyed ci k (N + 2 * length ps) p w \<Longrightarrow> frames lib keyed ci k N (ps @ [p]) (ws @ [w])"
  by (induction lib keyed ci k N ps ws rule: frames.induct) (simp_all add: algebra_simps)

lemma bset_keeps: "bcap b \<le> bcap (bset b bs c)" "bidx (bset b bs c) = bidx b"
  by (simp_all add: bset_def Let_def brealloc_cap)

lemma aead_decrypt_tail_buffer:
  "aead_decrypt_tail lib ok g b ctx c = (ret, g', b', ctx') \<Longrightarrow> b' = b \<or> (\<exists>bs. b' = bset b bs c)"
  by (auto simp: aead_decrypt_tail_def Let_def split: if_splits prod.splits option.splits)

lemma aead_decrypt_buffer:
  assumes "aead_decrypt lib ok g b ctx c = (ret, g', b', ctx')"
  shows "bcap b \<le> bcap b' \<and> bidx b' = bidx b"
proof -
  have "b' = b \<or> (\<exists>bs. b' = bset b bs c)"
    using assms unfolding aead_decrypt_unfold Let_def
    by (auto split: if_splits option.splits dest: aead_decrypt_tail_buffer)
  then show ?thesis using bset_keeps by auto
qed

lemma aead_encrypt_buffer:
  assumes "aead_encrypt lib g b ctx c = (ret, g', b', ctx')"
  shows "bcap b \<le> bcap b' \<and> bidx b' = bidx b"
proof -
  have "b' = b \<or> (\<exists>bs. b' = bset b bs c)"
    using assms unfolding aead_encrypt_def Let_def by (simp split: if_splits prod.splits) auto
  then show ?thesis using bset_keeps by auto
qed

lemma concat_take_add: "concat (take n xs) @ concat (take m (drop n xs)) = concat (take (n + m) xs)"
  by (simp add: take_add)

lemma aead_rx_step:
  assumes v: "aead_lib_ok lib keyed" "aead_cipher_ok ci" and rx: "aead_rx (lib, keyed, ci) R P x" and g: "globals_ok g" and b: "buffer_ok b" "0 < blen b"
    and d: "aead_decrypt lib True g b x c = (ret, g', b', x')"
  shows "ret = CRYPTO_OK \<Longrightarrow> aead_rx (lib, keyed, ci) (R @ bcontent b) (P @ bcontent b') x'"
    and "ret = CRYPTO_NEED_MORE \<Longrightarrow> aead_rx (lib, keyed, ci) (R @ bcontent b) P x'"
proof -
  let ?P = "if ret = CRYPTO_OK then P @ bcontent b' else P"
  have wf: "ctx_wf x'" using aead_decrypt_memory_ok [OF v(1) _ g b(1) d] rx by simp
  have ne: "bcontent b \<noteq> []" using b by (metis length_bcontent length_greater_0_conv)
  have "length (R @ bcontent b) \<le> c_key_len ci \<and> ?P = [] \<and> rx_waiting lib ci (R @ bcontent b) x' \<or>
      (\<exists>n pend. n \<le> length ps \<and> ?P = concat (take n ps) \<and> R @ bcontent b = salt @ concat (take n ws) @ pend \<and>
        rx_running keyed ci (session_key lib ci salt) (2 * n) pend x' \<and> (n < length ps \<longrightarrow> length pend < length (ws ! n)))"
    if ok: "ret = CRYPTO_OK \<or> ret = CRYPTO_NEED_MORE" and salt: "length salt = c_key_len ci"
      and fr: "frames lib keyed ci (session_key lib ci salt) 0 ps ws" and w: "(R @ bcontent b) @ rest = salt @ concat ws" for salt ps ws rest
  proof -
    let ?k = "session_key lib ci salt"
    have w': "R @ bcontent b @ rest = salt @ concat ws" using w by simp
    have lw: "length ps = length ws" using frames_length [OF fr] .
    consider (wait) "length R \<le> c_key_len ci" "P = []" "rx_waiting lib ci R x"
      | (run) n pend where "n \<le> length ps" "P = concat (take n ps)" "R = salt @ concat (take n ws) @ pend"
        "rx_running keyed ci ?k (2 * n) pend x" "n < length ps \<longrightarrow> length pend < length (ws ! n)"
      using aead_rxD [OF rx salt fr w'] by blast
    then show ?thesis
    proof cases
      case wait
      show ?thesis
      proof (cases "length (R @ bcontent b) \<le> c_key_len ci")
        case True
        then show ?thesis using aead_decrypt_waiting [OF wait(3) g b(1) True, of True c] d wait(2) by auto
      next
        case False
        then obtain r where r: "R @ bcontent b = salt @ r" "r \<noteq> []"
          using split_prefix [OF w] salt by (metis append.right_neutral le_add1 length_append order_refl)
        have seen: "ppbloom_check (g_pp g) salt \<noteq> Some 1"
          using aead_decrypt_seen [OF v(2) wait(3) b(1) r(1) salt r(2), of g True c] d ok by auto
        obtain n pend' where n: "n \<le> length ps" "ret = (if n = 0 then CRYPTO_NEED_MORE else CRYPTO_OK)"
            "ret = CRYPTO_OK \<longrightarrow> bcontent b' = concat (take n ps)"
            "rx_running keyed ci ?k (0 + 2 * n) pend' x'" "pend' @ rest = concat (drop n ws)" "n < length ps \<longrightarrow> length pend' < length (ws ! n)"
          using aead_decrypt_start [OF v wait(3) g b(1) salt seen _ w' fr, of c] False d by auto
        have "R @ bcontent b = salt @ concat (take n ws) @ pend'"
        proof -
          have "concat ws = concat (take n ws) @ concat (drop n ws)" by (metis append_take_drop_id concat_append)
          then have "(R @ bcontent b) @ rest = (salt @ concat (take n ws) @ pend') @ rest" using w n(5) by simp
          then show ?thesis by simp
        qed
        then show ?thesis using n wait(2) by (intro disjI2 exI [of _ n] exI [of _ pend']) auto
      qed
    next
      case run
      have fr': "frames lib keyed ci ?k (2 * n) (drop n ps) (drop n ws)" using frames_drop [OF fr, of n] by simp
      have wr: "pend @ bcontent b @ rest = concat (drop n ws)"
      proof -
        have "salt @ concat (take n ws) @ pend @ bcontent b @ rest = salt @ concat (take n ws) @ concat (drop n ws)"
          using w' run(3) by (metis append.assoc append_take_drop_id concat_append)
        then show ?thesis by simp
      qed
      obtain m pend' where m: "m \<le> length (drop n ps)" "ret = (if m = 0 \<and> pend @ bcontent b \<noteq> [] then CRYPTO_NEED_MORE else CRYPTO_OK)"
          "ret = CRYPTO_OK \<longrightarrow> bcontent b' = concat (take m (drop n ps))" "rx_running keyed ci ?k (2 * n + 2 * m) pend' x'"
          "pend' @ rest = concat (drop m (drop n ws))" "m < length (drop n ps) \<longrightarrow> length pend' < length (drop n ws ! m)"
        using aead_decrypt_running [OF run(4) g b(1) wr fr', of c] d by auto
      have "R @ bcontent b = salt @ concat (take (n + m) ws) @ pend'"
      proof -
        have "concat ws = concat (take (n + m) ws) @ concat (drop (n + m) ws)" by (metis append_take_drop_id concat_append)
        then have "(R @ bcontent b) @ rest = (salt @ concat (take (n + m) ws) @ pend') @ rest" using w m(5) by (simp add: add.commute)
        then show ?thesis by simp
      qed
      moreover have "?P = concat (take (n + m) ps)"
        using m(2,3) run(2) ne concat_take_add [of n ps m] by (auto split: if_splits)
      ultimately show ?thesis using m run(1) lw
        by (intro disjI2 exI [of _ "n + m"] exI [of _ pend']) (auto simp: algebra_simps)
    qed
  qed
  then show "ret = CRYPTO_OK \<Longrightarrow> aead_rx (lib, keyed, ci) (R @ bcontent b) (P @ bcontent b') x'"
    "ret = CRYPTO_NEED_MORE \<Longrightarrow> aead_rx (lib, keyed, ci) (R @ bcontent b) P x'"
    using wf by auto
qed


lemma aead_tx_step:
  assumes v: "aead_lib_ok lib keyed" "aead_cipher_ok ci" and tx: "aead_tx (lib, keyed, ci) D C x" and g: "globals_ok g"
    and b: "buffer_ok b" "0 < blen b" "blen b \<le> BUF_SIZE" and d: "aead_encrypt lib g b x c = (ret, g', b', x')"
  shows "ret = CRYPTO_OK \<and> globals_ok g' \<and> buffer_ok b' \<and> aead_tx (lib, keyed, ci) (D @ bcontent b) (C @ bcontent b') x'"
proof -
  have m: "blen b \<le> CHUNK_SIZE_MASK" using b(3) by (simp add: BUF_SIZE_def CHUNK_SIZE_MASK_def)
  consider (fresh) "ctx_fresh lib ci x" "D = []" "C = []"
    | (running) salt ps ws where "ps \<noteq> []" "length salt = c_key_len ci" "x_init x \<noteq> 0" "x_cipher x = ci"
      "session keyed (session_key lib ci salt) (2 * length ps) x" "D = concat ps" "C = salt @ concat ws"
      "frames lib keyed ci (session_key lib ci salt) 0 ps ws"
    using tx by auto
  then show ?thesis
  proof cases
    case fresh
    let ?salt = "take (c_key_len ci) (x_salt x)"
    have sl: "length ?salt = c_key_len ci" using fresh(1) aead_cipher_sizes(5) [OF v(2)] by (simp add: ctx_fresh_def)
    obtain w where w: "ret = CRYPTO_OK" "bcontent b' = ?salt @ w" "buffer_ok b'" "globals_ok g'"
        "frame lib keyed ci (session_key lib ci ?salt) 0 (bcontent b) w" "session keyed (session_key lib ci ?salt) 2 x'" "x_cipher x' = ci" "x_init x' = 1"
      using aead_encrypt_first [OF v fresh(1) refl g b(1,2) m, of c] d by auto
    have "aead_tx (lib, keyed, ci) (D @ bcontent b) (C @ bcontent b') x'"
      unfolding aead_tx.simps
      by (intro disjI2 exI [of _ ?salt] exI [of _ "[bcontent b]"] exI [of _ "[w]"]) (use w sl fresh in \<open>simp add: numeral_2_eq_2\<close>)
    then show ?thesis using w by simp
  next
    case running
    have w: "ret = CRYPTO_OK" "buffer_ok b'" "globals_ok g'" "frame lib keyed ci (session_key lib ci salt) (2 * length ps) (bcontent b) (bcontent b')"
        "session keyed (session_key lib ci salt) (2 * length ps + 2) x'" "x_cipher x' = ci" "x_init x' \<noteq> 0"
      using aead_encrypt_next [OF v(1) running(5,3) g b(1,2) m, of c] d running(4) by auto
    have "aead_tx (lib, keyed, ci) (D @ bcontent b) (C @ bcontent b') x'"
      unfolding aead_tx.simps
      by (intro disjI2 exI [of _ salt] exI [of _ "ps @ [bcontent b]"] exI [of _ "ws @ [bcontent b']"])
         (use w running frames_snoc [OF running(8), of "bcontent b" "bcontent b'"] in simp)
    then show ?thesis using w by simp
  qed
qed

lemma aead_rx_fresh:
  assumes "aead_cipher_ok ci"
  shows "aead_rx (lib, keyed, ci) [] [] (aead_ctx_init lib rnd ci False)"
proof -
  have "rx_waiting lib ci [] (aead_ctx_init lib rnd ci False)"
    using aead_ctx_init_fresh(1,2) [OF assms, where lib = lib and random = rnd and enc = False] by (simp add: rx_waiting_def chunk_of_def)
  then show ?thesis using ctx_init_wf [OF assms] by simp
qed

interpretation aead_connections: connection_cipher aead_valid "\<lambda>(lib, _, ci). aead_crypto lib ci" aead_rx aead_tx
proof (unfold_locales, goal_cases)
  case (1 p rnd)
  then show ?case using aead_rx_fresh by (cases p) (auto simp: aead_crypto_def simp del: aead_rx.simps)
next
  case (2 p rnd)
  then show ?case using aead_ctx_init_fresh(1) by (cases p) (auto simp: aead_crypto_def)
next
  case (3 p R P x g b c ret g' b' x')
  obtain lib keyed ci where p: "p = (lib, keyed, ci)" by (cases p) auto
  have v: "aead_lib_ok lib keyed" "aead_cipher_ok ci" and d: "aead_decrypt lib True g b x c = (ret, g', b', x')" and rx: "aead_rx (lib, keyed, ci) R P x"
    using 3(1,2,6) p by (simp_all add: aead_crypto_def del: aead_rx.simps)
  have "ctx_wf x" using rx by simp
  then show ?case
    using aead_decrypt_memory_ok [OF v(1) _ 3(3,4) d] aead_decrypt_buffer [OF d] aead_rx_step [OF v rx 3(3-5) d] p by (simp del: aead_rx.simps)
next
  case (4 p D C x g b c ret g' b' x')
  obtain lib keyed ci where p: "p = (lib, keyed, ci)" by (cases p) auto
  have v: "aead_lib_ok lib keyed" "aead_cipher_ok ci" and d: "aead_encrypt lib g b x c = (ret, g', b', x')" and tx: "aead_tx (lib, keyed, ci) D C x"
    using 4(1,2,7) p by (simp_all add: aead_crypto_def del: aead_tx.simps)
  show ?case using aead_tx_step [OF v tx 4(3-6) d] aead_encrypt_buffer [OF d] p by (simp del: aead_tx.simps)
qed

section \<open>The event loop\<close>

text \<open>A call of a callback by libev or c-ares: only watchers that are active and queries that are open fire.  Memory
  for the replay filter is not exhausted.\<close>

inductive tcp_step ::
  "net_lib \<Rightarrow> 're regex_lib \<Rightarrow> resolv_mode \<Rightarrow> ('e, 're) tcp_state \<Rightarrow> ('e, 're) tcp_state outcome \<Rightarrow> bool"
  for net :: net_lib and re :: "'re regex_lib" and mode :: resolv_mode where
  tcp_accept: "tcp_step net re mode s (accept_cb net re env fd s)"
| tcp_server_recv: "ts_servers s sv = Some server \<Longrightarrow> sv_recv_io server \<Longrightarrow> te_calloc env \<Longrightarrow>
    tcp_step net re mode s (tcp_server_recv_cb net re env sv s)"
| tcp_server_send: "ts_servers s sv = Some server \<Longrightarrow> sv_send_io server \<Longrightarrow> tcp_step net re mode s (tcp_server_send_cb env sv s)"
| tcp_remote_recv: "ts_remotes s r = Some rm \<Longrightarrow> rm_recv_io rm \<Longrightarrow> tcp_step net re mode s (tcp_remote_recv_cb env r s)"
| tcp_remote_send: "ts_remotes s r = Some rm \<Longrightarrow> rm_send_io rm \<Longrightarrow> tcp_step net re mode s (tcp_remote_send_cb net env r s)"
| tcp_timeout: "ts_servers s sv = Some server \<Longrightarrow> sv_watcher server \<Longrightarrow> tcp_step net re mode s (server_timeout_cb sv s)"
| tcp_answer: "ts_queries s q = Some query \<Longrightarrow> tcp_step net re mode s (tcp_dns_answered net re mode env q answer s)"
| tcp_clear: "tcp_step net re mode s (Done (block_list_clear_cb env s))"

inductive tcp_reach ::
  "net_lib \<Rightarrow> 're regex_lib \<Rightarrow> resolv_mode \<Rightarrow> ('e, 're) tcp_state \<Rightarrow> ('e, 're) tcp_state \<Rightarrow> bool"
  for net :: net_lib and re :: "'re regex_lib" and mode :: resolv_mode and s0 :: "('e, 're) tcp_state" where
  tcp_here: "tcp_reach net re mode s0 s0"
| tcp_more: "tcp_reach net re mode s0 s \<Longrightarrow> tcp_step net re mode s (Done s') \<Longrightarrow> tcp_reach net re mode s0 s'"

text \<open>The state before the first connection.\<close>

definition tcp_start :: "'e crypto \<Rightarrow> ('e, 're) tcp_state \<Rightarrow> bool" where
  "tcp_start cr s \<longleftrightarrow> ts_crypto s = cr \<and> globals_ok (ts_globals s) \<and> ts_servers s = Map.empty \<and> ts_remotes s = Map.empty \<and>
    ts_queries s = Map.empty \<and> ts_connections s = [] \<and> ts_trace s = []"

lemma start_inv: "tcp_start cr s \<Longrightarrow> tcp_inv cr rx tx s"
  by (simp add: tcp_start_def tcp_inv_def heap_inv_def silent_def)

context connection_cipher
begin

lemma step_keeps:
  assumes "valid p" "tcp_inv (crypto_of p) (rx_ok p) (tx_ok p) s" "tcp_step net re mode s out"
  shows "keeps (crypto_of p) (rx_ok p) (tx_ok p) out"
  using assms(3)
proof cases
  case tcp_clear
  then show ?thesis using assms(2) by (simp add: block_list_clear_cb_def tcp_inv_def)
next
  case tcp_accept
  then show ?thesis using accept_keeps [OF assms(1,2)] by simp
next
  case tcp_server_recv
  then show ?thesis using tcp_server_recv_keeps [OF assms(1,2)] by simp
next
  case tcp_server_send
  then show ?thesis using tcp_server_send_keeps [OF assms(2)] by simp
next
  case tcp_remote_recv
  then show ?thesis using tcp_remote_recv_keeps [OF assms(1,2)] by simp
next
  case tcp_remote_send
  then show ?thesis using tcp_remote_send_keeps [OF assms(2)] by simp
next
  case tcp_timeout
  then show ?thesis using server_timeout_keeps [OF assms(2)] by simp
next
  case tcp_answer
  then show ?thesis using dns_answered_keeps [OF assms(2)] by simp
qed

lemma reach_keeps:
  assumes "tcp_reach net re mode s0 s" "valid p" "tcp_inv (crypto_of p) (rx_ok p) (tx_ok p) s0"
  shows "tcp_inv (crypto_of p) (rx_ok p) (tx_ok p) s"
  using assms
proof induction
  case (tcp_more s s')
  then show ?case using step_keeps [of p s net re mode "Done s'"] by simp
qed

end


lemma aead_reach:
  assumes "aead_lib_ok lib keyed" "aead_cipher_ok ci" "tcp_start (aead_crypto lib ci) s0" "tcp_reach net re mode s0 s"
  shows "tcp_inv (aead_crypto lib ci) (aead_rx (lib, keyed, ci)) (aead_tx (lib, keyed, ci)) s"
  using aead_connections.reach_keeps [OF assms(4), of "(lib, keyed, ci)"] start_inv [OF assms(3)] assms(1,2) by simp

section \<open>Memory safety\<close>

text \<open>C38 (safety): memory safety of the TCP relay.  From every state that the event loop of a server with an AEAD
  cipher reaches, whatever clients, destinations, the resolver and the system calls answer, every callback returns:
  none uses a freed connection, remote or query, none reads or writes outside a buffer, and no assertion of the cipher
  code fails.\<close>

theorem tcp_memory_safe:
  assumes "aead_lib_ok lib keyed" "aead_cipher_ok ci" "tcp_start (aead_crypto lib ci) s0"
    and "tcp_reach net re mode s0 s" "tcp_step net re mode s out"
  shows "\<exists>s'. out = Done s'"
  using aead_connections.step_keeps [of "(lib, keyed, ci)" s net re mode out] aead_reach [OF assms(1-4)] assms(1,2,5)
  by (auto simp: keeps_def)

section \<open>Delivery\<close>

text \<open>C39 (roundtrip): both directions of a connection.  In every reachable state, if what a client has sent so far is
  the beginning of an AEAD stream of payloads \<open>ps\<close>, the payloads of all frames that have arrived completely are an
  address header followed by exactly the bytes that the relay has sent to the destination and those that it still
  holds for it; and what it has sent and still holds for the client is nothing, or the AEAD stream of exactly the bytes
  that the destination has sent.  No byte is lost, duplicated or reordered.\<close>

theorem tcp_delivery:
  assumes "aead_lib_ok lib keyed" "aead_cipher_ok ci" "tcp_start (aead_crypto lib ci) s0" "tcp_reach net re mode s0 s"
    and sv: "ts_servers s sv = Some server" "sv_remote server = Some r"
    and client: "frames lib keyed ci (session_key lib ci salt) 0 ps ws" "length salt = c_key_len ci"
      "from_client sv (ts_trace s) @ rest = salt @ concat ws"
  shows "(\<exists>rm n h. ts_remotes s r = Some rm \<and> n \<le> length ps \<and>
      (n < length ps \<longrightarrow> length (from_client sv (ts_trace s)) < length salt + length (concat (take (Suc n) ws))) \<and>
      tcp_header h \<and> concat (take n ps) = h @ to_remote r (ts_trace s) @ pending (rm_send_io rm) (rm_buf rm)) \<and>
    (\<exists>salt' qs us. length salt' = c_key_len ci \<and> frames lib keyed ci (session_key lib ci salt') 0 qs us \<and>
      from_remote sv (ts_trace s) = concat qs \<and>
      to_client sv (ts_trace s) @ pending (sv_send_io server) (sv_buf server) = (if qs = [] then [] else salt' @ concat us))"
proof -
  note inv = aead_reach [OF assms(1-4)]
  obtain rm where rm: "ts_remotes s r = Some rm" "joined sv server r rm (ts_trace s)"
      "sv_ok (aead_rx (lib, keyed, ci)) (aead_tx (lib, keyed, ci)) (ts_trace s) sv server"
      "cipher_of sv (ts_trace s) = to_client sv (ts_trace s) @ pending (sv_send_io server) (sv_buf server)"
    by (rule conn_remote [OF inv sv])
  obtain h where h: "tcp_header h" "plain_of sv (ts_trace s) = h @ to_remote r (ts_trace s) @ pending (rm_send_io rm) (rm_buf rm)"
    using rm(2) by (auto simp: joined_def)
  have ne: "plain_of sv (ts_trace s) \<noteq> []" using h by (auto simp: tcp_header_def)
  have rx: "aead_rx (lib, keyed, ci) (from_client sv (ts_trace s)) (plain_of sv (ts_trace s)) (sv_d_ctx server)"
    and tx: "aead_tx (lib, keyed, ci) (from_remote sv (ts_trace s)) (cipher_of sv (ts_trace s)) (sv_e_ctx server)"
    using rm(3) by (simp_all add: sv_ok_def del: aead_rx.simps aead_tx.simps)
  obtain n pend where n: "n \<le> length ps" "plain_of sv (ts_trace s) = concat (take n ps)"
      "from_client sv (ts_trace s) = salt @ concat (take n ws) @ pend" "n < length ps \<longrightarrow> length pend < length (ws ! n)"
    using aead_rxD [OF rx client(2,1,3)] ne by blast
  have lw: "length ps = length ws" using frames_length [OF client(1)] .
  have more: "n < length ps \<longrightarrow> length (from_client sv (ts_trace s)) < length salt + length (concat (take (Suc n) ws))"
    using n(3,4) lw by (simp add: take_Suc_conv_app_nth)
  have up: "\<exists>salt' qs us. length salt' = c_key_len ci \<and> frames lib keyed ci (session_key lib ci salt') 0 qs us \<and>
      from_remote sv (ts_trace s) = concat qs \<and> cipher_of sv (ts_trace s) = (if qs = [] then [] else salt' @ concat us)"
  proof (cases "from_remote sv (ts_trace s) = [] \<and> cipher_of sv (ts_trace s) = []")
    case True
    then show ?thesis by (intro exI [of _ "replicate (c_key_len ci) 0"] exI [of _ "[]"]) simp
  next
    case False
    then obtain salt' qs us where "qs \<noteq> []" "length salt' = c_key_len ci" "frames lib keyed ci (session_key lib ci salt') 0 qs us"
        "from_remote sv (ts_trace s) = concat qs" "cipher_of sv (ts_trace s) = salt' @ concat us"
      using tx unfolding aead_tx.simps by blast
    then show ?thesis by (intro exI [of _ salt'] exI [of _ qs] exI [of _ us]) simp
  qed
  have down: "concat (take n ps) = h @ to_remote r (ts_trace s) @ pending (rm_send_io rm) (rm_buf rm)" using n(2) h(2) by simp
  show ?thesis using up rm(1) n(1) more h(1) down unfolding rm(4) by blast
qed

section \<open>Shutdown\<close>

lemma obind_assoc: "obind (obind x f) g = obind x (\<lambda>y. obind (f y) g)"
  by (cases x) simp_all

lemma free_one:
  assumes inv: "tcp_inv cr rx tx s" and sv: "ts_servers s sv = Some server"
  obtains s' where "obind (tcp_close_and_free_server sv s) (tcp_close_and_free_remote (sv_remote server)) = Done s'" "tcp_inv cr rx tx s'"
    "ts_connections s' = removeAll sv (ts_connections s)"
proof -
  have t: "touched sv (sv_remote server) s s" using inv_globals [OF inv] by (simp add: touched_def)
  note c = inv_conn [OF inv sv]
  have rm: "\<exists>rm. ts_remotes s r = Some rm \<and> rm_server rm = Some sv" if "sv_remote server = Some r" for r
    using c that by (auto simp: conn_ok_def)
  obtain s1 where s1: "close_both (sv_remote server) sv s = Done s1" "tcp_inv cr rx tx s1"
    using close_both_keeps [OF inv sv t sv refl refl rm] by (auto simp: keeps_def)
  show thesis
  proof (cases "sv_remote server")
    case None
    have e: "obind (tcp_close_and_free_server sv s) (tcp_close_and_free_remote (sv_remote server)) = Done s1"
      using s1(1) None by (simp add: close_both_def tcp_close_and_free_remote_def split: outcome.splits)
    have "ts_connections s1 = removeAll sv (ts_connections s)"
      using s1(1) None sv by (auto simp: close_both_def tcp_close_and_free_remote_def tcp_close_and_free_server_def tcp_free_server_def heap_ops split: option.splits)
    then show thesis using that e s1(2) by blast
  next
    case (Some r)
    obtain x where x: "ts_remotes s r = Some x" "rm_server x = Some sv" using rm [OF Some] by blast
    have q: "sv_query server = None" using c Some by (simp add: conn_ok_def)
    let ?t = "s\<lparr>ts_connections := removeAll sv (ts_connections s), ts_servers := (ts_servers s)(sv := None), ts_remotes := (ts_remotes s)(r := None),
      ts_trace := ts_trace s @ [CloseServer sv, CloseRemote r]\<rparr>"
    have e: "obind (tcp_close_and_free_server sv s) (tcp_close_and_free_remote (sv_remote server)) = Done ?t"
      using x q Some sv by (simp add: tcp_close_and_free_remote_def tcp_free_remote_def tcp_close_and_free_server_def tcp_free_server_def heap_ops)
    have "heap_inv rx tx ((ts_servers s)(sv := None)) ((ts_remotes s)(r := None)) (ts_queries s) (ts_next s) (removeAll sv (ts_connections s))
        (ts_trace s @ [CloseServer sv, CloseRemote r])"
      using inv Some q sv by (intro drop_conn [where S = "ts_servers s"]) (auto simp: tcp_inv_def concerns_def)
    then show thesis using that [OF e] inv by (simp add: tcp_inv_def)
  qed
qed

lemma free_all:
  "tcp_inv cr rx tx s \<Longrightarrow> ts_connections s = svs \<Longrightarrow> \<exists>s'. tcp_free_connections svs s = Done s' \<and> tcp_inv cr rx tx s' \<and> ts_connections s' = []"
proof (induction svs arbitrary: s)
  case (Cons sv svs)
  have l: "distinct (sv # svs)" "set (sv # svs) = dom (ts_servers s)"
    using Cons.prems heap_lists(1,2) unfolding tcp_inv_def by metis+
  then obtain server where sv: "ts_servers s sv = Some server" by auto
  obtain s1 where s1: "obind (tcp_close_and_free_server sv s) (tcp_close_and_free_remote (sv_remote server)) = Done s1" "tcp_inv cr rx tx s1"
      "ts_connections s1 = removeAll sv (ts_connections s)"
    by (rule free_one [OF Cons.prems(1) sv])
  have "ts_connections s1 = svs" using s1(3) Cons.prems(2) l(1) by simp
  from Cons.IH [OF s1(2) this] show ?case using s1(1) sv
    by (auto simp: get_server_def simp flip: obind_assoc)
qed auto

text \<open>C40 (liveness): shutdown.  In every reachable state \<open>free_connections\<close> returns, and when it has, no connection and
  no remote is left, and every name query that is still open has been told that its connection is gone.\<close>

theorem tcp_shutdown:
  assumes "aead_lib_ok lib keyed" "aead_cipher_ok ci" "tcp_start (aead_crypto lib ci) s0" "tcp_reach net re mode s0 s"
  shows "\<exists>s'. free_connections s = Done s' \<and> ts_servers s' = Map.empty \<and> ts_remotes s' = Map.empty \<and> ts_connections s' = [] \<and>
    (\<forall>query \<in> ran (ts_queries s'). qy_server (rq_data query) = None)"
proof -
  obtain s' where s': "free_connections s = Done s'" "tcp_inv (aead_crypto lib ci) (aead_rx (lib, keyed, ci)) (aead_tx (lib, keyed, ci)) s'" "ts_connections s' = []"
    using free_all [OF aead_reach [OF assms] refl] by (auto simp: free_connections_def)
  note h = s'(2) [unfolded tcp_inv_def, THEN conjunct2, THEN conjunct2]
  have S: "ts_servers s' = Map.empty" using heap_lists(2) [OF h] s'(3) by auto
  then have R: "ts_remotes s' = Map.empty" using heap_links(1) [OF h] by (auto simp: fun_eq_iff) (metis option.exhaust)
  have "qy_server (rq_data query) = None" if "query \<in> ran (ts_queries s')" for query
    using that heap_links(2) [OF h] S by (cases "qy_server (rq_data query)") (auto simp: ran_def)
  then show ?thesis using s'(1,3) S R by blast
qed


section \<open>A run\<close>

text \<open>A client connects and sends the request for 127.0.0.1:80 with one byte of payload; the relay accepts the
  connection and connects to the destination.\<close>

definition re_demo :: "unit regex_lib" where "re_demo = \<lparr>pcre_compile = (\<lambda>_. None), pcre_exec = (\<lambda>_ _. 0)\<rparr>"

definition tcp_demo :: "(bytes \<times> bytes \<times> nat, unit) tcp_state" where
  "tcp_demo = \<lparr>ts_crypto = aead_crypto lib_demo chacha_demo, ts_globals = globals_demo, ts_servers = Map.empty, ts_remotes = Map.empty,
     ts_queries = Map.empty, ts_next = 0, ts_connections = [], ts_block_list = init_block_list True, ts_acl = None, ts_plugin = False,
     ts_bind_address = None, ts_fast_open = False, ts_tx = 0, ts_rx = 0, ts_trace = []\<rparr>"

definition tenv_demo :: "bytes \<Rightarrow> tcp_env" where
  "tenv_demo bs = \<lparr>te_recv = Received bs, te_send = SendAgain, te_fast = FastError, te_socket = 6, te_bind = (\<lambda>_. 0), te_connect = True,
     te_peer = (\<lambda>_. None), te_now = 1, te_later = 1, te_malloc = True, te_calloc = True, te_random = replicate 32 9\<rparr>"

definition request_demo :: bytes where "request_demo = [1, 127, 0, 0, 1, 0, 80, 42]"

lemma tcp_demo_start: "tcp_start (aead_crypto lib_demo chacha_demo) tcp_demo"
  using globals_demo_ok by (simp add: tcp_start_def tcp_demo_def)

definition conn_demo :: "(bytes \<times> bytes \<times> nat) tcp_server" where
  "conn_demo = \<lparr>sv_fd = 5, sv_stage = STAGE_INIT, sv_frag = 0, sv_buf = balloc BUF_SIZE,
     sv_e_ctx = aead_ctx_init lib_demo (replicate 32 9) chacha_demo True, sv_d_ctx = aead_ctx_init lib_demo (replicate 32 9) chacha_demo False,
     sv_recv_io = True, sv_send_io = False, sv_watcher = True, sv_remote = None, sv_query = None\<rparr>"

definition accepted_demo :: "(bytes \<times> bytes \<times> nat, unit) tcp_state" where
  "accepted_demo = tcp_demo\<lparr>ts_servers := [0 \<mapsto> conn_demo], ts_next := 1, ts_connections := [0], ts_trace := [Accepted 0]\<rparr>"

lemma accept_demo: "accept_cb net_demo re_demo (tenv_demo bs) 5 tcp_demo = Done accepted_demo"
  by (simp add: accept_cb_def admit_def get_peer_name_def tenv_demo_def tcp_new_server_def Let_def heap_ops tcp_demo_def accepted_demo_def conn_demo_def
      aead_crypto_def)

lemma demo_reach:
  "tcp_reach net_demo re_demo mode tcp_demo accepted_demo"
  using tcp_more [OF tcp_here tcp_accept [of net_demo re_demo mode tcp_demo "tenv_demo []" 5, unfolded accept_demo]] .

lemma demo_request:
  obtains ws s server where "frames lib_demo (\<lambda>e k. fst e = k) chacha_demo (session_key lib_demo chacha_demo (replicate 32 7)) 0 [request_demo] ws"
    "tcp_reach net_demo re_demo mode tcp_demo s" "ts_servers s 0 = Some server" "sv_remote server = Some 1"
    "from_client 0 (ts_trace s) = replicate 32 7 @ concat ws"
proof -
  have g: "length (replicate 32 (7 :: byte)) = c_key_len chacha_demo" by (simp add: chacha_demo_def)
  obtain ws where ws: "frames lib_demo (\<lambda>e k. fst e = k) chacha_demo (session_key lib_demo chacha_demo (replicate 32 7)) 0 [request_demo] ws"
    using aead_send_frames [OF lib_demo_aead_ok chacha_demo_ok globals_demo_ok g, of "[request_demo]" 64]
    by (auto simp: request_demo_def payload_ok_def CHUNK_SIZE_MASK_def)
  obtain w where w: "ws = [w]" "frame lib_demo (\<lambda>e k. fst e = k) chacha_demo (session_key lib_demo chacha_demo (replicate 32 7)) 0 request_demo w"
    using ws by (cases ws; cases "tl ws") auto
  let ?bs = "replicate 32 7 @ w"
  have lw: "length w = 42" using frame_length [OF w(2)] by (simp add: request_demo_def)
  have bok: "buffer_ok (sv_buf conn_demo)" "BUF_SIZE \<le> bcap (sv_buf conn_demo)" by (simp_all add: conn_demo_def balloc_def buffer_ok_def)
  obtain b1 where b1: "recv_into ?bs (sv_buf conn_demo) = Done b1" "buffer_ok b1" "bcap b1 = bcap (sv_buf conn_demo)" "bcontent b1 = ?bs" "bidx b1 = bidx (sv_buf conn_demo)"
    by (rule recv_into_ok [OF bok, of ?bs]) (use lw in \<open>simp_all add: BUF_SIZE_def\<close>)
  have rx: "rx_waiting lib_demo chacha_demo [] (sv_d_ctx conn_demo)"
    using aead_ctx_init_fresh(1,2) [OF chacha_demo_ok, where lib = lib_demo and random = "replicate 32 9" and enc = False]
    by (simp add: rx_waiting_def chunk_of_def conn_demo_def)
  obtain n ret g' b' x' pend where d: "aead_decrypt lib_demo True globals_demo b1 (sv_d_ctx conn_demo) BUF_SIZE = (ret, g', b', x')"
      "n \<le> length [request_demo]" "ret = (if n = 0 then CRYPTO_NEED_MORE else CRYPTO_OK)" "ret = CRYPTO_OK \<longrightarrow> bcontent b' = concat (take n [request_demo])"
      "pend @ [] = concat (drop n ws)" "n < length [request_demo] \<longrightarrow> length pend < length (ws ! n)"
    using aead_decrypt_start [OF lib_demo_aead_ok chacha_demo_ok rx globals_demo_ok b1(2) g _ _ _ ws, of "[]" BUF_SIZE] b1(4) w(1) lw g
    by (auto simp: globals_demo_fresh)
  have n: "n = 1" using d(2,5,6) w(1) by (cases n) auto
  have ok: "ret = CRYPTO_OK" "bcontent b' = request_demo" using d(3,4) n by simp_all
  have b': "buffer_ok b'" "BUF_SIZE \<le> bcap b'" "bidx b' = 0"
    using aead_decrypt_memory_ok [OF lib_demo_aead_ok _ globals_demo_ok b1(2) d(1)] aead_decrypt_buffer [OF d(1)] ctx_init_wf [OF chacha_demo_ok] b1(3,5) bok(2)
    by (auto simp: conn_demo_def balloc_def)
  have bl: "blen b' = 8" using arg_cong [OF ok(2), of length] b'(1) by (simp add: request_demo_def)
  define y where "y = drop 8 (bdata b')"
  have dat: "bdata b' = request_demo @ y" using ok(2) bl append_take_drop_id [of 8 "bdata b'"] by (simp add: bcontent_def y_def)
  have parse: "parse_tcp_request net_demo re_demo None (request_demo @ y) 8 = Some (Target (sa_in [127, 0, 0, 1] [0, 80]) 7)"
    by (simp add: parse_tcp_request_def rd_n_simps request_demo_def ADDRTYPE_MASK_def)
  have lb: "8 \<le> bcap b'" using b'(2) by (simp add: BUF_SIZE_def)
  have "1 \<le> length (bdata (brealloc (balloc BUF_SIZE) 1 BUF_SIZE))" by (simp add: brealloc_cap brealloc_cap_data)
  then have room: "bdata (brealloc (balloc BUF_SIZE) (Suc 0) BUF_SIZE) \<noteq> []" by (metis One_nat_def list.size(3) not_one_le_zero)
  have "\<exists>s server. tcp_server_recv_cb net_demo re_demo (tenv_demo ?bs) 0 accepted_demo = Done s \<and> ts_servers s 0 = Some server \<and> sv_remote server = Some 1 \<and>
      from_client 0 (ts_trace s) = ?bs"
    using d(1) ok(1) b1(1,4) parse bl dat b'(1,3) lb room
    by (simp add: tcp_server_recv_cb_def handle_request_def connect_to_remote_def tcp_new_remote_def attach_remote_def remove_header_def drop_header_def heap_ops Let_def
        accepted_demo_def tcp_demo_def tenv_demo_def aead_crypto_def conn_demo_def buffer_ok_def)
  then obtain s server where s: "tcp_server_recv_cb net_demo re_demo (tenv_demo ?bs) 0 accepted_demo = Done s" "ts_servers s 0 = Some server"
      "sv_remote server = Some 1" "from_client 0 (ts_trace s) = ?bs" by blast
  have "tcp_step net_demo re_demo mode accepted_demo (tcp_server_recv_cb net_demo re_demo (tenv_demo ?bs) 0 accepted_demo)"
    by (rule tcp_server_recv [where server = conn_demo]) (simp_all add: accepted_demo_def conn_demo_def tenv_demo_def)
  then have "tcp_reach net_demo re_demo mode tcp_demo s" using tcp_more [OF demo_reach] s(1) by simp
  then show thesis using that [OF ws] s(2-4) w(1) by simp
qed

theorem tcp_delivery_witness:
  "\<exists>s ws n h rm. tcp_reach net_demo re_demo MODE_IPV4_FIRST tcp_demo s \<and> from_client 0 (ts_trace s) = replicate 32 7 @ concat ws \<and>
    ts_remotes s 1 = Some rm \<and> tcp_header h \<and> concat (take n [request_demo]) = h @ to_remote 1 (ts_trace s) @ pending (rm_send_io rm) (rm_buf rm)"
proof -
  obtain ws s server where s: "frames lib_demo (\<lambda>e k. fst e = k) chacha_demo (session_key lib_demo chacha_demo (replicate 32 7)) 0 [request_demo] ws"
    "tcp_reach net_demo re_demo MODE_IPV4_FIRST tcp_demo s" "ts_servers s 0 = Some server" "sv_remote server = Some 1"
    "from_client 0 (ts_trace s) = replicate 32 7 @ concat ws" by (rule demo_request)
  have r: "from_client 0 (ts_trace s) @ [] = replicate 32 7 @ concat ws" using s(5) by simp
  from tcp_delivery [OF lib_demo_aead_ok chacha_demo_ok tcp_demo_start s(2-4,1) _ r] s(2,5) chacha_demo_key_len show ?thesis by auto
qed

theorem tcp_memory_safe_witness:
  "\<exists>s'. tcp_server_recv_cb net_demo re_demo (tenv_demo [1, 2, 3]) 0 accepted_demo = Done s'"
proof -
  have "tcp_step net_demo re_demo MODE_IPV4_FIRST accepted_demo (tcp_server_recv_cb net_demo re_demo (tenv_demo [1, 2, 3]) 0 accepted_demo)"
    by (rule tcp_server_recv [where server = conn_demo]) (simp_all add: accepted_demo_def conn_demo_def tenv_demo_def)
  then show ?thesis by (rule tcp_memory_safe [OF lib_demo_aead_ok chacha_demo_ok tcp_demo_start demo_reach])
qed

theorem tcp_shutdown_witness:
  "ts_servers accepted_demo \<noteq> Map.empty \<and> (\<exists>s'. free_connections accepted_demo = Done s' \<and> ts_servers s' = Map.empty)"
  using tcp_shutdown [OF lib_demo_aead_ok chacha_demo_ok tcp_demo_start demo_reach] by (auto simp: accepted_demo_def)

end
