(* ===== verification/Json.thy ===== *)
theory Json
  imports Prelude
begin

text \<open>
  \<open>shadowsocks-libev/src/json.c\<close>: the parser behind the configuration file.  It reads the text twice with the same loop:
  the first pass allocates a \<open>json_value\<close> for every value, chained by \<open>next_alloc\<close>, and counts members, elements and
  characters; the second walks the chain, allocates each array, member table and string with the size counted, and
  fills them in.  Values and the memory they point at are two maps from numbers, \<open>js_values\<close> and \<open>js_blocks\<close>; what is not in
  a map has been freed, and using it, or leaving an allocated block or the text, is \<open>Crash\<close>.  \<open>jx_malloc n\<close> says whether
  the \<open>n\<close>-th allocation succeeds.
\<close>

section \<open>Data\<close>

datatype json_type =
  json_object | json_array | json_integer | json_double | json_string | json_boolean | json_null

text \<open>A \<open>double\<close> is kept as the floating-point expression that computes it: \<open>(double) i\<close>, \<open>d + f / pow (10, n)\<close>,
  \<open>d * pow (10, e)\<close>, \<open>- d\<close>.\<close>

datatype json_dbl = Of_int "64 word" | Add_fraction json_dbl "64 word" nat | Scale json_dbl "64 word" | Negate json_dbl

text \<open>The pointer members \<open>string.ptr\<close>, \<open>object.values\<close> and \<open>array.values\<close> share their place in the union, as the three
  \<open>length\<close> members do.  In the first pass the pointer of an object is used as a number: the space its names need.
  \<open>Counter 0\<close> is the null pointer.  \<open>object_mem\<close> points into the characters behind the members of its block.\<close>

datatype json_ptr = Counter nat | Mem nat

datatype json_reserved = Next_alloc "nat option" | Object_mem nat nat

record json_value =
  jv_parent :: "nat option"
  jv_type :: json_type
  jv_boolean :: bool
  jv_integer :: "64 word"
  jv_dbl :: json_dbl
  jv_length :: nat
  jv_ptr :: json_ptr
  jv_reserved :: json_reserved

record json_object_entry =
  je_name :: "nat option"
  je_name_length :: "nat option"
  je_value :: "nat option"

text \<open>A block is indeterminate, \<open>None\<close>, until it is written.\<close>

datatype json_block =
  Chars "byte option list" | Pointers "nat option list" | Members "json_object_entry list" "byte option list"

datatype json_flag =
  flag_next | flag_reproc | flag_need_comma | flag_seek_value | flag_escaped | flag_string | flag_need_colon | flag_done
| flag_num_negative | flag_num_zero | flag_num_e | flag_num_e_got_sign | flag_num_e_negative | flag_line_comment
| flag_block_comment

datatype json_error =
  Unexpected_EOF_in_string | Invalid_character_value | Unexpected_EOF_in_block_comment | Comment_not_allowed_here
| EOF_unexpected | Unexpected_in_comment_opening | Trailing_garbage | Unexpected_bracket | Expected_comma_before
| Expected_colon_before | Unexpected_when_seeking_value | Expected_comma_before_quote | Unexpected_in_object
| Unexpected_0_before | Expected_digit_before_point | Expected_digit_after_point | Expected_digit_after_e
| Unknown_value | Memory_allocation_failure | Too_long

text \<open>The local variables of \<open>json_parse_ex\<close> and the memory it allocates.  \<open>cur_col\<close> is left out: the code only ever
  sets it to zero.\<close>

record json_state =
  js_used_memory :: nat
  js_first_pass :: bool
  js_ptr :: int
  js_cur_line :: "32 word"
  js_flags :: "json_flag set"
  js_num_digits :: nat
  js_num_e :: "64 word"
  js_num_fraction :: "64 word"
  js_top :: "nat option"
  js_root :: "nat option"
  js_alloc :: "nat option"
  js_string :: "(nat \<times> nat) option"
  js_string_length :: nat
  js_values :: "nat \<rightharpoonup> json_value"
  js_blocks :: "nat \<rightharpoonup> json_block"
  js_next :: nat

record json_env =
  jx_json :: bytes
  jx_end :: int
  jx_comments :: bool
  jx_max_memory :: nat
  jx_malloc :: "nat \<Rightarrow> bool"

text \<open>How a piece of the loop body ends: the code after it runs, the next iteration starts, the pass is over, the
  function fails with a message, or its behaviour is undefined.\<close>

datatype json_flow = Proceed json_state | Continue json_state | Break json_state | Fail json_error json_state | Crash

fun json_then :: "json_flow \<Rightarrow> (json_state \<Rightarrow> json_flow) \<Rightarrow> json_flow" where
  "json_then (Proceed s) f = f s"
| "json_then r f = r"

definition uint_max :: nat where "uint_max = 4294967287"
definition ulong_max :: nat where "ulong_max = 18446744073709551607"

section \<open>Memory\<close>

definition json_peek :: "bytes \<Rightarrow> int \<Rightarrow> byte option" where
  "json_peek json p = (if 0 \<le> p \<and> p < int (length json) then Some (json ! nat p) else None)"

definition on_value :: "nat option \<Rightarrow> json_state \<Rightarrow> (nat \<Rightarrow> json_value \<Rightarrow> json_flow) \<Rightarrow> json_flow" where
  "on_value p s f =
    (case p of Some a \<Rightarrow> (case js_values s a of Some v \<Rightarrow> f a v | None \<Rightarrow> Crash) | None \<Rightarrow> Crash)"

definition set_value :: "nat \<Rightarrow> json_value \<Rightarrow> json_state \<Rightarrow> json_state" where
  "set_value a v s = s\<lparr>js_values := (js_values s)(a \<mapsto> v)\<rparr>"

definition set_block :: "nat \<Rightarrow> json_block \<Rightarrow> json_state \<Rightarrow> json_state" where
  "set_block b blk s = s\<lparr>js_blocks := (js_blocks s)(b \<mapsto> blk)\<rparr>"

definition set_flags :: "json_flag set \<Rightarrow> json_state \<Rightarrow> json_state" where
  "set_flags fs s = s\<lparr>js_flags := fs\<rparr>"

definition json_alloc :: "json_env \<Rightarrow> nat \<Rightarrow> json_state \<Rightarrow> (nat \<times> json_state) option" where
  "json_alloc env sz s =
    (if ulong_max - js_used_memory s < sz then None
     else if jx_max_memory env \<noteq> 0 \<and> js_used_memory s + sz > jx_max_memory env then None
     else if \<not> jx_malloc env (js_next s) then None
     else Some (js_next s,
       s\<lparr>js_next := js_next s + 1,
         js_used_memory := (if jx_max_memory env \<noteq> 0 then js_used_memory s + sz else js_used_memory s)\<rparr>))"

text \<open>A store of a character through a pointer into a block.\<close>

definition json_poke :: "(nat \<times> nat) option \<Rightarrow> nat \<Rightarrow> byte \<Rightarrow> json_state \<Rightarrow> json_flow" where
  "json_poke p i b s =
    (case p of
       None \<Rightarrow> Crash
     | Some (blk, off) \<Rightarrow>
         (case js_blocks s blk of
            Some (Chars cs) \<Rightarrow>
              if off + i < length cs then Proceed (set_block blk (Chars (cs[off + i := Some b])) s) else Crash
          | Some (Members es cs) \<Rightarrow>
              if off + i < length cs then Proceed (set_block blk (Members es (cs[off + i := Some b])) s) else Crash
          | _ \<Rightarrow> Crash))"

section \<open>New values\<close>

definition SIZEOF_JSON_VALUE :: nat where "SIZEOF_JSON_VALUE = 40"
definition SIZEOF_JSON_OBJECT_ENTRY :: nat where "SIZEOF_JSON_OBJECT_ENTRY = 24"
definition SIZEOF_POINTER :: nat where "SIZEOF_POINTER = 8"

definition blank_value :: "json_type \<Rightarrow> nat option \<Rightarrow> json_value" where
  "blank_value t p = \<lparr>jv_parent = p, jv_type = t, jv_boolean = False, jv_integer = 0, jv_dbl = Of_int 0,
                      jv_length = 0, jv_ptr = Counter 0, jv_reserved = Next_alloc None\<rparr>"

definition blank_entry :: json_object_entry where
  "blank_entry = \<lparr>je_name = None, je_name_length = None, je_value = None\<rparr>"

definition root_or :: "nat \<Rightarrow> nat option \<Rightarrow> nat option" where
  "root_or a r = (case r of None \<Rightarrow> Some a | Some r \<Rightarrow> Some r)"

text \<open>The second pass takes the next value of the chain, whatever its \<open>type\<close> argument, and gives it memory.  The size of a
  member table passes through the \<open>int\<close> variable \<open>values_size\<close>; a size it cannot hold is \<open>Crash\<close>.\<close>

definition json_alloc_memory :: "json_env \<Rightarrow> nat \<Rightarrow> json_value \<Rightarrow> json_state \<Rightarrow> json_flow" where
  "json_alloc_memory env a v s =
    (case jv_type v of
       json_array \<Rightarrow>
         if jv_length v = 0 then Proceed s
         else (case json_alloc env (jv_length v * SIZEOF_POINTER) s of
                 None \<Rightarrow> Fail Memory_allocation_failure (set_value a (v\<lparr>jv_ptr := Counter 0\<rparr>) s)
               | Some (b, s) \<Rightarrow>
                   Proceed (set_value a (v\<lparr>jv_ptr := Mem b, jv_length := 0\<rparr>)
                     (set_block b (Pointers (replicate (jv_length v) None)) s)))
     | json_object \<Rightarrow>
         if jv_length v = 0 then Proceed s
         else if SIZEOF_JSON_OBJECT_ENTRY * jv_length v \<ge> 2 ^ 31 then Crash
         else (case jv_ptr v of
                 Mem _ \<Rightarrow> Crash
               | Counter n \<Rightarrow>
                   (case json_alloc env (SIZEOF_JSON_OBJECT_ENTRY * jv_length v + n) s of
                      None \<Rightarrow> Fail Memory_allocation_failure (set_value a (v\<lparr>jv_ptr := Counter 0\<rparr>) s)
                    | Some (b, s) \<Rightarrow>
                        Proceed (set_value a (v\<lparr>jv_ptr := Mem b, jv_reserved := Object_mem b 0, jv_length := 0\<rparr>)
                          (set_block b (Members (replicate (jv_length v) blank_entry) (replicate n None)) s))))
     | json_string \<Rightarrow>
         (case json_alloc env (jv_length v + 1) s of
            None \<Rightarrow> Fail Memory_allocation_failure (set_value a (v\<lparr>jv_ptr := Counter 0\<rparr>) s)
          | Some (b, s) \<Rightarrow>
              Proceed (set_value a (v\<lparr>jv_ptr := Mem b, jv_length := 0\<rparr>)
                (set_block b (Chars (replicate (jv_length v + 1) None)) s)))
     | _ \<Rightarrow> Proceed s)"

definition new_value :: "json_env \<Rightarrow> json_type \<Rightarrow> json_state \<Rightarrow> json_flow" where
  "new_value env t s =
    (if \<not> js_first_pass s
     then on_value (js_alloc s) s (\<lambda>a v.
       (case jv_reserved v of
          Object_mem _ _ \<Rightarrow> Crash
        | Next_alloc nxt \<Rightarrow>
            json_alloc_memory env a v
              (s\<lparr>js_top := Some a, js_alloc := nxt, js_root := root_or a (js_root s)\<rparr>)))
     else (case json_alloc env SIZEOF_JSON_VALUE s of
             None \<Rightarrow> Fail Memory_allocation_failure s
           | Some (a, s) \<Rightarrow>
               let s = set_value a (blank_value t (js_top s)) (s\<lparr>js_root := root_or a (js_root s)\<rparr>)
               in json_then (case js_alloc s of
                               None \<Rightarrow> Proceed s
                             | Some l \<Rightarrow> on_value (Some l) s (\<lambda>l v.
                                 Proceed (set_value l (v\<lparr>jv_reserved := Next_alloc (Some a)\<rparr>) s)))
                  (\<lambda>s. Proceed (s\<lparr>js_alloc := Some a, js_top := Some a\<rparr>))))"

section \<open>Reading characters\<close>

definition json_isdigit :: "byte \<Rightarrow> bool" where
  "json_isdigit b \<longleftrightarrow> chr CHR ''0'' \<le> b \<and> b \<le> chr CHR ''9''"

definition json_hex_value :: "byte \<Rightarrow> byte" where
  "json_hex_value c =
    (if json_isdigit c then c - chr CHR ''0''
     else if c = chr CHR ''a'' \<or> c = chr CHR ''A'' then 0x0A
     else if c = chr CHR ''b'' \<or> c = chr CHR ''B'' then 0x0B
     else if c = chr CHR ''c'' \<or> c = chr CHR ''C'' then 0x0C
     else if c = chr CHR ''d'' \<or> c = chr CHR ''D'' then 0x0D
     else if c = chr CHR ''e'' \<or> c = chr CHR ''E'' then 0x0E
     else if c = chr CHR ''f'' \<or> c = chr CHR ''F'' then 0x0F
     else 0xFF)"

text \<open>A look at the characters after \<open>ptr\<close> sees what is expected, or something else, or leaves the memory.\<close>

datatype 'a json_scan = Scanned 'a | Mismatch | Beyond

fun scan_then :: "'a json_scan \<Rightarrow> ('a \<Rightarrow> 'b json_scan) \<Rightarrow> 'b json_scan" where
  "scan_then (Scanned x) f = f x"
| "scan_then Mismatch f = Mismatch"
| "scan_then Beyond f = Beyond"

definition json_hex :: "bytes \<Rightarrow> int \<Rightarrow> byte json_scan" where
  "json_hex json p =
    (case json_peek json p of
       None \<Rightarrow> Beyond
     | Some c \<Rightarrow> if json_hex_value c = 0xFF then Mismatch else Scanned (json_hex_value c))"

text \<open>Four hexadecimal digits behind \<open>p\<close>.\<close>

definition json_hex4 :: "bytes \<Rightarrow> int \<Rightarrow> 32 word json_scan" where
  "json_hex4 json p =
    scan_then (json_hex json (p + 1)) (\<lambda>b1.
    scan_then (json_hex json (p + 2)) (\<lambda>b2.
    scan_then (json_hex json (p + 3)) (\<lambda>b3.
    scan_then (json_hex json (p + 4)) (\<lambda>b4.
      let uc_b1 = (push_bit 4 b1 :: byte) OR b2; uc_b2 = (push_bit 4 b3 :: byte) OR b4
      in Scanned (push_bit 8 (ucast uc_b1) OR ucast uc_b2)))))"

fun json_expect :: "bytes \<Rightarrow> int \<Rightarrow> bytes \<Rightarrow> unit json_scan" where
  "json_expect json p [] = Scanned ()"
| "json_expect json p (c # cs) =
    (case json_peek json (p + 1) of
       None \<Rightarrow> Beyond
     | Some b \<Rightarrow> if b \<noteq> c then Mismatch else json_expect json (p + 1) cs)"

text \<open>The character of a \<open>\u\<close> escape whose \<open>u\<close> is at \<open>p\<close>, and the position of its last digit.\<close>

definition json_unicode :: "bytes \<Rightarrow> int \<Rightarrow> int \<Rightarrow> (32 word \<times> int) json_scan" where
  "json_unicode json stop p =
    (if stop - p < 4 then Mismatch
     else scan_then (json_hex4 json p) (\<lambda>uchar.
       if uchar AND 0xF800 = 0xD800
       then if stop - (p + 4) < 6 then Mismatch
            else scan_then (json_expect json (p + 4) (cstr [CHR 0x5C, CHR ''u''])) (\<lambda>_.
                 scan_then (json_hex4 json (p + 6)) (\<lambda>uchar2.
                   Scanned (0x010000 OR push_bit 10 (uchar AND 0x3FF) OR (uchar2 AND 0x3FF), p + 10)))
       else Scanned (uchar, p + 4)))"

definition json_utf8 :: "32 word \<Rightarrow> bytes" where
  "json_utf8 u =
    (if u \<le> 0x7F then [ucast u]
     else if u \<le> 0x7FF then [ucast (0xC0 OR drop_bit 6 u), ucast (0x80 OR (u AND 0x3F))]
     else if u \<le> 0xFFFF then
       [ucast (0xE0 OR drop_bit 12 u), ucast (0x80 OR (drop_bit 6 u AND 0x3F)), ucast (0x80 OR (u AND 0x3F))]
     else
       [ucast (0xF0 OR drop_bit 18 u), ucast (0x80 OR (drop_bit 12 u AND 0x3F)),
        ucast (0x80 OR (drop_bit 6 u AND 0x3F)), ucast (0x80 OR (u AND 0x3F))])"

section \<open>Strings\<close>

definition string_add :: "byte \<Rightarrow> json_state \<Rightarrow> json_flow" where
  "string_add b s =
    json_then (if js_first_pass s then Proceed s else json_poke (js_string s) (js_string_length s) b s)
      (\<lambda>s. Proceed (s\<lparr>js_string_length := js_string_length s + 1\<rparr>))"

primrec string_adds :: "bytes \<Rightarrow> json_state \<Rightarrow> json_flow" where
  "string_adds [] s = Proceed s"
| "string_adds (b # bs) s = json_then (string_add b s) (string_adds bs)"

definition json_escape :: "json_env \<Rightarrow> byte \<Rightarrow> json_state \<Rightarrow> json_flow" where
  "json_escape env b s =
    (if b = chr CHR ''b'' then string_add 8 s
     else if b = chr CHR ''f'' then string_add 12 s
     else if b = chr CHR ''n'' then string_add 10 s
     else if b = chr CHR ''r'' then string_add 13 s
     else if b = chr CHR ''t'' then string_add 9 s
     else if b = chr CHR ''u'' then
       (case json_unicode (jx_json env) (jx_end env) (js_ptr s) of
          Beyond \<Rightarrow> Crash
        | Mismatch \<Rightarrow> Fail Invalid_character_value s
        | Scanned (uchar, p) \<Rightarrow> string_adds (json_utf8 uchar) (s\<lparr>js_ptr := p\<rparr>))
     else string_add b s)"

definition json_name_done :: "nat \<Rightarrow> json_value \<Rightarrow> json_state \<Rightarrow> json_flow" where
  "json_name_done a v s =
    (if js_first_pass s
     then (case jv_ptr v of
             Counter n \<Rightarrow> Proceed (set_value a (v\<lparr>jv_ptr := Counter (n + js_string_length s + 1)\<rparr>) s)
           | Mem _ \<Rightarrow> Crash)
     else (case (jv_ptr v, jv_reserved v) of
             (Mem b, Object_mem b' off) \<Rightarrow>
               (case js_blocks s b of
                  Some (Members es cs) \<Rightarrow>
                    if jv_length v < length es
                    then Proceed (set_value a (v\<lparr>jv_reserved := Object_mem b' (off + js_string_length s + 1)\<rparr>)
                           (set_block b (Members (es[jv_length v := (es ! jv_length v)
                              \<lparr>je_name := Some off, je_name_length := Some (js_string_length s)\<rparr>]) cs) s))
                    else Crash
                | _ \<Rightarrow> Crash)
           | _ \<Rightarrow> Crash))"

definition json_end_string :: "json_state \<Rightarrow> json_flow" where
  "json_end_string s =
    json_then (if js_first_pass s then Proceed s else json_poke (js_string s) (js_string_length s) 0 s) (\<lambda>s.
    let s = (set_flags (js_flags s - {flag_string}) s)\<lparr>js_string := None\<rparr>
    in on_value (js_top s) s (\<lambda>a v.
       case jv_type v of
         json_string \<Rightarrow>
           Proceed (set_flags (insert flag_next (js_flags s)) (set_value a (v\<lparr>jv_length := js_string_length s\<rparr>) s))
       | json_object \<Rightarrow>
           json_then (json_name_done a v s) (\<lambda>s.
             Continue (set_flags (js_flags s \<union> {flag_seek_value, flag_need_colon}) s))
       | _ \<Rightarrow> Proceed s))"

definition json_in_string :: "json_env \<Rightarrow> byte \<Rightarrow> json_state \<Rightarrow> json_flow" where
  "json_in_string env b s =
    (if flag_string \<notin> js_flags s then Proceed s
     else if b = 0 then Fail Unexpected_EOF_in_string s
     else if js_string_length s > uint_max then Fail Too_long s
     else if flag_escaped \<in> js_flags s then
       json_then (json_escape env b (set_flags (js_flags s - {flag_escaped}) s)) Continue
     else if b = chr CHR 0x5C then Continue (set_flags (insert flag_escaped (js_flags s)) s)
     else if b = chr CHR 0x22 then json_end_string s
     else json_then (string_add b s) Continue)"

section \<open>Comments, white space and the end of the text\<close>

definition json_whitespace :: "byte \<Rightarrow> bool" where
  "json_whitespace b \<longleftrightarrow> b \<in> {10, 32, 9, 13}"

definition json_count_line :: "byte \<Rightarrow> json_state \<Rightarrow> json_state" where
  "json_count_line b s = (if b = 10 then s\<lparr>js_cur_line := js_cur_line s + 1\<rparr> else s)"

definition json_open_comment :: "json_env \<Rightarrow> json_state \<Rightarrow> json_flow" where
  "json_open_comment env s =
    json_then (if js_flags s \<inter> {flag_seek_value, flag_done} = {}
               then on_value (js_top s) s (\<lambda>_ v.
                      if jv_type v \<noteq> json_object then Fail Comment_not_allowed_here s else Proceed s)
               else Proceed s) (\<lambda>s.
    let s = s\<lparr>js_ptr := js_ptr s + 1\<rparr>
    in if js_ptr s = jx_end env then Fail EOF_unexpected s
       else (case json_peek (jx_json env) (js_ptr s) of
               None \<Rightarrow> Crash
             | Some b \<Rightarrow>
                 if b = chr CHR ''/'' then Continue (set_flags (insert flag_line_comment (js_flags s)) s)
                 else if b = chr CHR ''*'' then Continue (set_flags (insert flag_block_comment (js_flags s)) s)
                 else Fail Unexpected_in_comment_opening s))"

definition json_comment :: "json_env \<Rightarrow> byte \<Rightarrow> json_state \<Rightarrow> json_flow" where
  "json_comment env b s =
    (if \<not> jx_comments env then Proceed s
     else if flag_line_comment \<in> js_flags s then
       Continue (if b = 13 \<or> b = 10 \<or> b = 0
                 then (set_flags (js_flags s - {flag_line_comment}) s)\<lparr>js_ptr := js_ptr s - 1\<rparr> else s)
     else if flag_block_comment \<in> js_flags s then
       if b = 0 then Fail Unexpected_EOF_in_block_comment s
       else if b = chr CHR ''*'' \<and> js_ptr s < jx_end env - 1 then
         (case json_peek (jx_json env) (js_ptr s + 1) of
            None \<Rightarrow> Crash
          | Some c \<Rightarrow>
              Continue (if c = chr CHR ''/''
                        then (set_flags (js_flags s - {flag_block_comment}) s)\<lparr>js_ptr := js_ptr s + 1\<rparr> else s))
       else Continue s
     else if b = chr CHR ''/'' then json_open_comment env s
     else Proceed s)"

definition json_after_root :: "byte \<Rightarrow> json_state \<Rightarrow> json_flow" where
  "json_after_root b s =
    (if flag_done \<notin> js_flags s then Proceed s
     else if b = 0 then Break s
     else if json_whitespace b then Continue (json_count_line b s)
     else Fail Trailing_garbage s)"

section \<open>The start of a value\<close>

definition json_number_char :: "byte \<Rightarrow> bool" where
  "json_number_char b \<longleftrightarrow> json_isdigit b \<or> b \<in> set (cstr ''+-eE.'')"

text \<open>The second pass skips the characters of a number.\<close>

function json_skip_number :: "bytes \<Rightarrow> int \<Rightarrow> int \<Rightarrow> byte \<Rightarrow> int option" where
  "json_skip_number json stop p b =
    (if \<not> json_number_char b then Some p
     else if p + 1 = stop then Some (p + 1)
     else (case json_peek json (p + 1) of
             None \<Rightarrow> None
           | Some b \<Rightarrow> json_skip_number json stop (p + 1) b))"
  by pat_completeness auto

termination json_skip_number
  by (relation "measure (\<lambda>(json, _, p, _). nat (int (length json) - p))")
     (auto simp: json_peek_def split: if_splits)

definition number_flags :: "json_flag set" where
  "number_flags = {flag_num_negative, flag_num_e, flag_num_e_got_sign, flag_num_e_negative, flag_num_zero}"

definition json_start_number :: "json_env \<Rightarrow> byte \<Rightarrow> json_state \<Rightarrow> json_flow" where
  "json_start_number env b s =
    json_then (new_value env json_integer s) (\<lambda>s.
      if \<not> js_first_pass s
      then (case json_skip_number (jx_json env) (jx_end env) (js_ptr s) b of
              None \<Rightarrow> Crash
            | Some p \<Rightarrow> Proceed (set_flags (js_flags s \<union> {flag_next, flag_reproc}) (s\<lparr>js_ptr := p\<rparr>)))
      else
        let s = (set_flags (js_flags s - number_flags) s)\<lparr>js_num_digits := 0, js_num_fraction := 0, js_num_e := 0\<rparr>
        in if b \<noteq> chr CHR ''-'' then Proceed (set_flags (insert flag_reproc (js_flags s)) s)
           else Continue (set_flags (insert flag_num_negative (js_flags s)) s))"

text \<open>\<open>true\<close>, \<open>false\<close> and \<open>null\<close>: the first character has been read, \<open>rest\<close> is expected.\<close>

definition json_literal :: "json_env \<Rightarrow> bytes \<Rightarrow> json_type \<Rightarrow> json_state \<Rightarrow> json_flow" where
  "json_literal env rest t s =
    (if jx_end env - js_ptr s < int (length rest) then Fail Unknown_value s
     else (case json_expect (jx_json env) (js_ptr s) rest of
             Beyond \<Rightarrow> Crash
           | Mismatch \<Rightarrow> Fail Unknown_value s
           | Scanned _ \<Rightarrow> new_value env t (s\<lparr>js_ptr := js_ptr s + int (length rest)\<rparr>)))"

definition json_start_value :: "json_env \<Rightarrow> byte \<Rightarrow> json_state \<Rightarrow> json_flow" where
  "json_start_value env b s =
    (if b = chr CHR ''{'' then json_then (new_value env json_object s) Continue
     else if b = chr CHR ''['' then
       json_then (new_value env json_array s) (\<lambda>s. Continue (set_flags (insert flag_seek_value (js_flags s)) s))
     else if b = chr CHR 0x22 then
       json_then (new_value env json_string s) (\<lambda>s.
       on_value (js_top s) s (\<lambda>_ v.
         Continue ((set_flags (insert flag_string (js_flags s)) s)
           \<lparr>js_string := (case jv_ptr v of Mem b \<Rightarrow> Some (b, 0) | Counter _ \<Rightarrow> None), js_string_length := 0\<rparr>)))
     else if b = chr CHR ''t'' then
       json_then (json_literal env (cstr ''rue'') json_boolean s) (\<lambda>s.
       on_value (js_top s) s (\<lambda>a v.
         Proceed (set_flags (insert flag_next (js_flags s)) (set_value a (v\<lparr>jv_boolean := True\<rparr>) s))))
     else if b = chr CHR ''f'' then
       json_then (json_literal env (cstr ''alse'') json_boolean s) (\<lambda>s.
         Proceed (set_flags (insert flag_next (js_flags s)) s))
     else if b = chr CHR ''n'' then
       json_then (json_literal env (cstr ''ull'') json_null s) (\<lambda>s.
         Proceed (set_flags (insert flag_next (js_flags s)) s))
     else if json_isdigit b \<or> b = chr CHR ''-'' then json_start_number env b s
     else Fail Unexpected_when_seeking_value s)"

definition json_seek_value :: "json_env \<Rightarrow> byte \<Rightarrow> json_state \<Rightarrow> json_flow" where
  "json_seek_value env b s =
    (if json_whitespace b then Continue (json_count_line b s)
     else if b = chr CHR '']'' then
       (case js_top s of
          None \<Rightarrow> Fail Unexpected_bracket s
        | Some a \<Rightarrow> on_value (Some a) s (\<lambda>_ v.
            if jv_type v = json_array
            then Proceed (set_flags (insert flag_next (js_flags s - {flag_need_comma, flag_seek_value})) s)
            else Fail Unexpected_bracket s))
     else if flag_need_comma \<in> js_flags s then
       if b = chr CHR '','' then Continue (set_flags (js_flags s - {flag_need_comma}) s) else Fail Expected_comma_before s
     else if flag_need_colon \<in> js_flags s then
       if b = chr CHR '':'' then Continue (set_flags (js_flags s - {flag_need_colon}) s) else Fail Expected_colon_before s
     else json_start_value env b (set_flags (js_flags s - {flag_seek_value}) s))"

section \<open>Inside an object or a number\<close>

definition json_in_object :: "byte \<Rightarrow> json_value \<Rightarrow> json_state \<Rightarrow> json_flow" where
  "json_in_object b v s =
    (if json_whitespace b then Continue (json_count_line b s)
     else if b = chr CHR 0x22 then
       if flag_need_comma \<in> js_flags s then Fail Expected_comma_before_quote s
       else Proceed ((set_flags (insert flag_string (js_flags s)) s)
              \<lparr>js_string := (case jv_reserved v of Object_mem b off \<Rightarrow> Some (b, off) | Next_alloc _ \<Rightarrow> None),
               js_string_length := 0\<rparr>)
     else if b = chr CHR ''}'' then Proceed (set_flags (insert flag_next (js_flags s - {flag_need_comma})) s)
     else if b = chr CHR '','' \<and> flag_need_comma \<in> js_flags s then
       Proceed (set_flags (js_flags s - {flag_need_comma}) s)
     else Fail Unexpected_in_object s)"

definition json_digit :: "byte \<Rightarrow> nat \<Rightarrow> json_value \<Rightarrow> json_state \<Rightarrow> json_flow" where
  "json_digit b a v s =
    (let s = s\<lparr>js_num_digits := js_num_digits s + 1\<rparr>
     in if jv_type v = json_integer \<or> flag_num_e \<in> js_flags s
        then if flag_num_e \<notin> js_flags s
             then if flag_num_zero \<in> js_flags s then Fail Unexpected_0_before s
                  else Continue (set_value a (v\<lparr>jv_integer := jv_integer v * 10 + ucast (b - chr CHR ''0'')\<rparr>)
                         (if js_num_digits s = 1 \<and> b = chr CHR ''0''
                          then set_flags (insert flag_num_zero (js_flags s)) s else s))
             else Continue ((set_flags (insert flag_num_e_got_sign (js_flags s)) s)
                    \<lparr>js_num_e := js_num_e s * 10 + ucast (b - chr CHR ''0'')\<rparr>)
        else Continue (s\<lparr>js_num_fraction := js_num_fraction s * 10 + ucast (b - chr CHR ''0'')\<rparr>))"

definition json_number_end :: "nat \<Rightarrow> json_value \<Rightarrow> json_state \<Rightarrow> json_flow" where
  "json_number_end a v s =
    Proceed (set_flags (js_flags s \<union> {flag_next, flag_reproc})
      (if flag_num_negative \<in> js_flags s
       then set_value a (if jv_type v = json_integer then v\<lparr>jv_integer := - jv_integer v\<rparr>
                         else v\<lparr>jv_dbl := Negate (jv_dbl v)\<rparr>) s
       else s))"

definition json_exponent_sign :: "byte \<Rightarrow> json_state \<Rightarrow> bool" where
  "json_exponent_sign b s \<longleftrightarrow>
    (b = chr CHR ''+'' \<or> b = chr CHR ''-'') \<and> flag_num_e \<in> js_flags s \<and> flag_num_e_got_sign \<notin> js_flags s"

definition json_after_digits :: "byte \<Rightarrow> nat \<Rightarrow> json_value \<Rightarrow> json_state \<Rightarrow> json_flow" where
  "json_after_digits b a v s =
    (if flag_num_e \<notin> js_flags s
     then if jv_type v = json_double \<and> js_num_digits s = 0 then Fail Expected_digit_after_point s
          else
            let v = (if jv_type v = json_double
                     then v\<lparr>jv_dbl := Add_fraction (jv_dbl v) (js_num_fraction s) (js_num_digits s)\<rparr> else v)
            in if b = chr CHR ''e'' \<or> b = chr CHR ''E''
               then Continue (set_flags (insert flag_num_e (js_flags s) - {flag_num_zero})
                      ((set_value a (if jv_type v = json_integer
                                     then v\<lparr>jv_type := json_double, jv_dbl := Of_int (jv_integer v)\<rparr> else v) s)
                       \<lparr>js_num_digits := 0\<rparr>))
               else json_number_end a v (set_value a v s)
     else if js_num_digits s = 0 then Fail Expected_digit_after_e s
     else
       let v = v\<lparr>jv_dbl := Scale (jv_dbl v) (if flag_num_e_negative \<in> js_flags s then - js_num_e s else js_num_e s)\<rparr>
       in json_number_end a v (set_value a v s))"

definition json_in_number :: "byte \<Rightarrow> nat \<Rightarrow> json_value \<Rightarrow> json_state \<Rightarrow> json_flow" where
  "json_in_number b a v s =
    (if json_isdigit b then json_digit b a v s
     else if json_exponent_sign b s then
       Continue (set_flags (js_flags s \<union> {flag_num_e_got_sign}
         \<union> (if b = chr CHR ''-'' then {flag_num_e_negative} else {})) s)
     else if b = chr CHR ''.'' \<and> jv_type v = json_integer then
       if js_num_digits s = 0 then Fail Expected_digit_before_point s
       else Continue (set_value a (v\<lparr>jv_type := json_double, jv_dbl := Of_int (jv_integer v)\<rparr>) (s\<lparr>js_num_digits := 0\<rparr>))
     else json_after_digits b a v s)"

definition json_inside :: "byte \<Rightarrow> json_state \<Rightarrow> json_flow" where
  "json_inside b s =
    on_value (js_top s) s (\<lambda>a v.
      case jv_type v of
        json_object \<Rightarrow> json_in_object b v s
      | json_integer \<Rightarrow> json_in_number b a v s
      | json_double \<Rightarrow> json_in_number b a v s
      | _ \<Rightarrow> Proceed s)"

section \<open>The end of a value\<close>

definition json_link :: "nat \<Rightarrow> json_value \<Rightarrow> json_state \<Rightarrow> json_flow" where
  "json_link a parent s =
    (case jv_type parent of
       json_object \<Rightarrow>
         (case jv_ptr parent of
            Mem b \<Rightarrow>
              (case js_blocks s b of
                 Some (Members es cs) \<Rightarrow>
                   if jv_length parent < length es
                   then Proceed (set_block b (Members (es[jv_length parent :=
                          (es ! jv_length parent)\<lparr>je_value := Some a\<rparr>]) cs) s)
                   else Crash
               | _ \<Rightarrow> Crash)
          | Counter _ \<Rightarrow> Crash)
     | json_array \<Rightarrow>
         (case jv_ptr parent of
            Mem b \<Rightarrow>
              (case js_blocks s b of
                 Some (Pointers ps) \<Rightarrow>
                   if jv_length parent < length ps
                   then Proceed (set_block b (Pointers (ps[jv_length parent := Some a])) s)
                   else Crash
               | _ \<Rightarrow> Crash)
          | Counter _ \<Rightarrow> Crash)
     | _ \<Rightarrow> Proceed s)"

definition json_value_done :: "json_state \<Rightarrow> json_flow" where
  "json_value_done s =
    on_value (js_top s) s (\<lambda>a v.
      case jv_parent v of
        None \<Rightarrow> Continue (set_flags (insert flag_done (js_flags s)) s)
      | Some p \<Rightarrow> on_value (Some p) s (\<lambda>p parent.
          let s = (if jv_type parent = json_array then set_flags (insert flag_seek_value (js_flags s)) s else s)
          in json_then (if js_first_pass s then Proceed s else json_link a parent s) (\<lambda>s.
             let parent = parent\<lparr>jv_length := jv_length parent + 1\<rparr>; s = set_value p parent s
             in if jv_length parent > uint_max then Fail Too_long s
                else Continue (s\<lparr>js_top := Some p\<rparr>))))"

definition json_finish :: "json_state \<Rightarrow> json_flow" where
  "json_finish s =
    (let s = (if flag_reproc \<in> js_flags s
              then (set_flags (js_flags s - {flag_reproc}) s)\<lparr>js_ptr := js_ptr s - 1\<rparr> else s)
     in if flag_next \<in> js_flags s
        then json_value_done (set_flags (insert flag_need_comma (js_flags s - {flag_next})) s)
        else Continue s)"

section \<open>The two passes\<close>

definition json_iteration :: "json_env \<Rightarrow> json_state \<Rightarrow> json_flow" where
  "json_iteration env s =
    (case (if js_ptr s = jx_end env then Some 0 else json_peek (jx_json env) (js_ptr s)) of
       None \<Rightarrow> Crash
     | Some b \<Rightarrow>
         json_then (json_in_string env b s) (\<lambda>s.
         json_then (json_comment env b s) (\<lambda>s.
         json_then (json_after_root b s) (\<lambda>s.
         json_then (if flag_seek_value \<in> js_flags s then json_seek_value env b s else json_inside b s) (\<lambda>s.
         json_finish s)))))"

partial_function (option) json_loop :: "json_env \<Rightarrow> json_state \<Rightarrow> json_flow option" where
  "json_loop env s =
    (case json_iteration env s of
       Continue s' \<Rightarrow> json_loop env (s'\<lparr>js_ptr := js_ptr s' + 1\<rparr>)
     | r \<Rightarrow> Some r)"

definition json_start_pass :: "json_state \<Rightarrow> json_state" where
  "json_start_pass s =
    s\<lparr>js_ptr := 0, js_cur_line := 1, js_flags := {flag_seek_value}, js_top := None, js_root := None,
      js_string := None, js_string_length := 0\<rparr>"

definition json_initial :: json_state where
  "json_initial =
    \<lparr>js_used_memory = 0, js_first_pass = True, js_ptr = 0, js_cur_line = 0, js_flags = {}, js_num_digits = 0,
     js_num_e = 0, js_num_fraction = 0, js_top = None, js_root = None, js_alloc = None, js_string = None,
     js_string_length = 0, js_values = Map.empty, js_blocks = Map.empty, js_next = 0\<rparr>"

section \<open>Releasing values\<close>

definition json_free_value :: "nat \<Rightarrow> json_state \<Rightarrow> json_flow" where
  "json_free_value a s =
    (if js_values s a = None then Crash else Proceed (s\<lparr>js_values := (js_values s)(a := None)\<rparr>))"

definition json_free_ptr :: "json_ptr \<Rightarrow> json_state \<Rightarrow> json_flow" where
  "json_free_ptr p s =
    (case p of
       Counter n \<Rightarrow> if n = 0 then Proceed s else Crash
     | Mem b \<Rightarrow> if js_blocks s b = None then Crash else Proceed (s\<lparr>js_blocks := (js_blocks s)(b := None)\<rparr>))"

text \<open>The last remaining child of an array or object, in \<open>json_value_free_ex\<close>.\<close>

definition json_child :: "json_value \<Rightarrow> nat \<Rightarrow> json_state \<Rightarrow> nat option" where
  "json_child v i s =
    (case jv_ptr v of
       Counter _ \<Rightarrow> None
     | Mem b \<Rightarrow>
         (case js_blocks s b of
            Some (Pointers ps) \<Rightarrow> if jv_type v = json_array \<and> i < length ps then ps ! i else None
          | Some (Members es cs) \<Rightarrow> if jv_type v = json_object \<and> i < length es then je_value (es ! i) else None
          | _ \<Rightarrow> None))"

partial_function (option) json_free_loop :: "nat option \<Rightarrow> json_state \<Rightarrow> json_flow option" where
  "json_free_loop p s =
    (case p of
       None \<Rightarrow> Some (Proceed s)
     | Some a \<Rightarrow>
         (case js_values s a of
            None \<Rightarrow> Some Crash
          | Some v \<Rightarrow>
              if (jv_type v = json_array \<or> jv_type v = json_object) \<and> jv_length v \<noteq> 0
              then (case json_child v (jv_length v - 1) s of
                      None \<Rightarrow> Some Crash
                    | Some c \<Rightarrow> json_free_loop (Some c) (set_value a (v\<lparr>jv_length := jv_length v - 1\<rparr>) s))
              else (case json_then (if jv_type v \<in> {json_array, json_object, json_string}
                                    then json_free_ptr (jv_ptr v) s else Proceed s) (json_free_value a) of
                      Proceed s \<Rightarrow> json_free_loop (jv_parent v) s
                    | r \<Rightarrow> Some r)))"

definition json_value_free_ex :: "nat option \<Rightarrow> json_state \<Rightarrow> json_flow option" where
  "json_value_free_ex p s =
    (case p of
       None \<Rightarrow> Some (Proceed s)
     | Some a \<Rightarrow>
         (case js_values s a of
            None \<Rightarrow> Some Crash
          | Some v \<Rightarrow> json_free_loop (Some a) (set_value a (v\<lparr>jv_parent := None\<rparr>) s)))"

partial_function (option) json_free_chain :: "nat option \<Rightarrow> json_state \<Rightarrow> json_flow option" where
  "json_free_chain p s =
    (case p of
       None \<Rightarrow> Some (Proceed s)
     | Some a \<Rightarrow>
         (case js_values s a of
            None \<Rightarrow> Some Crash
          | Some v \<Rightarrow>
              (case jv_reserved v of
                 Object_mem _ _ \<Rightarrow> Some Crash
               | Next_alloc nxt \<Rightarrow>
                   (case json_free_value a s of
                      Proceed s \<Rightarrow> json_free_chain nxt s
                    | r \<Rightarrow> Some r))))"

section \<open>\<open>json_parse_ex\<close>\<close>

datatype json_result = Parsed nat json_state | Rejected json_error json_state | Crashed

text \<open>After \<open>e_failed\<close>: the chain, or what the second pass has not reached of it, and the values the second pass has
  linked are released.\<close>

definition json_failed :: "json_error \<Rightarrow> json_state \<Rightarrow> json_result option" where
  "json_failed e s =
    (case json_free_chain (if js_first_pass s then js_root s else js_alloc s) s of
       Some (Proceed s') \<Rightarrow>
         if js_first_pass s then Some (Rejected e s')
         else (case json_value_free_ex (js_root s) s' of
                 Some (Proceed s') \<Rightarrow> Some (Rejected e s')
               | Some _ \<Rightarrow> Some Crashed
               | None \<Rightarrow> None)
     | Some _ \<Rightarrow> Some Crashed
     | None \<Rightarrow> None)"

definition json_second_pass :: "json_env \<Rightarrow> json_state \<Rightarrow> json_result option" where
  "json_second_pass env s =
    (case json_loop env (json_start_pass (s\<lparr>js_first_pass := False\<rparr>)) of
       None \<Rightarrow> None
     | Some (Break s) \<Rightarrow> (case js_root s of Some a \<Rightarrow> Some (Parsed a s) | None \<Rightarrow> Some Crashed)
     | Some (Fail e s) \<Rightarrow> json_failed e s
     | Some _ \<Rightarrow> Some Crashed)"

definition json_passes :: "json_env \<Rightarrow> json_result option" where
  "json_passes env =
    (case json_loop env (json_start_pass json_initial) of
       None \<Rightarrow> None
     | Some (Break s) \<Rightarrow> json_second_pass env (s\<lparr>js_alloc := js_root s\<rparr>)
     | Some (Fail e s) \<Rightarrow> json_failed e s
     | Some _ \<Rightarrow> Some Crashed)"

record json_settings =
  st_max_memory :: nat
  st_enable_comments :: bool
  st_malloc :: "nat \<Rightarrow> bool"

definition json_bom :: "bytes \<Rightarrow> bool" where
  "json_bom json \<longleftrightarrow> 3 \<le> length json \<and> json ! 0 = 0xEF \<and> json ! 1 = 0xBB \<and> json ! 2 = 0xBF"

text \<open>\<open>json\<close> is the memory from the pointer \<open>json\<close> on, of which \<open>len\<close> bytes are the text.\<close>

definition json_environment :: "json_settings \<Rightarrow> bytes \<Rightarrow> nat \<Rightarrow> json_env" where
  "json_environment settings json len =
    (let n = (if json_bom (take len json) then 3 else 0)
     in \<lparr>jx_json = drop n json, jx_end = int (len - n), jx_comments = st_enable_comments settings,
         jx_max_memory = st_max_memory settings, jx_malloc = st_malloc settings\<rparr>)"

definition json_parse_ex :: "json_settings \<Rightarrow> bytes \<Rightarrow> nat \<Rightarrow> json_result option" where
  "json_parse_ex settings json len = json_passes (json_environment settings json len)"

definition json_parse :: "(nat \<Rightarrow> bool) \<Rightarrow> bytes \<Rightarrow> nat \<Rightarrow> json_result option" where
  "json_parse malloc json len =
    json_parse_ex \<lparr>st_max_memory = 0, st_enable_comments = False, st_malloc = malloc\<rparr> json len"

definition json_value_free :: "nat option \<Rightarrow> json_state \<Rightarrow> json_flow option" where
  "json_value_free = json_value_free_ex"

end
