(* ===== verification/JsonSpec.thy ===== *)
theory JsonSpec
  imports Json
begin

text \<open>
  What \<open>json_parse_ex\<close> computes, without its memory: a parser that reads the text once, keeps the arrays and objects that
  are open on a stack of lists and builds the value as a tree.  The theories \<open>JsonFirst\<close> and \<open>JsonSecond\<close> prove that
  the two passes over the heap follow it step by step.
\<close>

section \<open>Values, frames and modes\<close>

datatype json =
  JObject "(bytes \<times> json) list" | JArray "json list" | JInteger "64 word" | JDouble json_dbl | JString bytes
| JBoolean bool | JNull

text \<open>An object that is open keeps the last name read.\<close>

datatype json_frame = In_array "json list" | In_object "(bytes \<times> json) list" bytes

record json_number =
  nm_negative :: bool
  nm_zero :: bool
  nm_exp :: bool
  nm_got_sign :: bool
  nm_exp_negative :: bool
  nm_digits :: nat
  nm_e :: "64 word"
  nm_fraction :: "64 word"
  nm_int :: "64 word"
  nm_dbl :: "json_dbl option"

datatype json_mode =
  Seeking bool bool | In_string bool bytes | In_key bool bytes | In_members bool | In_number json_number | All_done json

datatype json_comment_state = No_comment | Line_comment | Block_comment

record json_spec =
  sp_ptr :: int
  sp_line :: "32 word"
  sp_comment :: json_comment_state
  sp_mode :: json_mode
  sp_stack :: "json_frame list"

datatype json_progress = Go json_spec | Accept json | Reject json_error "32 word" | Stuck

section \<open>Numbers\<close>

datatype number_progress = Number_more json_number | Number_end json | Number_error json_error

definition new_number :: "bool \<Rightarrow> json_number" where
  "new_number neg = \<lparr>nm_negative = neg, nm_zero = False, nm_exp = False, nm_got_sign = False, nm_exp_negative = False,
                    nm_digits = 0, nm_e = 0, nm_fraction = 0, nm_int = 0, nm_dbl = None\<rparr>"

definition number_digit :: "byte \<Rightarrow> json_number \<Rightarrow> number_progress" where
  "number_digit b n =
    (let d = ucast (b - chr CHR ''0''); n = n\<lparr>nm_digits := nm_digits n + 1\<rparr>
     in if nm_exp n then Number_more (n\<lparr>nm_got_sign := True, nm_e := nm_e n * 10 + d\<rparr>)
        else if nm_dbl n \<noteq> None then Number_more (n\<lparr>nm_fraction := nm_fraction n * 10 + d\<rparr>)
        else if nm_zero n then Number_error Unexpected_0_before
        else Number_more (n\<lparr>nm_int := nm_int n * 10 + d, nm_zero := (nm_digits n = 1 \<and> b = chr CHR ''0'')\<rparr>))"

definition number_result :: "json_number \<Rightarrow> json" where
  "number_result n =
    (case nm_dbl n of
       None \<Rightarrow> JInteger (if nm_negative n then - nm_int n else nm_int n)
     | Some d \<Rightarrow> JDouble (if nm_negative n then Negate d else d))"

definition number_after_digits :: "byte \<Rightarrow> json_number \<Rightarrow> number_progress" where
  "number_after_digits b n =
    (if \<not> nm_exp n
     then if nm_dbl n \<noteq> None \<and> nm_digits n = 0 then Number_error Expected_digit_after_point
          else
            let n = n\<lparr>nm_dbl := map_option (\<lambda>d. Add_fraction d (nm_fraction n) (nm_digits n)) (nm_dbl n)\<rparr>
            in if b = chr CHR ''e'' \<or> b = chr CHR ''E''
               then Number_more (n\<lparr>nm_exp := True, nm_zero := False, nm_digits := 0,
                      nm_dbl := Some (case nm_dbl n of None \<Rightarrow> Of_int (nm_int n) | Some d \<Rightarrow> d)\<rparr>)
               else Number_end (number_result n)
     else if nm_digits n = 0 then Number_error Expected_digit_after_e
     else Number_end (number_result (n\<lparr>nm_dbl :=
            map_option (\<lambda>d. Scale d (if nm_exp_negative n then - nm_e n else nm_e n)) (nm_dbl n)\<rparr>)))"

definition number_step :: "byte \<Rightarrow> json_number \<Rightarrow> number_progress" where
  "number_step b n =
    (if json_isdigit b then number_digit b n
     else if (b = chr CHR ''+'' \<or> b = chr CHR ''-'') \<and> nm_exp n \<and> \<not> nm_got_sign n then
       Number_more (n\<lparr>nm_got_sign := True, nm_exp_negative := (nm_exp_negative n \<or> b = chr CHR ''-'')\<rparr>)
     else if b = chr CHR ''.'' \<and> nm_dbl n = None then
       if nm_digits n = 0 then Number_error Expected_digit_before_point
       else Number_more (n\<lparr>nm_dbl := Some (Of_int (nm_int n)), nm_digits := 0\<rparr>)
     else number_after_digits b n)"

section \<open>Characters of a string\<close>

datatype char_progress = Char_more bool bytes int | Char_closed | Char_error json_error | Char_stuck

definition json_escaped :: "byte \<Rightarrow> byte" where
  "json_escaped b =
    (if b = chr CHR ''b'' then 8 else if b = chr CHR ''f'' then 12 else if b = chr CHR ''n'' then 10
     else if b = chr CHR ''r'' then 13 else if b = chr CHR ''t'' then 9 else b)"

definition spec_char :: "bytes \<Rightarrow> int \<Rightarrow> byte \<Rightarrow> int \<Rightarrow> bool \<Rightarrow> bytes \<Rightarrow> char_progress" where
  "spec_char json stop b p escaped cs =
    (if b = 0 then Char_error Unexpected_EOF_in_string
     else if escaped then
       if b = chr CHR ''u''
       then (case json_unicode json stop p of
               Beyond \<Rightarrow> Char_stuck
             | Mismatch \<Rightarrow> Char_error Invalid_character_value
             | Scanned (u, p) \<Rightarrow> Char_more False (cs @ json_utf8 u) p)
       else Char_more False (cs @ [json_escaped b]) p
     else if b = chr CHR 0x5C then Char_more True cs p
     else if b = chr CHR 0x22 then Char_closed
     else Char_more False (cs @ [b]) p)"

section \<open>Steps\<close>

fun spec_value :: "json \<Rightarrow> json_frame list \<Rightarrow> json_mode \<times> json_frame list" where
  "spec_value v [] = (All_done v, [])"
| "spec_value v (In_array vs # st) = (Seeking True False, In_array (vs @ [v]) # st)"
| "spec_value v (In_object ms k # st) = (In_members True, In_object (ms @ [(k, v)]) [] # st)"

definition spec_put :: "json \<Rightarrow> json_spec \<Rightarrow> json_spec" where
  "spec_put v r = r\<lparr>sp_mode := fst (spec_value v (sp_stack r)), sp_stack := snd (spec_value v (sp_stack r))\<rparr>"

definition spec_next :: "json_spec \<Rightarrow> json_progress" where
  "spec_next r = Go (r\<lparr>sp_ptr := sp_ptr r + 1\<rparr>)"

definition spec_blank :: "byte \<Rightarrow> json_spec \<Rightarrow> json_progress" where
  "spec_blank b r = spec_next (if b = 10 then r\<lparr>sp_line := sp_line r + 1\<rparr> else r)"

definition spec_in_comment :: "bytes \<Rightarrow> int \<Rightarrow> byte \<Rightarrow> json_spec \<Rightarrow> json_progress" where
  "spec_in_comment json stop b r =
    (case sp_comment r of
       Line_comment \<Rightarrow>
         if b = 13 \<or> b = 10 \<or> b = 0 then Go (r\<lparr>sp_comment := No_comment\<rparr>) else spec_next r
     | Block_comment \<Rightarrow>
         if b = 0 then Reject Unexpected_EOF_in_block_comment (sp_line r)
         else if b = chr CHR ''*'' \<and> sp_ptr r < stop - 1 \<and> json_peek json (sp_ptr r + 1) = Some (chr CHR ''/'')
         then Go (r\<lparr>sp_comment := No_comment, sp_ptr := sp_ptr r + 2\<rparr>)
         else spec_next r
     | No_comment \<Rightarrow>
         if (case sp_mode r of In_number _ \<Rightarrow> True | _ \<Rightarrow> False) then Reject Comment_not_allowed_here (sp_line r)
         else if sp_ptr r + 1 = stop then Reject EOF_unexpected (sp_line r)
         else if json_peek json (sp_ptr r + 1) = Some (chr CHR ''/'')
         then Go (r\<lparr>sp_comment := Line_comment, sp_ptr := sp_ptr r + 2\<rparr>)
         else if json_peek json (sp_ptr r + 1) = Some (chr CHR ''*'')
         then Go (r\<lparr>sp_comment := Block_comment, sp_ptr := sp_ptr r + 2\<rparr>)
         else Reject Unexpected_in_comment_opening (sp_line r))"

definition spec_literal :: "bytes \<Rightarrow> int \<Rightarrow> bytes \<Rightarrow> json \<Rightarrow> json_spec \<Rightarrow> json_progress" where
  "spec_literal json stop rest v r =
    (if stop - sp_ptr r < int (length rest) then Reject Unknown_value (sp_line r)
     else (case json_expect json (sp_ptr r) rest of
             Beyond \<Rightarrow> Stuck
           | Mismatch \<Rightarrow> Reject Unknown_value (sp_line r)
           | Scanned _ \<Rightarrow> Go (spec_put v (r\<lparr>sp_ptr := sp_ptr r + int (length rest) + 1\<rparr>))))"

definition spec_start :: "bytes \<Rightarrow> int \<Rightarrow> byte \<Rightarrow> json_spec \<Rightarrow> json_progress" where
  "spec_start json stop b r =
    (if b = chr CHR ''{'' then spec_next (r\<lparr>sp_mode := In_members False, sp_stack := In_object [] [] # sp_stack r\<rparr>)
     else if b = chr CHR ''['' then spec_next (r\<lparr>sp_mode := Seeking False False, sp_stack := In_array [] # sp_stack r\<rparr>)
     else if b = chr CHR 0x22 then spec_next (r\<lparr>sp_mode := In_string False []\<rparr>)
     else if b = chr CHR ''t'' then spec_literal json stop (cstr ''rue'') (JBoolean True) r
     else if b = chr CHR ''f'' then spec_literal json stop (cstr ''alse'') (JBoolean False) r
     else if b = chr CHR ''n'' then spec_literal json stop (cstr ''ull'') JNull r
     else if b = chr CHR ''-'' then spec_next (r\<lparr>sp_mode := In_number (new_number True)\<rparr>)
     else if json_isdigit b then Go (r\<lparr>sp_mode := In_number (new_number False)\<rparr>)
     else Reject Unexpected_when_seeking_value (sp_line r))"

definition spec_seek :: "bytes \<Rightarrow> int \<Rightarrow> byte \<Rightarrow> bool \<Rightarrow> bool \<Rightarrow> json_spec \<Rightarrow> json_progress" where
  "spec_seek json stop b comma colon r =
    (if json_whitespace b then spec_blank b r
     else if b = chr CHR '']'' then
       (case sp_stack r of
          In_array vs # st \<Rightarrow> spec_next (spec_put (JArray vs) (r\<lparr>sp_stack := st\<rparr>))
        | _ \<Rightarrow> Reject Unexpected_bracket (sp_line r))
     else if comma then
       if b = chr CHR '','' then spec_next (r\<lparr>sp_mode := Seeking False colon\<rparr>)
       else Reject Expected_comma_before (sp_line r)
     else if colon then
       if b = chr CHR '':'' then spec_next (r\<lparr>sp_mode := Seeking False False\<rparr>)
       else Reject Expected_colon_before (sp_line r)
     else spec_start json stop b r)"

definition spec_members :: "byte \<Rightarrow> bool \<Rightarrow> json_spec \<Rightarrow> json_progress" where
  "spec_members b comma r =
    (if json_whitespace b then spec_blank b r
     else if b = chr CHR 0x22 then
       if comma then Reject Expected_comma_before_quote (sp_line r) else spec_next (r\<lparr>sp_mode := In_key False []\<rparr>)
     else if b = chr CHR ''}'' then
       (case sp_stack r of
          In_object ms k # st \<Rightarrow> spec_next (spec_put (JObject ms) (r\<lparr>sp_stack := st\<rparr>))
        | _ \<Rightarrow> Stuck)
     else if b = chr CHR '','' \<and> comma then spec_next (r\<lparr>sp_mode := In_members False\<rparr>)
     else Reject Unexpected_in_object (sp_line r))"

definition spec_key_done :: "bytes \<Rightarrow> json_spec \<Rightarrow> json_progress" where
  "spec_key_done k r =
    (case sp_stack r of
       In_object ms _ # st \<Rightarrow> spec_next (r\<lparr>sp_mode := Seeking False True, sp_stack := In_object ms k # st\<rparr>)
     | _ \<Rightarrow> Stuck)"

definition spec_outside :: "bytes \<Rightarrow> int \<Rightarrow> byte \<Rightarrow> json_spec \<Rightarrow> json_progress" where
  "spec_outside json stop b r =
    (case sp_mode r of
       All_done v \<Rightarrow>
         if b = 0 then Accept v else if json_whitespace b then spec_blank b r else Reject Trailing_garbage (sp_line r)
     | Seeking comma colon \<Rightarrow> spec_seek json stop b comma colon r
     | In_members comma \<Rightarrow> spec_members b comma r
     | In_number n \<Rightarrow>
         (case number_step b n of
            Number_more n \<Rightarrow> spec_next (r\<lparr>sp_mode := In_number n\<rparr>)
          | Number_end v \<Rightarrow> Go (spec_put v r)
          | Number_error e \<Rightarrow> Reject e (sp_line r))
     | _ \<Rightarrow> Stuck)"

definition spec_step :: "bytes \<Rightarrow> int \<Rightarrow> bool \<Rightarrow> json_spec \<Rightarrow> json_progress" where
  "spec_step json stop comments r =
    (case (if sp_ptr r = stop then Some 0 else json_peek json (sp_ptr r)) of
       None \<Rightarrow> Stuck
     | Some b \<Rightarrow>
         (case sp_mode r of
            In_string e cs \<Rightarrow>
              (case spec_char json stop b (sp_ptr r) e cs of
                 Char_more e cs p \<Rightarrow> Go (r\<lparr>sp_mode := In_string e cs, sp_ptr := p + 1\<rparr>)
               | Char_closed \<Rightarrow> spec_next (spec_put (JString cs) r)
               | Char_error err \<Rightarrow> Reject err (sp_line r)
               | Char_stuck \<Rightarrow> Stuck)
          | In_key e cs \<Rightarrow>
              (case spec_char json stop b (sp_ptr r) e cs of
                 Char_more e cs p \<Rightarrow> Go (r\<lparr>sp_mode := In_key e cs, sp_ptr := p + 1\<rparr>)
               | Char_closed \<Rightarrow> spec_key_done cs r
               | Char_error err \<Rightarrow> Reject err (sp_line r)
               | Char_stuck \<Rightarrow> Stuck)
          | _ \<Rightarrow>
              if sp_comment r \<noteq> No_comment \<or> comments \<and> b = chr CHR ''/''
              then spec_in_comment json stop b r
              else spec_outside json stop b r))"

definition spec_initial :: json_spec where
  "spec_initial = \<lparr>sp_ptr = 0, sp_line = 1, sp_comment = No_comment, sp_mode = Seeking False False, sp_stack = []\<rparr>"

section \<open>Every step makes progress\<close>

text \<open>The text is followed by a NUL.  The position never passes it, and a step that stays at a character is a step from
  looking for a value to a number, from a number to its context, or out of a comment.\<close>

definition spec_rank :: "json_spec \<Rightarrow> nat" where
  "spec_rank r =
    (if sp_comment r = Line_comment then 4 else 0) +
    (case sp_mode r of Seeking False False \<Rightarrow> 3 | In_number _ \<Rightarrow> 2 | _ \<Rightarrow> 1)"

definition spec_measure :: "int \<Rightarrow> json_spec \<Rightarrow> nat" where
  "spec_measure stop r = 8 * nat (stop - sp_ptr r) + spec_rank r"

definition spec_text :: "bytes \<Rightarrow> int \<Rightarrow> bool" where
  "spec_text json stop \<longleftrightarrow> 0 \<le> stop \<and> json_peek json stop = Some 0"

fun frame_is_object :: "json_frame \<Rightarrow> bool" where
  "frame_is_object (In_array vs) = False"
| "frame_is_object (In_object ms k) = True"

fun mode_ok :: "json_mode \<Rightarrow> json_frame list \<Rightarrow> bool" where
  "mode_ok (In_key e cs) st = (st \<noteq> [] \<and> frame_is_object (hd st))"
| "mode_ok (In_members c) st = (st \<noteq> [] \<and> frame_is_object (hd st))"
| "mode_ok (Seeking c d) st = ((d \<longrightarrow> \<not> c \<and> st \<noteq> [] \<and> frame_is_object (hd st)) \<and> (c \<longrightarrow> st \<noteq> [] \<and> \<not> frame_is_object (hd st)))"
| "mode_ok (All_done v) st = (st = [])"
| "mode_ok (In_string e cs) st = True"
| "mode_ok (In_number n) st = (nm_exp n \<longrightarrow> nm_dbl n \<noteq> None)"

fun comment_ok :: "json_mode \<Rightarrow> json_comment_state \<Rightarrow> bool" where
  "comment_ok (In_string e cs) c = (c = No_comment)"
| "comment_ok (In_key e cs) c = (c = No_comment)"
| "comment_ok (In_number n) c = (c = No_comment)"
| "comment_ok (Seeking a b) c = True"
| "comment_ok (In_members a) c = True"
| "comment_ok (All_done v) c = True"

definition spec_ok :: "int \<Rightarrow> json_spec \<Rightarrow> bool" where
  "spec_ok stop r \<longleftrightarrow> 0 \<le> sp_ptr r \<and> sp_ptr r \<le> stop \<and> mode_ok (sp_mode r) (sp_stack r)
     \<and> comment_ok (sp_mode r) (sp_comment r)"

lemma peek_bounds: "json_peek json p = Some b \<Longrightarrow> 0 \<le> p \<and> p < int (length json)"
  by (simp add: json_peek_def split: if_splits)

lemma spec_text_peek:
  assumes "spec_text json stop" "0 \<le> p" "p \<le> stop"
  obtains b where "json_peek json p = Some b" "p = stop \<Longrightarrow> b = 0"
proof -
  have "p < int (length json)" using assms peek_bounds [of json stop 0] by (simp add: spec_text_def)
  then have "json_peek json p = Some (json ! nat p)" using assms(2) by (simp add: json_peek_def)
  moreover have "p = stop \<Longrightarrow> json ! nat p = 0" using assms(1) calculation by (simp add: spec_text_def)
  ultimately show ?thesis by (rule that)
qed

lemma json_hex_value_0: "json_hex_value 0 = 0xFF"
  by (simp add: json_hex_value_def json_isdigit_def chr_def)

lemma json_hex_bounds:
  assumes "spec_text json stop" "0 \<le> p" "p \<le> stop"
  shows "json_hex json p \<noteq> Beyond" "json_hex json p = Scanned d \<Longrightarrow> p < stop"
proof -
  obtain b where b: "json_peek json p = Some b" "p = stop \<Longrightarrow> b = 0" using spec_text_peek [OF assms] by metis
  then show "json_hex json p \<noteq> Beyond" by (simp add: json_hex_def)
  show "p < stop" if "json_hex json p = Scanned d"
    using that b assms(3) by (cases "p = stop") (auto simp: json_hex_def json_hex_value_0)
qed

lemma json_hex4_bounds:
  assumes "spec_text json stop" "0 \<le> p" "4 \<le> stop - p"
  shows "json_hex4 json p \<noteq> Beyond" "json_hex4 json p = Scanned d \<Longrightarrow> p + 4 < stop"
proof -
  have "json_hex json (p + 1) \<noteq> Beyond" "json_hex json (p + 2) \<noteq> Beyond" "json_hex json (p + 3) \<noteq> Beyond"
    "json_hex json (p + 4) \<noteq> Beyond"
    using assms by (intro json_hex_bounds [OF assms(1)]; simp)+
  then show "json_hex4 json p \<noteq> Beyond"
    by (cases "json_hex json (p + 1)"; cases "json_hex json (p + 2)"; cases "json_hex json (p + 3)";
        cases "json_hex json (p + 4)") (simp_all add: json_hex4_def Let_def)
  assume "json_hex4 json p = Scanned d"
  then obtain b where "json_hex json (p + 4) = Scanned b"
    by (cases "json_hex json (p + 1)"; cases "json_hex json (p + 2)"; cases "json_hex json (p + 3)";
        cases "json_hex json (p + 4)") (simp_all add: json_hex4_def Let_def)
  then show "p + 4 < stop"
    using assms by (intro json_hex_bounds(2) [OF assms(1)]) simp_all
qed

lemma json_expect_bounds:
  assumes "spec_text json stop" "0 \<le> p" "0 \<notin> set cs" "int (length cs) \<le> stop - p"
  shows "json_expect json p cs \<noteq> Beyond \<and> (json_expect json p cs = Scanned x \<longrightarrow> cs \<noteq> [] \<longrightarrow> p + int (length cs) < stop)"
  using assms(2-)
proof (induction cs arbitrary: p)
  case (Cons c cs)
  obtain b where b: "json_peek json (p + 1) = Some b" "p + 1 = stop \<Longrightarrow> b = 0"
    using Cons.prems by (auto intro: spec_text_peek [OF assms(1), of "p + 1"])
  show ?case
  proof (cases "b = c")
    case True
    with b Cons.prems have "p + 1 < stop" by (cases "p + 1 = stop") auto
    with Cons.prems Cons.IH [of "p + 1"] b True show ?thesis by (cases cs) auto
  qed (use b in simp)
qed simp

lemma json_unicode_bounds:
  assumes "spec_text json stop" "0 \<le> p"
  shows "json_unicode json stop p \<noteq> Beyond" "json_unicode json stop p = Scanned (u, q) \<Longrightarrow> p < q \<and> q < stop"
proof -
  consider (short) "stop - p < 4" | (mismatch) "4 \<le> stop - p" "json_hex4 json p = Mismatch"
    | (scanned) d where "4 \<le> stop - p" "json_hex4 json p = Scanned d"
    using json_hex4_bounds [OF assms] by (cases "json_hex4 json p"; force)
  then have "json_unicode json stop p \<noteq> Beyond \<and> (json_unicode json stop p = Scanned (u, q) \<longrightarrow> p < q \<and> q < stop)"
  proof cases
    case scanned
    have e: "json_expect json (p + 4) (cstr [CHR 0x5C, CHR ''u'']) \<noteq> Beyond" if "6 \<le> stop - (p + 4)"
      using json_expect_bounds [OF assms(1), of "p + 4" "cstr [CHR 0x5C, CHR ''u'']"] assms that
      by (simp add: cstr_def chr_def)
    have h: "json_hex4 json (p + 6) \<noteq> Beyond" "json_hex4 json (p + 6) = Scanned v \<Longrightarrow> p + 10 < stop"
      if "6 \<le> stop - (p + 4)" for v
      using json_hex4_bounds [OF assms(1), of "p + 6"] assms that by (simp_all add: add.assoc)
    show ?thesis
    proof (cases "d AND 0xF800 = 0xD800 \<and> 6 \<le> stop - (p + 4)")
      case True
      then show ?thesis
        using scanned e h
        by (cases "json_expect json (p + 4) (cstr [CHR 0x5C, CHR ''u''])"; cases "json_hex4 json (p + 6)")
           (auto simp: json_unicode_def)
    next
      case False
      then show ?thesis
        using scanned json_hex4_bounds(2) [OF assms scanned]
        by (auto simp: json_unicode_def)
    qed
  qed (simp_all add: json_unicode_def)
  then show "json_unicode json stop p \<noteq> Beyond" "json_unicode json stop p = Scanned (u, q) \<Longrightarrow> p < q \<and> q < stop"
    by auto
qed

definition good_step :: "int \<Rightarrow> json_spec \<Rightarrow> json_progress \<Rightarrow> bool" where
  "good_step stop r x \<longleftrightarrow>
    (case x of Go r' \<Rightarrow> spec_ok stop r' \<and> spec_measure stop r' < spec_measure stop r | Stuck \<Rightarrow> False | _ \<Rightarrow> True)"

lemma good_step_simps [simp]:
  "good_step stop r (Reject e l)" "good_step stop r (Accept v)" "\<not> good_step stop r Stuck"
  "good_step stop r (Go r') \<longleftrightarrow> spec_ok stop r' \<and> spec_measure stop r' < spec_measure stop r"
  by (simp_all add: good_step_def)

lemma comment_ok_none [simp]: "comment_ok m No_comment"
  by (cases m) simp_all

lemma comment_ok_other: "comment_ok m c \<Longrightarrow> c \<noteq> No_comment \<Longrightarrow> comment_ok m d"
  by (cases m) simp_all

lemma spec_rank_le: "1 \<le> spec_rank r" "spec_rank r \<le> 7"
  by (auto simp: spec_rank_def split: json_mode.splits bool.splits)

lemma measure_advance: "sp_ptr r < sp_ptr r' \<Longrightarrow> sp_ptr r' \<le> stop \<Longrightarrow> spec_measure stop r' < spec_measure stop r"
  using spec_rank_le [of r] spec_rank_le [of r'] by (simp add: spec_measure_def nat_diff_distrib) 

lemma mode_ok_value: "mode_ok (fst (spec_value v st)) (snd (spec_value v st))"
  by (induction v st rule: spec_value.induct) simp_all

lemma spec_put_fields [simp]:
  "sp_ptr (spec_put v r) = sp_ptr r" "sp_line (spec_put v r) = sp_line r" "sp_comment (spec_put v r) = sp_comment r"
  by (simp_all add: spec_put_def)

lemma spec_value_mode: "fst (spec_value v st) \<in> {All_done v, Seeking True False, In_members True}"
  by (induction v st rule: spec_value.induct) simp_all

lemma spec_ok_put:
  "0 \<le> sp_ptr r \<Longrightarrow> sp_ptr r \<le> stop \<Longrightarrow> spec_ok stop (spec_put v r)"
  using spec_value_mode [of v "sp_stack r"] mode_ok_value [of v "sp_stack r"]
  by (auto simp: spec_ok_def spec_put_def)

lemma spec_rank_put: "sp_comment r = No_comment \<Longrightarrow> spec_rank (spec_put v r) = 1"
  using spec_value_mode [of v "sp_stack r"] by (auto simp: spec_rank_def spec_put_def)

lemma number_step_ok:
  "number_step b n = Number_more n' \<Longrightarrow> (nm_exp n \<longrightarrow> nm_dbl n \<noteq> None) \<Longrightarrow> nm_exp n' \<longrightarrow> nm_dbl n' \<noteq> None"
  by (auto simp: number_step_def number_digit_def number_after_digits_def Let_def split: if_splits)

lemma number_step_0: "number_step 0 n \<noteq> Number_more n'"
  by (auto simp: number_step_def number_after_digits_def Let_def json_isdigit_def chr_def split: if_splits)

lemma good_spec_next:
  "sp_ptr r' = sp_ptr r \<Longrightarrow> sp_ptr r < stop \<Longrightarrow> 0 \<le> sp_ptr r \<Longrightarrow> mode_ok (sp_mode r') (sp_stack r') \<Longrightarrow>
    comment_ok (sp_mode r') (sp_comment r') \<Longrightarrow> good_step stop r (spec_next r')"
  by (auto simp: spec_next_def spec_ok_def intro!: measure_advance)

lemma good_spec_put_next:
  "sp_ptr r' = sp_ptr r \<Longrightarrow> sp_ptr r < stop \<Longrightarrow> 0 \<le> sp_ptr r \<Longrightarrow> good_step stop r (spec_next (spec_put v r'))"
  using mode_ok_value [of v "sp_stack r'"] spec_value_mode [of v "sp_stack r'"]
  by (intro good_spec_next) (auto simp: spec_put_def)

lemma good_spec_blank:
  "spec_ok stop r \<Longrightarrow> sp_ptr r < stop \<Longrightarrow> good_step stop r (spec_blank b r)"
  unfolding spec_blank_def by (rule good_spec_next) (auto simp: spec_ok_def)

lemma good_spec_literal:
  assumes "spec_text json stop" "spec_ok stop r" "0 \<notin> set rest" "rest \<noteq> []"
  shows "good_step stop r (spec_literal json stop rest v r)"
proof (cases "stop - sp_ptr r < int (length rest)")
  case False
  have p: "0 \<le> sp_ptr r" using assms by (simp add: spec_ok_def)
  have "json_expect json (sp_ptr r) rest \<noteq> Beyond"
    "\<And>x. json_expect json (sp_ptr r) rest = Scanned x \<Longrightarrow> sp_ptr r + int (length rest) < stop"
    using json_expect_bounds [OF assms(1) p, of rest] assms False by auto
  then show ?thesis
    using p by (cases "json_expect json (sp_ptr r) rest")
      (auto simp: spec_literal_def False intro!: spec_ok_put measure_advance)
qed (simp add: spec_literal_def)

lemma good_spec_start:
  assumes "spec_text json stop" "spec_ok stop r" "b \<noteq> 0" "sp_ptr r < stop" "sp_mode r = Seeking False False"
    "sp_comment r = No_comment"
  shows "good_step stop r (spec_start json stop b r)"
proof -
  have p: "0 \<le> sp_ptr r" using assms by (simp add: spec_ok_def)
  show ?thesis
    unfolding spec_start_def
    using assms p
    by (auto intro!: good_spec_next good_spec_literal simp: new_number_def cstr_def chr_def)
       (auto simp: spec_ok_def spec_measure_def spec_rank_def new_number_def)
qed

lemma good_spec_seek:
  assumes "spec_text json stop" "spec_ok stop r" "sp_mode r = Seeking comma colon"
    "sp_comment r = No_comment" "b \<noteq> 0 \<Longrightarrow> sp_ptr r < stop"
  shows "good_step stop r (spec_seek json stop b comma colon r)"
proof (cases "b = 0")
  case True
  then show ?thesis
    by (simp add: spec_seek_def json_whitespace_def chr_def spec_start_def json_isdigit_def)
next
  case False
  with assms have p: "0 \<le> sp_ptr r" "sp_ptr r < stop" "mode_ok (Seeking comma colon) (sp_stack r)"
    by (auto simp: spec_ok_def)
  show ?thesis
    unfolding spec_seek_def
    using assms p False
    by (auto intro!: good_spec_blank good_spec_put_next good_spec_next good_spec_start
             split: list.splits json_frame.splits)
qed

lemma good_spec_members:
  assumes "spec_ok stop r" "sp_mode r = In_members comma" "sp_comment r = No_comment" "b \<noteq> 0 \<Longrightarrow> sp_ptr r < stop"
  shows "good_step stop r (spec_members b comma r)"
proof (cases "b = 0")
  case True
  then show ?thesis by (simp add: spec_members_def json_whitespace_def chr_def)
next
  case False
  with assms have p: "0 \<le> sp_ptr r" "sp_ptr r < stop" "mode_ok (In_members comma) (sp_stack r)"
    by (auto simp: spec_ok_def)
  show ?thesis
    unfolding spec_members_def
    using assms p False
    by (cases "sp_stack r"; cases "hd (sp_stack r)")
       (auto intro!: good_spec_blank good_spec_put_next good_spec_next)
qed

lemma good_spec_number:
  assumes "spec_ok stop r" "sp_mode r = In_number n" "sp_comment r = No_comment" "b \<noteq> 0 \<Longrightarrow> sp_ptr r < stop"
  shows "good_step stop r (spec_outside json stop b r)"
proof -
  have p: "0 \<le> sp_ptr r" "sp_ptr r \<le> stop" "nm_exp n \<longrightarrow> nm_dbl n \<noteq> None"
    using assms by (auto simp: spec_ok_def)
  show ?thesis
  proof (cases "number_step b n")
    case (Number_more n')
    then have "b \<noteq> 0" using number_step_0 by metis
    then show ?thesis
      using Number_more assms p number_step_ok [OF Number_more]
      by (auto simp: spec_outside_def intro!: good_spec_next)
  next
    case (Number_end v)
    then show ?thesis
      using assms p
      by (auto simp: spec_outside_def spec_measure_def spec_rank_put spec_rank_def [of r] intro!: spec_ok_put)
  qed (use assms in \<open>simp add: spec_outside_def\<close>)
qed

lemma good_spec_outside:
  assumes "spec_text json stop" "spec_ok stop r" "sp_comment r = No_comment" "b \<noteq> 0 \<Longrightarrow> sp_ptr r < stop"
    "\<And>e cs. sp_mode r \<noteq> In_string e cs" "\<And>e cs. sp_mode r \<noteq> In_key e cs"
  shows "good_step stop r (spec_outside json stop b r)"
  using assms
  by (cases "sp_mode r")
     (auto simp: good_spec_number, auto simp: spec_outside_def good_spec_seek good_spec_members intro!: good_spec_blank)

lemma good_spec_comment:
  assumes "spec_text json stop" "spec_ok stop r" "b \<noteq> 0 \<Longrightarrow> sp_ptr r < stop"
    "sp_comment r \<noteq> No_comment \<or> b = chr CHR ''/''"
    "\<And>e cs. sp_mode r \<noteq> In_string e cs" "\<And>e cs. sp_mode r \<noteq> In_key e cs"
  shows "good_step stop r (spec_in_comment json stop b r)"
proof -
  have p: "0 \<le> sp_ptr r" "sp_ptr r \<le> stop" "mode_ok (sp_mode r) (sp_stack r)"
    "sp_comment r \<noteq> No_comment \<Longrightarrow> sp_mode r \<noteq> In_number n" for n
    using assms by (auto simp: spec_ok_def)
  have z: "sp_ptr r + 1 < stop" if "json_peek json (sp_ptr r + 1) = Some c" "c \<noteq> 0" "sp_ptr r < stop" for c
  proof -
    have "sp_ptr r + 1 \<noteq> stop" using that assms(1) by (auto simp: spec_text_def)
    with that show ?thesis by simp
  qed
  have adv: "good_step stop r (Go (r\<lparr>sp_comment := c, sp_ptr := sp_ptr r + 2\<rparr>))"
    if "sp_ptr r + 1 < stop" "\<And>n. sp_mode r \<noteq> In_number n" for c
    using that p assms by (cases "sp_mode r") (auto simp: spec_ok_def intro!: measure_advance)
  show ?thesis
  proof (cases "sp_comment r")
    case No_comment
    then have "b \<noteq> 0" "sp_ptr r < stop" using assms by (auto simp: chr_def)
    then show ?thesis
      using No_comment adv z [of "chr CHR ''/''"] z [of "chr CHR ''*''"]
      by (auto simp: spec_in_comment_def chr_def split: json_mode.splits)
  next
    case Line_comment
    show ?thesis
    proof (cases "b = 13 \<or> b = 10 \<or> b = 0")
      case True
      then show ?thesis
        using Line_comment p assms by (auto simp: spec_in_comment_def spec_ok_def spec_measure_def spec_rank_def split: json_mode.splits)
    next
      case False
      then show ?thesis
        using Line_comment p assms
        by (auto simp: spec_in_comment_def spec_ok_def intro!: good_spec_next intro: comment_ok_other)
    qed
  next
    case Block_comment
    then show ?thesis
      using p assms adv z [of "chr CHR ''/''"]
      by (auto simp: spec_in_comment_def spec_ok_def chr_def intro!: good_spec_next intro: comment_ok_other)
  qed
qed

lemma spec_char_more:
  assumes "spec_text json stop" "0 \<le> p" "b \<noteq> 0 \<Longrightarrow> p < stop"
  shows "spec_char json stop b p e cs \<noteq> Char_stuck"
    "spec_char json stop b p e cs = Char_more e' cs' q \<Longrightarrow> p \<le> q \<and> q < stop \<and> b \<noteq> 0"
    "spec_char json stop b p e cs = Char_closed \<Longrightarrow> b \<noteq> 0"
  using json_unicode_bounds [OF assms(1,2)] assms
  by (force simp: spec_char_def split: if_splits json_scan.splits prod.splits)+

theorem spec_step_progress:
  assumes "spec_text json stop" "spec_ok stop r"
  shows "good_step stop r (spec_step json stop comments r)"
proof -
  have p: "0 \<le> sp_ptr r" "sp_ptr r \<le> stop" using assms by (auto simp: spec_ok_def)
  obtain b where b: "(if sp_ptr r = stop then Some 0 else json_peek json (sp_ptr r)) = Some b"
      "b \<noteq> 0 \<Longrightarrow> sp_ptr r < stop"
  proof (cases "sp_ptr r = stop")
    case False
    obtain b where "json_peek json (sp_ptr r) = Some b" using spec_text_peek [OF assms(1) p] by metis
    with that False p show ?thesis by auto
  qed (use that in auto)
  consider (string) e cs where "sp_mode r = In_string e cs" | (key) e cs where "sp_mode r = In_key e cs"
    | (outside) "\<And>e cs. sp_mode r \<noteq> In_string e cs" "\<And>e cs. sp_mode r \<noteq> In_key e cs"
    by (cases "sp_mode r") auto
  then show ?thesis
  proof cases
    case string
    then have c: "sp_comment r = No_comment" using assms by (simp add: spec_ok_def)
    show ?thesis
      using string b p c spec_char_more [where b = b and e = e and cs = cs, OF assms(1) p(1) b(2)]
      by (cases "spec_char json stop b (sp_ptr r) e cs")
         (auto simp: spec_step_def spec_ok_def intro!: measure_advance good_spec_put_next)
  next
    case key
    then have c: "sp_comment r = No_comment" "mode_ok (In_key e cs) (sp_stack r)" using assms by (auto simp: spec_ok_def)
    show ?thesis
      using key b p c spec_char_more [where b = b and e = e and cs = cs, OF assms(1) p(1) b(2)]
      by (cases "spec_char json stop b (sp_ptr r) e cs"; cases "sp_stack r"; cases "hd (sp_stack r)")
         (auto simp: spec_step_def spec_ok_def spec_key_done_def intro!: measure_advance good_spec_next)
  next
    case outside
    have "spec_step json stop comments r =
      (if sp_comment r \<noteq> No_comment \<or> comments \<and> b = chr CHR ''/'' then spec_in_comment json stop b r
       else spec_outside json stop b r)"
      unfolding spec_step_def b(1) using outside by (auto split: json_mode.splits)
    then show ?thesis
      using good_spec_outside [OF assms _ b(2) outside] good_spec_comment [OF assms b(2) _ outside] by auto
  qed
qed

end
