(* ===== verification/JsonFirst.thy ===== *)
theory JsonFirst
  imports JsonSpec
begin


section \<open>Places of values\<close>

fun json_nodes :: "json \<Rightarrow> nat" where
  "json_nodes (JArray vs) = 1 + sum_list (map json_nodes vs)"
| "json_nodes (JObject ms) = 1 + sum_list (map (\<lambda>m. json_nodes (snd m)) ms)"
| "json_nodes _ = 1"

fun frame_nodes :: "json_frame \<Rightarrow> nat" where
  "frame_nodes (In_array vs) = 1 + sum_list (map json_nodes vs)"
| "frame_nodes (In_object ms k) = 1 + sum_list (map (\<lambda>m. json_nodes (snd m)) ms)"

definition stack_nodes :: "json_frame list \<Rightarrow> nat" where
  "stack_nodes st = sum_list (map frame_nodes st)"

fun parent_of :: "json_frame list \<Rightarrow> nat option" where
  "parent_of [] = None"
| "parent_of (fr # st) = Some (stack_nodes st)"

definition names_size :: "(bytes \<times> json) list \<Rightarrow> nat" where
  "names_size ms = sum_list (map (\<lambda>m. length (fst m) + 1) ms)"

fun mode_next :: "json_mode \<Rightarrow> json_frame list \<Rightarrow> nat" where
  "mode_next (In_string e cs) st = stack_nodes st + 1"
| "mode_next (In_number n) st = stack_nodes st + 1"
| "mode_next (All_done v) st = json_nodes v"
| "mode_next (In_key e cs) st = stack_nodes st"
| "mode_next (In_members c) st = stack_nodes st"
| "mode_next (Seeking c d) st = stack_nodes st"

fun mode_top :: "json_mode \<Rightarrow> json_frame list \<Rightarrow> nat option" where
  "mode_top (In_string e cs) st = Some (stack_nodes st)"
| "mode_top (In_number n) st = Some (stack_nodes st)"
| "mode_top (All_done v) st = Some 0"
| "mode_top (In_key e cs) st = parent_of st"
| "mode_top (In_members c) st = parent_of st"
| "mode_top (Seeking c d) st = parent_of st"

fun mode_flags :: "json_mode \<Rightarrow> json_flag set" where
  "mode_flags (In_string e cs) = {flag_string} \<union> (if e then {flag_escaped} else {})"
| "mode_flags (In_key e cs) = {flag_string} \<union> (if e then {flag_escaped} else {})"
| "mode_flags (In_number n) = {}"
| "mode_flags (All_done v) = {flag_done, flag_need_comma}"
| "mode_flags (In_members c) = (if c then {flag_need_comma} else {})"
| "mode_flags (Seeking c d) = {flag_seek_value} \<union> (if c then {flag_need_comma} else {}) \<union> (if d then {flag_need_colon} else {})"

fun comment_flags :: "json_comment_state \<Rightarrow> json_flag set" where
  "comment_flags No_comment = {}"
| "comment_flags Line_comment = {flag_line_comment}"
| "comment_flags Block_comment = {flag_block_comment}"

definition ctl :: "json_flag set \<Rightarrow> json_flag set" where
  "ctl F = F - number_flags"

lemma ctl_simps [simp]:
  "ctl (insert x F) = (if x \<in> number_flags then ctl F else insert x (ctl F))"
  "ctl (F \<union> G) = ctl F \<union> ctl G" "ctl (F - G) = ctl F - G" "ctl {} = {}"
  by (auto simp: ctl_def)

lemma number_flags_mem [simp]:
  "flag_next \<notin> number_flags" "flag_reproc \<notin> number_flags" "flag_need_comma \<notin> number_flags"
  "flag_seek_value \<notin> number_flags" "flag_escaped \<notin> number_flags" "flag_string \<notin> number_flags"
  "flag_need_colon \<notin> number_flags" "flag_done \<notin> number_flags" "flag_line_comment \<notin> number_flags"
  "flag_block_comment \<notin> number_flags" "flag_num_negative \<in> number_flags" "flag_num_zero \<in> number_flags"
  "flag_num_e \<in> number_flags" "flag_num_e_got_sign \<in> number_flags" "flag_num_e_negative \<in> number_flags"
  by (simp_all add: number_flags_def)

lemma ctl_number_flags [simp]: "ctl F - number_flags = ctl F"
  by (auto simp: ctl_def)

lemma ctl_mem:
  assumes "ctl F = S"
  shows "flag_next \<in> F \<longleftrightarrow> flag_next \<in> S" "flag_reproc \<in> F \<longleftrightarrow> flag_reproc \<in> S"
    "flag_need_comma \<in> F \<longleftrightarrow> flag_need_comma \<in> S" "flag_seek_value \<in> F \<longleftrightarrow> flag_seek_value \<in> S"
    "flag_escaped \<in> F \<longleftrightarrow> flag_escaped \<in> S" "flag_string \<in> F \<longleftrightarrow> flag_string \<in> S"
    "flag_need_colon \<in> F \<longleftrightarrow> flag_need_colon \<in> S" "flag_done \<in> F \<longleftrightarrow> flag_done \<in> S"
    "flag_line_comment \<in> F \<longleftrightarrow> flag_line_comment \<in> S" "flag_block_comment \<in> F \<longleftrightarrow> flag_block_comment \<in> S"
  using assms by (auto simp: ctl_def number_flags_def)

section \<open>The heap of the first pass\<close>

definition node_is :: "(nat \<rightharpoonup> json_value) \<Rightarrow> nat \<Rightarrow> nat option \<Rightarrow> json_type \<Rightarrow> (json_value \<Rightarrow> bool) \<Rightarrow> bool" where
  "node_is H a p t P \<longleftrightarrow> (\<exists>v. H a = Some v \<and> jv_parent v = p \<and> jv_type v = t \<and> P v)"

fun counted :: "(nat \<rightharpoonup> json_value) \<Rightarrow> nat option \<Rightarrow> nat \<Rightarrow> json \<Rightarrow> bool"
  and counted_list :: "(nat \<rightharpoonup> json_value) \<Rightarrow> nat option \<Rightarrow> nat \<Rightarrow> json list \<Rightarrow> bool"
  and counted_members :: "(nat \<rightharpoonup> json_value) \<Rightarrow> nat option \<Rightarrow> nat \<Rightarrow> (bytes \<times> json) list \<Rightarrow> bool" where
  "counted H p a (JArray vs) \<longleftrightarrow>
     node_is H a p json_array (\<lambda>v. jv_length v = length vs \<and> jv_ptr v = Counter 0) \<and> counted_list H (Some a) (a + 1) vs"
| "counted H p a (JObject ms) \<longleftrightarrow>
     node_is H a p json_object (\<lambda>v. jv_length v = length ms \<and> jv_ptr v = Counter (names_size ms))
     \<and> counted_members H (Some a) (a + 1) ms"
| "counted H p a (JInteger i) \<longleftrightarrow> node_is H a p json_integer (\<lambda>v. jv_integer v = i)"
| "counted H p a (JDouble d) \<longleftrightarrow> node_is H a p json_double (\<lambda>v. jv_dbl v = d)"
| "counted H p a (JString cs) \<longleftrightarrow> node_is H a p json_string (\<lambda>v. jv_length v = length cs \<and> jv_ptr v = Counter 0)"
| "counted H p a (JBoolean b) \<longleftrightarrow> node_is H a p json_boolean (\<lambda>v. jv_boolean v = b)"
| "counted H p a JNull \<longleftrightarrow> node_is H a p json_null (\<lambda>v. True)"
| "counted_list H p a [] \<longleftrightarrow> True"
| "counted_list H p a (v # vs) \<longleftrightarrow> counted H p a v \<and> counted_list H p (a + json_nodes v) vs"
| "counted_members H p a [] \<longleftrightarrow> True"
| "counted_members H p a ((k, v) # ms) \<longleftrightarrow> counted H p a v \<and> counted_members H p (a + json_nodes v) ms"

fun counted_open :: "(nat \<rightharpoonup> json_value) \<Rightarrow> bool \<Rightarrow> json_frame list \<Rightarrow> bool" where
  "counted_open H pending [] \<longleftrightarrow> True"
| "counted_open H pending (In_array vs # st) \<longleftrightarrow>
     node_is H (stack_nodes st) (parent_of st) json_array (\<lambda>v. jv_length v = length vs \<and> jv_ptr v = Counter 0)
     \<and> counted_list H (Some (stack_nodes st)) (stack_nodes st + 1) vs \<and> counted_open H True st"
| "counted_open H pending (In_object ms k # st) \<longleftrightarrow>
     node_is H (stack_nodes st) (parent_of st) json_object (\<lambda>v. jv_length v = length ms
        \<and> jv_ptr v = Counter (names_size ms + (if pending then length k + 1 else 0)))
     \<and> counted_members H (Some (stack_nodes st)) (stack_nodes st + 1) ms \<and> counted_open H True st"

definition core :: "json_value \<Rightarrow> json_value" where
  "core v = v\<lparr>jv_reserved := Next_alloc None\<rparr>"

definition same_on :: "nat set \<Rightarrow> (nat \<rightharpoonup> json_value) \<Rightarrow> (nat \<rightharpoonup> json_value) \<Rightarrow> bool" where
  "same_on A H H' \<longleftrightarrow> (\<forall>a\<in>A. map_option core (H a) = map_option core (H' a))"

lemma core_fields:
  "core v = core w \<Longrightarrow> jv_parent v = jv_parent w \<and> jv_type v = jv_type w \<and> jv_boolean v = jv_boolean w
     \<and> jv_integer v = jv_integer w \<and> jv_dbl v = jv_dbl w \<and> jv_length v = jv_length w \<and> jv_ptr v = jv_ptr w"
  by (cases v; cases w) (simp add: core_def)

lemma same_on_node:
  assumes "same_on A H H'" "a \<in> A" "node_is H a p t P"
    "\<And>v w. core v = core w \<Longrightarrow> P v \<Longrightarrow> P w"
  shows "node_is H' a p t P"
proof -
  obtain v where v: "H a = Some v" "jv_parent v = p" "jv_type v = t" "P v" using assms(3) by (auto simp: node_is_def)
  have "map_option core (H a) = map_option core (H' a)" using assms(1,2) by (simp add: same_on_def)
  with v(1) have "map_option core (H' a) = Some (core v)" by simp
  then obtain w where w: "H' a = Some w" "core v = core w" by auto
  with v core_fields [OF w(2)] assms(4) [OF w(2)] show ?thesis by (auto simp: node_is_def)
qed

lemma same_on_mono: "same_on A H H' \<Longrightarrow> B \<subseteq> A \<Longrightarrow> same_on B H H'"
  by (auto simp: same_on_def)

lemma counted_same:
  "counted H p a v \<Longrightarrow> same_on {a ..< a + json_nodes v} H H' \<Longrightarrow> counted H' p a v"
  "counted_list H p a vs \<Longrightarrow> same_on {a ..< a + sum_list (map json_nodes vs)} H H' \<Longrightarrow> counted_list H' p a vs"
  "counted_members H p a ms \<Longrightarrow> same_on {a ..< a + sum_list (map (\<lambda>m. json_nodes (snd m)) ms)} H H' \<Longrightarrow>
     counted_members H' p a ms"
proof (induction H p a v and H p a vs and H p a ms rule: counted_counted_list_counted_members.induct)
  case (1 H p a vs)
  have "node_is H' a p json_array (\<lambda>v. jv_length v = length vs \<and> jv_ptr v = Counter 0)"
    using 1 by (intro same_on_node [OF "1.prems"(2)]) (auto dest: core_fields)
  moreover have "same_on {a + 1 ..< a + 1 + sum_list (map json_nodes vs)} H H'"
    using "1.prems" by (auto intro: same_on_mono)
  ultimately show ?case using 1 by simp
next
  case (2 H p a ms)
  have "node_is H' a p json_object (\<lambda>v. jv_length v = length ms \<and> jv_ptr v = Counter (names_size ms))"
    using 2 by (intro same_on_node [OF "2.prems"(2)]) (auto dest: core_fields)
  moreover have "same_on {a + 1 ..< a + 1 + sum_list (map (\<lambda>m. json_nodes (snd m)) ms)} H H'"
    using "2.prems" by (auto intro: same_on_mono)
  ultimately show ?case using 2 by simp
next
  case (9 H p a v vs)
  have "same_on {a ..< a + json_nodes v} H H'"
    "same_on {a + json_nodes v ..< a + json_nodes v + sum_list (map json_nodes vs)} H H'"
    using "9.prems" by (auto intro: same_on_mono)
  then show ?case using 9 by simp
next
  case (11 H p a k v ms)
  have "same_on {a ..< a + json_nodes v} H H'"
    "same_on {a + json_nodes v ..< a + json_nodes v + sum_list (map (\<lambda>m. json_nodes (snd m)) ms)} H H'"
    using "11.prems" by (auto intro: same_on_mono)
  then show ?case using 11 by simp
qed (auto elim!: same_on_node dest: core_fields)

lemma stack_nodes_simps [simp]:
  "stack_nodes [] = 0" "stack_nodes (fr # st) = frame_nodes fr + stack_nodes st"
  by (simp_all add: stack_nodes_def)

lemma frame_nodes_pos: "1 \<le> frame_nodes fr"
  by (cases fr) simp_all

lemma counted_open_same:
  "counted_open H pending st \<Longrightarrow> same_on {..<stack_nodes st} H H' \<Longrightarrow> counted_open H' pending st"
proof (induction H pending st rule: counted_open.induct)
  case (2 H pending vs st)
  let ?n = "stack_nodes st"
  have "node_is H' ?n (parent_of st) json_array (\<lambda>v. jv_length v = length vs \<and> jv_ptr v = Counter 0)"
    using 2 by (intro same_on_node [OF "2.prems"(2)]) (auto dest: core_fields)
  moreover have "same_on {?n + 1 ..< ?n + 1 + sum_list (map json_nodes vs)} H H'" "same_on {..<?n} H H'"
    using "2.prems" by (auto intro: same_on_mono)
  moreover have "counted_list H' (Some ?n) (?n + 1) vs" using 2 calculation by (auto intro: counted_same(2))
  ultimately show ?case using 2 by simp
next
  case (3 H pending ms k st)
  let ?n = "stack_nodes st"
  have "node_is H' ?n (parent_of st) json_object (\<lambda>v. jv_length v = length ms
        \<and> jv_ptr v = Counter (names_size ms + (if pending then length k + 1 else 0)))"
    using 3 by (intro same_on_node [OF "3.prems"(2)]) (auto dest: core_fields)
  moreover have "same_on {?n + 1 ..< ?n + 1 + sum_list (map (\<lambda>m. json_nodes (snd m)) ms)} H H'" "same_on {..<?n} H H'"
    using "3.prems" by (auto intro: same_on_mono)
  moreover have "counted_members H' (Some ?n) (?n + 1) ms" using 3 calculation by (auto intro: counted_same(3))
  ultimately show ?case using 3 by simp
qed simp

lemma counted_list_append:
  "counted_list H p a (vs @ ws) \<longleftrightarrow> counted_list H p a vs \<and> counted_list H p (a + sum_list (map json_nodes vs)) ws"
  by (induction vs arbitrary: a) (auto simp: add.assoc)

lemma counted_members_append:
  "counted_members H p a (ms @ ns) \<longleftrightarrow>
     counted_members H p a ms \<and> counted_members H p (a + sum_list (map (\<lambda>m. json_nodes (snd m)) ms)) ns"
  by (induction ms arbitrary: a) (auto simp: add.assoc)

lemma names_size_simps [simp]:
  "names_size [] = 0" "names_size ((k, v) # ms) = length k + 1 + names_size ms"
  "names_size (ms @ ns) = names_size ms + names_size ns"
  by (simp_all add: names_size_def)


lemma json_nodes_pos: "1 \<le> json_nodes v"
  by (cases v) simp_all

lemma json_nodes_length:
  "length vs \<le> sum_list (map json_nodes vs)"
  "length ms \<le> sum_list (map (\<lambda>m. json_nodes (snd m)) ms)"
proof -
  show "length vs \<le> sum_list (map json_nodes vs)"
  proof (induction vs)
    case (Cons v vs)
    then show ?case using json_nodes_pos [of v] by simp
  qed simp
  show "length ms \<le> sum_list (map (\<lambda>m. json_nodes (snd m)) ms)"
  proof (induction ms)
    case (Cons m ms)
    then show ?case using json_nodes_pos [of "snd m"] by simp
  qed simp
qed

section \<open>States of the first pass\<close>

definition chain_ok :: "json_state \<Rightarrow> bool" where
  "chain_ok s \<longleftrightarrow> js_first_pass s \<and> js_blocks s = Map.empty \<and> js_used_memory s = 0
     \<and> (\<forall>a. js_values s a \<noteq> None \<longleftrightarrow> a < js_next s)
     \<and> js_root s = (if js_next s = 0 then None else Some 0)
     \<and> js_alloc s = (if js_next s = 0 then None else Some (js_next s - 1))
     \<and> (\<forall>a v. js_values s a = Some v \<longrightarrow> jv_reserved v = Next_alloc (if a + 1 < js_next s then Some (a + 1) else None))"

fun number_flags_of :: "json_number \<Rightarrow> json_flag set" where
  "number_flags_of n = (if nm_negative n then {flag_num_negative} else {}) \<union> (if nm_zero n then {flag_num_zero} else {})
     \<union> (if nm_exp n then {flag_num_e} else {}) \<union> (if nm_got_sign n then {flag_num_e_got_sign} else {})
     \<union> (if nm_exp_negative n then {flag_num_e_negative} else {})"

fun mode_locals :: "json_mode \<Rightarrow> json_state \<Rightarrow> bool" where
  "mode_locals (In_string e cs) s \<longleftrightarrow> js_string_length s = length cs"
| "mode_locals (In_key e cs) s \<longleftrightarrow> js_string_length s = length cs"
| "mode_locals (In_number n) s \<longleftrightarrow> js_flags s \<inter> number_flags = number_flags_of n \<and> js_num_digits s = nm_digits n
     \<and> js_num_e s = nm_e n \<and> js_num_fraction s = nm_fraction n"
| "mode_locals (Seeking c d) s \<longleftrightarrow> True"
| "mode_locals (In_members c) s \<longleftrightarrow> True"
| "mode_locals (All_done v) s \<longleftrightarrow> True"

fun counted_mode :: "(nat \<rightharpoonup> json_value) \<Rightarrow> json_mode \<Rightarrow> json_frame list \<Rightarrow> bool" where
  "counted_mode H (Seeking c d) st \<longleftrightarrow> counted_open H True st"
| "counted_mode H (In_members c) st \<longleftrightarrow> counted_open H False st"
| "counted_mode H (In_key e cs) st \<longleftrightarrow> counted_open H False st"
| "counted_mode H (In_string e cs) st \<longleftrightarrow> counted_open H True st
     \<and> node_is H (stack_nodes st) (parent_of st) json_string (\<lambda>v. jv_ptr v = Counter 0)"
| "counted_mode H (In_number n) st \<longleftrightarrow> counted_open H True st
     \<and> node_is H (stack_nodes st) (parent_of st) (if nm_dbl n = None then json_integer else json_double)
         (\<lambda>v. jv_integer v = nm_int n \<and> (\<forall>d. nm_dbl n = Some d \<longrightarrow> jv_dbl v = d))"
| "counted_mode H (All_done v) st \<longleftrightarrow> counted H None 0 v"

definition first_rel :: "json_spec \<Rightarrow> json_state \<Rightarrow> bool" where
  "first_rel r s \<longleftrightarrow> chain_ok s \<and> js_ptr s = sp_ptr r \<and> js_cur_line s = sp_line r
     \<and> ctl (js_flags s) = mode_flags (sp_mode r) \<union> comment_flags (sp_comment r)
     \<and> js_next s = mode_next (sp_mode r) (sp_stack r) \<and> js_top s = mode_top (sp_mode r) (sp_stack r)
     \<and> mode_locals (sp_mode r) s \<and> counted_mode (js_values s) (sp_mode r) (sp_stack r)"

text \<open>A state in which the value \<open>w\<close> at the top is complete and \<open>flag_next\<close> has been set.\<close>

definition first_closing :: "json_spec \<Rightarrow> json \<Rightarrow> json_state \<Rightarrow> bool" where
  "first_closing r w s \<longleftrightarrow> chain_ok s
     \<and> js_ptr s + 1 = sp_ptr r + (if flag_reproc \<in> js_flags s then 1 else 0) \<and> js_cur_line s = sp_line r
     \<and> ctl (js_flags s) - {flag_reproc} = {flag_next} \<and> sp_comment r = No_comment
     \<and> js_next s = stack_nodes (sp_stack r) + json_nodes w \<and> js_top s = Some (stack_nodes (sp_stack r))
     \<and> counted_open (js_values s) True (sp_stack r)
     \<and> counted (js_values s) (parent_of (sp_stack r)) (stack_nodes (sp_stack r)) w"

lemma chain_ok_set:
  assumes "chain_ok s" "js_values s a = Some v" "jv_reserved w = jv_reserved v"
  shows "chain_ok (set_value a w s)"
  using assms by (auto simp: chain_ok_def set_value_def split: if_splits)

lemma chain_ok_cong:
  "chain_ok s \<Longrightarrow> js_first_pass s' = js_first_pass s \<Longrightarrow> js_blocks s' = js_blocks s \<Longrightarrow> js_used_memory s' = js_used_memory s
   \<Longrightarrow> js_values s' = js_values s \<Longrightarrow> js_root s' = js_root s \<Longrightarrow> js_alloc s' = js_alloc s \<Longrightarrow> js_next s' = js_next s
   \<Longrightarrow> chain_ok s'"
  by (simp add: chain_ok_def)

lemma set_fields [simp]:
  "js_values (set_value a v s) = (js_values s)(a \<mapsto> v)" "js_flags (set_value a v s) = js_flags s"
  "js_ptr (set_value a v s) = js_ptr s" "js_cur_line (set_value a v s) = js_cur_line s" "js_top (set_value a v s) = js_top s"
  "js_next (set_value a v s) = js_next s" "js_first_pass (set_value a v s) = js_first_pass s"
  "js_root (set_value a v s) = js_root s" "js_alloc (set_value a v s) = js_alloc s" "js_blocks (set_value a v s) = js_blocks s"
  "js_used_memory (set_value a v s) = js_used_memory s" "js_string (set_value a v s) = js_string s"
  "js_string_length (set_value a v s) = js_string_length s" "js_num_digits (set_value a v s) = js_num_digits s"
  "js_num_e (set_value a v s) = js_num_e s" "js_num_fraction (set_value a v s) = js_num_fraction s"
  "js_values (set_flags F s) = js_values s" "js_flags (set_flags F s) = F"
  "js_ptr (set_flags F s) = js_ptr s" "js_cur_line (set_flags F s) = js_cur_line s" "js_top (set_flags F s) = js_top s"
  "js_next (set_flags F s) = js_next s" "js_first_pass (set_flags F s) = js_first_pass s"
  "js_root (set_flags F s) = js_root s" "js_alloc (set_flags F s) = js_alloc s" "js_blocks (set_flags F s) = js_blocks s"
  "js_used_memory (set_flags F s) = js_used_memory s" "js_string (set_flags F s) = js_string s"
  "js_string_length (set_flags F s) = js_string_length s" "js_num_digits (set_flags F s) = js_num_digits s"
  "js_num_e (set_flags F s) = js_num_e s" "js_num_fraction (set_flags F s) = js_num_fraction s"
  "js_values (set_block a b s) = js_values s" "js_flags (set_block a b s) = js_flags s"
  "js_ptr (set_block a b s) = js_ptr s" "js_cur_line (set_block a b s) = js_cur_line s" "js_top (set_block a b s) = js_top s"
  "js_next (set_block a b s) = js_next s" "js_first_pass (set_block a b s) = js_first_pass s"
  "js_root (set_block a b s) = js_root s" "js_alloc (set_block a b s) = js_alloc s"
  "js_blocks (set_block a b s) = (js_blocks s)(a \<mapsto> b)" "js_used_memory (set_block a b s) = js_used_memory s"
  "js_string (set_block a b s) = js_string s" "js_string_length (set_block a b s) = js_string_length s"
  "js_num_digits (set_block a b s) = js_num_digits s" "js_num_e (set_block a b s) = js_num_e s"
  "js_num_fraction (set_block a b s) = js_num_fraction s"
  by (simp_all add: set_value_def set_flags_def set_block_def)

lemma same_on_upd: "a \<notin> A \<Longrightarrow> same_on A H (H(a \<mapsto> v))"
  by (simp add: same_on_def)

lemma counted_open_upd: "counted_open H pending st \<Longrightarrow> stack_nodes st \<le> a \<Longrightarrow> counted_open (H(a \<mapsto> v)) pending st"
  by (erule counted_open_same) (auto intro: same_on_upd)

lemma counted_upd:
  "counted H p a v \<Longrightarrow> b < a \<Longrightarrow> counted (H(b \<mapsto> x)) p a v"
  "counted_list H p a vs \<Longrightarrow> b < a \<Longrightarrow> counted_list (H(b \<mapsto> x)) p a vs"
  "counted_members H p a ms \<Longrightarrow> b < a \<Longrightarrow> counted_members (H(b \<mapsto> x)) p a ms"
  by (erule counted_same, rule same_on_upd, simp)+

lemma counted_parent: "counted H p a v \<Longrightarrow> \<exists>x. H a = Some x \<and> jv_parent x = p"
  by (cases v) (auto simp: node_is_def)

text \<open>The end of a value: its parent counts it.\<close>

lemma first_finish:
  assumes c: "first_closing r w s" and b: "js_next s \<le> uint_max"
  shows "\<exists>s'. json_finish s = Continue s' \<and> first_rel (spec_put w r) (s'\<lparr>js_ptr := js_ptr s' + 1\<rparr>)"
proof -
  let ?st = "sp_stack r" let ?a = "stack_nodes (sp_stack r)"
  let ?s = "set_flags (insert flag_need_comma (js_flags s - {flag_reproc} - {flag_next})) (s\<lparr>js_ptr := sp_ptr r - 1\<rparr>)"
  have f: "chain_ok s" "js_ptr s + 1 = sp_ptr r + (if flag_reproc \<in> js_flags s then 1 else 0)" "js_cur_line s = sp_line r"
    "ctl (js_flags s) - {flag_reproc} = {flag_next}" "sp_comment r = No_comment" "js_next s = ?a + json_nodes w"
    "js_top s = Some ?a" "counted_open (js_values s) True ?st" "counted (js_values s) (parent_of ?st) ?a w"
    using c by (simp_all add: first_closing_def)
  have nx: "flag_next \<in> js_flags s" using f(4) by (auto simp: ctl_def)
  have fin: "json_finish s = json_value_done ?s"
  proof -
    have "sp_ptr r - 1 = js_ptr s - (if flag_reproc \<in> js_flags s then 1 else 0)" using f(2) by simp
    then show ?thesis using nx by (cases s) (auto simp: json_finish_def set_flags_def)
  qed
  obtain x where x: "js_values s ?a = Some x" "jv_parent x = parent_of ?st" using counted_parent [OF f(9)] by auto
  have ctl: "ctl (insert flag_need_comma (js_flags s - {flag_reproc} - {flag_next})) = {flag_need_comma}"
    using f(4) by auto
  have ch: "chain_ok ?s" using f(1) by (rule chain_ok_cong) simp_all
  show ?thesis
  proof (cases ?st)
    case Nil
    let ?t = "set_flags (insert flag_done (js_flags ?s)) ?s"
    have "json_finish s = Continue ?t" using fin x f Nil by (simp add: json_value_done_def on_value_def)
    moreover have "chain_ok (?t\<lparr>js_ptr := js_ptr ?t + 1\<rparr>)" using ch by (rule chain_ok_cong) simp_all
    then have "first_rel (spec_put w r) (?t\<lparr>js_ptr := js_ptr ?t + 1\<rparr>)"
      using Nil f ctl by (auto simp: first_rel_def spec_put_def)
    ultimately show ?thesis by blast
  next
    case (Cons fr st)
    let ?p = "stack_nodes st"
    have lt: "?p < ?a" using Cons frame_nodes_pos [of fr] by simp
    obtain y where y: "js_values s ?p = Some y" using f(8) Cons by (cases fr) (auto simp: node_is_def)
    let ?y = "y\<lparr>jv_length := jv_length y + 1\<rparr>"
    have w: "counted ((js_values s)(?p \<mapsto> ?y)) (Some ?p) ?a w"
      using f(9) lt Cons by (auto intro: counted_upd)
    have co: "counted_open ((js_values s)(?p \<mapsto> ?y)) True st"
      using f(8) Cons by (cases fr) (auto intro: counted_open_upd)
    define t where "t = (set_value ?p ?y (if jv_type y = json_array then set_flags (insert flag_seek_value (js_flags ?s)) ?s
      else ?s))\<lparr>js_top := Some ?p\<rparr>"
    have "chain_ok (set_value ?p ?y ?s)" by (rule chain_ok_set [OF ch]) (simp_all add: y)
    then have cht: "chain_ok (t\<lparr>js_ptr := js_ptr t + 1\<rparr>)" unfolding t_def by (rule chain_ok_cong) simp_all
    have fin': "json_finish s = Continue t" if "jv_length y + 1 \<le> uint_max"
      using that fin x f(1,7) Cons y by (auto simp: json_value_done_def on_value_def t_def Let_def chain_ok_def)
    show ?thesis
    proof (cases fr)
      case (In_array vs)
      have "length vs \<le> sum_list (map json_nodes vs)" by (rule json_nodes_length)
      then have "jv_length y + 1 \<le> uint_max"
        using b f(6,8) y Cons In_array by (auto simp: node_is_def)
      moreover have "jv_type y = json_array" using f(8) y Cons In_array by (auto simp: node_is_def)
      moreover have "counted_list ((js_values s)(?p \<mapsto> ?y)) (Some ?p) (Suc ?p) (vs @ [w])"
        using f(8) w Cons In_array by (auto simp: counted_list_append add_ac intro: counted_upd)
      ultimately have "first_rel (spec_put w r) (t\<lparr>js_ptr := js_ptr t + 1\<rparr>)" "json_finish s = Continue t"
        using fin' f ctl cht y co Cons In_array by (auto simp: first_rel_def spec_put_def node_is_def t_def)
      then show ?thesis by blast
    next
      case (In_object ms k)
      have "length ms \<le> sum_list (map (\<lambda>m. json_nodes (snd m)) ms)" by (rule json_nodes_length)
      then have "jv_length y + 1 \<le> uint_max"
        using b f(6,8) y Cons In_object by (auto simp: node_is_def)
      moreover have "jv_type y = json_object" using f(8) y Cons In_object by (auto simp: node_is_def)
      moreover have "counted_members ((js_values s)(?p \<mapsto> ?y)) (Some ?p) (Suc ?p) (ms @ [(k, w)])"
        using f(8) w Cons In_object by (auto simp: counted_members_append add_ac intro: counted_upd)
      ultimately have "first_rel (spec_put w r) (t\<lparr>js_ptr := js_ptr t + 1\<rparr>)" "json_finish s = Continue t"
        using fin' f ctl cht y co Cons In_object by (auto simp: first_rel_def spec_put_def node_is_def t_def)
      then show ?thesis by blast
    qed
  qed
qed

section \<open>New values\<close>

lemma core_blank [simp]: "core (blank_value t p) = blank_value t p"
  by (simp add: core_def blank_value_def)

lemma core_reserved [simp]: "core (v\<lparr>jv_reserved := x\<rparr>) = core v"
  by (simp add: core_def)

lemma first_new_value:
  assumes ch: "chain_ok s" and mx: "jx_max_memory env = 0"
  obtains (fail) "new_value env t s = Fail Memory_allocation_failure s" "\<not> jx_malloc env (js_next s)"
  | (ok) s' x where "new_value env t s = Proceed s'" "chain_ok s'" "js_next s' = js_next s + 1"
      "js_top s' = Some (js_next s)" "same_on {..<js_next s} (js_values s) (js_values s')"
      "js_values s' (js_next s) = Some x" "core x = blank_value t (js_top s)"
      "js_ptr s' = js_ptr s" "js_cur_line s' = js_cur_line s" "js_flags s' = js_flags s"
proof (cases "jx_malloc env (js_next s)")
  case False
  then show ?thesis using assms fail by (auto simp: new_value_def json_alloc_def chain_ok_def)
next
  case True
  let ?n = "js_next s" let ?b = "blank_value t (js_top s)"
  show ?thesis
  proof (cases "?n = 0")
    case True
    let ?s = "s\<lparr>js_next := 1, js_root := Some 0, js_values := [0 \<mapsto> ?b], js_alloc := Some 0, js_top := Some 0\<rparr>"
    have "js_values s = Map.empty" using ch True by (auto simp: chain_ok_def)
    then have "new_value env t s = Proceed ?s"
      using ch mx True \<open>jx_malloc env ?n\<close>
      by (auto simp: new_value_def json_alloc_def chain_ok_def ulong_max_def SIZEOF_JSON_VALUE_def root_or_def Let_def
          set_value_def)
    moreover have "chain_ok ?s" using ch by (auto simp: chain_ok_def blank_value_def)
    ultimately show ?thesis using True by (intro ok [of ?s ?b]) (auto simp: same_on_def)
  next
    case False
    obtain y where y: "js_values s (?n - 1) = Some y" using ch False by (force simp: chain_ok_def)
    let ?v = "(js_values s)(?n \<mapsto> ?b, ?n - 1 \<mapsto> y\<lparr>jv_reserved := Next_alloc (Some ?n)\<rparr>)"
    let ?s = "s\<lparr>js_next := ?n + 1, js_values := ?v, js_alloc := Some ?n, js_top := Some ?n\<rparr>"
    have "s\<lparr>js_root := root_or ?n (js_root s)\<rparr> = s" using ch False by (cases s) (simp add: chain_ok_def root_or_def)
    then have "new_value env t s = Proceed ?s"
      using ch mx False \<open>jx_malloc env ?n\<close> y
      by (cases s)
         (auto simp: new_value_def json_alloc_def chain_ok_def ulong_max_def SIZEOF_JSON_VALUE_def Let_def
          set_value_def on_value_def root_or_def)
    moreover have "chain_ok ?s" using ch y False by (auto simp: chain_ok_def blank_value_def)
    ultimately show ?thesis using False y by (intro ok [of ?s ?b]) (auto simp: same_on_def)
  qed
qed

section \<open>Strings and numbers in the first pass\<close>

lemma first_string_adds:
  "js_first_pass s \<Longrightarrow> string_adds bs s = Proceed (s\<lparr>js_string_length := js_string_length s + length bs\<rparr>)"
  by (induction bs arbitrary: s) (simp_all add: string_add_def)

lemma first_string_add:
  "js_first_pass s \<Longrightarrow> string_add b s = Proceed (s\<lparr>js_string_length := js_string_length s + 1\<rparr>)"
  by (simp add: string_add_def)

lemma json_escaped_byte:
  "b \<noteq> chr CHR ''u'' \<Longrightarrow> json_escape env b s = string_add (json_escaped b) s"
  by (auto simp: json_escape_def json_escaped_def)

lemma set_flags_id [simp]: "set_flags (js_flags s) s = s"
  by (simp add: set_flags_def)

lemma first_string_char:
  assumes "flag_string \<in> js_flags s" "js_first_pass s" "js_string_length s \<le> uint_max"
    "flag_escaped \<in> js_flags s \<longleftrightarrow> e" "js_string_length s = length cs"
  shows "case spec_char (jx_json env) (jx_end env) b (js_ptr s) e cs of
      Char_more e' cs' q \<Rightarrow> json_in_string env b s = Continue
        (s\<lparr>js_ptr := q, js_flags := js_flags s - {flag_escaped} \<union> (if e' then {flag_escaped} else {}),
           js_string_length := length cs'\<rparr>)
    | Char_closed \<Rightarrow> \<not> e \<and> json_in_string env b s = json_end_string s
    | Char_error err \<Rightarrow> \<exists>F. json_in_string env b s = Fail err (set_flags F s)
    | Char_stuck \<Rightarrow> True"
proof -
  consider (eof) "b = 0" | (unicode) "b \<noteq> 0" e "b = chr CHR ''u''" | (esc) "b \<noteq> 0" e "b \<noteq> chr CHR ''u''"
    | (plain) "b \<noteq> 0" "\<not> e" by blast
  then show ?thesis
  proof cases
    case eof
    then show ?thesis using assms by (auto simp: json_in_string_def spec_char_def intro: exI [of _ "js_flags s"])
  next
    case unicode
    then show ?thesis
      using assms
      by (cases "json_unicode (jx_json env) (jx_end env) (js_ptr s)")
         (auto simp: json_in_string_def spec_char_def json_escape_def first_string_adds set_flags_def chr_def)
  next
    case esc
    then show ?thesis
      using assms
      by (cases s) (auto simp: json_in_string_def spec_char_def json_escaped_byte first_string_add set_flags_def)
  next
    case plain
    then show ?thesis
      using assms
      by (cases s) (auto simp: json_in_string_def spec_char_def first_string_add set_flags_def chr_def)
  qed
qed

definition number_node :: "json_number \<Rightarrow> json_value \<Rightarrow> bool" where
  "number_node n x \<longleftrightarrow> jv_type x = (if nm_dbl n = None then json_integer else json_double) \<and> jv_integer x = nm_int n
     \<and> (\<forall>d. nm_dbl n = Some d \<longrightarrow> jv_dbl x = d)"

definition number_locals :: "json_number \<Rightarrow> json_state \<Rightarrow> bool" where
  "number_locals n s \<longleftrightarrow> js_flags s \<inter> number_flags = number_flags_of n \<and> js_num_digits s = nm_digits n
     \<and> js_num_e s = nm_e n \<and> js_num_fraction s = nm_fraction n"

definition result_node :: "json \<Rightarrow> json_value \<Rightarrow> bool" where
  "result_node w x \<longleftrightarrow>
    (case w of JInteger i \<Rightarrow> jv_type x = json_integer \<and> jv_integer x = i
     | JDouble d \<Rightarrow> jv_type x = json_double \<and> jv_dbl x = d | _ \<Rightarrow> False)"

text \<open>What a step inside a number changes: the node at the top and the variables of the number.\<close>

definition number_change :: "nat \<Rightarrow> json_value \<Rightarrow> json_state \<Rightarrow> json_state \<Rightarrow> json_value \<Rightarrow> bool" where
  "number_change a x s s' x' \<longleftrightarrow> js_values s' = (js_values s)(a \<mapsto> x') \<and> jv_parent x' = jv_parent x
     \<and> jv_reserved x' = jv_reserved x \<and> js_first_pass s' = js_first_pass s \<and> js_blocks s' = js_blocks s
     \<and> js_used_memory s' = js_used_memory s \<and> js_root s' = js_root s \<and> js_alloc s' = js_alloc s
     \<and> js_next s' = js_next s \<and> js_ptr s' = js_ptr s \<and> js_cur_line s' = js_cur_line s \<and> js_top s' = js_top s"

lemma number_flag_mem:
  assumes "number_locals n s"
  shows "flag_num_negative \<in> js_flags s \<longleftrightarrow> nm_negative n" "flag_num_zero \<in> js_flags s \<longleftrightarrow> nm_zero n"
    "flag_num_e \<in> js_flags s \<longleftrightarrow> nm_exp n" "flag_num_e_got_sign \<in> js_flags s \<longleftrightarrow> nm_got_sign n"
    "flag_num_e_negative \<in> js_flags s \<longleftrightarrow> nm_exp_negative n"
proof -
  have "js_flags s \<inter> number_flags = number_flags_of n" using assms by (simp add: number_locals_def)
  then have "x \<in> js_flags s \<longleftrightarrow> x \<in> number_flags_of n" if "x \<in> number_flags" for x
    using that by blast
  then show "flag_num_negative \<in> js_flags s \<longleftrightarrow> nm_negative n" "flag_num_zero \<in> js_flags s \<longleftrightarrow> nm_zero n"
    "flag_num_e \<in> js_flags s \<longleftrightarrow> nm_exp n" "flag_num_e_got_sign \<in> js_flags s \<longleftrightarrow> nm_got_sign n"
    "flag_num_e_negative \<in> js_flags s \<longleftrightarrow> nm_exp_negative n"
    by simp_all
qed

lemma number_flags_of_upd [simp]:
  "number_flags_of (n\<lparr>nm_digits := i\<rparr>) = number_flags_of n" "number_flags_of (n\<lparr>nm_e := e\<rparr>) = number_flags_of n"
  "number_flags_of (n\<lparr>nm_fraction := e\<rparr>) = number_flags_of n" "number_flags_of (n\<lparr>nm_int := e\<rparr>) = number_flags_of n"
  "number_flags_of (n\<lparr>nm_dbl := d\<rparr>) = number_flags_of n"
  by simp_all

declare number_flags_of.simps [simp del]

lemma number_flags_of_flag:
  "number_flags_of (n\<lparr>nm_got_sign := True\<rparr>) = insert flag_num_e_got_sign (number_flags_of n)"
  "number_flags_of (n\<lparr>nm_zero := z\<rparr>) = (if z then insert flag_num_zero (number_flags_of n) else number_flags_of n - {flag_num_zero})"
  "number_flags_of (n\<lparr>nm_exp := True\<rparr>) = insert flag_num_e (number_flags_of n)"
  "number_flags_of (n\<lparr>nm_exp_negative := z\<rparr>) = (if z then insert flag_num_e_negative (number_flags_of n)
     else number_flags_of n - {flag_num_e_negative})"
  by (auto simp: number_flags_of.simps)

lemma insert_inter_number: "insert x F \<inter> number_flags = (if x \<in> number_flags then insert x (F \<inter> number_flags) else F \<inter> number_flags)"
  "(F - G) \<inter> number_flags = F \<inter> number_flags - G" "(F \<union> G) \<inter> number_flags = F \<inter> number_flags \<union> G \<inter> number_flags"
  by auto

lemma first_digit:
  assumes n: "number_node n x" "number_locals n s" "js_values s a = Some x" "nm_exp n \<longrightarrow> nm_dbl n \<noteq> None"
  shows "case number_digit b n of
      Number_more n' \<Rightarrow> \<exists>s' x'. json_digit b a x s = Continue s' \<and> number_change a x s s' x' \<and> number_node n' x'
        \<and> number_locals n' s' \<and> ctl (js_flags s') = ctl (js_flags s)
    | Number_end w \<Rightarrow> False
    | Number_error e \<Rightarrow> \<exists>s'. json_digit b a x s = Fail e s' \<and> number_change a x s s' x"
proof -
  have id: "(js_values s)(a \<mapsto> x) = js_values s" using n(3) by auto
  note mem = number_flag_mem [OF n(2)]
  consider (exp) "nm_exp n" "nm_dbl n \<noteq> None" | (frac) "\<not> nm_exp n" "nm_dbl n \<noteq> None"
    | (int) "\<not> nm_exp n" "nm_dbl n = None" using n(4) by blast
  then show ?thesis
  proof cases
    case exp
    then obtain d where "nm_dbl n = Some d" by blast
    with exp n mem(3) id show ?thesis
      by (simp add: number_digit_def json_digit_def Let_def number_change_def number_node_def number_locals_def
          number_flags_of_flag insert_inter_number) (rule exI [of _ x], simp)
  next
    case frac
    then obtain d where "nm_dbl n = Some d" by blast
    with frac n mem(3) id show ?thesis
      by (simp add: number_digit_def json_digit_def Let_def number_change_def number_node_def number_locals_def)
         (rule exI [of _ x], simp)
  next
    case int
    let ?s = "s\<lparr>js_num_digits := js_num_digits s + 1\<rparr>"
    let ?x = "x\<lparr>jv_integer := jv_integer x * 10 + ucast (b - chr CHR ''0'')\<rparr>"
    have ty: "jv_type x = json_integer" using n(1) int by (simp add: number_node_def)
    show ?thesis
    proof (cases "nm_zero n")
      case True
      then show ?thesis
        using mem(2,3) int ty id by (simp add: number_digit_def json_digit_def Let_def number_change_def)
    next
      case False
      then have z: "number_flags_of n - {flag_num_zero} = number_flags_of n" by (auto simp: number_flags_of.simps)
      show ?thesis
      proof (cases "nm_digits n = 0 \<and> b = chr CHR ''0''")
        case True
        with False n int ty mem(2,3) show ?thesis
          by (simp add: number_digit_def json_digit_def Let_def number_change_def number_node_def number_locals_def
              number_flags_of_flag insert_inter_number) (rule exI [of _ ?x], simp)
      next
        case nz: False
        show ?thesis
        proof (cases "nm_digits n = 0")
          case True
          with nz have "b \<noteq> chr CHR ''0''" by simp
          with True False n int ty mem(2,3) z show ?thesis
            by (simp add: number_digit_def json_digit_def Let_def number_change_def number_node_def number_locals_def
                number_flags_of_flag insert_inter_number) (rule exI [of _ ?x], simp)
        qed (use False n int ty mem(2,3) z in \<open>simp add: number_digit_def json_digit_def Let_def number_change_def
                number_node_def number_locals_def number_flags_of_flag insert_inter_number, rule_tac x = ?x in exI, simp\<close>)
      qed
    qed
  qed
qed


lemma first_number_result:
  assumes "number_node n x" "number_locals n s" "jv_parent x = jv_parent y" "jv_reserved x = jv_reserved y"
  shows "\<exists>s' x'. json_number_end a x (set_value a x s) = Proceed s' \<and> number_change a y s s' x'
     \<and> result_node (number_result n) x' \<and> js_flags s' = js_flags s \<union> {flag_next, flag_reproc}"
proof -
  note mem = number_flag_mem [OF assms(2)]
  let ?x = "if nm_negative n then if nm_dbl n = None then x\<lparr>jv_integer := - jv_integer x\<rparr> else x\<lparr>jv_dbl := Negate (jv_dbl x)\<rparr>
    else x"
  let ?s = "set_flags (js_flags s \<union> {flag_next, flag_reproc}) (set_value a ?x s)"
  have "json_number_end a x (set_value a x s) = Proceed ?s"
    using assms(1) mem by (cases s) (auto simp: json_number_end_def number_node_def set_value_def set_flags_def)
  moreover have "number_change a y s ?s ?x" using assms(3,4) by (simp add: number_change_def)
  moreover have "result_node (number_result n) ?x"
    using assms(1) by (cases "nm_dbl n") (auto simp: number_result_def number_node_def result_node_def)
  ultimately show ?thesis by fastforce
qed

lemma first_after_digits:
  assumes n: "number_node n x" "number_locals n s" "js_values s a = Some x" "nm_exp n \<longrightarrow> nm_dbl n \<noteq> None"
  shows "case number_after_digits b n of
      Number_more n' \<Rightarrow> \<exists>s' x'. json_after_digits b a x s = Continue s' \<and> number_change a x s s' x' \<and> number_node n' x'
        \<and> number_locals n' s' \<and> ctl (js_flags s') = ctl (js_flags s)
    | Number_end w \<Rightarrow> \<exists>s' x'. json_after_digits b a x s = Proceed s' \<and> number_change a x s s' x' \<and> result_node w x'
        \<and> js_flags s' = js_flags s \<union> {flag_next, flag_reproc}
    | Number_error e \<Rightarrow> \<exists>s'. json_after_digits b a x s = Fail e s' \<and> number_change a x s s' x"
proof -
  have id: "(js_values s)(a \<mapsto> x) = js_values s" using n(3) by auto
  note mem = number_flag_mem [OF n(2)]
  have dig: "js_num_digits s = nm_digits n" "js_num_fraction s = nm_fraction n" "js_num_e s = nm_e n"
    using n(2) by (simp_all add: number_locals_def)
  show ?thesis
  proof (cases "nm_exp n")
    case True
    show ?thesis
    proof (cases "nm_digits n = 0")
      case False
      let ?e = "if nm_exp_negative n then - nm_e n else nm_e n"
      let ?n = "n\<lparr>nm_dbl := map_option (\<lambda>d. Scale d ?e) (nm_dbl n)\<rparr>" let ?x = "x\<lparr>jv_dbl := Scale (jv_dbl x) ?e\<rparr>"
      have "number_node ?n ?x" using n(1) by (auto simp: number_node_def)
      moreover have "number_locals ?n s" using n(2) by (simp add: number_locals_def)
      ultimately have "\<exists>s' x'. json_number_end a ?x (set_value a ?x s) = Proceed s' \<and> number_change a x s s' x'
          \<and> result_node (number_result ?n) x' \<and> js_flags s' = js_flags s \<union> {flag_next, flag_reproc}"
        by (intro first_number_result) simp_all
      moreover have "json_after_digits b a x s = json_number_end a ?x (set_value a ?x s)"
        using False True mem dig by (simp add: json_after_digits_def Let_def)
      moreover have "number_after_digits b n = Number_end (number_result ?n)"
        using False True by (simp add: number_after_digits_def)
      ultimately show ?thesis by simp
    qed (use True id mem dig in \<open>simp add: number_after_digits_def json_after_digits_def number_change_def\<close>)
  next
    case ne: False
    show ?thesis
    proof (cases "nm_dbl n \<noteq> None \<and> nm_digits n = 0")
      case True
      moreover have "jv_type x = json_double" using n(1) True by (simp add: number_node_def)
      ultimately show ?thesis
        using ne id mem dig by (simp add: number_after_digits_def json_after_digits_def number_change_def)
    next
      case nz: False
      let ?n = "n\<lparr>nm_dbl := map_option (\<lambda>d. Add_fraction d (nm_fraction n) (nm_digits n)) (nm_dbl n)\<rparr>"
      let ?x = "if jv_type x = json_double then x\<lparr>jv_dbl := Add_fraction (jv_dbl x) (nm_fraction n) (nm_digits n)\<rparr> else x"
      have nn: "number_node ?n ?x" using n(1) by (auto simp: number_node_def)
      have nl: "number_locals ?n s" using n(2) by (simp add: number_locals_def)
      have ty: "jv_type x = json_double \<longleftrightarrow> nm_dbl n \<noteq> None" using n(1) by (simp add: number_node_def)
      show ?thesis
      proof (cases "b = chr CHR ''e'' \<or> b = chr CHR ''E''")
        case False
        have "\<exists>s' x'. json_number_end a ?x (set_value a ?x s) = Proceed s' \<and> number_change a x s s' x'
          \<and> result_node (number_result ?n) x' \<and> js_flags s' = js_flags s \<union> {flag_next, flag_reproc}"
          by (rule first_number_result [OF nn nl]) simp_all
        moreover have "json_after_digits b a x s = json_number_end a ?x (set_value a ?x s)"
          using False nz mem ne dig ty by (auto simp: json_after_digits_def Let_def)
        moreover have "number_after_digits b n = Number_end (number_result ?n)"
          using False nz ne by (auto simp: number_after_digits_def Let_def)
        ultimately show ?thesis by simp
      next
        case True
        let ?n' = "?n\<lparr>nm_exp := True, nm_zero := False, nm_digits := 0,
          nm_dbl := Some (case nm_dbl ?n of None \<Rightarrow> Of_int (nm_int ?n) | Some d \<Rightarrow> d)\<rparr>"
        let ?x' = "if jv_type ?x = json_integer then ?x\<lparr>jv_type := json_double, jv_dbl := Of_int (jv_integer ?x)\<rparr> else ?x"
        let ?s = "set_flags (insert flag_num_e (js_flags s) - {flag_num_zero}) ((set_value a ?x' s)\<lparr>js_num_digits := 0\<rparr>)"
        have "json_after_digits b a x s = Continue ?s"
          using True nz mem ne dig ty by (auto simp: json_after_digits_def Let_def)
        moreover have "number_change a x s ?s ?x'" by (simp add: number_change_def)
        moreover have "number_node ?n' ?x'" using nn by (auto simp: number_node_def split: option.splits)
        moreover have "number_locals ?n' ?s"
          using n(2) by (auto simp: number_locals_def insert_inter_number number_flags_of.simps)
        moreover have "ctl (js_flags ?s) = ctl (js_flags s)" by (auto simp: ctl_def number_flags_def)
        ultimately have "\<exists>s' x'. json_after_digits b a x s = Continue s' \<and> number_change a x s s' x' \<and> number_node ?n' x'
          \<and> number_locals ?n' s' \<and> ctl (js_flags s') = ctl (js_flags s)" by blast
        moreover have "number_after_digits b n = Number_more ?n'"
          using True nz ne by (auto simp: number_after_digits_def Let_def)
        ultimately show ?thesis by (simp only: number_progress.case)
      qed
    qed
  qed
qed

lemma first_number:
  assumes n: "number_node n x" "number_locals n s" "js_values s a = Some x" "nm_exp n \<longrightarrow> nm_dbl n \<noteq> None"
  shows "case number_step b n of
      Number_more n' \<Rightarrow> \<exists>s' x'. json_in_number b a x s = Continue s' \<and> number_change a x s s' x' \<and> number_node n' x'
        \<and> number_locals n' s' \<and> ctl (js_flags s') = ctl (js_flags s)
    | Number_end w \<Rightarrow> \<exists>s' x'. json_in_number b a x s = Proceed s' \<and> number_change a x s s' x' \<and> result_node w x'
        \<and> js_flags s' = js_flags s \<union> {flag_next, flag_reproc}
    | Number_error e \<Rightarrow> \<exists>s'. json_in_number b a x s = Fail e s' \<and> number_change a x s s' x"
proof -
  have id: "(js_values s)(a \<mapsto> x) = js_values s" using n(3) by auto
  note mem = number_flag_mem [OF n(2)]
  have ty: "jv_type x = json_integer \<longleftrightarrow> nm_dbl n = None" using n(1) by (simp add: number_node_def)
  consider (digit) "json_isdigit b"
    | (sign) "\<not> json_isdigit b" "(b = chr CHR ''+'' \<or> b = chr CHR ''-'') \<and> nm_exp n \<and> \<not> nm_got_sign n"
    | (point) "\<not> json_isdigit b" "\<not> ((b = chr CHR ''+'' \<or> b = chr CHR ''-'') \<and> nm_exp n \<and> \<not> nm_got_sign n)"
        "b = chr CHR ''.'' \<and> nm_dbl n = None"
    | (after) "\<not> json_isdigit b" "\<not> ((b = chr CHR ''+'' \<or> b = chr CHR ''-'') \<and> nm_exp n \<and> \<not> nm_got_sign n)"
        "\<not> (b = chr CHR ''.'' \<and> nm_dbl n = None)"
    by blast
  then show ?thesis
  proof cases
    case digit
    then show ?thesis using first_digit [OF n, of b] by (simp add: number_step_def json_in_number_def split: number_progress.splits)
  next
    case sign
    let ?n = "n\<lparr>nm_got_sign := True, nm_exp_negative := (nm_exp_negative n \<or> b = chr CHR ''-'')\<rparr>"
    let ?s = "set_flags (js_flags s \<union> {flag_num_e_got_sign} \<union> (if b = chr CHR ''-'' then {flag_num_e_negative} else {})) s"
    have "json_in_number b a x s = Continue ?s"
      unfolding json_in_number_def json_exponent_sign_def using sign mem by simp
    moreover have "number_step b n = Number_more ?n" using sign by (simp add: number_step_def)
    moreover have "number_node ?n x" using n(1) by (simp add: number_node_def)
    moreover have "number_locals ?n ?s" using n(2) by (auto simp: number_locals_def insert_inter_number number_flags_of.simps)
    moreover have "number_change a x s ?s x" using id by (simp add: number_change_def)
    ultimately show ?thesis by fastforce
  next
    case point
    let ?n = "n\<lparr>nm_dbl := Some (Of_int (nm_int n)), nm_digits := 0\<rparr>"
    let ?x = "x\<lparr>jv_type := json_double, jv_dbl := Of_int (jv_integer x)\<rparr>"
    have ns: "\<not> json_exponent_sign b s" using point mem by (simp add: json_exponent_sign_def)
    show ?thesis
    proof (cases "nm_digits n = 0")
      case True
      then show ?thesis
        using point ns ty id n(2) by (simp add: number_step_def json_in_number_def number_change_def number_locals_def)
    next
      case False
      then have "json_in_number b a x s = Continue (set_value a ?x (s\<lparr>js_num_digits := 0\<rparr>))"
        using point ns ty n(2) by (simp add: json_in_number_def number_locals_def)
      moreover have "number_step b n = Number_more ?n" using point False by (auto simp: number_step_def)
      moreover have "number_node ?n ?x" using n(1) by (simp add: number_node_def)
      moreover have "number_locals ?n (set_value a ?x (s\<lparr>js_num_digits := 0\<rparr>))" using n(2) by (simp add: number_locals_def)
      moreover have "number_change a x s (set_value a ?x (s\<lparr>js_num_digits := 0\<rparr>)) ?x" by (simp add: number_change_def)
      ultimately show ?thesis by fastforce
    qed
  next
    case after
    then have "\<not> json_exponent_sign b s" using mem by (simp add: json_exponent_sign_def)
    with after ty have "json_in_number b a x s = json_after_digits b a x s" "number_step b n = number_after_digits b n"
      by (auto simp: json_in_number_def number_step_def)
    then show ?thesis using first_after_digits [OF n, of b] by (simp only:)
  qed
qed

end
