(* ===== verification/JsonFirstStep.thy ===== *)
theory JsonFirstStep
  imports JsonFirst
begin

section \<open>The first pass follows the specification\<close>

definition first_match :: "json_env \<Rightarrow> json_progress \<Rightarrow> json_flow \<Rightarrow> bool" where
  "first_match env x y \<longleftrightarrow>
    (case y of
       Fail e s \<Rightarrow> chain_ok s \<and> (x = Reject e (js_cur_line s) \<or> e = Memory_allocation_failure \<and> \<not> jx_malloc env (js_next s))
     | Continue s \<Rightarrow> (\<exists>r. x = Go r \<and> first_rel r (s\<lparr>js_ptr := js_ptr s + 1\<rparr>))
     | Break s \<Rightarrow> (\<exists>v. x = Accept v \<and> chain_ok s \<and> js_next s = json_nodes v \<and> counted (js_values s) None 0 v)
     | _ \<Rightarrow> False)"

lemma first_match_simps [simp]:
  "first_match env x (Fail e s) \<longleftrightarrow> chain_ok s \<and> (x = Reject e (js_cur_line s) \<or> e = Memory_allocation_failure \<and> \<not> jx_malloc env (js_next s))"
  "first_match env x (Continue s) \<longleftrightarrow> (\<exists>r. x = Go r \<and> first_rel r (s\<lparr>js_ptr := js_ptr s + 1\<rparr>))"
  "first_match env x (Break s) \<longleftrightarrow> (\<exists>v. x = Accept v \<and> chain_ok s \<and> js_next s = json_nodes v \<and> counted (js_values s) None 0 v)"
  by (simp_all add: first_match_def)

lemma first_relD:
  assumes "first_rel r s"
  shows "chain_ok s" "js_first_pass s" "js_ptr s = sp_ptr r" "js_cur_line s = sp_line r"
    "ctl (js_flags s) = mode_flags (sp_mode r) \<union> comment_flags (sp_comment r)"
    "js_next s = mode_next (sp_mode r) (sp_stack r)" "js_top s = mode_top (sp_mode r) (sp_stack r)"
    "mode_locals (sp_mode r) s" "counted_mode (js_values s) (sp_mode r) (sp_stack r)"
  using assms by (simp_all add: first_rel_def chain_ok_def)

text \<open>The heap has not changed.\<close>

lemma first_rel_control:
  assumes "first_rel r s" "js_values s' = js_values s" "js_first_pass s' = js_first_pass s" "js_blocks s' = js_blocks s"
    "js_used_memory s' = js_used_memory s" "js_root s' = js_root s" "js_alloc s' = js_alloc s" "js_next s' = js_next s"
    "js_top s' = js_top s"
    "js_ptr s' = sp_ptr r'" "js_cur_line s' = sp_line r'"
    "ctl (js_flags s') = mode_flags (sp_mode r') \<union> comment_flags (sp_comment r')"
    "mode_next (sp_mode r') (sp_stack r') = mode_next (sp_mode r) (sp_stack r)"
    "mode_top (sp_mode r') (sp_stack r') = mode_top (sp_mode r) (sp_stack r)"
    "mode_locals (sp_mode r') s'"
    "counted_mode (js_values s) (sp_mode r) (sp_stack r) \<Longrightarrow> counted_mode (js_values s) (sp_mode r') (sp_stack r')"
  shows "first_rel r' s'"
  using assms chain_ok_cong [of s s'] by (simp add: first_rel_def)

definition json_rest :: "json_env \<Rightarrow> byte \<Rightarrow> json_state \<Rightarrow> json_flow" where
  "json_rest env b s =
    json_then (json_comment env b s) (\<lambda>s.
    json_then (json_after_root b s) (\<lambda>s.
    json_then (if flag_seek_value \<in> js_flags s then json_seek_value env b s else json_inside b s) json_finish))"

lemma json_iteration_rest:
  "(if js_ptr s = jx_end env then Some 0 else json_peek (jx_json env) (js_ptr s)) = Some b \<Longrightarrow>
    json_iteration env s = json_then (json_in_string env b s) (json_rest env b)"
  by (simp add: json_iteration_def json_rest_def [abs_def])

lemma json_rest_plain:
  assumes "ctl (js_flags s) = S" "flag_line_comment \<notin> S" "flag_block_comment \<notin> S" "flag_done \<notin> S"
    "\<not> (jx_comments env \<and> b = chr CHR ''/'')"
  shows "json_rest env b s =
    json_then (if flag_seek_value \<in> S then json_seek_value env b s else json_inside b s) json_finish"
  using assms ctl_mem [OF assms(1)] by (auto simp: json_rest_def json_comment_def json_after_root_def)

lemma spec_step_fetch:
  "(if sp_ptr r = stop then Some 0 else json_peek json (sp_ptr r)) = Some b \<Longrightarrow>
    spec_step json stop comments r =
     (case sp_mode r of
        In_string e cs \<Rightarrow>
          (case spec_char json stop b (sp_ptr r) e cs of
             Char_more e cs p \<Rightarrow> Go (r\<lparr>sp_mode := In_string e cs, sp_ptr := p + 1\<rparr>)
           | Char_closed \<Rightarrow> spec_next (spec_put (JString cs) r)
           | Char_error err \<Rightarrow> Reject err (sp_line r)
           | Char_stuck \<Rightarrow> Stuck)
      | In_key e cs \<Rightarrow>
          (case spec_char json stop b (sp_ptr r) e cs of
             Char_more e cs p \<Rightarrow> Go (r\<lparr>sp_mode := In_key e cs, sp_ptr := p + 1\<rparr>)
           | Char_closed \<Rightarrow> spec_key_done cs r
           | Char_error err \<Rightarrow> Reject err (sp_line r)
           | Char_stuck \<Rightarrow> Stuck)
      | _ \<Rightarrow>
          if sp_comment r \<noteq> No_comment \<or> comments \<and> b = chr CHR ''/''
          then spec_in_comment json stop b r
          else spec_outside json stop b r)"
  by (simp add: spec_step_def)

lemma first_close:
  assumes "first_closing r w s" "js_next s \<le> uint_max"
  shows "first_match env (Go (spec_put w r)) (json_finish s)"
  using first_finish [OF assms] by auto

lemma ctl_union_closing: "ctl F = S \<Longrightarrow> ctl (insert flag_next (F - {x})) = insert flag_next (S - {x})"
  by auto

lemma first_string_closed:
  assumes r: "first_rel r s" "sp_mode r = In_string False cs" "sp_comment r = No_comment"
    and b: "\<not> (jx_comments env \<and> b = chr CHR ''/'')" "js_next s \<le> uint_max"
  shows "first_match env (spec_next (spec_put (JString cs) r)) (json_then (json_end_string s) (json_rest env b))"
proof -
  note d = first_relD [OF r(1), unfolded r(2,3), simplified]
  let ?a = "stack_nodes (sp_stack r)"
  obtain x where x: "js_values s ?a = Some x" "jv_parent x = parent_of (sp_stack r)" "jv_type x = json_string"
      "jv_ptr x = Counter 0"
    using d(9) by (auto simp: node_is_def)
  let ?x = "x\<lparr>jv_length := length cs\<rparr>"
  let ?s = "set_flags (insert flag_next (js_flags s - {flag_string})) (set_value ?a ?x (s\<lparr>js_string := None\<rparr>))"
  have es: "json_end_string s = Proceed ?s"
    using d x by (cases s) (simp add: json_end_string_def on_value_def Let_def set_value_def set_flags_def)
  have ctl: "ctl (js_flags ?s) = {flag_next}" using d(5) by auto
  have "json_rest env b ?s = json_finish ?s"
    using json_rest_plain [OF ctl _ _ _ b(1)] d x by (simp add: json_inside_def on_value_def)
  moreover have "first_closing (r\<lparr>sp_ptr := sp_ptr r + 1\<rparr>) (JString cs) ?s"
  proof -
    have "chain_ok (s\<lparr>js_string := None\<rparr>)" using d(1) by (rule chain_ok_cong) simp_all
    then have "chain_ok (set_value ?a ?x (s\<lparr>js_string := None\<rparr>))" by (rule chain_ok_set) (simp_all add: x)
    then have "chain_ok ?s" by (rule chain_ok_cong) simp_all
    then show ?thesis
      using d x r(3) ctl_mem [OF ctl]
      by (auto simp: first_closing_def node_is_def intro!: counted_open_upd)
  qed
  then have "first_match env (Go (spec_put (JString cs) (r\<lparr>sp_ptr := sp_ptr r + 1\<rparr>))) (json_finish ?s)"
    by (rule first_close) (use b(2) in simp)
  moreover have "spec_next (spec_put (JString cs) r) = Go (spec_put (JString cs) (r\<lparr>sp_ptr := sp_ptr r + 1\<rparr>))"
    by (simp add: spec_next_def spec_put_def)
  ultimately show ?thesis using es by simp
qed

lemma first_key_closed:
  assumes r: "first_rel r s" "sp_mode r = In_key False cs" "sp_comment r = No_comment" "mode_ok (sp_mode r) (sp_stack r)"
  shows "first_match env (spec_key_done cs r) (json_then (json_end_string s) rest)"
proof -
  note d = first_relD [OF r(1), unfolded r(2,3), simplified]
  obtain ms k st where st: "sp_stack r = In_object ms k # st"
    using r(2,4) by (cases "sp_stack r"; cases "hd (sp_stack r)") auto
  let ?a = "stack_nodes st"
  obtain x where x: "js_values s ?a = Some x" "jv_parent x = parent_of st" "jv_type x = json_object"
      "jv_length x = length ms" "jv_ptr x = Counter (names_size ms)"
    using d(9) st by (auto simp: node_is_def)
  let ?x = "x\<lparr>jv_ptr := Counter (names_size ms + length cs + 1)\<rparr>"
  let ?s = "set_flags (js_flags s - {flag_string} \<union> {flag_seek_value, flag_need_colon}) (set_value ?a ?x (s\<lparr>js_string := None\<rparr>))"
  have es: "json_end_string s = Continue ?s"
    using d x st
    by (cases s) (simp add: json_end_string_def json_name_done_def on_value_def Let_def set_value_def set_flags_def)
  have "chain_ok (s\<lparr>js_string := None\<rparr>)" using d(1) by (rule chain_ok_cong) simp_all
  then have "chain_ok (set_value ?a ?x (s\<lparr>js_string := None\<rparr>))" by (rule chain_ok_set) (simp_all add: x)
  then have "chain_ok (?s\<lparr>js_ptr := js_ptr ?s + 1\<rparr>)" by (rule chain_ok_cong) simp_all
  then have "first_rel (r\<lparr>sp_mode := Seeking False True, sp_stack := In_object ms cs # st, sp_ptr := sp_ptr r + 1\<rparr>)
      (?s\<lparr>js_ptr := js_ptr ?s + 1\<rparr>)"
    using d x st r(3)
    by (auto simp: first_rel_def node_is_def intro!: counted_open_upd counted_upd)
  then show ?thesis using es st by (simp add: spec_key_done_def spec_next_def)
qed

lemma first_control:
  assumes "first_rel r s" "chain_ok s'" "js_values s' = js_values s" "js_next s' = js_next s" "js_top s' = js_top s"
    "sp_stack r' = sp_stack r"
    "js_ptr s' = sp_ptr r'" "js_cur_line s' = sp_line r'"
    "ctl (js_flags s') = mode_flags (sp_mode r') \<union> comment_flags (sp_comment r')"
    "mode_next (sp_mode r') (sp_stack r) = mode_next (sp_mode r) (sp_stack r)"
    "mode_top (sp_mode r') (sp_stack r) = mode_top (sp_mode r) (sp_stack r)"
    "mode_locals (sp_mode r') s'"
    "counted_mode (js_values s) (sp_mode r) (sp_stack r) \<Longrightarrow> counted_mode (js_values s) (sp_mode r') (sp_stack r)"
  shows "first_rel r' s'"
  using assms by (simp add: first_rel_def)

lemma first_chars:
  assumes r: "first_rel r s" "spec_ok (jx_end env) r" "sp_mode r = In_string e cs \<or> sp_mode r = In_key e cs"
    and t: "spec_text (jx_json env) (jx_end env)"
    and b: "(if sp_ptr r = jx_end env then Some 0 else json_peek (jx_json env) (sp_ptr r)) = Some b"
    and n: "js_next s \<le> uint_max" "length cs \<le> uint_max"
  shows "first_match env (spec_step (jx_json env) (jx_end env) (jx_comments env) r) (json_iteration env s)"
proof -
  have c: "sp_comment r = No_comment" using r(2,3) by (auto simp: spec_ok_def)
  have p: "0 \<le> sp_ptr r" "b \<noteq> 0 \<Longrightarrow> sp_ptr r < jx_end env"
    using r(2) b by (auto simp: spec_ok_def split: if_splits)
  note d = first_relD [OF r(1)]
  have m: "flag_string \<in> js_flags s" "flag_escaped \<in> js_flags s \<longleftrightarrow> e" "js_string_length s = length cs"
  proof -
    have "ctl (js_flags s) = {flag_string} \<union> (if e then {flag_escaped} else {})" using d(5) r(3) c by (elim disjE) simp_all
    from ctl_mem [OF this] show "flag_string \<in> js_flags s" "flag_escaped \<in> js_flags s \<longleftrightarrow> e" by simp_all
    show "js_string_length s = length cs" using d(8) r(3) by (elim disjE) simp_all
  qed
  have it: "json_iteration env s = json_then (json_in_string env b s) (json_rest env b)"
    by (rule json_iteration_rest) (use b d(3) in \<open>simp only:\<close>)
  have ch: "case spec_char (jx_json env) (jx_end env) b (js_ptr s) e cs of
      Char_more e' cs' q \<Rightarrow> json_in_string env b s = Continue
        (s\<lparr>js_ptr := q, js_flags := js_flags s - {flag_escaped} \<union> (if e' then {flag_escaped} else {}),
           js_string_length := length cs'\<rparr>)
    | Char_closed \<Rightarrow> \<not> e \<and> json_in_string env b s = json_end_string s
    | Char_error err \<Rightarrow> \<exists>F. json_in_string env b s = Fail err (set_flags F s)
    | Char_stuck \<Rightarrow> True"
    using m n d by (intro first_string_char) auto
  have "spec_char (jx_json env) (jx_end env) b (js_ptr s) e cs \<noteq> Char_stuck"
    using spec_char_more(1) [OF t p] d(3) by simp
  then show ?thesis
  proof (cases "spec_char (jx_json env) (jx_end env) b (js_ptr s) e cs")
    case (Char_more e' cs' q)
    let ?s = "s\<lparr>js_ptr := q, js_flags := js_flags s - {flag_escaped} \<union> (if e' then {flag_escaped} else {}),
      js_string_length := length cs'\<rparr>"
    let ?r = "r\<lparr>sp_mode := (case sp_mode r of In_string _ _ \<Rightarrow> In_string e' cs' | _ \<Rightarrow> In_key e' cs'), sp_ptr := q + 1\<rparr>"
    have "spec_step (jx_json env) (jx_end env) (jx_comments env) r = Go ?r"
      using r(3) by (elim disjE) (simp_all add: spec_step_fetch [OF b] Char_more [unfolded d(3)])
    moreover have "first_rel ?r (?s\<lparr>js_ptr := js_ptr ?s + 1\<rparr>)"
    proof -
      have "chain_ok (?s\<lparr>js_ptr := js_ptr ?s + 1\<rparr>)" using d(1) by (rule chain_ok_cong) simp_all
      moreover have "ctl (js_flags s) - {flag_escaped} = {flag_string}" using d(5) c r(3) by (elim disjE) auto
      ultimately show ?thesis
        using r(3) by (elim disjE; intro first_control [OF r(1)]; simp add: c d(4))
    qed
    ultimately show ?thesis using it ch Char_more by simp
  next
    case Char_closed
    have b': "\<not> (jx_comments env \<and> b = chr CHR ''/'')" using Char_closed by (auto simp: spec_char_def chr_def split: if_splits json_scan.splits)
    show ?thesis
      using r(3)
    proof
      assume m: "sp_mode r = In_string e cs"
      show ?thesis
        using first_string_closed [OF r(1) _ c b' n(1)] m ch Char_closed it spec_step_fetch [OF b] d(3) by simp
    next
      assume m: "sp_mode r = In_key e cs"
      show ?thesis
        using first_key_closed [OF r(1) _ c] r(2) m ch Char_closed it spec_step_fetch [OF b] d(3) by (simp add: spec_ok_def)
    qed
  next
    case (Char_error err)
    obtain F where F: "json_in_string env b s = Fail err (set_flags F s)" using ch Char_error by auto
    have "chain_ok (set_flags F s)" using d(1) by (rule chain_ok_cong) simp_all
    then show ?thesis
      using F it Char_error spec_step_fetch [OF b] r(3) d(3,4) by auto
  qed simp
qed


lemma mode_locals_cong:
  "mode_locals m s \<Longrightarrow> (\<And>n. m \<noteq> In_number n) \<Longrightarrow> js_string_length s' = js_string_length s \<Longrightarrow> mode_locals m s'"
  by (cases m) auto

text \<open>A blank or a character of a comment.\<close>

lemma first_skip:
  assumes r: "first_rel r s" "\<And>n. sp_mode r \<noteq> In_number n"
    and c: "ctl F = mode_flags (sp_mode r) \<union> comment_flags c"
  shows "first_rel (r\<lparr>sp_comment := c, sp_ptr := p, sp_line := l\<rparr>) (s\<lparr>js_flags := F, js_ptr := p, js_cur_line := l\<rparr>)"
proof -
  note d = first_relD [OF r(1)]
  have "chain_ok (s\<lparr>js_flags := F, js_ptr := p, js_cur_line := l\<rparr>)" using d(1) by (rule chain_ok_cong) simp_all
  moreover have "mode_locals (sp_mode r) (s\<lparr>js_flags := F, js_ptr := p, js_cur_line := l\<rparr>)"
    by (rule mode_locals_cong [OF d(8) r(2)]) simp
  ultimately show ?thesis using c by (intro first_control [OF r(1)]) simp_all
qed

lemma first_comment:
  assumes r: "first_rel r s" "spec_ok (jx_end env) r" "sp_comment r \<noteq> No_comment \<or> jx_comments env \<and> b = chr CHR ''/''"
      "sp_comment r \<noteq> No_comment \<longrightarrow> jx_comments env"
      "\<And>e cs. sp_mode r \<noteq> In_string e cs" "\<And>e cs. sp_mode r \<noteq> In_key e cs"
    and t: "spec_text (jx_json env) (jx_end env)"
    and b: "(if sp_ptr r = jx_end env then Some 0 else json_peek (jx_json env) (sp_ptr r)) = Some b"
  shows "first_match env (spec_in_comment (jx_json env) (jx_end env) b r) (json_then (json_comment env b s) rest)"
proof -
  note d = first_relD [OF r(1)]
  have on: "jx_comments env" using r(3,4) by blast
  have sp: "0 \<le> sp_ptr r" "sp_ptr r \<le> jx_end env" using r(2) by (auto simp: spec_ok_def)
  have pk: "\<exists>c. json_peek (jx_json env) (sp_ptr r + 1) = Some c" if "sp_ptr r < jx_end env"
    by (rule spec_text_peek [OF t, of "sp_ptr r + 1"]) (use sp that in auto)
  have lt: "b \<noteq> 0 \<Longrightarrow> sp_ptr r < jx_end env" using b sp by (cases "sp_ptr r = jx_end env") simp_all
  have nn: "sp_comment r \<noteq> No_comment \<Longrightarrow> sp_mode r \<noteq> In_number n" for n
    using r(2) by (auto simp: spec_ok_def)
  have cl: "ctl (mode_flags (sp_mode r)) = mode_flags (sp_mode r)" by (cases "sp_mode r") auto
  have disj: "mode_flags (sp_mode r) - {flag_line_comment} = mode_flags (sp_mode r)"
    "mode_flags (sp_mode r) - {flag_block_comment} = mode_flags (sp_mode r)"
    by (cases "sp_mode r"; auto)+
  show ?thesis
  proof (cases "sp_comment r")
    case Line_comment
    have fl: "flag_line_comment \<in> js_flags s" using ctl_mem [OF d(5)] Line_comment by simp
    have c1: "ctl (js_flags s - {flag_line_comment}) = mode_flags (sp_mode r) \<union> comment_flags No_comment"
      using d(5) Line_comment disj by auto
    have c2: "ctl (js_flags s) = mode_flags (sp_mode r) \<union> comment_flags Line_comment"
      using d(5) Line_comment by simp
    have n: "sp_mode r \<noteq> In_number n" for n using nn Line_comment by simp
    show ?thesis
      using first_skip [OF r(1) n c1, where p = "sp_ptr r" and l = "sp_line r"] first_skip [OF r(1) n c2, where p = "sp_ptr r + 1" and l = "sp_line r"]
        on fl Line_comment d(3,4)
      by (cases r; cases s) (auto simp: spec_in_comment_def json_comment_def spec_next_def set_flags_def)
  next
    case Block_comment
    have fl: "flag_line_comment \<notin> js_flags s" "flag_block_comment \<in> js_flags s"
      using ctl_mem [OF d(5)] Block_comment by (cases "sp_mode r"; simp)+
    have c1: "ctl (js_flags s - {flag_block_comment}) = mode_flags (sp_mode r) \<union> comment_flags No_comment"
      using d(5) Block_comment disj by auto
    have c2: "ctl (js_flags s) = mode_flags (sp_mode r) \<union> comment_flags Block_comment"
      using d(5) Block_comment by simp
    have n: "sp_mode r \<noteq> In_number n" for n using nn Block_comment by simp
    have s1: "first_rel (r\<lparr>sp_comment := No_comment, sp_ptr := sp_ptr r + 2\<rparr>)
        (s\<lparr>js_flags := js_flags s - {flag_block_comment}, js_ptr := sp_ptr r + 2\<rparr>)"
      using first_skip [OF r(1) n c1, where p = "sp_ptr r + 2" and l = "sp_line r"] d(4) by (cases r; cases s) simp
    have s2: "first_rel (r\<lparr>sp_ptr := sp_ptr r + 1\<rparr>) (s\<lparr>js_ptr := sp_ptr r + 1\<rparr>)"
      using first_skip [OF r(1) n c2, where p = "sp_ptr r + 1" and l = "sp_line r"] d(4) Block_comment by (cases r; cases s) simp
    show ?thesis
    proof (cases "b = chr CHR ''*'' \<and> sp_ptr r < jx_end env - 1")
      case True
      then obtain c where "json_peek (jx_json env) (sp_ptr r + 1) = Some c" using pk by force
      then show ?thesis
        using True s1 s2 on fl Block_comment d(3,4)
        by (auto simp: spec_in_comment_def json_comment_def spec_next_def set_flags_def chr_def
            add.commute [of "sp_ptr r" 2])
    next
      case False
      then show ?thesis
        using s2 on fl Block_comment d(1,3,4)
        by (auto simp: spec_in_comment_def json_comment_def spec_next_def)
    qed
  next
    case No_comment
    then have bs: "b = chr CHR ''/''" using r(3) by simp
    have fl: "flag_line_comment \<notin> js_flags s" "flag_block_comment \<notin> js_flags s"
      using ctl_mem [OF d(5)] No_comment by (cases "sp_mode r"; simp)+
    have jc: "json_comment env b s = json_open_comment env s" using on fl bs by (simp add: json_comment_def)
    show ?thesis
    proof (cases "\<exists>n. sp_mode r = In_number n")
      case True
      then obtain n where n: "sp_mode r = In_number n" by auto
      obtain x where "js_values s (stack_nodes (sp_stack r)) = Some x" "jv_type x \<noteq> json_object"
        using d(9) n by (auto simp: node_is_def split: if_splits)
      moreover have "js_flags s \<inter> {flag_seek_value, flag_done} = {}"
        using ctl_mem [OF d(5)] No_comment n by auto
      ultimately show ?thesis
        using jc n d No_comment by (simp add: json_open_comment_def on_value_def spec_in_comment_def)
    next
      case False
      then have n: "sp_mode r \<noteq> In_number n" for n by blast
      have pass: "(if js_flags s \<inter> {flag_seek_value, flag_done} = {}
               then on_value (js_top s) s (\<lambda>_ v.
                      if jv_type v \<noteq> json_object then Fail Comment_not_allowed_here s else Proceed s)
               else Proceed s) = Proceed s"
      proof (cases "sp_mode r")
        case (In_members cm)
        then obtain ms k st where "sp_stack r = In_object ms k # st"
          using r(2) by (cases "sp_stack r"; cases "hd (sp_stack r)") (auto simp: spec_ok_def)
        then show ?thesis using d(7,9) In_members by (auto simp: on_value_def node_is_def)
      qed (use n r(5,6) ctl_mem [OF d(5)] in auto)
      have p: "sp_ptr r < jx_end env" using lt bs by (simp add: chr_def)
      obtain c where c: "json_peek (jx_json env) (sp_ptr r + 1) = Some c" using pk [OF p] by auto
      have l1: "ctl (insert flag_line_comment (js_flags s)) = mode_flags (sp_mode r) \<union> comment_flags Line_comment"
        and l2: "ctl (insert flag_block_comment (js_flags s)) = mode_flags (sp_mode r) \<union> comment_flags Block_comment"
        using d(5) No_comment by auto
      have s1: "first_rel (r\<lparr>sp_comment := Line_comment, sp_ptr := sp_ptr r + 2\<rparr>)
          (s\<lparr>js_flags := insert flag_line_comment (js_flags s), js_ptr := sp_ptr r + 2\<rparr>)"
        using first_skip [OF r(1) n l1, where p = "sp_ptr r + 2" and l = "sp_line r"] d(4) by (cases r; cases s) simp
      have s2: "first_rel (r\<lparr>sp_comment := Block_comment, sp_ptr := sp_ptr r + 2\<rparr>)
          (s\<lparr>js_flags := insert flag_block_comment (js_flags s), js_ptr := sp_ptr r + 2\<rparr>)"
        using first_skip [OF r(1) n l2, where p = "sp_ptr r + 2" and l = "sp_line r"] d(4) by (cases r; cases s) simp
      have ch: "chain_ok (s\<lparr>js_ptr := q\<rparr>)" for q using d(1) by (rule chain_ok_cong) simp_all
      have "json_comment env b s = (if sp_ptr r + 1 = jx_end env then Fail EOF_unexpected (s\<lparr>js_ptr := sp_ptr r + 1\<rparr>)
         else if c = chr CHR ''/'' then Continue (s\<lparr>js_ptr := sp_ptr r + 1, js_flags := insert flag_line_comment (js_flags s)\<rparr>)
         else if c = chr CHR ''*'' then Continue (s\<lparr>js_ptr := sp_ptr r + 1, js_flags := insert flag_block_comment (js_flags s)\<rparr>)
         else Fail Unexpected_in_comment_opening (s\<lparr>js_ptr := sp_ptr r + 1\<rparr>))"
        using d(3) c unfolding jc json_open_comment_def pass by (simp add: Let_def set_flags_def)
      moreover have "spec_in_comment (jx_json env) (jx_end env) b r =
         (if sp_ptr r + 1 = jx_end env then Reject EOF_unexpected (sp_line r)
         else if c = chr CHR ''/'' then Go (r\<lparr>sp_comment := Line_comment, sp_ptr := sp_ptr r + 2\<rparr>)
         else if c = chr CHR ''*'' then Go (r\<lparr>sp_comment := Block_comment, sp_ptr := sp_ptr r + 2\<rparr>)
         else Reject Unexpected_in_comment_opening (sp_line r))"
        using No_comment n c by (auto simp: spec_in_comment_def split: json_mode.splits)
      moreover have "s\<lparr>js_ptr := sp_ptr r + 1, js_flags := F, js_ptr := sp_ptr r + 1 + 1\<rparr> =
          s\<lparr>js_flags := F, js_ptr := sp_ptr r + 2\<rparr>" for F by (cases s) simp
      ultimately show ?thesis using s1 s2 ch d(4) by (simp add: add.commute [of "sp_ptr r" 2])
    qed
  qed
qed


lemma first_mode_stack:
  assumes "spec_ok stop r" "sp_mode r = In_members c"
  obtains ms k st where "sp_stack r = In_object ms k # st"
  using assms that by (cases "sp_stack r"; cases "hd (sp_stack r)") (auto simp: spec_ok_def)

text \<open>Blanks.\<close>

lemma first_blank:
  assumes r: "first_rel r s" "\<And>n. sp_mode r \<noteq> In_number n"
  shows "first_match env (spec_blank b r) (Continue (json_count_line b s))"
proof -
  note d = first_relD [OF r(1)]
  show ?thesis
    using first_skip [OF r(1,2) d(5), where p = "sp_ptr r + 1" and l = "sp_line r"]
      first_skip [OF r(1,2) d(5), where p = "sp_ptr r + 1" and l = "sp_line r + 1"] d(3,4)
    by (cases r; cases s) (simp add: spec_blank_def spec_next_def json_count_line_def)
qed

text \<open>An array or object closes.\<close>

lemma first_bracket:
  assumes r: "first_rel r s" "sp_mode r = Seeking c d" "sp_comment r = No_comment" "sp_stack r = In_array vs # st" "\<not> d"
    and n: "js_next s \<le> uint_max"
  shows "first_match env (spec_next (spec_put (JArray vs) (r\<lparr>sp_stack := st\<rparr>)))
    (json_finish (set_flags (insert flag_next (js_flags s - {flag_need_comma, flag_seek_value})) s))"
proof -
  note d = first_relD [OF r(1), unfolded r(2,3,4), simplified]
  let ?s = "set_flags (insert flag_next (js_flags s - {flag_need_comma, flag_seek_value})) s"
  have ctl: "ctl (js_flags ?s) = {flag_next}" using d(5) r(5) by auto
  have "chain_ok ?s" using d(1) by (rule chain_ok_cong) simp_all
  moreover have "flag_reproc \<notin> js_flags ?s" using ctl_mem [OF ctl] by simp
  ultimately have "first_closing (r\<lparr>sp_stack := st, sp_ptr := sp_ptr r + 1\<rparr>) (JArray vs) ?s"
    using d r ctl by (simp add: first_closing_def)
  then have "first_match env (Go (spec_put (JArray vs) (r\<lparr>sp_stack := st, sp_ptr := sp_ptr r + 1\<rparr>))) (json_finish ?s)"
    by (rule first_close) (use n in simp)
  then show ?thesis by (cases r) (simp add: spec_next_def spec_put_def)
qed

lemma first_brace:
  assumes r: "first_rel r s" "sp_mode r = In_members c" "sp_comment r = No_comment" "sp_stack r = In_object ms k # st"
    and n: "js_next s \<le> uint_max"
  shows "first_match env (spec_next (spec_put (JObject ms) (r\<lparr>sp_stack := st\<rparr>)))
    (json_finish (set_flags (insert flag_next (js_flags s - {flag_need_comma})) s))"
proof -
  note d = first_relD [OF r(1), unfolded r(2,3,4), simplified]
  let ?s = "set_flags (insert flag_next (js_flags s - {flag_need_comma})) s"
  have ctl: "ctl (js_flags ?s) = {flag_next}" using d(5) by auto
  have "chain_ok ?s" using d(1) by (rule chain_ok_cong) simp_all
  moreover have "flag_reproc \<notin> js_flags ?s" using ctl_mem [OF ctl] by simp
  ultimately have "first_closing (r\<lparr>sp_stack := st, sp_ptr := sp_ptr r + 1\<rparr>) (JObject ms) ?s"
    using d r ctl by (simp add: first_closing_def)
  then have "first_match env (Go (spec_put (JObject ms) (r\<lparr>sp_stack := st, sp_ptr := sp_ptr r + 1\<rparr>))) (json_finish ?s)"
    by (rule first_close) (use n in simp)
  then show ?thesis by (cases r) (simp add: spec_next_def spec_put_def)
qed

text \<open>A new value in the first pass: the frames below it do not change.\<close>

definition first_opened :: "json_spec \<Rightarrow> json_type \<Rightarrow> json_state \<Rightarrow> json_state \<Rightarrow> bool" where
  "first_opened r t s s' \<longleftrightarrow> chain_ok s' \<and> js_next s' = stack_nodes (sp_stack r) + 1
     \<and> js_top s' = Some (stack_nodes (sp_stack r)) \<and> counted_open (js_values s') True (sp_stack r)
     \<and> (\<exists>x. js_values s' (stack_nodes (sp_stack r)) = Some x \<and> core x = blank_value t (parent_of (sp_stack r)))
     \<and> js_ptr s' = js_ptr s \<and> js_cur_line s' = js_cur_line s \<and> js_flags s' = js_flags s"

lemma first_opened_value:
  assumes ch: "chain_ok s" and mx: "jx_max_memory env = 0" and n: "js_next s = stack_nodes (sp_stack r)"
    and top: "js_top s = parent_of (sp_stack r)" and co: "counted_open (js_values s) True (sp_stack r)"
  obtains (fail) "new_value env t s = Fail Memory_allocation_failure s" "\<not> jx_malloc env (js_next s)"
  | (ok) s' where "new_value env t s = Proceed s'" "first_opened r t s s'"
proof (rule first_new_value [OF ch mx, of t])
  fix s' x
  assume a: "new_value env t s = Proceed s'" "chain_ok s'" "js_next s' = js_next s + 1"
      "js_top s' = Some (js_next s)" "same_on {..<js_next s} (js_values s) (js_values s')"
      "js_values s' (js_next s) = Some x" "core x = blank_value t (js_top s)"
      "js_ptr s' = js_ptr s" "js_cur_line s' = js_cur_line s" "js_flags s' = js_flags s"
  have "counted_open (js_values s') True (sp_stack r)" using co a(5) n by (auto intro: counted_open_same)
  with a n top have "first_opened r t s s'" by (simp add: first_opened_def)
  with a(1) show thesis by (rule ok)
qed (rule fail)

lemma first_opened_node:
  assumes "first_opened r t s s'"
  obtains x where "js_values s' (stack_nodes (sp_stack r)) = Some x" "jv_parent x = parent_of (sp_stack r)"
    "jv_type x = t" "jv_length x = 0" "jv_ptr x = Counter 0" "jv_boolean x = False" "jv_integer x = 0"
proof -
  obtain x where x: "js_values s' (stack_nodes (sp_stack r)) = Some x" "core x = blank_value t (parent_of (sp_stack r))"
    using assms by (auto simp: first_opened_def)
  have "core x = core (blank_value t (parent_of (sp_stack r)))" using x(2) by (simp only: core_blank)
  from core_fields [OF this] x(1) that show ?thesis by (simp add: blank_value_def)
qed


lemma first_literal:
  assumes op: "first_opened r t (s\<lparr>js_ptr := p\<rparr>) s'" and c: "ctl F = {flag_next}" "sp_comment r = No_comment"
    and l: "js_cur_line s = sp_line r" and n: "js_next s' \<le> uint_max"
    and v: "counted H (parent_of (sp_stack r)) (stack_nodes (sp_stack r)) v" "json_nodes v = 1"
    and H: "H = js_values s' \<or> (\<exists>x y. js_values s' (stack_nodes (sp_stack r)) = Some x \<and> jv_reserved y = jv_reserved x
        \<and> H = (js_values s')(stack_nodes (sp_stack r) \<mapsto> y))"
  shows "first_match env (Go (spec_put v (r\<lparr>sp_ptr := p + 1\<rparr>))) (json_finish (s'\<lparr>js_flags := F, js_values := H\<rparr>))"
proof (rule first_close)
  note o = op [unfolded first_opened_def]
  let ?a = "stack_nodes (sp_stack r)"
  have ch: "chain_ok (s'\<lparr>js_flags := F, js_values := H\<rparr>)"
    using H
  proof
    assume "\<exists>x y. js_values s' ?a = Some x \<and> jv_reserved y = jv_reserved x \<and> H = (js_values s')(?a \<mapsto> y)"
    then obtain x y where xy: "js_values s' ?a = Some x" "jv_reserved y = jv_reserved x" "H = (js_values s')(?a \<mapsto> y)"
      by blast
    have "chain_ok (set_value ?a y s')" by (rule chain_ok_set) (use o xy in auto)
    then show ?thesis by (rule chain_ok_cong) (simp_all add: xy)
  qed (rule chain_ok_cong [where s = s'], use o in simp_all)
  have co: "counted_open H True (sp_stack r)" using o H by (auto intro: counted_open_upd)
  have "flag_reproc \<notin> F" using ctl_mem [OF c(1)] by simp
  then show "first_closing (r\<lparr>sp_ptr := p + 1\<rparr>) v (s'\<lparr>js_flags := F, js_values := H\<rparr>)"
    using o ch co v c l by (simp add: first_closing_def)
qed (use n in simp)

lemma first_start:
  assumes r: "first_rel r s" "sp_mode r = Seeking False False" "sp_comment r = No_comment"
    and t: "spec_text (jx_json env) (jx_end env)" and sp: "0 \<le> sp_ptr r" and mx: "jx_max_memory env = 0"
    and n: "js_next s < uint_max"
  shows "first_match env (spec_start (jx_json env) (jx_end env) b r)
    (json_then (json_start_value env b (set_flags (js_flags s - {flag_seek_value}) s)) json_finish)"
proof -
  note d = first_relD [OF r(1), unfolded r(2,3), simplified]
  define s0 where "s0 = set_flags (js_flags s - {flag_seek_value}) s"
  let ?a = "stack_nodes (sp_stack r)"
  have ch0: "chain_ok s0" unfolding s0_def using d(1) by (rule chain_ok_cong) simp_all
  have c0: "ctl (js_flags s0) = {}" using d(5) by (simp add: s0_def)
  have f0: "js_next s0 = ?a" "js_top s0 = parent_of (sp_stack r)" "counted_open (js_values s0) True (sp_stack r)"
    "js_ptr s0 = sp_ptr r" "js_cur_line s0 = sp_line r" "js_first_pass s0"
    using d by (simp_all add: s0_def)
  have opened: "thesis" if "\<not> jx_malloc env (js_next s0) \<Longrightarrow> new_value env ty s0 = Fail Memory_allocation_failure s0 \<Longrightarrow> thesis"
      "\<And>s'. new_value env ty s0 = Proceed s' \<Longrightarrow> first_opened r ty s0 s' \<Longrightarrow> thesis" for ty thesis
    using first_opened_value [OF ch0 mx f0(1-3), of ty] that by blast
  have lit: "first_match env (spec_literal (jx_json env) (jx_end env) rest v r)
      (json_then (json_then (json_literal env rest ty s0) g) json_finish)"
    if "0 \<notin> set rest" and
      g: "\<And>s'. first_opened r ty (s0\<lparr>js_ptr := sp_ptr r + int (length rest)\<rparr>) s' \<Longrightarrow>
        \<exists>F H. g s' = Proceed (s'\<lparr>js_flags := F, js_values := H\<rparr>) \<and> ctl F = {flag_next}
          \<and> counted H (parent_of (sp_stack r)) ?a v \<and> (H = js_values s' \<or> (\<exists>x y. js_values s' ?a = Some x
             \<and> jv_reserved y = jv_reserved x \<and> H = (js_values s')(?a \<mapsto> y)))"
      and v: "json_nodes v = 1" for rest ty g v
  proof -
    have e: "json_expect (jx_json env) (sp_ptr r) rest \<noteq> Beyond" if "int (length rest) \<le> jx_end env - sp_ptr r"
      using json_expect_bounds [OF t sp \<open>0 \<notin> set rest\<close> that] by simp
    let ?p = "sp_ptr r + int (length rest)"
    have ch1: "chain_ok (s0\<lparr>js_ptr := ?p\<rparr>)" using ch0 by (rule chain_ok_cong) simp_all
    show ?thesis
    proof (cases "jx_end env - sp_ptr r < int (length rest) \<or> json_expect (jx_json env) (sp_ptr r) rest = Mismatch")
      case True
      then show ?thesis using ch0 f0 by (auto simp: spec_literal_def json_literal_def)
    next
      case False
      then have sc: "json_expect (jx_json env) (sp_ptr r) rest = Scanned ()"
        using e by (cases "json_expect (jx_json env) (sp_ptr r) rest") auto
      have jl: "json_literal env rest ty s0 = new_value env ty (s0\<lparr>js_ptr := ?p\<rparr>)"
        "spec_literal (jx_json env) (jx_end env) rest v r = Go (spec_put v (r\<lparr>sp_ptr := ?p + 1\<rparr>))"
        using False sc f0(4) by (simp_all add: json_literal_def spec_literal_def)
      show ?thesis
      proof (rule first_opened_value [OF ch1 mx, of r ty])
        fix s' assume o: "new_value env ty (s0\<lparr>js_ptr := ?p\<rparr>) = Proceed s'" "first_opened r ty (s0\<lparr>js_ptr := ?p\<rparr>) s'"
        from g [OF o(2)] obtain F H where FH: "g s' = Proceed (s'\<lparr>js_flags := F, js_values := H\<rparr>)" "ctl F = {flag_next}"
          "counted H (parent_of (sp_stack r)) ?a v" "H = js_values s' \<or> (\<exists>x y. js_values s' ?a = Some x
             \<and> jv_reserved y = jv_reserved x \<and> H = (js_values s')(?a \<mapsto> y))" by blast
        have "js_next s' \<le> uint_max" using o(2) n f0(1) by (simp add: first_opened_def s0_def)
        from first_literal [OF o(2) FH(2) r(3) f0(5) this FH(3) v FH(4)] show ?thesis using jl o(1) FH(1) by simp
      qed (use f0 ch1 jl in simp_all)
    qed
  qed
  have fl: "first_opened r ty x s' \<Longrightarrow> js_flags x = js_flags s0 \<Longrightarrow> ctl (insert flag_next (js_flags s')) = {flag_next}" for ty x s'
    using c0 by (auto simp: first_opened_def)
  consider (brace) "b = chr CHR ''{''" | (bracket) "b = chr CHR ''[''" | (quote) "b = chr CHR 0x22" | (t) "b = chr CHR ''t''"
    | (f) "b = chr CHR ''f''" | (n) "b = chr CHR ''n''"
    | (other) "b \<noteq> chr CHR ''{''" "b \<noteq> chr CHR ''[''" "b \<noteq> chr CHR 0x22" "b \<noteq> chr CHR ''t''" "b \<noteq> chr CHR ''f''" "b \<noteq> chr CHR ''n''"
    by blast
  then have "first_match env (spec_start (jx_json env) (jx_end env) b r) (json_then (json_start_value env b s0) json_finish)"
  proof cases
    case brace
    show ?thesis
    proof (rule opened [of json_object])
      fix s' assume o: "new_value env json_object s0 = Proceed s'" "first_opened r json_object s0 s'"
      obtain x where x: "js_values s' ?a = Some x" "jv_parent x = parent_of (sp_stack r)" "jv_type x = json_object"
          "jv_length x = 0" "jv_ptr x = Counter 0" using o(2) by (rule first_opened_node)
      have "chain_ok (s'\<lparr>js_ptr := js_ptr s' + 1\<rparr>)" by (rule chain_ok_cong [where s = s']) (use o in \<open>simp_all add: first_opened_def\<close>)
      then have "first_rel (r\<lparr>sp_mode := In_members False, sp_stack := In_object [] [] # sp_stack r, sp_ptr := sp_ptr r + 1\<rparr>)
          (s'\<lparr>js_ptr := js_ptr s' + 1\<rparr>)"
        using o(2) f0 c0 r(3) x by (simp add: first_rel_def node_is_def first_opened_def)
      then show ?thesis using o(1) brace by (simp add: spec_start_def json_start_value_def spec_next_def)
    qed (use brace ch0 in \<open>simp add: json_start_value_def\<close>)
  next
    case bracket
    then have b: "b \<noteq> chr CHR ''{''" by (simp add: chr_def)
    show ?thesis
    proof (rule opened [of json_array])
      fix s' assume o: "new_value env json_array s0 = Proceed s'" "first_opened r json_array s0 s'"
      obtain x where x: "js_values s' ?a = Some x" "jv_parent x = parent_of (sp_stack r)" "jv_type x = json_array"
          "jv_length x = 0" "jv_ptr x = Counter 0" using o(2) by (rule first_opened_node)
      let ?s = "set_flags (insert flag_seek_value (js_flags s')) s'"
      have "chain_ok (?s\<lparr>js_ptr := js_ptr ?s + 1\<rparr>)" by (rule chain_ok_cong [where s = s']) (use o in \<open>simp_all add: first_opened_def\<close>)
      then have "first_rel (r\<lparr>sp_mode := Seeking False False, sp_stack := In_array [] # sp_stack r, sp_ptr := sp_ptr r + 1\<rparr>)
          (?s\<lparr>js_ptr := js_ptr ?s + 1\<rparr>)"
        using o(2) f0 c0 r(3) x by (simp add: first_rel_def node_is_def first_opened_def)
      then show ?thesis using o(1) bracket b by (simp add: spec_start_def json_start_value_def spec_next_def)
    qed (use bracket b ch0 in \<open>simp add: json_start_value_def\<close>)
  next
    case quote
    then have b: "b \<noteq> chr CHR ''{''" "b \<noteq> chr CHR ''[''" by (simp_all add: chr_def)
    show ?thesis
    proof (rule opened [of json_string])
      fix s' assume o: "new_value env json_string s0 = Proceed s'" "first_opened r json_string s0 s'"
      obtain x where x: "js_values s' ?a = Some x" "jv_parent x = parent_of (sp_stack r)" "jv_type x = json_string"
          "jv_ptr x = Counter 0" using o(2) by (rule first_opened_node)
      let ?s = "(set_flags (insert flag_string (js_flags s')) s')\<lparr>js_string := None, js_string_length := 0\<rparr>"
      have "chain_ok (?s\<lparr>js_ptr := js_ptr ?s + 1\<rparr>)" by (rule chain_ok_cong [where s = s']) (use o in \<open>simp_all add: first_opened_def\<close>)
      then have "first_rel (r\<lparr>sp_mode := In_string False [], sp_ptr := sp_ptr r + 1\<rparr>) (?s\<lparr>js_ptr := js_ptr ?s + 1\<rparr>)"
        using o(2) f0 c0 r(3) x by (simp add: first_rel_def node_is_def first_opened_def)
      then show ?thesis
        using o quote b x by (simp add: spec_start_def json_start_value_def spec_next_def on_value_def first_opened_def)
    qed (use quote b ch0 in \<open>simp add: json_start_value_def\<close>)
  next
    case t
    then have "json_start_value env b s0 = json_then (json_literal env (cstr ''rue'') json_boolean s0) (\<lambda>s.
       on_value (js_top s) s (\<lambda>a v.
         Proceed (set_flags (insert flag_next (js_flags s)) (set_value a (v\<lparr>jv_boolean := True\<rparr>) s))))"
      "spec_start (jx_json env) (jx_end env) b r = spec_literal (jx_json env) (jx_end env) (cstr ''rue'') (JBoolean True) r"
      by (simp_all add: json_start_value_def spec_start_def chr_def)
    moreover have "0 \<notin> set (cstr ''rue'')" by (simp add: cstr_def chr_def)
    ultimately show ?thesis
    proof (simp only:, intro lit)
      fix s' assume o: "first_opened r json_boolean (s0\<lparr>js_ptr := sp_ptr r + int (length (cstr ''rue''))\<rparr>) s'"
      obtain x where x: "js_values s' ?a = Some x" "jv_parent x = parent_of (sp_stack r)" "jv_type x = json_boolean"
        using o by (rule first_opened_node)
      let ?x = "x\<lparr>jv_boolean := True\<rparr>" let ?F = "insert flag_next (js_flags s')"
      have top: "js_top s' = Some ?a" using o by (simp add: first_opened_def)
      have "on_value (js_top s') s' (\<lambda>a v.
         Proceed (set_flags (insert flag_next (js_flags s')) (set_value a (v\<lparr>jv_boolean := True\<rparr>) s')))
         = Proceed (s'\<lparr>js_flags := ?F, js_values := (js_values s')(?a \<mapsto> ?x)\<rparr>)"
        using x top by (cases s') (simp add: on_value_def set_flags_def set_value_def)
      moreover have "counted ((js_values s')(?a \<mapsto> ?x)) (parent_of (sp_stack r)) ?a (JBoolean True)"
        using x by (simp add: node_is_def)
      moreover have "ctl ?F = {flag_next}" using fl [OF o] by simp
      moreover have "js_values s' ?a = Some x \<and> jv_reserved ?x = jv_reserved x" using x by simp
      ultimately show "\<exists>F H. on_value (js_top s') s' (\<lambda>a v.
         Proceed (set_flags (insert flag_next (js_flags s')) (set_value a (v\<lparr>jv_boolean := True\<rparr>) s')))
         = Proceed (s'\<lparr>js_flags := F, js_values := H\<rparr>) \<and> ctl F = {flag_next}
          \<and> counted H (parent_of (sp_stack r)) ?a (JBoolean True) \<and> (H = js_values s' \<or> (\<exists>x y. js_values s' ?a = Some x
             \<and> jv_reserved y = jv_reserved x \<and> H = (js_values s')(?a \<mapsto> y)))" by blast
    qed simp_all
  next
    case f
    then have "json_start_value env b s0 = json_then (json_literal env (cstr ''alse'') json_boolean s0) (\<lambda>s.
         Proceed (set_flags (insert flag_next (js_flags s)) s))"
      "spec_start (jx_json env) (jx_end env) b r = spec_literal (jx_json env) (jx_end env) (cstr ''alse'') (JBoolean False) r"
      by (simp_all add: json_start_value_def spec_start_def chr_def)
    moreover have "0 \<notin> set (cstr ''alse'')" by (simp add: cstr_def chr_def)
    ultimately show ?thesis
    proof (simp only:, intro lit)
      fix s' assume o: "first_opened r json_boolean (s0\<lparr>js_ptr := sp_ptr r + int (length (cstr ''alse''))\<rparr>) s'"
      obtain x where x: "js_values s' ?a = Some x" "jv_parent x = parent_of (sp_stack r)" "jv_type x = json_boolean"
          "jv_boolean x = False" using o by (rule first_opened_node)
      show "\<exists>F H. Proceed (set_flags (insert flag_next (js_flags s')) s') = Proceed (s'\<lparr>js_flags := F, js_values := H\<rparr>)
          \<and> ctl F = {flag_next} \<and> counted H (parent_of (sp_stack r)) ?a (JBoolean False) \<and> (H = js_values s' \<or>
            (\<exists>x y. js_values s' ?a = Some x \<and> jv_reserved y = jv_reserved x \<and> H = (js_values s')(?a \<mapsto> y)))"
        using fl [OF o] x
        by (intro exI [of _ "insert flag_next (js_flags s')"] exI [of _ "js_values s'"]) (simp add: set_flags_def node_is_def)
    qed simp_all
  next
    case n
    then have "json_start_value env b s0 = json_then (json_literal env (cstr ''ull'') json_null s0) (\<lambda>s.
         Proceed (set_flags (insert flag_next (js_flags s)) s))"
      "spec_start (jx_json env) (jx_end env) b r = spec_literal (jx_json env) (jx_end env) (cstr ''ull'') JNull r"
      by (simp_all add: json_start_value_def spec_start_def chr_def)
    moreover have "0 \<notin> set (cstr ''ull'')" by (simp add: cstr_def chr_def)
    ultimately show ?thesis
    proof (simp only:, intro lit)
      fix s' assume o: "first_opened r json_null (s0\<lparr>js_ptr := sp_ptr r + int (length (cstr ''ull''))\<rparr>) s'"
      obtain x where x: "js_values s' ?a = Some x" "jv_parent x = parent_of (sp_stack r)" "jv_type x = json_null"
        using o by (rule first_opened_node)
      show "\<exists>F H. Proceed (set_flags (insert flag_next (js_flags s')) s') = Proceed (s'\<lparr>js_flags := F, js_values := H\<rparr>)
          \<and> ctl F = {flag_next} \<and> counted H (parent_of (sp_stack r)) ?a JNull \<and> (H = js_values s' \<or>
            (\<exists>x y. js_values s' ?a = Some x \<and> jv_reserved y = jv_reserved x \<and> H = (js_values s')(?a \<mapsto> y)))"
        using fl [OF o] x
        by (intro exI [of _ "insert flag_next (js_flags s')"] exI [of _ "js_values s'"]) (simp add: set_flags_def node_is_def)
    qed simp_all
  next
    case other
    show ?thesis
    proof (cases "json_isdigit b \<or> b = chr CHR ''-''")
      case False
      then show ?thesis using other ch0 f0 by (simp add: json_start_value_def spec_start_def)
    next
      case True
      have js: "json_start_value env b s0 = json_start_number env b s0" using other True by (simp add: json_start_value_def)
      show ?thesis
      proof (rule opened [of json_integer])
        fix s' assume o: "new_value env json_integer s0 = Proceed s'" "first_opened r json_integer s0 s'"
        obtain x where x: "js_values s' ?a = Some x" "jv_parent x = parent_of (sp_stack r)" "jv_type x = json_integer"
            "jv_integer x = 0" using o(2) by (rule first_opened_node)
        note op = o(2) [unfolded first_opened_def]
        have fp: "js_first_pass s'" using op by (simp add: chain_ok_def)
        let ?t = "(set_flags (js_flags s' - number_flags) s')\<lparr>js_num_digits := 0, js_num_fraction := 0, js_num_e := 0\<rparr>"
        let ?F = "insert flag_num_negative (js_flags s' - number_flags)"
        have F: "?F \<inter> number_flags = number_flags_of (new_number True)" "ctl ?F = {}"
          "(js_flags s' - number_flags) \<inter> number_flags = number_flags_of (new_number False)"
          "ctl (js_flags s' - number_flags) = {}"
          using op c0 by (auto simp: number_flags_of.simps new_number_def)
        show ?thesis
        proof (cases "b = chr CHR ''-''")
          case neg: True
          have "chain_ok (set_flags ?F ?t\<lparr>js_ptr := js_ptr ?t + 1\<rparr>)" by (rule chain_ok_cong [where s = s']) (use op in simp_all)
          then have "first_rel (r\<lparr>sp_mode := In_number (new_number True), sp_ptr := sp_ptr r + 1\<rparr>)
              (set_flags ?F ?t\<lparr>js_ptr := js_ptr ?t + 1\<rparr>)"
            using op f0 r(3) x F by (simp add: first_rel_def node_is_def) (simp add: new_number_def)
          then show ?thesis
            using js o(1) fp other neg by (simp add: json_start_number_def spec_start_def spec_next_def Let_def)
        next
          case digit: False
          let ?G = "js_flags s' - number_flags"
          let ?u = "set_flags (insert flag_reproc ?G) ?t"
          have G: "insert flag_reproc ?G - {flag_reproc} = ?G" "flag_next \<notin> ?G"
            using op c0 ctl_mem [OF c0] by auto
          have fin: "json_finish ?u = Continue ((set_flags ?G ?t)\<lparr>js_ptr := js_ptr ?t - 1\<rparr>)"
            using G by (simp add: json_finish_def Let_def set_flags_def)
          have "chain_ok (set_flags ?G ?t\<lparr>js_ptr := sp_ptr r\<rparr>)" by (rule chain_ok_cong [where s = s']) (use op in simp_all)
          then have "first_rel (r\<lparr>sp_mode := In_number (new_number False)\<rparr>) (set_flags ?G ?t\<lparr>js_ptr := sp_ptr r\<rparr>)"
            using op f0 r(3) x F by (simp add: first_rel_def node_is_def) (simp add: new_number_def)
          moreover have "js_ptr s' = sp_ptr r" using op f0 by simp
          ultimately show ?thesis
            using js o(1) fp other digit True fin by (simp add: json_start_number_def spec_start_def Let_def)
        qed
      qed (use js ch0 in \<open>simp add: json_start_number_def\<close>)
    qed
  qed
  then show ?thesis by (simp add: s0_def)
qed


lemma first_seek:
  assumes r: "first_rel r s" "spec_ok (jx_end env) r" "sp_mode r = Seeking comma colon" "sp_comment r = No_comment"
    and t: "spec_text (jx_json env) (jx_end env)" and mx: "jx_max_memory env = 0" and n: "js_next s < uint_max"
  shows "first_match env (spec_seek (jx_json env) (jx_end env) b comma colon r)
    (json_then (json_seek_value env b s) json_finish)"
proof -
  note d = first_relD [OF r(1), unfolded r(3,4), simplified]
  note f = ctl_mem [OF d(5)]
  have sp: "0 \<le> sp_ptr r" using r(2) by (simp add: spec_ok_def)
  have mok: "colon \<longrightarrow> \<not> comma \<and> sp_stack r \<noteq> [] \<and> frame_is_object (hd (sp_stack r))"
    using r(2,3) by (simp add: spec_ok_def)
  have ctrl: "first_match env (spec_next (r\<lparr>sp_mode := Seeking c c'\<rparr>)) (Continue (set_flags F s))"
    if "ctl F = mode_flags (Seeking c c')" for F c c'
  proof -
    have "chain_ok (set_flags F s\<lparr>js_ptr := js_ptr s + 1\<rparr>)" using d(1) by (rule chain_ok_cong) simp_all
    then have "first_rel (r\<lparr>sp_mode := Seeking c c', sp_ptr := sp_ptr r + 1\<rparr>) (set_flags F s\<lparr>js_ptr := js_ptr s + 1\<rparr>)"
      using that d r(3,4) by (intro first_control [OF r(1)]) simp_all
    then show ?thesis by (simp add: spec_next_def)
  qed
  consider (blank) "json_whitespace b" | (bracket) "\<not> json_whitespace b" "b = chr CHR '']''"
    | (comma) "\<not> json_whitespace b" "b \<noteq> chr CHR '']''" comma
    | (colon) "\<not> json_whitespace b" "b \<noteq> chr CHR '']''" "\<not> comma" colon
    | (start) "\<not> json_whitespace b" "b \<noteq> chr CHR '']''" "\<not> comma" "\<not> colon" by blast
  then show ?thesis
  proof cases
    case blank
    then show ?thesis using first_blank [OF r(1)] r(3) by (simp add: spec_seek_def json_seek_value_def)
  next
    case bracket
    show ?thesis
    proof (cases "sp_stack r")
      case Nil
      then show ?thesis using bracket d by (simp add: spec_seek_def json_seek_value_def)
    next
      case (Cons fr st)
      show ?thesis
      proof (cases fr)
        case (In_object ms k)
        obtain x where "js_values s (stack_nodes st) = Some x" "jv_type x = json_object"
          using d(9) Cons In_object by (auto simp: node_is_def)
        then show ?thesis using bracket d Cons In_object by (simp add: spec_seek_def json_seek_value_def on_value_def)
      next
        case (In_array vs)
        obtain x where "js_values s (stack_nodes st) = Some x" "jv_type x = json_array"
          using d(9) Cons In_array by (auto simp: node_is_def)
        then have "json_seek_value env b s =
            Proceed (set_flags (insert flag_next (js_flags s - {flag_need_comma, flag_seek_value})) s)"
          using bracket d(7) Cons by (simp add: json_seek_value_def on_value_def)
        moreover have "\<not> colon" using mok Cons In_array by auto
        ultimately show ?thesis
          using first_bracket [OF r(1,3,4)] Cons In_array n bracket by (simp add: spec_seek_def)
      qed
    qed
  next
    case comma
    have "ctl (js_flags s - {flag_need_comma}) = mode_flags (Seeking False colon)" using d(5) mok by auto
    from ctrl [OF this] show ?thesis
      using comma d(1,4) f by (auto simp: spec_seek_def json_seek_value_def)
  next
    case colon
    have "ctl (js_flags s - {flag_need_colon}) = mode_flags (Seeking False False)" using d(5) colon by auto
    from ctrl [OF this] show ?thesis
      using colon d(1,4) f by (auto simp: spec_seek_def json_seek_value_def)
  next
    case start
    have "sp_mode r = Seeking False False" using r(3) start by simp
    from first_start [OF r(1) this r(4) t sp mx n, of b] show ?thesis
      using start f by (simp add: spec_seek_def json_seek_value_def)
  qed
qed

lemma first_members:
  assumes r: "first_rel r s" "spec_ok (jx_end env) r" "sp_mode r = In_members comma" "sp_comment r = No_comment"
    and n: "js_next s < uint_max"
  shows "first_match env (spec_members b comma r) (json_then (json_inside b s) json_finish)"
proof -
  note d = first_relD [OF r(1), unfolded r(3,4), simplified]
  note f = ctl_mem [OF d(5)]
  obtain ms k st where st: "sp_stack r = In_object ms k # st" using r(2,3) by (rule first_mode_stack)
  obtain x where x: "js_values s (stack_nodes st) = Some x" "jv_type x = json_object"
    using d(9) st by (auto simp: node_is_def)
  obtain y where y: "jv_reserved x = Next_alloc y" using x(1) d(1) by (auto simp: chain_ok_def)
  have ins: "json_inside b s = json_in_object b x s" using x d(7) st by (simp add: json_inside_def on_value_def)
  have fin: "json_finish (set_flags F s\<lparr>js_string := z, js_string_length := l\<rparr>) =
      Continue (set_flags F s\<lparr>js_string := z, js_string_length := l\<rparr>)"
      "json_finish (set_flags F s) = Continue (set_flags F s)" if "flag_next \<notin> F" "flag_reproc \<notin> F" for F z l
    using that by (simp_all add: json_finish_def)
  consider (blank) "json_whitespace b" | (quote) "\<not> json_whitespace b" "b = chr CHR 0x22"
    | (brace) "\<not> json_whitespace b" "b \<noteq> chr CHR 0x22" "b = chr CHR ''}''"
    | (comma) "\<not> json_whitespace b" "b \<noteq> chr CHR 0x22" "b \<noteq> chr CHR ''}''" "b = chr CHR '',''" comma
    | (other) "\<not> json_whitespace b" "b \<noteq> chr CHR 0x22" "b \<noteq> chr CHR ''}''" "\<not> (b = chr CHR '','' \<and> comma)" by blast
  then show ?thesis
  proof cases
    case blank
    then show ?thesis using ins first_blank [OF r(1)] r(3) by (simp add: spec_members_def json_in_object_def)
  next
    case quote
    show ?thesis
    proof (cases comma)
      case False
      let ?s = "set_flags (insert flag_string (js_flags s)) s\<lparr>js_string := None, js_string_length := 0\<rparr>"
      have "flag_next \<notin> insert flag_string (js_flags s)" "flag_reproc \<notin> insert flag_string (js_flags s)"
        using f False by simp_all
      note fin = fin(1) [OF this, where z = None and l = 0]
      have "chain_ok (?s\<lparr>js_ptr := js_ptr s + 1\<rparr>)" using d(1) by (rule chain_ok_cong) simp_all
      then have "first_rel (r\<lparr>sp_mode := In_key False [], sp_ptr := sp_ptr r + 1\<rparr>) (?s\<lparr>js_ptr := js_ptr s + 1\<rparr>)"
        using d r(3,4) False by (intro first_control [OF r(1)]) simp_all
      then show ?thesis using quote False ins f y fin by (simp add: spec_members_def spec_next_def json_in_object_def)
    qed (use quote ins f d(1,4) in \<open>simp add: spec_members_def json_in_object_def\<close>)
  next
    case brace
    then show ?thesis using ins first_brace [OF r(1,3,4) st] st n by (simp add: spec_members_def json_in_object_def)
  next
    case comma
    let ?F = "js_flags s - {flag_need_comma}"
    have "flag_next \<notin> ?F" "flag_reproc \<notin> ?F" using f by (simp_all split: if_splits)
    note fin = fin(2) [OF this]
    have "chain_ok (set_flags ?F s\<lparr>js_ptr := js_ptr s + 1\<rparr>)" using d(1) by (rule chain_ok_cong) simp_all
    then have "first_rel (r\<lparr>sp_mode := In_members False, sp_ptr := sp_ptr r + 1\<rparr>) (set_flags ?F s\<lparr>js_ptr := js_ptr s + 1\<rparr>)"
      using d r(3,4) comma by (intro first_control [OF r(1)]) simp_all
    then show ?thesis using comma ins f fin by (simp add: spec_members_def spec_next_def json_in_object_def)
  next
    case other
    have "json_in_object b x s = Fail Unexpected_in_object s" "spec_members b comma r = Reject Unexpected_in_object (sp_line r)"
      using other f by (auto simp: json_in_object_def spec_members_def split: if_splits)
    then show ?thesis using ins d(1,4) by simp
  qed
qed

lemma first_in_number:
  assumes r: "first_rel r s" "spec_ok (jx_end env) r" "sp_mode r = In_number n" "sp_comment r = No_comment"
    and n: "js_next s \<le> uint_max"
  shows "first_match env (spec_outside json stop b r) (json_then (json_inside b s) json_finish)"
proof -
  note d = first_relD [OF r(1), unfolded r(3,4), simplified]
  let ?a = "stack_nodes (sp_stack r)"
  obtain x where x: "js_values s ?a = Some x" "jv_parent x = parent_of (sp_stack r)" "number_node n x"
    using d(9) by (auto simp: node_is_def number_node_def)
  have l: "number_locals n s" using d(8) by (simp add: number_locals_def)
  have e: "nm_exp n \<longrightarrow> nm_dbl n \<noteq> None" using r(2,3) by (simp add: spec_ok_def)
  have ins: "json_inside b s = json_in_number b ?a x s"
    using x d(7) by (simp add: json_inside_def on_value_def number_node_def)
  have keep: "chain_ok (s'\<lparr>js_flags := F, js_ptr := q\<rparr>) \<and> counted_open (js_values s') True (sp_stack r)"
    if "number_change ?a x s s' x'" for s' x' F q
  proof -
    have "chain_ok (set_value ?a x' s)" by (rule chain_ok_set [OF d(1) x(1)]) (use that in \<open>simp add: number_change_def\<close>)
    then have "chain_ok (s'\<lparr>js_flags := F, js_ptr := q\<rparr>)"
      by (rule chain_ok_cong) (use that in \<open>simp_all add: number_change_def\<close>)
    moreover have "counted_open (js_values s') True (sp_stack r)"
      using that d(9) by (auto simp: number_change_def intro!: counted_open_upd)
    ultimately show ?thesis by simp
  qed
  note fn = first_number [OF x(3) l x(1) e, of b]
  show ?thesis
  proof (cases "number_step b n")
    case (Number_more n')
    then obtain s' x' where s': "json_in_number b ?a x s = Continue s'" "number_change ?a x s s' x'" "number_node n' x'"
        "number_locals n' s'" "ctl (js_flags s') = ctl (js_flags s)" using fn by auto
    have "chain_ok (s'\<lparr>js_ptr := js_ptr s' + 1\<rparr>)" using keep [OF s'(2), where F = "js_flags s'"] by simp
    then have "first_rel (r\<lparr>sp_mode := In_number n', sp_ptr := sp_ptr r + 1\<rparr>) (s'\<lparr>js_ptr := js_ptr s' + 1\<rparr>)"
      using s' d r(4) keep [OF s'(2)] x(2)
      by (simp add: first_rel_def number_change_def number_locals_def number_node_def node_is_def)
    then show ?thesis using ins s'(1) Number_more r(3) by (simp add: spec_outside_def spec_next_def)
  next
    case (Number_end w)
    then obtain s' x' where s': "json_in_number b ?a x s = Proceed s'" "number_change ?a x s s' x'" "result_node w x'"
        "js_flags s' = js_flags s \<union> {flag_next, flag_reproc}" using fn by auto
    have "ctl (js_flags s') = {flag_next, flag_reproc}" using s'(4) d(5) by simp
    moreover have "chain_ok s'" using keep [OF s'(2), where F = "js_flags s'" and q = "js_ptr s'"] by simp
    moreover have "counted (js_values s') (parent_of (sp_stack r)) ?a w" "json_nodes w = 1"
      using s'(2,3) x(2) by (auto simp: number_change_def result_node_def node_is_def split: json.splits)
    ultimately have "first_closing r w s'"
      using s'(2,4) d r(4) keep [OF s'(2)] by (auto simp: first_closing_def number_change_def)
    then have "first_match env (Go (spec_put w r)) (json_finish s')"
      by (rule first_close) (use n s'(2) in \<open>simp add: number_change_def\<close>)
    then show ?thesis using ins s'(1) Number_end r(3) by (simp add: spec_outside_def)
  next
    case (Number_error err)
    then obtain s' where s': "json_in_number b ?a x s = Fail err s'" "number_change ?a x s s' x" using fn by auto
    have "chain_ok s'" using keep [OF s'(2), where F = "js_flags s'" and q = "js_ptr s'"] by simp
    then show ?thesis using ins s' Number_error r(3) d(4) by (simp add: spec_outside_def number_change_def)
  qed
qed

theorem first_step:
  assumes r: "first_rel r s" "spec_ok (jx_end env) r" "sp_comment r \<noteq> No_comment \<longrightarrow> jx_comments env"
    and t: "spec_text (jx_json env) (jx_end env)" and mx: "jx_max_memory env = 0" and n: "js_next s < uint_max"
      "\<And>e cs. sp_mode r = In_string e cs \<or> sp_mode r = In_key e cs \<Longrightarrow> length cs \<le> uint_max"
  shows "first_match env (spec_step (jx_json env) (jx_end env) (jx_comments env) r) (json_iteration env s)"
proof -
  note d = first_relD [OF r(1)]
  have p: "0 \<le> sp_ptr r" "sp_ptr r \<le> jx_end env" using r(2) by (auto simp: spec_ok_def)
  obtain b where b: "(if sp_ptr r = jx_end env then Some 0 else json_peek (jx_json env) (sp_ptr r)) = Some b"
  proof (cases "sp_ptr r = jx_end env")
    case False
    obtain b where "json_peek (jx_json env) (sp_ptr r) = Some b" using spec_text_peek [OF t p] by metis
    with that False show ?thesis by simp
  qed (use that in simp)
  consider (chars) e cs where "sp_mode r = In_string e cs \<or> sp_mode r = In_key e cs"
    | (outside) "\<And>e cs. sp_mode r \<noteq> In_string e cs" "\<And>e cs. sp_mode r \<noteq> In_key e cs" by blast
  then show ?thesis
  proof cases
    case chars
    then show ?thesis using first_chars [OF r(1,2) chars t b] n by simp
  next
    case outside
    have st: "spec_step (jx_json env) (jx_end env) (jx_comments env) r =
      (if sp_comment r \<noteq> No_comment \<or> jx_comments env \<and> b = chr CHR ''/'' then spec_in_comment (jx_json env) (jx_end env) b r
       else spec_outside (jx_json env) (jx_end env) b r)"
      using spec_step_fetch [OF b] by (cases "sp_mode r") (simp_all add: outside)
    have ns: "flag_string \<notin> js_flags s"
      using ctl_mem [OF d(5)] outside by (cases "sp_mode r"; cases "sp_comment r") auto
    have "json_iteration env s = json_then (json_in_string env b s) (json_rest env b)"
      by (rule json_iteration_rest) (use b d(3) in \<open>simp only:\<close>)
    then have it: "json_iteration env s = json_rest env b s" using ns by (simp add: json_in_string_def)
    show ?thesis
    proof (cases "sp_comment r \<noteq> No_comment \<or> jx_comments env \<and> b = chr CHR ''/''")
      case True
      then show ?thesis
        using first_comment [OF r(1,2) True r(3) outside t b] it st by (simp add: json_rest_def)
    next
      case False
      then have c: "sp_comment r = No_comment" "\<not> (jx_comments env \<and> b = chr CHR ''/'')" by auto
      have ctl: "ctl (js_flags s) = mode_flags (sp_mode r)" using d(5) c by simp
      have plain: "json_iteration env s = json_then (if flag_seek_value \<in> mode_flags (sp_mode r) then json_seek_value env b s
          else json_inside b s) json_finish" if "\<And>v. sp_mode r \<noteq> All_done v"
        using json_rest_plain [OF ctl _ _ _ c(2)] it outside that by (cases "sp_mode r") auto
      have "first_match env (spec_outside (jx_json env) (jx_end env) b r) (json_iteration env s)"
      proof (cases "sp_mode r")
        case (Seeking comma colon)
        then show ?thesis using first_seek [OF r(1,2) Seeking c(1) t mx n(1)] plain by (simp add: spec_outside_def)
      next
        case (In_members comma)
        then show ?thesis using first_members [OF r(1,2) In_members c(1) n(1)] plain by (simp add: spec_outside_def)
      next
        case (In_number m)
        then show ?thesis using first_in_number [OF r(1,2) In_number c(1)] n(1) plain by simp
      next
        case (All_done v)
        have "flag_done \<in> js_flags s" "flag_line_comment \<notin> js_flags s" "flag_block_comment \<notin> js_flags s"
          using ctl_mem [OF ctl] All_done by simp_all
        then have "json_iteration env s = json_then (json_after_root b s) (\<lambda>s.
            json_then (if flag_seek_value \<in> js_flags s then json_seek_value env b s else json_inside b s) json_finish)"
          using it c by (auto simp: json_rest_def json_comment_def)
        then show ?thesis
          using All_done d first_blank [OF r(1)] \<open>flag_done \<in> js_flags s\<close>
          by (simp add: json_after_root_def spec_outside_def)
      qed (use outside in auto)
      then show ?thesis using st c by simp
    qed
  qed
qed

end
