(* ===== verification/JsonPass.thy ===== *)
theory JsonPass
  imports JsonFirstStep
begin

section \<open>How much one step adds\<close>

text \<open>All characters of names and strings, with the terminators of the names.\<close>

fun json_chars :: "json \<Rightarrow> nat" where
  "json_chars (JArray vs) = sum_list (map json_chars vs)"
| "json_chars (JObject ms) = names_size ms + sum_list (map (\<lambda>m. json_chars (snd m)) ms)"
| "json_chars (JString cs) = length cs"
| "json_chars (JInteger i) = 0"
| "json_chars (JDouble d) = 0"
| "json_chars (JBoolean b) = 0"
| "json_chars JNull = 0"

fun stack_chars :: "bool \<Rightarrow> json_frame list \<Rightarrow> nat" where
  "stack_chars pending [] = 0"
| "stack_chars pending (In_array vs # st) = sum_list (map json_chars vs) + stack_chars True st"
| "stack_chars pending (In_object ms k # st) =
     names_size ms + sum_list (map (\<lambda>m. json_chars (snd m)) ms) + (if pending then length k + 1 else 0) + stack_chars True st"

fun mode_chars :: "json_mode \<Rightarrow> json_frame list \<Rightarrow> nat" where
  "mode_chars (In_string e cs) st = stack_chars True st + length cs"
| "mode_chars (In_key e cs) st = stack_chars False st + length cs"
| "mode_chars (Seeking c d) st = stack_chars True st"
| "mode_chars (In_members c) st = stack_chars False st"
| "mode_chars (In_number n) st = stack_chars True st"
| "mode_chars (All_done v) st = json_chars v"

definition small_step :: "json_spec \<Rightarrow> json_progress \<Rightarrow> bool" where
  "small_step r x \<longleftrightarrow> (\<forall>r'. x = Go r' \<longrightarrow> mode_next (sp_mode r') (sp_stack r') \<le> mode_next (sp_mode r) (sp_stack r) + 1
     \<and> mode_chars (sp_mode r') (sp_stack r') \<le> mode_chars (sp_mode r) (sp_stack r) + 4)"

lemma small_step_other [simp]: "small_step r Stuck" "small_step r (Reject e l)" "small_step r (Accept v)"
  by (simp_all add: small_step_def)

lemma small_step_Go [simp]:
  "small_step r (Go r') \<longleftrightarrow> mode_next (sp_mode r') (sp_stack r') \<le> mode_next (sp_mode r) (sp_stack r) + 1
     \<and> mode_chars (sp_mode r') (sp_stack r') \<le> mode_chars (sp_mode r) (sp_stack r) + 4"
  by (simp add: small_step_def)

lemma small_step_next [simp]: "small_step r (spec_next r') \<longleftrightarrow> small_step r (Go r')"
  by (simp add: spec_next_def)

lemma spec_put_next [simp]:
  "mode_next (sp_mode (spec_put v r)) (sp_stack (spec_put v r)) = stack_nodes (sp_stack r) + json_nodes v"
  "mode_chars (sp_mode (spec_put v r)) (sp_stack (spec_put v r)) = stack_chars True (sp_stack r) + json_chars v"
proof -
  have "mode_next (fst (spec_value v st)) (snd (spec_value v st)) = stack_nodes st + json_nodes v
      \<and> mode_chars (fst (spec_value v st)) (snd (spec_value v st)) = stack_chars True st + json_chars v" for st
    by (induction v st rule: spec_value.induct) simp_all
  then show "mode_next (sp_mode (spec_put v r)) (sp_stack (spec_put v r)) = stack_nodes (sp_stack r) + json_nodes v"
    "mode_chars (sp_mode (spec_put v r)) (sp_stack (spec_put v r)) = stack_chars True (sp_stack r) + json_chars v" by (simp_all add: spec_put_def)
qed

lemma number_result_nodes: "json_nodes (number_result n) = 1"
  by (simp add: number_result_def split: option.splits)

lemma number_result_chars: "json_chars (number_result n) = 0"
  by (simp add: number_result_def split: option.splits)

lemma number_step_end: "number_step b n = Number_end v \<Longrightarrow> json_nodes v = 1 \<and> json_chars v = 0"
  by (auto simp: number_step_def number_digit_def number_after_digits_def Let_def number_result_nodes number_result_chars
      split: if_splits)

lemma json_utf8_length: "length (json_utf8 u) \<le> 4"
  by (simp add: json_utf8_def)

lemma spec_char_length: "spec_char json stop b p e cs = Char_more e' cs' q \<Longrightarrow> length cs' \<le> length cs + 4"
  using json_utf8_length by (auto simp: spec_char_def split: if_splits json_scan.splits)

lemma small_spec_blank: "small_step r (spec_blank b r)"
  by (simp add: spec_blank_def)

lemma small_spec_comment: "small_step r (spec_in_comment json stop b r)"
  by (simp add: spec_in_comment_def split: json_comment_state.splits)

lemma small_spec_literal:
  "json_nodes v = 1 \<Longrightarrow> json_chars v = 0 \<Longrightarrow> sp_mode r = Seeking c d \<Longrightarrow> small_step r (spec_literal json stop rest v r)"
  by (simp add: spec_literal_def split: json_scan.splits)

lemma small_spec_start: "sp_mode r = Seeking c d \<Longrightarrow> small_step r (spec_start json stop b r)"
  by (simp add: spec_start_def small_spec_literal)

lemma small_spec_seek: "sp_mode r = Seeking comma colon \<Longrightarrow> small_step r (spec_seek json stop b comma colon r)"
  by (simp add: spec_seek_def small_spec_start small_spec_blank split: list.splits json_frame.splits)

lemma small_spec_outside:
  assumes "spec_ok stop r"
  shows "small_step r (spec_outside json stop b r)"
proof (cases "sp_mode r")
  case (Seeking c d)
  then show ?thesis
    by (simp add: spec_outside_def small_spec_seek)
next
  case (In_members c)
  then obtain ms k st where "sp_stack r = In_object ms k # st" by (rule first_mode_stack [OF assms])
  with In_members show ?thesis by (simp add: spec_outside_def spec_members_def small_spec_blank)
next
  case (In_number n)
  then show ?thesis
    by (auto simp: spec_outside_def number_step_end split: number_progress.splits)
qed (auto simp: spec_outside_def small_spec_blank)

theorem spec_step_small:
  assumes "spec_ok stop r"
  shows "small_step r (spec_step json stop comments r)"
proof (cases "if sp_ptr r = stop then Some 0 else json_peek json (sp_ptr r)")
  case (Some b)
  note st = spec_step_fetch [OF Some]
  show ?thesis
  proof (cases "sp_mode r")
    case (In_string e cs)
    then show ?thesis
      by (auto simp: st dest: spec_char_length split: char_progress.splits)
  next
    case (In_key e cs)
    then obtain ms k fs where "sp_stack r = In_object ms k # fs"
      using assms by (cases "sp_stack r"; cases "hd (sp_stack r)") (auto simp: spec_ok_def)
    with In_key show ?thesis
      by (auto simp: st spec_key_done_def dest: spec_char_length split: char_progress.splits)
  qed (simp_all add: st small_spec_comment small_spec_outside [OF assms])
qed (simp add: spec_step_def)

definition spec_small :: "nat \<Rightarrow> int \<Rightarrow> json_spec \<Rightarrow> bool" where
  "spec_small k stop r \<longleftrightarrow> mode_next (sp_mode r) (sp_stack r) + spec_measure stop r \<le> k
     \<and> mode_chars (sp_mode r) (sp_stack r) + 4 * spec_measure stop r \<le> 4 * k"

lemma spec_small_step:
  assumes "spec_text json stop" "spec_ok stop r" "spec_small k stop r" "spec_step json stop comments r = Go r'"
  shows "spec_small k stop r'"
  using spec_step_progress [OF assms(1,2), of comments] spec_step_small [OF assms(2), of json comments] assms(3,4)
  by (simp add: spec_small_def)

lemma spec_comment_step:
  assumes "spec_step json stop comments r = Go r'" "sp_comment r \<noteq> No_comment \<longrightarrow> comments"
  shows "sp_comment r' \<noteq> No_comment \<longrightarrow> comments"
proof (cases comments)
  case False
  then have c: "sp_comment r = No_comment" using assms(2) by blast
  obtain b where b: "(if sp_ptr r = stop then Some 0 else json_peek json (sp_ptr r)) = Some b"
    using assms(1) unfolding spec_step_def by (cases "if sp_ptr r = stop then Some 0 else json_peek json (sp_ptr r)") auto
  have "sp_comment r' = sp_comment r"
    using assms(1) False c
    by (auto simp: spec_step_fetch [OF b] spec_outside_def spec_seek_def spec_start_def spec_members_def spec_blank_def
        spec_next_def spec_literal_def spec_key_done_def
        split: json_mode.splits char_progress.splits number_progress.splits if_splits list.splits json_frame.splits
          json_scan.splits)
  then show ?thesis using c by simp
qed simp

section \<open>The specification as a function\<close>

partial_function (option) spec_run :: "bytes \<Rightarrow> int \<Rightarrow> bool \<Rightarrow> json_spec \<Rightarrow> json_progress option" where
  "spec_run json stop comments r =
    (case spec_step json stop comments r of
       Go r' \<Rightarrow> spec_run json stop comments r'
     | x \<Rightarrow> Some x)"

declare spec_run.simps [simp del]

text \<open>The reference parser: the value of the text, or the message and its line.\<close>

definition json_reference :: "bool \<Rightarrow> bytes \<Rightarrow> json_progress option" where
  "json_reference comments text =
    (let text = (if json_bom text then drop 3 text else text)
     in spec_run (text @ [0]) (int (length text)) comments spec_initial)"

lemma spec_accept:
  assumes "spec_step json stop comments r = Accept w"
  shows "sp_mode r = All_done w"
proof -
  obtain b where b: "(if sp_ptr r = stop then Some 0 else json_peek json (sp_ptr r)) = Some b"
    using assms unfolding spec_step_def by (cases "if sp_ptr r = stop then Some 0 else json_peek json (sp_ptr r)") auto
  show ?thesis
    using assms
    by (auto simp: spec_step_fetch [OF b] spec_outside_def spec_seek_def spec_start_def spec_members_def spec_blank_def
        spec_next_def spec_literal_def spec_key_done_def spec_in_comment_def
        split: json_mode.splits char_progress.splits number_progress.splits if_splits list.splits json_frame.splits
          json_scan.splits json_comment_state.splits)
qed

lemma spec_run_total:
  assumes "spec_text json stop" "spec_ok stop r"
  shows "\<exists>x. spec_run json stop comments r = Some x \<and> (\<forall>r'. x \<noteq> Go r') \<and> x \<noteq> Stuck"
  using assms(2)
proof (induction "spec_measure stop r" arbitrary: r rule: less_induct)
  case less
  have g: "good_step stop r (spec_step json stop comments r)" by (rule spec_step_progress [OF assms(1) less.prems])
  show ?case
  proof (cases "spec_step json stop comments r")
    case (Go r')
    then show ?thesis using less.hyps [of r'] g by (simp add: spec_run.simps [of json stop comments r])
  qed (use g in \<open>simp_all add: spec_run.simps [of json stop comments r]\<close>)
qed

section \<open>The first pass\<close>

definition first_end :: "json_env \<Rightarrow> json_progress \<Rightarrow> json_flow \<Rightarrow> bool" where
  "first_end env x y \<longleftrightarrow>
    (case y of
       Fail e s \<Rightarrow> chain_ok s \<and> (x = Reject e (js_cur_line s) \<or> e = Memory_allocation_failure \<and> \<not> jx_malloc env (js_next s))
     | Break s \<Rightarrow> (\<exists>v. x = Accept v \<and> chain_ok s \<and> js_next s = json_nodes v \<and> counted (js_values s) None 0 v)
     | _ \<Rightarrow> False)"

declare json_loop.simps [simp del]

theorem first_pass:
  assumes t: "spec_text (jx_json env) (jx_end env)" and mx: "jx_max_memory env = 0" and k: "4 * k \<le> uint_max"
    and r: "first_rel r s" "spec_ok (jx_end env) r" "sp_comment r \<noteq> No_comment \<longrightarrow> jx_comments env"
      "spec_small k (jx_end env) r"
  shows "\<exists>x y. spec_run (jx_json env) (jx_end env) (jx_comments env) r = Some x \<and> json_loop env s = Some y
    \<and> first_end env x y"
  using r
proof (induction "spec_measure (jx_end env) r" arbitrary: r s rule: less_induct)
  case less
  let ?x = "spec_step (jx_json env) (jx_end env) (jx_comments env) r"
  have m: "1 \<le> spec_measure (jx_end env) r" using spec_rank_le(1) [of r] by (simp add: spec_measure_def)
  then have n: "js_next s < uint_max" "\<And>e cs. sp_mode r = In_string e cs \<or> sp_mode r = In_key e cs \<Longrightarrow> length cs \<le> uint_max"
    using less.prems(4) k first_relD(6) [OF less.prems(1)] by (auto simp: spec_small_def)
  have f: "first_match env ?x (json_iteration env s)" by (rule first_step [OF less.prems(1-3) t mx n])
  have g: "good_step (jx_end env) r ?x" by (rule spec_step_progress [OF t less.prems(2)])
  show ?case
  proof (cases "json_iteration env s")
    case (Continue s')
    then obtain r' where r': "?x = Go r'" "first_rel r' (s'\<lparr>js_ptr := js_ptr s' + 1\<rparr>)" using f by auto
    then have ok: "spec_ok (jx_end env) r'" "spec_measure (jx_end env) r' < spec_measure (jx_end env) r" using g by simp_all
    have "\<exists>x y. spec_run (jx_json env) (jx_end env) (jx_comments env) r' = Some x
        \<and> json_loop env (s'\<lparr>js_ptr := js_ptr s' + 1\<rparr>) = Some y \<and> first_end env x y"
      using less.hyps [OF ok(2) r'(2) ok(1)] spec_comment_step [OF r'(1) less.prems(3)]
        spec_small_step [OF t less.prems(2,4) r'(1)] by blast
    then show ?thesis using r' Continue by (simp add: spec_run.simps [of _ _ _ r] json_loop.simps [of env s])
  next
    case (Fail e s')
    obtain x where x: "spec_run (jx_json env) (jx_end env) (jx_comments env) r = Some x"
      using spec_run_total [OF t less.prems(2)] by blast
    then show ?thesis
      using f Fail by (auto simp: json_loop.simps [of env s] first_end_def spec_run.simps [of _ _ _ r])
  qed (use f in \<open>auto simp: json_loop.simps [of env s] first_end_def spec_run.simps [of _ _ _ r] first_match_def\<close>)
qed


lemma spec_run_bounds:
  assumes t: "spec_text json stop" and ok: "spec_ok stop r" and k: "spec_small k stop r"
    and v: "spec_run json stop comments r = Some (Accept v)"
  shows "json_nodes v \<le> k \<and> json_chars v \<le> 4 * k"
  using ok k v
proof (induction "spec_measure stop r" arbitrary: r rule: less_induct)
  case less
  have g: "good_step stop r (spec_step json stop comments r)" by (rule spec_step_progress [OF t less.prems(1)])
  show ?case
  proof (cases "spec_step json stop comments r")
    case (Go r')
    then have "spec_run json stop comments r' = Some (Accept v)"
      using less.prems(3) by (simp add: spec_run.simps [of json stop comments r])
    then show ?thesis using less.hyps [of r'] g Go spec_small_step [OF t less.prems(1,2) Go] by simp
  next
    case (Accept w)
    then have "w = v" using less.prems(3) by (simp add: spec_run.simps [of json stop comments r])
    have "sp_mode r = All_done w" using Accept by (rule spec_accept)
    then show ?thesis using less.prems(2) \<open>w = v\<close> by (simp add: spec_small_def)
  qed (use less.prems(3) in \<open>simp_all add: spec_run.simps [of json stop comments r]\<close>)
qed

lemma counted_bounds:
  "counted H p a v \<Longrightarrow> a \<le> i \<Longrightarrow> i < a + json_nodes v \<Longrightarrow> H i = Some x \<Longrightarrow>
     (jv_type x = json_array \<or> jv_type x = json_object \<longrightarrow> jv_length x \<le> json_nodes v)
     \<and> (jv_type x = json_string \<longrightarrow> jv_length x \<le> json_chars v)
     \<and> (jv_type x = json_object \<longrightarrow> (\<forall>n. jv_ptr x = Counter n \<longrightarrow> n \<le> json_chars v))"
  "counted_list H p a vs \<Longrightarrow> a \<le> i \<Longrightarrow> i < a + sum_list (map json_nodes vs) \<Longrightarrow> H i = Some x \<Longrightarrow>
     (jv_type x = json_array \<or> jv_type x = json_object \<longrightarrow> jv_length x \<le> sum_list (map json_nodes vs))
     \<and> (jv_type x = json_string \<longrightarrow> jv_length x \<le> sum_list (map json_chars vs))
     \<and> (jv_type x = json_object \<longrightarrow> (\<forall>n. jv_ptr x = Counter n \<longrightarrow> n \<le> sum_list (map json_chars vs)))"
  "counted_members H p a ms \<Longrightarrow> a \<le> i \<Longrightarrow> i < a + sum_list (map (\<lambda>m. json_nodes (snd m)) ms) \<Longrightarrow> H i = Some x \<Longrightarrow>
     (jv_type x = json_array \<or> jv_type x = json_object \<longrightarrow> jv_length x \<le> sum_list (map (\<lambda>m. json_nodes (snd m)) ms))
     \<and> (jv_type x = json_string \<longrightarrow> jv_length x \<le> sum_list (map (\<lambda>m. json_chars (snd m)) ms))
     \<and> (jv_type x = json_object \<longrightarrow> (\<forall>n. jv_ptr x = Counter n \<longrightarrow> n \<le> sum_list (map (\<lambda>m. json_chars (snd m)) ms)))"
proof (induction H p a v and H p a vs and H p a ms rule: counted_counted_list_counted_members.induct)
  case (1 H p a vs)
  show ?case
  proof (cases "i = a")
    case True
    then show ?thesis using 1 json_nodes_length(1) [of vs] by (auto simp: node_is_def)
  next
    case False
    then show ?thesis using 1 by (auto simp: Suc_le_eq)
  qed
next
  case (2 H p a ms)
  show ?case
  proof (cases "i = a")
    case True
    then show ?thesis using 2 json_nodes_length(2) [of ms] by (auto simp: node_is_def)
  next
    case False
    then show ?thesis using 2 by (fastforce simp: Suc_le_eq)
  qed
next
  case (9 H p a v vs)
  then show ?case by (cases "i < a + json_nodes v") (fastforce simp: add.assoc)+
next
  case (11 H p a k v ms)
  then show ?case by (cases "i < a + json_nodes v") (fastforce simp: add.assoc)+
qed (auto simp: node_is_def le_less_Suc_eq)

end
