(* ===== verification/JsonSecond.thy ===== *)
theory JsonSecond
  imports JsonPass
begin

section \<open>What a run will still add\<close>

text \<open>\<open>plug st P v\<close>: the value \<open>v\<close> arises from the open frames \<open>st\<close> when the value that is being read is one with \<open>P\<close>.\<close>

fun plug :: "json_frame list \<Rightarrow> (json \<Rightarrow> bool) \<Rightarrow> json \<Rightarrow> bool" where
  "plug [] P v = P v"
| "plug (In_array vs # st) P v = plug st (\<lambda>w. \<exists>x ys. w = JArray (vs @ x # ys) \<and> P x) v"
| "plug (In_object ms k # st) P v = plug st (\<lambda>w. \<exists>x ys. w = JObject (ms @ (k, x) # ys) \<and> P x) v"

fun completes :: "json_mode \<Rightarrow> json_frame list \<Rightarrow> json \<Rightarrow> bool" where
  "completes (Seeking c d) [] v = True"
| "completes (Seeking c d) (In_array vs # st) v = plug st (\<lambda>w. \<exists>ys. w = JArray (vs @ ys)) v"
| "completes (Seeking c d) (In_object ms k # st) v = plug (In_object ms k # st) (\<lambda>_. True) v"
| "completes (In_string e cs) st v = plug st (\<lambda>w. \<exists>ds. w = JString (cs @ ds)) v"
| "completes (In_number n) st v = plug st (\<lambda>w. (\<exists>i. w = JInteger i) \<or> (\<exists>d. w = JDouble d)) v"
| "completes (In_key e cs) (In_object ms k # st) v = plug st (\<lambda>w. \<exists>ds x ys. w = JObject (ms @ (cs @ ds, x) # ys)) v"
| "completes (In_key e cs) st v = False"
| "completes (In_members c) (In_object ms k # st) v = plug st (\<lambda>w. \<exists>ys. w = JObject (ms @ ys)) v"
| "completes (In_members c) st v = False"
| "completes (All_done w) st v \<longleftrightarrow> v = w"

lemma plug_mono:
  assumes "plug st P v" "\<And>w. P w \<Longrightarrow> Q w"
  shows "plug st Q v"
  using assms
proof (induction st arbitrary: P Q)
  case (Cons fr st)
  show ?case
  proof (cases fr)
    case (In_array vs)
    have "plug st (\<lambda>w. \<exists>x ys. w = JArray (vs @ x # ys) \<and> P x) v" using Cons.prems(1) In_array by simp
    then have "plug st (\<lambda>w. \<exists>x ys. w = JArray (vs @ x # ys) \<and> Q x) v" by (rule Cons.IH) (use Cons.prems(2) in blast)
    then show ?thesis using In_array by simp
  next
    case (In_object ms k)
    have "plug st (\<lambda>w. \<exists>x ys. w = JObject (ms @ (k, x) # ys) \<and> P x) v" using Cons.prems(1) In_object by simp
    then have "plug st (\<lambda>w. \<exists>x ys. w = JObject (ms @ (k, x) # ys) \<and> Q x) v" by (rule Cons.IH) (use Cons.prems(2) in blast)
    then show ?thesis using In_object by simp
  qed
qed simp

lemma completes_put:
  assumes "completes (fst (spec_value w st)) (snd (spec_value w st)) v"
  shows "plug st (\<lambda>x. x = w) v"
  using assms by (induction w st rule: spec_value.induct) (auto elim!: plug_mono)

lemma completes_seeking:
  assumes "plug st P v" shows "completes (Seeking c d) st v"
  using assms by (cases "(Seeking c d, st, v)" rule: completes.cases) (auto elim!: plug_mono)

lemma number_step_result: "number_step b n = Number_end w \<Longrightarrow> (\<exists>i. w = JInteger i) \<or> (\<exists>d. w = JDouble d)"
  by (auto simp: number_step_def number_digit_def number_after_digits_def Let_def number_result_def
      split: if_splits option.splits)

lemma completes_back:
  assumes g: "spec_step json stop comments r = Go r'" and ok: "spec_ok stop r"
    and c: "completes (sp_mode r') (sp_stack r') v"
  shows "completes (sp_mode r) (sp_stack r) v"
proof -
  obtain b where b: "(if sp_ptr r = stop then Some 0 else json_peek json (sp_ptr r)) = Some b"
    using g unfolding spec_step_def by (cases "if sp_ptr r = stop then Some 0 else json_peek json (sp_ptr r)") auto
  note st = g [unfolded spec_step_fetch [OF b]]
  have put: "plug (sp_stack x) (\<lambda>y. y = w) v" if "r' = spec_put w x \<or> r' = spec_put w x\<lparr>sp_ptr := q\<rparr>" for w x q
    using that c completes_put [of w "sp_stack x" v] by (auto simp: spec_put_def)
  show ?thesis
  proof (cases "sp_mode r")
    case (In_string e cs)
    show ?thesis
    proof (cases "spec_char json stop b (sp_ptr r) e cs")
      case (Char_more e' cs' q)
      obtain ds where "cs' = cs @ ds" using Char_more by (auto simp: spec_char_def split: if_splits json_scan.splits)
      then show ?thesis using st c In_string Char_more by (auto elim!: plug_mono)
    next
      case Char_closed
      then have "plug (sp_stack r) (\<lambda>y. y = JString cs) v" using put st In_string by (auto simp: spec_next_def)
      then show ?thesis using In_string by (auto elim!: plug_mono)
    qed (use st In_string in simp_all)
  next
    case (In_key e cs)
    then obtain ms k fs where fs: "sp_stack r = In_object ms k # fs"
      using ok by (cases "sp_stack r"; cases "hd (sp_stack r)") (auto simp: spec_ok_def)
    show ?thesis
    proof (cases "spec_char json stop b (sp_ptr r) e cs")
      case (Char_more e' cs' q)
      obtain ds where "cs' = cs @ ds" using Char_more by (auto simp: spec_char_def split: if_splits json_scan.splits)
      then show ?thesis using st c In_key Char_more fs by (auto elim!: plug_mono)
    next
      case Char_closed
      then show ?thesis using st c In_key fs by (auto simp: spec_key_done_def spec_next_def elim!: plug_mono)
    qed (use st In_key in simp_all)
  next
    case (Seeking cm cl)
    show ?thesis
    proof (cases "sp_comment r \<noteq> No_comment \<or> comments \<and> b = chr CHR ''/''")
      case True
      then show ?thesis
        using st c Seeking by (auto simp: spec_in_comment_def spec_next_def split: json_comment_state.splits if_splits)
    next
      case False
      then have s: "spec_seek json stop b cm cl r = Go r'" using st Seeking by (auto simp: spec_outside_def)
      have seek: "completes (Seeking cm cl) (sp_stack r) v" if "plug (sp_stack r) P v" for P
        using that by (rule completes_seeking)
      have lit: "completes (Seeking cm cl) (sp_stack r) v" if l: "spec_literal json stop rest w r = Go r'" for rest w
      proof -
        obtain q where "r' = spec_put w (r\<lparr>sp_ptr := q\<rparr>)"
          using l by (auto simp: spec_literal_def split: if_splits json_scan.splits)
        then have "plug (sp_stack r) (\<lambda>y. y = w) v" using put [of w "r\<lparr>sp_ptr := q\<rparr>"] by simp
        then show ?thesis by (rule seek)
      qed
      show ?thesis
      proof (cases "\<exists>vs fs. b = chr CHR '']'' \<and> sp_stack r = In_array vs # fs \<and> \<not> json_whitespace b")
        case True
        then obtain vs fs where fs: "b = chr CHR '']''" "sp_stack r = In_array vs # fs" "\<not> json_whitespace b" by blast
        then have "r' = spec_put (JArray vs) (r\<lparr>sp_stack := fs\<rparr>)\<lparr>sp_ptr := sp_ptr r + 1\<rparr>"
          using s by (simp add: spec_seek_def spec_next_def)
        then have "plug fs (\<lambda>y. y = JArray vs) v" using put [of "JArray vs" "r\<lparr>sp_stack := fs\<rparr>"] by auto
        then show ?thesis using fs Seeking by (auto elim!: plug_mono)
      next
        case False
        then consider "r' \<in> {r\<lparr>sp_ptr := sp_ptr r + 1\<rparr>, r\<lparr>sp_line := sp_line r + 1, sp_ptr := sp_ptr r + 1\<rparr>}"
          | c' where "r' = r\<lparr>sp_mode := Seeking False c', sp_ptr := sp_ptr r + 1\<rparr>"
          | "spec_start json stop b r = Go r'"
          using s by (auto simp: spec_seek_def spec_next_def spec_blank_def split: if_splits list.splits json_frame.splits)
        then show ?thesis
        proof cases
          case 1
          then show ?thesis using c by auto
        next
          case 2
          then show ?thesis using c Seeking by (cases "(Seeking cm cl, sp_stack r, v)" rule: completes.cases) auto
        next
          case 3
          then show ?thesis
            using c Seeking lit
            by (auto simp: spec_start_def spec_next_def split: if_splits intro: seek)
        qed
      qed
    qed
  next
    case (In_members cm)
    then obtain ms k fs where fs: "sp_stack r = In_object ms k # fs" by (rule first_mode_stack [OF ok])
    show ?thesis
    proof (cases "sp_comment r \<noteq> No_comment \<or> comments \<and> b = chr CHR ''/''")
      case True
      then show ?thesis
        using st c In_members by (auto simp: spec_in_comment_def spec_next_def split: json_comment_state.splits if_splits)
    next
      case False
      then have s: "spec_members b cm r = Go r'" using st In_members by (auto simp: spec_outside_def)
      consider "r' \<in> {r\<lparr>sp_ptr := sp_ptr r + 1\<rparr>, r\<lparr>sp_line := sp_line r + 1, sp_ptr := sp_ptr r + 1\<rparr>}"
        | "r' = r\<lparr>sp_mode := In_key False [], sp_ptr := sp_ptr r + 1\<rparr>"
        | "r' = r\<lparr>sp_mode := In_members False, sp_ptr := sp_ptr r + 1\<rparr>"
        | "r' = spec_put (JObject ms) (r\<lparr>sp_stack := fs\<rparr>)\<lparr>sp_ptr := sp_ptr r + 1\<rparr>"
        using s fs by (auto simp: spec_members_def spec_next_def spec_blank_def split: if_splits)
      then show ?thesis
      proof cases
        case 4
        then have "plug fs (\<lambda>y. y = JObject ms) v" using put [of "JObject ms" "r\<lparr>sp_stack := fs\<rparr>"] by auto
        then show ?thesis using fs In_members by (auto elim!: plug_mono)
      qed (use c fs In_members in \<open>auto elim!: plug_mono\<close>)
    qed
  next
    case (In_number n)
    show ?thesis
    proof (cases "sp_comment r \<noteq> No_comment \<or> comments \<and> b = chr CHR ''/''")
      case True
      then show ?thesis
        using st c In_number by (auto simp: spec_in_comment_def spec_next_def split: json_comment_state.splits if_splits)
    next
      case False
      show ?thesis
      proof (cases "number_step b n")
        case (Number_end w)
        then have "plug (sp_stack r) (\<lambda>y. y = w) v" using False st In_number put by (auto simp: spec_outside_def)
        moreover have "(\<exists>i. w = JInteger i) \<or> (\<exists>d. w = JDouble d)" using number_step_result [OF Number_end] .
        ultimately show ?thesis using In_number by (auto elim!: plug_mono)
      qed (use False st c In_number in \<open>auto simp: spec_outside_def spec_next_def\<close>)
    qed
  next
    case (All_done w)
    then show ?thesis
      using st c by (auto simp: spec_in_comment_def spec_outside_def spec_blank_def spec_next_def split: json_comment_state.splits if_splits)
  qed
qed

section \<open>The counts of the first pass suffice\<close>

fun fit_below :: "(nat \<rightharpoonup> json_value) \<Rightarrow> json_frame list \<Rightarrow> bool" where
  "fit_below f [] \<longleftrightarrow> True"
| "fit_below f (In_array vs # st) \<longleftrightarrow>
     node_is f (stack_nodes st) (parent_of st) json_array (\<lambda>x. length vs < jv_length x \<and> jv_ptr x = Counter 0)
     \<and> counted_list f (Some (stack_nodes st)) (stack_nodes st + 1) vs \<and> fit_below f st"
| "fit_below f (In_object ms k # st) \<longleftrightarrow>
     node_is f (stack_nodes st) (parent_of st) json_object (\<lambda>x. length ms < jv_length x
        \<and> (\<exists>n. jv_ptr x = Counter n \<and> names_size ms + length k + 1 \<le> n))
     \<and> counted_members f (Some (stack_nodes st)) (stack_nodes st + 1) ms \<and> fit_below f st"

definition fit_array :: "(nat \<rightharpoonup> json_value) \<Rightarrow> json list \<Rightarrow> json_frame list \<Rightarrow> bool" where
  "fit_array f vs st \<longleftrightarrow>
     node_is f (stack_nodes st) (parent_of st) json_array (\<lambda>x. length vs \<le> jv_length x \<and> jv_ptr x = Counter 0)
     \<and> counted_list f (Some (stack_nodes st)) (stack_nodes st + 1) vs \<and> fit_below f st"

definition fit_object :: "(nat \<rightharpoonup> json_value) \<Rightarrow> (bytes \<times> json) list \<Rightarrow> nat \<Rightarrow> nat \<Rightarrow> json_frame list \<Rightarrow> bool" where
  "fit_object f ms j i st \<longleftrightarrow>
     node_is f (stack_nodes st) (parent_of st) json_object (\<lambda>x. length ms + j \<le> jv_length x
        \<and> (\<exists>n. jv_ptr x = Counter n \<and> names_size ms + i \<le> n))
     \<and> counted_members f (Some (stack_nodes st)) (stack_nodes st + 1) ms \<and> fit_below f st"

fun fit_mode :: "(nat \<rightharpoonup> json_value) \<Rightarrow> json_mode \<Rightarrow> json_frame list \<Rightarrow> bool" where
  "fit_mode f (Seeking c d) [] \<longleftrightarrow> True"
| "fit_mode f (Seeking c d) (In_array vs # st) \<longleftrightarrow> fit_array f vs st"
| "fit_mode f (Seeking c d) (In_object ms k # st) \<longleftrightarrow> fit_below f (In_object ms k # st)"
| "fit_mode f (In_string e cs) st \<longleftrightarrow> fit_below f st
     \<and> node_is f (stack_nodes st) (parent_of st) json_string (\<lambda>x. length cs \<le> jv_length x)"
| "fit_mode f (In_number n) st \<longleftrightarrow> fit_below f st"
| "fit_mode f (In_key e cs) (In_object ms k # st) \<longleftrightarrow> fit_object f ms 1 (length cs + 1) st"
| "fit_mode f (In_key e cs) st \<longleftrightarrow> False"
| "fit_mode f (In_members c) (In_object ms k # st) \<longleftrightarrow> fit_object f ms 0 0 st"
| "fit_mode f (In_members c) st \<longleftrightarrow> False"
| "fit_mode f (All_done v) st \<longleftrightarrow> counted f None 0 v"

lemma plug_counted:
  assumes "plug st P v" "counted f None 0 v"
  shows "fit_below f st \<and> (\<exists>w. P w \<and> counted f (parent_of st) (stack_nodes st) w
    \<and> stack_nodes st + json_nodes w \<le> json_nodes v)"
  using assms(1)
proof (induction st arbitrary: P)
  case Nil
  then show ?case using assms(2) by auto
next
  case (Cons fr st)
  show ?case
  proof (cases fr)
    case (In_array vs)
    from Cons.IH [of "\<lambda>w. \<exists>x ys. w = JArray (vs @ x # ys) \<and> P x"] Cons.prems In_array
    obtain x ys where x: "P x" "fit_below f st" "counted f (parent_of st) (stack_nodes st) (JArray (vs @ x # ys))"
      "stack_nodes st + json_nodes (JArray (vs @ x # ys)) \<le> json_nodes v" by auto
    from x(2,3) have "fit_below f (In_array vs # st)"
      by (auto simp: node_is_def counted_list_append)
    moreover have "counted f (parent_of (In_array vs # st)) (stack_nodes (In_array vs # st)) x"
      using x(3) by (simp add: counted_list_append add_ac)
    ultimately show ?thesis using x(1,4) In_array by (auto simp: add_ac intro!: exI [of _ x])
  next
    case (In_object ms k)
    from Cons.IH [of "\<lambda>w. \<exists>x ys. w = JObject (ms @ (k, x) # ys) \<and> P x"] Cons.prems In_object
    obtain x ys where x: "P x" "fit_below f st" "counted f (parent_of st) (stack_nodes st) (JObject (ms @ (k, x) # ys))"
      "stack_nodes st + json_nodes (JObject (ms @ (k, x) # ys)) \<le> json_nodes v" by auto
    from x(2,3) have "fit_below f (In_object ms k # st)"
      by (auto simp: node_is_def counted_members_append)
    moreover have "counted f (parent_of (In_object ms k # st)) (stack_nodes (In_object ms k # st)) x"
      using x(3) by (simp add: counted_members_append add_ac)
    ultimately show ?thesis using x(1,4) In_object by (auto simp: add_ac intro!: exI [of _ x])
  qed
qed

lemma completes_fit:
  assumes "completes m st v" "counted f None 0 v"
  shows "fit_mode f m st \<and> mode_next m st \<le> json_nodes v"
proof -
  have pc: "\<exists>w. P w \<and> fit_below f xs \<and> counted f (parent_of xs) (stack_nodes xs) w \<and> stack_nodes xs + json_nodes w \<le> json_nodes v"
    if "plug xs P v" for xs P
    using plug_counted [OF that assms(2)] by blast
  show ?thesis
  proof (cases m)
    case (Seeking c d)
    show ?thesis
    proof (cases st)
      case Nil
      then show ?thesis using Seeking json_nodes_pos [of v] by simp
    next
      case (Cons fr fs)
      show ?thesis
      proof (cases fr)
        case (In_array vs)
        have "plug fs (\<lambda>w. \<exists>ys. w = JArray (vs @ ys)) v" using assms(1) Seeking Cons In_array by simp
        from pc [OF this] show ?thesis
          using Seeking Cons In_array by (auto simp: fit_array_def node_is_def counted_list_append)
      next
        case (In_object ms k)
        have "plug st (\<lambda>_. True) v" using assms(1) Seeking Cons In_object by simp
        from pc [OF this] show ?thesis
          using Seeking Cons In_object by auto
      qed
    qed
  next
    case (In_string e cs)
    have "plug st (\<lambda>w. \<exists>ds. w = JString (cs @ ds)) v" using assms(1) In_string by simp
    from pc [OF this] show ?thesis using In_string by (auto simp: node_is_def)
  next
    case (In_number n)
    have "plug st (\<lambda>w. (\<exists>i. w = JInteger i) \<or> (\<exists>d. w = JDouble d)) v" using assms(1) In_number by simp
    from pc [OF this] show ?thesis using In_number by auto
  next
    case (In_key e cs)
    then obtain ms k fs where st: "st = In_object ms k # fs"
      using assms(1) by (cases st; cases "hd st") auto
    have "plug fs (\<lambda>w. \<exists>ds x ys. w = JObject (ms @ (cs @ ds, x) # ys)) v" using assms(1) In_key st by simp
    from pc [OF this] show ?thesis
      using In_key st by (auto simp: fit_object_def node_is_def counted_members_append)
  next
    case (In_members c)
    then obtain ms k fs where st: "st = In_object ms k # fs"
      using assms(1) by (cases st; cases "hd st") auto
    have "plug fs (\<lambda>w. \<exists>ys. w = JObject (ms @ ys)) v" using assms(1) In_members st by simp
    from pc [OF this] show ?thesis
      using In_members st by (auto simp: fit_object_def node_is_def counted_members_append)
  next
    case (All_done w)
    then show ?thesis using assms by simp
  qed
qed

section \<open>The heap of the second pass\<close>

fun json_blocks :: "json \<Rightarrow> nat" where
  "json_blocks (JArray vs) = (if vs = [] then 0 else 1) + sum_list (map json_blocks vs)"
| "json_blocks (JObject ms) = (if ms = [] then 0 else 1) + sum_list (map (\<lambda>m. json_blocks (snd m)) ms)"
| "json_blocks (JString cs) = 1"
| "json_blocks (JInteger i) = 0"
| "json_blocks (JDouble d) = 0"
| "json_blocks (JBoolean b) = 0"
| "json_blocks JNull = 0"

text \<open>The addresses of consecutive values, the members they make, and the bytes of the names.\<close>

fun child_addresses :: "nat \<Rightarrow> json list \<Rightarrow> nat list" where
  "child_addresses a [] = []"
| "child_addresses a (v # vs) = a # child_addresses (a + json_nodes v) vs"

fun member_entries :: "nat \<Rightarrow> nat \<Rightarrow> (bytes \<times> json) list \<Rightarrow> json_object_entry list" where
  "member_entries i a [] = []"
| "member_entries i a ((k, v) # ms) =
     \<lparr>je_name = Some i, je_name_length = Some (length k), je_value = Some a\<rparr>
     # member_entries (i + length k + 1) (a + json_nodes v) ms"

definition names_bytes :: "(bytes \<times> json) list \<Rightarrow> bytes" where
  "names_bytes ms = concat (map (\<lambda>m. fst m @ [0]) ms)"

type_synonym json_memory = "nat \<rightharpoonup> json_block"

fun stored :: "(nat \<rightharpoonup> json_value) \<Rightarrow> json_memory \<Rightarrow> nat option \<Rightarrow> nat \<Rightarrow> nat \<Rightarrow> json \<Rightarrow> bool"
  and stored_list :: "(nat \<rightharpoonup> json_value) \<Rightarrow> json_memory \<Rightarrow> nat option \<Rightarrow> nat \<Rightarrow> nat \<Rightarrow> json list \<Rightarrow> bool"
  and stored_members :: "(nat \<rightharpoonup> json_value) \<Rightarrow> json_memory \<Rightarrow> nat option \<Rightarrow> nat \<Rightarrow> nat \<Rightarrow> (bytes \<times> json) list \<Rightarrow> bool" where
  "stored H M p a b (JArray vs) \<longleftrightarrow>
     node_is H a p json_array (\<lambda>x. jv_length x = length vs \<and> jv_ptr x = (if vs = [] then Counter 0 else Mem b))
     \<and> (vs \<noteq> [] \<longrightarrow> M b = Some (Pointers (map Some (child_addresses (a + 1) vs))))
     \<and> stored_list H M (Some a) (a + 1) (b + (if vs = [] then 0 else 1)) vs"
| "stored H M p a b (JObject ms) \<longleftrightarrow>
     node_is H a p json_object (\<lambda>x. jv_length x = length ms \<and> jv_ptr x = (if ms = [] then Counter 0 else Mem b))
     \<and> (ms \<noteq> [] \<longrightarrow> M b = Some (Members (member_entries 0 (a + 1) ms) (map Some (names_bytes ms))))
     \<and> stored_members H M (Some a) (a + 1) (b + (if ms = [] then 0 else 1)) ms"
| "stored H M p a b (JString cs) \<longleftrightarrow>
     node_is H a p json_string (\<lambda>x. jv_length x = length cs \<and> jv_ptr x = Mem b)
     \<and> M b = Some (Chars (map Some (cs @ [0])))"
| "stored H M p a b (JInteger i) \<longleftrightarrow> node_is H a p json_integer (\<lambda>x. jv_integer x = i)"
| "stored H M p a b (JDouble d) \<longleftrightarrow> node_is H a p json_double (\<lambda>x. jv_dbl x = d)"
| "stored H M p a b (JBoolean c) \<longleftrightarrow> node_is H a p json_boolean (\<lambda>x. jv_boolean x = c)"
| "stored H M p a b JNull \<longleftrightarrow> node_is H a p json_null (\<lambda>x. True)"
| "stored_list H M p a b [] \<longleftrightarrow> True"
| "stored_list H M p a b (v # vs) \<longleftrightarrow> stored H M p a b v \<and> stored_list H M p (a + json_nodes v) (b + json_blocks v) vs"
| "stored_members H M p a b [] \<longleftrightarrow> True"
| "stored_members H M p a b ((k, v) # ms) \<longleftrightarrow>
     stored H M p a b v \<and> stored_members H M p (a + json_nodes v) (b + json_blocks v) ms"

text \<open>An array or object has a block exactly if the first pass has counted an element or member.\<close>

definition own_block :: "(nat \<rightharpoonup> json_value) \<Rightarrow> nat \<Rightarrow> nat" where
  "own_block f a = (case f a of Some x \<Rightarrow> if jv_length x = 0 then 0 else 1 | None \<Rightarrow> 0)"

fun frame_blocks :: "json_frame \<Rightarrow> nat" where
  "frame_blocks (In_array vs) = sum_list (map json_blocks vs)"
| "frame_blocks (In_object ms k) = sum_list (map (\<lambda>m. json_blocks (snd m)) ms)"

fun stack_blocks :: "(nat \<rightharpoonup> json_value) \<Rightarrow> json_frame list \<Rightarrow> nat" where
  "stack_blocks f [] = 0"
| "stack_blocks f (fr # st) = stack_blocks f st + own_block f (stack_nodes st) + frame_blocks fr"

text \<open>The open frames: what has been filled in of their blocks.  \<open>b\<close> is the block of the frame.\<close>

definition array_open ::
  "(nat \<rightharpoonup> json_value) \<Rightarrow> (nat \<rightharpoonup> json_value) \<Rightarrow> json_memory \<Rightarrow> json list \<Rightarrow> nat option \<Rightarrow> nat \<Rightarrow> nat \<Rightarrow> bool" where
  "array_open f H M vs p a b \<longleftrightarrow>
     (if own_block f a = 0 then node_is H a p json_array (\<lambda>x. jv_length x = length vs \<and> jv_ptr x = Counter 0)
      else node_is H a p json_array (\<lambda>x. jv_length x = length vs \<and> jv_ptr x = Mem b)
        \<and> (\<exists>ps x. f a = Some x \<and> M b = Some (Pointers ps) \<and> length ps = jv_length x
            \<and> take (length vs) ps = map Some (child_addresses (a + 1) vs)))
     \<and> stored_list H M (Some a) (a + 1) (b + own_block f a) vs"

definition object_open ::
  "(nat \<rightharpoonup> json_value) \<Rightarrow> (nat \<rightharpoonup> json_value) \<Rightarrow> json_memory \<Rightarrow> (bytes \<times> json) list \<Rightarrow> bytes option \<Rightarrow> nat option
    \<Rightarrow> nat \<Rightarrow> nat \<Rightarrow> bool" where
  "object_open f H M ms pending p a b \<longleftrightarrow>
     (if own_block f a = 0
      then node_is H a p json_object (\<lambda>x. jv_length x = length ms \<and> jv_ptr x = Counter 0) \<and> pending = None
      else node_is H a p json_object (\<lambda>x. jv_length x = length ms \<and> jv_ptr x = Mem b
          \<and> jv_reserved x = Object_mem b (names_size ms + (case pending of None \<Rightarrow> 0 | Some k \<Rightarrow> length k + 1)))
        \<and> (\<exists>es cs x n. f a = Some x \<and> jv_ptr x = Counter n \<and> M b = Some (Members es cs) \<and> length es = jv_length x
            \<and> length cs = n \<and> take (length ms) es = member_entries 0 (a + 1) ms
            \<and> (case pending of
                 None \<Rightarrow> take (names_size ms) cs = map Some (names_bytes ms)
               | Some k \<Rightarrow> length ms < length es \<and> je_name (es ! length ms) = Some (names_size ms)
                   \<and> je_name_length (es ! length ms) = Some (length k)
                   \<and> take (names_size ms + length k + 1) cs = map Some (names_bytes ms @ k @ [0]))))
     \<and> stored_members H M (Some a) (a + 1) (b + own_block f a) ms"

fun stored_below :: "nat \<Rightarrow> (nat \<rightharpoonup> json_value) \<Rightarrow> (nat \<rightharpoonup> json_value) \<Rightarrow> json_memory \<Rightarrow> json_frame list \<Rightarrow> bool" where
  "stored_below n f H M [] \<longleftrightarrow> True"
| "stored_below n f H M (In_array vs # st) \<longleftrightarrow>
     array_open f H M vs (parent_of st) (stack_nodes st) (n + stack_blocks f st) \<and> stored_below n f H M st"
| "stored_below n f H M (In_object ms k # st) \<longleftrightarrow>
     object_open f H M ms (Some k) (parent_of st) (stack_nodes st) (n + stack_blocks f st) \<and> stored_below n f H M st"

fun stored_mode ::
  "nat \<Rightarrow> (nat \<rightharpoonup> json_value) \<Rightarrow> json_state \<Rightarrow> json_mode \<Rightarrow> json_frame list \<Rightarrow> bool" where
  "stored_mode n f s (Seeking c d) st \<longleftrightarrow> stored_below n f (js_values s) (js_blocks s) st \<and> js_next s = n + stack_blocks f st"
| "stored_mode n f s (In_members c) (In_object ms k # st) \<longleftrightarrow>
     object_open f (js_values s) (js_blocks s) ms None (parent_of st) (stack_nodes st) (n + stack_blocks f st)
     \<and> stored_below n f (js_values s) (js_blocks s) st \<and> js_next s = n + stack_blocks f (In_object ms k # st)"
| "stored_mode n f s (In_members c) st \<longleftrightarrow> False"
| "stored_mode n f s (In_key e cs) (In_object ms k # st) \<longleftrightarrow>
     object_open f (js_values s) (js_blocks s) ms None (parent_of st) (stack_nodes st) (n + stack_blocks f st)
     \<and> stored_below n f (js_values s) (js_blocks s) st \<and> js_next s = n + stack_blocks f (In_object ms k # st)
     \<and> js_string s = Some (n + stack_blocks f st, names_size ms) \<and> js_string_length s = length cs
     \<and> (\<exists>es mem. js_blocks s (n + stack_blocks f st) = Some (Members es mem)
          \<and> take (names_size ms + length cs) mem = map Some (names_bytes ms @ cs))"
| "stored_mode n f s (In_key e cs) st \<longleftrightarrow> False"
| "stored_mode n f s (In_string e cs) st \<longleftrightarrow> stored_below n f (js_values s) (js_blocks s) st
     \<and> js_next s = n + stack_blocks f st + 1
     \<and> node_is (js_values s) (stack_nodes st) (parent_of st) json_string (\<lambda>x. jv_ptr x = Mem (n + stack_blocks f st))
     \<and> js_string s = Some (n + stack_blocks f st, 0) \<and> js_string_length s = length cs
     \<and> (\<exists>mem x. js_blocks s (n + stack_blocks f st) = Some (Chars mem) \<and> f (stack_nodes st) = Some x
          \<and> length mem = jv_length x + 1 \<and> take (length cs) mem = map Some cs)"
| "stored_mode n f s (In_number m) st \<longleftrightarrow> False"
| "stored_mode n f s (All_done v) st \<longleftrightarrow> stored (js_values s) (js_blocks s) None 0 n v \<and> js_next s = n + json_blocks v"

definition second_ok :: "nat \<Rightarrow> (nat \<rightharpoonup> json_value) \<Rightarrow> nat \<Rightarrow> json_state \<Rightarrow> bool" where
  "second_ok n f k s \<longleftrightarrow> \<not> js_first_pass s \<and> js_used_memory s = 0 \<and> k \<le> n
     \<and> (\<forall>a. js_values s a \<noteq> None \<longleftrightarrow> a < n) \<and> (\<forall>a\<ge>k. js_values s a = f a)
     \<and> (\<forall>b. js_blocks s b \<noteq> None \<longleftrightarrow> n \<le> b \<and> b < js_next s)
     \<and> js_root s = (if k = 0 then None else Some 0) \<and> js_alloc s = (if k < n then Some k else None)"

definition second_rel :: "nat \<Rightarrow> (nat \<rightharpoonup> json_value) \<Rightarrow> json_spec \<Rightarrow> json_state \<Rightarrow> bool" where
  "second_rel n f r s \<longleftrightarrow> second_ok n f (mode_next (sp_mode r) (sp_stack r)) s
     \<and> js_ptr s = sp_ptr r \<and> js_cur_line s = sp_line r
     \<and> ctl (js_flags s) = mode_flags (sp_mode r) \<union> comment_flags (sp_comment r)
     \<and> js_top s = mode_top (sp_mode r) (sp_stack r) \<and> stored_mode n f s (sp_mode r) (sp_stack r)"

section \<open>What does not change\<close>

definition agree :: "'k set \<Rightarrow> ('k \<Rightarrow> 'v) \<Rightarrow> ('k \<Rightarrow> 'v) \<Rightarrow> bool" where
  "agree A f g \<longleftrightarrow> (\<forall>x\<in>A. f x = g x)"

lemma agree_mono: "agree A f g \<Longrightarrow> B \<subseteq> A \<Longrightarrow> agree B f g"
  by (auto simp: agree_def)

lemma agree_upd: "x \<notin> A \<Longrightarrow> agree A f (f(x := y))"
  by (simp add: agree_def)

lemma agree_refl [simp]: "agree A f f"
  by (simp add: agree_def)

lemma agree_node: "agree A H H' \<Longrightarrow> a \<in> A \<Longrightarrow> node_is H' a p t P = node_is H a p t P"
  by (simp add: agree_def node_is_def)

lemma stored_agree:
  "stored H M p a b v \<Longrightarrow> agree {a ..< a + json_nodes v} H H' \<Longrightarrow> agree {b ..< b + json_blocks v} M M' \<Longrightarrow> stored H' M' p a b v"
  "stored_list H M p a b vs \<Longrightarrow> agree {a ..< a + sum_list (map json_nodes vs)} H H' \<Longrightarrow>
     agree {b ..< b + sum_list (map json_blocks vs)} M M' \<Longrightarrow> stored_list H' M' p a b vs"
  "stored_members H M p a b ms \<Longrightarrow> agree {a ..< a + sum_list (map (\<lambda>m. json_nodes (snd m)) ms)} H H' \<Longrightarrow>
     agree {b ..< b + sum_list (map (\<lambda>m. json_blocks (snd m)) ms)} M M' \<Longrightarrow> stored_members H' M' p a b ms"
proof (induction H M p a b v and H M p a b vs and H M p a b ms rule: stored_stored_list_stored_members.induct)
  case (1 H M p a b vs)
  have "agree {a + 1 ..< a + 1 + sum_list (map json_nodes vs)} H H'"
    "agree {b + (if vs = [] then 0 else 1) ..< b + (if vs = [] then 0 else 1) + sum_list (map json_blocks vs)} M M'"
    using "1.prems"(2,3) by (auto elim!: agree_mono)
  moreover have "vs \<noteq> [] \<Longrightarrow> M' b = M b" using "1.prems"(3) by (auto simp: agree_def)
  ultimately show ?case using 1 agree_node [OF "1.prems"(2), of a] by auto
next
  case (2 H M p a b ms)
  have "agree {a + 1 ..< a + 1 + sum_list (map (\<lambda>m. json_nodes (snd m)) ms)} H H'"
    "agree {b + (if ms = [] then 0 else 1) ..< b + (if ms = [] then 0 else 1) + sum_list (map (\<lambda>m. json_blocks (snd m)) ms)} M M'"
    using "2.prems"(2,3) by (auto elim!: agree_mono)
  moreover have "ms \<noteq> [] \<Longrightarrow> M' b = M b" using "2.prems"(3) by (auto simp: agree_def)
  ultimately show ?case using 2 agree_node [OF "2.prems"(2), of a] by auto
next
  case (3 H M p a b cs)
  then show ?case using agree_node [OF "3.prems"(2), of a] by (simp add: agree_def)
next
  case (9 H M p a b v vs)
  have "agree {a ..< a + json_nodes v} H H'" "agree {b ..< b + json_blocks v} M M'"
    "agree {a + json_nodes v ..< a + json_nodes v + sum_list (map json_nodes vs)} H H'"
    "agree {b + json_blocks v ..< b + json_blocks v + sum_list (map json_blocks vs)} M M'"
    using "9.prems"(2,3) by (auto elim!: agree_mono)
  then show ?case using 9 by simp
next
  case (11 H M p a b k v ms)
  have "agree {a ..< a + json_nodes v} H H'" "agree {b ..< b + json_blocks v} M M'"
    "agree {a + json_nodes v ..< a + json_nodes v + sum_list (map (\<lambda>m. json_nodes (snd m)) ms)} H H'"
    "agree {b + json_blocks v ..< b + json_blocks v + sum_list (map (\<lambda>m. json_blocks (snd m)) ms)} M M'"
    using "11.prems"(2,3) by (auto elim!: agree_mono)
  then show ?case using 11 by simp
qed (simp_all add: agree_def node_is_def)

lemma stored_upd:
  "stored H M p a b v \<Longrightarrow> i < a \<Longrightarrow> stored (H(i \<mapsto> x)) M p a b v"
  "stored_list H M p a b vs \<Longrightarrow> i < a \<Longrightarrow> stored_list (H(i \<mapsto> x)) M p a b vs"
  "stored_members H M p a b ms \<Longrightarrow> i < a \<Longrightarrow> stored_members (H(i \<mapsto> x)) M p a b ms"
  by (erule stored_agree; auto intro: agree_upd)+

lemma stored_blk:
  "stored H M p a b v \<Longrightarrow> i < b \<Longrightarrow> stored H (M(i \<mapsto> x)) p a b v"
  "stored_list H M p a b vs \<Longrightarrow> i < b \<Longrightarrow> stored_list H (M(i \<mapsto> x)) p a b vs"
  "stored_members H M p a b ms \<Longrightarrow> i < b \<Longrightarrow> stored_members H (M(i \<mapsto> x)) p a b ms"
  by (erule stored_agree; auto intro: agree_upd)+

lemma array_open_agree:
  assumes "array_open f H M vs p a b" "agree {a ..< a + 1 + sum_list (map json_nodes vs)} H H'"
    "agree {b ..< b + own_block f a + sum_list (map json_blocks vs)} M M'"
  shows "array_open f H' M' vs p a b"
proof -
  have "agree {a + 1 ..< a + 1 + sum_list (map json_nodes vs)} H H'"
    "agree {b + own_block f a ..< b + own_block f a + sum_list (map json_blocks vs)} M M'"
    using assms(2,3) by (auto elim!: agree_mono)
  then have "stored_list H' M' (Some a) (a + 1) (b + own_block f a) vs"
    using assms(1) by (auto simp: array_open_def intro: stored_agree)
  moreover have "own_block f a \<noteq> 0 \<Longrightarrow> M' b = M b" using assms(3) by (auto simp: agree_def)
  ultimately show ?thesis
    using assms(1) agree_node [OF assms(2), of a] by (auto simp: array_open_def split: if_splits)
qed

lemma object_open_agree:
  assumes "object_open f H M ms k p a b" "agree {a ..< a + 1 + sum_list (map (\<lambda>m. json_nodes (snd m)) ms)} H H'"
    "agree {b ..< b + own_block f a + sum_list (map (\<lambda>m. json_blocks (snd m)) ms)} M M'"
  shows "object_open f H' M' ms k p a b"
proof -
  have "agree {a + 1 ..< a + 1 + sum_list (map (\<lambda>m. json_nodes (snd m)) ms)} H H'"
    "agree {b + own_block f a ..< b + own_block f a + sum_list (map (\<lambda>m. json_blocks (snd m)) ms)} M M'"
    using assms(2,3) by (auto elim!: agree_mono)
  then have "stored_members H' M' (Some a) (a + 1) (b + own_block f a) ms"
    using assms(1) by (auto simp: object_open_def intro: stored_agree)
  moreover have "own_block f a \<noteq> 0 \<Longrightarrow> M' b = M b" using assms(3) by (auto simp: agree_def)
  ultimately show ?thesis
    using assms(1) agree_node [OF assms(2), of a] by (auto simp: object_open_def split: if_splits)
qed

lemma stored_below_agree:
  "stored_below n f H M st \<Longrightarrow> agree {..<stack_nodes st} H H' \<Longrightarrow> agree {..<n + stack_blocks f st} M M' \<Longrightarrow>
    stored_below n f H' M' st"
proof (induction n f H M st rule: stored_below.induct)
  case (2 n f H M vs st)
  have "agree {..<stack_nodes st} H H'" "agree {..<n + stack_blocks f st} M M'"
    using "2.prems"(2,3) by (auto elim!: agree_mono)
  moreover have "array_open f H' M' vs (parent_of st) (stack_nodes st) (n + stack_blocks f st)"
    by (rule array_open_agree [of f H M]) (use 2 in \<open>auto elim!: agree_mono\<close>)
  ultimately show ?case using 2 by simp
next
  case (3 n f H M ms k st)
  have "agree {..<stack_nodes st} H H'" "agree {..<n + stack_blocks f st} M M'"
    using "3.prems"(2,3) by (auto elim!: agree_mono)
  moreover have "object_open f H' M' ms (Some k) (parent_of st) (stack_nodes st) (n + stack_blocks f st)"
    by (rule object_open_agree [of f H M]) (use 3 in \<open>auto elim!: agree_mono\<close>)
  ultimately show ?case using 3 by simp
qed simp

lemma stored_below_upd:
  "stored_below n f H M st \<Longrightarrow> stack_nodes st \<le> a \<Longrightarrow> stored_below n f (H(a \<mapsto> x)) M st"
  "stored_below n f H M st \<Longrightarrow> n + stack_blocks f st \<le> b \<Longrightarrow> stored_below n f H (M(b \<mapsto> y)) st"
  by (erule stored_below_agree; auto intro: agree_upd)+

lemma stored_list_append:
  "stored_list H M p a b (vs @ ws) \<longleftrightarrow> stored_list H M p a b vs
     \<and> stored_list H M p (a + sum_list (map json_nodes vs)) (b + sum_list (map json_blocks vs)) ws"
  by (induction vs arbitrary: a b) (auto simp: add.assoc)

lemma stored_members_append:
  "stored_members H M p a b (ms @ ns) \<longleftrightarrow> stored_members H M p a b ms
     \<and> stored_members H M p (a + sum_list (map (\<lambda>m. json_nodes (snd m)) ms))
         (b + sum_list (map (\<lambda>m. json_blocks (snd m)) ms)) ns"
  by (induction ms arbitrary: a b) (auto simp: add.assoc)

lemma child_addresses_append:
  "child_addresses a (vs @ ws) = child_addresses a vs @ child_addresses (a + sum_list (map json_nodes vs)) ws"
  by (induction vs arbitrary: a) (auto simp: add.assoc)

lemma length_child_addresses [simp]: "length (child_addresses a vs) = length vs"
  by (induction vs arbitrary: a) auto

lemma member_entries_append:
  "member_entries i a (ms @ ns) = member_entries i a ms
     @ member_entries (i + names_size ms) (a + sum_list (map (\<lambda>m. json_nodes (snd m)) ms)) ns"
  by (induction ms arbitrary: i a) (auto simp: add_ac)

lemma length_member_entries [simp]: "length (member_entries i a ms) = length ms"
  by (induction ms arbitrary: i a) auto

lemma names_bytes_simps [simp]:
  "names_bytes [] = []" "names_bytes (m # ms) = fst m @ 0 # names_bytes ms"
  "names_bytes (ms @ ns) = names_bytes ms @ names_bytes ns"
  by (simp_all add: names_bytes_def)

lemma length_names_bytes [simp]: "length (names_bytes ms) = names_size ms"
  by (induction ms) (simp_all add: names_size_def)

lemma stored_parent: "stored H M p a b v \<Longrightarrow> \<exists>x. H a = Some x \<and> jv_parent x = p"
  by (cases v) (auto simp: node_is_def)


section \<open>The end of a value in the second pass\<close>

definition heap_bounds :: "(nat \<rightharpoonup> json_value) \<Rightarrow> bool" where
  "heap_bounds f \<longleftrightarrow> (\<forall>a x. f a = Some x \<longrightarrow>
     (jv_type x = json_array \<or> jv_type x = json_object \<longrightarrow> 24 * jv_length x < 2 ^ 31)
     \<and> (jv_type x = json_string \<longrightarrow> jv_length x \<le> uint_max)
     \<and> (jv_type x = json_object \<longrightarrow> (\<forall>n. jv_ptr x = Counter n \<longrightarrow> n \<le> uint_max)))"

definition second_closing :: "nat \<Rightarrow> (nat \<rightharpoonup> json_value) \<Rightarrow> json_spec \<Rightarrow> json \<Rightarrow> json_state \<Rightarrow> bool" where
  "second_closing n f r w s \<longleftrightarrow> second_ok n f (stack_nodes (sp_stack r) + json_nodes w) s
     \<and> js_ptr s + 1 = sp_ptr r + (if flag_reproc \<in> js_flags s then 1 else 0) \<and> js_cur_line s = sp_line r
     \<and> ctl (js_flags s) - {flag_reproc} = {flag_next} \<and> sp_comment r = No_comment
     \<and> js_next s = n + stack_blocks f (sp_stack r) + json_blocks w \<and> js_top s = Some (stack_nodes (sp_stack r))
     \<and> stored_below n f (js_values s) (js_blocks s) (sp_stack r)
     \<and> stored (js_values s) (js_blocks s) (parent_of (sp_stack r)) (stack_nodes (sp_stack r))
         (n + stack_blocks f (sp_stack r)) w"

lemma second_ok_cong:
  "second_ok n f k s \<Longrightarrow> js_first_pass s' = js_first_pass s \<Longrightarrow> js_used_memory s' = js_used_memory s \<Longrightarrow>
   js_values s' = js_values s \<Longrightarrow> js_blocks s' = js_blocks s \<Longrightarrow> js_next s' = js_next s \<Longrightarrow> js_root s' = js_root s \<Longrightarrow>
   js_alloc s' = js_alloc s \<Longrightarrow> second_ok n f k s'"
  by (simp add: second_ok_def)

lemma second_ok_set:
  "second_ok n f k s \<Longrightarrow> a < k \<Longrightarrow> second_ok n f k (set_value a x s)"
  by (auto simp: second_ok_def)

lemma second_ok_block:
  "second_ok n f k s \<Longrightarrow> js_blocks s b = Some y \<Longrightarrow> second_ok n f k (set_block b z s)"
  by (auto simp: second_ok_def)

lemma array_open_push:
  assumes o: "array_open f H M vs p a b" and w: "stored H M (Some a) (a + 1 + sum_list (map json_nodes vs))
      (b + own_block f a + sum_list (map json_blocks vs)) w"
    and f: "f a = Some x" "length vs < jv_length x"
  obtains y ps where "H a = Some y" "jv_type y = json_array" "jv_length y = length vs" "jv_ptr y = Mem b"
    "M b = Some (Pointers ps)" "length ps = jv_length x"
    "array_open f (H(a \<mapsto> y\<lparr>jv_length := length vs + 1\<rparr>))
       (M(b \<mapsto> Pointers (ps[length vs := Some (a + 1 + sum_list (map json_nodes vs))]))) (vs @ [w]) p a b"
proof -
  have own: "own_block f a = 1" using f by (simp add: own_block_def)
  obtain y where y: "H a = Some y" "jv_parent y = p" "jv_type y = json_array" "jv_length y = length vs" "jv_ptr y = Mem b"
    using o own by (auto simp: array_open_def node_is_def)
  obtain ps where ps: "M b = Some (Pointers ps)" "length ps = jv_length x"
      "take (length vs) ps = map Some (child_addresses (a + 1) vs)" "stored_list H M (Some a) (a + 1) (b + 1) vs"
    using o own f by (auto simp: array_open_def)
  let ?H = "H(a \<mapsto> y\<lparr>jv_length := length vs + 1\<rparr>)"
  let ?M = "M(b \<mapsto> Pointers (ps[length vs := Some (a + 1 + sum_list (map json_nodes vs))]))"
  have "stored_list ?H ?M (Some a) (a + 1) (b + 1) vs" using ps(4) by (auto intro!: stored_upd stored_blk)
  moreover have "stored ?H ?M (Some a) (a + 1 + sum_list (map json_nodes vs)) (b + 1 + sum_list (map json_blocks vs)) w"
    using w own by (auto intro!: stored_upd stored_blk)
  moreover have "take (length vs + 1) (ps[length vs := Some (a + 1 + sum_list (map json_nodes vs))])
      = map Some (child_addresses (a + 1) (vs @ [w]))"
    using ps(2,3) f(2) by (simp add: take_Suc_conv_app_nth child_addresses_append)
  ultimately have "array_open f ?H ?M (vs @ [w]) p a b"
    using own y ps f by (simp add: array_open_def node_is_def stored_list_append)
  then show ?thesis using y ps by (intro that) simp_all
qed

lemma object_open_push:
  assumes o: "object_open f H M ms (Some k) p a b" and w: "stored H M (Some a)
      (a + 1 + sum_list (map (\<lambda>m. json_nodes (snd m)) ms)) (b + own_block f a + sum_list (map (\<lambda>m. json_blocks (snd m)) ms)) w"
    and f: "f a = Some x" "length ms < jv_length x"
  obtains y es cs where "H a = Some y" "jv_type y = json_object" "jv_length y = length ms" "jv_ptr y = Mem b"
    "M b = Some (Members es cs)" "length es = jv_length x"
    "object_open f (H(a \<mapsto> y\<lparr>jv_length := length ms + 1\<rparr>))
       (M(b \<mapsto> Members (es[length ms := (es ! length ms)
          \<lparr>je_value := Some (a + 1 + sum_list (map (\<lambda>m. json_nodes (snd m)) ms))\<rparr>]) cs)) (ms @ [(k, w)]) None p a b"
proof -
  have own: "own_block f a = 1" using f by (simp add: own_block_def)
  obtain y where y: "H a = Some y" "jv_parent y = p" "jv_type y = json_object" "jv_length y = length ms" "jv_ptr y = Mem b"
      "jv_reserved y = Object_mem b (names_size ms + (length k + 1))"
    using o own by (auto simp: object_open_def node_is_def)
  obtain es cs m where es: "M b = Some (Members es cs)" "length es = jv_length x" "jv_ptr x = Counter m" "length cs = m"
      "take (length ms) es = member_entries 0 (a + 1) ms" "je_name (es ! length ms) = Some (names_size ms)"
      "je_name_length (es ! length ms) = Some (length k)"
      "take (names_size ms + length k + 1) cs = map Some (names_bytes ms @ k @ [0])"
      "stored_members H M (Some a) (a + 1) (b + 1) ms"
    using o own f by (auto simp: object_open_def)
  let ?c = "a + 1 + sum_list (map (\<lambda>m. json_nodes (snd m)) ms)"
  let ?es = "es[length ms := (es ! length ms)\<lparr>je_value := Some ?c\<rparr>]"
  let ?H = "H(a \<mapsto> y\<lparr>jv_length := length ms + 1\<rparr>)" let ?M = "M(b \<mapsto> Members ?es cs)"
  have "stored_members ?H ?M (Some a) (a + 1) (b + 1) ms" using es(9) by (auto intro!: stored_upd stored_blk)
  moreover have "stored ?H ?M (Some a) ?c (b + 1 + sum_list (map (\<lambda>m. json_blocks (snd m)) ms)) w"
    using w own by (auto intro!: stored_upd stored_blk)
  moreover have "(es ! length ms)\<lparr>je_value := Some ?c\<rparr> =
      \<lparr>je_name = Some (names_size ms), je_name_length = Some (length k), je_value = Some ?c\<rparr>"
    using es(6,7) by (cases "es ! length ms") simp
  then have "take (length ms + 1) ?es = member_entries 0 (a + 1) (ms @ [(k, w)])"
    using es(2,5) f(2) by (simp add: take_Suc_conv_app_nth member_entries_append)
  ultimately have "object_open f ?H ?M (ms @ [(k, w)]) None p a b"
    using own y es f by (simp add: object_open_def node_is_def stored_members_append add_ac)
  then show ?thesis using y es by (intro that) simp_all
qed

lemma second_finish:
  assumes c: "second_closing n f r w s" and b: "heap_bounds f"
    and ft: "fit_mode f (sp_mode (spec_put w r)) (sp_stack (spec_put w r))"
  shows "\<exists>s'. json_finish s = Continue s' \<and> second_rel n f (spec_put w r) (s'\<lparr>js_ptr := js_ptr s' + 1\<rparr>)"
proof -
  let ?st = "sp_stack r" let ?a = "stack_nodes (sp_stack r)"
  let ?s = "set_flags (insert flag_need_comma (js_flags s - {flag_reproc} - {flag_next})) (s\<lparr>js_ptr := sp_ptr r - 1\<rparr>)"
  have f: "second_ok n f (?a + json_nodes w) s" "js_ptr s + 1 = sp_ptr r + (if flag_reproc \<in> js_flags s then 1 else 0)"
    "js_cur_line s = sp_line r"
    "ctl (js_flags s) - {flag_reproc} = {flag_next}" "sp_comment r = No_comment"
    "js_next s = n + stack_blocks f ?st + json_blocks w" "js_top s = Some ?a"
    "stored_below n f (js_values s) (js_blocks s) ?st"
    "stored (js_values s) (js_blocks s) (parent_of ?st) ?a (n + stack_blocks f ?st) w"
    using c by (simp_all add: second_closing_def)
  have np: "\<not> js_first_pass s" using f(1) by (simp add: second_ok_def)
  have nx: "flag_next \<in> js_flags s" using f(4) by (auto simp: ctl_def)
  have fin: "json_finish s = json_value_done ?s"
  proof -
    have "sp_ptr r - 1 = js_ptr s - (if flag_reproc \<in> js_flags s then 1 else 0)" using f(2) by simp
    then show ?thesis using nx by (cases s) (auto simp: json_finish_def set_flags_def)
  qed
  obtain x where x: "js_values s ?a = Some x" "jv_parent x = parent_of ?st" using stored_parent [OF f(9)] by auto
  have ctl: "ctl (insert flag_need_comma (js_flags s - {flag_reproc} - {flag_next})) = {flag_need_comma}"
    using f(4) by auto
  have ok: "second_ok n f (?a + json_nodes w) ?s" using f(1) by (rule second_ok_cong) simp_all
  show ?thesis
  proof (cases ?st)
    case Nil
    let ?t = "set_flags (insert flag_done (js_flags ?s)) ?s"
    have "json_finish s = Continue ?t" using fin x f Nil by (simp add: json_value_done_def on_value_def)
    moreover have "second_ok n f (?a + json_nodes w) (?t\<lparr>js_ptr := js_ptr ?t + 1\<rparr>)" using ok by (rule second_ok_cong) simp_all
    then have "second_rel n f (spec_put w r) (?t\<lparr>js_ptr := js_ptr ?t + 1\<rparr>)"
      using Nil f ctl by (auto simp: second_rel_def spec_put_def)
    ultimately show ?thesis by blast
  next
    case (Cons fr st)
    let ?p = "stack_nodes st" let ?b = "n + stack_blocks f st"
    have lt: "?p < ?a" using Cons frame_nodes_pos [of fr] by simp
    have pk: "?p < ?a + json_nodes w" using lt by simp
    have below: "stored_below n f (js_values s) (js_blocks s) st" using f(8) Cons by (cases fr) simp_all
    show ?thesis
    proof (cases fr)
      case (In_array vs)
      obtain z where z: "f ?p = Some z" "length vs < jv_length z" "jv_type z = json_array"
        using ft Cons In_array by (auto simp: spec_put_def fit_array_def node_is_def)
      have "24 * jv_length z < 2 ^ 31" using b z(1,3) by (simp add: heap_bounds_def)
      then have lim: "length vs + 1 \<le> uint_max" using z(2) by (simp add: uint_max_def)
      have ao: "array_open f (js_values s) (js_blocks s) vs (parent_of st) ?p ?b" using f(8) Cons In_array by simp
      have aw: "stored (js_values s) (js_blocks s) (Some ?p) (?p + 1 + sum_list (map json_nodes vs))
          (?b + own_block f ?p + sum_list (map json_blocks vs)) w"
        using f(9) Cons In_array by (simp add: add_ac)
      obtain y ps where y: "js_values s ?p = Some y" "jv_type y = json_array" "jv_length y = length vs"
          "jv_ptr y = Mem ?b" "js_blocks s ?b = Some (Pointers ps)" "length ps = jv_length z"
          "array_open f ((js_values s)(?p \<mapsto> y\<lparr>jv_length := length vs + 1\<rparr>))
            ((js_blocks s)(?b \<mapsto> Pointers (ps[length vs := Some (?p + 1 + sum_list (map json_nodes vs))]))) (vs @ [w]) (parent_of st) ?p ?b"
        by (rule array_open_push [OF ao aw z(1,2)])
      let ?y = "y\<lparr>jv_length := length vs + 1\<rparr>" let ?z = "Pointers (ps[length vs := Some ?a])"
      define t where "t = (set_value ?p ?y (set_block ?b ?z (set_flags (insert flag_seek_value (js_flags ?s)) ?s)))\<lparr>js_top := Some ?p\<rparr>"
      have "second_ok n f (?a + json_nodes w) (set_block ?b ?z ?s)" using ok by (rule second_ok_block) (simp add: y)
      from second_ok_set [OF this pk, of ?y]
      have okt: "second_ok n f (?a + json_nodes w) (t\<lparr>js_ptr := js_ptr t + 1\<rparr>)"
        unfolding t_def by (rule second_ok_cong) simp_all
      have "json_finish s = Continue t"
        using fin x f(7) Cons y np lim z(2)
        by (simp add: json_value_done_def on_value_def t_def Let_def json_link_def)
      moreover have aeq: "?a = ?p + 1 + sum_list (map json_nodes vs)" using Cons In_array by simp
      have "second_rel n f (spec_put w r) (t\<lparr>js_ptr := js_ptr t + 1\<rparr>)"
        using Cons In_array f ctl okt y(7) below aeq
        by (auto simp: second_rel_def spec_put_def t_def add_ac intro!: stored_below_upd)
      ultimately show ?thesis by blast
    next
      case (In_object ms k)
      obtain z m where z: "f ?p = Some z" "length ms < jv_length z" "jv_type z = json_object"
        using ft Cons In_object by (auto simp: spec_put_def fit_object_def node_is_def)
      have "24 * jv_length z < 2 ^ 31" using b z(1,3) by (simp add: heap_bounds_def)
      then have lim: "length ms + 1 \<le> uint_max" using z(2) by (simp add: uint_max_def)
      have ao: "object_open f (js_values s) (js_blocks s) ms (Some k) (parent_of st) ?p ?b" using f(8) Cons In_object by simp
      have aw: "stored (js_values s) (js_blocks s) (Some ?p) (?p + 1 + sum_list (map (\<lambda>m. json_nodes (snd m)) ms))
          (?b + own_block f ?p + sum_list (map (\<lambda>m. json_blocks (snd m)) ms)) w"
        using f(9) Cons In_object by (simp add: add_ac)
      obtain y es cs where y: "js_values s ?p = Some y" "jv_type y = json_object" "jv_length y = length ms"
          "jv_ptr y = Mem ?b" "js_blocks s ?b = Some (Members es cs)" "length es = jv_length z"
          "object_open f ((js_values s)(?p \<mapsto> y\<lparr>jv_length := length ms + 1\<rparr>))
            ((js_blocks s)(?b \<mapsto> Members (es[length ms := (es ! length ms)
              \<lparr>je_value := Some (?p + 1 + sum_list (map (\<lambda>m. json_nodes (snd m)) ms))\<rparr>]) cs)) (ms @ [(k, w)]) None (parent_of st) ?p ?b"
        by (rule object_open_push [OF ao aw z(1,2)])
      let ?y = "y\<lparr>jv_length := length ms + 1\<rparr>"
      let ?z = "Members (es[length ms := (es ! length ms)\<lparr>je_value := Some ?a\<rparr>]) cs"
      define t where "t = (set_value ?p ?y (set_block ?b ?z ?s))\<lparr>js_top := Some ?p\<rparr>"
      have "second_ok n f (?a + json_nodes w) (set_block ?b ?z ?s)" using ok by (rule second_ok_block) (simp add: y)
      from second_ok_set [OF this pk, of ?y]
      have okt: "second_ok n f (?a + json_nodes w) (t\<lparr>js_ptr := js_ptr t + 1\<rparr>)"
        unfolding t_def by (rule second_ok_cong) simp_all
      have "json_finish s = Continue t"
        using fin x f(7) Cons y np lim z(2)
        by (simp add: json_value_done_def on_value_def t_def Let_def json_link_def)
      moreover have aeq: "?a = ?p + 1 + sum_list (map (\<lambda>m. json_nodes (snd m)) ms)" using Cons In_object by simp
      have "second_rel n f (spec_put w r) (t\<lparr>js_ptr := js_ptr t + 1\<rparr>)"
        using Cons In_object f ctl okt y(7) below aeq
        by (auto simp: second_rel_def spec_put_def t_def add_ac intro!: stored_below_upd)
      ultimately show ?thesis by blast
    qed
  qed
qed

section \<open>New values in the second pass\<close>

definition second_env :: "json_env \<Rightarrow> nat \<Rightarrow> (nat \<rightharpoonup> json_value) \<Rightarrow> bool" where
  "second_env env n f \<longleftrightarrow> jx_max_memory env = 0 \<and> (\<forall>i\<ge>n. jx_malloc env i) \<and> heap_bounds f
     \<and> (\<forall>a x. f a = Some x \<longrightarrow> jv_reserved x = Next_alloc (if a + 1 < n then Some (a + 1) else None))
     \<and> (\<forall>a x. f a = Some x \<longrightarrow> jv_type x = json_object \<longrightarrow> jv_length x = 0 \<longrightarrow> jv_ptr x = Counter 0)"

definition second_opened :: "nat \<Rightarrow> (nat \<rightharpoonup> json_value) \<Rightarrow> nat \<Rightarrow> nat \<Rightarrow> json_state \<Rightarrow> json_state \<Rightarrow> bool" where
  "second_opened n f k b s s' \<longleftrightarrow> second_ok n f (k + 1) s' \<and> js_top s' = Some k \<and> js_next s' = js_next s + b
     \<and> js_ptr s' = js_ptr s \<and> js_cur_line s' = js_cur_line s \<and> js_flags s' = js_flags s
     \<and> agree {..<k} (js_values s) (js_values s') \<and> agree {..<js_next s} (js_blocks s) (js_blocks s')"

lemma second_new_value:
  assumes ok: "second_ok n f k s" and env: "second_env env n f" and x: "f k = Some x" "k < n"
    and nx: "n \<le> js_next s"
  shows "new_value env t s = json_alloc_memory env k x
    (s\<lparr>js_top := Some k, js_alloc := (if k + 1 < n then Some (k + 1) else None), js_root := Some 0\<rparr>)"
proof -
  have "js_values s k = Some x" "js_alloc s = Some k" "root_or k (js_root s) = Some 0"
    using ok x by (auto simp: second_ok_def root_or_def)
  moreover have "jv_reserved x = Next_alloc (if k + 1 < n then Some (k + 1) else None)"
    using env x by (simp add: second_env_def)
  ultimately show ?thesis using ok by (simp add: new_value_def on_value_def second_ok_def)
qed

lemma second_alloc:
  assumes "second_env env n f" "n \<le> js_next s" "js_used_memory s = 0" "sz \<le> ulong_max"
  shows "json_alloc env sz s = Some (js_next s, s\<lparr>js_next := js_next s + 1\<rparr>)"
  using assms by (cases s) (auto simp: json_alloc_def second_env_def)

lemma second_ok_open:
  assumes nx: "n \<le> js_next s" and ok: "second_ok n f k s" and k: "k < n"
  shows "second_ok n f (k + 1)
    (s\<lparr>js_top := Some k, js_alloc := (if k + 1 < n then Some (k + 1) else None), js_root := Some 0\<rparr>)"
    "second_ok n f (k + 1) (set_value k y (set_block (js_next s) z
      (s\<lparr>js_top := Some k, js_alloc := (if k + 1 < n then Some (k + 1) else None), js_root := Some 0,
         js_next := js_next s + 1\<rparr>)))"
  using assms by (auto simp: second_ok_def)

lemma second_new_array:
  assumes ok: "second_ok n f k s" and env: "second_env env n f" and x: "f k = Some x" "k < n" "jv_type x = json_array"
      "jv_ptr x = Counter 0" and nx: "n \<le> js_next s"
  shows "\<exists>s'. new_value env t s = Proceed s' \<and> second_opened n f k (own_block f k) s s'
    \<and> array_open f (js_values s') (js_blocks s') [] (jv_parent x) k (js_next s)"
proof (cases "jv_length x = 0")
  case True
  let ?s = "s\<lparr>js_top := Some k, js_alloc := (if k + 1 < n then Some (k + 1) else None), js_root := Some 0\<rparr>"
  have "js_values s k = Some x" using ok x by (simp add: second_ok_def)
  then show ?thesis
    using second_new_value [OF ok env x(1,2) nx, of t] True second_ok_open(1) [OF nx ok x(2)] x
    by (intro exI [of _ ?s])
       (simp add: json_alloc_memory_def second_opened_def own_block_def array_open_def node_is_def)
next
  case False
  let ?s = "s\<lparr>js_top := Some k, js_alloc := (if k + 1 < n then Some (k + 1) else None), js_root := Some 0\<rparr>"
  let ?y = "x\<lparr>jv_ptr := Mem (js_next s), jv_length := 0\<rparr>"
  let ?t = "set_value k ?y (set_block (js_next s) (Pointers (replicate (jv_length x) None)) (?s\<lparr>js_next := js_next s + 1\<rparr>))"
  have "24 * jv_length x < 2 ^ 31" using env x by (simp add: second_env_def heap_bounds_def)
  then have "json_alloc env (jv_length x * SIZEOF_POINTER) ?s = Some (js_next s, ?s\<lparr>js_next := js_next s + 1\<rparr>)"
    using second_alloc [OF env, of ?s "jv_length x * SIZEOF_POINTER"] ok nx
    by (simp add: SIZEOF_POINTER_def ulong_max_def second_ok_def)
  then have "new_value env t s = Proceed ?t"
    using second_new_value [OF ok env x(1,2) nx, of t] False x(3) by (simp add: json_alloc_memory_def)
  moreover have "second_ok n f (k + 1) ?t" using second_ok_open(2) [OF nx ok x(2)] by simp
  then have "second_opened n f k (own_block f k) s ?t"
    using x False by (auto simp: second_opened_def own_block_def agree_def)
  moreover have "array_open f (js_values ?t) (js_blocks ?t) [] (jv_parent x) k (js_next s)"
    using x False by (simp add: array_open_def own_block_def node_is_def)
  ultimately show ?thesis by blast
qed

lemma second_new_object:
  assumes ok: "second_ok n f k s" and env: "second_env env n f" and x: "f k = Some x" "k < n" "jv_type x = json_object"
      "jv_ptr x = Counter m" "jv_length x = 0 \<Longrightarrow> m = 0" and nx: "n \<le> js_next s"
  shows "\<exists>s'. new_value env t s = Proceed s' \<and> second_opened n f k (own_block f k) s s'
    \<and> object_open f (js_values s') (js_blocks s') [] None (jv_parent x) k (js_next s)"
proof (cases "jv_length x = 0")
  case True
  let ?s = "s\<lparr>js_top := Some k, js_alloc := (if k + 1 < n then Some (k + 1) else None), js_root := Some 0\<rparr>"
  have "js_values s k = Some x" using ok x by (simp add: second_ok_def)
  then show ?thesis
    using second_new_value [OF ok env x(1,2) nx, of t] True second_ok_open(1) [OF nx ok x(2)] x
    by (intro exI [of _ ?s])
       (simp add: json_alloc_memory_def second_opened_def own_block_def object_open_def node_is_def)
next
  case False
  let ?s = "s\<lparr>js_top := Some k, js_alloc := (if k + 1 < n then Some (k + 1) else None), js_root := Some 0\<rparr>"
  let ?y = "x\<lparr>jv_ptr := Mem (js_next s), jv_reserved := Object_mem (js_next s) 0, jv_length := 0\<rparr>"
  let ?b = "Members (replicate (jv_length x) blank_entry) (replicate m None)"
  let ?t = "set_value k ?y (set_block (js_next s) ?b (?s\<lparr>js_next := js_next s + 1\<rparr>))"
  have l: "24 * jv_length x < 2 ^ 31" "m \<le> uint_max"
    using env x(1,3,4) by (auto simp: second_env_def heap_bounds_def)
  then have "json_alloc env (SIZEOF_JSON_OBJECT_ENTRY * jv_length x + m) ?s = Some (js_next s, ?s\<lparr>js_next := js_next s + 1\<rparr>)"
    using second_alloc [OF env, of ?s "SIZEOF_JSON_OBJECT_ENTRY * jv_length x + m"] ok nx
    by (simp add: SIZEOF_JSON_OBJECT_ENTRY_def ulong_max_def uint_max_def second_ok_def)
  then have "new_value env t s = Proceed ?t"
    using second_new_value [OF ok env x(1,2) nx, of t] False x(3,4) l(1)
    by (simp add: json_alloc_memory_def SIZEOF_JSON_OBJECT_ENTRY_def)
  moreover have "second_ok n f (k + 1) ?t" using second_ok_open(2) [OF nx ok x(2)] by simp
  then have "second_opened n f k (own_block f k) s ?t"
    using x False by (auto simp: second_opened_def own_block_def agree_def)
  moreover have "object_open f (js_values ?t) (js_blocks ?t) [] None (jv_parent x) k (js_next s)"
    using x False by (simp add: object_open_def own_block_def node_is_def)
  ultimately show ?thesis by blast
qed

lemma second_new_string:
  assumes ok: "second_ok n f k s" and env: "second_env env n f" and x: "f k = Some x" "k < n" "jv_type x = json_string"
    and nx: "n \<le> js_next s"
  shows "\<exists>s'. new_value env t s = Proceed s' \<and> second_opened n f k 1 s s'
    \<and> node_is (js_values s') k (jv_parent x) json_string (\<lambda>y. jv_ptr y = Mem (js_next s))
    \<and> js_blocks s' (js_next s) = Some (Chars (replicate (jv_length x + 1) None))"
proof -
  let ?s = "s\<lparr>js_top := Some k, js_alloc := (if k + 1 < n then Some (k + 1) else None), js_root := Some 0\<rparr>"
  let ?y = "x\<lparr>jv_ptr := Mem (js_next s), jv_length := 0\<rparr>"
  let ?t = "set_value k ?y (set_block (js_next s) (Chars (replicate (jv_length x + 1) None)) (?s\<lparr>js_next := js_next s + 1\<rparr>))"
  have "jv_length x \<le> uint_max" using env x by (simp add: second_env_def heap_bounds_def)
  then have "json_alloc env (jv_length x + 1) ?s = Some (js_next s, ?s\<lparr>js_next := js_next s + 1\<rparr>)"
    using second_alloc [OF env, of ?s "jv_length x + 1"] ok nx
    by (simp add: ulong_max_def uint_max_def second_ok_def)
  then have "new_value env t s = Proceed ?t"
    using second_new_value [OF ok env x(1,2) nx, of t] x(3) by (simp add: json_alloc_memory_def)
  moreover have "second_ok n f (k + 1) ?t" using second_ok_open(2) [OF nx ok x(2)] by simp
  then have "second_opened n f k 1 s ?t" by (auto simp: second_opened_def agree_def)
  moreover have "node_is (js_values ?t) k (jv_parent x) json_string (\<lambda>y. jv_ptr y = Mem (js_next s))"
    using x by (simp add: node_is_def)
  ultimately show ?thesis by (intro exI [of _ ?t]) simp
qed

lemma second_new_scalar:
  assumes ok: "second_ok n f k s" and env: "second_env env n f" and x: "f k = Some x" "k < n"
      "jv_type x \<notin> {json_array, json_object, json_string}" and nx: "n \<le> js_next s"
  shows "\<exists>s'. new_value env t s = Proceed s' \<and> second_opened n f k 0 s s' \<and> js_values s' k = Some x"
proof -
  let ?s = "s\<lparr>js_top := Some k, js_alloc := (if k + 1 < n then Some (k + 1) else None), js_root := Some 0\<rparr>"
  have "js_values s k = Some x" using ok x by (simp add: second_ok_def)
  moreover have "new_value env t s = Proceed ?s"
    using second_new_value [OF ok env x(1,2) nx, of t] x(3) by (simp add: json_alloc_memory_def split: json_type.splits)
  ultimately show ?thesis
    using second_ok_open(1) [OF nx ok x(2)] by (intro exI [of _ ?s]) (simp add: second_opened_def)
qed

section \<open>Characters in the second pass\<close>

text \<open>\<open>mem\<close> are the characters of the block that \<open>js_string\<close> points into; they are written from \<open>base\<close> on.\<close>

definition block_chars :: "json_block \<Rightarrow> byte option list option" where
  "block_chars blk = (case blk of Chars cs \<Rightarrow> Some cs | Members es cs \<Rightarrow> Some cs | Pointers ps \<Rightarrow> None)"

definition with_chars :: "json_block \<Rightarrow> byte option list \<Rightarrow> json_block" where
  "with_chars blk cs = (case blk of Chars _ \<Rightarrow> Chars cs | Members es _ \<Rightarrow> Members es cs | Pointers ps \<Rightarrow> Pointers ps)"

lemma json_poke_chars:
  assumes "js_blocks s b = Some blk" "block_chars blk = Some mem" "base + i < length mem"
  shows "json_poke (Some (b, base)) i c s = Proceed (set_block b (with_chars blk (mem[base + i := Some c])) s)"
  using assms by (auto simp: json_poke_def block_chars_def with_chars_def split: json_block.splits)

lemma with_chars_simps [simp]:
  "block_chars blk = Some mem \<Longrightarrow> block_chars (with_chars blk cs) = Some cs"
  "with_chars (with_chars blk cs) ds = with_chars blk ds"
  by (auto simp: block_chars_def with_chars_def split: json_block.splits)

lemma with_chars_id: "block_chars blk = Some mem \<Longrightarrow> with_chars blk mem = blk"
  by (auto simp: block_chars_def with_chars_def split: json_block.splits)

lemma second_string_adds:
  assumes "\<not> js_first_pass s" "js_string s = Some (b, base)" "js_blocks s b = Some blk" "block_chars blk = Some mem"
    "base + js_string_length s + length cs \<le> length mem"
  shows "\<exists>mem'. string_adds cs s = Proceed ((set_block b (with_chars blk mem') s)\<lparr>js_string_length := js_string_length s + length cs\<rparr>)
    \<and> length mem' = length mem
    \<and> take (base + js_string_length s + length cs) mem' = take (base + js_string_length s) mem @ map Some cs"
  using assms
proof (induction cs arbitrary: s blk mem)
  case Nil
  then have "set_block b (with_chars blk mem) s = s" by (cases s) (auto simp: set_block_def with_chars_id)
  with Nil show ?case by (intro exI [of _ mem]) (cases s, simp)
next
  case (Cons c cs)
  let ?m = "mem[base + js_string_length s := Some c]" let ?blk = "with_chars blk ?m"
  let ?s = "(set_block b ?blk s)\<lparr>js_string_length := js_string_length s + 1\<rparr>"
  have "string_add c s = Proceed ?s"
    using Cons.prems json_poke_chars [of s b blk mem base "js_string_length s" c] by (simp add: string_add_def)
  moreover have "\<exists>mem'. string_adds cs ?s = Proceed ((set_block b (with_chars ?blk mem') ?s)
      \<lparr>js_string_length := js_string_length ?s + length cs\<rparr>) \<and> length mem' = length ?m
    \<and> take (base + js_string_length ?s + length cs) mem' = take (base + js_string_length ?s) ?m @ map Some cs"
    using Cons.prems by (intro Cons.IH) simp_all
  then obtain mem' where m: "string_adds cs ?s = Proceed ((set_block b (with_chars ?blk mem') ?s)
      \<lparr>js_string_length := js_string_length ?s + length cs\<rparr>)" "length mem' = length mem"
    "take (base + js_string_length ?s + length cs) mem' = take (base + js_string_length ?s) ?m @ map Some cs" by auto
  have "(set_block b (with_chars ?blk mem') ?s)\<lparr>js_string_length := js_string_length ?s + length cs\<rparr> =
      (set_block b (with_chars blk mem') s)\<lparr>js_string_length := js_string_length s + length (c # cs)\<rparr>"
    by (cases s) (simp add: set_block_def)
  moreover have "take (base + js_string_length s + 1) ?m = take (base + js_string_length s) mem @ [Some c]"
    using Cons.prems by (simp add: take_Suc_conv_app_nth)
  ultimately show ?case using m by (intro exI [of _ mem']) (simp add: add.assoc)
qed

end
