(* ===== verification/JsonSecondStep.thy ===== *)
theory JsonSecondStep
  imports JsonSecond
begin

text \<open>
  Each iteration of the second pass is a step of the specification; a number is one iteration for several steps.
\<close>

section \<open>The second pass follows the specification: strings\<close>

definition fits :: "nat \<Rightarrow> (nat \<rightharpoonup> json_value) \<Rightarrow> json_spec \<Rightarrow> bool" where
  "fits n f r \<longleftrightarrow> fit_mode f (sp_mode r) (sp_stack r) \<and> mode_next (sp_mode r) (sp_stack r) \<le> n"

lemma fit_put:
  assumes "fit_mode f (sp_mode (spec_put w r)) (sp_stack (spec_put w r))"
  shows "counted f (parent_of (sp_stack r)) (stack_nodes (sp_stack r)) w"
proof (cases "(w, sp_stack r)" rule: spec_value.cases)
  case (2 v vs st)
  then show ?thesis using assms by (simp add: spec_put_def fit_array_def counted_list_append add_ac)
next
  case (3 v ms k st)
  then show ?thesis using assms by (simp add: spec_put_def fit_object_def counted_members_append add_ac)
qed (use assms in \<open>simp add: spec_put_def\<close>)

definition second_match :: "nat \<Rightarrow> (nat \<rightharpoonup> json_value) \<Rightarrow> json_spec \<Rightarrow> json_flow \<Rightarrow> bool" where
  "second_match n f r y \<longleftrightarrow> (\<exists>s. y = Continue s \<and> second_rel n f r (s\<lparr>js_ptr := js_ptr s + 1\<rparr>))"

lemma second_match_Continue [simp]:
  "second_match n f r (Continue s) \<longleftrightarrow> second_rel n f r (s\<lparr>js_ptr := js_ptr s + 1\<rparr>)"
  by (simp add: second_match_def)

lemma second_relD:
  assumes "second_rel n f r s"
  shows "second_ok n f (mode_next (sp_mode r) (sp_stack r)) s" "\<not> js_first_pass s" "js_ptr s = sp_ptr r"
    "js_cur_line s = sp_line r" "ctl (js_flags s) = mode_flags (sp_mode r) \<union> comment_flags (sp_comment r)"
    "js_top s = mode_top (sp_mode r) (sp_stack r)" "stored_mode n f s (sp_mode r) (sp_stack r)"
  using assms by (simp_all add: second_rel_def second_ok_def)

lemma second_close:
  assumes "second_closing n f r w s" "heap_bounds f" "fits n f (spec_put w r)"
  shows "second_match n f (spec_put w r) (json_finish s)"
  using second_finish [OF assms(1,2)] assms(3) by (auto simp: fits_def)

text \<open>One character: the bytes it stands for are appended to what has been written.\<close>

lemma second_string_char:
  assumes s: "flag_string \<in> js_flags s" "\<not> js_first_pass s" "js_string_length s \<le> uint_max"
      "flag_escaped \<in> js_flags s \<longleftrightarrow> e" "js_string_length s = length cs"
    and m: "js_string s = Some (i, length pre)" "js_blocks s i = Some blk" "block_chars blk = Some mem"
      "take (length pre + length cs) mem = map Some (pre @ cs)"
    and c: "spec_char (jx_json env) (jx_end env) b (js_ptr s) e cs = Char_more e' cs' q" "length pre + length cs' \<le> length mem"
  shows "\<exists>mem'. json_in_string env b s = Continue (set_block i (with_chars blk mem')
      (s\<lparr>js_ptr := q, js_flags := js_flags s - {flag_escaped} \<union> (if e' then {flag_escaped} else {}),
         js_string_length := length cs'\<rparr>))
    \<and> length mem' = length mem \<and> take (length pre + length cs') mem' = map Some (pre @ cs')"
proof -
  have nz: "b \<noteq> 0" using c(1) by (auto simp: spec_char_def)
  have same: "set_block i (with_chars blk mem) t = t" if "js_blocks t i = Some blk" for t
    using that m(3) by (cases t) (auto simp: set_block_def with_chars_id)
  have adds: "\<exists>mem'. string_adds ds (s\<lparr>js_flags := F, js_ptr := q\<rparr>) = Proceed (set_block i (with_chars blk mem')
      (s\<lparr>js_ptr := q, js_flags := F, js_string_length := length cs'\<rparr>))
    \<and> length mem' = length mem \<and> take (length pre + length cs') mem' = map Some (pre @ cs')"
    if ds: "cs' = cs @ ds" for ds F
  proof -
    obtain mem' where "string_adds ds (s\<lparr>js_flags := F, js_ptr := q\<rparr>) =
        Proceed ((set_block i (with_chars blk mem') (s\<lparr>js_flags := F, js_ptr := q\<rparr>))\<lparr>js_string_length := length cs + length ds\<rparr>)"
      "length mem' = length mem" "take (length pre + length cs + length ds) mem' = take (length pre + length cs) mem @ map Some ds"
      using second_string_adds [of "s\<lparr>js_flags := F, js_ptr := q\<rparr>" i "length pre" blk mem ds] s m c(2) ds by auto
    then show ?thesis
      using m(4) ds by (intro exI [of _ mem']) (cases s, simp add: set_block_def add.assoc)
  qed
  consider (uni) "e" "b = chr CHR ''u''" | (esc) "e" "b \<noteq> chr CHR ''u''" | (bsl) "\<not> e" "b = chr CHR 0x5C"
    | (plain) "\<not> e" "b \<noteq> chr CHR 0x5C" by blast
  then show ?thesis
  proof cases
    case uni
    then obtain u where u: "json_unicode (jx_json env) (jx_end env) (js_ptr s) = Scanned (u, q)" "cs' = cs @ json_utf8 u" "e' = False"
      using c(1) nz by (auto simp: spec_char_def split: json_scan.splits)
    have "json_escape env b (set_flags (js_flags s - {flag_escaped}) s) =
        string_adds (json_utf8 u) (s\<lparr>js_flags := js_flags s - {flag_escaped}, js_ptr := q\<rparr>)"
      using uni u(1) by (simp add: json_escape_def chr_def set_flags_def)
    then show ?thesis
      using adds [OF u(2), of "js_flags s - {flag_escaped}"] s nz uni(1) u(3) by (auto simp: json_in_string_def)
  next
    case esc
    then have u: "cs' = cs @ [json_escaped b]" "q = js_ptr s" "e' = False" using c(1) nz by (auto simp: spec_char_def)
    have "json_escape env b (set_flags (js_flags s - {flag_escaped}) s) =
        string_adds [json_escaped b] (s\<lparr>js_flags := js_flags s - {flag_escaped}, js_ptr := q\<rparr>)"
      using esc u(2) by (cases "string_add (json_escaped b) (s\<lparr>js_flags := js_flags s - {flag_escaped}\<rparr>)")
        (simp_all add: json_escaped_byte set_flags_def)
    then show ?thesis
      using adds [OF u(1), of "js_flags s - {flag_escaped}"] s nz esc(1) u(3) by (auto simp: json_in_string_def)
  next
    case bsl
    then have u: "cs' = cs" "q = js_ptr s" "e'" using c(1) nz by (auto simp: spec_char_def)
    have fe: "flag_escaped \<notin> js_flags s" using s(4) bsl by simp
    have "json_in_string env b s = Continue (set_flags (insert flag_escaped (js_flags s)) s)"
      using s(1,3) fe nz bsl(2) by (simp add: json_in_string_def del: set_flags_id)
    moreover have "set_flags (insert flag_escaped (js_flags s)) s = set_block i (with_chars blk mem)
      (s\<lparr>js_ptr := q, js_flags := js_flags s - {flag_escaped} \<union> (if e' then {flag_escaped} else {}),
         js_string_length := length cs'\<rparr>)" (is "_ = set_block _ _ ?t")
    proof -
      have "set_block i (with_chars blk mem) ?t = ?t" by (rule same) (simp add: m)
      moreover have "?t = set_flags (insert flag_escaped (js_flags s)) s"
        using s(5) u by (cases s) (auto simp: set_flags_def)
      ultimately show ?thesis by simp
    qed
    ultimately show ?thesis using m(4) u(1) by (intro exI [of _ mem]) simp
  next
    case plain
    then have u: "cs' = cs @ [b]" "q = js_ptr s" "e' = False" "b \<noteq> chr CHR 0x22"
      using c(1) nz by (auto simp: spec_char_def split: if_splits)
    have fl: "js_flags s - {flag_escaped} = js_flags s" using s(4) plain by auto
    have "string_add b s = string_adds [b] (s\<lparr>js_flags := js_flags s, js_ptr := q\<rparr>)"
      using u(2) by (cases "string_add b s") simp_all
    then show ?thesis
      using adds [OF u(1), of "js_flags s"] s nz plain u(3,4) fl by (auto simp: json_in_string_def)
  qed
qed

lemma second_string_more:
  assumes r: "second_rel n f r s" "sp_mode r = In_string e cs" "sp_comment r = No_comment"
    and b: "(if sp_ptr r = jx_end env then Some 0 else json_peek (jx_json env) (sp_ptr r)) = Some b"
    and c: "spec_char (jx_json env) (jx_end env) b (js_ptr s) e cs = Char_more e' cs' q"
    and ft: "fits n f (r\<lparr>sp_mode := In_string e' cs', sp_ptr := q + 1\<rparr>)" and u: "length cs \<le> uint_max"
  shows "second_match n f (r\<lparr>sp_mode := In_string e' cs', sp_ptr := q + 1\<rparr>) (json_iteration env s)"
proof -
  note d = second_relD [OF r(1), unfolded r(2,3), simplified]
  let ?st = "sp_stack r" let ?i = "n + stack_blocks f (sp_stack r)"
  obtain mem x where m: "js_blocks s ?i = Some (Chars mem)" "f (stack_nodes ?st) = Some x" "length mem = jv_length x + 1"
      "take (length cs) mem = map Some cs" using d(7) by auto
  have fl: "flag_string \<in> js_flags s" "flag_escaped \<in> js_flags s \<longleftrightarrow> e" using ctl_mem [OF d(5)] by simp_all
  have "length cs' \<le> jv_length x" using ft m(2) by (simp add: fits_def node_is_def)
  then obtain mem' where j: "json_in_string env b s = Continue (set_block ?i (Chars mem')
      (s\<lparr>js_ptr := q, js_flags := js_flags s - {flag_escaped} \<union> (if e' then {flag_escaped} else {}),
         js_string_length := length cs'\<rparr>))" "length mem' = length mem" "take (length cs') mem' = map Some cs'"
    using second_string_char [of s e cs ?i "[]" "Chars mem" mem env b e' cs' q] fl d m c u
    by (auto simp: block_chars_def with_chars_def)
  let ?t = "set_block ?i (Chars mem') (s\<lparr>js_ptr := q, js_flags := js_flags s - {flag_escaped}
    \<union> (if e' then {flag_escaped} else {}), js_string_length := length cs'\<rparr>)"
  have "second_ok n f (stack_nodes ?st + 1) (set_block ?i (Chars mem') s)" using d(1) m(1) by (intro second_ok_block) auto
  then have "second_ok n f (stack_nodes ?st + 1) (?t\<lparr>js_ptr := q + 1\<rparr>)" by (rule second_ok_cong) simp_all
  moreover have "ctl (js_flags s - {flag_escaped}) = {flag_string}" using d(5) by auto
  moreover have "stored_below n f (js_values s) ((js_blocks s)(?i \<mapsto> Chars mem')) ?st"
    using d(7) by (auto intro: stored_below_upd)
  ultimately have "second_rel n f (r\<lparr>sp_mode := In_string e' cs', sp_ptr := q + 1\<rparr>) (?t\<lparr>js_ptr := js_ptr ?t + 1\<rparr>)"
    using d m(2,3) j(2,3) r(3) by (simp add: second_rel_def)
  moreover have "json_iteration env s = json_then (json_in_string env b s) (json_rest env b)"
    by (rule json_iteration_rest) (use b d(3) in \<open>simp only:\<close>)
  ultimately show ?thesis using j(1) by simp
qed

lemma second_key_more:
  assumes r: "second_rel n f r s" "sp_mode r = In_key e cs" "sp_comment r = No_comment"
    and b: "(if sp_ptr r = jx_end env then Some 0 else json_peek (jx_json env) (sp_ptr r)) = Some b"
    and c: "spec_char (jx_json env) (jx_end env) b (js_ptr s) e cs = Char_more e' cs' q"
    and ft: "fits n f (r\<lparr>sp_mode := In_key e' cs', sp_ptr := q + 1\<rparr>)" and u: "length cs \<le> uint_max"
  shows "second_match n f (r\<lparr>sp_mode := In_key e' cs', sp_ptr := q + 1\<rparr>) (json_iteration env s)"
proof -
  obtain ms k st where st: "sp_stack r = In_object ms k # st"
    using second_relD(7) [OF r(1)] r(2) by (cases "sp_stack r"; cases "hd (sp_stack r)") auto
  note d = second_relD [OF r(1), unfolded r(2,3) st, simplified]
  let ?i = "n + stack_blocks f st" let ?a = "stack_nodes st" let ?pre = "names_bytes ms"
  obtain x m where fx: "f ?a = Some x" "length ms + 1 \<le> jv_length x" "jv_ptr x = Counter m" "names_size ms + length cs' + 1 \<le> m"
    using ft st by (auto simp: fits_def fit_object_def node_is_def)
  have own: "own_block f ?a = 1" using fx by (simp add: own_block_def)
  obtain es mem where mm: "js_blocks s ?i = Some (Members es mem)" "length mem = m"
      "take (names_size ms + length cs) mem = map Some (?pre @ cs)"
    using d(7) own fx(1,3) by (auto simp: object_open_def)
  have fl: "flag_string \<in> js_flags s" "flag_escaped \<in> js_flags s \<longleftrightarrow> e" using ctl_mem [OF d(5)] by simp_all
  obtain mem' where j: "json_in_string env b s = Continue (set_block ?i (Members es mem')
      (s\<lparr>js_ptr := q, js_flags := js_flags s - {flag_escaped} \<union> (if e' then {flag_escaped} else {}),
         js_string_length := length cs'\<rparr>))" "length mem' = length mem"
      "take (names_size ms + length cs') mem' = map Some (?pre @ cs')"
    using second_string_char [of s e cs ?i ?pre "Members es mem" mem env b e' cs' q] fl d mm c u fx
    by (auto simp: block_chars_def with_chars_def)
  let ?t = "set_block ?i (Members es mem') (s\<lparr>js_ptr := q, js_flags := js_flags s - {flag_escaped}
    \<union> (if e' then {flag_escaped} else {}), js_string_length := length cs'\<rparr>)"
  let ?k = "mode_next (In_key e cs) (In_object ms k # st)"
  have "second_ok n f ?k (set_block ?i (Members es mem') s)"
    using second_relD(1) [OF r(1)] r(2) st mm(1) by (intro second_ok_block) auto
  then have ok: "second_ok n f ?k (?t\<lparr>js_ptr := q + 1\<rparr>)" by (rule second_ok_cong) simp_all
  have ctl: "ctl (js_flags s - {flag_escaped}) = {flag_string}" using d(5) by auto
  have below: "stored_below n f (js_values s) ((js_blocks s)(?i \<mapsto> Members es mem')) st"
    using d(7) by (auto intro: stored_below_upd)
  have "take (names_size ms) mem' = take (names_size ms) (take (names_size ms + length cs') mem')" by simp
  then have tk: "take (names_size ms) mem' = map Some ?pre" unfolding j(3) by (simp add: take_map)
  have op: "object_open f (js_values s) (js_blocks s) ms None (parent_of st) ?a ?i" using d(7) by simp
  then have "stored_members (js_values s) ((js_blocks s)(?i \<mapsto> Members es mem')) (Some ?a) (?a + 1) (?i + own_block f ?a) ms"
    using own by (intro stored_blk) (simp_all add: object_open_def)
  then have op': "object_open f (js_values s) ((js_blocks s)(?i \<mapsto> Members es mem')) ms None (parent_of st) ?a ?i"
    using op own fx(1,3) mm(1,2) j(2) tk by (auto simp: object_open_def)
  have "second_rel n f (r\<lparr>sp_mode := In_key e' cs', sp_ptr := q + 1\<rparr>) (?t\<lparr>js_ptr := js_ptr ?t + 1\<rparr>)"
    using d ok ctl below op' j(3) r(3) st by (simp add: second_rel_def)
  moreover have "json_iteration env s = json_then (json_in_string env b s) (json_rest env b)"
    by (rule json_iteration_rest) (use b d(3) in \<open>simp only:\<close>)
  ultimately show ?thesis using j(1) by simp
qed

section \<open>The end of a string\<close>

lemma take_poke:
  assumes "take l mem = xs" "l < length mem"
  shows "take (Suc l) (mem[l := x]) = xs @ [x]"
  using assms by (simp add: take_Suc_conv_app_nth)

lemma second_string_closed:
  assumes r: "second_rel n f r s" "sp_mode r = In_string False cs" "sp_comment r = No_comment"
    and b: "\<not> (jx_comments env \<and> b = chr CHR ''/'')" and h: "heap_bounds f"
    and ft: "fits n f (spec_put (JString cs) (r\<lparr>sp_ptr := sp_ptr r + 1\<rparr>))"
  shows "second_match n f (spec_put (JString cs) (r\<lparr>sp_ptr := sp_ptr r + 1\<rparr>)) (json_then (json_end_string s) (json_rest env b))"
proof -
  note d = second_relD [OF r(1), unfolded r(2,3), simplified]
  let ?st = "sp_stack r" let ?i = "n + stack_blocks f (sp_stack r)" let ?a = "stack_nodes (sp_stack r)"
  obtain mem x where m: "js_blocks s ?i = Some (Chars mem)" "f ?a = Some x" "length mem = jv_length x + 1"
      "take (length cs) mem = map Some cs" using d(7) by auto
  have "counted f (parent_of ?st) ?a (JString cs)"
    using fit_put [of f "JString cs" "r\<lparr>sp_ptr := sp_ptr r + 1\<rparr>"] ft by (simp add: fits_def)
  then have "jv_length x = length cs" using m(2) by (simp add: node_is_def)
  then have lm: "length mem = length cs + 1" using m(3) by simp
  have "mem[length cs := Some 0] = take (Suc (length cs)) (mem[length cs := Some 0])" using lm by simp
  also have "\<dots> = map Some cs @ [Some 0]" using m(4) lm by (intro take_poke) simp_all
  finally have full: "mem[length cs := Some 0] = map Some (cs @ [0])" by simp
  obtain y where y: "js_values s ?a = Some y" "jv_parent y = parent_of ?st" "jv_type y = json_string" "jv_ptr y = Mem ?i"
    using d(7) by (auto simp: node_is_def)
  let ?y = "y\<lparr>jv_length := length cs\<rparr>" let ?z = "Chars (map Some (cs @ [0]))"
  let ?s = "set_flags (insert flag_next (js_flags s - {flag_string})) (set_value ?a ?y ((set_block ?i ?z s)\<lparr>js_string := None\<rparr>))"
  have "json_poke (js_string s) (js_string_length s) 0 s = Proceed (set_block ?i ?z s)"
    using d(7) m(1) lm full by (simp add: json_poke_def)
  then have es: "json_end_string s = Proceed ?s"
    using d y by (cases s) (simp add: json_end_string_def on_value_def Let_def set_value_def set_flags_def set_block_def)
  have ctl: "ctl (js_flags ?s) = {flag_next}" using d(5) by auto
  have rest: "json_rest env b ?s = json_finish ?s"
    using json_rest_plain [OF ctl _ _ _ b] d y by (simp add: json_inside_def on_value_def)
  have "second_ok n f (?a + 1) (set_value ?a ?y (set_block ?i ?z s))"
    using d(1) m(1) by (intro second_ok_set second_ok_block) auto
  then have "second_ok n f (?a + 1) ?s" by (rule second_ok_cong) simp_all
  then have "second_closing n f (r\<lparr>sp_ptr := sp_ptr r + 1\<rparr>) (JString cs) ?s"
    using d y r(3) ctl_mem [OF ctl] ctl
    by (auto simp: second_closing_def node_is_def intro!: stored_below_upd)
  then have "second_match n f (spec_put (JString cs) (r\<lparr>sp_ptr := sp_ptr r + 1\<rparr>)) (json_finish ?s)"
    by (rule second_close [OF _ h ft])
  then show ?thesis using es rest by simp
qed

lemma second_key_closed:
  assumes r: "second_rel n f r s" "sp_mode r = In_key False cs" "sp_comment r = No_comment" "sp_stack r = In_object ms k # st"
    and ft: "fits n f (r\<lparr>sp_mode := Seeking False True, sp_stack := In_object ms cs # st, sp_ptr := sp_ptr r + 1\<rparr>)"
  shows "second_match n f (r\<lparr>sp_mode := Seeking False True, sp_stack := In_object ms cs # st, sp_ptr := sp_ptr r + 1\<rparr>)
    (json_then (json_end_string s) rest)"
proof -
  note d = second_relD [OF r(1), unfolded r(2-4), simplified]
  let ?i = "n + stack_blocks f st" let ?a = "stack_nodes st" let ?l = "names_size ms + length cs"
  obtain x m where fx: "f ?a = Some x" "length ms < jv_length x" "jv_ptr x = Counter m" "names_size ms + length cs + 1 \<le> m"
    using ft by (auto simp: fits_def node_is_def)
  have own: "own_block f ?a = 1" using fx by (simp add: own_block_def)
  have op: "object_open f (js_values s) (js_blocks s) ms None (parent_of st) ?a ?i" using d(7) by simp
  obtain y where y: "js_values s ?a = Some y" "jv_parent y = parent_of st" "jv_type y = json_object" "jv_length y = length ms"
      "jv_ptr y = Mem ?i" "jv_reserved y = Object_mem ?i (names_size ms)"
    using op own by (auto simp: object_open_def node_is_def)
  obtain es mem where mm: "js_blocks s ?i = Some (Members es mem)" "length mem = m" "length es = jv_length x"
      "take (length ms) es = member_entries 0 (?a + 1) ms"
      "take ?l mem = map Some (names_bytes ms @ cs)"
      "stored_members (js_values s) (js_blocks s) (Some ?a) (?a + 1) (?i + 1) ms"
    using d(7) own fx(1,3) by (auto simp: object_open_def)
  let ?mem = "mem[?l := Some 0]"
  let ?es = "es[length ms := (es ! length ms)\<lparr>je_name := Some (names_size ms), je_name_length := Some (length cs)\<rparr>]"
  let ?y = "y\<lparr>jv_reserved := Object_mem ?i (names_size ms + length cs + 1)\<rparr>" let ?z = "Members ?es ?mem"
  have tk: "take (?l + 1) ?mem = map Some (names_bytes ms @ cs @ [0])"
    using take_poke [OF mm(5), of "Some 0"] mm(2) fx(4) by simp
  define t where "t = set_flags (js_flags s - {flag_string} \<union> {flag_seek_value, flag_need_colon})
    (set_value ?a ?y ((set_block ?i ?z s)\<lparr>js_string := None\<rparr>))"
  have "json_poke (js_string s) (js_string_length s) 0 s = Proceed (set_block ?i (Members es ?mem) s)"
    using d(7) mm(1,2) fx(4) by (simp add: json_poke_def)
  then have es: "json_end_string s = Continue t"
    using d y mm(1,3) fx(2)
    by (cases s) (simp add: json_end_string_def json_name_done_def on_value_def Let_def set_value_def set_flags_def
        set_block_def t_def)
  have "second_ok n f (frame_nodes (In_object ms cs) + ?a) (set_value ?a ?y (set_block ?i ?z s))"
    using d(1) mm(1) by (intro second_ok_set second_ok_block) auto
  then have ok: "second_ok n f (frame_nodes (In_object ms cs) + ?a) (t\<lparr>js_ptr := js_ptr t + 1\<rparr>)"
    by (rule second_ok_cong) (simp_all add: t_def)
  have "stored_members ((js_values s)(?a \<mapsto> ?y)) ((js_blocks s)(?i \<mapsto> ?z)) (Some ?a) (?a + 1) (?i + 1) ms"
    using mm(6) by (auto intro!: stored_upd stored_blk)
  then have op': "object_open f ((js_values s)(?a \<mapsto> ?y)) ((js_blocks s)(?i \<mapsto> ?z)) ms (Some cs) (parent_of st) ?a ?i"
    using own y fx mm(2-4) tk by (simp add: object_open_def node_is_def)
  have below: "stored_below n f ((js_values s)(?a \<mapsto> ?y)) ((js_blocks s)(?i \<mapsto> ?z)) st"
    using d(7) by (auto intro!: stored_below_upd)
  have "second_rel n f (r\<lparr>sp_mode := Seeking False True, sp_stack := In_object ms cs # st, sp_ptr := sp_ptr r + 1\<rparr>)
      (t\<lparr>js_ptr := js_ptr t + 1\<rparr>)"
    using d ok op' below r(3) by (simp add: second_rel_def t_def insert_commute)
  then show ?thesis using es by simp
qed

section \<open>Control\<close>

lemma second_control:
  assumes "second_rel n f r s" "second_ok n f (mode_next (sp_mode r) (sp_stack r)) s'" "sp_stack r' = sp_stack r"
    "js_ptr s' = sp_ptr r'" "js_cur_line s' = sp_line r'"
    "ctl (js_flags s') = mode_flags (sp_mode r') \<union> comment_flags (sp_comment r')"
    "mode_next (sp_mode r') (sp_stack r) = mode_next (sp_mode r) (sp_stack r)" "js_top s' = js_top s"
    "mode_top (sp_mode r') (sp_stack r) = mode_top (sp_mode r) (sp_stack r)"
    "stored_mode n f s' (sp_mode r') (sp_stack r)"
  shows "second_rel n f r' s'"
  using assms by (simp add: second_rel_def)

lemma stored_mode_cong:
  assumes "stored_mode n f s m st" "js_values s' = js_values s" "js_blocks s' = js_blocks s" "js_next s' = js_next s"
    "js_string s' = js_string s" "js_string_length s' = js_string_length s"
  shows "stored_mode n f s' m st"
  using assms by (cases "(n, f, s, m, st)" rule: stored_mode.cases) simp_all

lemma second_skip:
  assumes r: "second_rel n f r s" and c: "ctl F = mode_flags (sp_mode r) \<union> comment_flags c"
  shows "second_rel n f (r\<lparr>sp_comment := c, sp_ptr := p, sp_line := l\<rparr>) (s\<lparr>js_flags := F, js_ptr := p, js_cur_line := l\<rparr>)"
proof -
  note d = second_relD [OF r]
  have "second_ok n f (mode_next (sp_mode r) (sp_stack r)) (s\<lparr>js_flags := F, js_ptr := p, js_cur_line := l\<rparr>)"
    using d(1) by (rule second_ok_cong) simp_all
  moreover have "stored_mode n f (s\<lparr>js_flags := F, js_ptr := p, js_cur_line := l\<rparr>) (sp_mode r) (sp_stack r)"
    using d(7) by (rule stored_mode_cong) simp_all
  ultimately show ?thesis using c d(6) by (simp add: second_rel_def)
qed

lemma second_blank:
  assumes r: "second_rel n f r s" and g: "spec_blank b r = Go r'"
  shows "second_match n f r' (Continue (json_count_line b s))"
proof -
  note d = second_relD [OF r]
  show ?thesis
    using second_skip [OF r d(5), where p = "sp_ptr r + 1" and l = "sp_line r"]
      second_skip [OF r d(5), where p = "sp_ptr r + 1" and l = "sp_line r + 1"] d(3,4) g
    by (cases r; cases s) (auto simp: spec_blank_def spec_next_def json_count_line_def)
qed

lemma object_open_node:
  assumes "object_open f H M ms k p a b"
  obtains x where "H a = Some x" "jv_parent x = p" "jv_type x = json_object" "jv_length x = length ms"
  using assms that by (auto simp: object_open_def node_is_def split: if_splits)

lemma array_open_node:
  assumes "array_open f H M vs p a b"
  obtains x where "H a = Some x" "jv_parent x = p" "jv_type x = json_array" "jv_length x = length vs"
  using assms that by (auto simp: array_open_def node_is_def split: if_splits)

lemma second_members_stack:
  assumes "second_rel n f r s" "sp_mode r = In_members c"
  obtains ms k st where "sp_stack r = In_object ms k # st"
  using second_relD(7) [OF assms(1)] assms(2) that by (cases "sp_stack r"; cases "hd (sp_stack r)") auto

lemma second_comment:
  assumes r: "second_rel n f r s" "spec_ok (jx_end env) r" "sp_comment r \<noteq> No_comment \<or> jx_comments env \<and> b = chr CHR ''/''"
      "sp_comment r \<noteq> No_comment \<longrightarrow> jx_comments env"
      "\<And>e cs. sp_mode r \<noteq> In_string e cs" "\<And>e cs. sp_mode r \<noteq> In_key e cs"
    and t: "spec_text (jx_json env) (jx_end env)"
    and b: "(if sp_ptr r = jx_end env then Some 0 else json_peek (jx_json env) (sp_ptr r)) = Some b"
    and g: "spec_in_comment (jx_json env) (jx_end env) b r = Go r'"
  shows "second_match n f r' (json_then (json_comment env b s) rest)"
proof -
  note d = second_relD [OF r(1)]
  have on: "jx_comments env" using r(3,4) by blast
  have sp: "0 \<le> sp_ptr r" "sp_ptr r \<le> jx_end env" using r(2) by (auto simp: spec_ok_def)
  have pk: "\<exists>c. json_peek (jx_json env) (sp_ptr r + 1) = Some c" if "sp_ptr r < jx_end env"
    by (rule spec_text_peek [OF t, of "sp_ptr r + 1"]) (use sp that in auto)
  have lt: "b \<noteq> 0 \<Longrightarrow> sp_ptr r < jx_end env" using b sp by (cases "sp_ptr r = jx_end env") simp_all
  have nn: "sp_mode r \<noteq> In_number m" for m using d(7) by auto
  have disj: "mode_flags (sp_mode r) - {flag_line_comment} = mode_flags (sp_mode r)"
    "mode_flags (sp_mode r) - {flag_block_comment} = mode_flags (sp_mode r)"
    by (cases "sp_mode r"; auto)+
  note skip = second_skip [OF r(1), where l = "sp_line r"]
  show ?thesis
  proof (cases "sp_comment r")
    case Line_comment
    have fl: "flag_line_comment \<in> js_flags s" using ctl_mem [OF d(5)] Line_comment by simp
    have c1: "ctl (js_flags s - {flag_line_comment}) = mode_flags (sp_mode r) \<union> comment_flags No_comment"
      using d(5) Line_comment disj by auto
    have c2: "ctl (js_flags s) = mode_flags (sp_mode r) \<union> comment_flags Line_comment"
      using d(5) Line_comment by simp
    show ?thesis
      using skip [OF c1, where p = "sp_ptr r"] skip [OF c2, where p = "sp_ptr r + 1"]
        on fl Line_comment d(3,4) g
      by (cases r; cases s) (auto simp: spec_in_comment_def json_comment_def spec_next_def set_flags_def split: if_splits)
  next
    case Block_comment
    have fl: "flag_line_comment \<notin> js_flags s" "flag_block_comment \<in> js_flags s"
      using ctl_mem [OF d(5)] Block_comment by (cases "sp_mode r"; simp)+
    have c1: "ctl (js_flags s - {flag_block_comment}) = mode_flags (sp_mode r) \<union> comment_flags No_comment"
      using d(5) Block_comment disj by auto
    have c2: "ctl (js_flags s) = mode_flags (sp_mode r) \<union> comment_flags Block_comment"
      using d(5) Block_comment by simp
    have s1: "second_rel n f (r\<lparr>sp_comment := No_comment, sp_ptr := sp_ptr r + 2\<rparr>)
        (s\<lparr>js_flags := js_flags s - {flag_block_comment}, js_ptr := sp_ptr r + 2\<rparr>)"
      using skip [OF c1, where p = "sp_ptr r + 2"] d(4) by (cases r; cases s) simp
    have s2: "second_rel n f (r\<lparr>sp_ptr := sp_ptr r + 1\<rparr>) (s\<lparr>js_ptr := sp_ptr r + 1\<rparr>)"
      using skip [OF c2, where p = "sp_ptr r + 1"] d(4) Block_comment by (cases r; cases s) simp
    show ?thesis
    proof (cases "b = chr CHR ''*'' \<and> sp_ptr r < jx_end env - 1")
      case True
      then obtain c where "json_peek (jx_json env) (sp_ptr r + 1) = Some c" using pk by force
      then show ?thesis
        using True s1 s2 on fl Block_comment d(3,4) g
        by (auto simp: spec_in_comment_def json_comment_def spec_next_def set_flags_def chr_def
            add.commute [of "sp_ptr r" 2] split: if_splits)
    next
      case False
      then show ?thesis
        using s2 on fl Block_comment d(1,3,4) g
        by (auto simp: spec_in_comment_def json_comment_def spec_next_def split: if_splits)
    qed
  next
    case No_comment
    then have bs: "b = chr CHR ''/''" using r(3) by simp
    have fl: "flag_line_comment \<notin> js_flags s" "flag_block_comment \<notin> js_flags s"
      using ctl_mem [OF d(5)] No_comment by (cases "sp_mode r"; simp)+
    have jc: "json_comment env b s = json_open_comment env s" using on fl bs by (simp add: json_comment_def)
    have pass: "(if js_flags s \<inter> {flag_seek_value, flag_done} = {}
             then on_value (js_top s) s (\<lambda>_ v.
                    if jv_type v \<noteq> json_object then Fail Comment_not_allowed_here s else Proceed s)
             else Proceed s) = Proceed s"
    proof (cases "sp_mode r")
      case (In_members cm)
      then obtain ms k st where st: "sp_stack r = In_object ms k # st" by (rule second_members_stack [OF r(1)])
      then have "object_open f (js_values s) (js_blocks s) ms None (parent_of st) (stack_nodes st) (n + stack_blocks f st)"
        using d(7) In_members by simp
      then obtain x where "js_values s (stack_nodes st) = Some x" "jv_type x = json_object" by (rule object_open_node)
      then show ?thesis using d(6) st In_members by (simp add: on_value_def)
    qed (use nn r(5,6) ctl_mem [OF d(5)] in auto)
    have p: "sp_ptr r < jx_end env" using lt bs by (simp add: chr_def)
    obtain c where c: "json_peek (jx_json env) (sp_ptr r + 1) = Some c" using pk [OF p] by auto
    have l1: "ctl (insert flag_line_comment (js_flags s)) = mode_flags (sp_mode r) \<union> comment_flags Line_comment"
      and l2: "ctl (insert flag_block_comment (js_flags s)) = mode_flags (sp_mode r) \<union> comment_flags Block_comment"
      using d(5) No_comment by auto
    have s1: "second_rel n f (r\<lparr>sp_comment := Line_comment, sp_ptr := sp_ptr r + 2\<rparr>)
        (s\<lparr>js_flags := insert flag_line_comment (js_flags s), js_ptr := sp_ptr r + 2\<rparr>)"
      using skip [OF l1, where p = "sp_ptr r + 2"] d(4) by (cases r; cases s) simp
    have s2: "second_rel n f (r\<lparr>sp_comment := Block_comment, sp_ptr := sp_ptr r + 2\<rparr>)
        (s\<lparr>js_flags := insert flag_block_comment (js_flags s), js_ptr := sp_ptr r + 2\<rparr>)"
      using skip [OF l2, where p = "sp_ptr r + 2"] d(4) by (cases r; cases s) simp
    have "json_comment env b s = (if sp_ptr r + 1 = jx_end env then Fail EOF_unexpected (s\<lparr>js_ptr := sp_ptr r + 1\<rparr>)
       else if c = chr CHR ''/'' then Continue (s\<lparr>js_ptr := sp_ptr r + 1, js_flags := insert flag_line_comment (js_flags s)\<rparr>)
       else if c = chr CHR ''*'' then Continue (s\<lparr>js_ptr := sp_ptr r + 1, js_flags := insert flag_block_comment (js_flags s)\<rparr>)
       else Fail Unexpected_in_comment_opening (s\<lparr>js_ptr := sp_ptr r + 1\<rparr>))"
      using d(3) c unfolding jc json_open_comment_def pass by (simp add: Let_def set_flags_def)
    moreover have "spec_in_comment (jx_json env) (jx_end env) b r =
       (if sp_ptr r + 1 = jx_end env then Reject EOF_unexpected (sp_line r)
       else if c = chr CHR ''/'' then Go (r\<lparr>sp_comment := Line_comment, sp_ptr := sp_ptr r + 2\<rparr>)
       else if c = chr CHR ''*'' then Go (r\<lparr>sp_comment := Block_comment, sp_ptr := sp_ptr r + 2\<rparr>)
       else Reject Unexpected_in_comment_opening (sp_line r))"
      using No_comment nn c by (auto simp: spec_in_comment_def split: json_mode.splits)
    moreover have "s\<lparr>js_ptr := sp_ptr r + 1, js_flags := F, js_ptr := sp_ptr r + 1 + 1\<rparr> =
        s\<lparr>js_flags := F, js_ptr := sp_ptr r + 2\<rparr>" for F by (cases s) simp
    ultimately show ?thesis using s1 s2 d(4) g by (auto simp add: add.commute [of "sp_ptr r" 2] split: if_splits)
  qed
qed

section \<open>Arrays and objects close\<close>

lemma second_bracket:
  assumes r: "second_rel n f r s" "sp_mode r = Seeking c d" "sp_comment r = No_comment" "sp_stack r = In_array vs # st" "\<not> d"
    and h: "heap_bounds f" and ft: "fits n f (spec_put (JArray vs) (r\<lparr>sp_stack := st, sp_ptr := sp_ptr r + 1\<rparr>))"
  shows "second_match n f (spec_put (JArray vs) (r\<lparr>sp_stack := st, sp_ptr := sp_ptr r + 1\<rparr>))
    (json_finish (set_flags (insert flag_next (js_flags s - {flag_need_comma, flag_seek_value})) s))"
proof (rule second_close [OF _ h ft])
  note d = second_relD [OF r(1), unfolded r(2,3,4), simplified]
  let ?s = "set_flags (insert flag_next (js_flags s - {flag_need_comma, flag_seek_value})) s"
  let ?a = "stack_nodes st" let ?b = "n + stack_blocks f st"
  have ctl: "ctl (js_flags ?s) = {flag_next}" using d(5) r(5) by auto
  have ok: "second_ok n f (?a + json_nodes (JArray vs)) ?s"
    by (rule second_ok_cong [where s = s]) (use d(1) in \<open>simp_all add: add_ac\<close>)
  have "counted f (parent_of st) ?a (JArray vs)"
    using fit_put [of f "JArray vs" "r\<lparr>sp_stack := st, sp_ptr := sp_ptr r + 1\<rparr>"] ft by (simp add: fits_def)
  then obtain x where x: "f ?a = Some x" "jv_length x = length vs" by (auto simp: node_is_def)
  then have own: "own_block f ?a = (if vs = [] then 0 else 1)" by (simp add: own_block_def)
  have ao: "array_open f (js_values s) (js_blocks s) vs (parent_of st) ?a ?b" "stored_below n f (js_values s) (js_blocks s) st"
      "js_next s = ?b + own_block f ?a + sum_list (map json_blocks vs)"
    using d(7) by simp_all
  have "stored (js_values s) (js_blocks s) (parent_of st) ?a ?b (JArray vs)"
    using ao(1) own x by (auto simp: array_open_def split: if_splits)
  then show "second_closing n f (r\<lparr>sp_stack := st, sp_ptr := sp_ptr r + 1\<rparr>) (JArray vs) ?s"
    using ok ctl ctl_mem [OF ctl] ao(2,3) own d r(3) by (simp add: second_closing_def)
qed

lemma second_brace:
  assumes r: "second_rel n f r s" "sp_mode r = In_members c" "sp_comment r = No_comment" "sp_stack r = In_object ms k # st"
    and h: "heap_bounds f" and ft: "fits n f (spec_put (JObject ms) (r\<lparr>sp_stack := st, sp_ptr := sp_ptr r + 1\<rparr>))"
  shows "second_match n f (spec_put (JObject ms) (r\<lparr>sp_stack := st, sp_ptr := sp_ptr r + 1\<rparr>))
    (json_finish (set_flags (insert flag_next (js_flags s - {flag_need_comma})) s))"
proof (rule second_close [OF _ h ft])
  note d = second_relD [OF r(1), unfolded r(2,3,4), simplified]
  let ?s = "set_flags (insert flag_next (js_flags s - {flag_need_comma})) s"
  let ?a = "stack_nodes st" let ?b = "n + stack_blocks f st"
  have ctl: "ctl (js_flags ?s) = {flag_next}" using d(5) by auto
  have ok: "second_ok n f (?a + json_nodes (JObject ms)) ?s"
    by (rule second_ok_cong [where s = s]) (use d(1) in \<open>simp_all add: add_ac\<close>)
  have "counted f (parent_of st) ?a (JObject ms)"
    using fit_put [of f "JObject ms" "r\<lparr>sp_stack := st, sp_ptr := sp_ptr r + 1\<rparr>"] ft by (simp add: fits_def)
  then obtain x where x: "f ?a = Some x" "jv_length x = length ms" "jv_ptr x = Counter (names_size ms)"
    by (auto simp: node_is_def)
  then have own: "own_block f ?a = (if ms = [] then 0 else 1)" by (simp add: own_block_def)
  have oo: "object_open f (js_values s) (js_blocks s) ms None (parent_of st) ?a ?b" "stored_below n f (js_values s) (js_blocks s) st"
      "js_next s = ?b + own_block f ?a + sum_list (map (\<lambda>m. json_blocks (snd m)) ms)"
    using d(7) by simp_all
  have "stored (js_values s) (js_blocks s) (parent_of st) ?a ?b (JObject ms)"
  proof (cases "ms = []")
    case True
    then show ?thesis using oo(1) own by (simp add: object_open_def)
  next
    case False
    then have own1: "own_block f ?a = 1" using own by simp
    have o: "node_is (js_values s) ?a (parent_of st) json_object (\<lambda>x. jv_length x = length ms \<and> jv_ptr x = Mem ?b
          \<and> jv_reserved x = Object_mem ?b (names_size ms))"
        "\<exists>es cs x n. f ?a = Some x \<and> jv_ptr x = Counter n \<and> js_blocks s ?b = Some (Members es cs) \<and> length es = jv_length x
            \<and> length cs = n \<and> take (length ms) es = member_entries 0 (?a + 1) ms
            \<and> take (names_size ms) cs = map Some (names_bytes ms)"
        "stored_members (js_values s) (js_blocks s) (Some ?a) (?a + 1) (?b + 1) ms"
      using oo(1) own1 by (simp_all add: object_open_def)
    from o(2) obtain es cs x' m where e: "f ?a = Some x'" "jv_ptr x' = Counter m" "js_blocks s ?b = Some (Members es cs)"
        "length es = jv_length x'" "length cs = m" "take (length ms) es = member_entries 0 (?a + 1) ms"
        "take (names_size ms) cs = map Some (names_bytes ms)" by (elim exE conjE)
    have "x' = x" using e(1) x(1) by simp
    then have es: "js_blocks s ?b = Some (Members es cs)" "length es = length ms" "length cs = names_size ms"
        "take (length ms) es = member_entries 0 (?a + 1) ms" "take (names_size ms) cs = map Some (names_bytes ms)"
      using e x by simp_all
    have "es = member_entries 0 (?a + 1) ms" "cs = map Some (names_bytes ms)"
      using es(2-5) by (simp_all only: take_all)
    then show ?thesis using o(1,3) False es(1) by (simp add: node_is_def) blast
  qed
  then show "second_closing n f (r\<lparr>sp_stack := st, sp_ptr := sp_ptr r + 1\<rparr>) (JObject ms) ?s"
    using ok ctl ctl_mem [OF ctl] oo(2,3) own d r(3) by (simp add: second_closing_def)
qed

section \<open>A value starts\<close>

lemma second_opened_below:
  assumes "second_opened n f (stack_nodes st) b s s'" "js_next s = n + stack_blocks f st"
    "stored_below n f (js_values s) (js_blocks s) st"
  shows "stored_below n f (js_values s') (js_blocks s') st"
  using assms by (auto simp: second_opened_def intro: stored_below_agree)

lemma second_scalar:
  assumes o: "second_opened n f (stack_nodes (sp_stack r)) 0 s0 s'" and s0: "js_next s0 = n + stack_blocks f (sp_stack r)"
      "stored_below n f (js_values s0) (js_blocks s0) (sp_stack r)" "js_cur_line s0 = sp_line r"
    and F: "ctl F - {flag_reproc} = {flag_next}" "sp_comment r = No_comment"
    and p: "p + 1 = sp_ptr r + (if flag_reproc \<in> F then 1 else 0)"
    and H: "H = js_values s' \<or> (\<exists>y. H = (js_values s')(stack_nodes (sp_stack r) \<mapsto> y))"
    and v: "stored H (js_blocks s') (parent_of (sp_stack r)) (stack_nodes (sp_stack r)) (n + stack_blocks f (sp_stack r)) v"
      "json_nodes v = 1" "json_blocks v = 0"
    and h: "heap_bounds f" "fits n f (spec_put v r)"
  shows "second_match n f (spec_put v r) (json_finish (s'\<lparr>js_flags := F, js_ptr := p, js_values := H\<rparr>))"
proof (rule second_close [OF _ h])
  let ?k = "stack_nodes (sp_stack r)" let ?t = "s'\<lparr>js_flags := F, js_ptr := p, js_values := H\<rparr>"
  have ok: "second_ok n f (?k + 1) s'" using o by (simp add: second_opened_def)
  have "second_ok n f (?k + 1) ?t"
    using H
  proof
    assume "H = js_values s'"
    then show ?thesis using ok by (intro second_ok_cong [OF ok]) simp_all
  next
    assume "\<exists>y. H = (js_values s')(?k \<mapsto> y)"
    then obtain y where y: "H = (js_values s')(?k \<mapsto> y)" by blast
    have "second_ok n f (?k + 1) (set_value ?k y s')" using ok by (rule second_ok_set) simp
    then show ?thesis by (rule second_ok_cong) (simp_all add: y)
  qed
  moreover have "stored_below n f (js_values s') (js_blocks s') (sp_stack r)" by (rule second_opened_below [OF o s0(1,2)])
  then have "stored_below n f H (js_blocks s') (sp_stack r)" using H by (auto intro: stored_below_upd)
  ultimately show "second_closing n f r v ?t"
    using o s0 F p v by (simp add: second_closing_def second_opened_def)
qed

lemma second_literal:
  assumes r: "second_rel n f r s" "sp_mode r = Seeking False False" "sp_comment r = No_comment"
    and env: "second_env env n f" and s0: "s0 = set_flags (js_flags s - {flag_seek_value}) s"
    and g: "spec_literal (jx_json env) (jx_end env) rest v r = Go r'" and ft: "fits n f r'"
    and v: "json_nodes v = 1" "json_blocks v = 0" "\<And>p a b. counted f p a v \<Longrightarrow>
        \<exists>x. f a = Some x \<and> jv_type x \<notin> {json_array, json_object, json_string}"
    and post: "\<And>s' p a b x. js_values s' a = Some x \<Longrightarrow> js_top s' = Some a \<Longrightarrow> f a = Some x \<Longrightarrow> counted f p a v \<Longrightarrow>
        \<exists>H. g s' = Proceed (s'\<lparr>js_flags := insert flag_next (js_flags s'), js_values := H\<rparr>)
          \<and> (H = js_values s' \<or> (\<exists>y. H = (js_values s')(a \<mapsto> y))) \<and> stored H (js_blocks s') p a b v"
  shows "second_match n f r' (json_then (json_then (json_literal env rest ty s0) g) json_finish)"
proof -
  note d = second_relD [OF r(1), unfolded r(2,3), simplified]
  let ?k = "stack_nodes (sp_stack r)" let ?q = "sp_ptr r + int (length rest)"
  have sc: "\<not> jx_end env - sp_ptr r < int (length rest)" "json_expect (jx_json env) (sp_ptr r) rest = Scanned ()"
      "r' = spec_put v (r\<lparr>sp_ptr := ?q + 1\<rparr>)"
    using g by (auto simp: spec_literal_def split: if_splits json_scan.splits)
  let ?s = "s0\<lparr>js_ptr := ?q\<rparr>"
  have jl: "json_literal env rest ty s0 = new_value env ty ?s"
    using sc d(3) by (simp add: json_literal_def s0)
  have c: "counted f (parent_of (sp_stack r)) ?k v"
    using fit_put [of f v "r\<lparr>sp_ptr := ?q + 1\<rparr>"] ft sc(3) by (simp add: fits_def)
  then obtain x where x: "f ?k = Some x" "jv_type x \<notin> {json_array, json_object, json_string}" using v(3) by blast
  have k: "?k < n" using ft sc(3) v(1) spec_put_next [of v "r\<lparr>sp_ptr := ?q + 1\<rparr>"] by (simp add: fits_def)
  have ok: "second_ok n f ?k ?s" by (rule second_ok_cong [OF d(1)]) (simp_all add: s0)
  obtain s' where s': "new_value env ty ?s = Proceed s'" "second_opened n f ?k 0 ?s s'" "js_values s' ?k = Some x"
    using second_new_scalar [OF ok env x(1) k x(2), of ty] d(7) s0 by auto
  have top: "js_top s' = Some ?k" using s'(2) by (simp add: second_opened_def)
  obtain H where H: "g s' = Proceed (s'\<lparr>js_flags := insert flag_next (js_flags s'), js_values := H\<rparr>)"
      "H = js_values s' \<or> (\<exists>y. H = (js_values s')(?k \<mapsto> y))"
      "stored H (js_blocks s') (parent_of (sp_stack r)) ?k (n + stack_blocks f (sp_stack r)) v"
    using post [OF s'(3) top x(1) c] by blast
  have so: "js_flags s' = js_flags s - {flag_seek_value}" "js_ptr s' = ?q" using s'(2) by (simp_all add: second_opened_def s0)
  then have F: "ctl (insert flag_next (js_flags s')) = {flag_next}" using d(5) by auto
  have fit: "fits n f (spec_put v (r\<lparr>sp_ptr := ?q + 1\<rparr>))" using ft sc(3) by simp
  have "s'\<lparr>js_flags := insert flag_next (js_flags s'), js_values := H\<rparr> =
      s'\<lparr>js_flags := insert flag_next (js_flags s'), js_ptr := ?q, js_values := H\<rparr>" using so(2) by (cases s') simp
  moreover have "second_match n f (spec_put v (r\<lparr>sp_ptr := ?q + 1\<rparr>))
      (json_finish (s'\<lparr>js_flags := insert flag_next (js_flags s'), js_ptr := ?q, js_values := H\<rparr>))"
  proof (rule second_scalar [where ?s0.0 = ?s])
    show "ctl (insert flag_next (js_flags s')) - {flag_reproc} = {flag_next}" by (simp only: F) simp
  qed (use s'(2) H ctl_mem [OF F] d(4,7) r(3) v(1,2) s0 env fit in \<open>simp_all add: second_env_def\<close>)
  ultimately show ?thesis using jl s'(1) H(1) sc(3) by simp
qed

lemma second_start:
  assumes r: "second_rel n f r s" "sp_mode r = Seeking False False" "sp_comment r = No_comment"
    and env: "second_env env n f" and ft: "fits n f r'" and nn: "\<And>m. sp_mode r' \<noteq> In_number m"
    and g: "spec_start (jx_json env) (jx_end env) b r = Go r'"
  shows "second_match n f r' (json_then (json_start_value env b (set_flags (js_flags s - {flag_seek_value}) s)) json_finish)"
proof -
  note d = second_relD [OF r(1), unfolded r(2,3), simplified]
  define s0 where "s0 = set_flags (js_flags s - {flag_seek_value}) s"
  let ?a = "stack_nodes (sp_stack r)" let ?i = "n + stack_blocks f (sp_stack r)"
  have c0: "ctl (js_flags s0) = {}" using d(5) by (simp add: s0_def)
  have ok: "second_ok n f ?a s0" by (rule second_ok_cong [OF d(1)]) (simp_all add: s0_def)
  have f0: "js_next s0 = ?i" "n \<le> js_next s0" "stored_below n f (js_values s0) (js_blocks s0) (sp_stack r)"
    "js_ptr s0 = sp_ptr r" "js_cur_line s0 = sp_line r" "js_top s0 = parent_of (sp_stack r)"
    using d by (simp_all add: s0_def)
  note lit = second_literal [OF r env s0_def]
  consider (brace) "b = chr CHR ''{''" | (bracket) "b = chr CHR ''[''" | (quote) "b = chr CHR 0x22" | (t) "b = chr CHR ''t''"
    | (f) "b = chr CHR ''f''" | (n) "b = chr CHR ''n''"
    | (other) "b \<noteq> chr CHR ''{''" "b \<noteq> chr CHR ''[''" "b \<noteq> chr CHR 0x22" "b \<noteq> chr CHR ''t''" "b \<noteq> chr CHR ''f''" "b \<noteq> chr CHR ''n''"
    by blast
  then have "second_match n f r' (json_then (json_start_value env b s0) json_finish)"
  proof cases
    case brace
    have r': "r' = r\<lparr>sp_mode := In_members False, sp_stack := In_object [] [] # sp_stack r, sp_ptr := sp_ptr r + 1\<rparr>"
      using g brace by (simp add: spec_start_def spec_next_def)
    obtain x m where x: "f ?a = Some x" "jv_parent x = parent_of (sp_stack r)" "jv_type x = json_object" "jv_ptr x = Counter m"
      using ft r' by (auto simp: fits_def fit_object_def node_is_def)
    have m: "jv_length x = 0 \<Longrightarrow> m = 0" using env x by (auto simp: second_env_def)
    have k: "?a < n" using ft r' by (simp add: fits_def)
    obtain s' where s': "new_value env json_object s0 = Proceed s'" "second_opened n f ?a (own_block f ?a) s0 s'"
        "object_open f (js_values s') (js_blocks s') [] None (jv_parent x) ?a (js_next s0)"
      using second_new_object [OF ok env x(1) k x(3,4) m f0(2)] by blast
    have "second_ok n f (?a + 1) s'" using s'(2) by (simp add: second_opened_def)
    then have "second_ok n f (?a + 1) (s'\<lparr>js_ptr := js_ptr s' + 1\<rparr>)" by (rule second_ok_cong) simp_all
    then have "second_rel n f r' (s'\<lparr>js_ptr := js_ptr s' + 1\<rparr>)"
      using second_opened_below [OF s'(2) f0(1,3)] s'(2,3) f0 c0 r(3) r' x(2)
      by (simp add: second_rel_def second_opened_def)
    then show ?thesis using s'(1) brace by (simp add: json_start_value_def)
  next
    case bracket
    then have nb: "b \<noteq> chr CHR ''{''" by (simp add: chr_def)
    have r': "r' = r\<lparr>sp_mode := Seeking False False, sp_stack := In_array [] # sp_stack r, sp_ptr := sp_ptr r + 1\<rparr>"
      using g bracket nb by (simp add: spec_start_def spec_next_def)
    obtain x where x: "f ?a = Some x" "jv_parent x = parent_of (sp_stack r)" "jv_type x = json_array" "jv_ptr x = Counter 0"
      using ft r' by (auto simp: fits_def fit_array_def node_is_def)
    have k: "?a < n" using ft r' by (simp add: fits_def)
    obtain s' where s': "new_value env json_array s0 = Proceed s'" "second_opened n f ?a (own_block f ?a) s0 s'"
        "array_open f (js_values s') (js_blocks s') [] (jv_parent x) ?a (js_next s0)"
      using second_new_array [OF ok env x(1) k x(3,4) f0(2)] by blast
    let ?s = "set_flags (insert flag_seek_value (js_flags s')) s'"
    have "second_ok n f (?a + 1) s'" using s'(2) by (simp add: second_opened_def)
    then have "second_ok n f (?a + 1) (?s\<lparr>js_ptr := js_ptr ?s + 1\<rparr>)" by (rule second_ok_cong) simp_all
    then have "second_rel n f r' (?s\<lparr>js_ptr := js_ptr ?s + 1\<rparr>)"
      using second_opened_below [OF s'(2) f0(1,3)] s'(2,3) f0 c0 r(3) r' x(2)
      by (simp add: second_rel_def second_opened_def)
    then show ?thesis using s'(1) bracket nb by (simp add: json_start_value_def)
  next
    case quote
    then have nb: "b \<noteq> chr CHR ''{''" "b \<noteq> chr CHR ''[''" by (simp_all add: chr_def)
    have r': "r' = r\<lparr>sp_mode := In_string False [], sp_ptr := sp_ptr r + 1\<rparr>"
      using g quote nb by (simp add: spec_start_def spec_next_def)
    obtain x where x: "f ?a = Some x" "jv_parent x = parent_of (sp_stack r)" "jv_type x = json_string"
      using ft r' by (auto simp: fits_def node_is_def)
    have k: "?a < n" using ft r' by (simp add: fits_def)
    obtain s' where s': "new_value env json_string s0 = Proceed s'" "second_opened n f ?a 1 s0 s'"
        "node_is (js_values s') ?a (jv_parent x) json_string (\<lambda>y. jv_ptr y = Mem (js_next s0))"
        "js_blocks s' (js_next s0) = Some (Chars (replicate (jv_length x + 1) None))"
      using second_new_string [OF ok env x(1) k x(3) f0(2)] by blast
    obtain y where y: "js_values s' ?a = Some y" "jv_ptr y = Mem ?i" using s'(3) f0(1) by (auto simp: node_is_def)
    let ?s = "(set_flags (insert flag_string (js_flags s')) s')\<lparr>js_string := Some (?i, 0), js_string_length := 0\<rparr>"
    have "second_ok n f (?a + 1) s'" using s'(2) by (simp add: second_opened_def)
    then have "second_ok n f (?a + 1) (?s\<lparr>js_ptr := js_ptr ?s + 1\<rparr>)" by (rule second_ok_cong) simp_all
    then have "second_rel n f r' (?s\<lparr>js_ptr := js_ptr ?s + 1\<rparr>)"
      using second_opened_below [OF s'(2) f0(1,3)] s' f0 c0 r(3) r' x
      by (simp add: second_rel_def second_opened_def)
    then show ?thesis
      using s'(1,2) quote nb y by (simp add: json_start_value_def on_value_def second_opened_def)
  next
    case t
    then have e: "json_start_value env b s0 = json_then (json_literal env (cstr ''rue'') json_boolean s0) (\<lambda>s.
       on_value (js_top s) s (\<lambda>a v.
         Proceed (set_flags (insert flag_next (js_flags s)) (set_value a (v\<lparr>jv_boolean := True\<rparr>) s))))"
      and sl: "spec_literal (jx_json env) (jx_end env) (cstr ''rue'') (JBoolean True) r = Go r'"
      using g by (simp_all add: json_start_value_def spec_start_def chr_def)
    show ?thesis
      unfolding e
    proof (rule lit [OF sl ft])
      fix s' :: json_state and p a b x
      assume "js_values s' a = Some x" "js_top s' = Some a" "f a = Some x" "counted f p a (JBoolean True)"
      then show "\<exists>H. on_value (js_top s') s' (\<lambda>a v.
            Proceed (set_flags (insert flag_next (js_flags s')) (set_value a (v\<lparr>jv_boolean := True\<rparr>) s'))) =
          Proceed (s'\<lparr>js_flags := insert flag_next (js_flags s'), js_values := H\<rparr>)
          \<and> (H = js_values s' \<or> (\<exists>y. H = (js_values s')(a \<mapsto> y))) \<and> stored H (js_blocks s') p a b (JBoolean True)"
        by (intro exI [of _ "(js_values s')(a \<mapsto> x\<lparr>jv_boolean := True\<rparr>)"])
           (cases s', auto simp: on_value_def set_flags_def set_value_def node_is_def)
    qed (auto simp: node_is_def)
  next
    case f
    then have e: "json_start_value env b s0 = json_then (json_literal env (cstr ''alse'') json_boolean s0) (\<lambda>s.
         Proceed (set_flags (insert flag_next (js_flags s)) s))"
      and sl: "spec_literal (jx_json env) (jx_end env) (cstr ''alse'') (JBoolean False) r = Go r'"
      using g by (simp_all add: json_start_value_def spec_start_def chr_def)
    show ?thesis
      unfolding e
    proof (rule lit [OF sl ft])
      fix s' :: json_state and p a b x
      assume "js_values s' a = Some x" "js_top s' = Some a" "f a = Some x" "counted f p a (JBoolean False)"
      then show "\<exists>H. Proceed (set_flags (insert flag_next (js_flags s')) s') =
          Proceed (s'\<lparr>js_flags := insert flag_next (js_flags s'), js_values := H\<rparr>)
          \<and> (H = js_values s' \<or> (\<exists>y. H = (js_values s')(a \<mapsto> y))) \<and> stored H (js_blocks s') p a b (JBoolean False)"
        by (intro exI [of _ "js_values s'"]) (cases s', auto simp: set_flags_def node_is_def)
    qed (auto simp: node_is_def)
  next
    case n
    then have e: "json_start_value env b s0 = json_then (json_literal env (cstr ''ull'') json_null s0) (\<lambda>s.
         Proceed (set_flags (insert flag_next (js_flags s)) s))"
      and sl: "spec_literal (jx_json env) (jx_end env) (cstr ''ull'') JNull r = Go r'"
      using g by (simp_all add: json_start_value_def spec_start_def chr_def)
    show ?thesis
      unfolding e
    proof (rule lit [OF sl ft])
      fix s' :: json_state and p a b x
      assume "js_values s' a = Some x" "js_top s' = Some a" "f a = Some x" "counted f p a JNull"
      then show "\<exists>H. Proceed (set_flags (insert flag_next (js_flags s')) s') =
          Proceed (s'\<lparr>js_flags := insert flag_next (js_flags s'), js_values := H\<rparr>)
          \<and> (H = js_values s' \<or> (\<exists>y. H = (js_values s')(a \<mapsto> y))) \<and> stored H (js_blocks s') p a b JNull"
        by (intro exI [of _ "js_values s'"]) (cases s', auto simp: set_flags_def node_is_def)
    qed (auto simp: node_is_def)
  next
    case other
    then have "\<exists>m. sp_mode r' = In_number m" using g by (auto simp: spec_start_def spec_next_def split: if_splits)
    then show ?thesis using nn by blast
  qed
  then show ?thesis by (simp add: s0_def)
qed

end
