(* ===== verification/JsonSecondPass.thy ===== *)
theory JsonSecondPass
  imports JsonSecondStep
begin

text \<open>
  Numbers, the steps together, and the second pass as a whole: it returns, and the value is in memory.
\<close>

section \<open>A number\<close>

text \<open>The first pass has read the number; the second skips what may be part of one.  It ends where the first pass has
  ended it, since no character of a number may follow a value.\<close>

lemma number_more_char:
  assumes "number_step b m = Number_more m'"
  shows "json_number_char b"
  using assms
  by (auto simp: number_step_def json_number_char_def number_digit_def number_after_digits_def Let_def cstr_def chr_def
      split: if_splits)

lemma number_char_0: "\<not> json_number_char 0"
  by (simp add: json_number_char_def json_isdigit_def cstr_def chr_def)

lemma number_char_rejected:
  assumes c: "json_number_char b" and b: "(if sp_ptr r = stop then Some 0 else json_peek json (sp_ptr r)) = Some b"
    and r: "sp_comment r = No_comment"
  shows "\<exists>e l. spec_step json stop comments (spec_put w r) = Reject e l"
proof -
  have b': "(if sp_ptr (spec_put w r) = stop then Some 0 else json_peek json (sp_ptr (spec_put w r))) = Some b"
    using b by (simp only: spec_put_fields)
  have nb: "b \<noteq> chr CHR ''/''" "b \<noteq> 0" "\<not> json_whitespace b" "b \<noteq> chr CHR '']''" "b \<noteq> chr CHR '',''" "b \<noteq> chr CHR 0x22"
      "b \<noteq> chr CHR ''}''"
    using c by (auto simp: json_number_char_def json_whitespace_def json_isdigit_def cstr_def chr_def)
  have "sp_mode (spec_put w r) \<in> {All_done w, Seeking True False, In_members True}"
    using spec_value_mode [of w "sp_stack r"] by (simp add: spec_put_def)
  then show ?thesis
    using nb r by (auto simp: spec_step_fetch [OF b'] spec_outside_def spec_seek_def spec_members_def)
qed

declare json_skip_number.simps [simp del]

lemma skip_number_next:
  assumes "json_number_char b" "(if p + 1 = stop then Some 0 else json_peek json (p + 1)) = Some b'"
  shows "json_skip_number json stop p b = json_skip_number json stop (p + 1) b'"
  using assms number_char_0
  by (auto simp: json_skip_number.simps [of json stop p b] json_skip_number.simps [of json _ "p + 1" 0] split: if_splits)

lemma number_run:
  assumes t: "spec_text json stop"
    and "spec_run json stop comments r = Some (Accept v)" "sp_mode r = In_number m" "spec_ok stop r"
      "(if sp_ptr r = stop then Some 0 else json_peek json (sp_ptr r)) = Some b"
  shows "\<exists>w q. json_skip_number json stop (sp_ptr r) b = Some q \<and> spec_ok stop (spec_put w (r\<lparr>sp_ptr := q\<rparr>))
    \<and> spec_run json stop comments (spec_put w (r\<lparr>sp_ptr := q\<rparr>)) = Some (Accept v)
    \<and> spec_measure stop (spec_put w (r\<lparr>sp_ptr := q\<rparr>)) < spec_measure stop r
    \<and> ((\<exists>i. w = JInteger i) \<or> (\<exists>d. w = JDouble d))"
  using assms(2-)
proof (induction "spec_measure stop r" arbitrary: r m b rule: less_induct)
  case less
  note b = less.prems(4)
  have c: "sp_comment r = No_comment" using less.prems(2,3) by (simp add: spec_ok_def)
  have p: "0 \<le> sp_ptr r" "sp_ptr r \<le> stop" using less.prems(3) by (auto simp: spec_ok_def)
  have g: "good_step stop r (spec_step json stop comments r)" by (rule spec_step_progress [OF t less.prems(3)])
  have nc: "\<not> (comments \<and> b = chr CHR ''/'')"
  proof
    assume "comments \<and> b = chr CHR ''/''"
    then have "spec_step json stop comments r = Reject Comment_not_allowed_here (sp_line r)"
      using c less.prems(2) by (simp add: spec_step_fetch [OF b] spec_in_comment_def)
    then show False using less.prems(1) by (simp add: spec_run.simps [of json stop comments r])
  qed
  then have st: "spec_step json stop comments r = (case number_step b m of
            Number_more n \<Rightarrow> spec_next (r\<lparr>sp_mode := In_number n\<rparr>)
          | Number_end v \<Rightarrow> Go (spec_put v r)
          | Number_error e \<Rightarrow> Reject e (sp_line r))"
    using c less.prems(2) by (auto simp: spec_step_fetch [OF b] spec_outside_def)
  show ?case
  proof (cases "number_step b m")
    case (Number_more m')
    let ?r = "r\<lparr>sp_mode := In_number m', sp_ptr := sp_ptr r + 1\<rparr>"
    have s: "spec_step json stop comments r = Go ?r" using st Number_more by (simp add: spec_next_def)
    then have ok: "spec_ok stop ?r" "spec_measure stop ?r < spec_measure stop r" using g by simp_all
    have run: "spec_run json stop comments ?r = Some (Accept v)"
      using less.prems(1) s by (simp add: spec_run.simps [of json stop comments r])
    obtain b' where b': "(if sp_ptr ?r = stop then Some 0 else json_peek json (sp_ptr ?r)) = Some b'"
    proof (cases "sp_ptr ?r = stop")
      case False
      obtain b' where "json_peek json (sp_ptr ?r) = Some b'"
        using spec_text_peek [OF t, of "sp_ptr ?r"] ok(1) by (auto simp: spec_ok_def)
      with that False show ?thesis by simp
    qed (use that in simp)
    have "json_number_char b" using Number_more by (rule number_more_char)
    then have sk: "json_skip_number json stop (sp_ptr r) b = json_skip_number json stop (sp_ptr r + 1) b'"
      by (rule skip_number_next) (use b' in \<open>auto split: if_splits\<close>)
    have "spec_put w (?r\<lparr>sp_ptr := q\<rparr>) = spec_put w (r\<lparr>sp_ptr := q\<rparr>)" for w q by (cases r) (simp add: spec_put_def)
    then show ?thesis
      using less.hyps [OF ok(2) run _ ok(1) b'] sk ok(2) by fastforce
  next
    case (Number_end w)
    have s: "spec_step json stop comments r = Go (spec_put w r)" using st Number_end by simp
    then have run: "spec_run json stop comments (spec_put w r) = Some (Accept v)"
      using less.prems(1) by (simp add: spec_run.simps [of json stop comments r])
    have "\<not> json_number_char b"
    proof
      assume "json_number_char b"
      then obtain e l where "spec_step json stop comments (spec_put w r) = Reject e l"
        using number_char_rejected [OF _ b c, of comments w] by blast
      then show False using run by (simp add: spec_run.simps [of json stop comments "spec_put w r"])
    qed
    then have "json_skip_number json stop (sp_ptr r) b = Some (sp_ptr r)" by (simp add: json_skip_number.simps)
    moreover have "r\<lparr>sp_ptr := sp_ptr r\<rparr> = r" by (cases r) simp
    ultimately show ?thesis using run s g number_step_result [OF Number_end] by (metis good_step_simps(4))
  next
    case (Number_error e)
    then show ?thesis using st less.prems(1) by (simp add: spec_run.simps [of json stop comments r])
  qed
qed

lemma completes_run:
  assumes t: "spec_text json stop" and ok: "spec_ok stop r" and v: "spec_run json stop comments r = Some (Accept v)"
  shows "completes (sp_mode r) (sp_stack r) v"
  using ok v
proof (induction "spec_measure stop r" arbitrary: r rule: less_induct)
  case less
  have g: "good_step stop r (spec_step json stop comments r)" by (rule spec_step_progress [OF t less.prems(1)])
  show ?case
  proof (cases "spec_step json stop comments r")
    case (Go r')
    then have "spec_run json stop comments r' = Some (Accept v)"
      using less.prems(2) by (simp add: spec_run.simps [of json stop comments r])
    then show ?thesis using less.hyps [of r'] g Go completes_back [OF Go less.prems(1)] by simp
  next
    case (Accept w)
    then have "w = v" using less.prems(2) by (simp add: spec_run.simps [of json stop comments r])
    have "sp_mode r = All_done w" using Accept by (rule spec_accept)
    then show ?thesis using \<open>w = v\<close> by simp
  qed (use less.prems(2) in \<open>simp_all add: spec_run.simps [of json stop comments r]\<close>)
qed

lemma run_fits:
  assumes "spec_text json stop" "spec_ok stop r" "spec_run json stop comments r = Some (Accept v)" "counted f None 0 v"
    "json_nodes v \<le> n"
  shows "fits n f r"
  using completes_fit [OF completes_run [OF assms(1-3)] assms(4)] assms(5) by (simp add: fits_def)

lemma fetch_byte:
  assumes "spec_text json stop" "spec_ok stop r"
  obtains b where "(if sp_ptr r = stop then Some 0 else json_peek json (sp_ptr r)) = Some b"
proof (cases "sp_ptr r = stop")
  case False
  have "0 \<le> sp_ptr r" "sp_ptr r \<le> stop" using assms(2) by (auto simp: spec_ok_def)
  then obtain b where "json_peek json (sp_ptr r) = Some b" using spec_text_peek [OF assms(1)] by metis
  with that False show ?thesis by simp
qed (use that in simp)

lemma second_number:
  assumes r: "second_rel n f r s" "sp_mode r = Seeking False False" "sp_comment r = No_comment" "spec_ok (jx_end env) r"
    and env: "second_env env n f" and t: "spec_text (jx_json env) (jx_end env)"
    and b: "(if sp_ptr r = jx_end env then Some 0 else json_peek (jx_json env) (sp_ptr r)) = Some b"
    and g: "spec_start (jx_json env) (jx_end env) b r = Go r'" "sp_mode r' = In_number m"
    and ok: "spec_ok (jx_end env) r'" "spec_measure (jx_end env) r' < spec_measure (jx_end env) r"
    and run: "spec_run (jx_json env) (jx_end env) (jx_comments env) r' = Some (Accept v)"
    and v: "counted f None 0 v" "json_nodes v \<le> n"
  shows "\<exists>r''. second_match n f r'' (json_then (json_start_value env b (set_flags (js_flags s - {flag_seek_value}) s)) json_finish)
    \<and> spec_run (jx_json env) (jx_end env) (jx_comments env) r'' = Some (Accept v)
    \<and> spec_ok (jx_end env) r'' \<and> spec_measure (jx_end env) r'' < spec_measure (jx_end env) r \<and> sp_comment r'' = No_comment"
proof -
  note d = second_relD [OF r(1), unfolded r(2,3), simplified]
  define s0 where "s0 = set_flags (js_flags s - {flag_seek_value}) s"
  let ?k = "stack_nodes (sp_stack r)" let ?i = "n + stack_blocks f (sp_stack r)"
  obtain b' where b': "(if sp_ptr r' = jx_end env then Some 0 else json_peek (jx_json env) (sp_ptr r')) = Some b'"
    by (rule fetch_byte [OF t ok(1)])
  have cases: "b = chr CHR ''-'' \<and> r' = r\<lparr>sp_mode := In_number (new_number True), sp_ptr := sp_ptr r + 1\<rparr>
      \<or> json_isdigit b \<and> b \<noteq> chr CHR ''-'' \<and> r' = r\<lparr>sp_mode := In_number (new_number False)\<rparr>"
    using g by (auto simp: spec_start_def spec_next_def spec_literal_def spec_put_def split: if_splits json_scan.splits)
      (use spec_value_mode in \<open>metis empty_iff insert_iff json_mode.distinct\<close>)+
  have sk: "json_skip_number (jx_json env) (jx_end env) (sp_ptr r) b = json_skip_number (jx_json env) (jx_end env) (sp_ptr r') b'"
    using cases
  proof
    assume a: "b = chr CHR ''-'' \<and> r' = r\<lparr>sp_mode := In_number (new_number True), sp_ptr := sp_ptr r + 1\<rparr>"
    then have p: "sp_ptr r' = sp_ptr r + 1" by simp
    have "json_number_char b" using a by (simp add: json_number_char_def cstr_def)
    then show ?thesis unfolding p by (rule skip_number_next) (use b' in \<open>simp only: p\<close>)
  next
    assume "json_isdigit b \<and> b \<noteq> chr CHR ''-'' \<and> r' = r\<lparr>sp_mode := In_number (new_number False)\<rparr>"
    then have "sp_ptr r' = sp_ptr r" by simp
    then show ?thesis using b b' by (auto split: if_splits)
  qed
  obtain w q where w: "json_skip_number (jx_json env) (jx_end env) (sp_ptr r') b' = Some q"
      "spec_ok (jx_end env) (spec_put w (r'\<lparr>sp_ptr := q\<rparr>))"
      "spec_run (jx_json env) (jx_end env) (jx_comments env) (spec_put w (r'\<lparr>sp_ptr := q\<rparr>)) = Some (Accept v)"
      "spec_measure (jx_end env) (spec_put w (r'\<lparr>sp_ptr := q\<rparr>)) < spec_measure (jx_end env) r'"
      "(\<exists>i. w = JInteger i) \<or> (\<exists>d. w = JDouble d)"
    using number_run [OF t run g(2) ok(1) b'] by blast
  have eq: "spec_put w (r'\<lparr>sp_ptr := q\<rparr>) = spec_put w (r\<lparr>sp_ptr := q\<rparr>)"
    using cases by (elim disjE conjE; cases r; simp add: spec_put_def)
  let ?r = "spec_put w (r\<lparr>sp_ptr := q\<rparr>)"
  have fit: "fits n f ?r" using run_fits [OF t w(2,3) v] eq by simp
  have c: "counted f (parent_of (sp_stack r)) ?k w"
    using fit_put [of f w "r\<lparr>sp_ptr := q\<rparr>"] fit by (simp add: fits_def)
  have w1: "json_nodes w = 1" "json_blocks w = 0" using w(5) by auto
  obtain x where x: "f ?k = Some x" "jv_type x \<notin> {json_array, json_object, json_string}"
    using c w(5) by (auto simp: node_is_def)
  have k: "?k < n" using fit w1 spec_put_next [of w "r\<lparr>sp_ptr := q\<rparr>"] by (simp add: fits_def)
  have ok0: "second_ok n f ?k s0" by (rule second_ok_cong [OF d(1)]) (simp_all add: s0_def)
  obtain s' where s': "new_value env json_integer s0 = Proceed s'" "second_opened n f ?k 0 s0 s'" "js_values s' ?k = Some x"
    using second_new_scalar [OF ok0 env x(1) k x(2), of json_integer] d(7) s0_def by auto
  have so: "js_flags s' = js_flags s - {flag_seek_value}" "js_ptr s' = sp_ptr r" "\<not> js_first_pass s'"
    using s'(2) d(3) by (simp_all add: second_opened_def s0_def second_ok_def)
  let ?F = "js_flags s' \<union> {flag_next, flag_reproc}"
  have F: "ctl ?F - {flag_reproc} = {flag_next}" using d(5) so(1) by auto
  have st: "stored (js_values s') (js_blocks s') (parent_of (sp_stack r)) ?k ?i w"
    using c w(5) s'(3) x by (auto simp: node_is_def)
  have "second_match n f ?r (json_finish (s'\<lparr>js_flags := ?F, js_ptr := q, js_values := js_values s'\<rparr>))"
  proof (rule second_scalar [where ?s0.0 = s0])
    show "ctl ?F - {flag_reproc} = {flag_next}" by (rule F)
  qed (use s'(2) d(4,7) r(3) w1 st env fit in \<open>simp_all add: second_env_def s0_def\<close>)
  moreover have "s'\<lparr>js_flags := ?F, js_ptr := q, js_values := js_values s'\<rparr> = set_flags ?F (s'\<lparr>js_ptr := q\<rparr>)"
    by (cases s') (simp add: set_flags_def)
  moreover have "json_start_value env b s0 = json_start_number env b s0"
    using cases by (auto simp: json_start_value_def json_isdigit_def chr_def)
  moreover have "json_start_number env b s0 = Proceed (set_flags ?F (s'\<lparr>js_ptr := q\<rparr>))"
    using s'(1) so sk w(1) by (simp add: json_start_number_def)
  ultimately have "second_match n f ?r (json_then (json_start_value env b s0) json_finish)" by (simp only: json_then.simps)
  moreover have "sp_comment ?r = No_comment" using r(3) by simp
  ultimately show ?thesis using w(2-4) ok(2) unfolding eq s0_def by (intro exI [of _ ?r]) simp
qed

section \<open>Members\<close>

lemma second_members:
  assumes r: "second_rel n f r s" "sp_mode r = In_members comma" "sp_comment r = No_comment"
    and h: "heap_bounds f" and ft: "fits n f r'" and g: "spec_members b comma r = Go r'"
  shows "second_match n f r' (json_then (json_inside b s) json_finish)"
proof -
  obtain ms k st where st: "sp_stack r = In_object ms k # st" using r(1,2) by (rule second_members_stack)
  note d = second_relD [OF r(1), unfolded r(2,3) st, simplified]
  note fl = ctl_mem [OF d(5)]
  let ?a = "stack_nodes st" let ?i = "n + stack_blocks f st"
  have oo: "object_open f (js_values s) (js_blocks s) ms None (parent_of st) ?a ?i" using d(7) by simp
  obtain x where x: "js_values s ?a = Some x" "jv_type x = json_object" using oo by (rule object_open_node)
  have ins: "json_inside b s = json_in_object b x s" using x d(6) by (simp add: json_inside_def on_value_def)
  have fin: "json_finish t = Continue t" if "flag_next \<notin> js_flags t" "flag_reproc \<notin> js_flags t" for t
    using that by (simp add: json_finish_def)
  consider (blank) "json_whitespace b" | (quote) "\<not> json_whitespace b" "b = chr CHR 0x22" "\<not> comma"
    | (brace) "\<not> json_whitespace b" "b \<noteq> chr CHR 0x22" "b = chr CHR ''}''"
    | (comma) "\<not> json_whitespace b" "b \<noteq> chr CHR 0x22" "b \<noteq> chr CHR ''}''" "b = chr CHR '',''" comma
    using g by (auto simp: spec_members_def split: if_splits)
  then show ?thesis
  proof cases
    case blank
    then have "spec_blank b r = Go r'" using g by (simp add: spec_members_def)
    from second_blank [OF r(1) this] show ?thesis using ins blank by (simp add: json_in_object_def)
  next
    case quote
    then have r': "r' = r\<lparr>sp_mode := In_key False [], sp_ptr := sp_ptr r + 1\<rparr>"
      using g by (simp add: spec_members_def spec_next_def)
    then obtain z m where z: "f ?a = Some z" "length ms < jv_length z" "jv_ptr z = Counter m" "names_size ms < m"
      using ft st by (auto simp: fits_def fit_object_def node_is_def)
    then have own: "own_block f ?a = 1" by (simp add: own_block_def)
    have res: "jv_reserved x = Object_mem ?i (names_size ms)" using oo own x by (auto simp: object_open_def node_is_def)
    obtain es mem where mem: "js_blocks s ?i = Some (Members es mem)" "take (names_size ms) mem = map Some (names_bytes ms)"
      using oo own by (auto simp: object_open_def)
    let ?t = "(set_flags (insert flag_string (js_flags s)) s)\<lparr>js_string := Some (?i, names_size ms), js_string_length := 0\<rparr>"
    have ji: "json_in_object b x s = Proceed ?t" using quote fl res by (simp add: json_in_object_def)
    have "second_ok n f (mode_next (sp_mode r) (sp_stack r)) (?t\<lparr>js_ptr := js_ptr ?t + 1\<rparr>)"
      by (rule second_ok_cong [OF second_relD(1) [OF r(1)]]) simp_all
    then have "second_rel n f r' (?t\<lparr>js_ptr := js_ptr ?t + 1\<rparr>)"
      using d quote(3) st r(2,3) mem unfolding r' by (intro second_control [OF r(1)]) simp_all
    moreover have "json_finish ?t = Continue ?t" by (rule fin) (use fl quote(3) in simp_all)
    ultimately show ?thesis using ins ji by simp
  next
    case brace
    then have r': "r' = spec_put (JObject ms) (r\<lparr>sp_stack := st, sp_ptr := sp_ptr r + 1\<rparr>)"
      using g st by (cases r) (auto simp: spec_members_def spec_next_def spec_put_def)
    show ?thesis
      using second_brace [OF r st h] ft ins brace unfolding r' by (simp add: json_in_object_def)
  next
    case comma
    then have r': "r' = r\<lparr>sp_mode := In_members False, sp_ptr := sp_ptr r + 1\<rparr>"
      using g by (simp add: spec_members_def spec_next_def)
    let ?t = "set_flags (js_flags s - {flag_need_comma}) s"
    have "second_ok n f (mode_next (sp_mode r) (sp_stack r)) (?t\<lparr>js_ptr := js_ptr ?t + 1\<rparr>)"
      by (rule second_ok_cong [OF second_relD(1) [OF r(1)]]) simp_all
    then have "second_rel n f r' (?t\<lparr>js_ptr := js_ptr ?t + 1\<rparr>)"
      using d comma st r(2,3) unfolding r' by (intro second_control [OF r(1)]) simp_all
    moreover have "json_finish ?t = Continue ?t" by (rule fin) (use fl in \<open>simp_all split: if_splits\<close>)
    moreover have "json_in_object b x s = Proceed ?t" using comma fl by (simp add: json_in_object_def)
    ultimately show ?thesis using ins by simp
  qed
qed

section \<open>A step of the second pass\<close>

definition second_go ::
  "json_env \<Rightarrow> nat \<Rightarrow> (nat \<rightharpoonup> json_value) \<Rightarrow> json \<Rightarrow> json_spec \<Rightarrow> json_flow \<Rightarrow> bool" where
  "second_go env n f v r y \<longleftrightarrow> (\<exists>r'. second_match n f r' y
     \<and> spec_run (jx_json env) (jx_end env) (jx_comments env) r' = Some (Accept v) \<and> spec_ok (jx_end env) r'
     \<and> spec_measure (jx_end env) r' < spec_measure (jx_end env) r \<and> (sp_comment r' \<noteq> No_comment \<longrightarrow> jx_comments env))"

definition second_done :: "nat \<Rightarrow> (nat \<rightharpoonup> json_value) \<Rightarrow> json \<Rightarrow> json_flow \<Rightarrow> bool" where
  "second_done n f v y \<longleftrightarrow> (\<exists>s. y = Break s \<and> stored (js_values s) (js_blocks s) None 0 n v
     \<and> js_next s = n + json_blocks v \<and> second_ok n f (json_nodes v) s)"

lemma second_seek:
  assumes r: "second_rel n f r s" "sp_mode r = Seeking comma colon" "sp_comment r = No_comment" "spec_ok (jx_end env) r"
    and h: "second_env env n f" and ft: "fits n f r'" and nn: "\<And>m. sp_mode r' \<noteq> In_number m"
    and g: "spec_seek (jx_json env) (jx_end env) b comma colon r = Go r'"
  shows "second_match n f r' (json_then (json_seek_value env b s) json_finish)"
proof -
  note d = second_relD [OF r(1), unfolded r(2,3), simplified]
  note fl = ctl_mem [OF d(5)]
  have hb: "heap_bounds f" using h by (simp add: second_env_def)
  have mok: "colon \<longrightarrow> \<not> comma \<and> sp_stack r \<noteq> [] \<and> frame_is_object (hd (sp_stack r))"
    using r(2,4) by (simp add: spec_ok_def)
  have ctrl: "second_match n f (r\<lparr>sp_mode := Seeking c c', sp_ptr := sp_ptr r + 1\<rparr>) (Continue (set_flags F s))"
    if "ctl F = mode_flags (Seeking c c')" for F c c'
  proof -
    have "second_ok n f (mode_next (sp_mode r) (sp_stack r)) ((set_flags F s)\<lparr>js_ptr := js_ptr s + 1\<rparr>)"
      by (rule second_ok_cong [OF second_relD(1) [OF r(1)]]) simp_all
    then have "second_rel n f (r\<lparr>sp_mode := Seeking c c', sp_ptr := sp_ptr r + 1\<rparr>) ((set_flags F s)\<lparr>js_ptr := js_ptr s + 1\<rparr>)"
      using that d r(2,3) by (intro second_control [OF r(1)]) simp_all
    then show ?thesis by simp
  qed
  consider (blank) "json_whitespace b"
    | (bracket) vs st where "\<not> json_whitespace b" "b = chr CHR '']''" "sp_stack r = In_array vs # st"
    | (comma) "\<not> json_whitespace b" "b = chr CHR '',''" "b \<noteq> chr CHR '']''" comma
    | (colon) "\<not> json_whitespace b" "b = chr CHR '':''" "b \<noteq> chr CHR '']''" "\<not> comma" colon
    | (start) "\<not> json_whitespace b" "b \<noteq> chr CHR '']''" "\<not> comma" "\<not> colon"
    using g by (auto simp: spec_seek_def split: if_splits list.splits json_frame.splits)
  then show ?thesis
  proof cases
    case blank
    then have "spec_blank b r = Go r'" using g by (simp add: spec_seek_def)
    from second_blank [OF r(1) this] show ?thesis using blank by (simp add: json_seek_value_def)
  next
    case bracket
    have nc: "\<not> colon" using mok bracket by auto
    have "array_open f (js_values s) (js_blocks s) vs (parent_of st) (stack_nodes st) (n + stack_blocks f st)"
      using d(7) bracket by simp
    then obtain x where "js_values s (stack_nodes st) = Some x" "jv_type x = json_array" by (rule array_open_node)
    then have j: "json_seek_value env b s =
        Proceed (set_flags (insert flag_next (js_flags s - {flag_need_comma, flag_seek_value})) s)"
      using bracket d(6) by (simp add: json_seek_value_def on_value_def)
    have r': "r' = spec_put (JArray vs) (r\<lparr>sp_stack := st, sp_ptr := sp_ptr r + 1\<rparr>)"
      using g bracket by (cases r) (auto simp: spec_seek_def spec_next_def spec_put_def)
    show ?thesis
      using second_bracket [OF r(1-3) bracket(3) nc hb] ft j unfolding r' by simp
  next
    case comma
    have "ctl (js_flags s - {flag_need_comma}) = mode_flags (Seeking False colon)" using d(5) mok by auto
    from ctrl [OF this] show ?thesis
      using comma d(1,4) fl g by (auto simp: spec_seek_def json_seek_value_def spec_next_def)
  next
    case colon
    have "ctl (js_flags s - {flag_need_colon}) = mode_flags (Seeking False False)" using d(5) colon by auto
    from ctrl [OF this] show ?thesis
      using colon d(1,4) fl g by (auto simp: spec_seek_def json_seek_value_def spec_next_def)
  next
    case start
    have m: "sp_mode r = Seeking False False" using r(2) start by simp
    have "spec_start (jx_json env) (jx_end env) b r = Go r'" using start g by (simp add: spec_seek_def)
    from second_start [OF r(1) m r(3) h ft nn this] show ?thesis
      using start fl by (simp add: json_seek_value_def)
  qed
qed

lemma second_string_bound:
  assumes "fits n f r" "heap_bounds f" "sp_mode r = In_string e cs \<or> sp_mode r = In_key e cs"
  shows "length cs \<le> uint_max"
  using assms(3)
proof
  assume "sp_mode r = In_string e cs"
  then obtain x where "f (stack_nodes (sp_stack r)) = Some x" "jv_type x = json_string" "length cs \<le> jv_length x"
    using assms(1) by (auto simp: fits_def node_is_def)
  then show ?thesis using assms(2) unfolding heap_bounds_def by fastforce
next
  assume m: "sp_mode r = In_key e cs"
  then obtain ms k st where "sp_stack r = In_object ms k # st"
    using assms(1) by (cases "sp_stack r"; cases "hd (sp_stack r)") (auto simp: fits_def)
  then obtain x q where x: "f (stack_nodes st) = Some x" "jv_type x = json_object" "jv_ptr x = Counter q"
      "names_size ms + (length cs + 1) \<le> q"
    using assms(1) m by (auto simp: fits_def fit_object_def node_is_def)
  then have "q \<le> uint_max" using assms(2) by (simp add: heap_bounds_def)
  then show ?thesis using x(4) by simp
qed

lemma second_chars:
  assumes r: "second_rel n f r s" "spec_ok (jx_end env) r" "sp_mode r = In_string e cs \<or> sp_mode r = In_key e cs"
    and h: "heap_bounds f" and ft: "fits n f r" "fits n f r'"
    and b: "(if sp_ptr r = jx_end env then Some 0 else json_peek (jx_json env) (sp_ptr r)) = Some b"
    and g: "spec_step (jx_json env) (jx_end env) (jx_comments env) r = Go r'"
  shows "second_match n f r' (json_iteration env s)"
proof -
  have c: "sp_comment r = No_comment" using r(2,3) by (auto simp: spec_ok_def)
  note d = second_relD [OF r(1)]
  have u: "length cs \<le> uint_max" by (rule second_string_bound [OF ft(1) h r(3)])
  have it: "json_iteration env s = json_then (json_in_string env b s) (json_rest env b)"
    by (rule json_iteration_rest) (use b d(3) in \<open>simp only:\<close>)
  have m: "flag_string \<in> js_flags s" "flag_escaped \<in> js_flags s \<longleftrightarrow> e" "js_string_length s = length cs"
  proof -
    have "ctl (js_flags s) = {flag_string} \<union> (if e then {flag_escaped} else {})" using d(5) r(3) c by (elim disjE) simp_all
    from ctl_mem [OF this] show "flag_string \<in> js_flags s" "flag_escaped \<in> js_flags s \<longleftrightarrow> e" by simp_all
    show "js_string_length s = length cs"
      using d(7) r(3) by (cases "sp_stack r"; cases "hd (sp_stack r)"; elim disjE) simp_all
  qed
  show ?thesis
  proof (cases "spec_char (jx_json env) (jx_end env) b (sp_ptr r) e cs")
    case (Char_more e' cs' q)
    have cm: "spec_char (jx_json env) (jx_end env) b (js_ptr s) e cs = Char_more e' cs' q" using Char_more d(3) by simp
    show ?thesis
      using r(3)
    proof
      assume mo: "sp_mode r = In_string e cs"
      then have r': "r' = r\<lparr>sp_mode := In_string e' cs', sp_ptr := q + 1\<rparr>" using g Char_more by (simp add: spec_step_fetch [OF b])
      show ?thesis using second_string_more [OF r(1) mo c b cm _ u] ft(2) unfolding r' by blast
    next
      assume mo: "sp_mode r = In_key e cs"
      then have r': "r' = r\<lparr>sp_mode := In_key e' cs', sp_ptr := q + 1\<rparr>" using g Char_more by (simp add: spec_step_fetch [OF b])
      show ?thesis using second_key_more [OF r(1) mo c b cm _ u] ft(2) unfolding r' by blast
    qed
  next
    case Char_closed
    then have q: "\<not> e" "b = chr CHR 0x22" "b \<noteq> 0" by (auto simp: spec_char_def split: if_splits json_scan.splits)
    have nb: "\<not> (jx_comments env \<and> b = chr CHR ''/'')" using q(2) by (simp add: chr_def)
    have es: "json_in_string env b s = json_end_string s"
      using m q u by (simp add: json_in_string_def chr_def)
    show ?thesis
      using r(3)
    proof
      assume "sp_mode r = In_string e cs"
      then have mo: "sp_mode r = In_string False cs" using q(1) by simp
      then have r': "r' = spec_put (JString cs) (r\<lparr>sp_ptr := sp_ptr r + 1\<rparr>)"
        using g Char_closed mo q(1) by (auto simp: spec_step_fetch [OF b] spec_next_def spec_put_def)
      show ?thesis using second_string_closed [OF r(1) mo c nb h] ft(2) it es unfolding r' by simp
    next
      assume "sp_mode r = In_key e cs"
      then have mo: "sp_mode r = In_key False cs" using q(1) by simp
      then obtain ms k st where st: "sp_stack r = In_object ms k # st"
        using d(7) by (cases "sp_stack r"; cases "hd (sp_stack r)") auto
      then have r': "r' = r\<lparr>sp_mode := Seeking False True, sp_stack := In_object ms cs # st, sp_ptr := sp_ptr r + 1\<rparr>"
        using g Char_closed mo q(1) by (simp add: spec_step_fetch [OF b] spec_key_done_def spec_next_def)
      show ?thesis using second_key_closed [OF r(1) mo c st] ft(2) it es unfolding r' by simp
    qed
  qed (use g r(3) in \<open>auto simp: spec_step_fetch [OF b]\<close>)
qed

lemma second_flow_step:
  assumes t: "spec_text (jx_json env) (jx_end env)"
    and ok: "spec_ok (jx_end env) r" and cm: "sp_comment r \<noteq> No_comment \<longrightarrow> jx_comments env"
    and run: "spec_run (jx_json env) (jx_end env) (jx_comments env) r = Some (Accept v)"
    and g: "spec_step (jx_json env) (jx_end env) (jx_comments env) r = Go r'" and m: "second_match n f r' y"
  shows "second_go env n f v r y"
  using m spec_step_progress [OF t ok, of "jx_comments env"] spec_comment_step [OF g cm] run g
  by (auto simp: second_go_def spec_run.simps [of _ _ _ r] intro!: exI [of _ r'])

theorem second_step:
  assumes r: "second_rel n f r s" "spec_ok (jx_end env) r" "sp_comment r \<noteq> No_comment \<longrightarrow> jx_comments env"
    and t: "spec_text (jx_json env) (jx_end env)" and env: "second_env env n f"
    and run: "spec_run (jx_json env) (jx_end env) (jx_comments env) r = Some (Accept v)"
    and v: "counted f None 0 v" "json_nodes v \<le> n"
  shows "second_done n f v (json_iteration env s) \<or> second_go env n f v r (json_iteration env s)"
proof -
  note d = second_relD [OF r(1)]
  have hb: "heap_bounds f" using env by (simp add: second_env_def)
  obtain b where b: "(if sp_ptr r = jx_end env then Some 0 else json_peek (jx_json env) (sp_ptr r)) = Some b"
    by (rule fetch_byte [OF t r(2)])
  have fit: "fits n f r" by (rule run_fits [OF t r(2) run v])
  have prog: "good_step (jx_end env) r (spec_step (jx_json env) (jx_end env) (jx_comments env) r)"
    by (rule spec_step_progress [OF t r(2)])
  note st = spec_step_fetch [OF b, of "jx_comments env"]
  have it: "json_iteration env s = json_then (json_in_string env b s) (json_rest env b)"
    by (rule json_iteration_rest) (use b d(3) in \<open>simp only:\<close>)
  show ?thesis
  proof (cases "spec_step (jx_json env) (jx_end env) (jx_comments env) r")
    case (Go r')
    have ok': "spec_ok (jx_end env) r'" "spec_measure (jx_end env) r' < spec_measure (jx_end env) r" using prog Go by simp_all
    have run': "spec_run (jx_json env) (jx_end env) (jx_comments env) r' = Some (Accept v)"
      using run Go by (simp add: spec_run.simps [of _ _ _ r])
    have fit': "fits n f r'" by (rule run_fits [OF t ok'(1) run' v])
    note flow = second_flow_step [OF t r(2,3) run Go]
    consider (chars) e cs where "sp_mode r = In_string e cs \<or> sp_mode r = In_key e cs"
      | (comment) "\<And>e cs. sp_mode r \<noteq> In_string e cs" "\<And>e cs. sp_mode r \<noteq> In_key e cs"
          "sp_comment r \<noteq> No_comment \<or> jx_comments env \<and> b = chr CHR ''/''"
      | (number) comma colon m where "sp_mode r = Seeking comma colon" "sp_mode r' = In_number m"
          "sp_comment r = No_comment" "\<not> (jx_comments env \<and> b = chr CHR ''/'')"
      | (seek) comma colon where "sp_mode r = Seeking comma colon" "\<And>m. sp_mode r' \<noteq> In_number m"
          "sp_comment r = No_comment" "\<not> (jx_comments env \<and> b = chr CHR ''/'')"
      | (members) comma where "sp_mode r = In_members comma"
          "sp_comment r = No_comment" "\<not> (jx_comments env \<and> b = chr CHR ''/'')"
      | (finished) w where "sp_mode r = All_done w" "sp_comment r = No_comment" "\<not> (jx_comments env \<and> b = chr CHR ''/'')"
    proof -
      assume a: "\<And>e cs. sp_mode r = In_string e cs \<or> sp_mode r = In_key e cs \<Longrightarrow> thesis"
        "(\<And>e cs. sp_mode r \<noteq> In_string e cs) \<Longrightarrow> (\<And>e cs. sp_mode r \<noteq> In_key e cs) \<Longrightarrow>
          sp_comment r \<noteq> No_comment \<or> jx_comments env \<and> b = chr CHR ''/'' \<Longrightarrow> thesis"
        "\<And>comma colon m. sp_mode r = Seeking comma colon \<Longrightarrow> sp_mode r' = In_number m \<Longrightarrow>
          sp_comment r = No_comment \<Longrightarrow> \<not> (jx_comments env \<and> b = chr CHR ''/'') \<Longrightarrow> thesis"
        "\<And>comma colon. sp_mode r = Seeking comma colon \<Longrightarrow> (\<And>m. sp_mode r' \<noteq> In_number m) \<Longrightarrow>
          sp_comment r = No_comment \<Longrightarrow> \<not> (jx_comments env \<and> b = chr CHR ''/'') \<Longrightarrow> thesis"
        "\<And>comma. sp_mode r = In_members comma \<Longrightarrow> sp_comment r = No_comment \<Longrightarrow>
          \<not> (jx_comments env \<and> b = chr CHR ''/'') \<Longrightarrow> thesis"
        "\<And>w. sp_mode r = All_done w \<Longrightarrow> sp_comment r = No_comment \<Longrightarrow> \<not> (jx_comments env \<and> b = chr CHR ''/'') \<Longrightarrow> thesis"
      show thesis
      proof (cases "sp_comment r \<noteq> No_comment \<or> jx_comments env \<and> b = chr CHR ''/''")
        case True
        show thesis
          by (cases "\<exists>e cs. sp_mode r = In_string e cs \<or> sp_mode r = In_key e cs") (use a(1,2) True in blast)+
      next
        case False
        then have c: "sp_comment r = No_comment" "\<not> (jx_comments env \<and> b = chr CHR ''/'')" by auto
        show thesis
        proof (cases "sp_mode r")
          case (Seeking comma colon)
          then show thesis using a(3,4) c by (cases "\<exists>m. sp_mode r' = In_number m") blast+
        qed (use a(1,5,6) c d(7) in \<open>simp_all\<close>)
      qed
    qed
    then show ?thesis
    proof cases
      case chars
      from flow [OF second_chars [OF r(1,2) chars hb fit fit' b Go]] show ?thesis by simp
    next
      case comment
      have "flag_string \<notin> js_flags s"
        using ctl_mem [OF d(5)] comment(1,2) by (cases "sp_mode r"; cases "sp_comment r") auto
      then have i: "json_iteration env s = json_rest env b s" using it by (simp add: json_in_string_def)
      have "spec_in_comment (jx_json env) (jx_end env) b r = Go r'"
        using Go st comment by (cases "sp_mode r") auto
      from second_comment [OF r(1,2) comment(3) r(3) comment(1,2) t b this] flow show ?thesis
        using i by (auto simp: json_rest_def)
    next
      case number
      have ctl: "ctl (js_flags s) = mode_flags (Seeking comma colon)" using d(5) number by simp
      have i: "json_iteration env s = json_then (json_seek_value env b s) json_finish"
        using it json_rest_plain [OF ctl _ _ _ number(4)] ctl_mem [OF ctl] by (simp add: json_in_string_def)
      have sk: "spec_seek (jx_json env) (jx_end env) b comma colon r = Go r'" using Go st number by (simp add: spec_outside_def)
      have sm: "sp_mode (spec_put x y) \<noteq> In_number m" for x y using spec_value_mode [of x "sp_stack y"] by (auto simp: spec_put_def)
      have n: "\<not> json_whitespace b" "b \<noteq> chr CHR '']''" "\<not> comma" "\<not> colon"
          "spec_start (jx_json env) (jx_end env) b r = Go r'"
        using sk number(1,2) sm
        by (auto simp: spec_seek_def spec_blank_def spec_next_def split: if_splits list.splits json_frame.splits)
      have mo: "sp_mode r = Seeking False False" using number(1) n by simp
      have "json_seek_value env b s = json_start_value env b (set_flags (js_flags s - {flag_seek_value}) s)"
        using n ctl_mem [OF ctl] by (simp add: json_seek_value_def)
      then show ?thesis
        using second_number [OF r(1) mo number(3) r(2) env t b n(5) number(2) ok' run' v] i
        by (auto simp: second_go_def)
    next
      case seek
      have ctl: "ctl (js_flags s) = mode_flags (Seeking comma colon)" using d(5) seek by simp
      have i: "json_iteration env s = json_then (json_seek_value env b s) json_finish"
        using it json_rest_plain [OF ctl _ _ _ seek(4)] ctl_mem [OF ctl] by (simp add: json_in_string_def)
      have sk: "spec_seek (jx_json env) (jx_end env) b comma colon r = Go r'" using Go st seek by (simp add: spec_outside_def)
      from flow [OF second_seek [OF r(1) seek(1,3) r(2) env fit' seek(2) sk]] show ?thesis using i by simp
    next
      case members
      have ctl: "ctl (js_flags s) = mode_flags (In_members comma)" using d(5) members by simp
      have i: "json_iteration env s = json_then (json_inside b s) json_finish"
        using it json_rest_plain [OF ctl _ _ _ members(3)] ctl_mem [OF ctl] by (simp add: json_in_string_def)
      have sk: "spec_members b comma r = Go r'" using Go st members by (simp add: spec_outside_def)
      from flow [OF second_members [OF r(1) members(1,2) hb fit' sk]] show ?thesis using i by simp
    next
      case finished
      have ctl: "ctl (js_flags s) = mode_flags (All_done w)" using d(5) finished by simp
      have sb: "spec_blank b r = Go r'" "json_whitespace b" "b \<noteq> 0"
        using Go st finished by (auto simp: spec_outside_def split: if_splits)
      have "json_iteration env s = Continue (json_count_line b s)"
        using it ctl_mem [OF ctl] sb finished(3)
        by (auto simp: json_in_string_def json_rest_def json_comment_def json_after_root_def)
      with flow [OF second_blank [OF r(1) sb(1)]] show ?thesis by simp
    qed
  next
    case (Accept w)
    then have w: "w = v" using run by (simp add: spec_run.simps [of _ _ _ r])
    have a: "sp_mode r = All_done w" "sp_comment r = No_comment" "b = 0" "\<not> (jx_comments env \<and> b = chr CHR ''/'')"
      using Accept st
      by (auto simp: spec_step_fetch [OF b] spec_outside_def spec_seek_def spec_start_def spec_members_def spec_blank_def
          spec_next_def spec_literal_def spec_key_done_def spec_in_comment_def
          split: json_mode.splits char_progress.splits number_progress.splits if_splits list.splits json_frame.splits
            json_scan.splits json_comment_state.splits)
    have ctl: "ctl (js_flags s) = mode_flags (All_done w)" using d(5) a by simp
    have "json_iteration env s = Break s"
      using it ctl_mem [OF ctl] a(3,4)
      by (auto simp: json_in_string_def json_rest_def json_comment_def json_after_root_def)
    then show ?thesis using d(1,7) a(1) w by (simp add: second_done_def)
  qed (use run in \<open>simp_all add: spec_run.simps [of _ _ _ r]\<close>)
qed

theorem second_pass:
  assumes t: "spec_text (jx_json env) (jx_end env)" and env: "second_env env n f"
    and v: "counted f None 0 v" "json_nodes v \<le> n"
    and r: "second_rel n f r s" "spec_ok (jx_end env) r" "sp_comment r \<noteq> No_comment \<longrightarrow> jx_comments env"
      "spec_run (jx_json env) (jx_end env) (jx_comments env) r = Some (Accept v)"
  shows "\<exists>y. json_loop env s = Some y \<and> second_done n f v y"
  using r
proof (induction "spec_measure (jx_end env) r" arbitrary: r s rule: less_induct)
  case less
  show ?case
    using second_step [OF less.prems(1-3) t env less.prems(4) v]
  proof
    assume "second_done n f v (json_iteration env s)"
    then show ?thesis by (auto simp: second_done_def json_loop.simps [of env s])
  next
    assume "second_go env n f v r (json_iteration env s)"
    then obtain r' s' where r': "json_iteration env s = Continue s'" "second_rel n f r' (s'\<lparr>js_ptr := js_ptr s' + 1\<rparr>)"
        "spec_run (jx_json env) (jx_end env) (jx_comments env) r' = Some (Accept v)" "spec_ok (jx_end env) r'"
        "spec_measure (jx_end env) r' < spec_measure (jx_end env) r" "sp_comment r' \<noteq> No_comment \<longrightarrow> jx_comments env"
      by (auto simp: second_go_def second_match_def)
    then show ?thesis using less.hyps [OF r'(5,2,4,6,3)] by (simp add: json_loop.simps [of env s])
  qed
qed

end
