(* ===== verification/JsonParse.thy ===== *)
theory JsonParse
  imports JsonSecondPass
begin

text \<open>
  \<open>json_parse_ex\<close> as a whole: the two passes after each other, the chain of values released when the first pass fails,
  and \<open>json_value_free_ex\<close> releasing what the second pass has made.
\<close>

section \<open>Releasing the chain\<close>

declare json_free_chain.simps [simp del] json_free_loop.simps [simp del]

lemma free_chain:
  assumes "\<And>a. js_values s a \<noteq> None \<longleftrightarrow> k \<le> a \<and> a < m"
    "\<And>a v. js_values s a = Some v \<Longrightarrow> jv_reserved v = Next_alloc (if a + 1 < m then Some (a + 1) else None)"
  shows "json_free_chain (if k < m then Some k else None) s = Some (Proceed (s\<lparr>js_values := Map.empty\<rparr>))"
  using assms
proof (induction "m - k" arbitrary: k s)
  case 0
  then have "js_values s = Map.empty" by (intro ext) (metis diff_is_0_eq linorder_not_less order.strict_trans2)
  then have "s\<lparr>js_values := Map.empty\<rparr> = s" by (cases s) simp
  then show ?case using 0 by (simp add: json_free_chain.simps)
next
  case (Suc d)
  then have km: "k < m" by simp
  then obtain v where v: "js_values s k = Some v" using Suc.prems(1) [of k] by auto
  let ?s = "s\<lparr>js_values := (js_values s)(k := None)\<rparr>"
  have "json_free_chain (if k + 1 < m then Some (k + 1) else None) ?s = Some (Proceed (?s\<lparr>js_values := Map.empty\<rparr>))"
  proof (rule Suc.hyps(1))
    show "d = m - (k + 1)" using Suc.hyps(2) by simp
    show "js_values ?s a \<noteq> None \<longleftrightarrow> k + 1 \<le> a \<and> a < m" for a using Suc.prems(1) [of a] by auto
    show "js_values ?s a = Some w \<Longrightarrow> jv_reserved w = Next_alloc (if a + 1 < m then Some (a + 1) else None)" for a w
      using Suc.prems(2) [of a w] by (simp split: if_splits)
  qed
  then show ?case
    using km v Suc.prems(2) [OF v] by (simp add: json_free_chain.simps [of "Some k"] json_free_value_def)
qed

lemma free_chain_ok:
  assumes "chain_ok s"
  shows "json_free_chain (js_root s) s = Some (Proceed (s\<lparr>js_values := Map.empty\<rparr>))"
proof -
  have "js_root s = (if 0 < js_next s then Some 0 else None)" using assms by (simp add: chain_ok_def)
  moreover have "json_free_chain (if 0 < js_next s then Some 0 else None) s = Some (Proceed (s\<lparr>js_values := Map.empty\<rparr>))"
    by (rule free_chain) (use assms in \<open>simp_all add: chain_ok_def\<close>)
  ultimately show ?thesis by simp
qed

section \<open>Releasing a value\<close>

definition json_drop :: "nat set \<Rightarrow> nat set \<Rightarrow> json_state \<Rightarrow> json_state" where
  "json_drop A B s = s\<lparr>js_values := js_values s |` (- A), js_blocks := js_blocks s |` (- B)\<rparr>"

lemma json_drop_fields [simp]:
  "js_values (json_drop A B s) = js_values s |` (- A)" "js_blocks (json_drop A B s) = js_blocks s |` (- B)"
  by (simp_all add: json_drop_def)

lemma json_drop_drop: "json_drop A B (json_drop C D s) = json_drop (A \<union> C) (B \<union> D) s"
  by (simp add: json_drop_def Int_commute)

lemma agree_restrict: "A \<inter> B = {} \<Longrightarrow> agree A f (f |` (- B))"
  by (auto simp: agree_def restrict_map_def)

definition child_table :: "json_value \<Rightarrow> json_block \<Rightarrow> nat option list option" where
  "child_table x blk =
    (case blk of
       Pointers ps \<Rightarrow> if jv_type x = json_array then Some ps else None
     | Members es cs \<Rightarrow> if jv_type x = json_object then Some (map je_value es) else None
     | Chars cs \<Rightarrow> None)"

lemma json_child_table:
  assumes "jv_ptr x = Mem b" "js_blocks s b = Some blk" "child_table x blk = Some cl" "i < length cl"
  shows "json_child x i s = cl ! i"
  using assms by (auto simp: json_child_def child_table_def split: json_block.splits if_splits)

text \<open>\<open>json_value_free_ex\<close> walks down through the last child and up through the parents: from a value that is in memory
  it comes back to its parent with the value gone.\<close>

definition free_returns :: "json \<Rightarrow> bool" where
  "free_returns v \<longleftrightarrow> (\<forall>s p a b. stored (js_values s) (js_blocks s) p a b v \<longrightarrow>
     json_free_loop (Some a) s = json_free_loop p (json_drop {a ..< a + json_nodes v} {b ..< b + json_blocks v} s))"

lemma free_children:
  assumes "\<And>u. u \<in> set us \<Longrightarrow> free_returns u" "js_values s a = Some x" "jv_length x = length us"
    "us \<noteq> [] \<Longrightarrow> jv_ptr x = Mem b \<and> js_blocks s b = Some blk \<and> child_table x blk = Some cl
      \<and> take (length us) cl = map Some (child_addresses (a + 1) us)"
    "stored_list (js_values s) (js_blocks s) (Some a) (a + 1) c us" "us \<noteq> [] \<Longrightarrow> b < c"
  shows "json_free_loop (Some a) s = json_free_loop (Some a) (set_value a (x\<lparr>jv_length := 0\<rparr>)
    (json_drop {a + 1 ..< a + 1 + sum_list (map json_nodes us)} {c ..< c + sum_list (map json_blocks us)} s))"
  using assms
proof (induction us arbitrary: s x rule: rev_induct)
  case Nil
  then have "set_value a (x\<lparr>jv_length := 0\<rparr>) (json_drop {} {} s) = s"
    by (cases s; cases x) (auto simp: set_value_def json_drop_def restrict_map_def)
  then show ?case by simp
next
  case (snoc w us)
  let ?m = "a + 1 + sum_list (map json_nodes us)" let ?d = "c + sum_list (map json_blocks us)"
  let ?x = "x\<lparr>jv_length := length us\<rparr>"
  let ?s = "set_value a ?x s"
  have tb: "jv_ptr x = Mem b" "js_blocks s b = Some blk" "child_table x blk = Some cl" "b < c"
      "take (length us + 1) cl = map Some (child_addresses (a + 1) (us @ [w]))" using snoc.prems(4,6) by simp_all
  have len: "length us < length cl"
  proof -
    have "length (take (length us + 1) cl) = length us + 1" unfolding tb(5) by simp
    then show ?thesis by simp
  qed
  have nth: "cl ! length us = Some ?m"
  proof -
    have "cl ! length us = take (length us + 1) cl ! length us" using len by simp
    also have "\<dots> = Some ?m" unfolding tb(5) by (simp add: child_addresses_append nth_append)
    finally show ?thesis .
  qed
  have tk: "take (length us) cl = map Some (child_addresses (a + 1) us)"
  proof -
    have "take (length us) cl = take (length us) (take (length us + 1) cl)" by simp
    also have "\<dots> = map Some (child_addresses (a + 1) us)" unfolding tb(5) by (simp add: child_addresses_append)
    finally show ?thesis .
  qed
  have sl: "stored_list (js_values ?s) (js_blocks ?s) (Some a) (a + 1) c us"
    "stored (js_values ?s) (js_blocks ?s) (Some a) ?m ?d w"
    using snoc.prems(5) by (auto simp: stored_list_append add_ac intro: stored_upd)
  have ty: "jv_type x = json_array \<or> jv_type x = json_object"
    using tb(3) by (auto simp: child_table_def split: json_block.splits if_splits)
  have "json_child x (length us) s = Some ?m" using json_child_table [OF tb(1-3) len] nth by simp
  then have "json_free_loop (Some a) s = json_free_loop (Some ?m) ?s"
    using snoc.prems(2,3) ty by (simp add: json_free_loop.simps [of "Some a"])
  also have "\<dots> = json_free_loop (Some a) (json_drop {?m ..< ?m + json_nodes w} {?d ..< ?d + json_blocks w} ?s)"
    using snoc.prems(1) [of w] sl(2) by (simp add: free_returns_def)
  also have "\<dots> = json_free_loop (Some a) (set_value a (?x\<lparr>jv_length := 0\<rparr>)
      (json_drop {a + 1 ..< ?m} {c ..< ?d} (json_drop {?m ..< ?m + json_nodes w} {?d ..< ?d + json_blocks w} ?s)))"
    (is "json_free_loop _ ?t = _")
  proof (rule snoc.IH)
    show "js_values ?t a = Some ?x" by (simp add: restrict_map_def)
    show "us \<noteq> [] \<Longrightarrow> jv_ptr ?x = Mem b \<and> js_blocks ?t b = Some blk \<and> child_table ?x blk = Some cl
        \<and> take (length us) cl = map Some (child_addresses (a + 1) us)"
      using tb tk by (auto simp: child_table_def restrict_map_def split: json_block.splits if_splits)
    have "agree {a + 1 ..< a + 1 + sum_list (map json_nodes us)} (js_values ?s) (js_values ?t)"
      unfolding json_drop_fields by (rule agree_restrict) auto
    moreover have "agree {c ..< c + sum_list (map json_blocks us)} (js_blocks ?s) (js_blocks ?t)"
      unfolding json_drop_fields by (rule agree_restrict) auto
    ultimately show "stored_list (js_values ?t) (js_blocks ?t) (Some a) (a + 1) c us"
      by (rule stored_agree(2) [OF sl(1)])
  qed (use snoc.prems(1) tb(4) in auto)
  also have "set_value a (?x\<lparr>jv_length := 0\<rparr>)
      (json_drop {a + 1 ..< ?m} {c ..< ?d} (json_drop {?m ..< ?m + json_nodes w} {?d ..< ?d + json_blocks w} ?s)) =
    set_value a (x\<lparr>jv_length := 0\<rparr>) (json_drop {a + 1 ..< ?m + json_nodes w} {c ..< ?d + json_blocks w} s)"
  proof -
    have "{a + 1 ..< ?m} \<union> {?m ..< ?m + json_nodes w} = {a + 1 ..< ?m + json_nodes w}"
      "{c ..< ?d} \<union> {?d ..< ?d + json_blocks w} = {c ..< ?d + json_blocks w}" by auto
    then show ?thesis
      unfolding json_drop_drop by (simp add: json_drop_def set_value_def)
  qed
  finally show ?case by (simp add: add.assoc)
qed

lemma free_leaf:
  assumes "js_values s a = Some x" "jv_parent x = p" "jv_type x \<notin> {json_array, json_object}"
    "if jv_type x = json_string then jv_ptr x = Mem b \<and> js_blocks s b \<noteq> None \<and> k = 1 else k = 0"
  shows "json_free_loop (Some a) s = json_free_loop p (json_drop {a ..< a + 1} {b ..< b + k} s)"
proof -
  have "json_drop {a ..< a + 1} {b ..< b + 0} s = s\<lparr>js_values := (js_values s)(a := None)\<rparr>"
    by (cases s) (auto simp: json_drop_def restrict_map_def fun_eq_iff)
  moreover have "json_drop {a ..< a + 1} {b ..< b + 1} s =
      s\<lparr>js_blocks := (js_blocks s)(b := None), js_values := (js_values s)(a := None)\<rparr>"
    by (cases s) (auto simp: json_drop_def restrict_map_def fun_eq_iff)
  ultimately show ?thesis
    using assms by (auto simp: json_free_loop.simps [of "Some a"] json_free_ptr_def json_free_value_def split: if_splits)
qed

lemma free_container:
  assumes ch: "\<And>u. u \<in> set us \<Longrightarrow> free_returns u" and x: "js_values s a = Some x" "jv_parent x = p"
      "jv_type x = json_array \<or> jv_type x = json_object" "jv_length x = length us"
      "jv_ptr x = (if us = [] then Counter 0 else Mem b)"
    and tb: "us \<noteq> [] \<Longrightarrow> js_blocks s b = Some blk \<and> child_table x blk = Some cl \<and> cl = map Some (child_addresses (a + 1) us)"
    and st: "stored_list (js_values s) (js_blocks s) (Some a) (a + 1) (b + (if us = [] then 0 else 1)) us"
  shows "json_free_loop (Some a) s = json_free_loop p
    (json_drop {a ..< a + 1 + sum_list (map json_nodes us)}
       {b ..< b + (if us = [] then 0 else 1) + sum_list (map json_blocks us)} s)"
proof -
  let ?c = "b + (if us = [] then 0 else 1)"
  let ?t = "set_value a (x\<lparr>jv_length := 0\<rparr>)
    (json_drop {a + 1 ..< a + 1 + sum_list (map json_nodes us)} {?c ..< ?c + sum_list (map json_blocks us)} s)"
  have "json_free_loop (Some a) s = json_free_loop (Some a) ?t"
    by (rule free_children [OF ch x(1,4) _ st, where cl = cl and blk = blk and b = b]) (use x tb in auto)
  also have "\<dots> = json_free_loop p (json_drop {a ..< a + 1 + sum_list (map json_nodes us)}
      {b ..< ?c + sum_list (map json_blocks us)} s)"
  proof (cases "us = []")
    case True
    have "json_drop {a ..< a + 1} {b ..< b} s = ?t\<lparr>js_values := (js_values ?t)(a := None)\<rparr>"
      using True by (cases s) (auto simp: json_drop_def set_value_def restrict_map_def fun_eq_iff)
    then show ?thesis
      using True x by (simp add: json_free_loop.simps [of "Some a"] json_free_ptr_def json_free_value_def)
  next
    case False
    have "json_drop {a ..< a + 1 + sum_list (map json_nodes us)} {b ..< ?c + sum_list (map json_blocks us)} s =
        ?t\<lparr>js_blocks := (js_blocks ?t)(b := None), js_values := (js_values ?t)(a := None)\<rparr>"
      using False by (cases s) (auto simp: json_drop_def set_value_def restrict_map_def fun_eq_iff)
    moreover have "js_blocks ?t b \<noteq> None" using False tb by (simp add: restrict_map_def)
    ultimately show ?thesis
      using False x by (auto simp: json_free_loop.simps [of "Some a"] json_free_ptr_def json_free_value_def)
  qed
  finally show ?thesis .
qed

lemma stored_members_list: "stored_members H M p a b ms = stored_list H M p a b (map snd ms)"
  by (induction ms arbitrary: a b) auto

lemma member_values: "map je_value (member_entries i a ms) = map Some (child_addresses a (map snd ms))"
  by (induction ms arbitrary: i a) auto

lemma free_stored: "free_returns v"
proof (induction v rule: json.induct)
  case (JArray vs)
  show ?case
    unfolding free_returns_def
  proof (intro allI impI)
    fix s :: json_state and p a b
    assume st: "stored (js_values s) (js_blocks s) p a b (JArray vs)"
    then obtain x where x: "js_values s a = Some x" "jv_parent x = p" "jv_type x = json_array" "jv_length x = length vs"
        "jv_ptr x = (if vs = [] then Counter 0 else Mem b)" by (auto simp: node_is_def)
    show "json_free_loop (Some a) s =
        json_free_loop p (json_drop {a ..< a + json_nodes (JArray vs)} {b ..< b + json_blocks (JArray vs)} s)"
      using free_container [OF JArray x(1,2) _ x(4,5), where cl = "map Some (child_addresses (a + 1) vs)"
          and blk = "Pointers (map Some (child_addresses (a + 1) vs))"] st x(3)
      by (simp add: child_table_def add.assoc)
  qed
next
  case (JObject ms)
  show ?case
    unfolding free_returns_def
  proof (intro allI impI)
    fix s :: json_state and p a b
    assume st: "stored (js_values s) (js_blocks s) p a b (JObject ms)"
    then obtain x where x: "js_values s a = Some x" "jv_parent x = p" "jv_type x = json_object" "jv_length x = length ms"
        "jv_ptr x = (if ms = [] then Counter 0 else Mem b)" by (auto simp: node_is_def)
    have ch: "u \<in> set (map snd ms) \<Longrightarrow> free_returns u" for u using JObject by force
    have "json_free_loop (Some a) s = json_free_loop p
        (json_drop {a ..< a + 1 + sum_list (map json_nodes (map snd ms))}
          {b ..< b + (if map snd ms = [] then 0 else 1) + sum_list (map json_blocks (map snd ms))} s)"
    proof (rule free_container [OF ch x(1,2)])
      show "map snd ms \<noteq> [] \<Longrightarrow> js_blocks s b = Some (Members (member_entries 0 (a + 1) ms) (map Some (names_bytes ms)))
          \<and> child_table x (Members (member_entries 0 (a + 1) ms) (map Some (names_bytes ms)))
            = Some (map Some (child_addresses (a + 1) (map snd ms)))
          \<and> map Some (child_addresses (a + 1) (map snd ms)) = map Some (child_addresses (a + 1) (map snd ms))"
        using st x(3) by (simp add: child_table_def member_values)
      show "stored_list (js_values s) (js_blocks s) (Some a) (a + 1) (b + (if map snd ms = [] then 0 else 1)) (map snd ms)"
        using st by (simp add: stored_members_list)
    qed (use x in simp_all)
    then show "json_free_loop (Some a) s =
        json_free_loop p (json_drop {a ..< a + json_nodes (JObject ms)} {b ..< b + json_blocks (JObject ms)} s)"
      by (simp add: comp_def add.assoc)
  qed
qed (unfold free_returns_def, auto simp: node_is_def intro: free_leaf [where k = 0, simplified] free_leaf [where k = 1, simplified])

theorem value_free_stored:
  assumes "stored (js_values s) (js_blocks s) None a b v"
  shows "json_value_free_ex (Some a) s = Some (Proceed (json_drop {a ..< a + json_nodes v} {b ..< b + json_blocks v} s))"
proof -
  obtain x where x: "js_values s a = Some x" "jv_parent x = None" using stored_parent [OF assms] by auto
  then have "set_value a (x\<lparr>jv_parent := None\<rparr>) s = s" by (cases s; cases x) (auto simp: set_value_def)
  then have "json_value_free_ex (Some a) s = json_free_loop (Some a) s" using x by (simp add: json_value_free_ex_def)
  also have "\<dots> = json_free_loop None (json_drop {a ..< a + json_nodes v} {b ..< b + json_blocks v} s)"
    using free_stored [of v] assms by (simp add: free_returns_def)
  finally show ?thesis by (simp add: json_free_loop.simps)
qed

section \<open>From the first pass to the second\<close>

lemma counted_objects:
  "counted H p a v \<Longrightarrow> a \<le> i \<Longrightarrow> i < a + json_nodes v \<Longrightarrow> H i = Some x \<Longrightarrow>
     jv_type x = json_object \<Longrightarrow> jv_length x = 0 \<Longrightarrow> jv_ptr x = Counter 0"
  "counted_list H p a vs \<Longrightarrow> a \<le> i \<Longrightarrow> i < a + sum_list (map json_nodes vs) \<Longrightarrow> H i = Some x \<Longrightarrow>
     jv_type x = json_object \<Longrightarrow> jv_length x = 0 \<Longrightarrow> jv_ptr x = Counter 0"
  "counted_members H p a ms \<Longrightarrow> a \<le> i \<Longrightarrow> i < a + sum_list (map (\<lambda>m. json_nodes (snd m)) ms) \<Longrightarrow> H i = Some x \<Longrightarrow>
     jv_type x = json_object \<Longrightarrow> jv_length x = 0 \<Longrightarrow> jv_ptr x = Counter 0"
proof (induction H p a v and H p a vs and H p a ms rule: counted_counted_list_counted_members.induct)
  case (1 H p a vs)
  then show ?case by (cases "i = a") (auto simp: node_is_def)
next
  case (2 H p a ms)
  then show ?case by (cases "i = a") (auto simp: node_is_def)
next
  case (9 H p a v vs)
  then show ?case by (cases "i < a + json_nodes v") (auto simp: add.assoc)
next
  case (11 H p a k v ms)
  then show ?case by (cases "i < a + json_nodes v") (auto simp: add.assoc)
qed (auto simp: node_is_def le_less_Suc_eq)

lemma second_env_start:
  assumes ch: "chain_ok s" and n: "js_next s = json_nodes v" and c: "counted (js_values s) None 0 v"
    and b: "24 * json_nodes v < 2 ^ 31" "json_chars v \<le> uint_max"
    and mx: "jx_max_memory env = 0" and m: "\<And>i. json_nodes v \<le> i \<Longrightarrow> jx_malloc env i"
  shows "second_env env (json_nodes v) (js_values s)"
proof -
  have dom: "a < json_nodes v" if "js_values s a = Some x" for a x using ch n that by (auto simp: chain_ok_def)
  have "heap_bounds (js_values s)"
    unfolding heap_bounds_def
  proof (intro allI impI)
    fix a x
    assume x: "js_values s a = Some x"
    from counted_bounds(1) [OF c _ _ x] dom [OF x] b
    show "(jv_type x = json_array \<or> jv_type x = json_object \<longrightarrow> 24 * jv_length x < 2 ^ 31)
        \<and> (jv_type x = json_string \<longrightarrow> jv_length x \<le> uint_max)
        \<and> (jv_type x = json_object \<longrightarrow> (\<forall>n. jv_ptr x = Counter n \<longrightarrow> n \<le> uint_max))" by fastforce
  qed
  moreover have "jv_type x = json_object \<Longrightarrow> jv_length x = 0 \<Longrightarrow> jv_ptr x = Counter 0" if "js_values s a = Some x" for a x
    using counted_objects(1) [OF c _ _ that] dom [OF that] by simp
  moreover have "jv_reserved x = Next_alloc (if a + 1 < json_nodes v then Some (a + 1) else None)"
    if "js_values s a = Some x" for a x
    using ch n that by (simp add: chain_ok_def)
  ultimately show ?thesis using mx m by (simp add: second_env_def)
qed

lemma second_rel_start:
  assumes ch: "chain_ok s" and n: "js_next s = json_nodes v"
  shows "second_rel (json_nodes v) (js_values s) spec_initial
    (json_start_pass (s\<lparr>js_alloc := js_root s, js_first_pass := False\<rparr>))"
  using assms json_nodes_pos [of v]
  by (auto simp: second_rel_def second_ok_def chain_ok_def json_start_pass_def spec_initial_def)

lemma first_rel_start: "first_rel spec_initial (json_start_pass json_initial)"
  by (simp add: first_rel_def chain_ok_def json_start_pass_def json_initial_def spec_initial_def)

lemma spec_ok_start: "0 \<le> stop \<Longrightarrow> spec_ok stop spec_initial"
  by (simp add: spec_ok_def spec_initial_def)

lemma spec_small_start: "0 \<le> stop \<Longrightarrow> spec_small (8 * nat stop + 3) stop spec_initial"
  by (simp add: spec_small_def spec_initial_def spec_measure_def spec_rank_def)

section \<open>\<open>json_parse_ex\<close>\<close>

definition json_empty :: "json_state \<Rightarrow> bool" where
  "json_empty s \<longleftrightarrow> js_values s = Map.empty \<and> js_blocks s = Map.empty"

text \<open>The value \<open>v\<close> is all that is allocated, its root at 0.\<close>

definition json_holds :: "json \<Rightarrow> json_state \<Rightarrow> bool" where
  "json_holds v s \<longleftrightarrow> stored (js_values s) (js_blocks s) None 0 (json_nodes v) v
     \<and> dom (js_values s) = {..<json_nodes v} \<and> dom (js_blocks s) = {json_nodes v ..< json_nodes v + json_blocks v}"

lemma first_pass_start:
  assumes t: "spec_text (jx_json env) (jx_end env)" and l: "jx_end env \<le> 2 ^ 23" and mx: "jx_max_memory env = 0"
  shows "\<exists>x y. spec_run (jx_json env) (jx_end env) (jx_comments env) spec_initial = Some x
    \<and> json_loop env (json_start_pass json_initial) = Some y \<and> first_end env x y"
proof -
  have e: "0 \<le> jx_end env" using t by (simp add: spec_text_def)
  have k: "4 * (8 * nat (jx_end env) + 3) \<le> uint_max" using l by (simp add: uint_max_def)
  have c: "sp_comment spec_initial \<noteq> No_comment \<longrightarrow> jx_comments env" by (simp add: spec_initial_def)
  show ?thesis by (rule first_pass [OF t mx k first_rel_start spec_ok_start [OF e] c spec_small_start [OF e]])
qed

lemma first_failure:
  assumes "first_end env x (Fail e s)"
  shows "\<exists>s'. json_failed e s = Some (Rejected e s') \<and> json_empty s' \<and> js_cur_line s' = js_cur_line s \<and> js_next s' = js_next s"
proof -
  have ch: "chain_ok s" using assms by (simp add: first_end_def)
  then have "js_first_pass s" "js_blocks s = Map.empty" by (simp_all add: chain_ok_def)
  then show ?thesis using free_chain_ok [OF ch] by (simp add: json_failed_def json_empty_def)
qed

lemma json_passes_result:
  assumes t: "spec_text (jx_json env) (jx_end env)" and l: "jx_end env \<le> 2 ^ 23" and mx: "jx_max_memory env = 0"
    and m: "\<And>i. jx_malloc env i"
  shows "case spec_run (jx_json env) (jx_end env) (jx_comments env) spec_initial of
      Some (Accept v) \<Rightarrow> \<exists>s. json_passes env = Some (Parsed 0 s) \<and> json_holds v s
    | Some (Reject e line) \<Rightarrow> \<exists>s. json_passes env = Some (Rejected e s) \<and> js_cur_line s = line \<and> json_empty s
    | _ \<Rightarrow> False"
proof -
  have e: "0 \<le> jx_end env" using t by (simp add: spec_text_def)
  obtain x y where xy: "spec_run (jx_json env) (jx_end env) (jx_comments env) spec_initial = Some x"
      "json_loop env (json_start_pass json_initial) = Some y" "first_end env x y"
    using first_pass_start [OF t l mx] by blast
  show ?thesis
  proof (cases y)
    case (Fail err s)
    then have "x = Reject err (js_cur_line s)" using xy(3) m by (simp add: first_end_def)
    then show ?thesis using xy first_failure [of env x err s] Fail by (auto simp: json_passes_def)
  next
    case (Break s)
    then obtain v where v: "x = Accept v" "chain_ok s" "js_next s = json_nodes v" "counted (js_values s) None 0 v"
      using xy(3) by (auto simp: first_end_def)
    have "json_nodes v \<le> 8 * nat (jx_end env) + 3 \<and> json_chars v \<le> 4 * (8 * nat (jx_end env) + 3)"
      by (rule spec_run_bounds [OF t spec_ok_start [OF e] spec_small_start [OF e] xy(1) [unfolded v(1)]])
    moreover have "nat (jx_end env) \<le> 2 ^ 23" using l by simp
    ultimately have "24 * json_nodes v < 2 ^ 31" "json_chars v \<le> uint_max" by (simp_all add: uint_max_def)
    then have env: "second_env env (json_nodes v) (js_values s)" by (rule second_env_start [OF v(2-4) _ _ mx m])
    let ?s = "json_start_pass (s\<lparr>js_alloc := js_root s, js_first_pass := False\<rparr>)"
    obtain s' where s': "json_loop env ?s = Some (Break s')" "stored (js_values s') (js_blocks s') None 0 (json_nodes v) v"
        "js_next s' = json_nodes v + json_blocks v" "second_ok (json_nodes v) (js_values s) (json_nodes v) s'"
      using second_pass [OF t env v(4) _ second_rel_start [OF v(2,3)] spec_ok_start [OF e]] xy(1) v(1)
      by (auto simp: second_done_def spec_initial_def)
    have "js_root s' = Some 0" "dom (js_values s') = {..<json_nodes v}"
      "dom (js_blocks s') = {json_nodes v ..< json_nodes v + json_blocks v}"
      using s'(3,4) json_nodes_pos [of v] by (auto simp: second_ok_def dom_def)
    then show ?thesis
      using xy v(1) Break s'(1,2) by (simp add: json_passes_def json_second_pass_def json_holds_def)
  qed (use xy(3) in \<open>simp_all add: first_end_def\<close>)
qed

lemma json_environment_text:
  "jx_json (json_environment st (txt @ [0]) (length txt)) = (if json_bom txt then drop 3 txt else txt) @ [0]"
  "jx_end (json_environment st (txt @ [0]) (length txt)) = int (length (if json_bom txt then drop 3 txt else txt))"
  "jx_comments (json_environment st (txt @ [0]) (length txt)) = st_enable_comments st"
  "jx_max_memory (json_environment st (txt @ [0]) (length txt)) = st_max_memory st"
  "jx_malloc (json_environment st (txt @ [0]) (length txt)) = st_malloc st"
  by (auto simp: json_environment_def Let_def json_bom_def)

lemma spec_text_nul: "spec_text (txt @ [0]) (int (length txt))"
  by (simp add: spec_text_def json_peek_def nth_append)

theorem json_parse_ex_reference:
  assumes "length txt \<le> 2 ^ 23" "st_max_memory st = 0" "\<And>n. st_malloc st n"
  shows "case json_reference (st_enable_comments st) txt of
      Some (Accept v) \<Rightarrow> \<exists>s. json_parse_ex st (txt @ [0]) (length txt) = Some (Parsed 0 s) \<and> json_holds v s
    | Some (Reject e line) \<Rightarrow> \<exists>s. json_parse_ex st (txt @ [0]) (length txt) = Some (Rejected e s) \<and> js_cur_line s = line
        \<and> json_empty s
    | _ \<Rightarrow> False"
proof -
  let ?env = "json_environment st (txt @ [0]) (length txt)" let ?t = "if json_bom txt then drop 3 txt else txt"
  have "spec_text (jx_json ?env) (jx_end ?env)" unfolding json_environment_text by (rule spec_text_nul)
  moreover have "jx_end ?env \<le> 2 ^ 23" using assms(1) by (auto simp: json_environment_text)
  ultimately show ?thesis
    using json_passes_result [of ?env] assms(2,3)
    by (simp only: json_environment_text json_reference_def json_parse_ex_def Let_def)
qed

theorem json_first_pass_failure:
  assumes "length txt \<le> 2 ^ 23" "st_max_memory st = 0"
    and "json_loop (json_environment st (txt @ [0]) (length txt)) (json_start_pass json_initial) = Some (Fail e s)"
  shows "\<exists>s'. json_parse_ex st (txt @ [0]) (length txt) = Some (Rejected e s') \<and> json_empty s'
    \<and> (json_reference (st_enable_comments st) txt = Some (Reject e (js_cur_line s'))
       \<or> e = Memory_allocation_failure \<and> \<not> st_malloc st (js_next s'))"
proof -
  let ?env = "json_environment st (txt @ [0]) (length txt)"
  have "spec_text (jx_json ?env) (jx_end ?env)" "jx_end ?env \<le> 2 ^ 23" "jx_max_memory ?env = 0"
    using assms(1,2) spec_text_nul by (auto simp: json_environment_text)
  from first_pass_start [OF this] obtain x where x: "json_reference (st_enable_comments st) txt = Some x"
      "first_end ?env x (Fail e s)"
    using assms(3) by (auto simp: json_environment_text json_reference_def)
  obtain s' where "json_failed e s = Some (Rejected e s')" "json_empty s'" "js_cur_line s' = js_cur_line s" "js_next s' = js_next s"
    using first_failure [OF x(2)] by blast
  then show ?thesis
    using x assms(3) by (auto simp: json_parse_ex_def json_passes_def first_end_def json_environment_text)
qed

theorem json_value_free_all:
  assumes "json_holds v s"
  shows "\<exists>s'. json_value_free (Some 0) s = Some (Proceed s') \<and> json_empty s'"
proof -
  let ?s = "json_drop {0 ..< 0 + json_nodes v} {json_nodes v ..< json_nodes v + json_blocks v} s"
  have "json_value_free (Some 0) s = Some (Proceed ?s)"
    unfolding json_value_free_def by (rule value_free_stored) (use assms in \<open>simp add: json_holds_def\<close>)
  moreover have "js_values ?s = Map.empty"
  proof
    fix a show "js_values ?s a = None"
      using assms by (cases "a \<in> dom (js_values s)") (auto simp: json_holds_def restrict_map_def)
  qed
  moreover have "js_blocks ?s = Map.empty"
  proof
    fix a show "js_blocks ?s a = None"
      using assms by (cases "a \<in> dom (js_blocks s)") (auto simp: json_holds_def restrict_map_def)
  qed
  ultimately show ?thesis by (simp add: json_empty_def)
qed

end
