(* ===== verification/JsonPrint.thy ===== *)
theory JsonPrint
  imports JsonParse
begin

text \<open>
  A printer of values, and the proof that the reference parser reads back what it prints: every value that has no
  floating-point number, with every byte in its strings.
\<close>

section \<open>The printer\<close>

fun decimal :: "nat \<Rightarrow> bytes" where
  "decimal n = (if n < 10 then [] else decimal (n div 10)) @ [word_of_nat (48 + n mod 10)]"

declare decimal.simps [simp del]

definition print_integer :: "64 word \<Rightarrow> bytes" where
  "print_integer i = (if sint i < 0 then chr CHR ''-'' # decimal (nat (- sint i)) else decimal (nat (sint i)))"

definition print_byte :: "byte \<Rightarrow> bytes" where
  "print_byte b =
    (if b = 0 then chr CHR 0x5C # cstr ''u0000''
     else if b = chr CHR 0x22 \<or> b = chr CHR 0x5C then [chr CHR 0x5C, b] else [b])"

definition print_string :: "bytes \<Rightarrow> bytes" where
  "print_string cs = chr CHR 0x22 # concat (map print_byte cs) @ [chr CHR 0x22]"

fun join_commas :: "bytes list \<Rightarrow> bytes" where
  "join_commas [] = []"
| "join_commas [x] = x"
| "join_commas (x # y # xs) = x @ chr CHR '','' # join_commas (y # xs)"

fun json_print :: "json \<Rightarrow> bytes" where
  "json_print (JObject ms) =
     chr CHR ''{'' # join_commas (map (\<lambda>m. print_string (fst m) @ chr CHR '':'' # json_print (snd m)) ms) @ [chr CHR ''}'']"
| "json_print (JArray vs) = chr CHR ''['' # join_commas (map json_print vs) @ [chr CHR '']'']"
| "json_print (JInteger i) = print_integer i"
| "json_print (JDouble d) = []"
| "json_print (JString cs) = print_string cs"
| "json_print (JBoolean b) = (if b then cstr ''true'' else cstr ''false'')"
| "json_print JNull = cstr ''null''"

fun no_doubles :: "json \<Rightarrow> bool" where
  "no_doubles (JObject ms) \<longleftrightarrow> (\<forall>m\<in>set ms. no_doubles (snd m))"
| "no_doubles (JArray vs) \<longleftrightarrow> (\<forall>v\<in>set vs. no_doubles v)"
| "no_doubles (JDouble d) \<longleftrightarrow> False"
| "no_doubles _ \<longleftrightarrow> True"

section \<open>Reading at a position\<close>

definition text_at :: "bytes \<Rightarrow> int \<Rightarrow> bytes \<Rightarrow> bool" where
  "text_at T p xs \<longleftrightarrow> (\<exists>pre post. T = pre @ xs @ post \<and> p = int (length pre))"

lemma text_at_Cons:
  assumes "text_at T p (b # xs)"
  shows "json_peek T p = Some b" "text_at T (p + 1) xs" "0 \<le> p"
proof -
  obtain pre post where T: "T = pre @ b # xs @ post" "p = int (length pre)" using assms by (auto simp: text_at_def)
  then show "json_peek T p = Some b" "0 \<le> p" by (simp_all add: json_peek_def nth_append)
  show "text_at T (p + 1) xs" unfolding text_at_def using T by (intro exI [of _ "pre @ [b]"] exI [of _ post]) simp
qed

lemma text_at_append:
  assumes "text_at T p (xs @ ys)"
  shows "text_at T p xs" "text_at T (p + int (length xs)) ys"
proof -
  obtain pre post where T: "T = pre @ xs @ ys @ post" "p = int (length pre)" using assms by (auto simp: text_at_def)
  show "text_at T p xs" unfolding text_at_def using T by (intro exI [of _ pre] exI [of _ "ys @ post"]) simp
  show "text_at T (p + int (length xs)) ys"
    unfolding text_at_def using T by (intro exI [of _ "pre @ xs"] exI [of _ post]) simp
qed

text \<open>\<open>runs_to\<close>: the parser comes from one state to another.\<close>

definition runs_to :: "bytes \<Rightarrow> int \<Rightarrow> bool \<Rightarrow> json_spec \<Rightarrow> json_spec \<Rightarrow> bool" where
  "runs_to T stop cm r r' \<longleftrightarrow> spec_run T stop cm r = spec_run T stop cm r'"

lemma runs_to_refl: "runs_to T stop cm r r"
  by (simp add: runs_to_def)

lemma runs_to_trans [trans]: "runs_to T stop cm r r' \<Longrightarrow> runs_to T stop cm r' r'' \<Longrightarrow> runs_to T stop cm r r''"
  by (simp add: runs_to_def)

lemma runs_to_step: "spec_step T stop cm r = Go r' \<Longrightarrow> runs_to T stop cm r r'"
  by (simp add: runs_to_def spec_run.simps [of T stop cm r])

lemma fetch_at:
  assumes "spec_text T stop" "json_peek T p = Some b"
  shows "(if p = stop then Some 0 else json_peek T p) = Some b"
  using assms by (auto simp: spec_text_def)

text \<open>The characters after which the printed text is not a comment.\<close>

lemma step_at:
  assumes "spec_text T stop" "json_peek T (sp_ptr r) = Some b" "sp_comment r = No_comment" "b \<noteq> chr CHR ''/''"
    "\<And>e cs. sp_mode r \<noteq> In_string e cs" "\<And>e cs. sp_mode r \<noteq> In_key e cs"
  shows "spec_step T stop cm r = spec_outside T stop b r"
  using spec_step_fetch [OF fetch_at [OF assms(1,2)]] assms(3-6) by (cases "sp_mode r") auto

section \<open>Strings\<close>

lemma print_byte_step:
  assumes t: "spec_text T stop" and len: "int (length T) = stop + 1" and a: "text_at T p (print_byte b)"
    and r: "sp_ptr r = p" "sp_mode r = M False ds" and M: "M = In_string \<or> M = In_key"
  shows "runs_to T stop cm r (r\<lparr>sp_mode := M False (ds @ [b]), sp_ptr := p + int (length (print_byte b))\<rparr>)"
proof -
  have st: "spec_step T stop cm r' = (case spec_char T stop c (sp_ptr r') e cs of
        Char_more e' cs' q \<Rightarrow> Go (r'\<lparr>sp_mode := M e' cs', sp_ptr := q + 1\<rparr>)
      | Char_closed \<Rightarrow> if M = In_string then spec_next (spec_put (JString cs) r') else spec_key_done cs r'
      | Char_error err \<Rightarrow> Reject err (sp_line r')
      | Char_stuck \<Rightarrow> Stuck)"
    if "json_peek T (sp_ptr r') = Some c" "sp_mode r' = M e cs" for r' c e cs
  proof -
    have "In_key \<noteq> In_string"
    proof
      assume "In_key = In_string"
      then have "In_key False [] = In_string False []" by simp
      then show False by simp
    qed
    then show ?thesis using spec_step_fetch [OF fetch_at [OF t that(1)]] that(2) M by (auto split: char_progress.splits)
  qed
  consider (nul) "b = 0" | (esc) "b \<noteq> 0" "b = chr CHR 0x22 \<or> b = chr CHR 0x5C"
    | (plain) "b \<noteq> 0" "b \<noteq> chr CHR 0x22" "b \<noteq> chr CHR 0x5C" by blast
  then show ?thesis
  proof cases
    case plain
    then have "json_peek T (sp_ptr r) = Some b" using a r text_at_Cons(1) [of T p b "[]"] by (simp add: print_byte_def)
    from st [OF this r(2)] show ?thesis
      using plain r by (intro runs_to_step) (simp add: spec_char_def print_byte_def)
  next
    case esc
    then have b: "text_at T p (chr CHR 0x5C # [b])" using a by (auto simp: print_byte_def)
    let ?r = "r\<lparr>sp_mode := M True ds, sp_ptr := p + 1\<rparr>"
    have "json_peek T (sp_ptr r) = Some (chr CHR 0x5C)" using text_at_Cons(1) [OF b] r(1) by simp
    from st [OF this r(2)] have "runs_to T stop cm r ?r"
      using r by (intro runs_to_step) (simp add: spec_char_def chr_def)
    also have "json_peek T (sp_ptr ?r) = Some b" using text_at_Cons(1) [OF text_at_Cons(2) [OF b]] by simp
    then have "runs_to T stop cm ?r (?r\<lparr>sp_mode := M False (ds @ [b]), sp_ptr := p + 1 + 1\<rparr>)"
      using esc st [of ?r b True ds] by (intro runs_to_step) (auto simp: spec_char_def json_escaped_def chr_def)
    finally show ?thesis using esc by (auto simp: print_byte_def add.commute)
  next
    case nul
    have b: "text_at T p (chr CHR 0x5C # cstr ''u0000'')" using a nul by (simp add: print_byte_def)
    let ?r = "r\<lparr>sp_mode := M True ds, sp_ptr := p + 1\<rparr>"
    have "json_peek T (sp_ptr r) = Some (chr CHR 0x5C)" using text_at_Cons(1) [OF b] r(1) by simp
    from st [OF this r(2)] have "runs_to T stop cm r ?r"
      using r by (intro runs_to_step) (simp add: spec_char_def chr_def)
    also
    have u: "text_at T (p + 1) [117, 48, 48, 48, 48]" using text_at_Cons(2) [OF b] by (simp add: cstr_def chr_def)
    note u1 = text_at_Cons [OF u]
    note u2 = text_at_Cons [OF u1(2)]
    note u3 = text_at_Cons [OF u2(2)]
    note u4 = text_at_Cons [OF u3(2)]
    note u5 = text_at_Cons [OF u4(2)]
    have lim: "4 \<le> stop - (p + 1)"
      using peek_bounds [OF u5(1)] len by simp
    have pk: "json_peek T (p + 1 + 1) = Some 48" "json_peek T (p + 1 + 2) = Some 48" "json_peek T (p + 1 + 3) = Some 48"
        "json_peek T (p + 1 + 4) = Some 48" using u2(1) u3(1) u4(1) u5(1) by (simp_all add: add.assoc)
    have h: "json_hex_value 48 = 0" by (simp add: json_hex_value_def json_isdigit_def chr_def)
    have "json_hex4 T (p + 1) = Scanned 0"
      unfolding json_hex4_def json_hex_def pk by (simp add: h Let_def)
    then have "json_unicode T stop (p + 1) = Scanned (0, p + 1 + 4)" using lim by (simp add: json_unicode_def)
    then have "runs_to T stop cm ?r (?r\<lparr>sp_mode := M False (ds @ [b]), sp_ptr := p + 1 + 4 + 1\<rparr>)"
      using nul st [of ?r 117 True ds] u1(1) by (intro runs_to_step) (simp add: spec_char_def chr_def json_utf8_def)
    finally show ?thesis using nul by (simp add: print_byte_def cstr_def add.commute)
  qed
qed

lemma print_bytes_run:
  assumes t: "spec_text T stop" and len: "int (length T) = stop + 1" and M: "M = In_string \<or> M = In_key"
  shows "text_at T (sp_ptr r) (concat (map print_byte cs)) \<Longrightarrow> sp_mode r = M False ds \<Longrightarrow>
    runs_to T stop cm r (r\<lparr>sp_mode := M False (ds @ cs), sp_ptr := sp_ptr r + int (length (concat (map print_byte cs)))\<rparr>)"
proof (induction cs arbitrary: r ds)
  case Nil
  then have "r\<lparr>sp_mode := M False (ds @ []), sp_ptr := sp_ptr r + int (length (concat (map print_byte [])))\<rparr> = r"
    by (cases r) simp
  then show ?case using runs_to_refl [of T stop cm r] by (simp only:)
next
  case (Cons b cs)
  let ?p = "sp_ptr r + int (length (print_byte b))"
  let ?r = "r\<lparr>sp_mode := M False (ds @ [b]), sp_ptr := ?p\<rparr>"
  have a: "text_at T (sp_ptr r) (print_byte b)" "text_at T ?p (concat (map print_byte cs))"
    using text_at_append [of T "sp_ptr r" "print_byte b"] Cons.prems(1) by simp_all
  have "runs_to T stop cm r ?r" by (rule print_byte_step [OF t len a(1) refl Cons.prems(2) M])
  also have "runs_to T stop cm ?r (?r\<lparr>sp_mode := M False ((ds @ [b]) @ cs),
      sp_ptr := sp_ptr ?r + int (length (concat (map print_byte cs)))\<rparr>)"
    by (rule Cons.IH) (use a(2) in simp_all)
  finally show ?case by (simp add: add.assoc)
qed

lemma print_string_value:
  assumes t: "spec_text T stop" and len: "int (length T) = stop + 1" and a: "text_at T (sp_ptr r) (print_string cs)"
    and r: "sp_mode r = Seeking False False" "sp_comment r = No_comment"
  shows "runs_to T stop cm r (spec_put (JString cs) (r\<lparr>sp_ptr := sp_ptr r + int (length (print_string cs))\<rparr>))"
proof -
  let ?q = "chr CHR 0x22" let ?b = "concat (map print_byte cs)"
  have a1: "text_at T (sp_ptr r) (?q # ?b @ [?q])" using a by (simp add: print_string_def)
  note a2 = text_at_append [OF text_at_Cons(2) [OF a1]]
  let ?r1 = "r\<lparr>sp_mode := In_string False [], sp_ptr := sp_ptr r + 1\<rparr>"
  have "spec_outside T stop ?q r = Go ?r1"
    using r by (simp add: spec_outside_def spec_seek_def spec_start_def spec_next_def json_whitespace_def chr_def)
  then have "runs_to T stop cm r ?r1"
    using step_at [OF t text_at_Cons(1) [OF a1] r(2)] r(1) by (intro runs_to_step) (simp add: chr_def)
  also let ?r2 = "?r1\<lparr>sp_mode := In_string False ([] @ cs), sp_ptr := sp_ptr ?r1 + int (length ?b)\<rparr>"
  have "runs_to T stop cm ?r1 ?r2" by (rule print_bytes_run [OF t len]) (use a2(1) in simp_all)
  also have pk: "json_peek T (sp_ptr ?r2) = Some ?q" using text_at_Cons(1) [OF a2(2)] by simp
  have "spec_step T stop cm ?r2 = Go (spec_put (JString cs) (r\<lparr>sp_ptr := sp_ptr r + int (length (print_string cs))\<rparr>))"
    using spec_step_fetch [OF fetch_at [OF t pk], of cm]
    by (simp add: spec_char_def chr_def spec_next_def spec_put_def print_string_def)
  then have "runs_to T stop cm ?r2 (spec_put (JString cs) (r\<lparr>sp_ptr := sp_ptr r + int (length (print_string cs))\<rparr>))"
    by (rule runs_to_step)
  finally show ?thesis .
qed

lemma print_string_key:
  assumes t: "spec_text T stop" and len: "int (length T) = stop + 1"
    and a: "text_at T (sp_ptr r) (print_string k @ [chr CHR '':''])"
    and r: "sp_mode r = In_members False" "sp_comment r = No_comment" "sp_stack r = In_object ms k0 # st"
  shows "runs_to T stop cm r (r\<lparr>sp_mode := Seeking False False, sp_stack := In_object ms k # st,
    sp_ptr := sp_ptr r + int (length (print_string k)) + 1\<rparr>)"
proof -
  let ?q = "chr CHR 0x22" let ?b = "concat (map print_byte k)" let ?c = "chr CHR '':''"
  have a1: "text_at T (sp_ptr r) (?q # ?b @ [?q, ?c])" using a by (simp add: print_string_def)
  note a2 = text_at_append [OF text_at_Cons(2) [OF a1]]
  let ?r1 = "r\<lparr>sp_mode := In_key False [], sp_ptr := sp_ptr r + 1\<rparr>"
  have "spec_outside T stop ?q r = Go ?r1"
    using r by (simp add: spec_outside_def spec_members_def spec_next_def json_whitespace_def chr_def)
  then have "runs_to T stop cm r ?r1"
    using step_at [OF t text_at_Cons(1) [OF a1] r(2)] r(1) by (intro runs_to_step) (simp add: chr_def)
  also let ?r2 = "?r1\<lparr>sp_mode := In_key False ([] @ k), sp_ptr := sp_ptr ?r1 + int (length ?b)\<rparr>"
  have "runs_to T stop cm ?r1 ?r2" by (rule print_bytes_run [OF t len]) (use a2(1) in simp_all)
  also have pk: "json_peek T (sp_ptr ?r2) = Some ?q" using text_at_Cons(1) [OF a2(2)] by simp
  let ?r3 = "r\<lparr>sp_mode := Seeking False True, sp_stack := In_object ms k # st, sp_ptr := sp_ptr r + int (length (print_string k))\<rparr>"
  have "spec_step T stop cm ?r2 = Go ?r3"
    using spec_step_fetch [OF fetch_at [OF t pk], of cm] r(3)
    by (simp add: spec_char_def chr_def spec_next_def spec_key_done_def print_string_def)
  then have "runs_to T stop cm ?r2 ?r3" by (rule runs_to_step)
  also have pk3: "json_peek T (sp_ptr ?r3) = Some ?c"
    using text_at_Cons(1) [OF text_at_Cons(2) [OF a2(2)]] by (simp add: print_string_def add_ac)
  let ?r4 = "r\<lparr>sp_mode := Seeking False False, sp_stack := In_object ms k # st, sp_ptr := sp_ptr r + int (length (print_string k)) + 1\<rparr>"
  have "spec_outside T stop ?c ?r3 = Go ?r4"
    by (simp add: spec_outside_def spec_seek_def spec_next_def json_whitespace_def chr_def)
  then have "runs_to T stop cm ?r3 ?r4"
    using step_at [OF t pk3] r(2) by (intro runs_to_step) (simp add: chr_def)
  finally show ?thesis .
qed

section \<open>Numbers\<close>

lemma decimal_digit: "json_isdigit (word_of_nat (48 + d))" "(word_of_nat (48 + d) :: byte) - chr CHR ''0'' = word_of_nat d"
    "(word_of_nat (48 + d) :: byte) = chr CHR ''0'' \<longleftrightarrow> d = 0" "(word_of_nat (48 + d) :: byte) \<noteq> chr CHR ''/''" if "d < 10"
proof -
  have u: "unat (word_of_nat (48 + d) :: byte) = 48 + d" using that by (simp only: unat_of_nat) simp
  show "json_isdigit (word_of_nat (48 + d))" using u that by (simp add: json_isdigit_def word_le_nat_alt chr_def)
  show "(word_of_nat (48 + d) :: byte) - chr CHR ''0'' = word_of_nat d" by (simp add: chr_def)
  show "(word_of_nat (48 + d) :: byte) = chr CHR ''0'' \<longleftrightarrow> d = 0"
    using u arg_cong [of "word_of_nat (48 + d)" "chr CHR ''0''" unat] by (auto simp: chr_def)
  show "(word_of_nat (48 + d) :: byte) \<noteq> chr CHR ''/''"
    using u arg_cong [of "word_of_nat (48 + d)" "chr CHR ''/''" unat] by (auto simp: chr_def)
qed

lemma decimal_not_Nil: "decimal m \<noteq> []"
  by (simp add: decimal.simps)

definition number_read :: "bool \<Rightarrow> nat \<Rightarrow> json_number" where
  "number_read neg m = (new_number neg)\<lparr>nm_digits := length (decimal m), nm_int := word_of_nat m, nm_zero := (m = 0)\<rparr>"

lemma decimal_run:
  assumes t: "spec_text T stop" and a: "text_at T (sp_ptr r) (decimal m)"
    and r: "sp_mode r = In_number (new_number neg)" "sp_comment r = No_comment"
  shows "runs_to T stop cm r (r\<lparr>sp_mode := In_number (number_read neg m), sp_ptr := sp_ptr r + int (length (decimal m))\<rparr>)"
  using a
proof (induction m rule: less_induct)
  case (less m)
  let ?d = "word_of_nat (48 + m mod 10) :: byte"
  have d: "m mod 10 < 10" by simp
  note dd = decimal_digit [OF d]
  have uc: "(ucast (word_of_nat (m mod 10) :: byte) :: 64 word) = word_of_nat (m mod 10)"
    by (simp add: unsigned_of_nat take_bit_nat_eq_self)
  show ?case
  proof (cases "m < 10")
    case True
    then have dec: "decimal m = [?d]" by (simp add: decimal.simps [of m])
    have "number_step ?d (new_number neg) = Number_more (number_read neg m)"
      using True dd(1-3) uc by (simp add: number_step_def number_digit_def new_number_def number_read_def dec)
    then have "spec_outside T stop ?d r = Go (r\<lparr>sp_mode := In_number (number_read neg m), sp_ptr := sp_ptr r + 1\<rparr>)"
      using r(1) by (simp add: spec_outside_def spec_next_def)
    moreover have "json_peek T (sp_ptr r) = Some ?d" using text_at_Cons(1) less.prems dec by simp
    ultimately show ?thesis
      using step_at [OF t _ r(2) dd(4)] r(1) dec by (intro runs_to_step) simp
  next
    case False
    let ?q = "m div 10"
    have dec: "decimal m = decimal ?q @ [?d]" using False by (simp add: decimal.simps [of m])
    note a = text_at_append [OF less.prems [unfolded dec]]
    let ?r1 = "r\<lparr>sp_mode := In_number (number_read neg ?q), sp_ptr := sp_ptr r + int (length (decimal ?q))\<rparr>"
    have run1: "runs_to T stop cm r ?r1" by (rule less.IH) (use False a(1) in simp_all)
    have "?q \<noteq> 0" using False by simp
    moreover have "(word_of_nat m :: 64 word) = word_of_nat ?q * 10 + word_of_nat (m mod 10)"
      by (metis of_nat_add of_nat_mult of_nat_numeral div_mult_mod_eq)
    ultimately have "number_step ?d (number_read neg ?q) = Number_more (number_read neg m)"
      using False dd(1-3) uc decimal_not_Nil [of ?q]
      by (simp add: number_step_def number_digit_def new_number_def number_read_def dec)
    then have "spec_outside T stop ?d ?r1 = Go (r\<lparr>sp_mode := In_number (number_read neg m), sp_ptr := sp_ptr r + int (length (decimal m))\<rparr>)"
      by (simp add: spec_outside_def spec_next_def dec)
    moreover have "json_peek T (sp_ptr ?r1) = Some ?d" using text_at_Cons(1) [OF a(2)] by simp
    ultimately have "runs_to T stop cm ?r1 (r\<lparr>sp_mode := In_number (number_read neg m), sp_ptr := sp_ptr r + int (length (decimal m))\<rparr>)"
      using step_at [OF t _ _ dd(4), of ?r1] r(2) by (intro runs_to_step) simp
    with run1 show ?thesis by (rule runs_to_trans)
  qed
qed

text \<open>What may follow a printed value.\<close>

definition value_follower :: "byte \<Rightarrow> bool" where
  "value_follower c \<longleftrightarrow> c \<in> {0, chr CHR '','', chr CHR '']'', chr CHR ''}''}"

lemma number_end_run:
  assumes t: "spec_text T stop" and pk: "json_peek T (sp_ptr r) = Some c" "value_follower c"
    and r: "sp_mode r = In_number (number_read neg m)" "sp_comment r = No_comment"
  shows "runs_to T stop cm r (spec_put (JInteger (if neg then - word_of_nat m else word_of_nat m)) r)"
proof -
  have c: "\<not> json_isdigit c" "c \<noteq> chr CHR ''.''" "c \<noteq> chr CHR ''e''" "c \<noteq> chr CHR ''E''" "c \<noteq> chr CHR ''/''"
    using pk(2) by (auto simp: value_follower_def json_isdigit_def chr_def)
  have "number_step c (number_read neg m) = Number_end (JInteger (if neg then - word_of_nat m else word_of_nat m))"
    using c by (simp add: number_step_def number_after_digits_def number_read_def new_number_def number_result_def Let_def)
  then have "spec_outside T stop c r = Go (spec_put (JInteger (if neg then - word_of_nat m else word_of_nat m)) r)"
    using r(1) by (simp add: spec_outside_def)
  then show ?thesis using step_at [OF t pk(1) r(2) c(5)] r(1) by (intro runs_to_step) simp
qed

lemma decimal_hd: "json_isdigit (hd (decimal m))" "hd (decimal m) \<noteq> chr CHR ''/''"
proof -
  have "\<exists>d<10. hd (decimal m) = word_of_nat (48 + d)"
  proof (induction m rule: less_induct)
    case (less m)
    show ?case
    proof (cases "m < 10")
      case False
      then show ?thesis using less.IH [of "m div 10"] decimal_not_Nil [of "m div 10"] by (simp add: decimal.simps [of m] hd_append)
    qed (auto simp: decimal.simps [of m])
  qed
  then obtain d where "d < 10" "hd (decimal m) = word_of_nat (48 + d)" by blast
  then show "json_isdigit (hd (decimal m))" "hd (decimal m) \<noteq> chr CHR ''/''" using decimal_digit(1,4) by auto
qed

lemma print_integer_value:
  assumes t: "spec_text T stop" and a: "text_at T (sp_ptr r) (print_integer i @ [c])" and c: "value_follower c"
    and r: "sp_mode r = Seeking False False" "sp_comment r = No_comment"
  shows "runs_to T stop cm r (spec_put (JInteger i) (r\<lparr>sp_ptr := sp_ptr r + int (length (print_integer i))\<rparr>))"
proof -
  define neg where "neg = (sint i < 0)"
  define m where "m = nat \<bar>sint i\<bar>"
  have pi: "print_integer i = (if neg then [chr CHR ''-''] else []) @ decimal m"
    by (simp add: print_integer_def neg_def m_def)
  have val: "(if neg then - word_of_nat m else word_of_nat m) = i"
  proof -
    have "(if neg then - int m else int m) = sint i" by (simp add: neg_def m_def)
    then have "(of_int (if neg then - int m else int m) :: 64 word) = of_int (sint i)" by simp
    then show ?thesis by (simp split: if_splits)
  qed
  let ?p = "sp_ptr r + (if neg then 1 else 0)"
  have a1: "text_at T ?p (decimal m @ [c])" using text_at_append(2) [OF a [unfolded pi append.assoc]] by (simp split: if_splits)
  note a2 = text_at_append [OF a1]
  let ?r1 = "r\<lparr>sp_mode := In_number (new_number neg), sp_ptr := ?p\<rparr>"
  have "runs_to T stop cm r ?r1"
  proof (cases neg)
    case True
    have pk: "json_peek T (sp_ptr r) = Some (chr CHR ''-'')" using a True pi text_at_Cons(1) [of T "sp_ptr r" "chr CHR ''-''"] by simp
    have "spec_outside T stop (chr CHR ''-'') r = Go ?r1"
      using r True by (simp add: spec_outside_def spec_seek_def spec_start_def spec_next_def json_whitespace_def json_isdigit_def chr_def)
    then show ?thesis using step_at [OF t pk r(2)] r(1) by (intro runs_to_step) (simp add: chr_def)
  next
    case False
    let ?h = "hd (decimal m)"
    obtain h hs where dm: "decimal m = h # hs" using decimal_not_Nil [of m] by (cases "decimal m") auto
    then have pk: "json_peek T (sp_ptr r) = Some ?h" using a1 False text_at_Cons(1) [of T "sp_ptr r" h] by simp
    have nd: "?h \<notin> {10, 32, 9, 13, chr CHR '']'', chr CHR ''{'', chr CHR ''['', chr CHR 0x22, chr CHR ''t'', chr CHR ''f'',
        chr CHR ''n'', chr CHR ''-''}"
      using decimal_hd(1) [of m] by (auto simp: json_isdigit_def chr_def)
    have "spec_outside T stop ?h r = Go ?r1"
      using r False nd decimal_hd(1) [of m]
      by (cases r) (simp add: spec_outside_def spec_seek_def spec_start_def json_whitespace_def)
    then show ?thesis using step_at [OF t pk r(2) decimal_hd(2)] r(1) by (intro runs_to_step) simp
  qed
  also let ?r2 = "?r1\<lparr>sp_mode := In_number (number_read neg m), sp_ptr := sp_ptr ?r1 + int (length (decimal m))\<rparr>"
  have "runs_to T stop cm ?r1 ?r2" by (rule decimal_run [OF t]) (use a2(1) r(2) in simp_all)
  also have "json_peek T (sp_ptr ?r2) = Some c" using text_at_Cons(1) [OF a2(2)] by simp
  then have "runs_to T stop cm ?r2 (spec_put (JInteger i) ?r2)"
    using number_end_run [OF t _ c, of ?r2 neg m cm] r(2) val by simp
  finally show ?thesis using pi by (cases neg) (simp_all add: spec_put_def add.assoc)
qed

lemma print_literal_value:
  assumes t: "spec_text T stop" and len: "int (length T) = stop + 1" and a: "text_at T (sp_ptr r) (b # rest)"
    and r: "sp_mode r = Seeking False False" "sp_comment r = No_comment"
    and b: "b \<notin> {10, 32, 9, 13, chr CHR '']'', chr CHR ''/''}" "0 \<notin> set rest"
    and s: "spec_start T stop b r = spec_literal T stop rest w r"
  shows "runs_to T stop cm r (spec_put w (r\<lparr>sp_ptr := sp_ptr r + int (length (b # rest))\<rparr>))"
proof -
  have ex: "text_at T (p + 1) xs \<Longrightarrow> 0 \<le> p \<Longrightarrow> json_expect T p xs = Scanned ()" for p xs
  proof (induction xs arbitrary: p)
    case (Cons x xs)
    then show ?case using text_at_Cons [OF Cons.prems(1)] by simp
  qed simp
  note a1 = text_at_Cons [OF a]
  obtain pre post where T: "T = pre @ (b # rest) @ post" "sp_ptr r = int (length pre)" using a by (auto simp: text_at_def)
  have lim: "int (length rest) \<le> stop - sp_ptr r"
    using arg_cong [OF T(1), of length] T(2) len by simp
  have "spec_outside T stop b r = spec_literal T stop rest w r"
    using r(1) b(1) s by (simp add: spec_outside_def spec_seek_def json_whitespace_def)
  also have "\<dots> = Go (spec_put w (r\<lparr>sp_ptr := sp_ptr r + int (length (b # rest))\<rparr>))"
    using lim ex [OF a1(2,3)] by (simp add: spec_literal_def add_ac)
  finally show ?thesis using step_at [OF t a1(1) r(2)] b(1) r(1) by (intro runs_to_step) simp
qed

section \<open>Values\<close>

definition reads_back :: "bytes \<Rightarrow> int \<Rightarrow> bool \<Rightarrow> json \<Rightarrow> bool" where
  "reads_back T stop cm v \<longleftrightarrow> (\<forall>r c. text_at T (sp_ptr r) (json_print v @ [c]) \<longrightarrow> value_follower c \<longrightarrow>
     sp_mode r = Seeking False False \<longrightarrow> sp_comment r = No_comment \<longrightarrow>
     runs_to T stop cm r (spec_put v (r\<lparr>sp_ptr := sp_ptr r + int (length (json_print v))\<rparr>)))"

lemma reads_backD:
  assumes "reads_back T stop cm v" "text_at T (sp_ptr r) (json_print v @ [c])" "value_follower c"
    "sp_mode r = Seeking False False" "sp_comment r = No_comment"
  shows "runs_to T stop cm r (spec_put v (r\<lparr>sp_ptr := sp_ptr r + int (length (json_print v))\<rparr>))"
  using assms by (auto simp: reads_back_def)

lemma join_commas_Cons: "join_commas (x # xs) = x @ (if xs = [] then [] else chr CHR '','' # join_commas xs)"
  by (cases xs) auto

lemma followers: "value_follower (chr CHR '','')" "value_follower (chr CHR '']'')" "value_follower (chr CHR ''}'')" "value_follower 0"
  by (simp_all add: value_follower_def)

lemma text_at_prefix: "text_at T p (xs @ y # ys) \<Longrightarrow> text_at T p (xs @ [y])"
  using text_at_append(1) [of T p "xs @ [y]" ys] by simp

lemma elements_run:
  assumes t: "spec_text T stop" and v: "\<And>v. v \<in> set vs \<Longrightarrow> reads_back T stop cm v" and ne: "vs \<noteq> []"
    and r: "text_at T (sp_ptr r) (join_commas (map json_print vs) @ [chr CHR '']''])" "sp_mode r = Seeking False False"
      "sp_comment r = No_comment" "sp_stack r = In_array us # st"
  shows "runs_to T stop cm r (r\<lparr>sp_mode := Seeking True False, sp_stack := In_array (us @ vs) # st,
    sp_ptr := sp_ptr r + int (length (join_commas (map json_print vs)))\<rparr>)"
  using v ne r
proof (induction vs arbitrary: r us)
  case (Cons v vs)
  let ?rest = "(if vs = [] then [] else chr CHR '','' # join_commas (map json_print vs)) @ [chr CHR '']'']"
  have a: "text_at T (sp_ptr r) (json_print v @ ?rest)" using Cons.prems(3) by (auto simp: join_commas_Cons)
  let ?p = "sp_ptr r + int (length (json_print v))"
  let ?r1 = "r\<lparr>sp_mode := Seeking True False, sp_stack := In_array (us @ [v]) # st, sp_ptr := ?p\<rparr>"
  have rb: "reads_back T stop cm v" using Cons.prems(1) by simp
  have pr: "text_at T (sp_ptr r) (json_print v @ [hd ?rest])" using a text_at_prefix by (auto split: if_splits)
  have fl: "value_follower (hd ?rest)" using followers by simp
  have run1: "runs_to T stop cm r ?r1"
  proof -
    have "spec_put v (r\<lparr>sp_ptr := ?p\<rparr>) = ?r1" using Cons.prems(6) by (cases r) (simp add: spec_put_def)
    then show ?thesis using reads_backD [OF rb pr fl Cons.prems(4,5)] by simp
  qed
  show ?case
  proof (cases "vs = []")
    case True
    then show ?thesis using run1 by simp
  next
    case False
    have a2: "text_at T ?p (chr CHR '','' # join_commas (map json_print vs) @ [chr CHR '']''])"
      using text_at_append(2) [OF a] False by simp
    let ?r2 = "?r1\<lparr>sp_mode := Seeking False False, sp_ptr := ?p + 1\<rparr>"
    have pk: "json_peek T (sp_ptr ?r1) = Some (chr CHR '','')" using text_at_Cons(1) [OF a2] by simp
    have "spec_outside T stop (chr CHR '','') ?r1 = Go ?r2"
      by (simp add: spec_outside_def spec_seek_def spec_next_def json_whitespace_def chr_def)
    then have run2: "runs_to T stop cm ?r1 ?r2"
      using step_at [OF t pk] Cons.prems(5) by (intro runs_to_step) (simp add: chr_def)
    have "runs_to T stop cm ?r2 (?r2\<lparr>sp_mode := Seeking True False, sp_stack := In_array ((us @ [v]) @ vs) # st,
        sp_ptr := sp_ptr ?r2 + int (length (join_commas (map json_print vs)))\<rparr>)"
      by (rule Cons.IH) (use Cons.prems False text_at_Cons(2) [OF a2] in simp_all)
    then have "runs_to T stop cm ?r2 (r\<lparr>sp_mode := Seeking True False, sp_stack := In_array (us @ v # vs) # st,
        sp_ptr := sp_ptr r + int (length (join_commas (map json_print (v # vs))))\<rparr>)"
      using False by (simp add: join_commas_Cons add_ac)
    then show ?thesis using run1 run2 by (blast intro: runs_to_trans)
  qed
qed simp

definition print_member :: "bytes \<times> json \<Rightarrow> bytes" where
  "print_member m = print_string (fst m) @ chr CHR '':'' # json_print (snd m)"

lemma print_member_pair: "print_member (k, v) = print_string k @ chr CHR '':'' # json_print v"
  by (simp add: print_member_def)

lemma members_run:
  assumes t: "spec_text T stop" and len: "int (length T) = stop + 1"
    and v: "\<And>m. m \<in> set ms \<Longrightarrow> reads_back T stop cm (snd m)" and ne: "ms \<noteq> []"
    and r: "text_at T (sp_ptr r) (join_commas (map print_member ms) @ [chr CHR ''}''])" "sp_mode r = In_members False"
      "sp_comment r = No_comment" "sp_stack r = In_object us k0 # st"
  shows "runs_to T stop cm r (r\<lparr>sp_mode := In_members True, sp_stack := In_object (us @ ms) [] # st,
    sp_ptr := sp_ptr r + int (length (join_commas (map print_member ms)))\<rparr>)"
  using v ne r
proof (induction ms arbitrary: r us k0)
  case (Cons m ms)
  obtain k v where m: "m = (k, v)" by force
  let ?rest = "(if ms = [] then [] else chr CHR '','' # join_commas (map print_member ms)) @ [chr CHR ''}'']"
  have a: "text_at T (sp_ptr r) ((print_string k @ [chr CHR '':'']) @ json_print v @ ?rest)"
    using Cons.prems(3) m by (auto simp: join_commas_Cons print_member_pair)
  note ka = text_at_append [OF a]
  let ?r1 = "r\<lparr>sp_mode := Seeking False False, sp_stack := In_object us k # st,
    sp_ptr := sp_ptr r + int (length (print_string k)) + 1\<rparr>"
  have run1: "runs_to T stop cm r ?r1" by (rule print_string_key [OF t len ka(1) Cons.prems(4-6)])
  have b: "text_at T (sp_ptr ?r1) (json_print v @ ?rest)" using ka(2) by (simp add: add_ac)
  let ?p = "sp_ptr ?r1 + int (length (json_print v))"
  let ?r2 = "r\<lparr>sp_mode := In_members True, sp_stack := In_object (us @ [m]) [] # st, sp_ptr := ?p\<rparr>"
  have rb: "reads_back T stop cm v" using Cons.prems(1) [of m] m by simp
  have pr: "text_at T (sp_ptr ?r1) (json_print v @ [hd ?rest])" using b text_at_prefix by (auto split: if_splits)
  have fl: "value_follower (hd ?rest)" using followers by simp
  have run2: "runs_to T stop cm ?r1 ?r2"
  proof -
    have "spec_put v (?r1\<lparr>sp_ptr := ?p\<rparr>) = ?r2" using m by (cases r) (simp add: spec_put_def)
    then show ?thesis using reads_backD [OF rb pr fl] Cons.prems(5) by simp
  qed
  have ln: "length (print_member m) = length (print_string k) + 1 + length (json_print v)" using m by (simp add: print_member_pair)
  show ?case
  proof (cases "ms = []")
    case True
    then show ?thesis using runs_to_trans [OF run1 run2] ln by (simp add: add_ac)
  next
    case False
    have a2: "text_at T ?p (chr CHR '','' # join_commas (map print_member ms) @ [chr CHR ''}''])"
      using text_at_append(2) [OF b] False by simp
    let ?r3 = "?r2\<lparr>sp_mode := In_members False, sp_ptr := ?p + 1\<rparr>"
    have pk: "json_peek T (sp_ptr ?r2) = Some (chr CHR '','')" using text_at_Cons(1) [OF a2] by simp
    have "spec_outside T stop (chr CHR '','') ?r2 = Go ?r3"
      by (simp add: spec_outside_def spec_members_def spec_next_def json_whitespace_def chr_def)
    then have run3: "runs_to T stop cm ?r2 ?r3"
      using step_at [OF t pk] Cons.prems(5) by (intro runs_to_step) (simp add: chr_def)
    have "runs_to T stop cm ?r3 (?r3\<lparr>sp_mode := In_members True, sp_stack := In_object ((us @ [m]) @ ms) [] # st,
        sp_ptr := sp_ptr ?r3 + int (length (join_commas (map print_member ms)))\<rparr>)"
      by (rule Cons.IH) (use Cons.prems False text_at_Cons(2) [OF a2] in simp_all)
    then have "runs_to T stop cm ?r3 (r\<lparr>sp_mode := In_members True, sp_stack := In_object (us @ m # ms) [] # st,
        sp_ptr := sp_ptr r + int (length (join_commas (map print_member (m # ms))))\<rparr>)"
      using False ln by (simp add: join_commas_Cons add_ac)
    then show ?thesis using run1 run2 run3 by (blast intro: runs_to_trans)
  qed
qed simp

theorem value_reads_back:
  assumes t: "spec_text T stop" and len: "int (length T) = stop + 1" and v: "no_doubles v"
  shows "reads_back T stop cm v"
  using v
proof (induction v rule: json_print.induct)
  case (2 vs)
  show ?case
    unfolding reads_back_def
  proof (intro allI impI)
    fix r :: json_spec and c
    let ?b = "chr CHR '']''"
    assume a: "text_at T (sp_ptr r) (json_print (JArray vs) @ [c])" "value_follower c" "sp_mode r = Seeking False False"
      "sp_comment r = No_comment"
    let ?j = "join_commas (map json_print vs)"
    have a1: "text_at T (sp_ptr r) (chr CHR ''['' # ?j @ [?b])"
      using text_at_append(1) [OF a(1)] by simp
    note a2 = text_at_Cons [OF a1]
    let ?r1 = "r\<lparr>sp_mode := Seeking False False, sp_stack := In_array [] # sp_stack r, sp_ptr := sp_ptr r + 1\<rparr>"
    have "spec_outside T stop (chr CHR ''['') r = Go ?r1"
      using a(3) by (simp add: spec_outside_def spec_seek_def spec_start_def spec_next_def json_whitespace_def chr_def)
    then have run1: "runs_to T stop cm r ?r1"
      using step_at [OF t a2(1) a(4)] a(3) by (intro runs_to_step) (simp add: chr_def)
    let ?r2 = "r\<lparr>sp_mode := Seeking (vs \<noteq> []) False, sp_stack := In_array vs # sp_stack r, sp_ptr := sp_ptr r + 1 + int (length ?j)\<rparr>"
    have run2: "runs_to T stop cm ?r1 ?r2"
    proof (cases "vs = []")
      case False
      have "\<And>v. v \<in> set vs \<Longrightarrow> reads_back T stop cm v" using 2 by simp
      from elements_run [OF t this False, of "?r1" "[]" "sp_stack r"] a2(2) a(4) False show ?thesis by simp
    qed (simp add: runs_to_refl)
    have pk: "json_peek T (sp_ptr ?r2) = Some ?b" using text_at_Cons(1) [OF text_at_append(2) [OF a2(2)]] by simp
    have "spec_outside T stop ?b ?r2 = Go ((spec_put (JArray vs) (?r2\<lparr>sp_stack := sp_stack r\<rparr>))\<lparr>sp_ptr := sp_ptr ?r2 + 1\<rparr>)"
      by (simp add: spec_outside_def spec_seek_def spec_next_def json_whitespace_def chr_def)
    also have "(spec_put (JArray vs) (?r2\<lparr>sp_stack := sp_stack r\<rparr>))\<lparr>sp_ptr := sp_ptr ?r2 + 1\<rparr>
        = spec_put (JArray vs) (r\<lparr>sp_ptr := sp_ptr r + int (length (json_print (JArray vs)))\<rparr>)"
      by (cases r) (simp add: spec_put_def)
    finally have "spec_outside T stop ?b ?r2 = Go (spec_put (JArray vs) (r\<lparr>sp_ptr := sp_ptr r + int (length (json_print (JArray vs)))\<rparr>))" .
    then have "runs_to T stop cm ?r2 (spec_put (JArray vs) (r\<lparr>sp_ptr := sp_ptr r + int (length (json_print (JArray vs)))\<rparr>))"
      using step_at [OF t pk] a(4) by (intro runs_to_step) (simp add: chr_def)
    then show "runs_to T stop cm r (spec_put (JArray vs) (r\<lparr>sp_ptr := sp_ptr r + int (length (json_print (JArray vs)))\<rparr>))"
      using run1 run2 by (blast intro: runs_to_trans)
  qed
next
  case (1 ms)
  show ?case
    unfolding reads_back_def
  proof (intro allI impI)
    fix r :: json_spec and c
    let ?b = "chr CHR ''}''"
    assume a: "text_at T (sp_ptr r) (json_print (JObject ms) @ [c])" "value_follower c" "sp_mode r = Seeking False False"
      "sp_comment r = No_comment"
    let ?j = "join_commas (map print_member ms)"
    have jp: "json_print (JObject ms) = chr CHR ''{'' # ?j @ [?b]" by (simp add: print_member_def [abs_def])
    have a1: "text_at T (sp_ptr r) (chr CHR ''{'' # ?j @ [?b])"
      using text_at_append(1) [OF a(1)] jp by simp
    note a2 = text_at_Cons [OF a1]
    let ?r1 = "r\<lparr>sp_mode := In_members False, sp_stack := In_object [] [] # sp_stack r, sp_ptr := sp_ptr r + 1\<rparr>"
    have "spec_outside T stop (chr CHR ''{'') r = Go ?r1"
      using a(3) by (simp add: spec_outside_def spec_seek_def spec_start_def spec_next_def json_whitespace_def chr_def)
    then have run1: "runs_to T stop cm r ?r1"
      using step_at [OF t a2(1) a(4)] a(3) by (intro runs_to_step) (simp add: chr_def)
    let ?r2 = "r\<lparr>sp_mode := In_members (ms \<noteq> []), sp_stack := In_object ms [] # sp_stack r, sp_ptr := sp_ptr r + 1 + int (length ?j)\<rparr>"
    have run2: "runs_to T stop cm ?r1 ?r2"
    proof (cases "ms = []")
      case False
      have "\<And>m. m \<in> set ms \<Longrightarrow> reads_back T stop cm (snd m)" using 1 by simp
      from members_run [OF t len this False, of "?r1" "[]" "[]" "sp_stack r"] a2(2) a(4) False show ?thesis by simp
    qed (simp add: runs_to_refl)
    have pk: "json_peek T (sp_ptr ?r2) = Some ?b" using text_at_Cons(1) [OF text_at_append(2) [OF a2(2)]] by simp
    have "spec_outside T stop ?b ?r2 = Go ((spec_put (JObject ms) (?r2\<lparr>sp_stack := sp_stack r\<rparr>))\<lparr>sp_ptr := sp_ptr ?r2 + 1\<rparr>)"
      by (simp add: spec_outside_def spec_members_def spec_next_def json_whitespace_def chr_def)
    also have "(spec_put (JObject ms) (?r2\<lparr>sp_stack := sp_stack r\<rparr>))\<lparr>sp_ptr := sp_ptr ?r2 + 1\<rparr>
        = spec_put (JObject ms) (r\<lparr>sp_ptr := sp_ptr r + int (length (json_print (JObject ms)))\<rparr>)"
      unfolding jp by (cases r) (simp add: spec_put_def)
    finally have "spec_outside T stop ?b ?r2 = Go (spec_put (JObject ms) (r\<lparr>sp_ptr := sp_ptr r + int (length (json_print (JObject ms)))\<rparr>))" .
    then have "runs_to T stop cm ?r2 (spec_put (JObject ms) (r\<lparr>sp_ptr := sp_ptr r + int (length (json_print (JObject ms)))\<rparr>))"
      using step_at [OF t pk] a(4) by (intro runs_to_step) (simp add: chr_def)
    then show "runs_to T stop cm r (spec_put (JObject ms) (r\<lparr>sp_ptr := sp_ptr r + int (length (json_print (JObject ms)))\<rparr>))"
      using run1 run2 by (blast intro: runs_to_trans)
  qed
next
  case (3 i)
  then show ?case using print_integer_value [OF t] by (simp add: reads_back_def)
next
  case (5 cs)
  then show ?case using print_string_value [OF t len] text_at_append(1) by (fastforce simp: reads_back_def)
next
  case (6 b)
  have "reads_back T stop cm (JBoolean True)" "reads_back T stop cm (JBoolean False)"
    unfolding reads_back_def
    using print_literal_value [OF t len, of _ "chr CHR ''t''" "cstr ''rue''" "JBoolean True" cm]
      print_literal_value [OF t len, of _ "chr CHR ''f''" "cstr ''alse''" "JBoolean False" cm] text_at_append(1)
    by (auto simp: cstr_def spec_start_def chr_def)
  then show ?case by (cases b) simp_all
next
  case 7
  show ?case
    unfolding reads_back_def
    using print_literal_value [OF t len, of _ "chr CHR ''n''" "cstr ''ull''" JNull cm] text_at_append(1)
    by (auto simp: cstr_def spec_start_def chr_def)
qed simp

lemma print_no_bom: "no_doubles v \<Longrightarrow> \<not> json_bom (json_print v)"
proof -
  assume v: "no_doubles v"
  have "hd (json_print v) \<noteq> 0xEF"
  proof (cases v)
    case (JInteger i)
    have "hd (decimal m) \<noteq> 0xEF" for m using decimal_hd(1) [of m] by (auto simp: json_isdigit_def chr_def)
    then show ?thesis using JInteger by (simp add: print_integer_def chr_def)
  qed (use v in \<open>auto simp: print_string_def cstr_def chr_def\<close>)
  then show ?thesis by (cases "json_print v") (auto simp: json_bom_def)
qed

theorem json_reference_print:
  assumes "no_doubles v"
  shows "json_reference cm (json_print v) = Some (Accept v)"
proof -
  let ?T = "json_print v @ [0]" let ?stop = "int (length (json_print v))"
  have t: "spec_text ?T ?stop" by (rule spec_text_nul)
  have len: "int (length ?T) = ?stop + 1" by simp
  have a: "text_at ?T (sp_ptr spec_initial) (json_print v @ [0])"
    unfolding text_at_def by (intro exI [of _ "[]"] exI [of _ "[]"]) (simp add: spec_initial_def)
  let ?r = "spec_put v (spec_initial\<lparr>sp_ptr := ?stop\<rparr>)"
  have "runs_to ?T ?stop cm spec_initial ?r"
    using reads_backD [OF value_reads_back [OF t len assms] a followers(4), of cm] by (simp add: spec_initial_def)
  moreover have pk: "json_peek ?T (sp_ptr ?r) = Some 0" using t by (simp add: spec_text_def)
  have "spec_step ?T ?stop cm ?r = spec_outside ?T ?stop 0 ?r"
    by (rule step_at [OF t pk]) (simp_all add: spec_put_def spec_initial_def chr_def)
  then have "spec_step ?T ?stop cm ?r = Accept v" by (simp add: spec_outside_def spec_put_def spec_initial_def)
  then have "spec_run ?T ?stop cm ?r = Some (Accept v)" by (simp add: spec_run.simps [of _ _ _ ?r])
  ultimately have "spec_run ?T ?stop cm spec_initial = Some (Accept v)" by (simp add: runs_to_def)
  then show ?thesis using print_no_bom [OF assms] by (simp add: json_reference_def)
qed

end
