(* ===== verification/JsonCorrect.thy ===== *)
theory JsonCorrect
  imports JsonPrint
begin

text \<open>
  The properties of the JSON parser: what \<open>json_parse_ex\<close> accepts, stores and releases, what it prints back, and what a
  failing \<open>malloc\<close> does to each of the two passes.
\<close>

declare spec_run.simps [code]

section \<open>Properties\<close>

text \<open>C15 (equivalence): \<open>json_parse_ex\<close> accepts the texts that the reference parser accepts, and stores the same value; it
  rejects the others with the same error on the same line, and then owns no memory.  It returns on every text of at most
  2^23 bytes when \<open>malloc\<close> succeeds, reads nothing outside the text and its NUL, and writes nothing outside the memory it
  has allocated.  \<open>json_value_free\<close> on the value it returns releases all of its memory, each part once.\<close>

theorem json_parse_and_release:
  assumes "length txt \<le> 2 ^ 23" "st_max_memory st = 0" "\<And>n. st_malloc st n"
  shows "case json_reference (st_enable_comments st) txt of
      Some (Accept v) \<Rightarrow> \<exists>s s'. json_parse_ex st (txt @ [0]) (length txt) = Some (Parsed 0 s) \<and> json_holds v s
        \<and> json_value_free (Some 0) s = Some (Proceed s') \<and> json_empty s'
    | Some (Reject e line) \<Rightarrow> \<exists>s. json_parse_ex st (txt @ [0]) (length txt) = Some (Rejected e s) \<and> js_cur_line s = line
        \<and> json_empty s
    | _ \<Rightarrow> False"
proof -
  note r = json_parse_ex_reference [OF assms]
  show ?thesis
  proof (cases "\<exists>v. json_reference (st_enable_comments st) txt = Some (Accept v)")
    case True
    then show ?thesis using r json_value_free_all by fastforce
  next
    case False
    then show ?thesis using r by (auto split: option.splits json_progress.splits)
  qed
qed

definition sample_text :: bytes where
  "sample_text = cstr ''{'' @ print_string (cstr ''mode'') @ cstr '':[-12,'' @ print_string (cstr ''a'') @ cstr '',true]} // c''"

theorem json_parse_and_release_witness:
  "\<exists>s s'. json_parse_ex \<lparr>st_max_memory = 0, st_enable_comments = True, st_malloc = \<lambda>n. True\<rparr> (sample_text @ [0]) (length sample_text) = Some (Parsed 0 s)
   \<and> json_holds (JObject [(cstr ''mode'', JArray [JInteger (-12), JString (cstr ''a''), JBoolean True])]) s
   \<and> json_value_free (Some 0) s = Some (Proceed s') \<and> json_empty s'"
proof -
  have "json_reference True sample_text = Some (Accept (JObject [(cstr ''mode'', JArray [JInteger (-12), JString (cstr ''a''), JBoolean True])]))"
    by code_simp
  moreover have "length sample_text \<le> 2 ^ 23"
    by (simp add: sample_text_def print_string_def print_byte_def cstr_def chr_def)
  ultimately show ?thesis
    using json_parse_and_release [of sample_text "\<lparr>st_max_memory = 0, st_enable_comments = True, st_malloc = \<lambda>n. True\<rparr>"] by simp
qed

section \<open>Memory allocation failures\<close>

text \<open>C18 (error): the first pass survives any failure of \<open>malloc\<close>.  Whatever \<open>malloc\<close> does, the first pass ends; when it
  fails, \<open>json_parse_ex\<close> returns NULL and owns no memory, and the reason is either the error of the reference parser or
  that \<open>malloc\<close> has refused the next value.\<close>

theorem json_first_pass_any_malloc:
  assumes "length txt \<le> 2 ^ 23" "st_max_memory st = 0"
  shows "case json_loop (json_environment st (txt @ [0]) (length txt)) (json_start_pass json_initial) of
      Some (Break s) \<Rightarrow> \<exists>v. json_reference (st_enable_comments st) txt = Some (Accept v)
    | Some (Fail e s) \<Rightarrow> \<exists>s'. json_parse_ex st (txt @ [0]) (length txt) = Some (Rejected e s') \<and> json_empty s'
        \<and> (json_reference (st_enable_comments st) txt = Some (Reject e (js_cur_line s'))
           \<or> e = Memory_allocation_failure \<and> \<not> st_malloc st (js_next s'))
    | _ \<Rightarrow> False"
proof -
  let ?env = "json_environment st (txt @ [0]) (length txt)"
  have "spec_text (jx_json ?env) (jx_end ?env)" "jx_end ?env \<le> 2 ^ 23" "jx_max_memory ?env = 0"
    using assms spec_text_nul by (auto simp: json_environment_text)
  from first_pass_start [OF this] obtain x y where xy: "json_reference (st_enable_comments st) txt = Some x"
      "json_loop ?env (json_start_pass json_initial) = Some y" "first_end ?env x y"
    by (auto simp: json_environment_text json_reference_def)
  show ?thesis
  proof (cases y)
    case (Fail e s)
    obtain s' where "json_failed e s = Some (Rejected e s')" "json_empty s'" "js_cur_line s' = js_cur_line s" "js_next s' = js_next s"
      using first_failure [of ?env x e s] xy(3) Fail by blast
    then show ?thesis
      using xy Fail by (auto simp: json_parse_ex_def json_passes_def first_end_def json_environment_text)
  qed (use xy in \<open>auto simp: first_end_def\<close>)
qed

lemma json_then_cong: "r = r' \<Longrightarrow> json_then r f = json_then r' f" by simp
lemma on_value_simps:
  "on_value None s f = Crash" "on_value (Some a) s f = (case js_values s a of Some v \<Rightarrow> f a v | None \<Rightarrow> Crash)"
  by (simp_all add: on_value_def)
lemma on_value_cong: "p = p' \<Longrightarrow> s = s' \<Longrightarrow> on_value p s f = on_value p' s' f" by simp
lemma let_cong: "a = a' \<Longrightarrow> Let a f = Let a' f" by simp

text \<open>Evaluating the parser on a concrete text, one character at a time.\<close>

lemmas json_evaluate =
  json_iteration_def json_in_string_def json_comment_def json_after_root_def json_seek_value_def json_inside_def
  json_finish_def json_start_value_def json_start_number_def json_in_number_def json_digit_def json_after_digits_def
  json_number_end_def json_value_done_def json_link_def json_peek_def json_isdigit_def json_whitespace_def chr_def
  json_exponent_sign_def json_number_char_def cstr_def new_value_def json_alloc_def json_alloc_memory_def
  blank_value_def root_or_def set_value_def set_block_def set_flags_def on_value_simps SIZEOF_JSON_VALUE_def
  SIZEOF_POINTER_def SIZEOF_JSON_OBJECT_ENTRY_def ulong_max_def uint_max_def number_flags_def

lemmas json_congs = json_then_cong on_value_cong let_cong if_weak_cong option.case_cong_weak

theorem json_first_pass_any_malloc_witness:
  "\<exists>s. json_parse_ex \<lparr>st_max_memory = 0, st_enable_comments = False, st_malloc = \<lambda>n. n < 1\<rparr> (cstr ''[1]'' @ [0]) (length (cstr ''[1]''))
      = Some (Rejected Memory_allocation_failure s) \<and> json_empty s"
proof -
  let ?st = "\<lparr>st_max_memory = 0, st_enable_comments = False, st_malloc = \<lambda>n. n < 1\<rparr>"
  have E: "json_environment ?st (cstr ''[1]'' @ [0]) (length (cstr ''[1]'')) =
      \<lparr>jx_json = [91, 49, 93, 0], jx_end = 3, jx_comments = False, jx_max_memory = 0, jx_malloc = \<lambda>n. n < 1\<rparr>"
    by (simp add: json_environment_def json_bom_def cstr_def chr_def)
  have "\<exists>s. json_loop (json_environment ?st (cstr ''[1]'' @ [0]) (length (cstr ''[1]''))) (json_start_pass json_initial)
      = Some (Fail Memory_allocation_failure s)"
    unfolding E json_start_pass_def json_initial_def
    apply (subst json_loop.simps, simp add: json_evaluate cong: json_congs)
    apply (subst json_loop.simps, simp add: json_evaluate cong: json_congs)
    done
  then show ?thesis
    using json_first_pass_any_malloc [of "cstr ''[1]''" ?st] by (auto simp: cstr_def)
qed

text \<open>The second pass does not survive it: on \<open>[1]\<close> with a third allocation that fails, \<open>new_value\<close> has
  linked an array without memory into the tree, and \<open>json_value_free_ex\<close> follows the null pointer.\<close>

lemma json_second_pass_crash:
  "json_parse_ex \<lparr>st_max_memory = 0, st_enable_comments = False, st_malloc = \<lambda>n. n \<noteq> 2\<rparr> (cstr ''[1]'' @ [0]) (length (cstr ''[1]''))
    = Some Crashed"
proof -
  let ?st = "\<lparr>st_max_memory = 0, st_enable_comments = False, st_malloc = \<lambda>n. n \<noteq> 2\<rparr>"
  have E: "json_environment ?st (cstr ''[1]'' @ [0]) (length (cstr ''[1]'')) =
      \<lparr>jx_json = [91, 49, 93, 0], jx_end = 3, jx_comments = False, jx_max_memory = 0, jx_malloc = \<lambda>n. n \<noteq> 2\<rparr>"
    by (simp add: json_environment_def json_bom_def cstr_def chr_def)
  show ?thesis
    unfolding json_parse_ex_def json_passes_def E
    apply (simp add: json_start_pass_def json_initial_def)
    apply (subst json_loop.simps, simp add: json_evaluate cong: json_congs)
    apply (subst json_loop.simps, simp add: json_evaluate cong: json_congs)
    apply (subst json_loop.simps, simp add: json_evaluate cong: json_congs)
    apply (subst json_loop.simps, simp add: json_evaluate cong: json_congs)
    apply (subst json_loop.simps, simp add: json_evaluate cong: json_congs)
    apply (subst json_loop.simps, simp add: json_evaluate cong: json_congs)
    apply (simp add: json_second_pass_def json_start_pass_def)
    apply (subst json_loop.simps, simp add: json_evaluate cong: json_congs)
    apply (simp add: json_failed_def json_free_chain.simps json_free_value_def json_value_free_ex_def json_free_loop.simps
        json_child_def set_value_def)
    done
qed

section \<open>Printing and parsing\<close>

text \<open>C17 (roundtrip): what is printed is read back.  A value without floating-point numbers, whatever bytes its strings
  and member names have and however deep it is, is stored exactly as it was when its printed text is parsed.\<close>

theorem json_parse_print:
  assumes "no_doubles v" "length (json_print v) \<le> 2 ^ 23" "st_max_memory st = 0" "\<And>n. st_malloc st n"
  shows "\<exists>s. json_parse_ex st (json_print v @ [0]) (length (json_print v)) = Some (Parsed 0 s) \<and> json_holds v s"
  using json_parse_ex_reference [OF assms(2-4)] json_reference_print [OF assms(1)] by simp

theorem json_parse_print_witness:
  "\<exists>s. json_parse_ex \<lparr>st_max_memory = 0, st_enable_comments = False, st_malloc = \<lambda>n. True\<rparr>
     (json_print (JArray [JString [0, 0x22, 0xC3], JInteger (- 5), JNull]) @ [0])
     (length (json_print (JArray [JString [0, 0x22, 0xC3], JInteger (- 5), JNull]))) = Some (Parsed 0 s)
   \<and> json_holds (JArray [JString [0, 0x22, 0xC3], JInteger (- 5), JNull]) s"
  by (rule json_parse_print)
     (simp_all add: print_string_def print_byte_def print_integer_def decimal.simps cstr_def chr_def)

end
