(* ===== verification/Jconf.thy ===== *)
theory Jconf
  imports JsonParse NetUtils "HOL-Library.Signed_Division" "HOL-Library.Monad_Syntax"
begin

text \<open>
  \<open>shadowsocks-libev/src/jconf.c\<close> and the helpers of \<open>utils.c\<close> it uses: the settings of the server, read from the memory
  that \<open>json_parse_ex\<close> has filled.  A result \<open>None\<close> is undefined behaviour: a null pointer is followed, or bytes are read
  that have not been written.  \<open>FATAL\<close> only logs (its \<open>exit\<close> is commented out), so every function goes on after it.
  Allocation for the copies of strings succeeds; log lines are not modelled.
\<close>

section \<open>Helpers of utils.c\<close>

definition INT_DIGITS :: nat where "INT_DIGITS = 19"

text \<open>The digits are written from the end of \<open>buf\<close>; \<open>i\<close> is divided as C divides, towards zero.\<close>

function itoa_loop :: "int \<Rightarrow> int \<Rightarrow> bytes \<Rightarrow> bytes" where
  "itoa_loop sg i p =
    (let p = word_of_int (of_char CHR ''0'' + sg * (i smod 10)) # p; i = i sdiv 10
     in if i \<noteq> 0 then itoa_loop sg i p else p)"
  by pat_completeness auto

lemma sdiv_10: "\<bar>i sdiv 10\<bar> = \<bar>i\<bar> div (10 :: int)"
  by (auto simp: signed_divide_int_def abs_mult sgn_if)

lemma sdiv_10_less: "i sdiv 10 \<noteq> 0 \<Longrightarrow> \<bar>i\<bar> div 10 < \<bar>i\<bar>" for i :: int
  by (cases "i = 0") auto

termination itoa_loop
  by (relation "measure (\<lambda>(sg, i, p). nat \<bar>i\<bar>)") (use sdiv_10_less in \<open>auto simp: sdiv_10\<close>)

definition ss_itoa :: "32 word \<Rightarrow> bytes" where
  "ss_itoa i =
    (if 0 \<le> sint i then itoa_loop 1 (sint i) []
     else chr CHR ''-'' # itoa_loop (- 1) (sint i) [])"

definition c_isdigit :: "byte \<Rightarrow> bool" where
  "c_isdigit b \<longleftrightarrow> chr CHR ''0'' \<le> b \<and> b \<le> chr CHR ''9''"

text \<open>A C string is the list of its bytes before the NUL.\<close>

definition ss_isnumeric :: "bytes option \<Rightarrow> bool" where
  "ss_isnumeric s = (case s of None \<Rightarrow> False | Some [] \<Rightarrow> False | Some cs \<Rightarrow> dropWhile c_isdigit cs = [])"

definition ss_strndup :: "bytes \<Rightarrow> nat \<Rightarrow> bytes" where
  "ss_strndup s n = (if length s \<le> n then s else take n s)"

section \<open>Addresses\<close>

record ss_addr =
  addr_host :: "bytes option"
  addr_port :: "bytes option"

definition free_addr :: "ss_addr \<Rightarrow> ss_addr" where
  "free_addr addr = \<lparr>addr_host = None, addr_port = None\<rparr>"

definition c_strchr :: "bytes \<Rightarrow> nat \<Rightarrow> byte \<Rightarrow> nat option" where
  "c_strchr str from c =
    (if c \<in> set (drop from str) then Some (from + length (takeWhile (\<lambda>b. b \<noteq> c) (drop from str))) else None)"

lemma strchr_bounds: "c_strchr str from c = Some p \<Longrightarrow> from \<le> p \<and> p < length str \<and> str ! p = c"
proof -
  assume a: "c_strchr str from c = Some p"
  let ?d = "drop from str"
  have c: "c \<in> set ?d" "p = from + length (takeWhile (\<lambda>b. b \<noteq> c) ?d)" using a by (auto simp: c_strchr_def split: if_splits)
  then have "dropWhile (\<lambda>b. b \<noteq> c) ?d \<noteq> []" by (auto simp: dropWhile_eq_Nil_conv)
  moreover have "length (takeWhile (\<lambda>b. b \<noteq> c) ?d) + length (dropWhile (\<lambda>b. b \<noteq> c) ?d) = length ?d"
    by (metis length_append takeWhile_dropWhile_id)
  ultimately have l: "length (takeWhile (\<lambda>b. b \<noteq> c) ?d) < length ?d" by (metis add_cancel_left_right length_0_conv less_add_same_cancel1 not_gr_zero)
  then have "?d ! length (takeWhile (\<lambda>b. b \<noteq> c) ?d) = c" using nth_length_takeWhile by fastforce
  with l c(2) show ?thesis by simp
qed

text \<open>The number of colons and the position of the last.\<close>

function count_colons :: "bytes \<Rightarrow> nat option \<Rightarrow> nat \<Rightarrow> int \<Rightarrow> nat \<times> int" where
  "count_colons str pch n ret =
    (case pch of
       None \<Rightarrow> (n, ret)
     | Some p \<Rightarrow>
         if p < length str then count_colons str (c_strchr str (p + 1) (chr CHR '':'')) (n + 1) (int p) else (n + 1, int p))"
  by pat_completeness auto

termination count_colons
  by (relation "measure (\<lambda>(str, pch, n, ret). case pch of None \<Rightarrow> 0 | Some p \<Rightarrow> Suc (length str - p))")
     (auto split: option.splits dest!: strchr_bounds)

definition parse_addr :: "bytes option \<Rightarrow> ss_addr \<Rightarrow> ss_addr" where
  "parse_addr str_in addr =
    (case str_in of
       None \<Rightarrow> addr
     | Some str \<Rightarrow>
         if fst (cork_ip_init str) \<noteq> -1 then \<lparr>addr_host = Some str, addr_port = None\<rparr>
         else
           let (n, ret) = count_colons str (c_strchr str 0 (chr CHR '':'')) 0 (- 1);
               ipv6 = 1 < n;
               ret = (if ipv6 \<and> str ! nat (ret - 1) \<noteq> chr CHR '']'' then - 1 else ret)
           in if ret = - 1
              then \<lparr>addr_host = Some (if ipv6 then ss_strndup (drop 1 str) (length str - 2) else str), addr_port = None\<rparr>
              else \<lparr>addr_host = Some (if ipv6 then ss_strndup (drop 1 str) (nat (ret - 2)) else ss_strndup str (nat ret)),
                    addr_port = Some (drop (nat ret + 1) str)\<rparr>)"

section \<open>DSCP values\<close>

definition DSCP_EF :: int where "DSCP_EF = 0x2E"
definition DSCP_MIN :: int where "DSCP_MIN = 0"
definition DSCP_MAX :: int where "DSCP_MAX = 0x3F"
definition DSCP_DEFAULT :: int where "DSCP_DEFAULT = 0"
definition DSCP_CS_LEN :: nat where "DSCP_CS_LEN = 3"
definition DSCP_AF_LEN :: nat where "DSCP_AF_LEN = 4"

definition c_tolower :: "byte \<Rightarrow> byte" where
  "c_tolower b = (if chr CHR ''A'' \<le> b \<and> b \<le> chr CHR ''Z'' then b + 32 else b)"

definition c_strncaseeq :: "bytes \<Rightarrow> bytes \<Rightarrow> nat \<Rightarrow> bool" where
  "c_strncaseeq a b n \<longleftrightarrow> map c_tolower (take n a) = map c_tolower (take n b)"

text \<open>\<open>strtol\<close> with base 0 of the C library: white space, a sign, the base from the prefix, digits, and the bounds of a
  \<open>long\<close> of \<open>w\<close> bits.  The second result is what follows the number; all of the string if there is none.\<close>

definition c_isspace :: "byte \<Rightarrow> bool" where
  "c_isspace b \<longleftrightarrow> b = 32 \<or> 9 \<le> b \<and> b \<le> 13"

definition digit_value :: "byte \<Rightarrow> nat" where
  "digit_value b =
    (if c_isdigit b then unat (b - chr CHR ''0'')
     else if chr CHR ''a'' \<le> c_tolower b \<and> c_tolower b \<le> chr CHR ''z'' then unat (c_tolower b - chr CHR ''a'') + 10
     else 255)"

fun strtol_digits :: "nat \<Rightarrow> nat \<Rightarrow> bytes \<Rightarrow> nat \<times> bytes" where
  "strtol_digits base acc [] = (acc, [])"
| "strtol_digits base acc (b # bs) =
    (if digit_value b < base then strtol_digits base (acc * base + digit_value b) bs else (acc, b # bs))"

definition strtol_base :: "bytes \<Rightarrow> nat \<times> bytes" where
  "strtol_base bs =
    (if 2 < length bs \<and> bs ! 0 = chr CHR ''0'' \<and> c_tolower (bs ! 1) = chr CHR ''x'' \<and> digit_value (bs ! 2) < 16
     then (16, drop 2 bs)
     else if bs \<noteq> [] \<and> bs ! 0 = chr CHR ''0'' then (8, bs) else (10, bs))"

definition c_strtol :: "nat \<Rightarrow> bytes \<Rightarrow> int \<times> bytes" where
  "c_strtol w str =
    (let bs = dropWhile c_isspace str;
         (neg, bs) = (case bs of
            b # cs \<Rightarrow> if b = chr CHR ''-'' then (True, cs) else if b = chr CHR ''+'' then (False, cs) else (False, bs)
          | [] \<Rightarrow> (False, []));
         (base, bs) = strtol_base bs
     in if bs = [] \<or> digit_value (hd bs) \<ge> base then (0, str)
        else
          let (n, rest) = strtol_digits base 0 bs
          in (min (2 ^ (w - 1) - 1) (max (- (2 ^ (w - 1))) (if neg then - int n else int n)), rest))"

definition parse_dscp :: "nat \<Rightarrow> bytes \<Rightarrow> int" where
  "parse_dscp w str =
    (let str_len = length str
     in if str_len = 2 \<and> map c_tolower str = map c_tolower (cstr ''EF'') then DSCP_EF
        else if str_len = DSCP_CS_LEN \<and> c_strncaseeq str (cstr ''CS'') 2
          \<and> chr CHR ''0'' \<le> str ! 2 \<and> str ! 2 \<le> chr CHR ''7''
        then push_bit 3 (uint (str ! 2 - chr CHR ''0''))
        else if str_len = DSCP_AF_LEN \<and> c_strncaseeq str (cstr ''AF'') 2
          \<and> chr CHR ''1'' \<le> str ! 2 \<and> str ! 2 \<le> chr CHR ''4'' \<and> chr CHR ''1'' \<le> str ! 3 \<and> str ! 3 \<le> chr CHR ''3''
        then push_bit 3 (uint (str ! 2 - chr CHR ''0'')) OR push_bit 1 (uint (str ! 3 - chr CHR ''0''))
        else
          let (l, rest) = c_strtol w str; dscp = sint (word_of_int l :: 32 word)
          in if rest = [] \<and> DSCP_MIN \<le> dscp \<and> dscp \<le> DSCP_MAX then dscp else DSCP_DEFAULT)"

section \<open>Settings\<close>

definition MAX_PORT_NUM :: nat where "MAX_PORT_NUM = 1024"
definition MAX_DSCP_NUM :: nat where "MAX_DSCP_NUM = 64"

definition TCP_ONLY :: "32 word" where "TCP_ONLY = 0"
definition TCP_AND_UDP :: "32 word" where "TCP_AND_UDP = 1"
definition UDP_ONLY :: "32 word" where "UDP_ONLY = 3"

record ss_port_password =
  spp_port :: "bytes option"
  spp_password :: "bytes option"

record ss_dscp =
  sd_port :: "bytes option"
  sd_dscp :: int

record jconf =
  jc_remote_num :: nat
  jc_remote_addr :: "ss_addr list"
  jc_port_password_num :: nat
  jc_port_password :: "ss_port_password list"
  jc_remote_port :: "bytes option"
  jc_local_addr :: "bytes option"
  jc_local_port :: "bytes option"
  jc_password :: "bytes option"
  jc_key :: "bytes option"
  jc_method :: "bytes option"
  jc_timeout :: "bytes option"
  jc_user :: "bytes option"
  jc_plugin :: "bytes option"
  jc_plugin_opts :: "bytes option"
  jc_fast_open :: "32 word"
  jc_reuse_port :: "32 word"
  jc_nofile :: "32 word"
  jc_nameserver :: "bytes option"
  jc_dscp_num :: nat
  jc_dscp :: "ss_dscp list"
  jc_tunnel_address :: "bytes option"
  jc_mode :: "32 word"
  jc_mtu :: "32 word"
  jc_mptcp :: "32 word"
  jc_ipv6_first :: "32 word"
  jc_no_delay :: "32 word"

text \<open>The static \<open>conf\<close> after \<open>memset\<close>.\<close>

definition jconf_zero :: jconf where
  "jconf_zero =
    \<lparr>jc_remote_num = 0, jc_remote_addr = replicate MAX_REMOTE_NUM \<lparr>addr_host = None, addr_port = None\<rparr>,
     jc_port_password_num = 0, jc_port_password = replicate MAX_PORT_NUM \<lparr>spp_port = None, spp_password = None\<rparr>,
     jc_remote_port = None, jc_local_addr = None, jc_local_port = None, jc_password = None, jc_key = None,
     jc_method = None, jc_timeout = None, jc_user = None, jc_plugin = None, jc_plugin_opts = None, jc_fast_open = 0,
     jc_reuse_port = 0, jc_nofile = 0, jc_nameserver = None, jc_dscp_num = 0,
     jc_dscp = replicate MAX_DSCP_NUM \<lparr>sd_port = None, sd_dscp = 0\<rparr>, jc_tunnel_address = None, jc_mode = 0,
     jc_mtu = 0, jc_mptcp = 0, jc_ipv6_first = 0, jc_no_delay = 0\<rparr>"

section \<open>Reading the parsed value\<close>

text \<open>The C string at an offset of a block: its bytes must have been written up to a NUL.\<close>

fun written_string :: "byte option list \<Rightarrow> bytes option" where
  "written_string (Some c # cs) = (if c = 0 then Some [] else map_option ((#) c) (written_string cs))"
| "written_string cs = None"

definition c_string_at :: "json_state \<Rightarrow> nat \<Rightarrow> nat \<Rightarrow> bytes option" where
  "c_string_at s b off =
    (case js_blocks s b of
       Some (Chars cs) \<Rightarrow> written_string (drop off cs)
     | Some (Members es cs) \<Rightarrow> written_string (drop off cs)
     | _ \<Rightarrow> None)"

text \<open>Member \<open>i\<close> of an object: name, length of the name and value; element \<open>i\<close> of an array.\<close>

definition json_member :: "json_state \<Rightarrow> json_value \<Rightarrow> nat \<Rightarrow> (bytes \<times> nat \<times> json_value) option" where
  "json_member s v i =
    (case jv_ptr v of
       Mem b \<Rightarrow>
         (case js_blocks s b of
            Some (Members es cs) \<Rightarrow>
              if i < length es then do {
                off \<leftarrow> je_name (es ! i);
                n \<leftarrow> je_name_length (es ! i);
                a \<leftarrow> je_value (es ! i);
                name \<leftarrow> c_string_at s b off;
                x \<leftarrow> js_values s a;
                Some (name, n, x)
              } else None
          | _ \<Rightarrow> None)
     | _ \<Rightarrow> None)"

definition json_element :: "json_state \<Rightarrow> json_value \<Rightarrow> nat \<Rightarrow> json_value option" where
  "json_element s v i =
    (case jv_ptr v of
       Mem b \<Rightarrow>
         (case js_blocks s b of
            Some (Pointers ps) \<Rightarrow> if i < length ps then do { a \<leftarrow> ps ! i; js_values s a } else None
          | _ \<Rightarrow> None)
     | _ \<Rightarrow> None)"

text \<open>\<open>None\<close> is undefined behaviour, \<open>Some None\<close> a null pointer.\<close>

definition to_string :: "json_state \<Rightarrow> json_value \<Rightarrow> bytes option option" where
  "to_string s v =
    (case jv_type v of
       json_string \<Rightarrow>
         (case jv_ptr v of
            Mem b \<Rightarrow> map_option (\<lambda>str. Some (ss_strndup str (jv_length v))) (c_string_at s b 0)
          | Counter _ \<Rightarrow> None)
     | json_integer \<Rightarrow> Some (Some (ss_itoa (ucast (jv_integer v))))
     | _ \<Rightarrow> Some None)"

text \<open>\<open>value->u.boolean\<close> and \<open>(int) value->u.integer\<close> are the first four bytes of the union on a little-endian machine,
  whatever the type of the value: \<open>check_json_value_type\<close> only logs.  \<open>bits\<close> gives the representation of a double.\<close>

definition jv_union :: "(json_dbl \<Rightarrow> 64 word) \<Rightarrow> json_value \<Rightarrow> 32 word" where
  "jv_union bits v =
    (case jv_type v of
       json_boolean \<Rightarrow> if jv_boolean v then 1 else 0
     | json_integer \<Rightarrow> ucast (jv_integer v)
     | json_double \<Rightarrow> ucast (bits (jv_dbl v))
     | json_null \<Rightarrow> 0
     | _ \<Rightarrow> word_of_nat (jv_length v))"

text \<open>\<open>for (j = 0; j < n; j++)\<close> with a body that may be undefined; a \<open>break\<close> at \<open>MAX\<close> is \<open>min n MAX\<close>.\<close>

fun for_loop :: "nat \<Rightarrow> nat \<Rightarrow> (nat \<Rightarrow> 'c \<Rightarrow> 'c option) \<Rightarrow> 'c \<Rightarrow> 'c option" where
  "for_loop 0 j f c = Some c"
| "for_loop (Suc n) j f c = (case f j c of None \<Rightarrow> None | Some c \<Rightarrow> for_loop n (j + 1) f c)"

definition jconf_server :: "json_state \<Rightarrow> json_value \<Rightarrow> jconf \<Rightarrow> jconf option" where
  "jconf_server s v c =
    (case jv_type v of
       json_array \<Rightarrow> for_loop (min (jv_length v) MAX_REMOTE_NUM) 0 (\<lambda>j c. do {
         x \<leftarrow> json_element s v j;
         addr_str \<leftarrow> to_string s x;
         Some (c\<lparr>jc_remote_addr := (jc_remote_addr c)[j := parse_addr addr_str (jc_remote_addr c ! j)],
                jc_remote_num := j + 1\<rparr>)
       }) c
     | json_string \<Rightarrow>
         map_option (\<lambda>str. c\<lparr>jc_remote_addr := (jc_remote_addr c)[0 := \<lparr>addr_host = str, addr_port = None\<rparr>], jc_remote_num := 1\<rparr>)
           (to_string s v)
     | _ \<Rightarrow> Some c)"

definition jconf_port_password :: "json_state \<Rightarrow> json_value \<Rightarrow> jconf \<Rightarrow> jconf option" where
  "jconf_port_password s v c =
    (if jv_type v = json_object
     then for_loop (min (jv_length v) MAX_PORT_NUM) 0 (\<lambda>j c. do {
       (name, n, x) \<leftarrow> json_member s v j;
       if jv_type x = json_string then do {
         password \<leftarrow> to_string s x;
         Some (c\<lparr>jc_port_password := (jc_port_password c)[j := \<lparr>spp_port = Some (ss_strndup name n), spp_password = password\<rparr>],
                jc_port_password_num := j + 1\<rparr>)
       } else Some c
     }) c
     else Some c)"

definition jconf_dscp :: "nat \<Rightarrow> json_state \<Rightarrow> json_value \<Rightarrow> jconf \<Rightarrow> jconf option" where
  "jconf_dscp w s v c =
    (if jv_type v = json_object
     then for_loop (min (jv_length v) MAX_DSCP_NUM) 0 (\<lambda>j c. do {
       (name, n, x) \<leftarrow> json_member s v j;
       if jv_type x = json_string then do {
         str \<leftarrow> to_string s x;
         str \<leftarrow> str;
         Some (c\<lparr>jc_dscp := (jc_dscp c)[j := \<lparr>sd_port = Some (ss_strndup name n), sd_dscp = parse_dscp w str\<rparr>],
                jc_dscp_num := j + 1\<rparr>)
       } else Some c
     }) c
     else Some c)"

definition jconf_string ::
  "json_state \<Rightarrow> json_value \<Rightarrow> (bytes option \<Rightarrow> jconf \<Rightarrow> jconf) \<Rightarrow> jconf \<Rightarrow> jconf option" where
  "jconf_string s v set_field c = map_option (\<lambda>str. set_field str c) (to_string s v)"

definition jconf_mode :: "bytes option \<Rightarrow> jconf \<Rightarrow> jconf" where
  "jconf_mode mode_str c =
    (case mode_str of
       None \<Rightarrow> c\<lparr>jc_mode := TCP_ONLY\<rparr>
     | Some m \<Rightarrow>
         if m = cstr ''tcp_only'' then c\<lparr>jc_mode := TCP_ONLY\<rparr>
         else if m = cstr ''tcp_and_udp'' then c\<lparr>jc_mode := TCP_AND_UDP\<rparr>
         else if m = cstr ''udp_only'' then c\<lparr>jc_mode := UDP_ONLY\<rparr>
         else c)"

definition jconf_setting ::
  "nat \<Rightarrow> (json_dbl \<Rightarrow> 64 word) \<Rightarrow> json_state \<Rightarrow> bytes \<Rightarrow> json_value \<Rightarrow> jconf \<Rightarrow> jconf option" where
  "jconf_setting w bits s name v c =
    (if name = cstr ''server'' then jconf_server s v c
     else if name = cstr ''port_password'' then jconf_port_password s v c
     else if name = cstr ''server_port'' then jconf_string s v (\<lambda>x c. c\<lparr>jc_remote_port := x\<rparr>) c
     else if name = cstr ''local_address'' then jconf_string s v (\<lambda>x c. c\<lparr>jc_local_addr := x\<rparr>) c
     else if name = cstr ''local_port'' then jconf_string s v (\<lambda>x c. c\<lparr>jc_local_port := x\<rparr>) c
     else if name = cstr ''password'' then jconf_string s v (\<lambda>x c. c\<lparr>jc_password := x\<rparr>) c
     else if name = cstr ''key'' then jconf_string s v (\<lambda>x c. c\<lparr>jc_key := x\<rparr>) c
     else if name = cstr ''method'' then jconf_string s v (\<lambda>x c. c\<lparr>jc_method := x\<rparr>) c
     else if name = cstr ''timeout'' then jconf_string s v (\<lambda>x c. c\<lparr>jc_timeout := x\<rparr>) c
     else if name = cstr ''user'' then jconf_string s v (\<lambda>x c. c\<lparr>jc_user := x\<rparr>) c
     else if name = cstr ''plugin'' then jconf_string s v (\<lambda>x c. c\<lparr>jc_plugin := (if x = Some [] then None else x)\<rparr>) c
     else if name = cstr ''plugin_opts'' then jconf_string s v (\<lambda>x c. c\<lparr>jc_plugin_opts := x\<rparr>) c
     else if name = cstr ''fast_open'' then Some (c\<lparr>jc_fast_open := jv_union bits v\<rparr>)
     else if name = cstr ''reuse_port'' then Some (c\<lparr>jc_reuse_port := jv_union bits v\<rparr>)
     else if name = cstr ''auth'' then Some c
     else if name = cstr ''nofile'' then Some (c\<lparr>jc_nofile := jv_union bits v\<rparr>)
     else if name = cstr ''nameserver'' then jconf_string s v (\<lambda>x c. c\<lparr>jc_nameserver := x\<rparr>) c
     else if name = cstr ''dscp'' then jconf_dscp w s v c
     else if name = cstr ''tunnel_address'' then jconf_string s v (\<lambda>x c. c\<lparr>jc_tunnel_address := x\<rparr>) c
     else if name = cstr ''mode'' then jconf_string s v jconf_mode c
     else if name = cstr ''mtu'' then Some (c\<lparr>jc_mtu := jv_union bits v\<rparr>)
     else if name = cstr ''mptcp'' then Some (c\<lparr>jc_mptcp := jv_union bits v\<rparr>)
     else if name = cstr ''ipv6_first'' then Some (c\<lparr>jc_ipv6_first := jv_union bits v\<rparr>)
     else if name = cstr ''no_delay'' then Some (c\<lparr>jc_no_delay := jv_union bits v\<rparr>)
     else Some c)"

definition jconf_members :: "nat \<Rightarrow> (json_dbl \<Rightarrow> 64 word) \<Rightarrow> json_state \<Rightarrow> json_value \<Rightarrow> jconf \<Rightarrow> jconf option" where
  "jconf_members w bits s v c =
    for_loop (jv_length v) 0 (\<lambda>i c. do {
      (name, n, x) \<leftarrow> json_member s v i;
      jconf_setting w bits s name x c
    }) c"

text \<open>\<open>text\<close> is what \<open>fread\<close> reads from the file, \<open>None\<close> a file that cannot be opened: \<open>fseek\<close> is then called with a null
  pointer.  When the parser returns no value, \<open>obj->type\<close> follows a null pointer.  The second result is the memory after
  \<open>json_value_free\<close>.\<close>

definition read_jconf ::
  "nat \<Rightarrow> (json_dbl \<Rightarrow> 64 word) \<Rightarrow> (nat \<Rightarrow> bool) \<Rightarrow> bytes option \<Rightarrow> (jconf \<times> json_state) option" where
  "read_jconf w bits malloc text =
    (case text of
       None \<Rightarrow> None
     | Some text \<Rightarrow>
         (case json_parse_ex \<lparr>st_max_memory = 0, st_enable_comments = False, st_malloc = malloc\<rparr> (text @ [0]) (length text) of
            Some (Parsed obj s) \<Rightarrow> do {
              v \<leftarrow> js_values s obj;
              conf \<leftarrow> (if jv_type v = json_object then jconf_members w bits s v jconf_zero else Some jconf_zero);
              r \<leftarrow> json_value_free (Some obj) s;
              (case r of Proceed s \<Rightarrow> Some (conf, s) | _ \<Rightarrow> None)
            }
          | _ \<Rightarrow> None))"

end
