(* ===== verification/JconfCorrect.thy ===== *)
theory JconfCorrect
  imports Jconf JsonPrint
begin

text \<open>
  What \<open>read_jconf\<close> makes of a configuration file, as a function of the value the text denotes; addresses, DSCP codes and
  decimal numbers.
\<close>

section \<open>The settings of a value\<close>

fun tree_string :: "json \<Rightarrow> bytes option" where
  "tree_string (JString cs) = Some (c_string cs)"
| "tree_string (JInteger i) = Some (ss_itoa (ucast i))"
| "tree_string v = None"

fun tree_union :: "(json_dbl \<Rightarrow> 64 word) \<Rightarrow> json \<Rightarrow> 32 word" where
  "tree_union bits (JBoolean b) = (if b then 1 else 0)"
| "tree_union bits (JInteger i) = ucast i"
| "tree_union bits (JDouble d) = ucast (bits d)"
| "tree_union bits JNull = 0"
| "tree_union bits (JString cs) = word_of_nat (length cs)"
| "tree_union bits (JArray vs) = word_of_nat (length vs)"
| "tree_union bits (JObject ms) = word_of_nat (length ms)"

definition numbered :: "(nat \<Rightarrow> 'a \<Rightarrow> 'c \<Rightarrow> 'c) \<Rightarrow> 'a list \<Rightarrow> 'c \<Rightarrow> 'c" where
  "numbered f xs c = fold (\<lambda>(j, x). f j x) (enumerate 0 xs) c"

definition tree_server :: "json \<Rightarrow> jconf \<Rightarrow> jconf" where
  "tree_server v c =
    (case v of
       JArray vs \<Rightarrow> numbered (\<lambda>j x c. c\<lparr>jc_remote_addr := (jc_remote_addr c)[j := parse_addr (tree_string x) (jc_remote_addr c ! j)],
           jc_remote_num := j + 1\<rparr>) (take MAX_REMOTE_NUM vs) c
     | JString cs \<Rightarrow> c\<lparr>jc_remote_addr := (jc_remote_addr c)[0 := \<lparr>addr_host = Some (c_string cs), addr_port = None\<rparr>], jc_remote_num := 1\<rparr>
     | _ \<Rightarrow> c)"

definition tree_port_password :: "json \<Rightarrow> jconf \<Rightarrow> jconf" where
  "tree_port_password v c =
    (case v of
       JObject ms \<Rightarrow> numbered (\<lambda>j (k, x) c.
         case x of
           JString p \<Rightarrow> c\<lparr>jc_port_password := (jc_port_password c)[j := \<lparr>spp_port = Some (c_string k), spp_password = Some (c_string p)\<rparr>],
             jc_port_password_num := j + 1\<rparr>
         | _ \<Rightarrow> c) (take MAX_PORT_NUM ms) c
     | _ \<Rightarrow> c)"

definition tree_dscp :: "nat \<Rightarrow> json \<Rightarrow> jconf \<Rightarrow> jconf" where
  "tree_dscp w v c =
    (case v of
       JObject ms \<Rightarrow> numbered (\<lambda>j (k, x) c.
         case x of
           JString p \<Rightarrow> c\<lparr>jc_dscp := (jc_dscp c)[j := \<lparr>sd_port = Some (c_string k), sd_dscp = parse_dscp w (c_string p)\<rparr>],
             jc_dscp_num := j + 1\<rparr>
         | _ \<Rightarrow> c) (take MAX_DSCP_NUM ms) c
     | _ \<Rightarrow> c)"

text \<open>The settings that are a plain string or number, by name.\<close>

definition string_settings :: "(bytes \<times> (bytes option \<Rightarrow> jconf \<Rightarrow> jconf)) list" where
  "string_settings =
    [(cstr ''server_port'', \<lambda>x c. c\<lparr>jc_remote_port := x\<rparr>), (cstr ''local_address'', \<lambda>x c. c\<lparr>jc_local_addr := x\<rparr>),
     (cstr ''local_port'', \<lambda>x c. c\<lparr>jc_local_port := x\<rparr>), (cstr ''password'', \<lambda>x c. c\<lparr>jc_password := x\<rparr>),
     (cstr ''key'', \<lambda>x c. c\<lparr>jc_key := x\<rparr>), (cstr ''method'', \<lambda>x c. c\<lparr>jc_method := x\<rparr>),
     (cstr ''timeout'', \<lambda>x c. c\<lparr>jc_timeout := x\<rparr>), (cstr ''user'', \<lambda>x c. c\<lparr>jc_user := x\<rparr>),
     (cstr ''plugin'', \<lambda>x c. c\<lparr>jc_plugin := (if x = Some [] then None else x)\<rparr>),
     (cstr ''plugin_opts'', \<lambda>x c. c\<lparr>jc_plugin_opts := x\<rparr>), (cstr ''nameserver'', \<lambda>x c. c\<lparr>jc_nameserver := x\<rparr>),
     (cstr ''tunnel_address'', \<lambda>x c. c\<lparr>jc_tunnel_address := x\<rparr>), (cstr ''mode'', jconf_mode)]"

definition number_settings :: "(bytes \<times> (32 word \<Rightarrow> jconf \<Rightarrow> jconf)) list" where
  "number_settings =
    [(cstr ''fast_open'', \<lambda>x c. c\<lparr>jc_fast_open := x\<rparr>), (cstr ''reuse_port'', \<lambda>x c. c\<lparr>jc_reuse_port := x\<rparr>),
     (cstr ''nofile'', \<lambda>x c. c\<lparr>jc_nofile := x\<rparr>), (cstr ''mtu'', \<lambda>x c. c\<lparr>jc_mtu := x\<rparr>),
     (cstr ''mptcp'', \<lambda>x c. c\<lparr>jc_mptcp := x\<rparr>), (cstr ''ipv6_first'', \<lambda>x c. c\<lparr>jc_ipv6_first := x\<rparr>),
     (cstr ''no_delay'', \<lambda>x c. c\<lparr>jc_no_delay := x\<rparr>)]"

definition tree_setting :: "nat \<Rightarrow> (json_dbl \<Rightarrow> 64 word) \<Rightarrow> bytes \<Rightarrow> json \<Rightarrow> jconf \<Rightarrow> jconf" where
  "tree_setting w bits name v c =
    (case map_of string_settings name of
       Some set_field \<Rightarrow> set_field (tree_string v) c
     | None \<Rightarrow>
         (case map_of number_settings name of
            Some set_field \<Rightarrow> set_field (tree_union bits v) c
          | None \<Rightarrow>
              if name = cstr ''server'' then tree_server v c
              else if name = cstr ''port_password'' then tree_port_password v c
              else if name = cstr ''dscp'' then tree_dscp w v c
              else c))"

definition tree_conf :: "nat \<Rightarrow> (json_dbl \<Rightarrow> 64 word) \<Rightarrow> json \<Rightarrow> jconf" where
  "tree_conf w bits v =
    (case v of JObject ms \<Rightarrow> fold (\<lambda>(k, x). tree_setting w bits (c_string k) x) ms jconf_zero | _ \<Rightarrow> jconf_zero)"

section \<open>Reading memory\<close>

definition node_of :: "json_state \<Rightarrow> json_value \<Rightarrow> json \<Rightarrow> bool" where
  "node_of s x v \<longleftrightarrow> (\<exists>a p b. js_values s a = Some x \<and> stored (js_values s) (js_blocks s) p a b v)"

lemma written_string_nul: "written_string (map Some (cs @ 0 # r)) = Some (c_string cs)"
  by (induction cs) (auto simp: c_string_def)

lemma written_string_append: "written_string (map Some cs @ Some 0 # r) = Some (c_string cs)"
  by (induction cs) (auto simp: c_string_def)

lemma strndup_c_string: "ss_strndup (c_string cs) (length cs) = c_string cs"
  by (simp add: ss_strndup_def c_string_def length_takeWhile_le)

lemma to_string_stored:
  assumes "node_of s x v" shows "to_string s x = Some (tree_string v)"
  using assms
  by (cases v)
     (auto simp: node_of_def node_is_def to_string_def c_string_at_def written_string_append strndup_c_string)

lemma union_stored:
  assumes "node_of s x v" shows "jv_union bits x = tree_union bits v"
  using assms by (cases v) (auto simp: node_of_def node_is_def jv_union_def)

lemma stored_list_nth:
  assumes "stored_list H M p a b vs" "i < length vs"
  shows "\<exists>c. stored H M p (child_addresses a vs ! i) c (vs ! i)"
  using assms
proof (induction vs arbitrary: a b i)
  case (Cons v vs)
  then show ?case by (cases i) auto
qed simp

lemma element_stored:
  assumes "node_of s x (JArray vs)" "i < length vs"
  shows "\<exists>y. json_element s x i = Some y \<and> node_of s y (vs ! i)"
proof -
  obtain a p b where x: "js_values s a = Some x" "stored (js_values s) (js_blocks s) p a b (JArray vs)"
    using assms(1) by (auto simp: node_of_def)
  have ne: "vs \<noteq> []" using assms(2) by auto
  let ?c = "child_addresses (a + 1) vs ! i"
  have m: "jv_ptr x = Mem b" "js_blocks s b = Some (Pointers (map Some (child_addresses (a + 1) vs)))"
      "stored_list (js_values s) (js_blocks s) (Some a) (a + 1) (b + 1) vs"
    using x ne by (auto simp: node_is_def)
  obtain d where d: "stored (js_values s) (js_blocks s) (Some a) ?c d (vs ! i)"
    using stored_list_nth [OF m(3) assms(2)] by blast
  obtain y where "js_values s ?c = Some y" using stored_parent [OF d] by blast
  then show ?thesis using d m assms(2) by (auto simp: json_element_def node_of_def)
qed

lemma member_entry_nth:
  "i < length ms \<Longrightarrow> member_entries off a ms ! i =
    \<lparr>je_name = Some (off + names_size (take i ms)), je_name_length = Some (length (fst (ms ! i))),
     je_value = Some (child_addresses a (map snd ms) ! i)\<rparr>"
proof (induction ms arbitrary: off a i)
  case (Cons m ms)
  obtain k v where m: "m = (k, v)" by force
  show ?case using Cons m by (cases i) auto
qed simp

lemma drop_names:
  assumes "i < length ms"
  shows "drop (names_size (take i ms)) (names_bytes ms) = fst (ms ! i) @ 0 # names_bytes (drop (Suc i) ms)"
proof -
  have "ms = take i ms @ ms ! i # drop (Suc i) ms" using assms by (simp add: id_take_nth_drop)
  then have "names_bytes ms = names_bytes (take i ms) @ fst (ms ! i) @ 0 # names_bytes (drop (Suc i) ms)"
    by (metis names_bytes_simps(2,3))
  then show ?thesis by simp
qed

lemma member_stored:
  assumes "node_of s x (JObject ms)" "i < length ms"
  shows "\<exists>y. json_member s x i = Some (c_string (fst (ms ! i)), length (fst (ms ! i)), y) \<and> node_of s y (snd (ms ! i))"
proof -
  obtain a p b where x: "js_values s a = Some x" "stored (js_values s) (js_blocks s) p a b (JObject ms)"
    using assms(1) by (auto simp: node_of_def)
  have ne: "ms \<noteq> []" using assms(2) by auto
  let ?c = "child_addresses (a + 1) (map snd ms) ! i"
  have m: "jv_ptr x = Mem b" "js_blocks s b = Some (Members (member_entries 0 (a + 1) ms) (map Some (names_bytes ms)))"
      "stored_list (js_values s) (js_blocks s) (Some a) (a + 1) (b + 1) (map snd ms)"
    using x ne by (auto simp: node_is_def stored_members_list)
  obtain d where d: "stored (js_values s) (js_blocks s) (Some a) ?c d (map snd ms ! i)"
    using stored_list_nth [OF m(3), of i] assms(2) by auto
  obtain y where y: "js_values s ?c = Some y" using stored_parent [OF d] by blast
  have "c_string_at s b (names_size (take i ms)) = Some (c_string (fst (ms ! i)))"
    using m(2) assms(2) by (simp add: c_string_at_def drop_map drop_names written_string_append)
  then show ?thesis
    using d y m assms(2) by (auto simp: json_member_def node_of_def member_entry_nth)
qed

lemma for_loop_numbered:
  assumes "\<And>i c. i < length xs \<Longrightarrow> f (k + i) c = Some (g (k + i) (xs ! i) c)"
  shows "for_loop (length xs) k f c = Some (fold (\<lambda>(j, x). g j x) (enumerate k xs) c)"
  using assms
proof (induction xs arbitrary: k c)
  case (Cons x xs)
  have "f k c = Some (g k x c)" using Cons.prems [of 0] by simp
  moreover have "for_loop (length xs) (Suc k) f (g k x c) = Some (fold (\<lambda>(j, x). g j x) (enumerate (Suc k) xs) (g k x c))"
    using Cons.prems [of "Suc _"] by (intro Cons.IH) (auto simp: nth_Cons)
  ultimately show ?case by simp
qed simp

lemma loop_numbered:
  assumes "\<And>i c. i < length xs \<Longrightarrow> f i c = Some (g i (xs ! i) c)" "n = length xs"
  shows "for_loop n 0 f c = Some (numbered g xs c)"
  using for_loop_numbered [of xs f 0 g c] assms by (simp add: numbered_def)

lemma node_type:
  "node_of s x v \<Longrightarrow> jv_type x = (case v of JObject _ \<Rightarrow> json_object | JArray _ \<Rightarrow> json_array | JInteger _ \<Rightarrow> json_integer
     | JDouble _ \<Rightarrow> json_double | JString _ \<Rightarrow> json_string | JBoolean _ \<Rightarrow> json_boolean | JNull \<Rightarrow> json_null)"
  by (cases v) (auto simp: node_of_def node_is_def)

lemma node_length:
  "node_of s x (JArray vs) \<Longrightarrow> jv_length x = length vs" "node_of s x (JObject ms) \<Longrightarrow> jv_length x = length ms"
  by (auto simp: node_of_def node_is_def)

lemma server_stored:
  assumes x: "node_of s x v"
  shows "jconf_server s x c = Some (tree_server v c)"
proof (cases v)
  case (JArray vs)
  let ?xs = "take MAX_REMOTE_NUM vs"
  have "for_loop (min (length vs) MAX_REMOTE_NUM) 0 (\<lambda>j c. do {
         y \<leftarrow> json_element s x j;
         addr_str \<leftarrow> to_string s y;
         Some (c\<lparr>jc_remote_addr := (jc_remote_addr c)[j := parse_addr addr_str (jc_remote_addr c ! j)],
                jc_remote_num := j + 1\<rparr>)
       }) c = Some (numbered (\<lambda>j y c. c\<lparr>jc_remote_addr := (jc_remote_addr c)[j := parse_addr (tree_string y) (jc_remote_addr c ! j)],
           jc_remote_num := j + 1\<rparr>) ?xs c)"
  proof (rule loop_numbered)
    fix i c assume i: "i < length ?xs"
    then obtain y where "json_element s x i = Some y" "node_of s y (vs ! i)"
      using element_stored [of s x vs i] x JArray by auto
    then show "(do {
         y \<leftarrow> json_element s x i;
         addr_str \<leftarrow> to_string s y;
         Some (c\<lparr>jc_remote_addr := (jc_remote_addr c)[i := parse_addr addr_str (jc_remote_addr c ! i)],
                jc_remote_num := i + 1\<rparr>)
       }) = Some (c\<lparr>jc_remote_addr := (jc_remote_addr c)[i := parse_addr (tree_string (?xs ! i)) (jc_remote_addr c ! i)],
           jc_remote_num := i + 1\<rparr>)"
      using i to_string_stored [of s y "vs ! i"] by simp
  qed simp
  then show ?thesis
    using node_type [OF x] node_length(1) [of s x vs] x JArray by (simp add: jconf_server_def tree_server_def)
next
  case (JString cs)
  then show ?thesis using node_type [OF x] to_string_stored [OF x] by (simp add: jconf_server_def tree_server_def)
qed (use node_type [OF x] in \<open>simp_all add: jconf_server_def tree_server_def\<close>)

lemma string_node: "node_of s y v \<Longrightarrow> jv_type y = json_string \<longleftrightarrow> (\<exists>p. v = JString p)"
  by (cases v) (auto simp: node_of_def node_is_def)

lemma port_password_stored:
  assumes x: "node_of s x v"
  shows "jconf_port_password s x c = Some (tree_port_password v c)"
proof (cases v)
  case (JObject ms)
  let ?xs = "take MAX_PORT_NUM ms"
  let ?f = "\<lambda>j c. do {
       (name, n, x) \<leftarrow> json_member s x j;
       if jv_type x = json_string then do {
         password \<leftarrow> to_string s x;
         Some (c\<lparr>jc_port_password := (jc_port_password c)[j := \<lparr>spp_port = Some (ss_strndup name n), spp_password = password\<rparr>],
                jc_port_password_num := j + 1\<rparr>)
       } else Some c
     }"
  let ?g = "\<lambda>j (k, x) c. case x of
           JString p \<Rightarrow> c\<lparr>jc_port_password := (jc_port_password c)[j := \<lparr>spp_port = Some (c_string k), spp_password = Some (c_string p)\<rparr>],
             jc_port_password_num := j + 1\<rparr>
         | _ \<Rightarrow> c"
  have "for_loop (min (length ms) MAX_PORT_NUM) 0 ?f c = Some (numbered ?g ?xs c)"
  proof (rule loop_numbered)
    fix i and c :: jconf assume i: "i < length ?xs"
    obtain k w where kw: "ms ! i = (k, w)" by force
    from i obtain y where y: "json_member s x i = Some (c_string k, length k, y)" "node_of s y w"
      using member_stored [of s x ms i] x JObject kw by auto
    have e: "?xs ! i = (k, w)" using i kw by simp
    show "?f i c = Some (?g i (?xs ! i) c)"
      unfolding e using y(1) string_node [OF y(2)] to_string_stored [OF y(2)]
      by (cases w) (simp_all add: strndup_c_string)
  qed simp
  then show ?thesis
    using node_type [OF x] node_length(2) [of s x ms] x JObject by (simp add: jconf_port_password_def tree_port_password_def)
qed (use node_type [OF x] in \<open>simp_all add: jconf_port_password_def tree_port_password_def\<close>)

lemma dscp_stored:
  assumes x: "node_of s x v"
  shows "jconf_dscp w s x c = Some (tree_dscp w v c)"
proof (cases v)
  case (JObject ms)
  let ?xs = "take MAX_DSCP_NUM ms"
  let ?f = "\<lambda>j c. do {
       (name, n, x) \<leftarrow> json_member s x j;
       if jv_type x = json_string then do {
         str \<leftarrow> to_string s x;
         str \<leftarrow> str;
         Some (c\<lparr>jc_dscp := (jc_dscp c)[j := \<lparr>sd_port = Some (ss_strndup name n), sd_dscp = parse_dscp w str\<rparr>],
                jc_dscp_num := j + 1\<rparr>)
       } else Some c
     }"
  let ?g = "\<lambda>j (k, x) c. case x of
           JString p \<Rightarrow> c\<lparr>jc_dscp := (jc_dscp c)[j := \<lparr>sd_port = Some (c_string k), sd_dscp = parse_dscp w (c_string p)\<rparr>],
             jc_dscp_num := j + 1\<rparr>
         | _ \<Rightarrow> c"
  have "for_loop (min (length ms) MAX_DSCP_NUM) 0 ?f c = Some (numbered ?g ?xs c)"
  proof (rule loop_numbered)
    fix i and c :: jconf assume i: "i < length ?xs"
    obtain k u where kw: "ms ! i = (k, u)" by force
    from i obtain y where y: "json_member s x i = Some (c_string k, length k, y)" "node_of s y u"
      using member_stored [of s x ms i] x JObject kw by auto
    have e: "?xs ! i = (k, u)" using i kw by simp
    show "?f i c = Some (?g i (?xs ! i) c)"
      unfolding e using y(1) string_node [OF y(2)] to_string_stored [OF y(2)]
      by (cases u) (simp_all add: strndup_c_string)
  qed simp
  then show ?thesis
    using node_type [OF x] node_length(2) [of s x ms] x JObject by (simp add: jconf_dscp_def tree_dscp_def)
qed (use node_type [OF x] in \<open>simp_all add: jconf_dscp_def tree_dscp_def\<close>)

lemma setting_stored:
  assumes x: "node_of s x v"
  shows "jconf_setting w bits s name x c = Some (tree_setting w bits name v c)"
proof -
  have n: "cstr a = cstr b \<longleftrightarrow> map chr a = map chr b" for a b by (simp add: cstr_def)
  note t = tree_setting_def string_settings_def number_settings_def
  show ?thesis
    unfolding jconf_setting_def jconf_string_def to_string_stored [OF x] union_stored [OF x] server_stored [OF x]
      port_password_stored [OF x] dscp_stored [OF x] option.map t map_of.simps map_of_Cons_code
    by (simp add: n chr_def)
qed

section \<open>\<open>read_jconf\<close>\<close>

lemma for_loop_fold:
  assumes "\<And>i c. i < length xs \<Longrightarrow> f i c = Some (g (xs ! i) c)"
  shows "for_loop (length xs) 0 f c = Some (fold g xs c)"
proof -
  have e: "fold (\<lambda>(j, x). g x) (enumerate k xs) c = fold g xs c" for k c by (induction xs arbitrary: k c) auto
  show ?thesis using loop_numbered [of xs f "\<lambda>j. g" "length xs" c] assms e by (simp add: numbered_def)
qed

lemma members_stored:
  assumes x: "node_of s x (JObject ms)"
  shows "jconf_members w bits s x jconf_zero = Some (tree_conf w bits (JObject ms))"
  unfolding jconf_members_def tree_conf_def json.case node_length(2) [OF x]
proof (rule for_loop_fold)
  fix i c assume i: "i < length ms"
  obtain k v where kv: "ms ! i = (k, v)" by force
  obtain y where "json_member s x i = Some (c_string k, length k, y)" "node_of s y v"
    using member_stored [OF x i] kv by auto
  then show "(do { (name, n, x) \<leftarrow> json_member s x i; jconf_setting w bits s name x c }) =
      Some ((case ms ! i of (k, x) \<Rightarrow> tree_setting w bits (c_string k) x) c)"
    using kv by (simp add: setting_stored)
qed

theorem read_jconf_settings:
  assumes "length txt \<le> 2 ^ 23" "\<And>n. malloc n"
  shows "case json_reference False txt of
      Some (Accept v) \<Rightarrow> \<exists>s. read_jconf w bits malloc (Some txt) = Some (tree_conf w bits v, s) \<and> json_empty s
    | _ \<Rightarrow> read_jconf w bits malloc (Some txt) = None"
proof -
  let ?st = "\<lparr>st_max_memory = 0, st_enable_comments = False, st_malloc = malloc\<rparr>"
  have p: "case json_reference False txt of
      Some (Accept v) \<Rightarrow> \<exists>s. json_parse_ex ?st (txt @ [0]) (length txt) = Some (Parsed 0 s) \<and> json_holds v s
    | Some (Reject e line) \<Rightarrow> \<exists>s. json_parse_ex ?st (txt @ [0]) (length txt) = Some (Rejected e s) \<and> js_cur_line s = line
        \<and> json_empty s
    | _ \<Rightarrow> False"
    using json_parse_ex_reference [of "txt" ?st] assms by simp
  show ?thesis
  proof (cases "\<exists>v. json_reference False txt = Some (Accept v)")
    case True
    then obtain v where v: "json_reference False txt = Some (Accept v)" by blast
    then obtain s where s: "json_parse_ex ?st (txt @ [0]) (length txt) = Some (Parsed 0 s)" "json_holds v s" using p by auto
    obtain s' where s': "json_value_free (Some 0) s = Some (Proceed s')" "json_empty s'" using json_value_free_all [OF s(2)] by blast
    have st: "stored (js_values s) (js_blocks s) None 0 (json_nodes v) v" using s(2) by (simp add: json_holds_def)
    obtain x where x: "js_values s 0 = Some x" using stored_parent [OF st] by blast
    then have n: "node_of s x v" using st by (auto simp: node_of_def)
    have "(if jv_type x = json_object then jconf_members w bits s x jconf_zero else Some jconf_zero) = Some (tree_conf w bits v)"
      using node_type [OF n] n by (cases v) (simp_all add: members_stored, simp_all add: tree_conf_def)
    then show ?thesis using v s(1) s' x by (simp add: read_jconf_def)
  next
    case False
    then show ?thesis using p by (auto simp: read_jconf_def split: option.splits json_progress.splits)
  qed
qed

section \<open>Bounds of the settings\<close>

definition jconf_ok :: "jconf \<Rightarrow> bool" where
  "jconf_ok c \<longleftrightarrow> length (jc_remote_addr c) = MAX_REMOTE_NUM \<and> jc_remote_num c \<le> MAX_REMOTE_NUM
     \<and> length (jc_port_password c) = MAX_PORT_NUM \<and> jc_port_password_num c \<le> MAX_PORT_NUM
     \<and> length (jc_dscp c) = MAX_DSCP_NUM \<and> jc_dscp_num c \<le> MAX_DSCP_NUM
     \<and> (\<forall>d\<in>set (jc_dscp c). 0 \<le> sd_dscp d \<and> sd_dscp d \<le> 63)
     \<and> jc_mode c \<in> {TCP_ONLY, TCP_AND_UDP, UDP_ONLY} \<and> jc_plugin c \<noteq> Some []"

lemma digit_uint:
  fixes b :: byte
  assumes "chr c \<le> b" "b \<le> chr d" "chr CHR ''0'' \<le> chr c"
  shows "int (unat (chr c)) - 48 \<le> uint (b - chr CHR ''0'')" "uint (b - chr CHR ''0'') \<le> int (unat (chr d)) - 48"
proof -
  have l: "chr CHR ''0'' \<le> b" using assms by order
  have "unat (chr c) \<le> unat b" "unat b \<le> unat (chr d)" "48 \<le> unat b"
    using assms(1,2) l by (simp_all add: word_le_nat_alt chr_def)
  moreover have "unat (b - chr CHR ''0'') = unat b - 48" using l by (simp add: unat_sub chr_def)
  ultimately show "int (unat (chr c)) - 48 \<le> uint (b - chr CHR ''0'')" "uint (b - chr CHR ''0'') \<le> int (unat (chr d)) - 48"
    unfolding uint_nat by (simp_all only: of_nat_diff)
qed

lemma parse_dscp_range: "0 \<le> parse_dscp w str \<and> parse_dscp w str \<le> 63"
proof -
  have cs: "push_bit 3 (uint (str ! 2 - chr CHR ''0'')) \<in> {0..63}" if "chr CHR ''0'' \<le> str ! 2" "str ! 2 \<le> chr CHR ''7''"
    using digit_uint [OF that] by (simp add: push_bit_eq_mult chr_def)
  have af: "push_bit 3 (uint (str ! 2 - chr CHR ''0'')) OR push_bit 1 (uint (str ! 3 - chr CHR ''0'')) \<in> {0..63}"
    if "chr CHR ''1'' \<le> str ! 2" "str ! 2 \<le> chr CHR ''4''" "chr CHR ''1'' \<le> str ! 3" "str ! 3 \<le> chr CHR ''3''"
  proof -
    have "uint (str ! 2 - chr CHR ''0'') \<in> {1, 2, 3, 4}" "uint (str ! 3 - chr CHR ''0'') \<in> {1, 2, 3}"
      using digit_uint [OF that(1,2)] digit_uint [OF that(3,4)] by (auto simp: chr_def)
    then show ?thesis by auto
  qed
  show ?thesis
    using cs af
    by (auto simp: parse_dscp_def DSCP_EF_def DSCP_MIN_def DSCP_MAX_def DSCP_DEFAULT_def Let_def split: prod.splits)
qed

lemma numbered_invariant:
  assumes "\<And>j x c. j < length xs \<Longrightarrow> P c \<Longrightarrow> P (f j x c)" "P c"
  shows "P (numbered f xs c)"
proof -
  have "P (fold (\<lambda>(j, x). f j x) (enumerate k ys) c)" if "k + length ys \<le> length xs" "P c" for k ys c
    using that
  proof (induction ys arbitrary: k c)
    case (Cons y ys)
    have "P (f k y c)" by (rule assms(1)) (use Cons.prems in simp_all)
    then show ?case using Cons.IH [of "Suc k" "f k y c"] Cons.prems(1) by simp
  qed simp
  then show ?thesis using assms(2) by (simp add: numbered_def)
qed

lemma set_update_all: "(\<forall>x\<in>set xs. P x) \<Longrightarrow> P y \<Longrightarrow> \<forall>x\<in>set (xs[i := y]). P x"
  using set_update_subset_insert [of xs i y] by blast

lemma jconf_mode_ok: "jconf_ok c \<Longrightarrow> jconf_ok (jconf_mode m c)"
  by (simp add: jconf_ok_def jconf_mode_def split: option.splits)

lemma tree_server_ok:
  assumes "jconf_ok c" shows "jconf_ok (tree_server v c)"
proof (cases v)
  case (JArray vs)
  have "jconf_ok (numbered (\<lambda>j x c. c\<lparr>jc_remote_addr := (jc_remote_addr c)[j := parse_addr (tree_string x) (jc_remote_addr c ! j)],
           jc_remote_num := j + 1\<rparr>) (take MAX_REMOTE_NUM vs) c)"
    by (rule numbered_invariant [where P = jconf_ok]) (use assms in \<open>simp_all add: jconf_ok_def\<close>)
  then show ?thesis using JArray by (simp add: tree_server_def)
qed (use assms in \<open>simp_all add: tree_server_def jconf_ok_def MAX_REMOTE_NUM_def\<close>)

lemma tree_port_password_ok:
  assumes "jconf_ok c" shows "jconf_ok (tree_port_password v c)"
proof (cases v)
  case (JObject ms)
  have "jconf_ok (numbered (\<lambda>j (k, x) c.
         case x of
           JString p \<Rightarrow> c\<lparr>jc_port_password := (jc_port_password c)[j := \<lparr>spp_port = Some (c_string k), spp_password = Some (c_string p)\<rparr>],
             jc_port_password_num := j + 1\<rparr>
         | _ \<Rightarrow> c) (take MAX_PORT_NUM ms) c)"
    by (rule numbered_invariant [where P = jconf_ok])
       (use assms in \<open>simp_all add: jconf_ok_def split: prod.split json.split\<close>)
  then show ?thesis using JObject by (simp add: tree_port_password_def)
qed (use assms in \<open>simp_all add: tree_port_password_def\<close>)

lemma dscp_entry_ok:
  assumes "jconf_ok c" "j < MAX_DSCP_NUM"
  shows "jconf_ok (c\<lparr>jc_dscp := (jc_dscp c)[j := \<lparr>sd_port = p, sd_dscp = parse_dscp w str\<rparr>], jc_dscp_num := Suc j\<rparr>)"
proof -
  have "\<forall>d\<in>set ((jc_dscp c)[j := \<lparr>sd_port = p, sd_dscp = parse_dscp w str\<rparr>]). 0 \<le> sd_dscp d \<and> sd_dscp d \<le> 63"
    by (rule set_update_all) (use assms(1) parse_dscp_range in \<open>auto simp: jconf_ok_def\<close>)
  then show ?thesis using assms by (simp add: jconf_ok_def)
qed

lemma tree_dscp_ok:
  assumes "jconf_ok c" shows "jconf_ok (tree_dscp w v c)"
proof (cases v)
  case (JObject ms)
  have "jconf_ok (numbered (\<lambda>j (k, x) c.
         case x of
           JString p \<Rightarrow> c\<lparr>jc_dscp := (jc_dscp c)[j := \<lparr>sd_port = Some (c_string k), sd_dscp = parse_dscp w (c_string p)\<rparr>],
             jc_dscp_num := j + 1\<rparr>
         | _ \<Rightarrow> c) (take MAX_DSCP_NUM ms) c)"
    by (rule numbered_invariant [where P = jconf_ok])
       (use assms in \<open>auto intro: dscp_entry_ok split: prod.split json.split\<close>)
  then show ?thesis using JObject by (simp add: tree_dscp_def)
qed (use assms in \<open>simp_all add: tree_dscp_def\<close>)

lemma map_of_all: "(\<forall>(k, f)\<in>set xs. P f) \<Longrightarrow> map_of xs name = Some f \<Longrightarrow> P f"
  by (auto dest: map_of_SomeD)

lemma tree_setting_ok:
  assumes "jconf_ok c" shows "jconf_ok (tree_setting w bits name v c)"
proof -
  have s: "\<forall>(k, f)\<in>set string_settings. jconf_ok (f x c)" for x
    using assms jconf_mode_ok [OF assms] by (auto simp: string_settings_def jconf_ok_def)
  have n: "\<forall>(k, f)\<in>set number_settings. jconf_ok (f x c)" for x
    using assms by (auto simp: number_settings_def jconf_ok_def)
  show ?thesis
    using assms map_of_all [OF s] map_of_all [OF n]
    by (auto simp: tree_setting_def tree_server_ok tree_port_password_ok tree_dscp_ok split: option.splits)
qed

lemma tree_conf_ok: "jconf_ok (tree_conf w bits v)"
proof -
  have z: "jconf_ok jconf_zero" by (simp add: jconf_ok_def jconf_zero_def TCP_ONLY_def)
  have "jconf_ok (fold (\<lambda>(k, x). tree_setting w bits (c_string k) x) ms c)" if "jconf_ok c" for ms c
    using that by (induction ms arbitrary: c) (auto simp: tree_setting_ok)
  then show ?thesis using z by (simp add: tree_conf_def split: json.splits)
qed

section \<open>Addresses\<close>

lemma takeWhile_first: "c \<notin> set xs \<Longrightarrow> takeWhile (\<lambda>b. b \<noteq> c) (xs @ c # ys) = xs"
  by (induction xs) auto

lemma strchr_append: "c \<notin> set xs \<Longrightarrow> c_strchr (xs @ c # ys) 0 c = Some (length xs)"
  by (simp add: c_strchr_def takeWhile_first)

lemma strchr_none: "c \<notin> set (drop k xs) \<Longrightarrow> c_strchr xs k c = None"
  by (simp add: c_strchr_def)

definition last_colon :: "bytes \<Rightarrow> bytes \<Rightarrow> bytes \<Rightarrow> bool" where
  "last_colon str xs ys \<longleftrightarrow> str = xs @ chr CHR '':'' # ys \<and> chr CHR '':'' \<notin> set ys"

lemma count_colons_last:
  assumes "last_colon str xs ys" "k \<le> length xs"
  shows "count_colons str (c_strchr str k (chr CHR '':'')) n ret
    = (n + count_list (drop k xs) (chr CHR '':'') + 1, int (length xs))"
  using assms(2)
proof (induction "length xs - k" arbitrary: k n ret rule: less_induct)
  case less
  let ?c = "chr CHR '':''"
  have str: "str = xs @ ?c # ys" "?c \<notin> set ys" using assms(1) by (simp_all add: last_colon_def)
  show ?case
  proof (cases "?c \<in> set (drop k xs)")
    case False
    then have "c_strchr str k ?c = Some (length xs)"
      using less.prems str(1) takeWhile_first [of ?c "drop k xs" ys] by (simp add: c_strchr_def)
    moreover have "c_strchr str (length xs + 1) ?c = None" using str by (intro strchr_none) simp
    ultimately show ?thesis using str(1) False by (simp add: count_colons.simps count_list_0_iff)
  next
    case True
    then obtain us vs where uv: "drop k xs = us @ ?c # vs" "?c \<notin> set us" by (meson split_list_first)
    let ?p = "k + length us"
    have "drop k str = us @ ?c # vs @ ?c # ys" using less.prems uv(1) str(1) by simp
    then have p: "c_strchr str k ?c = Some ?p"
      using takeWhile_first [OF uv(2), of "vs @ ?c # ys"] by (simp add: c_strchr_def)
    have len: "length xs = k + length us + 1 + length vs"
      using arg_cong [OF uv(1), of length] less.prems by simp
    have vs: "drop (?p + 1) xs = vs"
    proof -
      have "drop (?p + 1) xs = drop (length us + 1) (drop k xs)" by (simp add: add_ac)
      then show ?thesis using uv(1) by simp
    qed
    have "count_colons str (c_strchr str (?p + 1) ?c) (n + 1) (int ?p)
        = (n + 1 + count_list vs ?c + 1, int (length xs))"
      using less.hyps [of "?p + 1" "n + 1" "int ?p"] len vs by simp
    moreover have "count_list (drop k xs) ?c = 1 + count_list vs ?c"
      using uv by (simp add: count_list_append count_list_0_iff)
    moreover have "?p < length str" using len str(1) by simp
    ultimately show ?thesis using p by (simp add: count_colons.simps [of str "Some ?p"])
  qed
qed

lemma parse_addr_split:
  assumes "fst (cork_ip_init str) = -1" "last_colon str xs ys"
  shows "parse_addr (Some str) addr =
    (if chr CHR '':'' \<notin> set xs then \<lparr>addr_host = Some xs, addr_port = Some ys\<rparr>
     else if xs ! (length xs - 1) \<noteq> chr CHR '']''
     then \<lparr>addr_host = Some (ss_strndup (drop 1 str) (length str - 2)), addr_port = None\<rparr>
     else \<lparr>addr_host = Some (ss_strndup (drop 1 str) (length xs - 2)), addr_port = Some ys\<rparr>)"
proof -
  let ?c = "chr CHR '':''"
  have str: "str = xs @ ?c # ys" using assms(2) by (simp add: last_colon_def)
  have cc: "count_colons str (c_strchr str 0 ?c) 0 (- 1) = (count_list xs ?c + 1, int (length xs))"
    using count_colons_last [OF assms(2), of 0 0 "- 1"] by simp
  have n: "1 < count_list xs ?c + 1 \<longleftrightarrow> ?c \<in> set xs" using count_list_0_iff [of xs ?c] by auto
  have "drop (nat (int (length xs)) + 1) str = ys" "ss_strndup str (nat (int (length xs))) = xs" using str by (simp_all add: ss_strndup_def)
  moreover have "?c \<in> set xs \<Longrightarrow> str ! nat (int (length xs) - 1) = xs ! (length xs - 1)"
    using str by (cases xs rule: rev_cases) (simp_all add: nth_append nat_diff_distrib)
  moreover have "nat (int (length xs) - 2) = length xs - 2" by simp
  ultimately show ?thesis using assms(1) cc n by (simp add: parse_addr_def)
qed

theorem parse_addr_forms:
  assumes "fst (cork_ip_init (host @ chr CHR '':'' # port)) = - 1" "chr CHR '':'' \<notin> set host" "chr CHR '':'' \<notin> set port"
    and "fst (cork_ip_init (chr CHR ''['' # v6 @ [chr CHR '']'', chr CHR '':''] @ port)) = - 1"
      "fst (cork_ip_init (chr CHR ''['' # v6 @ [chr CHR '']''])) = - 1" "chr CHR '']'' \<notin> set v6" "2 \<le> count_list v6 (chr CHR '':'')"
    and "fst (cork_ip_init ip) = 0"
  shows "parse_addr (Some (host @ chr CHR '':'' # port)) addr = \<lparr>addr_host = Some host, addr_port = Some port\<rparr>"
    "parse_addr (Some (chr CHR ''['' # v6 @ [chr CHR '']'', chr CHR '':''] @ port)) addr = \<lparr>addr_host = Some v6, addr_port = Some port\<rparr>"
    "parse_addr (Some (chr CHR ''['' # v6 @ [chr CHR '']''])) addr = \<lparr>addr_host = Some v6, addr_port = None\<rparr>"
    "parse_addr (Some ip) addr = \<lparr>addr_host = Some ip, addr_port = None\<rparr>"
proof -
  let ?c = "chr CHR '':''" let ?l = "chr CHR ''[''" let ?r = "chr CHR '']''"
  have "last_colon (host @ ?c # port) host port" using assms(3) by (simp add: last_colon_def)
  from parse_addr_split [OF assms(1) this] show "parse_addr (Some (host @ ?c # port)) addr = \<lparr>addr_host = Some host, addr_port = Some port\<rparr>"
    using assms(2) by simp
  have c6: "?c \<in> set v6" using assms(7) count_list_0_iff [of v6 ?c] by auto
  have "last_colon (?l # v6 @ [?r, ?c] @ port) (?l # v6 @ [?r]) port" using assms(3) by (simp add: last_colon_def)
  from parse_addr_split [OF assms(4) this]
  show "parse_addr (Some (?l # v6 @ [?r, ?c] @ port)) addr = \<lparr>addr_host = Some v6, addr_port = Some port\<rparr>"
    using c6 by (simp add: ss_strndup_def nth_append)
  obtain us vs where uv: "v6 = us @ ?c # vs" "?c \<notin> set vs" using c6 by (meson split_list_last)
  have cr: "?c \<noteq> ?r" by (simp add: chr_def)
  have lc: "last_colon (?l # v6 @ [?r]) (?l # us) (vs @ [?r])" using uv cr by (simp add: last_colon_def)
  have "count_list us ?c + 1 = count_list v6 ?c" using uv by (simp add: count_list_append count_list_0_iff)
  then have "count_list us ?c \<noteq> 0" using assms(7) by linarith
  then have cu: "?c \<in> set us" by (simp add: count_list_0_iff)
  then have "(?l # us) ! (length (?l # us) - 1) = last us" by (cases us rule: rev_cases) (auto simp: nth_append)
  moreover have "last us \<in> set v6" using cu uv(1) by (cases us rule: rev_cases) auto
  ultimately have nr: "(?l # us) ! (length (?l # us) - 1) \<noteq> ?r" using assms(6) by auto
  show "parse_addr (Some (?l # v6 @ [?r])) addr = \<lparr>addr_host = Some v6, addr_port = None\<rparr>"
    unfolding parse_addr_split [OF assms(5) lc] using nr cu by (simp add: ss_strndup_def)
  show "parse_addr (Some ip) addr = \<lparr>addr_host = Some ip, addr_port = None\<rparr>"
    using assms(8) by (simp add: parse_addr_def)
qed

section \<open>Decimal numbers\<close>

declare itoa_loop.simps [simp del]

lemma itoa_loop_decimal:
  assumes "sg = 1 \<or> sg = - 1" "0 \<le> sg * i"
  shows "itoa_loop sg i p = decimal (nat \<bar>i\<bar>) @ p"
  using assms(2)
proof (induction "nat \<bar>i\<bar>" arbitrary: i p rule: less_induct)
  case less
  have i: "\<bar>i\<bar> = sg * i" "i = sg * \<bar>i\<bar>" using assms(1) less.prems by auto
  have q: "i sdiv 10 = sg * (\<bar>i\<bar> div 10)"
    using assms(1) i by (auto simp: signed_divide_int_def sgn_if)
  have m: "sg * (i smod 10) = \<bar>i\<bar> mod 10"
    using assms(1) less.prems by (auto simp: signed_modulo_int_def sgn_if)
  have dig: "(word_of_int (48 + \<bar>i\<bar> mod 10) :: byte) = word_of_nat (48 + nat \<bar>i\<bar> mod 10)"
  proof -
    have "48 + \<bar>i\<bar> mod 10 = int (48 + nat \<bar>i\<bar> mod 10)" by (simp add: nat_mod_distrib zmod_int)
    then show ?thesis by (simp only: of_int_of_nat_eq)
  qed
  show ?case
  proof (cases "\<bar>i\<bar> < 10")
    case True
    then have "i sdiv 10 = 0" "nat \<bar>i\<bar> < 10" using q by simp_all
    then show ?thesis using True m dig by (simp add: itoa_loop.simps [of sg i p] decimal.simps [of "nat \<bar>i\<bar>"] Let_def)
  next
    case False
    then have "i sdiv 10 \<noteq> 0" "\<not> nat \<bar>i\<bar> < 10" using q assms(1) by auto
    moreover have "0 \<le> sg * (i sdiv 10)" using q assms(1) by auto
    moreover have ab: "nat \<bar>i sdiv 10\<bar> = nat \<bar>i\<bar> div 10" by (simp add: sdiv_10 nat_div_distrib)
    moreover have "nat \<bar>i sdiv 10\<bar> < nat \<bar>i\<bar>" using ab False by simp
    ultimately show ?thesis
      using False m dig less.hyps [of "i sdiv 10"]
      by (simp add: itoa_loop.simps [of sg i p] decimal.simps [of "nat \<bar>i\<bar>"] Let_def)
  qed
qed

lemma decimal_length: "n < 10 ^ k \<Longrightarrow> 0 < k \<Longrightarrow> length (decimal n) \<le> k"
proof (induction k arbitrary: n)
  case (Suc k)
  show ?case
  proof (cases "n < 10")
    case False
    then have "0 < k" using Suc.prems by (cases k) auto
    moreover have "n div 10 < 10 ^ k" using Suc.prems(1) by (simp add: less_mult_imp_div_less)
    ultimately show ?thesis using Suc.IH [of "n div 10"] False by (simp add: decimal.simps [of n])
  qed (simp add: decimal.simps)
qed simp

theorem ss_itoa_decimal:
  "ss_itoa i = (if sint i < 0 then chr CHR ''-'' # decimal (nat (- sint i)) else decimal (nat (sint i)))
    \<and> length (ss_itoa i) \<le> INT_DIGITS + 1"
proof -
  have e: "ss_itoa i = (if sint i < 0 then chr CHR ''-'' # decimal (nat (- sint i)) else decimal (nat (sint i)))"
    using itoa_loop_decimal [of 1 "sint i" "[]"] itoa_loop_decimal [of "- 1" "sint i" "[]"] by (simp add: ss_itoa_def)
  have "- (2 ^ 31) \<le> sint i" "sint i < 2 ^ 31" using sint_greater_eq [of i] sint_less [of i] by simp_all
  then have "nat \<bar>sint i\<bar> < 10 ^ 10" by simp
  then have "length (decimal (nat \<bar>sint i\<bar>)) \<le> 10" by (rule decimal_length) simp
  then show ?thesis using e by (auto simp: INT_DIGITS_def)
qed

section \<open>DSCP codes\<close>

lemma tolower_digit:
  fixes b :: byte
  assumes "c_tolower b = word_of_nat (48 + x)" "x \<le> 9"
  shows "b = word_of_nat (48 + x)"
proof (rule ccontr)
  assume "b \<noteq> word_of_nat (48 + x)"
  then have "chr CHR ''A'' \<le> b" "b \<le> chr CHR ''Z''" "b + 32 = word_of_nat (48 + x)"
    using assms(1) by (auto simp: c_tolower_def split: if_splits)
  then have "65 \<le> unat b" "unat b \<le> 90" "unat (b + 32) = unat (word_of_nat (48 + x) :: byte)"
    by (simp_all add: chr_def word_le_nat_alt)
  then have "65 \<le> unat b" "unat b \<le> 90" "unat (b + 32) = 48 + x"
    using assms(2) by (simp_all only: unat_of_nat) simp_all
  moreover have "unat (b + 32) = unat b + 32" using calculation(2) by (simp add: unat_plus_simple [THEN iffD1] unat_word_ariths)
  ultimately show False using assms(2) by simp
qed

lemma dscp_digit:
  assumes "x \<le> 9"
  shows "uint ((word_of_nat (48 + x) :: byte) - chr CHR ''0'') = int x" "unat (word_of_nat (48 + x) :: byte) = 48 + x"
proof -
  have "(word_of_nat (48 + x) :: byte) - chr CHR ''0'' = word_of_nat x" by (simp add: chr_def)
  then show "uint ((word_of_nat (48 + x) :: byte) - chr CHR ''0'') = int x" using assms by (simp add: uint_nat unat_of_nat del: of_nat_unat)
  show "unat (word_of_nat (48 + x) :: byte) = 48 + x" using assms
    by (simp only: unat_of_nat) simp
qed

lemma parse_dscp_ef: "map c_tolower str = cstr ''ef'' \<Longrightarrow> parse_dscp w str = 46"
proof -
  assume a: "map c_tolower str = cstr ''ef''"
  have "map c_tolower (cstr ''EF'') = cstr ''ef''" by (simp add: cstr_def chr_def c_tolower_def)
  moreover have "length str = 2" using arg_cong [OF a, of length] by simp
  ultimately show ?thesis using a by (simp add: parse_dscp_def DSCP_EF_def)
qed

lemma parse_dscp_cs:
  assumes a: "map c_tolower str = cstr ''cs'' @ [word_of_nat (48 + x)]" and x: "x \<le> 7"
  shows "parse_dscp w str = 8 * int x"
proof -
  have l: "length str = 3" using arg_cong [OF a, of length] by simp
  then obtain p q d where str: "str = [p, q, d]" by (auto simp: numeral_3_eq_3 length_Suc_conv)
  have "c_tolower d = word_of_nat (48 + x)" "[c_tolower p, c_tolower q] = cstr ''cs''" using a str by (simp_all add: cstr_def)
  then have d: "d = word_of_nat (48 + x)" "[c_tolower p, c_tolower q] = map c_tolower (cstr ''CS'')"
    using tolower_digit [of d x] x by (simp_all add: cstr_def chr_def c_tolower_def)
  have x9: "x \<le> 9" using x by simp
  have "c_strncaseeq str (cstr ''CS'') 2" using d(2) str by (simp add: c_strncaseeq_def cstr_def)
  moreover have "chr CHR ''0'' \<le> str ! 2" "str ! 2 \<le> chr CHR ''7''"
    using str d(1) dscp_digit(2) [OF x9] x by (simp_all add: word_le_nat_alt chr_def)
  moreover have "uint (str ! 2 - chr CHR ''0'') = int x" using str d(1) dscp_digit(1) [OF x9] by simp
  ultimately show ?thesis using l by (simp add: parse_dscp_def DSCP_CS_LEN_def push_bit_eq_mult)
qed

lemma parse_dscp_af:
  assumes a: "map c_tolower str = cstr ''af'' @ [word_of_nat (48 + x), word_of_nat (48 + y)]"
    and x: "1 \<le> x" "x \<le> 4" and y: "1 \<le> y" "y \<le> 3"
  shows "parse_dscp w str = 8 * int x + 2 * int y"
proof -
  have l: "length str = 4" using arg_cong [OF a, of length] by simp
  then obtain p q d e where str: "str = [p, q, d, e]" by (auto simp: numeral_eq_Suc length_Suc_conv)
  have "c_tolower d = word_of_nat (48 + x)" "c_tolower e = word_of_nat (48 + y)" "[c_tolower p, c_tolower q] = cstr ''af''"
    using a str by (simp_all add: cstr_def)
  then have d: "d = word_of_nat (48 + x)" "e = word_of_nat (48 + y)" "[c_tolower p, c_tolower q] = map c_tolower (cstr ''AF'')"
    using tolower_digit [of d x] tolower_digit [of e y] x y by (simp_all add: cstr_def chr_def c_tolower_def)
  have xy: "x \<le> 9" "y \<le> 9" using x y by simp_all
  have "c_strncaseeq str (cstr ''AF'') 2" using d(3) str by (simp add: c_strncaseeq_def cstr_def)
  moreover have "chr CHR ''1'' \<le> str ! 2" "str ! 2 \<le> chr CHR ''4''" "chr CHR ''1'' \<le> str ! 3" "str ! 3 \<le> chr CHR ''3''"
    using str d(1,2) dscp_digit(2) [OF xy(1)] dscp_digit(2) [OF xy(2)] x y by (simp_all add: word_le_nat_alt chr_def)
  moreover have "push_bit 3 (uint (str ! 2 - chr CHR ''0'')) OR push_bit 1 (uint (str ! 3 - chr CHR ''0'')) = 8 * int x + 2 * int y"
  proof -
    have "x \<in> {1, 2, 3, 4}" "y \<in> {1, 2, 3}" using x y by auto
    then show ?thesis using str d(1,2) dscp_digit(1) [OF xy(1)] dscp_digit(1) [OF xy(2)] by auto
  qed
  ultimately show ?thesis using l by (simp add: parse_dscp_def DSCP_CS_LEN_def DSCP_AF_LEN_def)
qed

end
