(* ===== verification/JconfProps.thy ===== *)
theory JconfProps
  imports JconfCorrect
begin

text \<open>
  The properties of the configuration: the DSCP names and numbers, what \<open>read_jconf\<close> makes of a file, and the forms of
  an address that \<open>parse_addr\<close> takes apart.
\<close>

declare spec_run.simps [code]

section \<open>DSCP values\<close>

text \<open>\<open>strtol\<close> reads back a decimal number.\<close>

lemma strtol_decimal: "strtol_digits 10 acc (decimal n) = (acc * 10 ^ length (decimal n) + n, [])"
proof (induction n arbitrary: acc rule: decimal.induct)
  case (1 n)
  have split: "strtol_digits 10 acc (xs @ ys) = strtol_digits 10 (fst (strtol_digits 10 acc xs)) ys"
    if "snd (strtol_digits 10 acc xs) = []" for xs ys acc
    using that by (induction xs arbitrary: acc) (auto split: if_splits)
  have d: "digit_value (word_of_nat (48 + n mod 10)) = n mod 10"
  proof -
    have "(word_of_nat (48 + n mod 10) :: byte) - chr CHR ''0'' = word_of_nat (n mod 10)" by (simp add: chr_def)
    moreover have "unat (word_of_nat (n mod 10) :: byte) = n mod 10" by (simp add: unat_of_nat)
    moreover have "c_isdigit (word_of_nat (48 + n mod 10))" using decimal_digit(1) [of "n mod 10"]
      by (simp add: c_isdigit_def json_isdigit_def)
    ultimately show ?thesis by (simp add: digit_value_def)
  qed
  show ?case
  proof (cases "n < 10")
    case True
    then show ?thesis using d by (simp add: decimal.simps [of n])
  next
    case False
    then show ?thesis using d split [of acc "decimal (n div 10)" "[word_of_nat (48 + n mod 10)]"] 1 [of acc]
      by (simp add: decimal.simps [of n] algebra_simps)
  qed
qed

lemma decimal_hd_pos: "0 < n \<Longrightarrow> hd (decimal n) \<noteq> chr CHR ''0''"
proof (induction n rule: less_induct)
  case (less n)
  then show ?case
    using decimal_digit(3) [of n] decimal_not_Nil [of "n div 10"] less.IH [of "n div 10"]
    by (cases "n < 10") (simp_all add: decimal.simps [of n] hd_append)
qed

lemma isdigit_bounds:
  assumes "json_isdigit b"
  shows "48 \<le> unat b \<and> unat b \<le> 57" using assms by (simp add: json_isdigit_def chr_def word_le_nat_alt)

lemma strtol_of_decimal:
  assumes "0 < n" "int n < 2 ^ (w - 1)"
  shows "c_strtol w (decimal n) = (int n, [])"
proof -
  obtain b bs where b: "decimal n = b # bs" using decimal_not_Nil by (cases "decimal n") auto
  have d: "json_isdigit b" "b \<noteq> chr CHR ''0''" using decimal_hd(1) [of n] decimal_hd_pos [OF assms(1)] b by auto
  then have u: "48 \<le> unat b" "unat b \<le> 57" using isdigit_bounds by auto
  have "\<not> c_isspace b"
  proof
    assume "c_isspace b"
    then show False using u by (auto simp: c_isspace_def word_le_nat_alt)
  qed
  moreover have "b \<noteq> chr CHR ''-''" "b \<noteq> chr CHR ''+''" using u by (auto simp: chr_def)
  moreover have "strtol_base (decimal n) = (10, decimal n)" using b d(2) by (simp add: strtol_base_def)
  moreover have "digit_value b < 10"
    using strtol_decimal [of 0 n] b by (auto split: if_splits)
  moreover have "- (2 ^ (w - 1)) \<le> int n" by (rule order_trans [of _ 0]) simp_all
  ultimately show ?thesis
    using b strtol_decimal [of 0 n] assms(2) by (simp add: c_strtol_def)
qed

lemma parse_dscp_decimal:
  assumes "n < 2 ^ 31" "32 \<le> w"
  shows "parse_dscp w (decimal n) = (if n \<le> 63 then int n else DSCP_DEFAULT)"
proof (cases "n = 0")
  case True
  have "decimal 0 = [48]" by (simp add: decimal.simps)
  moreover have "c_strtol w [48] = (0, [])"
    by (simp add: c_strtol_def strtol_base_def c_isspace_def chr_def digit_value_def c_isdigit_def)
  ultimately show ?thesis using True by (simp add: parse_dscp_def DSCP_CS_LEN_def DSCP_AF_LEN_def DSCP_MIN_def DSCP_MAX_def)
next
  case False
  obtain b bs where b: "decimal n = b # bs" using decimal_not_Nil by (cases "decimal n") auto
  then have "json_isdigit b" using decimal_hd(1) [of n] by simp
  then have u: "48 \<le> unat b" "unat b \<le> 57" using isdigit_bounds by auto
  then have "c_tolower b = b" by (auto simp: c_tolower_def word_le_nat_alt chr_def)
  moreover have "b \<noteq> chr CHR ''e''" "b \<noteq> chr CHR ''c''" "b \<noteq> chr CHR ''a''" using u by (auto simp: chr_def)
  moreover have "map c_tolower (cstr ''EF'') = cstr ''ef''" "map c_tolower (cstr ''CS'') = cstr ''cs''" "map c_tolower (cstr ''AF'') = cstr ''af''"
    by (simp_all add: cstr_def chr_def c_tolower_def)
  ultimately have ne: "map c_tolower (decimal n) \<noteq> map c_tolower (cstr ''EF'')" "\<not> c_strncaseeq (decimal n) (cstr ''CS'') 2"
     "\<not> c_strncaseeq (decimal n) (cstr ''AF'') 2"
    using b by (auto simp: c_strncaseeq_def cstr_def chr_def c_tolower_def)
  have "(2::int) ^ 31 \<le> 2 ^ (w - 1)" using assms(2) by (intro power_increasing) auto
  moreover have "int n < 2 ^ 31" using assms(1) by simp
  ultimately have "int n < 2 ^ (w - 1)" by linarith
  then have s: "c_strtol w (decimal n) = (int n, [])" using strtol_of_decimal [of n w] False by simp
  have "sint (word_of_int (int n) :: 32 word) = int n"
    using assms(1) by (simp only: sint_sbintrunc') (simp add: signed_take_bit_int_eq_self)
  then show ?thesis using ne s by (simp add: parse_dscp_def DSCP_MIN_def DSCP_MAX_def)
qed

text \<open>\<open>parse_dscp\<close> on the named classes, on decimal numbers, and its range on any text.\<close>

theorem parse_dscp_values:
  "0 \<le> parse_dscp w str \<and> parse_dscp w str \<le> 63
   \<and> (map c_tolower str = cstr ''ef'' \<longrightarrow> parse_dscp w str = 46)
   \<and> (x \<le> 7 \<and> map c_tolower str = cstr ''cs'' @ [word_of_nat (48 + x)] \<longrightarrow> parse_dscp w str = 8 * int x)
   \<and> (1 \<le> x \<and> x \<le> 4 \<and> 1 \<le> y \<and> y \<le> 3 \<and> map c_tolower str = cstr ''af'' @ [word_of_nat (48 + x), word_of_nat (48 + y)]
        \<longrightarrow> parse_dscp w str = 8 * int x + 2 * int y)
   \<and> (32 \<le> w \<and> n < 2 ^ 31 \<and> str = decimal n \<longrightarrow> parse_dscp w str = (if n \<le> 63 then int n else DSCP_DEFAULT))"
  using parse_dscp_range parse_dscp_ef parse_dscp_cs parse_dscp_af parse_dscp_decimal by blast

theorem parse_dscp_values_witness:
  "parse_dscp 64 (cstr ''aF42'') = 36 \<and> parse_dscp 64 (cstr ''CS6'') = 48 \<and> parse_dscp 64 (cstr ''Ef'') = 46
   \<and> parse_dscp 64 (decimal 63) = 63 \<and> parse_dscp 64 (decimal 64) = 0"
proof -
  have "map c_tolower (cstr ''aF42'') = cstr ''af'' @ [word_of_nat (48 + 4), word_of_nat (48 + 2)]"
    "map c_tolower (cstr ''CS6'') = cstr ''cs'' @ [word_of_nat (48 + 6)]" "map c_tolower (cstr ''Ef'') = cstr ''ef''"
    by (simp_all add: cstr_def chr_def c_tolower_def)
  then show ?thesis
    using parse_dscp_values [of 64 "cstr ''aF42''" 4 2 0] parse_dscp_values [of 64 "cstr ''CS6''" 6 2 0]
      parse_dscp_values [of 64 "cstr ''Ef''"] parse_dscp_values [of 64 "decimal 63" 0 0 63]
      parse_dscp_values [of 64 "decimal 64" 0 0 64]
    by (simp add: DSCP_DEFAULT_def)
qed

section \<open>Properties\<close>

text \<open>C16 (refinement): \<open>read_jconf\<close> gives the settings that the members of the file's object describe, taken in order and
  converted; the counts of servers, passwords and DSCP values never exceed their arrays, and the memory of the parsed
  value is released.  A file that the reference parser rejects makes it follow a null pointer.\<close>

theorem read_jconf_result:
  assumes "length txt \<le> 2 ^ 23" "\<And>n. malloc n"
  shows "case json_reference False txt of
      Some (Accept v) \<Rightarrow> \<exists>s. read_jconf w bits malloc (Some txt) = Some (tree_conf w bits v, s) \<and> json_empty s
        \<and> jconf_ok (tree_conf w bits v)
    | _ \<Rightarrow> read_jconf w bits malloc (Some txt) = None"
  using read_jconf_settings [OF assms] tree_conf_ok [of w bits] by (auto split: option.splits json_progress.splits)

definition sample_config :: bytes where
  "sample_config = cstr ''{'' @ print_string (cstr ''server_port'') @ cstr '':8388,'' @ print_string (cstr ''mode'') @ cstr '':''
     @ print_string (cstr ''udp_only'') @ cstr '',''
     @ print_string (cstr ''dscp'') @ cstr '':{'' @ print_string (cstr ''80'') @ cstr '':'' @ print_string (cstr ''AF21'') @ cstr ''}}''"

theorem read_jconf_result_witness:
  "\<exists>c s. read_jconf 64 (\<lambda>d. 0) (\<lambda>n. True) (Some sample_config) = Some (c, s) \<and> json_empty s \<and> jconf_ok c
   \<and> jc_remote_port c = Some (cstr ''8388'') \<and> jc_mode c = UDP_ONLY \<and> jc_dscp_num c = 1
   \<and> jc_dscp c ! 0 = \<lparr>sd_port = Some (cstr ''80''), sd_dscp = 18\<rparr>"
proof -
  let ?v = "JObject [(cstr ''server_port'', JInteger 8388), (cstr ''mode'', JString (cstr ''udp_only'')),
    (cstr ''dscp'', JObject [(cstr ''80'', JString (cstr ''AF21''))])]"
  have "json_reference False sample_config = Some (Accept ?v)" by code_simp
  moreover have "length sample_config \<le> 2 ^ 23"
    by (simp add: sample_config_def print_string_def print_byte_def cstr_def chr_def)
  moreover have "jc_remote_port (tree_conf 64 (\<lambda>d. 0) ?v) = Some (cstr ''8388'')" by code_simp
  moreover have "jc_mode (tree_conf 64 (\<lambda>d. 0) ?v) = UDP_ONLY" by code_simp
  moreover have "jc_dscp_num (tree_conf 64 (\<lambda>d. 0) ?v) = 1" by code_simp
  moreover have "jc_dscp (tree_conf 64 (\<lambda>d. 0) ?v) ! 0 = \<lparr>sd_port = Some (cstr ''80''), sd_dscp = 18\<rparr>" by code_simp
  ultimately show ?thesis using read_jconf_result [of sample_config "\<lambda>n. True" 64 "\<lambda>d. 0"] by auto
qed

text \<open>C19 (functional): \<open>parse_addr\<close> separates host and port.  \<open>host:port\<close> is split at its only colon and
  \<open>[v6]:port\<close> at its bracket, \<open>[v6]\<close> loses its brackets, and a literal IP address is kept whole.\<close>

theorem parse_addr_host_port:
  assumes "fst (cork_ip_init (host @ chr CHR '':'' # port)) = - 1" "chr CHR '':'' \<notin> set host" "chr CHR '':'' \<notin> set port"
    and "fst (cork_ip_init (chr CHR ''['' # v6 @ [chr CHR '']'', chr CHR '':''] @ port)) = - 1"
      "fst (cork_ip_init (chr CHR ''['' # v6 @ [chr CHR '']''])) = - 1" "chr CHR '']'' \<notin> set v6" "2 \<le> count_list v6 (chr CHR '':'')"
    and "fst (cork_ip_init ip) = 0"
  shows "parse_addr (Some (host @ chr CHR '':'' # port)) addr = \<lparr>addr_host = Some host, addr_port = Some port\<rparr>
    \<and> parse_addr (Some (chr CHR ''['' # v6 @ [chr CHR '']'', chr CHR '':''] @ port)) addr = \<lparr>addr_host = Some v6, addr_port = Some port\<rparr>
    \<and> parse_addr (Some (chr CHR ''['' # v6 @ [chr CHR '']''])) addr = \<lparr>addr_host = Some v6, addr_port = None\<rparr>
    \<and> parse_addr (Some ip) addr = \<lparr>addr_host = Some ip, addr_port = None\<rparr>"
  using parse_addr_forms [OF assms] by blast

theorem parse_addr_host_port_witness:
  "parse_addr (Some (cstr ''a.b:80'')) \<lparr>addr_host = None, addr_port = None\<rparr> = \<lparr>addr_host = Some (cstr ''a.b''), addr_port = Some (cstr ''80'')\<rparr>
   \<and> parse_addr (Some (cstr ''[::1]:80'')) \<lparr>addr_host = None, addr_port = None\<rparr> = \<lparr>addr_host = Some (cstr ''::1''), addr_port = Some (cstr ''80'')\<rparr>
   \<and> parse_addr (Some (cstr ''[::1]'')) \<lparr>addr_host = None, addr_port = None\<rparr> = \<lparr>addr_host = Some (cstr ''::1''), addr_port = None\<rparr>
   \<and> parse_addr (Some (cstr ''1.2.3.4'')) \<lparr>addr_host = None, addr_port = None\<rparr> = \<lparr>addr_host = Some (cstr ''1.2.3.4''), addr_port = None\<rparr>"
proof -
  have "fst (cork_ip_init (cstr ''a.b'' @ chr CHR '':'' # cstr ''80'')) = - 1"
    "fst (cork_ip_init (chr CHR ''['' # cstr ''::1'' @ [chr CHR '']'', chr CHR '':''] @ cstr ''80'')) = - 1"
    "fst (cork_ip_init (chr CHR ''['' # cstr ''::1'' @ [chr CHR '']''])) = - 1"
    "fst (cork_ip_init (cstr ''1.2.3.4'')) = 0"
    by code_simp+
  then show ?thesis
    using parse_addr_host_port [of "cstr ''a.b''" "cstr ''80''" "cstr ''::1''" "cstr ''1.2.3.4''" "\<lparr>addr_host = None, addr_port = None\<rparr>"]
    by (simp add: cstr_def chr_def)
qed

end
