(* ===== verification/Spec2Isabelle.thy ===== *)
theory Spec2Isabelle
  imports ServerCorrect JsonCorrect JconfProps
begin

text \<open>
  A verification development for the proxy server of the smartsocks Android app: the native library
  \<open>src/ssserver/src/main/jni/shadowsocks-libev\<close>, a fork of shadowsocks-libev, with the parts of \<open>libbloom\<close>,
  \<open>libcork\<close>, \<open>libipset\<close> and \<open>libsodium\<close> that it executes.  Paths below are relative to that directory.

  \<^bold>\<open>The program.\<close>  A client opens a TCP connection or sends a UDP packet, encrypted under a key derived from a shared
  password.  The server decrypts it, reads the address of the destination from the front of the plaintext, resolves it
  if it is a name, connects, and relays in both directions.  It is a single thread around libev: the callbacks of
  \<open>src/server.c\<close> (TCP) and \<open>src/udprelay.c\<close> (UDP) share the cipher (\<open>src/crypto.c\<close>, \<open>aead.c\<close>, \<open>stream.c\<close>), the replay filter
  (\<open>ppbloom.c\<close>), the access control lists and the block list (\<open>acl.c\<close>), and the resolver (\<open>resolv.c\<close>).  Before it starts the
  server reads its settings from a JSON file (\<open>json.c\<close>, \<open>jconf.c\<close>).

  \<^bold>\<open>Theories, in the order of their imports.\<close>

  \<^item> \<open>Prelude\<close>: bytes, writes into C arrays (\<open>write_at\<close>), big-endian fields, and the locale \<open>recency_window\<close> of memories
    that remember the last additions; the replay filter and the block list interpret it.
  \<^item> \<open>Base64\<close> (\<open>base64.c\<close>): codec of the pre-shared key; the bit accumulators are 32-bit words.  Decoding inverts encoding;
    the result on every input.
  \<^item> \<open>Bloom\<close>, \<open>PPBloom\<close> (\<open>libbloom\<close>, \<open>ppbloom.c\<close>): MurmurHash2 on 32-bit words, the Bloom filter, the pair of filters that
    replace each other.  Each access to a bit array is checked and \<open>None\<close> outside it; no access of a well-formed filter is.  No
    false negatives, a salt is remembered for \<open>entries\<close> further additions, and what happens when a rotation cannot allocate
    (\<open>pp_safe\<close> is what then remains of the invariant).
  \<^item> \<open>Crypto\<close> (\<open>crypto.c\<close>): the growing buffer \<open>buffer_t\<close> (its length, offset, capacity and memory), EVP_BytesToKey, HKDF
    and pre-shared keys; HKDF is proved equal to RFC 5869.
  \<^item> \<open>Aead\<close>, \<open>AeadStream\<close> (\<open>aead.c\<close>): packets and chunked streams.  Memory safety on arbitrary input, delivery for every
    segmentation of the stream, a replayed salt refused for every segmentation, a salt recorded once, key set-up.
  \<^item> \<open>StreamCipher\<close> (\<open>stream.c\<close>), \<open>CryptoInit\<close> (\<open>crypto_init\<close>): the stream ciphers, the choice of the cipher, and the locale
    \<open>packet_cipher\<close>, interpreted by both families.
  \<^item> \<open>Cache\<close>, \<open>BlockList\<close> (\<open>cache.c\<close>, \<open>acl.c\<close>): the LRU cache with ownership of its data; when an address is refused.
  \<^item> \<open>IpAddress\<close>, \<open>NetUtils\<close> (\<open>libcork/.../ip-address.c\<close>, \<open>netutils.c\<close>): addresses as text and bytes, host names.
  \<^item> \<open>Sniffers\<close> (\<open>http.c\<close>, \<open>tls.c\<close>): host names in HTTP requests and TLS client hellos.  Every read, comparison and copy is
    checked against the packet.
  \<^item> \<open>IpSet\<close>, \<open>IpSetCorrect\<close> (\<open>libipset\<close>): sets of addresses as reduced ordered binary decision diagrams with shared,
    reference-counted nodes.  They implement mathematical sets (locale \<open>address_set\<close>, interpreted for IPv4 and IPv6), the
    comparison of two sets decides whether they have the same addresses, and releasing a set frees every node.
  \<^item> \<open>Acl\<close> (\<open>rule.c\<close>, \<open>acl.c\<close>): reading the list file, lookups and run-time edits refine a declarative reading of the file.
  \<^item> \<open>Resolv\<close> (\<open>resolv.c\<close>): the answers of c-ares in either order.
  \<^item> \<open>UdpRelay\<close>, \<open>UdpRelayCorrect\<close> (\<open>udprelay.c\<close>): header codec, association table over an explicit heap, all callbacks, the
    reachable states (\<open>udp_step\<close>, \<open>udp_reach\<close>), their invariant, memory safety up to one exactly characterised use after
    free, and an exchange through the relay.
  \<^item> \<open>Server\<close> (\<open>server.c\<close>): connections, destinations and queries as three maps from numbers to records that point at each
    other; every callback; the trace of what was received, decrypted, encrypted and sent.  \<open>ServerInv\<close> states the
    invariant and the rules for changing one connection, \<open>ServerSteps\<close> and \<open>ServerCallbacks\<close> prove it for each callback
    inside the locale \<open>connection_cipher\<close>, and \<open>ServerCorrect\<close> interprets the locale with the AEAD ciphers and draws the
    conclusions: memory safety, delivery in both directions, shutdown.
  \<^item> \<open>Json\<close> (\<open>json.c\<close>): the parser, which runs the same loop twice over the text, first to count and to allocate the values, then
    to fill in arrays, member tables and strings, over an explicit heap.  \<open>JsonSpec\<close> is the reference: a parser without
    memory that reads the text once and keeps the open values on a stack.  \<open>JsonFirst\<close>, \<open>JsonFirstStep\<close> and \<open>JsonPass\<close> relate the first
    pass to it, \<open>JsonSecond\<close>, \<open>JsonSecondStep\<close> and \<open>JsonSecondPass\<close> the second, each with an invariant kept by every iteration;
    \<open>JsonParse\<close> puts them together and proves the release functions, \<open>JsonPrint\<close> has a printer whose texts the reference parser
    reads back, and \<open>JsonCorrect\<close> states the properties.
  \<^item> \<open>Jconf\<close>, \<open>JconfCorrect\<close>, \<open>JconfProps\<close> (\<open>jconf.c\<close> and three functions of \<open>utils.c\<close>): every option of the file, read through the
    pointers of the parsed value; the settings are a fold over the members of its tree.

  \<^bold>\<open>How C is rendered.\<close>  A byte is an \<open>8 word\<close>; counters that may wrap are words (\<open>32 word\<close> hashes and traffic counters of
  64 bits), sizes that the code keeps far below their width are \<open>nat\<close>.  Memory is a byte list with its size: functions
  that check their bounds by assertion return \<open>ABORTED\<close> or \<open>Exit\<close>, and reads through \<open>rd\<close>, accesses to the filters' arrays and
  heap accesses return \<open>None\<close>, \<open>Undefined\<close> or \<open>Crash\<close> out of range, so that memory safety is a theorem; a cipher
  function in which the filter's access is \<open>None\<close> returns \<open>ABORTED\<close>.  Fresh memory reads as zero.  The static variables
  of a file are a record that its functions take and return; allocated objects that point at each other are maps, and
  an object that is not in the map has been freed.  Results of \<open>malloc\<close>, \<open>calloc\<close>, system calls, clocks and the random
  generator are arguments.  The macro \<open>FATAL\<close> of this fork logs and does not exit, and is modelled so.  \<open>double\<close>s (filter
  sizes, clocks) are real numbers.  The build is the server's: \<open>MODULE_REMOTE\<close>, no \<open>MODULE_LOCAL\<close>, \<open>REDIR\<close> or \<open>TUNNEL\<close> code.

  \<^bold>\<open>Parameters.\<close>  mbed TLS and libsodium primitives are the record \<open>crypto_lib\<close>, and what is required of them (opening
  inverts sealing, a tag has 16 bytes, HMAC inputs and digests have their lengths) are the predicates \<open>aead_lib_ok\<close>, \<open>md_ok\<close>,
  \<open>xor_ic_ok\<close>; \<open>lib_demo\<close> satisfies them, so that every theorem about ciphers has a witness.  \<open>inet_pton\<close>, \<open>inet_ntop\<close> and
  \<open>getaddrinfo\<close> are the record \<open>net_lib\<close>, libpcre is \<open>regex_lib\<close>; c-ares is the order and content of its answers.  No
  confidentiality or authenticity is claimed of the primitives; the theorems are about the code around them.

  \<^bold>\<open>Recursion.\<close>  Loops over data are structural or have a \<open>termination\<close> proof by a measure (for example \<open>aead_decrypt_loop\<close>: the
  chunk buffer shrinks; \<open>derive_loop\<close>: each round adds a digest, bounded by the key length).  The recursive functions of the
  decision diagrams follow ids through a store and need not return on an ill-formed one, so they are \<open>partial_function\<close>s in
  the option monad; \<open>ipset_refinement\<close> and \<open>ipset_done_frees\<close> prove that they return in every state that the operations
  reach.  The loops of the JSON parser go to the end of the text or fail, and those of its release functions along chains of
  pointers, so they are \<open>partial_function\<close>s too; \<open>json_parse_and_release\<close> and \<open>json_first_pass_any_malloc\<close> include that they return.
  \<open>resolve_loop\<close> and \<open>create_and_bind\<close> retry a bounded number of times, as the code does.

  \<^bold>\<open>Simplifications that matter for reading the theorems.\<close>  The hash tables of uthash and libcork are maps with the
  application order that the callers observe; the node store of libipset is one list instead of chunks, with a free
  list of indices and counters of 32 bits.  Timers and watchers are Boolean flags of their objects: a step of the event
  loop may fire any watcher that is active.  Socket options and logging are left out.  The theorems about the JSON parser
  are for texts of at most 2^23 bytes, of which \<open>read_jconf\<close> expects less than 2^17: then no counter of 32 bits wraps.  A
  \<open>double\<close> of the JSON text is kept as the expression that computes it, and \<open>bits\<close> is its representation; \<open>w\<close> is the width of
  \<open>long\<close>.

  \<^bold>\<open>Not modelled.\<close>  The option loop, the daemon and signal set-up and the statistics timer of \<open>ss_server_main\<close>; the functions
  of \<open>utils.c\<close> that are system calls or print; \<open>plugin.c\<close> and \<open>android.c\<close>, which only start processes and pass
  descriptors; \<open>local.c\<close>, \<open>redir.c\<close>, \<open>tunnel.c\<close> and \<open>manager.c\<close>, which are other programs of the package and not part of the
  app's library; the vendored libraries \<open>mbedtls\<close>, \<open>libsodium\<close> (but \<open>sodium_increment\<close>), \<open>libev\<close>, \<open>pcre\<close> and c-ares, of which
  the behaviour relied on is stated instead; the JNI bridge and the Kotlin user interface.
\<close>

end
